(* ===== verification/Prelude.thy ===== *)
theory Prelude
  imports Main "HOL-Library.Word" "HOL-Library.Monad_Syntax"
begin

text \<open>
  Shared vocabulary of the development: the machine integers of the kernel (RISC-V, LP64), the
  error codes of \<^verbatim>\<open>libs/error.h\<close>, the rounding macros of \<^verbatim>\<open>libs/defs.h\<close>, the model of
  \<^verbatim>\<open>assert\<close> and \<^verbatim>\<open>panic\<close>, and generic lemmas on lists and options.

  A C function that can hit an \<^verbatim>\<open>assert\<close> or a \<^verbatim>\<open>panic\<close> has a result of type
  \<open>'a option\<close> here: \<open>None\<close> is the halted kernel. A C return code stays an \<open>int\<close>,
  \<open>0\<close> or \<open>- E_X\<close>, as in the source.
\<close>

unbundle bit_operations_syntax

section \<open>Machine integers\<close>

type_synonym u8 = "8 word"
type_synonym u16 = "16 word"
type_synonym u32 = "32 word"
type_synonym s32 = "32 word"
type_synonym u64 = "64 word"

section \<open>Collections of rewrite rules\<close>

named_theorems kstate "projections and updates of the kernel's state, in simplification form"
named_theorems kerr "the error codes as numbers"

section \<open>Error codes (libs/error.h)\<close>

definition E_UNSPECIFIED :: int where "E_UNSPECIFIED = 1"
definition E_BAD_PROC :: int where "E_BAD_PROC = 2"
definition E_INVAL :: int where "E_INVAL = 3"
definition E_NO_MEM :: int where "E_NO_MEM = 4"
definition E_NO_FREE_PROC :: int where "E_NO_FREE_PROC = 5"
definition E_FAULT :: int where "E_FAULT = 6"
definition E_SWAP_FAULT :: int where "E_SWAP_FAULT = 7"
definition E_INVAL_ELF :: int where "E_INVAL_ELF = 8"
definition E_KILLED :: int where "E_KILLED = 9"
definition E_PANIC :: int where "E_PANIC = 10"
definition E_TIMEOUT :: int where "E_TIMEOUT = 11"
definition E_TOO_BIG :: int where "E_TOO_BIG = 12"
definition E_NO_DEV :: int where "E_NO_DEV = 13"
definition E_NA_DEV :: int where "E_NA_DEV = 14"
definition E_BUSY :: int where "E_BUSY = 15"
definition E_NOENT :: int where "E_NOENT = 16"
definition E_ISDIR :: int where "E_ISDIR = 17"
definition E_NOTDIR :: int where "E_NOTDIR = 18"
definition E_XDEV :: int where "E_XDEV = 19"
definition E_UNIMP :: int where "E_UNIMP = 20"
definition E_SEEK :: int where "E_SEEK = 21"
definition E_MAX_OPEN :: int where "E_MAX_OPEN = 22"
definition E_EXISTS :: int where "E_EXISTS = 23"
definition E_NOTEMPTY :: int where "E_NOTEMPTY = 24"
definition MAXERROR :: int where "MAXERROR = 24"

lemmas error_code_defs [kerr] =
  E_UNSPECIFIED_def E_BAD_PROC_def E_INVAL_def E_NO_MEM_def E_NO_FREE_PROC_def E_FAULT_def
  E_SWAP_FAULT_def E_INVAL_ELF_def E_KILLED_def E_PANIC_def E_TIMEOUT_def E_TOO_BIG_def
  E_NO_DEV_def E_NA_DEV_def E_BUSY_def E_NOENT_def E_ISDIR_def E_NOTDIR_def E_XDEV_def
  E_UNIMP_def E_SEEK_def E_MAX_OPEN_def E_EXISTS_def E_NOTEMPTY_def MAXERROR_def

section \<open>Assertions and panics (kern/debug/assert.h, kern/debug/panic.c)\<close>

text \<open>
  \<^verbatim>\<open>assert(x)\<close> calls \<^verbatim>\<open>panic\<close> when \<open>x\<close> is false, and \<^verbatim>\<open>panic\<close> shuts the machine
  down and never returns. The rest of the function runs only when the condition holds.
\<close>

definition kassert :: "bool \<Rightarrow> unit option" where
  "kassert b = (if b then Some () else None)"

lemma kassert_True [simp]: "kassert True = Some ()"
  by (simp add: kassert_def)

lemma kassert_False [simp]: "kassert False = None"
  by (simp add: kassert_def)

lemma kassert_eq_Some [simp]: "kassert b = Some u \<longleftrightarrow> b"
  by (simp add: kassert_def)

lemma kassert_bind_Some [simp]: "(kassert b \<bind> f = Some r) \<longleftrightarrow> b \<and> f () = Some r"
  by (simp add: kassert_def)

section \<open>Rounding (libs/defs.h) and the size of a page (kern/mm/mmu.h)\<close>

definition PGSIZE :: u64 where "PGSIZE = 4096"

definition ROUNDDOWN :: "u64 \<Rightarrow> u64 \<Rightarrow> u64" where
  "ROUNDDOWN a n = a - a mod n"

definition ROUNDUP :: "u64 \<Rightarrow> u64 \<Rightarrow> u64" where
  "ROUNDUP a n = ROUNDDOWN (a + n - 1) n"

definition ROUNDUP_DIV :: "u64 \<Rightarrow> u64 \<Rightarrow> u64" where
  "ROUNDUP_DIV a n = (a + n - 1) div n"

lemma unat_ROUNDDOWN: "unat (ROUNDDOWN a n) = unat a div unat n * unat n"
proof -
  have "unat (a - a mod n) = unat a - unat (a mod n)"
    by (metis unat_mod_distrib mod_less_eq_dividend unat_sub word_le_nat_alt)
  then show ?thesis
    by (simp add: ROUNDDOWN_def unat_mod_distrib minus_mod_eq_div_mult)
qed

lemma ROUNDDOWN_le: "ROUNDDOWN a n \<le> a"
  by (simp add: word_le_nat_alt unat_ROUNDDOWN)

lemma unat_add_pred:
  fixes a n :: u64
  assumes "n \<noteq> 0" and "unat a + unat n \<le> 2 ^ 64"
  shows "unat (a + n - 1) = unat a + unat n - 1"
proof -
  have n1: "1 \<le> unat n"
    using assms(1) by (simp add: unat_gt_0 Suc_le_eq)
  have "unat (n - 1) = unat n - 1"
    using assms(1) by (simp add: unat_minus_one)
  moreover from this have "unat a + unat (n - 1) < 2 ^ 64"
    using assms(2) n1 by simp
  then have "unat (a + (n - 1)) = unat a + unat (n - 1)"
    by (simp add: unat_word_ariths)
  ultimately show ?thesis
    using n1 by (simp add: add_diff_eq)
qed

lemma unat_ROUNDUP:
  assumes "n \<noteq> 0" and "unat a + unat n \<le> 2 ^ 64"
  shows "unat (ROUNDUP a n) = (unat a + unat n - 1) div unat n * unat n"
  using assms by (simp add: ROUNDUP_def unat_ROUNDDOWN unat_add_pred)

section \<open>Lists and options\<close>

lemma option_bind_eq_Some: "(m \<bind> f = Some r) \<longleftrightarrow> (\<exists>x. m = Some x \<and> f x = Some r)"
  by (cases m) auto

lemma distinct_middle: "distinct (xs @ e # ys) \<Longrightarrow> e \<notin> set xs \<and> e \<notin> set ys"
  by auto

lemma distinct_insert_middle:
  "xs = ys @ t # zs \<Longrightarrow> ys @ zs = ws \<Longrightarrow> distinct ws \<Longrightarrow> t \<notin> set ws \<Longrightarrow> distinct xs"
  by auto

lemma remove1_middle: "e \<notin> set xs \<Longrightarrow> remove1 e (xs @ e # ys) = xs @ ys"
  by (induction xs) auto

lemma split_list_distinct:
  assumes "e \<in> set xs" and "distinct xs"
  obtains ys zs where "xs = ys @ e # zs" and "e \<notin> set ys" and "e \<notin> set zs"
proof -
  from assms(1) obtain ys zs where "xs = ys @ e # zs"
    by (meson split_list)
  with assms(2) that show ?thesis by auto
qed

section \<open>Hashing (libs/hash.c)\<close>

definition GOLDEN_RATIO_PRIME_32 :: u32 where "GOLDEN_RATIO_PRIME_32 = 0x9e370001"

definition hash32 :: "u32 \<Rightarrow> nat \<Rightarrow> u32" where
  "hash32 val bits = drop_bit (32 - bits) (val * GOLDEN_RATIO_PRIME_32)"

lemma hash32_bound:
  assumes "bits \<le> 32"
  shows "unat (hash32 val bits) < 2 ^ bits"
proof -
  let ?x = "val * GOLDEN_RATIO_PRIME_32"
  have "unat ?x < 2 ^ (32 - bits) * 2 ^ bits"
    using unsigned_less [of ?x] assms by (simp flip: power_add)
  then have "unat ?x div 2 ^ (32 - bits) < 2 ^ bits"
    by (simp add: less_mult_imp_div_less mult.commute)
  then show ?thesis
    unfolding hash32_def unat_drop_bit_eq by (simp only: drop_bit_eq_div)
qed

end
