(* ===== verification/Skew_Heap.thy ===== *)
theory Skew_Heap
  imports Prelude "HOL-Library.Tree_Multiset"
begin

text \<open>
  The skew heap of \<^verbatim>\<open>libs/skew_heap.h\<close>, in which the stride scheduler keeps the runnable
  processes. The first part models the functions of the header on a store of nodes with
  \<^verbatim>\<open>parent\<close>, \<^verbatim>\<open>left\<close> and \<^verbatim>\<open>right\<close> pointers (\<open>None\<close> is \<^verbatim>\<open>NULL\<close>). The second part
  gives the heap as a tree (\<open>sh_tree\<close>) and shows that the pointer functions return and compute
  \<open>merge_t\<close> and \<open>remove_t\<close> on trees. The third part proves, once and for every comparison
  function that is a total preorder on the nodes it meets (locale \<open>comparator\<close>), that these
  keep the heap order and the contents, so that the root is a minimum.
\<close>

section \<open>Nodes in memory\<close>

record 'a sh_store =
  sh_parent :: "'a \<Rightarrow> 'a option"
  sh_left :: "'a \<Rightarrow> 'a option"
  sh_right :: "'a \<Rightarrow> 'a option"

definition skew_heap_init :: "'a \<Rightarrow> 'a sh_store \<Rightarrow> 'a sh_store" where
  "skew_heap_init a s =
     s\<lparr>sh_left := (sh_left s)(a := None), sh_right := (sh_right s)(a := None),
       sh_parent := (sh_parent s)(a := None)\<rparr>"

text \<open>\<^verbatim>\<open>if (l) l->parent = a;\<close>\<close>

definition set_parent :: "'a option \<Rightarrow> 'a option \<Rightarrow> 'a sh_store \<Rightarrow> 'a sh_store" where
  "set_parent l p s =
     (case l of None \<Rightarrow> s | Some z \<Rightarrow> s\<lparr>sh_parent := (sh_parent s)(z := p)\<rparr>)"

text \<open>
  The recursive merge. It follows pointers, so on a cyclic store it would not return: \<open>None\<close>
  stands for that, and \<open>skew_heap_merge_tree\<close> below shows it never happens on heaps.
\<close>

partial_function (option) skew_heap_merge ::
  "('a \<Rightarrow> 'a \<Rightarrow> int) \<Rightarrow> 'a option \<Rightarrow> 'a option \<Rightarrow> 'a sh_store \<Rightarrow> ('a option \<times> 'a sh_store) option"
where
  "skew_heap_merge cmp a b s =
     (case a of
        None \<Rightarrow> Some (b, s)
      | Some x \<Rightarrow>
          (case b of
             None \<Rightarrow> Some (a, s)
           | Some y \<Rightarrow>
               if cmp x y = -1 then
                 Option.bind (skew_heap_merge cmp (sh_right s x) b s)
                   (\<lambda>res.
                      let r = sh_left s x; l = fst res; s' = snd res;
                          s' = s'\<lparr>sh_left := (sh_left s')(x := l)\<rparr>;
                          s' = s'\<lparr>sh_right := (sh_right s')(x := r)\<rparr>
                      in Some (a, set_parent l a s'))
               else
                 Option.bind (skew_heap_merge cmp a (sh_right s y) s)
                   (\<lambda>res.
                      let r = sh_left s y; l = fst res; s' = snd res;
                          s' = s'\<lparr>sh_left := (sh_left s')(y := l)\<rparr>;
                          s' = s'\<lparr>sh_right := (sh_right s')(y := r)\<rparr>
                      in Some (b, set_parent l b s'))))"

declare skew_heap_merge.simps [code]

definition skew_heap_insert ::
  "('a \<Rightarrow> 'a \<Rightarrow> int) \<Rightarrow> 'a option \<Rightarrow> 'a \<Rightarrow> 'a sh_store \<Rightarrow> ('a option \<times> 'a sh_store) option"
where
  "skew_heap_insert cmp a b s = skew_heap_merge cmp a (Some b) (skew_heap_init b s)"

definition skew_heap_remove ::
  "('a \<Rightarrow> 'a \<Rightarrow> int) \<Rightarrow> 'a option \<Rightarrow> 'a \<Rightarrow> 'a sh_store \<Rightarrow> ('a option \<times> 'a sh_store) option"
where
  "skew_heap_remove cmp a b s =
     (let p = sh_parent s b in
      Option.bind (skew_heap_merge cmp (sh_left s b) (sh_right s b) s)
        (\<lambda>res.
           let rep = fst res; s = set_parent rep p (snd res) in
           case p of
             Some q \<Rightarrow>
               if sh_left s q = Some b
               then Some (a, s\<lparr>sh_left := (sh_left s)(q := rep)\<rparr>)
               else Some (a, s\<lparr>sh_right := (sh_right s)(q := rep)\<rparr>)
           | None \<Rightarrow> Some (rep, s)))"

section \<open>The heap as a tree\<close>

fun sh_tree :: "'a sh_store \<Rightarrow> 'a option \<Rightarrow> 'a option \<Rightarrow> 'a tree \<Rightarrow> bool" where
  "sh_tree s par p Leaf \<longleftrightarrow> p = None"
| "sh_tree s par p (Node l x r) \<longleftrightarrow>
     p = Some x \<and> sh_parent s x = par \<and>
     sh_tree s (Some x) (sh_left s x) l \<and> sh_tree s (Some x) (sh_right s x) r"

fun merge_t :: "('a \<Rightarrow> 'a \<Rightarrow> int) \<Rightarrow> 'a tree \<Rightarrow> 'a tree \<Rightarrow> 'a tree" where
  "merge_t cmp Leaf t = t"
| "merge_t cmp (Node l x r) Leaf = Node l x r"
| "merge_t cmp (Node l1 x r1) (Node l2 y r2) =
     (if cmp x y = -1
      then Node (merge_t cmp r1 (Node l2 y r2)) x l1
      else Node (merge_t cmp (Node l1 x r1) r2) y l2)"

definition insert_t :: "('a \<Rightarrow> 'a \<Rightarrow> int) \<Rightarrow> 'a \<Rightarrow> 'a tree \<Rightarrow> 'a tree" where
  "insert_t cmp b t = merge_t cmp t (Node Leaf b Leaf)"

fun remove_t :: "('a \<Rightarrow> 'a \<Rightarrow> int) \<Rightarrow> 'a \<Rightarrow> 'a tree \<Rightarrow> 'a tree" where
  "remove_t cmp b Leaf = Leaf"
| "remove_t cmp b (Node l x r) =
     (if x = b then merge_t cmp l r
      else if b \<in> set_tree l then Node (remove_t cmp b l) x r
      else Node l x (remove_t cmp b r))"

lemma merge_t_induct [case_names Leaf1 Leaf2 Node]:
  fixes cmp :: "'a \<Rightarrow> 'a \<Rightarrow> int"
  assumes "\<And>t. P Leaf t" and "\<And>l x r. P (Node l x r) Leaf"
    and "\<And>l1 x r1 l2 y r2.
      (cmp x y = -1 \<Longrightarrow> P r1 (Node l2 y r2)) \<Longrightarrow> (cmp x y \<noteq> -1 \<Longrightarrow> P (Node l1 x r1) r2) \<Longrightarrow>
      P (Node l1 x r1) (Node l2 y r2)"
  shows "P t1 t2"
proof -
  have "cmp' = cmp \<Longrightarrow> P t1 t2" for cmp'
    using assms by (induction cmp' t1 t2 rule: merge_t.induct) auto
  then show ?thesis by simp
qed

lemma merge_t_Leaf2 [simp]: "merge_t cmp t Leaf = t"
  by (cases t) auto

lemma mset_merge_t [simp]: "mset_tree (merge_t cmp t1 t2) = mset_tree t1 + mset_tree t2"
  by (induction cmp t1 t2 rule: merge_t.induct) (auto simp: ac_simps)

lemma set_merge_t [simp]: "set_tree (merge_t cmp t1 t2) = set_tree t1 \<union> set_tree t2"
  by (metis mset_merge_t set_mset_tree set_mset_union)

text \<open>A node occurs once: the multiset of the tree has no duplicates.\<close>

definition nodup_t :: "'a tree \<Rightarrow> bool" where
  "nodup_t t \<longleftrightarrow> distinct (inorder t)"

lemma nodup_t_Leaf [simp]: "nodup_t Leaf"
  by (simp add: nodup_t_def)

lemma nodup_t_Node [simp]:
  "nodup_t (Node l x r) \<longleftrightarrow>
     nodup_t l \<and> nodup_t r \<and> x \<notin> set_tree l \<and> x \<notin> set_tree r \<and> set_tree l \<inter> set_tree r = {}"
  by (auto simp: nodup_t_def)

lemma nodup_merge_t:
  "nodup_t t1 \<Longrightarrow> nodup_t t2 \<Longrightarrow> set_tree t1 \<inter> set_tree t2 = {} \<Longrightarrow> nodup_t (merge_t cmp t1 t2)"
  by (induction cmp t1 t2 rule: merge_t.induct) auto

lemma mset_remove_t:
  "nodup_t t \<Longrightarrow> b \<in> set_tree t \<Longrightarrow> mset_tree (remove_t cmp b t) = mset_tree t - {#b#}"
proof (induction t)
  case Leaf
  then show ?case by simp
next
  case (Node l x r)
  consider "x = b" | "x \<noteq> b" "b \<in># mset_tree l" | "x \<noteq> b" "b \<notin># mset_tree l" "b \<in># mset_tree r"
    using Node.prems by auto
  then show ?case
    using Node by cases (auto dest!: multi_member_split)
qed

lemma set_remove_t:
  "nodup_t t \<Longrightarrow> b \<in> set_tree t \<Longrightarrow> set_tree (remove_t cmp b t) = set_tree t - {b}"
  by (induction t) auto

lemma nodup_remove_t: "nodup_t t \<Longrightarrow> nodup_t (remove_t cmp b t)"
proof (induction t)
  case Leaf
  then show ?case by simp
next
  case (Node l x r)
  have sub: "set_tree (remove_t cmp b t) \<subseteq> set_tree t" for t
    by (induction t) auto
  from Node sub [of l] sub [of r] show ?case by (auto simp: nodup_merge_t)
qed

section \<open>The pointer functions compute the tree functions\<close>

lemma sh_tree_frame:
  assumes "sh_tree s par p t"
    and "\<And>x. x \<in> set_tree t \<Longrightarrow>
      sh_parent s' x = sh_parent s x \<and> sh_left s' x = sh_left s x \<and> sh_right s' x = sh_right s x"
  shows "sh_tree s' par p t"
  using assms by (induction t arbitrary: par p) auto

lemma sh_tree_set_parent:
  assumes "sh_tree s par p t" and "nodup_t t"
  shows "sh_tree (set_parent p q s) q p t"
proof (cases t)
  case Leaf
  with assms show ?thesis by (simp add: set_parent_def)
next
  case (Node l x r)
  with assms show ?thesis
    by (auto simp: set_parent_def intro!: sh_tree_frame [of s "Some x"])
qed

definition same_outside :: "'a set \<Rightarrow> 'a sh_store \<Rightarrow> 'a sh_store \<Rightarrow> bool" where
  "same_outside A s s' \<longleftrightarrow>
     (\<forall>x. x \<notin> A \<longrightarrow> sh_parent s' x = sh_parent s x \<and> sh_left s' x = sh_left s x \<and>
        sh_right s' x = sh_right s x)"

lemma same_outsideD:
  "same_outside A s s' \<Longrightarrow> x \<notin> A \<Longrightarrow>
     sh_parent s' x = sh_parent s x \<and> sh_left s' x = sh_left s x \<and> sh_right s' x = sh_right s x"
  by (simp add: same_outside_def)

lemma sh_tree_same_outside:
  "sh_tree s par p t \<Longrightarrow> same_outside A s s' \<Longrightarrow> set_tree t \<inter> A = {} \<Longrightarrow> sh_tree s' par p t"
  by (erule sh_tree_frame) (auto simp: same_outside_def)

text \<open>
  One level of the merge: \<open>x\<close> takes the merged heap on the left and its old left heap on the
  right, and becomes the parent of the merged heap.
\<close>

lemma merge_level:
  assumes l: "sh_tree s' par' p' t" and nd: "nodup_t t"
    and old: "sh_tree s (Some x) (sh_left s x) lt" and par: "sh_parent s x = par"
    and same: "same_outside A s s'"
    and disj: "set_tree lt \<inter> A = {}" "set_tree t \<subseteq> A" "x \<notin> A" "x \<notin> set_tree lt"
  defines "s2 \<equiv> set_parent p' (Some x)
      (s'\<lparr>sh_left := (sh_left s')(x := p'), sh_right := (sh_right s')(x := sh_left s x)\<rparr>)"
  shows "sh_tree s2 par (Some x) (Node t x lt)"
    and "same_outside (insert x A) s s2"
proof -
  let ?s1 = "s'\<lparr>sh_left := (sh_left s')(x := p'), sh_right := (sh_right s')(x := sh_left s x)\<rparr>"
  have pA: "p' = None \<or> (\<exists>z\<in>A. p' = Some z)"
    using l disj(2) by (cases t) auto
  have "sh_tree ?s1 par' p' t"
    by (rule sh_tree_frame [OF l]) (use disj in auto)
  then have t2: "sh_tree s2 (Some x) p' t"
    unfolding s2_def by (rule sh_tree_set_parent) (rule nd)
  have lt2: "sh_tree s2 (Some x) (sh_left s x) lt"
  proof (rule sh_tree_frame [OF old])
    fix z assume "z \<in> set_tree lt"
    with disj(1,4) have "z \<notin> A" and "z \<noteq> x" by auto
    with pA same show "sh_parent s2 z = sh_parent s z \<and> sh_left s2 z = sh_left s z \<and>
        sh_right s2 z = sh_right s z"
      by (auto simp: s2_def set_parent_def same_outside_def)
  qed
  have "sh_parent s2 x = par" and "sh_left s2 x = p'" and "sh_right s2 x = sh_left s x"
    using pA disj(3) par same by (auto simp: s2_def set_parent_def same_outside_def)
  with t2 lt2 show "sh_tree s2 par (Some x) (Node t x lt)" by simp
  show "same_outside (insert x A) s s2"
    using pA same by (auto simp: s2_def set_parent_def same_outside_def)
qed

lemma same_outside_mono: "same_outside A s s' \<Longrightarrow> A \<subseteq> B \<Longrightarrow> same_outside B s s'"
  by (auto simp: same_outside_def)

lemma skew_heap_merge_tree:
  assumes "sh_tree s pa a t1" and "sh_tree s pb b t2"
    and "nodup_t t1" and "nodup_t t2" and "set_tree t1 \<inter> set_tree t2 = {}"
  shows "\<exists>p s'. skew_heap_merge cmp a b s = Some (p, s') \<and>
    (\<exists>par\<in>{pa, pb}. sh_tree s' par p (merge_t cmp t1 t2)) \<and>
    same_outside (set_tree t1 \<union> set_tree t2) s s'"
  using assms
proof (induction cmp t1 t2 arbitrary: a b pa pb rule: merge_t.induct)
  case (1 cmp t)
  then show ?case by (subst skew_heap_merge.simps) (auto simp: same_outside_def)
next
  case (2 cmp l x r)
  then show ?case by (subst skew_heap_merge.simps) (auto simp: same_outside_def)
next
  case (3 cmp l1 x r1 l2 y r2)
  let ?t1 = "Node l1 x r1" and ?t2 = "Node l2 y r2"
  from "3.prems" have a: "a = Some x" and b: "b = Some y" by auto
  show ?case
  proof (cases "cmp x y = -1")
    case True
    from "3.prems" have "set_tree r1 \<inter> set_tree ?t2 = {}" and "sh_tree s (Some x) (sh_right s x) r1"
      by auto
    with "3.IH"(1) [OF True, of "Some x" "sh_right s x" pb b] "3.prems"
    obtain p s' par where m: "skew_heap_merge cmp (sh_right s x) b s = Some (p, s')"
      and t: "sh_tree s' par p (merge_t cmp r1 ?t2)"
      and so: "same_outside (set_tree r1 \<union> set_tree ?t2) s s'"
      by auto
    have nd: "nodup_t (merge_t cmp r1 ?t2)"
      using "3.prems" by (intro nodup_merge_t) auto
    define s2 where "s2 = set_parent p (Some x)
        (s'\<lparr>sh_left := (sh_left s')(x := p), sh_right := (sh_right s')(x := sh_left s x)\<rparr>)"
    have "sh_tree s2 pa (Some x) (Node (merge_t cmp r1 ?t2) x l1)"
      and so2: "same_outside (insert x (set_tree r1 \<union> set_tree ?t2)) s s2"
      unfolding s2_def by (rule merge_level [where lt = l1, OF t nd _ _ so]; use "3.prems" in auto)+
    moreover have "skew_heap_merge cmp a b s = Some (Some x, s2)"
      unfolding s2_def by (subst skew_heap_merge.simps) (use m True a b in simp)
    moreover have "same_outside (set_tree ?t1 \<union> set_tree ?t2) s s2"
      by (rule same_outside_mono [OF so2]) auto
    ultimately show ?thesis
      using True by (simp del: sh_tree.simps)
  next
    case False
    from "3.prems" have "set_tree ?t1 \<inter> set_tree r2 = {}" and "sh_tree s (Some y) (sh_right s y) r2"
      by auto
    with "3.IH"(2) [OF False, of pa a "Some y" "sh_right s y"] "3.prems"
    obtain p s' par where m: "skew_heap_merge cmp a (sh_right s y) s = Some (p, s')"
      and t: "sh_tree s' par p (merge_t cmp ?t1 r2)"
      and so: "same_outside (set_tree ?t1 \<union> set_tree r2) s s'"
      by auto
    have nd: "nodup_t (merge_t cmp ?t1 r2)"
      using "3.prems" by (intro nodup_merge_t) auto
    define s2 where "s2 = set_parent p (Some y)
        (s'\<lparr>sh_left := (sh_left s')(y := p), sh_right := (sh_right s')(y := sh_left s y)\<rparr>)"
    have "sh_tree s2 pb (Some y) (Node (merge_t cmp ?t1 r2) y l2)"
      and so2: "same_outside (insert y (set_tree ?t1 \<union> set_tree r2)) s s2"
      unfolding s2_def by (rule merge_level [where lt = l2, OF t nd _ _ so]; use "3.prems" in auto)+
    moreover have "skew_heap_merge cmp a b s = Some (Some y, s2)"
      unfolding s2_def by (subst skew_heap_merge.simps) (use m False a b in simp)
    moreover have "same_outside (set_tree ?t1 \<union> set_tree ?t2) s s2"
      by (rule same_outside_mono [OF so2]) auto
    ultimately show ?thesis
      using False by (simp del: sh_tree.simps)
  qed
qed

lemma skew_heap_insert_tree:
  assumes "sh_tree s None a t" and "nodup_t t" and "b \<notin> set_tree t"
  shows "\<exists>p s'. skew_heap_insert cmp a b s = Some (p, s') \<and>
    sh_tree s' None p (insert_t cmp b t) \<and> same_outside (insert b (set_tree t)) s s'"
proof -
  let ?s = "skew_heap_init b s"
  have init: "same_outside {b} s ?s"
    by (simp add: same_outside_def skew_heap_init_def)
  have t: "sh_tree ?s None a t"
    by (rule sh_tree_same_outside [OF assms(1) init]) (use assms(3) in auto)
  have "sh_tree ?s None (Some b) (Node Leaf b Leaf)"
    by (simp add: skew_heap_init_def)
  from skew_heap_merge_tree [OF t this] assms(2,3) init show ?thesis
    by (auto simp: skew_heap_insert_def insert_t_def same_outside_def)
qed

lemma remove_subtree:
  assumes "sh_tree s par (Some b) (Node bl b br)" and "nodup_t (Node bl b br)"
  shows "\<exists>rep s1. skew_heap_merge cmp (sh_left s b) (sh_right s b) s = Some (rep, s1) \<and>
    sh_tree (set_parent rep q s1) q rep (merge_t cmp bl br) \<and>
    same_outside (set_tree bl \<union> set_tree br) s (set_parent rep q s1)"
proof -
  from assms have l: "sh_tree s (Some b) (sh_left s b) bl" and r: "sh_tree s (Some b) (sh_right s b) br"
    by auto
  from skew_heap_merge_tree [OF l r, of cmp] assms(2) obtain rep s1 where
    m: "skew_heap_merge cmp (sh_left s b) (sh_right s b) s = Some (rep, s1)" and
    t: "sh_tree s1 (Some b) rep (merge_t cmp bl br)" and
    so: "same_outside (set_tree bl \<union> set_tree br) s s1"
    by auto
  have "rep = None \<or> (\<exists>z\<in>set_tree bl \<union> set_tree br. rep = Some z)"
    using t set_merge_t [of cmp bl br] by (cases "merge_t cmp bl br") auto
  with so have "same_outside (set_tree bl \<union> set_tree br) s (set_parent rep q s1)"
    by (auto simp: set_parent_def same_outside_def)
  moreover have "nodup_t (merge_t cmp bl br)"
    using assms(2) by (intro nodup_merge_t) auto
  ultimately show ?thesis
    using m sh_tree_set_parent [OF t] by blast
qed

lemma sh_tree_root_in: "sh_tree s par (Some b) t \<Longrightarrow> \<exists>l r. t = Node l b r"
  by (cases t) auto

lemma remove_below:
  assumes "sh_tree s par a t" and "nodup_t t" and "b \<in> set_tree t" and "a \<noteq> Some b"
  shows "\<exists>s'. skew_heap_remove cmp h b s = Some (h, s') \<and>
    sh_tree s' par a (remove_t cmp b t) \<and> same_outside (set_tree t) s s'"
  using assms
proof (induction t arbitrary: par a)
  case Leaf
  then show ?case by simp
next
  case (Node l x r)
  from Node.prems have a: "a = Some x" and bx: "b \<noteq> x" and px: "sh_parent s x = par"
    and l: "sh_tree s (Some x) (sh_left s x) l" and r: "sh_tree s (Some x) (sh_right s x) r"
    by auto
  show ?case
  proof (cases "sh_left s x = Some b \<or> sh_right s x = Some b")
    case True
    then obtain bl br where sub: "sh_tree s (Some x) (Some b) (Node bl b br)"
      and lr: "sh_left s x = Some b \<and> l = Node bl b br \<or> sh_right s x = Some b \<and> r = Node bl b br"
      using l r sh_tree_root_in by metis
    with Node.prems have "nodup_t (Node bl b br)" by auto
    from remove_subtree [OF sub this, of cmp "Some x"] obtain rep s1 where
      m: "skew_heap_merge cmp (sh_left s b) (sh_right s b) s = Some (rep, s1)" and
      t: "sh_tree (set_parent rep (Some x) s1) (Some x) rep (merge_t cmp bl br)" and
      so: "same_outside (set_tree bl \<union> set_tree br) s (set_parent rep (Some x) s1)"
      by auto
    define s2 where "s2 = set_parent rep (Some x) s1"
    have pb: "sh_parent s b = Some x" using sub by simp
    have x: "x \<notin> set_tree bl \<union> set_tree br" using lr Node.prems(2) by auto
    note x2 = same_outsideD [OF so [folded s2_def] x]
    from lr show ?thesis
    proof
      assume L: "sh_left s x = Some b \<and> l = Node bl b br"
      define s3 where "s3 = s2\<lparr>sh_left := (sh_left s2)(x := rep)\<rparr>"
      have "skew_heap_remove cmp h b s = Some (h, s3)"
        using m pb L x2 by (simp add: skew_heap_remove_def s2_def s3_def Let_def)
      moreover have "sh_tree s3 (Some x) rep (merge_t cmp bl br)"
        by (rule sh_tree_frame [OF t [folded s2_def]]) (use x in \<open>auto simp: s3_def\<close>)
      moreover have "sh_tree s3 (Some x) (sh_right s x) r"
        by (rule sh_tree_frame [OF r])
          (use so L Node.prems(2) in \<open>auto simp: s3_def s2_def same_outside_def\<close>)
      moreover have "same_outside (set_tree (Node l x r)) s s3"
        using so L by (auto simp: s3_def s2_def same_outside_def)
      ultimately show ?thesis
        using a bx px x2 L by (auto simp: s3_def)
    next
      assume R: "sh_right s x = Some b \<and> r = Node bl b br"
      define s3 where "s3 = s2\<lparr>sh_right := (sh_right s2)(x := rep)\<rparr>"
      have bl: "b \<notin> set_tree l" using R Node.prems(2) by auto
      then have "sh_left s x \<noteq> Some b" using l sh_tree_root_in by fastforce
      then have "skew_heap_remove cmp h b s = Some (h, s3)"
        using m pb R x2 by (simp add: skew_heap_remove_def s2_def s3_def Let_def)
      moreover have "sh_tree s3 (Some x) rep (merge_t cmp bl br)"
        by (rule sh_tree_frame [OF t [folded s2_def]]) (use x in \<open>auto simp: s3_def\<close>)
      moreover have "sh_tree s3 (Some x) (sh_left s x) l"
        by (rule sh_tree_frame [OF l])
          (use so R Node.prems(2) in \<open>auto simp: s3_def s2_def same_outside_def\<close>)
      moreover have "same_outside (set_tree (Node l x r)) s s3"
        using so R by (auto simp: s3_def s2_def same_outside_def)
      ultimately show ?thesis
        using a bx bl px x2 R by (auto simp: s3_def)
    qed
  next
    case False
    show ?thesis
    proof (cases "b \<in> set_tree l")
      case True
      with Node.IH(1) [OF l] Node.prems False obtain s' where
        m: "skew_heap_remove cmp h b s = Some (h, s')" and
        t: "sh_tree s' (Some x) (sh_left s x) (remove_t cmp b l)" and
        so: "same_outside (set_tree l) s s'"
        by auto
      have "sh_tree s' (Some x) (sh_right s x) r"
        by (rule sh_tree_same_outside [OF r so]) (use Node.prems(2) in auto)
      with m t so show ?thesis
        using True Node.prems(2) a bx px by (auto simp: same_outside_def)
    next
      case False2: False
      with Node.prems bx have br: "b \<in> set_tree r" by auto
      with Node.IH(2) [OF r] Node.prems False obtain s' where
        m: "skew_heap_remove cmp h b s = Some (h, s')" and
        t: "sh_tree s' (Some x) (sh_right s x) (remove_t cmp b r)" and
        so: "same_outside (set_tree r) s s'"
        by auto
      have "sh_tree s' (Some x) (sh_left s x) l"
        by (rule sh_tree_same_outside [OF l so]) (use Node.prems(2) in auto)
      with m t so show ?thesis
        using br False2 Node.prems(2) a bx px by (auto simp: same_outside_def)
    qed
  qed
qed

lemma skew_heap_remove_tree:
  assumes "sh_tree s None a t" and "nodup_t t" and "b \<in> set_tree t"
  shows "\<exists>p s'. skew_heap_remove cmp a b s = Some (p, s') \<and>
    sh_tree s' None p (remove_t cmp b t) \<and> same_outside (set_tree t) s s'"
proof (cases "a = Some b")
  case True
  with assms obtain bl br where t: "t = Node bl b br"
    using sh_tree_root_in by metis
  with assms True have sub: "sh_tree s None (Some b) (Node bl b br)" by simp
  from remove_subtree [OF sub, of cmp None] assms(2) t obtain rep s1 where
    "skew_heap_merge cmp (sh_left s b) (sh_right s b) s = Some (rep, s1)" and
    "sh_tree (set_parent rep None s1) None rep (merge_t cmp bl br)" and
    "same_outside (set_tree bl \<union> set_tree br) s (set_parent rep None s1)"
    by auto
  with sub t show ?thesis
    by (auto simp: skew_heap_remove_def same_outside_def)
next
  case False
  with remove_below [OF assms] show ?thesis by blast
qed

section \<open>Heap order, for any comparison that is a total preorder\<close>

text \<open>
  \<^verbatim>\<open>compare_f\<close>: -1, 0 or 1. The scheduler's comparison is transitive only on processes whose
  strides lie in a common window, hence the carrier set \<open>A\<close>.
\<close>

fun heap_t :: "('a \<Rightarrow> 'a \<Rightarrow> int) \<Rightarrow> 'a tree \<Rightarrow> bool" where
  "heap_t cmp Leaf \<longleftrightarrow> True"
| "heap_t cmp (Node l x r) \<longleftrightarrow>
     (\<forall>y \<in> set_tree l \<union> set_tree r. cmp x y \<noteq> 1) \<and> heap_t cmp l \<and> heap_t cmp r"

lemma heap_t_cong:
  assumes "\<And>x y. x \<in> set_tree t \<Longrightarrow> y \<in> set_tree t \<Longrightarrow> cmp x y = cmp' x y"
  shows "heap_t cmp t \<longleftrightarrow> heap_t cmp' t"
  using assms by (induction t) auto

locale comparator =
  fixes cmp :: "'a \<Rightarrow> 'a \<Rightarrow> int" and A :: "'a set"
  assumes cmp_range: "cmp x y \<in> {-1, 0, 1}"
    and cmp_swap: "x \<in> A \<Longrightarrow> y \<in> A \<Longrightarrow> cmp y x = - cmp x y"
    and cmp_trans: "x \<in> A \<Longrightarrow> y \<in> A \<Longrightarrow> z \<in> A \<Longrightarrow> cmp x y \<noteq> 1 \<Longrightarrow> cmp y z \<noteq> 1 \<Longrightarrow> cmp x z \<noteq> 1"
begin

lemma cmp_total: "x \<in> A \<Longrightarrow> y \<in> A \<Longrightarrow> cmp x y \<noteq> 1 \<or> cmp y x \<noteq> 1"
  using cmp_swap [of x y] by auto

lemma cmp_refl: "x \<in> A \<Longrightarrow> cmp x x \<noteq> 1"
  using cmp_total by blast

lemma cmp_not_less: "x \<in> A \<Longrightarrow> y \<in> A \<Longrightarrow> cmp x y \<noteq> -1 \<Longrightarrow> cmp y x \<noteq> 1"
  using cmp_swap [of x y] by auto

lemma heap_root_min: "heap_t cmp (Node l x r) \<Longrightarrow> set_tree (Node l x r) \<subseteq> A \<Longrightarrow>
    y \<in> set_tree (Node l x r) \<Longrightarrow> cmp x y \<noteq> 1"
  using cmp_refl by auto

lemma root_le_all:
  "heap_t cmp (Node l y r) \<Longrightarrow> insert x (set_tree (Node l y r)) \<subseteq> A \<Longrightarrow> cmp x y \<noteq> 1 \<Longrightarrow>
    z \<in> set_tree (Node l y r) \<Longrightarrow> cmp x z \<noteq> 1"
  using cmp_trans [of x y z] heap_root_min [of l y r z] by (auto simp: subset_iff)

lemma heap_merge_t:
  "heap_t cmp t1 \<Longrightarrow> heap_t cmp t2 \<Longrightarrow> set_tree t1 \<union> set_tree t2 \<subseteq> A \<Longrightarrow> heap_t cmp (merge_t cmp t1 t2)"
proof (induction t1 t2 rule: merge_t_induct [where cmp = cmp])
  case (Node l1 x r1 l2 y r2)
  show ?case
  proof (cases "cmp x y = -1")
    case True
    then have "\<forall>z \<in> set_tree (Node l2 y r2). cmp x z \<noteq> 1"
      using root_le_all [OF Node.prems(2), of x] Node.prems(3) by auto
    with True Node show ?thesis by auto
  next
    case False
    then have "\<forall>z \<in> set_tree (Node l1 x r1). cmp y z \<noteq> 1"
      using root_le_all [OF Node.prems(1), of y] cmp_not_less [of x y] Node.prems(3) by auto
    with False Node show ?thesis by auto
  qed
qed simp_all

lemma heap_insert_t:
  "heap_t cmp t \<Longrightarrow> insert b (set_tree t) \<subseteq> A \<Longrightarrow> heap_t cmp (insert_t cmp b t)"
  unfolding insert_t_def by (rule heap_merge_t) auto

lemma set_remove_subset: "set_tree (remove_t cmp b t) \<subseteq> set_tree t"
  by (induction t) auto

lemma heap_remove_t: "heap_t cmp t \<Longrightarrow> set_tree t \<subseteq> A \<Longrightarrow> heap_t cmp (remove_t cmp b t)"
proof (induction t)
  case (Node l x r)
  with set_remove_subset [of b l] set_remove_subset [of b r] show ?case
    by (auto simp: heap_merge_t)
qed simp

end

end
