(* ===== verification/Kernel_List.thy ===== *)
theory Kernel_List
  imports Prelude
begin

text \<open>
  The circular doubly linked lists of \<^verbatim>\<open>libs/list.h\<close>, on which every queue of the kernel is
  built. A \<^verbatim>\<open>list_entry_t\<close> lives at an address; the store \<open>links\<close> gives its two pointers.
  The operations are the inline functions of the header, assignment by assignment. The predicate
  \<open>klist s h xs\<close> says that the entry at \<open>h\<close> is the head of a circular list whose entries are
  \<open>xs\<close>, first to last; the lemmas show that each pointer operation is the list operation the
  other components use, and that other lists are left alone.
\<close>

section \<open>The store and the operations\<close>

record 'a links =
  l_prev :: "'a \<Rightarrow> 'a"
  l_next :: "'a \<Rightarrow> 'a"

definition list_init :: "'a \<Rightarrow> 'a links \<Rightarrow> 'a links" where
  "list_init elm s =
     (let s = s\<lparr>l_next := (l_next s)(elm := elm)\<rparr>
      in s\<lparr>l_prev := (l_prev s)(elm := elm)\<rparr>)"

definition list_insert_between :: "'a \<Rightarrow> 'a \<Rightarrow> 'a \<Rightarrow> 'a links \<Rightarrow> 'a links" where
  "list_insert_between elm prv nxt s =
     (let s = s\<lparr>l_prev := (l_prev s)(nxt := elm)\<rparr>;
          s = s\<lparr>l_next := (l_next s)(prv := elm)\<rparr>;
          s = s\<lparr>l_next := (l_next s)(elm := nxt)\<rparr>
      in s\<lparr>l_prev := (l_prev s)(elm := prv)\<rparr>)"

definition list_add_before :: "'a \<Rightarrow> 'a \<Rightarrow> 'a links \<Rightarrow> 'a links" where
  "list_add_before listelm elm s = list_insert_between elm (l_prev s listelm) listelm s"

definition list_add_after :: "'a \<Rightarrow> 'a \<Rightarrow> 'a links \<Rightarrow> 'a links" where
  "list_add_after listelm elm s = list_insert_between elm listelm (l_next s listelm) s"

definition list_add :: "'a \<Rightarrow> 'a \<Rightarrow> 'a links \<Rightarrow> 'a links" where
  "list_add listelm elm s = list_add_after listelm elm s"

definition list_unlink :: "'a \<Rightarrow> 'a \<Rightarrow> 'a links \<Rightarrow> 'a links" where
  "list_unlink prv nxt s =
     (let s = s\<lparr>l_next := (l_next s)(prv := nxt)\<rparr>
      in s\<lparr>l_prev := (l_prev s)(nxt := prv)\<rparr>)"

definition list_del :: "'a \<Rightarrow> 'a links \<Rightarrow> 'a links" where
  "list_del listelm s = list_unlink (l_prev s listelm) (l_next s listelm) s"

definition list_del_init :: "'a \<Rightarrow> 'a links \<Rightarrow> 'a links" where
  "list_del_init listelm s = list_init listelm (list_del listelm s)"

definition list_empty :: "'a \<Rightarrow> 'a links \<Rightarrow> bool" where
  "list_empty lst s \<longleftrightarrow> l_next s lst = lst"

definition list_next :: "'a \<Rightarrow> 'a links \<Rightarrow> 'a" where
  "list_next listelm s = l_next s listelm"

definition list_prev :: "'a \<Rightarrow> 'a links \<Rightarrow> 'a" where
  "list_prev listelm s = l_prev s listelm"

lemmas list_op_defs =
  list_init_def list_insert_between_def list_add_before_def list_add_after_def list_add_def
  list_unlink_def list_del_def list_del_init_def list_empty_def list_next_def list_prev_def Let_def

section \<open>The list at a head\<close>

text \<open>
  \<open>chain s a xs b\<close>: following \<^verbatim>\<open>next\<close> from \<open>a\<close> one meets exactly \<open>xs\<close> and then \<open>b\<close>,
  and \<^verbatim>\<open>prev\<close> undoes each of these steps.
\<close>

fun chain :: "'a links \<Rightarrow> 'a \<Rightarrow> 'a list \<Rightarrow> 'a \<Rightarrow> bool" where
  "chain s a [] b \<longleftrightarrow> l_next s a = b \<and> l_prev s b = a"
| "chain s a (x # xs) b \<longleftrightarrow> l_next s a = x \<and> l_prev s x = a \<and> chain s x xs b"

definition klist :: "'a links \<Rightarrow> 'a \<Rightarrow> 'a list \<Rightarrow> bool" where
  "klist s h xs \<longleftrightarrow> distinct (h # xs) \<and> chain s h xs h"

lemma chain_append:
  "chain s a (xs @ y # ys) b \<longleftrightarrow> chain s a xs y \<and> chain s y ys b"
  by (induction xs arbitrary: a) auto

lemma chain_frame:
  assumes "chain s a xs b"
    and "\<And>x. x \<in> set (a # xs) \<Longrightarrow> l_next t x = l_next s x"
    and "\<And>x. x \<in> set (xs @ [b]) \<Longrightarrow> l_prev t x = l_prev s x"
  shows "chain t a xs b"
  using assms by (induction xs arbitrary: a) auto

lemma chain_next: "chain s a xs b \<Longrightarrow> l_next s a = hd (xs @ [b])"
  by (cases xs) auto

lemma chain_prev: "chain s a xs b \<Longrightarrow> l_prev s b = last (a # xs)"
  by (induction xs arbitrary: a) auto

lemma klist_next: "klist s h xs \<Longrightarrow> list_next h s = hd (xs @ [h])"
  by (simp add: klist_def list_next_def chain_next)

lemma klist_prev: "klist s h xs \<Longrightarrow> list_prev h s = last (h # xs)"
  using chain_prev by (fastforce simp: klist_def list_prev_def)

lemma klist_empty: "klist s h xs \<Longrightarrow> list_empty h s \<longleftrightarrow> xs = []"
  by (cases xs) (auto simp: klist_def list_empty_def)

lemma klist_entry_next:
  "klist s h (xs @ e # ys) \<Longrightarrow> list_next e s = hd (ys @ [h])"
  by (auto simp: klist_def chain_append list_next_def chain_next)

lemma klist_entry_prev:
  "klist s h (xs @ e # ys) \<Longrightarrow> list_prev e s = last (h # xs)"
  using chain_prev by (fastforce simp: klist_def chain_append list_prev_def)

text \<open>The contents of a head are determined by the store.\<close>

lemma chain_unique:
  "chain s a xs h \<Longrightarrow> chain s a ys h \<Longrightarrow> h \<notin> set xs \<Longrightarrow> h \<notin> set ys \<Longrightarrow> xs = ys"
proof (induction xs arbitrary: a ys)
  case Nil
  then show ?case by (cases ys) auto
next
  case (Cons x xs)
  then show ?case by (cases ys) auto
qed

lemma klist_unique: "klist s h xs \<Longrightarrow> klist s h ys \<Longrightarrow> xs = ys"
  by (auto simp: klist_def intro: chain_unique)

section \<open>The operations on a list\<close>

lemma list_init_klist: "klist (list_init h s) h []"
  by (simp add: klist_def list_op_defs)

lemma insert_between_chain:
  assumes "distinct (h # xs @ ys)" and "e \<notin> set (h # xs @ ys)"
    and "chain s h (xs @ ys) h"
  shows "chain (list_insert_between e (last (h # xs)) (hd (ys @ [h])) s) h (xs @ e # ys) h"
proof -
  define p n where "p = last (h # xs)" and "n = hd (ys @ [h])"
  define t where "t = list_insert_between e p n s"
  have nxt: "l_next t x = (if x = e then n else if x = p then e else l_next s x)"
    and prv: "l_prev t x = (if x = e then p else if x = n then e else l_prev s x)" for x
    by (simp_all add: t_def list_op_defs)
  have p: "p \<in> set (h # xs)" and n: "n \<in> set (ys @ [h])"
    unfolding p_def n_def by (rule last_in_set, simp) (rule hd_in_set, simp)
  have "chain t h xs e"
  proof (cases xs rule: rev_cases)
    case Nil
    then show ?thesis using assms(2) by (auto simp: nxt prv p_def)
  next
    case (snoc zs z)
    have old: "chain s h zs z"
      using assms(3) by (simp add: snoc chain_append)
    have "chain t h zs z"
    proof (rule chain_frame [OF old])
      fix y assume "y \<in> set (h # zs)"
      with assms(1,2) snoc show "l_next t y = l_next s y" by (auto simp: nxt p_def)
    next
      fix y assume "y \<in> set (zs @ [z])"
      with assms(1,2) n snoc show "l_prev t y = l_prev s y" by (auto simp: prv)
    qed
    then show ?thesis using assms(2) by (auto simp: snoc chain_append nxt prv p_def)
  qed
  moreover have "chain t e ys h"
  proof (cases ys)
    case Nil
    then show ?thesis using assms(2) by (auto simp: nxt prv n_def)
  next
    case (Cons y zs)
    have old: "chain s y zs h"
      using assms(3) by (simp add: Cons chain_append)
    have "chain t y zs h"
    proof (rule chain_frame [OF old])
      fix x assume "x \<in> set (y # zs)"
      with assms(1,2) p show "l_next t x = l_next s x"
        by (auto simp: nxt Cons p_def simp del: last.simps)
    next
      fix x assume "x \<in> set (zs @ [h])"
      with assms(1,2) show "l_prev t x = l_prev s x"
        by (auto simp: prv Cons n_def)
    qed
    then show ?thesis using assms(2) by (auto simp: Cons nxt prv n_def)
  qed
  ultimately have "chain t h (xs @ e # ys) h" by (simp add: chain_append)
  then show ?thesis unfolding t_def p_def n_def .
qed

lemma list_add_after_klist:
  assumes "klist s h xs" and "e \<notin> set (h # xs)"
  shows "klist (list_add_after h e s) h (e # xs)"
proof -
  have "list_add_after h e s = list_insert_between e (last (h # [])) (hd (xs @ [h])) s"
    using klist_next [OF assms(1)] by (simp add: list_add_after_def list_next_def)
  with insert_between_chain [of h "[]" xs e s] assms show ?thesis
    by (auto simp: klist_def)
qed

lemma klist_next_at:
  assumes "klist s h (xs @ ys)"
  shows "l_next s (last (h # xs)) = hd (ys @ [h])"
proof (cases xs rule: rev_cases)
  case Nil
  with klist_next [of s h ys] assms show ?thesis by (simp add: list_next_def)
next
  case (snoc zs z)
  with klist_entry_next [of s h zs z ys] assms show ?thesis by (simp add: list_next_def)
qed

lemma klist_prev_at:
  assumes "klist s h (xs @ ys)"
  shows "l_prev s (hd (ys @ [h])) = last (h # xs)"
proof (cases ys)
  case Nil
  with klist_prev [of s h xs] assms show ?thesis by (simp add: list_prev_def)
next
  case (Cons y zs)
  with klist_entry_prev [of s h xs y zs] assms show ?thesis by (simp add: list_prev_def)
qed

lemma list_add_after_at:
  assumes "klist s h (xs @ ys)" and "e \<notin> set (h # xs @ ys)"
  shows "klist (list_add_after (last (h # xs)) e s) h (xs @ e # ys)"
  using insert_between_chain [of h xs ys e s] klist_next_at [OF assms(1)] assms
  by (auto simp: klist_def list_add_after_def simp del: last.simps)

lemma list_add_before_klist:
  assumes "klist s h (xs @ ys)" and "e \<notin> set (h # xs @ ys)"
  shows "klist (list_add_before (hd (ys @ [h])) e s) h (xs @ e # ys)"
proof -
  from klist_prev_at [OF assms(1)] have "list_add_before (hd (ys @ [h])) e s =
      list_insert_between e (last (h # xs)) (hd (ys @ [h])) s"
    by (simp add: list_add_before_def)
  with insert_between_chain [of h xs ys e s] assms show ?thesis
    by (auto simp: klist_def)
qed

lemma list_add_tail_klist:
  assumes "klist s h xs" and "e \<notin> set (h # xs)"
  shows "klist (list_add_before h e s) h (xs @ [e])"
  using list_add_before_klist [of s h xs "[]" e] assms by simp

lemma list_del_klist:
  assumes "klist s h (xs @ e # ys)"
  shows "klist (list_del e s) h (xs @ ys)"
proof -
  let ?t = "list_del e s" and ?p = "last (h # xs)" and ?n = "hd (ys @ [h])"
  have dist: "distinct (h # xs @ e # ys)" and xs: "chain s h xs e" and ys: "chain s e ys h"
    using assms by (auto simp: klist_def chain_append)
  have "l_prev s e = ?p" and "l_next s e = ?n"
    using klist_entry_prev [OF assms] klist_entry_next [OF assms]
    by (simp_all add: list_prev_def list_next_def)
  then have nxt: "l_next ?t x = (if x = ?p then ?n else l_next s x)"
    and prv: "l_prev ?t x = (if x = ?n then ?p else l_prev s x)" for x
    by (simp_all add: list_op_defs)
  have p: "?p \<in> set (h # xs)" by (rule last_in_set) simp
  have "chain ?t h (xs @ ys) h"
  proof (cases ys)
    case Nil
    have "chain ?t h xs h"
    proof (cases xs rule: rev_cases)
      case Nil
      with \<open>ys = []\<close> show ?thesis by (simp add: nxt prv)
    next
      case (snoc zs z)
      have "chain s h zs z" using xs by (simp add: snoc chain_append)
      then have "chain ?t h zs z"
        by (rule chain_frame) (use dist \<open>ys = []\<close> snoc in \<open>auto simp: nxt prv\<close>)
      then show ?thesis using dist \<open>ys = []\<close> by (simp add: snoc chain_append nxt prv)
    qed
    with Nil show ?thesis by simp
  next
    case (Cons y zs)
    have "chain s y zs h" using ys by (simp add: Cons)
    then have tail: "chain ?t y zs h"
      by (rule chain_frame) (use dist p Cons in \<open>auto simp: nxt prv simp del: last.simps\<close>)
    have "chain ?t h xs y"
    proof (cases xs rule: rev_cases)
      case Nil
      with Cons show ?thesis by (simp add: nxt prv)
    next
      case (snoc us u)
      have "chain s h us u" using xs by (simp add: snoc chain_append)
      then have "chain ?t h us u"
        by (rule chain_frame) (use dist Cons snoc in \<open>auto simp: nxt prv\<close>)
      then show ?thesis using dist by (simp add: snoc Cons chain_append nxt prv)
    qed
    with tail show ?thesis by (simp add: Cons chain_append)
  qed
  with dist show ?thesis by (auto simp: klist_def)
qed

lemma list_init_other: "x \<noteq> e \<Longrightarrow> l_next (list_init e s) x = l_next s x"
  "x \<noteq> e \<Longrightarrow> l_prev (list_init e s) x = l_prev s x"
  by (simp_all add: list_op_defs)

lemma klist_list_init: "klist s h xs \<Longrightarrow> e \<notin> set (h # xs) \<Longrightarrow> klist (list_init e s) h xs"
  by (auto simp: klist_def intro!: chain_frame [of s h xs h] list_init_other)

lemma list_del_init_klist:
  assumes "klist s h (xs @ e # ys)"
  shows "klist (list_del_init e s) h (xs @ ys)" and "klist (list_del_init e s) e []"
proof -
  have "e \<notin> set (h # xs @ ys)" using assms by (auto simp: klist_def)
  with list_del_klist [OF assms] show "klist (list_del_init e s) h (xs @ ys)"
    unfolding list_del_init_def by (rule klist_list_init)
  show "klist (list_del_init e s) e []"
    unfolding list_del_init_def by (rule list_init_klist)
qed

section \<open>Frame: lists that share no entry do not interfere\<close>

lemma klist_add_frame:
  assumes "klist s h xs" and "klist s g ys" and "set (h # xs) \<inter> set (g # ys) = {}"
    and "e \<notin> set (g # ys)" and "p \<in> set (h # xs)"
  shows "klist (list_add_before p e s) g ys" and "klist (list_add_after p e s) g ys"
proof -
  have np: "l_prev s p \<in> set (h # xs)" and nn: "l_next s p \<in> set (h # xs)"
  proof -
    have "l_prev s p \<in> set (h # xs) \<and> l_next s p \<in> set (h # xs)"
    proof (cases "p = h")
      case True
      with klist_prev [OF assms(1)] klist_next [OF assms(1)] show ?thesis
        by (cases xs) (auto simp: list_prev_def list_next_def)
    next
      case False
      with assms(5) obtain us vs where xs: "xs = us @ p # vs" by (auto dest: split_list)
      from klist_entry_prev [OF assms(1) [unfolded xs]] klist_entry_next [OF assms(1) [unfolded xs]]
      show ?thesis by (cases us; cases vs) (auto simp: xs list_prev_def list_next_def)
    qed
    then show "l_prev s p \<in> set (h # xs)" and "l_next s p \<in> set (h # xs)" by auto
  qed
  have chain: "distinct (g # ys)" "chain s g ys g"
    using assms(2) by (auto simp: klist_def)
  have "chain (list_add_before p e s) g ys g"
    by (rule chain_frame [OF chain(2)]) (use np assms(3-5) in \<open>auto simp: list_op_defs\<close>)
  with chain(1) show "klist (list_add_before p e s) g ys" by (simp add: klist_def)
  have "chain (list_add_after p e s) g ys g"
    by (rule chain_frame [OF chain(2)]) (use nn assms(3-5) in \<open>auto simp: list_op_defs\<close>)
  with chain(1) show "klist (list_add_after p e s) g ys" by (simp add: klist_def)
qed

section \<open>Properties\<close>

text \<open>
  The kernel's circular lists behave as sequences: adding before the head appends, adding after
  it prepends, deleting an entry (with or without reinitialising it) removes exactly that entry, and
  a reinitialised entry is an empty list of its own.
\<close>

lemma list_operations:
  assumes "klist s h xs" and "e \<notin> set (h # xs)"
  shows "klist (list_add_before h e s) h (xs @ [e]) \<and> klist (list_add h e s) h (e # xs) \<and>
    (\<forall>ys x zs. xs = ys @ x # zs \<longrightarrow>
       klist (list_add_before x e s) h (ys @ e # x # zs) \<and>
       klist (list_del x s) h (ys @ zs) \<and>
       klist (list_del_init x s) h (ys @ zs) \<and> list_empty x (list_del_init x s)) \<and>
    klist (list_del_init e (list_add_before h e s)) h xs"
proof (intro conjI allI impI)
  show tail: "klist (list_add_before h e s) h (xs @ [e])"
    by (rule list_add_tail_klist [OF assms])
  show "klist (list_add h e s) h (e # xs)"
    unfolding list_add_def by (rule list_add_after_klist [OF assms])
  from list_del_init_klist(1) [of _ h xs e "[]"] tail
  show "klist (list_del_init e (list_add_before h e s)) h xs" by simp
next
  fix ys x zs assume xs: "xs = ys @ x # zs"
  with assms list_add_before_klist [of s h ys "x # zs" e]
  show "klist (list_add_before x e s) h (ys @ e # x # zs)" by simp
  show "klist (list_del x s) h (ys @ zs)" using list_del_klist assms(1) unfolding xs .
  note del = list_del_init_klist [OF assms(1) [unfolded xs]]
  show "klist (list_del_init x s) h (ys @ zs)" by (rule del(1))
  show "list_empty x (list_del_init x s)" using klist_empty [OF del(2)] by simp
qed

end
