(* ===== verification/Proc_State.thy ===== *)
theory Proc_State
  imports Skew_Heap Kernel_List
begin

text \<open>
  The state shared by the scheduler, the wait queues and the process manager:
  \<^verbatim>\<open>struct proc_struct\<close> (\<^verbatim>\<open>kern/process/proc.h\<close>), \<^verbatim>\<open>struct run_queue\<close> and
  \<^verbatim>\<open>timer_t\<close> (\<^verbatim>\<open>kern/schedule/sched.h\<close>), \<^verbatim>\<open>wait_t\<close> (\<^verbatim>\<open>kern/sync/wait.h\<close>), the
  trap frame (\<^verbatim>\<open>kern/trap/trap.h\<close>) and the global variables of these files. Structures live at
  addresses (\<open>nat\<close>); a pointer that may be \<^verbatim>\<open>NULL\<close> is a \<open>nat option\<close>. A list headed by a
  \<^verbatim>\<open>list_entry_t\<close> is the HOL list of the structures linked in it, first to last, which
  \<open>Kernel_List\<close> justifies; the run pool is the tree of its nodes, which \<open>Skew_Heap\<close> justifies.
  The kernel is single-core and runs these operations between \<^verbatim>\<open>local_intr_save\<close> and
  \<^verbatim>\<open>local_intr_restore\<close>, so that each one is atomic.
\<close>

section \<open>Data\<close>

datatype proc_state = PROC_UNINIT | PROC_SLEEPING | PROC_RUNNABLE | PROC_ZOMBIE

text \<open>The callee-saved registers \<^verbatim>\<open>s0\<close> to \<^verbatim>\<open>s11\<close> are the list \<open>ctx_s\<close>.\<close>

record proc_context =
  ctx_ra :: u64
  ctx_sp :: u64
  ctx_s :: "u64 list"

text \<open>
  \<^verbatim>\<open>struct pushregs\<close> has 32 general registers in the order \<^verbatim>\<open>x0\<close> to \<^verbatim>\<open>x31\<close>; \<open>gpr\<close>
  gives register \<open>n\<close>.
\<close>

record trapframe =
  gpr :: "nat \<Rightarrow> u64"
  tf_status :: u64
  tf_epc :: u64
  tf_tval :: u64
  tf_cause :: u64

definition reg_sp :: nat where "reg_sp = 2"
definition reg_s0 :: nat where "reg_s0 = 8"
definition reg_s1 :: nat where "reg_s1 = 9"
definition reg_a0 :: nat where "reg_a0 = 10"

record proc_struct =
  p_state :: proc_state
  p_pid :: int
  p_runs :: int
  p_kstack :: u64
  p_need_resched :: bool
  p_parent :: "nat option"
  p_mm :: "nat option"
  p_context :: proc_context
  p_tf :: "u64 \<times> trapframe"
  p_cr3 :: u64
  p_flags :: u32
  p_name :: "u8 list"
  p_exit_code :: int
  p_wait_state :: u32
  p_cptr :: "nat option"
  p_yptr :: "nat option"
  p_optr :: "nat option"
  p_on_rq :: bool
  p_time_slice :: int
  p_stride :: u32
  p_priority :: u32
  p_filesp :: "nat option"

record run_queue =
  run_list :: "nat list"
  proc_num :: u32
  max_time_slice :: int
  run_pool :: "nat tree"

record ktimer =
  t_expires :: u32
  t_proc :: "nat option"

record kwait =
  w_proc :: "nat option"
  w_flags :: u32
  w_queue :: nat

record kernel =
  procs :: "nat \<Rightarrow> proc_struct"
  current :: nat
  idleproc :: nat
  initproc :: nat
  cr3_reg :: u64
  rq :: run_queue
  timers :: "nat \<Rightarrow> ktimer"
  timer_list :: "nat list"
  waits :: "nat \<Rightarrow> kwait"
  wqueues :: "nat \<Rightarrow> nat list"
  sem_value :: "nat \<Rightarrow> int"
  proc_list :: "nat list"
  hash_lists :: "nat \<Rightarrow> nat list"
  nr_process :: int
  last_pid :: int
  next_safe :: int

section \<open>Constants\<close>

definition PF_EXITING :: u32 where "PF_EXITING = 0x00000001"
definition WT_INTERRUPTED :: u32 where "WT_INTERRUPTED = 0x80000000"
definition WT_CHILD :: u32 where "WT_CHILD = 0x00000001 OR WT_INTERRUPTED"
definition WT_KSEM :: u32 where "WT_KSEM = 0x00000100"
definition WT_TIMER :: u32 where "WT_TIMER = 0x00000002 OR WT_INTERRUPTED"
definition WT_KBD :: u32 where "WT_KBD = 0x00000004 OR WT_INTERRUPTED"
definition PROC_NAME_LEN :: nat where "PROC_NAME_LEN = 15"
definition MAX_PROCESS :: int where "MAX_PROCESS = 4096"
definition MAX_PID :: int where "MAX_PID = MAX_PROCESS * 2"
definition MAX_TIME_SLICE :: int where "MAX_TIME_SLICE = 5"

lemma wait_state_values:
  "WT_CHILD = 0x80000001" "WT_TIMER = 0x80000002" "WT_KBD = 0x80000004" "WT_KSEM = 0x100"
  by (simp_all add: WT_CHILD_def WT_TIMER_def WT_KBD_def WT_KSEM_def WT_INTERRUPTED_def)

section \<open>Updating one process\<close>

definition upd_proc :: "nat \<Rightarrow> (proc_struct \<Rightarrow> proc_struct) \<Rightarrow> kernel \<Rightarrow> kernel" where
  "upd_proc p f k = k\<lparr>procs := (procs k)(p := f (procs k p))\<rparr>"

lemma procs_upd_proc [simp]:
  "procs (upd_proc p f k) q = (if q = p then f (procs k p) else procs k q)"
  by (simp add: upd_proc_def)

lemma upd_proc_others [simp]:
  "current (upd_proc p f k) = current k"
  "idleproc (upd_proc p f k) = idleproc k"
  "initproc (upd_proc p f k) = initproc k"
  "cr3_reg (upd_proc p f k) = cr3_reg k"
  "rq (upd_proc p f k) = rq k"
  "timers (upd_proc p f k) = timers k"
  "timer_list (upd_proc p f k) = timer_list k"
  "waits (upd_proc p f k) = waits k"
  "wqueues (upd_proc p f k) = wqueues k"
  "sem_value (upd_proc p f k) = sem_value k"
  "proc_list (upd_proc p f k) = proc_list k"
  "hash_lists (upd_proc p f k) = hash_lists k"
  "nr_process (upd_proc p f k) = nr_process k"
  "last_pid (upd_proc p f k) = last_pid k"
  "next_safe (upd_proc p f k) = next_safe k"
  by (simp_all add: upd_proc_def)

text \<open>
  The fields of a process that only the scheduling class writes, and when two process tables
  agree on everything else.
\<close>

definition same_but_sched :: "proc_struct \<Rightarrow> proc_struct \<Rightarrow> bool" where
  "same_but_sched p q \<longleftrightarrow>
     q\<lparr>p_on_rq := p_on_rq p, p_time_slice := p_time_slice p, p_stride := p_stride p\<rparr> = p"

lemma same_but_sched_refl [simp]: "same_but_sched p p"
  by (simp add: same_but_sched_def)

lemma same_but_sched_iff:
  "same_but_sched p q \<longleftrightarrow>
     p_state q = p_state p \<and> p_pid q = p_pid p \<and> p_runs q = p_runs p \<and> p_kstack q = p_kstack p \<and>
     p_need_resched q = p_need_resched p \<and> p_parent q = p_parent p \<and> p_mm q = p_mm p \<and>
     p_context q = p_context p \<and> p_tf q = p_tf p \<and> p_cr3 q = p_cr3 p \<and> p_flags q = p_flags p \<and>
     p_name q = p_name p \<and> p_exit_code q = p_exit_code p \<and> p_wait_state q = p_wait_state p \<and>
     p_cptr q = p_cptr p \<and> p_yptr q = p_yptr p \<and> p_optr q = p_optr p \<and>
     p_priority q = p_priority p \<and> p_filesp q = p_filesp p"
  unfolding same_but_sched_def by (cases p; cases q) auto

lemma same_but_schedD:
  assumes "same_but_sched p q"
  shows "p_state q = p_state p" "p_pid q = p_pid p" "p_runs q = p_runs p"
    "p_need_resched q = p_need_resched p" "p_parent q = p_parent p" "p_mm q = p_mm p"
    "p_cr3 q = p_cr3 p" "p_flags q = p_flags p" "p_exit_code q = p_exit_code p"
    "p_wait_state q = p_wait_state p" "p_cptr q = p_cptr p" "p_yptr q = p_yptr p"
    "p_optr q = p_optr p" "p_priority q = p_priority p" "p_filesp q = p_filesp p"
    "p_kstack q = p_kstack p" "p_context q = p_context p" "p_tf q = p_tf p" "p_name q = p_name p"
  using assms by (simp_all only: same_but_sched_iff)

lemma same_but_sched_trans: "same_but_sched p q \<Longrightarrow> same_but_sched q r \<Longrightarrow> same_but_sched p r"
  by (simp add: same_but_sched_iff)

definition sched_frame :: "kernel \<Rightarrow> kernel \<Rightarrow> bool" where
  "sched_frame k k' \<longleftrightarrow>
     (\<forall>p. same_but_sched (procs k p) (procs k' p)) \<and> k'\<lparr>procs := procs k, rq := rq k\<rparr> = k"

lemma sched_frame_iff:
  "sched_frame k k' \<longleftrightarrow>
     (\<forall>p. same_but_sched (procs k p) (procs k' p)) \<and> current k' = current k \<and>
     idleproc k' = idleproc k \<and> initproc k' = initproc k \<and> cr3_reg k' = cr3_reg k \<and>
     timers k' = timers k \<and> timer_list k' = timer_list k \<and> waits k' = waits k \<and>
     wqueues k' = wqueues k \<and> sem_value k' = sem_value k \<and> proc_list k' = proc_list k \<and>
     hash_lists k' = hash_lists k \<and> nr_process k' = nr_process k \<and> last_pid k' = last_pid k \<and>
     next_safe k' = next_safe k"
  unfolding sched_frame_def by (cases k; cases k') auto

lemma sched_frame_refl [simp]: "sched_frame k k"
  by (simp add: sched_frame_def)

lemma sched_frame_trans: "sched_frame k k' \<Longrightarrow> sched_frame k' k'' \<Longrightarrow> sched_frame k k''"
  by (auto simp: sched_frame_iff intro: same_but_sched_trans)

section \<open>Initial states\<close>

text \<open>Zeroed memory, and \<^verbatim>\<open>alloc_proc\<close> on the block \<open>p\<close> that \<^verbatim>\<open>kmalloc\<close> returned.\<close>

definition proc0 :: proc_struct where
  "proc0 = \<lparr>p_state = PROC_UNINIT, p_pid = 0, p_runs = 0, p_kstack = 0, p_need_resched = False,
     p_parent = None, p_mm = None,
     p_context = \<lparr>ctx_ra = 0, ctx_sp = 0, ctx_s = replicate 12 0\<rparr>,
     p_tf = (0, \<lparr>gpr = (\<lambda>_. 0), tf_status = 0, tf_epc = 0, tf_tval = 0, tf_cause = 0\<rparr>),
     p_cr3 = 0, p_flags = 0, p_name = replicate (PROC_NAME_LEN + 1) 0, p_exit_code = 0,
     p_wait_state = 0, p_cptr = None, p_yptr = None, p_optr = None, p_on_rq = False,
     p_time_slice = 0, p_stride = 0, p_priority = 0, p_filesp = None\<rparr>"

definition alloc_proc :: "u64 \<Rightarrow> proc_struct \<Rightarrow> proc_struct" where
  "alloc_proc boot_cr3 p = p\<lparr>p_state := PROC_UNINIT, p_pid := -1, p_runs := 0, p_kstack := 0,
     p_need_resched := False, p_parent := None, p_mm := None,
     p_context := \<lparr>ctx_ra = 0, ctx_sp = 0, ctx_s = replicate 12 0\<rparr>,
     p_tf := (0, snd (p_tf p)), p_cr3 := boot_cr3, p_flags := 0,
     p_name := replicate PROC_NAME_LEN 0 @ drop PROC_NAME_LEN (p_name p),
     p_wait_state := 0, p_cptr := None, p_optr := None, p_yptr := None,
     p_on_rq := False, p_time_slice := 0, p_stride := 0, p_priority := 0, p_filesp := None\<rparr>"

text \<open>The globals as the loader leaves them, with every list empty.\<close>

definition kernel0 :: kernel where
  "kernel0 = \<lparr>procs = (\<lambda>_. proc0), current = 0, idleproc = 0, initproc = 0, cr3_reg = 0,
     rq = \<lparr>run_list = [], proc_num = 0, max_time_slice = 0, run_pool = Leaf\<rparr>,
     timers = (\<lambda>_. \<lparr>t_expires = 0, t_proc = None\<rparr>), timer_list = [],
     waits = (\<lambda>_. \<lparr>w_proc = None, w_flags = 0, w_queue = 0\<rparr>), wqueues = (\<lambda>_. []),
     sem_value = (\<lambda>_. 0), proc_list = [], hash_lists = (\<lambda>_. []), nr_process = 0,
     last_pid = MAX_PID, next_safe = MAX_PID\<rparr>"

lemma kernel0_simps [simp]:
  "procs kernel0 = (\<lambda>_. proc0)" "current kernel0 = 0" "idleproc kernel0 = 0"
  "timers kernel0 = (\<lambda>_. \<lparr>t_expires = 0, t_proc = None\<rparr>)" "timer_list kernel0 = []"
  "waits kernel0 = (\<lambda>_. \<lparr>w_proc = None, w_flags = 0, w_queue = 0\<rparr>)" "wqueues kernel0 = (\<lambda>_. [])"
  "sem_value kernel0 = (\<lambda>_. 0)" "proc_list kernel0 = []" "nr_process kernel0 = 0"
  "hash_lists kernel0 = (\<lambda>_. [])" "last_pid kernel0 = MAX_PID" "next_safe kernel0 = MAX_PID"
  "rq kernel0 = \<lparr>run_list = [], proc_num = 0, max_time_slice = 0, run_pool = Leaf\<rparr>"
  by (simp_all add: kernel0_def)

lemma proc0_simps [simp]:
  "p_state proc0 = PROC_UNINIT" "p_wait_state proc0 = 0" "p_on_rq proc0 = False"
  "p_stride proc0 = 0" "p_priority proc0 = 0" "p_time_slice proc0 = 0" "p_pid proc0 = 0"
  "p_cptr proc0 = None" "p_optr proc0 = None" "p_yptr proc0 = None" "p_parent proc0 = None"
  "p_mm proc0 = None" "p_flags proc0 = 0" "p_filesp proc0 = None" "p_runs proc0 = 0"
  by (simp_all add: proc0_def)

end
