(* ===== verification/Sched_Class.thy ===== *)
theory Sched_Class
  imports Proc_State
begin

text \<open>
  The scheduling classes: \<^verbatim>\<open>struct sched_class\<close> (\<^verbatim>\<open>kern/schedule/sched.h\<close>), the
  round-robin class (\<^verbatim>\<open>lab6/kern/schedule/default_sched_c.c\<close>) and the stride class
  (\<^verbatim>\<open>lab8/kern/schedule/default_sched_stride.c\<close>, compiled with \<^verbatim>\<open>USE_SKEW_HEAP\<close>).
  The locale \<open>sched_class_laws\<close> states what the scheduler core of \<^verbatim>\<open>sched.c\<close> needs of a class;
  both classes satisfy it. That the stride class also picks a process of least stride
  (\<open>stride_order\<close>) needs the strides of the queued processes to lie in a window of width
  \<open>BIG_STRIDE\<close>, in which the wrap-around comparison is a total order; \<open>stride_window_step\<close>
  shows that picking a process keeps such a window.
\<close>

section \<open>The class as a structure of function pointers\<close>

record sched_class =
  sc_init :: "kernel \<Rightarrow> kernel"
  sc_enqueue :: "nat \<Rightarrow> kernel \<Rightarrow> kernel option"
  sc_dequeue :: "nat \<Rightarrow> kernel \<Rightarrow> kernel option"
  sc_pick_next :: "kernel \<Rightarrow> nat option \<times> kernel"
  sc_proc_tick :: "nat \<Rightarrow> kernel \<Rightarrow> kernel"

definition upd_rq :: "(run_queue \<Rightarrow> run_queue) \<Rightarrow> kernel \<Rightarrow> kernel" where
  "upd_rq f k = k\<lparr>rq := f (rq k)\<rparr>"

lemma upd_rq_simps [simp]:
  "rq (upd_rq f k) = f (rq k)" "procs (upd_rq f k) = procs k" "current (upd_rq f k) = current k"
  "idleproc (upd_rq f k) = idleproc k" "initproc (upd_rq f k) = initproc k"
  "cr3_reg (upd_rq f k) = cr3_reg k" "timers (upd_rq f k) = timers k"
  "timer_list (upd_rq f k) = timer_list k" "waits (upd_rq f k) = waits k"
  "wqueues (upd_rq f k) = wqueues k" "sem_value (upd_rq f k) = sem_value k"
  "proc_list (upd_rq f k) = proc_list k" "hash_lists (upd_rq f k) = hash_lists k"
  "nr_process (upd_rq f k) = nr_process k" "last_pid (upd_rq f k) = last_pid k"
  "next_safe (upd_rq f k) = next_safe k"
  by (simp_all add: upd_rq_def)

lemma sched_frame_upd_rq [intro!]: "sched_frame k k' \<Longrightarrow> sched_frame k (upd_rq f k')"
  by (simp add: sched_frame_iff)

lemma sched_frame_upd_proc [intro!]:
  "(\<And>q. same_but_sched q (f q)) \<Longrightarrow> sched_frame k k' \<Longrightarrow> sched_frame k (upd_proc p f k')"
  by (auto simp: sched_frame_iff intro: same_but_sched_trans)

lemma same_but_sched_upd [intro!]:
  "same_but_sched q (q\<lparr>p_on_rq := b\<rparr>)" "same_but_sched q (q\<lparr>p_time_slice := n\<rparr>)"
  "same_but_sched q (q\<lparr>p_stride := s\<rparr>)"
  by (simp_all add: same_but_sched_iff)

text \<open>Both classes refill an empty or oversized time slice the same way.\<close>

definition refill_slice :: "nat \<Rightarrow> kernel \<Rightarrow> kernel" where
  "refill_slice p k =
     (if p_time_slice (procs k p) = 0 \<or> p_time_slice (procs k p) > max_time_slice (rq k)
      then upd_proc p (\<lambda>q. q\<lparr>p_time_slice := max_time_slice (rq k)\<rparr>) k else k)"

lemma refill_slice_simps [simp]:
  "rq (refill_slice p k) = rq k"
  "p_stride (procs (refill_slice p k) q) = p_stride (procs k q)"
  "p_on_rq (procs (refill_slice p k) q) = p_on_rq (procs k q)"
  by (simp_all add: refill_slice_def)

lemma refill_slice_frame [intro!]: "sched_frame k k' \<Longrightarrow> sched_frame k (refill_slice p k')"
  by (auto simp: refill_slice_def)

definition sched_proc_tick :: "nat \<Rightarrow> kernel \<Rightarrow> kernel" where
  "sched_proc_tick p k =
     (let k = (if p_time_slice (procs k p) > 0
               then upd_proc p (\<lambda>q. q\<lparr>p_time_slice := p_time_slice q - 1\<rparr>) k else k)
      in if p_time_slice (procs k p) = 0
         then upd_proc p (\<lambda>q. q\<lparr>p_need_resched := True\<rparr>) k else k)"

section \<open>Round robin\<close>

definition RR_init :: "kernel \<Rightarrow> kernel" where
  "RR_init = upd_rq (\<lambda>r. r\<lparr>run_list := [], proc_num := 0\<rparr>)"

definition RR_enqueue :: "nat \<Rightarrow> kernel \<Rightarrow> kernel option" where
  "RR_enqueue p k = do {
     kassert (p \<notin> set (run_list (rq k)));
     let k = upd_rq (\<lambda>r. r\<lparr>run_list := run_list r @ [p]\<rparr>) k;
     let k = refill_slice p k;
     let k = upd_proc p (\<lambda>q. q\<lparr>p_on_rq := True\<rparr>) k;
     Some (upd_rq (\<lambda>r. r\<lparr>proc_num := proc_num r + 1\<rparr>) k)
   }"

definition RR_dequeue :: "nat \<Rightarrow> kernel \<Rightarrow> kernel option" where
  "RR_dequeue p k = do {
     kassert (p \<in> set (run_list (rq k)) \<and> p_on_rq (procs k p));
     let k = upd_rq (\<lambda>r. r\<lparr>run_list := remove1 p (run_list r)\<rparr>) k;
     Some (upd_rq (\<lambda>r. r\<lparr>proc_num := proc_num r - 1\<rparr>) k)
   }"

definition RR_pick_next :: "kernel \<Rightarrow> nat option \<times> kernel" where
  "RR_pick_next k = (case run_list (rq k) of [] \<Rightarrow> (None, k) | p # _ \<Rightarrow> (Some p, k))"

definition RR_proc_tick :: "nat \<Rightarrow> kernel \<Rightarrow> kernel" where
  "RR_proc_tick = sched_proc_tick"

definition RR_sched_class :: sched_class where
  "RR_sched_class = \<lparr>sc_init = RR_init, sc_enqueue = RR_enqueue, sc_dequeue = RR_dequeue,
     sc_pick_next = RR_pick_next, sc_proc_tick = RR_proc_tick\<rparr>"

section \<open>Stride\<close>

definition BIG_STRIDE :: u32 where "BIG_STRIDE = 0x7FFFFFFF"

text \<open>The 32-bit subtraction wraps; its sign decides.\<close>

definition proc_stride_comp_f :: "(nat \<Rightarrow> u32) \<Rightarrow> nat \<Rightarrow> nat \<Rightarrow> int" where
  "proc_stride_comp_f st a b =
     (let c = sint (st a - st b) in if c > 0 then 1 else if c = 0 then 0 else -1)"

definition strides :: "kernel \<Rightarrow> nat \<Rightarrow> u32" where
  "strides k p = p_stride (procs k p)"

definition stride_init :: "kernel \<Rightarrow> kernel" where
  "stride_init = upd_rq (\<lambda>r. r\<lparr>run_list := [], run_pool := Leaf, proc_num := 0\<rparr>)"

definition stride_enqueue :: "nat \<Rightarrow> kernel \<Rightarrow> kernel option" where
  "stride_enqueue p k =
     (let k = upd_rq (\<lambda>r. r\<lparr>run_pool := insert_t (proc_stride_comp_f (strides k)) p (run_pool r)\<rparr>) k;
          k = refill_slice p k;
          k = upd_proc p (\<lambda>q. q\<lparr>p_on_rq := True\<rparr>) k
      in Some (upd_rq (\<lambda>r. r\<lparr>proc_num := proc_num r + 1\<rparr>) k))"

definition stride_dequeue :: "nat \<Rightarrow> kernel \<Rightarrow> kernel option" where
  "stride_dequeue p k =
     (let k = upd_rq (\<lambda>r. r\<lparr>run_pool := remove_t (proc_stride_comp_f (strides k)) p (run_pool r)\<rparr>) k
      in Some (upd_rq (\<lambda>r. r\<lparr>proc_num := proc_num r - 1\<rparr>) k))"

definition stride_pass :: "u32 \<Rightarrow> u32" where
  "stride_pass prio = (if prio = 0 then BIG_STRIDE else BIG_STRIDE div prio)"

definition stride_pick_next :: "kernel \<Rightarrow> nat option \<times> kernel" where
  "stride_pick_next k =
     (case run_pool (rq k) of
        Leaf \<Rightarrow> (None, k)
      | Node _ p _ \<Rightarrow>
          (Some p, upd_proc p (\<lambda>q. q\<lparr>p_stride := p_stride q + stride_pass (p_priority q)\<rparr>) k))"

definition stride_proc_tick :: "nat \<Rightarrow> kernel \<Rightarrow> kernel" where
  "stride_proc_tick = sched_proc_tick"

definition stride_sched_class :: sched_class where
  "stride_sched_class = \<lparr>sc_init = stride_init, sc_enqueue = stride_enqueue,
     sc_dequeue = stride_dequeue, sc_pick_next = stride_pick_next,
     sc_proc_tick = stride_proc_tick\<rparr>"

section \<open>What the scheduler core needs of a class\<close>

text \<open>
  \<open>ready k\<close> is the set of queued processes and \<open>inv\<close> the class's invariant on the run queue.
\<close>

locale sched_class_laws =
  fixes sc :: sched_class
    and ready :: "kernel \<Rightarrow> nat set"
    and inv :: "kernel \<Rightarrow> bool"
  assumes init: "inv (sc_init sc k) \<and> ready (sc_init sc k) = {} \<and> sched_frame k (sc_init sc k)"
    and enqueue: "inv k \<Longrightarrow> p \<notin> ready k \<Longrightarrow>
      \<exists>k'. sc_enqueue sc p k = Some k' \<and> inv k' \<and> ready k' = insert p (ready k) \<and> sched_frame k k'"
    and pick_none: "inv k \<Longrightarrow> ready k = {} \<Longrightarrow> sc_pick_next sc k = (None, k)"
    and pick_some: "inv k \<Longrightarrow> ready k \<noteq> {} \<Longrightarrow>
      \<exists>p k1 k2. sc_pick_next sc k = (Some p, k1) \<and> p \<in> ready k \<and> sc_dequeue sc p k1 = Some k2 \<and>
        inv k2 \<and> ready k2 = ready k - {p} \<and> sched_frame k k2"
    and cong: "rq k' = rq k \<Longrightarrow>
      (\<And>p. p_stride (procs k' p) = p_stride (procs k p) \<and> p_on_rq (procs k' p) = p_on_rq (procs k p)) \<Longrightarrow>
      inv k' = inv k \<and> ready k' = ready k"
    and tick: "sc_proc_tick sc p k = sched_proc_tick p k"
begin

text \<open>Picking never loses a process and never invents one.\<close>

lemma pick_total:
  assumes "inv k"
  obtains (Nothing) "ready k = {}" and "sc_pick_next sc k = (None, k)"
  | (Next) p k1 k2 where "sc_pick_next sc k = (Some p, k1)" and "p \<in> ready k"
      and "sc_dequeue sc p k1 = Some k2" and "inv k2" and "ready k2 = ready k - {p}"
      and "sched_frame k k2"
  using pick_none [OF assms] pick_some [OF assms] by blast

lemma upd_proc_cong:
  assumes "\<And>q. p_stride (f q) = p_stride q" and "\<And>q. p_on_rq (f q) = p_on_rq q"
  shows "inv (upd_proc p f k) = inv k" and "ready (upd_proc p f k) = ready k"
  using cong [of "upd_proc p f k" k] assms by auto

end

subsection \<open>Round robin satisfies the laws\<close>

definition RR_ready :: "kernel \<Rightarrow> nat set" where
  "RR_ready k = set (run_list (rq k))"

definition RR_inv :: "kernel \<Rightarrow> bool" where
  "RR_inv k \<longleftrightarrow> distinct (run_list (rq k)) \<and> (\<forall>p \<in> set (run_list (rq k)). p_on_rq (procs k p)) \<and>
     proc_num (rq k) = of_nat (length (run_list (rq k)))"

lemmas RR_op_defs = RR_init_def RR_enqueue_def RR_dequeue_def RR_pick_next_def RR_proc_tick_def
  RR_sched_class_def RR_ready_def RR_inv_def

lemma RR_enqueue_spec:
  assumes "RR_inv k" and "p \<notin> RR_ready k"
  shows "\<exists>k'. RR_enqueue p k = Some k' \<and> RR_inv k' \<and>
    run_list (rq k') = run_list (rq k) @ [p] \<and> sched_frame k k'"
  using assms by (auto simp: RR_op_defs refill_slice_def sched_frame_iff same_but_sched_iff Let_def)

lemma RR_dequeue_spec:
  assumes "RR_inv k" and "run_list (rq k) = p # ps"
  shows "\<exists>k'. RR_dequeue p k = Some k' \<and> RR_inv k' \<and> run_list (rq k') = ps \<and> sched_frame k k'"
  using assms by (auto simp: RR_op_defs sched_frame_iff same_but_sched_iff Let_def)

interpretation rr: sched_class_laws RR_sched_class RR_ready RR_inv
proof unfold_locales
  fix k p
  assume "RR_inv k" "p \<notin> RR_ready k"
  from RR_enqueue_spec [OF this]
  show "\<exists>k'. sc_enqueue RR_sched_class p k = Some k' \<and> RR_inv k' \<and>
      RR_ready k' = insert p (RR_ready k) \<and> sched_frame k k'"
    by (auto simp: RR_sched_class_def RR_ready_def)
next
  fix k
  assume inv: "RR_inv k" and "RR_ready k \<noteq> {}"
  then obtain p ps where l: "run_list (rq k) = p # ps"
    by (cases "run_list (rq k)") (auto simp: RR_ready_def)
  moreover have "p \<notin> set ps" using inv l by (simp add: RR_inv_def)
  moreover note RR_dequeue_spec [OF inv l]
  ultimately show "\<exists>p k1 k2. sc_pick_next RR_sched_class k = (Some p, k1) \<and> p \<in> RR_ready k \<and>
      sc_dequeue RR_sched_class p k1 = Some k2 \<and> RR_inv k2 \<and> RR_ready k2 = RR_ready k - {p} \<and>
      sched_frame k k2"
    by (auto simp: RR_sched_class_def RR_pick_next_def RR_ready_def)
qed (auto simp: RR_op_defs sched_frame_iff same_but_sched_iff)

section \<open>The stride comparison in a window\<close>

definition stride_window :: "(nat \<Rightarrow> u32) \<Rightarrow> u32 \<Rightarrow> nat set \<Rightarrow> bool" where
  "stride_window st m A \<longleftrightarrow> (\<forall>p \<in> A. unat (st p - m) \<le> unat BIG_STRIDE)"

definition in_window :: "(nat \<Rightarrow> u32) \<Rightarrow> u32 \<Rightarrow> nat set" where
  "in_window st m = {p. unat (st p - m) \<le> unat BIG_STRIDE}"

lemma stride_window_subset: "stride_window st m A \<longleftrightarrow> A \<subseteq> in_window st m"
  by (auto simp: stride_window_def in_window_def)

lemma sint_diff_small:
  fixes x y :: u32
  assumes "unat x \<le> unat BIG_STRIDE" and "unat y \<le> unat BIG_STRIDE"
  shows "sint (x - y) = int (unat x) - int (unat y)"
proof -
  have "uint x \<le> uint BIG_STRIDE" "uint y \<le> uint BIG_STRIDE"
    using assms by (simp_all only: word_le_nat_alt [symmetric] word_le_def)
  then have b: "uint x \<le> 2147483647" "uint y \<le> 2147483647"
    by (simp_all add: BIG_STRIDE_def)
  have "0 \<le> uint x" "0 \<le> uint y" by simp_all
  note b = b this
  have "sint (x - y) = sint (word_of_int (uint x - uint y) :: u32)"
    by (simp add: wi_hom_sub)
  also have "\<dots> = signed_take_bit 31 (uint x - uint y)"
    by (subst sint_sbintrunc') simp
  also have "\<dots> = uint x - uint y"
  proof (rule signed_take_bit_int_eq_self)
    have "- 2147483648 \<le> uint x - uint y" using b by linarith
    then show "- (2 ^ 31) \<le> uint x - uint y" by simp
    have "uint x - uint y < 2147483648" using b by linarith
    then show "uint x - uint y < 2 ^ 31" by simp
  qed
  finally show ?thesis by simp
qed

lemma stride_comp_window:
  assumes "a \<in> in_window st m" and "b \<in> in_window st m"
  shows "proc_stride_comp_f st a b = sgn (int (unat (st a - m)) - int (unat (st b - m)))"
proof -
  have "st a - st b = (st a - m) - (st b - m)" by simp
  then have "sint (st a - st b) = int (unat (st a - m)) - int (unat (st b - m))"
    using sint_diff_small [of "st a - m" "st b - m"] assms by (simp add: in_window_def)
  then show ?thesis by (simp add: proc_stride_comp_f_def sgn_if)
qed

interpretation stride_cmp: comparator "proc_stride_comp_f st" "in_window st m" for st m
proof unfold_locales
  fix x y :: nat
  show "proc_stride_comp_f st x y \<in> {-1, 0, 1}"
    by (simp add: proc_stride_comp_f_def Let_def)
qed (auto simp: stride_comp_window sgn_if split: if_splits)

section \<open>Stride satisfies the laws\<close>

definition stride_ready :: "kernel \<Rightarrow> nat set" where
  "stride_ready k = set_tree (run_pool (rq k))"

definition stride_inv :: "kernel \<Rightarrow> bool" where
  "stride_inv k \<longleftrightarrow> nodup_t (run_pool (rq k)) \<and>
     proc_num (rq k) = of_nat (size (run_pool (rq k)))"

definition stride_order :: "kernel \<Rightarrow> bool" where
  "stride_order k \<longleftrightarrow> heap_t (proc_stride_comp_f (strides k)) (run_pool (rq k)) \<and>
     (\<exists>m. stride_window (strides k) m (stride_ready k))"

definition stride_adm :: "kernel \<Rightarrow> nat \<Rightarrow> bool" where
  "stride_adm k p \<longleftrightarrow> (\<exists>m. stride_window (strides k) m (insert p (stride_ready k)))"

lemma size_merge_t [simp]: "size (merge_t cmp t1 t2) = size t1 + size t2"
  by (induction cmp t1 t2 rule: merge_t.induct) auto

lemma size_insert_t: "size (insert_t cmp p t) = Suc (size t)"
  by (simp add: insert_t_def)

lemma size_remove_t: "p \<in> set_tree t \<Longrightarrow> Suc (size (remove_t cmp p t)) = size t"
  by (induction t) auto

lemma nodup_insert_t: "nodup_t t \<Longrightarrow> p \<notin> set_tree t \<Longrightarrow> nodup_t (insert_t cmp p t)"
  unfolding insert_t_def by (rule nodup_merge_t) auto

lemma set_insert_t [simp]: "set_tree (insert_t cmp p t) = insert p (set_tree t)"
  by (simp add: insert_t_def)

lemma strides_upd [simp]:
  "strides (upd_rq f k) = strides k" "strides (refill_slice p k) = strides k"
  "strides (upd_proc p (p_on_rq_update g) k) = strides k"
  by (auto simp: strides_def)

lemma stride_enqueue_spec:
  assumes "stride_inv k" and "p \<notin> stride_ready k"
  shows "\<exists>k'. stride_enqueue p k = Some k' \<and> stride_inv k' \<and>
    stride_ready k' = insert p (stride_ready k) \<and> sched_frame k k' \<and>
    (stride_order k \<longrightarrow> stride_adm k p \<longrightarrow> stride_order k')"
proof -
  define t where "t = insert_t (proc_stride_comp_f (strides k)) p (run_pool (rq k))"
  obtain k' where k': "stride_enqueue p k = Some k'"
    by (simp add: stride_enqueue_def Let_def)
  then have st: "strides k' = strides k" and pool: "run_pool (rq k') = t"
    and num: "proc_num (rq k') = proc_num (rq k) + 1"
    by (auto simp: stride_enqueue_def Let_def t_def)
  have fr: "sched_frame k k'"
    using k' by (auto simp: stride_enqueue_def Let_def)
  have "stride_order k'" if "stride_order k" "stride_adm k p"
  proof -
    from that(2) obtain m where w: "insert p (stride_ready k) \<subseteq> in_window (strides k) m"
      by (auto simp: stride_adm_def stride_window_subset)
    have "heap_t (proc_stride_comp_f (strides k)) t"
      unfolding t_def using that(1) w
      by (intro stride_cmp.heap_insert_t) (auto simp: stride_order_def stride_ready_def)
    with w st pool show ?thesis
      by (auto simp: stride_order_def stride_ready_def stride_window_subset t_def)
  qed
  moreover have "nodup_t t"
    using assms by (auto simp: t_def stride_inv_def stride_ready_def intro: nodup_insert_t)
  moreover have "set_tree t = insert p (stride_ready k)"
    by (simp add: t_def stride_ready_def)
  ultimately show ?thesis
    using k' pool num fr assms(1)
    by (auto simp: stride_inv_def stride_ready_def size_insert_t t_def)
qed

text \<open>The root of the pool is a process with the least stride, measured from the window's base.\<close>

lemma stride_root_least:
  assumes "stride_order k" and "run_pool (rq k) = Node l p r"
    and "stride_ready k \<subseteq> in_window (strides k) m" and "q \<in> stride_ready k"
  shows "unat (strides k p - m) \<le> unat (strides k q - m)"
proof -
  have "proc_stride_comp_f (strides k) p q \<noteq> 1"
    using stride_cmp.heap_root_min [of "strides k" l p r m q] assms
    by (auto simp: stride_order_def stride_ready_def)
  moreover have "p \<in> in_window (strides k) m" "q \<in> in_window (strides k) m"
    using assms by (auto simp: stride_ready_def)
  ultimately have "\<not> int (unat (strides k q - m)) < int (unat (strides k p - m))"
    by (auto simp: stride_comp_window sgn_if split: if_splits)
  then show ?thesis by linarith
qed

lemma stride_pass_le: "stride_pass prio \<le> BIG_STRIDE"
  by (simp add: stride_pass_def word_le_nat_alt unat_div_distrib)

text \<open>
  After the pass of the picked process has been added, all strides lie in the window that starts
  at the stride it had: the window moves on and never widens.
\<close>

lemma stride_window_step:
  assumes "stride_order k" and "stride_pick_next k = (Some p, k1)"
  shows "p \<in> stride_ready k" and "stride_window (strides k1) (strides k p) (stride_ready k)"
proof -
  from assms(2) obtain l r where t: "run_pool (rq k) = Node l p r"
    and k1: "k1 = upd_proc p (\<lambda>q. q\<lparr>p_stride := p_stride q + stride_pass (p_priority q)\<rparr>) k"
    by (auto simp: stride_pick_next_def split: tree.splits)
  from assms(1) obtain m where w: "stride_ready k \<subseteq> in_window (strides k) m"
    by (auto simp: stride_order_def stride_window_subset)
  show p: "p \<in> stride_ready k" by (simp add: stride_ready_def t)
  show "stride_window (strides k1) (strides k p) (stride_ready k)"
    unfolding stride_window_def
  proof
    fix q assume q: "q \<in> stride_ready k"
    show "unat (strides k1 q - strides k p) \<le> unat BIG_STRIDE"
    proof (cases "q = p")
      case True
      then show ?thesis
        using stride_pass_le by (simp add: k1 strides_def word_le_nat_alt)
    next
      case False
      have le: "unat (strides k p - m) \<le> unat (strides k q - m)"
        by (rule stride_root_least [OF assms(1) t w q])
      have "strides k q - strides k p = (strides k q - m) - (strides k p - m)" by simp
      then have "unat (strides k q - strides k p) = unat (strides k q - m) - unat (strides k p - m)"
        using le by (metis unat_sub word_le_nat_alt)
      then show ?thesis
        using False w q by (auto simp: k1 strides_def in_window_def)
    qed
  qed
qed

lemma stride_pick_spec:
  assumes inv: "stride_inv k" and t: "run_pool (rq k) = Node l p r"
  shows "\<exists>k1 k2. stride_pick_next k = (Some p, k1) \<and> stride_dequeue p k1 = Some k2 \<and>
    stride_inv k2 \<and> stride_ready k2 = stride_ready k - {p} \<and> sched_frame k k2 \<and>
    strides k2 = strides k1 \<and> (stride_order k \<longrightarrow> stride_order k2)"
proof -
  define k1 where
    "k1 = upd_proc p (\<lambda>q. q\<lparr>p_stride := p_stride q + stride_pass (p_priority q)\<rparr>) k"
  have pick: "stride_pick_next k = (Some p, k1)"
    by (simp add: stride_pick_next_def t k1_def)
  define c where "c = proc_stride_comp_f (strides k1)"
  obtain k2 where k2: "stride_dequeue p k1 = Some k2"
    by (simp add: stride_dequeue_def Let_def)
  then have pool: "run_pool (rq k2) = merge_t c l r" and st: "strides k2 = strides k1"
    and num: "proc_num (rq k2) = proc_num (rq k) - 1"
    by (auto simp: stride_dequeue_def Let_def c_def k1_def t)
  have fr: "sched_frame k k2"
    using k2 by (auto simp: stride_dequeue_def Let_def k1_def)
  have nd: "nodup_t (Node l p r)"
    using inv by (simp add: stride_inv_def t)
  have set: "set_tree (merge_t c l r) = stride_ready k - {p}"
    using nd by (auto simp: stride_ready_def t)
  have "stride_order k2" if "stride_order k"
  proof -
    have h: "heap_t (proc_stride_comp_f (strides k)) (Node l p r)"
      using that by (simp add: stride_order_def t)
    from stride_window_step(2) [OF that pick]
    have w: "set_tree l \<union> set_tree r \<subseteq> in_window (strides k1) (strides k p)"
      by (auto simp: stride_window_subset stride_ready_def t)
    have same: "strides k1 q = strides k q" if "q \<noteq> p" for q
      using that by (simp add: k1_def strides_def)
    have c: "c x y = proc_stride_comp_f (strides k) x y" if "x \<noteq> p" "y \<noteq> p" for x y
      using that by (simp add: c_def proc_stride_comp_f_def same)
    have "heap_t c l \<longleftrightarrow> heap_t (proc_stride_comp_f (strides k)) l"
      by (rule heap_t_cong, rule c) (use nd in auto)
    moreover have "heap_t c r \<longleftrightarrow> heap_t (proc_stride_comp_f (strides k)) r"
      by (rule heap_t_cong, rule c) (use nd in auto)
    ultimately have "heap_t c l" and "heap_t c r" using h by auto
    then have "heap_t c (merge_t c l r)"
      unfolding c_def using w by (rule stride_cmp.heap_merge_t)
    with pool st w show ?thesis
      by (auto simp: stride_order_def c_def stride_window_subset stride_ready_def)
  qed
  moreover have "nodup_t (merge_t c l r)" using nd by (auto intro: nodup_merge_t)
  moreover have "proc_num (rq k2) = of_nat (size (merge_t c l r))"
    using num inv by (simp add: stride_inv_def t)
  ultimately show ?thesis
    using pick k2 pool st fr set by (auto simp: stride_inv_def stride_ready_def)
qed

interpretation stride: sched_class_laws stride_sched_class stride_ready stride_inv
proof unfold_locales
  fix k p
  assume "stride_inv k" "p \<notin> stride_ready k"
  from stride_enqueue_spec [OF this]
  show "\<exists>k'. sc_enqueue stride_sched_class p k = Some k' \<and> stride_inv k' \<and>
      stride_ready k' = insert p (stride_ready k) \<and> sched_frame k k'"
    by (auto simp: stride_sched_class_def)
next
  fix k
  assume inv: "stride_inv k" and "stride_ready k \<noteq> {}"
  then obtain l p r where t: "run_pool (rq k) = Node l p r"
    by (cases "run_pool (rq k)") (auto simp: stride_ready_def)
  from stride_pick_spec [OF inv t] t
  show "\<exists>p k1 k2. sc_pick_next stride_sched_class k = (Some p, k1) \<and> p \<in> stride_ready k \<and>
      sc_dequeue stride_sched_class p k1 = Some k2 \<and> stride_inv k2 \<and>
      stride_ready k2 = stride_ready k - {p} \<and> sched_frame k k2"
    by (auto simp: stride_sched_class_def stride_ready_def)
next
  fix k k' :: kernel
  assume rq: "rq k' = rq k"
    and "\<And>p. p_stride (procs k' p) = p_stride (procs k p) \<and> p_on_rq (procs k' p) = p_on_rq (procs k p)"
  then have "strides k' = strides k" by (auto simp: strides_def)
  with rq show "stride_inv k' = stride_inv k \<and> stride_ready k' = stride_ready k"
    by (auto simp: stride_inv_def stride_ready_def)
qed (auto simp: stride_sched_class_def stride_init_def stride_ready_def stride_inv_def
    stride_pick_next_def stride_proc_tick_def stride_window_def sched_frame_iff same_but_sched_iff
    split: tree.splits)

end
