(* ===== verification/Sched.thy ===== *)
theory Sched
  imports Sched_Class
begin

text \<open>
  The scheduler core, \<^verbatim>\<open>kern/schedule/sched.c\<close>: the class-independent enqueue and tick
  wrappers, \<^verbatim>\<open>wakeup_proc\<close>, \<^verbatim>\<open>schedule\<close> with \<^verbatim>\<open>proc_run\<close> (\<^verbatim>\<open>proc.c\<close>), and
  the delta list of timers. \<open>sched_ok L k\<close> says that the run queue holds exactly the runnable
  processes of \<open>L\<close> other than the running one and the idle one: no runnable process is ever
  lost, none is queued that should not run. \<open>deadlines\<close> reads the delta list as absolute
  deadlines.
\<close>

section \<open>Wrappers, wake-up, schedule\<close>

definition sched_class_enqueue :: "sched_class \<Rightarrow> nat \<Rightarrow> kernel \<Rightarrow> kernel option" where
  "sched_class_enqueue sc p k = (if p \<noteq> idleproc k then sc_enqueue sc p k else Some k)"

definition sched_class_dequeue :: "sched_class \<Rightarrow> nat \<Rightarrow> kernel \<Rightarrow> kernel option" where
  "sched_class_dequeue sc p k = sc_dequeue sc p k"

definition sched_class_pick_next :: "sched_class \<Rightarrow> kernel \<Rightarrow> nat option \<times> kernel" where
  "sched_class_pick_next sc k = sc_pick_next sc k"

definition sched_class_proc_tick :: "sched_class \<Rightarrow> nat \<Rightarrow> kernel \<Rightarrow> kernel" where
  "sched_class_proc_tick sc p k =
     (if p \<noteq> idleproc k then sc_proc_tick sc p k
      else upd_proc p (\<lambda>q. q\<lparr>p_need_resched := True\<rparr>) k)"

definition sched_init :: "sched_class \<Rightarrow> kernel \<Rightarrow> kernel" where
  "sched_init sc k =
     (let k = k\<lparr>timer_list := []\<rparr>;
          k = upd_rq (\<lambda>r. r\<lparr>max_time_slice := MAX_TIME_SLICE\<rparr>) k
      in sc_init sc k)"

definition wakeup_proc :: "sched_class \<Rightarrow> nat \<Rightarrow> kernel \<Rightarrow> kernel option" where
  "wakeup_proc sc p k = do {
     kassert (p_state (procs k p) \<noteq> PROC_ZOMBIE);
     if p_state (procs k p) \<noteq> PROC_RUNNABLE then
       let k = upd_proc p (\<lambda>q. q\<lparr>p_state := PROC_RUNNABLE, p_wait_state := 0\<rparr>) k
       in if p \<noteq> current k then sched_class_enqueue sc p k else Some k
     else Some k
   }"

text \<open>
  \<^verbatim>\<open>proc_run\<close> (\<^verbatim>\<open>kern/process/proc.c\<close>): the switch of register contexts itself is
  assembly; what the kernel's state records of it is \<^verbatim>\<open>current\<close> and the page-table root.
\<close>

definition proc_run :: "nat \<Rightarrow> kernel \<Rightarrow> kernel" where
  "proc_run p k = (if p \<noteq> current k then k\<lparr>current := p, cr3_reg := p_cr3 (procs k p)\<rparr> else k)"

text \<open>The second half of \<^verbatim>\<open>schedule\<close>: take the next process off the queue and run it.\<close>

definition schedule_pick :: "sched_class \<Rightarrow> kernel \<Rightarrow> kernel option" where
  "schedule_pick sc k = do {
     let (nxt, k) = sched_class_pick_next sc k;
     k \<leftarrow> (case nxt of Some n \<Rightarrow> sched_class_dequeue sc n k | None \<Rightarrow> Some k);
     let n = (case nxt of None \<Rightarrow> idleproc k | Some n \<Rightarrow> n);
     let k = upd_proc n (\<lambda>q. q\<lparr>p_runs := p_runs q + 1\<rparr>) k;
     Some (if n \<noteq> current k then proc_run n k else k)
   }"

definition schedule :: "sched_class \<Rightarrow> kernel \<Rightarrow> kernel option" where
  "schedule sc k = do {
     let k = upd_proc (current k) (\<lambda>q. q\<lparr>p_need_resched := False\<rparr>) k;
     k \<leftarrow> (if p_state (procs k (current k)) = PROC_RUNNABLE
           then sched_class_enqueue sc (current k) k else Some k);
     schedule_pick sc k
   }"

section \<open>Timers\<close>

definition timer_init :: "nat \<Rightarrow> nat \<Rightarrow> u32 \<Rightarrow> kernel \<Rightarrow> kernel" where
  "timer_init t p e k = k\<lparr>timers := (timers k)(t := \<lparr>t_expires = e, t_proc = Some p\<rparr>)\<rparr>"

text \<open>
  The walk of \<^verbatim>\<open>add_timer\<close>: it subtracts the expiry of each timer it passes, stops at the first
  that expires later and makes that one relative to the new timer. The result is the store, the
  entries passed and the entries from the stop on.
\<close>

fun timer_walk ::
  "nat \<Rightarrow> (nat \<Rightarrow> ktimer) \<Rightarrow> nat list \<Rightarrow> (nat \<Rightarrow> ktimer) \<times> nat list \<times> nat list"
where
  "timer_walk t ts [] = (ts, [], [])"
| "timer_walk t ts (n # ns) =
     (if t_expires (ts t) < t_expires (ts n) then
        (ts(n := (ts n)\<lparr>t_expires := t_expires (ts n) - t_expires (ts t)\<rparr>), [], n # ns)
      else
        let ts = ts(t := (ts t)\<lparr>t_expires := t_expires (ts t) - t_expires (ts n)\<rparr>);
            (ts, pre, post) = timer_walk t ts ns
        in (ts, n # pre, post))"

definition add_timer :: "nat \<Rightarrow> kernel \<Rightarrow> kernel option" where
  "add_timer t k = do {
     kassert (t_expires (timers k t) > 0 \<and> t_proc (timers k t) \<noteq> None);
     kassert (t \<notin> set (timer_list k));
     let (ts, pre, post) = timer_walk t (timers k) (timer_list k);
     Some (k\<lparr>timers := ts, timer_list := pre @ t # post\<rparr>)
   }"

fun entry_after :: "nat \<Rightarrow> nat list \<Rightarrow> nat option" where
  "entry_after t [] = None"
| "entry_after t (x # xs) =
     (if x = t then (case xs of [] \<Rightarrow> None | n # _ \<Rightarrow> Some n) else entry_after t xs)"

definition del_timer :: "nat \<Rightarrow> kernel \<Rightarrow> kernel" where
  "del_timer t k =
     (if t \<in> set (timer_list k) then
        let k = (if t_expires (timers k t) \<noteq> 0 then
                   (case entry_after t (timer_list k) of
                      None \<Rightarrow> k
                    | Some n \<Rightarrow>
                        k\<lparr>timers := (timers k)(n := (timers k n)
                          \<lparr>t_expires := t_expires (timers k n) + t_expires (timers k t)\<rparr>)\<rparr>)
                 else k)
        in k\<lparr>timer_list := remove1 t (timer_list k)\<rparr>
      else k)"

text \<open>
  The loop of \<^verbatim>\<open>run_timer_list\<close> over the entries at the front that have expired. A missing
  process is the \<^verbatim>\<open>NULL\<close> dereference that \<^verbatim>\<open>add_timer\<close>'s assertion excludes.
\<close>

fun run_expired :: "sched_class \<Rightarrow> nat list \<Rightarrow> kernel \<Rightarrow> kernel option" where
  "run_expired sc [] k = Some k"
| "run_expired sc (t # ts) k =
     (if t_expires (timers k t) = 0 then do {
        p \<leftarrow> t_proc (timers k t);
        kassert (p_wait_state (procs k p) \<noteq> 0 \<longrightarrow> p_wait_state (procs k p) AND WT_INTERRUPTED \<noteq> 0);
        k \<leftarrow> wakeup_proc sc p k;
        run_expired sc ts (del_timer t k)
      } else Some k)"

definition run_timer_list :: "sched_class \<Rightarrow> kernel \<Rightarrow> kernel option" where
  "run_timer_list sc k = do {
     k \<leftarrow> (case timer_list k of
             [] \<Rightarrow> Some k
           | t # _ \<Rightarrow> do {
               kassert (t_expires (timers k t) \<noteq> 0);
               let k = k\<lparr>timers := (timers k)(t := (timers k t)
                        \<lparr>t_expires := t_expires (timers k t) - 1\<rparr>)\<rparr>;
               run_expired sc (timer_list k) k
             });
     Some (sched_class_proc_tick sc (current k) k)
   }"

section \<open>The run queue holds the runnable processes\<close>

definition sched_ok ::
  "(kernel \<Rightarrow> nat set) \<Rightarrow> (kernel \<Rightarrow> bool) \<Rightarrow> nat set \<Rightarrow> kernel \<Rightarrow> bool"
where
  "sched_ok ready rqinv L k \<longleftrightarrow> rqinv k \<and> current k \<in> L \<and>
     ready k = {p \<in> L. p_state (procs k p) = PROC_RUNNABLE \<and> p \<noteq> current k \<and> p \<noteq> idleproc k}"

lemma sched_frame_state: "sched_frame k k' \<Longrightarrow> p_state (procs k' p) = p_state (procs k p)"
  by (simp add: sched_frame_iff same_but_sched_iff)

lemma sched_frame_globals:
  assumes "sched_frame k k'"
  shows "current k' = current k" and "idleproc k' = idleproc k"
    and "timers k' = timers k" and "timer_list k' = timer_list k"
    and "p_wait_state (procs k' p) = p_wait_state (procs k p)"
  using assms by (simp_all add: sched_frame_iff same_but_sched_iff)

text \<open>What a process switch leaves alone.\<close>

definition switch_frame :: "kernel \<Rightarrow> kernel \<Rightarrow> bool" where
  "switch_frame k k' \<longleftrightarrow>
     (\<forall>p. same_but_sched ((procs k p)\<lparr>p_runs := p_runs (procs k' p),
        p_need_resched := p_need_resched (procs k' p)\<rparr>) (procs k' p)) \<and>
     k'\<lparr>procs := procs k, rq := rq k, current := current k, cr3_reg := cr3_reg k\<rparr> = k"

lemma switch_frame_iff:
  "switch_frame k k' \<longleftrightarrow>
     (\<forall>p. same_but_sched ((procs k p)\<lparr>p_runs := p_runs (procs k' p),
        p_need_resched := p_need_resched (procs k' p)\<rparr>) (procs k' p)) \<and>
     idleproc k' = idleproc k \<and> initproc k' = initproc k \<and>
     timers k' = timers k \<and> timer_list k' = timer_list k \<and> waits k' = waits k \<and>
     wqueues k' = wqueues k \<and> sem_value k' = sem_value k \<and> proc_list k' = proc_list k \<and>
     hash_lists k' = hash_lists k \<and> nr_process k' = nr_process k \<and> last_pid k' = last_pid k \<and>
     next_safe k' = next_safe k"
  unfolding switch_frame_def by (cases k; cases k') auto

lemma sched_frame_switch: "sched_frame k k' \<Longrightarrow> switch_frame k k'"
  by (simp add: sched_frame_iff switch_frame_iff same_but_sched_iff)

lemma switch_frame_trans: "switch_frame k k' \<Longrightarrow> switch_frame k' k'' \<Longrightarrow> switch_frame k k''"
  by (simp add: switch_frame_iff same_but_sched_iff)

lemma switch_frame_steps [intro]:
  "switch_frame k (upd_proc p (\<lambda>q. q\<lparr>p_need_resched := b\<rparr>) k)"
  "switch_frame k (upd_proc p (\<lambda>q. q\<lparr>p_runs := p_runs q + 1\<rparr>) k)"
  "switch_frame k (proc_run p k)"
  by (simp_all add: switch_frame_iff same_but_sched_iff proc_run_def)

lemma switch_frame_run:
  assumes "switch_frame k k1"
  shows "switch_frame k (let k = upd_proc n (\<lambda>q. q\<lparr>p_runs := p_runs q + 1\<rparr>) k1 in
    if n \<noteq> current k then proc_run n k else k)"
  using switch_frame_trans [OF assms switch_frame_steps(2)]
    switch_frame_trans [OF switch_frame_trans [OF assms switch_frame_steps(2)] switch_frame_steps(3)]
  by (simp add: Let_def)

context sched_class_laws
begin

lemma wakeup_proc_spec:
  assumes ok: "sched_ok ready inv L k" and p: "p \<in> L" and z: "p_state (procs k p) \<noteq> PROC_ZOMBIE"
  shows "\<exists>k'. wakeup_proc sc p k = Some k' \<and> sched_ok ready inv L k' \<and>
    sched_frame (if p_state (procs k p) = PROC_RUNNABLE then k
      else upd_proc p (\<lambda>q. q\<lparr>p_state := PROC_RUNNABLE, p_wait_state := 0\<rparr>) k) k'"
proof (cases "p_state (procs k p) = PROC_RUNNABLE")
  case True
  with ok z show ?thesis by (simp add: wakeup_proc_def)
next
  case False
  define k1 where "k1 = upd_proc p (\<lambda>q. q\<lparr>p_state := PROC_RUNNABLE, p_wait_state := 0\<rparr>) k"
  have k1: "inv k1" "ready k1 = ready k"
    using ok unfolding k1_def by (simp_all add: upd_proc_cong sched_ok_def)
  have notin: "p \<notin> ready k1" using ok False k1 by (auto simp: sched_ok_def)
  show ?thesis
  proof (cases "p \<noteq> current k \<and> p \<noteq> idleproc k")
    case True
    from enqueue [OF k1(1) notin] obtain k' where
      "sc_enqueue sc p k1 = Some k'" "inv k'" "ready k' = insert p (ready k1)" "sched_frame k1 k'"
      by auto
    moreover from \<open>sched_frame k1 k'\<close> have "current k' = current k" "idleproc k' = idleproc k"
      by (simp_all add: sched_frame_iff k1_def)
    ultimately show ?thesis
      using True False z ok p k1
      by (auto simp: wakeup_proc_def sched_class_enqueue_def sched_ok_def k1_def sched_frame_state)
  next
    case 2: False
    with False z have "wakeup_proc sc p k = Some k1"
      by (auto simp: wakeup_proc_def sched_class_enqueue_def k1_def Let_def)
    moreover have "sched_ok ready inv L k1"
      using 2 ok k1 by (auto simp: sched_ok_def k1_def)
    ultimately show ?thesis
      using False by (auto simp: k1_def)
  qed
qed

text \<open>
  \<^verbatim>\<open>schedule\<close> switches to a queued runnable process when there is one, to the idle process
  otherwise, and keeps the run queue right: the process that gives up the CPU is queued exactly
  when it is still runnable.
\<close>

lemma schedule_spec:
  assumes ok: "sched_ok ready inv L k" and idle: "idleproc k \<in> L"
  defines "Q \<equiv> {p \<in> L. p_state (procs k p) = PROC_RUNNABLE \<and> p \<noteq> idleproc k}"
  shows "\<exists>k'. schedule sc k = Some k' \<and> sched_ok ready inv L k' \<and>
    (if Q = {} then current k' = idleproc k else current k' \<in> Q) \<and>
    (\<forall>p. p_state (procs k' p) = p_state (procs k p)) \<and> idleproc k' = idleproc k \<and>
    switch_frame k k'"
proof -
  let ?c = "current k"
  define k1 where "k1 = upd_proc ?c (\<lambda>q. q\<lparr>p_need_resched := False\<rparr>) k"
  have k1: "inv k1" "ready k1 = ready k" "current k1 = ?c" "idleproc k1 = idleproc k"
    and st1: "p_state (procs k1 p) = p_state (procs k p)" for p
    using ok unfolding k1_def by (simp_all add: upd_proc_cong sched_ok_def)
  define e where "e = (if p_state (procs k1 ?c) = PROC_RUNNABLE
    then sched_class_enqueue sc ?c k1 else Some k1)"
  have notin: "?c \<notin> ready k1" using ok k1 by (auto simp: sched_ok_def)
  have "\<exists>k2. e = Some k2 \<and> inv k2 \<and> ready k2 = Q \<and> sched_frame k1 k2"
  proof (cases "p_state (procs k ?c) = PROC_RUNNABLE \<and> ?c \<noteq> idleproc k")
    case True
    with enqueue [OF k1(1) notin] ok k1 st1 show ?thesis
      by (auto simp: e_def sched_class_enqueue_def sched_ok_def Q_def)
  next
    case False
    with ok k1 st1 show ?thesis
      by (auto simp: e_def sched_class_enqueue_def sched_ok_def Q_def)
  qed
  then obtain k2 where e: "e = Some k2" and k2: "inv k2" "ready k2 = Q" "sched_frame k1 k2"
    by auto
  have "schedule sc k = Option.bind e (schedule_pick sc)"
    by (simp add: schedule_def e_def k1_def)
  with e have s: "schedule sc k = schedule_pick sc k2" by simp
  have c2: "current k2 = ?c" "idleproc k2 = idleproc k"
    and st2: "p_state (procs k2 p) = p_state (procs k p)" for p
    using sched_frame_globals [OF k2(3)] sched_frame_state [OF k2(3)] k1 st1 by simp_all
  have sw2: "switch_frame k k2"
    using switch_frame_trans [OF switch_frame_steps(1) sched_frame_switch [OF k2(3) [unfolded k1_def]]] .
  from k2(1) show ?thesis
  proof (cases rule: pick_total)
    case Nothing
    define k3 where "k3 = upd_proc (idleproc k) (\<lambda>q. q\<lparr>p_runs := p_runs q + 1\<rparr>) k2"
    define k' where "k' = (if idleproc k \<noteq> current k3 then proc_run (idleproc k) k3 else k3)"
    have s: "schedule sc k = Some k'"
      using Nothing c2
      by (simp add: s schedule_pick_def k'_def k3_def sched_class_pick_next_def Let_def)
    have "rq k' = rq k2" and "procs k' = procs k3" and cur: "current k' = idleproc k"
      by (auto simp: k'_def k3_def proc_run_def)
    then have "inv k' = inv k2" and "ready k' = ready k2"
      using cong [of k' k2] by (auto simp: k3_def)
    moreover have "p_state (procs k' p) = p_state (procs k p)" for p
      using \<open>procs k' = procs k3\<close> st2 by (simp add: k3_def)
    moreover have "idleproc k' = idleproc k"
      using c2 by (simp add: k'_def k3_def proc_run_def)
    moreover have "switch_frame k k'"
      using switch_frame_run [OF sw2, of "idleproc k"] by (simp only: k'_def k3_def Let_def)
    ultimately show ?thesis
      using s cur Nothing k2 idle by (auto simp: sched_ok_def Q_def)
  next
    case (Next p ka kb)
    have cb: "current kb = ?c" "idleproc kb = idleproc k"
      and stb: "p_state (procs kb q) = p_state (procs k q)" for q
      using sched_frame_globals [OF Next(6)] sched_frame_state [OF Next(6)] c2 st2 by simp_all
    define k3 where "k3 = upd_proc p (\<lambda>q. q\<lparr>p_runs := p_runs q + 1\<rparr>) kb"
    define k' where "k' = (if p \<noteq> current k3 then proc_run p k3 else k3)"
    have s: "schedule sc k = Some k'"
      using Next(1,3) by (simp add: s schedule_pick_def k'_def k3_def sched_class_pick_next_def
          sched_class_dequeue_def Let_def)
    have "rq k' = rq kb" and "procs k' = procs k3" and cur: "current k' = p"
      by (auto simp: k'_def k3_def proc_run_def)
    then have "inv k' = inv kb" and "ready k' = ready kb"
      using cong [of k' kb] by (auto simp: k3_def)
    moreover have "p_state (procs k' q) = p_state (procs k q)" for q
      using \<open>procs k' = procs k3\<close> stb by (simp add: k3_def)
    moreover have "idleproc k' = idleproc k"
      using cb by (simp add: k'_def k3_def proc_run_def)
    moreover have "switch_frame k k'"
      using switch_frame_run [OF switch_frame_trans [OF sw2 sched_frame_switch [OF Next(6)]], of p]
      by (simp only: k'_def k3_def Let_def)
    ultimately show ?thesis
      using s cur Next k2 by (auto simp: sched_ok_def Q_def)
  qed
qed

end

section \<open>The delta list as absolute deadlines\<close>

fun deadlines :: "(nat \<Rightarrow> ktimer) \<Rightarrow> nat \<Rightarrow> nat list \<Rightarrow> (nat \<times> nat) list" where
  "deadlines ts acc [] = []"
| "deadlines ts acc (t # xs) =
     (let d = acc + unat (t_expires (ts t)) in (t, d) # deadlines ts d xs)"

lemma deadlines_cong:
  "(\<And>x. x \<in> set xs \<Longrightarrow> t_expires (ts' x) = t_expires (ts x)) \<Longrightarrow>
     deadlines ts' acc xs = deadlines ts acc xs"
  by (induction xs arbitrary: acc) (auto simp: Let_def)

lemma deadlines_ge: "(x, d) \<in> set (deadlines ts acc xs) \<Longrightarrow> acc \<le> d"
  by (induction xs arbitrary: acc) (fastforce simp: Let_def)+

lemma map_fst_deadlines [simp]: "map fst (deadlines ts acc xs) = xs"
  by (induction xs arbitrary: acc) (auto simp: Let_def)

lemma deadlines_fst: "(x, d) \<in> set (deadlines ts acc xs) \<Longrightarrow> x \<in> set xs"
  by (metis fst_conv image_eqI list.set_map map_fst_deadlines)

lemma timer_walk_frame:
  "timer_walk t ts xs = (ts', pre, post) \<Longrightarrow> u \<noteq> t \<Longrightarrow> u \<notin> set xs \<Longrightarrow> ts' u = ts u"
  by (induction t ts xs arbitrary: ts' pre post rule: timer_walk.induct)
    (auto split: if_splits prod.splits)

lemma timer_walk_proc:
  "timer_walk t ts xs = (ts', pre, post) \<Longrightarrow> t_proc (ts' u) = t_proc (ts u)"
  by (induction t ts xs arbitrary: ts' pre post rule: timer_walk.induct)
    (fastforce split: if_splits prod.splits)+

lemma timer_walk_split: "timer_walk t ts xs = (ts', pre, post) \<Longrightarrow> pre @ post = xs"
  by (induction t ts xs arbitrary: ts' pre post rule: timer_walk.induct)
    (auto split: if_splits prod.splits)

lemma dropWhile_deadlines_late:
  assumes "e < acc"
  shows "takeWhile (\<lambda>(u, d). d \<le> e) (deadlines ts acc xs) = []"
    and "dropWhile (\<lambda>(u, d). d \<le> e) (deadlines ts acc xs) = deadlines ts acc xs"
  using assms by (cases xs; simp add: Let_def)+

lemma timer_walk_deadlines:
  fixes acc :: nat
  assumes "timer_walk t ts xs = (ts', pre, post)" and "t \<notin> set xs" and "distinct xs"
  defines "D \<equiv> deadlines ts acc xs" and "e \<equiv> acc + unat (t_expires (ts t))"
  shows "deadlines ts' acc (pre @ t # post) =
    takeWhile (\<lambda>(u, d). d \<le> e) D @ (t, e) # dropWhile (\<lambda>(u, d). d \<le> e) D"
  using assms(1-3) unfolding D_def e_def
proof (induction t ts xs arbitrary: acc ts' pre post rule: timer_walk.induct)
  case (1 t ts)
  then show ?case by simp
next
  case (2 t ts n ns)
  let ?et = "t_expires (ts t)" and ?en = "t_expires (ts n)"
  show ?case
  proof (cases "?et < ?en")
    case True
    with "2.prems" have r: "pre = []" "post = n # ns"
      and ts': "ts' = ts(n := (ts n)\<lparr>t_expires := ?en - ?et\<rparr>)" by auto
    have lt: "unat ?et < unat ?en" using True by (simp add: word_less_nat_alt)
    then have "unat (t_expires (ts' n)) = unat ?en - unat ?et"
      by (simp add: ts' unat_sub word_le_nat_alt)
    moreover have "t_expires (ts' t) = ?et" using "2.prems"(2) by (simp add: ts')
    moreover have "deadlines ts' d ns = deadlines ts d ns" for d
      using "2.prems"(3) by (intro deadlines_cong) (auto simp: ts')
    ultimately show ?thesis
      using lt "2.prems"(2) by (simp add: r Let_def)
  next
    case False
    then have le: "unat ?en \<le> unat ?et" by (simp add: word_less_nat_alt)
    then have sub: "unat (?et - ?en) = unat ?et - unat ?en"
      by (simp add: unat_sub word_le_nat_alt)
    define ts1 where "ts1 = ts(t := (ts t)\<lparr>t_expires := ?et - ?en\<rparr>)"
    from False "2.prems"(1) obtain pre' where w: "timer_walk t ts1 ns = (ts', pre', post)"
      and pre: "pre = n # pre'"
      by (auto simp: ts1_def Let_def split: prod.splits)
    have "ts' n = ts n"
      using timer_walk_frame [OF w] "2.prems"(2,3) by (auto simp: ts1_def)
    moreover have "deadlines ts1 d ns = deadlines ts d ns" for d
      using "2.prems"(2) by (intro deadlines_cong) (auto simp: ts1_def)
    moreover have e: "acc + unat ?en + unat (t_expires (ts1 t)) = acc + unat ?et"
      using le sub by (simp add: ts1_def)
    moreover note "2.IH" [OF False ts1_def w, of "acc + unat ?en", unfolded e]
    ultimately show ?thesis
      using "2.prems"(2,3) le by (simp add: pre Let_def)
  qed
qed

lemma add_timer_spec:
  assumes "distinct (timer_list k)" and "t \<notin> set (timer_list k)"
    and "t_expires (timers k t) > 0" and "t_proc (timers k t) \<noteq> None"
  defines "D \<equiv> deadlines (timers k) 0 (timer_list k)" and "e \<equiv> unat (t_expires (timers k t))"
  shows "\<exists>k'. add_timer t k = Some k' \<and>
    deadlines (timers k') 0 (timer_list k') =
      takeWhile (\<lambda>(u, d). d \<le> e) D @ (t, e) # dropWhile (\<lambda>(u, d). d \<le> e) D"
proof -
  obtain ts pre post where w: "timer_walk t (timers k) (timer_list k) = (ts, pre, post)"
    by (cases "timer_walk t (timers k) (timer_list k)") auto
  with timer_walk_deadlines [OF w, of 0] assms show ?thesis
    by (simp add: add_timer_def)
qed

section \<open>Removing a timer\<close>

definition timers_fit :: "kernel \<Rightarrow> bool" where
  "timers_fit k \<longleftrightarrow> distinct (timer_list k) \<and>
     list_all (\<lambda>(u, d). d < 2 ^ 32) (deadlines (timers k) 0 (timer_list k))"

definition expiry_sum :: "(nat \<Rightarrow> ktimer) \<Rightarrow> nat list \<Rightarrow> nat" where
  "expiry_sum ts xs = (\<Sum>x\<leftarrow>xs. unat (t_expires (ts x)))"

lemma deadlines_append:
  "deadlines ts acc (xs @ ys) = deadlines ts acc xs @ deadlines ts (acc + expiry_sum ts xs) ys"
  by (induction xs arbitrary: acc) (auto simp: Let_def expiry_sum_def add.assoc)

lemma expiry_sum_cong:
  "(\<And>x. x \<in> set xs \<Longrightarrow> t_expires (ts' x) = t_expires (ts x)) \<Longrightarrow> expiry_sum ts' xs = expiry_sum ts xs"
  by (induction xs) (auto simp: expiry_sum_def)

lemma entry_after_split:
  "t \<notin> set ys \<Longrightarrow>
     entry_after t (ys @ t # zs) = (case zs of [] \<Rightarrow> None | n # _ \<Rightarrow> Some n)"
  by (induction ys) auto

lemma filter_deadlines_notin:
  "t \<notin> set xs \<Longrightarrow> filter (\<lambda>(u, d). u \<noteq> t) (deadlines ts acc xs) = deadlines ts acc xs"
  by (induction xs arbitrary: acc) (auto simp: Let_def)

lemma del_timer_spec:
  assumes fit: "timers_fit k"
  shows "deadlines (timers (del_timer t k)) 0 (timer_list (del_timer t k)) =
    filter (\<lambda>(u, d). u \<noteq> t) (deadlines (timers k) 0 (timer_list k))"
proof (cases "t \<in> set (timer_list k)")
  case False
  then show ?thesis by (simp add: del_timer_def filter_deadlines_notin)
next
  case True
  let ?ts = "timers k"
  from fit have dist: "distinct (timer_list k)" by (simp add: timers_fit_def)
  from split_list_distinct [OF True dist] obtain ys zs where
    l: "timer_list k = ys @ t # zs" and nt: "t \<notin> set ys" "t \<notin> set zs" by blast
  have rem: "remove1 t (timer_list k) = ys @ zs" using l nt by (simp add: remove1_middle)
  define acc where "acc = expiry_sum ?ts ys"
  have D: "deadlines ?ts 0 (timer_list k) = deadlines ?ts 0 ys @ deadlines ?ts acc (t # zs)"
    by (simp only: l deadlines_append acc_def add_0)
  show ?thesis
  proof (cases zs)
    case Nil
    have "timers (del_timer t k) = ?ts" and "timer_list (del_timer t k) = ys"
      using l nt Nil rem by (auto simp: del_timer_def Let_def entry_after_split)
    with D Nil nt show ?thesis by (simp add: filter_deadlines_notin Let_def)
  next
    case (Cons n ws)
    let ?et = "t_expires (?ts t)" and ?en = "t_expires (?ts n)"
    define ts' where "ts' = ?ts(n := (?ts n)\<lparr>t_expires := ?en + ?et\<rparr>)"
    have tl: "timer_list (del_timer t k) = ys @ n # ws"
      using True rem Cons by (auto simp: del_timer_def Let_def split: option.splits)
    have tm: "t_expires (timers (del_timer t k) x) = t_expires (ts' x)" for x
      using True l nt Cons by (auto simp: del_timer_def Let_def entry_after_split ts'_def)
    have "acc + unat ?et + unat ?en < 2 ^ 32"
      using fit D by (simp add: timers_fit_def Cons Let_def)
    then have sum: "unat (?en + ?et) = unat ?et + unat ?en"
      by (simp add: unat_word_ariths)
    have n: "n \<notin> set ys" "n \<notin> set ws" using dist l Cons by auto
    have same: "deadlines ts' b xs = deadlines ?ts b xs" if "n \<notin> set xs" for b xs
      using that by (intro deadlines_cong) (auto simp: ts'_def)
    have "expiry_sum ts' ys = acc"
      unfolding acc_def using n(1) by (intro expiry_sum_cong) (auto simp: ts'_def)
    then have D': "deadlines ts' 0 (ys @ n # ws) = deadlines ?ts 0 ys @ deadlines ts' acc (n # ws)"
      by (simp only: deadlines_append same [OF n(1)] add_0)
    moreover note same
    moreover have "deadlines (timers (del_timer t k)) 0 (ys @ n # ws) = deadlines ts' 0 (ys @ n # ws)"
      by (rule deadlines_cong) (rule tm)
    ultimately show ?thesis
      using D tl n nt sum Cons
      by (simp add: filter_deadlines_notin Let_def ts'_def add.assoc)
  qed
qed

section \<open>The timer tick\<close>

definition timers_ready :: "nat set \<Rightarrow> kernel \<Rightarrow> bool" where
  "timers_ready L k \<longleftrightarrow>
     (\<forall>t \<in> set (timer_list k). \<exists>p \<in> L. t_proc (timers k t) = Some p \<and>
        p_state (procs k p) \<noteq> PROC_ZOMBIE \<and>
        (p_wait_state (procs k p) \<noteq> 0 \<longrightarrow> p_wait_state (procs k p) AND WT_INTERRUPTED \<noteq> 0))"

lemma del_timer_expired:
  "t_expires (timers k t) = 0 \<Longrightarrow> timer_list k = t # xs \<Longrightarrow> del_timer t k = k\<lparr>timer_list := xs\<rparr>"
  by (simp add: del_timer_def)

context sched_class_laws
begin

lemma wakeup_proc_facts:
  assumes "sched_ok ready inv L k" and "p \<in> L" and "p_state (procs k p) \<noteq> PROC_ZOMBIE"
  obtains k' where "wakeup_proc sc p k = Some k'" and "sched_ok ready inv L k'"
    and "timers k' = timers k" and "timer_list k' = timer_list k"
    and "current k' = current k" and "idleproc k' = idleproc k"
    and "\<And>q. p_state (procs k' q) = (if q = p then PROC_RUNNABLE else p_state (procs k q))"
    and "\<And>q. p_wait_state (procs k' q) =
      (if q = p \<and> p_state (procs k p) \<noteq> PROC_RUNNABLE then 0 else p_wait_state (procs k q))"
proof -
  from wakeup_proc_spec [OF assms] obtain k' where w: "wakeup_proc sc p k = Some k'"
    and ok: "sched_ok ready inv L k'"
    and fr: "sched_frame (if p_state (procs k p) = PROC_RUNNABLE then k
      else upd_proc p (\<lambda>q. q\<lparr>p_state := PROC_RUNNABLE, p_wait_state := 0\<rparr>) k) k'"
    by blast
  show thesis
    by (rule that [OF w ok]) (use sched_frame_globals [OF fr] sched_frame_state [OF fr] in auto)
qed

lemma sched_ok_timers: "sched_ok ready inv L (k\<lparr>timer_list := xs\<rparr>) = sched_ok ready inv L k"
  "sched_ok ready inv L (k\<lparr>timers := ts\<rparr>) = sched_ok ready inv L k"
  using cong [of "k\<lparr>timer_list := xs\<rparr>" k] cong [of "k\<lparr>timers := ts\<rparr>" k]
  by (simp_all add: sched_ok_def)

lemma run_expired_spec:
  assumes "sched_ok ready inv L k" and "timers_ready L k"
  defines "expired \<equiv> \<lambda>t. t_expires (timers k t) = 0"
  shows "\<exists>k'. run_expired sc (timer_list k) k = Some k' \<and> sched_ok ready inv L k' \<and>
    timers k' = timers k \<and> timer_list k' = dropWhile expired (timer_list k) \<and>
    current k' = current k \<and>
    (\<forall>q. p_state (procs k' q) =
       (if \<exists>t \<in> set (takeWhile expired (timer_list k)). t_proc (timers k t) = Some q
        then PROC_RUNNABLE else p_state (procs k q))) \<and>
    (\<forall>q. p_wait_state (procs k' q) =
       (if (\<exists>t \<in> set (takeWhile expired (timer_list k)). t_proc (timers k t) = Some q) \<and>
          p_state (procs k q) \<noteq> PROC_RUNNABLE then 0 else p_wait_state (procs k q)))"
  using assms(1,2) unfolding expired_def
proof (induction "timer_list k" arbitrary: k)
  case Nil
  from Nil(1) [symmetric] Nil(2) show ?case by simp
next
  case (Cons t xs)
  note tl = Cons.hyps(2) [symmetric]
  show ?case
  proof (cases "t_expires (timers k t) = 0")
    case False
    with Cons.prems tl show ?thesis by simp
  next
    case True
    from Cons.prems(2) tl obtain p where p: "p \<in> L" "t_proc (timers k t) = Some p"
      "p_state (procs k p) \<noteq> PROC_ZOMBIE"
      "p_wait_state (procs k p) \<noteq> 0 \<longrightarrow> p_wait_state (procs k p) AND WT_INTERRUPTED \<noteq> 0"
      by (auto simp: timers_ready_def)
    obtain k1 where
      w: "wakeup_proc sc p k = Some k1" "sched_ok ready inv L k1" and
      same: "timers k1 = timers k" "timer_list k1 = timer_list k" "current k1 = current k"
        "idleproc k1 = idleproc k" and
      st: "\<And>q. p_state (procs k1 q) = (if q = p then PROC_RUNNABLE else p_state (procs k q))" and
      ws: "\<And>q. p_wait_state (procs k1 q) =
        (if q = p \<and> p_state (procs k p) \<noteq> PROC_RUNNABLE then 0 else p_wait_state (procs k q))"
      by (rule wakeup_proc_facts [OF Cons.prems(1) p(1,3)]) (rule that)
    define k2 where "k2 = k1\<lparr>timer_list := xs\<rparr>"
    have d: "del_timer t k1 = k2"
      unfolding k2_def by (rule del_timer_expired) (use True same tl in simp_all)
    have k2: "xs = timer_list k2" by (simp add: k2_def)
    have ok2: "sched_ok ready inv L k2"
      using w(2) by (simp add: k2_def sched_ok_timers)
    have tr2: "timers_ready L k2"
      using Cons.prems(2) tl same st ws by (fastforce simp: timers_ready_def k2_def)
    let ?ex = "\<lambda>t. t_expires (timers k t) = 0"
    have k2': "timers k2 = timers k" "current k2 = current k" "procs k2 = procs k1"
      by (simp_all add: k2_def same)
    from Cons.hyps(1) [OF k2 ok2 tr2] obtain k3 where
      r: "run_expired sc xs k2 = Some k3" "sched_ok ready inv L k3" "timers k3 = timers k"
        "timer_list k3 = dropWhile ?ex xs" "current k3 = current k" and
      st3: "\<And>q. p_state (procs k3 q) = (if \<exists>t \<in> set (takeWhile ?ex xs). t_proc (timers k t) = Some q
        then PROC_RUNNABLE else p_state (procs k1 q))" and
      ws3: "\<And>q. p_wait_state (procs k3 q) =
        (if (\<exists>t \<in> set (takeWhile ?ex xs). t_proc (timers k t) = Some q) \<and>
          p_state (procs k1 q) \<noteq> PROC_RUNNABLE then 0 else p_wait_state (procs k1 q))"
      unfolding k2' k2 [symmetric] by blast
    have "run_expired sc (timer_list k) k = Some k3"
      using True p w(1) d tl r(1) by simp
    moreover have "p_state (procs k3 q) =
        (if \<exists>t' \<in> set (takeWhile ?ex (t # xs)). t_proc (timers k t') = Some q
         then PROC_RUNNABLE else p_state (procs k q))" for q
      using st3 [of q] st [of q] p(2) True by (auto split: if_splits)
    moreover have "p_wait_state (procs k3 q) =
        (if (\<exists>t' \<in> set (takeWhile ?ex (t # xs)). t_proc (timers k t') = Some q) \<and>
          p_state (procs k q) \<noteq> PROC_RUNNABLE then 0 else p_wait_state (procs k q))" for q
      using ws3 [of q] st [of q] ws [of q] p(2) True by (auto split: if_splits)
    ultimately show ?thesis
      using r True tl by (intro exI [of _ k3]) simp
  qed
qed

lemma proc_tick_keeps:
  assumes "sched_ok ready inv L k"
  shows "sched_ok ready inv L (sched_class_proc_tick sc p k)"
    and "timers (sched_class_proc_tick sc p k) = timers k"
    and "timer_list (sched_class_proc_tick sc p k) = timer_list k"
    and "p_state (procs (sched_class_proc_tick sc p k) q) = p_state (procs k q)"
    and "p_wait_state (procs (sched_class_proc_tick sc p k) q) = p_wait_state (procs k q)"
    and "current (sched_class_proc_tick sc p k) = current k"
proof -
  let ?k' = "sched_class_proc_tick sc p k"
  have "rq ?k' = rq k" and cur: "current ?k' = current k" and "idleproc ?k' = idleproc k"
    and ws: "p_wait_state (procs ?k' q) = p_wait_state (procs k q)"
    and st: "p_state (procs ?k' q) = p_state (procs k q)"
    and "p_stride (procs ?k' q) = p_stride (procs k q)" "p_on_rq (procs ?k' q) = p_on_rq (procs k q)" for q
    by (auto simp: sched_class_proc_tick_def tick sched_proc_tick_def Let_def)
  with cong [of ?k' k] assms show "sched_ok ready inv L ?k'"
    by (simp add: sched_ok_def)
  show "p_state (procs ?k' q) = p_state (procs k q)" by (rule st)
  show "p_wait_state (procs ?k' q) = p_wait_state (procs k q)" by (rule ws)
  show "current ?k' = current k" by (rule cur)
  show "timers ?k' = timers k" and "timer_list ?k' = timer_list k"
    by (auto simp: sched_class_proc_tick_def tick sched_proc_tick_def Let_def)
qed

end

lemma deadlines_drop_expired:
  "deadlines ts 0 (dropWhile (\<lambda>t. t_expires (ts t) = 0) xs) =
     filter (\<lambda>(u, d). d \<noteq> 0) (deadlines ts 0 xs)"
proof (induction xs)
  case Nil
  then show ?case by simp
next
  case (Cons x xs)
  show ?case
  proof (cases "t_expires (ts x) = 0")
    case True
    with Cons show ?thesis by (simp add: Let_def)
  next
    case False
    then have pos: "0 < unat (t_expires (ts x))" by (simp add: unat_gt_0)
    have "filter (\<lambda>(u, d). d \<noteq> 0) (deadlines ts (unat (t_expires (ts x))) xs) =
        deadlines ts (unat (t_expires (ts x))) xs"
      by (rule filter_True) (use deadlines_ge pos in fastforce)
    with False pos show ?thesis by (simp add: Let_def)
  qed
qed

text \<open>The entries at the front that have expired are those of deadline 0.\<close>

lemma deadlines_due:
  "u \<in> set (takeWhile (\<lambda>t. t_expires (ts t) = 0) xs) \<longleftrightarrow> (u, 0) \<in> set (deadlines ts 0 xs)"
proof (induction xs)
  case Nil
  then show ?case by simp
next
  case (Cons x xs)
  show ?case
  proof (cases "t_expires (ts x) = 0")
    case True
    with Cons show ?thesis by (auto simp: Let_def)
  next
    case False
    then have "0 < unat (t_expires (ts x))" by (simp add: unat_gt_0)
    with False show ?thesis using deadlines_ge [of u 0 ts "unat (t_expires (ts x))" xs] by (auto simp: Let_def)
  qed
qed

lemma deadlines_head_tick:
  assumes "t \<notin> set xs" and "t_expires (ts t) \<noteq> 0"
  defines "ts' \<equiv> ts(t := (ts t)\<lparr>t_expires := t_expires (ts t) - 1\<rparr>)"
  shows "deadlines ts' 0 (t # xs) = map (\<lambda>(u, d). (u, d - 1)) (deadlines ts 0 (t # xs))"
proof -
  have shift: "deadlines ts b ys = map (\<lambda>(u, d). (u, d - 1)) (deadlines ts (Suc b) ys)" for b ys
  proof (induction ys arbitrary: b)
    case Nil
    then show ?case by simp
  next
    case (Cons y ys)
    from Cons [of "b + unat (t_expires (ts y))"] show ?case by (simp add: Let_def)
  qed
  have n: "unat (t_expires (ts t)) = Suc (unat (t_expires (ts t) - 1))"
    using assms(2) by (simp add: unat_minus_one unat_gt_0 Suc_pred')
  have "t_expires (ts' t) = t_expires (ts t) - 1" by (simp add: ts'_def)
  moreover have "deadlines ts' b xs = deadlines ts b xs" for b
    using assms(1) by (intro deadlines_cong) (auto simp: ts'_def)
  ultimately show ?thesis
    using shift [of "unat (t_expires (ts t) - 1)" xs] n by (simp add: Let_def)
qed

text \<open>
  One tick, for any class: exactly the timers whose deadline is one tick away leave the list and
  exactly their processes are woken, every other deadline comes one tick closer, and no assertion
  fails.
\<close>

context sched_class_laws
begin

lemma run_timer_list_spec:
  assumes ok: "sched_ok ready inv L k" and tr: "timers_ready L k"
    and dist: "distinct (timer_list k)"
    and head: "timer_list k = [] \<or> t_expires (timers k (hd (timer_list k))) \<noteq> 0"
  defines "D \<equiv> deadlines (timers k) 0 (timer_list k)"
  shows "\<exists>k'. run_timer_list sc k = Some k' \<and> sched_ok ready inv L k' \<and>
    deadlines (timers k') 0 (timer_list k') =
      map (\<lambda>(u, d). (u, d - 1)) (filter (\<lambda>(u, d). d \<noteq> 1) D) \<and>
    current k' = current k \<and>
    (\<forall>t. (t, 1) \<in> set D \<longrightarrow> t_proc (timers k t) \<noteq> None) \<and>
    (\<forall>q. p_state (procs k' q) =
      (if \<exists>t. (t, 1) \<in> set D \<and> t_proc (timers k t) = Some q then PROC_RUNNABLE
       else p_state (procs k q))) \<and>
    (\<forall>q. p_wait_state (procs k' q) =
      (if (\<exists>t. (t, 1) \<in> set D \<and> t_proc (timers k t) = Some q) \<and> p_state (procs k q) \<noteq> PROC_RUNNABLE
       then 0 else p_wait_state (procs k q)))"
proof (cases "timer_list k")
  case Nil
  with proc_tick_keeps [OF ok] show ?thesis by (simp add: run_timer_list_def D_def)
next
  case (Cons t xs)
  define k1 where "k1 = k\<lparr>timers := (timers k)(t := (timers k t)
    \<lparr>t_expires := t_expires (timers k t) - 1\<rparr>)\<rparr>"
  have tl1: "timer_list k1 = timer_list k" and proc1: "t_proc (timers k1 u) = t_proc (timers k u)" for u
    by (simp_all add: k1_def)
  have ok1: "sched_ok ready inv L k1" using ok by (simp add: k1_def sched_ok_timers)
  have tr1: "timers_ready L k1"
    using tr by (simp add: timers_ready_def tl1 proc1) (simp add: k1_def)
  have D1: "deadlines (timers k1) 0 (timer_list k1) = map (\<lambda>(u, d). (u, d - 1)) D"
    using deadlines_head_tick [of t xs "timers k"] dist head Cons by (simp add: k1_def D_def)
  have pos: "d \<noteq> 0" if "(u, d) \<in> set D" for u d
  proof -
    have "0 < unat (t_expires (timers k t))" using head Cons by (simp add: unat_gt_0)
    then show ?thesis
      using that deadlines_ge unfolding D_def Cons by (fastforce simp: Let_def)
  qed
  let ?ex = "\<lambda>t. t_expires (timers k1 t) = 0"
  from run_expired_spec [OF ok1 tr1] obtain k2 where
    r: "run_expired sc (timer_list k1) k1 = Some k2" and ok2: "sched_ok ready inv L k2" and
    tm: "timers k2 = timers k1" "timer_list k2 = dropWhile ?ex (timer_list k1)"
      "current k2 = current k1" and
    st: "\<And>q. p_state (procs k2 q) =
       (if \<exists>t \<in> set (takeWhile ?ex (timer_list k1)). t_proc (timers k1 t) = Some q
        then PROC_RUNNABLE else p_state (procs k1 q))" and
    ws: "\<And>q. p_wait_state (procs k2 q) =
       (if (\<exists>t \<in> set (takeWhile ?ex (timer_list k1)). t_proc (timers k1 t) = Some q) \<and>
          p_state (procs k1 q) \<noteq> PROC_RUNNABLE then 0 else p_wait_state (procs k1 q))"
    by auto
  define k' where "k' = sched_class_proc_tick sc (current k2) k2"
  have run: "run_timer_list sc k = Some k'"
    using head Cons r by (simp add: run_timer_list_def k'_def k1_def)
  note keep = proc_tick_keeps [OF ok2, of "current k2", folded k'_def]
  have "deadlines (timers k') 0 (timer_list k') = filter (\<lambda>(u, d). d \<noteq> 0) (map (\<lambda>(u, d). (u, d - 1)) D)"
    using deadlines_drop_expired [of "timers k1" "timer_list k1"] by (simp add: keep tm D1)
  also have "\<dots> = map (\<lambda>(u, d). (u, d - 1)) (filter (\<lambda>(u, d). d \<noteq> 1) D)"
  proof -
    have "(1 < snd x) = (snd x \<noteq> 1)" if "x \<in> set D" for x
      using pos [of "fst x" "snd x"] that by simp linarith
    then have "filter (\<lambda>x. 1 < snd x) D = filter (\<lambda>x. snd x \<noteq> 1) D"
      by (rule filter_cong [OF refl])
    then show ?thesis by (simp add: filter_map comp_def case_prod_unfold)
  qed
  finally have dl: "deadlines (timers k') 0 (timer_list k') = \<dots>" .
  have due: "u \<in> set (takeWhile ?ex (timer_list k1)) \<longleftrightarrow> (u, 1) \<in> set D" for u
  proof -
    have "u \<in> set (takeWhile ?ex (timer_list k1)) \<longleftrightarrow> (u, 0) \<in> (\<lambda>(u, d). (u, d - 1)) ` set D"
      using deadlines_due [of u "timers k1" "timer_list k1"] by (simp add: D1)
    also have "\<dots> \<longleftrightarrow> (u, 1) \<in> set D"
    proof
      assume "(u, 0) \<in> (\<lambda>(u, d). (u, d - 1)) ` set D"
      then obtain d where d: "(u, d) \<in> set D" "d - 1 = 0" by auto
      with pos [OF d(1)] have "d = 1" by simp
      with d(1) show "(u, 1) \<in> set D" by simp
    qed force
    finally show ?thesis .
  qed
  have proc: "t_proc (timers k u) \<noteq> None" if "(u, 1) \<in> set D" for u
    using tr deadlines_fst [of u 1] that by (auto simp: D_def timers_ready_def)
  have old: "p_state (procs k1 q) = p_state (procs k q)"
    "p_wait_state (procs k1 q) = p_wait_state (procs k q)" for q by (simp_all add: k1_def)
  have woken: "(\<exists>t \<in> set (takeWhile ?ex (timer_list k1)). t_proc (timers k1 t) = Some q) \<longleftrightarrow>
      (\<exists>t. (t, 1) \<in> set D \<and> t_proc (timers k t) = Some q)" for q
    using due proc1 by auto
  have cur: "current k' = current k" by (simp add: keep(6) tm k1_def)
  show ?thesis
    using run keep(1) dl cur proc keep(4,5) [unfolded st ws woken old] by blast
qed

end

end
