(* ===== verification/Sched_Policy.thy ===== *)
theory Sched_Policy
  imports Sched
begin

text \<open>
  What each scheduling class makes of \<^verbatim>\<open>schedule\<close>: round robin rotates its queue, so every
  queued process runs after as many calls as its position says; stride always runs a process whose
  stride is least, and the order it relies on survives the call.
\<close>

section \<open>Round robin\<close>

lemma RR_schedule:
  assumes inv: "RR_inv k" and c: "current k \<noteq> idleproc k" "p_state (procs k (current k)) = PROC_RUNNABLE"
    "current k \<notin> set (run_list (rq k))"
  shows "\<exists>k'. schedule RR_sched_class k = Some k' \<and> RR_inv k' \<and>
    current k' # run_list (rq k') = run_list (rq k) @ [current k] \<and>
    idleproc k' = idleproc k \<and> (\<forall>p. p_state (procs k' p) = p_state (procs k p))"
proof -
  define k1 where "k1 = upd_proc (current k) (\<lambda>q. q\<lparr>p_need_resched := False\<rparr>) k"
  have k1: "RR_inv k1" "rq k1 = rq k" "current k1 = current k" "idleproc k1 = idleproc k"
    and st1: "p_state (procs k1 p) = p_state (procs k p)" for p
    using inv by (simp_all add: k1_def RR_inv_def)
  have "current k \<notin> RR_ready k1" using c(3) k1 by (simp add: RR_ready_def)
  from RR_enqueue_spec [OF k1(1) this] obtain k2 where
    e: "RR_enqueue (current k) k1 = Some k2" "RR_inv k2" and
    l2: "run_list (rq k2) = run_list (rq k) @ [current k]" and fr2: "sched_frame k1 k2"
    using k1 by auto
  obtain p ps where ps: "run_list (rq k2) = p # ps"
    using l2 by (metis append_is_Nil_conv list.distinct(1) neq_Nil_conv)
  from RR_dequeue_spec [OF e(2) ps] obtain k3 where
    d: "RR_dequeue p k2 = Some k3" "RR_inv k3" "run_list (rq k3) = ps" and fr3: "sched_frame k2 k3"
    by blast
  note g = sched_frame_globals [OF fr2] sched_frame_globals [OF fr3]
  define k4 where "k4 = upd_proc p (\<lambda>q. q\<lparr>p_runs := p_runs q + 1\<rparr>) k3"
  define k' where "k' = (if p \<noteq> current k4 then proc_run p k4 else k4)"
  have "schedule RR_sched_class k = schedule_pick RR_sched_class k2"
    using c e k1 st1 by (simp add: schedule_def sched_class_enqueue_def RR_sched_class_def flip: k1_def)
  also have "\<dots> = Some k'"
    using ps d by (simp add: schedule_pick_def sched_class_pick_next_def sched_class_dequeue_def
        RR_sched_class_def RR_pick_next_def k4_def k'_def Let_def)
  finally have "schedule RR_sched_class k = Some k'" .
  moreover have "rq k' = rq k3" "procs k' = procs k4" "current k' = p" "idleproc k' = idleproc k"
    using g k1 by (auto simp: k'_def k4_def proc_run_def)
  moreover from this have "RR_inv k'" using d(2) by (simp add: RR_inv_def k4_def)
  moreover have "p_state (procs k4 q) = p_state (procs k q)" for q
    using sched_frame_state [OF fr2] sched_frame_state [OF fr3] st1 by (simp add: k4_def)
  ultimately show ?thesis using ps l2 d(3) by auto
qed

text \<open>Successive calls with no other event in between.\<close>

fun schedules :: "sched_class \<Rightarrow> nat \<Rightarrow> kernel \<Rightarrow> kernel option" where
  "schedules sc 0 k = Some k"
| "schedules sc (Suc n) k = Option.bind (schedule sc k) (schedules sc n)"

text \<open>
  C17: Under round robin, n calls of schedule with no other event rotate the running process and the
  queue by n places: nothing is lost, and every queued process runs after as many calls as its place
  in the queue says.
\<close>

theorem RR_schedules:
  assumes "RR_inv k" and "distinct (current k # run_list (rq k))"
    and "idleproc k \<notin> set (current k # run_list (rq k))"
    and "\<forall>p \<in> set (current k # run_list (rq k)). p_state (procs k p) = PROC_RUNNABLE"
  shows "\<exists>k'. schedules RR_sched_class n k = Some k' \<and>
    current k' # run_list (rq k') = rotate n (current k # run_list (rq k))"
  using assms
proof (induction n arbitrary: k)
  case 0
  then show ?case by simp
next
  case (Suc n)
  from RR_schedule [of k] Suc.prems obtain k1 where
    s: "schedule RR_sched_class k = Some k1" and inv: "RR_inv k1" and
    l: "current k1 # run_list (rq k1) = run_list (rq k) @ [current k]" and
    i: "idleproc k1 = idleproc k" and st: "\<forall>p. p_state (procs k1 p) = p_state (procs k p)"
    by auto
  have set: "set (current k1 # run_list (rq k1)) = set (current k # run_list (rq k))"
    unfolding l by auto
  have "distinct (current k1 # run_list (rq k1))"
    unfolding l using Suc.prems(2) by auto
  from Suc.IH [OF inv this] Suc.prems(3,4) obtain k' where
    "schedules RR_sched_class n k1 = Some k'"
    "current k' # run_list (rq k') = rotate n (current k1 # run_list (rq k1))"
    unfolding set i using st by auto
  then show ?case
    unfolding l using s rotate1_rotate_swap [of n "current k # run_list (rq k)"] by simp
qed

section \<open>Stride\<close>

text \<open>
  The running process must be able to rejoin the queue, so its stride has to fit the window too.
\<close>

definition stride_ok :: "kernel \<Rightarrow> bool" where
  "stride_ok k \<longleftrightarrow> stride_order k \<and> (current k \<noteq> idleproc k \<longrightarrow> stride_adm k (current k))"

lemma stride_order_cong:
  assumes "rq k' = rq k" and "strides k' = strides k"
  shows "stride_order k' = stride_order k" and "stride_adm k' p = stride_adm k p"
    and "stride_ready k' = stride_ready k" and "stride_inv k' = stride_inv k"
  using assms by (simp_all add: stride_order_def stride_adm_def stride_ready_def stride_inv_def)

lemma stride_pick_least:
  assumes inv: "stride_inv k2" and ord: "stride_order k2"
  shows "\<exists>k'. schedule_pick stride_sched_class k2 = Some k' \<and> stride_order k' \<and>
    idleproc k' = idleproc k2 \<and>
    (if stride_ready k2 = {} then current k' = idleproc k2 else
       current k' \<in> stride_ready k2 \<and> stride_adm k' (current k') \<and>
       (\<exists>m. stride_window (strides k2) m (stride_ready k2) \<and>
          (\<forall>q \<in> stride_ready k2. unat (strides k2 (current k') - m) \<le> unat (strides k2 q - m))))"
proof (cases "run_pool (rq k2)")
  case Leaf
  define k3 where "k3 = upd_proc (idleproc k2) (\<lambda>q. q\<lparr>p_runs := p_runs q + 1\<rparr>) k2"
  define k' where "k' = (if idleproc k2 \<noteq> current k3 then proc_run (idleproc k2) k3 else k3)"
  have "schedule_pick stride_sched_class k2 = Some k'"
    using Leaf by (simp add: schedule_pick_def sched_class_pick_next_def stride_sched_class_def
        stride_pick_next_def k3_def k'_def Let_def)
  moreover have "rq k' = rq k2" and "strides k' = strides k2" and "current k' = idleproc k2"
    and "idleproc k' = idleproc k2"
    by (auto simp: k'_def k3_def proc_run_def strides_def)
  ultimately show ?thesis
    using Leaf ord stride_order_cong(1) [of k' k2] by (simp add: stride_ready_def)
next
  case (Node l p r)
  from stride_pick_spec [OF inv Node] ord obtain ka kb where
    pick: "stride_pick_next k2 = (Some p, ka)" and d: "stride_dequeue p ka = Some kb" and
    kb: "stride_ready kb = stride_ready k2 - {p}" "strides kb = strides ka" "stride_order kb"
    and fr: "sched_frame k2 kb" by blast
  define k3 where "k3 = upd_proc p (\<lambda>q. q\<lparr>p_runs := p_runs q + 1\<rparr>) kb"
  define k' where "k' = (if p \<noteq> current k3 then proc_run p k3 else k3)"
  have s: "schedule_pick stride_sched_class k2 = Some k'"
    using pick d by (simp add: schedule_pick_def sched_class_pick_next_def sched_class_dequeue_def
        stride_sched_class_def k3_def k'_def Let_def)
  have rq: "rq k' = rq kb" and st: "strides k' = strides kb" and cur: "current k' = p"
    and idle: "idleproc k' = idleproc k2"
    using sched_frame_globals(2) [OF fr] by (auto simp: k'_def k3_def proc_run_def strides_def)
  note step = stride_window_step [OF ord pick]
  have "insert p (stride_ready k') = stride_ready k2"
    using stride_order_cong(3) [OF rq st] kb(1) step(1) by auto
  with step(2) kb(2) st have adm: "stride_adm k' p"
    by (auto simp: stride_adm_def)
  from ord obtain m where m: "stride_window (strides k2) m (stride_ready k2)"
    by (auto simp: stride_order_def)
  then have "\<forall>q \<in> stride_ready k2. unat (strides k2 p - m) \<le> unat (strides k2 q - m)"
    using stride_root_least [OF ord Node] by (auto simp: stride_window_subset)
  with s cur adm m idle kb(3) stride_order_cong(1) [OF rq st] step(1) show ?thesis by auto
qed

lemma stride_schedule_least:
  assumes ok: "sched_ok stride_ready stride_inv L k" and s: "stride_ok k"
  defines "Q \<equiv> {p \<in> L. p_state (procs k p) = PROC_RUNNABLE \<and> p \<noteq> idleproc k}"
  shows "\<exists>k'. schedule stride_sched_class k = Some k' \<and> stride_ok k' \<and>
    (if Q = {} then current k' = idleproc k else
       current k' \<in> Q \<and>
       (\<exists>m. stride_window (strides k) m Q \<and>
          (\<forall>q \<in> Q. unat (strides k (current k') - m) \<le> unat (strides k q - m))))"
proof -
  define k1 where "k1 = upd_proc (current k) (\<lambda>q. q\<lparr>p_need_resched := False\<rparr>) k"
  have k1: "rq k1 = rq k" "current k1 = current k" "idleproc k1 = idleproc k" "strides k1 = strides k"
    and st1: "p_state (procs k1 p) = p_state (procs k p)" for p
    by (auto simp: k1_def strides_def)
  note c1 = stride_order_cong [OF k1(1,4)]
  define e where "e = (if p_state (procs k1 (current k1)) = PROC_RUNNABLE
    then sched_class_enqueue stride_sched_class (current k1) k1 else Some k1)"
  have notin: "current k \<notin> stride_ready k1" using ok c1 by (auto simp: sched_ok_def)
  have inv1: "stride_inv k1" using ok c1 by (simp add: sched_ok_def)
  have "\<exists>k2. e = Some k2 \<and> stride_inv k2 \<and> stride_ready k2 = Q \<and> stride_order k2 \<and>
      strides k2 = strides k \<and> idleproc k2 = idleproc k"
  proof (cases "p_state (procs k (current k)) = PROC_RUNNABLE \<and> current k \<noteq> idleproc k")
    case True
    from stride_enqueue_spec [OF inv1 notin] obtain k2 where
      k2: "stride_enqueue (current k) k1 = Some k2" "stride_inv k2"
        "stride_ready k2 = insert (current k) (stride_ready k1)" and fr: "sched_frame k1 k2"
      and ord: "stride_order k1 \<longrightarrow> stride_adm k1 (current k) \<longrightarrow> stride_order k2" by blast
    have "strides k2 = strides k1"
      using k2(1) by (auto simp: stride_enqueue_def Let_def)
    with True k2 ord ok s c1 k1 st1 sched_frame_globals(2) [OF fr] show ?thesis
      by (auto simp: e_def sched_class_enqueue_def stride_sched_class_def stride_ok_def
          sched_ok_def Q_def)
  next
    case False
    with ok s c1 k1 st1 inv1 show ?thesis
      by (auto simp: e_def sched_class_enqueue_def stride_ok_def sched_ok_def Q_def)
  qed
  then obtain k2 where e: "e = Some k2" and k2: "stride_inv k2" "stride_ready k2 = Q"
    "stride_order k2" "strides k2 = strides k" "idleproc k2 = idleproc k" by blast
  have "schedule stride_sched_class k = Option.bind e (schedule_pick stride_sched_class)"
    by (simp add: schedule_def e_def k1_def)
  then have sch: "schedule stride_sched_class k = schedule_pick stride_sched_class k2"
    using e by simp
  from stride_pick_least [OF k2(1,3)] obtain k' where
    p: "schedule_pick stride_sched_class k2 = Some k'" and o: "stride_order k'" and
    i: "idleproc k' = idleproc k" and r: "if Q = {} then current k' = idleproc k else
       current k' \<in> Q \<and> stride_adm k' (current k') \<and>
       (\<exists>m. stride_window (strides k) m Q \<and>
          (\<forall>q \<in> Q. unat (strides k (current k') - m) \<le> unat (strides k q - m)))"
    unfolding k2 by blast
  with p o i r sch show ?thesis by (auto simp: stride_ok_def)
qed

text \<open>
  A process whose stride starts at 0, as \<^verbatim>\<open>alloc_proc\<close> sets it, need not fit the window:
  with two processes inside one window it can be before the first and after the second.
\<close>

lemma stride_fork_cycle:
  "proc_stride_comp_f ((\<lambda>_. 0)(1 := 0x70000000, 2 := 0xE0000000)) 1 2 = -1 \<and>
   proc_stride_comp_f ((\<lambda>_. 0)(1 := 0x70000000, 2 := 0xE0000000)) 2 3 = -1 \<and>
   proc_stride_comp_f ((\<lambda>_. 0)(1 := 0x70000000, 2 := 0xE0000000)) 3 1 = -1"
  by (simp add: proc_stride_comp_f_def)

section \<open>Properties\<close>

text \<open>A kernel with two runnable processes, 1 running and 2 queued, for the witnesses.\<close>

definition two_procs :: kernel where
  "two_procs = kernel0\<lparr>procs := (\<lambda>_. proc0\<lparr>p_state := PROC_RUNNABLE, p_on_rq := True\<rparr>), current := 1,
     rq := \<lparr>run_list = [2], proc_num = 1, max_time_slice = 5, run_pool = Node Leaf 2 Leaf\<rparr>\<rparr>"

lemma two_procs_simps [simp]:
  "p_state (procs two_procs p) = PROC_RUNNABLE" "p_wait_state (procs two_procs p) = 0"
  "p_stride (procs two_procs p) = 0" "current two_procs = 1" "idleproc two_procs = 0"
  "timer_list two_procs = []" "sem_value two_procs = (\<lambda>_. 0)" "wqueues two_procs = (\<lambda>_. [])"
  "timers two_procs = (\<lambda>_. \<lparr>t_expires = 0, t_proc = None\<rparr>)"
  "run_list (rq two_procs) = [2]" "run_pool (rq two_procs) = Node Leaf 2 Leaf"
  "proc_num (rq two_procs) = 1" "p_on_rq (procs two_procs p)"
  by (simp_all add: two_procs_def)

lemma two_procs_ok:
  "sched_ok stride_ready stride_inv {0, 1, 2} two_procs" "RR_inv two_procs" "stride_ok two_procs"
proof -
  show "sched_ok stride_ready stride_inv {0, 1, 2} two_procs"
    by (auto simp: sched_ok_def stride_ready_def stride_inv_def)
  show "RR_inv two_procs" by (simp add: RR_inv_def)
  have "stride_window (strides two_procs) 0 A" for A
    by (simp add: stride_window_def strides_def)
  then show "stride_ok two_procs"
    by (auto simp: stride_ok_def stride_order_def stride_adm_def)
qed

theorem RR_schedules_witness:
  "\<exists>k'. schedules RR_sched_class 3 two_procs = Some k' \<and> current k' # run_list (rq k') = [2, 1]"
  using RR_schedules [of two_procs 3] two_procs_ok(2) by (simp add: numeral_3_eq_3)

text \<open>
  C1: schedule with the stride class never fails an assertion, keeps the run queue equal to the set
  of runnable processes and the strides inside one window, and gives the CPU to a runnable process
  whose stride is least in that window, or to the idle process when nothing is runnable.
\<close>

theorem stride_schedule:
  assumes ok: "sched_ok stride_ready stride_inv L k" and s: "stride_ok k" and idle: "idleproc k \<in> L"
  defines "Q \<equiv> {p \<in> L. p_state (procs k p) = PROC_RUNNABLE \<and> p \<noteq> idleproc k}"
  shows "\<exists>k'. schedule stride_sched_class k = Some k' \<and>
    sched_ok stride_ready stride_inv L k' \<and> stride_ok k' \<and>
    (if Q = {} then current k' = idleproc k else
       current k' \<in> Q \<and>
       (\<exists>m. stride_window (strides k) m Q \<and>
          (\<forall>q \<in> Q. unat (strides k (current k') - m) \<le> unat (strides k q - m))))"
proof -
  from stride_schedule_least [OF ok s, folded Q_def] obtain k' where
    k': "schedule stride_sched_class k = Some k'" "stride_ok k'" and
    l: "if Q = {} then current k' = idleproc k else
       current k' \<in> Q \<and>
       (\<exists>m. stride_window (strides k) m Q \<and>
          (\<forall>q \<in> Q. unat (strides k (current k') - m) \<le> unat (strides k q - m)))"
    by blast
  moreover have "sched_ok stride_ready stride_inv L k'"
    using stride.schedule_spec [OF ok idle] k'(1) by auto
  ultimately show ?thesis by blast
qed

theorem stride_schedule_witness:
  "\<exists>k'. schedule stride_sched_class two_procs = Some k' \<and> current k' \<in> {1, 2} \<and> stride_ok k'"
  using stride_schedule [OF two_procs_ok(1,3)] by (auto split: if_splits)

text \<open>
  wakeup_proc on a process that is not a zombie makes it runnable, clears its wait state and
  puts it into the run queue exactly when it is neither running nor idle, so that the run queue
  stays the set of runnable processes; it changes no other process and no other part of the kernel.
\<close>

theorem wakeup_proc_keeps_queue:
  assumes "sched_ok stride_ready stride_inv L k" and "p \<in> L" and "p_state (procs k p) \<noteq> PROC_ZOMBIE"
  shows "\<exists>k'. wakeup_proc stride_sched_class p k = Some k' \<and>
    sched_ok stride_ready stride_inv L k' \<and>
    sched_frame (if p_state (procs k p) = PROC_RUNNABLE then k
      else upd_proc p (\<lambda>q. q\<lparr>p_state := PROC_RUNNABLE, p_wait_state := 0\<rparr>) k) k'"
  by (rule stride.wakeup_proc_spec [OF assms])

theorem wakeup_proc_keeps_queue_witness:
  "\<exists>k'. wakeup_proc stride_sched_class 2 two_procs = Some k' \<and> sched_frame two_procs k'"
  using wakeup_proc_keeps_queue [OF two_procs_ok(1), of 2] by auto

text \<open>
  Reading the delta list as absolute deadlines, add_timer inserts the new timer after every
  timer that expires no later and before every later one, leaves all deadlines as they were, and
  del_timer afterwards gives back the old deadlines.
\<close>

theorem add_del_timer:
  assumes "distinct (timer_list k)" and "t \<notin> set (timer_list k)"
    and "t_expires (timers k t) > 0" and "t_proc (timers k t) \<noteq> None"
    and "list_all (\<lambda>(u, d). d < 2 ^ 32) (deadlines (timers k) 0 (timer_list k))"
  defines "D \<equiv> deadlines (timers k) 0 (timer_list k)" and "e \<equiv> unat (t_expires (timers k t))"
  shows "\<exists>k'. add_timer t k = Some k' \<and>
    deadlines (timers k') 0 (timer_list k') =
      takeWhile (\<lambda>(u, d). d \<le> e) D @ (t, e) # dropWhile (\<lambda>(u, d). d \<le> e) D \<and>
    deadlines (timers (del_timer t k')) 0 (timer_list (del_timer t k')) = D"
proof -
  obtain k' where k': "add_timer t k = Some k'" and d:
    "deadlines (timers k') 0 (timer_list k') =
      takeWhile (\<lambda>(u, d). d \<le> e) D @ (t, e) # dropWhile (\<lambda>(u, d). d \<le> e) D"
    using add_timer_spec [OF assms(1-4)] unfolding D_def e_def by blast
  have t: "u \<noteq> t" if "(u, c) \<in> set D" for u c
    using that assms(2) deadlines_fst unfolding D_def by fastforce
  have "map fst (deadlines (timers k') 0 (timer_list k')) = timer_list k'" by simp
  then have "timer_list k' = map fst (takeWhile (\<lambda>(u, d). d \<le> e) D) @ t # map fst (dropWhile (\<lambda>(u, d). d \<le> e) D)"
    by (simp add: d)
  moreover have "map fst (takeWhile (\<lambda>(u, d). d \<le> e) D) @ map fst (dropWhile (\<lambda>(u, d). d \<le> e) D) =
      timer_list k"
    unfolding map_append [symmetric] takeWhile_dropWhile_id by (simp add: D_def)
  ultimately have "distinct (timer_list k')"
    using assms(1,2) by (rule distinct_insert_middle)
  moreover have "e < 2 ^ 32" unfolding e_def using unsigned_less [of "t_expires (timers k t)"] by simp
  ultimately have "timers_fit k'"
    unfolding timers_fit_def d using assms(5) unfolding D_def list_all_iff
    by (auto dest: set_takeWhileD set_dropWhileD)
  note del = del_timer_spec [OF this, of t]
  have "filter (\<lambda>(u, d). u \<noteq> t) (takeWhile (\<lambda>(u, d). d \<le> e) D) = takeWhile (\<lambda>(u, d). d \<le> e) D"
    "filter (\<lambda>(u, d). u \<noteq> t) (dropWhile (\<lambda>(u, d). d \<le> e) D) = dropWhile (\<lambda>(u, d). d \<le> e) D"
    by (auto intro!: filter_True dest!: set_takeWhileD set_dropWhileD t)
  then have "deadlines (timers (del_timer t k')) 0 (timer_list (del_timer t k')) = D"
    unfolding del d by simp
  with k' d show ?thesis by blast
qed

text \<open>One timer at 7 ticks in the list, another of 3 ticks added before it.\<close>

theorem add_del_timer_witness:
  "\<exists>k'. add_timer 1 (two_procs\<lparr>timers := (\<lambda>t. \<lparr>t_expires = if t = 1 then 3 else 7, t_proc = Some 2\<rparr>),
      timer_list := [4]\<rparr>) = Some k' \<and> deadlines (timers k') 0 (timer_list k') = [(1, 3), (4, 7)]"
  using add_del_timer [of "two_procs\<lparr>timers := (\<lambda>t. \<lparr>t_expires = if t = 1 then 3 else 7, t_proc = Some 2\<rparr>),
      timer_list := [4]\<rparr>" 1] by auto

text \<open>
  C18: One timer tick with the stride class: no assertion fails, the processes of exactly the timers
  due at this tick are made runnable and no other process changes its state or its wait state, the
  timers due leave the list, every other deadline comes one tick closer, the running process stays
  the same and the run queue stays the set of runnable processes. The timers of the list are
  distinct, the first is not due already, and each names a process that is not a zombie and, if
  it waits, waits interruptibly.
\<close>

theorem run_timer_list_tick:
  assumes "sched_ok stride_ready stride_inv L k" and "timers_ready L k"
    and "distinct (timer_list k)"
    and "timer_list k = [] \<or> t_expires (timers k (hd (timer_list k))) \<noteq> 0"
  defines "D \<equiv> deadlines (timers k) 0 (timer_list k)"
  shows "\<exists>k'. run_timer_list stride_sched_class k = Some k' \<and>
    sched_ok stride_ready stride_inv L k' \<and>
    deadlines (timers k') 0 (timer_list k') =
      map (\<lambda>(u, d). (u, d - 1)) (filter (\<lambda>(u, d). d \<noteq> 1) D) \<and>
    current k' = current k \<and>
    (\<forall>t. (t, 1) \<in> set D \<longrightarrow> t_proc (timers k t) \<noteq> None) \<and>
    (\<forall>q. p_state (procs k' q) =
      (if \<exists>t. (t, 1) \<in> set D \<and> t_proc (timers k t) = Some q then PROC_RUNNABLE
       else p_state (procs k q))) \<and>
    (\<forall>q. p_wait_state (procs k' q) =
      (if (\<exists>t. (t, 1) \<in> set D \<and> t_proc (timers k t) = Some q) \<and> p_state (procs k q) \<noteq> PROC_RUNNABLE
       then 0 else p_wait_state (procs k q)))"
  unfolding D_def by (rule stride.run_timer_list_spec [OF assms(1-4)])

theorem run_timer_list_tick_witness:
  "\<exists>k'. run_timer_list stride_sched_class (two_procs\<lparr>timers := (\<lambda>t. \<lparr>t_expires = 1, t_proc = Some 2\<rparr>),
      timer_list := [4, 5]\<rparr>) = Some k' \<and> deadlines (timers k') 0 (timer_list k') = [(5, 1)]"
  using run_timer_list_tick [of "{0, 1, 2}" "two_procs\<lparr>timers := (\<lambda>t. \<lparr>t_expires = 1, t_proc = Some 2\<rparr>),
      timer_list := [4, 5]\<rparr>"] two_procs_ok(1)
  by (auto simp: timers_ready_def stride.sched_ok_timers)

text \<open>The heap of the nodes \<open>A\<close>, whose strides lie in the window from \<open>m\<close>, with root \<open>p\<close>.\<close>

definition stride_heap ::
  "(nat \<Rightarrow> u32) \<Rightarrow> u32 \<Rightarrow> nat sh_store \<Rightarrow> nat option \<Rightarrow> nat set \<Rightarrow> bool"
where
  "stride_heap st m s p A \<longleftrightarrow>
     (\<exists>t. sh_tree s None p t \<and> nodup_t t \<and> heap_t (proc_stride_comp_f st) t \<and> set_tree t = A) \<and>
     A \<subseteq> in_window st m"

lemma stride_heap_least:
  assumes "stride_heap st m s p A"
  shows "case p of None \<Rightarrow> A = {}
    | Some r \<Rightarrow> r \<in> A \<and> (\<forall>q \<in> A. unat (st r - m) \<le> unat (st q - m))"
proof -
  let ?c = "proc_stride_comp_f st"
  from assms obtain t where t: "sh_tree s None p t" "heap_t ?c t" "set_tree t = A" and
    w: "A \<subseteq> in_window st m" unfolding stride_heap_def by blast
  show ?thesis
  proof (cases t)
    case Leaf
    with t show ?thesis by auto
  next
    case (Node l r u)
    have "unat (st r - m) \<le> unat (st q - m)" if "q \<in> A" for q
    proof -
      have "?c r q \<noteq> 1"
        by (rule stride_cmp.heap_root_min [of st l r u m]) (use t(2,3) Node w that in simp_all)
      moreover have "r \<in> in_window st m" "q \<in> in_window st m" using t(3) Node w that by auto
      ultimately have "\<not> int (unat (st q - m)) < int (unat (st r - m))"
        by (auto simp: stride_comp_window sgn_if split: if_splits)
      then show ?thesis by linarith
    qed
    with t Node show ?thesis by auto
  qed
qed

text \<open>
  C5: The pointer-level skew heap with the stride comparison is a priority queue: on a well-formed
  heap whose strides lie in one window, the root is a node of least stride; inserting a new node
  returns (the recursion ends) and links exactly the old nodes and the new one into a well-formed
  heap, removing any node of the heap returns and links exactly the others into a well-formed heap,
  and neither touches a node outside. So the root of the result is again a node of least stride.
\<close>

theorem skew_heap_priority_queue:
  assumes h: "stride_heap st m s a A" and b: "b \<in> in_window st m"
  shows "(case a of None \<Rightarrow> A = {}
      | Some r \<Rightarrow> r \<in> A \<and> (\<forall>q \<in> A. unat (st r - m) \<le> unat (st q - m))) \<and>
    (if b \<in> A
     then \<exists>p s'. skew_heap_remove (proc_stride_comp_f st) a b s = Some (p, s') \<and>
       stride_heap st m s' p (A - {b}) \<and> same_outside A s s'
     else \<exists>p s'. skew_heap_insert (proc_stride_comp_f st) a b s = Some (p, s') \<and>
       stride_heap st m s' p (insert b A) \<and> same_outside (insert b A) s s')"
proof (intro conjI)
  show "case a of None \<Rightarrow> A = {} | Some r \<Rightarrow> r \<in> A \<and> (\<forall>q \<in> A. unat (st r - m) \<le> unat (st q - m))"
    by (rule stride_heap_least [OF h])
  let ?c = "proc_stride_comp_f st"
  from h obtain t where t: "sh_tree s None a t" "nodup_t t" "heap_t ?c t" and A: "set_tree t = A" and
    w: "A \<subseteq> in_window st m" unfolding stride_heap_def by blast
  show "if b \<in> A
     then \<exists>p s'. skew_heap_remove ?c a b s = Some (p, s') \<and>
       stride_heap st m s' p (A - {b}) \<and> same_outside A s s'
     else \<exists>p s'. skew_heap_insert ?c a b s = Some (p, s') \<and>
       stride_heap st m s' p (insert b A) \<and> same_outside (insert b A) s s'"
  proof (cases "b \<in> A")
    case True
    then have bt: "b \<in> set_tree t" using A by simp
    have "set_tree (remove_t ?c b t) = A - {b}" using set_remove_t [OF t(2) bt] A by simp
    moreover have "heap_t ?c (remove_t ?c b t)"
      by (rule stride_cmp.heap_remove_t [OF t(3)]) (use A w in simp)
    ultimately have "sh_tree s' None p (remove_t ?c b t) \<Longrightarrow> stride_heap st m s' p (A - {b})" for s' p
      using w nodup_remove_t [OF t(2), of ?c b] unfolding stride_heap_def by blast
    with True skew_heap_remove_tree [OF t(1,2) bt, of ?c] A show ?thesis by auto
  next
    case False
    then have bt: "b \<notin> set_tree t" using A by simp
    have "nodup_t (insert_t ?c b t)"
      unfolding insert_t_def by (rule nodup_merge_t) (use t(2) bt in auto)
    moreover have "heap_t ?c (insert_t ?c b t)"
      by (rule stride_cmp.heap_insert_t [OF t(3)]) (use A w b in simp)
    moreover have "set_tree (insert_t ?c b t) = insert b A" using A by (simp add: insert_t_def)
    ultimately have "sh_tree s' None p (insert_t ?c b t) \<Longrightarrow> stride_heap st m s' p (insert b A)" for s' p
      using w b unfolding stride_heap_def by blast
    with False skew_heap_insert_tree [OF t(1,2) bt, of ?c] A show ?thesis by auto
  qed
qed

text \<open>The root of a heap of three nodes, which has two children, is removed.\<close>

theorem skew_heap_priority_queue_witness:
  "\<exists>p s'. skew_heap_remove (proc_stride_comp_f (\<lambda>q. of_nat q)) (Some 1) 1
     \<lparr>sh_parent = (\<lambda>q. if q = 1 then None else Some 1), sh_left = (\<lambda>_. None)(1 := Some 2),
       sh_right = (\<lambda>_. None)(1 := Some 3)\<rparr> = Some (p, s') \<and>
    stride_heap (\<lambda>q. of_nat q) 0 s' p {2, 3}"
proof -
  let ?s = "\<lparr>sh_parent = (\<lambda>q. if q = 1 then None else Some 1), sh_left = (\<lambda>_. None)(1 := Some 2),
    sh_right = (\<lambda>_. None)(1 := Some 3)\<rparr> :: nat sh_store"
  let ?t = "Node (Node Leaf 2 Leaf) 1 (Node Leaf 3 Leaf) :: nat tree"
  have "sh_tree ?s None (Some 1) ?t \<and> nodup_t ?t \<and> heap_t (proc_stride_comp_f of_nat) ?t \<and>
      set_tree ?t = {1, 2, 3}"
    by (auto simp: proc_stride_comp_f_def)
  moreover have "{1, 2, 3} \<subseteq> in_window of_nat (0 :: u32)" by (simp add: in_window_def BIG_STRIDE_def)
  ultimately have "stride_heap of_nat 0 ?s (Some 1) {1, 2, 3}" unfolding stride_heap_def by blast
  moreover have "1 \<in> in_window of_nat (0 :: u32)" by (simp add: in_window_def BIG_STRIDE_def)
  moreover have "{1, 2, 3} - {1} = {2, 3 :: nat}" by auto
  ultimately show ?thesis using skew_heap_priority_queue [of of_nat 0 ?s "Some 1" "{1, 2, 3}" 1] by auto
qed

end
