(* ===== verification/Proc_Table.thy ===== *)
theory Proc_Table
  imports Sched_Policy
begin

text \<open>
  The process table of \<^verbatim>\<open>kern/process/proc.c\<close>: names, the family links
  (\<^verbatim>\<open>set_links\<close>, \<^verbatim>\<open>remove_links\<close>), \<^verbatim>\<open>get_pid\<close> and the pid hash
  (\<^verbatim>\<open>hash_proc\<close>, \<^verbatim>\<open>unhash_proc\<close>, \<^verbatim>\<open>find_proc\<close>, with \<^verbatim>\<open>hash32\<close> of
  \<open>Prelude\<close>). \<open>family\<close> relates the \<^verbatim>\<open>cptr\<close>, \<^verbatim>\<open>optr\<close>,
  \<^verbatim>\<open>yptr\<close> and \<^verbatim>\<open>parent\<close> pointers to the list of children of each process, youngest
  first; \<open>pids_ok\<close> is the invariant that makes the fast path of \<^verbatim>\<open>get_pid\<close> right;
  \<open>hash_ok\<close> says that the hash lists hold exactly the processes of \<^verbatim>\<open>proc_list\<close>.
\<close>

section \<open>The hash of a pid\<close>

definition HASH_SHIFT :: nat where "HASH_SHIFT = 10"
definition HASH_LIST_SIZE :: nat where "HASH_LIST_SIZE = 2 ^ HASH_SHIFT"

definition pid_hashfn :: "int \<Rightarrow> nat" where
  "pid_hashfn x = unat (hash32 (word_of_int x) HASH_SHIFT)"

lemma pid_hashfn_bound: "pid_hashfn x < HASH_LIST_SIZE"
  unfolding pid_hashfn_def HASH_LIST_SIZE_def by (rule hash32_bound) (simp add: HASH_SHIFT_def)

section \<open>Names\<close>

text \<open>\<open>copy_prefix n src\<close> is what \<^verbatim>\<open>memcpy\<close> of \<open>n\<close> bytes reads.\<close>

definition set_proc_name :: "nat \<Rightarrow> u8 list \<Rightarrow> kernel \<Rightarrow> kernel" where
  "set_proc_name p nm k =
     (let k = upd_proc p (\<lambda>q. q\<lparr>p_name := replicate (PROC_NAME_LEN + 1) 0\<rparr>) k
      in upd_proc p (\<lambda>q. q\<lparr>p_name := take PROC_NAME_LEN nm @ drop PROC_NAME_LEN (p_name q)\<rparr>) k)"

definition get_proc_name :: "nat \<Rightarrow> kernel \<Rightarrow> u8 list" where
  "get_proc_name p k =
     (let nm = replicate (PROC_NAME_LEN + 1) 0
      in take PROC_NAME_LEN (p_name (procs k p)) @ drop PROC_NAME_LEN nm)"

lemma get_set_proc_name:
  assumes "PROC_NAME_LEN \<le> length nm"
  shows "get_proc_name p (set_proc_name p nm k) = take PROC_NAME_LEN nm @ [0]"
  using assms by (simp add: get_proc_name_def set_proc_name_def Let_def PROC_NAME_LEN_def)

section \<open>Family links\<close>

definition set_links :: "nat \<Rightarrow> kernel \<Rightarrow> kernel option" where
  "set_links p k = do {
     let k = k\<lparr>proc_list := p # proc_list k\<rparr>;
     let k = upd_proc p (\<lambda>q. q\<lparr>p_yptr := None\<rparr>) k;
     par \<leftarrow> p_parent (procs k p);
     let k = upd_proc p (\<lambda>q. q\<lparr>p_optr := p_cptr (procs k par)\<rparr>) k;
     let k = (case p_optr (procs k p) of
                None \<Rightarrow> k
              | Some y \<Rightarrow> upd_proc y (\<lambda>q. q\<lparr>p_yptr := Some p\<rparr>) k);
     let k = upd_proc par (\<lambda>q. q\<lparr>p_cptr := Some p\<rparr>) k;
     Some (k\<lparr>nr_process := nr_process k + 1\<rparr>)
   }"

definition remove_links :: "nat \<Rightarrow> kernel \<Rightarrow> kernel option" where
  "remove_links p k = do {
     let k = k\<lparr>proc_list := remove1 p (proc_list k)\<rparr>;
     let k = (case p_optr (procs k p) of
                None \<Rightarrow> k
              | Some y \<Rightarrow> upd_proc y (\<lambda>q. q\<lparr>p_yptr := p_yptr (procs k p)\<rparr>) k);
     k \<leftarrow> (case p_yptr (procs k p) of
             Some y \<Rightarrow> Some (upd_proc y (\<lambda>q. q\<lparr>p_optr := p_optr (procs k p)\<rparr>) k)
           | None \<Rightarrow> do {
               par \<leftarrow> p_parent (procs k p);
               Some (upd_proc par (\<lambda>q. q\<lparr>p_cptr := p_optr (procs k p)\<rparr>) k)
             });
     Some (k\<lparr>nr_process := nr_process k - 1\<rparr>)
   }"

text \<open>The siblings from \<open>cs\<close> on, whose next younger one is \<open>y\<close>.\<close>

fun siblings :: "(nat \<Rightarrow> proc_struct) \<Rightarrow> nat option \<Rightarrow> nat list \<Rightarrow> bool" where
  "siblings ps y [] \<longleftrightarrow> True"
| "siblings ps y (c # cs) \<longleftrightarrow> p_yptr (ps c) = y \<and>
     p_optr (ps c) = (case cs of [] \<Rightarrow> None | d # _ \<Rightarrow> Some d) \<and> siblings ps (Some c) cs"

text \<open>
  \<open>family_at\<close> lets the youngest child of \<open>q\<close> have the \<^verbatim>\<open>yptr\<close> \<open>y q\<close>, as it has
  while \<^verbatim>\<open>do_exit\<close> hands the children over one by one.
\<close>

definition family_at ::
  "(nat \<Rightarrow> nat option) \<Rightarrow> (nat \<Rightarrow> proc_struct) \<Rightarrow> (nat \<Rightarrow> nat list) \<Rightarrow> bool"
where
  "family_at y ps ch \<longleftrightarrow> (\<forall>q. distinct (ch q) \<and>
     p_cptr (ps q) = (case ch q of [] \<Rightarrow> None | c # _ \<Rightarrow> Some c) \<and>
     siblings ps (y q) (ch q) \<and> (\<forall>c \<in> set (ch q). p_parent (ps c) = Some q))"

definition family :: "(nat \<Rightarrow> proc_struct) \<Rightarrow> (nat \<Rightarrow> nat list) \<Rightarrow> bool" where
  "family = family_at (\<lambda>_. None)"

section \<open>Process identifiers\<close>

text \<open>
  One pass of the loop of \<^verbatim>\<open>get_pid\<close> over the list: whether it ends with
  \<^verbatim>\<open>goto repeat\<close>, and the values of \<^verbatim>\<open>last_pid\<close> and \<^verbatim>\<open>next_safe\<close>.
\<close>

fun pid_scan :: "int list \<Rightarrow> int \<Rightarrow> int \<Rightarrow> bool \<times> int \<times> int" where
  "pid_scan [] lp ns = (False, lp, ns)"
| "pid_scan (x # xs) lp ns =
     (if x = lp then
        let lp = lp + 1 in
        if lp \<ge> ns then (True, if lp \<ge> MAX_PID then 1 else lp, MAX_PID)
        else pid_scan xs lp ns
      else if x > lp \<and> ns > x then pid_scan xs lp x
      else pid_scan xs lp ns)"

text \<open>The passes may go on for ever (when every pid is taken): \<open>None\<close>.\<close>

partial_function (option) pid_search :: "int list \<Rightarrow> int \<Rightarrow> int \<Rightarrow> (int \<times> int) option" where
  "pid_search xs lp ns =
     (case pid_scan xs lp ns of
        (again, lp, ns) \<Rightarrow> if again then pid_search xs lp ns else Some (lp, ns))"

declare pid_search.simps [code]

definition get_pid :: "kernel \<Rightarrow> (int \<times> kernel) option" where
  "get_pid k = do {
     let pids = map (\<lambda>p. p_pid (procs k p)) (proc_list k);
     let lp = last_pid k + 1;
     (lp, ns) \<leftarrow> (if lp \<ge> MAX_PID then pid_search pids 1 MAX_PID
                  else if lp \<ge> next_safe k then pid_search pids lp MAX_PID
                  else Some (lp, next_safe k));
     Some (lp, k\<lparr>last_pid := lp, next_safe := ns\<rparr>)
   }"

section \<open>The pid hash\<close>

definition hash_proc :: "nat \<Rightarrow> kernel \<Rightarrow> kernel" where
  "hash_proc p k =
     (let h = pid_hashfn (p_pid (procs k p))
      in k\<lparr>hash_lists := (hash_lists k)(h := p # hash_lists k h)\<rparr>)"

text \<open>\<^verbatim>\<open>list_del\<close> unlinks the process from the list that holds it.\<close>

definition unhash_proc :: "nat \<Rightarrow> kernel \<Rightarrow> kernel" where
  "unhash_proc p k = k\<lparr>hash_lists := (\<lambda>h. remove1 p (hash_lists k h))\<rparr>"

definition find_proc :: "int \<Rightarrow> kernel \<Rightarrow> nat option" where
  "find_proc pid k =
     (if 0 < pid \<and> pid < MAX_PID
      then find (\<lambda>p. p_pid (procs k p) = pid) (hash_lists k (pid_hashfn pid)) else None)"

section \<open>get_pid returns a free pid\<close>

lemma pid_scan_done:
  assumes "pid_scan xs lp ns = (False, lp', ns')" and "lp < ns" and "\<forall>y \<in> D. \<not> (lp \<le> y \<and> y < ns)"
  shows "lp \<le> lp' \<and> lp' < ns' \<and> ns' \<le> ns \<and> (\<forall>y \<in> D \<union> set xs. \<not> (lp' \<le> y \<and> y < ns'))"
  using assms
proof (induction xs arbitrary: lp ns D)
  case (Cons x xs)
  consider "x = lp" "lp + 1 < ns" "pid_scan xs (lp + 1) ns = (False, lp', ns')"
    | "x > lp" "ns > x" "pid_scan xs lp x = (False, lp', ns')"
    | "x \<noteq> lp" "\<not> (x > lp \<and> ns > x)" "pid_scan xs lp ns = (False, lp', ns')"
    using Cons.prems(1) by (auto simp: Let_def split: if_splits)
  then show ?case
  proof cases
    case 1
    from Cons.IH [OF 1(3), of "insert x D"] 1 Cons.prems(3) show ?thesis by auto
  next
    case 2
    have "\<forall>y \<in> insert x D. \<not> (lp \<le> y \<and> y < x)" using 2(2) Cons.prems(3) by force
    from Cons.IH [OF 2(3,1) this] 2(2) show ?thesis by auto
  next
    case 3
    have "\<forall>y \<in> insert x D. \<not> (lp \<le> y \<and> y < ns)" using 3(1,2) Cons.prems(3) by force
    from Cons.IH [OF 3(3) Cons.prems(2) this] show ?thesis by auto
  qed
qed auto

text \<open>How many steps of \<open>last_pid\<close>, wrapping at \<^verbatim>\<open>MAX_PID\<close>, lead to \<open>f\<close>.\<close>

definition pid_dist :: "int \<Rightarrow> int \<Rightarrow> int" where
  "pid_dist f lp = (if lp \<le> f then f - lp else f + (MAX_PID - 1) - lp)"

lemma pid_scan_again:
  assumes "pid_scan xs lp ns = (True, lp', ns')" and "f \<notin> set xs" and "1 \<le> f" and "f < MAX_PID"
    and "1 \<le> lp" and "lp < ns" and "ns \<le> MAX_PID"
  shows "ns' = MAX_PID \<and> 1 \<le> lp' \<and> lp' < MAX_PID \<and> 0 \<le> pid_dist f lp' \<and> pid_dist f lp' < pid_dist f lp"
  using assms
proof (induction xs arbitrary: lp ns)
  case (Cons x xs)
  note d = pid_dist_def
  consider "x = lp" "lp + 1 \<ge> ns" "lp' = (if lp + 1 \<ge> MAX_PID then 1 else lp + 1)" "ns' = MAX_PID"
    | "x = lp" "lp + 1 < ns" "pid_scan xs (lp + 1) ns = (True, lp', ns')"
    | "x > lp" "ns > x" "pid_scan xs lp x = (True, lp', ns')"
    | "x \<noteq> lp" "pid_scan xs lp ns = (True, lp', ns')"
    using Cons.prems(1) by (auto simp: Let_def split: if_splits)
  then show ?case
  proof cases
    case 1
    with Cons.prems show ?thesis by (auto simp: d MAX_PID_def MAX_PROCESS_def)
  next
    case 2
    from Cons.IH [OF 2(3)] 2 Cons.prems show ?thesis by (auto simp: d split: if_splits)
  next
    case 3
    from Cons.IH [OF 3(3)] 3 Cons.prems show ?thesis by auto
  next
    case 4
    from Cons.IH [OF 4(2)] Cons.prems show ?thesis by auto
  qed
qed simp

lemma pid_search_free:
  assumes f: "f \<notin> set xs" "1 \<le> f" "f < MAX_PID" and lp: "1 \<le> lp" "lp < MAX_PID"
  shows "\<exists>lp' ns'. pid_search xs lp MAX_PID = Some (lp', ns') \<and> 1 \<le> lp' \<and> lp' < ns' \<and>
    ns' \<le> MAX_PID \<and> (\<forall>y \<in> set xs. \<not> (lp' \<le> y \<and> y < ns'))"
  using lp
proof (induction "nat (pid_dist f lp)" arbitrary: lp rule: less_induct)
  case less
  obtain again lp1 ns1 where s: "pid_scan xs lp MAX_PID = (again, lp1, ns1)"
    by (cases "pid_scan xs lp MAX_PID") auto
  show ?case
  proof (cases again)
    case True
    with pid_scan_again [of xs lp MAX_PID lp1 ns1 f] s f less.prems have
      d: "ns1 = MAX_PID" "1 \<le> lp1" "lp1 < MAX_PID" "0 \<le> pid_dist f lp1" "pid_dist f lp1 < pid_dist f lp"
      by auto
    then have "nat (pid_dist f lp1) < nat (pid_dist f lp)" by linarith
    from less.hyps [OF this d(2,3)] show ?thesis
      by (subst pid_search.simps) (simp add: s True d(1))
  next
    case False
    with pid_scan_done [of xs lp MAX_PID lp1 ns1 "{}"] s less.prems show ?thesis
      by (subst pid_search.simps) auto
  qed
qed

definition pids_ok :: "kernel \<Rightarrow> bool" where
  "pids_ok k \<longleftrightarrow> 1 \<le> last_pid k \<and> next_safe k \<le> MAX_PID \<and>
     (\<forall>p \<in> set (proc_list k). \<not> (last_pid k < p_pid (procs k p) \<and> p_pid (procs k p) < next_safe k))"

lemma free_pid:
  assumes "length xs < nat (MAX_PID - 1)"
  obtains f where "f \<notin> set xs" and "1 \<le> f" and "f < MAX_PID"
proof -
  have "card (set xs) < card {1..<MAX_PID}"
    using assms card_length [of xs] by simp
  then have "\<not> {1..<MAX_PID} \<subseteq> set xs"
    using card_mono [of "set xs" "{1..<MAX_PID}"] by force
  then obtain f where "f \<in> {1..<MAX_PID}" "f \<notin> set xs" by blast
  with that show thesis by simp
qed

lemma get_pid_spec:
  assumes ok: "pids_ok k" and len: "length (proc_list k) < nat (MAX_PID - 1)"
  shows "\<exists>pid k'. get_pid k = Some (pid, k') \<and> 1 \<le> pid \<and> pid < MAX_PID \<and>
    (\<forall>p \<in> set (proc_list k). p_pid (procs k p) \<noteq> pid) \<and> pids_ok k' \<and> last_pid k' = pid \<and>
    k'\<lparr>last_pid := last_pid k, next_safe := next_safe k\<rparr> = k"
proof -
  let ?pids = "map (\<lambda>p. p_pid (procs k p)) (proc_list k)"
  obtain f where f: "f \<notin> set ?pids" "1 \<le> f" "f < MAX_PID"
    using free_pid [of ?pids] len by auto
  define r where "r = (let lp = last_pid k + 1 in
    if lp \<ge> MAX_PID then pid_search ?pids 1 MAX_PID
    else if lp \<ge> next_safe k then pid_search ?pids lp MAX_PID else Some (lp, next_safe k))"
  have "\<exists>lp ns. r = Some (lp, ns) \<and> 1 \<le> lp \<and> lp < ns \<and> ns \<le> MAX_PID \<and>
      (\<forall>y \<in> set ?pids. \<not> (lp \<le> y \<and> y < ns))"
  proof (cases "last_pid k + 1 \<ge> MAX_PID \<or> last_pid k + 1 \<ge> next_safe k")
    case True
    with pid_search_free [OF f, of 1] pid_search_free [OF f, of "last_pid k + 1"] ok
    show ?thesis by (auto simp: r_def Let_def pids_ok_def MAX_PID_def MAX_PROCESS_def)
  next
    case False
    with ok show ?thesis by (auto simp: r_def pids_ok_def)
  qed
  then obtain lp ns where r: "r = Some (lp, ns)" "1 \<le> lp" "lp < ns" "ns \<le> MAX_PID"
    "\<forall>y \<in> set ?pids. \<not> (lp \<le> y \<and> y < ns)" by blast
  have "get_pid k = Some (lp, k\<lparr>last_pid := lp, next_safe := ns\<rparr>)"
    using r(1) by (simp add: get_pid_def r_def Let_def)
  moreover have "pids_ok (k\<lparr>last_pid := lp, next_safe := ns\<rparr>)"
    using r by (auto simp: pids_ok_def)
  ultimately show ?thesis using r by force
qed

section \<open>The family links\<close>

definition first :: "'a list \<Rightarrow> 'a option" where
  "first xs = (case xs of [] \<Rightarrow> None | x # _ \<Rightarrow> Some x)"

lemma first_simps [simp]: "first [] = None" "first (x # xs) = Some x"
  by (simp_all add: first_def)

lemma siblings_Cons: "siblings ps y (c # cs) \<longleftrightarrow>
    p_yptr (ps c) = y \<and> p_optr (ps c) = first cs \<and> siblings ps (Some c) cs"
  by (simp add: first_def)

lemma siblings_cong:
  assumes "\<And>c. c \<in> set cs \<Longrightarrow> p_yptr (ps' c) = p_yptr (ps c) \<and> p_optr (ps' c) = p_optr (ps c)"
  shows "siblings ps' y cs = siblings ps y cs"
  using assms by (induction cs arbitrary: y) auto

lemma siblings_middle_optr: "siblings ps y (xs @ c # ys) \<Longrightarrow> p_optr (ps c) = first ys"
  by (induction xs arbitrary: y) (auto simp: first_def)

lemma siblings_middle_yptr:
  "siblings ps y (xs @ c # ys) \<Longrightarrow> p_yptr (ps c) = (if xs = [] then y else Some (last xs))"
  by (induction xs arbitrary: y) auto

text \<open>Unlinking the middle one: its neighbours point to each other.\<close>

lemma siblings_drop:
  assumes "siblings ps y (xs @ c # ys)" and "distinct (xs @ c # ys)"
    and "\<And>x. x \<in> set (xs @ ys) \<Longrightarrow>
      p_optr (ps' x) = (if xs \<noteq> [] \<and> x = last xs then first ys else p_optr (ps x)) \<and>
      p_yptr (ps' x) = (if Some x = first ys then (if xs = [] then y else Some (last xs)) else p_yptr (ps x))"
  shows "siblings ps' y (xs @ ys)"
  using assms
proof (induction xs arbitrary: y)
  case Nil
  show ?case
  proof (cases ys)
    case (Cons d ds)
    from Nil Cons have "siblings ps' (Some d) ds = siblings ps (Some d) ds"
      by (intro siblings_cong) auto
    with Nil(1) Nil(3) [of d] Cons show ?thesis by simp
  qed simp
next
  case (Cons x xs)
  have "siblings ps' (Some x) (xs @ ys)"
  proof (rule Cons.IH)
    show "siblings ps (Some x) (xs @ c # ys)" and "distinct (xs @ c # ys)"
      using Cons.prems(1,2) by simp_all
    fix z assume z: "z \<in> set (xs @ ys)"
    then have "z \<noteq> x" using Cons.prems(2) by auto
    with Cons.prems(3) [of z] z
    show "p_optr (ps' z) = (if xs \<noteq> [] \<and> z = last xs then first ys else p_optr (ps z)) \<and>
      p_yptr (ps' z) =
        (if Some z = first ys then (if xs = [] then Some x else Some (last xs)) else p_yptr (ps z))"
      by (cases "xs = []") simp_all
  qed
  moreover have "first ys \<noteq> Some x" using Cons.prems(2) by (cases ys) auto
  moreover have "x = last xs \<Longrightarrow> xs = []"
    using Cons.prems(2) last_in_set [of xs] by auto
  ultimately show ?case
    using Cons.prems(1) Cons.prems(3) [of x] by (cases xs) (auto simp: first_def)
qed

lemma family_atD:
  assumes "family_at y ps ch"
  shows "distinct (ch q)" and "p_cptr (ps q) = first (ch q)" and "siblings ps (y q) (ch q)"
    and "c \<in> set (ch q) \<Longrightarrow> p_parent (ps c) = Some q"
  using assms by (auto simp: family_at_def first_def)

lemma family_at_disjoint: "family_at y ps ch \<Longrightarrow> c \<in> set (ch q) \<Longrightarrow> c \<in> set (ch r) \<Longrightarrow> q = r"
  using family_atD(4) by (metis option.inject)

lemma family_atI:
  assumes "\<And>q. distinct (ch q)" and "\<And>q. p_cptr (ps q) = first (ch q)"
    and "\<And>q. siblings ps (y q) (ch q)" and "\<And>q c. c \<in> set (ch q) \<Longrightarrow> p_parent (ps c) = Some q"
  shows "family_at y ps ch"
  using assms by (auto simp: family_at_def first_def)

text \<open>
  Putting a process at the front of a sibling list: what \<^verbatim>\<open>set_links\<close> and the loop of
  \<^verbatim>\<open>do_exit\<close> have in common.
\<close>

lemma siblings_push:
  assumes fam: "family_at y ps ch" and p: "p \<notin> set (ch par)" and yp: "y par = None"
    and o: "p_optr (ps' p) = first (ch par)" and yo: "p_yptr (ps' p) = None"
    and rest: "\<And>c. c \<in> set (ch par) \<Longrightarrow> p_optr (ps' c) = p_optr (ps c) \<and>
      p_yptr (ps' c) = (if Some c = first (ch par) then Some p else p_yptr (ps c))"
  shows "siblings ps' None (p # ch par)"
proof (cases "ch par")
  case Nil
  with o yo show ?thesis by simp
next
  case (Cons d ds)
  have "distinct (d # ds)" and s: "siblings ps None (d # ds)"
    using family_atD(1,3) [OF fam, of par] Cons yp by simp_all
  then have "siblings ps' (Some d) ds = siblings ps (Some d) ds"
    using rest Cons by (intro siblings_cong) auto
  with s o yo rest [of d] Cons show ?thesis by (simp add: siblings_Cons del: siblings.simps(2))
qed

lemma set_links_family:
  assumes fam: "family (procs k) ch" and par: "p_parent (procs k p) = Some par" "p \<noteq> par"
    and p: "\<And>q. p \<notin> set (ch q)"
  shows "\<exists>k'. set_links p k = Some k' \<and> family (procs k') (ch(par := p # ch par)) \<and>
    proc_list k' = p # proc_list k \<and> nr_process k' = nr_process k + 1 \<and>
    (\<forall>q. p_parent (procs k' q) = p_parent (procs k q) \<and> p_state (procs k' q) = p_state (procs k q) \<and>
       p_pid (procs k' q) = p_pid (procs k q))"
proof -
  let ?o = "first (ch par)"
  define k' where "k' = (upd_proc par (\<lambda>q. q\<lparr>p_cptr := Some p\<rparr>)
    (case ?o of None \<Rightarrow> upd_proc p (\<lambda>q. q\<lparr>p_yptr := None, p_optr := ?o\<rparr>) k
     | Some d \<Rightarrow> upd_proc d (\<lambda>q. q\<lparr>p_yptr := Some p\<rparr>)
         (upd_proc p (\<lambda>q. q\<lparr>p_yptr := None, p_optr := ?o\<rparr>) k)))
    \<lparr>proc_list := p # proc_list k, nr_process := nr_process k + 1\<rparr>"
  have c: "p_cptr (procs k q) = first (ch q)" for q
    using family_atD(2) fam unfolding family_def by blast
  have step: "set_links p k = Some k'"
    using par c p [of par] unfolding k'_def
    by (auto simp: set_links_def upd_proc_def Let_def split: option.splits)
  have d: "d \<in> set (ch par)" if "?o = Some d" for d
    using that by (cases "ch par") auto
  have ne: "?o \<noteq> Some p" using d p by blast
  have f: "p_cptr (procs k' q) = (if q = par then Some p else p_cptr (procs k q))"
    "p_optr (procs k' q) = (if q = p then ?o else p_optr (procs k q))"
    "p_yptr (procs k' q) =
      (if q = p then None else if Some q = ?o then Some p else p_yptr (procs k q))"
    "p_parent (procs k' q) = p_parent (procs k q)" "p_state (procs k' q) = p_state (procs k q)"
    "p_pid (procs k' q) = p_pid (procs k q)" for q
    using ne by (auto simp: k'_def split: option.splits)
  note fam = fam [unfolded family_def]
  have "family_at (\<lambda>_. None) (procs k') (ch(par := p # ch par))"
  proof (rule family_atI)
    fix q
    show "distinct ((ch(par := p # ch par)) q)" using family_atD(1) [OF fam] p by simp
    show "p_cptr (procs k' q) = first ((ch(par := p # ch par)) q)" using c f(1) by simp
    show "p_parent (procs k' x) = Some q" if "x \<in> set ((ch(par := p # ch par)) q)" for x
      using that family_atD(4) [OF fam, of x] par(1) f(4) by (auto split: if_splits)
    show "siblings (procs k') None ((ch(par := p # ch par)) q)"
    proof (cases "q = par")
      case True
      have "siblings (procs k') None (p # ch par)"
        by (rule siblings_push [OF fam p refl]) (use f(2,3) p in auto)
      with True show ?thesis by simp
    next
      case False
      have "siblings (procs k') None (ch q) = siblings (procs k) None (ch q)"
      proof (rule siblings_cong)
        fix x assume x: "x \<in> set (ch q)"
        then have "?o \<noteq> Some x" using d family_at_disjoint [OF fam x] False by blast
        with x p [of q] show "p_yptr (procs k' x) = p_yptr (procs k x) \<and>
            p_optr (procs k' x) = p_optr (procs k x)"
          by (auto simp: f(2,3))
      qed
      with False family_atD(3) [OF fam, of q] show ?thesis by simp
    qed
  qed
  with step f show ?thesis unfolding family_def by (auto simp: k'_def)
qed

lemma remove_links_family:
  assumes fam: "family (procs k) ch" and p: "p \<in> set (ch par)"
  shows "\<exists>k'. remove_links p k = Some k' \<and> family (procs k') (ch(par := remove1 p (ch par))) \<and>
    proc_list k' = remove1 p (proc_list k) \<and> nr_process k' = nr_process k - 1 \<and>
    (\<forall>q. p_parent (procs k' q) = p_parent (procs k q) \<and> p_state (procs k' q) = p_state (procs k q) \<and>
       p_pid (procs k' q) = p_pid (procs k q))"
proof -
  note fam = fam [unfolded family_def]
  obtain xs ys where l: "ch par = xs @ p # ys" and dist: "p \<notin> set xs" "p \<notin> set ys"
    using split_list_distinct [OF p family_atD(1) [OF fam]] .
  let ?o = "first ys" and ?y = "if xs = [] then None else Some (last xs)"
  note sib = family_atD(3) [OF fam, of par, unfolded l]
  have o: "p_optr (procs k p) = ?o" and y: "p_yptr (procs k p) = ?y"
    using siblings_middle_optr [OF sib] siblings_middle_yptr [OF sib] by simp_all
  have par: "p_parent (procs k p) = Some par" using family_atD(4) [OF fam p] .
  have c: "p_cptr (procs k q) = first (ch q)" for q using family_atD(2) [OF fam] .
  define k1 where "k1 = (case ?o of None \<Rightarrow> k\<lparr>proc_list := remove1 p (proc_list k)\<rparr>
    | Some z \<Rightarrow> upd_proc z (\<lambda>q. q\<lparr>p_yptr := ?y\<rparr>) (k\<lparr>proc_list := remove1 p (proc_list k)\<rparr>))"
  define k2 where "k2 = (case ?y of Some z \<Rightarrow> upd_proc z (\<lambda>q. q\<lparr>p_optr := ?o\<rparr>) k1
    | None \<Rightarrow> upd_proc par (\<lambda>q. q\<lparr>p_cptr := ?o\<rparr>) k1)"
  define k' where "k' = k2\<lparr>nr_process := nr_process k2 - 1\<rparr>"
  have mem: "z \<in> set ys" if "?o = Some z" for z using that by (cases ys) auto
  have f1: "p_cptr (procs k1 q) = p_cptr (procs k q)" "p_optr (procs k1 q) = p_optr (procs k q)"
    "p_yptr (procs k1 q) = (if Some q = ?o then ?y else p_yptr (procs k q))"
    "p_parent (procs k1 q) = p_parent (procs k q)" "p_state (procs k1 q) = p_state (procs k q)"
    "p_pid (procs k1 q) = p_pid (procs k q)" "nr_process k1 = nr_process k"
    "proc_list k1 = remove1 p (proc_list k)" for q
    by (auto simp: k1_def split: option.splits)
  have op: "?o \<noteq> Some p" using mem dist by auto
  have step: "remove_links p k = Some k'"
    using o y par f1 op unfolding k'_def k2_def
    by (auto simp: remove_links_def k1_def Let_def split: option.splits if_splits)
  have f: "p_cptr (procs k' q) = (if q = par \<and> xs = [] then ?o else p_cptr (procs k q))"
    "p_optr (procs k' q) = (if xs \<noteq> [] \<and> q = last xs then ?o else p_optr (procs k q))"
    "p_yptr (procs k' q) = (if Some q = ?o then ?y else p_yptr (procs k q))"
    "p_parent (procs k' q) = p_parent (procs k q)" "p_state (procs k' q) = p_state (procs k q)"
    "p_pid (procs k' q) = p_pid (procs k q)" for q
    by (auto simp: k'_def k2_def f1)
  have rm: "remove1 p (ch par) = xs @ ys" using dist l by (simp add: remove1_middle)
  have "family_at (\<lambda>_. None) (procs k') (ch(par := xs @ ys))"
  proof (rule family_atI)
    fix q
    show "distinct ((ch(par := xs @ ys)) q)" using family_atD(1) [OF fam, of q] l by (auto split: if_splits)
    show "p_cptr (procs k' q) = first ((ch(par := xs @ ys)) q)"
      using c [of q] l f(1) [of q] by (cases xs) auto
    show "p_parent (procs k' x) = Some q" if "x \<in> set ((ch(par := xs @ ys)) q)" for x
      using that family_atD(4) [OF fam, of x q] l f(4) by (auto split: if_splits)
    show "siblings (procs k') None ((ch(par := xs @ ys)) q)"
    proof (cases "q = par")
      case True
      have "siblings (procs k') None (xs @ ys)"
        by (rule siblings_drop [OF sib]) (use family_atD(1) [OF fam, of par] l f(2,3) in simp_all)
      with True show ?thesis by simp
    next
      case False
      have "siblings (procs k') None (ch q) = siblings (procs k) None (ch q)"
      proof (rule siblings_cong)
        fix x assume x: "x \<in> set (ch q)"
        then have "x \<notin> set (ch par)" using family_at_disjoint [OF fam x] False by blast
        then have "?o \<noteq> Some x" "xs \<noteq> [] \<longrightarrow> last xs \<noteq> x"
          using mem l last_in_set [of xs] by auto
        then show "p_yptr (procs k' x) = p_yptr (procs k x) \<and>
            p_optr (procs k' x) = p_optr (procs k x)"
          by (auto simp: f(2,3))
      qed
      with False family_atD(3) [OF fam, of q] show ?thesis by simp
    qed
  qed
  with step f show ?thesis unfolding family_def rm by (auto simp: k'_def k2_def f1)
qed

section \<open>The table as a whole\<close>

definition hash_ok :: "kernel \<Rightarrow> bool" where
  "hash_ok k \<longleftrightarrow> distinct (proc_list k) \<and> inj_on (\<lambda>p. p_pid (procs k p)) (set (proc_list k)) \<and>
     (\<forall>p \<in> set (proc_list k). 1 \<le> p_pid (procs k p) \<and> p_pid (procs k p) < MAX_PID) \<and>
     (\<forall>h. distinct (hash_lists k h) \<and>
        set (hash_lists k h) = {p \<in> set (proc_list k). pid_hashfn (p_pid (procs k p)) = h})"

lemma find_proc_iff:
  assumes "hash_ok k"
  shows "find_proc pid k = Some p \<longleftrightarrow> p \<in> set (proc_list k) \<and> p_pid (procs k p) = pid"
proof
  assume "find_proc pid k = Some p"
  with assms show "p \<in> set (proc_list k) \<and> p_pid (procs k p) = pid"
    by (auto simp: find_proc_def hash_ok_def find_Some_iff split: if_splits dest!: nth_mem)
next
  assume p: "p \<in> set (proc_list k) \<and> p_pid (procs k p) = pid"
  let ?l = "hash_lists k (pid_hashfn pid)" and ?P = "\<lambda>p. p_pid (procs k p) = pid"
  have "p \<in> set ?l" "0 < pid" "pid < MAX_PID" using assms p by (auto simp: hash_ok_def)
  moreover from this have "find ?P ?l \<noteq> None" using p by (auto simp: find_None_iff)
  moreover have "q = p" if "find ?P ?l = Some q" for q
  proof -
    from that have q: "q \<in> set ?l" "?P q" by (auto simp: find_Some_iff)
    then have "q \<in> set (proc_list k)" using assms by (auto simp: hash_ok_def)
    with p q assms show ?thesis unfolding hash_ok_def inj_on_def by auto
  qed
  ultimately show "find_proc pid k = Some p" by (auto simp: find_proc_def)
qed

text \<open>\<open>nr_process\<close> also counts the idle process, which is in no list.\<close>

definition table_at :: "(nat \<Rightarrow> nat option) \<Rightarrow> (nat \<Rightarrow> nat list) \<Rightarrow> kernel \<Rightarrow> bool" where
  "table_at y ch k \<longleftrightarrow> family_at y (procs k) ch \<and> hash_ok k \<and> pids_ok k \<and>
     (\<forall>q. set (ch q) = {p \<in> set (proc_list k). p_parent (procs k p) = Some q}) \<and>
     nr_process k = int (length (proc_list k)) + 1"

definition table_ok :: "(nat \<Rightarrow> nat list) \<Rightarrow> kernel \<Rightarrow> bool" where
  "table_ok = table_at (\<lambda>_. None)"

lemma table_ok_iff:
  "table_ok ch k \<longleftrightarrow> family (procs k) ch \<and> hash_ok k \<and> pids_ok k \<and>
     (\<forall>q. set (ch q) = {p \<in> set (proc_list k). p_parent (procs k p) = Some q}) \<and>
     nr_process k = int (length (proc_list k)) + 1"
  by (simp add: table_ok_def table_at_def family_def)

text \<open>The critical section of \<^verbatim>\<open>do_fork\<close>.\<close>

definition fork_register :: "nat \<Rightarrow> kernel \<Rightarrow> kernel option" where
  "fork_register p k = do {
     (pid, k) \<leftarrow> get_pid k;
     let k = upd_proc p (\<lambda>q. q\<lparr>p_pid := pid\<rparr>) k;
     k \<leftarrow> set_links p k;
     Some (hash_proc p k)
   }"

lemma hash_proc_simps [simp]:
  "procs (hash_proc p k) = procs k" "proc_list (hash_proc p k) = proc_list k"
  "nr_process (hash_proc p k) = nr_process k" "last_pid (hash_proc p k) = last_pid k"
  "next_safe (hash_proc p k) = next_safe k"
  "hash_lists (hash_proc p k) h =
    (if h = pid_hashfn (p_pid (procs k p)) then p # hash_lists k h else hash_lists k h)"
  by (simp_all add: hash_proc_def Let_def)

lemma set_links_frame:
  "set_links p k = Some k' \<Longrightarrow> hash_lists k' = hash_lists k \<and> last_pid k' = last_pid k \<and>
     next_safe k' = next_safe k"
  by (auto simp: set_links_def Let_def option_bind_eq_Some split: option.splits)

lemma fork_register_ok:
  assumes ok: "table_ok ch k" and par: "p_parent (procs k p) = Some par" "p \<noteq> par"
    and p: "p \<notin> set (proc_list k)" and len: "nr_process k < MAX_PROCESS"
  shows "\<exists>k'. fork_register p k = Some k' \<and> table_ok (ch(par := p # ch par)) k' \<and>
    1 \<le> p_pid (procs k' p) \<and> proc_list k' = p # proc_list k \<and>
    (\<forall>q \<in> set (proc_list k). p_pid (procs k' q) = p_pid (procs k q) \<and> p_pid (procs k q) \<noteq> p_pid (procs k' p)) \<and>
    (\<forall>q. p_parent (procs k' q) = p_parent (procs k q) \<and> p_state (procs k' q) = p_state (procs k q))"
proof -
  from ok have fam: "family (procs k) ch" and hash: "hash_ok k" and pids: "pids_ok k" and
    ch: "\<And>q. set (ch q) = {p \<in> set (proc_list k). p_parent (procs k p) = Some q}" and
    nr: "nr_process k = int (length (proc_list k)) + 1"
    by (auto simp: table_ok_iff)
  have "length (proc_list k) < nat (MAX_PID - 1)"
    using len nr by (simp add: MAX_PID_def MAX_PROCESS_def)
  from get_pid_spec [OF pids this] obtain pid k1 where
    g: "get_pid k = Some (pid, k1)" "1 \<le> pid" "pid < MAX_PID"
      "\<forall>q \<in> set (proc_list k). p_pid (procs k q) \<noteq> pid" "pids_ok k1" "last_pid k1 = pid" and
    k1: "k1\<lparr>last_pid := last_pid k, next_safe := next_safe k\<rparr> = k" by blast
  have same1: "procs k1 = procs k" "proc_list k1 = proc_list k" "hash_lists k1 = hash_lists k"
    "nr_process k1 = nr_process k"
    using arg_cong [OF k1, of procs] arg_cong [OF k1, of proc_list] arg_cong [OF k1, of hash_lists]
      arg_cong [OF k1, of nr_process] by simp_all
  define k2 where "k2 = upd_proc p (\<lambda>q. q\<lparr>p_pid := pid\<rparr>) k1"
  have np: "p \<notin> set (ch q)" for q using ch p by auto
  have "family (procs k2) ch"
    unfolding family_def
  proof (rule family_atI)
    fix q
    note D = family_atD [OF fam [unfolded family_def], of q]
    show "distinct (ch q)" by (rule D)
    show "p_cptr (procs k2 q) = first (ch q)" using D(2) family_atD(2) [OF fam [unfolded family_def], of p]
      by (auto simp: k2_def same1)
    show "siblings (procs k2) None (ch q)"
      using D(3) siblings_cong [of "ch q" "procs k2" "procs k" None] by (simp add: k2_def same1)
    show "p_parent (procs k2 c) = Some q" if "c \<in> set (ch q)" for c
      using family_atD(4) [OF fam [unfolded family_def] that] by (auto simp: k2_def same1)
  qed
  from set_links_family [OF this _ par(2) np] par(1) obtain k3 where
    s: "set_links p k2 = Some k3" "family (procs k3) (ch(par := p # ch par))"
      "proc_list k3 = p # proc_list k" "nr_process k3 = nr_process k + 1" and
    q3: "\<And>q. p_parent (procs k3 q) = p_parent (procs k q)" "\<And>q. p_state (procs k3 q) = p_state (procs k q)"
      "\<And>q. p_pid (procs k3 q) = (if q = p then pid else p_pid (procs k q))"
    by (auto simp: k2_def same1)
  note fr = set_links_frame [OF s(1)]
  define k' where "k' = hash_proc p k3"
  have reg: "fork_register p k = Some k'"
    using g(1) s(1) by (simp add: fork_register_def k'_def k2_def)
  have "hash_ok k'"
    unfolding hash_ok_def
  proof (intro conjI ballI allI)
    show "distinct (proc_list k')" using hash p by (simp add: hash_ok_def k'_def s(3))
    show "inj_on (\<lambda>p. p_pid (procs k' p)) (set (proc_list k'))"
      using hash g(4) p unfolding hash_ok_def inj_on_def by (auto simp: k'_def s(3) q3(3))
    show "1 \<le> p_pid (procs k' q)" "p_pid (procs k' q) < MAX_PID" if "q \<in> set (proc_list k')" for q
      using that hash g(2,3) by (auto simp: hash_ok_def k'_def s(3) q3(3))
    fix h
    have hl: "hash_lists k' h = (if h = pid_hashfn pid then p # hash_lists k h else hash_lists k h)"
      using fr by (simp add: k'_def q3(3) k2_def same1)
    show "distinct (hash_lists k' h)" using hash p unfolding hl by (auto simp: hash_ok_def)
    have old: "set (hash_lists k h) = {p \<in> set (proc_list k). pid_hashfn (p_pid (procs k p)) = h}"
      using hash by (simp add: hash_ok_def)
    have "proc_list k' = p # proc_list k" "\<And>q. p_pid (procs k' q) = (if q = p then pid else p_pid (procs k q))"
      by (simp_all add: k'_def s(3) q3(3))
    with old p show "set (hash_lists k' h) = {q \<in> set (proc_list k'). pid_hashfn (p_pid (procs k' q)) = h}"
      unfolding hl by auto
  qed
  moreover have "pids_ok k'"
    using g(5,6) fr p unfolding pids_ok_def by (auto simp: k'_def s(3) q3(3) k2_def same1)
  moreover have "set ((ch(par := p # ch par)) q) =
      {x \<in> set (proc_list k'). p_parent (procs k' x) = Some q}" for q
    using ch par(1) by (auto simp: k'_def s(3) q3(1))
  ultimately have "table_ok (ch(par := p # ch par)) k'"
    using s(2) s(4) nr by (simp add: table_ok_iff k'_def s(3))
  moreover have "p_pid (procs k' p) = pid" "\<And>q. q \<in> set (proc_list k) \<Longrightarrow> p_pid (procs k' q) = p_pid (procs k q)"
    using p by (auto simp: k'_def q3(3))
  ultimately show ?thesis using reg g(2,4) s(3) q3 by (auto simp: k'_def)
qed

text \<open>The reaping of a zombie child in \<^verbatim>\<open>do_wait\<close>.\<close>

definition wait_reap :: "nat \<Rightarrow> kernel \<Rightarrow> kernel option" where
  "wait_reap p k = remove_links p (unhash_proc p k)"

lemma remove_links_frame:
  "remove_links p k = Some k' \<Longrightarrow> hash_lists k' = hash_lists k \<and> last_pid k' = last_pid k \<and>
     next_safe k' = next_safe k"
  by (auto simp: remove_links_def Let_def option_bind_eq_Some split: option.splits)

lemma unhash_proc_simps [simp]:
  "procs (unhash_proc p k) = procs k" "proc_list (unhash_proc p k) = proc_list k"
  "nr_process (unhash_proc p k) = nr_process k" "last_pid (unhash_proc p k) = last_pid k"
  "next_safe (unhash_proc p k) = next_safe k"
  "hash_lists (unhash_proc p k) h = remove1 p (hash_lists k h)"
  by (simp_all add: unhash_proc_def)

lemma wait_reap_ok:
  assumes ok: "table_ok ch k" and p: "p \<in> set (ch par)"
  shows "\<exists>k'. wait_reap p k = Some k' \<and> table_ok (ch(par := remove1 p (ch par))) k' \<and>
    proc_list k' = remove1 p (proc_list k) \<and> find_proc (p_pid (procs k p)) k' = None \<and>
    (\<forall>q. p_parent (procs k' q) = p_parent (procs k q) \<and> p_state (procs k' q) = p_state (procs k q) \<and>
       p_pid (procs k' q) = p_pid (procs k q))"
proof -
  from ok have fam: "family (procs k) ch" and hash: "hash_ok k" and pids: "pids_ok k" and
    ch: "\<And>q. set (ch q) = {p \<in> set (proc_list k). p_parent (procs k p) = Some q}" and
    nr: "nr_process k = int (length (proc_list k)) + 1"
    by (auto simp: table_ok_iff)
  have pl: "p \<in> set (proc_list k)" and par: "p_parent (procs k p) = Some par" using p ch by auto
  from remove_links_family [of "unhash_proc p k" ch p par] fam p obtain k' where
    r: "remove_links p (unhash_proc p k) = Some k'" "family (procs k') (ch(par := remove1 p (ch par)))"
      "proc_list k' = remove1 p (proc_list k)" "nr_process k' = nr_process k - 1" and
    q: "\<And>q. p_parent (procs k' q) = p_parent (procs k q)" "\<And>q. p_state (procs k' q) = p_state (procs k q)"
      "\<And>q. p_pid (procs k' q) = p_pid (procs k q)"
    by auto
  note fr = remove_links_frame [OF r(1)]
  have dist: "distinct (proc_list k)" using hash by (simp add: hash_ok_def)
  have set: "set (proc_list k') = set (proc_list k) - {p}" using dist by (simp add: r(3))
  have hash': "hash_ok k'"
    unfolding hash_ok_def
  proof (intro conjI ballI allI)
    show "distinct (proc_list k')" using dist by (simp add: r(3))
    show "inj_on (\<lambda>p. p_pid (procs k' p)) (set (proc_list k'))"
      using hash unfolding hash_ok_def set q by (auto intro: inj_on_subset)
    show "1 \<le> p_pid (procs k' x)" "p_pid (procs k' x) < MAX_PID" if "x \<in> set (proc_list k')" for x
      using that hash unfolding hash_ok_def set q by auto
    fix h
    have d: "distinct (hash_lists k h)" and s: "set (hash_lists k h) =
        {p \<in> set (proc_list k). pid_hashfn (p_pid (procs k p)) = h}"
      using hash by (auto simp: hash_ok_def)
    show "distinct (hash_lists k' h)" using d fr by simp
    show "set (hash_lists k' h) = {x \<in> set (proc_list k'). pid_hashfn (p_pid (procs k' x)) = h}"
      using d s fr unfolding set q by auto
  qed
  moreover have "pids_ok k'" using pids fr unfolding pids_ok_def set q by auto
  moreover have "set ((ch(par := remove1 p (ch par))) x) =
      {y \<in> set (proc_list k'). p_parent (procs k' y) = Some x}" for x
    using ch par family_atD(1) [OF fam [unfolded family_def], of par] unfolding set q by auto
  moreover have "Suc (length (remove1 p (proc_list k))) = length (proc_list k)"
    using pl length_pos_if_in_set [OF pl] by (simp add: length_remove1)
  then have "nr_process k' = int (length (proc_list k')) + 1"
    using r(4) nr unfolding r(3) by linarith
  ultimately have "table_ok (ch(par := remove1 p (ch par))) k'"
    using r(2) by (simp add: table_ok_iff)
  moreover have "find_proc (p_pid (procs k p)) k' \<noteq> Some x" for x
    unfolding find_proc_iff [OF hash'] set q
    using hash pl unfolding hash_ok_def inj_on_def by auto
  ultimately show ?thesis using r(1,3) q by (auto simp: wait_reap_def)
qed

lemma table_at_cong:
  assumes ok: "table_at y ch k"
    and same: "proc_list k' = proc_list k" "hash_lists k' = hash_lists k" "nr_process k' = nr_process k"
      "last_pid k' = last_pid k" "next_safe k' = next_safe k"
    and procs: "\<And>q. q \<in> set (proc_list k) \<Longrightarrow> p_optr (procs k' q) = p_optr (procs k q) \<and>
      p_yptr (procs k' q) = p_yptr (procs k q) \<and> p_parent (procs k' q) = p_parent (procs k q) \<and>
      p_pid (procs k' q) = p_pid (procs k q)"
    and cptr: "\<And>q. p_cptr (procs k' q) = first (ch q)"
  shows "table_at y ch k'"
proof -
  from ok have fam: "family_at y (procs k) ch" and hash: "hash_ok k" and pids: "pids_ok k" and
    ch: "\<And>q. set (ch q) = {p \<in> set (proc_list k). p_parent (procs k p) = Some q}" and
    nr: "nr_process k = int (length (proc_list k)) + 1"
    by (auto simp: table_at_def)
  have in_list: "c \<in> set (ch q) \<Longrightarrow> c \<in> set (proc_list k)" for c q using ch by auto
  have "family_at y (procs k') ch"
  proof (rule family_atI)
    fix q
    note D = family_atD [OF fam, where q = q]
    show "distinct (ch q)" by (rule D)
    show "p_cptr (procs k' q) = first (ch q)" by (rule cptr)
    show "siblings (procs k') (y q) (ch q)"
      using D(3) siblings_cong [of "ch q" "procs k'" "procs k" "y q"] procs in_list by auto
    show "p_parent (procs k' c) = Some q" if "c \<in> set (ch q)" for c
      using D(4) [OF that] procs [OF in_list [OF that]] by simp
  qed
  moreover have "hash_ok k'"
  proof -
    have eq: "{p \<in> set (proc_list k). pid_hashfn (p_pid (procs k' p)) = h} =
        {p \<in> set (proc_list k). pid_hashfn (p_pid (procs k p)) = h}" for h
      using procs by auto
    have "inj_on (\<lambda>p. p_pid (procs k' p)) (set (proc_list k)) =
        inj_on (\<lambda>p. p_pid (procs k p)) (set (proc_list k))"
      by (rule inj_on_cong) (use procs in simp)
    with hash procs show ?thesis by (simp add: hash_ok_def same eq)
  qed
  moreover have "pids_ok k'" using pids procs by (simp add: pids_ok_def same)
  moreover have "set (ch q) = {p \<in> set (proc_list k). p_parent (procs k' p) = Some q}" for q
    using ch procs by auto
  ultimately show ?thesis using nr by (simp add: table_at_def same)
qed

lemmas table_ok_cong = table_at_cong [where y = "\<lambda>_. None", folded table_ok_def]

lemma table_at_cptr: "table_at y ch k \<Longrightarrow> p_cptr (procs k q) = first (ch q)"
  using family_atD(2) unfolding table_at_def by blast

lemma table_at_sched_frame:
  assumes "table_at y ch k" and "sched_frame k k'"
  shows "table_at y ch k'"
  by (rule table_at_cong [OF assms(1)])
    (use assms(2) table_at_cptr [OF assms(1)] in \<open>simp_all add: sched_frame_iff same_but_sched_iff\<close>)

lemma table_at_upd_proc:
  assumes "table_at y ch k"
    and "\<And>q. p_optr (f q) = p_optr q \<and> p_yptr (f q) = p_yptr q \<and> p_parent (f q) = p_parent q \<and>
      p_pid (f q) = p_pid q \<and> p_cptr (f q) = p_cptr q"
  shows "table_at y ch (upd_proc p f k)"
  by (rule table_at_cong [OF assms(1)])
    (use assms(2) table_at_cptr [OF assms(1)] in simp_all)

lemmas table_ok_cptr = table_at_cptr [where y = "\<lambda>_. None", folded table_ok_def]
lemmas table_ok_sched_frame = table_at_sched_frame [where y = "\<lambda>_. None", folded table_ok_def]
lemmas table_ok_upd_proc = table_at_upd_proc [where y = "\<lambda>_. None", folded table_ok_def]

lemma table_ok_new:
  assumes "table_ok ch k" and "p \<notin> set (proc_list k)" and "ch p = []" and "p_cptr (f (procs k p)) = None"
  shows "table_ok ch (upd_proc p f k)"
  by (rule table_ok_cong [OF assms(1)])
    (use assms(2-4) table_ok_cptr [OF assms(1)] in auto)

end
