(* ===== verification/Proc.thy ===== *)
theory Proc
  imports Proc_Table
begin

text \<open>
  Creation, exit, waiting and killing of processes (\<^verbatim>\<open>kern/process/proc.c\<close>). The state
  \<open>pm\<close> adds to the kernel what these functions see of the other subsystems: which address spaces,
  file tables, kernel stacks and process blocks are allocated, and the reference counts of the first
  two. What the allocators and \<^verbatim>\<open>dup_mmap\<close>, \<^verbatim>\<open>dup_files\<close> return in one call of
  \<^verbatim>\<open>do_fork\<close> is the argument \<open>fork_env\<close>: any of them may fail. A function that calls
  \<^verbatim>\<open>schedule\<close> in the middle takes what happens until the process runs again as the argument
  \<open>switch\<close>.
\<close>

section \<open>State\<close>

record pm =
  ker :: kernel
  mms :: "nat set"
  mm_cnt :: "nat \<Rightarrow> int"
  mm_pgdir :: "nat \<Rightarrow> u64"
  fss :: "nat set"
  f_cnt :: "nat \<Rightarrow> int"
  kstacks :: "u64 set"
  pblocks :: "nat set"

record fork_env =
  fe_proc :: "nat option"
  fe_kstack :: "u64 option"
  fe_files :: "nat option"
  fe_dup_files :: int
  fe_mm :: "nat option"
  fe_pgdir :: "u64 option"
  fe_dup_mmap :: int
  fe_boot_cr3 :: u64
  fe_forkret :: u64

definition CLONE_VM :: u32 where "CLONE_VM = 0x00000100"
definition CLONE_FS :: u32 where "CLONE_FS = 0x00000800"
definition KSTACKPAGE :: u64 where "KSTACKPAGE = 2"
definition KSTACKSIZE :: u64 where "KSTACKSIZE = KSTACKPAGE * PGSIZE"

text \<open>\<^verbatim>\<open>sizeof(struct trapframe)\<close>: 36 registers of 8 bytes.\<close>

definition sizeof_trapframe :: u64 where "sizeof_trapframe = 288"

definition upd_ker :: "(kernel \<Rightarrow> kernel) \<Rightarrow> pm \<Rightarrow> pm" where
  "upd_ker f s = s\<lparr>ker := f (ker s)\<rparr>"

lemma upd_ker_simps [simp]:
  "ker (upd_ker f s) = f (ker s)" "mms (upd_ker f s) = mms s" "mm_cnt (upd_ker f s) = mm_cnt s"
  "mm_pgdir (upd_ker f s) = mm_pgdir s" "fss (upd_ker f s) = fss s" "f_cnt (upd_ker f s) = f_cnt s"
  "kstacks (upd_ker f s) = kstacks s" "pblocks (upd_ker f s) = pblocks s"
  by (simp_all add: upd_ker_def)

section \<open>Resources of one process\<close>

definition setup_kstack :: "u64 option \<Rightarrow> nat \<Rightarrow> pm \<Rightarrow> int \<times> pm" where
  "setup_kstack page p s =
     (case page of
        Some kva \<Rightarrow> (0, upd_ker (upd_proc p (\<lambda>q. q\<lparr>p_kstack := kva\<rparr>)) (s\<lparr>kstacks := insert kva (kstacks s)\<rparr>))
      | None \<Rightarrow> (- E_NO_MEM, s))"

definition put_kstack :: "nat \<Rightarrow> pm \<Rightarrow> pm" where
  "put_kstack p s = s\<lparr>kstacks := kstacks s - {p_kstack (procs (ker s) p)}\<rparr>"

definition mm_count_inc :: "nat \<Rightarrow> pm \<Rightarrow> pm" where
  "mm_count_inc m s = s\<lparr>mm_cnt := (mm_cnt s)(m := mm_cnt s m + 1)\<rparr>"

definition mm_count_dec :: "nat \<Rightarrow> pm \<Rightarrow> int \<times> pm" where
  "mm_count_dec m s = (let s = s\<lparr>mm_cnt := (mm_cnt s)(m := mm_cnt s m - 1)\<rparr> in (mm_cnt s m, s))"

text \<open>\<^verbatim>\<open>mm_create\<close> sets the count to 0; \<^verbatim>\<open>mm_destroy\<close> frees the structure.\<close>

definition new_mm :: "nat \<Rightarrow> pm \<Rightarrow> pm" where
  "new_mm m s = s\<lparr>mms := insert m (mms s), mm_cnt := (mm_cnt s)(m := 0)\<rparr>"

definition mm_release :: "nat \<Rightarrow> pm \<Rightarrow> pm" where
  "mm_release m s = s\<lparr>mms := mms s - {m}\<rparr>"

definition setup_pgdir :: "u64 option \<Rightarrow> nat \<Rightarrow> pm \<Rightarrow> int \<times> pm" where
  "setup_pgdir page m s =
     (case page of
        None \<Rightarrow> (- E_NO_MEM, s)
      | Some pa \<Rightarrow> (0, s\<lparr>mm_pgdir := (mm_pgdir s)(m := pa)\<rparr>))"

definition good_mm :: "nat \<Rightarrow> nat \<Rightarrow> pm \<Rightarrow> int \<times> pm" where
  "good_mm m p s =
     (let s = mm_count_inc m s
      in (0, upd_ker (upd_proc p (\<lambda>q. q\<lparr>p_mm := Some m, p_cr3 := mm_pgdir s m\<rparr>)) s))"

definition copy_mm :: "u32 \<Rightarrow> fork_env \<Rightarrow> nat \<Rightarrow> pm \<Rightarrow> int \<times> pm" where
  "copy_mm flags env p s =
     (case p_mm (procs (ker s) (current (ker s))) of
        None \<Rightarrow> (0, s)
      | Some oldmm \<Rightarrow>
          if flags AND CLONE_VM \<noteq> 0 then good_mm oldmm p s
          else (case fe_mm env of
                  None \<Rightarrow> (- E_NO_MEM, s)
                | Some m \<Rightarrow>
                    let s = new_mm m s; (r, s) = setup_pgdir (fe_pgdir env) m s in
                    if r \<noteq> 0 then (- E_NO_MEM, mm_release m s)
                    else if fe_dup_mmap env \<noteq> 0 then (fe_dup_mmap env, mm_release m s)
                    else good_mm m p s))"

definition copy_thread :: "u64 \<Rightarrow> nat \<Rightarrow> u64 \<Rightarrow> trapframe \<Rightarrow> kernel \<Rightarrow> kernel" where
  "copy_thread forkret p esp tf k =
     (let addr = p_kstack (procs k p) + KSTACKSIZE - sizeof_trapframe;
          tf = tf\<lparr>gpr := (gpr tf)(reg_a0 := 0)\<rparr>;
          tf = tf\<lparr>gpr := (gpr tf)(reg_sp := (if esp = 0 then addr else esp))\<rparr>
      in upd_proc p (\<lambda>q. q\<lparr>p_tf := (addr, tf),
           p_context := (p_context q)\<lparr>ctx_ra := forkret, ctx_sp := addr\<rparr>\<rparr>) k)"

definition files_count_inc :: "nat \<Rightarrow> pm \<Rightarrow> pm" where
  "files_count_inc f s = s\<lparr>f_cnt := (f_cnt s)(f := f_cnt s f + 1)\<rparr>"

definition files_count_dec :: "nat \<Rightarrow> pm \<Rightarrow> int \<times> pm" where
  "files_count_dec f s = (let s = s\<lparr>f_cnt := (f_cnt s)(f := f_cnt s f - 1)\<rparr> in (f_cnt s f, s))"

definition new_files :: "nat \<Rightarrow> pm \<Rightarrow> pm" where
  "new_files f s = s\<lparr>fss := insert f (fss s), f_cnt := (f_cnt s)(f := 0)\<rparr>"

definition files_release :: "nat \<Rightarrow> pm \<Rightarrow> pm" where
  "files_release f s = s\<lparr>fss := fss s - {f}\<rparr>"

definition good_files :: "nat \<Rightarrow> nat \<Rightarrow> pm \<Rightarrow> int \<times> pm" where
  "good_files f p s = (0, upd_ker (upd_proc p (\<lambda>q. q\<lparr>p_filesp := Some f\<rparr>)) (files_count_inc f s))"

definition copy_files :: "u32 \<Rightarrow> fork_env \<Rightarrow> nat \<Rightarrow> pm \<Rightarrow> (int \<times> pm) option" where
  "copy_files flags env p s = do {
     old \<leftarrow> p_filesp (procs (ker s) (current (ker s)));
     Some (if flags AND CLONE_FS \<noteq> 0 then good_files old p s
           else (case fe_files env of
                   None \<Rightarrow> (- E_NO_MEM, s)
                 | Some f \<Rightarrow>
                     let s = new_files f s in
                     if fe_dup_files env \<noteq> 0 then (fe_dup_files env, files_release f s)
                     else good_files f p s))
   }"

definition put_files :: "nat \<Rightarrow> pm \<Rightarrow> pm" where
  "put_files p s =
     (case p_filesp (procs (ker s) p) of
        None \<Rightarrow> s
      | Some f \<Rightarrow> let (n, s) = files_count_dec f s in if n = 0 then files_release f s else s)"

section \<open>fork\<close>

definition lift_ker :: "(kernel \<Rightarrow> kernel option) \<Rightarrow> pm \<Rightarrow> pm option" where
  "lift_ker f s = map_option (\<lambda>k. s\<lparr>ker := k\<rparr>) (f (ker s))"

text \<open>
  \<^verbatim>\<open>do_fork\<close> from \<^verbatim>\<open>alloc_proc\<close> to \<^verbatim>\<open>copy_thread\<close>, with the cleanup labels;
  \<open>p\<close> is the block that \<^verbatim>\<open>alloc_proc\<close> got.
\<close>

definition fork_prepare ::
  "u32 \<Rightarrow> u64 \<Rightarrow> trapframe \<Rightarrow> fork_env \<Rightarrow> nat \<Rightarrow> pm \<Rightarrow> (int \<times> pm) option"
where
  "fork_prepare flags stack tf env p s = do {
     let s = s\<lparr>pblocks := insert p (pblocks s)\<rparr>;
     let s = upd_ker (upd_proc p (alloc_proc (fe_boot_cr3 env))) s;
     let s = upd_ker (upd_proc p (\<lambda>q. q\<lparr>p_parent := Some (current (ker s))\<rparr>)) s;
     kassert (p_wait_state (procs (ker s) (current (ker s))) = 0);
     let cleanup_proc = (\<lambda>s. (- E_NO_MEM, s\<lparr>pblocks := pblocks s - {p}\<rparr>));
     let (r, s) = setup_kstack (fe_kstack env) p s;
     if r \<noteq> 0 then Some (cleanup_proc s) else do {
       (r, s) \<leftarrow> copy_files flags env p s;
       if r \<noteq> 0 then Some (cleanup_proc (put_kstack p s)) else do {
         let (r, s) = copy_mm flags env p s;
         if r \<noteq> 0 then Some (cleanup_proc (put_kstack p (put_files p s)))
         else Some (0, upd_ker (copy_thread (fe_forkret env) p stack tf) s)
       }
     }
   }"

definition do_fork ::
  "sched_class \<Rightarrow> u32 \<Rightarrow> u64 \<Rightarrow> trapframe \<Rightarrow> fork_env \<Rightarrow> pm \<Rightarrow> (int \<times> pm) option"
where
  "do_fork sc flags stack tf env s =
     (if nr_process (ker s) \<ge> MAX_PROCESS then Some (- E_NO_FREE_PROC, s)
      else case fe_proc env of
        None \<Rightarrow> Some (- E_NO_MEM, s)
      | Some p \<Rightarrow> do {
          (r, s) \<leftarrow> fork_prepare flags stack tf env p s;
          if r \<noteq> 0 then Some (r, s) else do {
            s \<leftarrow> lift_ker (fork_register p) s;
            s \<leftarrow> lift_ker (wakeup_proc sc p) s;
            Some (p_pid (procs (ker s) p), s)
          }
        })"

section \<open>fork: what a failed call leaves behind, and what a successful one creates\<close>

text \<open>
  Nothing is held that was not held before: the only difference is the content of the block \<open>p\<close>,
  which \<^verbatim>\<open>do_fork\<close> has allocated, filled and freed again.
\<close>

definition same_resources :: "nat \<Rightarrow> pm \<Rightarrow> pm \<Rightarrow> bool" where
  "same_resources p s s' \<longleftrightarrow> (\<exists>x. ker s' = upd_proc p (\<lambda>_. x) (ker s)) \<and>
     mms s' = mms s \<and> fss s' = fss s \<and> kstacks s' = kstacks s \<and> pblocks s' = pblocks s \<and>
     (\<forall>m \<in> mms s. mm_cnt s' m = mm_cnt s m \<and> mm_pgdir s' m = mm_pgdir s m) \<and>
     (\<forall>f \<in> fss s. f_cnt s' f = f_cnt s f)"

text \<open>
  The allocators return blocks that are not in use, the processes of the list and their parents are
  allocated, and the file table of the caller, if it has one, is a live one.
\<close>

definition fork_pre :: "fork_env \<Rightarrow> pm \<Rightarrow> bool" where
  "fork_pre env s \<longleftrightarrow>
     (\<forall>p. fe_proc env = Some p \<longrightarrow> p \<notin> pblocks s) \<and>
     (\<forall>a. fe_kstack env = Some a \<longrightarrow> a \<notin> kstacks s) \<and>
     (\<forall>f. fe_files env = Some f \<longrightarrow> f \<notin> fss s) \<and>
     (\<forall>m. fe_mm env = Some m \<longrightarrow> m \<notin> mms s) \<and>
     current (ker s) \<in> pblocks s \<and> set (proc_list (ker s)) \<subseteq> pblocks s \<and>
     (\<forall>x \<in> set (proc_list (ker s)). \<forall>q. p_parent (procs (ker s) x) = Some q \<longrightarrow> q \<in> pblocks s) \<and>
     (\<forall>f. p_filesp (procs (ker s) (current (ker s))) = Some f \<longrightarrow> f \<in> fss s \<and> 0 < f_cnt s f)"

text \<open>
  The conditions of the two assertions on the way: the caller's wait state, and in
  \<^verbatim>\<open>copy_files\<close>, which is reached with a kernel stack, its file table.
\<close>

definition fork_asserts :: "fork_env \<Rightarrow> pm \<Rightarrow> bool" where
  "fork_asserts env s \<longleftrightarrow> p_wait_state (procs (ker s) (current (ker s))) = 0 \<and>
     (fe_kstack env \<noteq> None \<longrightarrow> p_filesp (procs (ker s) (current (ker s))) \<noteq> None)"

text \<open>Every allocation that these flags ask for, after that of the block, succeeds.\<close>

definition files_granted :: "u32 \<Rightarrow> fork_env \<Rightarrow> bool" where
  "files_granted flags env \<longleftrightarrow>
     flags AND CLONE_FS \<noteq> 0 \<or> fe_files env \<noteq> None \<and> fe_dup_files env = 0"

definition mm_granted :: "u32 \<Rightarrow> fork_env \<Rightarrow> pm \<Rightarrow> bool" where
  "mm_granted flags env s \<longleftrightarrow>
     p_mm (procs (ker s) (current (ker s))) = None \<or> flags AND CLONE_VM \<noteq> 0 \<or>
     fe_mm env \<noteq> None \<and> fe_pgdir env \<noteq> None \<and> fe_dup_mmap env = 0"

definition fork_granted :: "u32 \<Rightarrow> fork_env \<Rightarrow> pm \<Rightarrow> bool" where
  "fork_granted flags env s \<longleftrightarrow>
     fe_kstack env \<noteq> None \<and> files_granted flags env \<and> mm_granted flags env s"

lemma upd_proc_const: "upd_proc p f k = upd_proc p (\<lambda>_. f (procs k p)) k"
  by (simp add: upd_proc_def)

lemma upd_proc_upd [simp]: "upd_proc p f (upd_proc p g k) = upd_proc p (\<lambda>q. f (g q)) k"
  by (simp add: upd_proc_def)

lemma copy_files_spec:
  assumes cur: "p_filesp (procs (ker s) (current (ker s))) = Some f0" "f0 \<in> fss s" "0 < f_cnt s f0"
    and fresh: "\<forall>f. fe_files env = Some f \<longrightarrow> f \<notin> fss s" and p: "p \<noteq> current (ker s)"
  shows "\<exists>r s'. copy_files flags env p s = Some (r, s') \<and> (r = 0 \<longleftrightarrow> files_granted flags env) \<and>
    mms s' = mms s \<and> mm_cnt s' = mm_cnt s \<and>
    mm_pgdir s' = mm_pgdir s \<and> kstacks s' = kstacks s \<and> pblocks s' = pblocks s \<and>
    (if r \<noteq> 0 then ker s' = ker s \<and> fss s' = fss s \<and> (\<forall>f \<in> fss s. f_cnt s' f = f_cnt s f)
     else \<exists>f. ker s' = upd_proc p (\<lambda>q. q\<lparr>p_filesp := Some f\<rparr>) (ker s) \<and> fss s' = insert f (fss s) \<and>
       f_cnt s' f = (if f \<in> fss s then f_cnt s f + 1 else 1) \<and>
       (f \<in> fss s \<longrightarrow> 0 < f_cnt s f) \<and> (\<forall>g \<in> fss s. g \<noteq> f \<longrightarrow> f_cnt s' g = f_cnt s g))"
proof (cases "flags AND CLONE_FS \<noteq> 0")
  case True
  with cur show ?thesis
    by (auto simp: copy_files_def files_granted_def good_files_def files_count_inc_def)
next
  case False
  with cur fresh show ?thesis
    by (cases "fe_files env")
      (auto simp: copy_files_def files_granted_def good_files_def files_count_inc_def new_files_def files_release_def
        Let_def E_NO_MEM_def)
qed

lemma copy_mm_spec:
  assumes fresh: "\<forall>m. fe_mm env = Some m \<longrightarrow> m \<notin> mms s"
  shows "\<exists>r s'. copy_mm flags env p s = (r, s') \<and> (r = 0 \<longleftrightarrow> mm_granted flags env s) \<and>
    fss s' = fss s \<and> f_cnt s' = f_cnt s \<and>
    kstacks s' = kstacks s \<and> pblocks s' = pblocks s \<and>
    (if r \<noteq> 0 then ker s' = ker s \<and> mms s' = mms s \<and>
       (\<forall>m \<in> mms s. mm_cnt s' m = mm_cnt s m \<and> mm_pgdir s' m = mm_pgdir s m)
     else case p_mm (procs (ker s) (current (ker s))) of
       None \<Rightarrow> s' = s
     | Some old \<Rightarrow> \<exists>m. ker s' = upd_proc p (\<lambda>q. q\<lparr>p_mm := Some m, p_cr3 := mm_pgdir s' m\<rparr>) (ker s) \<and>
         (if flags AND CLONE_VM \<noteq> 0 then m = old \<and> mms s' = mms s \<and> mm_cnt s' m = mm_cnt s m + 1
          else m \<notin> mms s \<and> mms s' = insert m (mms s) \<and> mm_cnt s' m = 1) \<and>
         (\<forall>m' \<in> mms s. m' \<noteq> m \<longrightarrow> mm_cnt s' m' = mm_cnt s m'))"
proof (cases "p_mm (procs (ker s) (current (ker s)))")
  case None
  then show ?thesis by (simp add: copy_mm_def mm_granted_def)
next
  case (Some old)
  then show ?thesis
    using fresh by (cases "fe_mm env"; cases "fe_pgdir env")
      (auto simp: copy_mm_def mm_granted_def good_mm_def mm_count_inc_def new_mm_def setup_pgdir_def mm_release_def
        Let_def E_NO_MEM_def)
qed

text \<open>The new process as the critical section of \<^verbatim>\<open>do_fork\<close> finds it.\<close>

definition new_child :: "pm \<Rightarrow> trapframe \<Rightarrow> u64 \<Rightarrow> proc_struct \<Rightarrow> bool" where
  "new_child s tf stack x \<longleftrightarrow> p_state x = PROC_UNINIT \<and> p_cptr x = None \<and>
     p_parent x = Some (current (ker s)) \<and> p_wait_state x = 0 \<and> p_flags x = 0 \<and>
     p_kstack x \<notin> kstacks s \<and> p_filesp x \<noteq> None \<and>
     (p_mm (procs (ker s) (current (ker s))) = None \<longleftrightarrow> p_mm x = None) \<and>
     fst (p_tf x) = p_kstack x + KSTACKSIZE - sizeof_trapframe \<and>
     snd (p_tf x) = tf\<lparr>gpr := (gpr tf)(reg_a0 := 0, reg_sp := (if stack = 0 then fst (p_tf x) else stack))\<rparr> \<and>
     ctx_sp (p_context x) = fst (p_tf x)"

definition counts_grow :: "pm \<Rightarrow> pm \<Rightarrow> proc_struct \<Rightarrow> bool" where
  "counts_grow s s' x \<longleftrightarrow>
     (\<forall>f. p_filesp x = Some f \<longrightarrow> fss s' = insert f (fss s) \<and>
        f_cnt s' f = (if f \<in> fss s then f_cnt s f + 1 else 1) \<and>
        (\<forall>g \<in> fss s. g \<noteq> f \<longrightarrow> f_cnt s' g = f_cnt s g)) \<and>
     (\<forall>m. p_mm x = Some m \<longrightarrow> mms s' = insert m (mms s) \<and>
        mm_cnt s' m = (if m \<in> mms s then mm_cnt s m + 1 else 1) \<and> p_cr3 x = mm_pgdir s' m \<and>
        (\<forall>m' \<in> mms s. m' \<noteq> m \<longrightarrow> mm_cnt s' m' = mm_cnt s m'))"

text \<open>An assertion that fails is the only way not to return.\<close>

lemma fork_prepare_panics:
  assumes "\<not> fork_asserts env s" and "p \<noteq> current (ker s)"
  shows "fork_prepare flags stack tf env p s = None"
proof (cases "p_wait_state (procs (ker s) (current (ker s))) = 0")
  case False
  with assms(2) show ?thesis by (simp add: fork_prepare_def Let_def)
next
  case True
  with assms obtain a where "fe_kstack env = Some a"
    "p_filesp (procs (ker s) (current (ker s))) = None" by (auto simp: fork_asserts_def)
  with True assms(2) show ?thesis
    by (simp add: fork_prepare_def Let_def setup_kstack_def copy_files_def)
qed

lemma fork_prepare_spec:
  assumes pre: "fork_pre env s" and p: "fe_proc env = Some p" and as: "fork_asserts env s"
    and mm: "\<forall>m. p_mm (procs (ker s) (current (ker s))) = Some m \<longrightarrow> m \<in> mms s"
  shows "\<exists>r s'. fork_prepare flags stack tf env p s = Some (r, s') \<and>
    (r = 0 \<longleftrightarrow> fork_granted flags env s) \<and>
    (if r \<noteq> 0 then r = - E_NO_MEM \<and> same_resources p s s'
     else \<exists>x. ker s' = upd_proc p (\<lambda>_. x) (ker s) \<and> new_child s tf stack x \<and> counts_grow s s' x \<and>
       pblocks s' = insert p (pblocks s) \<and> kstacks s' = insert (p_kstack x) (kstacks s))"
proof -
  let ?c = "current (ker s)"
  have np: "p \<notin> pblocks s" "p \<noteq> ?c" using pre p by (auto simp: fork_pre_def)
  have ws: "p_wait_state (procs (ker s) ?c) = 0" using as by (simp add: fork_asserts_def)
  have ff: "\<forall>f. fe_files env = Some f \<longrightarrow> f \<notin> fss s" and fm: "\<forall>m. fe_mm env = Some m \<longrightarrow> m \<notin> mms s"
    and fk: "\<forall>a. fe_kstack env = Some a \<longrightarrow> a \<notin> kstacks s"
    using pre by (auto simp: fork_pre_def)
  define x1 where "x1 = (alloc_proc (fe_boot_cr3 env) (procs (ker s) p))\<lparr>p_parent := Some ?c\<rparr>"
  define s1 where "s1 = s\<lparr>pblocks := insert p (pblocks s), ker := upd_proc p (\<lambda>_. x1) (ker s)\<rparr>"
  have s1: "upd_ker (upd_proc p (\<lambda>q. q\<lparr>p_parent := Some (current (ker s))\<rparr>))
      (upd_ker (upd_proc p (alloc_proc (fe_boot_cr3 env))) (s\<lparr>pblocks := insert p (pblocks s)\<rparr>)) = s1"
    by (simp add: s1_def x1_def upd_ker_def upd_proc_def)
  have s1b: "pblocks s1 = insert p (pblocks s)" by (simp add: s1_def)
  have x1: "p_state x1 = PROC_UNINIT" "p_cptr x1 = None" "p_parent x1 = Some ?c" "p_wait_state x1 = 0"
    "p_flags x1 = 0" "p_mm x1 = None" by (simp_all add: x1_def alloc_proc_def)
  show ?thesis
  proof (cases "fe_kstack env")
    case None
    then have "fork_prepare flags stack tf env p s =
        Some (- E_NO_MEM, s1\<lparr>pblocks := pblocks s1 - {p}\<rparr>)"
      using np ws s1 None by (simp add: fork_prepare_def setup_kstack_def Let_def E_NO_MEM_def s1b)
    moreover have "same_resources p s (s1\<lparr>pblocks := pblocks s1 - {p}\<rparr>)"
      using np by (auto simp: same_resources_def s1_def)
    ultimately show ?thesis using None by (simp add: E_NO_MEM_def fork_granted_def)
  next
    case (Some a)
    with as obtain f0 where "p_filesp (procs (ker s) ?c) = Some f0" by (auto simp: fork_asserts_def)
    with pre have f0: "p_filesp (procs (ker s) ?c) = Some f0" "f0 \<in> fss s" "0 < f_cnt s f0"
      by (auto simp: fork_pre_def)
    define s2 where "s2 = upd_ker (upd_proc p (\<lambda>q. q\<lparr>p_kstack := a\<rparr>)) (s1\<lparr>kstacks := insert a (kstacks s1)\<rparr>)"
    have k2: "setup_kstack (fe_kstack env) p s1 = (0, s2)" by (simp add: setup_kstack_def Some s2_def)
    have ker2: "ker s2 = upd_proc p (\<lambda>_. x1\<lparr>p_kstack := a\<rparr>) (ker s)"
      by (simp add: s2_def s1_def)
    have f2: "mms s2 = mms s" "fss s2 = fss s" "f_cnt s2 = f_cnt s" "mm_cnt s2 = mm_cnt s"
      "mm_pgdir s2 = mm_pgdir s" "kstacks s2 = insert a (kstacks s)" "pblocks s2 = insert p (pblocks s)"
      by (simp_all add: s2_def s1_def)
    have c2: "current (ker s2) = ?c" "procs (ker s2) ?c = procs (ker s) ?c" using np by (simp_all add: ker2)
    from copy_files_spec [of s2 f0 env p flags, unfolded c2 f2, OF f0 ff np(2)] obtain r3 s3 where
      cf: "copy_files flags env p s2 = Some (r3, s3)" and g3: "r3 = 0 \<longleftrightarrow> files_granted flags env" and
      s3: "mms s3 = mms s" "mm_cnt s3 = mm_cnt s" "mm_pgdir s3 = mm_pgdir s"
        "kstacks s3 = insert a (kstacks s)" "pblocks s3 = insert p (pblocks s)" and
      r3: "if r3 \<noteq> 0 then ker s3 = ker s2 \<and> fss s3 = fss s \<and> (\<forall>f \<in> fss s. f_cnt s3 f = f_cnt s f)
       else \<exists>f. ker s3 = upd_proc p (\<lambda>q. q\<lparr>p_filesp := Some f\<rparr>) (ker s2) \<and> fss s3 = insert f (fss s) \<and>
         f_cnt s3 f = (if f \<in> fss s then f_cnt s f + 1 else 1) \<and>
         (f \<in> fss s \<longrightarrow> 0 < f_cnt s f) \<and> (\<forall>g \<in> fss s. g \<noteq> f \<longrightarrow> f_cnt s3 g = f_cnt s g)"
      by blast
    show ?thesis
    proof (cases "r3 = 0")
      case False
      define s' where "s' = (put_kstack p s3)\<lparr>pblocks := pblocks s3 - {p}\<rparr>"
      have "fork_prepare flags stack tf env p s = Some (- E_NO_MEM, s')"
        using False ws np(2) s1 k2 cf by (simp add: fork_prepare_def Let_def s'_def put_kstack_def)
      moreover have "same_resources p s s'"
        using False r3 s3 ker2 Some fk np by (auto simp: same_resources_def s'_def put_kstack_def)
      ultimately show ?thesis using False g3 by (simp add: E_NO_MEM_def fork_granted_def)
    next
      case True
      with r3 obtain f where f: "ker s3 = upd_proc p (\<lambda>q. q\<lparr>p_filesp := Some f\<rparr>) (ker s2)"
        "fss s3 = insert f (fss s)" "f_cnt s3 f = (if f \<in> fss s then f_cnt s f + 1 else 1)"
        "f \<in> fss s \<longrightarrow> 0 < f_cnt s f" "\<forall>g \<in> fss s. g \<noteq> f \<longrightarrow> f_cnt s3 g = f_cnt s g" by auto
      define x3 where "x3 = x1\<lparr>p_kstack := a, p_filesp := Some f\<rparr>"
      have ker3: "ker s3 = upd_proc p (\<lambda>_. x3) (ker s)" by (simp add: f(1) ker2 x3_def)
      have c3: "current (ker s3) = ?c" "procs (ker s3) ?c = procs (ker s) ?c" using np by (simp_all add: ker3)
      from copy_mm_spec [of env s3 flags p] fm s3(1) obtain r4 s4 where
        cm: "copy_mm flags env p s3 = (r4, s4)" and g4: "r4 = 0 \<longleftrightarrow> mm_granted flags env s3" and
        s4: "fss s4 = fss s3" "f_cnt s4 = f_cnt s3" "kstacks s4 = kstacks s3" "pblocks s4 = pblocks s3" and
        r4: "if r4 \<noteq> 0 then ker s4 = ker s3 \<and> mms s4 = mms s3 \<and>
         (\<forall>m \<in> mms s3. mm_cnt s4 m = mm_cnt s3 m \<and> mm_pgdir s4 m = mm_pgdir s3 m)
       else case p_mm (procs (ker s) ?c) of
         None \<Rightarrow> s4 = s3
       | Some old \<Rightarrow> \<exists>m. ker s4 = upd_proc p (\<lambda>q. q\<lparr>p_mm := Some m, p_cr3 := mm_pgdir s4 m\<rparr>) (ker s3) \<and>
           (if flags AND CLONE_VM \<noteq> 0 then m = old \<and> mms s4 = mms s3 \<and> mm_cnt s4 m = mm_cnt s3 m + 1
            else m \<notin> mms s3 \<and> mms s4 = insert m (mms s3) \<and> mm_cnt s4 m = 1) \<and>
           (\<forall>m' \<in> mms s3. m' \<noteq> m \<longrightarrow> mm_cnt s4 m' = mm_cnt s3 m')"
        unfolding c3 by blast
      have granted: "fork_granted flags env s \<longleftrightarrow> r4 = 0"
        using g3 g4 True Some c3 by (simp add: fork_granted_def mm_granted_def)
      show ?thesis
      proof (cases "r4 = 0")
        case False
        define s' where "s' = (put_kstack p (put_files p s4))\<lparr>pblocks := pblocks s4 - {p}\<rparr>"
        have fp: "p_filesp (procs (ker s4) p) = Some f" "p_kstack (procs (ker s4) p) = a"
          using False r4 ker3 by (simp_all add: x3_def)
        have ker4: "ker s4 = upd_proc p (\<lambda>_. x3) (ker s)" using False r4 ker3 by simp
        have "fork_prepare flags stack tf env p s = Some (- E_NO_MEM, s')"
          using False ws np(2) s1 k2 cf \<open>r3 = 0\<close> cm fp
          by (simp add: fork_prepare_def Let_def s'_def put_kstack_def put_files_def
              files_count_dec_def files_release_def)
        moreover have "same_resources p s s'"
          unfolding same_resources_def
        proof
          have "ker s' = ker s4"
            using fp by (simp add: s'_def put_kstack_def put_files_def files_count_dec_def files_release_def)
          with ker4 show "\<exists>x. ker s' = upd_proc p (\<lambda>_. x) (ker s)" by auto
          have "mms s4 = mms s3" "\<forall>m \<in> mms s. mm_cnt s4 m = mm_cnt s m \<and> mm_pgdir s4 m = mm_pgdir s m"
            using False r4 s3 by simp_all
          then show "mms s' = mms s \<and> fss s' = fss s \<and> kstacks s' = kstacks s \<and> pblocks s' = pblocks s \<and>
              (\<forall>m \<in> mms s. mm_cnt s' m = mm_cnt s m \<and> mm_pgdir s' m = mm_pgdir s m) \<and>
              (\<forall>f \<in> fss s. f_cnt s' f = f_cnt s f)"
            using s3 s4 f(2-5) fp Some fk np
            by (auto simp: s'_def put_kstack_def put_files_def files_count_dec_def
                files_release_def Let_def)
        qed
        ultimately show ?thesis using False granted by (simp add: E_NO_MEM_def)
      next
        case True
        define s' where "s' = upd_ker (copy_thread (fe_forkret env) p stack tf) s4"
        have "fork_prepare flags stack tf env p s = Some (0, s')"
          using True ws np(2) s1 k2 cf \<open>r3 = 0\<close> cm by (simp add: fork_prepare_def Let_def s'_def)
        moreover have "\<exists>x. ker s' = upd_proc p (\<lambda>_. x) (ker s) \<and> new_child s tf stack x \<and>
            counts_grow s s' x \<and> pblocks s' = insert p (pblocks s) \<and>
            kstacks s' = insert (p_kstack x) (kstacks s)"
        proof -
          let ?om = "p_mm (procs (ker s) ?c)"
          obtain y where y: "ker s4 = upd_proc p (\<lambda>_. y) (ker s)"
            and yf: "p_kstack y = a" "p_filesp y = Some f" "p_state y = PROC_UNINIT" "p_cptr y = None"
              "p_parent y = Some ?c" "p_wait_state y = 0" "p_flags y = 0" "?om = None \<longleftrightarrow> p_mm y = None"
            and ym: "\<forall>m. p_mm y = Some m \<longrightarrow> mms s4 = insert m (mms s) \<and>
              mm_cnt s4 m = (if m \<in> mms s then mm_cnt s m + 1 else 1) \<and> p_cr3 y = mm_pgdir s4 m \<and>
              (\<forall>m' \<in> mms s. m' \<noteq> m \<longrightarrow> mm_cnt s4 m' = mm_cnt s m')"
          proof (cases ?om)
            case None
            with True r4 show thesis
              by (intro that [of x3]) (simp_all add: ker3 x3_def x1)
          next
            case (Some old)
            with True r4 obtain m where m: "ker s4 = upd_proc p (\<lambda>q. q\<lparr>p_mm := Some m, p_cr3 := mm_pgdir s4 m\<rparr>) (ker s3)"
              "if flags AND CLONE_VM \<noteq> 0 then m = old \<and> mms s4 = mms s3 \<and> mm_cnt s4 m = mm_cnt s3 m + 1
                else m \<notin> mms s3 \<and> mms s4 = insert m (mms s3) \<and> mm_cnt s4 m = 1"
              "\<forall>m' \<in> mms s3. m' \<noteq> m \<longrightarrow> mm_cnt s4 m' = mm_cnt s3 m'" by auto
            with Some mm s3 show thesis
              by (intro that [of "x3\<lparr>p_mm := Some m, p_cr3 := mm_pgdir s4 m\<rparr>"])
                (auto simp: ker3 x3_def x1 split: if_splits)
          qed
          define x where "x = procs (ker s') p"
          have x: "ker s' = upd_proc p (\<lambda>_. x) (ker s)"
            by (simp add: x_def s'_def copy_thread_def Let_def y)
          moreover have "new_child s tf stack x"
            using yf fk Some by (simp add: new_child_def x_def s'_def copy_thread_def Let_def y)
          moreover have "counts_grow s s' x"
            using yf ym f s4 by (simp add: counts_grow_def x_def s'_def copy_thread_def Let_def y)
          ultimately show ?thesis
            using s3 s4 yf by (intro exI [of _ x]) (simp add: s'_def x_def copy_thread_def Let_def y)
        qed
        ultimately show ?thesis using True granted by (intro exI [of _ 0] exI [of _ s']) simp
      qed
    qed
  qed
qed

text \<open>What a successful fork has done, with \<open>p\<close> the new process.\<close>

definition forked :: "pm \<Rightarrow> trapframe \<Rightarrow> u64 \<Rightarrow> nat \<Rightarrow> int \<Rightarrow> pm \<Rightarrow> bool" where
  "forked s tf stack p pid s' \<longleftrightarrow>
     proc_list (ker s') = p # proc_list (ker s) \<and> 1 \<le> pid \<and> p_pid (procs (ker s') p) = pid \<and>
     p_state (procs (ker s') p) = PROC_RUNNABLE \<and>
     p_parent (procs (ker s') p) = Some (current (ker s)) \<and>
     gpr (snd (p_tf (procs (ker s') p))) reg_a0 = 0 \<and>
     counts_grow s s' (procs (ker s') p) \<and>
     pblocks s' = insert p (pblocks s) \<and>
     kstacks s' = insert (p_kstack (procs (ker s') p)) (kstacks s) \<and>
     current (ker s') = current (ker s) \<and> idleproc (ker s') = idleproc (ker s)"

lemma set_links_other:
  "set_links p k = Some k' \<Longrightarrow> current k' = current k \<and> idleproc k' = idleproc k \<and> rq k' = rq k \<and>
     (\<forall>q. p_tf (procs k' q) = p_tf (procs k q) \<and> p_filesp (procs k' q) = p_filesp (procs k q) \<and>
       p_mm (procs k' q) = p_mm (procs k q) \<and> p_cr3 (procs k' q) = p_cr3 (procs k q) \<and>
       p_kstack (procs k' q) = p_kstack (procs k q) \<and> p_stride (procs k' q) = p_stride (procs k q))"
  by (auto simp: set_links_def Let_def option_bind_eq_Some split: option.splits)

lemma get_pid_other: "get_pid k = Some (pid, k') \<Longrightarrow> k' = k\<lparr>last_pid := last_pid k', next_safe := next_safe k'\<rparr>"
  by (auto simp: get_pid_def option_bind_eq_Some Let_def)

lemma fork_register_other:
  assumes "fork_register p k = Some k'"
  shows "current k' = current k" and "idleproc k' = idleproc k" and "rq k' = rq k"
    and "p_tf (procs k' q) = p_tf (procs k q)" and "p_filesp (procs k' q) = p_filesp (procs k q)"
    and "p_mm (procs k' q) = p_mm (procs k q)" and "p_cr3 (procs k' q) = p_cr3 (procs k q)"
    and "p_kstack (procs k' q) = p_kstack (procs k q)"
proof -
  from assms obtain pid k1 k2 where g: "get_pid k = Some (pid, k1)" and
    s: "set_links p (upd_proc p (\<lambda>q. q\<lparr>p_pid := pid\<rparr>) k1) = Some k2" and k': "k' = hash_proc p k2"
    by (auto simp: fork_register_def option_bind_eq_Some Let_def)
  note o = set_links_other [OF s]
  from get_pid_other [OF g] obtain a b where k1: "k1 = k\<lparr>last_pid := a, next_safe := b\<rparr>" by blast
  show "current k' = current k" "idleproc k' = idleproc k" "rq k' = rq k"
    "p_tf (procs k' q) = p_tf (procs k q)" "p_filesp (procs k' q) = p_filesp (procs k q)"
    "p_mm (procs k' q) = p_mm (procs k q)" "p_cr3 (procs k' q) = p_cr3 (procs k q)"
    "p_kstack (procs k' q) = p_kstack (procs k q)"
    using o by (auto simp: k' k1 hash_proc_def Let_def)
qed

lemma do_fork_success:
  assumes prep: "fork_prepare flags stack tf env p s = Some (0, s1)" and
    ker1: "ker s1 = upd_proc p (\<lambda>_. x) (ker s)" and child: "new_child s tf stack x" and
    cg: "counts_grow s s1 x" "pblocks s1 = insert p (pblocks s)" "kstacks s1 = insert (p_kstack x) (kstacks s)"
    and p: "fe_proc env = Some p" "p \<notin> set (proc_list (ker s))" "p \<noteq> current (ker s)" "ch p = []"
    and tab: "table_ok ch (ker s)" and n: "nr_process (ker s) < MAX_PROCESS"
    and sch: "sched_ok stride_ready stride_inv L (ker s)" "p \<notin> L"
  shows "\<exists>pid s'. do_fork stride_sched_class flags stack tf env s = Some (pid, s') \<and>
    table_ok (ch(current (ker s) := p # ch (current (ker s)))) (ker s') \<and>
    sched_ok stride_ready stride_inv (insert p L) (ker s') \<and> forked s tf stack p pid s'"
proof -
  let ?c = "current (ker s)"
  have x: "p_state x = PROC_UNINIT" "p_cptr x = None" "p_parent x = Some ?c"
    "gpr (snd (p_tf x)) reg_a0 = 0" "p_filesp x \<noteq> None"
    using child by (auto simp: new_child_def reg_a0_def reg_sp_def)
  have tab1: "table_ok ch (ker s1)"
    unfolding ker1 by (rule table_ok_new [OF tab p(2,4)]) (rule x(2))
  from fork_register_ok [OF tab1, of p ?c] obtain k2 where
    r: "fork_register p (ker s1) = Some k2" "table_ok (ch(?c := p # ch ?c)) k2" "1 \<le> p_pid (procs k2 p)"
      "proc_list k2 = p # proc_list (ker s1)" and
    rq: "\<And>q. p_parent (procs k2 q) = p_parent (procs (ker s1) q)"
      "\<And>q. p_state (procs k2 q) = p_state (procs (ker s1) q)"
    using x p n by (auto simp: ker1)
  note o = fork_register_other [OF r(1)]
  have "sched_ok stride_ready stride_inv (insert p L) k2"
    using sch o(1-3) x by (auto simp: sched_ok_def stride_ready_def stride_inv_def ker1 rq)
  from stride.wakeup_proc_spec [OF this, of p] obtain k3 where
    w: "wakeup_proc stride_sched_class p k2 = Some k3" "sched_ok stride_ready stride_inv (insert p L) k3" and
    fr: "sched_frame (upd_proc p (\<lambda>q. q\<lparr>p_state := PROC_RUNNABLE, p_wait_state := 0\<rparr>) k2) k3"
    using x by (auto simp: ker1 rq)
  define s' where "s' = s1\<lparr>ker := k3\<rparr>"
  have "do_fork stride_sched_class flags stack tf env s = Some (p_pid (procs k3 p), s')"
    using n p(1) prep r(1) w(1) by (simp add: do_fork_def lift_ker_def s'_def)
  moreover have "table_ok (ch(?c := p # ch ?c)) (ker s')"
    unfolding s'_def using table_ok_sched_frame [OF table_ok_upd_proc [OF r(2)] fr] by simp
  moreover have "sched_ok stride_ready stride_inv (insert p L) (ker s')"
    using w(2) by (simp add: s'_def)
  moreover have "forked s tf stack p (p_pid (procs k3 p)) s'"
  proof -
    have y: "p_state (procs k3 p) = PROC_RUNNABLE" "p_pid (procs k3 p) = p_pid (procs k2 p)"
      "p_parent (procs k3 p) = Some ?c" "p_tf (procs k3 p) = p_tf x" "p_filesp (procs k3 p) = p_filesp x"
      "p_mm (procs k3 p) = p_mm x" "p_cr3 (procs k3 p) = p_cr3 x" "p_kstack (procs k3 p) = p_kstack x"
      "proc_list k3 = p # proc_list (ker s)" "current k3 = ?c" "idleproc k3 = idleproc (ker s)"
      using fr o rq x r(4) unfolding sched_frame_iff same_but_sched_iff by (auto simp: ker1)
    then show ?thesis
      using r(3) x cg by (simp add: forked_def s'_def counts_grow_def)
  qed
  ultimately show ?thesis by blast
qed

lemma do_fork_spec:
  assumes pre: "fork_pre env s" and mm: "\<forall>m. p_mm (procs (ker s) (current (ker s))) = Some m \<longrightarrow> m \<in> mms s"
    and tab: "table_ok ch (ker s)" and sch: "sched_ok stride_ready stride_inv L (ker s)" "L \<subseteq> pblocks s"
    and n: "nr_process (ker s) < MAX_PROCESS" and p: "fe_proc env = Some p"
  shows "if \<not> fork_asserts env s then do_fork stride_sched_class flags stack tf env s = None
    else if fork_granted flags env s then
      \<exists>pid s'. do_fork stride_sched_class flags stack tf env s = Some (pid, s') \<and>
        table_ok (ch(current (ker s) := p # ch (current (ker s)))) (ker s') \<and>
        sched_ok stride_ready stride_inv (insert p L) (ker s') \<and> forked s tf stack p pid s'
    else \<exists>s'. do_fork stride_sched_class flags stack tf env s = Some (- E_NO_MEM, s') \<and>
        same_resources p s s'"
proof (cases "fork_asserts env s")
  case False
  have "p \<noteq> current (ker s)" using pre p by (auto simp: fork_pre_def)
  from fork_prepare_panics [OF False this] False n p show ?thesis by (simp add: do_fork_def)
next
  case as: True
  from fork_prepare_spec [OF pre p as mm] obtain r s1 where
    f: "fork_prepare flags stack tf env p s = Some (r, s1)" and g: "r = 0 \<longleftrightarrow> fork_granted flags env s" and
    c: "if r \<noteq> 0 then r = - E_NO_MEM \<and> same_resources p s s1
     else \<exists>x. ker s1 = upd_proc p (\<lambda>_. x) (ker s) \<and> new_child s tf stack x \<and> counts_grow s s1 x \<and>
       pblocks s1 = insert p (pblocks s) \<and> kstacks s1 = insert (p_kstack x) (kstacks s)" by blast
  show ?thesis
  proof (cases "r = 0")
    case False
    with c f g as p n show ?thesis by (auto simp: do_fork_def)
  next
    case True
    have np: "p \<notin> pblocks s" "p \<notin> set (proc_list (ker s))" "p \<noteq> current (ker s)" "p \<notin> L"
      using pre p sch(2) by (auto simp: fork_pre_def)
    have "set (ch p) = {}"
      using tab pre np(1) unfolding table_ok_iff fork_pre_def by auto
    then have chp: "ch p = []" by simp
    from c True obtain x where x: "ker s1 = upd_proc p (\<lambda>_. x) (ker s)" "new_child s tf stack x"
      "counts_grow s s1 x" "pblocks s1 = insert p (pblocks s)" "kstacks s1 = insert (p_kstack x) (kstacks s)"
      by auto
    from do_fork_success [OF f [unfolded True] x p np(2,3) chp tab n sch(1) np(4)] as g True
    show ?thesis by simp
  qed
qed

end
