(* ===== verification/Sync.thy ===== *)
theory Sync
  imports Sched_Policy
begin

text \<open>
  Wait queues (\<^verbatim>\<open>kern/sync/wait.c\<close>) and semaphores (\<^verbatim>\<open>kern/sync/sem.c\<close>). A wait queue
  is the list of the waits linked in it, first to last; a semaphore at address \<open>q\<close> is the value
  \<open>sem_value k q\<close> and the wait queue \<open>wqueues k q\<close>. A function that calls
  \<^verbatim>\<open>schedule\<close> in the middle takes an argument \<open>switch\<close> for what the machine does from that
  call until the process runs again. \<open>sem_ok\<close> is the invariant of a semaphore: its value is not
  negative and is zero while processes wait, and each waiter sleeps uninterruptibly.
\<close>

section \<open>Wait queues\<close>

definition upd_wait :: "nat \<Rightarrow> (kwait \<Rightarrow> kwait) \<Rightarrow> kernel \<Rightarrow> kernel" where
  "upd_wait w f k = k\<lparr>waits := (waits k)(w := f (waits k w))\<rparr>"

definition upd_wqueue :: "nat \<Rightarrow> (nat list \<Rightarrow> nat list) \<Rightarrow> kernel \<Rightarrow> kernel" where
  "upd_wqueue q f k = k\<lparr>wqueues := (wqueues k)(q := f (wqueues k q))\<rparr>"

definition upd_sem :: "nat \<Rightarrow> (int \<Rightarrow> int) \<Rightarrow> kernel \<Rightarrow> kernel" where
  "upd_sem q f k = k\<lparr>sem_value := (sem_value k)(q := f (sem_value k q))\<rparr>"

lemmas wait_updates = upd_wait_def upd_wqueue_def upd_sem_def

text \<open>An entry is linked when the queue it names holds it.\<close>

definition wait_in_queue :: "nat \<Rightarrow> kernel \<Rightarrow> bool" where
  "wait_in_queue w k \<longleftrightarrow> w \<in> set (wqueues k (w_queue (waits k w)))"

definition wait_init :: "nat \<Rightarrow> nat \<Rightarrow> kernel \<Rightarrow> kernel" where
  "wait_init w p = upd_wait w (\<lambda>x. x\<lparr>w_proc := Some p, w_flags := WT_INTERRUPTED\<rparr>)"

definition wait_queue_init :: "nat \<Rightarrow> kernel \<Rightarrow> kernel" where
  "wait_queue_init q = upd_wqueue q (\<lambda>_. [])"

definition wait_queue_add :: "nat \<Rightarrow> nat \<Rightarrow> kernel \<Rightarrow> kernel option" where
  "wait_queue_add q w k = do {
     kassert (\<not> wait_in_queue w k \<and> w_proc (waits k w) \<noteq> None);
     let k = upd_wait w (\<lambda>x. x\<lparr>w_queue := q\<rparr>) k;
     Some (upd_wqueue q (\<lambda>ws. ws @ [w]) k)
   }"

definition wait_queue_del :: "nat \<Rightarrow> nat \<Rightarrow> kernel \<Rightarrow> kernel option" where
  "wait_queue_del q w k = do {
     kassert (wait_in_queue w k \<and> w_queue (waits k w) = q);
     Some (upd_wqueue q (remove1 w) k)
   }"

definition wait_queue_next :: "nat \<Rightarrow> nat \<Rightarrow> kernel \<Rightarrow> nat option option" where
  "wait_queue_next q w k = do {
     kassert (wait_in_queue w k \<and> w_queue (waits k w) = q);
     Some (entry_after w (wqueues k q))
   }"

definition wait_queue_prev :: "nat \<Rightarrow> nat \<Rightarrow> kernel \<Rightarrow> nat option option" where
  "wait_queue_prev q w k = do {
     kassert (wait_in_queue w k \<and> w_queue (waits k w) = q);
     Some (entry_after w (rev (wqueues k q)))
   }"

definition wait_queue_first :: "nat \<Rightarrow> kernel \<Rightarrow> nat option" where
  "wait_queue_first q k = (case wqueues k q of [] \<Rightarrow> None | w # _ \<Rightarrow> Some w)"

definition wait_queue_last :: "nat \<Rightarrow> kernel \<Rightarrow> nat option" where
  "wait_queue_last q k = (if wqueues k q = [] then None else Some (last (wqueues k q)))"

definition wait_queue_empty :: "nat \<Rightarrow> kernel \<Rightarrow> bool" where
  "wait_queue_empty q k \<longleftrightarrow> wqueues k q = []"

text \<open>\<^verbatim>\<open>wakeup_proc(wait->proc)\<close> faults on a null process: \<open>None\<close>.\<close>

definition wakeup_wait ::
  "sched_class \<Rightarrow> nat \<Rightarrow> nat \<Rightarrow> u32 \<Rightarrow> bool \<Rightarrow> kernel \<Rightarrow> kernel option"
where
  "wakeup_wait sc q w flags del k = do {
     k \<leftarrow> (if del then wait_queue_del q w k else Some k);
     let k = upd_wait w (\<lambda>x. x\<lparr>w_flags := flags\<rparr>) k;
     p \<leftarrow> w_proc (waits k w);
     wakeup_proc sc p k
   }"

definition wakeup_first :: "sched_class \<Rightarrow> nat \<Rightarrow> u32 \<Rightarrow> bool \<Rightarrow> kernel \<Rightarrow> kernel option" where
  "wakeup_first sc q flags del k =
     (case wait_queue_first q k of None \<Rightarrow> Some k | Some w \<Rightarrow> wakeup_wait sc q w flags del k)"

text \<open>
  The two loops of \<^verbatim>\<open>wakeup_queue\<close>. The bound is the length of the queue at the call, which
  \<open>wakeup_queue_del_spec\<close> shows to be enough for the first.
\<close>

fun wakeup_del_loop :: "sched_class \<Rightarrow> nat \<Rightarrow> u32 \<Rightarrow> nat \<Rightarrow> kernel \<Rightarrow> kernel option" where
  "wakeup_del_loop sc q flags 0 k = Some k"
| "wakeup_del_loop sc q flags (Suc n) k =
     (case wait_queue_first q k of
        None \<Rightarrow> Some k
      | Some w \<Rightarrow> do {
          k \<leftarrow> wakeup_wait sc q w flags True k;
          wakeup_del_loop sc q flags n k
        })"

fun wakeup_keep_loop ::
  "sched_class \<Rightarrow> nat \<Rightarrow> u32 \<Rightarrow> nat \<Rightarrow> nat \<Rightarrow> kernel \<Rightarrow> kernel option"
where
  "wakeup_keep_loop sc q flags w 0 k = Some k"
| "wakeup_keep_loop sc q flags w (Suc n) k = do {
     k \<leftarrow> wakeup_wait sc q w flags False k;
     nxt \<leftarrow> wait_queue_next q w k;
     (case nxt of None \<Rightarrow> Some k | Some w \<Rightarrow> wakeup_keep_loop sc q flags w n k)
   }"

definition wakeup_queue :: "sched_class \<Rightarrow> nat \<Rightarrow> u32 \<Rightarrow> bool \<Rightarrow> kernel \<Rightarrow> kernel option" where
  "wakeup_queue sc q flags del k =
     (case wait_queue_first q k of
        None \<Rightarrow> Some k
      | Some w \<Rightarrow>
          if del then wakeup_del_loop sc q flags (length (wqueues k q)) k
          else wakeup_keep_loop sc q flags w (length (wqueues k q)) k)"

definition wait_current_set :: "nat \<Rightarrow> nat \<Rightarrow> u32 \<Rightarrow> kernel \<Rightarrow> kernel option" where
  "wait_current_set q w ws k =
     (let k = wait_init w (current k) k;
          k = upd_proc (current k) (\<lambda>p. p\<lparr>p_state := PROC_SLEEPING\<rparr>) k;
          k = upd_proc (current k) (\<lambda>p. p\<lparr>p_wait_state := ws\<rparr>) k
      in wait_queue_add q w k)"

definition wait_current_del :: "nat \<Rightarrow> nat \<Rightarrow> kernel \<Rightarrow> kernel option" where
  "wait_current_del q w k = (if wait_in_queue w k then wait_queue_del q w k else Some k)"

section \<open>Semaphores\<close>

definition sem_init :: "nat \<Rightarrow> int \<Rightarrow> kernel \<Rightarrow> kernel" where
  "sem_init s v k = wait_queue_init s (upd_sem s (\<lambda>_. v) k)"

definition up_with :: "sched_class \<Rightarrow> nat \<Rightarrow> u32 \<Rightarrow> kernel \<Rightarrow> kernel option" where
  "up_with sc s ws k =
     (case wait_queue_first s k of
        None \<Rightarrow> Some (upd_sem s (\<lambda>v. v + 1) k)
      | Some w \<Rightarrow> do {
          p \<leftarrow> w_proc (waits k w);
          kassert (p_wait_state (procs k p) = ws);
          wakeup_wait sc s w ws True k
        })"

text \<open>
  \<^verbatim>\<open>__down\<close> before the call of \<^verbatim>\<open>schedule\<close> (\<open>True\<close>: the semaphore was taken), after it,
  and as a whole. \<open>w\<close> is the address of the wait on the caller's stack.
\<close>

definition down_begin :: "nat \<Rightarrow> nat \<Rightarrow> u32 \<Rightarrow> kernel \<Rightarrow> (bool \<times> kernel) option" where
  "down_begin s w ws k =
     (if sem_value k s > 0 then Some (True, upd_sem s (\<lambda>v. v - 1) k)
      else do {
        k \<leftarrow> wait_current_set s w ws k;
        Some (False, k)
      })"

definition down_end :: "nat \<Rightarrow> nat \<Rightarrow> u32 \<Rightarrow> kernel \<Rightarrow> (u32 \<times> kernel) option" where
  "down_end s w ws k = do {
     k \<leftarrow> wait_current_del s w k;
     Some (if w_flags (waits k w) \<noteq> ws then (w_flags (waits k w), k) else (0, k))
   }"

definition down_with ::
  "(kernel \<Rightarrow> kernel option) \<Rightarrow> nat \<Rightarrow> nat \<Rightarrow> u32 \<Rightarrow> kernel \<Rightarrow> (u32 \<times> kernel) option"
where
  "down_with switch s w ws k = do {
     (got, k) \<leftarrow> down_begin s w ws k;
     if got then Some (0, k) else do {
       k \<leftarrow> switch k;
       down_end s w ws k
     }
   }"

definition up :: "sched_class \<Rightarrow> nat \<Rightarrow> kernel \<Rightarrow> kernel option" where
  "up sc s = up_with sc s WT_KSEM"

definition down :: "(kernel \<Rightarrow> kernel option) \<Rightarrow> nat \<Rightarrow> nat \<Rightarrow> kernel \<Rightarrow> kernel option" where
  "down switch s w k = do {
     (flags, k) \<leftarrow> down_with switch s w WT_KSEM k;
     kassert (flags = 0);
     Some k
   }"

definition try_down :: "nat \<Rightarrow> kernel \<Rightarrow> bool \<times> kernel" where
  "try_down s k =
     (if sem_value k s > 0 then (True, upd_sem s (\<lambda>v. v - 1) k) else (False, k))"

section \<open>Frames\<close>

lemma upd_wait_simps [simp]:
  "procs (upd_wait w f k) = procs k" "current (upd_wait w f k) = current k"
  "idleproc (upd_wait w f k) = idleproc k" "rq (upd_wait w f k) = rq k"
  "wqueues (upd_wait w f k) = wqueues k" "sem_value (upd_wait w f k) = sem_value k"
  "waits (upd_wait w f k) v = (if v = w then f (waits k w) else waits k v)"
  by (simp_all add: upd_wait_def)

lemma upd_wqueue_simps [simp]:
  "procs (upd_wqueue q f k) = procs k" "current (upd_wqueue q f k) = current k"
  "idleproc (upd_wqueue q f k) = idleproc k" "rq (upd_wqueue q f k) = rq k"
  "waits (upd_wqueue q f k) = waits k" "sem_value (upd_wqueue q f k) = sem_value k"
  "wqueues (upd_wqueue q f k) t = (if t = q then f (wqueues k q) else wqueues k t)"
  by (simp_all add: upd_wqueue_def)

lemma upd_sem_simps [simp]:
  "procs (upd_sem q f k) = procs k" "current (upd_sem q f k) = current k"
  "idleproc (upd_sem q f k) = idleproc k" "rq (upd_sem q f k) = rq k"
  "waits (upd_sem q f k) = waits k" "wqueues (upd_sem q f k) = wqueues k"
  "sem_value (upd_sem q f k) t = (if t = q then f (sem_value k q) else sem_value k t)"
  by (simp_all add: upd_sem_def)

lemma sched_frame_sync:
  assumes "sched_frame k k'"
  shows "waits k' = waits k" and "wqueues k' = wqueues k" and "sem_value k' = sem_value k"
    and "p_wait_state (procs k' p) = p_wait_state (procs k p)"
  using assms by (simp_all add: sched_frame_iff same_but_sched_iff)

context sched_class_laws
begin

lemma sched_ok_cong:
  assumes "procs k' = procs k" and "rq k' = rq k" and "current k' = current k"
    and "idleproc k' = idleproc k"
  shows "sched_ok ready inv L k' = sched_ok ready inv L k"
  using cong [of k' k] assms by (simp add: sched_ok_def)

lemma sched_ok_sync [simp]:
  "sched_ok ready inv L (upd_wait w f k) = sched_ok ready inv L k"
  "sched_ok ready inv L (upd_wqueue q g k) = sched_ok ready inv L k"
  "sched_ok ready inv L (upd_sem s h k) = sched_ok ready inv L k"
  by (rule sched_ok_cong; simp)+

text \<open>The running process may change its own state: it is not in the run queue.\<close>

lemma sched_ok_upd_current:
  assumes "sched_ok ready inv L k"
    and "\<And>q. p_on_rq (f q) = p_on_rq q \<and> p_stride (f q) = p_stride q"
  shows "sched_ok ready inv L (upd_proc (current k) f k)"
proof -
  note c = upd_proc_cong [of f "current k" k] assms(2)
  let ?k = "upd_proc (current k) f k"
  have "{p \<in> L. p_state (procs ?k p) = PROC_RUNNABLE \<and> p \<noteq> current ?k \<and> p \<noteq> idleproc ?k} =
      {p \<in> L. p_state (procs k p) = PROC_RUNNABLE \<and> p \<noteq> current k \<and> p \<noteq> idleproc k}"
    by (rule Collect_cong) simp
  with assms(1) c show ?thesis by (simp only: sched_ok_def upd_proc_others)
qed

end

section \<open>The invariant of the semaphores\<close>

definition sems_ok :: "nat set \<Rightarrow> nat set \<Rightarrow> kernel \<Rightarrow> bool" where
  "sems_ok S L k \<longleftrightarrow>
     (\<forall>s \<in> S. 0 \<le> sem_value k s \<and> (wqueues k s \<noteq> [] \<longrightarrow> sem_value k s = 0) \<and>
        distinct (wqueues k s) \<and>
        (\<forall>w \<in> set (wqueues k s). w_queue (waits k w) = s \<and>
           (\<exists>p \<in> L. w_proc (waits k w) = Some p \<and> p_state (procs k p) = PROC_SLEEPING \<and>
              p_wait_state (procs k p) = WT_KSEM))) \<and>
     (\<forall>s \<in> S. \<forall>t \<in> S. \<forall>w \<in> set (wqueues k s). \<forall>v \<in> set (wqueues k t).
        w_proc (waits k w) = w_proc (waits k v) \<longrightarrow> w = v)"

lemma sems_okD:
  assumes "sems_ok S L k" and "s \<in> S"
  shows "0 \<le> sem_value k s" and "wqueues k s \<noteq> [] \<Longrightarrow> sem_value k s = 0"
    and "distinct (wqueues k s)"
    and "w \<in> set (wqueues k s) \<Longrightarrow> w_queue (waits k w) = s"
    and "w \<in> set (wqueues k s) \<Longrightarrow> \<exists>p \<in> L. w_proc (waits k w) = Some p \<and>
      p_state (procs k p) = PROC_SLEEPING \<and> p_wait_state (procs k p) = WT_KSEM"
    and "w \<in> set (wqueues k s) \<Longrightarrow> t \<in> S \<Longrightarrow> v \<in> set (wqueues k t) \<Longrightarrow>
      w_proc (waits k w) = w_proc (waits k v) \<Longrightarrow> w = v"
  using assms unfolding sems_ok_def by simp_all

text \<open>It depends on the waiting processes only.\<close>

lemma sems_ok_cong:
  assumes "sems_ok S L k"
    and "\<And>s. s \<in> S \<Longrightarrow> sem_value k' s = sem_value k s \<and> wqueues k' s = wqueues k s"
    and "\<And>s w. s \<in> S \<Longrightarrow> w \<in> set (wqueues k s) \<Longrightarrow> waits k' w = waits k w"
    and "\<And>s w p. s \<in> S \<Longrightarrow> w \<in> set (wqueues k s) \<Longrightarrow> w_proc (waits k w) = Some p \<Longrightarrow>
      p_state (procs k p) = PROC_SLEEPING \<Longrightarrow> p_wait_state (procs k p) = WT_KSEM \<Longrightarrow>
      p_state (procs k' p) = PROC_SLEEPING \<and> p_wait_state (procs k' p) = WT_KSEM"
  shows "sems_ok S L k'"
proof -
  have w: "w_queue (waits k' w) = s \<and> (\<exists>p \<in> L. w_proc (waits k' w) = Some p \<and>
      p_state (procs k' p) = PROC_SLEEPING \<and> p_wait_state (procs k' p) = WT_KSEM)"
    if "s \<in> S" "w \<in> set (wqueues k s)" for s w
    using sems_okD(4,5) [OF assms(1) that] assms(3) [OF that] assms(4) [OF that] by force
  show ?thesis
    unfolding sems_ok_def
  proof (intro conjI ballI impI)
    fix s assume s: "s \<in> S"
    show "0 \<le> sem_value k' s" "wqueues k' s \<noteq> [] \<Longrightarrow> sem_value k' s = 0" "distinct (wqueues k' s)"
      using sems_okD(1-3) [OF assms(1) s] assms(2) [OF s] by simp_all
    fix v assume "v \<in> set (wqueues k' s)"
    with w [OF s] assms(2) [OF s] show "w_queue (waits k' v) = s" "\<exists>p \<in> L. w_proc (waits k' v) = Some p \<and>
      p_state (procs k' p) = PROC_SLEEPING \<and> p_wait_state (procs k' p) = WT_KSEM" by simp_all
  next
    fix s t w v
    assume "s \<in> S" "t \<in> S" "w \<in> set (wqueues k' s)" "v \<in> set (wqueues k' t)"
      "w_proc (waits k' w) = w_proc (waits k' v)"
    with sems_okD(6) [OF assms(1), of s w t v] assms(2,3) show "w = v" by simp
  qed
qed

lemma sems_ok_frame: "sched_frame k k' \<Longrightarrow> sems_ok S L k \<Longrightarrow> sems_ok S L k'"
  by (erule sems_ok_cong) (simp_all add: sched_frame_sync sched_frame_state)

lemma sems_ok_pop:
  assumes ok: "sems_ok S L k" and s: "s \<in> S" and q: "wqueues k s = w # ws"
  shows "sems_ok S L (upd_wait w f (upd_wqueue s (remove1 w) k))"
    and "t \<in> S \<Longrightarrow> v \<in> set (wqueues (upd_wqueue s (remove1 w) k) t) \<Longrightarrow>
      v \<noteq> w \<and> w_proc (waits k v) \<noteq> w_proc (waits k w)"
proof -
  let ?k1 = "upd_wqueue s (remove1 w) k"
  have w: "w \<in> set (wqueues k s)" and nw: "w \<notin> set ws"
    using q sems_okD(3) [OF ok s] by auto
  have sub: "set (wqueues ?k1 t) \<subseteq> set (wqueues k t)" for t
    using q by auto
  have neq: "v \<noteq> w" if "t \<in> S" "v \<in> set (wqueues ?k1 t)" for t v
    using that sems_okD(4) [OF ok that(1), of w] sems_okD(4) [OF ok s w] q nw
    by (auto split: if_splits)
  show "v \<noteq> w \<and> w_proc (waits k v) \<noteq> w_proc (waits k w)"
    if "t \<in> S" "v \<in> set (wqueues ?k1 t)" for t v
    using neq [OF that] sems_okD(6) [OF ok s w that(1), of v] sub [of t] that(2) by auto
  have "sems_ok S L ?k1"
    unfolding sems_ok_def
  proof (intro conjI ballI impI)
    fix t assume t: "t \<in> S"
    show "0 \<le> sem_value ?k1 t" using sems_okD(1) [OF ok t] by simp
    show "wqueues ?k1 t \<noteq> [] \<Longrightarrow> sem_value ?k1 t = 0"
      using sems_okD(2) [OF ok t] q by (auto split: if_splits)
    show "distinct (wqueues ?k1 t)" 
      using sems_okD(3) [OF ok t] sems_okD(3) [OF ok s] by (simp add: distinct_remove1)
    fix v assume "v \<in> set (wqueues ?k1 t)"
    then have v: "v \<in> set (wqueues k t)" using sub by blast
    show "w_queue (waits ?k1 v) = t" "\<exists>p \<in> L. w_proc (waits ?k1 v) = Some p \<and>
        p_state (procs ?k1 p) = PROC_SLEEPING \<and> p_wait_state (procs ?k1 p) = WT_KSEM"
      using sems_okD(4,5) [OF ok t v] by simp_all
  next
    fix t u v v'
    assume a: "t \<in> S" "u \<in> S" "v \<in> set (wqueues ?k1 t)" "v' \<in> set (wqueues ?k1 u)"
      "w_proc (waits ?k1 v) = w_proc (waits ?k1 v')"
    then have "v \<in> set (wqueues k t)" "v' \<in> set (wqueues k u)" using sub by blast+
    with a sems_okD(6) [OF ok, of t v u v'] show "v = v'" by simp
  qed
  then show "sems_ok S L (upd_wait w f ?k1)"
    by (rule sems_ok_cong) (use neq in auto)
qed

lemma sems_ok_take:
  assumes "sems_ok S L k" and "s \<in> S" and "0 < sem_value k s"
  shows "sems_ok S L (upd_sem s (\<lambda>v. v - 1) k)"
  using assms sems_okD(2) [OF assms(1,2)] unfolding sems_ok_def by auto

context sched_class_laws
begin

lemma up_spec:
  assumes ok: "sched_ok ready inv L k" and sems: "sems_ok S L k" and s: "s \<in> S"
  shows "\<exists>k'. up sc s k = Some k' \<and> sched_ok ready inv L k' \<and> sems_ok S L k' \<and>
    current k' = current k \<and> idleproc k' = idleproc k \<and>
    p_state (procs k' (idleproc k)) \<in> {PROC_RUNNABLE, p_state (procs k (idleproc k))} \<and>
    p_state (procs k' (current k)) \<in> {PROC_RUNNABLE, p_state (procs k (current k))} \<and>
    (case wqueues k s of
       [] \<Rightarrow> k' = upd_sem s (\<lambda>v. v + 1) k
     | w # ws \<Rightarrow> sem_value k' = sem_value k \<and> wqueues k' = (wqueues k)(s := ws) \<and>
         waits k' = (waits k)(w := (waits k w)\<lparr>w_flags := WT_KSEM\<rparr>) \<and>
         (\<exists>p. w_proc (waits k w) = Some p \<and>
            (\<forall>q. p_state (procs k' q) = (if q = p then PROC_RUNNABLE else p_state (procs k q)))))"
proof (cases "wqueues k s")
  case Nil
  let ?k = "upd_sem s (\<lambda>v. v + 1) k"
  have "sems_ok S L ?k"
    using sems sems_okD(1) [OF sems s] Nil unfolding sems_ok_def by auto
  with Nil ok show ?thesis by (simp add: up_def up_with_def wait_queue_first_def)
next
  case (Cons w ws)
  from sems_okD(4,5) [OF sems s, of w] Cons obtain p where wq: "w_queue (waits k w) = s" and
    p: "p \<in> L" "w_proc (waits k w) = Some p" "p_state (procs k p) = PROC_SLEEPING"
      "p_wait_state (procs k p) = WT_KSEM" by auto
  define k2 where "k2 = upd_wait w (\<lambda>x. x\<lparr>w_flags := WT_KSEM\<rparr>) (upd_wqueue s (remove1 w) k)"
  have sems2: "sems_ok S L k2" unfolding k2_def by (rule sems_ok_pop(1) [OF sems s Cons])
  have ok2: "sched_ok ready inv L k2" using ok by (simp add: k2_def)
  have p2: "procs k2 = procs k" by (simp add: k2_def)
  obtain k' where w: "wakeup_proc sc p k2 = Some k'" and ok': "sched_ok ready inv L k'" and
    fr: "sched_frame (upd_proc p (\<lambda>q. q\<lparr>p_state := PROC_RUNNABLE, p_wait_state := 0\<rparr>) k2) k'"
    using wakeup_proc_spec [OF ok2 p(1)] p(3) p2 by auto
  note f = sched_frame_sync [OF fr] sched_frame_globals(1,2) [OF fr]
  have sems': "sems_ok S L k'"
  proof (rule sems_ok_cong [OF sems2])
    fix t v q
    assume t: "t \<in> S" "v \<in> set (wqueues k2 t)" "w_proc (waits k2 v) = Some q"
      "p_state (procs k2 q) = PROC_SLEEPING" "p_wait_state (procs k2 q) = WT_KSEM"
    have "v \<noteq> w \<and> w_proc (waits k v) \<noteq> w_proc (waits k w)"
      by (rule sems_ok_pop(2) [OF sems s Cons t(1)]) (use t(2) in \<open>simp add: k2_def\<close>)
    with t(3) p(2) have "q \<noteq> p" by (auto simp: k2_def)
    with t(4,5) show "p_state (procs k' q) = PROC_SLEEPING \<and> p_wait_state (procs k' q) = WT_KSEM"
      by (simp add: f sched_frame_state [OF fr])
  qed (simp_all add: f)
  have linked: "wait_in_queue w k" using Cons wq by (simp add: wait_in_queue_def)
  have "up sc s k = Some k'"
    using Cons p linked wq w by (simp add: up_def up_with_def wait_queue_first_def wakeup_wait_def
        wait_queue_del_def k2_def)
  moreover have "p_state (procs k' q) = (if q = p then PROC_RUNNABLE else p_state (procs k q))" for q
    by (simp add: sched_frame_state [OF fr] p2)
  ultimately show ?thesis
    using ok' sems' Cons p by (auto simp: f k2_def fun_eq_iff)
qed


lemma down_begin_spec:
  assumes ok: "sched_ok ready inv L k" and sems: "sems_ok S L k" and s: "s \<in> S"
    and fresh: "\<forall>t. w \<notin> set (wqueues k t)" and run: "p_state (procs k (current k)) = PROC_RUNNABLE"
  shows "\<exists>k'. down_begin s w WT_KSEM k = Some (0 < sem_value k s, k') \<and>
    sched_ok ready inv L k' \<and> sems_ok S L k' \<and> current k' = current k \<and>
    idleproc k' = idleproc k \<and>
    (if 0 < sem_value k s then k' = upd_sem s (\<lambda>v. v - 1) k
     else sem_value k' = sem_value k \<and> wqueues k' = (wqueues k)(s := wqueues k s @ [w]) \<and>
       w_proc (waits k' w) = Some (current k) \<and> w_queue (waits k' w) = s \<and>
       (\<forall>v. v \<noteq> w \<longrightarrow> waits k' v = waits k v) \<and>
       (\<forall>p. p_state (procs k' p) = (if p = current k then PROC_SLEEPING else p_state (procs k p))))"
proof (cases "0 < sem_value k s")
  case True
  with sems_ok_take [OF sems s] ok show ?thesis by (simp add: down_begin_def)
next
  case False
  let ?c = "current k"
  define k1 where "k1 = upd_wait w (\<lambda>x. x\<lparr>w_proc := Some ?c, w_flags := WT_INTERRUPTED, w_queue := s\<rparr>) k"
  define f :: "proc_struct \<Rightarrow> proc_struct"
    where "f = (\<lambda>p. p\<lparr>p_state := PROC_SLEEPING, p_wait_state := WT_KSEM\<rparr>)"
  define k' where "k' = upd_wqueue s (\<lambda>ws. ws @ [w]) (upd_proc ?c f k1)"
  have "k' = upd_wqueue s (\<lambda>ws. ws @ [w]) (upd_wait w (\<lambda>x. x\<lparr>w_queue := s\<rparr>)
      (upd_proc ?c (\<lambda>p. p\<lparr>p_wait_state := WT_KSEM\<rparr>) (upd_proc ?c (\<lambda>p. p\<lparr>p_state := PROC_SLEEPING\<rparr>)
        (wait_init w ?c k))))"
    by (simp add: k'_def k1_def f_def wait_init_def upd_proc_def wait_updates)
  then have step: "down_begin s w WT_KSEM k = Some (False, k')"
    using False fresh by (simp add: down_begin_def wait_current_set_def wait_queue_add_def
        wait_in_queue_def wait_init_def Let_def)
  have "sched_ok ready inv L k1" using ok by (simp add: k1_def)
  then have "sched_ok ready inv L (upd_proc (current k1) f k1)"
    by (rule sched_ok_upd_current) (simp add: f_def)
  then have ok': "sched_ok ready inv L k'" by (simp add: k'_def k1_def)
  have proj: "sem_value k' = sem_value k" "wqueues k' = (wqueues k)(s := wqueues k s @ [w])"
    "w_queue (waits k' v) = (if v = w then s else w_queue (waits k v))"
    "w_proc (waits k' v) = (if v = w then Some ?c else w_proc (waits k v))"
    "p_state (procs k' p) = (if p = ?c then PROC_SLEEPING else p_state (procs k p))"
    "p_wait_state (procs k' p) = (if p = ?c then WT_KSEM else p_wait_state (procs k p))"
    "current k' = ?c" "idleproc k' = idleproc k" "v \<noteq> w \<Longrightarrow> waits k' v = waits k v" for v p
    by (auto simp: k'_def k1_def f_def)
  have cL: "?c \<in> L" using ok by (simp add: sched_ok_def)
  have old: "w_proc (waits k v) \<noteq> Some ?c" if "t \<in> S" "v \<in> set (wqueues k t)" for t v
    using sems_okD(5) [OF sems that] run by auto
  have "sems_ok S L k'"
    unfolding sems_ok_def
  proof (intro conjI ballI impI)
    fix t assume t: "t \<in> S"
    show "0 \<le> sem_value k' t" using sems_okD(1) [OF sems t] by (simp add: proj)
    show "wqueues k' t \<noteq> [] \<Longrightarrow> sem_value k' t = 0"
      using sems_okD(1,2) [OF sems t] False by (auto simp: proj split: if_splits)
    show "distinct (wqueues k' t)" 
      using sems_okD(3) [OF sems t] sems_okD(3) [OF sems s] fresh by (simp add: proj)
    fix v assume v: "v \<in> set (wqueues k' t)"
    show "w_queue (waits k' v) = t"
      using v sems_okD(4) [OF sems t, of v] fresh by (auto simp: proj split: if_splits)
    show "\<exists>p \<in> L. w_proc (waits k' v) = Some p \<and>
        p_state (procs k' p) = PROC_SLEEPING \<and> p_wait_state (procs k' p) = WT_KSEM"
    proof (cases "v = w")
      case True
      with cL show ?thesis by (auto simp: proj)
    next
      case False
      with v have "v \<in> set (wqueues k t)" by (auto simp: proj split: if_splits)
      with sems_okD(5) [OF sems t] old [OF t] False show ?thesis by (force simp: proj)
    qed
  next
    fix t u v v'
    assume a: "t \<in> S" "u \<in> S" "v \<in> set (wqueues k' t)" "v' \<in> set (wqueues k' u)"
      "w_proc (waits k' v) = w_proc (waits k' v')"
    have m: "v = w \<or> v \<in> set (wqueues k t)" "v' = w \<or> v' \<in> set (wqueues k u)"
      using a(3,4) by (auto simp: proj split: if_splits)
    then show "v = v'"
      using a(5) old [OF a(1), of v] old [OF a(2), of v'] sems_okD(6) [OF sems a(1) _ a(2), of v v']
      by (auto simp: proj split: if_splits)
  qed
  with False step ok' show ?thesis by (auto simp: proj)
qed

lemma schedule_sems:
  assumes "sems_ok S L k" and "switch_frame k k'"
  shows "sems_ok S L k'"
  by (rule sems_ok_cong [OF assms(1)])
    (use assms(2) in \<open>simp_all add: switch_frame_iff same_but_sched_iff\<close>)

end

section \<open>Interleavings\<close>

text \<open>
  The machine as a step relation: the running process does one of the operations above, or is
  preempted. A process that blocks leaves the CPU in the same step, as the kernel calls
  \<^verbatim>\<open>schedule\<close> next and an interrupt of the kernel does not switch processes. When it runs again it
  is inside its \<^verbatim>\<open>down\<close>, whose second half and assertion are a step of their own. The ghost
  state: for each semaphore the number of the calls of \<^verbatim>\<open>up\<close> and of the \<^verbatim>\<open>down\<close>s that have
  obtained it, at once or by the hand-over of an \<^verbatim>\<open>up\<close> that finds a waiter; for each process the
  blocked \<^verbatim>\<open>down\<close> it is inside: the semaphore and the wait on its stack.
\<close>

type_synonym pending = "nat \<Rightarrow> (nat \<times> nat) option"

type_synonym sync_state = "kernel \<times> (nat \<Rightarrow> nat) \<times> (nat \<Rightarrow> nat) \<times> pending"

text \<open>A wait on the stack of the running process is none that a queue or a process uses.\<close>

definition unused_wait :: "nat \<Rightarrow> pending \<Rightarrow> kernel \<Rightarrow> bool" where
  "unused_wait w pend k \<longleftrightarrow>
     (\<forall>t. w \<notin> set (wqueues k t)) \<and> (\<forall>p t. pend p \<noteq> Some (t, w))"

inductive sync_step :: "sched_class \<Rightarrow> nat set \<Rightarrow> sync_state \<Rightarrow> sync_state \<Rightarrow> bool"
  for sc :: sched_class and S :: "nat set"
where
  step_up: "pend (current k) = None \<Longrightarrow> s \<in> S \<Longrightarrow> up sc s k = Some k' \<Longrightarrow>
    sync_step sc S (k, u, d, pend)
      (k', u(s := u s + 1), if wqueues k s = [] then d else d(s := d s + 1), pend)"
| step_take: "pend (current k) = None \<Longrightarrow> s \<in> S \<Longrightarrow> unused_wait w pend k \<Longrightarrow>
    down_begin s w WT_KSEM k = Some (True, k') \<Longrightarrow>
    sync_step sc S (k, u, d, pend) (k', u, d(s := d s + 1), pend)"
| step_block: "pend (current k) = None \<Longrightarrow> s \<in> S \<Longrightarrow> unused_wait w pend k \<Longrightarrow>
    current k \<noteq> idleproc k \<Longrightarrow>
    down_begin s w WT_KSEM k = Some (False, k1) \<Longrightarrow> schedule sc k1 = Some k' \<Longrightarrow>
    sync_step sc S (k, u, d, pend) (k', u, d, pend(current k := Some (s, w)))"
| step_resume: "pend (current k) = Some (s, w) \<Longrightarrow>
    down_end s w WT_KSEM k = Some (flags, k') \<Longrightarrow> flags = 0 \<Longrightarrow>
    sync_step sc S (k, u, d, pend) (k', u, d, pend(current k := None))"
| step_try: "pend (current k) = None \<Longrightarrow> s \<in> S \<Longrightarrow> try_down s k = (b, k') \<Longrightarrow>
    sync_step sc S (k, u, d, pend) (k', u, if b then d(s := d s + 1) else d, pend)"
| step_preempt: "schedule sc k = Some k' \<Longrightarrow>
    sync_step sc S (k, u, d, pend) (k', u, d, pend)"

inductive_cases sync_stepE: "sync_step sc S (k, u, d, pend) s'"

text \<open>
  What a process inside \<^verbatim>\<open>down\<close> can rely on: its wait names it and the semaphore; while the wait
  is linked the process sleeps, and once it is not the process is runnable and the flags are those
  that \<^verbatim>\<open>down\<close> asserts.
\<close>

definition pending_ok :: "nat set \<Rightarrow> pending \<Rightarrow> kernel \<Rightarrow> bool" where
  "pending_ok S pend k \<longleftrightarrow>
     (\<forall>p s w. pend p = Some (s, w) \<longrightarrow> s \<in> S \<and> w_queue (waits k w) = s \<and> w_proc (waits k w) = Some p \<and>
        (if w \<in> set (wqueues k s) then p_state (procs k p) = PROC_SLEEPING
         else p_state (procs k p) = PROC_RUNNABLE \<and> w_flags (waits k w) = WT_KSEM))"

lemma pending_okD:
  assumes "pending_ok S pend k" and "pend p = Some (s, w)"
  shows "s \<in> S" and "w_queue (waits k w) = s" and "w_proc (waits k w) = Some p"
    and "if w \<in> set (wqueues k s) then p_state (procs k p) = PROC_SLEEPING
         else p_state (procs k p) = PROC_RUNNABLE \<and> w_flags (waits k w) = WT_KSEM"
  using assms unfolding pending_ok_def by blast+

lemma pending_ok_cong:
  assumes "pending_ok S pend k" and "waits k' = waits k" and "wqueues k' = wqueues k"
    and "\<And>p. p_state (procs k' p) = p_state (procs k p)"
  shows "pending_ok S pend k'"
  using assms unfolding pending_ok_def by simp

lemma pending_ok_fewer:
  assumes "pending_ok S pend k" and "\<And>p x. pend' p = Some x \<Longrightarrow> pend p = Some x"
  shows "pending_ok S pend' k"
  using assms unfolding pending_ok_def by blast

lemma pending_resume:
  assumes "pending_ok S pend k" and "pend (current k) = Some (s, w)"
    and "p_state (procs k (current k)) = PROC_RUNNABLE"
  shows "down_end s w WT_KSEM k = Some (0, k)"
  using pending_okD [OF assms(1,2)] assms(3)
  by (simp add: down_end_def wait_current_del_def wait_in_queue_def split: if_splits)

lemma pending_down_end:
  assumes "pending_ok S pend k" and "pend (current k) = None" and "w \<notin> set (wqueues k s)"
    and "\<forall>p t. pend p \<noteq> Some (t, w)" and "s \<in> S"
    and "w_proc (waits k' w) = Some (current k)" and "w_queue (waits k' w) = s"
    and "\<forall>v. v \<noteq> w \<longrightarrow> waits k' v = waits k v" and "wqueues k' = (wqueues k)(s := wqueues k s @ [w])"
    and "\<forall>p. p_state (procs k' p) = (if p = current k then PROC_SLEEPING else p_state (procs k p))"
  shows "pending_ok S (pend(current k := Some (s, w))) k'"
  unfolding pending_ok_def
proof (intro allI impI)
  fix p t v assume p: "(pend(current k := Some (s, w))) p = Some (t, v)"
  show "t \<in> S \<and> w_queue (waits k' v) = t \<and> w_proc (waits k' v) = Some p \<and>
    (if v \<in> set (wqueues k' t) then p_state (procs k' p) = PROC_SLEEPING
     else p_state (procs k' p) = PROC_RUNNABLE \<and> w_flags (waits k' v) = WT_KSEM)"
  proof (cases "p = current k")
    case True
    with p assms show ?thesis by simp
  next
    case False
    with p have q: "pend p = Some (t, v)" by simp
    with assms(4) have "v \<noteq> w" by blast
    with pending_okD [OF assms(1) q] False assms(8-10) show ?thesis by auto
  qed
qed

text \<open>An \<^verbatim>\<open>up\<close> that finds a waiter unlinks its wait, stores the flags and wakes it.\<close>

lemma pending_up:
  assumes "pending_ok S pend k" and sems: "sems_ok S L k" and s: "s \<in> S"
    and q: "wqueues k s = w # ws" "wqueues k' = (wqueues k)(s := ws)"
    and wt: "waits k' = (waits k)(w := (waits k w)\<lparr>w_flags := WT_KSEM\<rparr>)"
    and x: "w_proc (waits k w) = Some x"
      "\<forall>q. p_state (procs k' q) = (if q = x then PROC_RUNNABLE else p_state (procs k q))"
  shows "pending_ok S pend k'"
  unfolding pending_ok_def
proof (intro allI impI)
  fix p t v assume p: "pend p = Some (t, v)"
  note o = pending_okD [OF assms(1) p]
  have ws: "w \<notin> set ws" using sems_okD(3) [OF sems s] q(1) by simp
  have w: "w_queue (waits k w) = s" using sems_okD(4) [OF sems s] q(1) by simp
  show "t \<in> S \<and> w_queue (waits k' v) = t \<and> w_proc (waits k' v) = Some p \<and>
    (if v \<in> set (wqueues k' t) then p_state (procs k' p) = PROC_SLEEPING
     else p_state (procs k' p) = PROC_RUNNABLE \<and> w_flags (waits k' v) = WT_KSEM)"
  proof (cases "v = w")
    case True
    with o w x ws q(2) show ?thesis by (auto simp: wt)
  next
    case False
    have l: "v \<in> set (wqueues k' t) \<longleftrightarrow> v \<in> set (wqueues k t)" using False q by auto
    have "p \<noteq> x" if "v \<in> set (wqueues k t)"
      using sems_okD(6) [OF sems o(1) that s, of w] False q(1) o(3) x(1) by auto
    with o False l x(2) show ?thesis by (auto simp: wt)
  qed
qed

definition sync_inv ::
  "(kernel \<Rightarrow> nat set) \<Rightarrow> (kernel \<Rightarrow> bool) \<Rightarrow> nat set \<Rightarrow> nat set \<Rightarrow> (nat \<Rightarrow> int) \<Rightarrow> sync_state \<Rightarrow> bool"
where
  "sync_inv ready rqinv S L v0 = (\<lambda>(k, u, d, pend).
     sched_ok ready rqinv L k \<and> sems_ok S L k \<and> idleproc k \<in> L \<and>
     p_state (procs k (current k)) = PROC_RUNNABLE \<and>
     p_state (procs k (idleproc k)) = PROC_RUNNABLE \<and> pending_ok S pend k \<and>
     (\<forall>s \<in> S. sem_value k s = v0 s + int (u s) - int (d s)))"

context sched_class_laws
begin

lemma schedule_running:
  assumes ok: "sched_ok ready inv L k" and sems: "sems_ok S L k" and idle: "idleproc k \<in> L"
    "p_state (procs k (idleproc k)) = PROC_RUNNABLE" and pend: "pending_ok S pend k"
  obtains k' where "schedule sc k = Some k'" and "sched_ok ready inv L k'" and "sems_ok S L k'"
    and "idleproc k' = idleproc k" and "sem_value k' = sem_value k" and "wqueues k' = wqueues k"
    and "p_state (procs k' (current k')) = PROC_RUNNABLE"
    and "p_state (procs k' (idleproc k)) = PROC_RUNNABLE" and "pending_ok S pend k'"
proof -
  let ?Q = "{p \<in> L. p_state (procs k p) = PROC_RUNNABLE \<and> p \<noteq> idleproc k}"
  from schedule_spec [OF ok idle(1)] obtain k' where k': "schedule sc k = Some k'"
    "sched_ok ready inv L k'" "\<forall>p. p_state (procs k' p) = p_state (procs k p)"
    "idleproc k' = idleproc k" and sw: "switch_frame k k'" and
    c: "if ?Q = {} then current k' = idleproc k else current k' \<in> ?Q" by blast
  from c idle(2) have r: "p_state (procs k (current k')) = PROC_RUNNABLE"
    by (metis (mono_tags, lifting) mem_Collect_eq)
  have f: "sem_value k' = sem_value k" "wqueues k' = wqueues k" "waits k' = waits k"
    using sw by (simp_all add: switch_frame_iff same_but_sched_iff)
  have "pending_ok S pend k'"
    using pending_ok_cong [OF pend f(3,2)] k'(3) by simp
  with that k' schedule_sems [OF sems sw] f r idle(2) show thesis by simp
qed

lemma sync_step_inv:
  assumes "sync_step sc S st st'" and "sync_inv ready inv S L v0 st"
  shows "sync_inv ready inv S L v0 st'"
  using assms
proof cases
  case (step_up pend k s k' u d)
  with assms(2) have i: "sched_ok ready inv L k" "sems_ok S L k" and
    st: "p_state (procs k (current k)) = PROC_RUNNABLE" "p_state (procs k (idleproc k)) = PROC_RUNNABLE"
    "idleproc k \<in> L" and p: "pending_ok S pend k" and
    v: "\<forall>s \<in> S. sem_value k s = v0 s + int (u s) - int (d s)"
    by (simp_all add: sync_inv_def)
  note up = up_spec [OF i step_up(4)]
  have "pending_ok S pend k'"
  proof (cases "wqueues k s")
    case Nil
    with up step_up(5) have "k' = upd_sem s (\<lambda>v. v + 1) k" by simp
    with p show ?thesis by (simp add: pending_ok_def)
  next
    case (Cons w ws)
    with up step_up(5) pending_up [OF p i(2) step_up(4) Cons, of k'] show ?thesis by auto
  qed
  with up step_up(5) show ?thesis
    using st v step_up(1,2) by (cases "wqueues k s") (auto simp: sync_inv_def)
next
  case (step_take pend k s w k' u d)
  with assms(2) have i: "sched_ok ready inv L k" "sems_ok S L k" and
    st: "p_state (procs k (current k)) = PROC_RUNNABLE" "p_state (procs k (idleproc k)) = PROC_RUNNABLE"
    "idleproc k \<in> L" and p: "pending_ok S pend k" and
    v: "\<forall>s \<in> S. sem_value k s = v0 s + int (u s) - int (d s)"
    by (simp_all add: sync_inv_def)
  have "\<forall>t. w \<notin> set (wqueues k t)" using step_take(5) by (simp add: unused_wait_def)
  from down_begin_spec [OF i step_take(4) this st(1)] step_take(6) have
    "sched_ok ready inv L k'" "sems_ok S L k'" "k' = upd_sem s (\<lambda>v. v - 1) k" by auto
  moreover from this(3) p have "pending_ok S pend k'" by (simp add: pending_ok_def)
  ultimately show ?thesis using st v step_take(1,2) by (auto simp: sync_inv_def)
next
  case (step_block pend k s w k1 k' u d)
  with assms(2) have i: "sched_ok ready inv L k" "sems_ok S L k" and
    st: "p_state (procs k (current k)) = PROC_RUNNABLE" "p_state (procs k (idleproc k)) = PROC_RUNNABLE"
    "idleproc k \<in> L" and p: "pending_ok S pend k" and
    v: "\<forall>s \<in> S. sem_value k s = v0 s + int (u s) - int (d s)"
    by (simp_all add: sync_inv_def)
  have fresh: "\<forall>t. w \<notin> set (wqueues k t)" "\<forall>p t. pend p \<noteq> Some (t, w)"
    using step_block(5) by (simp_all add: unused_wait_def)
  from down_begin_spec [OF i step_block(4) fresh(1) st(1)] step_block(7) have
    b: "sched_ok ready inv L k1" "sems_ok S L k1" "sem_value k1 = sem_value k"
      "idleproc k1 = idleproc k" and
    c: "w_proc (waits k1 w) = Some (current k)" "w_queue (waits k1 w) = s"
      "\<forall>v. v \<noteq> w \<longrightarrow> waits k1 v = waits k v" "wqueues k1 = (wqueues k)(s := wqueues k s @ [w])"
      "\<forall>p. p_state (procs k1 p) = (if p = current k then PROC_SLEEPING else p_state (procs k p))"
    by auto
  note pend = pending_down_end [OF p step_block(3) fresh(1) [rule_format] fresh(2) step_block(4) c]
  have id: "p_state (procs k1 (idleproc k1)) = PROC_RUNNABLE" "idleproc k1 \<in> L"
    using c(5) b(4) step_block(6) st(2,3) by auto
  from schedule_running [OF b(1,2) id(2,1) pend,
      where thesis = "sync_inv ready inv S L v0 (k', u, d, pend(current k := Some (s, w)))"]
    id step_block(8) b(3) v
  show ?thesis unfolding step_block(2) by (simp add: sync_inv_def)
next
  case (step_resume pend k s w flags k' u d)
  with assms(2) have p: "pending_ok S pend k" and st: "p_state (procs k (current k)) = PROC_RUNNABLE"
    by (simp_all add: sync_inv_def)
  from pending_resume [OF p step_resume(3) st] step_resume(4) have "k' = k" by simp
  moreover have "pending_ok S (pend(current k := None)) k"
    by (rule pending_ok_fewer [OF p]) (simp split: if_splits)
  ultimately show ?thesis using assms(2) unfolding step_resume(1,2) by (simp add: sync_inv_def)
next
  case (step_try pend k s b k' u d)
  have "pending_ok S pend k'" if "pending_ok S pend k"
    by (rule pending_ok_cong [OF that])
      (use step_try(5) in \<open>auto simp: try_down_def split: if_splits\<close>)
  with step_try assms(2) sems_ok_take [of S L k s] show ?thesis
    by (auto simp: sync_inv_def try_down_def split: if_splits)
next
  case (step_preempt k k' u d pend)
  with assms(2) schedule_running [of L k S pend, where thesis = "sync_inv ready inv S L v0 (k', u, d, pend)"]
  show ?thesis by (simp add: sync_inv_def)
qed

lemma sync_reach_inv:
  assumes "(sync_step sc S)\<^sup>*\<^sup>* st st'" and "sync_inv ready inv S L v0 st"
  shows "sync_inv ready inv S L v0 st'"
  using assms by (induction rule: rtranclp_induct) (auto intro: sync_step_inv)

end

section \<open>Waking a whole queue\<close>

definition wqueue_ok :: "nat set \<Rightarrow> nat \<Rightarrow> kernel \<Rightarrow> bool" where
  "wqueue_ok L q k \<longleftrightarrow> distinct (wqueues k q) \<and>
     (\<forall>w \<in> set (wqueues k q). w_queue (waits k w) = q \<and>
        (\<exists>p \<in> L. w_proc (waits k w) = Some p \<and> p_state (procs k p) \<noteq> PROC_ZOMBIE))"

context sched_class_laws
begin

lemma wakeup_wait_del_spec:
  assumes ok: "sched_ok ready inv L k" and wq: "wqueue_ok L q k" and q: "wqueues k q = w # ws"
  obtains k' p where "wakeup_wait sc q w fl True k = Some k'" and "sched_ok ready inv L k'"
    and "wqueue_ok L q k'" and "wqueues k' = (wqueues k)(q := ws)"
    and "w_proc (waits k w) = Some p" and "\<And>v. w_proc (waits k' v) = w_proc (waits k v)"
    and "idleproc k' = idleproc k" and "\<And>x. p_state (procs k' x) = (if x = p then PROC_RUNNABLE else p_state (procs k x))"
proof -
  from wq q obtain p where p: "p \<in> L" "w_proc (waits k w) = Some p" "p_state (procs k p) \<noteq> PROC_ZOMBIE"
    and w: "w_queue (waits k w) = q" "w \<notin> set ws" by (auto simp: wqueue_ok_def)
  define k2 where "k2 = upd_wait w (\<lambda>x. x\<lparr>w_flags := fl\<rparr>) (upd_wqueue q (remove1 w) k)"
  have ok2: "sched_ok ready inv L k2" and p2: "procs k2 = procs k"
    using ok by (simp_all add: k2_def)
  obtain k' where k': "wakeup_proc sc p k2 = Some k'" "sched_ok ready inv L k'" and
    fr: "sched_frame (if p_state (procs k2 p) = PROC_RUNNABLE then k2
      else upd_proc p (\<lambda>q. q\<lparr>p_state := PROC_RUNNABLE, p_wait_state := 0\<rparr>) k2) k'"
    using wakeup_proc_spec [OF ok2 p(1)] p(3) p2 by auto
  have same: "waits k' = waits k2" "wqueues k' = wqueues k2"
    using sched_frame_sync(1,2) [OF fr] by simp_all
  have st: "p_state (procs k' x) = (if x = p then PROC_RUNNABLE else p_state (procs k x))" for x
    using sched_frame_state [OF fr, of x] by (simp add: p2 split: if_splits)
  have "wakeup_wait sc q w fl True k = Some k'"
    using p(2) w(1) q k'(1) by (simp add: wakeup_wait_def wait_queue_del_def wait_in_queue_def k2_def)
  moreover have "wqueues k' = (wqueues k)(q := ws)" using q by (auto simp: same k2_def)
  moreover have "idleproc k' = idleproc k" using sched_frame_globals(2) [OF fr] by (simp add: k2_def)
  moreover have wt: "w_proc (waits k' v) = w_proc (waits k v)" "w_queue (waits k' v) = w_queue (waits k v)" for v
    by (simp_all add: same k2_def)
  moreover have "wqueue_ok L q k'"
    unfolding wqueue_ok_def wt
  proof (intro conjI ballI)
    have l: "wqueues k' q = ws" using q by (simp add: same k2_def)
    with wq q show "distinct (wqueues k' q)" by (simp add: wqueue_ok_def)
    fix v assume "v \<in> set (wqueues k' q)"
    with wq q l obtain x where v: "w_queue (waits k v) = q" "x \<in> L" "w_proc (waits k v) = Some x"
      "p_state (procs k x) \<noteq> PROC_ZOMBIE" unfolding wqueue_ok_def by auto
    then have "p_state (procs k' x) \<noteq> PROC_ZOMBIE" by (simp add: st)
    with v show "w_queue (waits k v) = q"
      "\<exists>p \<in> L. w_proc (waits k v) = Some p \<and> p_state (procs k' p) \<noteq> PROC_ZOMBIE" by blast+
  qed
  ultimately show thesis using that k'(2) p(2) st by blast
qed

lemma wakeup_queue_del_spec:
  assumes "sched_ok ready inv L k" and "wqueue_ok L q k"
  shows "\<exists>k'. wakeup_queue sc q fl True k = Some k' \<and> sched_ok ready inv L k' \<and>
    wqueues k' = (wqueues k)(q := []) \<and> idleproc k' = idleproc k \<and>
    (\<forall>x. p_state (procs k' x) =
      (if Some x \<in> w_proc ` waits k ` set (wqueues k q) then PROC_RUNNABLE else p_state (procs k x)))"
proof -
  have "\<exists>k'. wakeup_del_loop sc q fl (length (wqueues k q)) k = Some k' \<and> sched_ok ready inv L k' \<and>
    wqueues k' = (wqueues k)(q := []) \<and> idleproc k' = idleproc k \<and>
    (\<forall>x. p_state (procs k' x) =
      (if Some x \<in> w_proc ` waits k ` set (wqueues k q) then PROC_RUNNABLE else p_state (procs k x)))"
    using assms
  proof (induction "wqueues k q" arbitrary: k)
    case Nil
    then have q: "wqueues k q = []" by simp
    then have "wqueues k = (wqueues k)(q := [])" by auto
    with q Nil show ?case by simp
  next
    case (Cons w ws)
    note q = Cons.hyps(2) [symmetric]
    obtain k1 p where k1: "wakeup_wait sc q w fl True k = Some k1" "sched_ok ready inv L k1"
      "wqueue_ok L q k1" "wqueues k1 = (wqueues k)(q := ws)" "w_proc (waits k w) = Some p"
      "\<And>v. w_proc (waits k1 v) = w_proc (waits k v)" "idleproc k1 = idleproc k"
      "\<And>x. p_state (procs k1 x) = (if x = p then PROC_RUNNABLE else p_state (procs k x))"
      by (rule wakeup_wait_del_spec [OF Cons.prems q, of fl]) (rule that)
    have ws: "ws = wqueues k1 q" using k1(4) by simp
    from Cons.hyps(1) [OF ws k1(2,3)] obtain k' where
      k': "wakeup_del_loop sc q fl (length ws) k1 = Some k'" "sched_ok ready inv L k'"
      "wqueues k' = (wqueues k)(q := [])" "idleproc k' = idleproc k" and
      st: "\<And>x. p_state (procs k' x) =
        (if Some x \<in> w_proc ` waits k1 ` set ws then PROC_RUNNABLE else p_state (procs k1 x))"
      unfolding ws [symmetric] k1(4,7) by auto
    have "w_proc ` waits k1 ` set ws = w_proc ` waits k ` set ws"
      unfolding image_image k1(6) ..
    then have "\<forall>x. p_state (procs k' x) = (if Some x \<in> w_proc ` waits k ` set (w # ws)
        then PROC_RUNNABLE else p_state (procs k x))"
      using st k1(5,8) by auto
    with k' k1(1) q show ?case by (simp add: wait_queue_first_def)
  qed
  then show ?thesis
    using assms by (cases "wqueues k q") (auto simp: wakeup_queue_def wait_queue_first_def)
qed

end

section \<open>Properties\<close>

text \<open>
  C2: However the processes' calls of up, down, try_down and their preemptions interleave, the value
  of every semaphore is its initial value plus the ups minus the downs that obtained it; it never
  becomes negative, it is zero while a process waits, and the run queue stays the set of runnable
  processes. A process inside a blocked down sleeps as long as its wait is in the queue and is
  runnable from the up that takes it out. No assertion can fail: up, schedule and the first half of
  down return for every semaphore, and when a process resumes inside a blocked down, the second
  half returns the flags 0 that down asserts. The start is any state of a well-formed run queue in
  which no process waits, and a blocking process is not the idle process.
\<close>

theorem semaphores_conserve:
  assumes "sched_ok stride_ready stride_inv L k" and "idleproc k \<in> L"
    and "p_state (procs k (current k)) = PROC_RUNNABLE"
    and "p_state (procs k (idleproc k)) = PROC_RUNNABLE"
    and "\<forall>s \<in> S. 0 \<le> sem_value k s \<and> wqueues k s = []"
    and "(sync_step stride_sched_class S)\<^sup>*\<^sup>*
      (k, \<lambda>_. 0, \<lambda>_. 0, \<lambda>_. None) (k', u, d, pend)"
  shows "sched_ok stride_ready stride_inv L k' \<and> schedule stride_sched_class k' \<noteq> None \<and>
    (\<forall>s \<in> S. sem_value k' s = sem_value k s + int (u s) - int (d s) \<and> 0 \<le> sem_value k' s \<and>
       (wqueues k' s \<noteq> [] \<longrightarrow> sem_value k' s = 0) \<and> up stride_sched_class s k' \<noteq> None \<and>
       (\<forall>w. unused_wait w pend k' \<longrightarrow> down_begin s w WT_KSEM k' \<noteq> None)) \<and>
    (\<forall>p s w. pend p = Some (s, w) \<longrightarrow>
       p_state (procs k' p) = (if w \<in> set (wqueues k' s) then PROC_SLEEPING else PROC_RUNNABLE)) \<and>
    (\<forall>s w. pend (current k') = Some (s, w) \<longrightarrow> down_end s w WT_KSEM k' = Some (0, k'))"
proof -
  have "sync_inv stride_ready stride_inv S L (sem_value k) (k, \<lambda>_. 0, \<lambda>_. 0, \<lambda>_. None)"
    using assms(1-5) by (auto simp: sync_inv_def sems_ok_def pending_ok_def)
  from stride.sync_reach_inv [OF assms(6) this] have
    ok: "sched_ok stride_ready stride_inv L k'" "sems_ok S L k'" "idleproc k' \<in> L" and
    run: "p_state (procs k' (current k')) = PROC_RUNNABLE" and p: "pending_ok S pend k'" and
    v: "\<forall>s \<in> S. sem_value k' s = sem_value k s + int (u s) - int (d s)"
    by (simp_all add: sync_inv_def)
  have "schedule stride_sched_class k' \<noteq> None"
    using stride.schedule_spec [OF ok(1,3)] by auto
  moreover have "up stride_sched_class s k' \<noteq> None" if "s \<in> S" for s
    using stride.up_spec [OF ok(1,2) that] by auto
  moreover have "down_begin s w WT_KSEM k' \<noteq> None" if "s \<in> S" "unused_wait w pend k'" for s w
    using stride.down_begin_spec [OF ok(1,2) that(1) _ run, of w] that(2)
    by (auto simp: unused_wait_def)
  moreover have "p_state (procs k' p) =
      (if w \<in> set (wqueues k' s) then PROC_SLEEPING else PROC_RUNNABLE)" if "pend p = Some (s, w)" for p s w
    using pending_okD(4) [OF p that] by (auto split: if_splits)
  ultimately show ?thesis
    using ok(1) v sems_okD(1,2) [OF ok(2)] pending_resume [OF p _ run] by auto
qed

lemma two_procs_up: "up stride_sched_class 9 two_procs = Some (upd_sem 9 (\<lambda>v. v + 1) two_procs)"
  by (simp add: up_def up_with_def wait_queue_first_def)

theorem semaphores_conserve_witness:
  "sem_value (upd_sem 9 (\<lambda>v. v + 1) two_procs) 9 = 1 \<and>
    schedule stride_sched_class (upd_sem 9 (\<lambda>v. v + 1) two_procs) \<noteq> None"
  using semaphores_conserve [OF two_procs_ok(1), of "{9}" "upd_sem 9 (\<lambda>v. v + 1) two_procs"
      "(\<lambda>_. 0)(9 := 1)" "\<lambda>_. 0" "\<lambda>_. None"]
    sync_step.step_up [of "\<lambda>_. None" two_procs 9 "{9}" stride_sched_class _ "\<lambda>_. 0" "\<lambda>_. 0",
      OF _ _ two_procs_up]
  by auto

text \<open>
  up on a semaphore with waiters wakes the one that has waited longest, hands the semaphore over
  without changing its value, and when that process resumes the second half of its down returns 0
  and changes nothing.
\<close>

theorem up_hands_over:
  assumes "sched_ok stride_ready stride_inv L k" and "sems_ok S L k" and "s \<in> S"
    and "wqueues k s = w # ws"
  shows "\<exists>k' p. up stride_sched_class s k = Some k' \<and> w_proc (waits k w) = Some p \<and>
    p_state (procs k' p) = PROC_RUNNABLE \<and> wqueues k' s = ws \<and> sem_value k' = sem_value k \<and>
    sems_ok S L k' \<and>
    (\<forall>k2. waits k2 w = waits k' w \<and> w \<notin> set (wqueues k2 s) \<longrightarrow>
       down_end s w WT_KSEM k2 = Some (0, k2))"
proof -
  have w: "w_queue (waits k w) = s" using sems_okD(4) [OF assms(2,3)] assms(4) by simp
  from stride.up_spec [OF assms(1-3)] obtain k' p where
    k': "up stride_sched_class s k = Some k'" "sems_ok S L k'" "sem_value k' = sem_value k"
      "wqueues k' = (wqueues k)(s := ws)" and
    wt: "waits k' = (waits k)(w := (waits k w)\<lparr>w_flags := WT_KSEM\<rparr>)" and
    p: "w_proc (waits k w) = Some p" "p_state (procs k' p) = PROC_RUNNABLE"
    unfolding assms(4) by auto
  have "down_end s w WT_KSEM k2 = Some (0, k2)"
    if "waits k2 w = waits k' w" "w \<notin> set (wqueues k2 s)" for k2
    using that w by (simp add: wt down_end_def wait_current_del_def wait_in_queue_def)
  with k' p show ?thesis by auto
qed

definition one_waiter :: kernel where
  "one_waiter = two_procs\<lparr>wqueues := (\<lambda>_. [])(9 := [7]),
     waits := (\<lambda>_. \<lparr>w_proc = Some 3, w_flags = WT_INTERRUPTED, w_queue = 9\<rparr>),
     procs := (procs two_procs)(3 := proc0\<lparr>p_state := PROC_SLEEPING, p_wait_state := WT_KSEM\<rparr>)\<rparr>"

lemma one_waiter_ok: "sched_ok stride_ready stride_inv {0, 1, 2, 3} one_waiter"
  "sems_ok {9} {0, 1, 2, 3} one_waiter" "wqueues one_waiter 9 = [7]"
  "wqueue_ok {0, 1, 2, 3} 9 one_waiter"
  by (auto simp: one_waiter_def sched_ok_def stride_ready_def stride_inv_def sems_ok_def wqueue_ok_def)

theorem up_hands_over_witness:
  "\<exists>k'. up stride_sched_class 9 one_waiter = Some k' \<and> p_state (procs k' 3) = PROC_RUNNABLE"
  using up_hands_over [OF one_waiter_ok(1,2) _ one_waiter_ok(3)]
  by (auto simp: one_waiter_def)

text \<open>
  down on a semaphore of value zero puts the caller to sleep at the end of the wait queue, and
  the schedule that follows gives the CPU to another process.
\<close>

theorem down_blocks:
  assumes ok: "sched_ok stride_ready stride_inv L k" and sems: "sems_ok S L k" and s: "s \<in> S"
    and fresh: "\<forall>t. w \<notin> set (wqueues k t)" and run: "p_state (procs k (current k)) = PROC_RUNNABLE"
    and idle: "idleproc k \<in> L" "current k \<noteq> idleproc k" and zero: "sem_value k s = 0"
  shows "\<exists>k1 k'. down_begin s w WT_KSEM k = Some (False, k1) \<and>
    wqueues k1 s = wqueues k s @ [w] \<and> p_state (procs k1 (current k)) = PROC_SLEEPING \<and>
    schedule stride_sched_class k1 = Some k' \<and> current k' \<noteq> current k \<and>
    sched_ok stride_ready stride_inv L k' \<and> sems_ok S L k'"
proof -
  from stride.down_begin_spec [OF ok sems s fresh run] zero obtain k1 where
    k1: "down_begin s w WT_KSEM k = Some (False, k1)" "sched_ok stride_ready stride_inv L k1"
      "sems_ok S L k1" "current k1 = current k" "wqueues k1 = (wqueues k)(s := wqueues k s @ [w])"
      "p_state (procs k1 (current k)) = PROC_SLEEPING"
    by auto
  have id: "idleproc k1 = idleproc k"
    using k1(1) by (auto simp: down_begin_def wait_current_set_def wait_queue_add_def wait_init_def
        Let_def split: if_splits)
  from stride.schedule_spec [OF k1(2)] idle(1) id obtain k' where
    k': "schedule stride_sched_class k1 = Some k'" "sched_ok stride_ready stride_inv L k'"
      "switch_frame k1 k'" and
    c: "current k' = idleproc k \<or> p_state (procs k1 (current k')) = PROC_RUNNABLE"
    by (auto split: if_splits)
  have "current k' \<noteq> current k" using c k1(6) idle(2) by auto
  with k1 k' stride.schedule_sems [OF k1(3) k'(3)] show ?thesis by auto
qed

theorem down_blocks_witness:
  "\<exists>k1 k'. down_begin 9 8 WT_KSEM one_waiter = Some (False, k1) \<and> wqueues k1 9 = [7, 8] \<and>
    schedule stride_sched_class k1 = Some k' \<and> current k' \<noteq> 1"
  using down_blocks [OF one_waiter_ok(1,2), of 9 8] by (auto simp: one_waiter_def)

text \<open>
  wakeup_queue with deletion returns with an empty queue, and every process that waited in it
  is runnable; no other process and no other queue changes.
\<close>

theorem wakeup_queue_empties:
  assumes "sched_ok stride_ready stride_inv L k" and "wqueue_ok L q k"
  shows "\<exists>k'. wakeup_queue stride_sched_class q fl True k = Some k' \<and>
    sched_ok stride_ready stride_inv L k' \<and> wqueues k' = (wqueues k)(q := []) \<and>
    (\<forall>x. p_state (procs k' x) =
      (if Some x \<in> w_proc ` waits k ` set (wqueues k q) then PROC_RUNNABLE else p_state (procs k x)))"
  using stride.wakeup_queue_del_spec [OF assms, of fl] by blast

theorem wakeup_queue_empties_witness:
  "\<exists>k'. wakeup_queue stride_sched_class 9 WT_KBD True one_waiter = Some k' \<and> wqueues k' 9 = [] \<and>
    p_state (procs k' 3) = PROC_RUNNABLE"
  using wakeup_queue_empties [OF one_waiter_ok(1,4), of WT_KBD] by (auto simp: one_waiter_def)

end
