(* ===== verification/Proc_Exit.thy ===== *)
theory Proc_Exit
  imports Proc Sync
begin

text \<open>
  The rest of \<^verbatim>\<open>kern/process/proc.c\<close>: \<^verbatim>\<open>do_exit\<close>, \<^verbatim>\<open>do_wait\<close>,
  \<^verbatim>\<open>do_kill\<close>, \<^verbatim>\<open>do_yield\<close>, \<^verbatim>\<open>do_sleep\<close>,
  \<^verbatim>\<open>lab6_set_priority\<close>, \<^verbatim>\<open>kernel_thread\<close> and \<^verbatim>\<open>proc_init\<close>. An exiting
  process hands its children over to the init process one by one; \<open>exit_family\<close> shows the family
  this leaves, \<open>exit_wakes_parent\<close> that a parent in \<^verbatim>\<open>do_wait\<close> is not forgotten.
\<close>

section \<open>exit\<close>

text \<open>The link updates of one round of the loop, and the round.\<close>

definition hand_over_links :: "nat \<Rightarrow> kernel \<Rightarrow> kernel" where
  "hand_over_links c k =
     (let cur = current k; ini = initproc k;
          k = upd_proc cur (\<lambda>q. q\<lparr>p_cptr := p_optr (procs k c)\<rparr>) k;
          k = upd_proc c (\<lambda>q. q\<lparr>p_yptr := None\<rparr>) k;
          k = upd_proc c (\<lambda>q. q\<lparr>p_optr := p_cptr (procs k ini)\<rparr>) k;
          k = (case p_optr (procs k c) of
                 None \<Rightarrow> k | Some y \<Rightarrow> upd_proc y (\<lambda>q. q\<lparr>p_yptr := Some c\<rparr>) k);
          k = upd_proc c (\<lambda>q. q\<lparr>p_parent := Some ini\<rparr>) k
      in upd_proc ini (\<lambda>q. q\<lparr>p_cptr := Some c\<rparr>) k)"

definition hand_over :: "sched_class \<Rightarrow> nat \<Rightarrow> kernel \<Rightarrow> kernel option" where
  "hand_over sc c k =
     (let k = hand_over_links c k in
      if p_state (procs k c) = PROC_ZOMBIE \<and> p_wait_state (procs k (initproc k)) = WT_CHILD
      then wakeup_proc sc (initproc k) k else Some k)"

partial_function (option) exit_reparent :: "sched_class \<Rightarrow> kernel \<Rightarrow> kernel option" where
  "exit_reparent sc k =
     (case p_cptr (procs k (current k)) of
        None \<Rightarrow> Some k
      | Some c \<Rightarrow> Option.bind (hand_over sc c k) (exit_reparent sc))"

declare exit_reparent.simps [code]

text \<open>\<^verbatim>\<open>exit_mmap\<close>, \<^verbatim>\<open>put_pgdir\<close> and \<^verbatim>\<open>mm_destroy\<close> free the address space.\<close>

definition exit_mm :: "u64 \<Rightarrow> pm \<Rightarrow> pm" where
  "exit_mm boot_cr3 s =
     (let cur = current (ker s) in
      case p_mm (procs (ker s) cur) of
        None \<Rightarrow> s
      | Some m \<Rightarrow>
          let s = upd_ker (\<lambda>k. k\<lparr>cr3_reg := boot_cr3\<rparr>) s;
              (n, s) = mm_count_dec m s;
              s = (if n = 0 then mm_release m s else s);
              s = upd_ker (upd_proc cur (\<lambda>q. q\<lparr>p_mm := None\<rparr>)) s
          in put_files cur s)"

text \<open>
  \<^verbatim>\<open>do_exit\<close> up to its call of \<^verbatim>\<open>schedule\<close>, after which the process never runs again. The
  parent pointer is followed without a check.
\<close>

definition exit_notify :: "sched_class \<Rightarrow> int \<Rightarrow> kernel \<Rightarrow> kernel option" where
  "exit_notify sc code k = do {
     let cur = current k;
     let k = upd_proc cur (\<lambda>q. q\<lparr>p_state := PROC_ZOMBIE\<rparr>) k;
     let k = upd_proc cur (\<lambda>q. q\<lparr>p_exit_code := code\<rparr>) k;
     par \<leftarrow> p_parent (procs k cur);
     k \<leftarrow> (if p_wait_state (procs k par) = WT_CHILD then wakeup_proc sc par k else Some k);
     exit_reparent sc k
   }"

definition do_exit :: "sched_class \<Rightarrow> u64 \<Rightarrow> int \<Rightarrow> pm \<Rightarrow> pm option" where
  "do_exit sc boot_cr3 code s = do {
     kassert (current (ker s) \<noteq> idleproc (ker s));
     kassert (current (ker s) \<noteq> initproc (ker s));
     s \<leftarrow> lift_ker (exit_notify sc code) (exit_mm boot_cr3 s);
     lift_ker (schedule sc) s
   }"

section \<open>yield, kill, priority, sleep\<close>

definition do_yield :: "kernel \<Rightarrow> int \<times> kernel" where
  "do_yield k = (0, upd_proc (current k) (\<lambda>q. q\<lparr>p_need_resched := True\<rparr>) k)"

definition do_kill :: "sched_class \<Rightarrow> int \<Rightarrow> kernel \<Rightarrow> (int \<times> kernel) option" where
  "do_kill sc pid k =
     (case find_proc pid k of
        None \<Rightarrow> Some (- E_INVAL, k)
      | Some p \<Rightarrow>
          if p_flags (procs k p) AND PF_EXITING = 0 then do {
            let k = upd_proc p (\<lambda>q. q\<lparr>p_flags := p_flags q OR PF_EXITING\<rparr>) k;
            k \<leftarrow> (if p_wait_state (procs k p) AND WT_INTERRUPTED \<noteq> 0 then wakeup_proc sc p k else Some k);
            Some (0, k)
          } else Some (- E_KILLED, k))"

definition lab6_set_priority :: "u32 \<Rightarrow> kernel \<Rightarrow> kernel" where
  "lab6_set_priority prio k =
     upd_proc (current k) (\<lambda>q. q\<lparr>p_priority := (if prio = 0 then 1 else prio)\<rparr>) k"

text \<open>The timer lives on the caller's stack, at \<open>t\<close>.\<close>

definition do_sleep_begin :: "nat \<Rightarrow> u32 \<Rightarrow> kernel \<Rightarrow> kernel option" where
  "do_sleep_begin t time k =
     (let k = timer_init t (current k) time k;
          k = upd_proc (current k) (\<lambda>q. q\<lparr>p_state := PROC_SLEEPING\<rparr>) k;
          k = upd_proc (current k) (\<lambda>q. q\<lparr>p_wait_state := WT_TIMER\<rparr>) k
      in add_timer t k)"

definition do_sleep :: "(kernel \<Rightarrow> kernel option) \<Rightarrow> nat \<Rightarrow> u32 \<Rightarrow> kernel \<Rightarrow> (int \<times> kernel) option" where
  "do_sleep switch t time k =
     (if time = 0 then Some (0, k)
      else do {
        k \<leftarrow> do_sleep_begin t time k;
        k \<leftarrow> switch k;
        Some (0, del_timer t k)
      })"

section \<open>wait\<close>

text \<open>The sibling walk \<open>for (; proc != NULL; proc = proc->optr)\<close>; it may not end on a cyclic list.\<close>

partial_function (option) wait_walk :: "kernel \<Rightarrow> nat option \<Rightarrow> nat option option" where
  "wait_walk k c =
     (case c of
        None \<Rightarrow> Some None
      | Some p \<Rightarrow> if p_state (procs k p) = PROC_ZOMBIE then Some (Some p)
                  else wait_walk k (p_optr (procs k p)))"

declare wait_walk.simps [code]

text \<open>One round of \<^verbatim>\<open>do_wait\<close>: whether there is a child, and the zombie found.\<close>

definition wait_scan :: "int \<Rightarrow> kernel \<Rightarrow> (bool \<times> nat option) option" where
  "wait_scan pid k =
     (if pid \<noteq> 0 then
        Some (case find_proc pid k of
                None \<Rightarrow> (False, None)
              | Some p \<Rightarrow>
                  if p_parent (procs k p) = Some (current k)
                  then (True, if p_state (procs k p) = PROC_ZOMBIE then Some p else None)
                  else (False, None))
      else map_option (\<lambda>z. (p_cptr (procs k (current k)) \<noteq> None, z))
             (wait_walk k (p_cptr (procs k (current k)))))"

datatype wait_result = WaitDone int "int option" | WaitKilled

text \<open>The tail at \<^verbatim>\<open>found\<close>: the result is the exit code that is stored.\<close>

definition wait_found :: "bool \<Rightarrow> nat \<Rightarrow> pm \<Rightarrow> (wait_result \<times> pm) option" where
  "wait_found store p s = do {
     kassert (p \<noteq> idleproc (ker s) \<and> p \<noteq> initproc (ker s));
     let code = (if store then Some (p_exit_code (procs (ker s) p)) else None);
     s \<leftarrow> lift_ker (wait_reap p) s;
     let s = put_kstack p s;
     Some (WaitDone 0 code, s\<lparr>pblocks := pblocks s - {p}\<rparr>)
   }"

definition wait_sleep :: "kernel \<Rightarrow> kernel" where
  "wait_sleep k = upd_proc (current k) (\<lambda>q. q\<lparr>p_state := PROC_SLEEPING, p_wait_state := WT_CHILD\<rparr>) k"

text \<open>
  \<open>store\<close>: the caller passed a pointer for the exit code; \<open>mem_ok\<close> is \<^verbatim>\<open>user_mem_check\<close> of
  it. \<open>WaitKilled\<close> is the branch that calls \<^verbatim>\<open>do_exit(-E_KILLED)\<close>.
\<close>

partial_function (option) do_wait_loop ::
  "(pm \<Rightarrow> pm option) \<Rightarrow> int \<Rightarrow> bool \<Rightarrow> pm \<Rightarrow> (wait_result \<times> pm) option"
where
  "do_wait_loop switch pid store s =
     Option.bind (wait_scan pid (ker s)) (\<lambda>r.
       case snd r of
         Some p \<Rightarrow> wait_found store p s
       | None \<Rightarrow>
           if fst r then
             Option.bind (switch (upd_ker wait_sleep s)) (\<lambda>s.
               if p_flags (procs (ker s) (current (ker s))) AND PF_EXITING \<noteq> 0 then Some (WaitKilled, s)
               else do_wait_loop switch pid store s)
           else Some (WaitDone (- E_BAD_PROC) None, s))"

declare do_wait_loop.simps [code]

definition do_wait ::
  "(pm \<Rightarrow> pm option) \<Rightarrow> bool \<Rightarrow> int \<Rightarrow> bool \<Rightarrow> pm \<Rightarrow> (wait_result \<times> pm) option"
where
  "do_wait switch mem_ok pid store s =
     (if store \<and> \<not> mem_ok then Some (WaitDone (- E_INVAL) None, s)
      else do_wait_loop switch pid store s)"

section \<open>The children of an exiting process\<close>

lemma upd_proc_keeps:
  "(\<And>x. p_state (f x) = p_state x) \<Longrightarrow> p_state (procs (upd_proc p f k) q) = p_state (procs k q)"
  "(\<And>x. p_wait_state (f x) = p_wait_state x) \<Longrightarrow>
     p_wait_state (procs (upd_proc p f k) q) = p_wait_state (procs k q)"
  by auto

lemma hand_over_state:
  "p_state (procs (hand_over_links c k) q) = p_state (procs k q)"
  "p_wait_state (procs (hand_over_links c k) q) = p_wait_state (procs k q)"
  unfolding hand_over_links_def Let_def
  by (cases "p_cptr (procs k (initproc k))"; simp add: upd_proc_keeps del: procs_upd_proc split: option.split)+

lemma hand_over_fields:
  assumes "c \<noteq> initproc k" and "current k \<noteq> initproc k" and "p_cptr (procs k (initproc k)) \<noteq> Some c"
  shows "p_cptr (procs (hand_over_links c k) q) = (if q = initproc k then Some c
      else if q = current k then p_optr (procs k c) else p_cptr (procs k q))"
    and "p_optr (procs (hand_over_links c k) q) =
      (if q = c then p_cptr (procs k (initproc k)) else p_optr (procs k q))"
    and "p_yptr (procs (hand_over_links c k) q) = (if q = c then None
      else if Some q = p_cptr (procs k (initproc k)) then Some c else p_yptr (procs k q))"
    and "p_parent (procs (hand_over_links c k) q) = (if q = c then Some (initproc k) else p_parent (procs k q))"
    and "p_state (procs (hand_over_links c k) q) = p_state (procs k q)"
    and "p_wait_state (procs (hand_over_links c k) q) = p_wait_state (procs k q)"
    and "p_pid (procs (hand_over_links c k) q) = p_pid (procs k q)"
  using assms by (auto simp: hand_over_links_def Let_def split: option.splits)

lemma hand_over_globals:
  "current (hand_over_links c k) = current k" "initproc (hand_over_links c k) = initproc k"
  "idleproc (hand_over_links c k) = idleproc k" "rq (hand_over_links c k) = rq k"
  "proc_list (hand_over_links c k) = proc_list k" "hash_lists (hand_over_links c k) = hash_lists k"
  "nr_process (hand_over_links c k) = nr_process k" "last_pid (hand_over_links c k) = last_pid k"
  "next_safe (hand_over_links c k) = next_safe k"
  by (auto simp: hand_over_links_def Let_def split: option.splits)

lemma hand_over_family:
  assumes fam: "family_at ((\<lambda>_. None)(current k := y)) (procs k) ch" and ch: "ch (current k) = c # cs"
    and ne: "current k \<noteq> initproc k" "initproc k \<notin> set (ch (current k))"
  shows "family_at ((\<lambda>_. None)(current k := Some c)) (procs (hand_over_links c k))
    (ch(current k := cs, initproc k := c # ch (initproc k)))"
proof -
  let ?cur = "current k" and ?ini = "initproc k" and ?k = "hand_over_links c k"
  let ?ch = "ch(?cur := cs, ?ini := c # ch ?ini)"
  note D = family_atD [OF fam]
  have c_in: "c \<in> set (ch ?cur)" using ch by simp
  have c_ini: "c \<notin> set (ch ?ini)" using family_at_disjoint [OF fam c_in] ne(1) by blast
  then have pc: "p_cptr (procs k ?ini) \<noteq> Some c" using D(2) [of ?ini] by (cases "ch ?ini") auto
  have "c \<noteq> ?ini" using ne(2) c_in by blast
  note f = hand_over_fields [OF this ne(1) pc]
  have old: "p_cptr (procs k ?ini) = Some x \<Longrightarrow> x \<in> set (ch ?ini)" for x
    using D(2) [of ?ini] by (cases "ch ?ini") auto
  have oc: "p_optr (procs k c) = first cs"
    using D(3) [of ?cur] ch by (simp add: first_def)
  show ?thesis
  proof (rule family_atI)
    fix q
    show "distinct (?ch q)" using D(1) [of q] D(1) [of ?cur] D(1) [of ?ini] ch c_ini by auto
    show "p_cptr (procs ?k q) = first (?ch q)" using D(2) [of q] oc f(1) by simp
    show "p_parent (procs ?k x) = Some q" if "x \<in> set (?ch q)" for x
    proof (cases "x = c")
      case True
      with that have "q = ?ini"
        using D(1) [of ?cur] ch family_at_disjoint [OF fam c_in, of q] by (simp split: if_splits)
      with True show ?thesis by (simp add: f(4))
    next
      case False
      with that ch have "x \<in> set (ch q)" by (auto split: if_splits)
      with False D(4) show ?thesis by (simp add: f(4))
    qed
    show "siblings (procs ?k) (((\<lambda>_. None)(?cur := Some c)) q) (?ch q)"
    proof (cases "q = ?ini")
      case True
      have "siblings (procs ?k) None (c # ch ?ini)"
        by (rule siblings_push [OF fam c_ini])
          (use ne(1) D(2) [of ?ini] f(2,3) c_ini in auto)
      with True ne(1) show ?thesis by simp
    next
      case False
      have same: "siblings (procs ?k) z xs = siblings (procs k) z xs"
        if "set xs \<subseteq> set (ch q)" "c \<notin> set xs" for z xs
      proof (rule siblings_cong)
        fix x assume x: "x \<in> set xs"
        then have "p_cptr (procs k ?ini) \<noteq> Some x"
          using that(1) old family_at_disjoint [OF fam, of x q ?ini] False by blast
        with x that(2) show "p_yptr (procs ?k x) = p_yptr (procs k x) \<and>
            p_optr (procs ?k x) = p_optr (procs k x)"
          by (auto simp: f(2,3))
      qed
      show ?thesis
      proof (cases "q = ?cur")
        case True
        have "siblings (procs k) (Some c) cs" "c \<notin> set cs"
          using D(3) [of ?cur] D(1) [of ?cur] ch by simp_all
        with True False same [of cs] ch show ?thesis by auto
      next
        case 2: False
        have "c \<notin> set (ch q)" using family_at_disjoint [OF fam c_in] 2 by blast
        with same [of "ch q"] D(3) [of q] False 2 show ?thesis by simp
      qed
    qed
  qed
qed

lemma hand_over_table:
  assumes tab: "table_at ((\<lambda>_. None)(current k := y)) ch k" and ch: "ch (current k) = c # cs"
    and ne: "current k \<noteq> initproc k" "initproc k \<notin> set (ch (current k))"
  shows "table_at ((\<lambda>_. None)(current k := Some c))
    (ch(current k := cs, initproc k := c # ch (initproc k))) (hand_over_links c k)"
proof -
  let ?k = "hand_over_links c k" and ?ini = "initproc k"
  from tab have fam: "family_at ((\<lambda>_. None)(current k := y)) (procs k) ch" and hash: "hash_ok k" and
    pids: "pids_ok k" and
    sets: "\<And>q. set (ch q) = {p \<in> set (proc_list k). p_parent (procs k p) = Some q}" and
    nr: "nr_process k = int (length (proc_list k)) + 1"
    by (auto simp: table_at_def)
  have c: "c \<in> set (ch (current k))" "c \<in> set (proc_list k)" using ch sets [of "current k"] by auto
  have "c \<noteq> ?ini" using c ne by blast
  moreover have "p_cptr (procs k ?ini) \<noteq> Some c"
    using family_atD(2) [OF fam, of ?ini] family_at_disjoint [OF fam c(1), of ?ini] ne(1)
    by (cases "ch ?ini") auto
  ultimately have f: "p_parent (procs ?k q) = (if q = c then Some ?ini else p_parent (procs k q))"
    "p_pid (procs ?k q) = p_pid (procs k q)" for q
    using hand_over_fields(4,7) [OF _ ne(1)] by auto
  have "hash_ok ?k" "pids_ok ?k"
    using hash pids by (simp_all add: hash_ok_def pids_ok_def hand_over_globals f)
  moreover have "set ((ch(current k := cs, ?ini := c # ch ?ini)) q) =
      {p \<in> set (proc_list ?k). p_parent (procs ?k p) = Some q}" for q
  proof -
    have "c \<notin> set cs" using family_atD(1) [OF fam, of "current k"] ch by simp
    moreover have "c \<in> set (ch q) \<Longrightarrow> q = current k" using family_at_disjoint [OF fam c(1), of q] by blast
    moreover have "set (ch (current k)) = insert c (set cs)" using ch by simp
    ultimately show ?thesis
      using sets [of q] sets [of "current k"] sets [of ?ini] c ne(1)
      by (auto simp: hand_over_globals f)
  qed
  ultimately show ?thesis
    using hand_over_family [OF fam ch ne] nr by (simp add: table_at_def hand_over_globals)
qed

lemma hand_over_sched:
  "sched_ok stride_ready stride_inv L (hand_over_links c k) = sched_ok stride_ready stride_inv L k"
  by (simp add: sched_ok_def stride_ready_def stride_inv_def hand_over_globals hand_over_state)

text \<open>One round: the links, and the init process woken for a zombie if it waits.\<close>

lemma hand_over_spec:
  assumes tab: "table_at ((\<lambda>_. None)(current k := y)) ch k" and ch: "ch (current k) = c # cs"
    and ne: "current k \<noteq> initproc k" "initproc k \<notin> set (ch (current k))"
    and sch: "sched_ok stride_ready stride_inv L k" "initproc k \<in> L"
    and z: "p_state (procs k (initproc k)) \<noteq> PROC_ZOMBIE"
  shows "\<exists>k'. hand_over stride_sched_class c k = Some k' \<and>
    table_at ((\<lambda>_. None)(current k := Some c))
      (ch(current k := cs, initproc k := c # ch (initproc k))) k' \<and>
    sched_ok stride_ready stride_inv L k' \<and> current k' = current k \<and> initproc k' = initproc k \<and>
    idleproc k' = idleproc k \<and>
    (\<forall>q. q \<noteq> initproc k \<longrightarrow> p_state (procs k' q) = p_state (procs k q)) \<and>
    p_state (procs k' (initproc k)) \<in> {p_state (procs k (initproc k)), PROC_RUNNABLE} \<and>
    p_wait_state (procs k' (initproc k)) \<in> {p_wait_state (procs k (initproc k)), 0} \<and>
    (p_state (procs k c) = PROC_ZOMBIE \<longrightarrow> p_wait_state (procs k' (initproc k)) = WT_CHILD \<longrightarrow>
       p_state (procs k' (initproc k)) = PROC_RUNNABLE)"
proof -
  let ?k = "hand_over_links c k" and ?ini = "initproc k"
  let ?ch = "ch(current k := cs, ?ini := c # ch ?ini)"
  note tab' = hand_over_table [OF tab ch ne]
  note st = hand_over_state [of c k]
  have sch': "sched_ok stride_ready stride_inv L ?k" using sch(1) by (simp add: hand_over_sched)
  show ?thesis
  proof (cases "p_state (procs k c) = PROC_ZOMBIE \<and> p_wait_state (procs k ?ini) = WT_CHILD")
    case False
    with tab' sch' st show ?thesis by (auto simp: hand_over_def hand_over_globals Let_def)
  next
    case True
    from stride.wakeup_proc_spec [OF sch', of ?ini] sch(2) z obtain k' where
      w: "wakeup_proc stride_sched_class ?ini ?k = Some k'" "sched_ok stride_ready stride_inv L k'" and
      fr: "sched_frame (if p_state (procs k ?ini) = PROC_RUNNABLE then ?k
        else upd_proc ?ini (\<lambda>q. q\<lparr>p_state := PROC_RUNNABLE, p_wait_state := 0\<rparr>) ?k) k'"
      by (auto simp: st)
    have "table_at ((\<lambda>_. None)(current k := Some c)) ?ch
      (if p_state (procs k ?ini) = PROC_RUNNABLE then ?k
        else upd_proc ?ini (\<lambda>q. q\<lparr>p_state := PROC_RUNNABLE, p_wait_state := 0\<rparr>) ?k)"
      using tab' table_at_upd_proc [OF tab'] by simp
    note tab'' = table_at_sched_frame [OF this fr]
    have "hand_over stride_sched_class c k = Some k'"
      using True w(1) by (simp add: hand_over_def st hand_over_globals Let_def)
    moreover have "current k' = current k" "initproc k' = ?ini" "idleproc k' = idleproc k"
      using fr by (auto simp: sched_frame_iff hand_over_globals split: if_splits)
    moreover have "p_state (procs k' q) = (if q = ?ini then PROC_RUNNABLE else p_state (procs k q))"
      "p_wait_state (procs k' q) \<in> {p_wait_state (procs k q), 0}" for q
      using sched_frame_state [OF fr, of q] sched_frame_sync(4) [OF fr, of q] st
      by (auto split: if_splits)
    ultimately show ?thesis using tab'' w(2) by simp
  qed
qed

text \<open>
  The loop ends, and leaves the family without the exiting process's children, which are now the
  youngest children of the init process. A zombie among them does not leave init asleep in
  \<^verbatim>\<open>do_wait\<close>.
\<close>

lemma table_at_no_child:
  assumes "table_at ((\<lambda>_. None)(p := y)) ch k" and "ch p = []"
  shows "table_ok ch k"
proof -
  have "family_at (\<lambda>_. None) (procs k) ch"
  proof (rule family_atI)
    have fam: "family_at ((\<lambda>_. None)(p := y)) (procs k) ch" using assms(1) by (simp add: table_at_def)
    fix q
    show "distinct (ch q)" "p_cptr (procs k q) = first (ch q)"
      by (rule family_atD [OF fam])+
    show "c \<in> set (ch q) \<Longrightarrow> p_parent (procs k c) = Some q" for c by (rule family_atD [OF fam])
    show "siblings (procs k) None (ch q)"
      using family_atD(3) [OF fam, of q] assms(2) by (cases "q = p") simp_all
  qed
  with assms(1) show ?thesis by (simp add: table_ok_def table_at_def)
qed

lemma exit_reparent_spec:
  assumes "table_at ((\<lambda>_. None)(current k := y)) ch k"
    and "current k \<noteq> initproc k" "initproc k \<notin> set (ch (current k))"
    and "sched_ok stride_ready stride_inv L k" "initproc k \<in> L"
    and "p_state (procs k (initproc k)) \<noteq> PROC_ZOMBIE"
  shows "\<exists>k'. exit_reparent stride_sched_class k = Some k' \<and>
    table_ok (ch(current k := [], initproc k := rev (ch (current k)) @ ch (initproc k))) k' \<and>
    sched_ok stride_ready stride_inv L k' \<and> current k' = current k \<and> initproc k' = initproc k \<and>
    idleproc k' = idleproc k \<and>
    (\<forall>q. q \<noteq> initproc k \<longrightarrow> p_state (procs k' q) = p_state (procs k q)) \<and>
    p_state (procs k' (initproc k)) \<in> {p_state (procs k (initproc k)), PROC_RUNNABLE} \<and>
    p_wait_state (procs k' (initproc k)) \<in> {p_wait_state (procs k (initproc k)), 0} \<and>
    ((\<exists>c \<in> set (ch (current k)). p_state (procs k c) = PROC_ZOMBIE) \<longrightarrow>
       p_wait_state (procs k' (initproc k)) = WT_CHILD \<longrightarrow> p_state (procs k' (initproc k)) = PROC_RUNNABLE)"
  using assms
proof (induction "ch (current k)" arbitrary: k ch y)
  case Nil
  note e = Nil.hyps [symmetric]
  have "p_cptr (procs k (current k)) = None" using table_at_cptr [OF Nil.prems(1)] e by simp
  then have "exit_reparent stride_sched_class k = Some k" by (subst exit_reparent.simps) simp
  moreover have "ch(current k := [], initproc k := rev [] @ ch (initproc k)) = ch"
    using e by (simp add: fun_upd_idem)
  ultimately show ?case
    using table_at_no_child [OF Nil.prems(1) e] Nil.prems e by (simp del: fun_upd_apply)
next
  case (Cons c cs)
  note e = Cons.hyps(2) [symmetric]
  let ?cur = "current k" and ?ini = "initproc k"
  let ?ch1 = "ch(?cur := cs, ?ini := c # ch ?ini)"
  from hand_over_spec [OF Cons.prems(1) e Cons.prems(2-6)] obtain k1 where
    h: "hand_over stride_sched_class c k = Some k1"
      "table_at ((\<lambda>_. None)(?cur := Some c)) ?ch1 k1" "sched_ok stride_ready stride_inv L k1" and
    g: "current k1 = ?cur" "initproc k1 = ?ini" "idleproc k1 = idleproc k" and
    st: "\<forall>q. q \<noteq> ?ini \<longrightarrow> p_state (procs k1 q) = p_state (procs k q)"
      "p_state (procs k1 ?ini) \<in> {p_state (procs k ?ini), PROC_RUNNABLE}"
      "p_wait_state (procs k1 ?ini) \<in> {p_wait_state (procs k ?ini), 0}"
      "p_state (procs k c) = PROC_ZOMBIE \<longrightarrow> p_wait_state (procs k1 ?ini) = WT_CHILD \<longrightarrow>
         p_state (procs k1 ?ini) = PROC_RUNNABLE"
    by blast
  have ch1: "cs = ?ch1 (current k1)" using Cons.prems(2) g by simp
  have p: "p_cptr (procs k ?cur) = Some c" using table_at_cptr [OF Cons.prems(1)] e by simp
  have ci: "?ch1 (initproc k1) = c # ch ?ini" using g by simp
  have f: "table_at ((\<lambda>_. None)(current k1 := Some c)) ?ch1 k1" "current k1 \<noteq> initproc k1"
    "initproc k1 \<notin> set (?ch1 (current k1))" "initproc k1 \<in> L"
    "p_state (procs k1 (initproc k1)) \<noteq> PROC_ZOMBIE"
    using h(2) g Cons.prems(2,3,5,6) e st(2) by auto
  from Cons.hyps(1) [of ?ch1 k1 "Some c", OF ch1 f(1-3) h(3) f(4,5), unfolded ch1 [symmetric] ci, unfolded g]
  obtain k' where
    r: "exit_reparent stride_sched_class k1 = Some k'"
      "table_ok (?ch1(?cur := [], ?ini := rev cs @ c # ch ?ini)) k'"
      "sched_ok stride_ready stride_inv L k'" "current k' = ?cur" "initproc k' = ?ini"
      "idleproc k' = idleproc k" and
    st': "\<forall>q. q \<noteq> ?ini \<longrightarrow> p_state (procs k' q) = p_state (procs k1 q)"
      "p_state (procs k' ?ini) \<in> {p_state (procs k1 ?ini), PROC_RUNNABLE}"
      "p_wait_state (procs k' ?ini) \<in> {p_wait_state (procs k1 ?ini), 0}"
      "(\<exists>c \<in> set cs. p_state (procs k1 c) = PROC_ZOMBIE) \<longrightarrow>
       p_wait_state (procs k' ?ini) = WT_CHILD \<longrightarrow> p_state (procs k' ?ini) = PROC_RUNNABLE"
    by blast
  have "?ch1(?cur := [], ?ini := rev cs @ c # ch ?ini) =
      ch(?cur := [], ?ini := rev (ch ?cur) @ ch ?ini)"
    using e by (simp add: fun_eq_iff)
  moreover have "exit_reparent stride_sched_class k = Some k'"
    by (subst exit_reparent.simps) (simp add: p h(1) r(1))
  moreover have "p_state (procs k1 x) = p_state (procs k x)" if "x \<in> set cs" for x
    using st(1) that Cons.prems(3) e by (cases "x = ?ini") auto
  then have "(\<exists>c \<in> set (ch ?cur). p_state (procs k c) = PROC_ZOMBIE) \<longrightarrow>
       p_wait_state (procs k' ?ini) = WT_CHILD \<longrightarrow> p_state (procs k' ?ini) = PROC_RUNNABLE"
    using st(4) st'(2-4) e by (auto simp: wait_state_values)
  ultimately show ?case
    using r st(1-3) st'(1-3) by (intro exI [of _ k']) auto
qed

definition exit_ready :: "nat set \<Rightarrow> (nat \<Rightarrow> nat list) \<Rightarrow> kernel \<Rightarrow> bool" where
  "exit_ready L ch k \<longleftrightarrow> table_ok ch k \<and> sched_ok stride_ready stride_inv L k \<and>
     current k \<noteq> idleproc k \<and> current k \<noteq> initproc k \<and> initproc k \<in> L \<and> idleproc k \<in> L \<and>
     initproc k \<notin> set (ch (current k)) \<and> p_state (procs k (initproc k)) \<noteq> PROC_ZOMBIE \<and>
     (\<exists>par \<in> L. p_parent (procs k (current k)) = Some par \<and> par \<noteq> current k \<and>
        p_state (procs k par) \<noteq> PROC_ZOMBIE)"

lemma exit_notify_spec:
  assumes ok: "exit_ready L ch k" and par: "p_parent (procs k (current k)) = Some par"
  shows "\<exists>k'. exit_notify stride_sched_class code k = Some k' \<and>
    table_ok (ch(current k := [], initproc k := rev (ch (current k)) @ ch (initproc k))) k' \<and>
    sched_ok stride_ready stride_inv L k' \<and> current k' = current k \<and> idleproc k' = idleproc k \<and>
    p_state (procs k' (current k)) = PROC_ZOMBIE \<and>
    (p_wait_state (procs k par) = WT_CHILD \<longrightarrow> p_state (procs k' par) = PROC_RUNNABLE)"
proof -
  let ?c = "current k" and ?ini = "initproc k"
  from ok par have tab: "table_ok ch k" and sch: "sched_ok stride_ready stride_inv L k" and
    c: "?c \<noteq> idleproc k" "?c \<noteq> ?ini" and ini: "?ini \<in> L" "?ini \<notin> set (ch ?c)"
      "p_state (procs k ?ini) \<noteq> PROC_ZOMBIE" and
    p: "par \<in> L" "par \<noteq> ?c" "p_state (procs k par) \<noteq> PROC_ZOMBIE"
    by (auto simp: exit_ready_def)
  define k1 where "k1 = upd_proc ?c (\<lambda>q. q\<lparr>p_state := PROC_ZOMBIE, p_exit_code := code\<rparr>) k"
  have tab1: "table_ok ch k1" unfolding k1_def by (rule table_ok_upd_proc [OF tab]) simp
  have sch1: "sched_ok stride_ready stride_inv L k1"
    unfolding k1_def by (rule stride.sched_ok_upd_current [OF sch]) simp
  have "\<exists>k2. (if p_wait_state (procs k1 par) = WT_CHILD then wakeup_proc stride_sched_class par k1
      else Some k1) = Some k2 \<and> table_ok ch k2 \<and> sched_ok stride_ready stride_inv L k2 \<and>
      current k2 = ?c \<and> initproc k2 = ?ini \<and> idleproc k2 = idleproc k \<and>
      (\<forall>q. p_state (procs k2 q) = (if q = par \<and> p_wait_state (procs k par) = WT_CHILD then PROC_RUNNABLE
         else p_state (procs k1 q)))"
  proof (cases "p_wait_state (procs k par) = WT_CHILD")
    case False
    with tab1 sch1 p show ?thesis by (simp add: k1_def)
  next
    case True
    from stride.wakeup_proc_spec [OF sch1 p(1)] p obtain k2 where
      w: "wakeup_proc stride_sched_class par k1 = Some k2" "sched_ok stride_ready stride_inv L k2" and
      fr: "sched_frame (if p_state (procs k1 par) = PROC_RUNNABLE then k1
        else upd_proc par (\<lambda>q. q\<lparr>p_state := PROC_RUNNABLE, p_wait_state := 0\<rparr>) k1) k2"
      by (auto simp: k1_def)
    have "table_ok ch (if p_state (procs k1 par) = PROC_RUNNABLE then k1
        else upd_proc par (\<lambda>q. q\<lparr>p_state := PROC_RUNNABLE, p_wait_state := 0\<rparr>) k1)"
      using tab1 table_ok_upd_proc [OF tab1] by simp
    from table_ok_sched_frame [OF this fr] have "table_ok ch k2" .
    moreover have "current k2 = ?c" "initproc k2 = ?ini" "idleproc k2 = idleproc k"
      using fr by (auto simp: sched_frame_iff k1_def split: if_splits)
    moreover have "p_state (procs k2 q) = (if q = par then PROC_RUNNABLE else p_state (procs k1 q))" for q
      using sched_frame_state [OF fr, of q] by (simp split: if_splits)
    ultimately show ?thesis using True w p(2) by (simp add: k1_def)
  qed
  then obtain k2 where k2: "(if p_wait_state (procs k1 par) = WT_CHILD
      then wakeup_proc stride_sched_class par k1 else Some k1) = Some k2"
    "table_ok ch k2" "sched_ok stride_ready stride_inv L k2" "current k2 = ?c" "initproc k2 = ?ini"
    "idleproc k2 = idleproc k" and
    st2: "\<forall>q. p_state (procs k2 q) = (if q = par \<and> p_wait_state (procs k par) = WT_CHILD
       then PROC_RUNNABLE else p_state (procs k1 q))" by blast
  have t2: "table_at ((\<lambda>_. None)(current k2 := None)) ch k2"
    using k2(2) by (simp add: table_ok_def fun_upd_idem)
  have z2: "p_state (procs k2 (initproc k2)) \<noteq> PROC_ZOMBIE"
    using st2 ini(3) c(2) by (auto simp: k1_def k2(5))
  from exit_reparent_spec [OF t2 _ _ k2(3) _ z2] c(2) ini(1,2) k2(4-6) obtain k' where
    r: "exit_reparent stride_sched_class k2 = Some k'"
      "table_ok (ch(?c := [], ?ini := rev (ch ?c) @ ch ?ini)) k'"
      "sched_ok stride_ready stride_inv L k'" "current k' = ?c" "idleproc k' = idleproc k"
      "\<forall>q. q \<noteq> ?ini \<longrightarrow> p_state (procs k' q) = p_state (procs k2 q)"
      "p_state (procs k' ?ini) \<in> {p_state (procs k2 ?ini), PROC_RUNNABLE}"
    unfolding k2(4-6) by blast
  have "exit_notify stride_sched_class code k = Some k'"
  proof -
    have "p_parent (procs k1 ?c) = Some par" using par by (simp add: k1_def)
    with k2(1) r(1) show ?thesis
      unfolding exit_notify_def Let_def upd_proc_upd k1_def [symmetric] by simp
  qed
  moreover have "p_state (procs k' ?c) = PROC_ZOMBIE" using r(6) c(2) p(2) st2 by (simp add: k1_def)
  moreover have "p_wait_state (procs k par) = WT_CHILD \<Longrightarrow> p_state (procs k' par) = PROC_RUNNABLE"
    using r(6,7) st2 by (cases "par = ?ini") auto
  ultimately show ?thesis using r by blast
qed

lemma exit_mm_ker:
  "\<exists>f c. ker (exit_mm b s) = (upd_proc (current (ker s)) f (ker s))\<lparr>cr3_reg := c\<rparr> \<and>
     (\<forall>q. f q = q \<or> f q = q\<lparr>p_mm := None\<rparr>)"
proof (cases "p_mm (procs (ker s) (current (ker s)))")
  case None
  then have "ker (exit_mm b s) = (upd_proc (current (ker s)) (\<lambda>q. q) (ker s))\<lparr>cr3_reg := cr3_reg (ker s)\<rparr>"
    by (simp add: exit_mm_def upd_proc_def)
  then show ?thesis by blast
next
  case (Some m)
  have k: "ker (put_files p t) = ker t" for p t
    by (auto simp: put_files_def files_count_dec_def files_release_def Let_def split: option.splits)
  have "ker (exit_mm b s) = (upd_proc (current (ker s)) (\<lambda>q. q\<lparr>p_mm := None\<rparr>) (ker s))\<lparr>cr3_reg := b\<rparr>"
    using Some by (simp add: exit_mm_def Let_def k mm_count_dec_def mm_release_def upd_proc_def)
  then show ?thesis by blast
qed

lemma exit_ready_upd:
  assumes ok: "exit_ready L ch k"
    and f: "\<And>q. f q = q \<or> f q = q\<lparr>p_mm := None\<rparr>"
  shows "exit_ready L ch ((upd_proc (current k) f k)\<lparr>cr3_reg := c\<rparr>)"
    and "p_wait_state (procs ((upd_proc (current k) f k)\<lparr>cr3_reg := c\<rparr>) q) = p_wait_state (procs k q)"
    and "p_state (procs ((upd_proc (current k) f k)\<lparr>cr3_reg := c\<rparr>) q) = p_state (procs k q)"
    and "p_parent (procs ((upd_proc (current k) f k)\<lparr>cr3_reg := c\<rparr>) q) = p_parent (procs k q)"
proof -
  let ?k = "(upd_proc (current k) f k)\<lparr>cr3_reg := c\<rparr>"
  have same: "p_state (f q) = p_state q" "p_wait_state (f q) = p_wait_state q" "p_parent (f q) = p_parent q"
    "p_optr (f q) = p_optr q" "p_yptr (f q) = p_yptr q" "p_cptr (f q) = p_cptr q" "p_pid (f q) = p_pid q" for q
    using f [of q] by (metis proc_struct.ext_inject proc_struct.surjective proc_struct.update_convs(7))+
  show "p_wait_state (procs ?k q) = p_wait_state (procs k q)" "p_state (procs ?k q) = p_state (procs k q)"
    "p_parent (procs ?k q) = p_parent (procs k q)"
    by (simp_all add: same)
  from ok have tab: "table_ok ch k" by (simp add: exit_ready_def)
  have "table_ok ch ?k"
    by (rule table_ok_cong [OF tab]) (use table_ok_cptr [OF tab] same in simp_all)
  moreover have "p_state (procs (upd_proc (current k) f k) q) = p_state (procs k q)"
    "p_parent (procs (upd_proc (current k) f k) q) = p_parent (procs k q)" for q
    by (simp_all add: same)
  ultimately show "exit_ready L ch ?k"
    using ok by (simp add: exit_ready_def sched_ok_def stride_ready_def stride_inv_def del: procs_upd_proc)
qed

lemma do_exit_spec:
  assumes ok: "exit_ready L ch (ker s)" and par: "p_parent (procs (ker s) (current (ker s))) = Some par"
  shows "\<exists>s'. do_exit stride_sched_class b code s = Some s' \<and>
    (let k = ker s; k' = ker s' in
     table_ok (ch(current k := [], initproc k := rev (ch (current k)) @ ch (initproc k))) k' \<and>
     sched_ok stride_ready stride_inv L k' \<and> current k' \<noteq> current k \<and>
     p_state (procs k' (current k)) = PROC_ZOMBIE \<and>
     (p_wait_state (procs k par) = WT_CHILD \<longrightarrow> p_state (procs k' par) = PROC_RUNNABLE))"
proof -
  let ?k = "ker s" and ?c = "current (ker s)"
  define k1 where "k1 = ker (exit_mm b s)"
  from exit_mm_ker [of b s] obtain f c where k1: "k1 = (upd_proc ?c f ?k)\<lparr>cr3_reg := c\<rparr>"
    and f: "\<And>q. f q = q \<or> f q = q\<lparr>p_mm := None\<rparr>" unfolding k1_def by blast
  note e = exit_ready_upd [OF ok f, of c, folded k1]
  have g: "current k1 = ?c" "initproc k1 = initproc ?k" "idleproc k1 = idleproc ?k" by (simp_all add: k1)
  have p1: "p_parent (procs k1 (current k1)) = Some par" using par by (simp add: e(4) g)
  from exit_notify_spec [OF e(1) p1, of code, unfolded g e(2)] obtain k2 where
    n: "exit_notify stride_sched_class code k1 = Some k2"
      "table_ok (ch(?c := [], initproc ?k := rev (ch ?c) @ ch (initproc ?k))) k2"
      "sched_ok stride_ready stride_inv L k2" "current k2 = ?c" "idleproc k2 = idleproc ?k"
      "p_state (procs k2 ?c) = PROC_ZOMBIE"
      "p_wait_state (procs ?k par) = WT_CHILD \<longrightarrow> p_state (procs k2 par) = PROC_RUNNABLE" by blast
  have idle: "idleproc k2 \<in> L" "?c \<noteq> idleproc ?k" "?c \<noteq> initproc ?k"
    using ok n(5) by (auto simp: exit_ready_def)
  from stride.schedule_spec [OF n(3) idle(1)] obtain k' where
    k': "schedule stride_sched_class k2 = Some k'" "sched_ok stride_ready stride_inv L k'"
      "\<forall>p. p_state (procs k' p) = p_state (procs k2 p)" and sw: "switch_frame k2 k'" and
    cur: "current k' = idleproc k2 \<or> p_state (procs k2 (current k')) = PROC_RUNNABLE"
    by (auto split: if_splits)
  have "current k' \<noteq> ?c" using cur n(5,6) idle(2) by auto
  moreover have "table_ok (ch(?c := [], initproc ?k := rev (ch ?c) @ ch (initproc ?k))) k'"
    by (rule table_ok_cong [OF n(2)])
      (use sw table_ok_cptr [OF n(2)] in \<open>simp_all add: switch_frame_iff same_but_sched_iff\<close>)
  moreover have "do_exit stride_sched_class b code s = Some ((exit_mm b s)\<lparr>ker := k'\<rparr>)"
    using idle n(1) k'(1) by (simp add: do_exit_def lift_ker_def k1_def [symmetric])
  ultimately show ?thesis using k' n(6,7) by (simp add: Let_def)
qed

section \<open>wait: specification\<close>

lemma wait_walk_siblings:
  "siblings (procs k) y cs \<Longrightarrow> wait_walk k (first cs) =
     Some (find (\<lambda>p. p_state (procs k p) = PROC_ZOMBIE) cs)"
proof (induction cs arbitrary: y)
  case Nil
  show ?case by (subst wait_walk.simps) simp
next
  case (Cons c cs)
  from Cons.prems have "p_optr (procs k c) = first cs" "siblings (procs k) (Some c) cs"
    by (simp_all add: first_def)
  with Cons.IH show ?case by (subst wait_walk.simps) simp
qed

lemma wait_scan_any:
  assumes "table_ok ch k"
  shows "wait_scan 0 k = Some (ch (current k) \<noteq> [],
    find (\<lambda>p. p_state (procs k p) = PROC_ZOMBIE) (ch (current k)))"
proof -
  have fam: "family_at (\<lambda>_. None) (procs k) ch" using assms by (simp add: table_ok_def table_at_def)
  have "p_cptr (procs k (current k)) = first (ch (current k))" by (rule family_atD [OF fam])
  with wait_walk_siblings [OF family_atD(3) [OF fam, where q = "current k"]] show ?thesis
    by (cases "ch (current k)") (simp_all add: wait_scan_def)
qed

lemma wait_scan_pid:
  assumes tab: "table_ok ch k" and pid: "pid \<noteq> 0"
  shows "wait_scan pid k = Some (
    case find (\<lambda>p. p_pid (procs k p) = pid) (ch (current k)) of
      None \<Rightarrow> (False, None)
    | Some p \<Rightarrow> (True, if p_state (procs k p) = PROC_ZOMBIE then Some p else None))"
proof -
  from tab have hash: "hash_ok k" and
    ch: "set (ch (current k)) = {p \<in> set (proc_list k). p_parent (procs k p) = Some (current k)}"
    by (auto simp: table_ok_iff)
  let ?f = "find (\<lambda>p. p_pid (procs k p) = pid) (ch (current k))"
  have eq: "?f = Some p \<longleftrightarrow> find_proc pid k = Some p \<and> p_parent (procs k p) = Some (current k)" for p
  proof
    assume "?f = Some p"
    then have "p \<in> set (ch (current k))" "p_pid (procs k p) = pid" by (auto simp: find_Some_iff)
    with ch find_proc_iff [OF hash] show "find_proc pid k = Some p \<and> p_parent (procs k p) = Some (current k)"
      by auto
  next
    assume a: "find_proc pid k = Some p \<and> p_parent (procs k p) = Some (current k)"
    then have p: "p \<in> set (ch (current k))" "p_pid (procs k p) = pid"
      using ch find_proc_iff [OF hash] by auto
    then have "?f \<noteq> None" by (auto simp: find_None_iff)
    then obtain q where q: "?f = Some q" by auto
    then have "q \<in> set (ch (current k))" "p_pid (procs k q) = pid" by (auto simp: find_Some_iff)
    with p ch hash have "q = p" unfolding hash_ok_def inj_on_def by auto
    with q show "?f = Some p" by simp
  qed
  show ?thesis
  proof (cases "find_proc pid k")
    case None
    have "?f \<noteq> Some q" for q using eq [of q] None by auto
    then have "?f = None" by (meson not_Some_eq)
    with None pid show ?thesis by (simp add: wait_scan_def)
  next
    case (Some p)
    show ?thesis
    proof (cases "p_parent (procs k p) = Some (current k)")
      case True
      with eq Some have "?f = Some p" by simp
      with Some True pid show ?thesis by (simp add: wait_scan_def)
    next
      case False
      have "?f \<noteq> Some q" for q using eq [of q] Some False by auto
      then have "?f = None" by (meson not_Some_eq)
      with Some False pid show ?thesis by (simp add: wait_scan_def)
    qed
  qed
qed

lemma wait_found_spec:
  assumes tab: "table_ok ch (ker s)" and p: "p \<in> set (ch (current (ker s)))"
    and np: "p \<noteq> idleproc (ker s)" "p \<noteq> initproc (ker s)"
  shows "\<exists>s'. wait_found store p s =
      Some (WaitDone 0 (if store then Some (p_exit_code (procs (ker s) p)) else None), s') \<and>
    table_ok (ch(current (ker s) := remove1 p (ch (current (ker s))))) (ker s') \<and>
    find_proc (p_pid (procs (ker s) p)) (ker s') = None \<and>
    pblocks s' = pblocks s - {p} \<and> kstacks s' = kstacks s - {p_kstack (procs (ker s) p)} \<and>
    mms s' = mms s \<and> fss s' = fss s"
proof -
  from wait_reap_ok [OF tab p] obtain k' where
    r: "wait_reap p (ker s) = Some k'"
      "table_ok (ch(current (ker s) := remove1 p (ch (current (ker s))))) k'"
      "find_proc (p_pid (procs (ker s) p)) k' = None" by blast
  have "p_kstack (procs k' p) = p_kstack (procs (ker s) p)"
    using r(1) by (auto simp: wait_reap_def remove_links_def Let_def option_bind_eq_Some
        split: option.splits)
  with r np show ?thesis by (simp add: wait_found_def lift_ker_def put_kstack_def)
qed

section \<open>kill: specification\<close>

lemma find_proc_cong:
  "(\<And>q. p_pid (procs k' q) = p_pid (procs k q)) \<Longrightarrow> hash_lists k' = hash_lists k \<Longrightarrow>
     find_proc pid k' = find_proc pid k"
  by (simp add: find_proc_def)

lemma do_kill_spec:
  assumes hash: "hash_ok k" and sch: "sched_ok stride_ready stride_inv L k"
    and p: "find_proc pid k = Some p" "p \<in> L" "p_state (procs k p) \<noteq> PROC_ZOMBIE"
    and fl: "p_flags (procs k p) AND PF_EXITING = 0"
  shows "\<exists>k'. do_kill stride_sched_class pid k = Some (0, k') \<and> sched_ok stride_ready stride_inv L k' \<and>
    p_flags (procs k' p) = p_flags (procs k p) OR PF_EXITING \<and>
    (p_wait_state (procs k p) AND WT_INTERRUPTED \<noteq> 0 \<longrightarrow> p_state (procs k' p) = PROC_RUNNABLE) \<and>
    (p_wait_state (procs k p) AND WT_INTERRUPTED = 0 \<longrightarrow> p_state (procs k' p) = p_state (procs k p)) \<and>
    do_kill stride_sched_class pid k' = Some (- E_KILLED, k')"
proof -
  define k1 where "k1 = upd_proc p (\<lambda>q. q\<lparr>p_flags := p_flags q OR PF_EXITING\<rparr>) k"
  have sch1: "sched_ok stride_ready stride_inv L k1"
  proof -
    have "p_state (procs k1 q) = p_state (procs k q)" for q by (simp add: k1_def)
    then show ?thesis using sch by (simp add: sched_ok_def stride_ready_def stride_inv_def) (simp add: k1_def)
  qed
  have again: "do_kill stride_sched_class pid k' = Some (- E_KILLED, k')"
    if "p_flags (procs k' p) = p_flags (procs k p) OR PF_EXITING" "find_proc pid k' = Some p" for k'
  proof -
    have "(p_flags (procs k p) OR PF_EXITING) AND PF_EXITING \<noteq> 0"
      by (simp add: bit.conj_disj_distrib2 PF_EXITING_def)
    with that show ?thesis by (simp add: do_kill_def)
  qed
  show ?thesis
  proof (cases "p_wait_state (procs k p) AND WT_INTERRUPTED = 0")
    case True
    have "find_proc pid k1 = Some p" using p(1) find_proc_cong [of k1 k pid] by (simp add: k1_def)
    moreover have "do_kill stride_sched_class pid k = Some (0, k1)"
      using True p(1) fl by (simp add: do_kill_def k1_def)
    ultimately show ?thesis using True sch1 again [of k1] by (simp add: k1_def)
  next
    case False
    from stride.wakeup_proc_spec [OF sch1 p(2)] p(3) obtain k2 where
      w: "wakeup_proc stride_sched_class p k1 = Some k2" "sched_ok stride_ready stride_inv L k2" and
      fr: "sched_frame (if p_state (procs k1 p) = PROC_RUNNABLE then k1
        else upd_proc p (\<lambda>q. q\<lparr>p_state := PROC_RUNNABLE, p_wait_state := 0\<rparr>) k1) k2"
      by (auto simp: k1_def)
    let ?k = "if p_state (procs k1 p) = PROC_RUNNABLE then k1
        else upd_proc p (\<lambda>q. q\<lparr>p_state := PROC_RUNNABLE, p_wait_state := 0\<rparr>) k1"
    have "p_flags (procs ?k p) = p_flags (procs k p) OR PF_EXITING"
      "p_state (procs ?k p) = PROC_RUNNABLE" "\<And>q. p_pid (procs ?k q) = p_pid (procs k q)"
      "hash_lists ?k = hash_lists k"
      by (simp_all add: k1_def)
    with fr have "p_flags (procs k2 p) = p_flags (procs k p) OR PF_EXITING"
      "p_state (procs k2 p) = PROC_RUNNABLE" "\<And>q. p_pid (procs k2 q) = p_pid (procs k q)"
      "hash_lists k2 = hash_lists k"
      unfolding sched_frame_iff same_but_sched_iff by metis+
    moreover from this have "find_proc pid k2 = Some p" using p(1) find_proc_cong [of k2 k pid] by simp
    moreover have "do_kill stride_sched_class pid k = Some (0, k2)"
      using False p(1) fl w(1) by (simp add: do_kill_def k1_def)
    ultimately show ?thesis using False w(2) again [of k2] by simp
  qed
qed

section \<open>Boot: the idle and the init process\<close>

definition SSTATUS_SIE :: u64 where "SSTATUS_SIE = 0x2"
definition SSTATUS_SPIE :: u64 where "SSTATUS_SPIE = 0x20"
definition SSTATUS_SPP :: u64 where "SSTATUS_SPP = 0x100"

definition kernel_thread ::
  "sched_class \<Rightarrow> u64 \<Rightarrow> u64 \<Rightarrow> u64 \<Rightarrow> u64 \<Rightarrow> u32 \<Rightarrow> fork_env \<Rightarrow> pm \<Rightarrow> (int \<times> pm) option"
where
  "kernel_thread sc sstatus entry fn arg flags env s =
     (let tf = \<lparr>gpr = (\<lambda>_. 0)(reg_s0 := fn, reg_s1 := arg),
                tf_status = (sstatus OR SSTATUS_SPP OR SSTATUS_SPIE) AND NOT SSTATUS_SIE,
                tf_epc = entry, tf_tval = 0, tf_cause = 0\<rparr>
      in do_fork sc (flags OR CLONE_VM) 0 tf env s)"

text \<open>
  \<^verbatim>\<open>proc_init\<close> as far as the idle process: \<open>ip\<close> is its block, \<open>bootstack\<close> its stack and
  \<open>fp\<close> its file table.
\<close>

definition proc_init_idle ::
  "u64 \<Rightarrow> u64 \<Rightarrow> nat option \<Rightarrow> nat option \<Rightarrow> u8 list \<Rightarrow> pm \<Rightarrow> pm option"
where
  "proc_init_idle boot_cr3 bootstack ip fp name s = do {
     let s = upd_ker (\<lambda>k. k\<lparr>proc_list := [], hash_lists := (\<lambda>_. [])\<rparr>) s;
     ip \<leftarrow> ip;
     let s = s\<lparr>pblocks := insert ip (pblocks s)\<rparr>;
     let s = upd_ker (upd_proc ip (alloc_proc boot_cr3)) s;
     let s = upd_ker (\<lambda>k. k\<lparr>idleproc := ip\<rparr>) s;
     let s = upd_ker (upd_proc ip (\<lambda>q. q\<lparr>p_pid := 0, p_state := PROC_RUNNABLE, p_kstack := bootstack,
                                       p_need_resched := True\<rparr>)) s;
     f \<leftarrow> fp;
     let s = new_files f s;
     let s = upd_ker (upd_proc ip (\<lambda>q. q\<lparr>p_filesp := Some f\<rparr>)) s;
     let s = files_count_inc f s;
     let s = upd_ker (set_proc_name ip name) s;
     Some (upd_ker (\<lambda>k. k\<lparr>nr_process := nr_process k + 1, current := ip\<rparr>) s)
   }"

definition proc_init ::
  "sched_class \<Rightarrow> u64 \<Rightarrow> u64 \<Rightarrow> nat option \<Rightarrow> nat option \<Rightarrow> u8 list \<Rightarrow> u8 list \<Rightarrow>
     u64 \<Rightarrow> u64 \<Rightarrow> u64 \<Rightarrow> fork_env \<Rightarrow> pm \<Rightarrow> pm option"
where
  "proc_init sc boot_cr3 bootstack ip fp iname nname sstatus entry init_main env s = do {
     s \<leftarrow> proc_init_idle boot_cr3 bootstack ip fp iname s;
     (pid, s) \<leftarrow> kernel_thread sc sstatus entry init_main 0 0 env s;
     kassert (pid > 0);
     ini \<leftarrow> find_proc pid (ker s);
     let s = upd_ker (\<lambda>k. k\<lparr>initproc := ini\<rparr>) s;
     let s = upd_ker (set_proc_name ini nname) s;
     kassert (p_pid (procs (ker s) (idleproc (ker s))) = 0);
     kassert (p_pid (procs (ker s) ini) = 1);
     Some s
   }"

text \<open>One round of \<^verbatim>\<open>cpu_idle\<close>.\<close>

definition cpu_idle_round :: "sched_class \<Rightarrow> kernel \<Rightarrow> kernel option" where
  "cpu_idle_round sc k = (if p_need_resched (procs k (current k)) then schedule sc k else Some k)"

text \<open>Before \<^verbatim>\<open>proc_init\<close>: zeroed globals and an initialised, empty run queue.\<close>

definition pm0 :: pm where
  "pm0 = \<lparr>ker = sched_init stride_sched_class kernel0, mms = {}, mm_cnt = (\<lambda>_. 0), mm_pgdir = (\<lambda>_. 0),
     fss = {}, f_cnt = (\<lambda>_. 0), kstacks = {}, pblocks = {}\<rparr>"

lemma set_proc_name_same:
  "p_state (procs (set_proc_name p nm k) q) = p_state (procs k q)"
  "p_cptr (procs (set_proc_name p nm k) q) = p_cptr (procs k q)"
  "p_optr (procs (set_proc_name p nm k) q) = p_optr (procs k q)"
  "p_yptr (procs (set_proc_name p nm k) q) = p_yptr (procs k q)"
  "p_parent (procs (set_proc_name p nm k) q) = p_parent (procs k q)"
  "p_pid (procs (set_proc_name p nm k) q) = p_pid (procs k q)"
  "p_wait_state (procs (set_proc_name p nm k) q) = p_wait_state (procs k q)"
  "p_filesp (procs (set_proc_name p nm k) q) = p_filesp (procs k q)"
  "p_mm (procs (set_proc_name p nm k) q) = p_mm (procs k q)"
  "rq (set_proc_name p nm k) = rq k" "current (set_proc_name p nm k) = current k"
  "idleproc (set_proc_name p nm k) = idleproc k" "initproc (set_proc_name p nm k) = initproc k"
  "proc_list (set_proc_name p nm k) = proc_list k" "hash_lists (set_proc_name p nm k) = hash_lists k"
  "nr_process (set_proc_name p nm k) = nr_process k" "last_pid (set_proc_name p nm k) = last_pid k"
  "next_safe (set_proc_name p nm k) = next_safe k"
  by (simp_all add: set_proc_name_def Let_def)

lemma sched_init_kernel0:
  "procs (ker pm0) = (\<lambda>_. proc0)" "proc_list (ker pm0) = []" "nr_process (ker pm0) = 0"
  "hash_lists (ker pm0) = (\<lambda>_. [])" "last_pid (ker pm0) = MAX_PID" "next_safe (ker pm0) = MAX_PID"
  "run_pool (rq (ker pm0)) = Leaf" "proc_num (rq (ker pm0)) = 0"
  by (simp_all add: pm0_def sched_init_def stride_sched_class_def stride_init_def Let_def)

lemma proc_init_idle_spec:
  "\<exists>s. proc_init_idle b st (Some ip) (Some f) nm pm0 = Some s \<and> table_ok (\<lambda>_. []) (ker s) \<and>
     sched_ok stride_ready stride_inv {ip} (ker s) \<and> current (ker s) = ip \<and> idleproc (ker s) = ip \<and>
     p_state (procs (ker s) ip) = PROC_RUNNABLE \<and> p_pid (procs (ker s) ip) = 0 \<and>
     p_wait_state (procs (ker s) ip) = 0 \<and> p_mm (procs (ker s) ip) = None \<and>
     p_filesp (procs (ker s) ip) = Some f \<and> fss s = {f} \<and> f_cnt s f = 1 \<and> mms s = {} \<and>
     kstacks s = {} \<and> pblocks s = {ip} \<and> nr_process (ker s) = 1"
proof -
  obtain s where s: "proc_init_idle b st (Some ip) (Some f) nm pm0 = Some s"
    by (simp add: proc_init_idle_def Let_def)
  have r: "pblocks s = {ip}" "fss s = {f}" "f_cnt s f = 1" "mms s = {}" "kstacks s = {}"
    using s by (auto simp: proc_init_idle_def Let_def new_files_def files_count_inc_def pm0_def)
  have g: "current (ker s) = ip" "idleproc (ker s) = ip" "proc_list (ker s) = []" "nr_process (ker s) = 1"
    "hash_lists (ker s) = (\<lambda>_. [])" "last_pid (ker s) = MAX_PID" "next_safe (ker s) = MAX_PID"
    "run_pool (rq (ker s)) = Leaf" "proc_num (rq (ker s)) = 0"
    using s by (auto simp: proc_init_idle_def Let_def new_files_def files_count_inc_def
        set_proc_name_same sched_init_kernel0)
  have p: "p_state (procs (ker s) ip) = PROC_RUNNABLE" "p_pid (procs (ker s) ip) = 0"
    "p_wait_state (procs (ker s) ip) = 0" "p_mm (procs (ker s) ip) = None"
    "p_filesp (procs (ker s) ip) = Some f" "\<And>q. p_cptr (procs (ker s) q) = None"
    using s by (auto simp: proc_init_idle_def Let_def new_files_def files_count_inc_def
        set_proc_name_same sched_init_kernel0 alloc_proc_def)
  have "table_ok (\<lambda>_. []) (ker s)"
    using g p by (auto simp: table_ok_iff family_def family_at_def hash_ok_def pids_ok_def
        MAX_PID_def MAX_PROCESS_def)
  moreover have "sched_ok stride_ready stride_inv {ip} (ker s)"
    using g by (auto simp: sched_ok_def stride_ready_def stride_inv_def)
  ultimately show ?thesis using s r g p by blast
qed

section \<open>Properties\<close>

text \<open>
  Idle 0, init 1, its child 2 running, whose zombie child is 3; init waits for its children.
\<close>

definition ex_family :: kernel where
  "ex_family = kernel0\<lparr>procs := (\<lambda>_. proc0)
     (0 := proc0\<lparr>p_state := PROC_RUNNABLE, p_cptr := Some 1\<rparr>,
      1 := proc0\<lparr>p_state := PROC_SLEEPING, p_wait_state := WT_CHILD, p_pid := 1, p_parent := Some 0,
                 p_cptr := Some 2\<rparr>,
      2 := proc0\<lparr>p_state := PROC_RUNNABLE, p_pid := 2, p_parent := Some 1, p_cptr := Some 3\<rparr>,
      3 := proc0\<lparr>p_state := PROC_ZOMBIE, p_pid := 3, p_parent := Some 2, p_exit_code := 7\<rparr>),
     current := 2, initproc := 1, proc_list := [3, 2, 1],
     hash_lists := (\<lambda>h. filter (\<lambda>p. pid_hashfn (int p) = h) [3, 2, 1]),
     nr_process := 4, last_pid := 3, next_safe := 8192\<rparr>"

abbreviation ex_children :: "nat \<Rightarrow> nat list" where
  "ex_children \<equiv> (\<lambda>_. [])(0 := [1], 1 := [2], 2 := [3])"

lemma ex_family_simps [simp]:
  "procs ex_family 0 = proc0\<lparr>p_state := PROC_RUNNABLE, p_cptr := Some 1\<rparr>"
  "procs ex_family (Suc 0) = proc0\<lparr>p_state := PROC_SLEEPING, p_wait_state := WT_CHILD, p_pid := 1,
     p_parent := Some 0, p_cptr := Some 2\<rparr>"
  "procs ex_family 2 = proc0\<lparr>p_state := PROC_RUNNABLE, p_pid := 2, p_parent := Some 1, p_cptr := Some 3\<rparr>"
  "procs ex_family 3 = proc0\<lparr>p_state := PROC_ZOMBIE, p_pid := 3, p_parent := Some 2, p_exit_code := 7\<rparr>"
  "current ex_family = 2" "idleproc ex_family = 0" "initproc ex_family = 1"
  "proc_list ex_family = [3, 2, 1]" "nr_process ex_family = 4" "last_pid ex_family = 3"
  "next_safe ex_family = 8192" "rq ex_family = rq kernel0"
  "hash_lists ex_family h = filter (\<lambda>p. pid_hashfn (int p) = h) [3, 2, 1]"
  by (simp_all add: ex_family_def)

lemma ex_family_procs:
  "procs ex_family q = (if q = 0 then procs ex_family 0 else if q = 1 then procs ex_family 1
     else if q = 2 then procs ex_family 2 else if q = 3 then procs ex_family 3 else proc0)"
  by (simp add: ex_family_def)

lemma ex_family_hash: "hash_ok ex_family"
proof -
  have pidh: "pid_hashfn (p_pid (procs ex_family p)) = pid_hashfn (int p)" if "p \<in> {1, 2, 3}" for p
    using that by auto
  have "{p \<in> {1, 2, 3}. pid_hashfn (p_pid (procs ex_family p)) = h} =
    {p \<in> {1, 2, 3}. pid_hashfn (int p) = h}" for h
    by (intro Collect_cong conj_cong refl) (simp only: pidh)
  moreover have "set (hash_lists ex_family h) = {p \<in> {1, 2, 3}. pid_hashfn (int p) = h}" for h
  proof -
    have "set [3, 2, 1] = {1, 2, 3 :: nat}" by auto
    then show ?thesis unfolding ex_family_simps(13) set_filter by (rule arg_cong)
  qed
  moreover have "set (proc_list ex_family) = {1, 2, 3}"
    by auto
  moreover have "distinct (hash_lists ex_family h)" for h
    unfolding ex_family_simps(13) by (rule distinct_filter) simp
  ultimately show ?thesis
    unfolding hash_ok_def by (simp add: MAX_PID_def MAX_PROCESS_def inj_on_def del: ex_family_simps(13))
qed

lemma ex_family_family: "family (procs ex_family) ex_children"
proof -
  have "distinct (ex_children q) \<and>
     p_cptr (procs ex_family q) = (case ex_children q of [] \<Rightarrow> None | c # _ \<Rightarrow> Some c) \<and>
     siblings (procs ex_family) None (ex_children q) \<and>
     (\<forall>c \<in> set (ex_children q). p_parent (procs ex_family c) = Some q)" for q
    by (cases "q \<in> {0, 1, 2, 3}") (auto simp: ex_family_procs [of q])
  then show ?thesis unfolding family_def family_at_def by blast
qed

lemma ex_family_ok: "table_ok ex_children ex_family"
proof -
  have "pids_ok ex_family" by (simp add: pids_ok_def MAX_PID_def MAX_PROCESS_def)
  moreover have "set (ex_children q) = {p \<in> set (proc_list ex_family). p_parent (procs ex_family p) = Some q}" for q
    by auto
  ultimately show ?thesis
    unfolding table_ok_iff using ex_family_hash ex_family_family by (simp del: fun_upd_apply)
qed

lemma ex_family_exit: "exit_ready {0, 1, 2} ex_children ex_family"
proof -
  have "p_state (procs ex_family q) = PROC_RUNNABLE \<longrightarrow> q = 0 \<or> q = 2" for q
    by (simp add: ex_family_procs [of q])
  then have "sched_ok stride_ready stride_inv {0, 1, 2} ex_family"
    unfolding sched_ok_def stride_ready_def stride_inv_def by auto
  then show ?thesis
    unfolding exit_ready_def using ex_family_ok by simp
qed

text \<open>
  C19: do_fork, in every case. With MAX_PROCESS processes, or without a block for the new one, it
  returns -E_NO_FREE_PROC or -E_NO_MEM and changes nothing. Otherwise it fails an assertion exactly
  when the caller has a wait state, or gets a kernel stack but has no file table. If one of the
  allocations that the flags ask for fails, it returns -E_NO_MEM, has given back every process block,
  kernel stack, address space, file table and reference it had taken, and has written no process
  block but the one it allocated and freed. Else it returns the pid of a new runnable child in that
  block, registered in the process list, the hash, the family and the run queue, that will see 0 in
  a0, and the only references added are the child's own. The allocators return blocks not in use, and
  the caller's file table and address space, if it has them, are live ones.
\<close>

theorem do_fork_outcome:
  assumes "fork_pre env s" and "\<forall>m. p_mm (procs (ker s) (current (ker s))) = Some m \<longrightarrow> m \<in> mms s"
    and "table_ok ch (ker s)" and "sched_ok stride_ready stride_inv L (ker s)" "L \<subseteq> pblocks s"
  shows "if MAX_PROCESS \<le> nr_process (ker s)
    then do_fork stride_sched_class flags stack tf env s = Some (- E_NO_FREE_PROC, s)
    else case fe_proc env of
      None \<Rightarrow> do_fork stride_sched_class flags stack tf env s = Some (- E_NO_MEM, s)
    | Some p \<Rightarrow> p \<notin> pblocks s \<and>
        (if \<not> fork_asserts env s then do_fork stride_sched_class flags stack tf env s = None
         else if fork_granted flags env s then
           \<exists>pid s'. do_fork stride_sched_class flags stack tf env s = Some (pid, s') \<and>
             table_ok (ch(current (ker s) := p # ch (current (ker s)))) (ker s') \<and>
             sched_ok stride_ready stride_inv (insert p L) (ker s') \<and> forked s tf stack p pid s'
         else \<exists>s'. do_fork stride_sched_class flags stack tf env s = Some (- E_NO_MEM, s') \<and>
             same_resources p s s')"
proof (cases "MAX_PROCESS \<le> nr_process (ker s) \<or> fe_proc env = None")
  case True
  then show ?thesis by (auto simp: do_fork_def)
next
  case False
  then obtain p where p: "fe_proc env = Some p" and n: "nr_process (ker s) < MAX_PROCESS" by auto
  have "p \<notin> pblocks s" using assms(1) p by (simp add: fork_pre_def)
  with do_fork_spec [OF assms n p, of flags stack tf] p n show ?thesis by simp
qed

definition ex_env :: fork_env where
  "ex_env = \<lparr>fe_proc = Some 1, fe_kstack = Some 0x1000, fe_files = Some 11, fe_dup_files = 0,
     fe_mm = None, fe_pgdir = None, fe_dup_mmap = 0, fe_boot_cr3 = 0, fe_forkret = 0x100\<rparr>"

lemma ex_idle_fork_pre:
  assumes "proc_init_idle b st (Some 0) (Some 10) nm pm0 = Some s"
  shows "fork_pre ex_env s"
  using proc_init_idle_spec [of b st 0 10 nm] assms
  by (auto simp: fork_pre_def ex_env_def proc_init_idle_def Let_def set_proc_name_same
      new_files_def files_count_inc_def)

theorem do_fork_outcome_witness:
  "\<exists>s pid s'. proc_init_idle 0 0 (Some 0) (Some 10) [] pm0 = Some s \<and>
     do_fork stride_sched_class 0 0 (snd (p_tf proc0)) ex_env s = Some (pid, s') \<and>
     table_ok ((\<lambda>_. [])(0 := [1])) (ker s')"
proof -
  from proc_init_idle_spec [of 0 0 0 10 "[]"] obtain s where
    s: "proc_init_idle 0 0 (Some 0) (Some 10) [] pm0 = Some s" "table_ok (\<lambda>_. []) (ker s)"
      "sched_ok stride_ready stride_inv {0} (ker s)" "current (ker s) = 0"
      "p_mm (procs (ker s) 0) = None" "pblocks s = {0}" "p_wait_state (procs (ker s) 0) = 0"
      "p_filesp (procs (ker s) 0) = Some 10" "nr_process (ker s) = 1" by blast
  have "fork_asserts ex_env s" "fork_granted 0 ex_env s"
    using s by (simp_all add: fork_asserts_def fork_granted_def files_granted_def mm_granted_def ex_env_def)
  with do_fork_outcome [OF ex_idle_fork_pre [OF s(1)] _ s(2,3), of 0 0 "snd (p_tf proc0)"] s show ?thesis
    by (auto simp: ex_env_def MAX_PROCESS_def)
qed

text \<open>
  C20: do_exit makes the caller a zombie and never gives it the CPU again, hands all its children
  over to the init process as its youngest children, and makes a parent that waits in do_wait
  runnable; the process table and the run queue stay well formed.
\<close>

theorem do_exit_hands_over:
  assumes "exit_ready L ch (ker s)" and "p_parent (procs (ker s) (current (ker s))) = Some par"
  shows "\<exists>s'. do_exit stride_sched_class b code s = Some s' \<and>
    (let k = ker s; k' = ker s' in
     table_ok (ch(current k := [], initproc k := rev (ch (current k)) @ ch (initproc k))) k' \<and>
     sched_ok stride_ready stride_inv L k' \<and> current k' \<noteq> current k \<and>
     p_state (procs k' (current k)) = PROC_ZOMBIE \<and>
     (p_wait_state (procs k par) = WT_CHILD \<longrightarrow> p_state (procs k' par) = PROC_RUNNABLE))"
  by (rule do_exit_spec [OF assms])

theorem do_exit_hands_over_witness:
  "\<exists>s'. do_exit stride_sched_class 0 5 (pm0\<lparr>ker := ex_family\<rparr>) = Some s' \<and>
     p_state (procs (ker s') 1) = PROC_RUNNABLE \<and>
     table_ok (ex_children(2 := [], 1 := [3, 2])) (ker s')"
proof -
  have e: "exit_ready {0, 1, 2} ex_children (ker (pm0\<lparr>ker := ex_family\<rparr>))"
    using ex_family_exit by simp
  have "current ex_family = 2" "initproc ex_family = 1" "p_parent (procs ex_family 2) = Some 1"
    "p_wait_state (procs ex_family 1) = WT_CHILD" by (simp_all add: ex_family_def)
  with do_exit_hands_over [OF e, of 1 0 5] show ?thesis by (auto simp: Let_def)
qed

text \<open>
  C21: do_wait(0, ...) returns -E_BAD_PROC without a change when the caller has no child; when some
  child is a zombie it reaps the youngest one: its exit code is stored, its pid is no longer found,
  its kernel stack and process block are freed and it leaves the family; when children exist but none
  is a zombie, the caller sleeps in WT_CHILD until it runs again, and then repeats unless killed.
\<close>

theorem do_wait_any:
  assumes tab: "table_ok ch (ker s)"
    and np: "idleproc (ker s) \<notin> set (ch (current (ker s)))" "initproc (ker s) \<notin> set (ch (current (ker s)))"
  shows "case find (\<lambda>p. p_state (procs (ker s) p) = PROC_ZOMBIE) (ch (current (ker s))) of
    Some p \<Rightarrow> \<exists>s'. do_wait switch True 0 True s =
        Some (WaitDone 0 (Some (p_exit_code (procs (ker s) p))), s') \<and>
      table_ok (ch(current (ker s) := remove1 p (ch (current (ker s))))) (ker s') \<and>
      find_proc (p_pid (procs (ker s) p)) (ker s') = None \<and>
      pblocks s' = pblocks s - {p} \<and> kstacks s' = kstacks s - {p_kstack (procs (ker s) p)}
  | None \<Rightarrow>
      if ch (current (ker s)) = [] then do_wait switch True 0 True s = Some (WaitDone (- E_BAD_PROC) None, s)
      else do_wait switch True 0 True s = Option.bind (switch (upd_ker wait_sleep s))
        (\<lambda>s. if p_flags (procs (ker s) (current (ker s))) AND PF_EXITING \<noteq> 0 then Some (WaitKilled, s)
             else do_wait switch True 0 True s)"
proof (cases "find (\<lambda>p. p_state (procs (ker s) p) = PROC_ZOMBIE) (ch (current (ker s)))")
  case None
  have unf: "do_wait switch True 0 True s' = do_wait_loop switch 0 True s'" for s'
    by (simp add: do_wait_def)
  show ?thesis
    unfolding None unf
    by (subst do_wait_loop.simps, subst (2) do_wait_loop.simps)
      (simp add: wait_scan_any [OF tab] None)
next
  case (Some p)
  then have p: "p \<in> set (ch (current (ker s)))" by (auto simp: find_Some_iff)
  with np have "p \<noteq> idleproc (ker s)" "p \<noteq> initproc (ker s)" by auto
  from wait_found_spec [OF tab p this, of True] show ?thesis
    unfolding Some do_wait_def by (subst do_wait_loop.simps) (auto simp: wait_scan_any [OF tab] Some)
qed

theorem do_wait_any_witness:
  "\<exists>s'. do_wait (\<lambda>_. None) True 0 True (pm0\<lparr>ker := ex_family\<rparr>) = Some (WaitDone 0 (Some 7), s') \<and>
     find_proc 3 (ker s') = None"
proof -
  have e: "table_ok ex_children (ker (pm0\<lparr>ker := ex_family\<rparr>))" using ex_family_ok by simp
  have "current ex_family = 2" "initproc ex_family = 1" "idleproc ex_family = 0"
    "p_state (procs ex_family 3) = PROC_ZOMBIE" "p_exit_code (procs ex_family 3) = 7"
    "p_pid (procs ex_family 3) = 3" by (simp_all add: ex_family_def)
  with do_wait_any [OF e, of "\<lambda>_. None"] show ?thesis by auto
qed

text \<open>
  C22: do_kill on a live process that is not being killed sets PF_EXITING, makes it runnable exactly
  when its sleep may be interrupted, returns 0, and a second do_kill returns -E_KILLED unchanged.
\<close>

theorem do_kill_once:
  assumes "hash_ok k" and "sched_ok stride_ready stride_inv L k"
    and "find_proc pid k = Some p" and "p \<in> L" and "p_state (procs k p) \<noteq> PROC_ZOMBIE"
    and "p_flags (procs k p) AND PF_EXITING = 0"
  shows "\<exists>k'. do_kill stride_sched_class pid k = Some (0, k') \<and> sched_ok stride_ready stride_inv L k' \<and>
    p_flags (procs k' p) = p_flags (procs k p) OR PF_EXITING \<and>
    (p_wait_state (procs k p) AND WT_INTERRUPTED \<noteq> 0 \<longrightarrow> p_state (procs k' p) = PROC_RUNNABLE) \<and>
    (p_wait_state (procs k p) AND WT_INTERRUPTED = 0 \<longrightarrow> p_state (procs k' p) = p_state (procs k p)) \<and>
    do_kill stride_sched_class pid k' = Some (- E_KILLED, k')"
  by (rule do_kill_spec [OF assms])

theorem do_kill_once_witness:
  "\<exists>k'. do_kill stride_sched_class 1 ex_family = Some (0, k') \<and> p_state (procs k' 1) = PROC_RUNNABLE"
proof -
  have h: "hash_ok ex_family" "sched_ok stride_ready stride_inv {0, 1, 2} ex_family"
    using ex_family_exit by (auto simp: exit_ready_def table_ok_iff)
  have "find_proc 1 ex_family = Some 1" using find_proc_iff [OF h(1)] by (simp add: ex_family_def)
  from do_kill_once [OF h this] show ?thesis
    by (auto simp: ex_family_def wait_state_values WT_INTERRUPTED_def)
qed

text \<open>
  C23: The critical section of do_fork gives the new process a pid that no process in the table has,
  between 1 and MAX_PID - 1; the search terminates as long as fewer than MAX_PROCESS processes exist;
  find_proc then finds exactly that process under it, and every other process under its old pid.
\<close>

theorem fork_register_unique:
  assumes "table_ok ch k" and "p_parent (procs k p) = Some par" "p \<noteq> par"
    and "p \<notin> set (proc_list k)" and "nr_process k < MAX_PROCESS"
  shows "\<exists>k'. fork_register p k = Some k' \<and> table_ok (ch(par := p # ch par)) k' \<and>
    1 \<le> p_pid (procs k' p) \<and> p_pid (procs k' p) < MAX_PID \<and>
    (\<forall>q \<in> set (proc_list k). p_pid (procs k q) \<noteq> p_pid (procs k' p)) \<and>
    find_proc (p_pid (procs k' p)) k' = Some p \<and>
    (\<forall>q \<in> set (proc_list k). find_proc (p_pid (procs k q)) k' = Some q)"
proof -
  from fork_register_ok [OF assms] obtain k' where
    r: "fork_register p k = Some k'" "table_ok (ch(par := p # ch par)) k'" "1 \<le> p_pid (procs k' p)"
      "proc_list k' = p # proc_list k" and
    q: "\<forall>q \<in> set (proc_list k). p_pid (procs k' q) = p_pid (procs k q) \<and> p_pid (procs k q) \<noteq> p_pid (procs k' p)"
    by blast
  have hash: "hash_ok k'" using r(2) by (simp add: table_ok_iff)
  have "p_pid (procs k' p) < MAX_PID" using hash r(4) by (simp add: hash_ok_def)
  moreover have "find_proc (p_pid (procs k' p)) k' = Some p"
    "\<forall>q \<in> set (proc_list k). find_proc (p_pid (procs k q)) k' = Some q"
    using q r(4) by (auto simp: find_proc_iff [OF hash])
  ultimately show ?thesis using r q by blast
qed

theorem fork_register_unique_witness:
  "\<exists>k'. fork_register 4 (upd_proc 4 (\<lambda>q. q\<lparr>p_parent := Some 2\<rparr>) ex_family) = Some k' \<and>
    find_proc 3 k' = Some 3"
proof -
  let ?k = "upd_proc 4 (\<lambda>q. q\<lparr>p_parent := Some 2\<rparr>) ex_family"
  have "table_ok ex_children ?k"
    by (rule table_ok_new [OF ex_family_ok]) (simp_all add: ex_family_def)
  from fork_register_unique [OF this, of 4 2] show ?thesis
    by (auto simp: ex_family_def MAX_PROCESS_def)
qed

text \<open>
  C24: When proc_init returns, its assertions have held and the kernel is well formed: process 0 is
  idle and running, process 1 is init, runnable, queued and the only child of idle.
\<close>

theorem proc_init_establishes:
  assumes env: "fe_proc env \<noteq> Some ip" "fe_files env \<noteq> Some f"
    and r: "proc_init stride_sched_class b st (Some ip) (Some f) n1 n2 ss en im env pm0 = Some s'"
  shows "\<exists>p. p \<noteq> ip \<and> idleproc (ker s') = ip \<and> current (ker s') = ip \<and> initproc (ker s') = p \<and>
    p_pid (procs (ker s') ip) = 0 \<and> p_pid (procs (ker s') p) = 1 \<and>
    table_ok ((\<lambda>_. [])(ip := [p])) (ker s') \<and> sched_ok stride_ready stride_inv {ip, p} (ker s')"
proof -
  from proc_init_idle_spec [of b st ip f n1] obtain s where
    s: "proc_init_idle b st (Some ip) (Some f) n1 pm0 = Some s" "table_ok (\<lambda>_. []) (ker s)"
      "sched_ok stride_ready stride_inv {ip} (ker s)" "current (ker s) = ip"
      "p_mm (procs (ker s) ip) = None" "pblocks s = {ip}" "p_wait_state (procs (ker s) ip) = 0"
      "p_filesp (procs (ker s) ip) = Some f" "fss s = {f}" "f_cnt s f = 1" "mms s = {}" "kstacks s = {}"
      "nr_process (ker s) = 1"
    by blast
  have list: "set (proc_list (ker s)) = {}"
    using s(1) by (auto simp: proc_init_idle_def Let_def set_proc_name_same new_files_def files_count_inc_def)
  have idle: "idleproc (ker s) = ip"
    using s(1) by (auto simp: proc_init_idle_def Let_def set_proc_name_same new_files_def files_count_inc_def)
  from list have pre: "fork_pre env s" using s env by (auto simp: fork_pre_def)
  from r s(1) obtain pid s1 p where
    k: "kernel_thread stride_sched_class ss en im 0 0 env s = Some (pid, s1)" "pid > 0"
      "find_proc pid (ker s1) = Some p" and
    s': "s' = upd_ker (set_proc_name p n2) (upd_ker (\<lambda>k. k\<lparr>initproc := p\<rparr>) s1)"
      "p_pid (procs (ker s') (idleproc (ker s'))) = 0" "p_pid (procs (ker s') p) = 1"
    by (auto simp: proc_init_def option_bind_eq_Some Let_def)
  from k(1) obtain flags stack tf where
    df: "do_fork stride_sched_class flags stack tf env s = Some (pid, s1)"
    by (auto simp: kernel_thread_def Let_def)
  have n: "nr_process (ker s) < MAX_PROCESS" using s(13) by (simp add: MAX_PROCESS_def)
  obtain q where q0: "fe_proc env = Some q"
    using df k(2) n by (cases "fe_proc env") (auto simp: do_fork_def E_NO_MEM_def)
  have "fork_asserts env s" using s(4,7,8) by (simp add: fork_asserts_def)
  with do_fork_spec [OF pre _ s(2,3) _ n q0, of flags stack tf] df k(2) s(4,5,6) have
    "fork_granted flags env s" by (auto simp: E_NO_MEM_def split: if_splits)
  with \<open>fork_asserts env s\<close> do_fork_spec [OF pre _ s(2,3) _ n q0, of flags stack tf] df s(4,5,6) have
    "q \<notin> pblocks s" "table_ok ((\<lambda>_. [])(ip := q # [])) (ker s1)"
      "sched_ok stride_ready stride_inv (insert q {ip}) (ker s1)" "forked s tf stack q pid s1"
    using pre q0 by (auto simp: fork_pre_def)
  note q = this
  then have fk: "proc_list (ker s1) = q # proc_list (ker s)" "p_pid (procs (ker s1) q) = pid"
    "current (ker s1) = ip" "q \<noteq> ip" "idleproc (ker s1) = ip"
    using s(4,6) idle by (auto simp: forked_def)
  have "p = q"
    using k(3) find_proc_iff [of "ker s1"] q(2) fk list by (auto simp: table_ok_iff)
  have "table_ok ((\<lambda>_. [])(ip := [q])) (ker s')"
    by (rule table_ok_cong [OF q(2)])
      (use table_ok_cptr [OF q(2)] in \<open>simp_all add: s'(1) set_proc_name_same\<close>)
  moreover have "sched_ok stride_ready stride_inv {ip, q} (ker s')"
    using q(3) by (simp add: s'(1) sched_ok_def stride_ready_def stride_inv_def set_proc_name_same insert_commute)
  ultimately show ?thesis
    using fk(3-5) s'(2,3) \<open>p = q\<close> by (intro exI [of _ q]) (simp add: s'(1) set_proc_name_same)
qed

theorem proc_init_establishes_witness:
  "\<exists>s' p. proc_init stride_sched_class 0 0 (Some 0) (Some 10) [] [] 0 0 0 ex_env pm0 = Some s' \<and>
     initproc (ker s') = p \<and> p_pid (procs (ker s') p) = 1 \<and> table_ok ((\<lambda>_. [])(0 := [p])) (ker s')"
proof -
  have "\<not> Option.is_none (proc_init stride_sched_class 0 0 (Some 0) (Some 10) [] [] 0 0 0 ex_env pm0)"
    by code_simp
  then obtain s' where s: "proc_init stride_sched_class 0 0 (Some 0) (Some 10) [] [] 0 0 0 ex_env pm0 = Some s'"
    by (auto simp: Option.is_none_def)
  from proc_init_establishes [OF _ _ s] s show ?thesis by (auto simp: ex_env_def)
qed

end
