(* ===== verification/Philosophers.thy ===== *)
theory Philosophers
  imports Prelude
begin

text \<open>
  Monitors (\<^verbatim>\<open>kern/sync/monitor.c\<close>) and the two solutions of the dining philosophers' problem in
  \<^verbatim>\<open>kern/sync/check_sync.c\<close>. Each philosopher is a thread; what it still has to do is a list of
  actions, in the order of the code, and a step of the system is one action of some thread that does not sleep.
  A function that branches is an action that puts the actions of the branch in front. A semaphore is
  its value and the queue of its waiters, with the behaviour that Sync has for \<^verbatim>\<open>up\<close> and
  \<^verbatim>\<open>down\<close>: \<^verbatim>\<open>up\<close> wakes the first waiter and leaves the value alone, or else increments it.
  Threads may be switched between any two actions, which is more than the kernel does.
\<close>

section \<open>State and actions\<close>

definition NPHIL :: nat where "NPHIL = 5"
definition TIMES :: nat where "TIMES = 4"

datatype pstate = THINKING | HUNGRY | EATING

text \<open>\<^verbatim>\<open>mutex\<close>, \<^verbatim>\<open>s[i]\<close>, and of the monitor \<^verbatim>\<open>next\<close> and \<^verbatim>\<open>cv[i].sem\<close>.\<close>

datatype sema = Mutex | Fork nat | Next | CV nat

datatype act =
  DoSleep
| Down sema
| Up sema
| SetState nat pstate
| TestSema nat
| TestCond nat
| CondSignal nat
| CondWait nat
| CountAdd nat int
| NextAdd int
| Leave
| WaitUnlessEating nat

record table =
  todo :: "nat \<Rightarrow> act list"
  asleep :: "nat \<Rightarrow> bool"
  val :: "sema \<Rightarrow> int"
  que :: "sema \<Rightarrow> nat list"
  pst :: "nat \<Rightarrow> pstate"
  cv_count :: "nat \<Rightarrow> int"
  next_count :: int

definition LEFT :: "nat \<Rightarrow> nat" where "LEFT i = (i + NPHIL - 1) mod NPHIL"
definition RIGHT :: "nat \<Rightarrow> nat" where "RIGHT i = (i + 1) mod NPHIL"

section \<open>The programs\<close>

text \<open>With semaphores.\<close>

definition phi_take_forks_sema :: "nat \<Rightarrow> act list" where
  "phi_take_forks_sema i = [Down Mutex, SetState i HUNGRY, TestSema i, Up Mutex, Down (Fork i)]"

definition phi_put_forks_sema :: "nat \<Rightarrow> act list" where
  "phi_put_forks_sema i = [Down Mutex, SetState i THINKING, TestSema (LEFT i), TestSema (RIGHT i), Up Mutex]"

definition philosopher_using_semaphore :: "nat \<Rightarrow> act list" where
  "philosopher_using_semaphore i =
     concat (replicate TIMES ([DoSleep] @ phi_take_forks_sema i @ [DoSleep] @ phi_put_forks_sema i))"

text \<open>\<^verbatim>\<open>state[i] == HUNGRY && state[LEFT] != EATING && state[RIGHT] != EATING\<close>\<close>

definition may_eat :: "nat \<Rightarrow> table \<Rightarrow> bool" where
  "may_eat i s \<longleftrightarrow> pst s i = HUNGRY \<and> pst s (LEFT i) \<noteq> EATING \<and> pst s (RIGHT i) \<noteq> EATING"

definition phi_test_sema :: "nat \<Rightarrow> table \<Rightarrow> act list \<times> table" where
  "phi_test_sema i s = (if may_eat i s then ([Up (Fork i)], s\<lparr>pst := (pst s)(i := EATING)\<rparr>) else ([], s))"

text \<open>With the monitor. Leaving a routine of the monitor is the same code in both routines.\<close>

definition phi_take_forks_condvar :: "nat \<Rightarrow> act list" where
  "phi_take_forks_condvar i = [Down Mutex, SetState i HUNGRY, TestCond i, WaitUnlessEating i, Leave]"

definition phi_put_forks_condvar :: "nat \<Rightarrow> act list" where
  "phi_put_forks_condvar i = [Down Mutex, SetState i THINKING, TestCond (LEFT i), TestCond (RIGHT i), Leave]"

definition philosopher_using_condvar :: "nat \<Rightarrow> act list" where
  "philosopher_using_condvar i =
     concat (replicate TIMES ([DoSleep] @ phi_take_forks_condvar i @ [DoSleep] @ phi_put_forks_condvar i))"

definition phi_test_condvar :: "nat \<Rightarrow> table \<Rightarrow> act list \<times> table" where
  "phi_test_condvar i s = (if may_eat i s then ([CondSignal i], s\<lparr>pst := (pst s)(i := EATING)\<rparr>) else ([], s))"

definition leave_monitor :: "table \<Rightarrow> act list" where
  "leave_monitor s = (if next_count s > 0 then [Up Next] else [Up Mutex])"

definition cond_signal :: "nat \<Rightarrow> table \<Rightarrow> act list" where
  "cond_signal i s = (if cv_count s i > 0 then [NextAdd 1, Up (CV i), Down Next, NextAdd (- 1)] else [])"

definition cond_wait :: "nat \<Rightarrow> act list" where
  "cond_wait i = [CountAdd i 1, Leave, Down (CV i), CountAdd i (- 1)]"

section \<open>Steps\<close>

definition sem_up :: "sema \<Rightarrow> table \<Rightarrow> table" where
  "sem_up x s = (case que s x of [] \<Rightarrow> s\<lparr>val := (val s)(x := val s x + 1)\<rparr>
     | j # q \<Rightarrow> s\<lparr>que := (que s)(x := q), asleep := (asleep s)(j := False)\<rparr>)"

definition sem_down :: "nat \<Rightarrow> sema \<Rightarrow> table \<Rightarrow> table" where
  "sem_down i x s = (if val s x > 0 then s\<lparr>val := (val s)(x := val s x - 1)\<rparr>
     else s\<lparr>que := (que s)(x := que s x @ [i]), asleep := (asleep s)(i := True)\<rparr>)"

text \<open>One action of thread \<open>i\<close>: what it has to do before the rest of its program.\<close>

fun perform :: "nat \<Rightarrow> act \<Rightarrow> table \<Rightarrow> act list \<times> table" where
  "perform i DoSleep s = ([], s)"
| "perform i (Down x) s = ([], sem_down i x s)"
| "perform i (Up x) s = ([], sem_up x s)"
| "perform i (SetState j p) s = ([], s\<lparr>pst := (pst s)(j := p)\<rparr>)"
| "perform i (TestSema j) s = phi_test_sema j s"
| "perform i (TestCond j) s = phi_test_condvar j s"
| "perform i (CondSignal j) s = (cond_signal j s, s)"
| "perform i (CondWait j) s = (cond_wait j, s)"
| "perform i (CountAdd j n) s = ([], s\<lparr>cv_count := (cv_count s)(j := cv_count s j + n)\<rparr>)"
| "perform i (NextAdd n) s = ([], s\<lparr>next_count := next_count s + n\<rparr>)"
| "perform i Leave s = (leave_monitor s, s)"
| "perform i (WaitUnlessEating j) s = (if pst s j \<noteq> EATING then [CondWait j] else [], s)"

definition run_thread :: "nat \<Rightarrow> table \<Rightarrow> table" where
  "run_thread i s = (case todo s i of [] \<Rightarrow> s
     | a # rest \<Rightarrow> let (pre, s) = perform i a s in s\<lparr>todo := (todo s)(i := pre @ rest)\<rparr>)"

definition can_run :: "nat \<Rightarrow> table \<Rightarrow> bool" where
  "can_run i s \<longleftrightarrow> i < NPHIL \<and> todo s i \<noteq> [] \<and> \<not> asleep s i"

inductive table_step :: "table \<Rightarrow> table \<Rightarrow> bool" where
  "can_run i s \<Longrightarrow> table_step s (run_thread i s)"

text \<open>\<^verbatim>\<open>check_sync\<close> sets up the semaphores and starts the threads; globals start as zero.\<close>

definition table_init :: "(nat \<Rightarrow> act list) \<Rightarrow> table" where
  "table_init p = \<lparr>todo = p, asleep = (\<lambda>_. False), val = (\<lambda>x. if x = Mutex then 1 else 0), que = (\<lambda>_. []),
     pst = (\<lambda>_. THINKING), cv_count = (\<lambda>_. 0), next_count = 0\<rparr>"

section \<open>Every run ends\<close>

text \<open>An action with all that it may put in front of the program.\<close>

fun act_size :: "act \<Rightarrow> nat" where
  "act_size (TestSema j) = 2"
| "act_size (TestCond j) = 6"
| "act_size (CondSignal j) = 5"
| "act_size (CondWait j) = 6"
| "act_size (WaitUnlessEating j) = 7"
| "act_size Leave = 2"
| "act_size a = 1"

definition work :: "table \<Rightarrow> nat" where
  "work s = (\<Sum>i < NPHIL. sum_list (map act_size (todo s i)))"

lemma perform_todo: "perform i a s = (pre, s') \<Longrightarrow> todo s' = todo s"
  by (cases a) (auto simp: sem_up_def sem_down_def phi_test_sema_def phi_test_condvar_def split: list.splits if_splits)

lemma perform_size: "perform i a s = (pre, s') \<Longrightarrow> sum_list (map act_size pre) < act_size a"
  by (cases a) (auto simp: phi_test_sema_def phi_test_condvar_def cond_signal_def cond_wait_def leave_monitor_def
      split: if_splits)

lemma work_decreases:
  assumes "table_step s s'"
  shows "work s' < work s"
  using assms
proof cases
  case (1 i)
  then obtain a rest where t: "todo s i = a # rest" and i: "i < NPHIL" by (cases "todo s i") (auto simp: can_run_def)
  obtain pre s1 where p: "perform i a s = (pre, s1)" by fastforce
  have e: "todo s' = (todo s)(i := pre @ rest)"
    using 1(1) t p perform_todo [OF p] by (simp add: run_thread_def)
  have "work s' = (\<Sum>k \<in> {..<NPHIL} - {i}. sum_list (map act_size (todo s k))) + sum_list (map act_size (pre @ rest))"
    unfolding work_def e using i by (subst sum.remove [of _ i]) (auto intro!: sum.cong)
  also have "\<dots> < (\<Sum>k \<in> {..<NPHIL} - {i}. sum_list (map act_size (todo s k))) + sum_list (map act_size (todo s i))"
    using perform_size [OF p] t by simp
  also have "\<dots> = work s"
    unfolding work_def using i by (subst (2) sum.remove [of _ i]) auto
  finally show ?thesis .
qed

section \<open>The semaphore solution\<close>

lemma philosopher_cases: "i < NPHIL \<Longrightarrow> i = 0 \<or> i = 1 \<or> i = 2 \<or> i = 3 \<or> i = 4"
  by (simp add: NPHIL_def) linarith

lemma side_simps [simp]:
  "i < NPHIL \<Longrightarrow> LEFT i < NPHIL" "i < NPHIL \<Longrightarrow> RIGHT i < NPHIL"
  "i < NPHIL \<Longrightarrow> RIGHT (LEFT i) = i" "i < NPHIL \<Longrightarrow> LEFT (RIGHT i) = i"
  "i < NPHIL \<Longrightarrow> LEFT i \<noteq> i" "i < NPHIL \<Longrightarrow> RIGHT i \<noteq> i" "i < NPHIL \<Longrightarrow> LEFT i \<noteq> RIGHT i"
  "i < NPHIL \<Longrightarrow> i \<noteq> LEFT i" "i < NPHIL \<Longrightarrow> i \<noteq> RIGHT i" "i < NPHIL \<Longrightarrow> RIGHT i \<noteq> LEFT i"
  by (drule philosopher_cases, elim disjE; simp add: LEFT_def RIGHT_def NPHIL_def)+

lemma left_right: "i < NPHIL \<Longrightarrow> j < NPHIL \<Longrightarrow> LEFT i = j \<longleftrightarrow> i = RIGHT j"
  by auto

text \<open>
  The place of a thread in its program. \<open>T2w\<close>, \<open>E6w\<close> and \<open>P8w\<close> are the places where it sleeps on a
  semaphore; at \<open>TW\<close>, \<open>PWL\<close> and \<open>PWR\<close> it is about to give a philosopher the forks.
\<close>

datatype loc = T0 | T1 | T2w | T2 | T3 | TW | T4 | T5 | E6w | E6 | E7 | P8w | P8 | P9 | PWL | P10 | PWR | P11

definition rounds :: "nat \<Rightarrow> nat \<Rightarrow> act list" where
  "rounds i n = concat (replicate n ([DoSleep] @ phi_take_forks_sema i @ [DoSleep] @ phi_put_forks_sema i))"

lemma rounds_simps [simp]:
  "rounds i 0 = []"
  "rounds i (Suc n) = DoSleep # phi_take_forks_sema i @ DoSleep # phi_put_forks_sema i @ rounds i n"
  by (simp_all add: rounds_def)

fun rest_of :: "loc \<Rightarrow> nat \<Rightarrow> act list" where
  "rest_of T0 i = []"
| "rest_of T1 i = phi_take_forks_sema i @ DoSleep # phi_put_forks_sema i"
| "rest_of T2w i = [SetState i HUNGRY, TestSema i, Up Mutex, Down (Fork i), DoSleep] @ phi_put_forks_sema i"
| "rest_of T2 i = [SetState i HUNGRY, TestSema i, Up Mutex, Down (Fork i), DoSleep] @ phi_put_forks_sema i"
| "rest_of T3 i = [TestSema i, Up Mutex, Down (Fork i), DoSleep] @ phi_put_forks_sema i"
| "rest_of TW i = [Up (Fork i), Up Mutex, Down (Fork i), DoSleep] @ phi_put_forks_sema i"
| "rest_of T4 i = [Up Mutex, Down (Fork i), DoSleep] @ phi_put_forks_sema i"
| "rest_of T5 i = [Down (Fork i), DoSleep] @ phi_put_forks_sema i"
| "rest_of E6w i = DoSleep # phi_put_forks_sema i"
| "rest_of E6 i = DoSleep # phi_put_forks_sema i"
| "rest_of E7 i = phi_put_forks_sema i"
| "rest_of P8w i = [SetState i THINKING, TestSema (LEFT i), TestSema (RIGHT i), Up Mutex]"
| "rest_of P8 i = [SetState i THINKING, TestSema (LEFT i), TestSema (RIGHT i), Up Mutex]"
| "rest_of P9 i = [TestSema (LEFT i), TestSema (RIGHT i), Up Mutex]"
| "rest_of PWL i = [Up (Fork (LEFT i)), TestSema (RIGHT i), Up Mutex]"
| "rest_of P10 i = [TestSema (RIGHT i), Up Mutex]"
| "rest_of PWR i = [Up (Fork (RIGHT i)), Up Mutex]"
| "rest_of P11 i = [Up Mutex]"

definition inside :: "loc set" where "inside = {T2, T3, TW, T4, P8, P9, PWL, P10, PWR, P11}"
definition sleeping :: "loc set" where "sleeping = {T2w, E6w, P8w}"

fun grants :: "loc \<Rightarrow> nat \<Rightarrow> nat set" where
  "grants TW i = {i}"
| "grants PWL i = {LEFT i}"
| "grants PWR i = {RIGHT i}"
| "grants l i = {}"

fun tests :: "loc \<Rightarrow> nat \<Rightarrow> nat set" where
  "tests T3 i = {i}"
| "tests P9 i = {LEFT i, RIGHT i}"
| "tests PWL i = {RIGHT i}"
| "tests P10 i = {RIGHT i}"
| "tests l i = {}"

definition granted :: "(nat \<Rightarrow> loc) \<Rightarrow> nat \<Rightarrow> bool" where
  "granted L i \<longleftrightarrow> (\<exists>j < NPHIL. i \<in> grants (L j) j)"

definition tested :: "(nat \<Rightarrow> loc) \<Rightarrow> nat \<Rightarrow> bool" where
  "tested L i \<longleftrightarrow> (\<exists>j < NPHIL. i \<in> tests (L j) j)"

text \<open>The state of a philosopher and the value of the semaphore, by the place of the thread.\<close>

definition fork_ok :: "loc \<Rightarrow> bool \<Rightarrow> pstate \<Rightarrow> int \<Rightarrow> bool" where
  "fork_ok l g p v \<longleftrightarrow>
     (if l \<in> {TW, T4, T5, E6w} then
        p = HUNGRY \<and> v = 0 \<and> \<not> g \<or> p = EATING \<and> (v = 1 \<and> \<not> g \<and> l \<noteq> E6w \<or> v = 0 \<and> g)
      else v = 0 \<and> \<not> g \<and> p = (if l = T3 then HUNGRY else if l \<in> {E6, E7, P8w, P8} then EATING else THINKING))"

definition thread_ok :: "(nat \<Rightarrow> loc) \<Rightarrow> (nat \<Rightarrow> nat) \<Rightarrow> table \<Rightarrow> nat \<Rightarrow> bool" where
  "thread_ok L n s i \<longleftrightarrow> todo s i = rest_of (L i) i @ rounds i (n i) \<and> (asleep s i \<longleftrightarrow> L i \<in> sleeping) \<and>
     que s (Fork i) = (if L i = E6w then [i] else []) \<and> fork_ok (L i) (granted L i) (pst s i) (val s (Fork i))"

definition active :: "(nat \<Rightarrow> loc) \<Rightarrow> nat set" where
  "active L = {i. i < NPHIL \<and> L i \<in> inside}"

definition mutex_ok :: "(nat \<Rightarrow> loc) \<Rightarrow> table \<Rightarrow> bool" where
  "mutex_ok L s \<longleftrightarrow> distinct (que s Mutex) \<and> set (que s Mutex) = {i. i < NPHIL \<and> L i \<in> {T2w, P8w}} \<and>
     (active L = {} \<and> val s Mutex = 1 \<and> que s Mutex = [] \<or> (\<exists>a. active L = {a}) \<and> val s Mutex = 0)"

definition apart_ok :: "table \<Rightarrow> bool" where
  "apart_ok s \<longleftrightarrow> (\<forall>i < NPHIL. pst s i = EATING \<longrightarrow> pst s (RIGHT i) \<noteq> EATING)"

definition hungry_ok :: "(nat \<Rightarrow> loc) \<Rightarrow> table \<Rightarrow> bool" where
  "hungry_ok L s \<longleftrightarrow> (\<forall>i < NPHIL. pst s i = HUNGRY \<longrightarrow>
     pst s (LEFT i) = EATING \<or> pst s (RIGHT i) = EATING \<or> tested L i)"

definition sema_inv :: "(nat \<Rightarrow> loc) \<Rightarrow> (nat \<Rightarrow> nat) \<Rightarrow> table \<Rightarrow> bool" where
  "sema_inv L n s \<longleftrightarrow> (\<forall>i < NPHIL. thread_ok L n s i) \<and> mutex_ok L s \<and> apart_ok s \<and> hungry_ok L s"

lemma sema_inv_init: "sema_inv (\<lambda>_. T0) (\<lambda>_. TIMES) (table_init philosopher_using_semaphore)"
  by (simp add: sema_inv_def thread_ok_def table_init_def mutex_ok_def active_def apart_ok_def hungry_ok_def
      philosopher_using_semaphore_def rounds_def fork_ok_def granted_def inside_def sleeping_def)

lemma grants_inside: "k \<in> grants l i \<Longrightarrow> l \<in> inside" "k \<in> tests l i \<Longrightarrow> l \<in> inside"
  by (cases l; simp add: inside_def)+

lemma granted_cases:
  "granted L k \<longleftrightarrow> i < NPHIL \<and> k \<in> grants (L i) i \<or> (\<exists>j < NPHIL. j \<noteq> i \<and> k \<in> grants (L j) j)"
  "tested L k \<longleftrightarrow> i < NPHIL \<and> k \<in> tests (L i) i \<or> (\<exists>j < NPHIL. j \<noteq> i \<and> k \<in> tests (L j) j)"
  unfolding granted_def tested_def by metis+

lemma active_only:
  assumes "active L = {i}"
  shows "granted (L(i := x)) k \<longleftrightarrow> k \<in> grants x i" "tested (L(i := x)) k \<longleftrightarrow> k \<in> tests x i"
    "granted L k \<longleftrightarrow> k \<in> grants (L i) i" "tested L k \<longleftrightarrow> k \<in> tests (L i) i"
    "active (L(i := x)) = (if x \<in> inside then {i} else {})"
proof -
  have i: "i < NPHIL" and o: "\<And>j. j < NPHIL \<Longrightarrow> j \<noteq> i \<Longrightarrow> L j \<notin> inside" using assms by (auto simp: active_def)
  then have n: "\<And>j. j < NPHIL \<Longrightarrow> j \<noteq> i \<Longrightarrow> k \<notin> grants (L j) j \<and> k \<notin> tests (L j) j" using grants_inside by blast
  show "granted (L(i := x)) k \<longleftrightarrow> k \<in> grants x i" "tested (L(i := x)) k \<longleftrightarrow> k \<in> tests x i"
    "granted L k \<longleftrightarrow> k \<in> grants (L i) i" "tested L k \<longleftrightarrow> k \<in> tests (L i) i"
    using n i by (auto simp: granted_def tested_def split: if_splits)
  show "active (L(i := x)) = (if x \<in> inside then {i} else {})"
    using i o by (auto simp: active_def split: if_splits)
qed

lemma outside_move:
  assumes "L i \<notin> inside"
  shows "active (L(i := x)) = (if x \<in> inside \<and> i < NPHIL then insert i (active L) else active L)"
    "x \<notin> inside \<or> grants x i = {} \<Longrightarrow> granted (L(i := x)) k = granted L k"
    "x \<notin> inside \<or> tests x i = {} \<Longrightarrow> tested (L(i := x)) k = tested L k"
proof -
  show "active (L(i := x)) = (if x \<in> inside \<and> i < NPHIL then insert i (active L) else active L)"
    using assms by (auto simp: active_def)
  have "k \<notin> grants (L i) i" "k \<notin> tests (L i) i" using assms grants_inside by blast+
  moreover have "x \<notin> inside \<Longrightarrow> k \<notin> grants x i \<and> k \<notin> tests x i" using grants_inside by blast
  ultimately show "x \<notin> inside \<or> grants x i = {} \<Longrightarrow> granted (L(i := x)) k = granted L k"
    "x \<notin> inside \<or> tests x i = {} \<Longrightarrow> tested (L(i := x)) k = tested L k"
    by (auto simp: granted_cases [where i = i])
qed

text \<open>A thread outside the critical section moves on.\<close>

lemma move_outside:
  assumes inv: "sema_inv L n s" and i: "i < NPHIL" "L i \<notin> inside" and x: "x \<notin> inside"
    and w: "x \<notin> {T2w, P8w}" "L i \<notin> {T2w, P8w}"
    and s': "pst s' = pst s" "val s' = (val s)(Fork i := v)" "que s' = (que s)(Fork i := q)"
      "todo s' = (todo s)(i := rest_of x i @ rounds i m)" "\<And>k. asleep s' k = (if k = i then x \<in> sleeping else asleep s k)"
    and f: "q = (if x = E6w then [i] else [])" "fork_ok x (granted L i) (pst s i) v"
  shows "sema_inv (L(i := x)) (n(i := m)) s'"
proof -
  note o = outside_move [of L i x, OF i(2)]
  have t: "thread_ok (L(i := x)) (n(i := m)) s' k" if "k < NPHIL" for k
    using inv that s' f o(2) [of k] x by (auto simp: sema_inv_def thread_ok_def)
  have "mutex_ok (L(i := x)) s'"
    using inv s' o(1) x i w by (auto simp: sema_inv_def mutex_ok_def split: if_splits)
  moreover have "hungry_ok (L(i := x)) s'"
    using inv s' o(3) x by (auto simp: sema_inv_def hungry_ok_def)
  ultimately show ?thesis using t inv s' by (simp add: sema_inv_def apart_ok_def)
qed
text \<open>The thread in the critical section changes the state of a philosopher.\<close>

lemma move_inside:
  assumes inv: "sema_inv L n s" and act: "active L = {i}" and x: "x \<in> inside"
    and s': "pst s' = (pst s)(t := p)" "val s' = val s" "que s' = que s" "asleep s' = asleep s"
      "todo s' = (todo s)(i := rest_of x i @ rounds i (n i))"
    and f: "\<And>k. k < NPHIL \<Longrightarrow> k \<noteq> i \<Longrightarrow> fork_ok (L k) (k \<in> grants x i) (pst s' k) (val s (Fork k))"
      "fork_ok x (i \<in> grants x i) (pst s' i) (val s (Fork i))"
    and ap: "apart_ok s'"
    and h: "\<And>k. k < NPHIL \<Longrightarrow> pst s' k = HUNGRY \<Longrightarrow>
      pst s' (LEFT k) = EATING \<or> pst s' (RIGHT k) = EATING \<or> k \<in> tests x i"
  shows "sema_inv (L(i := x)) n s'"
proof -
  note a = active_only [OF act]
  have i: "i < NPHIL" "L i \<in> inside" using act by (auto simp: active_def)
  have ns: "l \<notin> sleeping \<and> l \<noteq> E6w \<and> l \<noteq> T2w \<and> l \<noteq> P8w" if "l \<in> inside" for l
    using that by (auto simp: inside_def sleeping_def)
  have "thread_ok (L(i := x)) n s' k" if "k < NPHIL" for k
    using inv that s' f a(1) ns [OF x] ns [OF i(2)] by (auto simp: sema_inv_def thread_ok_def)
  moreover have "{k. k < NPHIL \<and> (L(i := x)) k \<in> {T2w, P8w}} = {k. k < NPHIL \<and> L k \<in> {T2w, P8w}}"
    using ns [OF x] ns [OF i(2)] by auto
  then have "mutex_ok (L(i := x)) s'"
    using inv s' a(5) x act by (simp add: sema_inv_def mutex_ok_def)
  moreover have "hungry_ok (L(i := x)) s'" using h a(2) by (simp add: hungry_ok_def)
  ultimately show ?thesis using ap by (simp add: sema_inv_def)
qed

text \<open>It gives a philosopher the forks.\<close>

lemma give_forks:
  assumes inv: "sema_inv L n s" and act: "active L = {i}" and t: "grants (L i) i = {t}" "t < NPHIL"
    and x: "x \<in> inside" "grants x i = {}" "tests x i = tests (L i) i" "t = i \<longleftrightarrow> x = T4"
    and l: "fork_ok x False = fork_ok (L i) False"
    and todo': "todo s' = (todo s)(i := rest_of x i @ rounds i (n i))"
    and up: "s' = (sem_up (Fork t) s)\<lparr>todo := todo s'\<rparr>"
  shows "\<exists>L'. sema_inv L' n s'"
proof -
  have i: "i < NPHIL" "L i \<in> inside" using act by (auto simp: active_def)
  have ns: "l \<notin> sleeping \<and> l \<noteq> E6w \<and> l \<noteq> T2w \<and> l \<noteq> P8w" if "l \<in> inside" for l
    using that by (auto simp: inside_def sleeping_def)
  note a = active_only [OF act]
  have th: "thread_ok L n s k" if "k < NPHIL" for k using inv that by (simp add: sema_inv_def)
  have ft: "fork_ok (L t) True (pst s t) (val s (Fork t))" using th [OF t(2)] t(1) a(3) by (simp add: thread_ok_def)
  then have lt: "L t \<in> {TW, T4, T5, E6w}" "pst s t = EATING" "val s (Fork t) = 0"
    by (auto simp: fork_ok_def split: if_splits)
  have xs: "x \<noteq> TW" "x \<noteq> T5" using x(1,2) by (auto simp: inside_def)
  define L' where "L' = (if L t = E6w then L(i := x, t := E6) else L(i := x))"
  have ti: "L t = E6w \<Longrightarrow> t \<noteq> i" using ns [OF i(2)] by auto
  have E6: "E6 \<notin> inside" "E6w \<notin> inside" by (simp_all add: inside_def)
  have act': "active L' = {i}"
  proof (cases "L t = E6w")
    case True
    then have "(L(i := x)) t \<notin> inside" using ti E6 by simp
    from outside_move(1) [of "L(i := x)" t E6, OF this] show ?thesis using a(5) [of x] x(1) True E6 by (simp add: L'_def)
  qed (use a(5) [of x] x(1) in \<open>simp add: L'_def\<close>)
  have gr: "granted L' k \<longleftrightarrow> False" and te: "tested L' k \<longleftrightarrow> k \<in> tests (L i) i" for k
    using active_only(3,4) [OF act'] x(2,3) ti by (auto simp: L'_def)
  have q: "que s (Fork t) = (if L t = E6w then [t] else [])" using th [OF t(2)] by (simp add: thread_ok_def)
  have s': "pst s' = pst s" "val s' = (if L t = E6w then val s else (val s)(Fork t := 1))"
    "que s' = (que s)(Fork t := [])" "asleep s' k = (asleep s k \<and> \<not> (k = t \<and> L t = E6w))" for k
    by (rule trans [OF arg_cong [OF up]], use q lt(3) in \<open>simp add: sem_up_def fun_eq_iff\<close>)+
  have old: "fork_ok (L k) (k = t) (pst s k) (val s (Fork k))" if "k < NPHIL" for k
    using th [OF that] a(3) [of k] t(1) by (simp add: thread_ok_def)
  have "fork_ok (L' k) False (pst s' k) (val s' (Fork k))" if k: "k < NPHIL" for k
  proof (cases "k = t")
    case True
    then show ?thesis
      using lt s'(1,2) x(4) ti xs by (auto simp: L'_def fork_ok_def split: if_splits)
  next
    case False
    then show ?thesis using old [OF k] s'(1,2) l by (auto simp: L'_def)
  qed
  moreover have "todo s' k = rest_of (L' k) k @ rounds k (n k)" if "k < NPHIL" for k
    using th [OF that] todo' ti by (auto simp: thread_ok_def L'_def)
  moreover have "asleep s' k \<longleftrightarrow> L' k \<in> sleeping" if "k < NPHIL" for k
    using th [OF that] s'(4) ns [OF i(2)] ns [OF x(1)] ti by (auto simp: thread_ok_def L'_def sleeping_def)
  moreover have "que s' (Fork k) = (if L' k = E6w then [k] else [])" if "k < NPHIL" for k
    using th [OF that] s'(3) q ns [OF i(2)] ns [OF x(1)] by (auto simp: thread_ok_def L'_def)
  moreover have "{k. k < NPHIL \<and> L' k \<in> {T2w, P8w}} = {k. k < NPHIL \<and> L k \<in> {T2w, P8w}}"
    using ns [OF i(2)] ns [OF x(1)] by (auto simp: L'_def)
  then have "mutex_ok L' s'" using inv act act' s' by (auto simp: sema_inv_def mutex_ok_def)
  moreover have "hungry_ok L' s'" using inv s'(1) te a(4) by (simp add: sema_inv_def hungry_ok_def)
  moreover have "apart_ok s'" using inv s'(1) by (simp add: sema_inv_def apart_ok_def)
  ultimately show ?thesis using gr by (intro exI [of _ L']) (simp add: sema_inv_def thread_ok_def)
qed

text \<open>Entering and leaving the critical section.\<close>

lemma enter_section:
  assumes inv: "sema_inv L n s" and i: "i < NPHIL"
    and x: "(L i, x, xw) \<in> {(T1, T2, T2w), (E7, P8, P8w)}"
    and s': "s' = (sem_down i Mutex s)\<lparr>todo := (todo s)(i := rest_of x i @ rounds i (n i))\<rparr>"
  shows "\<exists>L'. sema_inv L' n s'"
proof -
  have out: "L i \<notin> inside" and xi: "x \<in> inside" "xw \<notin> inside" "x \<notin> sleeping" "xw \<in> sleeping" "L i \<notin> sleeping"
    "xw \<in> {T2w, P8w}" "x \<notin> {T2w, P8w, E6w}" "xw \<noteq> E6w" "L i \<notin> {T2w, P8w, E6w}" "grants x i = {}" "tests x i = {}"
    "rest_of xw i = rest_of x i" "fork_ok x = fork_ok (L i)" "fork_ok xw = fork_ok (L i)"
    using x by (auto simp: inside_def sleeping_def fork_ok_def fun_eq_iff)
  have th: "thread_ok L n s k" if "k < NPHIL" for k using inv that by (simp add: sema_inv_def)
  have mu: "mutex_ok L s" using inv by (simp add: sema_inv_def)
  define L' where "L' = L(i := if val s Mutex > 0 then x else xw)"
  have gr: "granted L' k = granted L k" and te: "tested L' k = tested L k" for k
    using outside_move(2,3) [of L i _ k, OF out] xi by (auto simp: L'_def)
  have v: "val s' = (if val s Mutex > 0 then (val s)(Mutex := val s Mutex - 1) else val s)"
    "que s' = (if val s Mutex > 0 then que s else (que s)(Mutex := que s Mutex @ [i]))"
    "asleep s' = (if val s Mutex > 0 then asleep s else (asleep s)(i := True))" "pst s' = pst s"
    "todo s' = (todo s)(i := rest_of x i @ rounds i (n i))"
    by (simp_all add: s' sem_down_def)
  have t: "thread_ok L' n s' k" if "k < NPHIL" for k
    using th [OF that] v gr [of k] xi by (auto simp: thread_ok_def L'_def)
  have m: "mutex_ok L' s'"
  proof (cases "val s Mutex > 0")
    case True
    then have free: "active L = {}" "val s Mutex = 1" "que s Mutex = []" using mu by (auto simp: mutex_ok_def)
    moreover have "active L' = {i}"
      using outside_move(1) [of L i x, OF out] xi(1) i free(1) True by (simp add: L'_def)
    moreover have "{k. k < NPHIL \<and> L' k \<in> {T2w, P8w}} = {k. k < NPHIL \<and> L k \<in> {T2w, P8w}}"
      using xi True by (auto simp: L'_def)
    ultimately show ?thesis using mu v True by (simp add: mutex_ok_def)
  next
    case False
    moreover have "active L' = active L"
      using outside_move(1) [of L i xw, OF out] xi(2) False by (simp add: L'_def)
    moreover have "{k. k < NPHIL \<and> L' k \<in> {T2w, P8w}} = insert i {k. k < NPHIL \<and> L k \<in> {T2w, P8w}}"
      using xi False i by (auto simp: L'_def)
    moreover have "i \<notin> set (que s Mutex)" using mu xi by (auto simp: mutex_ok_def)
    ultimately show ?thesis using mu v by (auto simp: mutex_ok_def)
  qed
  have "hungry_ok L' s'" "apart_ok s'" using inv v(4) te by (simp_all add: sema_inv_def hungry_ok_def apart_ok_def)
  with t m show ?thesis by (auto simp: sema_inv_def)
qed

fun awake :: "loc \<Rightarrow> loc" where
  "awake T2w = T2" | "awake P8w = P8" | "awake l = l"

lemma leave_section:
  assumes inv: "sema_inv L n s" and act: "active L = {i}" and x: "(L i, x) \<in> {(T4, T5), (P11, T0)}"
    and s': "s' = (sem_up Mutex s)\<lparr>todo := (todo s)(i := rest_of x i @ rounds i (n i))\<rparr>"
  shows "\<exists>L'. sema_inv L' n s'"
proof -
  have i: "i < NPHIL" using act by (auto simp: active_def)
  have xi: "x \<notin> inside" "x \<notin> sleeping" "L i \<notin> sleeping" "L i \<in> inside" "x \<notin> {T2w, P8w, E6w}" "L i \<notin> {T2w, P8w, E6w}"
    "grants (L i) i = {}" "tests (L i) i = {}" "fork_ok x = fork_ok (L i)" "grants x i = {}" "tests x i = {}"
    using x by (auto simp: inside_def sleeping_def fork_ok_def fun_eq_iff)
  have th: "thread_ok L n s k" if "k < NPHIL" for k using inv that by (simp add: sema_inv_def)
  have mu: "mutex_ok L s" and v0: "val s Mutex = 0" using inv act by (auto simp: sema_inv_def mutex_ok_def)
  note a = active_only [OF act]
  show ?thesis
  proof (cases "que s Mutex")
    case Nil
    let ?L = "L(i := x)"
    have v: "val s' = (val s)(Mutex := 1)" "que s' = que s" "asleep s' = asleep s" "pst s' = pst s"
      "todo s' = (todo s)(i := rest_of x i @ rounds i (n i))"
      using Nil v0 by (simp_all add: s' sem_up_def)
    have "thread_ok ?L n s' k" if "k < NPHIL" for k
      using th [OF that] v a(1) [of x k] a(3) [of k] xi by (auto simp: thread_ok_def)
    moreover have "{k. k < NPHIL \<and> ?L k \<in> {T2w, P8w}} = {k. k < NPHIL \<and> L k \<in> {T2w, P8w}}" using xi by auto
    then have "mutex_ok ?L s'" using mu v a(5) [of x] xi(1) Nil by (simp add: mutex_ok_def)
    moreover have "hungry_ok ?L s'" "apart_ok s'"
      using inv v(4) a(2,4) xi by (simp_all add: sema_inv_def hungry_ok_def apart_ok_def)
    ultimately show ?thesis by (auto simp: sema_inv_def)
  next
    case (Cons j q)
    then have j: "j < NPHIL" "L j \<in> {T2w, P8w}" "j \<notin> set q" "distinct q"
      "set q = {k. k < NPHIL \<and> L k \<in> {T2w, P8w}} - {j}" using mu by (auto simp: mutex_ok_def)
    then have ij: "i \<noteq> j" using xi by auto
    let ?L = "L(i := x, j := awake (L j))"
    have jw: "awake (L j) \<in> inside" "awake (L j) \<notin> sleeping" "awake (L j) \<notin> {T2w, P8w, E6w}" "L j \<noteq> E6w" "L j \<in> sleeping"
      "grants (awake (L j)) j = {}" "tests (awake (L j)) j = {}" "fork_ok (awake (L j)) = fork_ok (L j)"
      "rest_of (awake (L j)) j = rest_of (L j) j" using j(2) by (auto simp: inside_def sleeping_def fork_ok_def fun_eq_iff)
    have v: "val s' = val s" "que s' = (que s)(Mutex := q)" "asleep s' = (asleep s)(j := False)" "pst s' = pst s"
      "todo s' = (todo s)(i := rest_of x i @ rounds i (n i))"
      using Cons by (simp_all add: s' sem_up_def)
    have act': "active ?L = {j}"
      using act j(1) jw(1) xi(1) ij by (auto simp: active_def)
    note a' = active_only [OF act']
    have "thread_ok ?L n s' k" if "k < NPHIL" for k
      using th [OF that] v a'(3) [of k] a(3) [of k] xi jw ij by (auto simp: thread_ok_def)
    moreover have "{k. k < NPHIL \<and> ?L k \<in> {T2w, P8w}} = {k. k < NPHIL \<and> L k \<in> {T2w, P8w}} - {j}"
      using xi jw by auto
    then have "mutex_ok ?L s'" using v act' j v0 by (simp add: mutex_ok_def)
    moreover have "hungry_ok ?L s'" "apart_ok s'"
      using inv v(4) a'(4) a(4) xi jw ij by (simp_all add: sema_inv_def hungry_ok_def apart_ok_def)
    ultimately show ?thesis by (auto simp: sema_inv_def)
  qed
qed
text \<open>A test of philosopher \<open>t\<close>.\<close>

lemma test_forks:
  assumes inv: "sema_inv L n s" and act: "active L = {i}" and t: "t < NPHIL" "t \<noteq> i \<or> L i = T3"
    and x: "x \<in> inside" "y \<in> inside" "grants x i = {}" "grants y i = {t}" "grants (L i) i = {}"
      "tests (L i) i \<subseteq> insert t (tests x i)" "tests y i = tests x i"
    and fx: "fork_ok x False (pst s i) (val s (Fork i))"
    and fy: "t \<noteq> i \<Longrightarrow> fork_ok y False = fork_ok x False" "t = i \<Longrightarrow> y = TW"
    and s': "s' = (snd (phi_test_sema t s))\<lparr>todo := (todo s)(i := fst (phi_test_sema t s) @ rest_of x i @ rounds i (n i))\<rparr>"
    and ry: "rest_of y i = Up (Fork t) # rest_of x i"
  shows "\<exists>L'. sema_inv L' n s'"
proof -
  have i: "i < NPHIL" "L i \<in> inside" using act by (auto simp: active_def)
  note a = active_only [OF act]
  have th: "thread_ok L n s k" if "k < NPHIL" for k using inv that by (simp add: sema_inv_def)
  have old: "fork_ok (L k) False (pst s k) (val s (Fork k))" if "k < NPHIL" for k
    using th [OF that] a(3) [of k] x(5) by (simp add: thread_ok_def)
  have hu: "pst s (LEFT k) = EATING \<or> pst s (RIGHT k) = EATING \<or> k \<in> insert t (tests x i)"
    if "k < NPHIL" "pst s k = HUNGRY" for k
    using inv that a(4) [of k] x(6) by (auto simp: sema_inv_def hungry_ok_def)
  have ap: "apart_ok s" using inv by (simp add: sema_inv_def)
  show ?thesis
  proof (cases "may_eat t s")
    case False
    have "sema_inv (L(i := x)) n s'"
    proof (rule move_inside [OF inv act x(1), where t = i and p = "pst s i"])
      show "fork_ok (L k) (k \<in> grants x i) (pst s' k) (val s (Fork k))" if "k < NPHIL" "k \<noteq> i" for k
        using old [OF that(1)] x(3) False by (simp add: s' phi_test_sema_def)
      show "pst s' (LEFT k) = EATING \<or> pst s' (RIGHT k) = EATING \<or> k \<in> tests x i"
        if "k < NPHIL" "pst s' k = HUNGRY" for k
        using hu [of k] that False by (auto simp: s' phi_test_sema_def may_eat_def)
    qed (use False x(3) fx ap in \<open>simp_all add: s' phi_test_sema_def apart_ok_def\<close>)
    then show ?thesis by blast
  next
    case True
    then have m: "pst s t = HUNGRY" "pst s (LEFT t) \<noteq> EATING" "pst s (RIGHT t) \<noteq> EATING" by (simp_all add: may_eat_def)
    have lt: "L t \<in> {T4, T5, E6w, TW}" "val s (Fork t) = 0" if "t \<noteq> i"
    proof -
      have "L t \<notin> inside" using act that t(1) by (auto simp: active_def)
      then show "L t \<in> {T4, T5, E6w, TW}" "val s (Fork t) = 0"
        using old [OF t(1)] m(1) by (auto simp: fork_ok_def inside_def split: if_splits)
    qed
    have p': "pst s' = (pst s)(t := EATING)" using True by (simp add: s' phi_test_sema_def)
    have "sema_inv (L(i := y)) n s'"
    proof (rule move_inside [OF inv act x(2), where t = t and p = EATING])
      show "fork_ok (L k) (k \<in> grants y i) (pst s' k) (val s (Fork k))" if k: "k < NPHIL" "k \<noteq> i" for k
      proof (cases "k = t")
        case True
        then show ?thesis using lt k(2) x(4) p' by (auto simp: fork_ok_def)
      qed (use old [OF k(1)] x(4) p' in simp)
      show "fork_ok y (i \<in> grants y i) (pst s' i) (val s (Fork i))"
      proof (cases "t = i")
        case True
        then show ?thesis using fy(2) x(4) p' old [OF i(1)] t(2) by (simp add: fork_ok_def)
      qed (use fx fy(1) x(4) p' in simp)
      have "pst s' (RIGHT k) \<noteq> EATING" if k: "k < NPHIL" "pst s' k = EATING" for k
      proof (cases "RIGHT k = t")
        case False
        then show ?thesis
          using ap m(3) k True by (cases "k = t") (auto simp: s' phi_test_sema_def apart_ok_def)
      next
        case True': True
        then have "k = LEFT t" using k(1) by auto
        then show ?thesis using m(2) k(2) t(1) True by (simp add: s' phi_test_sema_def)
      qed
      then show "apart_ok s'" by (simp add: apart_ok_def)
      show "pst s' (LEFT k) = EATING \<or> pst s' (RIGHT k) = EATING \<or> k \<in> tests y i"
        if "k < NPHIL" "pst s' k = HUNGRY" for k
        using hu [of k] that True x(7) by (auto simp: s' phi_test_sema_def split: if_splits)
    qed (use True ry in \<open>simp_all add: s' phi_test_sema_def\<close>)
    then show ?thesis by blast
  qed
qed

lemma run_thread_Cons:
  "todo s i = a # rest \<Longrightarrow> run_thread i s =
    (snd (perform i a s))\<lparr>todo := (todo s)(i := fst (perform i a s) @ rest)\<rparr>"
  using perform_todo [of i a s "fst (perform i a s)" "snd (perform i a s)"]
  by (simp add: run_thread_def split_beta)

lemma inside_active:
  assumes "sema_inv L n s" and "i < NPHIL" and "L i \<in> inside"
  shows "active L = {i}"
proof -
  have "i \<in> active L" using assms(2,3) by (simp add: active_def)
  then show ?thesis using assms(1) by (auto simp: sema_inv_def mutex_ok_def)
qed

lemma sema_step:
  assumes inv: "sema_inv L n s" and step: "table_step s s'"
  shows "\<exists>L' n'. sema_inv L' n' s'"
  using step
proof cases
  case (1 i)
  then have i: "i < NPHIL" and td: "todo s i \<noteq> []" and aw: "\<not> asleep s i" and s': "s' = run_thread i s"
    by (simp_all add: can_run_def)
  have th: "todo s i = rest_of (L i) i @ rounds i (n i)" "L i \<notin> sleeping" "fork_ok (L i) (granted L i) (pst s i) (val s (Fork i))"
    "que s (Fork i) = (if L i = E6w then [i] else [])" "asleep s i \<longleftrightarrow> L i \<in> sleeping"
    using inv i aw by (auto simp: sema_inv_def thread_ok_def)
  note run = s' [unfolded run_thread_Cons]
  have acti: "active L = {i}" if "L i \<in> inside" by (rule inside_active [OF inv i that])
  have quiet: "\<exists>L' n'. sema_inv L' n' s'"
    if "L i \<notin> inside" "x \<notin> inside" "x \<notin> {T2w, P8w}" "L i \<notin> {T2w, P8w}" "x \<noteq> E6w" "x \<notin> sleeping"
      "fork_ok x = fork_ok (L i)" "L i \<noteq> E6w" "todo s i = DoSleep # rest_of x i @ rounds i m" for x m
  proof -
    have "sema_inv (L(i := x)) (n(i := m)) s'"
      by (rule move_outside [OF inv i that(1-4), where v = "val s (Fork i)" and q = "[]"])
        (use that th s' in \<open>auto simp: run_thread_Cons\<close>)
    then show ?thesis by blast
  qed
  show ?thesis
  proof (cases "L i")
    case T0
    then obtain m where m: "n i = Suc m" using td th(1) by (cases "n i") auto
    show ?thesis
      by (rule quiet [of T1 m]) (use T0 th(1) m in \<open>auto simp: inside_def sleeping_def fork_ok_def fun_eq_iff\<close>)
  next
    case T1
    show ?thesis
      using enter_section [OF inv i, of T2 T2w s'] T1 th(1) s'
      by (auto simp: run_thread_Cons phi_take_forks_sema_def)
  next
    case E7
    show ?thesis
      using enter_section [OF inv i, of P8 P8w s'] E7 th(1) s'
      by (auto simp: run_thread_Cons phi_put_forks_sema_def)
  next
    case E6
    show ?thesis
      by (rule quiet [of E7 "n i"]) (use E6 th(1) in \<open>auto simp: inside_def sleeping_def fork_ok_def fun_eq_iff\<close>)
  next
    case T4
    show ?thesis
      using leave_section [OF inv acti, of T5 s'] T4 th(1) s' by (auto simp: run_thread_Cons inside_def)
  next
    case P11
    show ?thesis
      using leave_section [OF inv acti, of T0 s'] P11 th(1) s' by (auto simp: run_thread_Cons inside_def)
  next
    case T3
    show ?thesis
      using test_forks [OF inv acti i, of T4 TW s'] T3 th(1,3) s'
      by (auto simp: run_thread_Cons inside_def fork_ok_def)
  next
    case P9
    show ?thesis
      using test_forks [OF inv acti, of "LEFT i" P10 PWL s'] P9 th(1,3) s' i
      by (auto simp: run_thread_Cons inside_def fork_ok_def fun_eq_iff)
  next
    case P10
    show ?thesis
      using test_forks [OF inv acti, of "RIGHT i" P11 PWR s'] P10 th(1,3) s' i
      by (auto simp: run_thread_Cons inside_def fork_ok_def fun_eq_iff)
  next
    case TW
    show ?thesis
      using give_forks [OF inv acti, of i T4 s'] TW th(1) s' i
      by (auto simp: run_thread_Cons inside_def fork_ok_def fun_eq_iff)
  next
    case PWL
    show ?thesis
      using give_forks [OF inv acti, of "LEFT i" P10 s'] PWL th(1) s' i
      by (auto simp: run_thread_Cons inside_def fork_ok_def fun_eq_iff)
  next
    case PWR
    show ?thesis
      using give_forks [OF inv acti, of "RIGHT i" P11 s'] PWR th(1) s' i
      by (auto simp: run_thread_Cons inside_def fork_ok_def fun_eq_iff)
  next
    case T5
    let ?x = "if val s (Fork i) > 0 then E6 else E6w"
    have g: "granted L i \<Longrightarrow> val s (Fork i) = 0" using th(3) T5 by (auto simp: fork_ok_def)
    have "sema_inv (L(i := ?x)) (n(i := n i)) s'"
      by (rule move_outside [OF inv i, where v = "if val s (Fork i) > 0 then val s (Fork i) - 1 else val s (Fork i)"
            and q = "if val s (Fork i) > 0 then [] else [i]"])
        (use T5 th s' g in \<open>auto simp: run_thread_Cons sem_down_def inside_def sleeping_def fork_ok_def\<close>)
    then show ?thesis by blast
  next
    case T2
    have a: "active L = {i}" by (rule acti) (simp add: T2 inside_def)
    note ao = active_only [OF a]
    have old: "fork_ok (L k) False (pst s k) (val s (Fork k))" if "k < NPHIL" for k
      using inv that ao(3) [of k] T2 by (auto simp: sema_inv_def thread_ok_def)
    have p: "pst s i = THINKING" using th(3) T2 by (simp add: fork_ok_def)
    have hu: "pst s (LEFT k) = EATING \<or> pst s (RIGHT k) = EATING" if "k < NPHIL" "pst s k = HUNGRY" for k
      using inv that ao(4) [of k] T2 by (auto simp: sema_inv_def hungry_ok_def)
    have "sema_inv (L(i := T3)) n s'"
    proof (rule move_inside [OF inv a, where t = i and p = HUNGRY])
      show "fork_ok (L k) (k \<in> grants T3 i) (pst s' k) (val s (Fork k))" if "k < NPHIL" "k \<noteq> i" for k
        using old [OF that(1)] that T2 th(1) s' by (simp add: run_thread_Cons)
      show "fork_ok T3 (i \<in> grants T3 i) (pst s' i) (val s (Fork i))"
        using th(3) T2 th(1) s' by (simp add: run_thread_Cons fork_ok_def)
      show "apart_ok s'" using inv T2 th(1) s' by (auto simp: run_thread_Cons sema_inv_def apart_ok_def)
      show "pst s' (LEFT k) = EATING \<or> pst s' (RIGHT k) = EATING \<or> k \<in> tests T3 i"
        if "k < NPHIL" "pst s' k = HUNGRY" for k
        using hu [of k] that p T2 th(1) s' by (auto simp: run_thread_Cons split: if_splits)
    qed (use T2 th(1) s' in \<open>simp_all add: run_thread_Cons inside_def\<close>)
    then show ?thesis by blast
  next
    case P8
    have a: "active L = {i}" by (rule acti) (simp add: P8 inside_def)
    note ao = active_only [OF a]
    have old: "fork_ok (L k) False (pst s k) (val s (Fork k))" if "k < NPHIL" for k
      using inv that ao(3) [of k] P8 by (auto simp: sema_inv_def thread_ok_def)
    have hu: "pst s (LEFT k) = EATING \<or> pst s (RIGHT k) = EATING" if "k < NPHIL" "pst s k = HUNGRY" for k
      using inv that ao(4) [of k] P8 by (auto simp: sema_inv_def hungry_ok_def)
    have "sema_inv (L(i := P9)) n s'"
    proof (rule move_inside [OF inv a, where t = i and p = THINKING])
      show "fork_ok (L k) (k \<in> grants P9 i) (pst s' k) (val s (Fork k))" if "k < NPHIL" "k \<noteq> i" for k
        using old [OF that(1)] that P8 th(1) s' by (simp add: run_thread_Cons)
      show "fork_ok P9 (i \<in> grants P9 i) (pst s' i) (val s (Fork i))"
        using th(3) P8 th(1) s' i by (auto simp: run_thread_Cons fork_ok_def)
      show "apart_ok s'" using inv P8 th(1) s' by (auto simp: run_thread_Cons sema_inv_def apart_ok_def)
      show "pst s' (LEFT k) = EATING \<or> pst s' (RIGHT k) = EATING \<or> k \<in> tests P9 i"
        if "k < NPHIL" "pst s' k = HUNGRY" for k
        using hu [of k] that P8 th(1) s' i left_right by (auto simp: run_thread_Cons split: if_splits)
    qed (use P8 th(1) s' in \<open>simp_all add: run_thread_Cons inside_def\<close>)
    then show ?thesis by blast
  qed (use th(2) in \<open>simp_all add: sleeping_def\<close>)
qed
lemma sema_reachable:
  "table_step\<^sup>*\<^sup>* (table_init philosopher_using_semaphore) s \<Longrightarrow> \<exists>L n. sema_inv L n s"
proof (induction rule: rtranclp_induct)
  case base
  show ?case using sema_inv_init by blast
next
  case (step s s')
  then show ?case using sema_step by blast
qed

text \<open>Somebody can always go on, until all are done.\<close>

lemma sema_progress:
  assumes inv: "sema_inv L n s" and stuck: "\<And>i. \<not> can_run i s" and i: "i < NPHIL"
  shows "todo s i = []"
proof -
  have th: "thread_ok L n s k" if "k < NPHIL" for k using inv that by (simp add: sema_inv_def)
  have "end": "L k = T0 \<or> L k \<in> sleeping" if "k < NPHIL" for k
    using th [OF that] stuck [of k] that by (cases "L k") (auto simp: thread_ok_def can_run_def sleeping_def
        phi_take_forks_sema_def phi_put_forks_sema_def)
  then have act: "active L = {}" by (fastforce simp: active_def inside_def sleeping_def)
  then have free: "que s Mutex = []" "{k. k < NPHIL \<and> L k \<in> {T2w, P8w}} = {}"
    using inv by (auto simp: sema_inv_def mutex_ok_def)
  have ng: "\<not> granted L k" "\<not> tested L k" for k
    using act grants_inside by (auto simp: granted_def tested_def active_def)
  have end2: "L k = T0 \<or> L k = E6w" if "k < NPHIL" for k using "end" [OF that] free(2) that by (auto simp: sleeping_def)
  have no_meal: "pst s k \<noteq> EATING" if "k < NPHIL" for k
    using th [OF that] end2 [OF that] ng(1) [of k] by (auto simp: thread_ok_def fork_ok_def)
  have "L i = T0"
  proof (rule ccontr)
    assume "L i \<noteq> T0"
    then have "pst s i = HUNGRY" using end2 [OF i] th [OF i] ng(1) [of i] by (auto simp: thread_ok_def fork_ok_def)
    then show False using inv i no_meal ng(2) [of i] by (auto simp: sema_inv_def hungry_ok_def)
  qed
  with stuck [of i] th [OF i] i show ?thesis by (auto simp: thread_ok_def can_run_def sleeping_def)
qed

text \<open>Philosopher \<open>i\<close> has passed \<^verbatim>\<open>phi_take_forks_sema\<close> and not yet begun \<^verbatim>\<open>phi_put_forks_sema\<close>.\<close>

definition has_forks :: "(nat \<Rightarrow> act list) \<Rightarrow> nat \<Rightarrow> table \<Rightarrow> bool" where
  "has_forks put i s \<longleftrightarrow> \<not> asleep s i \<and> (\<exists>rest. todo s i = DoSleep # put i @ rest \<or> todo s i = put i @ rest)"

lemma rounds_put: "rounds i n \<noteq> DoSleep # phi_put_forks_sema i @ r" "rounds i n \<noteq> phi_put_forks_sema i @ r"
  by (cases n; simp add: phi_put_forks_sema_def phi_take_forks_sema_def)+

lemma has_forks_place:
  assumes "thread_ok L n s i" and "has_forks phi_put_forks_sema i s"
  shows "L i \<in> {E6, E7}"
  using assms rounds_put [of i "n i"]
  by (cases "L i") (auto simp: thread_ok_def has_forks_def phi_put_forks_sema_def phi_take_forks_sema_def sleeping_def)

text \<open>
  C4. The philosophers with semaphores, under every interleaving of their actions: two neighbours never
  have their forks at the same time; as long as not all of them are done some thread can go on, so
  nobody waits for ever; and every step leaves less work to do, so every run ends with all of them done.
\<close>

theorem dining_semaphores:
  assumes "table_step\<^sup>*\<^sup>* (table_init philosopher_using_semaphore) s"
  shows "(\<forall>i < NPHIL. has_forks phi_put_forks_sema i s \<longrightarrow> \<not> has_forks phi_put_forks_sema (RIGHT i) s) \<and>
    ((\<exists>s'. table_step s s') \<or> (\<forall>i < NPHIL. todo s i = [])) \<and> (\<forall>s'. table_step s s' \<longrightarrow> work s' < work s)"
proof -
  obtain L n where inv: "sema_inv L n s" using sema_reachable [OF assms] by blast
  have th: "thread_ok L n s k" if "k < NPHIL" for k using inv that by (simp add: sema_inv_def)
  have eat: "pst s k = EATING" if "k < NPHIL" "has_forks phi_put_forks_sema k s" for k
    using th [OF that(1)] has_forks_place [OF th [OF that(1)] that(2)] by (auto simp: thread_ok_def fork_ok_def)
  have "\<not> has_forks phi_put_forks_sema (RIGHT i) s" if "i < NPHIL" "has_forks phi_put_forks_sema i s" for i
    using eat [OF that] eat [of "RIGHT i"] inv that(1) by (auto simp: sema_inv_def apart_ok_def)
  moreover have "(\<exists>s'. table_step s s') \<or> (\<forall>i < NPHIL. todo s i = [])"
    using sema_progress [OF inv] table_step.intros by blast
  ultimately show ?thesis using work_decreases by blast
qed

theorem dining_semaphores_witness: "\<exists>s. table_step (table_init philosopher_using_semaphore) s"
proof -
  have "todo (table_init philosopher_using_semaphore) 0 \<noteq> []" "0 < NPHIL"
    by (simp_all add: table_init_def philosopher_using_semaphore_def TIMES_def NPHIL_def numeral_eq_Suc)
  with dining_semaphores [OF rtranclp.rtrancl_refl] show ?thesis by blast
qed

end
