(* ===== verification/Monitor.thy ===== *)
theory Monitor
  imports Philosophers
begin

text \<open>
  The philosophers with a monitor (\<^verbatim>\<open>kern/sync/monitor.c\<close> and the second half of
  \<^verbatim>\<open>check_sync.c\<close>): who is in the monitor, how \<^verbatim>\<open>cond_signal\<close> hands it to the
  thread it wakes and gets it back, and that neighbours never eat at the same time and nobody is left
  waiting. The programs and steps are those of Philosophers.
\<close>

section \<open>Places\<close>

text \<open>
  A place with \<open>w\<close> is one where the thread sleeps. \<open>QT\<close> to \<open>S4\<close> are the test of a neighbour, the left one
  for \<open>True\<close>, with the signal to it.
\<close>

datatype mloc = M0 | M1 | M2w | M2 | M3 | M3s | M4 | W0 | W1 | W2 | W2m | W3 | W4w | W4 | W5 | W5n | M5 | M5m
  | ME6 | ME7 | Q8w | Q8 | QT bool | QS bool | S1 bool | S2 bool | S3 bool | S4w bool | S4 bool | Q11 | Q11m

definition side :: "bool \<Rightarrow> nat \<Rightarrow> nat" where
  "side b i = (if b then LEFT i else RIGHT i)"

definition mrounds :: "nat \<Rightarrow> nat \<Rightarrow> act list" where
  "mrounds i n = concat (replicate n ([DoSleep] @ phi_take_forks_condvar i @ [DoSleep] @ phi_put_forks_condvar i))"

lemma mrounds_simps [simp]:
  "mrounds i 0 = []"
  "mrounds i (Suc n) = DoSleep # phi_take_forks_condvar i @ DoSleep # phi_put_forks_condvar i @ mrounds i n"
  by (simp_all add: mrounds_def)

definition after :: "bool \<Rightarrow> nat \<Rightarrow> act list" where
  "after b i = (if b then [TestCond (RIGHT i), Leave] else [Leave])"

fun mrest :: "mloc \<Rightarrow> nat \<Rightarrow> act list" where
  "mrest M0 i = []"
| "mrest M1 i = phi_take_forks_condvar i @ DoSleep # phi_put_forks_condvar i"
| "mrest M2w i = [SetState i HUNGRY, TestCond i, WaitUnlessEating i, Leave, DoSleep] @ phi_put_forks_condvar i"
| "mrest M2 i = [SetState i HUNGRY, TestCond i, WaitUnlessEating i, Leave, DoSleep] @ phi_put_forks_condvar i"
| "mrest M3 i = [TestCond i, WaitUnlessEating i, Leave, DoSleep] @ phi_put_forks_condvar i"
| "mrest M3s i = [CondSignal i, WaitUnlessEating i, Leave, DoSleep] @ phi_put_forks_condvar i"
| "mrest M4 i = [WaitUnlessEating i, Leave, DoSleep] @ phi_put_forks_condvar i"
| "mrest W0 i = [CondWait i, Leave, DoSleep] @ phi_put_forks_condvar i"
| "mrest W1 i = [CountAdd i 1, Leave, Down (CV i), CountAdd i (- 1), Leave, DoSleep] @ phi_put_forks_condvar i"
| "mrest W2 i = [Leave, Down (CV i), CountAdd i (- 1), Leave, DoSleep] @ phi_put_forks_condvar i"
| "mrest W2m i = [Up Mutex, Down (CV i), CountAdd i (- 1), Leave, DoSleep] @ phi_put_forks_condvar i"
| "mrest W3 i = [Down (CV i), CountAdd i (- 1), Leave, DoSleep] @ phi_put_forks_condvar i"
| "mrest W4w i = [CountAdd i (- 1), Leave, DoSleep] @ phi_put_forks_condvar i"
| "mrest W4 i = [CountAdd i (- 1), Leave, DoSleep] @ phi_put_forks_condvar i"
| "mrest W5 i = [Leave, DoSleep] @ phi_put_forks_condvar i"
| "mrest W5n i = [Up Next, DoSleep] @ phi_put_forks_condvar i"
| "mrest M5 i = [Leave, DoSleep] @ phi_put_forks_condvar i"
| "mrest M5m i = [Up Mutex, DoSleep] @ phi_put_forks_condvar i"
| "mrest ME6 i = DoSleep # phi_put_forks_condvar i"
| "mrest ME7 i = phi_put_forks_condvar i"
| "mrest Q8w i = [SetState i THINKING, TestCond (LEFT i), TestCond (RIGHT i), Leave]"
| "mrest Q8 i = [SetState i THINKING, TestCond (LEFT i), TestCond (RIGHT i), Leave]"
| "mrest (QT b) i = TestCond (side b i) # after b i"
| "mrest (QS b) i = CondSignal (side b i) # after b i"
| "mrest (S1 b) i = [NextAdd 1, Up (CV (side b i)), Down Next, NextAdd (- 1)] @ after b i"
| "mrest (S2 b) i = [Up (CV (side b i)), Down Next, NextAdd (- 1)] @ after b i"
| "mrest (S3 b) i = [Down Next, NextAdd (- 1)] @ after b i"
| "mrest (S4w b) i = NextAdd (- 1) # after b i"
| "mrest (S4 b) i = NextAdd (- 1) # after b i"
| "mrest Q11 i = [Leave]"
| "mrest Q11m i = [Up Mutex]"

fun asleep_at :: "mloc \<Rightarrow> bool" where
  "asleep_at M2w = True" | "asleep_at Q8w = True" | "asleep_at W4w = True" | "asleep_at (S4w b) = True"
| "asleep_at l = False"

fun next_at :: "bool \<Rightarrow> mloc" where "next_at True = QT False" | "next_at False = Q11"

fun holding :: "mloc \<Rightarrow> bool" where
  "holding M2 = True" | "holding M3 = True" | "holding M3s = True" | "holding M4 = True"
| "holding W0 = True" | "holding W1 = True" | "holding W2 = True" | "holding W2m = True"
| "holding M5 = True" | "holding M5m = True" | "holding Q8 = True" | "holding (QT b) = True" | "holding (QS b) = True"
| "holding (S1 b) = True" | "holding (S2 b) = True" | "holding (S4 b) = True" | "holding Q11 = True" | "holding Q11m = True"
| "holding l = False"

fun outer :: "mloc \<Rightarrow> bool" where
  "outer M0 = True" | "outer M1 = True" | "outer M2w = True" | "outer W3 = True" | "outer W4w = True"
| "outer ME6 = True" | "outer ME7 = True" | "outer Q8w = True" | "outer l = False"

fun counted :: "mloc \<Rightarrow> bool" where
  "counted W2 = True" | "counted W2m = True" | "counted W3 = True" | "counted W4w = True" | "counted W4 = True"
| "counted l = False"

fun nexted :: "mloc \<Rightarrow> bool" where
  "nexted (S2 b) = True" | "nexted (S4 b) = True" | "nexted l = False"

fun mgrants :: "mloc \<Rightarrow> nat \<Rightarrow> nat set" where
  "mgrants (QS b) i = {side b i}" | "mgrants (S1 b) i = {side b i}" | "mgrants (S2 b) i = {side b i}"
| "mgrants l i = {}"

fun mtests :: "mloc \<Rightarrow> nat \<Rightarrow> nat set" where
  "mtests M3 i = {i}"
| "mtests (QT b) i = (if b then {LEFT i, RIGHT i} else {RIGHT i})"
| "mtests (QS b) i = (if b then {RIGHT i} else {})" | "mtests (S1 b) i = (if b then {RIGHT i} else {})"
| "mtests (S2 b) i = (if b then {RIGHT i} else {})" | "mtests (S3 b) i = (if b then {RIGHT i} else {})"
| "mtests (S4w b) i = (if b then {RIGHT i} else {})" | "mtests (S4 b) i = (if b then {RIGHT i} else {})"
| "mtests l i = {}"

section \<open>Who has the monitor\<close>

text \<open>
  Nobody; one thread; a signaller \<open>b\<close> has given it to the waiter \<open>j\<close>, who has not yet come to sleep; the
  waiter has it; or it is on its way back to the signaller, who has not yet come to sleep.
\<close>

datatype mode = Free | Held nat | Given nat nat | Woken nat nat | Back nat

fun named :: "mode \<Rightarrow> nat set" where
  "named Free = {}" | "named (Held a) = {a}" | "named (Given b j) = {b, j}" | "named (Woken b j) = {b, j}"
| "named (Back b) = {b}"

definition signalling :: "mloc \<Rightarrow> bool" where
  "signalling l \<longleftrightarrow> (\<exists>d. l = S3 d \<or> l = S4w d)"

definition next_queue :: "(nat \<Rightarrow> mloc) \<Rightarrow> nat \<Rightarrow> nat list" where
  "next_queue L b = (if asleep_at (L b) then [b] else [])"

fun mode_ok :: "mode \<Rightarrow> (nat \<Rightarrow> mloc) \<Rightarrow> table \<Rightarrow> bool" where
  "mode_ok Free L s \<longleftrightarrow> val s Mutex = 1 \<and> que s Mutex = [] \<and> val s Next = 0 \<and> que s Next = [] \<and> next_count s = 0"
| "mode_ok (Held a) L s \<longleftrightarrow> a < NPHIL \<and> holding (L a) \<and> val s Mutex = 0 \<and> val s Next = 0 \<and> que s Next = [] \<and>
     next_count s = (if nexted (L a) then 1 else 0)"
| "mode_ok (Given b j) L s \<longleftrightarrow> b < NPHIL \<and> j < NPHIL \<and> b \<noteq> j \<and> signalling (L b) \<and> L j = W3 \<and> val s Mutex = 0 \<and>
     val s Next = 0 \<and> que s Next = next_queue L b \<and> next_count s = 1"
| "mode_ok (Woken b j) L s \<longleftrightarrow> b < NPHIL \<and> j < NPHIL \<and> b \<noteq> j \<and> signalling (L b) \<and> L j \<in> {W4, W5, W5n} \<and>
     val s Mutex = 0 \<and> val s Next = 0 \<and> que s Next = next_queue L b \<and> next_count s = 1"
| "mode_ok (Back b) L s \<longleftrightarrow> b < NPHIL \<and> signalling (L b) \<and> \<not> asleep_at (L b) \<and> val s Mutex = 0 \<and> val s Next = 1 \<and>
     que s Next = [] \<and> next_count s = 1"

fun cv_val :: "mode \<Rightarrow> nat \<Rightarrow> int" where
  "cv_val (Given b j) i = (if i = j then 1 else 0)"
| "cv_val m i = 0"

fun gets :: "mode \<Rightarrow> (nat \<Rightarrow> mloc) \<Rightarrow> nat set" where
  "gets (Held a) L = mgrants (L a) a"
| "gets (Given b j) L = {j}"
| "gets m L = {}"

fun pending :: "mode \<Rightarrow> (nat \<Rightarrow> mloc) \<Rightarrow> nat set" where
  "pending Free L = {}"
| "pending (Held a) L = mtests (L a) a"
| "pending (Given b j) L = mtests (L b) b"
| "pending (Woken b j) L = mtests (L b) b"
| "pending (Back b) L = mtests (L b) b"

definition state_ok :: "mloc \<Rightarrow> bool \<Rightarrow> pstate \<Rightarrow> bool" where
  "state_ok l g p \<longleftrightarrow>
     (if l \<in> {W3, W4w} then p = (if g then EATING else HUNGRY)
      else \<not> g \<and> (if l = M4 then p \<noteq> THINKING
        else p = (if l \<in> {M3, W0, W1, W2, W2m} then HUNGRY
          else if l \<in> {M3s, W4, W5, W5n, M5, M5m, ME6, ME7, Q8w, Q8} then EATING else THINKING)))"

definition local_ok :: "mode \<Rightarrow> (nat \<Rightarrow> mloc) \<Rightarrow> (nat \<Rightarrow> nat) \<Rightarrow> table \<Rightarrow> nat \<Rightarrow> bool" where
  "local_ok m L n s i \<longleftrightarrow> todo s i = mrest (L i) i @ mrounds i (n i) \<and> (asleep s i \<longleftrightarrow> asleep_at (L i)) \<and>
     que s (CV i) = (if L i = W4w then [i] else []) \<and> cv_count s i = (if counted (L i) then 1 else 0) \<and>
     val s (CV i) = cv_val m i \<and> state_ok (L i) (i \<in> gets m L) (pst s i) \<and> (i \<in> named m \<or> outer (L i))"

definition queue_ok :: "(nat \<Rightarrow> mloc) \<Rightarrow> table \<Rightarrow> bool" where
  "queue_ok L s \<longleftrightarrow> distinct (que s Mutex) \<and> set (que s Mutex) = {i. i < NPHIL \<and> L i \<in> {M2w, Q8w}}"

definition waiting_ok :: "mode \<Rightarrow> (nat \<Rightarrow> mloc) \<Rightarrow> table \<Rightarrow> bool" where
  "waiting_ok m L s \<longleftrightarrow> (\<forall>i < NPHIL. pst s i = HUNGRY \<longrightarrow>
     pst s (LEFT i) = EATING \<or> pst s (RIGHT i) = EATING \<or> i \<in> pending m L)"

definition mon_inv :: "mode \<Rightarrow> (nat \<Rightarrow> mloc) \<Rightarrow> (nat \<Rightarrow> nat) \<Rightarrow> table \<Rightarrow> bool" where
  "mon_inv m L n s \<longleftrightarrow> (\<forall>i < NPHIL. local_ok m L n s i) \<and> mode_ok m L s \<and> queue_ok L s \<and> apart_ok s \<and> waiting_ok m L s"

lemma mon_invD:
  assumes "mon_inv m L n s"
  shows "i < NPHIL \<Longrightarrow> local_ok m L n s i" "mode_ok m L s" "queue_ok L s" "apart_ok s" "waiting_ok m L s"
  using assms by (simp_all add: mon_inv_def)

lemma mon_inv_init: "mon_inv Free (\<lambda>_. M0) (\<lambda>_. TIMES) (table_init philosopher_using_condvar)"
  by (simp add: mon_inv_def local_ok_def table_init_def queue_ok_def apart_ok_def waiting_ok_def state_ok_def
      philosopher_using_condvar_def mrounds_def)

lemma side_simps' [simp]: "i < NPHIL \<Longrightarrow> side b i < NPHIL" "i < NPHIL \<Longrightarrow> side b i \<noteq> i" "i < NPHIL \<Longrightarrow> i \<noteq> side b i"
  by (simp_all add: side_def)

section \<open>Steps\<close>

text \<open>A place only the thread itself cares about.\<close>

lemma holding_not_outer: "holding l \<Longrightarrow> \<not> outer l" "outer l \<Longrightarrow> \<not> holding l"
  by (cases l; simp)+

lemma queue_ok_same:
  assumes "queue_ok L s" and "que s' Mutex = que s Mutex" and "L i \<notin> {M2w, Q8w}" and "x \<notin> {M2w, Q8w}"
  shows "queue_ok (L(i := x)) s'"
proof -
  have "{k. k < NPHIL \<and> (L(i := x)) k \<in> {M2w, Q8w}} = {k. k < NPHIL \<and> L k \<in> {M2w, Q8w}}" using assms(3,4) by auto
  then show ?thesis using assms(1,2) by (simp add: queue_ok_def)
qed

text \<open>The thread that has the monitor goes on inside it.\<close>

lemma held_move:
  assumes inv: "mon_inv (Held i) L n s" and x: "holding x"
    and s': "pst s' = (pst s)(t := p)" "cv_count s' = (cv_count s)(i := if counted x then 1 else 0)"
      "next_count s' = (if nexted x then 1 else 0)" "val s' = val s" "que s' = que s" "asleep s' = asleep s"
      "todo s' = (todo s)(i := mrest x i @ mrounds i (n i))"
    and f: "\<And>k. k < NPHIL \<Longrightarrow> k \<noteq> i \<Longrightarrow> state_ok (L k) (k \<in> mgrants x i) (pst s' k)"
      "state_ok x (i \<in> mgrants x i) (pst s' i)"
    and ap: "apart_ok s'"
    and h: "\<And>k. k < NPHIL \<Longrightarrow> pst s' k = HUNGRY \<Longrightarrow>
      pst s' (LEFT k) = EATING \<or> pst s' (RIGHT k) = EATING \<or> k \<in> mtests x i"
  shows "mon_inv (Held i) (L(i := x)) n s'"
proof -
  have i: "i < NPHIL" "holding (L i)" using mon_invD(2) [OF inv] by simp_all
  have ns: "\<not> asleep_at l \<and> l \<notin> {M2w, Q8w, W4w}" if "holding l" for l using that by (cases l) auto
  have "local_ok (Held i) (L(i := x)) n s' k" if "k < NPHIL" for k
    using mon_invD(1) [OF inv that] s' f that ns [OF x] ns [OF i(2)] by (auto simp: local_ok_def)
  moreover have "mode_ok (Held i) (L(i := x)) s'" using mon_invD(2) [OF inv] s' x by simp
  moreover have "queue_ok (L(i := x)) s'"
    by (rule queue_ok_same [OF mon_invD(3) [OF inv]]) (use s' ns [OF x] ns [OF i(2)] in auto)
  moreover have "waiting_ok (Held i) (L(i := x)) s'" using h by (simp add: waiting_ok_def)
  ultimately show ?thesis using ap by (simp add: mon_inv_def)
qed

lemma held_facts:
  assumes inv: "mon_inv (Held i) L n s" and k: "k < NPHIL"
  shows "state_ok (L k) (k \<in> mgrants (L i) i) (pst s k)"
    and "pst s k = HUNGRY \<Longrightarrow> pst s (LEFT k) = EATING \<or> pst s (RIGHT k) = EATING \<or> k \<in> mtests (L i) i"
    and "k \<noteq> i \<Longrightarrow> outer (L k)"
  using mon_invD(1) [OF inv k] mon_invD(5) [OF inv] k by (auto simp: local_ok_def waiting_ok_def)

lemma held_quiet:
  assumes inv: "mon_inv (Held i) L n s" and x: "holding x" "mgrants x i = mgrants (L i) i" "mtests x i = mtests (L i) i"
    and s': "pst s' = pst s" "cv_count s' = (cv_count s)(i := if counted x then 1 else 0)"
      "next_count s' = (if nexted x then 1 else 0)" "val s' = val s" "que s' = que s" "asleep s' = asleep s"
      "todo s' = (todo s)(i := mrest x i @ mrounds i (n i))"
    and f: "state_ok x (i \<in> mgrants x i) (pst s i)"
  shows "\<exists>m L' n'. mon_inv m L' n' s'"
proof -
  have "mon_inv (Held i) (L(i := x)) n s'"
    by (rule held_move [OF inv x(1), where t = i and p = "pst s i"])
      (use s' x f held_facts [OF inv] mon_invD(4) [OF inv] in \<open>simp_all add: apart_ok_def\<close>)
  then show ?thesis by blast
qed

text \<open>A thread that does not take part in handing over the monitor.\<close>

lemma outer_named:
  assumes "mode_ok m L s" and "outer (L i)" and "i \<in> named m"
  shows "\<exists>b. m = Given b i \<and> L i = W3"
  using assms by (cases m) (auto simp: signalling_def holding_not_outer)

lemma mode_frame:
  assumes "i \<notin> named m"
  shows "gets m (L(i := x)) = gets m L" "pending m (L(i := x)) = pending m L"
    "mode_ok m (L(i := x)) s = mode_ok m L s"
  using assms by (cases m; simp add: next_queue_def)+

lemma outer_move:
  assumes inv: "mon_inv m L n s" and i: "i < NPHIL" "outer (L i)" "i \<notin> named m"
    and x: "outer x" "x \<notin> {M2w, Q8w}" "L i \<notin> {M2w, Q8w, W4w}" "counted x = counted (L i)" "state_ok x = state_ok (L i)"
    and s': "pst s' = pst s" "cv_count s' = cv_count s" "next_count s' = next_count s" "val s' = val s"
      "que s' = (if x = W4w then (que s)(CV i := [i]) else que s)" "asleep s' = (asleep s)(i := asleep_at x)"
      "todo s' = (todo s)(i := mrest x i @ mrounds i k)"
  shows "\<exists>m L' n'. mon_inv m L' n' s'"
proof -
  let ?L = "L(i := x)"
  note fr = mode_frame [OF i(3), of L x]
  have "local_ok m ?L (n(i := k)) s' j" if "j < NPHIL" for j
    using mon_invD(1) [OF inv that] s' x i fr(1) by (auto simp: local_ok_def)
  moreover have "mode_ok m L s'" using mon_invD(2) [OF inv] s' by (cases m) auto
  then have "mode_ok m ?L s'" by (simp add: fr(3))
  moreover have "queue_ok ?L s'" by (rule queue_ok_same [OF mon_invD(3) [OF inv]]) (use s' x in auto)
  moreover have "apart_ok s'" "waiting_ok m ?L s'"
    using mon_invD(4,5) [OF inv] s'(1) fr(2) by (simp_all add: apart_ok_def waiting_ok_def)
  ultimately have "mon_inv m ?L (n(i := k)) s'" by (simp add: mon_inv_def)
  then show ?thesis by blast
qed

lemma enter_monitor:
  assumes inv: "mon_inv m L n s" and i: "i < NPHIL" and x: "(L i, x, xw) \<in> {(M1, M2, M2w), (ME7, Q8, Q8w)}"
    and s': "s' = (sem_down i Mutex s)\<lparr>todo := (todo s)(i := mrest x i @ mrounds i (n i))\<rparr>"
  shows "\<exists>m L' n'. mon_inv m L' n' s'"
proof -
  have "L i = M1 \<and> x = M2 \<and> xw = M2w \<or> L i = ME7 \<and> x = Q8 \<and> xw = Q8w" using x by auto
  then have xi: "outer (L i)" "L i \<noteq> W3" "L i \<noteq> W4w" "holding x" "outer xw" "\<not> asleep_at x" "asleep_at xw" "\<not> asleep_at (L i)"
    "counted x = counted (L i)" "counted xw = counted (L i)" "state_ok x = state_ok (L i)" "state_ok xw = state_ok (L i)"
    "mgrants x i = {}" "mtests x i = {}" "\<not> nexted x" "mrest xw i = mrest x i" "x \<noteq> W4w" "xw \<noteq> W4w" "\<not> counted (L i)"
    "L i \<notin> {M2w, Q8w}" "x \<notin> {M2w, Q8w}" "xw \<in> {M2w, Q8w}"
    by (elim disjE; simp add: state_ok_def fun_eq_iff)+
  have nn: "i \<notin> named m" using outer_named [OF mon_invD(2) [OF inv] xi(1)] xi(2) by blast
  show ?thesis
  proof (cases "val s Mutex > 0")
    case True
    then have m: "m = Free" using mon_invD(2) [OF inv] by (cases m) auto
    let ?L = "L(i := x)"
    have v: "val s' = (val s)(Mutex := 0)" "que s' = que s" "asleep s' = asleep s" "pst s' = pst s"
      "cv_count s' = cv_count s" "next_count s' = next_count s" "todo s' = (todo s)(i := mrest x i @ mrounds i (n i))"
      using True mon_invD(2) [OF inv] m by (simp_all add: s' sem_down_def)
    have "local_ok (Held i) ?L n s' j" if "j < NPHIL" for j
      using mon_invD(1) [OF inv that] v xi m by (auto simp: local_ok_def)
    moreover have "mode_ok (Held i) ?L s'" using mon_invD(2) [OF inv] v xi i m by simp
    moreover have "queue_ok ?L s'" by (rule queue_ok_same [OF mon_invD(3) [OF inv]]) (use v xi in auto)
    moreover have "apart_ok s'" "waiting_ok (Held i) ?L s'"
      using mon_invD(4,5) [OF inv] v(4) xi m by (simp_all add: apart_ok_def waiting_ok_def)
    ultimately have "mon_inv (Held i) ?L n s'" by (simp add: mon_inv_def)
    then show ?thesis by blast
  next
    case False
    let ?L = "L(i := xw)"
    note fr = mode_frame [OF nn, of L xw]
    have v: "val s' = val s" "que s' = (que s)(Mutex := que s Mutex @ [i])" "asleep s' = (asleep s)(i := True)"
      "pst s' = pst s" "cv_count s' = cv_count s" "next_count s' = next_count s"
      "todo s' = (todo s)(i := mrest x i @ mrounds i (n i))"
      using False by (simp_all add: s' sem_down_def)
    have "local_ok m ?L n s' j" if "j < NPHIL" for j
      using mon_invD(1) [OF inv that] v xi fr(1) by (auto simp: local_ok_def)
    moreover have "m \<noteq> Free" using False mon_invD(2) [OF inv] by auto
    then have "mode_ok m L s'" using mon_invD(2) [OF inv] v by (cases m) auto
    then have "mode_ok m ?L s'" by (simp add: fr(3))
    moreover have "{k. k < NPHIL \<and> ?L k \<in> {M2w, Q8w}} = insert i {k. k < NPHIL \<and> L k \<in> {M2w, Q8w}}"
      using xi(22) i by auto
    then have "queue_ok ?L s'" using mon_invD(3) [OF inv] v xi(20) by (auto simp: queue_ok_def)
    moreover have "apart_ok s'" "waiting_ok m ?L s'"
      using mon_invD(4,5) [OF inv] v(4) fr(2) by (simp_all add: apart_ok_def waiting_ok_def)
    ultimately have "mon_inv m ?L n s'" by (simp add: mon_inv_def)
    then show ?thesis by blast
  qed
qed

fun mawake :: "mloc \<Rightarrow> mloc" where
  "mawake M2w = M2" | "mawake Q8w = Q8" | "mawake l = l"

lemma leave_to:
  assumes inv: "mon_inv (Held i) L n s"
    and x: "(L i, x) \<in> {(W2m, W3), (M5m, ME6), (Q11m, M0)}"
    and s': "s' = (sem_up Mutex s)\<lparr>todo := (todo s)(i := mrest x i @ mrounds i (n i))\<rparr>"
  shows "\<exists>m L' n'. mon_inv m L' n' s'"
proof -
  have i: "i < NPHIL" using mon_invD(2) [OF inv] by simp
  have "L i = W2m \<and> x = W3 \<or> L i = M5m \<and> x = ME6 \<or> L i = Q11m \<and> x = M0" using x by auto
  then have xi: "outer x" "\<not> asleep_at x" "\<not> asleep_at (L i)" "counted x = counted (L i)" "x \<notin> {M2w, Q8w, W4w}"
    "L i \<notin> {M2w, Q8w, W4w}" "mgrants (L i) i = {}" "mtests (L i) i = {}" "\<not> nexted (L i)"
    "\<And>p. state_ok (L i) False p \<Longrightarrow> state_ok x False p"
    by (elim disjE; simp add: state_ok_def)+
  have v0: "val s Mutex = 0" using mon_invD(2) [OF inv] by simp
  show ?thesis
  proof (cases "que s Mutex")
    case Nil
    let ?L = "L(i := x)"
    have v: "val s' = (val s)(Mutex := 1)" "que s' = que s" "asleep s' = asleep s" "pst s' = pst s"
      "cv_count s' = cv_count s" "next_count s' = next_count s" "todo s' = (todo s)(i := mrest x i @ mrounds i (n i))"
      using Nil v0 by (simp_all add: s' sem_up_def)
    have "local_ok Free ?L n s' j" if "j < NPHIL" for j
      using mon_invD(1) [OF inv that] v xi by (auto simp: local_ok_def)
    moreover have "mode_ok Free ?L s'" using mon_invD(2) [OF inv] v xi Nil by simp
    moreover have "queue_ok ?L s'" by (rule queue_ok_same [OF mon_invD(3) [OF inv]]) (use v xi in auto)
    moreover have "apart_ok s'" "waiting_ok Free ?L s'"
      using mon_invD(4,5) [OF inv] v(4) xi by (simp_all add: apart_ok_def waiting_ok_def)
    ultimately have "mon_inv Free ?L n s'" by (simp add: mon_inv_def)
    then show ?thesis by blast
  next
    case (Cons j q)
    then have j: "j < NPHIL" "L j \<in> {M2w, Q8w}" "j \<notin> set q" "distinct q"
      "set q = {k. k < NPHIL \<and> L k \<in> {M2w, Q8w}} - {j}" using mon_invD(3) [OF inv] by (auto simp: queue_ok_def)
    then have ij: "i \<noteq> j" using xi by auto
    let ?L = "L(i := x, j := mawake (L j))"
    have jw: "holding (mawake (L j))" "\<not> asleep_at (mawake (L j))" "mawake (L j) \<notin> {M2w, Q8w, W4w}" "L j \<noteq> W4w"
      "asleep_at (L j)" "mgrants (mawake (L j)) j = {}" "mtests (mawake (L j)) j = {}"
      "state_ok (mawake (L j)) = state_ok (L j)" "mrest (mawake (L j)) j = mrest (L j) j"
      "counted (mawake (L j)) = counted (L j)" "\<not> nexted (mawake (L j))"
      using j(2) by (auto simp add: state_ok_def fun_eq_iff)
    have v: "val s' = val s" "que s' = (que s)(Mutex := q)" "asleep s' = (asleep s)(j := False)" "pst s' = pst s"
      "cv_count s' = cv_count s" "next_count s' = next_count s"
      "todo s' = (todo s)(i := mrest x i @ mrounds i (n i))"
      using Cons by (simp_all add: s' sem_up_def)
    have "local_ok (Held j) ?L n s' k" if "k < NPHIL" for k
      using mon_invD(1) [OF inv that] v xi jw ij by (auto simp: local_ok_def)
    moreover have "mode_ok (Held j) ?L s'" using mon_invD(2) [OF inv] v xi jw j(1) by simp
    moreover have "{k. k < NPHIL \<and> ?L k \<in> {M2w, Q8w}} = {k. k < NPHIL \<and> L k \<in> {M2w, Q8w}} - {j}"
      using xi jw by auto
    then have "queue_ok ?L s'" using v j by (simp add: queue_ok_def)
    moreover have "apart_ok s'" "waiting_ok (Held j) ?L s'"
      using mon_invD(4,5) [OF inv] v(4) xi jw by (simp_all add: apart_ok_def waiting_ok_def)
    ultimately have "mon_inv (Held j) ?L n s'" by (simp add: mon_inv_def)
    then show ?thesis by blast
  qed
qed
text \<open>\<^verbatim>\<open>up(&(cvp->sem))\<close>: the monitor goes to the waiter.\<close>

lemma granted_waits:
  assumes inv: "mon_inv m L n s" and j: "j < NPHIL" "j \<in> gets m L"
  shows "L j \<in> {W3, W4w}" "pst s j = EATING" "cv_count s j = 1"
  using mon_invD(1) [OF inv j(1)] j(2) by (auto simp: local_ok_def state_ok_def split: if_splits)

lemma signal_step:
  assumes inv: "mon_inv (Held i) L n s" and L: "L i = S2 d"
    and s': "s' = (sem_up (CV (side d i)) s)\<lparr>todo := (todo s)(i := mrest (S3 d) i @ mrounds i (n i))\<rparr>"
  shows "\<exists>m L' n'. mon_inv m L' n' s'"
proof -
  let ?j = "side d i"
  have i: "i < NPHIL" using mon_invD(2) [OF inv] by simp
  have j: "?j < NPHIL" "?j \<noteq> i" using i by simp_all
  note g = granted_waits [OF inv j(1)]
  have gj: "L ?j \<in> {W3, W4w}" "pst s ?j = EATING" "cv_count s ?j = 1" using g L by simp_all
  have q: "que s (CV ?j) = (if L ?j = W4w then [?j] else [])" "val s (CV ?j) = 0"
    using mon_invD(1) [OF inv j(1)] by (simp_all add: local_ok_def)
  define m where "m = (if L ?j = W4w then Woken i ?j else Given i ?j)"
  define L' where "L' = (if L ?j = W4w then L(i := S3 d, ?j := W4) else L(i := S3 d))"
  have v: "val s' = (if L ?j = W4w then val s else (val s)(CV ?j := 1))" "que s' = (que s)(CV ?j := [])"
    "asleep s' = (if L ?j = W4w then (asleep s)(?j := False) else asleep s)"
    "pst s' = pst s" "cv_count s' = cv_count s" "next_count s' = next_count s"
    "todo s' = (todo s)(i := mrest (S3 d) i @ mrounds i (n i))"
    using q by (auto simp: s' sem_up_def)
  have old: "gets (Held i) L = {?j}" "named m = {i, ?j}" "gets m L' = (if L ?j = W4w then {} else {?j})" "L' i = S3 d"
    "L' ?j = (if L ?j = W4w then W4 else W3)" "\<And>k. k \<noteq> i \<Longrightarrow> k \<noteq> ?j \<Longrightarrow> L' k = L k"
    "cv_val m ?j = (if L ?j = W4w then 0 else 1)" "\<And>k. k \<noteq> ?j \<Longrightarrow> cv_val m k = 0"
    using L j gj(1) by (auto simp: m_def L'_def)
  have "local_ok m L' n s' k" if k: "k < NPHIL" for k
  proof -
    note lo = mon_invD(1) [OF inv k, unfolded local_ok_def old]
    consider "k = i" | "k = ?j" | "k \<noteq> i" "k \<noteq> ?j" by blast
    then show ?thesis
    proof cases
      case 1
      then show ?thesis using lo v L j old by (simp add: local_ok_def state_ok_def)
    next
      case 2
      show ?thesis
      proof (cases "L ?j = W4w")
        case True
        then show ?thesis using lo v q j gj old 2 by (simp add: local_ok_def state_ok_def)
      next
        case False
        then have "L ?j = W3" using gj(1) by simp
        then show ?thesis using lo v q j gj old 2 by (simp add: local_ok_def state_ok_def)
      qed
    next
      case 3
      then show ?thesis using lo v old(2-) by (simp add: local_ok_def)
    qed
  qed
  moreover have "mode_ok m L' s'"
    using mon_invD(2) [OF inv] v L j gj i by (auto simp: m_def L'_def signalling_def next_queue_def)
  moreover have "{k. k < NPHIL \<and> L' k \<in> {M2w, Q8w}} = {k. k < NPHIL \<and> L k \<in> {M2w, Q8w}}"
    using L gj by (auto simp: L'_def)
  then have "queue_ok L' s'" using mon_invD(3) [OF inv] v by (simp add: queue_ok_def)
  moreover have "pending m L' = pending (Held i) L" using L j by (auto simp: m_def L'_def)
  then have "apart_ok s'" "waiting_ok m L' s'"
    using mon_invD(4,5) [OF inv] v(4) by (simp_all add: apart_ok_def waiting_ok_def)
  ultimately have "mon_inv m L' n s'" by (simp add: mon_inv_def)
  then show ?thesis by blast
qed

text \<open>The waiter comes to its semaphore after the signal.\<close>

lemma waiter_step:
  assumes inv: "mon_inv (Given b i) L n s"
    and s': "s' = (sem_down i (CV i) s)\<lparr>todo := (todo s)(i := mrest W4 i @ mrounds i (n i))\<rparr>"
  shows "\<exists>m L' n'. mon_inv m L' n' s'"
proof -
  note md = mon_invD(2) [OF inv]
  have i: "i < NPHIL" "L i = W3" "b \<noteq> i" "b < NPHIL" using md by auto
  have one: "val s (CV i) = 1" using mon_invD(1) [OF inv i(1)] by (simp add: local_ok_def)
  let ?L = "L(i := W4)"
  have v: "val s' = (val s)(CV i := 0)" "que s' = que s" "asleep s' = asleep s" "pst s' = pst s"
    "cv_count s' = cv_count s" "next_count s' = next_count s" "todo s' = (todo s)(i := mrest W4 i @ mrounds i (n i))"
    using one by (simp_all add: s' sem_down_def)
  have "local_ok (Woken b i) ?L n s' k" if "k < NPHIL" for k
    using mon_invD(1) [OF inv that] v i by (cases "k = i") (auto simp: local_ok_def state_ok_def)
  moreover have "mode_ok (Woken b i) ?L s'" using md v i by (auto simp: next_queue_def)
  moreover have "queue_ok ?L s'" by (rule queue_ok_same [OF mon_invD(3) [OF inv]]) (use v i in auto)
  moreover have "apart_ok s'" "waiting_ok (Woken b i) ?L s'"
    using mon_invD(4,5) [OF inv] v(4) i by (simp_all add: apart_ok_def waiting_ok_def)
  ultimately have "mon_inv (Woken b i) ?L n s'" unfolding mon_inv_def by blast
  then show ?thesis by blast
qed

text \<open>The woken waiter leaves the monitor.\<close>

lemma woken_move:
  assumes inv: "mon_inv (Woken b i) L n s" and x: "(L i, x) \<in> {(W4, W5), (W5, W5n)}"
    and s': "pst s' = pst s" "cv_count s' = (cv_count s)(i := 0)" "next_count s' = next_count s" "val s' = val s"
      "que s' = que s" "asleep s' = asleep s" "todo s' = (todo s)(i := mrest x i @ mrounds i (n i))"
  shows "\<exists>m L' n'. mon_inv m L' n' s'"
proof -
  let ?L = "L(i := x)"
  have xi: "x \<in> {W5, W5n}" using x by auto
  note md = mon_invD(2) [OF inv]
  have i: "i < NPHIL" "b \<noteq> i" "L i \<in> {W4, W5, W5n}" using md by auto
  have "local_ok (Woken b i) ?L n s' k" if "k < NPHIL" for k
    using mon_invD(1) [OF inv that] s' i xi by (cases "k = i") (auto simp: local_ok_def state_ok_def)
  moreover have "mode_ok (Woken b i) ?L s'" using md s' i xi by (auto simp: next_queue_def)
  moreover have "queue_ok ?L s'" by (rule queue_ok_same [OF mon_invD(3) [OF inv]]) (use s' i xi in auto)
  moreover have "apart_ok s'" "waiting_ok (Woken b i) ?L s'"
    using mon_invD(4,5) [OF inv] s'(1) i by (simp_all add: apart_ok_def waiting_ok_def)
  ultimately have "mon_inv (Woken b i) ?L n s'" unfolding mon_inv_def by blast
  then show ?thesis by blast
qed

lemma give_back:
  assumes inv: "mon_inv (Woken b i) L n s" and L: "L i = W5n"
    and s': "s' = (sem_up Next s)\<lparr>todo := (todo s)(i := mrest ME6 i @ mrounds i (n i))\<rparr>"
  shows "\<exists>m L' n'. mon_inv m L' n' s'"
proof -
  note md = mon_invD(2) [OF inv]
  have i: "i < NPHIL" "b \<noteq> i" "b < NPHIL" "signalling (L b)" using md by auto
  then obtain d where d: "L b = S3 d \<or> L b = S4w d" by (auto simp: signalling_def)
  have q: "que s Next = (if L b = S4w d then [b] else [])" "val s Next = 0" "val s Mutex = 0" "next_count s = 1"
    using md d by (auto simp: next_queue_def)
  define m where "m = (if L b = S4w d then Held b else Back b)"
  define L' where "L' = (if L b = S4w d then L(i := ME6, b := S4 d) else L(i := ME6))"
  have v: "val s' = (if L b = S4w d then val s else (val s)(Next := 1))" "que s' = (que s)(Next := [])"
    "asleep s' = (if L b = S4w d then (asleep s)(b := False) else asleep s)"
    "pst s' = pst s" "cv_count s' = cv_count s" "next_count s' = next_count s"
    "todo s' = (todo s)(i := mrest ME6 i @ mrounds i (n i))"
    using q by (auto simp: s' sem_up_def)
  have "local_ok m L' n s' k" if "k < NPHIL" for k
    using mon_invD(1) [OF inv that] v q L i d unfolding m_def L'_def
    by (cases "L b = S4w d"; cases "k = b"; cases "k = i"; simp add: local_ok_def state_ok_def)
  moreover have "mode_ok m L' s'" using v L i q d by (auto simp: m_def L'_def signalling_def)
  moreover have "{k. k < NPHIL \<and> L' k \<in> {M2w, Q8w}} = {k. k < NPHIL \<and> L k \<in> {M2w, Q8w}}"
    using L d by (auto simp: L'_def)
  then have "queue_ok L' s'" using mon_invD(3) [OF inv] v by (simp add: queue_ok_def)
  moreover have "pending m L' = pending (Woken b i) L" using L i d by (auto simp: m_def L'_def)
  then have "apart_ok s'" "waiting_ok m L' s'"
    using mon_invD(4,5) [OF inv] v(4) by (simp_all add: apart_ok_def waiting_ok_def)
  ultimately have "mon_inv m L' n s'" by (simp add: mon_inv_def)
  then show ?thesis by blast
qed

text \<open>The signaller comes to \<^verbatim>\<open>next\<close>: it sleeps, or the monitor is back already.\<close>

lemma signaller_step:
  assumes inv: "mon_inv m L n s" and L: "L i = S3 d" and i: "i < NPHIL"
    and s': "s' = (sem_down i Next s)\<lparr>todo := (todo s)(i := mrest (S4 d) i @ mrounds i (n i))\<rparr>"
  shows "\<exists>m L' n'. mon_inv m L' n' s'"
proof -
  note md = mon_invD(2) [OF inv]
  have nm: "i \<in> named m" using mon_invD(1) [OF inv i] L by (simp add: local_ok_def)
  then consider (home) "m = Back i" | (away) j where "m = Given i j \<or> m = Woken i j" "i \<noteq> j"
    using md L by (cases m) (auto simp: signalling_def)
  then show ?thesis
  proof cases
    case home
    let ?L = "L(i := S4 d)"
    have v: "val s' = (val s)(Next := 0)" "que s' = que s" "asleep s' = asleep s" "pst s' = pst s"
      "cv_count s' = cv_count s" "next_count s' = next_count s" "todo s' = (todo s)(i := mrest (S4 d) i @ mrounds i (n i))"
      using md home by (simp_all add: s' sem_down_def)
    have "local_ok (Held i) ?L n s' k" if "k < NPHIL" for k
      using mon_invD(1) [OF inv that] v L home by (cases "k = i") (auto simp: local_ok_def state_ok_def)
    moreover have "mode_ok (Held i) ?L s'" using md v L home by auto
    moreover have "queue_ok ?L s'" by (rule queue_ok_same [OF mon_invD(3) [OF inv]]) (use v L in auto)
    moreover have "apart_ok s'" "waiting_ok (Held i) ?L s'"
      using mon_invD(4,5) [OF inv] v(4) L home by (simp_all add: apart_ok_def waiting_ok_def)
    ultimately have "mon_inv (Held i) ?L n s'" by (simp add: mon_inv_def)
    then show ?thesis by blast
  next
    case away
    let ?L = "L(i := S4w d)"
    have v: "val s' = val s" "que s' = (que s)(Next := [i])" "asleep s' = (asleep s)(i := True)" "pst s' = pst s"
      "cv_count s' = cv_count s" "next_count s' = next_count s" "todo s' = (todo s)(i := mrest (S4 d) i @ mrounds i (n i))"
      using md away L by (auto simp: s' sem_down_def next_queue_def)
    have g: "gets m ?L = gets m L" using away by auto
    have st: "state_ok (S4w d) = state_ok (S3 d)" by (simp add: state_ok_def fun_eq_iff)
    have "local_ok m ?L n s' k" if "k < NPHIL" for k
      using mon_invD(1) [OF inv that] v L nm unfolding local_ok_def g by (cases "k = i") (simp_all add: st)
    moreover have "mode_ok m ?L s'" using md v L away by (auto simp: signalling_def next_queue_def)
    moreover have "queue_ok ?L s'" by (rule queue_ok_same [OF mon_invD(3) [OF inv]]) (use v L in auto)
    moreover have "apart_ok s'" "waiting_ok m ?L s'"
      using mon_invD(4,5) [OF inv] v(4) L away by (auto simp: apart_ok_def waiting_ok_def)
    ultimately have "mon_inv m ?L n s'" by (simp add: mon_inv_def)
    then show ?thesis by blast
  qed
qed
text \<open>The test of a philosopher, its own or a neighbour's.\<close>

lemma held_test:
  assumes inv: "mon_inv (Held i) L n s" and t: "t < NPHIL"
    and x: "holding x" "holding y" "\<not> counted x" "\<not> counted y" "\<not> nexted x" "\<not> nexted y" "\<not> counted (L i)" "\<not> nexted (L i)"
      "mgrants x i = {}" "mgrants y i = (if t = i then {} else {t})" "mgrants (L i) i = {}"
      "mtests (L i) i \<subseteq> insert t (mtests x i)" "mtests y i = mtests x i"
    and fx: "state_ok x False (pst s i)"
    and fy: "t \<noteq> i \<Longrightarrow> state_ok y False = state_ok x False" "t = i \<Longrightarrow> state_ok y False EATING"
    and s': "s' = (snd (phi_test_condvar t s))\<lparr>todo := (todo s)(i := fst (phi_test_condvar t s) @ mrest x i @ mrounds i (n i))\<rparr>"
    and ry: "mrest y i = CondSignal t # mrest x i"
  shows "\<exists>m L' n'. mon_inv m L' n' s'"
proof -
  have i: "i < NPHIL" and nc: "next_count s = 0" "cv_count s i = 0"
    using mon_invD(2) [OF inv] mon_invD(1) [OF inv, of i] x(7,8) by (auto simp: local_ok_def)
  note fa = held_facts [OF inv]
  have cc: "cv_count s = (cv_count s)(i := 0)" using nc by (simp add: fun_eq_iff)
  have ap: "apart_ok s" by (rule mon_invD(4) [OF inv])
  have hu: "pst s (LEFT k) = EATING \<or> pst s (RIGHT k) = EATING \<or> k \<in> insert t (mtests x i)"
    if "k < NPHIL" "pst s k = HUNGRY" for k using fa(2) [OF that] x(12) by auto
  show ?thesis
  proof (cases "may_eat t s")
    case False
    have e: "s' = s\<lparr>todo := (todo s)(i := mrest x i @ mrounds i (n i))\<rparr>" using False by (simp add: s' phi_test_condvar_def)
    have "mon_inv (Held i) (L(i := x)) n s'"
    proof (rule held_move [OF inv x(1), where t = i and p = "pst s i"])
      show "state_ok (L k) (k \<in> mgrants x i) (pst s' k)" if "k < NPHIL" "k \<noteq> i" for k
        using fa(1) [OF that(1)] x(9,11) by (simp add: e)
      show "pst s' (LEFT k) = EATING \<or> pst s' (RIGHT k) = EATING \<or> k \<in> mtests x i"
        if "k < NPHIL" "pst s' k = HUNGRY" for k
        using hu [of k] that False by (auto simp: e may_eat_def)
    qed (use x fx ap nc cc in \<open>simp_all add: e apart_ok_def\<close>)
    then show ?thesis by blast
  next
    case True
    then have m: "pst s t = HUNGRY" "pst s (LEFT t) \<noteq> EATING" "pst s (RIGHT t) \<noteq> EATING" by (simp_all add: may_eat_def)
    have e: "s' = s\<lparr>pst := (pst s)(t := EATING), todo := (todo s)(i := mrest y i @ mrounds i (n i))\<rparr>"
      using True ry by (simp add: s' phi_test_condvar_def)
    have "mon_inv (Held i) (L(i := y)) n s'"
    proof (rule held_move [OF inv x(2), where t = t and p = EATING])
      show "state_ok (L k) (k \<in> mgrants y i) (pst s' k)" if k: "k < NPHIL" "k \<noteq> i" for k
      proof (cases "k = t")
        case True
        have "outer (L t)" using fa(3) [OF k(1)] k(2) True by simp
        then have "L t \<in> {W3, W4w}"
          using fa(1) [OF t] m(1) x(11) by (cases "L t") (auto simp: state_ok_def)
        then show ?thesis using True k(2) x(10) by (auto simp: e state_ok_def)
      qed (use fa(1) [OF k(1)] x(10,11) in \<open>auto simp: e\<close>)
      show "state_ok y (i \<in> mgrants y i) (pst s' i)"
      proof (cases "t = i")
        case True
        then show ?thesis using fy(2) x(10) by (simp add: e)
      qed (use fx fy(1) x(10) in \<open>simp add: e\<close>)
      have "pst s' (RIGHT k) \<noteq> EATING" if k: "k < NPHIL" "pst s' k = EATING" for k
      proof (cases "RIGHT k = t")
        case False
        then show ?thesis using ap m(3) k by (cases "k = t") (auto simp: e apart_ok_def)
      next
        case True
        then have "k = LEFT t" using k(1) by auto
        then show ?thesis using m(2) k(2) t by (simp add: e)
      qed
      then show "apart_ok s'" by (simp add: apart_ok_def)
      show "pst s' (LEFT k) = EATING \<or> pst s' (RIGHT k) = EATING \<or> k \<in> mtests y i"
        if "k < NPHIL" "pst s' k = HUNGRY" for k
        using hu [of k] that x(13) by (auto simp: e split: if_splits)
    qed (use x nc cc in \<open>simp_all add: e\<close>)
    then show ?thesis by blast
  qed
qed

text \<open>The thread says whether it is hungry or thinking.\<close>

lemma held_state:
  assumes inv: "mon_inv (Held i) L n s" and x: "(L i, x, p) \<in> {(M2, M3, HUNGRY), (Q8, QT True, THINKING)}"
    and s': "s' = s\<lparr>pst := (pst s)(i := p), todo := (todo s)(i := mrest x i @ mrounds i (n i))\<rparr>"
  shows "\<exists>m L' n'. mon_inv m L' n' s'"
proof -
  have c: "L i = M2 \<and> x = M3 \<and> p = HUNGRY \<or> L i = Q8 \<and> x = QT True \<and> p = THINKING" using x by auto
  have i: "i < NPHIL" and nc: "next_count s = 0" "cv_count s i = 0"
    using mon_invD(2) [OF inv] mon_invD(1) [OF inv, of i] c by (auto simp: local_ok_def)
  note fa = held_facts [OF inv]
  have cc: "cv_count s = (cv_count s)(i := 0)" using nc by (simp add: fun_eq_iff)
  have pi: "L i = M2 \<Longrightarrow> pst s i = THINKING" using fa(1) [OF i] by (simp add: state_ok_def)
  have "mon_inv (Held i) (L(i := x)) n s'"
  proof (rule held_move [OF inv, where t = i and p = p])
    show "state_ok (L k) (k \<in> mgrants x i) (pst s' k)" if "k < NPHIL" "k \<noteq> i" for k
      using fa(1) [OF that(1)] that c by (auto simp: s')
    show "state_ok x (i \<in> mgrants x i) (pst s' i)" using c by (auto simp: s' state_ok_def)
    show "apart_ok s'" using mon_invD(4) [OF inv] c by (auto simp: s' apart_ok_def)
    show "pst s' (LEFT k) = EATING \<or> pst s' (RIGHT k) = EATING \<or> k \<in> mtests x i"
      if k: "k < NPHIL" "pst s' k = HUNGRY" for k
    proof (cases "k = i")
      case False
      then have h: "pst s (LEFT k) = EATING \<or> pst s (RIGHT k) = EATING" using fa(2) [OF k(1)] k(2) c by (auto simp: s')
      show ?thesis
      proof (cases "LEFT k = i \<or> RIGHT k = i")
        case True
        then have "k = RIGHT i \<or> k = LEFT i" using k(1) by auto
        then show ?thesis using h pi c by (auto simp: s')
      qed (use h in \<open>auto simp: s'\<close>)
    qed (use c k in \<open>auto simp: s'\<close>)
  qed (use c nc cc in \<open>auto simp: s'\<close>)
  then show ?thesis by blast
qed

lemma mon_step:
  assumes inv: "mon_inv m L n s" and step: "table_step s s'"
  shows "\<exists>m L' n'. mon_inv m L' n' s'"
  using step
proof cases
  case (1 i)
  then have i: "i < NPHIL" and td: "todo s i \<noteq> []" and aw: "\<not> asleep s i" and s': "s' = run_thread i s"
    by (simp_all add: can_run_def)
  note lo = mon_invD(1) [OF inv i, unfolded local_ok_def]
  have todo: "todo s i = mrest (L i) i @ mrounds i (n i)" and awl: "\<not> asleep_at (L i)" using lo aw by simp_all
  have held: "m = Held i" if "holding (L i)"
    using mon_invD(2) [OF inv] lo that by (cases m) (auto simp: signalling_def holding_not_outer)
  have inv': "mon_inv (Held i) L n s" if "holding (L i)" using inv held [OF that] by simp
  have nc: "next_count s = (if nexted (L i) then 1 else 0)" if "holding (L i)"
    using mon_invD(2) [OF inv' [OF that]] by simp
  have cc: "cv_count s i = (if counted (L i) then 1 else 0)" using lo by simp
  have st: "state_ok (L i) (i \<in> gets m L) (pst s i)" using lo by simp
  have quiet: "\<exists>m L' n'. mon_inv m L' n' s'"
    if h: "holding (L i)" "holding x" "mgrants x i = mgrants (L i) i" "mtests x i = mtests (L i) i"
      and e: "s' = s\<lparr>cv_count := (cv_count s)(i := if counted x then 1 else 0),
        next_count := (if nexted x then 1 else 0), todo := (todo s)(i := mrest x i @ mrounds i (n i))\<rparr>"
      and f: "state_ok x (i \<in> mgrants x i) (pst s i)" for x
    by (rule held_quiet [OF inv' [OF h(1)] h(2-4) _ _ _ _ _ _ _ f]) (simp_all add: e)
  have cvi: "cv_count s = (cv_count s)(i := c)" if "cv_count s i = c" for c using that by (simp add: fun_eq_iff)
  show ?thesis
  proof (cases "L i")
    case M0
    then obtain k where k: "n i = Suc k" using td todo by (cases "n i") auto
    have nn: "i \<notin> named m" using outer_named [OF mon_invD(2) [OF inv], of i] M0 by auto
    show ?thesis
      by (rule outer_move [OF inv i _ nn, of M1 s' k])
        (use M0 todo k s' aw in \<open>auto simp: run_thread_Cons state_ok_def fun_eq_iff\<close>)
  next
    case ME6
    have nn: "i \<notin> named m" using outer_named [OF mon_invD(2) [OF inv], of i] ME6 by auto
    show ?thesis
      by (rule outer_move [OF inv i _ nn, of ME7 s' "n i"])
        (use ME6 todo s' aw in \<open>auto simp: run_thread_Cons state_ok_def fun_eq_iff\<close>)
  next
    case M1
    show ?thesis
      using enter_monitor [OF inv i, of M2 M2w s'] M1 todo s' by (simp add: run_thread_Cons phi_take_forks_condvar_def)
  next
    case ME7
    show ?thesis
      using enter_monitor [OF inv i, of Q8 Q8w s'] ME7 todo s' by (simp add: run_thread_Cons phi_put_forks_condvar_def)
  next
    case M2
    show ?thesis using held_state [OF inv', of M3 HUNGRY s'] M2 todo s' by (simp add: run_thread_Cons)
  next
    case Q8
    show ?thesis using held_state [OF inv', of "QT True" THINKING s'] Q8 todo s'
      by (simp add: run_thread_Cons side_def after_def)
  next
    case M3
    show ?thesis
      using held_test [OF inv' i, of M4 M3s s'] M3 todo s' st by (simp add: run_thread_Cons state_ok_def)
  next
    case (QT b)
    have "state_ok (QS b) False = state_ok (next_at b) False" by (cases b) (simp_all add: state_ok_def fun_eq_iff)
    moreover have "state_ok (next_at b) False (pst s i)" using st QT by (cases b) (simp_all add: state_ok_def)
    ultimately show ?thesis
      using held_test [OF inv' side_simps'(1) [OF i, of b], of "next_at b" "QS b" s'] QT todo s' i
      by (cases b) (simp_all add: run_thread_Cons after_def side_def)
  next
    case M3s
    show ?thesis
      by (rule quiet [of M4]) (use M3s todo s' cc nc cvi st in \<open>simp_all add: run_thread_Cons cond_signal_def state_ok_def\<close>)
  next
    case M4
    then have st4: "pst s i \<noteq> THINKING" using st held by (simp add: state_ok_def)
    show ?thesis
    proof (cases "pst s i = EATING")
      case True
      show ?thesis
        by (rule quiet [of M5]) (use M4 True todo s' cc nc cvi in \<open>simp_all add: run_thread_Cons state_ok_def\<close>)
    next
      case False
      then have "pst s i = HUNGRY" using st4 by (cases "pst s i") auto
      then show ?thesis
        by (intro quiet [of W0]) (use M4 todo s' cc nc cvi in \<open>simp_all add: run_thread_Cons state_ok_def\<close>)
    qed
  next
    case W0
    show ?thesis
      by (rule quiet [of W1]) (use W0 todo s' cc nc cvi st held in \<open>simp_all add: run_thread_Cons state_ok_def cond_wait_def\<close>)
  next
    case W1
    show ?thesis
      by (rule quiet [of W2]) (use W1 todo s' cc nc st held in \<open>simp_all add: run_thread_Cons state_ok_def\<close>)
  next
    case W2
    show ?thesis
      by (rule quiet [of W2m]) (use W2 todo s' cc nc cvi st held in \<open>simp_all add: run_thread_Cons state_ok_def leave_monitor_def\<close>)
  next
    case M5
    show ?thesis
      by (rule quiet [of M5m]) (use M5 todo s' cc nc cvi st held in \<open>simp_all add: run_thread_Cons state_ok_def leave_monitor_def\<close>)
  next
    case Q11
    show ?thesis
      by (rule quiet [of Q11m]) (use Q11 todo s' cc nc cvi st held in \<open>simp_all add: run_thread_Cons state_ok_def leave_monitor_def\<close>)
  next
    case W2m
    show ?thesis using leave_to [OF inv', of W3 s'] W2m todo s' by (simp add: run_thread_Cons)
  next
    case M5m
    show ?thesis using leave_to [OF inv', of ME6 s'] M5m todo s' by (simp add: run_thread_Cons)
  next
    case Q11m
    show ?thesis using leave_to [OF inv', of M0 s'] Q11m todo s' by (simp add: run_thread_Cons)
  next
    case (QS b)
    have "cv_count s (side b i) = 1"
      using granted_waits(3) [OF inv', of "side b i"] QS i by simp
    then show ?thesis
      by (intro quiet [of "S1 b"])
        (use QS todo s' cc nc cvi st held i in \<open>simp_all add: run_thread_Cons state_ok_def cond_signal_def\<close>)
  next
    case (S1 b)
    show ?thesis
      by (rule quiet [of "S2 b"]) (use S1 todo s' cc nc cvi st held i in \<open>simp_all add: run_thread_Cons state_ok_def\<close>)
  next
    case (S2 b)
    show ?thesis using signal_step [OF inv' S2, of s'] S2 todo s' by (simp add: run_thread_Cons)
  next
    case (S3 b)
    show ?thesis using signaller_step [OF inv S3 i, of s'] S3 todo s' by (simp add: run_thread_Cons)
  next
    case (S4 b)
    show ?thesis
      by (rule quiet [of "next_at b"])
        (use S4 todo s' cc nc cvi st held i in \<open>cases b; simp add: run_thread_Cons state_ok_def after_def side_def\<close>)+
  next
    case W3
    show ?thesis
    proof (cases "i \<in> named m")
      case True
      then obtain b where "m = Given b i" using outer_named [OF mon_invD(2) [OF inv], of i] W3 by auto
      then show ?thesis using waiter_step [of b i L n s s'] inv W3 todo s' by (simp add: run_thread_Cons)
    next
      case False
      have "val s (CV i) = 0" "que s (CV i) = []" using lo W3 False by (cases m; simp)+
      then show ?thesis
        by (intro outer_move [OF inv i _ False, of W4w s' "n i"])
          (use W3 todo s' in \<open>simp_all add: run_thread_Cons sem_down_def state_ok_def fun_eq_iff\<close>)
    qed
  next
    case W4
    then obtain b where m: "m = Woken b i" using mon_invD(2) [OF inv] lo by (cases m) (auto simp: signalling_def)
    show ?thesis
      using woken_move [of b i L n s W5 s'] inv m W4 todo s' cc by (simp add: run_thread_Cons)
  next
    case W5
    then obtain b where m: "m = Woken b i" using mon_invD(2) [OF inv] lo by (cases m) (auto simp: signalling_def)
    have "next_count s = 1" using mon_invD(2) [OF inv] m by simp
    then show ?thesis
      using woken_move [of b i L n s W5n s'] inv m W5 todo s' cc cvi by (simp add: run_thread_Cons leave_monitor_def)
  next
    case W5n
    then obtain b where m: "m = Woken b i" using mon_invD(2) [OF inv] lo by (cases m) (auto simp: signalling_def)
    show ?thesis using give_back [of b i L n s s'] inv m W5n todo s' by (simp add: run_thread_Cons)
  qed (use awl in simp_all)
qed

lemma mon_reachable:
  "table_step\<^sup>*\<^sup>* (table_init philosopher_using_condvar) s \<Longrightarrow> \<exists>m L n. mon_inv m L n s"
proof (induction rule: rtranclp_induct)
  case base
  show ?case using mon_inv_init by blast
next
  case (step s s')
  then show ?case using mon_step by blast
qed
section \<open>What the philosophers do\<close>

lemma mon_progress:
  assumes inv: "mon_inv m L n s" and stuck: "\<And>i. \<not> can_run i s" and i: "i < NPHIL"
  shows "todo s i = []"
proof -
  have lo: "local_ok m L n s k" if "k < NPHIL" for k using mon_invD(1) [OF inv that] .
  have "end": "L k = M0 \<or> asleep_at (L k)" if "k < NPHIL" for k
    using lo [OF that] stuck [of k] that
    by (cases "L k") (auto simp: local_ok_def can_run_def phi_take_forks_condvar_def phi_put_forks_condvar_def)
  have m: "m = Free"
  proof (cases m)
    case (Held a)
    then have "a < NPHIL" "holding (L a)" using mon_invD(2) [OF inv] by simp_all
    then show ?thesis using "end" [of a] by (cases "L a") auto
  next
    case (Given b j)
    then show ?thesis using mon_invD(2) [OF inv] "end" [of j] by auto
  next
    case (Woken b j)
    then show ?thesis using mon_invD(2) [OF inv] "end" [of j] by auto
  next
    case (Back b)
    then show ?thesis using mon_invD(2) [OF inv] "end" [of b] by (auto simp: signalling_def)
  qed simp
  have free: "{k. k < NPHIL \<and> L k \<in> {M2w, Q8w}} = {}" using mon_invD(2,3) [OF inv] m by (simp add: queue_ok_def)
  have end2: "L k = M0 \<or> L k = W4w" if "k < NPHIL" for k
    using "end" [OF that] lo [OF that] free that m by (cases "L k") (auto simp: local_ok_def)
  have no_meal: "pst s k \<noteq> EATING" if "k < NPHIL" for k
    using lo [OF that] end2 [OF that] m by (auto simp: local_ok_def state_ok_def)
  have "L i = M0"
  proof (rule ccontr)
    assume "L i \<noteq> M0"
    then have "pst s i = HUNGRY" using end2 [OF i] lo [OF i] m by (auto simp: local_ok_def state_ok_def)
    then show False using mon_invD(5) [OF inv] i no_meal m by (auto simp: waiting_ok_def)
  qed
  with stuck [of i] lo [OF i] i show ?thesis by (auto simp: local_ok_def can_run_def)
qed

lemma mrounds_put: "mrounds i n \<noteq> DoSleep # phi_put_forks_condvar i @ r" "mrounds i n \<noteq> phi_put_forks_condvar i @ r"
  by (cases n; simp add: phi_put_forks_condvar_def phi_take_forks_condvar_def)+

lemma has_forks_mplace:
  assumes "local_ok m L n s i" and "has_forks phi_put_forks_condvar i s"
  shows "L i \<in> {ME6, ME7}"
  using assms mrounds_put [of i "n i"]
  by (cases "L i") (auto simp: local_ok_def has_forks_def phi_put_forks_condvar_def phi_take_forks_condvar_def
      after_def split: if_splits)

text \<open>
  C3. The philosophers with the monitor, under every interleaving of their actions: two neighbours never
  have their forks at the same time; the monitor is always handed on, so that as long as not all
  are done some thread can go on; and every run ends with all of them done.
\<close>

theorem dining_monitor:
  assumes "table_step\<^sup>*\<^sup>* (table_init philosopher_using_condvar) s"
  shows "(\<forall>i < NPHIL. has_forks phi_put_forks_condvar i s \<longrightarrow> \<not> has_forks phi_put_forks_condvar (RIGHT i) s) \<and>
    ((\<exists>s'. table_step s s') \<or> (\<forall>i < NPHIL. todo s i = [])) \<and> (\<forall>s'. table_step s s' \<longrightarrow> work s' < work s)"
proof -
  obtain m L n where inv: "mon_inv m L n s" using mon_reachable [OF assms] by blast
  have eat: "pst s k = EATING" if "k < NPHIL" "has_forks phi_put_forks_condvar k s" for k
    using mon_invD(1) [OF inv that(1)] has_forks_mplace [OF mon_invD(1) [OF inv that(1)] that(2)]
    by (auto simp: local_ok_def state_ok_def)
  have "\<not> has_forks phi_put_forks_condvar (RIGHT i) s" if "i < NPHIL" "has_forks phi_put_forks_condvar i s" for i
    using eat [OF that] eat [of "RIGHT i"] mon_invD(4) [OF inv] that(1) by (auto simp: apart_ok_def)
  moreover have "(\<exists>s'. table_step s s') \<or> (\<forall>i < NPHIL. todo s i = [])"
    using mon_progress [OF inv] table_step.intros by blast
  ultimately show ?thesis using work_decreases by blast
qed

theorem dining_monitor_witness: "\<exists>s. table_step (table_init philosopher_using_condvar) s"
proof -
  have "todo (table_init philosopher_using_condvar) 0 \<noteq> []" "0 < NPHIL"
    by (simp_all add: table_init_def philosopher_using_condvar_def TIMES_def NPHIL_def numeral_eq_Suc)
  with dining_monitor [OF rtranclp.rtrancl_refl] show ?thesis by blast
qed

end
