(* ===== verification/Pmm.thy ===== *)
theory Pmm
  imports Kernel_List
begin

text \<open>
  The physical page allocators: first fit (\<^verbatim>\<open>kern/mm/default_pmm.c\<close>) and best fit
  (\<^verbatim>\<open>kern/mm/best_fit_pmm.c\<close> of lab 2), on the page descriptors of \<^verbatim>\<open>memlayout.h\<close> and the
  pointer lists of \<^verbatim>\<open>libs/list.h\<close>. A page is its index in the array \<^verbatim>\<open>pages\<close>; the list
  entry of a page and the head \<^verbatim>\<open>free_list\<close> are the addresses of the list store. The loops
  follow the pointers, as in the source, so that a damaged list shows.
\<close>

section \<open>Page descriptors (kern/mm/memlayout.h, kern/mm/pmm.h)\<close>

record page =
  pg_ref :: int
  pg_flags :: u64
  pg_property :: u32

datatype pnode = FreeList | PLink nat

primrec le2page :: "pnode \<Rightarrow> nat" where
  "le2page FreeList = 0"
| "le2page (PLink p) = p"

record pmm =
  pages :: "nat \<Rightarrow> page"
  plinks :: "pnode links"
  nr_free :: u32

definition PG_reserved :: nat where "PG_reserved = 0"
definition PG_property :: nat where "PG_property = 1"

definition upd_page :: "nat \<Rightarrow> (page \<Rightarrow> page) \<Rightarrow> pmm \<Rightarrow> pmm" where
  "upd_page p f s = s\<lparr>pages := (pages s)(p := f (pages s p))\<rparr>"

definition upd_links :: "(pnode links \<Rightarrow> pnode links) \<Rightarrow> pmm \<Rightarrow> pmm" where
  "upd_links f s = s\<lparr>plinks := f (plinks s)\<rparr>"

definition PageReserved :: "nat \<Rightarrow> pmm \<Rightarrow> bool" where
  "PageReserved p s = bit (pg_flags (pages s p)) PG_reserved"

definition PageProperty :: "nat \<Rightarrow> pmm \<Rightarrow> bool" where
  "PageProperty p s = bit (pg_flags (pages s p)) PG_property"

definition SetPageProperty :: "nat \<Rightarrow> pmm \<Rightarrow> pmm" where
  "SetPageProperty p = upd_page p (\<lambda>g. g\<lparr>pg_flags := set_bit PG_property (pg_flags g)\<rparr>)"

definition ClearPageProperty :: "nat \<Rightarrow> pmm \<Rightarrow> pmm" where
  "ClearPageProperty p = upd_page p (\<lambda>g. g\<lparr>pg_flags := unset_bit PG_property (pg_flags g)\<rparr>)"

definition set_page_ref :: "nat \<Rightarrow> int \<Rightarrow> pmm \<Rightarrow> pmm" where
  "set_page_ref p v = upd_page p (\<lambda>g. g\<lparr>pg_ref := v\<rparr>)"

definition set_property :: "nat \<Rightarrow> u32 \<Rightarrow> pmm \<Rightarrow> pmm" where
  "set_property p v = upd_page p (\<lambda>g. g\<lparr>pg_property := v\<rparr>)"

definition page_len :: "pmm \<Rightarrow> nat \<Rightarrow> nat" where
  "page_len s p = unat (pg_property (pages s p))"

section \<open>First fit\<close>

definition default_init :: "pmm \<Rightarrow> pmm" where
  "default_init s = (upd_links (list_init FreeList) s)\<lparr>nr_free := 0\<rparr>"

text \<open>The loops over the \<open>n\<close> pages from \<open>p\<close> on.\<close>

fun memmap_pages :: "nat \<Rightarrow> nat \<Rightarrow> pmm \<Rightarrow> pmm option" where
  "memmap_pages p 0 s = Some s"
| "memmap_pages p (Suc n) s = do {
     kassert (PageReserved p s);
     memmap_pages (Suc p) n
       (set_page_ref p 0 (upd_page p (\<lambda>g. g\<lparr>pg_flags := 0, pg_property := 0\<rparr>) s)) }"

fun reset_pages :: "nat \<Rightarrow> nat \<Rightarrow> pmm \<Rightarrow> pmm option" where
  "reset_pages p 0 s = Some s"
| "reset_pages p (Suc n) s = do {
     kassert (\<not> PageReserved p s \<and> \<not> PageProperty p s);
     reset_pages (Suc p) n (set_page_ref p 0 (upd_page p (\<lambda>g. g\<lparr>pg_flags := 0\<rparr>) s)) }"

text \<open>
  The loop that links the block \<open>base\<close> into a non-empty list. Its second branch has no
  \<^verbatim>\<open>break\<close>: the loop goes on from the entry it stood on.
\<close>

partial_function (option) insert_block :: "nat \<Rightarrow> pnode \<Rightarrow> pmm \<Rightarrow> pmm option" where
  "insert_block base le s =
     (let le = list_next le (plinks s) in
      if le = FreeList then Some s
      else if base < le2page le then Some (upd_links (list_add_before le (PLink base)) s)
      else if list_next le (plinks s) = FreeList
        then insert_block base le (upd_links (list_add le (PLink base)) s)
      else insert_block base le s)"

declare insert_block.simps [code]

definition link_block :: "nat \<Rightarrow> pmm \<Rightarrow> pmm option" where
  "link_block base s =
     (if list_empty FreeList (plinks s) then Some (upd_links (list_add FreeList (PLink base)) s)
      else insert_block base FreeList s)"

definition default_init_memmap :: "nat \<Rightarrow> nat \<Rightarrow> pmm \<Rightarrow> pmm option" where
  "default_init_memmap base n s = do {
     kassert (n > 0);
     s \<leftarrow> memmap_pages base n s;
     let s = SetPageProperty base (set_property base (of_nat n) s);
     let s = s\<lparr>nr_free := nr_free s + of_nat n\<rparr>;
     link_block base s }"

partial_function (option) first_fit :: "nat \<Rightarrow> pnode \<Rightarrow> pmm \<Rightarrow> nat option option" where
  "first_fit n le s =
     (let le = list_next le (plinks s) in
      if le = FreeList then Some None
      else if page_len s (le2page le) \<ge> n then Some (Some (le2page le))
      else first_fit n le s)"

declare first_fit.simps [code]

text \<open>What \<^verbatim>\<open>default_alloc_pages\<close> does with the block it has found.\<close>

definition take_block :: "nat \<Rightarrow> nat \<Rightarrow> pmm \<Rightarrow> pmm" where
  "take_block page n s =
     (let prev = list_prev (PLink page) (plinks s);
          s = upd_links (list_del (PLink page)) s;
          s = (if page_len s page > n
               then let p = page + n;
                        s = set_property p (pg_property (pages s page) - of_nat n) s;
                        s = SetPageProperty p s
                    in upd_links (list_add prev (PLink p)) s
               else s);
          s = s\<lparr>nr_free := nr_free s - of_nat n\<rparr>
      in ClearPageProperty page s)"

definition default_alloc_pages :: "nat \<Rightarrow> pmm \<Rightarrow> (nat option \<times> pmm) option" where
  "default_alloc_pages n s = do {
     kassert (n > 0);
     if n > unat (nr_free s) then Some (None, s)
     else do {
       page \<leftarrow> first_fit n FreeList s;
       case page of None \<Rightarrow> Some (None, s) | Some p \<Rightarrow> Some (Some p, take_block p n s) } }"

text \<open>Merging the block \<open>q\<close> into the block \<open>p\<close>, on either side of the freed block.\<close>

definition join_blocks :: "nat \<Rightarrow> nat \<Rightarrow> pmm \<Rightarrow> pmm" where
  "join_blocks p q s =
     (let s = set_property p (pg_property (pages s p) + pg_property (pages s q)) s;
          s = ClearPageProperty q s
      in upd_links (list_del (PLink q)) s)"

definition merge_prev :: "nat \<Rightarrow> pmm \<Rightarrow> nat \<times> pmm" where
  "merge_prev base s =
     (let le = list_prev (PLink base) (plinks s) in
      if le \<noteq> FreeList \<and> le2page le + page_len s (le2page le) = base
      then (le2page le, join_blocks (le2page le) base s)
      else (base, s))"

definition merge_next :: "nat \<Rightarrow> pmm \<Rightarrow> pmm" where
  "merge_next base s =
     (let le = list_next (PLink base) (plinks s) in
      if le \<noteq> FreeList \<and> base + page_len s base = le2page le
      then join_blocks base (le2page le) s
      else s)"

definition default_free_pages :: "nat \<Rightarrow> nat \<Rightarrow> pmm \<Rightarrow> pmm option" where
  "default_free_pages base n s = do {
     kassert (n > 0);
     s \<leftarrow> reset_pages base n s;
     let s = SetPageProperty base (set_property base (of_nat n) s);
     let s = s\<lparr>nr_free := nr_free s + of_nat n\<rparr>;
     s \<leftarrow> link_block base s;
     let (base, s) = merge_prev base s;
     Some (merge_next base s) }"

definition default_nr_free_pages :: "pmm \<Rightarrow> nat" where
  "default_nr_free_pages s = unat (nr_free s)"

section \<open>Best fit (lab 2)\<close>

definition best_fit_init :: "pmm \<Rightarrow> pmm" where
  "best_fit_init s = (upd_links (list_init FreeList) s)\<lparr>nr_free := 0\<rparr>"

text \<open>
  \<^verbatim>\<open>best_fit_init_memmap\<close> links \<^verbatim>\<open>p\<close>, which the loop before has left at \<^verbatim>\<open>base + n\<close>,
  where it means \<^verbatim>\<open>base\<close>.
\<close>

partial_function (option) best_fit_insert :: "nat \<Rightarrow> nat \<Rightarrow> pnode \<Rightarrow> pmm \<Rightarrow> pmm option" where
  "best_fit_insert base p le s =
     (let le = list_next le (plinks s) in
      if le = FreeList then Some s
      else if base < le2page le then Some (upd_links (list_add_before le (PLink base)) s)
      else if list_next le (plinks s) = FreeList
        then best_fit_insert base p le (upd_links (list_add le (PLink p)) s)
      else best_fit_insert base p le s)"

declare best_fit_insert.simps [code]

definition best_fit_init_memmap :: "nat \<Rightarrow> nat \<Rightarrow> pmm \<Rightarrow> pmm option" where
  "best_fit_init_memmap base n s = do {
     kassert (n > 0);
     s \<leftarrow> memmap_pages base n s;
     let s = SetPageProperty base (set_property base (of_nat n) s);
     let s = s\<lparr>nr_free := nr_free s + of_nat n\<rparr>;
     if list_empty FreeList (plinks s) then Some (upd_links (list_add FreeList (PLink base)) s)
     else best_fit_insert base (base + n) FreeList s }"

partial_function (option) best_fit ::
  "nat \<Rightarrow> nat \<Rightarrow> nat option \<Rightarrow> pnode \<Rightarrow> pmm \<Rightarrow> nat option option"
where
  "best_fit n min_size page le s =
     (let le = list_next le (plinks s) in
      if le = FreeList then Some page
      else if page_len s (le2page le) \<ge> n \<and> page_len s (le2page le) < min_size
        then best_fit n (page_len s (le2page le)) (Some (le2page le)) le s
      else best_fit n min_size page le s)"

declare best_fit.simps [code]

text \<open>
  \<^verbatim>\<open>min_size\<close> is a \<^verbatim>\<open>size_t\<close> set to \<^verbatim>\<open>nr_free + 1\<close>, a sum of the type of \<^verbatim>\<open>nr_free\<close>.
\<close>

definition best_fit_alloc_pages :: "nat \<Rightarrow> pmm \<Rightarrow> (nat option \<times> pmm) option" where
  "best_fit_alloc_pages n s = do {
     kassert (n > 0);
     if n > unat (nr_free s) then Some (None, s)
     else do {
       page \<leftarrow> best_fit n (unat (nr_free s + 1)) None FreeList s;
       case page of None \<Rightarrow> Some (None, s) | Some p \<Rightarrow> Some (Some p, take_block p n s) } }"

definition best_fit_free_pages :: "nat \<Rightarrow> nat \<Rightarrow> pmm \<Rightarrow> pmm option" where
  "best_fit_free_pages base n s = do {
     kassert (n > 0);
     s \<leftarrow> reset_pages base n s;
     let s = SetPageProperty base (set_property base (of_nat n) s);
     let s = s\<lparr>nr_free := nr_free s + of_nat n\<rparr>;
     s \<leftarrow> link_block base s;
     let (base, s) = merge_prev base s;
     Some (merge_next base s) }"

definition best_fit_nr_free_pages :: "pmm \<Rightarrow> nat" where
  "best_fit_nr_free_pages s = unat (nr_free s)"

section \<open>The allocator behind its interface (kern/mm/pmm.h, kern/mm/pmm.c)\<close>

record pmm_manager =
  m_init :: "pmm \<Rightarrow> pmm"
  m_init_memmap :: "nat \<Rightarrow> nat \<Rightarrow> pmm \<Rightarrow> pmm option"
  m_alloc_pages :: "nat \<Rightarrow> pmm \<Rightarrow> (nat option \<times> pmm) option"
  m_free_pages :: "nat \<Rightarrow> nat \<Rightarrow> pmm \<Rightarrow> pmm option"
  m_nr_free_pages :: "pmm \<Rightarrow> nat"

definition default_pmm_manager :: pmm_manager where
  "default_pmm_manager = \<lparr>m_init = default_init, m_init_memmap = default_init_memmap,
     m_alloc_pages = default_alloc_pages, m_free_pages = default_free_pages,
     m_nr_free_pages = default_nr_free_pages\<rparr>"

definition best_fit_pmm_manager :: pmm_manager where
  "best_fit_pmm_manager = \<lparr>m_init = best_fit_init, m_init_memmap = best_fit_init_memmap,
     m_alloc_pages = best_fit_alloc_pages, m_free_pages = best_fit_free_pages,
     m_nr_free_pages = best_fit_nr_free_pages\<rparr>"

text \<open>\<^verbatim>\<open>swap_out(check_mm_struct, n, 0)\<close> is the argument \<open>swap_out\<close>.\<close>

partial_function (option) alloc_pages ::
  "pmm_manager \<Rightarrow> bool \<Rightarrow> (pmm \<Rightarrow> pmm option) \<Rightarrow> nat \<Rightarrow> pmm \<Rightarrow> (nat option \<times> pmm) option"
where
  "alloc_pages m swap_init_ok swap_out n s = do {
     (page, s) \<leftarrow> m_alloc_pages m n s;
     if page \<noteq> None \<or> n > 1 \<or> \<not> swap_init_ok then Some (page, s)
     else do { s \<leftarrow> swap_out s; alloc_pages m swap_init_ok swap_out n s } }"

declare alloc_pages.simps [code]

definition free_pages :: "pmm_manager \<Rightarrow> nat \<Rightarrow> nat \<Rightarrow> pmm \<Rightarrow> pmm option" where
  "free_pages m base n s = m_free_pages m base n s"

definition nr_free_pages :: "pmm_manager \<Rightarrow> pmm \<Rightarrow> nat" where
  "nr_free_pages m s = m_nr_free_pages m s"

section \<open>The invariant\<close>

text \<open>
  \<open>pmm_inv np s xs\<close>: the free list is the sequence of blocks \<open>xs\<close> among the \<open>np\<close> pages, in
  address order and disjoint; exactly their heads have the property bit; the pages in them are not
  reserved; \<^verbatim>\<open>nr_free\<close> is their total.
\<close>

definition block :: "pmm \<Rightarrow> nat \<Rightarrow> nat set" where
  "block s p = {p ..< p + page_len s p}"

definition free_set :: "pmm \<Rightarrow> nat list \<Rightarrow> nat set" where
  "free_set s xs = (\<Union>p \<in> set xs. block s p)"

definition pmm_inv :: "nat \<Rightarrow> pmm \<Rightarrow> nat list \<Rightarrow> bool" where
  "pmm_inv np s xs \<longleftrightarrow> np + 1 < 2 ^ 32 \<and> klist (plinks s) FreeList (map PLink xs) \<and>
     sorted_wrt (\<lambda>p q. p + page_len s p \<le> q) xs \<and>
     (\<forall>p \<in> set xs. 0 < page_len s p \<and> p + page_len s p \<le> np) \<and>
     (\<forall>p < np. PageProperty p s \<longleftrightarrow> p \<in> set xs) \<and>
     (\<forall>p \<in> free_set s xs. \<not> PageReserved p s) \<and>
     unat (nr_free s) = (\<Sum>p \<leftarrow> xs. page_len s p)"

lemma upd_page_simps [simp]:
  "pages (upd_page p f s) q = (if q = p then f (pages s p) else pages s q)"
  "plinks (upd_page p f s) = plinks s" "nr_free (upd_page p f s) = nr_free s"
  "pages (upd_links g s) = pages s" "plinks (upd_links g s) = g (plinks s)"
  "nr_free (upd_links g s) = nr_free s"
  by (simp_all add: upd_page_def upd_links_def)

lemmas page_op_defs = SetPageProperty_def ClearPageProperty_def set_page_ref_def set_property_def

lemma PG_bits [simp]: "PG_reserved = 0" "PG_property = Suc 0"
  by (simp_all add: PG_reserved_def PG_property_def)

lemma page_op_simps [simp]:
  "plinks (SetPageProperty p s) = plinks s" "plinks (ClearPageProperty p s) = plinks s"
  "plinks (set_property p v s) = plinks s" "plinks (set_page_ref p r s) = plinks s"
  "nr_free (SetPageProperty p s) = nr_free s" "nr_free (ClearPageProperty p s) = nr_free s"
  "nr_free (set_property p v s) = nr_free s" "nr_free (set_page_ref p r s) = nr_free s"
  "page_len (SetPageProperty p s) q = page_len s q" "page_len (ClearPageProperty p s) q = page_len s q"
  "page_len (set_property p v s) q = (if q = p then unat v else page_len s q)"
  "page_len (set_page_ref p r s) q = page_len s q" "page_len (upd_links g s) q = page_len s q"
  "page_len (s\<lparr>nr_free := m\<rparr>) q = page_len s q"
  "PageReserved q (SetPageProperty p s) = PageReserved q s"
  "PageReserved q (ClearPageProperty p s) = PageReserved q s"
  "PageReserved q (set_property p v s) = PageReserved q s" "PageReserved q (upd_links g s) = PageReserved q s"
  "PageReserved q (s\<lparr>nr_free := m\<rparr>) = PageReserved q s"
  "PageProperty q (SetPageProperty p s) \<longleftrightarrow> q = p \<or> PageProperty q s"
  "PageProperty q (ClearPageProperty p s) \<longleftrightarrow> q \<noteq> p \<and> PageProperty q s"
  "PageProperty q (set_property p v s) = PageProperty q s" "PageProperty q (upd_links g s) = PageProperty q s"
  "PageProperty q (s\<lparr>nr_free := m\<rparr>) = PageProperty q s"
  by (auto simp: page_op_defs page_len_def PageReserved_def PageProperty_def bit_set_bit_iff bit_unset_bit_iff)

lemma free_set_simps [simp]:
  "free_set s [] = {}" "free_set s (p # xs) = block s p \<union> free_set s xs"
  "free_set s (xs @ ys) = free_set s xs \<union> free_set s ys"
  by (auto simp: free_set_def)

lemma free_set_cong: "(\<And>p. p \<in> set xs \<Longrightarrow> page_len s' p = page_len s p) \<Longrightarrow> free_set s' xs = free_set s xs"
  by (simp add: free_set_def block_def)

lemma finite_free_set [simp]: "finite (free_set s xs)"
  by (simp add: free_set_def block_def)

lemma free_set_below: "(\<And>p. p \<in> set xs \<Longrightarrow> p + page_len s p \<le> np) \<Longrightarrow> free_set s xs \<subseteq> {..<np}"
  by (fastforce simp: free_set_def block_def)

lemma card_free_set:
  "sorted_wrt (\<lambda>p q. p + page_len s p \<le> q) xs \<Longrightarrow> card (free_set s xs) = (\<Sum>p \<leftarrow> xs. page_len s p)"
proof (induction xs)
  case (Cons p xs)
  then have "block s p \<inter> free_set s xs = {}" by (fastforce simp: free_set_def block_def)
  with Cons show ?case by (simp add: card_Un_disjoint block_def)
qed simp

lemma pmm_inv_total:
  assumes "pmm_inv np s xs"
  shows "card (free_set s xs) = unat (nr_free s)" and "unat (nr_free s) \<le> np"
proof -
  show eq: "card (free_set s xs) = unat (nr_free s)"
    using assms by (simp add: pmm_inv_def card_free_set)
  have "free_set s xs \<subseteq> {..<np}"
    by (rule free_set_below) (use assms in \<open>auto simp: pmm_inv_def\<close>)
  from card_mono [OF _ this] eq show "unat (nr_free s) \<le> np" by simp
qed

lemma block_le_total: "p \<in> set xs \<Longrightarrow> page_len s p \<le> (\<Sum>p \<leftarrow> xs. page_len s p)"
  by (simp add: member_le_sum_list)

section \<open>Searching the list\<close>

lemma next_at:
  assumes "klist l FreeList (map PLink (xs @ ys))"
  shows "list_next (last (FreeList # map PLink xs)) l = hd (map PLink ys @ [FreeList])"
  using klist_next_at [of l FreeList "map PLink xs" "map PLink ys"] assms
  by (simp add: list_next_def del: last.simps)

lemma last_snoc_PLink: "last (FreeList # map PLink (xs @ [y])) = PLink y"
  by simp

lemma first_fit_spec:
  "klist (plinks s) FreeList (map PLink (xs @ ys)) \<Longrightarrow>
   first_fit n (last (FreeList # map PLink xs)) s = Some (find (\<lambda>p. n \<le> page_len s p) ys)"
proof (induction ys arbitrary: xs)
  case Nil
  from next_at [OF Nil] show ?case by (subst first_fit.simps) (simp add: Let_def)
next
  case (Cons y ys)
  from Cons.IH [of "xs @ [y]"] Cons.prems have "first_fit n (PLink y) s = Some (find (\<lambda>p. n \<le> page_len s p) ys)"
    by (simp only: last_snoc_PLink append_assoc append_Cons append_Nil)
  with next_at [OF Cons.prems] show ?case by (subst first_fit.simps) (simp add: Let_def)
qed

fun least_fit :: "nat \<Rightarrow> (nat \<Rightarrow> nat) \<Rightarrow> nat \<Rightarrow> nat option \<Rightarrow> nat list \<Rightarrow> nat option" where
  "least_fit n len m pg [] = pg"
| "least_fit n len m pg (y # ys) =
     (if n \<le> len y \<and> len y < m then least_fit n len (len y) (Some y) ys else least_fit n len m pg ys)"

lemma best_fit_spec:
  "klist (plinks s) FreeList (map PLink (xs @ ys)) \<Longrightarrow>
   best_fit n m pg (last (FreeList # map PLink xs)) s = Some (least_fit n (page_len s) m pg ys)"
proof (induction ys arbitrary: xs m pg)
  case Nil
  from next_at [OF Nil] show ?case by (subst best_fit.simps) (simp add: Let_def)
next
  case (Cons y ys)
  from Cons.IH [of "xs @ [y]"] Cons.prems
  have "best_fit n m pg (PLink y) s = Some (least_fit n (page_len s) m pg ys)" for m pg
    by (simp only: last_snoc_PLink append_assoc append_Cons append_Nil)
  with next_at [OF Cons.prems] show ?case by (subst best_fit.simps) (simp add: Let_def)
qed

lemma least_fit_Some:
  assumes "least_fit n len m pg ys = Some p" and "pg = None \<or> (\<exists>q. pg = Some q \<and> len q = m \<and> n \<le> m)"
  shows "(pg = Some p \<or> p \<in> set ys) \<and> n \<le> len p \<and> len p \<le> m \<and> (\<forall>q \<in> set ys. n \<le> len q \<longrightarrow> len p \<le> len q)"
  using assms
proof (induction ys arbitrary: m pg)
  case (Cons y ys)
  show ?case
  proof (cases "n \<le> len y \<and> len y < m")
    case True
    with Cons.prems Cons.IH [of "len y" "Some y"] show ?thesis by auto
  next
    case False
    with Cons.prems Cons.IH [of m pg] show ?thesis by auto
  qed
qed auto

lemma least_fit_None:
  "least_fit n len m pg ys = None \<longleftrightarrow> pg = None \<and> (\<forall>q \<in> set ys. \<not> (n \<le> len q \<and> len q < m))"
  by (induction ys arbitrary: m pg) auto

section \<open>Allocation keeps the invariant\<close>

lemma pmm_invD:
  assumes "pmm_inv np s xs"
  shows "klist (plinks s) FreeList (map PLink xs)" "sorted_wrt (\<lambda>p q. p + page_len s p \<le> q) xs"
    "\<And>p. p \<in> set xs \<Longrightarrow> 0 < page_len s p" "\<And>p. p \<in> set xs \<Longrightarrow> p + page_len s p \<le> np"
    "\<And>p. p < np \<Longrightarrow> PageProperty p s \<longleftrightarrow> p \<in> set xs"
    "\<And>p. p \<in> free_set s xs \<Longrightarrow> \<not> PageReserved p s"
    "unat (nr_free s) = (\<Sum>p \<leftarrow> xs. page_len s p)" "np + 1 < 2 ^ 32"
  using assms by (auto simp: pmm_inv_def)

definition taken :: "pmm \<Rightarrow> nat \<Rightarrow> nat \<Rightarrow> bool" where
  "taken s p n \<longleftrightarrow> (\<forall>q \<in> {p ..< p + n}. \<not> PageReserved q s \<and> \<not> PageProperty q s)"

lemma unat_less_32: "unat (w :: u32) < 2 ^ 32"
  using unsigned_less [of w] by simp

lemma unat_sub_of_nat:
  "n \<le> unat (w :: u32) \<Longrightarrow> unat (w - of_nat n) = unat w - n"
proof -
  assume n: "n \<le> unat w"
  have "unat (of_nat n :: u32) = n"
    using n unat_less_32 [of w] by (simp add: unsigned_of_nat take_bit_nat_eq_self)
  with n show ?thesis by (simp add: unat_sub word_le_nat_alt)
qed

lemma take_block_links:
  assumes "klist (plinks s) FreeList (map PLink (us @ p # vs))" and "p + n \<notin> set (us @ vs)"
  shows "klist (plinks (take_block p n s)) FreeList
    (map PLink (us @ (if n < page_len s p then [p + n] else []) @ vs))"
proof -
  have prev: "list_prev (PLink p) (plinks s) = last (FreeList # map PLink us)"
    using klist_entry_prev [of "plinks s" FreeList "map PLink us" "PLink p" "map PLink vs"] assms(1)
    by (simp del: last.simps)
  have del: "klist (list_del (PLink p) (plinks s)) FreeList (map PLink us @ map PLink vs)"
    using list_del_klist [of "plinks s" FreeList "map PLink us"] assms(1) by simp
  from list_add_after_at [OF this, of "PLink (p + n)"] assms(2)
  have "klist (list_add (last (FreeList # map PLink us)) (PLink (p + n)) (list_del (PLink p) (plinks s)))
    FreeList (map PLink us @ PLink (p + n) # map PLink vs)"
    by (auto simp: list_add_def simp del: last.simps)
  with del prev show ?thesis by (simp add: take_block_def Let_def del: last.simps)
qed

lemma take_block_fields:
  assumes "n \<le> page_len s p" "0 < n"
  shows "page_len (take_block p n s) q = (if n < page_len s p \<and> q = p + n then page_len s p - n else page_len s q)"
    and "PageReserved q (take_block p n s) = PageReserved q s"
    and "PageProperty q (take_block p n s) \<longleftrightarrow>
      q \<noteq> p \<and> (PageProperty q s \<or> n < page_len s p \<and> q = p + n)"
    and "nr_free (take_block p n s) = nr_free s - of_nat n"
  using assms unat_sub_of_nat [of n "pg_property (pages s p)"]
  by (auto simp: take_block_def Let_def page_len_def [symmetric])

lemma take_block_inv:
  assumes inv: "pmm_inv np s (us @ p # vs)" and n: "0 < n" "n \<le> page_len s p"
  defines "xs' \<equiv> us @ (if n < page_len s p then [p + n] else []) @ vs" and "s' \<equiv> take_block p n s"
  shows "pmm_inv np s' xs'" and "free_set s (us @ p # vs) = free_set s' xs' \<union> {p ..< p + n}"
    and "free_set s' xs' \<inter> {p ..< p + n} = {}" and "taken s' p n"
proof -
  note i = pmm_invD [OF inv]
  have us: "q + page_len s q \<le> p" "0 < page_len s q" if "q \<in> set us" for q
    using i(2) i(3) [of q] that by (auto simp: sorted_wrt_append)
  have vs: "p + page_len s p \<le> q" if "q \<in> set vs" for q
    using i(2) that by (auto simp: sorted_wrt_append)
  have new: "p + n \<notin> set (us @ vs)" if "n < page_len s p"
    using us vs that by fastforce
  have len: "page_len s' q = (if n < page_len s p \<and> q = p + n then page_len s p - n else page_len s q)" for q
    unfolding s'_def by (rule take_block_fields(1) [OF n(2,1)])
  have same: "page_len s' q = page_len s q" if "q \<in> set us \<union> set vs" for q
    using len [of q] new that by auto
  have blk: "block s p = {p ..< p + n} \<union> (if n < page_len s p then block s' (p + n) else {})"
    using n by (auto simp: block_def len)
  have fs: "free_set s' us = free_set s us" "free_set s' vs = free_set s vs"
    by (auto intro!: free_set_cong same)
  have low: "q < p" if "q \<in> free_set s us" for q
    using that us by (fastforce simp: free_set_def block_def)
  have high: "p + page_len s p \<le> q" if "q \<in> free_set s vs" for q
    using that vs by (fastforce simp: free_set_def block_def)
  have xs': "free_set s' xs' = free_set s us \<union> (if n < page_len s p then block s' (p + n) else {}) \<union> free_set s vs"
    by (auto simp: xs'_def fs)
  then show all: "free_set s (us @ p # vs) = free_set s' xs' \<union> {p ..< p + n}"
    using blk by auto
  have "q \<notin> {p ..< p + n}" if "q \<in> free_set s' xs'" for q
    using that low [of q] high [of q] n unfolding xs' by (auto simp: block_def len split: if_splits)
  then show "free_set s' xs' \<inter> {p ..< p + n} = {}" by blast
  have np: "p + page_len s p \<le> np" using i(4) by simp
  have pp: "PageProperty q s' \<longleftrightarrow> q \<noteq> p \<and> (PageProperty q s \<or> n < page_len s p \<and> q = p + n)" for q
    unfolding s'_def by (rule take_block_fields(3) [OF n(2,1)])
  have head: "q \<notin> set (us @ vs)" if "p \<le> q" "q < p + page_len s p" for q
    using us [of q] vs [of q] that by auto
  have "\<not> PageReserved q s' \<and> \<not> PageProperty q s'" if "q \<in> {p ..< p + n}" for q
  proof -
    have "q \<in> free_set s (us @ p # vs)" using that n by (auto simp: block_def)
    then have "\<not> PageReserved q s" by (rule i(6))
    moreover have "\<not> PageProperty q s'"
      using pp [of q] i(5) [of q] head [of q] that n np by auto
    ultimately show ?thesis by (simp add: s'_def take_block_fields(2) [OF n(2,1)])
  qed
  then show "taken s' p n" by (simp add: taken_def)
  have "klist (plinks s') FreeList (map PLink xs')"
  proof (cases "n < page_len s p")
    case True
    then show ?thesis unfolding s'_def xs'_def by (intro take_block_links i(1) new)
  next
    case False
    have "klist (list_del (PLink p) (plinks s)) FreeList (map PLink us @ map PLink vs)"
      using list_del_klist [of "plinks s" FreeList "map PLink us"] i(1) by simp
    with False show ?thesis by (simp add: s'_def xs'_def take_block_def Let_def)
  qed
  moreover have "sorted_wrt (\<lambda>p q. p + page_len s' p \<le> q) xs'"
  proof -
    have eq: "sorted_wrt (\<lambda>p q. p + page_len s' p \<le> q) ys = sorted_wrt (\<lambda>p q. p + page_len s p \<le> q) ys"
      if "set ys \<subseteq> set us \<union> set vs" for ys
      using that same by (induction ys) auto
    have old: "sorted_wrt (\<lambda>p q. p + page_len s' p \<le> q) us" "sorted_wrt (\<lambda>p q. p + page_len s' p \<le> q) vs"
      using i(2) by (simp_all add: sorted_wrt_append eq)
    have cross: "q + page_len s' q \<le> p" "p + page_len s p \<le> r" "q + page_len s' q \<le> r"
      if "q \<in> set us" "r \<in> set vs" for q r
      using us(1) [of q] vs [of r] same [of q] that by auto
    have us': "q + page_len s' q \<le> p" if "q \<in> set us" for q
      using us(1) [of q] same [of q] that by simp
    show ?thesis
    proof (cases "n < page_len s p")
      case True
      with old cross(3) show ?thesis
        by (auto simp: xs'_def sorted_wrt_append len [of "p + n"] dest: us' vs)
    next
      case False
      with old cross(3) show ?thesis by (auto simp: xs'_def sorted_wrt_append)
    qed
  qed
  moreover have "\<forall>q \<in> set xs'. 0 < page_len s' q \<and> q + page_len s' q \<le> np"
    using i(3,4) np same by (auto simp: xs'_def len split: if_splits)
  moreover have "\<forall>q < np. PageProperty q s' \<longleftrightarrow> q \<in> set xs'"
    using i(5) pp head n np by (auto simp: xs'_def)
  moreover have "\<forall>q \<in> free_set s' xs'. \<not> PageReserved q s'"
    using i(6) all by (auto simp: s'_def take_block_fields(2) [OF n(2,1)])
  moreover have "unat (nr_free s') = (\<Sum>q \<leftarrow> xs'. page_len s' q)"
  proof -
    have "n \<le> unat (nr_free s)" using i(7) n by simp
    then have "unat (nr_free s') = unat (nr_free s) - n"
      by (simp add: s'_def take_block_fields(4) [OF n(2,1)] unat_sub_of_nat)
    moreover have "map (page_len s') us = map (page_len s) us" "map (page_len s') vs = map (page_len s) vs"
      using same by auto
    ultimately show ?thesis using i(7) n len [of "p + n"] by (auto simp: xs'_def simp del: map_eq_conv)
  qed
  ultimately show "pmm_inv np s' xs'" using i(8) by (simp add: pmm_inv_def)
qed

section \<open>Freeing keeps the invariant\<close>

lemma PLink_map_split: "map PLink (us @ p # vs) = map PLink us @ PLink p # map PLink vs"
  by simp

lemma join_blocks_inv:
  assumes inv: "pmm_inv np s (us @ p # q # vs)" and adj: "p + page_len s p = q"
  shows "pmm_inv np (join_blocks p q s) (us @ p # vs)"
    and "free_set (join_blocks p q s) (us @ p # vs) = free_set s (us @ p # q # vs)"
proof -
  let ?s = "join_blocks p q s"
  note i = pmm_invD [OF inv]
  have ord: "x \<noteq> p" "x \<noteq> q" if "x \<in> set us \<or> x \<in> set vs" for x
    using i(2) i(3) [of x] i(3) [of p] i(3) [of q] that by (fastforce simp: sorted_wrt_append)+
  have len: "page_len ?s x = (if x = p then page_len s p + page_len s q else page_len s x)" for x
  proof -
    have "page_len s p + page_len s q < 2 ^ 32" using i(4) [of q] i(8) adj by simp
    then have "unat (pg_property (pages s p) + pg_property (pages s q)) = page_len s p + page_len s q"
      by (simp add: page_len_def unat_word_ariths)
    then show ?thesis by (simp add: join_blocks_def Let_def)
  qed
  have same: "page_len ?s x = page_len s x" if "x \<in> set us \<union> set vs" for x
    using ord(1) [of x] that by (simp add: len)
  have eq: "sorted_wrt (\<lambda>p q. p + page_len ?s p \<le> q) ys = sorted_wrt (\<lambda>p q. p + page_len s p \<le> q) ys"
    if "set ys \<subseteq> set us \<union> set vs" for ys
    using that same by (induction ys) auto
  have "block ?s p = block s p \<union> block s q"
    using adj by (auto simp: block_def len)
  then show all: "free_set ?s (us @ p # vs) = free_set s (us @ p # q # vs)"
    using free_set_cong [of us ?s s] free_set_cong [of vs ?s s] same by auto
  have "klist (plinks s) FreeList (map PLink (us @ [p]) @ PLink q # map PLink vs)"
    using i(1) by simp
  from list_del_klist [OF this] have "klist (plinks ?s) FreeList (map PLink (us @ p # vs))"
    by (simp add: join_blocks_def Let_def)
  moreover have "sorted_wrt (\<lambda>p q. p + page_len ?s p \<le> q) (us @ p # vs)"
  proof -
    have a: "sorted_wrt (\<lambda>p q. p + page_len ?s p \<le> q) us" "sorted_wrt (\<lambda>p q. p + page_len ?s p \<le> q) vs"
      using i(2) by (simp_all add: sorted_wrt_append eq)
    have b: "x + page_len ?s x \<le> y" if "x \<in> set us" "y = p \<or> y \<in> set vs" for x y
      using i(2) same [of x] that by (auto simp: sorted_wrt_append)
    have c: "p + page_len ?s p \<le> y" if "y \<in> set vs" for y
      using i(2) adj that by (auto simp: sorted_wrt_append len)
    from a b c show ?thesis by (auto simp: sorted_wrt_append)
  qed
  moreover have "\<forall>x \<in> set (us @ p # vs). 0 < page_len ?s x \<and> x + page_len ?s x \<le> np"
  proof -
    have "p + (page_len s p + page_len s q) \<le> np" using i(4) [of q] adj by simp
    moreover have "0 < page_len s x \<and> x + page_len s x \<le> np" if "x \<in> set (us @ p # vs)" for x
      using i(3,4) [of x] that by auto
    ultimately show ?thesis by (simp add: len)
  qed
  moreover have "\<forall>x < np. PageProperty x ?s \<longleftrightarrow> x \<in> set (us @ p # vs)"
    using i(5) ord i(3) [of p] adj by (auto simp: join_blocks_def Let_def)
  moreover have "\<forall>x \<in> free_set ?s (us @ p # vs). \<not> PageReserved x ?s"
    unfolding all using i(6) by (auto simp: join_blocks_def Let_def)
  moreover have "unat (nr_free ?s) = (\<Sum>x \<leftarrow> us @ p # vs. page_len ?s x)"
  proof -
    have "map (page_len ?s) us = map (page_len s) us" "map (page_len ?s) vs = map (page_len s) vs"
      using same by auto
    moreover have "nr_free ?s = nr_free s" by (simp add: join_blocks_def Let_def)
    ultimately show ?thesis using i(7) len [of p] by (simp del: map_eq_conv)
  qed
  ultimately show "pmm_inv np ?s (us @ p # vs)" using i(8) by (simp add: pmm_inv_def)
qed

lemma merge_next_inv:
  assumes "pmm_inv np s (us @ p # vs)"
  shows "\<exists>ys. pmm_inv np (merge_next p s) ys \<and> free_set (merge_next p s) ys = free_set s (us @ p # vs)"
proof -
  note i = pmm_invD [OF assms]
  have nxt: "list_next (PLink p) (plinks s) = hd (map PLink vs @ [FreeList])"
    using i(1) unfolding PLink_map_split by (rule klist_entry_next)
  show ?thesis
  proof (cases vs)
    case Nil
    with nxt have "merge_next p s = s" by (simp add: merge_next_def)
    with assms show ?thesis by auto
  next
    case (Cons q ws)
    show ?thesis
    proof (cases "p + page_len s p = q")
      case True
      with nxt Cons have "merge_next p s = join_blocks p q s" by (simp add: merge_next_def)
      with join_blocks_inv [OF assms [unfolded Cons] True] Cons show ?thesis by metis
    next
      case False
      with nxt Cons have "merge_next p s = s" by (simp add: merge_next_def)
      with assms show ?thesis by auto
    qed
  qed
qed

lemma merge_prev_inv:
  assumes "pmm_inv np s (us @ p # vs)"
  shows "\<exists>q s' ws. merge_prev p s = (q, s') \<and> pmm_inv np s' (ws @ q # vs) \<and>
    free_set s' (ws @ q # vs) = free_set s (us @ p # vs)"
proof -
  note i = pmm_invD [OF assms]
  have prv: "list_prev (PLink p) (plinks s) = last (FreeList # map PLink us)"
    using i(1) unfolding PLink_map_split by (rule klist_entry_prev)
  show ?thesis
  proof (cases us rule: rev_cases)
    case Nil
    with prv have "merge_prev p s = (p, s)" by (simp add: merge_prev_def)
    with assms show ?thesis by auto
  next
    case (snoc ws q)
    show ?thesis
    proof (cases "q + page_len s q = p")
      case True
      with prv snoc have "merge_prev p s = (q, join_blocks q p s)" by (simp add: merge_prev_def)
      with join_blocks_inv [of np s ws q p vs] assms True snoc show ?thesis by fastforce
    next
      case False
      with prv snoc have "merge_prev p s = (p, s)" by (simp add: merge_prev_def)
      with assms show ?thesis by auto
    qed
  qed
qed

lemma reset_pages_spec:
  assumes "\<And>q. q \<in> {p ..< p + n} \<Longrightarrow> \<not> PageReserved q s \<and> \<not> PageProperty q s"
  shows "reset_pages p n s = Some (s\<lparr>pages := (\<lambda>q. if q \<in> {p ..< p + n}
    then (pages s q)\<lparr>pg_flags := 0, pg_ref := 0\<rparr> else pages s q)\<rparr>)"
  using assms
proof (induction n arbitrary: p s)
  case 0
  then show ?case by simp
next
  case (Suc n)
  let ?s = "set_page_ref p 0 (upd_page p (\<lambda>g. g\<lparr>pg_flags := 0\<rparr>) s)"
  have "\<not> PageReserved q ?s \<and> \<not> PageProperty q ?s" if "q \<in> {Suc p ..< Suc p + n}" for q
    using Suc.prems [of q] that by (auto simp: PageReserved_def PageProperty_def set_page_ref_def)
  from Suc.IH [of "Suc p" ?s, OF this] Suc.prems [of p] show ?case
    by (auto simp: set_page_ref_def upd_page_def fun_eq_iff)
qed

lemma insert_block_spec:
  assumes "klist (plinks s) FreeList (map PLink (us @ xs @ y # ys))"
    and "\<forall>x \<in> set xs. \<not> base < x" and "base < y"
  shows "insert_block base (last (FreeList # map PLink us)) s =
    Some (upd_links (list_add_before (PLink y) (PLink base)) s)"
  using assms
proof (induction xs arbitrary: us)
  case Nil
  with next_at [of "plinks s" us "y # ys"] show ?case
    by (subst insert_block.simps) (simp add: Let_def del: last.simps)
next
  case (Cons x xs)
  from Cons.IH [of "us @ [x]"] Cons.prems
  have "insert_block base (PLink x) s = Some (upd_links (list_add_before (PLink y) (PLink base)) s)"
    by (simp del: last.simps add: last_snoc_PLink [simplified])
  moreover have "list_next (PLink x) (plinks s) = hd (map PLink (xs @ y # ys) @ [FreeList])"
    using next_at [of "plinks s" "us @ [x]" "xs @ y # ys"] Cons.prems(1) by simp
  then have "list_next (PLink x) (plinks s) \<noteq> FreeList" by (cases xs) auto
  ultimately show ?case
    using next_at [of "plinks s" us "x # xs @ y # ys"] Cons.prems
    by (subst insert_block.simps) (simp add: Let_def del: last.simps)
qed

lemma link_block_spec:
  assumes "klist (plinks s) FreeList (map PLink (us @ vs))" and "\<forall>x \<in> set us. x < base"
    and "\<forall>x \<in> set vs. base < x" and "us = [] \<or> vs \<noteq> []"
  shows "\<exists>l. link_block base s = Some (s\<lparr>plinks := l\<rparr>) \<and> klist l FreeList (map PLink (us @ base # vs))"
proof (cases vs)
  case Nil
  with assms have us: "us = []" by simp
  with assms Nil list_add_after_klist [of "plinks s" FreeList "[]" "PLink base"] show ?thesis
    by (auto simp: link_block_def klist_empty list_add_def upd_links_def intro!: exI)
next
  case (Cons y ys)
  have ne: "\<not> list_empty FreeList (plinks s)"
    using klist_empty [OF assms(1)] Cons by simp
  have "insert_block base (last (FreeList # map PLink [])) s =
    Some (upd_links (list_add_before (PLink y) (PLink base)) s)"
    by (rule insert_block_spec [where xs = us]) (use assms Cons in auto)
  moreover have "klist (list_add_before (PLink y) (PLink base) (plinks s)) FreeList (map PLink (us @ base # vs))"
    using list_add_before_klist [of "plinks s" FreeList "map PLink us" "map PLink vs" "PLink base"] assms(1-3) Cons
    by auto
  ultimately show ?thesis
    using ne by (intro exI [of _ "list_add_before (PLink y) (PLink base) (plinks s)"])
      (simp add: link_block_def upd_links_def)
qed

text \<open>
  Linking a block into the free list, between the blocks below and above it. The list must be empty
  or have a block above: \<open>append_damages_list\<close> below shows what happens otherwise.
\<close>

definition linkable :: "nat \<Rightarrow> nat list \<Rightarrow> bool" where
  "linkable base xs \<longleftrightarrow> xs = [] \<or> base < last xs"

lemma free_pages_marks_inv:
  assumes inv: "pmm_inv np s (us @ vs)" and n: "0 < n" "base + n \<le> np"
    and us: "\<And>x. x \<in> set us \<Longrightarrow> x + page_len s x \<le> base" and vs: "\<And>x. x \<in> set vs \<Longrightarrow> base + n \<le> x"
    and s': "\<And>q. q \<in> set (us @ base # vs) \<Longrightarrow> page_len s' q = (if q = base then n else page_len s q)"
      "\<And>q. PageProperty q s' \<longleftrightarrow> q = base \<or> PageProperty q s \<and> q \<notin> {base ..< base + n}"
      "\<And>q. PageReserved q s' \<longleftrightarrow> PageReserved q s \<and> q \<notin> {base ..< base + n}"
      "nr_free s' = nr_free s + of_nat n" "klist (plinks s') FreeList (map PLink (us @ base # vs))"
  shows "pmm_inv np s' (us @ base # vs)"
    and "free_set s' (us @ base # vs) = free_set s (us @ vs) \<union> {base ..< base + n}"
proof -
  note i = pmm_invD [OF inv]
  have ord: "x \<noteq> base" if "x \<in> set us \<union> set vs" for x
    using us [of x] vs [of x] i(3) [of x] n that by auto
  have same: "page_len s' x = page_len s x" if "x \<in> set us \<union> set vs" for x
    using ord [of x] that by (simp add: s'(1))
  have eq: "sorted_wrt (\<lambda>p q. p + page_len s' p \<le> q) ys = sorted_wrt (\<lambda>p q. p + page_len s p \<le> q) ys"
    if "set ys \<subseteq> set us \<union> set vs" for ys
    using that same by (induction ys) auto
  show all: "free_set s' (us @ base # vs) = free_set s (us @ vs) \<union> {base ..< base + n}"
    using free_set_cong [of us s' s] free_set_cong [of vs s' s] same s'(1) [of base]
    by (auto simp: block_def)
  have srt: "sorted_wrt (\<lambda>p q. p + page_len s' p \<le> q) (us @ base # vs)"
  proof -
    have "sorted_wrt (\<lambda>p q. p + page_len s' p \<le> q) us" "sorted_wrt (\<lambda>p q. p + page_len s' p \<le> q) vs"
      using i(2) by (simp_all add: sorted_wrt_append eq)
    moreover have "x + page_len s' x \<le> y" if "x \<in> set us" "y = base \<or> y \<in> set vs" for x y
      using i(2) us same [of x] that by (auto simp: sorted_wrt_append)
    ultimately show ?thesis using vs by (auto simp: sorted_wrt_append s'(1) [of base])
  qed
  moreover have pos: "\<forall>x \<in> set (us @ base # vs). 0 < page_len s' x \<and> x + page_len s' x \<le> np"
    using i(3,4) n ord s'(1) by auto
  moreover have "\<forall>x < np. PageProperty x s' \<longleftrightarrow> x \<in> set (us @ base # vs)"
  proof -
    have "x \<notin> {base ..< base + n}" if "x \<in> set us \<union> set vs" for x
      using us [of x] vs [of x] i(3) [of x] that by auto
    with i(5) show ?thesis by (auto simp: s'(2))
  qed
  moreover have "\<forall>x \<in> free_set s' (us @ base # vs). \<not> PageReserved x s'"
    unfolding all using i(6) by (auto simp: s'(3))
  moreover have "unat (nr_free s') = (\<Sum>x \<leftarrow> us @ base # vs. page_len s' x)"
  proof -
    have "map (page_len s') us = map (page_len s) us" "map (page_len s') vs = map (page_len s) vs"
      using same by auto
    then have sum: "(\<Sum>x \<leftarrow> us @ base # vs. page_len s' x) = unat (nr_free s) + n"
      using i(7) by (simp add: s'(1) [of base] del: map_eq_conv)
    have "free_set s' (us @ base # vs) \<subseteq> {..<np}"
      by (rule free_set_below) (use pos in blast)
    from card_mono [OF _ this] have "unat (nr_free s) + n \<le> np"
      using card_free_set [OF srt] sum by simp
    with i(8) have "unat (nr_free s) + n < 2 ^ 32" by simp
    then have "unat (nr_free s + of_nat n) = unat (nr_free s) + n"
      by (simp add: unat_word_ariths unsigned_of_nat take_bit_nat_eq_self)
    with sum show ?thesis by (simp add: s'(4))
  qed
  ultimately show "pmm_inv np s' (us @ base # vs)" using s'(5) i(8) by (simp add: pmm_inv_def)
qed

lemma split_sorted:
  assumes "sorted_wrt (\<lambda>p q. p + page_len s p \<le> q) xs" and "\<And>p. p \<in> set xs \<Longrightarrow> 0 < page_len s p"
    and "0 < n" and "free_set s xs \<inter> {base ..< base + n} = {}"
  obtains us vs where "xs = us @ vs" and "\<And>x. x \<in> set us \<Longrightarrow> x + page_len s x \<le> base"
    and "\<And>x. x \<in> set vs \<Longrightarrow> base + n \<le> x"
proof -
  let ?P = "\<lambda>x. x + page_len s x \<le> base"
  have sep: "?P x \<or> base + n \<le> x" if "x \<in> set xs" for x
  proof (rule ccontr)
    assume a: "\<not> (?P x \<or> base + n \<le> x)"
    have "max x base \<in> block s x \<inter> {base ..< base + n}"
      using a assms(2) [OF that] assms(3) by (auto simp: block_def)
    moreover have "block s x \<subseteq> free_set s xs" using that by (auto simp: free_set_def)
    ultimately show False using assms(4) by blast
  qed
  have vs: "base + n \<le> x" if "x \<in> set (dropWhile ?P xs)" for x
  proof -
    have "dropWhile ?P xs \<noteq> []"
    proof
      assume e: "dropWhile ?P xs = []"
      show False using that unfolding e by simp
    qed
    then obtain y ys where d: "dropWhile ?P xs = y # ys" unfolding neq_Nil_conv by blast
    have "sorted_wrt (\<lambda>p q. p + page_len s p \<le> q) (dropWhile ?P xs)"
      using assms(1) takeWhile_dropWhile_id [of ?P xs] by (metis sorted_wrt_append)
    moreover have "base + n \<le> y"
      using sep [of y] hd_dropWhile [of ?P xs] d set_dropWhileD [of y ?P xs] by simp
    ultimately show ?thesis using that d by auto
  qed
  show ?thesis
  proof (rule that)
    show "xs = takeWhile ?P xs @ dropWhile ?P xs" by simp
    show "x + page_len s x \<le> base" if "x \<in> set (takeWhile ?P xs)" for x
      using set_takeWhileD [OF that] by simp
  qed (rule vs)
qed

lemma default_free_pages_inv:
  assumes inv: "pmm_inv np s xs" and n: "0 < n" "base + n \<le> np" and tk: "taken s base n"
    and dis: "free_set s xs \<inter> {base ..< base + n} = {}" and lk: "linkable base xs"
  shows "\<exists>s' ys. default_free_pages base n s = Some s' \<and> pmm_inv np s' ys \<and>
    free_set s' ys = free_set s xs \<union> {base ..< base + n}"
proof -
  note i = pmm_invD [OF inv]
  from split_sorted [OF i(2,3) n(1) dis] obtain us vs where
    xs: "xs = us @ vs" and us: "\<And>x. x \<in> set us \<Longrightarrow> x + page_len s x \<le> base" and
    vs: "\<And>x. x \<in> set vs \<Longrightarrow> base + n \<le> x" by blast
  define s1 where "s1 = s\<lparr>pages := (\<lambda>q. if q \<in> {base ..< base + n}
    then (pages s q)\<lparr>pg_flags := 0, pg_ref := 0\<rparr> else pages s q)\<rparr>"
  have reset: "reset_pages base n s = Some s1"
    unfolding s1_def by (rule reset_pages_spec) (use tk in \<open>auto simp: taken_def\<close>)
  define s2 where "s2 = (SetPageProperty base (set_property base (of_nat n) s1))\<lparr>nr_free := nr_free s1 + of_nat n\<rparr>"
  have n32: "unat (of_nat n :: u32) = n"
    using n i(8) by (simp add: unsigned_of_nat take_bit_nat_eq_self)
  have low: "x < base" if "x \<in> set us" for x
    using us [OF that] i(3) [of x] that by (simp add: xs)
  have high: "base < x" if "x \<in> set vs" for x
    using vs [OF that] n by simp
  have last: "us = [] \<or> vs \<noteq> []"
    using lk low [of "last us"] by (auto simp: linkable_def xs split: if_splits)
  have "klist (plinks s2) FreeList (map PLink (us @ vs))"
    using i(1) by (simp add: s2_def s1_def xs)
  from link_block_spec [OF this _ _ last] low high obtain l where
    l: "link_block base s2 = Some (s2\<lparr>plinks := l\<rparr>)" "klist l FreeList (map PLink (us @ base # vs))" by blast
  let ?s = "s2\<lparr>plinks := l\<rparr>"
  have f: "page_len ?s q = (if q = base then n else page_len s q)"
    "PageProperty q ?s \<longleftrightarrow> q = base \<or> PageProperty q s \<and> q \<notin> {base ..< base + n}"
    "PageReserved q ?s \<longleftrightarrow> PageReserved q s \<and> q \<notin> {base ..< base + n}"
    "nr_free ?s = nr_free s + of_nat n" for q
    using n32 n(1) by (simp_all add: s2_def s1_def page_op_defs upd_page_def page_len_def PageProperty_def
        PageReserved_def bit_set_bit_iff)
  have "klist (plinks ?s) FreeList (map PLink (us @ base # vs))" using l(2) by simp
  note marks = free_pages_marks_inv [OF inv [unfolded xs] n us vs f this]
  from merge_prev_inv [OF marks(1)] obtain q s3 ws where
    m: "merge_prev base (s2\<lparr>plinks := l\<rparr>) = (q, s3)" "pmm_inv np s3 (ws @ q # vs)"
      "free_set s3 (ws @ q # vs) = free_set s xs \<union> {base ..< base + n}"
    using marks(2) xs by metis
  from merge_next_inv [OF m(2)] obtain ys where
    "pmm_inv np (merge_next q s3) ys" "free_set (merge_next q s3) ys = free_set s xs \<union> {base ..< base + n}"
    using m(3) by metis
  moreover have "default_free_pages base n s = Some (merge_next q s3)"
    using n(1) by (simp add: default_free_pages_def reset s2_def [symmetric] l(1) m(1))
  ultimately show ?thesis by blast
qed

lemma best_fit_free_pages_eq: "best_fit_free_pages = default_free_pages"
  by (simp add: fun_eq_iff best_fit_free_pages_def default_free_pages_def)

section \<open>Initialisation\<close>

lemma default_init_inv:
  assumes "np + 1 < 2 ^ 32" and "\<And>p. p < np \<Longrightarrow> \<not> PageProperty p s"
  shows "pmm_inv np (default_init s) []"
  using assms list_init_klist [of FreeList "plinks s"]
  by (simp add: pmm_inv_def default_init_def PageProperty_def)

lemma memmap_pages_spec:
  assumes "\<And>q. q \<in> {p ..< p + n} \<Longrightarrow> PageReserved q s"
  shows "memmap_pages p n s = Some (s\<lparr>pages := (\<lambda>q. if q \<in> {p ..< p + n}
    then (pages s q)\<lparr>pg_ref := 0, pg_flags := 0, pg_property := 0\<rparr> else pages s q)\<rparr>)"
  using assms
proof (induction n arbitrary: p s)
  case 0
  then show ?case by simp
next
  case (Suc n)
  let ?s = "set_page_ref p 0 (upd_page p (\<lambda>g. g\<lparr>pg_flags := 0, pg_property := 0\<rparr>) s)"
  have "PageReserved q ?s" if "q \<in> {Suc p ..< Suc p + n}" for q
    using Suc.prems [of q] that by (auto simp: PageReserved_def set_page_ref_def)
  from Suc.IH [of "Suc p" ?s, OF this] Suc.prems [of p] show ?case
    by (auto simp: set_page_ref_def upd_page_def fun_eq_iff)
qed

lemma default_init_memmap_inv:
  assumes inv: "pmm_inv np s []" and n: "0 < n" "base + n \<le> np"
    and res: "\<And>q. q \<in> {base ..< base + n} \<Longrightarrow> PageReserved q s"
  shows "\<exists>s'. default_init_memmap base n s = Some s' \<and> pmm_inv np s' [base] \<and> page_len s' base = n"
proof -
  note i = pmm_invD [OF inv]
  define s1 where "s1 = s\<lparr>pages := (\<lambda>q. if q \<in> {base ..< base + n}
    then (pages s q)\<lparr>pg_ref := 0, pg_flags := 0, pg_property := 0\<rparr> else pages s q)\<rparr>"
  have reset: "memmap_pages base n s = Some s1"
    using memmap_pages_spec [of base n s] res by (simp add: s1_def)
  define s2 where "s2 = (SetPageProperty base (set_property base (of_nat n) s1))\<lparr>nr_free := nr_free s1 + of_nat n\<rparr>"
  have n32: "unat (of_nat n :: u32) = n"
    using n i(8) by (simp add: unsigned_of_nat take_bit_nat_eq_self)
  have "klist (plinks s2) FreeList (map PLink ([] @ []))"
    using i(1) by (simp add: s2_def s1_def)
  from link_block_spec [OF this, of base] obtain l where
    l: "link_block base s2 = Some (s2\<lparr>plinks := l\<rparr>)" "klist l FreeList (map PLink ([] @ base # []))" by auto
  let ?s = "s2\<lparr>plinks := l\<rparr>"
  have f: "q \<in> set ([] @ base # []) \<Longrightarrow> page_len ?s q = (if q = base then n else page_len s q)"
    "PageProperty q ?s \<longleftrightarrow> q = base \<or> PageProperty q s \<and> q \<notin> {base ..< base + n}"
    "PageReserved q ?s \<longleftrightarrow> PageReserved q s \<and> q \<notin> {base ..< base + n}"
    "nr_free ?s = nr_free s + of_nat n" for q
    using n32 n(1) by (simp_all add: s2_def s1_def page_op_defs upd_page_def page_len_def PageProperty_def
        PageReserved_def bit_set_bit_iff)
  have "pmm_inv np ?s ([] @ base # [])"
    by (rule free_pages_marks_inv(1) [OF _ n _ _ f]) (use inv l(2) in auto)
  moreover have "default_init_memmap base n s = Some ?s"
    using n(1) by (simp add: default_init_memmap_def reset s2_def [symmetric] l(1))
  ultimately show ?thesis using f(1) [of base] by auto
qed

text \<open>The count of the free pages determines and is determined by their number.\<close>

lemma alloc_count:
  assumes "pmm_inv np s xs" and "pmm_inv np s' ys"
    and "free_set s xs = free_set s' ys \<union> {p ..< p + n}" and "free_set s' ys \<inter> {p ..< p + n} = {}"
  shows "unat (nr_free s') + n = unat (nr_free s)"
proof -
  have "card (free_set s xs) = card (free_set s' ys) + n"
    using assms(3,4) by (simp add: card_Un_disjoint)
  then show ?thesis using pmm_inv_total(1) [OF assms(1)] pmm_inv_total(1) [OF assms(2)] by simp
qed

lemma same_count:
  assumes "pmm_inv np s xs" and "pmm_inv np s' ys" and "free_set s' ys = free_set s xs"
  shows "nr_free s' = nr_free s"
proof -
  have "unat (nr_free s') = unat (nr_free s)"
    using pmm_inv_total(1) [OF assms(1)] pmm_inv_total(1) [OF assms(2)] assms(3) by metis
  then show ?thesis by (simp only: word_unat_eq_iff)
qed

section \<open>The allocator interface (struct pmm_manager)\<close>

locale page_manager =
  fixes alloc :: "nat \<Rightarrow> pmm \<Rightarrow> (nat option \<times> pmm) option"
    and free :: "nat \<Rightarrow> nat \<Rightarrow> pmm \<Rightarrow> pmm option"
  assumes alloc_law: "pmm_inv np s xs \<Longrightarrow> 0 < n \<Longrightarrow> \<exists>r s'. alloc n s = Some (r, s') \<and>
      (case r of None \<Rightarrow> s' = s \<and> (\<forall>p \<in> set xs. page_len s p < n)
       | Some p \<Rightarrow> \<exists>ys. pmm_inv np s' ys \<and> taken s' p n \<and> p + n \<le> np \<and>
           free_set s xs = free_set s' ys \<union> {p ..< p + n} \<and> free_set s' ys \<inter> {p ..< p + n} = {})"
    and free_law: "pmm_inv np s xs \<Longrightarrow> 0 < n \<Longrightarrow> base + n \<le> np \<Longrightarrow> taken s base n \<Longrightarrow>
      free_set s xs \<inter> {base ..< base + n} = {} \<Longrightarrow> linkable base xs \<Longrightarrow>
      \<exists>s' ys. free base n s = Some s' \<and> pmm_inv np s' ys \<and> free_set s' ys = free_set s xs \<union> {base ..< base + n}"
begin

lemma alloc_pages_swap:
  assumes inv: "pmm_inv np s xs" and m: "m_alloc_pages m = alloc"
    and swap: "\<And>s. pmm_inv np s [] \<Longrightarrow> \<exists>s' ys. swap_out s = Some s' \<and> pmm_inv np s' ys \<and> ys \<noteq> []"
  shows "\<exists>p s' ys. alloc_pages m True swap_out 1 s = Some (Some p, s') \<and> pmm_inv np s' ys \<and> taken s' p 1"
proof -
  have found: "\<exists>p s' ys. alloc 1 s = Some (Some p, s') \<and> pmm_inv np s' ys \<and> taken s' p 1"
    if "pmm_inv np s xs" "xs \<noteq> []" for s xs
  proof -
    from alloc_law [OF that(1), of 1] obtain r s' where a: "alloc 1 s = Some (r, s')" and
      r: "case r of None \<Rightarrow> s' = s \<and> (\<forall>p \<in> set xs. page_len s p < 1)
       | Some p \<Rightarrow> \<exists>ys. pmm_inv np s' ys \<and> taken s' p 1 \<and> p + 1 \<le> np \<and>
           free_set s xs = free_set s' ys \<union> {p ..< p + 1} \<and> free_set s' ys \<inter> {p ..< p + 1} = {}"
      by auto
    have "r \<noteq> None"
    proof
      assume "r = None"
      with r have "\<forall>p \<in> set xs. page_len s p < 1" by simp
      with pmm_invD(3) [OF that(1), of "hd xs"] hd_in_set [OF that(2)] show False by auto
    qed
    with a r show ?thesis by auto
  qed
  show ?thesis
  proof (cases "xs = []")
    case False
    with found [OF inv] m show ?thesis by (subst alloc_pages.simps) auto
  next
    case True
    with swap inv obtain s' ys where s': "swap_out s = Some s'" "pmm_inv np s' ys" "ys \<noteq> []" by metis
    from found [OF s'(2,3)] m obtain p s'' zs where
      z: "alloc 1 s' = Some (Some p, s'')" "pmm_inv np s'' zs" "taken s'' p 1" by blast
    then have "alloc_pages m True swap_out 1 s' = Some (Some p, s'')"
      using m by (subst alloc_pages.simps) simp
    moreover from alloc_law [OF inv, of 1] True obtain r t where
      "alloc 1 s = Some (r, t)" "r = None \<longrightarrow> t = s" "\<forall>p. r = Some p \<longrightarrow> (\<exists>ys. pmm_inv np t ys \<and> taken t p 1)"
      by (force split: option.splits)
    ultimately show ?thesis
      using s'(1) z m by (subst alloc_pages.simps) (cases r, auto)
  qed
qed

lemma alloc_total: "pmm_inv np s xs \<Longrightarrow> 0 < n \<Longrightarrow> alloc n s \<noteq> None"
  using alloc_law [of np s xs n] by (metis option.distinct(1))

end

lemma fit_alloc_law:
  assumes inv: "pmm_inv np s xs" and n: "0 < n"
    and find: "n \<le> unat (nr_free s) \<Longrightarrow> find_block = Some r"
    and some: "\<And>p. r = Some p \<Longrightarrow> p \<in> set xs \<and> n \<le> page_len s p"
    and none: "r = None \<Longrightarrow> \<forall>p \<in> set xs. page_len s p < n"
  shows "\<exists>r s'. (if n > unat (nr_free s) then Some (None, s)
      else do { page \<leftarrow> find_block;
        case page of None \<Rightarrow> Some (None, s) | Some p \<Rightarrow> Some (Some p, take_block p n s) }) = Some (r, s') \<and>
    (case r of None \<Rightarrow> s' = s \<and> (\<forall>p \<in> set xs. page_len s p < n)
     | Some p \<Rightarrow> \<exists>ys. pmm_inv np s' ys \<and> taken s' p n \<and> p + n \<le> np \<and>
         free_set s xs = free_set s' ys \<union> {p ..< p + n} \<and> free_set s' ys \<inter> {p ..< p + n} = {})"
proof (cases "n > unat (nr_free s)")
  case True
  have "page_len s p < n" if "p \<in> set xs" for p
    using block_le_total [OF that, of s] pmm_invD(7) [OF inv] True by simp
  with True show ?thesis by auto
next
  case False
  then have f: "find_block = Some r" by (intro find) simp
  show ?thesis
  proof (cases r)
    case None
    with False f none show ?thesis by auto
  next
    case (Some p)
    from some [OF Some] obtain us vs where xs: "xs = us @ p # vs" and le: "n \<le> page_len s p"
      by (meson split_list)
    from take_block_inv [OF inv [unfolded xs] n le] pmm_invD(4) [OF inv, of p] le xs
    have "\<exists>ys. pmm_inv np (take_block p n s) ys \<and> taken (take_block p n s) p n \<and> p + n \<le> np \<and>
      free_set s xs = free_set (take_block p n s) ys \<union> {p ..< p + n} \<and>
      free_set (take_block p n s) ys \<inter> {p ..< p + n} = {}"
      by (metis add_le_cancel_left in_set_conv_decomp le_trans)
    with False f Some show ?thesis by simp
  qed
qed

lemma default_alloc_law:
  assumes inv: "pmm_inv np s xs" and n: "0 < n"
  shows "\<exists>r s'. default_alloc_pages n s = Some (r, s') \<and>
    (case r of None \<Rightarrow> s' = s \<and> (\<forall>p \<in> set xs. page_len s p < n)
     | Some p \<Rightarrow> \<exists>ys. pmm_inv np s' ys \<and> taken s' p n \<and> p + n \<le> np \<and>
         free_set s xs = free_set s' ys \<union> {p ..< p + n} \<and> free_set s' ys \<inter> {p ..< p + n} = {})"
proof -
  have ff: "first_fit n FreeList s = Some (find (\<lambda>p. n \<le> page_len s p) xs)"
    using first_fit_spec [of s "[]" xs n] pmm_invD(1) [OF inv] by simp
  have f: "p \<in> set xs \<and> n \<le> page_len s p" if "find (\<lambda>p. n \<le> page_len s p) xs = Some p" for p
    using that by (auto simp: find_Some_iff)
  have g: "\<forall>p \<in> set xs. page_len s p < n" if "find (\<lambda>p. n \<le> page_len s p) xs = None"
    using that by (auto simp: find_None_iff not_le)
  show ?thesis
    using fit_alloc_law [OF inv n ff f g] n by (simp add: default_alloc_pages_def)
qed

lemma min_size_start:
  assumes "pmm_inv np s xs"
  shows "unat (nr_free s + 1) = unat (nr_free s) + 1"
  using pmm_inv_total(2) [OF assms] pmm_invD(8) [OF assms] by (simp add: unat_word_ariths)

lemma best_fit_alloc_law:
  assumes inv: "pmm_inv np s xs" and n: "0 < n"
  shows "\<exists>r s'. best_fit_alloc_pages n s = Some (r, s') \<and>
    (case r of None \<Rightarrow> s' = s \<and> (\<forall>p \<in> set xs. page_len s p < n)
     | Some p \<Rightarrow> \<exists>ys. pmm_inv np s' ys \<and> taken s' p n \<and> p + n \<le> np \<and>
         free_set s xs = free_set s' ys \<union> {p ..< p + n} \<and> free_set s' ys \<inter> {p ..< p + n} = {})"
proof -
  let ?m = "unat (nr_free s + 1)"
  have bf: "best_fit n ?m None FreeList s = Some (least_fit n (page_len s) ?m None xs)"
    using best_fit_spec [of s "[]" xs n] pmm_invD(1) [OF inv] by simp
  have f: "p \<in> set xs \<and> n \<le> page_len s p" if "least_fit n (page_len s) ?m None xs = Some p" for p
    using least_fit_Some [OF that] by simp
  have g: "\<forall>p \<in> set xs. page_len s p < n" if "least_fit n (page_len s) ?m None xs = None"
  proof
    fix p assume p: "p \<in> set xs"
    have "page_len s p < ?m"
      using block_le_total [OF p, of s] pmm_invD(7) [OF inv] min_size_start [OF inv] by simp
    with that p show "page_len s p < n" by (auto simp: least_fit_None not_le [symmetric])
  qed
  show ?thesis
    using fit_alloc_law [OF inv n bf f g] n by (simp add: best_fit_alloc_pages_def)
qed

interpretation first_fit_manager: page_manager default_alloc_pages default_free_pages
  by unfold_locales (rule default_alloc_law default_free_pages_inv; assumption)+

interpretation best_fit_manager: page_manager best_fit_alloc_pages best_fit_free_pages
  unfolding best_fit_free_pages_eq
  by unfold_locales (rule best_fit_alloc_law default_free_pages_inv; assumption)+

section \<open>A block above every free block\<close>

text \<open>
  The loop that links a block goes on after it has appended the block, and appends it to itself: its
  \<^verbatim>\<open>prev\<close> pointer then points to itself.
\<close>

lemma insert_block_append:
  assumes "klist (plinks s) FreeList (map PLink (us @ xs))" and "xs \<noteq> []"
    and "\<forall>x \<in> set xs. x < base" and "base \<notin> set us"
  shows "\<exists>s'. insert_block base (last (FreeList # map PLink us)) s = Some s' \<and>
    list_prev (PLink base) (plinks s') = PLink base \<and> list_next (PLink base) (plinks s') = FreeList \<and>
    list_prev FreeList (plinks s') = PLink base \<and> pages s' = pages s"
  using assms
proof (induction xs arbitrary: us)
  case Nil
  then show ?case by simp
next
  case (Cons x xs)
  have nxt: "list_next (last (FreeList # map PLink us)) (plinks s) = PLink x"
    using next_at [of "plinks s" us "x # xs"] Cons.prems(1) by simp
  have nxt2: "list_next (PLink x) (plinks s) = hd (map PLink xs @ [FreeList])"
    using next_at [of "plinks s" "us @ [x]" xs] Cons.prems(1) by simp
  show ?case
  proof (cases xs)
    case Nil
    let ?s1 = "upd_links (list_add (PLink x) (PLink base)) s"
    let ?s2 = "upd_links (list_add (PLink base) (PLink base)) ?s1"
    have x: "x < base" "l_next (plinks s) (PLink x) = FreeList"
      using Cons.prems(3) nxt2 Nil by (auto simp: list_next_def)
    have "insert_block base (PLink base) ?s2 = Some ?s2"
      using x by (subst insert_block.simps) (simp add: Let_def list_op_defs)
    moreover have "insert_block base (PLink x) ?s1 = insert_block base (PLink base) ?s2"
      using x by (subst insert_block.simps) (simp add: Let_def list_op_defs)
    moreover have "insert_block base (last (FreeList # map PLink us)) s = insert_block base (PLink x) ?s1"
      using x nxt by (subst insert_block.simps) (simp add: Let_def list_next_def del: last.simps)
    ultimately show ?thesis using x by (simp add: list_op_defs del: last.simps)
  next
    case (Cons y ys)
    have "insert_block base (last (FreeList # map PLink us)) s = insert_block base (PLink x) s"
      using Cons nxt nxt2 Cons.prems(3)
      by (subst insert_block.simps) (simp add: Let_def del: last.simps)
    then show ?thesis
      using Cons.IH [of "us @ [x]"] Cons.prems Cons by (simp del: last.simps add: last_snoc_PLink [simplified])
  qed
qed

text \<open>No list of free blocks has an entry that comes before itself.\<close>

lemma self_link_damages:
  assumes "list_prev (PLink base) (plinks s) = PLink base" and "list_prev FreeList (plinks s) = PLink base"
  shows "\<not> pmm_inv np s ys"
proof
  assume inv: "pmm_inv np s ys"
  have "last (FreeList # map PLink ys) = PLink base" using klist_prev [OF pmm_invD(1) [OF inv]] assms(2) by simp
  then have "base \<in> set ys" using last_in_set [of "FreeList # map PLink ys"] by auto
  then obtain us vs where ys: "ys = us @ base # vs" by (meson split_list)
  then have k: "klist (plinks s) FreeList (map PLink us @ PLink base # map PLink vs)"
    using pmm_invD(1) [OF inv] by simp
  from klist_entry_prev [OF this] assms(1) have "PLink base = last (FreeList # map PLink us)" by simp
  moreover have "PLink base \<notin> set (FreeList # map PLink us)" using k by (auto simp: klist_def)
  ultimately show False using last_in_set [of "FreeList # map PLink us"] by (metis list.distinct(1))
qed

lemma default_free_pages_append:
  assumes inv: "pmm_inv np s xs" and n: "0 < n" "base + n \<le> np" and tk: "taken s base n"
    and dis: "free_set s xs \<inter> {base ..< base + n} = {}" and lk: "\<not> linkable base xs"
  shows "\<exists>s'. default_free_pages base n s = Some s' \<and> list_prev (PLink base) (plinks s') = PLink base \<and>
    (\<forall>np ys. \<not> pmm_inv np s' ys)"
proof -
  note i = pmm_invD [OF inv]
  have xs: "xs \<noteq> []" "last xs \<le> base" using lk by (auto simp: linkable_def)
  have low: "x < base" if x: "x \<in> set xs" for x
  proof -
    have "last xs \<in> free_set s xs" using xs(1) i(3) [of "last xs"] by (auto simp: free_set_def block_def)
    then have "last xs \<noteq> base" using dis n(1) by auto
    then have l: "last xs < base" using xs(2) by simp
    obtain zs where zs: "xs = zs @ [last xs]" using xs(1) by (metis append_butlast_last_id)
    from i(2) have "sorted_wrt (\<lambda>p q. p + page_len s p \<le> q) (zs @ [last xs])" using zs by simp
    then have "\<forall>z \<in> set zs. z + page_len s z \<le> last xs" by (simp add: sorted_wrt_append)
    moreover have "x \<in> set zs \<or> x = last xs" using x zs by (metis Un_iff empty_iff insert_iff set_append set_simps)
    ultimately show ?thesis using l by force
  qed
  define s1 where "s1 = s\<lparr>pages := (\<lambda>q. if q \<in> {base ..< base + n}
    then (pages s q)\<lparr>pg_flags := 0, pg_ref := 0\<rparr> else pages s q)\<rparr>"
  have reset: "reset_pages base n s = Some s1"
    unfolding s1_def by (rule reset_pages_spec) (use tk in \<open>auto simp: taken_def\<close>)
  define s2 where "s2 = (SetPageProperty base (set_property base (of_nat n) s1))\<lparr>nr_free := nr_free s1 + of_nat n\<rparr>"
  have n32: "unat (of_nat n :: u32) = n"
    using n i(8) by (simp add: unsigned_of_nat take_bit_nat_eq_self)
  have k: "klist (plinks s2) FreeList (map PLink ([] @ xs))" using i(1) by (simp add: s2_def s1_def)
  from insert_block_append [OF k xs(1)] low obtain s3 where
    s3: "insert_block base FreeList s2 = Some s3" "list_prev (PLink base) (plinks s3) = PLink base"
      "list_next (PLink base) (plinks s3) = FreeList" "pages s3 = pages s2"
      "list_prev FreeList (plinks s3) = PLink base" by auto
  have "\<not> list_empty FreeList (plinks s2)" using klist_empty [OF k] xs(1) by simp
  then have l: "link_block base s2 = Some s3" using s3(1) by (simp add: link_block_def)
  have len: "page_len s3 base = n"
    using n32 s3(4) by (simp add: page_len_def s2_def s1_def page_op_defs upd_page_def)
  have "default_free_pages base n s = Some s3"
    using n(1) len s3(2,3) l
    by (simp add: default_free_pages_def reset s2_def [symmetric] merge_prev_def merge_next_def)
  with self_link_damages [OF s3(2,5)] s3(2) show ?thesis by auto
qed

section \<open>Properties\<close>

text \<open>Nine pages, all handed out, with an empty free list.\<close>

definition ex_pmm :: pmm where
  "ex_pmm = default_init \<lparr>pages = (\<lambda>_. \<lparr>pg_ref = 0, pg_flags = 0, pg_property = 0\<rparr>),
     plinks = \<lparr>l_prev = id, l_next = id\<rparr>, nr_free = 0\<rparr>"

lemma ex_pmm_inv: "pmm_inv 9 ex_pmm []"
  unfolding ex_pmm_def by (rule default_init_inv) (simp_all add: PageProperty_def)

lemma ex_pmm_taken: "taken ex_pmm p n"
  by (simp add: taken_def PageReserved_def PageProperty_def ex_pmm_def default_init_def)

text \<open>
  C25: On a well-formed free list an allocation of n pages by either allocator returns (no assertion
  fails, no loop runs on): NULL and nothing changed when no block has n pages, else exactly n pages
  are removed from the free pages and the count, and they fit the entry conditions of free_pages.
  Freeing them again, when no page is free then or a free block lies above them, restores the set of
  free pages and the count, whatever has been merged, and keeps the list well formed. When they lie
  above every free block, free_pages returns too, but the block is linked to itself and the list is
  no longer well formed.
\<close>

theorem page_alloc_free:
  assumes "m \<in> {default_pmm_manager, best_fit_pmm_manager}" and "pmm_inv np s xs" and "0 < n"
  shows "\<exists>r s'. m_alloc_pages m n s = Some (r, s') \<and>
    (case r of None \<Rightarrow> s' = s \<and> (\<forall>q \<in> set xs. page_len s q < n)
     | Some p \<Rightarrow> \<exists>ys. pmm_inv np s' ys \<and> taken s' p n \<and> p + n \<le> np \<and>
         free_set s xs = free_set s' ys \<union> {p ..< p + n} \<and> free_set s' ys \<inter> {p ..< p + n} = {} \<and>
         unat (nr_free s') + n = unat (nr_free s) \<and>
         (if linkable p ys then \<exists>s'' zs. free_pages m p n s' = Some s'' \<and> pmm_inv np s'' zs \<and>
            free_set s'' zs = free_set s xs \<and> nr_free s'' = nr_free s
          else \<exists>s''. free_pages m p n s' = Some s'' \<and> list_prev (PLink p) (plinks s'') = PLink p \<and>
            (\<forall>zs. \<not> pmm_inv np s'' zs)))"
proof -
  have free: "free_pages m p n s' = default_free_pages p n s'" for p s'
    using assms(1) by (auto simp: free_pages_def default_pmm_manager_def best_fit_pmm_manager_def
        best_fit_free_pages_eq)
  have "\<exists>r s'. m_alloc_pages m n s = Some (r, s') \<and>
      (case r of None \<Rightarrow> s' = s \<and> (\<forall>q \<in> set xs. page_len s q < n)
       | Some p \<Rightarrow> \<exists>ys. pmm_inv np s' ys \<and> taken s' p n \<and> p + n \<le> np \<and>
           free_set s xs = free_set s' ys \<union> {p ..< p + n} \<and> free_set s' ys \<inter> {p ..< p + n} = {})"
    using assms(1) first_fit_manager.alloc_law [OF assms(2,3)] best_fit_manager.alloc_law [OF assms(2,3)]
    by (auto simp: default_pmm_manager_def best_fit_pmm_manager_def)
  then obtain r s' where r: "m_alloc_pages m n s = Some (r, s')" and
    c: "case r of None \<Rightarrow> s' = s \<and> (\<forall>q \<in> set xs. page_len s q < n)
     | Some p \<Rightarrow> \<exists>ys. pmm_inv np s' ys \<and> taken s' p n \<and> p + n \<le> np \<and>
         free_set s xs = free_set s' ys \<union> {p ..< p + n} \<and> free_set s' ys \<inter> {p ..< p + n} = {}" by blast
  show ?thesis
  proof (cases r)
    case None
    with r c show ?thesis by auto
  next
    case (Some p)
    with c obtain ys where ys: "pmm_inv np s' ys" "taken s' p n" "p + n \<le> np"
      "free_set s xs = free_set s' ys \<union> {p ..< p + n}" "free_set s' ys \<inter> {p ..< p + n} = {}" by auto
    note cnt = alloc_count [OF assms(2) ys(1,4,5)]
    have "if linkable p ys then \<exists>s'' zs. free_pages m p n s' = Some s'' \<and> pmm_inv np s'' zs \<and>
            free_set s'' zs = free_set s xs \<and> nr_free s'' = nr_free s
          else \<exists>s''. free_pages m p n s' = Some s'' \<and> list_prev (PLink p) (plinks s'') = PLink p \<and>
            (\<forall>zs. \<not> pmm_inv np s'' zs)"
    proof (cases "linkable p ys")
      case True
      from default_free_pages_inv [OF ys(1) assms(3) ys(3,2,5) this] obtain s'' zs where
        z: "default_free_pages p n s' = Some s''" "pmm_inv np s'' zs" "free_set s'' zs = free_set s xs"
        unfolding ys(4) by blast
      with True same_count [OF assms(2) z(2,3)] show ?thesis unfolding free by auto
    next
      case False
      with default_free_pages_append [OF ys(1) assms(3) ys(3,2,5)] show ?thesis unfolding free by auto
    qed
    with r Some ys cnt show ?thesis by auto
  qed
qed

lemma ex_pmm_free:
  obtains s xs where "default_free_pages 0 6 ex_pmm = Some s" and "pmm_inv 9 s xs"
    and "free_set s xs = {0..<6}"
  using default_free_pages_inv [OF ex_pmm_inv, of 6 0] ex_pmm_taken by (auto simp: linkable_def)

theorem page_alloc_free_witness:
  "\<exists>s s' s''. default_free_pages 0 6 ex_pmm = Some s \<and> default_alloc_pages 6 s = Some (Some 0, s') \<and>
     free_pages default_pmm_manager 0 6 s' = Some s'' \<and> nr_free s'' = nr_free s"
proof -
  from ex_pmm_free obtain s xs where s: "default_free_pages 0 6 ex_pmm = Some s" "pmm_inv 9 s xs"
    "free_set s xs = {0..<6}" by blast
  have "map_option fst (default_alloc_pages 6 (the (default_free_pages 0 6 ex_pmm))) = Some (Some 0)"
    by code_simp
  with s(1) obtain s' where a: "default_alloc_pages 6 s = Some (Some 0, s')" by auto
  then have "m_alloc_pages default_pmm_manager 6 s = Some (Some 0, s')"
    by (simp add: default_pmm_manager_def)
  with page_alloc_free [where m = default_pmm_manager and n = 6, OF _ s(2)] obtain ys where
    ys: "free_set s xs = free_set s' ys \<union> {0..<0 + 6}" "free_set s' ys \<inter> {0..<0 + 6} = {}" "pmm_inv 9 s' ys" and
    f: "linkable 0 ys \<longrightarrow> (\<exists>s'' zs. free_pages default_pmm_manager 0 6 s' = Some s'' \<and> pmm_inv 9 s'' zs \<and>
       free_set s'' zs = free_set s xs \<and> nr_free s'' = nr_free s)"
    by (auto split: if_splits)
  have "ys = []"
  proof (rule ccontr)
    assume "ys \<noteq> []"
    then have y: "hd ys \<in> set ys" by simp
    from pmm_invD(3) [OF ys(3) y] y have "hd ys \<in> free_set s' ys" by (auto simp: free_set_def block_def)
    moreover have "free_set s' ys = {}" using ys(1,2) unfolding s(3) by auto
    ultimately show False by simp
  qed
  with f obtain s'' where "free_pages default_pmm_manager 0 6 s' = Some s''" "nr_free s'' = nr_free s"
    by (auto simp: linkable_def)
  with s(1) a show ?thesis by blast
qed

text \<open>
  C26: Best fit returns a block of least size among those that are large enough, first fit the one of
  lowest address; both return NULL, changing nothing, exactly when no block is large enough.
\<close>

theorem allocation_policies:
  assumes inv: "pmm_inv np s xs" and n: "0 < n"
  shows "(\<exists>r s'. default_alloc_pages n s = Some (r, s') \<and>
       (case r of None \<Rightarrow> s' = s \<and> (\<forall>q \<in> set xs. page_len s q < n)
        | Some p \<Rightarrow> p \<in> set xs \<and> n \<le> page_len s p \<and> (\<forall>q \<in> set xs. n \<le> page_len s q \<longrightarrow> p \<le> q))) \<and>
    (\<exists>r s'. best_fit_alloc_pages n s = Some (r, s') \<and>
       (case r of None \<Rightarrow> s' = s \<and> (\<forall>q \<in> set xs. page_len s q < n)
        | Some p \<Rightarrow> p \<in> set xs \<and> n \<le> page_len s p \<and>
            (\<forall>q \<in> set xs. n \<le> page_len s q \<longrightarrow> page_len s p \<le> page_len s q)))"
proof (cases "n > unat (nr_free s)")
  case True
  have "page_len s p < n" if "p \<in> set xs" for p
    using block_le_total [OF that, of s] pmm_invD(7) [OF inv] True by simp
  with True n show ?thesis by (auto simp: default_alloc_pages_def best_fit_alloc_pages_def)
next
  case False
  let ?ff = "find (\<lambda>p. n \<le> page_len s p) xs" and ?m = "unat (nr_free s + 1)"
  let ?bf = "least_fit n (page_len s) ?m None xs"
  have ff: "first_fit n FreeList s = Some ?ff" and bf: "best_fit n ?m None FreeList s = Some ?bf"
    using first_fit_spec [of s "[]" xs n] best_fit_spec [of s "[]" xs n] pmm_invD(1) [OF inv] by simp_all
  have low: "p \<le> q" if p: "?ff = Some p" and q: "q \<in> set xs" "n \<le> page_len s q" for p q
  proof -
    from p obtain i where i: "i < length xs" "p = xs ! i" "\<forall>j < i. \<not> n \<le> page_len s (xs ! j)"
      by (auto simp: find_Some_iff)
    from q obtain j where j: "j < length xs" "q = xs ! j" by (auto simp: in_set_conv_nth)
    with i(3) q(2) have "i \<le> j" by (meson not_le)
    with sorted_wrt_nth_less [OF pmm_invD(2) [OF inv], of i j] i(2) j show ?thesis
      by (cases "i = j") auto
  qed
  have small: "page_len s q < ?m" if "q \<in> set xs" for q
    using block_le_total [OF that, of s] pmm_invD(7) [OF inv] min_size_start [OF inv] by simp
  have "default_alloc_pages n s = Some (case ?ff of None \<Rightarrow> (None, s) | Some p \<Rightarrow> (Some p, take_block p n s))"
    using False n ff by (auto simp: default_alloc_pages_def split: option.split)
  moreover have "best_fit_alloc_pages n s = Some (case ?bf of None \<Rightarrow> (None, s) | Some p \<Rightarrow> (Some p, take_block p n s))"
    using False n bf by (auto simp: best_fit_alloc_pages_def split: option.split)
  moreover have "case ?ff of None \<Rightarrow> \<forall>q \<in> set xs. page_len s q < n
      | Some p \<Rightarrow> p \<in> set xs \<and> n \<le> page_len s p \<and> (\<forall>q \<in> set xs. n \<le> page_len s q \<longrightarrow> p \<le> q)"
    using low by (auto simp: find_None_iff find_Some_iff not_le split: option.split)
  moreover have "case ?bf of None \<Rightarrow> \<forall>q \<in> set xs. page_len s q < n
      | Some p \<Rightarrow> p \<in> set xs \<and> n \<le> page_len s p \<and>
          (\<forall>q \<in> set xs. n \<le> page_len s q \<longrightarrow> page_len s p \<le> page_len s q)"
    using small by (auto simp: least_fit_None not_le [symmetric] dest!: least_fit_Some split: option.split)
  ultimately show ?thesis
    by (cases ?ff; cases ?bf) auto
qed

theorem allocation_policies_witness:
  "\<exists>s p s'. default_free_pages 0 6 ex_pmm = Some s \<and> default_alloc_pages 2 s = Some (Some p, s') \<and>
     2 \<le> page_len s p"
proof -
  from ex_pmm_free obtain s xs where s: "default_free_pages 0 6 ex_pmm = Some s" "pmm_inv 9 s xs" by blast
  have "map_option (\<lambda>r. fst r = Some 0) (default_alloc_pages 2 (the (default_free_pages 0 6 ex_pmm))) = Some True"
    by code_simp
  then have r: "\<exists>s'. default_alloc_pages 2 s = Some (Some 0, s')"
    using s(1) by auto
  from allocation_policies [OF s(2), of 2] have "\<exists>r s'. default_alloc_pages 2 s = Some (r, s') \<and>
       (case r of None \<Rightarrow> s' = s \<and> (\<forall>q \<in> set xs. page_len s q < 2)
        | Some p \<Rightarrow> p \<in> set xs \<and> 2 \<le> page_len s p \<and> (\<forall>q \<in> set xs. 2 \<le> page_len s q \<longrightarrow> p \<le> q))"
    by simp
  with r s show ?thesis by auto
qed

text \<open>
  When no page is free and each swap_out frees at least one, alloc_pages(1) returns, with a
  page: the retry loop ends.
\<close>

theorem alloc_pages_returns:
  assumes "m \<in> {default_pmm_manager, best_fit_pmm_manager}" and "pmm_inv np s xs"
    and "\<And>s. pmm_inv np s [] \<Longrightarrow> \<exists>s' ys. swap_out s = Some s' \<and> pmm_inv np s' ys \<and> ys \<noteq> []"
  shows "\<exists>p s' ys. alloc_pages m True swap_out 1 s = Some (Some p, s') \<and> pmm_inv np s' ys \<and> taken s' p 1"
proof (cases "m = default_pmm_manager")
  case True
  with first_fit_manager.alloc_pages_swap [OF assms(2) _ assms(3), of m] show ?thesis
    by (simp add: default_pmm_manager_def)
next
  case False
  with assms(1) best_fit_manager.alloc_pages_swap [OF assms(2) _ assms(3), of m] show ?thesis
    by (simp add: best_fit_pmm_manager_def)
qed

theorem alloc_pages_returns_witness:
  "\<exists>p s'. alloc_pages default_pmm_manager True
     (\<lambda>s. if pmm_inv 9 s [] then default_free_pages 0 1 ex_pmm else None) 1 ex_pmm = Some (Some p, s')"
proof -
  from default_free_pages_inv [OF ex_pmm_inv, of 1 0] ex_pmm_taken obtain s' ys where
    f: "default_free_pages 0 1 ex_pmm = Some s'" "pmm_inv 9 s' ys" "free_set s' ys = {0..<1}"
    by (auto simp: linkable_def)
  from f(3) have "ys \<noteq> []" by (rule contrapos_pn) simp
  with f alloc_pages_returns [OF _ ex_pmm_inv,
      of default_pmm_manager "\<lambda>s. if pmm_inv 9 s [] then default_free_pages 0 1 ex_pmm else None"]
  show ?thesis by auto
qed

text \<open>
  Freeing a block above every free block damages the list: from the well-formed state with nine
  pages handed out, free page 0, free the two pages at 4, allocate two, free page 7, allocate two.
  Both allocations return page 4.
\<close>

theorem append_damages_list:
  "pmm_inv 9 ex_pmm [] \<and> taken ex_pmm 0 9 \<and>
   map_option (\<lambda>(p, q, s). (p, q)) (do {
     s \<leftarrow> default_free_pages 0 1 ex_pmm;
     s \<leftarrow> default_free_pages 4 2 s;
     (p, s) \<leftarrow> default_alloc_pages 2 s;
     s \<leftarrow> default_free_pages 7 1 s;
     (q, s) \<leftarrow> default_alloc_pages 2 s;
     Some (p, q, s) }) = Some (Some 4, Some 4)"
  by (intro conjI ex_pmm_inv ex_pmm_taken) code_simp

text \<open>
  The second call of lab 2's best_fit_init_memmap for a higher region links a page that is not
  free: after the regions 0-1 and 4-5, the list ends with the reserved page 6.
\<close>

lemma best_fit_links_reserved_page:
  "map_option (\<lambda>s. (list_next (PLink 4) (plinks s), PageReserved 6 s, nr_free s)) (do {
     s \<leftarrow> best_fit_init_memmap 0 2 (best_fit_init (ex_pmm\<lparr>pages := (\<lambda>_. \<lparr>pg_ref = 0, pg_flags = 1, pg_property = 0\<rparr>)\<rparr>));
     best_fit_init_memmap 4 2 s }) = Some (PLink 6, True, 4)"
  by code_simp

end
