(* ===== verification/Mmu.thy ===== *)
theory Mmu
  imports Prelude
begin

text \<open>
  Addresses and page table entries: the macros of \<^verbatim>\<open>kern/mm/mmu.h\<close> and
  \<^verbatim>\<open>kern/mm/memlayout.h\<close>, and the conversions of \<^verbatim>\<open>kern/mm/pmm.h\<close> between pages, physical
  and kernel virtual addresses. Addresses and entries are 64-bit words and every shift and mask is
  the one of the source; a page is its index in the array \<^verbatim>\<open>pages\<close>. A conversion that can
  panic has \<open>None\<close> for it. The lemmas show that the conversions undo each other and that an
  entry keeps the page and the permission it was made from.
\<close>

section \<open>Splitting an address (kern/mm/mmu.h)\<close>

definition PTXSHIFT :: nat where "PTXSHIFT = 12"
definition PDX0SHIFT :: nat where "PDX0SHIFT = 21"
definition PDX1SHIFT :: nat where "PDX1SHIFT = 30"
definition PTE_PPN_SHIFT :: nat where "PTE_PPN_SHIFT = 10"
definition PGSHIFT :: nat where "PGSHIFT = 12"

definition NPTEENTRY :: nat where "NPTEENTRY = 512"
definition PTSIZE :: u64 where "PTSIZE = PGSIZE * of_nat NPTEENTRY"
definition PDSIZE :: u64 where "PDSIZE = PTSIZE * 512"

definition PDX1 :: "u64 \<Rightarrow> u64" where "PDX1 la = drop_bit PDX1SHIFT la AND 0x1FF"
definition PDX0 :: "u64 \<Rightarrow> u64" where "PDX0 la = drop_bit PDX0SHIFT la AND 0x1FF"
definition PTX :: "u64 \<Rightarrow> u64" where "PTX la = drop_bit PTXSHIFT la AND 0x1FF"
definition PPN :: "u64 \<Rightarrow> u64" where "PPN la = drop_bit PTXSHIFT la"
definition PGOFF :: "u64 \<Rightarrow> u64" where "PGOFF la = la AND 0xFFF"

definition PGADDR :: "u64 \<Rightarrow> u64 \<Rightarrow> u64 \<Rightarrow> u64 \<Rightarrow> u64" where
  "PGADDR d1 d0 t off =
     push_bit PDX1SHIFT d1 OR push_bit PDX0SHIFT d0 OR push_bit PTXSHIFT t OR off"

definition PTE_ADDR :: "u64 \<Rightarrow> u64" where
  "PTE_ADDR pte = push_bit (PTXSHIFT - PTE_PPN_SHIFT) (pte AND NOT 0x3FF)"

definition PDE_ADDR :: "u64 \<Rightarrow> u64" where "PDE_ADDR pde = PTE_ADDR pde"

definition PTE_V :: u64 where "PTE_V = 0x001"
definition PTE_R :: u64 where "PTE_R = 0x002"
definition PTE_W :: u64 where "PTE_W = 0x004"
definition PTE_X :: u64 where "PTE_X = 0x008"
definition PTE_U :: u64 where "PTE_U = 0x010"
definition READ_WRITE :: u64 where "READ_WRITE = PTE_R OR PTE_W OR PTE_V"
definition PTE_USER :: u64 where "PTE_USER = PTE_R OR PTE_W OR PTE_X OR PTE_U OR PTE_V"

text \<open>\<^verbatim>\<open>pte & PTE_V\<close> as a condition.\<close>

definition pte_valid :: "u64 \<Rightarrow> bool" where "pte_valid pte \<longleftrightarrow> pte AND PTE_V \<noteq> 0"

section \<open>The memory layout (kern/mm/memlayout.h, kern/mm/pmm.c)\<close>

definition KERNBASE :: u64 where "KERNBASE = 0xFFFFFFFFC0200000"
definition KMEMSIZE :: u64 where "KMEMSIZE = 0x7E00000"
definition KERNTOP :: u64 where "KERNTOP = KERNBASE + KMEMSIZE"
definition KERNEL_BEGIN_PADDR :: u64 where "KERNEL_BEGIN_PADDR = 0x80200000"
definition PHYSICAL_MEMORY_END :: u64 where "PHYSICAL_MEMORY_END = 0x88000000"
definition USERTOP :: u64 where "USERTOP = 0x80000000"
definition USTACKTOP :: u64 where "USTACKTOP = USERTOP"
definition USTACKPAGE :: u64 where "USTACKPAGE = 256"
definition USTACKSIZE :: u64 where "USTACKSIZE = USTACKPAGE * PGSIZE"
definition USERBASE :: u64 where "USERBASE = 0x00200000"

definition USER_ACCESS :: "u64 \<Rightarrow> u64 \<Rightarrow> bool" where
  "USER_ACCESS start fin \<longleftrightarrow> USERBASE \<le> start \<and> start < fin \<and> fin \<le> USERTOP"

definition KERN_ACCESS :: "u64 \<Rightarrow> u64 \<Rightarrow> bool" where
  "KERN_ACCESS start fin \<longleftrightarrow> KERNBASE \<le> start \<and> start < fin \<and> fin \<le> KERNTOP"

text \<open>\<^verbatim>\<open>DRAM_BASE / PGSIZE\<close>, and the offset \<^verbatim>\<open>page_init\<close> sets.\<close>

definition DRAM_BASE :: u64 where "DRAM_BASE = 0x80000000"
definition nbase :: u64 where "nbase = DRAM_BASE div PGSIZE"
definition va_pa_offset :: u64 where "va_pa_offset = KERNBASE - 0x80200000"

section \<open>Pages and addresses (kern/mm/pmm.h)\<close>

definition PADDR :: "u64 \<Rightarrow> u64 option" where
  "PADDR kva = (if kva < KERNBASE then None else Some (kva - va_pa_offset))"

definition KADDR :: "u64 \<Rightarrow> u64 \<Rightarrow> u64 option" where
  "KADDR npage pa = (if PPN pa \<ge> npage then None else Some (pa + va_pa_offset))"

definition page2ppn :: "nat \<Rightarrow> u64" where
  "page2ppn page = of_nat page + nbase"

definition page2pa :: "nat \<Rightarrow> u64" where
  "page2pa page = push_bit PGSHIFT (page2ppn page)"

definition pa2page :: "u64 \<Rightarrow> u64 \<Rightarrow> nat option" where
  "pa2page npage pa = (if PPN pa \<ge> npage then None else Some (unat (PPN pa - nbase)))"

definition page2kva :: "u64 \<Rightarrow> nat \<Rightarrow> u64 option" where
  "page2kva npage page = KADDR npage (page2pa page)"

definition kva2page :: "u64 \<Rightarrow> u64 \<Rightarrow> nat option" where
  "kva2page npage kva = PADDR kva \<bind> pa2page npage"

definition pte2page :: "u64 \<Rightarrow> u64 \<Rightarrow> nat option" where
  "pte2page npage pte = (if \<not> pte_valid pte then None else pa2page npage (PTE_ADDR pte))"

definition pde2page :: "u64 \<Rightarrow> u64 \<Rightarrow> nat option" where
  "pde2page npage pde = pa2page npage (PDE_ADDR pde)"

text \<open>The type of the last argument is \<^verbatim>\<open>int\<close>, widened with its sign.\<close>

definition pte_create :: "u64 \<Rightarrow> s32 \<Rightarrow> u64" where
  "pte_create ppn type = push_bit PTE_PPN_SHIFT ppn OR PTE_V OR scast type"

definition ptd_create :: "u64 \<Rightarrow> u64" where
  "ptd_create ppn = pte_create ppn (ucast PTE_V)"

lemmas shift_defs [simp] = PTXSHIFT_def PDX0SHIFT_def PDX1SHIFT_def PTE_PPN_SHIFT_def PGSHIFT_def

section \<open>Address lemmas\<close>

lemma bit_imp_less: "unat (w :: 'a::len word) < 2 ^ k \<Longrightarrow> bit w n \<Longrightarrow> n < k"
  by (metis bit_take_bit_iff take_bit_nat_eq_self unsigned_take_bit_eq word_unat_eq_iff)

lemma mask_consts: "(0x1FF :: u64) = mask 9" "(0x3FF :: u64) = mask 10" "(0xFFF :: u64) = mask 12"
  by (simp_all add: mask_eq_exp_minus_1)

lemma and_consts:
  "x AND (0x1FF :: u64) = take_bit 9 x" "x AND (0xFFF :: u64) = take_bit 12 x"
  by (simp_all add: mask_consts take_bit_eq_mask)

lemmas addr_field_defs = PDX1_def PDX0_def PTX_def PPN_def PGOFF_def PGADDR_def

lemma unat_fields:
  "unat (PDX1 la) = unat la div 2 ^ 30 mod 512" "unat (PDX0 la) = unat la div 2 ^ 21 mod 512"
  "unat (PTX la) = unat la div 2 ^ 12 mod 512" "unat (PPN la) = unat la div 2 ^ 12"
  "unat (PGOFF la) = unat la mod 4096"
  by (simp_all add: addr_field_defs and_consts take_bit_eq_mod drop_bit_eq_div unat_div_distrib
      unat_mod_distrib)

lemma PGADDR_fields:
  assumes "unat la < 2 ^ 39"
  shows "PGADDR (PDX1 la) (PDX0 la) (PTX la) (PGOFF la) = la"
proof (rule bit_word_eqI)
  fix n assume n: "n < LENGTH(64)"
  have "take_bit 39 la = la"
    using assms by (simp add: word_unat_eq_iff unsigned_take_bit_eq take_bit_nat_eq_self)
  then have "bit la n \<Longrightarrow> n < 39" by (metis bit_take_bit_iff)
  with n show "bit (PGADDR (PDX1 la) (PDX0 la) (PTX la) (PGOFF la)) n = bit la n"
    by (cases "n < 12"; cases "n < 21"; cases "n < 30")
      (auto simp: addr_field_defs and_consts bit_or_iff bit_push_bit_iff bit_take_bit_iff bit_drop_bit_eq)
qed

lemma fields_PGADDR:
  assumes "d1 < 512" "d0 < 512" "t < 512" "off < 4096"
  shows "PDX1 (PGADDR d1 d0 t off) = d1" "PDX0 (PGADDR d1 d0 t off) = d0"
    "PTX (PGADDR d1 d0 t off) = t" "PGOFF (PGADDR d1 d0 t off) = off"
proof -
  note small = bit_imp_less
  have ge: "\<not> bit d1 (n + 9)" "\<not> bit d0 (n + 9)" "\<not> bit t (n + 9)" "\<not> bit off (n + 12)" for n
    using small [of d1 9 "n + 9"] small [of d0 9 "n + 9"] small [of t 9 "n + 9"]
      small [of off 12 "n + 12"] assms by (auto simp: word_less_nat_alt)
  have lt: "bit d1 n \<Longrightarrow> n < 9" "bit d0 n \<Longrightarrow> n < 9" "bit t n \<Longrightarrow> n < 9" "bit off n \<Longrightarrow> n < 12" for n
    using small [of d1 9 n] small [of d0 9 n] small [of t 9 n] small [of off 12 n] assms
    by (simp_all add: word_less_nat_alt)
  have b: "bit (PGADDR d1 d0 t off) n \<longleftrightarrow> n < 64 \<and>
      (30 \<le> n \<and> bit d1 (n - 30) \<or> 21 \<le> n \<and> bit d0 (n - 21) \<or> 12 \<le> n \<and> bit t (n - 12) \<or> bit off n)" for n
    using lt(4) [of n] by (auto simp: PGADDR_def bit_or_iff bit_push_bit_iff)
  note bits = bit_take_bit_iff bit_drop_bit_eq comp_def b shift_defs
  have "bit (PDX1 (PGADDR d1 d0 t off)) n = bit d1 n" for n
    using lt(1) [of n] ge(2) [of n] ge(3) [of "n + 9"] ge(4) [of "n + 18"]
    by (auto simp: PDX1_def and_consts bits add.commute)
  then show "PDX1 (PGADDR d1 d0 t off) = d1" by (intro bit_word_eqI) blast
  have "bit (PDX0 (PGADDR d1 d0 t off)) n = bit d0 n" for n
    using lt(2) [of n] ge(3) [of n] ge(4) [of "n + 9"]
    by (auto simp: PDX0_def and_consts bits add.commute)
  then show "PDX0 (PGADDR d1 d0 t off) = d0" by (intro bit_word_eqI) blast
  have "bit (PTX (PGADDR d1 d0 t off)) n = bit t n" for n
    using lt(3) [of n] ge(4) [of n]
    by (auto simp: PTX_def and_consts bits add.commute)
  then show "PTX (PGADDR d1 d0 t off) = t" by (intro bit_word_eqI) blast
  have "bit (PGOFF (PGADDR d1 d0 t off)) n = bit off n" for n
    using lt(4) [of n] by (auto simp: PGOFF_def and_consts bits)
  then show "PGOFF (PGADDR d1 d0 t off) = off" by (intro bit_word_eqI) blast
qed

section \<open>Pages, addresses and entries\<close>

text \<open>The page \<open>p\<close> is one of the machine's \<open>npage\<close> pages.\<close>

definition page_ok :: "u64 \<Rightarrow> nat \<Rightarrow> bool" where
  "page_ok npage p \<longleftrightarrow> p + 0x80000 < unat npage \<and> unat npage \<le> 0xC0000"

lemma nbase_eq: "nbase = 0x80000"
  by (simp add: nbase_def DRAM_BASE_def PGSIZE_def)

lemma unat_page2ppn: "page_ok npage p \<Longrightarrow> unat (page2ppn p) = p + 0x80000"
  by (simp add: page_ok_def page2ppn_def nbase_eq unat_word_ariths unsigned_of_nat take_bit_nat_eq_self)

lemma unat_page2pa: "page_ok npage p \<Longrightarrow> unat (page2pa p) = (p + 0x80000) * 4096"
  using unat_page2ppn [of npage p]
  by (auto simp: page2pa_def push_bit_eq_mult unat_word_ariths page_ok_def)

lemma PPN_page2pa: "page_ok npage p \<Longrightarrow> PPN (page2pa p) = page2ppn p"
  by (simp add: word_unat_eq_iff unat_fields unat_page2pa unat_page2ppn)

lemma page_ok_npage: "page_ok npage p \<Longrightarrow> \<not> npage \<le> page2ppn p"
  by (auto simp: word_le_nat_alt unat_page2ppn page_ok_def)

lemma pa2page_page2pa: "page_ok npage p \<Longrightarrow> pa2page npage (page2pa p) = Some p"
  by (simp add: pa2page_def PPN_page2pa page_ok_npage)
    (simp add: page2ppn_def page_ok_def unsigned_of_nat take_bit_nat_eq_self)

lemma page2kva_eq: "page_ok npage p \<Longrightarrow> page2kva npage p = Some (page2pa p + va_pa_offset)"
  by (simp add: page2kva_def KADDR_def PPN_page2pa page_ok_npage)

lemma unat_va_pa_offset: "unat va_pa_offset = 0xFFFFFFFF40000000"
  by (simp add: va_pa_offset_def KERNBASE_def)

lemma unat_page2kva:
  assumes "page_ok npage p"
  shows "unat (page2pa p + va_pa_offset) = (p + 0x80000) * 4096 + 0xFFFFFFFF40000000"
  using assms by (simp add: unat_word_ariths unat_page2pa unat_va_pa_offset page_ok_def)

lemma kva2page_page2kva:
  assumes "page_ok npage p" and "0x200 \<le> p"
  shows "kva2page npage (page2pa p + va_pa_offset) = Some p"
  using assms unat_page2kva [OF assms(1)] pa2page_page2pa [OF assms(1)]
  by (simp add: kva2page_def PADDR_def word_less_nat_alt KERNBASE_def)

lemma PTE_ADDR_bits:
  "bit (PTE_ADDR pte) n \<longleftrightarrow> n < 64 \<and> 12 \<le> n \<and> bit pte (n - 2)"
  by (auto simp: PTE_ADDR_def mask_consts bit_push_bit_iff bit_and_iff bit_not_iff bit_mask_iff)

lemma scast_perm:
  assumes "unat (ty :: s32) < 1024"
  shows "(scast ty :: u64) = ucast ty"
proof (rule bit_word_eqI)
  fix n assume "n < LENGTH(64)"
  then show "bit (scast ty :: u64) n = bit (ucast ty :: u64) n"
    using bit_imp_less [of ty 10 "min 31 n"] bit_imp_less [of ty 10 n] assms
    by (auto simp: bit_signed_iff bit_unsigned_iff min_def split: if_splits)
qed

lemma unat_scast_perm: "unat (ty :: s32) < 1024 \<Longrightarrow> unat (scast ty :: u64) = unat ty"
  by (simp add: scast_perm unsigned_ucast_eq take_bit_nat_eq_self)

lemma PTE_ADDR_create:
  assumes "page_ok npage p" and "unat (ty :: s32) < 1024"
  shows "PTE_ADDR (pte_create (page2ppn p) ty) = page2pa p"
proof (rule bit_word_eqI)
  fix n assume n: "n < LENGTH(64)"
  have "unat (page2ppn p) < 2 ^ 20"
    using assms(1) by (simp add: unat_page2ppn [OF assms(1)] page_ok_def)
  note p = bit_imp_less [OF this]
  have q: "bit (scast ty :: u64) m \<Longrightarrow> m < 10" for m
    using bit_imp_less [of "scast ty :: u64" 10 m] assms(2) by (simp add: unat_scast_perm)
  show "bit (PTE_ADDR (pte_create (page2ppn p) ty)) n = bit (page2pa p) n"
    using n q [of "n - 2"] p [of "n - 12"]
    by (auto simp: PTE_ADDR_bits pte_create_def page2pa_def bit_or_iff bit_push_bit_iff PTE_V_def bit_1_iff)
qed

lemma pte_valid_create [simp]: "pte_valid (pte_create ppn ty)"
proof -
  have "bit (pte_create ppn ty AND PTE_V) 0"
    by (simp add: pte_create_def PTE_V_def bit_and_iff bit_or_iff)
  then show ?thesis by (auto simp: pte_valid_def)
qed

lemma pte2page_create:
  assumes "page_ok npage p" and "unat (ty :: s32) < 1024"
  shows "pte2page npage (pte_create (page2ppn p) ty) = Some p"
  using assms by (simp add: pte2page_def PTE_ADDR_create pa2page_page2pa)

lemma flags_create: "unat (ty :: s32) < 1024 \<Longrightarrow> pte_create ppn ty AND 0x3FF = PTE_V OR ucast ty"
proof (rule bit_word_eqI)
  fix n assume "unat ty < 1024" and n: "n < LENGTH(64)"
  then show "bit (pte_create ppn ty AND 0x3FF) n = bit (PTE_V OR ucast ty) n"
    using bit_imp_less [of ty 10 n]
    by (auto simp: pte_create_def mask_consts scast_perm bit_and_iff bit_or_iff bit_push_bit_iff
        bit_mask_iff bit_unsigned_iff PTE_V_def bit_1_iff)
qed

section \<open>Properties\<close>

text \<open>
  PGADDR puts together exactly the addresses the three index macros and PGOFF take apart: it
  rebuilds every Sv39 address from its fields, and the fields of an address built from a directory
  index, a level 0 index, a table index and an offset in range are these four.
\<close>

theorem address_roundtrip:
  assumes "unat la < 2 ^ 39" and "d1 < 512" "d0 < 512" "t < 512" "off < 4096"
  shows "PGADDR (PDX1 la) (PDX0 la) (PTX la) (PGOFF la) = la \<and>
    PDX1 (PGADDR d1 d0 t off) = d1 \<and> PDX0 (PGADDR d1 d0 t off) = d0 \<and>
    PTX (PGADDR d1 d0 t off) = t \<and> PGOFF (PGADDR d1 d0 t off) = off"
  using PGADDR_fields [OF assms(1)] fields_PGADDR [OF assms(2-5)] by simp

theorem address_roundtrip_witness:
  "PGADDR (PDX1 0x7FFFEABC) (PDX0 0x7FFFEABC) (PTX 0x7FFFEABC) (PGOFF 0x7FFFEABC) = 0x7FFFEABC \<and>
   PDX0 (PGADDR 1 511 510 7) = 511"
  using address_roundtrip [of "0x7FFFEABC" 1 511 510 7] by simp

text \<open>
  C34: A page table entry made for a page of the machine with any of the ten flag bits is valid,
  leads back to that page and carries exactly these flags and PTE_V; the kernel address of the page
  and its physical address lead back to it too, the kernel address for pages from KERNBASE on.
\<close>

theorem page_entry_roundtrip:
  assumes "page_ok npage p" and "unat perm < 1024"
  shows "pte2page npage (pte_create (page2ppn p) perm) = Some p \<and>
    pte_create (page2ppn p) perm AND 0x3FF = PTE_V OR ucast perm \<and>
    pa2page npage (page2pa p) = Some p \<and>
    (\<exists>kva. page2kva npage p = Some kva \<and> (0x200 \<le> p \<longrightarrow> kva2page npage kva = Some p))"
  using assms by (simp add: pte2page_create flags_create pa2page_page2pa page2kva_eq kva2page_page2kva)

theorem page_entry_roundtrip_witness:
  "pte2page 0x88000 (pte_create (page2ppn 0x345) 0x1F) = Some 0x345 \<and>
   (\<exists>kva. page2kva 0x88000 0x345 = Some kva \<and> kva2page 0x88000 kva = Some 0x345)"
  using page_entry_roundtrip [of "0x88000" "0x345" "0x1F"] by (auto simp: page_ok_def)

end
