(* ===== verification/Paging.thy ===== *)
theory Paging
  imports Pmm Mmu
begin

text \<open>
  The page tables of \<^verbatim>\<open>kern/mm/pmm.c\<close>: walking and building the three levels, inserting and
  removing a mapping, and the operations on ranges that \<^verbatim>\<open>exit_mmap\<close> and \<^verbatim>\<open>dup_mmap\<close> use.
  \<open>kmem\<close> is the memory by words at kernel virtual addresses; a pointer to an entry is such an
  address. The functions that allocate take the allocator \<open>alloc\<close>, the effect of
  \<^verbatim>\<open>alloc_page()\<close>, as an argument: with and without swapping it is a different function of
  the state. The result \<open>None\<close> is a failed assertion or a panic.
\<close>

section \<open>State\<close>

datatype pra_node = PraHead | PraLink nat

record ide_device =
  dev_valid :: bool
  dev_size :: u32
  iobase :: u64

text \<open>
  \<open>tlb\<close> holds the translations the processor may have cached, by page number. \<open>check_mm\<close>
  is \<^verbatim>\<open>check_mm_struct\<close>, by its page directory; \<open>pra\<close> are the links
  \<^verbatim>\<open>pra_page_link\<close> of the pages and \<^verbatim>\<open>pra_list_head\<close>.
\<close>

record vmem =
  pm :: pmm
  kmem :: "u64 \<Rightarrow> u64"
  npage :: u64
  tlb :: "u64 \<Rightarrow> u64 option"
  swap_init_ok :: bool
  check_mm :: "u64 option"
  pra :: "pra_node links"
  pra_vaddr :: "nat \<Rightarrow> u64"
  swap_dev :: ide_device
  max_swap_offset :: u64

definition upd_pm :: "(pmm \<Rightarrow> pmm) \<Rightarrow> vmem \<Rightarrow> vmem" where
  "upd_pm f s = s\<lparr>pm := f (pm s)\<rparr>"

definition store :: "u64 \<Rightarrow> u64 \<Rightarrow> vmem \<Rightarrow> vmem" where
  "store a v s = s\<lparr>kmem := (kmem s)(a := v)\<rparr>"

text \<open>\<^verbatim>\<open>memset(kva, 0, PGSIZE)\<close> and \<^verbatim>\<open>memcpy(dst, src, PGSIZE)\<close> by words.\<close>

definition zero_page :: "u64 \<Rightarrow> vmem \<Rightarrow> vmem" where
  "zero_page kva s = s\<lparr>kmem := (\<lambda>a. if a - kva < PGSIZE then 0 else kmem s a)\<rparr>"

definition copy_page :: "u64 \<Rightarrow> u64 \<Rightarrow> vmem \<Rightarrow> vmem" where
  "copy_page dst src s = s\<lparr>kmem := (\<lambda>a. if a - dst < PGSIZE then kmem s (a - dst + src) else kmem s a)\<rparr>"

text \<open>The index of an array of entries.\<close>

definition entry :: "u64 \<Rightarrow> u64 \<Rightarrow> u64" where
  "entry table i = table + 8 * i"

section \<open>Pages\<close>

type_synonym page_alloc = "vmem \<Rightarrow> (nat option \<times> vmem) option"

text \<open>\<^verbatim>\<open>alloc_page()\<close> as long as no page has to be swapped out.\<close>

definition alloc_page :: page_alloc where
  "alloc_page s = map_option (\<lambda>(r, m). (r, s\<lparr>pm := m\<rparr>))
     (alloc_pages default_pmm_manager False (\<lambda>_. None) 1 (pm s))"

definition free_page :: "nat \<Rightarrow> vmem \<Rightarrow> vmem option" where
  "free_page page s = map_option (\<lambda>m. s\<lparr>pm := m\<rparr>) (free_pages default_pmm_manager page 1 (pm s))"

definition page_ref :: "nat \<Rightarrow> vmem \<Rightarrow> int" where
  "page_ref page s = pg_ref (pages (pm s) page)"

definition page_ref_inc :: "nat \<Rightarrow> vmem \<Rightarrow> vmem" where
  "page_ref_inc page s = upd_pm (set_page_ref page (page_ref page s + 1)) s"

definition page_ref_dec :: "nat \<Rightarrow> vmem \<Rightarrow> vmem" where
  "page_ref_dec page s = upd_pm (set_page_ref page (page_ref page s - 1)) s"

definition tlb_invalidate :: "u64 \<Rightarrow> vmem \<Rightarrow> vmem" where
  "tlb_invalidate la s = s\<lparr>tlb := (tlb s)(PPN la := None)\<rparr>"

section \<open>Walking the tables\<close>

text \<open>
  The body of the two \<^verbatim>\<open>if (!(*pdep & PTE_V))\<close> of \<^verbatim>\<open>get_pte\<close>, for the entry at
  \<open>pdep\<close>; the first component is false when the function returns \<^verbatim>\<open>NULL\<close>.
\<close>

definition alloc_table :: "page_alloc \<Rightarrow> u64 \<Rightarrow> bool \<Rightarrow> vmem \<Rightarrow> (bool \<times> vmem) option" where
  "alloc_table alloc pdep create s =
     (if pte_valid (kmem s pdep) then Some (True, s)
      else if \<not> create then Some (False, s)
      else do {
        (page, s) \<leftarrow> alloc s;
        case page of None \<Rightarrow> Some (False, s)
        | Some page \<Rightarrow> do {
            let s = upd_pm (set_page_ref page 1) s;
            kva \<leftarrow> KADDR (npage s) (page2pa page);
            let s = zero_page kva s;
            Some (True, store pdep (pte_create (page2ppn page) (ucast (PTE_U OR PTE_V))) s) } })"

definition get_pte ::
  "page_alloc \<Rightarrow> u64 \<Rightarrow> u64 \<Rightarrow> bool \<Rightarrow> vmem \<Rightarrow> (u64 option \<times> vmem) option"
where
  "get_pte alloc pgdir la create s = do {
     let pdep1 = entry pgdir (PDX1 la);
     (ok, s) \<leftarrow> alloc_table alloc pdep1 create s;
     if \<not> ok then Some (None, s)
     else do {
       table \<leftarrow> KADDR (npage s) (PDE_ADDR (kmem s pdep1));
       let pdep0 = entry table (PDX0 la);
       (ok, s) \<leftarrow> alloc_table alloc pdep0 create s;
       if \<not> ok then Some (None, s)
       else do {
         table \<leftarrow> KADDR (npage s) (PDE_ADDR (kmem s pdep0));
         Some (Some (entry table (PTX la)), s) } } }"

definition no_alloc :: page_alloc where "no_alloc s = None"

text \<open>\<^verbatim>\<open>get_pte(pgdir, la, 0)\<close>, which allocates nothing and changes nothing.\<close>

definition find_pte :: "u64 \<Rightarrow> u64 \<Rightarrow> vmem \<Rightarrow> u64 option option" where
  "find_pte pgdir la s = map_option fst (get_pte no_alloc pgdir la False s)"

definition get_page :: "u64 \<Rightarrow> u64 \<Rightarrow> vmem \<Rightarrow> (nat option \<times> u64 option) option" where
  "get_page pgdir la s = do {
     ptep \<leftarrow> find_pte pgdir la s;
     case ptep of None \<Rightarrow> Some (None, ptep)
     | Some p \<Rightarrow>
         if pte_valid (kmem s p) then map_option (\<lambda>page. (Some page, ptep)) (pte2page (npage s) (kmem s p))
         else Some (None, ptep) }"

section \<open>Mapping the kernel\<close>

text \<open>
  \<^verbatim>\<open>boot_map_segment\<close>: the entries are written without counting the pages. The loop runs
  \<open>n\<close> times; a missing table that cannot be had fails the assertion.
\<close>

fun boot_map_pages ::
  "page_alloc \<Rightarrow> u64 \<Rightarrow> nat \<Rightarrow> u64 \<Rightarrow> u64 \<Rightarrow> u32 \<Rightarrow> vmem \<Rightarrow> vmem option"
where
  "boot_map_pages alloc pgdir 0 la pa perm s = Some s"
| "boot_map_pages alloc pgdir (Suc n) la pa perm s = do {
     (ptep, s) \<leftarrow> get_pte alloc pgdir la True s;
     ptep \<leftarrow> ptep;
     let s = store ptep (pte_create (drop_bit PGSHIFT pa) (ucast PTE_V OR perm)) s;
     boot_map_pages alloc pgdir n (la + PGSIZE) (pa + PGSIZE) perm s }"

definition boot_map_segment ::
  "page_alloc \<Rightarrow> u64 \<Rightarrow> u64 \<Rightarrow> u64 \<Rightarrow> u64 \<Rightarrow> u32 \<Rightarrow> vmem \<Rightarrow> vmem option"
where
  "boot_map_segment alloc pgdir la sz pa perm s = do {
     kassert (PGOFF la = PGOFF pa);
     let n = ROUNDUP (sz + PGOFF la) PGSIZE div PGSIZE;
     boot_map_pages alloc pgdir (unat n) (ROUNDDOWN la PGSIZE) (ROUNDDOWN pa PGSIZE) perm s }"

section \<open>Mappings\<close>

definition page_remove_pte :: "u64 \<Rightarrow> u64 \<Rightarrow> vmem \<Rightarrow> vmem option" where
  "page_remove_pte la ptep s =
     (if pte_valid (kmem s ptep) then do {
        page \<leftarrow> pte2page (npage s) (kmem s ptep);
        let s = page_ref_dec page s;
        s \<leftarrow> (if page_ref page s = 0 then free_page page s else Some s);
        Some (tlb_invalidate la (store ptep 0 s)) }
      else Some s)"

definition page_remove :: "u64 \<Rightarrow> u64 \<Rightarrow> vmem \<Rightarrow> vmem option" where
  "page_remove pgdir la s = do {
     ptep \<leftarrow> find_pte pgdir la s;
     case ptep of None \<Rightarrow> Some s | Some ptep \<Rightarrow> page_remove_pte la ptep s }"

definition page_insert ::
  "page_alloc \<Rightarrow> u64 \<Rightarrow> nat \<Rightarrow> u64 \<Rightarrow> u32 \<Rightarrow> vmem \<Rightarrow> (int \<times> vmem) option"
where
  "page_insert alloc pgdir page la perm s = do {
     (ptep, s) \<leftarrow> get_pte alloc pgdir la True s;
     case ptep of None \<Rightarrow> Some (- E_NO_MEM, s)
     | Some ptep \<Rightarrow> do {
         let s = page_ref_inc page s;
         s \<leftarrow> (if pte_valid (kmem s ptep) then do {
                 p \<leftarrow> pte2page (npage s) (kmem s ptep);
                 if p = page then Some (page_ref_dec page s) else page_remove_pte la ptep s }
               else Some s);
         let s = store ptep (pte_create (page2ppn page) (ucast PTE_V OR perm)) s;
         Some (0, tlb_invalidate la s) } }"

text \<open>
  \<^verbatim>\<open>_fifo_map_swappable\<close>, the manager \<^verbatim>\<open>swap_init\<close> installs; its list is the same for
  every \<^verbatim>\<open>mm\<close>.
\<close>

definition fifo_map_swappable :: "nat \<Rightarrow> vmem \<Rightarrow> vmem" where
  "fifo_map_swappable page s = s\<lparr>pra := list_add_before PraHead (PraLink page) (pra s)\<rparr>"

definition pgdir_alloc_page ::
  "page_alloc \<Rightarrow> u64 \<Rightarrow> u64 \<Rightarrow> u32 \<Rightarrow> vmem \<Rightarrow> (nat option \<times> vmem) option"
where
  "pgdir_alloc_page alloc pgdir la perm s = do {
     (page, s) \<leftarrow> alloc s;
     case page of None \<Rightarrow> Some (None, s)
     | Some page \<Rightarrow> do {
         (ret, s) \<leftarrow> page_insert alloc pgdir page la perm s;
         if ret \<noteq> 0 then do { s \<leftarrow> free_page page s; Some (None, s) }
         else if swap_init_ok s \<and> check_mm s \<noteq> None then do {
           let s = fifo_map_swappable page s;
           let s = s\<lparr>pra_vaddr := (pra_vaddr s)(page := la)\<rparr>;
           kassert (page_ref page s = 1);
           Some (Some page, s) }
         else Some (Some page, s) } }"

section \<open>Ranges\<close>

text \<open>
  The next address a range loop looks at when the table of \<open>start\<close> is missing. The loops test
  their condition at the end, also after a \<^verbatim>\<open>continue\<close>.
\<close>

definition next_table :: "u64 \<Rightarrow> u64" where
  "next_table start = ROUNDDOWN (start + PTSIZE) PTSIZE"

partial_function (option) unmap_loop :: "u64 \<Rightarrow> u64 \<Rightarrow> u64 \<Rightarrow> vmem \<Rightarrow> vmem option" where
  "unmap_loop pgdir start fin s = do {
     ptep \<leftarrow> find_pte pgdir start s;
     (start, s) \<leftarrow> (case ptep of None \<Rightarrow> Some (next_table start, s)
       | Some ptep \<Rightarrow> do {
           s \<leftarrow> (if kmem s ptep \<noteq> 0 then page_remove_pte start ptep s else Some s);
           Some (start + PGSIZE, s) });
     if start \<noteq> 0 \<and> start < fin then unmap_loop pgdir start fin s else Some s }"

declare unmap_loop.simps [code]

definition unmap_range :: "u64 \<Rightarrow> u64 \<Rightarrow> u64 \<Rightarrow> vmem \<Rightarrow> vmem option" where
  "unmap_range pgdir start fin s = do {
     kassert (start mod PGSIZE = 0 \<and> fin mod PGSIZE = 0);
     kassert (USER_ACCESS start fin);
     unmap_loop pgdir start fin s }"

text \<open>The loop of \<^verbatim>\<open>exit_range\<close> over the entries of one table.\<close>

definition table_empty :: "u64 \<Rightarrow> vmem \<Rightarrow> bool" where
  "table_empty pt s \<longleftrightarrow> list_all (\<lambda>i. \<not> pte_valid (kmem s (entry pt (of_nat i)))) [0..<NPTEENTRY]"

partial_function (option) exit_tables ::
  "u64 \<Rightarrow> u64 \<Rightarrow> u64 \<Rightarrow> u64 \<Rightarrow> bool \<Rightarrow> vmem \<Rightarrow> (bool \<times> vmem) option"
where
  "exit_tables pd0 d1start fin d0start free_pd0 s = do {
     let pde0 = kmem s (entry pd0 (PDX0 d0start));
     (free_pd0, s) \<leftarrow> (if pte_valid pde0 then do {
         page \<leftarrow> pde2page (npage s) pde0;
         pt \<leftarrow> page2kva (npage s) page;
         if table_empty pt s then do {
           s \<leftarrow> free_page page s;
           Some (free_pd0, store (entry pd0 (PDX0 d0start)) 0 s) }
         else Some (free_pd0, s) }
       else Some (False, s));
     let d0start = d0start + PTSIZE;
     if d0start \<noteq> 0 \<and> d0start < d1start + PDSIZE \<and> d0start < fin
     then exit_tables pd0 d1start fin d0start free_pd0 s else Some (free_pd0, s) }"

declare exit_tables.simps [code]

partial_function (option) exit_loop :: "u64 \<Rightarrow> u64 \<Rightarrow> u64 \<Rightarrow> u64 \<Rightarrow> vmem \<Rightarrow> vmem option" where
  "exit_loop pgdir fin d1start d0start s = do {
     let pde1 = kmem s (entry pgdir (PDX1 d1start));
     s \<leftarrow> (if pte_valid pde1 then do {
         page \<leftarrow> pde2page (npage s) pde1;
         pd0 \<leftarrow> page2kva (npage s) page;
         (free_pd0, s) \<leftarrow> exit_tables pd0 d1start fin d0start True s;
         if free_pd0 then do {
           s \<leftarrow> free_page page s;
           Some (store (entry pgdir (PDX1 d1start)) 0 s) }
         else Some s }
       else Some s);
     let d1start = d1start + PDSIZE;
     if d1start \<noteq> 0 \<and> d1start < fin then exit_loop pgdir fin d1start d1start s else Some s }"

declare exit_loop.simps [code]

definition exit_range :: "u64 \<Rightarrow> u64 \<Rightarrow> u64 \<Rightarrow> vmem \<Rightarrow> vmem option" where
  "exit_range pgdir start fin s = do {
     kassert (start mod PGSIZE = 0 \<and> fin mod PGSIZE = 0);
     kassert (USER_ACCESS start fin);
     exit_loop pgdir fin (ROUNDDOWN start PDSIZE) (ROUNDDOWN start PTSIZE) s }"

text \<open>Copying one page of the range, for the valid entry at \<open>ptep\<close>.\<close>

definition copy_one :: "page_alloc \<Rightarrow> u64 \<Rightarrow> u64 \<Rightarrow> u64 \<Rightarrow> vmem \<Rightarrow> (int \<times> vmem) option" where
  "copy_one alloc dir start ptep s = do {
     (nptep, s) \<leftarrow> get_pte alloc dir start True s;
     case nptep of None \<Rightarrow> Some (- E_NO_MEM, s)
     | Some _ \<Rightarrow> do {
         let perm = ucast (kmem s ptep AND PTE_USER);
         page \<leftarrow> pte2page (npage s) (kmem s ptep);
         (np, s) \<leftarrow> alloc s;
         np \<leftarrow> np;
         kva_src \<leftarrow> page2kva (npage s) page;
         kva_dst \<leftarrow> page2kva (npage s) np;
         let s = copy_page kva_dst kva_src s;
         (ret, s) \<leftarrow> page_insert alloc dir np start perm s;
         kassert (ret = 0);
         Some (0, s) } }"

partial_function (option) copy_loop ::
  "page_alloc \<Rightarrow> u64 \<Rightarrow> u64 \<Rightarrow> u64 \<Rightarrow> u64 \<Rightarrow> vmem \<Rightarrow> (int \<times> vmem) option"
where
  "copy_loop alloc dir src start fin s = do {
     ptep \<leftarrow> find_pte src start s;
     (ret, start, s) \<leftarrow> (case ptep of None \<Rightarrow> Some (0, next_table start, s)
       | Some ptep \<Rightarrow>
           if pte_valid (kmem s ptep)
           then map_option (\<lambda>(ret, s). (ret, start + PGSIZE, s)) (copy_one alloc dir start ptep s)
           else Some (0, start + PGSIZE, s));
     if ret \<noteq> 0 then Some (ret, s)
     else if start \<noteq> 0 \<and> start < fin then copy_loop alloc dir src start fin s
     else Some (0, s) }"

declare copy_loop.simps [code]

definition copy_range ::
  "page_alloc \<Rightarrow> u64 \<Rightarrow> u64 \<Rightarrow> u64 \<Rightarrow> u64 \<Rightarrow> vmem \<Rightarrow> (int \<times> vmem) option"
where
  "copy_range alloc dir src start fin s = do {
     kassert (start mod PGSIZE = 0 \<and> fin mod PGSIZE = 0);
     kassert (USER_ACCESS start fin);
     copy_loop alloc dir src start fin s }"

end
