(* ===== verification/Page_Supply.thy ===== *)
theory Page_Supply
  imports Paging
begin

text \<open>
  Page frames as the page tables see them. \<open>frames s F A\<close> says that the free list of the
  allocator is well formed and holds the pages \<open>F\<close>, and that the pages \<open>A\<close> are in use. The
  locale \<open>page_supply\<close> is the contract the page table code relies on: what an allocation takes
  from \<open>F\<close>, and that it leaves memory and reference counts alone. It is interpreted on
  \<open>alloc_page\<close>; \<open>free_page_law\<close> is the counterpart for \<open>free_page\<close>.
\<close>

section \<open>What the allocator leaves alone\<close>

definition same_page :: "nat \<Rightarrow> pmm \<Rightarrow> pmm \<Rightarrow> bool" where
  "same_page q s s' \<longleftrightarrow> pg_ref (pages s' q) = pg_ref (pages s q) \<and> (PageReserved q s' \<longleftrightarrow> PageReserved q s)"

lemma same_page_refl [simp]: "same_page q s s"
  by (simp add: same_page_def)

lemma same_page_trans: "same_page q s t \<Longrightarrow> same_page q t u \<Longrightarrow> same_page q s u"
  by (simp add: same_page_def)

lemma same_page_simps [simp]:
  "same_page q s (upd_links f t) = same_page q s t" "same_page q s (t\<lparr>nr_free := n\<rparr>) = same_page q s t"
  "same_page q s (set_property p v t) = same_page q s t" "same_page q s (SetPageProperty p t) = same_page q s t"
  "same_page q s (ClearPageProperty p t) = same_page q s t"
  by (auto simp: same_page_def set_property_def SetPageProperty_def ClearPageProperty_def PageReserved_def
      bit_set_bit_iff bit_unset_bit_iff)

lemma take_block_same: "same_page q s (take_block p n s)"
  by (simp add: take_block_def Let_def)

lemma join_blocks_same: "same_page q s (join_blocks p p' t) = same_page q s t"
  by (simp add: join_blocks_def Let_def)

lemma merge_same: "same_page q s (merge_next p t) = same_page q s t"
  "same_page q s (snd (merge_prev p t)) = same_page q s t"
  by (simp_all add: merge_next_def merge_prev_def Let_def join_blocks_same)

lemma insert_block_pages: "insert_block base le s = Some s' \<Longrightarrow> pages s' = pages s"
proof (erule insert_block.raw_induct [where P = "\<lambda>base le s s'. pages s' = pages s", rotated])
  fix f base le s s'
  assume "\<And>le s b y. f le s b = Some y \<Longrightarrow> pages y = pages b"
    and "(let le = list_next le (plinks s) in
      if le = FreeList then Some s
      else if base < le2page le then Some (upd_links (list_add_before le (PLink base)) s)
      else if list_next le (plinks s) = FreeList
        then f base le (upd_links (list_add le (PLink base)) s)
      else f base le s) = Some s'"
  then show "pages s' = pages s" by (fastforce simp: Let_def split: if_splits)
qed

lemma link_block_pages: "link_block base s = Some s' \<Longrightarrow> pages s' = pages s"
  by (auto simp: link_block_def split: if_splits dest: insert_block_pages)

lemma reset_pages_same:
  "reset_pages p n s = Some s' \<Longrightarrow> q \<notin> {p ..< p + n} \<Longrightarrow> same_page q s s'"
proof (induction p n s rule: reset_pages.induct)
  case (2 p n s)
  then have "same_page q (set_page_ref p 0 (upd_page p (\<lambda>g. g\<lparr>pg_flags := 0\<rparr>) s)) s'" by simp
  moreover have "same_page q s (set_page_ref p 0 (upd_page p (\<lambda>g. g\<lparr>pg_flags := 0\<rparr>) s))"
    using 2(3) by (auto simp: same_page_def set_page_ref_def PageReserved_def)
  ultimately show ?case by (rule same_page_trans [rotated])
qed simp

lemma reset_pages_ref:
  "reset_pages p n s = Some s' \<Longrightarrow> pg_ref (pages s' q) = (if q \<in> {p ..< p + n} then 0 else pg_ref (pages s q))"
proof (induction p n s rule: reset_pages.induct)
  case (2 p n s)
  then have "pg_ref (pages s' q) = (if q \<in> {Suc p ..< Suc p + n} then 0
    else pg_ref (pages (set_page_ref p 0 (upd_page p (\<lambda>g. g\<lparr>pg_flags := 0\<rparr>) s)) q))" by simp
  then show ?case by (auto simp: set_page_ref_def)
qed simp

lemma same_page_pages: "pages t = pages u \<Longrightarrow> same_page q s t = same_page q s u"
  by (simp add: same_page_def PageReserved_def)

lemma default_free_pages_same:
  assumes "default_free_pages base n s = Some s'" and "q \<notin> {base ..< base + n}"
  shows "same_page q s s'"
proof -
  from assms(1) obtain s1 s2 where
    s1: "reset_pages base n s = Some s1" and
    s2: "link_block base ((SetPageProperty base (set_property base (of_nat n) s1))\<lparr>nr_free := nr_free s1 + of_nat n\<rparr>) = Some s2"
    and s': "s' = merge_next (fst (merge_prev base s2)) (snd (merge_prev base s2))"
    by (auto simp: default_free_pages_def option_bind_eq_Some Let_def case_prod_unfold)
  show ?thesis
    unfolding s' merge_same same_page_pages [OF link_block_pages [OF s2]]
    using reset_pages_same [OF s1 assms(2)] by simp
qed

lemma default_free_pages_ref:
  assumes "default_free_pages base n s = Some s'" and "q \<in> {base ..< base + n}"
  shows "pg_ref (pages s' q) = 0"
proof -
  from assms(1) obtain s1 s2 where
    s1: "reset_pages base n s = Some s1" and
    s2: "link_block base ((SetPageProperty base (set_property base (of_nat n) s1))\<lparr>nr_free := nr_free s1 + of_nat n\<rparr>) = Some s2"
    and s': "s' = merge_next (fst (merge_prev base s2)) (snd (merge_prev base s2))"
    by (auto simp: default_free_pages_def option_bind_eq_Some Let_def case_prod_unfold)
  have "same_page q s1 s'"
    unfolding s' merge_same same_page_pages [OF link_block_pages [OF s2]] by simp
  then show ?thesis using reset_pages_ref [OF s1, of q] assms(2) by (simp add: same_page_def)
qed

lemma default_alloc_pages_same: "default_alloc_pages n s = Some (r, s') \<Longrightarrow> same_page q s s'"
  by (auto simp: default_alloc_pages_def option_bind_eq_Some take_block_same split: if_splits option.splits)

section \<open>Frames\<close>

definition frames :: "vmem \<Rightarrow> nat set \<Rightarrow> nat set \<Rightarrow> bool" where
  "frames s F A \<longleftrightarrow> (\<exists>np xs. pmm_inv np (pm s) xs \<and> np + 0x80000 \<le> unat (npage s) \<and>
     unat (npage s) \<le> 0xC0000 \<and> free_set (pm s) xs = F \<and> F \<inter> A = {} \<and>
     (\<forall>p \<in> A. p < np \<and> \<not> PageReserved p (pm s)))"

lemma frames_page_ok: "frames s F A \<Longrightarrow> p \<in> F \<union> A \<Longrightarrow> page_ok (npage s) p"
proof -
  assume fr: "frames s F A" and p: "p \<in> F \<union> A"
  from fr obtain np xs where inv: "pmm_inv np (pm s) xs" and np: "np + 0x80000 \<le> unat (npage s)"
    "unat (npage s) \<le> 0xC0000" and F: "free_set (pm s) xs = F" and A: "\<forall>p \<in> A. p < np"
    unfolding frames_def by blast
  have "F \<subseteq> {..<np}"
    using free_set_below [of xs "pm s" np, OF pmm_invD(4) [OF inv]] F by simp
  with A p have "p < np" by auto
  with np show ?thesis by (simp add: page_ok_def)
qed

lemma frames_finite: "frames s F A \<Longrightarrow> finite F"
  by (auto simp: frames_def)

lemma flags_ref [simp]:
  "PageReserved q (set_page_ref p v m) = PageReserved q m" "PageProperty q (set_page_ref p v m) = PageProperty q m"
  by (simp_all add: PageReserved_def PageProperty_def set_page_ref_def)

lemma free_set_ref [simp]: "free_set (set_page_ref p v m) xs = free_set m xs"
  by (simp add: free_set_def block_def)

lemma pmm_inv_ref [simp]: "pmm_inv np (set_page_ref p v m) xs = pmm_inv np m xs"
  by (simp add: pmm_inv_def)

lemma frames_simps [simp]:
  "frames (store a v s) F A = frames s F A" "frames (zero_page a s) F A = frames s F A"
  "frames (copy_page a b s) F A = frames s F A" "frames (tlb_invalidate la s) F A = frames s F A"
  "frames (page_ref_inc p s) F A = frames s F A" "frames (page_ref_dec p s) F A = frames s F A"
  "frames (upd_pm (set_page_ref p k) s) F A = frames s F A"
  "frames (s\<lparr>pra := l\<rparr>) F A = frames s F A" "frames (s\<lparr>pra_vaddr := r\<rparr>) F A = frames s F A"
  by (simp_all add: frames_def store_def zero_page_def copy_page_def tlb_invalidate_def page_ref_inc_def
      page_ref_dec_def upd_pm_def)

text \<open>The free list must be empty or have a page above the freed one (see \<open>linkable\<close>).\<close>

definition fits :: "nat \<Rightarrow> nat set \<Rightarrow> bool" where
  "fits p F \<longleftrightarrow> F = {} \<or> (\<exists>f \<in> F. p < f)"

lemma linkable_fits:
  assumes inv: "pmm_inv np m xs" and p: "p \<notin> free_set m xs" "fits p (free_set m xs)"
  shows "linkable p xs"
proof (cases "xs = []")
  case False
  note i = pmm_invD [OF inv]
  from False i(3) [of "hd xs"] have "hd xs \<in> free_set m xs"
    by (auto simp: free_set_def block_def)
  with p(2) obtain f where "f \<in> free_set m xs" "p < f" by (auto simp: fits_def)
  then obtain h where h: "h \<in> set xs" "h \<le> f" "f < h + page_len m h" by (auto simp: free_set_def block_def)
  have "p < h"
    using h p(1) \<open>p < f\<close> by (force simp: free_set_def block_def)
  moreover have "h \<le> last xs"
  proof -
    obtain us vs where xs: "xs = us @ h # vs" using h(1) by (meson split_list)
    show ?thesis using i(2) unfolding xs by (cases vs rule: rev_cases) (auto simp: sorted_wrt_append)
  qed
  ultimately show ?thesis by (simp add: linkable_def)
qed (simp add: linkable_def)

section \<open>The contract of the allocator\<close>

text \<open>Only the allocator's own state differs between \<open>s\<close> and \<open>s'\<close>.\<close>

definition same_memory :: "vmem \<Rightarrow> vmem \<Rightarrow> bool" where
  "same_memory s s' \<longleftrightarrow> s' = s\<lparr>pm := pm s'\<rparr>"

definition alloc_post :: "vmem \<Rightarrow> nat set \<Rightarrow> nat set \<Rightarrow> nat option \<times> vmem \<Rightarrow> bool" where
  "alloc_post s F A r = (case r of (None, s') \<Rightarrow> F = {} \<and> s' = s
     | (Some p, s') \<Rightarrow> p \<in> F \<and> frames s' (F - {p}) (insert p A) \<and> same_memory s s' \<and>
         (\<forall>q. page_ref q s' = page_ref q s))"

locale page_supply =
  fixes alloc :: page_alloc
  assumes alloc_law: "frames s F A \<Longrightarrow> (swap_init_ok s \<longrightarrow> F \<noteq> {}) \<Longrightarrow>
    \<exists>r. alloc s = Some r \<and> alloc_post s F A r"

lemma alloc_page_law:
  assumes fr: "frames s F A"
  shows "\<exists>r. alloc_page s = Some r \<and> alloc_post s F A r"
proof -
  from fr obtain np xs where inv: "pmm_inv np (pm s) xs" and np: "np + 0x80000 \<le> unat (npage s)"
    "unat (npage s) \<le> 0xC0000" and F: "free_set (pm s) xs = F" "F \<inter> A = {}" and
    A: "\<And>p. p \<in> A \<Longrightarrow> p < np \<and> \<not> PageReserved p (pm s)" unfolding frames_def by blast
  from first_fit_manager.alloc_law [OF inv, of 1] obtain r m where
    a: "default_alloc_pages 1 (pm s) = Some (r, m)" and
    post: "case r of None \<Rightarrow> m = pm s \<and> (\<forall>p \<in> set xs. page_len (pm s) p < 1)
       | Some p \<Rightarrow> \<exists>ys. pmm_inv np m ys \<and> taken m p 1 \<and> p + 1 \<le> np \<and>
           free_set (pm s) xs = free_set m ys \<union> {p ..< p + 1} \<and> free_set m ys \<inter> {p ..< p + 1} = {}" by auto
  have res: "alloc_page s = Some (r, s\<lparr>pm := m\<rparr>)"
    using a by (simp add: alloc_page_def default_pmm_manager_def alloc_pages.simps [of _ False])
  have "alloc_post s F A (r, s\<lparr>pm := m\<rparr>)"
  proof (cases r)
    case None
    with post have "xs = []"
      using pmm_invD(3) [OF inv, of "hd xs"] by (cases xs) auto
    with None post F show ?thesis by (simp add: alloc_post_def)
  next
    case (Some p)
    with post obtain ys where ys: "pmm_inv np m ys" "taken m p 1" "p + 1 \<le> np"
      "F = free_set m ys \<union> {p ..< p + 1}" "free_set m ys \<inter> {p ..< p + 1} = {}" using F by auto
    note same = default_alloc_pages_same [OF a, unfolded same_page_def]
    have "frames (s\<lparr>pm := m\<rparr>) (F - {p}) (insert p A)"
      unfolding frames_def using ys np F(2) A same
      by (intro exI [of _ np] exI [of _ ys]) (auto simp: taken_def)
    then show ?thesis using Some ys(4) same by (simp add: alloc_post_def same_memory_def page_ref_def)
  qed
  with res show ?thesis by blast
qed

interpretation boot_supply: page_supply alloc_page
  by unfold_locales (rule alloc_page_law)

lemma free_page_law:
  assumes fr: "frames s F A" and p: "p \<in> A" "fits p F"
  obtains s' where "free_page p s = Some s'" and "frames s' (insert p F) (A - {p})" and "same_memory s s'"
    and "\<And>q. page_ref q s' = (if q = p then 0 else page_ref q s)"
proof -
  from fr obtain np xs where inv: "pmm_inv np (pm s) xs" and np: "np + 0x80000 \<le> unat (npage s)"
    "unat (npage s) \<le> 0xC0000" and F: "free_set (pm s) xs = F" "F \<inter> A = {}" and
    A: "\<And>p. p \<in> A \<Longrightarrow> p < np \<and> \<not> PageReserved p (pm s)" unfolding frames_def by blast
  have nf: "p \<notin> F" "p < np" using p F A by auto
  have tk: "taken (pm s) p 1"
  proof -
    have "p \<notin> set xs" using nf pmm_invD(3) [OF inv, of p] by (auto simp: F(1) [symmetric] free_set_def block_def)
    then show ?thesis using A [OF p(1)] pmm_invD(5) [OF inv, of p] by (simp add: taken_def)
  qed
  have lk: "linkable p xs" by (rule linkable_fits [OF inv]) (use nf p F in auto)
  from first_fit_manager.free_law [OF inv, of 1 p] nf F lk tk obtain m ys where
    m: "default_free_pages p 1 (pm s) = Some m" "pmm_inv np m ys" "free_set m ys = insert p F"
    by auto
  note same = default_free_pages_same [OF m(1), unfolded same_page_def]
  show ?thesis
  proof (rule that [of "s\<lparr>pm := m\<rparr>"])
    show "free_page p s = Some (s\<lparr>pm := m\<rparr>)"
      using m(1) by (simp add: free_page_def free_pages_def default_pmm_manager_def)
    show "frames (s\<lparr>pm := m\<rparr>) (insert p F) (A - {p})"
      unfolding frames_def using m np F(2) A same
      by (intro exI [of _ np] exI [of _ ys]) auto
  qed (use same default_free_pages_ref [OF m(1)] in \<open>simp_all add: same_memory_def page_ref_def\<close>)
qed

end
