(* ===== verification/Kmalloc.thy ===== *)
theory Kmalloc
  imports Page_Supply
begin

text \<open>
  The kernel's allocator of small objects, \<^verbatim>\<open>kern/mm/kmalloc.c\<close>: a first-fit allocator over a
  circular list of free blocks in the order of their addresses (\<open>slob_alloc\<close>, \<open>slob_free\<close>), and
  \<^verbatim>\<open>kmalloc\<close> and \<^verbatim>\<open>kfree\<close> on it, with whole pages for large requests. An address is a
  natural number, \<open>sl_units\<close> and \<open>sl_next\<close> are the two fields of a block header at an address, and
  pointer arithmetic is in units of 16 bytes. The list of large blocks is a list of its nodes. Pages
  come from the physical page allocator, before swapping is set up. Interrupt locks are left out. The
  result \<open>None\<close> is a failed assertion, or a loop that does not end; the address 0 is \<^verbatim>\<open>NULL\<close>.
\<close>

section \<open>State\<close>

record bigblock =
  bb_at :: nat
  bb_order :: nat
  bb_pages :: nat

record slob =
  sl_units :: "nat \<Rightarrow> nat"
  sl_next :: "nat \<Rightarrow> nat"
  slobfree :: nat
  bigblocks :: "bigblock list"
  slob_pm :: pmm

definition PAGE_SIZE :: nat where "PAGE_SIZE = 4096"
definition SLOB_UNIT :: nat where "SLOB_UNIT = 16"
definition SLOB_UNITS :: "nat \<Rightarrow> nat" where "SLOB_UNITS sz = (sz + SLOB_UNIT - 1) div SLOB_UNIT"
definition BIGBLOCK_SIZE :: nat where "BIGBLOCK_SIZE = 24"

text \<open>For a power of two.\<close>

definition slob_align :: "nat \<Rightarrow> nat \<Rightarrow> nat" where
  "slob_align addr sz = (addr + sz - 1) div sz * sz"

definition upd_units :: "nat \<Rightarrow> nat \<Rightarrow> slob \<Rightarrow> slob" where
  "upd_units a n st = st\<lparr>sl_units := (sl_units st)(a := n)\<rparr>"

definition upd_next :: "nat \<Rightarrow> nat \<Rightarrow> slob \<Rightarrow> slob" where
  "upd_next a b st = st\<lparr>sl_next := (sl_next st)(a := b)\<rparr>"

text \<open>The static variables: the list holds only \<^verbatim>\<open>arena\<close>.\<close>

definition slob0 :: "nat \<Rightarrow> pmm \<Rightarrow> slob" where
  "slob0 arena p = \<lparr>sl_units = (\<lambda>_. 0)(arena := 1), sl_next = (\<lambda>_. 0)(arena := arena), slobfree = arena,
     bigblocks = [], slob_pm = p\<rparr>"

section \<open>Pages\<close>

definition slob_get_free_pages :: "u64 \<Rightarrow> nat \<Rightarrow> slob \<Rightarrow> (nat \<times> slob) option" where
  "slob_get_free_pages npg order st = do {
     (page, m) \<leftarrow> alloc_pages default_pmm_manager False (\<lambda>_. None) (2 ^ order) (slob_pm st);
     let st = st\<lparr>slob_pm := m\<rparr>;
     case page of
       None \<Rightarrow> Some (0, st)
     | Some p \<Rightarrow> do { va \<leftarrow> page2kva npg p; Some (unat va, st) } }"

definition slob_free_pages :: "u64 \<Rightarrow> nat \<Rightarrow> nat \<Rightarrow> slob \<Rightarrow> slob option" where
  "slob_free_pages npg kva order st = do {
     page \<leftarrow> kva2page npg (of_nat kva);
     m \<leftarrow> free_pages default_pmm_manager page (2 ^ order) (slob_pm st);
     Some (st\<lparr>slob_pm := m\<rparr>) }"

section \<open>The free list\<close>

text \<open>The search of \<^verbatim>\<open>slob_free\<close> for the block after which \<open>b\<close> goes.\<close>

partial_function (option) slob_find :: "nat \<Rightarrow> nat \<Rightarrow> slob \<Rightarrow> nat option" where
  "slob_find b cur st =
     (let nx = sl_next st cur in
      if b > cur \<and> b < nx then Some cur
      else if cur \<ge> nx \<and> (b > cur \<or> b < nx) then Some cur
      else slob_find b nx st)"

declare slob_find.simps [code]

definition slob_free :: "nat \<Rightarrow> nat \<Rightarrow> slob \<Rightarrow> slob option" where
  "slob_free b sz st =
     (if b = 0 then Some st
      else do {
        let st = (if sz \<noteq> 0 then upd_units b (SLOB_UNITS sz) st else st);
        cur \<leftarrow> slob_find b (slobfree st) st;
        let nx = sl_next st cur;
        let st = (if b + SLOB_UNIT * sl_units st b = nx
          then upd_next b (sl_next st nx) (upd_units b (sl_units st b + sl_units st nx) st)
          else upd_next b nx st);
        let st = (if cur + SLOB_UNIT * sl_units st cur = b
          then upd_next cur (sl_next st b) (upd_units cur (sl_units st cur + sl_units st b) st)
          else upd_next cur b st);
        Some (st\<lparr>slobfree := cur\<rparr>) })"

text \<open>The part of \<^verbatim>\<open>slob_alloc\<close> once the block \<open>cur\<close> after \<open>prev\<close> is large enough.\<close>

definition slob_take :: "nat \<Rightarrow> nat \<Rightarrow> nat \<Rightarrow> nat \<Rightarrow> nat \<Rightarrow> slob \<Rightarrow> nat \<times> slob" where
  "slob_take units aligned delta prev cur st =
     (let (prev, cur, st) =
        (if delta \<noteq> 0
         then (cur, aligned, upd_units cur delta (upd_next cur aligned
           (upd_next aligned (sl_next st cur) (upd_units aligned (sl_units st cur - delta) st))))
         else (prev, cur, st));
      st = (if sl_units st cur = units then upd_next prev (sl_next st cur) st
         else let rest = cur + SLOB_UNIT * units;
                  st = upd_next prev rest st;
                  st = upd_units rest (sl_units st cur - units) st;
                  st = upd_next rest (sl_next st cur) st
              in upd_units cur units st)
      in (cur, st\<lparr>slobfree := prev\<rparr>))"

partial_function (option) slob_alloc_loop ::
  "u64 \<Rightarrow> nat \<Rightarrow> nat \<Rightarrow> nat \<Rightarrow> nat \<Rightarrow> nat \<Rightarrow> slob \<Rightarrow> (nat \<times> slob) option"
where
  "slob_alloc_loop npg sz units align prev cur st =
     (let aligned = (if align \<noteq> 0 then slob_align cur align else 0);
          delta = (if align \<noteq> 0 then (aligned - cur) div SLOB_UNIT else 0) in
      if sl_units st cur \<ge> units + delta then Some (slob_take units aligned delta prev cur st)
      else if cur = slobfree st then
        if sz = PAGE_SIZE then Some (0, st)
        else do {
          (page, st) \<leftarrow> slob_get_free_pages npg 0 st;
          if page = 0 then Some (0, st)
          else do {
            st \<leftarrow> slob_free page PAGE_SIZE st;
            let cur = slobfree st;
            slob_alloc_loop npg sz units align cur (sl_next st cur) st } }
      else slob_alloc_loop npg sz units align cur (sl_next st cur) st)"

declare slob_alloc_loop.simps [code]

definition slob_alloc :: "u64 \<Rightarrow> nat \<Rightarrow> nat \<Rightarrow> slob \<Rightarrow> (nat \<times> slob) option" where
  "slob_alloc npg sz align st = do {
     kassert (sz + SLOB_UNIT < PAGE_SIZE);
     let prev = slobfree st;
     slob_alloc_loop npg sz (SLOB_UNITS sz) align prev (sl_next st prev) st }"

section \<open>kmalloc and kfree\<close>

text \<open>The parameter is an \<^verbatim>\<open>int\<close>.\<close>

function find_order :: "int \<Rightarrow> nat" where
  "find_order sz = (if sz > 4096 then Suc (find_order (sz div 2)) else 0)"
  by pat_completeness auto
termination by (relation "measure nat") auto

declare find_order.simps [simp del]

definition kmalloc :: "u64 \<Rightarrow> nat \<Rightarrow> slob \<Rightarrow> (nat \<times> slob) option" where
  "kmalloc npg sz st =
     (if sz < PAGE_SIZE - SLOB_UNIT then do {
        (m, st) \<leftarrow> slob_alloc npg (sz + SLOB_UNIT) 0 st;
        Some (if m \<noteq> 0 then m + SLOB_UNIT else 0, st) }
      else do {
        (bb, st) \<leftarrow> slob_alloc npg BIGBLOCK_SIZE 0 st;
        if bb = 0 then Some (0, st)
        else do {
          let order = find_order (sint (of_nat sz :: 32 word));
          (pgs, st) \<leftarrow> slob_get_free_pages npg order st;
          if pgs \<noteq> 0
          then Some (pgs, st\<lparr>bigblocks := \<lparr>bb_at = bb, bb_order = order, bb_pages = pgs\<rparr> # bigblocks st\<rparr>)
          else do { st \<leftarrow> slob_free bb BIGBLOCK_SIZE st; Some (0, st) } } })"

definition kfree :: "u64 \<Rightarrow> nat \<Rightarrow> slob \<Rightarrow> slob option" where
  "kfree npg p st =
     (if p = 0 then Some st
      else case (if p mod PAGE_SIZE = 0 then find (\<lambda>bb. bb_pages bb = p) (bigblocks st) else None) of
        Some bb \<Rightarrow> do {
          st \<leftarrow> slob_free_pages npg p (bb_order bb) (st\<lparr>bigblocks := remove1 bb (bigblocks st)\<rparr>);
          slob_free (bb_at bb) BIGBLOCK_SIZE st }
      | None \<Rightarrow> slob_free (p - SLOB_UNIT) 0 st)"

definition ksize :: "nat \<Rightarrow> slob \<Rightarrow> nat" where
  "ksize p st =
     (if p = 0 then 0
      else case (if p mod PAGE_SIZE = 0 then find (\<lambda>bb. bb_pages bb = p) (bigblocks st) else None) of
        Some bb \<Rightarrow> PAGE_SIZE * 2 ^ bb_order bb
      | None \<Rightarrow> sl_units st (p - SLOB_UNIT) * SLOB_UNIT)"

section \<open>Rings\<close>

text \<open>In the set \<open>S\<close> of addresses \<open>c\<close> comes after \<open>a\<close>, and after the last the first.\<close>

definition after :: "nat set \<Rightarrow> nat \<Rightarrow> nat \<Rightarrow> bool" where
  "after S a c \<longleftrightarrow> c \<in> S \<and> (a < c \<and> (\<forall>b \<in> S. b \<le> a \<or> c \<le> b) \<or> (\<forall>b \<in> S. c \<le> b \<and> b \<le> a))"

definition ring :: "(nat \<Rightarrow> nat) \<Rightarrow> nat set \<Rightarrow> bool" where
  "ring nx S \<longleftrightarrow> finite S \<and> (\<forall>a \<in> S. after S a (nx a))"

lemma ringD:
  assumes "ring nx S" and "a \<in> S"
  shows "nx a \<in> S" and "after S a (nx a)"
  using assms by (auto simp: ring_def after_def)

lemma after_insert_new: "after S c d \<Longrightarrow> b \<notin> S \<Longrightarrow> c < b \<and> b < d \<or> d \<le> c \<and> (c < b \<or> b < d) \<Longrightarrow> after (insert b S) b d"
  unfolding after_def by (metis insert_iff linorder_not_less order.order_iff_strict order.trans)

lemma after_insert_old: "after S c d \<Longrightarrow> c \<in> S \<Longrightarrow> b \<notin> S \<Longrightarrow> c < b \<and> b < d \<or> d \<le> c \<and> (c < b \<or> b < d) \<Longrightarrow> after (insert b S) c b"
  unfolding after_def by (metis insert_iff linorder_not_less order.order_iff_strict order.trans)

lemma after_insert_other:
  "after S c d \<Longrightarrow> c \<in> S \<Longrightarrow> b \<notin> S \<Longrightarrow> c < b \<and> b < d \<or> d \<le> c \<and> (c < b \<or> b < d) \<Longrightarrow> after S a e \<Longrightarrow> a \<in> S \<Longrightarrow> a \<noteq> c
   \<Longrightarrow> after (insert b S) a e"
  unfolding after_def by (smt (verit) insert_iff linorder_not_less order.order_iff_strict order.trans)

lemma after_remove_pred:
  "after S c b \<Longrightarrow> after S b d \<Longrightarrow> c \<in> S \<Longrightarrow> b \<in> S \<Longrightarrow> c \<noteq> b \<Longrightarrow> after (S - {b}) c d"
  unfolding after_def by (smt (verit) Diff_iff singletonD singletonI linorder_not_less order.order_iff_strict order.trans)

lemma after_unique: "after S a c \<Longrightarrow> after S b c \<Longrightarrow> a \<in> S \<Longrightarrow> b \<in> S \<Longrightarrow> a = b"
  unfolding after_def by (smt (verit) linorder_not_less order.order_iff_strict order.trans)

lemma ring_insert:
  assumes r: "ring nx S" and "c \<in> S" and "b \<notin> S" and "c < b \<and> b < nx c \<or> nx c \<le> c \<and> (c < b \<or> b < nx c)"
  shows "ring (nx(b := nx c, c := b)) (insert b S)"
  using assms after_insert_new [OF ringD(2) [OF r]] after_insert_old [OF ringD(2) [OF r]]
    after_insert_other [OF ringD(2) [OF r] _ _ _ ringD(2) [OF r]]
  by (auto simp: ring_def)

lemma ring_remove:
  assumes r: "ring nx S" and "c \<in> S" and "nx c = b" and "c \<noteq> b"
  shows "ring (nx(c := nx b)) (S - {b})"
  unfolding ring_def
proof (intro conjI ballI)
  show "finite (S - {b})" using r by (simp add: ring_def)
next
  fix a
  assume a: "a \<in> S - {b}"
  have b: "b \<in> S" using ringD(1) [OF r assms(2)] assms(3) by simp
  show "after (S - {b}) a ((nx(c := nx b)) a)"
  proof (cases "a = c")
    case True
    have "after S c b" using ringD(2) [OF r assms(2)] assms(3) by simp
    then show ?thesis using after_remove_pred [OF _ ringD(2) [OF r b] assms(2) b assms(4)] True by simp
  next
    case False
    have "after S a (nx a)" "after S c (nx c)" using ringD(2) [OF r] a assms(2) by auto
    then have "nx a \<noteq> b" using after_unique [of S a "nx a" c] assms(2,3) a False by auto
    then show ?thesis using ringD(2) [OF r, of a] a False by (auto simp: after_def)
  qed
qed

text \<open>Going round the ring to \<open>t\<close>.\<close>

lemma ring_induct:
  assumes r: "ring nx S" and t: "t \<in> S" and base: "P t"
    and step: "\<And>a. a \<in> S \<Longrightarrow> a \<noteq> t \<Longrightarrow> P (nx a) \<Longrightarrow> P a" and a: "a \<in> S"
  shows "P a"
proof -
  have fin: "finite S" using r by (simp add: ring_def)
  have below: "P a" if "a \<in> S" "a \<le> t" for a
    using that
  proof (induction "card {b \<in> S. a < b \<and> b \<le> t}" arbitrary: a rule: less_induct)
    case less
    show ?case
    proof (cases "a = t")
      case False
      then have at: "a < t" using less.prems by simp
      then have s: "a < nx a" "nx a \<le> t" "nx a \<in> S"
        using ringD(2) [OF r less.prems(1)] t by (auto simp: after_def)
      have "{b \<in> S. nx a < b \<and> b \<le> t} \<subset> {b \<in> S. a < b \<and> b \<le> t}" using s by auto
      then have "card {b \<in> S. nx a < b \<and> b \<le> t} < card {b \<in> S. a < b \<and> b \<le> t}"
        using fin by (intro psubset_card_mono) auto
      from less.hyps [OF this s(3,2)] step [OF less.prems(1) False] show ?thesis by simp
    qed (use base in simp)
  qed
  show ?thesis
    using a
  proof (induction "card {b \<in> S. a < b}" arbitrary: a rule: less_induct)
    case less
    note n = ringD [OF r less.prems]
    show ?case
    proof (cases "a < nx a \<and> a \<noteq> t")
      case True
      then have "{b \<in> S. nx a < b} \<subset> {b \<in> S. a < b}" using n(1) by auto
      then have "card {b \<in> S. nx a < b} < card {b \<in> S. a < b}" using fin by (intro psubset_card_mono) auto
      from less.hyps [OF this n(1)] step [OF less.prems] True show ?thesis by simp
    next
      case False
      then have "a = t \<or> nx a \<le> t" using n(2) t by (auto simp: after_def)
      then show ?thesis using base step [OF less.prems] below [OF n(1)] by blast
    qed
  qed
qed
section \<open>The free list\<close>

text \<open>The bytes of a block, and the list of the blocks at the addresses \<open>S\<close>.\<close>

definition ublock :: "(nat \<Rightarrow> nat) \<Rightarrow> nat \<Rightarrow> nat set" where
  "ublock un a = {a ..< a + SLOB_UNIT * un a}"

definition free_bytes :: "slob \<Rightarrow> nat set \<Rightarrow> nat set" where
  "free_bytes st S = (\<Union>a \<in> S. ublock (sl_units st) a)"

definition flist :: "slob \<Rightarrow> nat set \<Rightarrow> bool" where
  "flist st S \<longleftrightarrow> ring (sl_next st) S \<and> (\<forall>a \<in> S. 0 < sl_units st a) \<and>
     (\<forall>a \<in> S. \<forall>b \<in> S. a < b \<longrightarrow> a + SLOB_UNIT * sl_units st a \<le> b)"

lemma flistD:
  assumes "flist st S"
  shows "ring (sl_next st) S" and "\<And>a. a \<in> S \<Longrightarrow> 0 < sl_units st a"
    and "\<And>a b. a \<in> S \<Longrightarrow> b \<in> S \<Longrightarrow> a < b \<Longrightarrow> a + SLOB_UNIT * sl_units st a \<le> b"
  using assms by (auto simp: flist_def)

lemma upd_slob_simps [simp]:
  "sl_units (upd_units a n st) = (sl_units st)(a := n)" "sl_next (upd_units a n st) = sl_next st"
  "slobfree (upd_units a n st) = slobfree st" "bigblocks (upd_units a n st) = bigblocks st"
  "slob_pm (upd_units a n st) = slob_pm st"
  "sl_units (upd_next a b st) = sl_units st" "sl_next (upd_next a b st) = (sl_next st)(a := b)"
  "slobfree (upd_next a b st) = slobfree st" "bigblocks (upd_next a b st) = bigblocks st"
  "slob_pm (upd_next a b st) = slob_pm st"
  by (simp_all add: upd_units_def upd_next_def)

lemma SLOB_UNIT_simp [simp]: "SLOB_UNIT = 16"
  by (simp add: SLOB_UNIT_def)

lemma ublock_start: "0 < un a \<Longrightarrow> a \<in> ublock un a"
  by (simp add: ublock_def)

lemma mem_ublock: "x \<in> ublock un a \<longleftrightarrow> a \<le> x \<and> x < a + 16 * un a"
  by (simp add: ublock_def)

lemma intervals_apart:
  fixes a b m k :: nat
  assumes "{a ..< a + m} \<inter> {b ..< b + k} = {}" and "0 < m" and "0 < k"
  shows "a + m \<le> b \<or> b + k \<le> a"
proof (rule ccontr)
  assume "\<not> ?thesis"
  then have "max a b \<in> {a ..< a + m} \<inter> {b ..< b + k}" using assms(2,3) by auto
  with assms(1) show False by simp
qed

text \<open>The blocks that are used elsewhere stay as they are.\<close>

definition units_kept :: "slob \<Rightarrow> slob \<Rightarrow> nat set \<Rightarrow> bool" where
  "units_kept st st' F \<longleftrightarrow> (\<forall>a. a \<notin> F \<longrightarrow> sl_units st' a = sl_units st a)"

definition same_heap :: "slob \<Rightarrow> slob \<Rightarrow> bool" where
  "same_heap st st' \<longleftrightarrow> bigblocks st' = bigblocks st \<and> slob_pm st' = slob_pm st"

lemma slob_find_spec:
  assumes r: "ring (sl_next st) S" and b: "b \<notin> S" and start: "slobfree st \<in> S"
  obtains cur where "slob_find b (slobfree st) st = Some cur" and "cur \<in> S"
    and "cur < b \<and> b < sl_next st cur \<or> sl_next st cur \<le> cur \<and> (cur < b \<or> b < sl_next st cur)"
proof -
  let ?nx = "sl_next st"
  define P where "P a \<longleftrightarrow> (\<exists>cur \<in> S. slob_find b a st = Some cur \<and>
    (cur < b \<and> b < ?nx cur \<or> ?nx cur \<le> cur \<and> (cur < b \<or> b < ?nx cur)))" for a
  have S: "finite S" "S \<noteq> {}" using r start by (auto simp: ring_def)
  have stop: "P a" if "a \<in> S" "a < b \<and> b < ?nx a \<or> ?nx a \<le> a \<and> (a < b \<or> b < ?nx a)" for a
    using that unfolding P_def by (intro bexI [of _ a]) (auto simp: slob_find.simps [of b a] Let_def)
  have go: "P a" if "P (?nx a)" "a \<in> S" for a
  proof (cases "a < b \<and> b < ?nx a \<or> ?nx a \<le> a \<and> (a < b \<or> b < ?nx a)")
    case False
    then have "slob_find b a st = slob_find b (?nx a) st" by (auto simp: slob_find.simps [of b a] Let_def)
    with that(1) show ?thesis by (simp add: P_def)
  qed (use stop that(2) in blast)
  have "\<exists>t \<in> S. t < b \<and> b < ?nx t \<or> ?nx t \<le> t \<and> (t < b \<or> b < ?nx t)"
  proof (cases "\<exists>a \<in> S. a < b")
    case True
    define t where "t = Max {a \<in> S. a < b}"
    have "Max {a \<in> S. a < b} \<in> {a \<in> S. a < b}" using True S(1) by (intro Max_in) auto
    then have t: "t \<in> S" "t < b" by (auto simp: t_def)
    have "a \<le> t" if "a \<in> S" "a < b" for a using that S(1) by (auto simp: t_def)
    then have "b < ?nx t \<or> ?nx t \<le> t" using ringD [OF r t(1)] b t(2) by (metis linorder_not_less order.order_iff_strict)
    with t show ?thesis by blast
  next
    case False
    have "Max S \<in> S" using S by (intro Max_in)
    moreover from this ringD [OF r this] have "?nx (Max S) \<le> Max S" using S(1) by auto
    moreover have "b < ?nx (Max S)" using ringD(1) [OF r \<open>Max S \<in> S\<close>] b False by (metis linorder_neqE_nat)
    ultimately show ?thesis by blast
  qed
  then obtain t where "t \<in> S" and "P t" using stop by blast
  then have "P (slobfree st)" using ring_induct [OF r _ _ _ start, of t P] go by blast
  then show ?thesis using that by (auto simp: P_def)
qed
lemma flist_link:
  assumes fl: "flist st S" and cur: "cur \<in> S" and u: "0 < sl_units st b"
    and gap: "cur < b \<and> b < sl_next st cur \<or> sl_next st cur \<le> cur \<and> (cur < b \<or> b < sl_next st cur)"
    and apart: "ublock (sl_units st) b \<inter> free_bytes st S = {}"
  shows "flist (upd_next cur b (upd_next b (sl_next st cur) st)) (insert b S)" and "b \<notin> S"
proof -
  note d = flistD [OF fl]
  have b: "a + 16 * sl_units st a \<le> b \<or> b + 16 * sl_units st b \<le> a" if "a \<in> S" for a
  proof (rule intervals_apart)
    show "{a ..< a + 16 * sl_units st a} \<inter> {b ..< b + 16 * sl_units st b} = {}"
      using apart that by (fastforce simp: free_bytes_def ublock_def)
  qed (use d(2) [OF that] u in auto)
  show "b \<notin> S" using b [of b] u by auto
  then have "ring ((sl_next st)(b := sl_next st cur, cur := b)) (insert b S)"
    using ring_insert [OF d(1) cur _ gap] by simp
  moreover have "x + 16 * sl_units st x \<le> y" if "x \<in> insert b S" "y \<in> insert b S" "x < y" for x y
    using that b [of x] b [of y] d(2) [of x] d(2) [of y] d(3) [of x y] u by auto
  ultimately show "flist (upd_next cur b (upd_next b (sl_next st cur) st)) (insert b S)"
    using d(2) u by (auto simp: flist_def)
qed

lemma flist_join:
  assumes fl: "flist st S" and a: "a \<in> S" and n: "sl_next st a = n" and adj: "a + SLOB_UNIT * sl_units st a = n"
  defines "st' \<equiv> upd_next a (sl_next st n) (upd_units a (sl_units st a + sl_units st n) st)"
  shows "flist st' (S - {n})" and "free_bytes st' (S - {n}) = free_bytes st S" and "a < n"
proof -
  note d = flistD [OF fl]
  show an: "a < n" using adj d(2) [OF a] by simp
  have nS: "n \<in> S" using ringD(1) [OF d(1) a] n by simp
  have "ring ((sl_next st)(a := sl_next st n)) (S - {n})" using ring_remove [OF d(1) a n] an by simp
  moreover have "x + 16 * ((sl_units st)(a := sl_units st a + sl_units st n)) x \<le> y"
    if "x \<in> S - {n}" "y \<in> S - {n}" "x < y" for x y
  proof (cases "x = a")
    case True
    have "a + 16 * sl_units st a \<le> y" using d(3) [OF a, of y] that True by auto
    then have "n < y" using adj that by (auto simp: order.order_iff_strict)
    then have "n + 16 * sl_units st n \<le> y" using d(3) [OF nS, of y] that by auto
    with adj True show ?thesis by simp
  next
    case False
    then show ?thesis using d(3) [of x y] that by auto
  qed
  ultimately show "flist st' (S - {n})" using d(2) a an by (auto simp: flist_def st'_def)
  have "ublock (sl_units st') a = ublock (sl_units st) a \<union> ublock (sl_units st) n"
    using adj by (auto simp: st'_def mem_ublock)
  moreover have "ublock (sl_units st') x = ublock (sl_units st) x" if "x \<noteq> a" for x using that by (simp add: st'_def ublock_def)
  ultimately have un: "ublock (sl_units st') x =
      (if x = a then ublock (sl_units st) a \<union> ublock (sl_units st) n else ublock (sl_units st) x)" for x by simp
  have "(\<Union>x \<in> S - {n}. ublock (sl_units st') x) =
      ublock (sl_units st) a \<union> ublock (sl_units st) n \<union> (\<Union>x \<in> S - {n} - {a}. ublock (sl_units st) x)"
  proof -
    have S: "S - {n} = insert a (S - {n} - {a})" using a an by auto
    show ?thesis by (subst S) (auto simp: un)
  qed
  also have "\<dots> = (\<Union>x \<in> S. ublock (sl_units st) x)" using a nS by auto
  finally show "free_bytes st' (S - {n}) = free_bytes st S" by (simp add: free_bytes_def)
qed

text \<open>The block \<^verbatim>\<open>arena\<close> is below all others: a block is never put before it.\<close>

definition above :: "nat \<Rightarrow> slob \<Rightarrow> nat set \<Rightarrow> bool" where
  "above arena st S \<longleftrightarrow> arena \<in> S \<and> sl_units st arena = 1 \<and> (\<forall>a \<in> S. a = arena \<or> arena + SLOB_UNIT < a)"

lemma slob_free_spec:
  assumes fl: "flist st S" and start: "slobfree st \<in> S" and ar: "above arena st S" "arena + SLOB_UNIT < b"
    and u: "u = (if sz = 0 then sl_units st b else SLOB_UNITS sz)" "0 < u"
    and apart: "{b ..< b + SLOB_UNIT * u} \<inter> free_bytes st S = {}"
  obtains st' S' where "slob_free b sz st = Some st'" and "flist st' S'" and "slobfree st' \<in> S'"
    and "free_bytes st' S' = free_bytes st S \<union> {b ..< b + SLOB_UNIT * u}" and "above arena st' S'"
    and "units_kept st st' (free_bytes st S \<union> {b ..< b + SLOB_UNIT * u})" and "same_heap st st'" and "\<exists>c \<in> S'. u \<le> sl_units st' c"
proof -
  note d = flistD [OF fl]
  have bS: "b \<notin> S"
  proof
    assume "b \<in> S"
    then have "b \<in> free_bytes st S" using d(2) by (force simp: free_bytes_def mem_ublock)
    moreover have "b \<in> {b ..< b + 16 * u}" using u(2) by simp
    ultimately show False using apart by (simp add: disjoint_iff)
  qed
  define st1 where "st1 = upd_units b u st"
  have un: "ublock (sl_units st1) x = (if x = b then {b ..< b + 16 * u} else ublock (sl_units st) x)" for x
    by (simp add: st1_def ublock_def)
  have fb1: "free_bytes st1 S = free_bytes st S"
    unfolding free_bytes_def using bS by (intro SUP_cong) (auto simp: un)
  have fl1: "flist st1 S" using fl bS by (auto simp: flist_def st1_def)
  from slob_find_spec [of st1 S b] d(1) bS start obtain cur where
    cur: "slob_find b (slobfree st) st1 = Some cur" "cur \<in> S"
      "cur < b \<and> b < sl_next st1 cur \<or> sl_next st1 cur \<le> cur \<and> (cur < b \<or> b < sl_next st1 cur)"
    by (auto simp: st1_def)
  let ?n = "sl_next st cur"
  define M where "M = upd_next cur b (upd_next b ?n st1)"
  have link: "flist M (insert b S)"
    using flist_link [OF fl1 cur(2) _ cur(3)] u(2) apart by (simp add: M_def un fb1) (simp add: st1_def)
  have cb: "cur \<noteq> b" using cur(2) bS by auto
  have fbM: "free_bytes M (insert b S) = free_bytes st S \<union> {b ..< b + 16 * u}"
    using fb1 un [of b] by (auto simp: free_bytes_def M_def)
  have nS: "?n \<in> S" using ringD(1) [OF d(1) cur(2)] .
  have low: "cur < b" if "b < ?n"
  proof (rule ccontr)
    assume "\<not> cur < b"
    then have "?n \<le> cur" using cur(3) by (auto simp: st1_def)
    then have "?n \<le> arena" using ringD(2) [OF d(1) cur(2)] ar(1) by (auto simp: after_def above_def)
    with that ar(2) show False by simp
  qed
  define J where "J = (b + 16 * u = ?n)"
  define M2 where "M2 = (if J then upd_next b (sl_next M ?n) (upd_units b (sl_units M b + sl_units M ?n) M) else M)"
  define S2 where "S2 = (if J then insert b S - {?n} else insert b S)"
  have jn: "b < ?n \<and> cur < b \<and> ?n \<noteq> arena" if J using that u(2) low ar by (auto simp: J_def)
  have M2: "flist M2 S2" "free_bytes M2 S2 = free_bytes M (insert b S)"
    using flist_join [OF link, of b ?n] jn link cb by (auto simp: M2_def S2_def J_def) (auto simp: M_def st1_def J_def)
  define K where "K = (cur + 16 * sl_units st cur = b)"
  define M3 where "M3 = (if K then upd_next cur (sl_next M2 b) (upd_units cur (sl_units M2 cur + sl_units M2 b) M2) else M2)"
  define S3 where "S3 = (if K then S2 - {b} else S2)"
  have cS2: "cur \<in> S2" using cur(2) jn by (auto simp: S2_def)
  have n2: "sl_next M2 cur = b" using jn cb by (auto simp: M2_def M_def)
  have u2: "sl_units M2 cur = sl_units st cur" using cb by (auto simp: M2_def M_def st1_def)
  have M3: "flist M3 S3" "free_bytes M3 S3 = free_bytes M (insert b S)"
    using flist_join [OF M2(1) cS2 n2] M2 by (auto simp: M3_def S3_def K_def u2)
  have code: "slob_free b sz st = Some (M3\<lparr>slobfree := cur\<rparr>)"
  proof -
    have b0: "b \<noteq> 0" using ar by auto
    have s1: "(if sz \<noteq> 0 then upd_units b (SLOB_UNITS sz) st else st) = st1"
      using u(1) by (auto simp: st1_def upd_units_def)
    show ?thesis
      unfolding slob_free_def s1 using b0 cur(1) cb jn
      by (auto simp: Let_def M3_def M2_def M_def J_def K_def st1_def upd_units_def upd_next_def fun_upd_twist)
  qed
  show thesis
  proof (rule that [OF code])
    show "flist (M3\<lparr>slobfree := cur\<rparr>) S3" "free_bytes (M3\<lparr>slobfree := cur\<rparr>) S3 = free_bytes st S \<union> {b ..< b + SLOB_UNIT * u}"
      using M3 fbM by (auto simp: flist_def free_bytes_def)
    show "slobfree (M3\<lparr>slobfree := cur\<rparr>) \<in> S3" using cS2 cb by (auto simp: S3_def)
    have u3: "u \<le> sl_units M2 b" by (simp add: M2_def M_def st1_def)
    have "b \<in> S2" using jn by (auto simp: S2_def)
    then show "\<exists>c \<in> S3. u \<le> sl_units (M3\<lparr>slobfree := cur\<rparr>) c"
      using u3 cS2 cb by (intro bexI [of _ "if K then cur else b"]) (auto simp: M3_def S3_def)
    have "cur = arena \<Longrightarrow> \<not> K" using ar by (auto simp: K_def above_def)
    then have "sl_units M3 arena = 1" using ar by (auto simp: M3_def M2_def M_def st1_def above_def)
    then show "above arena (M3\<lparr>slobfree := cur\<rparr>) S3" using ar jn by (auto simp: above_def S3_def S2_def)
    show "same_heap st (M3\<lparr>slobfree := cur\<rparr>)"
      by (simp add: same_heap_def M3_def M2_def M_def st1_def)
    have "cur \<in> free_bytes st S" using cur(2) d(2) by (auto simp: free_bytes_def mem_ublock)
    then show "units_kept st (M3\<lparr>slobfree := cur\<rparr>) (free_bytes st S \<union> {b ..< b + SLOB_UNIT * u})"
      using u(2) by (auto simp: units_kept_def M3_def M2_def M_def st1_def)
  qed
qed
lemma flist_disjoint:
  assumes fl: "flist st S" and "a \<in> S" and "b \<in> S" and "a \<noteq> b"
  shows "ublock (sl_units st) a \<inter> ublock (sl_units st) b = {}"
  using flistD(3) [OF fl assms(2,3)] flistD(3) [OF fl assms(3,2)] assms(4)
  by (cases "a < b") (auto simp: ublock_def)

lemma free_bytes_remove:
  assumes "flist st S" and "a \<in> S"
  shows "free_bytes st (S - {a}) = free_bytes st S - ublock (sl_units st) a"
  using flist_disjoint [OF assms] assms(2) by (fastforce simp: free_bytes_def disjoint_iff)

lemma slob_take_spec:
  assumes fl: "flist st S" and prev: "prev \<in> S" "sl_next st prev = cur" "prev \<noteq> cur"
    and u: "0 < units" "units \<le> sl_units st cur" and ar: "above arena st S" "cur \<noteq> arena"
    and run: "slob_take units x 0 prev cur st = (m, st')"
  obtains S' where "m = cur" and "flist st' S'" and "slobfree st' \<in> S'" and "above arena st' S'"
    and "{cur ..< cur + SLOB_UNIT * units} \<subseteq> free_bytes st S" and "arena + SLOB_UNIT < cur"
    and "free_bytes st' S' = free_bytes st S - {cur ..< cur + SLOB_UNIT * units}" and "sl_units st' cur = units"
    and "units_kept st st' (free_bytes st S)" and "same_heap st st'"
proof -
  note d = flistD [OF fl]
  have cS: "cur \<in> S" using ringD(1) [OF d(1) prev(1)] prev(2) by simp
  have rm: "ring ((sl_next st)(prev := sl_next st cur)) (S - {cur})" using ring_remove [OF d(1) prev] .
  have sub: "ublock (sl_units st) cur \<subseteq> free_bytes st S" using cS by (auto simp: free_bytes_def)
  have arc: "arena + SLOB_UNIT < cur" using ar cS by (auto simp: above_def)
  have blk: "{cur ..< cur + SLOB_UNIT * units} \<subseteq> free_bytes st S"
    by (rule order_trans [OF _ sub]) (use u in \<open>auto simp: ublock_def\<close>)
  show thesis
  proof (cases "sl_units st cur = units")
    case True
    define T where "T = (upd_next prev (sl_next st cur) st)\<lparr>slobfree := prev\<rparr>"
    have r: "m = cur" "st' = T" using run True by (auto simp: slob_take_def Let_def T_def)
    show thesis
    proof (rule that [of "S - {cur}", unfolded r])
      show "flist T (S - {cur})" using rm d(2,3) by (simp add: flist_def T_def)
      show "free_bytes T (S - {cur}) = free_bytes st S - {cur ..< cur + SLOB_UNIT * units}"
        using free_bytes_remove [OF fl cS] True by (simp add: free_bytes_def ublock_def T_def)
    qed (use prev True arc blk ar in \<open>auto simp: T_def above_def units_kept_def same_heap_def\<close>)
  next
    case False
    define rest where "rest = cur + 16 * units"
    define T where "T = (upd_units cur units (upd_next rest (sl_next st cur) (upd_units rest (sl_units st cur - units)
      (upd_next prev rest st))))\<lparr>slobfree := prev\<rparr>"
    have r: "m = cur" "st' = T" using run False prev by (auto simp: slob_take_def Let_def T_def rest_def u(1))
    have lt: "units < sl_units st cur" using u(2) False by simp
    have inblk: "rest \<in> ublock (sl_units st) cur" "cur < rest" using lt u(1) by (auto simp: rest_def mem_ublock)
    have out: "b \<notin> {cur ..< cur + 16 * sl_units st cur}" if "b \<in> S" "b \<noteq> cur" for b
      using flist_disjoint [OF fl that(1) cS that(2)] ublock_start [of "sl_units st" b] d(2) [OF that(1)]
      by (auto simp: disjoint_iff ublock_def)
    have rS: "rest \<notin> S" using out [of rest] inblk lt u(1) by (auto simp: rest_def)
    let ?n = "sl_next st cur"
    have gap: "prev < rest \<and> rest < ?n \<or> ?n \<le> prev \<and> (prev < rest \<or> rest < ?n)"
    proof -
      have nx: "rest < ?n" if "cur < ?n"
        using d(3) [OF cS ringD(1) [OF d(1) cS] that] lt by (simp add: rest_def)
      have a1: "prev < cur \<or> ?n \<le> prev" and a2: "cur < ?n \<or> ?n \<le> prev" and a3: "prev < cur \<or> cur < ?n"
        using ringD(2) [OF d(1) prev(1)] ringD(2) [OF d(1) cS] prev ringD(1) [OF d(1) cS] cS
        by (auto simp: after_def)
      show ?thesis using a1 a2 a3 nx inblk(2) prev(3) by linarith
    qed
    have ring: "ring (sl_next T) (insert rest (S - {cur}))"
    proof -
      have "sl_next T x = (((sl_next st)(prev := ?n))(rest := ?n, prev := rest)) x" if "x \<in> insert rest (S - {cur})" for x
        by (simp add: T_def) (use prev rS in auto)
      moreover have "ring (((sl_next st)(prev := ?n))(rest := ?n, prev := rest)) (insert rest (S - {cur}))"
        using ring_insert [OF rm, of prev rest] gap prev rS by simp
      ultimately show ?thesis by (simp add: ring_def)
    qed
    have un: "sl_units T x = (if x = cur then units else if x = rest then sl_units st cur - units else sl_units st x)" for x
      by (simp add: T_def)
    have less: "x + 16 * sl_units T x \<le> y" if "x \<in> insert rest (S - {cur})" "y \<in> insert rest (S - {cur})" "x < y" for x y
    proof (cases "x = rest")
      case True
      then have "y \<in> S" "y \<noteq> cur" "cur < y" using that inblk(2) by auto
      then show ?thesis using d(3) [OF cS, of y] True lt inblk(2) by (simp add: un rest_def)
    next
      case False
      then have x: "x \<in> S" "x \<noteq> cur" using that by auto
      show ?thesis
      proof (cases "y = rest")
        case True
        then have "x < cur" using out [OF x] lt that(3) by (auto simp: rest_def)
        then show ?thesis using d(3) [OF x(1) cS] True False x inblk(2) by (simp add: un)
      next
        case y: False
        then show ?thesis using d(3) [OF x(1), of y] that False x by (simp add: un)
      qed
    qed
    show thesis
    proof (rule that [of "insert rest (S - {cur})", unfolded r])
      show "flist T (insert rest (S - {cur}))"
        using ring less d(2) lt inblk by (auto simp: flist_def un)
      have "ublock (sl_units T) rest = ublock (sl_units st) cur - {cur ..< cur + SLOB_UNIT * units}"
        using lt inblk(2) by (auto simp: un ublock_def rest_def)
      moreover have "(\<Union>a \<in> S - {cur}. ublock (sl_units T) a) = free_bytes st (S - {cur})"
        unfolding free_bytes_def using rS by (intro SUP_cong) (auto simp: un ublock_def)
      ultimately have "free_bytes T (insert rest (S - {cur})) =
          (ublock (sl_units st) cur - {cur ..< cur + SLOB_UNIT * units}) \<union> (free_bytes st S - ublock (sl_units st) cur)"
        using free_bytes_remove [OF fl cS] by (simp add: free_bytes_def)
      then show "free_bytes T (insert rest (S - {cur})) = free_bytes st S - {cur ..< cur + SLOB_UNIT * units}"
        using sub u(2) by (auto simp: ublock_def)
      show "slobfree T \<in> insert rest (S - {cur})" using prev by (simp add: T_def)
      show "above arena T (insert rest (S - {cur}))" using ar arc inblk(2) by (auto simp: above_def un)
      show "units_kept st T (free_bytes st S)" using sub inblk(1) cS d(2) [OF cS] ublock_start [of "sl_units st" cur]
        by (auto simp: units_kept_def un)
    qed (use arc blk in \<open>auto simp: un same_heap_def, auto simp: T_def\<close>)
  qed
qed
lemma ring_forward:
  assumes r: "ring nx S" and t: "t \<in> S" and base: "Q (nx t)"
    and step: "\<And>a. a \<in> S \<Longrightarrow> a \<noteq> t \<Longrightarrow> Q a \<Longrightarrow> Q (nx a)" and c: "c \<in> S"
  shows "Q c"
proof (rule ccontr)
  assume "\<not> Q c"
  then have "\<not> Q (nx t)"
    by (rule ring_induct [OF r c, where P = "\<lambda>a. \<not> Q a"]) (use base step ringD(1) [OF r t] in blast)+
  with base show False by simp
qed

text \<open>A search of \<^verbatim>\<open>slob_alloc\<close>: it takes the first block that is large enough, or goes once round the list.\<close>

definition slob_grow :: "u64 \<Rightarrow> nat \<Rightarrow> nat \<Rightarrow> slob \<Rightarrow> (nat \<times> slob) option" where
  "slob_grow npg sz units st = do {
     (page, st) \<leftarrow> slob_get_free_pages npg 0 st;
     if page = 0 then Some (0, st)
     else do {
       st \<leftarrow> slob_free page PAGE_SIZE st;
       slob_alloc_loop npg sz units 0 (slobfree st) (sl_next st (slobfree st)) st } }"

lemma slob_alloc_loop_unfold:
  "sz \<noteq> PAGE_SIZE \<Longrightarrow> slob_alloc_loop npg sz units 0 prev cur st =
     (if units \<le> sl_units st cur then Some (slob_take units 0 0 prev cur st)
      else if cur = slobfree st then slob_grow npg sz units st
      else slob_alloc_loop npg sz units 0 cur (sl_next st cur) st)"
  unfolding slob_grow_def by (subst slob_alloc_loop.simps, unfold Let_def) simp

lemma slob_search_found:
  assumes r: "ring (sl_next st) S" and start: "slobfree st \<in> S" and sz: "sz \<noteq> PAGE_SIZE"
    and c: "c \<in> S" "units \<le> sl_units st c"
  obtains prev where "prev \<in> S" and "units \<le> sl_units st (sl_next st prev)"
    and "slob_alloc_loop npg sz units 0 (slobfree st) (sl_next st (slobfree st)) st =
      Some (slob_take units 0 0 prev (sl_next st prev) st)"
proof -
  let ?f = "slobfree st" and ?l = "\<lambda>p c. slob_alloc_loop npg sz units 0 p c st"
  note u = slob_alloc_loop_unfold [OF sz, of npg units _ _ st]
  define Q where "Q a \<longleftrightarrow> (\<exists>p \<in> S. sl_next st p = a \<and> ?l ?f (sl_next st ?f) = ?l p a) \<or>
    (\<exists>p \<in> S. units \<le> sl_units st (sl_next st p) \<and>
       ?l ?f (sl_next st ?f) = Some (slob_take units 0 0 p (sl_next st p) st))" for a
  have "Q c"
  proof (rule ring_forward [OF r start _ _ c(1)])
    show "Q (sl_next st ?f)" using start by (auto simp: Q_def)
    fix a assume a: "a \<in> S" "a \<noteq> ?f" "Q a"
    show "Q (sl_next st a)"
    proof (cases "units \<le> sl_units st a")
      case True
      then have "?l p a = Some (slob_take units 0 0 p a st)" for p by (subst u) simp
      with a(3) True show ?thesis unfolding Q_def by metis
    next
      case False
      then have "?l p a = ?l a (sl_next st a)" for p by (subst u) (simp add: a(2))
      with a(1,3) show ?thesis unfolding Q_def by metis
    qed
  qed
  moreover have "?l p c = Some (slob_take units 0 0 p c st)" for p using c(2) by (subst u) simp
  ultimately show thesis using that c(2) unfolding Q_def by metis
qed

lemma slob_search_misses:
  assumes r: "ring (sl_next st) S" and start: "slobfree st \<in> S" and sz: "sz \<noteq> PAGE_SIZE"
    and small: "\<And>c. c \<in> S \<Longrightarrow> sl_units st c < units"
  shows "slob_alloc_loop npg sz units 0 (slobfree st) (sl_next st (slobfree st)) st = slob_grow npg sz units st"
proof -
  note u = slob_alloc_loop_unfold [OF sz, of npg units _ _ st]
  have "\<forall>p. slob_alloc_loop npg sz units 0 p (sl_next st (slobfree st)) st = slob_grow npg sz units st"
  proof (rule ring_induct [OF r start _ _ ringD(1) [OF r start]])
    show "\<forall>p. slob_alloc_loop npg sz units 0 p (slobfree st) st = slob_grow npg sz units st"
      using small [OF start] by (subst u) (auto simp: not_le)
    fix a assume "a \<in> S" "a \<noteq> slobfree st"
      "\<forall>p. slob_alloc_loop npg sz units 0 p (sl_next st a) st = slob_grow npg sz units st"
    then show "\<forall>p. slob_alloc_loop npg sz units 0 p a st = slob_grow npg sz units st"
      using small [of a] by (subst u) (auto simp: not_le)
  qed
  then show ?thesis by simp
qed

section \<open>Pages\<close>

text \<open>The address of a page, the page of an address, and the bytes of pages.\<close>

definition pva :: "nat \<Rightarrow> nat" where
  "pva p = (p + 0x80000) * 4096 + 0xFFFFFFFF40000000"

definition pages_at :: "nat \<Rightarrow> nat \<Rightarrow> nat set" where
  "pages_at a k = {p. a \<le> pva p \<and> pva p < a + 4096 * k}"

definition page_bytes :: "nat set \<Rightarrow> nat set" where
  "page_bytes F = (\<Union>p \<in> F. {pva p ..< pva p + 4096})"

definition page_state :: "u64 \<Rightarrow> pmm \<Rightarrow> nat set \<Rightarrow> nat set \<Rightarrow> bool" where
  "page_state npg m F G \<longleftrightarrow> (\<exists>np xs. pmm_inv np m xs \<and> np + 0x80000 \<le> unat npg \<and> unat npg \<le> 0xC0000 \<and>
     free_set m xs = F \<and> (\<forall>p \<in> F. 0x200 \<le> p) \<and> (\<forall>p \<in> G. 0x200 \<le> p \<and> p < np \<and> \<not> PageReserved p m))"

lemma pva_simps [simp]: "pva p = pva q \<longleftrightarrow> p = q" "pva p < pva q \<longleftrightarrow> p < q" "pva p \<le> pva q \<longleftrightarrow> p \<le> q" "0 < pva p"
  by (simp_all add: pva_def)

lemma pva_nonzero [simp]: "pva p \<noteq> 0"
  by (simp add: pva_def)

lemma pva_add: "pva (p + k) = pva p + 4096 * k"
  by (simp add: pva_def)

lemma pages_at_pva: "pages_at (pva p) k = {p ..< p + k}"
  by (auto simp: pages_at_def pva_def)

lemma page_bytes_run: "page_bytes {p ..< p + k} = {pva p ..< pva p + 4096 * k}"
proof (induction k)
  case (Suc k)
  have "{p ..< p + Suc k} = insert (p + k) {p ..< p + k}" by auto
  then show ?case using Suc by (auto simp: page_bytes_def pva_add)
qed (simp add: page_bytes_def)

lemma page_bytes_Un: "page_bytes (F \<union> G) = page_bytes F \<union> page_bytes G"
  by (auto simp: page_bytes_def)

lemma pva_in_bytes: "pva q \<in> page_bytes F \<longleftrightarrow> q \<in> F"
proof
  assume "pva q \<in> page_bytes F"
  then obtain p where p: "p \<in> F" "pva p \<le> pva q" "pva q < pva p + 4096" by (auto simp: page_bytes_def)
  then have "q = p" by (simp add: pva_def)
  with p show "q \<in> F" by simp
qed (auto simp: page_bytes_def)

lemma page_bytes_mono: "F \<subseteq> G \<Longrightarrow> page_bytes F \<subseteq> page_bytes G"
  by (auto simp: page_bytes_def)

lemma page_bytes_unique: "x \<in> {pva p ..< pva p + 4096} \<Longrightarrow> x \<in> {pva q ..< pva q + 4096} \<Longrightarrow> p = q"
  by (simp add: pva_def)

lemma page_bytes_Diff: "page_bytes (F - G) = page_bytes F - page_bytes G"
  unfolding page_bytes_def using page_bytes_unique by blast

lemma page_state_mono: "page_state npg m F G \<Longrightarrow> H \<subseteq> G \<Longrightarrow> page_state npg m F H"
  unfolding page_state_def by blast

lemma get_free_pages_spec:
  assumes ps: "page_state npg (slob_pm st) F G"
  obtains (fails) "slob_get_free_pages npg k st = Some (0, st)" and "k = 0 \<Longrightarrow> F = {}"
  | (gets) p m where "slob_get_free_pages npg k st = Some (pva p, st\<lparr>slob_pm := m\<rparr>)"
    and "{p ..< p + 2 ^ k} \<subseteq> F" and "0x200 \<le> p"
    and "page_state npg m (F - {p ..< p + 2 ^ k}) (G \<union> {p ..< p + 2 ^ k})"
proof -
  from ps obtain np xs where inv: "pmm_inv np (slob_pm st) xs" and np: "np + 0x80000 \<le> unat npg" "unat npg \<le> 0xC0000"
    and F: "free_set (slob_pm st) xs = F" "\<forall>p \<in> F. 0x200 \<le> p"
    and G: "\<forall>p \<in> G. 0x200 \<le> p \<and> p < np \<and> \<not> PageReserved p (slob_pm st)"
    unfolding page_state_def by blast
  from first_fit_manager.alloc_law [OF inv, of "2 ^ k"] obtain r m where
    a: "default_alloc_pages (2 ^ k) (slob_pm st) = Some (r, m)" and
    post: "case r of None \<Rightarrow> m = slob_pm st \<and> (\<forall>p \<in> set xs. page_len (slob_pm st) p < 2 ^ k)
       | Some p \<Rightarrow> \<exists>ys. pmm_inv np m ys \<and> taken m p (2 ^ k) \<and> p + 2 ^ k \<le> np \<and>
           free_set (slob_pm st) xs = free_set m ys \<union> {p ..< p + 2 ^ k} \<and> free_set m ys \<inter> {p ..< p + 2 ^ k} = {}"
    by auto
  have run: "alloc_pages default_pmm_manager False (\<lambda>_. None) (2 ^ k) (slob_pm st) = Some (r, m)"
    using a by (subst alloc_pages.simps) (simp add: default_pmm_manager_def)
  show thesis
  proof (cases r)
    case None
    with post have m: "m = slob_pm st" "\<forall>p \<in> set xs. page_len (slob_pm st) p < 2 ^ k" by auto
    show thesis
    proof (rule fails)
      show "slob_get_free_pages npg k st = Some (0, st)"
        using run None m by (simp add: slob_get_free_pages_def Let_def)
      show "F = {}" if "k = 0"
        using m(2) that pmm_invD(3) [OF inv, of "hd xs"] F(1) by (cases xs) (auto simp: free_set_def)
    qed
  next
    case (Some p)
    with post obtain ys where ys: "pmm_inv np m ys" "taken m p (2 ^ k)" "p + 2 ^ k \<le> np"
      "F = free_set m ys \<union> {p ..< p + 2 ^ k}" "free_set m ys \<inter> {p ..< p + 2 ^ k} = {}" using F(1) by auto
    note same = default_alloc_pages_same [OF a, unfolded same_page_def]
    have pF: "p \<in> F" using ys(4) by simp
    moreover have "p < np" using ys(3) zero_less_power [of "2 :: nat" k] by linarith
    ultimately have p: "0x200 \<le> p" "page_ok npg p" using F(2) np by (auto simp: page_ok_def)
    show thesis
    proof (rule gets)
      show "slob_get_free_pages npg k st = Some (pva p, st\<lparr>slob_pm := m\<rparr>)"
        using run Some page2kva_eq [OF p(2)] unat_page2kva [OF p(2)]
        by (simp add: slob_get_free_pages_def Let_def pva_def)
      have Fm: "free_set m ys = F - {p ..< p + 2 ^ k}" using ys(4,5) by auto
      have "\<not> PageReserved q m" if "q \<in> {p ..< p + 2 ^ k}" for q using ys(2) that by (auto simp: taken_def)
      then show "page_state npg m (F - {p ..< p + 2 ^ k}) (G \<union> {p ..< p + 2 ^ k})"
        unfolding page_state_def using ys(1,3) np Fm F(2) G same p(1)
        by (intro exI [of _ np] exI [of _ ys]) auto
    qed (use ys(4) p in auto)
  qed
qed

text \<open>
  The pages of a large block can be given back where \<open>link_block\<close> links them: below the last free
  block, or when there is none.
\<close>

definition link_safe :: "slob \<Rightarrow> nat \<Rightarrow> bool" where
  "link_safe st a \<longleftrightarrow> (case list_prev FreeList (plinks (slob_pm st)) of FreeList \<Rightarrow> True | PLink q \<Rightarrow> a < pva q)"

lemma link_safe_linkable:
  assumes "pmm_inv np (slob_pm st) xs"
  shows "link_safe st (pva p) \<longleftrightarrow> linkable p xs"
proof -
  have "list_prev FreeList (plinks (slob_pm st)) = last (FreeList # map PLink xs)"
    by (rule klist_prev [OF pmm_invD(1) [OF assms]])
  then show ?thesis by (cases xs rule: rev_cases) (simp_all add: link_safe_def linkable_def)
qed

lemma free_pages_entry:
  assumes ps: "page_state npg (slob_pm st) F G" and p: "{p ..< p + 2 ^ k} \<subseteq> G" "{p ..< p + 2 ^ k} \<inter> F = {}"
  obtains np xs where "pmm_inv np (slob_pm st) xs" and "np + 0x80000 \<le> unat npg" and "unat npg \<le> 0xC0000"
    and "free_set (slob_pm st) xs = F" and "p + 2 ^ k \<le> np" and "taken (slob_pm st) p (2 ^ k)"
    and "kva2page npg (of_nat (pva p)) = Some p" and "\<forall>p \<in> F. 0x200 \<le> p"
    and "\<And>p. p \<in> G \<Longrightarrow> 0x200 \<le> p \<and> p < np \<and> \<not> PageReserved p (slob_pm st)"
proof -
  from ps obtain np xs where inv: "pmm_inv np (slob_pm st) xs" and np: "np + 0x80000 \<le> unat npg" "unat npg \<le> 0xC0000"
    and F: "free_set (slob_pm st) xs = F" "\<forall>p \<in> F. 0x200 \<le> p"
    and G: "\<And>p. p \<in> G \<Longrightarrow> 0x200 \<le> p \<and> p < np \<and> \<not> PageReserved p (slob_pm st)"
    unfolding page_state_def by blast
  have pG: "p \<in> G" using p(1) by auto
  have top: "p + 2 ^ k \<le> np"
  proof -
    have q: "p + 2 ^ k - 1 \<in> {p ..< p + 2 ^ k}"
      unfolding atLeastLessThan_iff using zero_less_power [of "2 :: nat" k] by linarith
    have "p + 2 ^ k - 1 < np" using G [OF subsetD [OF p(1) q]] by blast
    then show ?thesis by linarith
  qed
  have tk: "taken (slob_pm st) p (2 ^ k)"
    unfolding taken_def
  proof
    fix q assume q: "q \<in> {p ..< p + 2 ^ k}"
    have "q \<notin> set xs"
    proof
      assume xs: "q \<in> set xs"
      then have "q \<in> block (slob_pm st) q" using pmm_invD(3) [OF inv] by (simp add: block_def)
      with xs have "q \<in> F" unfolding F(1) [symmetric] free_set_def by blast
      with q p(2) show False by blast
    qed
    then show "\<not> PageReserved q (slob_pm st) \<and> \<not> PageProperty q (slob_pm st)"
      using G [of q] q p(1) pmm_invD(5) [OF inv, of q] by auto
  qed
  have ok: "0x200 \<le> p" "page_ok npg p" using G [OF pG] np by (auto simp: page_ok_def)
  have "of_nat (pva p) = page2pa p + va_pa_offset"
    unfolding pva_def unat_page2kva [OF ok(2), symmetric] by simp
  then have "kva2page npg (of_nat (pva p)) = Some p" using kva2page_page2kva [OF ok(2,1)] by simp
  with that [OF inv np F(1) top tk _ F(2) G] show thesis by blast
qed

lemma free_pages_spec:
  assumes ps: "page_state npg (slob_pm st) F G" and p: "{p ..< p + 2 ^ k} \<subseteq> G" "{p ..< p + 2 ^ k} \<inter> F = {}"
    and safe: "link_safe st (pva p)"
  obtains m where "slob_free_pages npg (pva p) k st = Some (st\<lparr>slob_pm := m\<rparr>)"
    and "page_state npg m (F \<union> {p ..< p + 2 ^ k}) (G - {p ..< p + 2 ^ k})"
proof -
  from free_pages_entry [OF ps p] obtain np xs where
    inv: "pmm_inv np (slob_pm st) xs" and np: "np + 0x80000 \<le> unat npg" "unat npg \<le> 0xC0000"
    and F: "free_set (slob_pm st) xs = F" "\<forall>p \<in> F. 0x200 \<le> p" and top: "p + 2 ^ k \<le> np" "taken (slob_pm st) p (2 ^ k)"
    and kva: "kva2page npg (of_nat (pva p)) = Some p"
    and G: "\<And>p. p \<in> G \<Longrightarrow> 0x200 \<le> p \<and> p < np \<and> \<not> PageReserved p (slob_pm st)" by metis
  have lk: "linkable p xs" using link_safe_linkable [OF inv] safe by blast
  from first_fit_manager.free_law [OF inv, of "2 ^ k" p] top lk p(2) F(1) obtain m ys where
    m: "default_free_pages p (2 ^ k) (slob_pm st) = Some m" "pmm_inv np m ys" "free_set m ys = F \<union> {p ..< p + 2 ^ k}"
    by auto
  note same = default_free_pages_same [OF m(1), unfolded same_page_def]
  have "p \<in> G" using p(1) by auto
  then have "0x200 \<le> p" using G by blast
  show thesis
  proof (rule that)
    show "slob_free_pages npg (pva p) k st = Some (st\<lparr>slob_pm := m\<rparr>)"
      using kva m(1) by (simp add: slob_free_pages_def free_pages_def default_pmm_manager_def)
    show "page_state npg m (F \<union> {p ..< p + 2 ^ k}) (G - {p ..< p + 2 ^ k})"
      unfolding page_state_def using m(2,3) np F(2) G \<open>0x200 \<le> p\<close> same
      by (intro exI [of _ np] exI [of _ ys]) auto
  qed
qed

lemma free_pages_unsafe:
  assumes ps: "page_state npg (slob_pm st) F G" and p: "{p ..< p + 2 ^ k} \<subseteq> G" "{p ..< p + 2 ^ k} \<inter> F = {}"
    and unsafe: "\<not> link_safe st (pva p)"
  obtains m where "slob_free_pages npg (pva p) k st = Some (st\<lparr>slob_pm := m\<rparr>)" and "\<forall>F G. \<not> page_state npg m F G"
proof -
  from free_pages_entry [OF ps p] obtain np xs where
    inv: "pmm_inv np (slob_pm st) xs" and F: "free_set (slob_pm st) xs = F" and top: "p + 2 ^ k \<le> np" "taken (slob_pm st) p (2 ^ k)"
    and kva: "kva2page npg (of_nat (pva p)) = Some p" by metis
  have lk: "\<not> linkable p xs" using link_safe_linkable [OF inv] unsafe by blast
  from default_free_pages_append [OF inv _ top _ lk] p(2) F obtain m where
    m: "default_free_pages p (2 ^ k) (slob_pm st) = Some m" "\<forall>np ys. \<not> pmm_inv np m ys" by auto
  show thesis
  proof (rule that)
    show "slob_free_pages npg (pva p) k st = Some (st\<lparr>slob_pm := m\<rparr>)"
      using kva m(1) by (simp add: slob_free_pages_def free_pages_def default_pmm_manager_def)
    show "\<forall>F G. \<not> page_state npg m F G" using m(2) by (simp add: page_state_def)
  qed
qed

section \<open>The heap\<close>

text \<open>What has been handed out: a small block with its header, or pages with their node.\<close>

datatype holding = Small nat | Large bigblock

primrec ptr_of :: "holding \<Rightarrow> nat" where
  "ptr_of (Small a) = a + SLOB_UNIT"
| "ptr_of (Large bb) = bb_pages bb"

primrec region :: "slob \<Rightarrow> holding \<Rightarrow> nat set" where
  "region st (Small a) = ublock (sl_units st) a"
| "region st (Large bb) = {bb_at bb ..< bb_at bb + 32} \<union> {bb_pages bb ..< bb_pages bb + 4096 * 2 ^ bb_order bb}"

primrec holding_ok :: "nat \<Rightarrow> slob \<Rightarrow> holding \<Rightarrow> bool" where
  "holding_ok arena st (Small a) \<longleftrightarrow> arena + SLOB_UNIT < a \<and> 1 < sl_units st a"
| "holding_ok arena st (Large bb) \<longleftrightarrow> arena + SLOB_UNIT < bb_at bb \<and> bb \<in> set (bigblocks st) \<and> bb_pages bb \<in> range pva \<and> arena + SLOB_UNIT < bb_pages bb \<and>
    {bb_at bb ..< bb_at bb + 32} \<inter> {bb_pages bb ..< bb_pages bb + 4096 * 2 ^ bb_order bb} = {}"

primrec holding_pages :: "holding \<Rightarrow> nat set" where
  "holding_pages (Small a) = {}"
| "holding_pages (Large bb) = pages_at (bb_pages bb) (2 ^ bb_order bb)"

text \<open>
  \<open>heap_inv npg arena st H A\<close>: the holdings \<open>H\<close> are apart from each other and from the
  available bytes \<open>A\<close>, those of the free list and of the free pages \<open>F\<close>.
\<close>

definition heap_at :: "u64 \<Rightarrow> nat \<Rightarrow> slob \<Rightarrow> holding set \<Rightarrow> nat set \<Rightarrow> nat set \<Rightarrow> nat set \<Rightarrow> bool" where
  "heap_at npg arena st H A S F \<longleftrightarrow> flist st S \<and> slobfree st \<in> S \<and> above arena st S \<and> (\<forall>p \<in> F. arena + SLOB_UNIT < pva p) \<and>
     page_state npg (slob_pm st) F (\<Union>(holding_pages ` H)) \<and> A = free_bytes st S \<union> page_bytes F \<and>
     free_bytes st S \<inter> page_bytes F = {} \<and> (\<forall>x \<in> H. region st x \<inter> A = {} \<and> holding_ok arena st x) \<and>
     (\<forall>x \<in> H. \<forall>y \<in> H. x \<noteq> y \<longrightarrow> region st x \<inter> region st y = {}) \<and>
     distinct (bigblocks st) \<and> Large ` set (bigblocks st) \<subseteq> H"

definition heap_inv :: "u64 \<Rightarrow> nat \<Rightarrow> slob \<Rightarrow> holding set \<Rightarrow> nat set \<Rightarrow> bool" where
  "heap_inv npg arena st H A \<longleftrightarrow> (\<exists>S F. heap_at npg arena st H A S F)"

lemma heap_atD:
  assumes "heap_at npg arena st H A S F"
  shows "flist st S" and "slobfree st \<in> S" and "above arena st S" and "\<And>p. p \<in> F \<Longrightarrow> arena + SLOB_UNIT < pva p"
    and "page_state npg (slob_pm st) F (\<Union>(holding_pages ` H))" and "A = free_bytes st S \<union> page_bytes F"
    and "free_bytes st S \<inter> page_bytes F = {}" and "\<And>x. x \<in> H \<Longrightarrow> region st x \<inter> A = {}" and "\<And>x. x \<in> H \<Longrightarrow> holding_ok arena st x"
    and "\<And>x y. x \<in> H \<Longrightarrow> y \<in> H \<Longrightarrow> x \<noteq> y \<Longrightarrow> region st x \<inter> region st y = {}"
    and "distinct (bigblocks st)" and "Large ` set (bigblocks st) \<subseteq> H"
proof -
  have h1: "\<forall>x \<in> H. region st x \<inter> A = {} \<and> holding_ok arena st x"
    using assms unfolding heap_at_def by (elim conjE)
  have h2: "\<forall>x \<in> H. \<forall>y \<in> H. x \<noteq> y \<longrightarrow> region st x \<inter> region st y = {}"
    using assms unfolding heap_at_def by (elim conjE)
  from h1 show "region st x \<inter> A = {}" "holding_ok arena st x" if "x \<in> H" for x using that by simp_all
  from h2 show "region st x \<inter> region st y = {}" if "x \<in> H" "y \<in> H" "x \<noteq> y" for x y using that by simp
qed (use assms in \<open>simp_all only: heap_at_def\<close>)

lemma heap_at_listed: "heap_at npg arena st H A S F \<Longrightarrow> Large bb \<in> H \<longleftrightarrow> bb \<in> set (bigblocks st)"
  using heap_atD(9) [of npg arena st H A S F "Large bb"] heap_atD(12) [of npg arena st H A S F] by auto

lemma region_kept:
  assumes "units_kept st st' X" and "region st x \<inter> X = {}" and "holding_ok arena st x"
  shows "region st' x = region st x"
proof (cases x)
  case (Small a)
  then have "a \<notin> X" using assms(2,3) ublock_start [of "sl_units st" a] by auto
  with Small assms(1) show ?thesis by (simp add: units_kept_def ublock_def)
qed simp

lemma holding_kept:
  assumes "units_kept st st' X" and "region st x \<inter> X = {}" and "holding_ok arena st x"
    and "\<And>bb. x = Large bb \<Longrightarrow> bb \<in> set (bigblocks st')"
  shows "holding_ok arena st' x"
proof (cases x)
  case (Small a)
  then have "a \<notin> X" using assms(2,3) ublock_start [of "sl_units st" a] by auto
  with Small assms(1,3) show ?thesis by (simp add: units_kept_def)
qed (use assms(3,4) in simp)

lemma units_kept_mono: "units_kept st st' X \<Longrightarrow> X \<subseteq> Y \<Longrightarrow> units_kept st st' Y"
  by (auto simp: units_kept_def)

lemma units_kept_trans: "units_kept st st' X \<Longrightarrow> units_kept st' st'' X \<Longrightarrow> units_kept st st'' X"
  by (auto simp: units_kept_def)

text \<open>Pages leave the page allocator, a block joins the free list, and both together.\<close>

lemma heap_at_pages:
  assumes hp: "heap_at npg arena st H A S F" and run: "R \<subseteq> F" and ps: "page_state npg m (F - R) (\<Union>(holding_pages ` H) \<union> R)"
  shows "heap_at npg arena (st\<lparr>slob_pm := m\<rparr>) H (A - page_bytes R) S (F - R)"
proof -
  note h = heap_atD [OF hp]
  have pb: "page_bytes R \<subseteq> page_bytes F" using run by (rule page_bytes_mono)
  have un: "sl_units (st\<lparr>slob_pm := m\<rparr>) = sl_units st" by simp
  have reg: "region (st\<lparr>slob_pm := m\<rparr>) x = region st x" "holding_ok arena (st\<lparr>slob_pm := m\<rparr>) x = holding_ok arena st x" for x
    by (cases x; simp)+
  show ?thesis
    unfolding heap_at_def reg
  proof (intro conjI ballI impI)
    show "page_state npg (slob_pm (st\<lparr>slob_pm := m\<rparr>)) (F - R) (\<Union>(holding_pages ` H))"
      using page_state_mono [OF ps Un_upper1] by simp
    show "A - page_bytes R = free_bytes (st\<lparr>slob_pm := m\<rparr>) S \<union> page_bytes (F - R)"
        "free_bytes (st\<lparr>slob_pm := m\<rparr>) S \<inter> page_bytes (F - R) = {}"
      using h(6,7) pb by (auto simp: page_bytes_Diff free_bytes_def)
    show "region st x \<inter> (A - page_bytes R) = {}" if "x \<in> H" for x using h(8) [OF that] by auto
  qed (use h(1,2,3,4,9,10,11,12) in \<open>auto simp: flist_def above_def\<close>)
qed

lemma heap_at_give:
  assumes hp: "heap_at npg arena st H A S F" and b: "arena + SLOB_UNIT < b"
    and u: "u = (if sz = 0 then sl_units st b else SLOB_UNITS sz)" "0 < u"
    and apart: "{b ..< b + 16 * u} \<inter> A = {}" "\<And>x. x \<in> H \<Longrightarrow> region st x \<inter> {b ..< b + 16 * u} = {}"
  obtains st' S' c where "slob_free b sz st = Some st'" and "heap_at npg arena st' H (A \<union> {b ..< b + 16 * u}) S' F"
    and "c \<in> S'" and "u \<le> sl_units st' c" and "units_kept st st' (A \<union> {b ..< b + 16 * u})" and "bigblocks st' = bigblocks st"
proof -
  note h = heap_atD [OF hp]
  let ?B = "{b ..< b + SLOB_UNIT * u}"
  have ap: "?B \<inter> free_bytes st S = {}" using apart(1) h(6) by auto
  from slob_free_spec [OF h(1,2,3) b u ap] obtain st' S' where
    f: "slob_free b sz st = Some st'" "flist st' S'" "slobfree st' \<in> S'" "free_bytes st' S' = free_bytes st S \<union> ?B"
      "above arena st' S'" "units_kept st st' (free_bytes st S \<union> ?B)" "same_heap st st'" "\<exists>c \<in> S'. u \<le> sl_units st' c"
    by metis
  obtain c where c: "c \<in> S'" "u \<le> sl_units st' c" using f(8) by blast
  have kept: "units_kept st st' (A \<union> ?B)" by (rule units_kept_mono [OF f(6)]) (use h(6) in auto)
  have dis: "region st x \<inter> (A \<union> ?B) = {}" if "x \<in> H" for x using h(8) [OF that] apart(2) [OF that] by auto
  have big: "bigblocks st' = bigblocks st" "slob_pm st' = slob_pm st" using f(7) by (auto simp: same_heap_def)
  have reg: "region st' x = region st x" if "x \<in> H" for x by (rule region_kept [OF kept dis [OF that] h(9) [OF that]])
  have ok: "holding_ok arena st' x" if "x \<in> H" for x
    by (rule holding_kept [OF kept dis [OF that] h(9) [OF that]]) (use h(9) [OF that] big in auto)
  show thesis
  proof (rule that [OF f(1) _ c _ big(1)])
    show "heap_at npg arena st' H (A \<union> {b ..< b + 16 * u}) S' F"
      unfolding heap_at_def
    proof (intro conjI ballI impI)
      show "page_state npg (slob_pm st') F (\<Union>(holding_pages ` H))" using h(5) big(2) by simp
      show "A \<union> {b ..< b + 16 * u} = free_bytes st' S' \<union> page_bytes F" "free_bytes st' S' \<inter> page_bytes F = {}"
        using f(4) h(6,7) apart(1) by auto
      show "distinct (bigblocks st')" "Large ` set (bigblocks st') \<subseteq> H" using h(11,12) big by auto
    qed (use f(2,3,5) h(4,10) ok reg dis in auto)
  qed (use kept in simp)
qed

lemma slob_grow_page:
  assumes hp: "heap_at npg arena st H A S F" and p: "{p ..< p + 2 ^ 0} \<subseteq> F" "0x200 \<le> p"
    and ps: "page_state npg m (F - {p ..< p + 2 ^ 0}) (\<Union>(holding_pages ` H) \<union> {p ..< p + 2 ^ 0})"
  obtains st' S' c where "slob_free (pva p) PAGE_SIZE (st\<lparr>slob_pm := m\<rparr>) = Some st'"
    and "heap_at npg arena st' H A S' (F - {p})" and "c \<in> S'" and "256 \<le> sl_units st' c"
    and "units_kept st st' A" and "bigblocks st' = bigblocks st"
proof -
  note h = heap_atD [OF hp]
  let ?st = "st\<lparr>slob_pm := m\<rparr>" and ?B = "{pva p ..< pva p + 16 * 256}"
  have run: "{p ..< p + 2 ^ 0} = {p}" by auto
  have pb: "page_bytes {p} = ?B" using page_bytes_run [of p 1] by simp
  have "page_bytes {p} \<subseteq> page_bytes F" using p by (intro page_bytes_mono) auto
  then have sub: "?B \<subseteq> A" using h(6) pb by auto
  have hp': "heap_at npg arena ?st H (A - ?B) S (F - {p})"
    using heap_at_pages [OF hp p(1) ps] by (simp only: run pb)
  have ar: "arena + SLOB_UNIT < pva p" using h(4) p(1) by auto
  have u: "256 = (if PAGE_SIZE = 0 then sl_units ?st (pva p) else SLOB_UNITS PAGE_SIZE)"
    by (simp add: SLOB_UNITS_def PAGE_SIZE_def)
  have ap: "region ?st x \<inter> ?B = {}" if "x \<in> H" for x
    using h(8) [OF that] sub by (cases x) (auto simp: disjoint_iff)
  have again: "A - ?B \<union> ?B = A" using sub by auto
  from heap_at_give [OF hp' ar u _ _ ap] obtain st' S' c where g:
    "slob_free (pva p) PAGE_SIZE ?st = Some st'" "heap_at npg arena st' H (A - ?B \<union> ?B) S' (F - {p})"
    "c \<in> S'" "256 \<le> sl_units st' c" "units_kept ?st st' (A - ?B \<union> ?B)" "bigblocks st' = bigblocks ?st" by auto
  show thesis
    by (rule that [OF g(1) g(2) [unfolded again] g(3,4)]) (use g(5) [unfolded again] g(6) in \<open>simp_all add: units_kept_def\<close>)
qed

text \<open>The holdings stay apart when bytes leave \<open>A\<close>, or come again from the holding that is given up.\<close>

lemma heap_at_take:
  assumes hp: "heap_at npg arena st H A S F" and prev: "prev \<in> S" and c: "sl_next st prev = c"
    and u: "1 < units" "units \<le> sl_units st c"
    and run: "slob_take units x 0 prev c st = (m, st')"
  obtains S' where "m = c" and "{c ..< c + 16 * units} \<subseteq> A" and "arena + SLOB_UNIT < c"
    and "heap_at npg arena st' H (A - {c ..< c + 16 * units}) S' F" and "sl_units st' c = units" and "units_kept st st' A"
    and "bigblocks st' = bigblocks st"
proof -
  note h = heap_atD [OF hp]
  note d = flistD [OF h(1)]
  have cS: "c \<in> S" using ringD(1) [OF d(1) prev] c by simp
  have ca: "c \<noteq> arena" using u h(3) by (auto simp: above_def)
  have pc: "prev \<noteq> c"
  proof
    assume "prev = c"
    then have "after S c c" using ringD(2) [OF d(1) prev] c by simp
    then have "S = {c}" using cS by (fastforce simp: after_def)
    with ca h(3) show False by (simp add: above_def)
  qed
  from slob_take_spec [OF h(1) prev c pc _ u(2) h(3) ca run] u(1) obtain S' where
    t: "m = c" "flist st' S'" "slobfree st' \<in> S'" "above arena st' S'" "{c ..< c + SLOB_UNIT * units} \<subseteq> free_bytes st S"
      "arena + SLOB_UNIT < c" "free_bytes st' S' = free_bytes st S - {c ..< c + SLOB_UNIT * units}" "sl_units st' c = units"
      "units_kept st st' (free_bytes st S)" "same_heap st st'" by auto
  have kept: "units_kept st st' A" using units_kept_mono [OF t(9)] h(6) by simp
  have big: "bigblocks st' = bigblocks st" "slob_pm st' = slob_pm st" using t(10) by (simp_all add: same_heap_def)
  have reg: "region st' y = region st y" if "y \<in> H" for y
    using region_kept [OF kept h(8) [OF that] h(9) [OF that]] .
  have ok: "holding_ok arena st' y" if "y \<in> H" for y
    by (rule holding_kept [OF kept h(8) [OF that] h(9) [OF that]]) (use h(9) [OF that] big in auto)
  show thesis
  proof (rule that [OF t(1) _ t(6) _ t(8) kept big(1)])
    show "heap_at npg arena st' H (A - {c ..< c + 16 * units}) S' F"
      unfolding heap_at_def
    proof (intro conjI ballI impI)
      show "page_state npg (slob_pm st') F (\<Union>(holding_pages ` H))" using h(5) big(2) by simp
      show "A - {c ..< c + 16 * units} = free_bytes st' S' \<union> page_bytes F" "free_bytes st' S' \<inter> page_bytes F = {}"
        using t(5,7) h(6,7) by auto
      show "region st' y \<inter> (A - {c ..< c + 16 * units}) = {}" if "y \<in> H" for y using h(8) [OF that] reg [OF that] by auto
      show "distinct (bigblocks st')" "Large ` set (bigblocks st') \<subseteq> H" using h(11,12) big by auto
    qed (use t(2,3,4) h(4,10) ok reg in auto)
  qed (use t(5) h(6) in auto)
qed

lemma slob_alloc_spec:
  assumes hp: "heap_at npg arena st H A S F" and sz: "16 < sz" "sz + 16 < 4096"
  obtains (fails) "slob_alloc npg sz 0 st = Some (0, st)" and "F = {}"
  | (gets) c st' S' F' where "slob_alloc npg sz 0 st = Some (c, st')" and "{c ..< c + 16 * SLOB_UNITS sz} \<subseteq> A"
    and "arena + SLOB_UNIT < c" and "heap_at npg arena st' H (A - {c ..< c + 16 * SLOB_UNITS sz}) S' F'"
    and "sl_units st' c = SLOB_UNITS sz" and "units_kept st st' A" and "bigblocks st' = bigblocks st"
proof -
  note h = heap_atD [OF hp]
  let ?u = "SLOB_UNITS sz"
  have u: "1 < ?u" "?u \<le> 256" and szp: "sz \<noteq> PAGE_SIZE" using sz by (auto simp: SLOB_UNITS_def PAGE_SIZE_def)
  let ?l = "\<lambda>st. slob_alloc_loop npg sz ?u 0 (slobfree st) (sl_next st (slobfree st)) st"
  have run: "slob_alloc npg sz 0 st = ?l st" using sz by (simp add: slob_alloc_def PAGE_SIZE_def Let_def)
  have search: thesis
    if hp': "heap_at npg arena s H A S' F'" and k: "units_kept st s A" "bigblocks s = bigblocks st"
      and big: "c \<in> S'" "?u \<le> sl_units s c" and r: "slob_alloc npg sz 0 st = ?l s" for s S' F' c
  proof -
    note h' = heap_atD [OF hp']
    from slob_search_found [OF flistD(1) [OF h'(1)] h'(2) szp big] obtain prev where
      p: "prev \<in> S'" "?u \<le> sl_units s (sl_next s prev)" "?l s = Some (slob_take ?u 0 0 prev (sl_next s prev) s)" by metis
    obtain m st' where t: "slob_take ?u 0 0 prev (sl_next s prev) s = (m, st')" by fastforce
    from heap_at_take [OF hp' p(1) refl u(1) p(2) t] show thesis
      using gets p(3) t r units_kept_trans [OF k(1)] k(2) by metis
  qed
  show thesis
  proof (cases "\<exists>c \<in> S. ?u \<le> sl_units st c")
    case True
    then obtain c where "c \<in> S" "?u \<le> sl_units st c" by blast
    then show thesis by (rule search [OF hp _ refl, rotated]) (auto simp: run units_kept_def)
  next
    case False
    have r: "slob_alloc npg sz 0 st = slob_grow npg sz ?u st"
      unfolding run by (rule slob_search_misses [OF flistD(1) [OF h(1)] h(2) szp]) (use False in auto)
    show thesis
    proof (rule get_free_pages_spec [OF h(5), of 0])
      assume "slob_get_free_pages npg 0 st = Some (0, st)" "0 = (0::nat) \<Longrightarrow> F = {}"
      then show thesis using fails r by (simp add: slob_grow_def)
    next
      fix p m
      assume g: "slob_get_free_pages npg 0 st = Some (pva p, st\<lparr>slob_pm := m\<rparr>)" "{p ..< p + 2 ^ 0} \<subseteq> F" "0x200 \<le> p"
        "page_state npg m (F - {p ..< p + 2 ^ 0}) ((\<Union>(holding_pages ` H)) \<union> {p ..< p + 2 ^ 0})"
      from slob_grow_page [OF hp g(2-4)] obtain s S' c where
        s: "slob_free (pva p) PAGE_SIZE (st\<lparr>slob_pm := m\<rparr>) = Some s" "heap_at npg arena s H A S' (F - {p})"
          "c \<in> S'" "256 \<le> sl_units s c" "units_kept st s A" "bigblocks s = bigblocks st" by blast
      have "slob_alloc npg sz 0 st = ?l s"
        using g(1) s(1) unfolding r slob_grow_def by simp
      then show thesis using search [OF s(2,5,6,3)] s(4) u(2) by simp
    qed
  qed
qed
section \<open>kmalloc and kfree on the heap\<close>

lemma find_order_bounds:
  "4096 < n \<Longrightarrow> n < 4097 * 2 ^ find_order n \<and> 4096 * 2 ^ find_order n < 2 * n" "0 \<le> n \<Longrightarrow> n < 4097 * 2 ^ find_order n"
proof -
  have b: "n < 4097 * 2 ^ find_order n \<and> (4096 < n \<longrightarrow> 4096 * 2 ^ find_order n < 2 * n)" if "0 \<le> n" for n
    using that
  proof (induction n rule: find_order.induct)
    case (1 n)
    show ?case
    proof (cases "4096 < n")
      case True
      then have "n div 2 < 4097 * 2 ^ find_order (n div 2) \<and> (4096 < n div 2 \<longrightarrow> 4096 * 2 ^ find_order (n div 2) < 2 * (n div 2))"
        using 1 by simp
      moreover have "find_order (n div 2) = 0" if "\<not> 4096 < n div 2" using that by (subst find_order.simps) simp
      moreover have "find_order n = Suc (find_order (n div 2))" using True by (subst find_order.simps) simp
      ultimately show ?thesis using True by (cases "4096 < n div 2") auto
    next
      case False
      then show ?thesis by (subst (1 2) find_order.simps) simp
    qed
  qed
  show "4096 < n \<Longrightarrow> n < 4097 * 2 ^ find_order n \<and> 4096 * 2 ^ find_order n < 2 * n" "0 \<le> n \<Longrightarrow> n < 4097 * 2 ^ find_order n"
    using b by auto
qed

text \<open>A holding is added, or given up; its node is on the list of the large blocks.\<close>

lemma heap_at_hold:
  assumes hp: "heap_at npg arena st H A S F" and x: "region st x \<inter> A = {}" "\<And>y. y \<in> H \<Longrightarrow> region st y \<inter> region st x = {}"
    and ps: "page_state npg (slob_pm st) F (\<Union>(holding_pages ` insert x H))"
    and l: "distinct l" "Large ` set l \<subseteq> insert x H" "set (bigblocks st) \<subseteq> set l"
    and ok: "holding_ok arena (st\<lparr>bigblocks := l\<rparr>) x"
  shows "heap_at npg arena (st\<lparr>bigblocks := l\<rparr>) (insert x H) A S F"
proof -
  note h = heap_atD [OF hp]
  have reg: "region (st\<lparr>bigblocks := l\<rparr>) y = region st y" for y by (cases y) simp_all
  have old: "holding_ok arena (st\<lparr>bigblocks := l\<rparr>) y" if "y \<in> H" for y
    using h(9) [OF that] l(3) by (cases y) auto
  have dis: "region st y \<inter> region st z = {}" if "y \<in> insert x H" "z \<in> insert x H" "y \<noteq> z" for y z
    using that x(2) h(10) by (metis inf_commute insertE)
  show ?thesis
    unfolding heap_at_def reg
  proof (intro conjI ballI impI)
    show "A = free_bytes (st\<lparr>bigblocks := l\<rparr>) S \<union> page_bytes F" "free_bytes (st\<lparr>bigblocks := l\<rparr>) S \<inter> page_bytes F = {}"
      using h(6,7) by (simp_all add: free_bytes_def)
    show "region st y \<inter> A = {}" if "y \<in> insert x H" for y using that x(1) h(8) by (elim insertE) simp_all
    show "holding_ok arena (st\<lparr>bigblocks := l\<rparr>) y" if "y \<in> insert x H" for y using that ok old by (elim insertE) simp_all
    show "region st y \<inter> region st z = {}" if "y \<in> insert x H" "z \<in> insert x H" "y \<noteq> z" for y z using that by (rule dis)
  qed (use h(1,2,3,4) l(1,2) ps in \<open>simp_all add: flist_def above_def\<close>)
qed

lemma heap_at_drop:
  assumes hp: "heap_at npg arena st H A S F"
    and l: "distinct l" "Large ` set l \<subseteq> H - {x}" "\<And>bb. Large bb \<in> H - {x} \<Longrightarrow> bb \<in> set l"
  shows "heap_at npg arena (st\<lparr>bigblocks := l\<rparr>) (H - {x}) A S F"
proof -
  note h = heap_atD [OF hp]
  have reg: "region (st\<lparr>bigblocks := l\<rparr>) y = region st y" for y by (cases y) simp_all
  have ok: "holding_ok arena (st\<lparr>bigblocks := l\<rparr>) y" if "y \<in> H - {x}" for y
    using h(9) [of y] l(3) that by (cases y) auto
  have fewer: "\<Union>(holding_pages ` (H - {x})) \<subseteq> \<Union>(holding_pages ` H)" by blast
  show ?thesis
    unfolding heap_at_def reg
  proof (intro conjI ballI impI)
    show "page_state npg (slob_pm (st\<lparr>bigblocks := l\<rparr>)) F (\<Union>(holding_pages ` (H - {x})))"
      using page_state_mono [OF h(5) fewer] by simp
    show "A = free_bytes (st\<lparr>bigblocks := l\<rparr>) S \<union> page_bytes F" "free_bytes (st\<lparr>bigblocks := l\<rparr>) S \<inter> page_bytes F = {}"
      using h(6,7) by (simp_all add: free_bytes_def)
  qed (use h(1,2,3,4,8,10) l ok in \<open>auto simp: flist_def above_def\<close>)
qed

lemma page_state_empty: "page_state npg m {} G \<Longrightarrow> nr_free m = 0"
  unfolding page_state_def using pmm_inv_total(1) by (metis card.empty unat_eq_zero)

lemma kmalloc_small:
  assumes hp: "heap_inv npg arena st H A" and n: "0 < n" "n < 4064"
  shows "\<exists>p st'. kmalloc npg n st = Some (p, st') \<and>
    (if p = 0 then st' = st \<and> nr_free (slob_pm st) = 0
     else 16 < p \<and> Small (p - 16) \<notin> H \<and> region st' (Small (p - 16)) \<subseteq> A \<and> {p ..< p + n} \<subseteq> region st' (Small (p - 16)) \<and>
       heap_inv npg arena st' (insert (Small (p - 16)) H) (A - region st' (Small (p - 16))) \<and>
       (\<forall>y \<in> H. region st' y = region st y))"
proof -
  from hp obtain S F where hp: "heap_at npg arena st H A S F" by (auto simp: heap_inv_def)
  note h = heap_atD [OF hp]
  have km: "kmalloc npg n st = do { (m, st) \<leftarrow> slob_alloc npg (n + 16) 0 st; Some (if m \<noteq> 0 then m + 16 else 0, st) }"
    using n by (simp add: kmalloc_def PAGE_SIZE_def cong: if_cong)
  let ?u = "SLOB_UNITS (n + 16)"
  have u: "1 < ?u" "n + 16 \<le> 16 * ?u" using n by (auto simp: SLOB_UNITS_def)
  from hp show ?thesis
  proof (rule slob_alloc_spec [of npg arena st H A S F "n + 16"])
    assume "slob_alloc npg (n + 16) 0 st = Some (0, st)" "F = {}"
    then show ?thesis using page_state_empty h(5) by (simp add: km)
  next
    fix c st' S' F'
    let ?B = "{c ..< c + 16 * ?u}"
    assume a: "slob_alloc npg (n + 16) 0 st = Some (c, st')" "?B \<subseteq> A" "arena + SLOB_UNIT < c"
      "heap_at npg arena st' H (A - ?B) S' F'" "sl_units st' c = ?u" "units_kept st st' A"
    note h' = heap_atD [OF a(4)]
    have reg: "region st' (Small c) = ?B" using a(5) by (simp add: ublock_def)
    have old: "region st' y = region st y" if "y \<in> H" for y
      by (rule region_kept [OF a(6) h(8) [OF that] h(9) [OF that]])
    have new: "Small c \<notin> H"
    proof
      assume c: "Small c \<in> H"
      have "c \<in> ?B" using u(1) by simp
      with h(8) [OF c] old [OF c] reg a(2) show False by blast
    qed
    have "heap_at npg arena st' (insert (Small c) H) (A - ?B) S' F'"
    proof (rule heap_at_hold [OF a(4), of "Small c" "bigblocks st'", simplified])
      show "ublock (sl_units st') c \<inter> (A - ?B) = {}" using reg by auto
      show "region st' y \<inter> ublock (sl_units st') c = {}" if "y \<in> H" for y
        using h(8) [OF that] old [OF that] reg a(2) by auto
    qed (use a(3,5) u(1) h'(5,11,12) in auto)
    then show ?thesis using a u(2) reg old new by (auto simp: km heap_inv_def)
  qed (use n in auto)
qed
lemma slob_units_24 [simp]: "SLOB_UNITS BIGBLOCK_SIZE = 2"
  by (simp add: SLOB_UNITS_def BIGBLOCK_SIZE_def)

lemma kmalloc_large:
  assumes hp: "heap_inv npg arena st H A" and n: "4080 \<le> n" "n < 2 ^ 31"
  shows "\<exists>p st'. kmalloc npg n st = Some (p, st') \<and>
    (if p = 0 then heap_inv npg arena st' H A \<and> (\<forall>y \<in> H. region st' y = region st y)
     else \<exists>bb. Large bb \<notin> H \<and> bb_pages bb = p \<and> n < 4097 * 2 ^ bb_order bb \<and> region st' (Large bb) \<subseteq> A \<and>
       heap_inv npg arena st' (insert (Large bb) H) (A - region st' (Large bb)) \<and> (\<forall>y \<in> H. region st' y = region st y))"
proof -
  from hp obtain S F where hp: "heap_at npg arena st H A S F" by (auto simp: heap_inv_def)
  note h = heap_atD [OF hp]
  define k where "k = find_order (sint (of_nat n :: 32 word))"
  have "sint (of_nat n :: 32 word) = int n"
    using n(2) by (simp add: signed_of_nat signed_take_bit_int_eq_self)
  with find_order_bounds(2) [of "int n"] have "int n < int (4097 * 2 ^ k)" by (simp add: k_def)
  then have k: "n < 4097 * 2 ^ k" by (simp only: of_nat_less_iff)
  have km: "kmalloc npg n st = do {
      (bb, st) \<leftarrow> slob_alloc npg BIGBLOCK_SIZE 0 st;
      if bb = 0 then Some (0, st)
      else do {
        (pgs, st) \<leftarrow> slob_get_free_pages npg k st;
        if pgs \<noteq> 0
        then Some (pgs, st\<lparr>bigblocks := \<lparr>bb_at = bb, bb_order = k, bb_pages = pgs\<rparr> # bigblocks st\<rparr>)
        else do { st \<leftarrow> slob_free bb BIGBLOCK_SIZE st; Some (0, st) } } }"
    using n by (simp add: kmalloc_def PAGE_SIZE_def k_def Let_def cong: if_cong)
  from hp show ?thesis
  proof (rule slob_alloc_spec [of npg arena st H A S F BIGBLOCK_SIZE])
    assume "slob_alloc npg BIGBLOCK_SIZE 0 st = Some (0, st)"
    then show ?thesis using hp by (auto simp: km heap_inv_def)
  next
    fix c s S' F'
    let ?B = "{c ..< c + 16 * SLOB_UNITS BIGBLOCK_SIZE}"
    assume a: "slob_alloc npg BIGBLOCK_SIZE 0 st = Some (c, s)" "?B \<subseteq> A" "arena + SLOB_UNIT < c"
      "heap_at npg arena s H (A - ?B) S' F'" "units_kept st s A" "bigblocks s = bigblocks st"
    note h' = heap_atD [OF a(4)]
    have c0: "c \<noteq> 0" using a(3) by simp
    have old: "region s y = region st y" if "y \<in> H" for y
      by (rule region_kept [OF a(5) h(8) [OF that] h(9) [OF that]])
    show ?thesis
    proof (rule get_free_pages_spec [OF h'(5), of k])
      assume g: "slob_get_free_pages npg k s = Some (0, s)"
      have ap: "region s y \<inter> {c ..< c + 16 * 2} = {}" if "y \<in> H" for y
        using old [OF that] h(8) [OF that] a(2) by auto
      have ap1: "{c ..< c + 16 * 2} \<inter> (A - ?B) = {}" by auto
      have u2: "2 = (if BIGBLOCK_SIZE = 0 then sl_units s c else SLOB_UNITS BIGBLOCK_SIZE)"
        unfolding slob_units_24 by (simp add: BIGBLOCK_SIZE_def)
      from heap_at_give [OF a(4,3) u2 zero_less_numeral ap1 ap] obtain st' S'' where
        f: "slob_free c BIGBLOCK_SIZE s = Some st'" "heap_at npg arena st' H (A - ?B \<union> {c ..< c + 16 * 2}) S'' F'"
          "units_kept s st' (A - ?B \<union> {c ..< c + 16 * 2})" by metis
      have again: "A - ?B \<union> {c ..< c + 16 * 2} = A" using a(2) by auto
      have "region st' y = region s y" if "y \<in> H" for y
        by (rule region_kept [OF f(3)]) (use again h(8) [OF that] old [OF that] h'(9) [OF that] in auto)
      moreover have "kmalloc npg n st = Some (0, st')" using a(1) g f(1) c0 by (simp add: km)
      ultimately show ?thesis using f(2) [unfolded again] old by (auto simp: heap_inv_def)
    next
      fix p :: nat and m
      let ?R = "{p ..< p + 2 ^ k}"
      assume g: "slob_get_free_pages npg k s = Some (pva p, s\<lparr>slob_pm := m\<rparr>)" "?R \<subseteq> F'" "0x200 \<le> p"
        "page_state npg m (F' - ?R) (\<Union>(holding_pages ` H) \<union> ?R)"
      define bb where "bb = \<lparr>bb_at = c, bb_order = k, bb_pages = pva p\<rparr>"
      define s1 where "s1 = s\<lparr>slob_pm := m\<rparr>"
      define st' where "st' = s1\<lparr>bigblocks := bb # bigblocks s1\<rparr>"
      have run: "kmalloc npg n st = Some (pva p, st')"
        using a(1) g(1) c0 by (simp add: km st'_def s1_def bb_def)
      have pb: "page_bytes ?R = {pva p ..< pva p + 4096 * 2 ^ k}" by (rule page_bytes_run)
      have reg: "region t (Large bb) = ?B \<union> page_bytes ?R" for t by (simp add: bb_def pb)
      have "page_bytes ?R \<subseteq> page_bytes F'" using g(2) by (rule page_bytes_mono)
      then have sub: "region t (Large bb) \<subseteq> A" for t using a(2) h'(6) reg by auto
      have new: "Large bb \<notin> H"
      proof
        assume "Large bb \<in> H"
        from h(8) [OF this] sub [of st] have none: "region st (Large bb) = {}" by blast
        have "c \<in> region st (Large bb)" by (simp add: bb_def)
        with none show False by blast
      qed
      have s1: "heap_at npg arena s1 H (A - ?B - page_bytes ?R) S' (F' - ?R)"
        unfolding s1_def by (rule heap_at_pages [OF a(4) g(2,4)])
      have Aeq: "A - ?B - page_bytes ?R = A - region t (Large bb)" for t unfolding reg by auto
      have olds: "region st' y = region st y" if "y \<in> H" for y
        using old [OF that] by (cases y) (auto simp: st'_def s1_def)
      have bs: "distinct (bb # bigblocks s1)" "Large ` set (bigblocks s1) \<subseteq> H"
        using heap_atD(11,12) [OF s1] new by auto
      have "heap_at npg arena st' (insert (Large bb) H) (A - region st' (Large bb)) S' (F' - ?R)"
        unfolding st'_def Aeq [symmetric]
      proof (rule heap_at_hold [OF s1])
        show "region s1 (Large bb) \<inter> (A - ?B - page_bytes ?R) = {}" unfolding reg by auto
        show "region s1 y \<inter> region s1 (Large bb) = {}" if "y \<in> H" for y
          using h(8) [OF that] old [OF that] sub [of s1] olds [OF that] by (cases y) (auto simp: st'_def s1_def)
        show "page_state npg (slob_pm s1) (F' - ?R) (\<Union>(holding_pages ` insert (Large bb) H))"
          using g(4) by (simp add: s1_def bb_def pages_at_pva Un_commute)
        show "holding_ok arena (s1\<lparr>bigblocks := bb # bigblocks s1\<rparr>) (Large bb)"
        proof -
          have "?B \<inter> page_bytes ?R = {}" using h'(6) page_bytes_mono [OF g(2)] by blast
          then show ?thesis using a(3) h'(4) [of p] g(2) by (simp add: bb_def pb subset_iff)
        qed
      qed (use bs in auto)
      then have "heap_inv npg arena st' (insert (Large bb) H) (A - region st' (Large bb))" unfolding heap_inv_def by blast
      moreover have "bb_pages bb = pva p" "n < 4097 * 2 ^ bb_order bb" using k by (simp_all add: bb_def)
      ultimately show ?thesis using run new sub [of st'] olds by (intro exI [of _ "pva p"] exI [of _ st'])
        (simp only: pva_nonzero if_False, blast)
    qed
  qed (simp_all add: BIGBLOCK_SIZE_def)
qed

lemma heap_at_unpages:
  assumes hp: "heap_at npg arena st H A S F" and ps: "page_state npg m (F \<union> R) (\<Union>(holding_pages ` H))"
    and R: "\<And>p. p \<in> R \<Longrightarrow> arena + SLOB_UNIT < pva p" "page_bytes R \<inter> A = {}" "\<And>x. x \<in> H \<Longrightarrow> region st x \<inter> page_bytes R = {}"
  shows "heap_at npg arena (st\<lparr>slob_pm := m\<rparr>) H (A \<union> page_bytes R) S (F \<union> R)"
proof -
  note h = heap_atD [OF hp]
  have reg: "region (st\<lparr>slob_pm := m\<rparr>) x = region st x" "holding_ok arena (st\<lparr>slob_pm := m\<rparr>) x = holding_ok arena st x" for x
    by (cases x; simp)+
  show ?thesis
    unfolding heap_at_def reg
  proof (intro conjI ballI impI)
    show "A \<union> page_bytes R = free_bytes (st\<lparr>slob_pm := m\<rparr>) S \<union> page_bytes (F \<union> R)"
        "free_bytes (st\<lparr>slob_pm := m\<rparr>) S \<inter> page_bytes (F \<union> R) = {}"
      using h(6,7) R(2) by (auto simp: page_bytes_Un free_bytes_def)
    show "region st x \<inter> (A \<union> page_bytes R) = {}" if "x \<in> H" for x using h(8) [OF that] R(3) [OF that] by auto
  qed (use h(1,2,3,4,9,10,11,12) ps R(1) in \<open>auto simp: flist_def above_def\<close>)
qed

lemma find_bigblock:
  assumes hp: "heap_at npg arena st H A S F" and bb: "Large bb \<in> H"
  shows "find (\<lambda>b. bb_pages b = bb_pages bb) (bigblocks st) = Some bb"
proof -
  note h = heap_atD [OF hp]
  have mem: "bb \<in> set (bigblocks st)" using h(9) [OF bb] by simp
  have un: "b = bb" if "b \<in> set (bigblocks st)" "bb_pages b = bb_pages bb" for b
  proof (rule ccontr)
    assume "b \<noteq> bb"
    then have "region st (Large b) \<inter> region st (Large bb) = {}"
      using h(10) [of "Large b" "Large bb"] heap_at_listed [OF hp, of b] bb that(1) by simp
    moreover have "bb_pages bb \<in> region st (Large b) \<inter> region st (Large bb)" using that(2) by simp
    ultimately show False by blast
  qed
  obtain b where "find (\<lambda>b. bb_pages b = bb_pages bb) (bigblocks st) = Some b"
    using mem by (cases "find (\<lambda>b. bb_pages b = bb_pages bb) (bigblocks st)") (auto simp: find_None_iff)
  moreover from this have "b \<in> set (bigblocks st)" "bb_pages b = bb_pages bb" by (auto simp: find_Some_iff)
  ultimately show ?thesis using un by simp
qed

lemma kfree_small:
  assumes hp: "heap_inv npg arena st H A" and a: "Small a \<in> H"
  shows "\<exists>st'. kfree npg (a + 16) st = Some st' \<and> heap_inv npg arena st' (H - {Small a}) (A \<union> region st (Small a)) \<and>
    (\<forall>y \<in> H - {Small a}. region st' y = region st y)"
proof -
  from hp obtain S F where hp: "heap_at npg arena st H A S F" by (auto simp: heap_inv_def)
  note h = heap_atD [OF hp]
  let ?u = "sl_units st a" and ?B = "{a ..< a + 16 * sl_units st a}"
  have ok: "arena + SLOB_UNIT < a" "1 < ?u" using h(9) [OF a] by auto
  have none: "find (\<lambda>b. bb_pages b = a + 16) (bigblocks st) = None"
    unfolding find_None_iff
  proof
    assume "\<exists>b. b \<in> set (bigblocks st) \<and> bb_pages b = a + 16"
    then obtain b where b: "b \<in> set (bigblocks st)" "bb_pages b = a + 16" by blast
    then have "region st (Large b) \<inter> region st (Small a) = {}"
      using h(10) [of "Large b" "Small a"] heap_at_listed [OF hp, of b] a by simp
    moreover have "a + 16 \<in> region st (Large b) \<inter> region st (Small a)" using b(2) ok(2) by (simp add: mem_ublock)
    ultimately show False by blast
  qed
  have kf: "kfree npg (a + 16) st = slob_free a 0 st" using none by (simp add: kfree_def)
  have "heap_at npg arena (st\<lparr>bigblocks := bigblocks st\<rparr>) (H - {Small a}) A S F"
    by (rule heap_at_drop [OF hp]) (use heap_at_listed [OF hp] h(11) in auto)
  then have d: "heap_at npg arena st (H - {Small a}) A S F" by simp
  have reg: "region st (Small a) = ?B" by (simp add: ublock_def)
  have ap: "?B \<inter> A = {}" using h(8) [OF a] reg by simp
  have ap2: "region st x \<inter> ?B = {}" if "x \<in> H - {Small a}" for x using h(10) [of x "Small a"] that a reg by simp
  have u: "?u = (if 0 = (0::nat) then sl_units st a else SLOB_UNITS 0)" by simp
  from heap_at_give [OF d ok(1) u _ ap ap2] ok(2) obtain st' S' where
    g: "slob_free a 0 st = Some st'" "heap_at npg arena st' (H - {Small a}) (A \<union> ?B) S' F" "units_kept st st' (A \<union> ?B)"
    by (metis gr_implies_not0 not_gr_zero)
  have "region st' x = region st x" if x: "x \<in> H - {Small a}" for x
    by (rule region_kept [OF g(3) _ h(9)]) (use x h(8) [of x] ap2 [OF x] in auto)
  then show ?thesis using kf g(1,2) unfolding reg heap_inv_def by auto
qed

lemma kfree_large:
  assumes hp: "heap_inv npg arena st H A" and bb: "Large bb \<in> H" and safe: "link_safe st (bb_pages bb)"
  shows "\<exists>st'. kfree npg (bb_pages bb) st = Some st' \<and> heap_inv npg arena st' (H - {Large bb}) (A \<union> region st (Large bb)) \<and>
    (\<forall>y \<in> H - {Large bb}. region st' y = region st y)"
proof -
  from hp obtain S F where hp: "heap_at npg arena st H A S F" by (auto simp: heap_inv_def)
  note h = heap_atD [OF hp]
  have ok: "arena + SLOB_UNIT < bb_at bb" "bb \<in> set (bigblocks st)" "bb_pages bb \<in> range pva" using h(9) [OF bb] by auto
  then obtain p where p: "bb_pages bb = pva p" by blast
  let ?k = "bb_order bb" and ?b = "bb_at bb" and ?H = "H - {Large bb}"
  let ?R = "{p ..< p + 2 ^ ?k}" and ?B = "{bb_at bb ..< bb_at bb + 16 * 2}"
  let ?s = "st\<lparr>bigblocks := remove1 bb (bigblocks st)\<rparr>"
  have pb: "page_bytes ?R = {pva p ..< pva p + 4096 * 2 ^ ?k}" by (rule page_bytes_run)
  have reg: "region st (Large bb) = ?B \<union> page_bytes ?R" by (simp add: pb p)
  have d: "heap_at npg arena ?s ?H A S F"
    by (rule heap_at_drop [OF hp]) (use heap_at_listed [OF hp] h(11) in auto)
  have rs: "region ?s x = region st x" for x by (cases x) simp_all
  have apart: "region st x \<inter> (?B \<union> page_bytes ?R) = {}" if "x \<in> ?H" for x
    using h(10) [of x "Large bb"] that bb unfolding reg by blast
  have apA: "(?B \<union> page_bytes ?R) \<inter> A = {}" using h(8) [OF bb] unfolding reg .
  have RF: "?R \<inter> F = {}" using apA h(6) pva_in_bytes by blast
  have RG: "?R \<subseteq> \<Union>(holding_pages ` H)" 
  proof -
    have "holding_pages (Large bb) = ?R" by (simp add: p pages_at_pva)
    with bb show ?thesis by (metis UN_upper)
  qed
  have HG: "\<Union>(holding_pages ` ?H) \<subseteq> \<Union>(holding_pages ` H) - ?R"
  proof
    fix q assume "q \<in> \<Union>(holding_pages ` ?H)"
    then obtain x where x: "x \<in> ?H" "q \<in> holding_pages x" by blast
    then obtain b where "x = Large b" by (cases x) simp_all
    with x have b: "Large b \<in> ?H" "q \<in> pages_at (bb_pages b) (2 ^ bb_order b)" by simp_all
    then have "pva q \<in> region st (Large b)" by (simp add: pages_at_def)
    then have "q \<notin> ?R" using apart [OF b(1)] pva_in_bytes by blast
    with x show "q \<in> \<Union>(holding_pages ` H) - ?R" by blast
  qed
  have ar: "arena + SLOB_UNIT < pva q" if "q \<in> ?R" for q
    using h(9) [OF bb] that p pva_simps(3) [of p q] by (auto simp del: pva_simps)
  from h(5) have ps: "page_state npg (slob_pm ?s) F (\<Union>(holding_pages ` H))" by simp
  have "link_safe ?s (pva p)" using safe p by (simp add: link_safe_def)
  from free_pages_spec [OF ps RG RF this] obtain m where
    m: "slob_free_pages npg (pva p) ?k ?s = Some (?s\<lparr>slob_pm := m\<rparr>)" "page_state npg m (F \<union> ?R) (\<Union>(holding_pages ` H) - ?R)" .
  have s1: "heap_at npg arena (?s\<lparr>slob_pm := m\<rparr>) ?H (A \<union> page_bytes ?R) S (F \<union> ?R)"
    by (rule heap_at_unpages [OF d page_state_mono [OF m(2) HG]]) 
      (use ar in simp, use apA in blast, use apart rs in blast)
  have u: "2 = (if BIGBLOCK_SIZE = 0 then sl_units (?s\<lparr>slob_pm := m\<rparr>) ?b else SLOB_UNITS BIGBLOCK_SIZE)"
    unfolding slob_units_24 by (simp add: BIGBLOCK_SIZE_def)
  have rs1: "region (?s\<lparr>slob_pm := m\<rparr>) x = region st x" for x by (cases x) simp_all
  have BR: "?B \<inter> page_bytes ?R = {}" using h(9) [OF bb] by (simp add: pb p)
  have ap1: "?B \<inter> (A \<union> page_bytes ?R) = {}" using apA BR by blast
  have ap2: "region (?s\<lparr>slob_pm := m\<rparr>) x \<inter> ?B = {}" if "x \<in> ?H" for x using apart [OF that] unfolding rs1 by blast
  from heap_at_give [OF s1 ok(1) u zero_less_numeral ap1 ap2] obtain st' S' where
    g: "slob_free ?b BIGBLOCK_SIZE (?s\<lparr>slob_pm := m\<rparr>) = Some st'" "heap_at npg arena st' ?H (A \<union> page_bytes ?R \<union> ?B) S' (F \<union> ?R)"
      "units_kept (?s\<lparr>slob_pm := m\<rparr>) st' (A \<union> page_bytes ?R \<union> ?B)" by metis
  have kf: "kfree npg (bb_pages bb) st = Some st'"
    using find_bigblock [OF hp bb] m(1) g(1) by (simp add: kfree_def p pva_def PAGE_SIZE_def)
  have "region st' x = region st x" if x: "x \<in> ?H" for x
  proof -
    have "region st' x = region (?s\<lparr>slob_pm := m\<rparr>) x"
    proof (rule region_kept [OF g(3)])
      show "region (?s\<lparr>slob_pm := m\<rparr>) x \<inter> (A \<union> page_bytes ?R \<union> ?B) = {}"
        unfolding rs1 using h(8) [of x] x apart [OF x] by blast
      show "holding_ok arena (?s\<lparr>slob_pm := m\<rparr>) x" by (rule heap_atD(9) [OF s1 x])
    qed
    then show ?thesis unfolding rs1 .
  qed
  moreover have "A \<union> page_bytes ?R \<union> ?B = A \<union> region st (Large bb)" unfolding reg by blast
  ultimately show ?thesis using kf g(2) unfolding heap_inv_def by metis
qed

text \<open>Above the last free block the pages go back too, but the free list of pages is damaged.\<close>

lemma slob_find_pm: "slob_find b cur st = Some r \<Longrightarrow> slob_find b cur (st\<lparr>slob_pm := m\<rparr>) = Some r"
proof (erule slob_find.raw_induct [where P = "\<lambda>b cur st r. slob_find b cur (st\<lparr>slob_pm := m\<rparr>) = Some r", rotated])
  fix f b cur st r
  assume ih: "\<And>b cur st r. f b cur st = Some r \<Longrightarrow> slob_find b cur (st\<lparr>slob_pm := m\<rparr>) = Some r"
    and e: "(let nx = sl_next st cur in if b > cur \<and> b < nx then Some cur
      else if cur \<ge> nx \<and> (b > cur \<or> b < nx) then Some cur else f b nx st) = Some r"
  then show "slob_find b cur (st\<lparr>slob_pm := m\<rparr>) = Some r"
    by (subst slob_find.simps) (auto simp: Let_def split: if_splits)
qed

lemma slob_free_pm: "slob_free b sz st = Some st' \<Longrightarrow> slob_free b sz (st\<lparr>slob_pm := m\<rparr>) = Some (st'\<lparr>slob_pm := m\<rparr>)"
proof -
  assume run: "slob_free b sz st = Some st'"
  have pull: "upd_next a c (t\<lparr>slob_pm := m\<rparr>) = (upd_next a c t)\<lparr>slob_pm := m\<rparr>"
    "upd_units a c (t\<lparr>slob_pm := m\<rparr>) = (upd_units a c t)\<lparr>slob_pm := m\<rparr>"
    "(if P then t\<lparr>slob_pm := m\<rparr> else t'\<lparr>slob_pm := m\<rparr>) = (if P then t else t')\<lparr>slob_pm := m\<rparr>"
    "t\<lparr>slob_pm := m, slobfree := c\<rparr> = t\<lparr>slobfree := c, slob_pm := m\<rparr>"
    for a c P and t t' :: slob
    by (simp_all add: upd_next_def upd_units_def)
  show "slob_free b sz (st\<lparr>slob_pm := m\<rparr>) = Some (st'\<lparr>slob_pm := m\<rparr>)"
  proof (cases "b = 0")
    case True
    then show ?thesis using run by (simp add: slob_free_def)
  next
    case False
    define t where "t = (if sz \<noteq> 0 then upd_units b (SLOB_UNITS sz) st else st)"
    from run [unfolded slob_free_def if_not_P [OF False] Let_def, folded t_def]
    obtain cur where cur: "slob_find b (slobfree t) t = Some cur"
      and st': "st' = (let nx = sl_next t cur;
          u = (if b + SLOB_UNIT * sl_units t b = nx
            then upd_next b (sl_next t nx) (upd_units b (sl_units t b + sl_units t nx) t) else upd_next b nx t);
          w = (if cur + SLOB_UNIT * sl_units u cur = b
            then upd_next cur (sl_next u b) (upd_units cur (sl_units u cur + sl_units u b) u) else upd_next cur b u)
        in w\<lparr>slobfree := cur\<rparr>)"
      unfolding Let_def by (auto simp: option_bind_eq_Some split del: if_split)
    from slob_find_pm [OF cur] have cur: "slob_find b (slobfree t) (t\<lparr>slob_pm := m\<rparr>) = Some cur" .
    have t': "(if sz \<noteq> 0 then upd_units b (SLOB_UNITS sz) (st\<lparr>slob_pm := m\<rparr>) else st\<lparr>slob_pm := m\<rparr>) = t\<lparr>slob_pm := m\<rparr>"
      unfolding t_def pull ..
    have free: "slobfree (t\<lparr>slob_pm := m\<rparr>) = slobfree t" by simp
    show ?thesis
      unfolding slob_free_def if_not_P [OF False] t' Let_def free cur st' by (simp add: pull)
  qed
qed

lemma kfree_unsafe:
  assumes hp: "heap_inv npg arena st H A" and bb: "Large bb \<in> H" and unsafe: "\<not> link_safe st (bb_pages bb)"
  shows "\<exists>st'. kfree npg (bb_pages bb) st = Some st' \<and> (\<forall>H A. \<not> heap_inv npg arena st' H A)"
proof -
  from hp obtain S F where hp: "heap_at npg arena st H A S F" by (auto simp: heap_inv_def)
  note h = heap_atD [OF hp]
  have ok: "arena + SLOB_UNIT < bb_at bb" "bb \<in> set (bigblocks st)" "bb_pages bb \<in> range pva" using h(9) [OF bb] by auto
  then obtain p where p: "bb_pages bb = pva p" by blast
  let ?k = "bb_order bb" and ?B = "{bb_at bb ..< bb_at bb + 16 * 2}" and ?H = "H - {Large bb}"
  let ?R = "{p ..< p + 2 ^ ?k}"
  let ?s = "st\<lparr>bigblocks := remove1 bb (bigblocks st)\<rparr>"
  have reg: "region st (Large bb) = ?B \<union> page_bytes ?R" using p page_bytes_run [of p "2 ^ ?k"] by simp
  have rs: "region ?s x = region st x" for x by (cases x) simp_all
  have d: "heap_at npg arena ?s ?H A S F"
    by (rule heap_at_drop [OF hp]) (use heap_at_listed [OF hp] h(11) in auto)
  have apA: "(?B \<union> page_bytes ?R) \<inter> A = {}" using h(8) [OF bb] unfolding reg .
  then have RF: "?R \<inter> F = {}" using h(6) pva_in_bytes by blast
  have RG: "?R \<subseteq> \<Union>(holding_pages ` H)"
  proof -
    have "holding_pages (Large bb) = ?R" by (simp add: p pages_at_pva)
    with bb show ?thesis by (metis UN_upper)
  qed
  have ps: "page_state npg (slob_pm ?s) F (\<Union>(holding_pages ` H))" using h(5) by simp
  have "\<not> link_safe ?s (pva p)" using unsafe p by (simp add: link_safe_def)
  from free_pages_unsafe [OF ps RG RF this] obtain m where
    m: "slob_free_pages npg (pva p) ?k ?s = Some (?s\<lparr>slob_pm := m\<rparr>)" "\<forall>F G. \<not> page_state npg m F G" .
  have u: "2 = (if BIGBLOCK_SIZE = 0 then sl_units ?s (bb_at bb) else SLOB_UNITS BIGBLOCK_SIZE)"
    unfolding slob_units_24 by (simp add: BIGBLOCK_SIZE_def)
  have ap1: "?B \<inter> A = {}" using apA by blast
  have ap2: "region ?s x \<inter> ?B = {}" if "x \<in> ?H" for x
    using h(10) [of x "Large bb"] that bb unfolding rs reg by blast
  from heap_at_give [OF d ok(1) u zero_less_numeral ap1 ap2] obtain st' where
    g: "slob_free (bb_at bb) BIGBLOCK_SIZE ?s = Some st'" by metis
  have "kfree npg (bb_pages bb) st = Some (st'\<lparr>slob_pm := m\<rparr>)"
    using find_bigblock [OF hp bb] m(1) slob_free_pm [OF g, of m]
    by (simp add: kfree_def p pva_def PAGE_SIZE_def)
  moreover have "\<not> heap_inv npg arena (st'\<lparr>slob_pm := m\<rparr>) H A" for H A
    using m(2) heap_atD(5) [of npg arena "st'\<lparr>slob_pm := m\<rparr>"] by (auto simp: heap_inv_def)
  ultimately show ?thesis by blast
qed

text \<open>Sizes for which the sum with two headers reaches a page.\<close>

lemma kmalloc_gap: "4064 \<le> n \<Longrightarrow> n < 4080 \<Longrightarrow> kmalloc npg n st = None"
  by (simp add: kmalloc_def slob_alloc_def PAGE_SIZE_def)

section \<open>The allocator\<close>

lemma slob0_heap:
  assumes "page_state npg m F {}" and "\<And>p. p \<in> F \<Longrightarrow> arena + SLOB_UNIT < pva p"
  shows "heap_inv npg arena (slob0 arena m) {} ({arena ..< arena + 16} \<union> page_bytes F)"
proof -
  have above: "arena < pva p" "arena + 16 \<le> pva p" if "p \<in> F" for p
    using assms(2) [OF that] by simp_all
  have "flist (slob0 arena m) {arena}" by (simp add: flist_def slob0_def ring_def after_def)
  moreover have "free_bytes (slob0 arena m) {arena} = {arena ..< arena + 16}" by (simp add: free_bytes_def slob0_def ublock_def)
  moreover have "{arena ..< arena + 16} \<inter> page_bytes F = {}" using above by (fastforce simp: page_bytes_def)
  ultimately have "heap_at npg arena (slob0 arena m) {} ({arena ..< arena + 16} \<union> page_bytes F) {arena} F"
    using assms by (simp add: heap_at_def slob0_def above_def)
  then show ?thesis by (auto simp: heap_inv_def)
qed

text \<open>What an allocation does, and a release.\<close>

definition handed_out :: "u64 \<Rightarrow> nat \<Rightarrow> slob \<Rightarrow> holding set \<Rightarrow> nat set \<Rightarrow> holding \<Rightarrow> slob \<Rightarrow> bool" where
  "handed_out npg arena st H A x st' \<longleftrightarrow> x \<notin> H \<and> region st' x \<subseteq> A \<and>
     heap_inv npg arena st' (insert x H) (A - region st' x) \<and> (\<forall>y \<in> H. region st' y = region st y)"

definition taken_back :: "u64 \<Rightarrow> nat \<Rightarrow> slob \<Rightarrow> holding set \<Rightarrow> nat set \<Rightarrow> holding \<Rightarrow> slob \<Rightarrow> bool" where
  "taken_back npg arena st H A x st' \<longleftrightarrow> heap_inv npg arena st' (H - {x}) (A \<union> region st x) \<and>
     (\<forall>y \<in> H - {x}. region st' y = region st y)"

text \<open>
  C27: From a well formed heap with the holdings H and the available bytes A, before swapping is set
  up, kmalloc of 1 to 4063 bytes returns, with at least that many bytes out of A and the heap well
  formed without them, or with NULL and nothing changed, which happens only when no page is free;
  kmalloc of 4064 to 4079 bytes always panics; from 4080 bytes up to 2 GB it returns NULL or hands out
  pages, of which find_order may leave less than one part in 4097 of the request out. kfree of a small
  holding, and of pages that lie below the last free block of the page allocator or find none free,
  returns and makes exactly the bytes of the holding available again. No other holding is touched.
  kfree of pages above the last free block returns too, but it damages the list of free pages: no
  heap is well formed then. Requests of 0 bytes and of 2 GB or more are not part of the claim.
\<close>

theorem kernel_heap:
  assumes "heap_inv npg arena st H A"
  shows "(\<forall>n. 0 < n \<and> n < 4064 \<longrightarrow> (\<exists>p st'. kmalloc npg n st = Some (p, st') \<and>
      (if p = 0 then st' = st \<and> nr_free (slob_pm st) = 0
       else 16 < p \<and> handed_out npg arena st H A (Small (p - 16)) st' \<and> {p ..< p + n} \<subseteq> region st' (Small (p - 16))))) \<and>
    (\<forall>n. 4080 \<le> n \<and> n < 2 ^ 31 \<longrightarrow> (\<exists>p st'. kmalloc npg n st = Some (p, st') \<and>
      (if p = 0 then heap_inv npg arena st' H A \<and> (\<forall>y \<in> H. region st' y = region st y)
       else \<exists>bb. bb_pages bb = p \<and> handed_out npg arena st H A (Large bb) st' \<and> n < 4097 * 2 ^ bb_order bb))) \<and>
    (\<forall>a. Small a \<in> H \<longrightarrow> (\<exists>st'. kfree npg (a + 16) st = Some st' \<and> taken_back npg arena st H A (Small a) st')) \<and>
    (\<forall>bb. Large bb \<in> H \<longrightarrow> (\<exists>st'. kfree npg (bb_pages bb) st = Some st' \<and>
      (if link_safe st (bb_pages bb) then taken_back npg arena st H A (Large bb) st'
       else \<forall>H' A'. \<not> heap_inv npg arena st' H' A'))) \<and>
    (\<forall>n. 4064 \<le> n \<and> n < 4080 \<longrightarrow> kmalloc npg n st = None)"
proof (intro conjI allI impI)
  fix n assume "0 < n \<and> n < (4064 :: nat)"
  with kmalloc_small [OF assms, of n] show "\<exists>p st'. kmalloc npg n st = Some (p, st') \<and>
      (if p = 0 then st' = st \<and> nr_free (slob_pm st) = 0
       else 16 < p \<and> handed_out npg arena st H A (Small (p - 16)) st' \<and> {p ..< p + n} \<subseteq> region st' (Small (p - 16)))"
    unfolding handed_out_def by metis
next
  fix n assume "4080 \<le> n \<and> n < (2 ^ 31 :: nat)"
  with kmalloc_large [OF assms, of n] show "\<exists>p st'. kmalloc npg n st = Some (p, st') \<and>
      (if p = 0 then heap_inv npg arena st' H A \<and> (\<forall>y \<in> H. region st' y = region st y)
       else \<exists>bb. bb_pages bb = p \<and> handed_out npg arena st H A (Large bb) st' \<and> n < 4097 * 2 ^ bb_order bb)"
    unfolding handed_out_def by metis
next
  fix a assume "Small a \<in> H"
  then show "\<exists>st'. kfree npg (a + 16) st = Some st' \<and> taken_back npg arena st H A (Small a) st'"
    unfolding taken_back_def by (rule kfree_small [OF assms])
next
  fix bb assume bb: "Large bb \<in> H"
  show "\<exists>st'. kfree npg (bb_pages bb) st = Some st' \<and>
      (if link_safe st (bb_pages bb) then taken_back npg arena st H A (Large bb) st'
       else \<forall>H' A'. \<not> heap_inv npg arena st' H' A')"
    unfolding taken_back_def using kfree_large [OF assms bb] kfree_unsafe [OF assms bb] by (cases "link_safe st (bb_pages bb)") simp_all
qed (simp add: kmalloc_gap)

lemma ex_heap_pages:
  obtains m where "page_state 0x88000 m {0x300 ..< 0x310} {}" and "nr_free m \<noteq> 0"
proof -
  have inv: "pmm_inv 0x320 ex_pmm []"
    unfolding ex_pmm_def by (rule default_init_inv) (simp_all add: PageProperty_def)
  from default_free_pages_inv [OF inv, of 16 "0x300"] ex_pmm_taken obtain m ys where
    m: "pmm_inv 0x320 m ys" "free_set m ys = {0x300 ..< 0x310}"
    by (auto simp: linkable_def)
  show thesis
  proof (rule that)
    show "page_state 0x88000 m {0x300 ..< 0x310} {}"
      unfolding page_state_def using m by (intro exI [of _ "0x320"] exI [of _ ys]) auto
    have "card {0x300 ..< 0x310 :: nat} = unat (nr_free m)" using pmm_inv_total(1) [OF m(1)] m(2) by simp
    then have "unat (nr_free m) = 16" by simp
    then show "nr_free m \<noteq> 0" by auto
  qed
qed

theorem kernel_heap_witness:
  "\<exists>st p q s t u. kmalloc 0x88000 100 st = Some (p, s) \<and> p \<noteq> 0 \<and> kmalloc 0x88000 5000 s = Some (q, t) \<and>
     kfree 0x88000 p t = Some u"
proof -
  from ex_heap_pages obtain m where m: "page_state 0x88000 m {0x300 ..< 0x310} {}" "nr_free m \<noteq> 0" .
  define st where "st = slob0 0xFFFFFFFFC0250000 m"
  define A where "A = {0xFFFFFFFFC0250000 ..< 0xFFFFFFFFC0250000 + 16} \<union> page_bytes {0x300 ..< 0x310}"
  have "heap_inv 0x88000 0xFFFFFFFFC0250000 st {} A"
    unfolding st_def A_def by (rule slob0_heap [OF m(1)]) (simp add: pva_def)
  note k = kernel_heap [OF this]
  have nf: "nr_free (slob_pm st) \<noteq> 0" using m(2) by (simp add: st_def slob0_def)
  from conjunct1 [OF k, rule_format, of 100] nf obtain p s where
    s: "kmalloc 0x88000 100 st = Some (p, s)" "p \<noteq> 0"
      "16 < p" "handed_out 0x88000 0xFFFFFFFFC0250000 st {} A (Small (p - 16)) s"
    by (auto split: if_splits)
  let ?H = "{Small (p - 16)}"
  from s(4) obtain B where "heap_inv 0x88000 0xFFFFFFFFC0250000 s ?H B" unfolding handed_out_def by blast
  note k2 = kernel_heap [OF this]
  from conjunct1 [OF conjunct2 [OF k2], rule_format, of 5000] obtain q t where
    t: "kmalloc 0x88000 5000 s = Some (q, t)" "if q = 0 then heap_inv 0x88000 0xFFFFFFFFC0250000 t ?H B \<and> (\<forall>y \<in> ?H. region t y = region s y)
       else \<exists>bb. bb_pages bb = q \<and> handed_out 0x88000 0xFFFFFFFFC0250000 s ?H B (Large bb) t \<and> (5000 :: nat) < 4097 * 2 ^ bb_order bb"
    by auto
  have "\<exists>H C. Small (p - 16) \<in> H \<and> heap_inv 0x88000 0xFFFFFFFFC0250000 t H C"
  proof (cases "q = 0")
    case True
    with t(2) show ?thesis by (intro exI [of _ ?H] exI [of _ B]) simp
  next
    case False
    with t(2) obtain bb where "handed_out 0x88000 0xFFFFFFFFC0250000 s ?H B (Large bb) t" by auto
    then show ?thesis unfolding handed_out_def
      by (intro exI [of _ "insert (Large bb) ?H"] exI [of _ "B - region t (Large bb)"]) simp
  qed
  then obtain H C where H: "Small (p - 16) \<in> H" "heap_inv 0x88000 0xFFFFFFFFC0250000 t H C" by blast
  note k3 = kernel_heap [OF H(2)]
  from conjunct1 [OF conjunct2 [OF conjunct2 [OF k3]], rule_format, OF H(1)] s(3) obtain u where
    "kfree 0x88000 p t = Some u" by auto
  with s(1,2) t(1) show ?thesis by blast
qed

text \<open>Where the interface ends.\<close>

lemma find_order_short: "find_order 8193 = 1"
  by (simp add: find_order.simps)

lemma kmalloc_zero:
  assumes "arena \<noteq> 0"
  shows "kmalloc npg 0 (slob0 arena m) = Some (arena + 16, slob0 arena m)"
proof -
  have "slob_alloc npg 16 0 (slob0 arena m) = Some (arena, slob0 arena m)"
    by (simp add: slob_alloc_def PAGE_SIZE_def SLOB_UNITS_def slob0_def) (subst slob_alloc_loop.simps,
      simp add: slob_take_def upd_next_def)
  then show ?thesis using assms by (simp add: kmalloc_def PAGE_SIZE_def)
qed

end
