(* ===== verification/Address_Space.thy ===== *)
theory Address_Space
  imports Page_Supply
begin

text \<open>
  What the page table code of \<open>Paging\<close> does to an address space. The three levels of tables are
  a tree of pages \<open>T\<close>; \<open>pte_at s T (i, j, k)\<close> is the leaf entry for the three indices of an
  address, 0 where a table is missing. The lemmas show that walking finds exactly this entry, that
  building tables adds pages to the tree and changes no leaf entry, and that inserting and removing
  a mapping change one entry and the reference counts of the pages involved.
\<close>

section \<open>Words of pages\<close>

definition pkva :: "nat \<Rightarrow> u64" where
  "pkva p = page2pa p + va_pa_offset"

definition pword :: "nat \<Rightarrow> nat \<Rightarrow> u64" where
  "pword p i = entry (pkva p) (of_nat i)"

lemma unat_pkva: "page_ok n p \<Longrightarrow> unat (pkva p) = (p + 0x80000) * 4096 + 0xFFFFFFFF40000000"
  by (simp add: pkva_def unat_page2kva)

lemma unat_pword:
  assumes "page_ok n p" and "i < 512"
  shows "unat (pword p i) = (p + 0x80000) * 4096 + 0xFFFFFFFF40000000 + 8 * i"
proof -
  have "unat (of_nat i :: u64) = i"
    using assms(2) by (simp add: unsigned_of_nat take_bit_nat_eq_self)
  then have "unat (8 * of_nat i :: u64) = 8 * i"
    using assms(2) by (simp add: unat_word_ariths)
  then show ?thesis
    using unat_pkva [OF assms(1)] assms by (simp add: pword_def entry_def unat_word_ariths page_ok_def)
qed

lemma pword_inj:
  assumes "page_ok n p" "page_ok n q" "i < 512" "j < 512"
  shows "pword p i = pword q j \<longleftrightarrow> p = q \<and> i = j"
proof
  assume "pword p i = pword q j"
  then have "unat (pword p i) = unat (pword q j)" by simp
  then have "p * 4096 + 8 * i = q * 4096 + 8 * j"
    by (simp add: unat_pword [OF assms(1,3)] unat_pword [OF assms(2,4)])
  with assms(3,4) show "p = q \<and> i = j" by (cases p q rule: linorder_cases) auto
qed simp

lemma pword_in_page:
  assumes "page_ok n p" "page_ok n q" "i < 512"
  shows "pword q i - pkva p < PGSIZE \<longleftrightarrow> q = p"
proof -
  have le: "p < 0x40000" "q < 0x40000" using assms(1,2) by (simp_all add: page_ok_def)
  have "unat (pword q i - pkva p) = (if p * 4096 \<le> q * 4096 + 8 * i then q * 4096 + 8 * i - p * 4096
    else 2 ^ 64 + (q * 4096 + 8 * i) - p * 4096)"
    by (simp add: unat_sub_if' unat_pword [OF assms(2,3)] unat_pkva [OF assms(1)])
  then have "pword q i - pkva p < PGSIZE \<longleftrightarrow> p * 4096 \<le> q * 4096 + 8 * i \<and> q * 4096 + 8 * i < p * 4096 + 4096"
    using le by (simp add: word_less_nat_alt PGSIZE_def) linarith
  also have "\<dots> \<longleftrightarrow> q = p" using assms(3) by (cases q p rule: linorder_cases) auto
  finally show ?thesis .
qed

lemma KADDR_page: "page_ok n p \<Longrightarrow> KADDR n (page2pa p) = Some (pkva p)"
  using page2kva_eq [of n p] by (simp add: page2kva_def pkva_def)

section \<open>The tree of tables\<close>

text \<open>The root directory, the level 0 directory of an index, and the leaf table of two indices.\<close>

datatype tnode = Root | Dir nat | Tab nat nat

fun parent :: "tnode \<Rightarrow> tnode" where
  "parent Root = Root"
| "parent (Dir i) = Root"
| "parent (Tab i j) = Dir i"

fun slot :: "tnode \<Rightarrow> nat" where
  "slot Root = 0"
| "slot (Dir i) = i"
| "slot (Tab i j) = j"

fun node_ok :: "tnode \<Rightarrow> bool" where
  "node_ok Root \<longleftrightarrow> True"
| "node_ok (Dir i) \<longleftrightarrow> i < 512"
| "node_ok (Tab i j) \<longleftrightarrow> i < 512 \<and> j < 512"

lemma parent_slot_inj: "parent m = parent m' \<Longrightarrow> slot m = slot m' \<Longrightarrow> m \<noteq> Root \<Longrightarrow> m' \<noteq> Root \<Longrightarrow> m = m'"
  by (cases m; cases m') auto

lemma parent_neq: "m \<noteq> Root \<Longrightarrow> parent m \<noteq> m"
  by (cases m) auto

lemma slot_less: "node_ok m \<Longrightarrow> slot m < 512"
  by (cases m) auto

text \<open>An entry that leads to the table \<open>c\<close>, or is not valid.\<close>

definition points :: "u64 \<Rightarrow> nat option \<Rightarrow> bool" where
  "points e c = (case c of None \<Rightarrow> \<not> pte_valid e | Some q \<Rightarrow> pte_valid e \<and> PTE_ADDR e = page2pa q)"

definition tree :: "(u64 \<Rightarrow> u64) \<Rightarrow> u64 \<Rightarrow> u64 \<Rightarrow> (tnode \<rightharpoonup> nat) \<Rightarrow> bool" where
  "tree km n pgdir T \<longleftrightarrow> (\<exists>r. T Root = Some r \<and> pgdir = pkva r) \<and> inj_on T (dom T) \<and>
     (\<forall>m p. T m = Some p \<longrightarrow> page_ok n p \<and> node_ok m \<and> T (parent m) \<noteq> None) \<and>
     (\<forall>m p. m \<noteq> Root \<longrightarrow> node_ok m \<longrightarrow> T (parent m) = Some p \<longrightarrow> points (km (pword p (slot m))) (T m))"

lemma treeD:
  assumes "tree km n pgdir T"
  shows "\<exists>r. T Root = Some r \<and> pgdir = pkva r" "inj_on T (dom T)"
    "T m = Some p \<Longrightarrow> page_ok n p" "T m = Some p \<Longrightarrow> node_ok m" "T m = Some p \<Longrightarrow> T (parent m) \<noteq> None"
    "m \<noteq> Root \<Longrightarrow> node_ok m \<Longrightarrow> T (parent m) = Some p \<Longrightarrow> points (km (pword p (slot m))) (T m)"
  using assms unfolding tree_def by blast+

lemma tree_inj: "tree km n pgdir T \<Longrightarrow> T m = Some p \<Longrightarrow> T m' = Some p \<Longrightarrow> m = m'"
  using treeD(2) by (fastforce simp: inj_on_def dom_def)

lemma tree_change:
  assumes t: "tree km n pgdir T"
    and same: "\<And>m p. T m = Some p \<Longrightarrow> \<forall>i j. m \<noteq> Tab i j \<Longrightarrow> \<forall>i < 512. km' (pword p i) = km (pword p i)"
  shows "tree km' n pgdir T"
proof -
  have "points (km' (pword p (slot m))) (T m)" if "m \<noteq> Root" "node_ok m" "T (parent m) = Some p" for m p
  proof -
    have "\<forall>i j. parent m \<noteq> Tab i j" by (cases m) auto
    from same [OF that(3) this] slot_less [OF that(2)] treeD(6) [OF t that] show ?thesis by simp
  qed
  with treeD(1-5) [OF t] show ?thesis unfolding tree_def by blast
qed

lemma tree_grow:
  assumes t: "tree km n pgdir T" and m: "T m = None" "m \<noteq> Root" "node_ok m" "T (parent m) = Some pp"
    and p: "p \<notin> ran T" "page_ok n p" and e: "pte_valid e" "PTE_ADDR e = page2pa p"
    and km': "\<And>q i. page_ok n q \<Longrightarrow> i < 512 \<Longrightarrow> km' (pword q i) =
      (if q = pp \<and> i = slot m then e else if q = p then 0 else km (pword q i))"
  shows "tree km' n pgdir (T(m \<mapsto> p))"
proof -
  have pp: "page_ok n pp" "pp \<noteq> p" using treeD(3) [OF t m(4)] m(4) p(1) by (auto simp: ran_def)
  have "points (km' (pword q (slot x))) ((T(m \<mapsto> p)) x)"
    if x: "x \<noteq> Root" "node_ok x" and q: "(T(m \<mapsto> p)) (parent x) = Some q" for x q
  proof (cases "parent x = m")
    case True
    then have "q = p" using q by simp
    moreover have "T x = None"
      using treeD(5) [OF t, of x] m(1) True by (cases "T x") auto
    moreover have "x \<noteq> m" using parent_neq [OF x(1)] True by auto
    ultimately show ?thesis
      using km' [OF p(2) slot_less [OF x(2)]] pp(2) by (simp add: points_def pte_valid_def)
  next
    case False
    then have q: "T (parent x) = Some q" using q by simp
    have qp: "q \<noteq> p" "page_ok n q" using q p(1) treeD(3) [OF t q] by (auto simp: ran_def)
    show ?thesis
    proof (cases "x = m")
      case True
      then have "q = pp" using q m(4) by simp
      then show ?thesis
        using True km' [OF pp(1) slot_less [OF x(2)]] e by (simp add: points_def)
    next
      case False
      note \<open>x \<noteq> m\<close>
      have "\<not> (q = pp \<and> slot x = slot m)"
        using False q m(2,4) x(1) parent_slot_inj tree_inj [OF t] by metis
      then have "km' (pword q (slot x)) = km (pword q (slot x))"
        using km' [OF qp(2) slot_less [OF x(2)]] qp(1) by (simp only: if_not_P if_False)
      then show ?thesis
        using \<open>x \<noteq> m\<close> treeD(6) [OF t x q] by simp
    qed
  qed
  moreover have "inj_on (T(m \<mapsto> p)) (dom (T(m \<mapsto> p)))"
    using treeD(2) [OF t] p(1) m(1) by (auto simp: inj_on_def dom_def ran_def)
  moreover have "page_ok n q \<and> node_ok x \<and> (T(m \<mapsto> p)) (parent x) \<noteq> None" if "(T(m \<mapsto> p)) x = Some q" for x q
    using that treeD(3-5) [OF t, of x q] p(2) m by (auto split: if_splits)
  moreover have "\<exists>r. (T(m \<mapsto> p)) Root = Some r \<and> pgdir = pkva r"
    using treeD(1) [OF t] m(2) by auto
  ultimately show ?thesis unfolding tree_def by blast
qed

text \<open>The leaf entry at three indices.\<close>

fun pte_at :: "vmem \<Rightarrow> (tnode \<rightharpoonup> nat) \<Rightarrow> nat \<times> nat \<times> nat \<Rightarrow> u64" where
  "pte_at s T (i, j, k) =
     (case T (Tab i j) of None \<Rightarrow> 0 | Some p \<Rightarrow> if k < 512 then kmem s (pword p k) else 0)"

lemma pte_at_eqI:
  assumes "\<And>i j k. k < 512 \<Longrightarrow> pte_at s' T' (i, j, k) = pte_at s T (i, j, k)"
  shows "pte_at s' T' = pte_at s T"
proof
  fix x :: "nat \<times> nat \<times> nat"
  obtain i j k where "x = (i, j, k)" by (cases x)
  with assms [of k i j] show "pte_at s' T' x = pte_at s T x"
    by (cases "k < 512") (auto split: option.splits)
qed

definition vspace :: "vmem \<Rightarrow> u64 \<Rightarrow> (tnode \<rightharpoonup> nat) \<Rightarrow> nat set \<Rightarrow> nat set \<Rightarrow> bool" where
  "vspace s pgdir T F A \<longleftrightarrow> frames s F A \<and> tree (kmem s) (npage s) pgdir T \<and> ran T \<subseteq> A"

text \<open>The three indices of an address.\<close>

definition indices :: "u64 \<Rightarrow> nat \<times> nat \<times> nat" where
  "indices la = (unat (PDX1 la), unat (PDX0 la), unat (PTX la))"

lemma index_less: "unat (PDX1 la) < 512" "unat (PDX0 la) < 512" "unat (PTX la) < 512"
  by (simp_all add: unat_fields)

lemma entry_index: "entry (pkva p) (PDX1 la) = pword p (unat (PDX1 la))"
  "entry (pkva p) (PDX0 la) = pword p (unat (PDX0 la))" "entry (pkva p) (PTX la) = pword p (unat (PTX la))"
  by (simp_all add: pword_def)

text \<open>How \<open>s'\<close> and \<open>T'\<close> come from \<open>s\<close> and \<open>T\<close> by adding tables.\<close>

definition grows :: "nat set \<Rightarrow> vmem \<Rightarrow> (tnode \<rightharpoonup> nat) \<Rightarrow> vmem \<Rightarrow> (tnode \<rightharpoonup> nat) \<Rightarrow> bool" where
  "grows A s T s' T' \<longleftrightarrow> T \<subseteq>\<^sub>m T' \<and> s' = s\<lparr>pm := pm s', kmem := kmem s'\<rparr> \<and>
     (\<forall>q \<in> A. page_ref q s' = page_ref q s) \<and>
     (\<forall>q \<in> A - ran T. \<forall>i < 512. kmem s' (pword q i) = kmem s (pword q i)) \<and>
     pte_at s' T' = pte_at s T"

lemma map_le_Some: "T \<subseteq>\<^sub>m T' \<Longrightarrow> T m = Some p \<Longrightarrow> T' m = Some p"
  by (metis domI map_le_def)

lemma map_le_ran: "T \<subseteq>\<^sub>m T' \<Longrightarrow> ran T \<subseteq> ran T'"
  by (auto simp: ran_def dest: map_le_Some)

lemma grows_refl [simp]: "grows A s T s T"
  by (simp add: grows_def)

section \<open>Walking\<close>

lemma points_Some: "points e (Some q) \<Longrightarrow> pte_valid e \<and> PDE_ADDR e = page2pa q"
  by (simp add: points_def PDE_ADDR_def)

lemma points_None: "points e None \<Longrightarrow> \<not> pte_valid e"
  by (simp add: points_def)

lemma tree_step:
  assumes "tree km n pgdir T" and "T (parent m) = Some p" and "m \<noteq> Root" and "node_ok m"
  shows "pte_valid (km (pword p (slot m))) \<longleftrightarrow> T m \<noteq> None"
    and "T m = Some q \<Longrightarrow> KADDR n (PDE_ADDR (km (pword p (slot m)))) = Some (pkva q)"
  using treeD(6) [OF assms(1,3,4,2)] treeD(3) [OF assms(1), of m] KADDR_page
  by (cases "T m"; auto dest: points_Some points_None)+

lemma find_pte_spec:
  assumes t: "tree (kmem s) (npage s) pgdir T" and la: "indices la = (i, j, k)"
  shows "find_pte pgdir la s = Some (map_option (\<lambda>p. pword p k) (T (Tab i j)))"
proof -
  from la have ix: "i = unat (PDX1 la)" "j = unat (PDX0 la)" "k = unat (PTX la)"
    by (simp_all add: indices_def)
  from treeD(1) [OF t] obtain r where r: "T Root = Some r" "pgdir = pkva r" by blast
  note e1 = entry_index(1) [of r la, folded ix] and s1 = tree_step [OF t, of "Dir i" r]
  show ?thesis
  proof (cases "T (Dir i)")
    case None
    have "T (Tab i j) = None" using treeD(5) [OF t, of "Tab i j"] None by (cases "T (Tab i j)") auto
    with None s1(1) r show ?thesis
      by (simp add: find_pte_def get_pte_def alloc_table_def e1 index_less ix)
  next
    case (Some d)
    note e2 = entry_index(2) [of d la, folded ix] and s2 = tree_step [OF t, of "Tab i j" d]
    show ?thesis
      using Some s1 s2 r index_less [of la] entry_index(3) [of _ la, folded ix]
      by (cases "T (Tab i j)") (simp_all add: find_pte_def get_pte_def alloc_table_def e1 e2 ix Let_def)
  qed
qed

section \<open>Building tables\<close>

lemma zero_page_word:
  assumes "page_ok n p" "page_ok n q" "i < 512"
  shows "kmem (zero_page (pkva p) s) (pword q i) = (if q = p then 0 else kmem s (pword q i))"
  using pword_in_page [OF assms] by (simp add: zero_page_def)

lemma store_word:
  assumes "page_ok n p" "page_ok n q" "i < 512" "j < 512"
  shows "kmem (store (pword p j) v s) (pword q i) = (if q = p \<and> i = j then v else kmem s (pword q i))"
  using pword_inj [OF assms(1,2,4,3)] by (auto simp: store_def)

lemma table_perm: "unat (ucast (PTE_U OR PTE_V) :: s32) < 1024"
  by (simp add: PTE_U_def PTE_V_def)

definition table_entry :: "nat \<Rightarrow> u64" where
  "table_entry p = pte_create (page2ppn p) (ucast (PTE_U OR PTE_V))"

lemma table_entry_points: "page_ok n p \<Longrightarrow> pte_valid (table_entry p) \<and> PTE_ADDR (table_entry p) = page2pa p"
  by (simp add: table_entry_def PTE_ADDR_create table_perm)

lemma grows_trans:
  assumes "grows A s T s1 T1" and "grows A' s1 T1 s2 T2" and "A \<subseteq> A'" and "ran T1 \<inter> A \<subseteq> ran T"
  shows "grows A s T s2 T2"
proof -
  have "T \<subseteq>\<^sub>m T2" using assms(1,2) map_le_trans by (auto simp: grows_def)
  moreover have "s2 = s\<lparr>pm := pm s2, kmem := kmem s2\<rparr>"
  proof -
    have a: "s1 = s\<lparr>pm := pm s1, kmem := kmem s1\<rparr>" "s2 = s1\<lparr>pm := pm s2, kmem := kmem s2\<rparr>"
      using assms(1,2) unfolding grows_def by blast+
    show ?thesis by (subst a(2), subst a(1)) simp
  qed
  moreover have "kmem s2 (pword q i) = kmem s (pword q i)" if "q \<in> A - ran T" "i < 512" for q i
  proof -
    have "q \<in> A' - ran T1" using that(1) assms(3,4) by auto
    with that assms(1,2) show ?thesis by (simp add: grows_def)
  qed
  moreover have "\<forall>q \<in> A. page_ref q s2 = page_ref q s"
    using assms(1-3) by (simp add: grows_def subset_iff)
  moreover have "pte_at s2 T2 = pte_at s T"
    using assms(1,2) by (simp add: grows_def)
  ultimately show ?thesis unfolding grows_def by blast
qed

context page_supply
begin

lemma alloc_table_spec:
  assumes v: "vspace s pgdir T F A" and sw: "swap_init_ok s \<longrightarrow> F \<noteq> {}"
    and m: "m \<noteq> Root" "node_ok m" "T (parent m) = Some pp"
  shows "\<exists>ok s' T' F' A'. alloc_table alloc (pword pp (slot m)) True s = Some (ok, s') \<and>
    vspace s' pgdir T' F' A' \<and> grows A s T s' T' \<and> A \<subseteq> A' \<and> F' \<subseteq> F \<and> F \<union> A = F' \<union> A' \<and>
    ran T' \<inter> A \<subseteq> ran T \<and> A' \<subseteq> A \<union> ran T' \<and> card F \<le> Suc (card F') \<and>
    (if ok then T' m \<noteq> None else F = {} \<and> F' = F \<and> s' = s \<and> T' = T \<and> A' = A) \<and>
    (T m \<noteq> None \<longrightarrow> s' = s \<and> T' = T \<and> F' = F \<and> A' = A)"
proof -
  from v have fr: "frames s F A" and t: "tree (kmem s) (npage s) pgdir T" and rt: "ran T \<subseteq> A"
    by (simp_all add: vspace_def)
  note step = tree_step [OF t m(3,1,2)]
  show ?thesis
  proof (cases "T m")
    case (Some q)
    then show ?thesis
      using step(1) v by - (rule exI [of _ True], rule exI [of _ s], rule exI [of _ T],
          rule exI [of _ F], rule exI [of _ A], auto simp: alloc_table_def)
  next
    case None
    note Tm = None
    then have inval: "\<not> pte_valid (kmem s (pword pp (slot m)))" using step(1) by simp
    from alloc_law [OF fr sw] obtain r where r: "alloc s = Some r" "alloc_post s F A r" by blast
    show ?thesis
    proof (cases "fst r")
      case None
      then obtain s' where "r = (None, s')" by (cases r) auto
      with r inval v show ?thesis
        by - (rule exI [of _ False], rule exI [of _ s], rule exI [of _ T], rule exI [of _ F],
            rule exI [of _ A], auto simp: alloc_table_def alloc_post_def)
    next
      case (Some p)
      then obtain s1 where r': "r = (Some p, s1)" by (cases r) auto
      with r(2) have p: "p \<in> F" "frames s1 (F - {p}) (insert p A)" "s1 = s\<lparr>pm := pm s1\<rparr>"
        "\<And>q. page_ref q s1 = page_ref q s" by (auto simp: alloc_post_def same_memory_def)
      have s1: "kmem s1 = kmem s" "npage s1 = npage s" by (subst p(3), simp)+
      have pA: "p \<notin> A" using fr p(1) by (auto simp: frames_def)
      have ok: "page_ok (npage s) p" "page_ok (npage s) pp"
        using frames_page_ok [OF fr] p(1) treeD(3) [OF t m(3)] by auto
      define s' where "s' = store (pword pp (slot m)) (table_entry p)
        (zero_page (pkva p) (upd_pm (set_page_ref p 1) s1))"
      have k: "kmem s' (pword q i) = (if q = pp \<and> i = slot m then table_entry p
          else if q = p then 0 else kmem s (pword q i))" if "page_ok (npage s) q" "i < 512" for q i
        unfolding s'_def store_word [OF ok(2) that(1,2) slot_less [OF m(2)]]
          zero_page_word [OF ok(1) that] by (simp add: upd_pm_def s1)
      have np: "npage s' = npage s" by (simp add: s'_def store_def zero_page_def upd_pm_def s1)
      have "tree (kmem s') (npage s) pgdir (T(m \<mapsto> p))"
        by (rule tree_grow [OF t None m _ ok(1) _ _ k])
          (use pA rt table_entry_points [OF ok(1)] in auto)
      moreover have "frames s' (F - {p}) (insert p A)" using p(2) by (simp add: s'_def)
      ultimately have vs: "vspace s' pgdir (T(m \<mapsto> p)) (F - {p}) (insert p A)"
        using rt None by (auto simp: vspace_def np ran_def)
      have pq: "kmem s' (pword q i) = kmem s (pword q i)" if "q \<in> A" "\<not> (q = pp \<and> i = slot m)" "i < 512" for q i
        using k [OF frames_page_ok [OF fr, of q] that(3)] that pA by auto
      have "grows A s T s' (T(m \<mapsto> p))"
      proof -
        have "s' = s\<lparr>pm := pm s', kmem := kmem s'\<rparr>"
          unfolding s'_def store_def zero_page_def upd_pm_def by (subst p(3)) simp
        moreover have "page_ref q s' = page_ref q s" if "q \<in> A" for q
          using that pA p(4) [of q]
          by (auto simp: s'_def store_def zero_page_def upd_pm_def page_ref_def set_page_ref_def)
        moreover have "kmem s' (pword q i) = kmem s (pword q i)" if "q \<in> A - ran T" "i < 512" for q i
          using pq [of q i] that m(3) by (auto simp: ran_def)
        moreover have "pte_at s' (T(m \<mapsto> p)) = pte_at s T"
        proof (rule pte_at_eqI)
        fix i j l :: nat assume that: "l < 512"
        show "pte_at s' (T(m \<mapsto> p)) (i, j, l) = pte_at s T (i, j, l)"
        proof (cases "m = Tab i j")
          case True
          have "\<not> (p = pp \<and> l = slot m)" using pA rt m(3) by (auto simp: ran_def)
          then show ?thesis using True None k [OF ok(1) that] by (simp only: if_not_P if_False) simp
        next
          case False
          show ?thesis
          proof (cases "T (Tab i j)")
            case (Some q)
            have "q \<noteq> pp" using tree_inj [OF t Some] m(3) by (cases m) auto
            moreover have "q \<in> A" using Some rt by (auto simp: ran_def)
            ultimately show ?thesis using pq [of q l] that Some False by simp
          qed (use False in simp)
        qed
        qed
        ultimately show ?thesis using None by (auto simp: grows_def map_le_def)
      qed
      moreover have "alloc_table alloc (pword pp (slot m)) True s = Some (True, s')"
        using inval r(1) KADDR_page [OF ok(1)]
        by (simp add: alloc_table_def r' s'_def table_entry_def upd_pm_def s1 Let_def)
      moreover have "card F \<le> Suc (card (F - {p}))" using card_Suc_Diff1 [OF frames_finite [OF fr] p(1)] by simp
      moreover have "ran (T(m \<mapsto> p)) \<inter> A \<subseteq> ran T" "insert p A \<subseteq> A \<union> ran (T(m \<mapsto> p))" using pA None by auto
      ultimately show ?thesis
        using vs p(1) Tm
        by - (rule exI [of _ True], rule exI [of _ s'], rule exI [of _ "T(m \<mapsto> p)"],
            rule exI [of _ "F - {p}"], rule exI [of _ "insert p A"], auto)
    qed
  qed
qed

end

context page_supply
begin

lemma get_pte_spec:
  assumes v: "vspace s pgdir T F A" and sw: "swap_init_ok s \<longrightarrow> 2 \<le> card F" and la: "indices la = (i, j, k)"
  shows "\<exists>r s' T' F' A'. get_pte alloc pgdir la True s = Some (r, s') \<and> vspace s' pgdir T' F' A' \<and>
    grows A s T s' T' \<and> A \<subseteq> A' \<and> F' \<subseteq> F \<and> F \<union> A = F' \<union> A' \<and>
    ran T' \<inter> A \<subseteq> ran T \<and> A' \<subseteq> A \<union> ran T' \<and>
    (case r of None \<Rightarrow> F' = {} \<and> card F < 2 | Some a \<Rightarrow> \<exists>t. T' (Tab i j) = Some t \<and> a = pword t k) \<and>
    (T (Tab i j) \<noteq> None \<longrightarrow> s' = s \<and> T' = T \<and> F' = F \<and> A' = A)"
proof -
  from la have ix: "i = unat (PDX1 la)" "j = unat (PDX0 la)" "k = unat (PTX la)"
    by (simp_all add: indices_def)
  have t: "tree (kmem s) (npage s) pgdir T" and fin: "finite F"
    using v frames_finite by (auto simp: vspace_def)
  from treeD(1) [OF t] obtain r where r: "T Root = Some r" "pgdir = pkva r" by blast
  have "swap_init_ok s \<longrightarrow> F \<noteq> {}" using sw by auto
  from alloc_table_spec [OF v this, of "Dir i" r] r obtain ok s1 T1 F1 A1 where
    a: "alloc_table alloc (pword r i) True s = Some (ok, s1)" and v1: "vspace s1 pgdir T1 F1 A1" and
    g1: "grows A s T s1 T1" and s1: "A \<subseteq> A1" "F1 \<subseteq> F" "F \<union> A = F1 \<union> A1" "ran T1 \<inter> A \<subseteq> ran T"
      "A1 \<subseteq> A \<union> ran T1" "card F \<le> Suc (card F1)" and ok: "if ok then T1 (Dir i) \<noteq> None else F = {} \<and> F1 = F \<and> s1 = s \<and> T1 = T \<and> A1 = A" and
    id1: "T (Dir i) \<noteq> None \<longrightarrow> s1 = s \<and> T1 = T \<and> F1 = F \<and> A1 = A"
    using ix index_less [of la] by auto
  have dir: "T (Dir i) \<noteq> None" if "T (Tab i j) \<noteq> None" using that treeD(5) [OF t, of "Tab i j"] by auto
  have r1: "T1 Root = Some r" using g1 r(1) by (auto simp: grows_def map_le_def dom_def)
  show ?thesis
  proof (cases ok)
    case False
    then have "get_pte alloc pgdir la True s = Some (None, s1)"
      using a by (simp add: get_pte_def r(2) entry_index ix)
    then show ?thesis using v1 g1 s1 ok False
      by - (rule exI [of _ None], rule exI [of _ s1], rule exI [of _ T1], rule exI [of _ F1],
          rule exI [of _ A1], auto)
  next
    case True
    with ok obtain d where d: "T1 (Dir i) = Some d" by auto
    have t1: "tree (kmem s1) (npage s1) pgdir T1" using v1 by (simp add: vspace_def)
    have sw1: "swap_init_ok s1 \<longrightarrow> F1 \<noteq> {}"
    proof -
      have "swap_init_ok s1 = swap_init_ok s"
        using g1 unfolding grows_def by (metis vmem.select_convs(5) vmem.surjective vmem.update_convs(1,2))
      with sw s1(6) show ?thesis by auto
    qed
    note st = tree_step(2) [OF t1, of "Dir i" r d]
    from alloc_table_spec [OF v1 sw1, of "Tab i j" d] d obtain ok' s2 T2 F2 A2 where
      b: "alloc_table alloc (pword d j) True s1 = Some (ok', s2)" and v2: "vspace s2 pgdir T2 F2 A2" and
      g2: "grows A1 s1 T1 s2 T2" and s2: "A1 \<subseteq> A2" "F2 \<subseteq> F1" "F1 \<union> A1 = F2 \<union> A2" "ran T2 \<inter> A1 \<subseteq> ran T1"
        "A2 \<subseteq> A1 \<union> ran T2" "card F1 \<le> Suc (card F2)" and ok': "if ok' then T2 (Tab i j) \<noteq> None else F1 = {} \<and> F2 = F1" and
      id2: "T1 (Tab i j) \<noteq> None \<longrightarrow> s2 = s1 \<and> T2 = T1 \<and> F2 = F1 \<and> A2 = A1"
      using ix index_less [of la] by auto
    have K: "KADDR (npage s1) (PDE_ADDR (kmem s1 (pword r i))) = Some (pkva d)"
      using st d r1 ix index_less [of la] by simp
    have g: "grows A s T s2 T2" by (rule grows_trans [OF g1 g2 s1(1,4)])
    have "ran T1 \<subseteq> ran T2" using g2 by (simp add: grows_def map_le_ran)
    then have rest: "A \<subseteq> A2" "F2 \<subseteq> F" "F \<union> A = F2 \<union> A2" "ran T2 \<inter> A \<subseteq> ran T" "A2 \<subseteq> A \<union> ran T2"
      using s1 s2 by auto
    have id: "T (Tab i j) \<noteq> None \<longrightarrow> s2 = s \<and> T2 = T \<and> F2 = F \<and> A2 = A"
      using dir id1 id2 by auto
    show ?thesis
    proof (cases ok')
      case False
      then have "get_pte alloc pgdir la True s = Some (None, s2)"
        using a b K True by (simp add: get_pte_def r(2) entry_index ix)
      moreover have "card F < 2" using s1(6) ok' False by simp
      ultimately show ?thesis using v2 g rest id ok' False
        by - (rule exI [of _ None], rule exI [of _ s2], rule exI [of _ T2], rule exI [of _ F2],
            rule exI [of _ A2], auto)
    next
      case True
      with ok' obtain t where t: "T2 (Tab i j) = Some t" by auto
      have t2: "tree (kmem s2) (npage s2) pgdir T2" using v2 by (simp add: vspace_def)
      have d2: "T2 (Dir i) = Some d" using g2 d by (auto simp: grows_def map_le_def dom_def)
      have "KADDR (npage s2) (PDE_ADDR (kmem s2 (pword d j))) = Some (pkva t)"
        using tree_step(2) [OF t2, of "Tab i j" d t] d2 t ix index_less [of la] by simp
      then have "get_pte alloc pgdir la True s = Some (Some (pword t k), s2)"
        using a b K True \<open>ok\<close> by (simp add: get_pte_def r(2) entry_index ix)
      then show ?thesis using v2 g rest id t
        by - (rule exI [of _ "Some (pword t k)"], rule exI [of _ s2], rule exI [of _ T2],
            rule exI [of _ F2], rule exI [of _ A2], auto)
    qed
  qed
qed

end

section \<open>Mappings and reference counts\<close>

text \<open>
  The leaf entries of the addresses below \<^verbatim>\<open>USERTOP\<close>. Those above are the kernel's: every page
  directory shares them, they lead to all page frames, tables, reserved and free pages included, and
  they are not counted (\<^verbatim>\<open>boot_map_segment\<close>, \<^verbatim>\<open>setup_pgdir\<close>).
\<close>

fun user_half :: "nat \<times> nat \<times> nat \<Rightarrow> bool" where
  "user_half (i, j, k) \<longleftrightarrow> i < 2"

text \<open>
  \<open>mm_inv\<close>: every valid leaf entry of the user half leads to a page of \<open>A\<close> that is not a table,
  and the reference count of each such page is the number of these entries that lead to it. Nothing
  is said of the leaf entries of the kernel half.
\<close>

definition leads :: "u64 \<Rightarrow> u64 \<Rightarrow> nat \<Rightarrow> bool" where
  "leads n e p \<longleftrightarrow> pte_valid e \<and> pte2page n e = Some p"

definition mapped :: "vmem \<Rightarrow> (tnode \<rightharpoonup> nat) \<Rightarrow> nat \<Rightarrow> (nat \<times> nat \<times> nat) set" where
  "mapped s T p = {x. user_half x \<and> leads (npage s) (pte_at s T x) p}"

definition mm_inv :: "vmem \<Rightarrow> u64 \<Rightarrow> (tnode \<rightharpoonup> nat) \<Rightarrow> nat set \<Rightarrow> nat set \<Rightarrow> bool" where
  "mm_inv s pgdir T F A \<longleftrightarrow> vspace s pgdir T F A \<and>
     (\<forall>x. user_half x \<and> pte_valid (pte_at s T x) \<longrightarrow>
        (\<exists>p \<in> A - ran T. leads (npage s) (pte_at s T x) p)) \<and>
     (\<forall>p \<in> A - ran T. page_ref p s = int (card (mapped s T p)))"

lemma not_valid_0 [simp]: "\<not> pte_valid 0"
  by (simp add: pte_valid_def)

lemma leads_unique: "leads n e p \<Longrightarrow> leads n e q \<Longrightarrow> p = q"
  by (simp add: leads_def)

lemma leads_0 [simp]: "\<not> leads n 0 p"
  by (simp add: leads_def)

lemma mapped_bounded:
  assumes "vspace s pgdir T F A"
  shows "mapped s T p \<subseteq> {..<512} \<times> {..<512} \<times> {..<512}"
proof
  fix x assume x: "x \<in> mapped s T p"
  obtain i j k where ijk: "x = (i, j, k)" by (cases x)
  from x have "pte_at s T x \<noteq> 0" by (auto simp: mapped_def leads_def)
  then obtain t where t: "T (Tab i j) = Some t" "k < 512"
    by (auto simp: ijk split: option.splits if_splits)
  with assms treeD(4) [of "kmem s" "npage s" pgdir T "Tab i j"] show "x \<in> {..<512} \<times> {..<512} \<times> {..<512}"
    by (auto simp: vspace_def ijk)
qed

lemma mapped_finite: "vspace s pgdir T F A \<Longrightarrow> finite (mapped s T p)"
  by (rule finite_subset [OF mapped_bounded]) auto

lemma card_mapped_update:
  assumes v: "vspace s pgdir T F A" and "pte_at s' T' = (pte_at s T)(x := e)" and "npage s' = npage s"
    and "user_half x"
  shows "int (card (mapped s' T' p)) = int (card (mapped s T p))
    - (if leads (npage s) (pte_at s T x) p then 1 else 0) + (if leads (npage s) e p then 1 else 0)"
proof -
  have "mapped s' T' p = mapped s T p - {x} \<union> (if leads (npage s) e p then {x} else {})"
    using assms(2-4) by (auto simp: mapped_def)
  moreover have "x \<in> mapped s T p \<longleftrightarrow> leads (npage s) (pte_at s T x) p" using assms(4) by (simp add: mapped_def)
  moreover have "card (mapped s T p) > 0" if "x \<in> mapped s T p"
    using that mapped_finite [OF v, of p] by (auto simp: card_gt_0_iff)
  ultimately show ?thesis
    using mapped_finite [OF v, of p] by (auto simp: card_Diff_singleton_if of_nat_diff insert_absorb)
qed

lemma store_leaf:
  assumes v: "vspace s pgdir T F A" and t: "T (Tab i j) = Some t" and k: "k < 512"
  shows "vspace (store (pword t k) e s) pgdir T F A"
    and "pte_at (store (pword t k) e s) T = (pte_at s T)((i, j, k) := e)"
proof -
  have tr: "tree (kmem s) (npage s) pgdir T" using v by (simp add: vspace_def)
  note st = store_word [OF treeD(3) [OF tr t] treeD(3) [OF tr] _ k]
  show "vspace (store (pword t k) e s) pgdir T F A"
  proof -
    have "tree (kmem (store (pword t k) e s)) (npage s) pgdir T"
    proof (rule tree_change [OF tr], intro allI impI)
      fix m q l assume m: "T m = Some q" "\<forall>i j. m \<noteq> Tab i j" and l: "l < (512 :: nat)"
      have "q \<noteq> t" using m tree_inj [OF tr t] by auto
      then show "kmem (store (pword t k) e s) (pword q l) = kmem s (pword q l)"
        using st [OF m(1) l] by simp
    qed
    with v show ?thesis by (simp add: vspace_def) (simp add: store_def)
  qed
  show "pte_at (store (pword t k) e s) T = (pte_at s T)((i, j, k) := e)"
  proof
    fix x :: "nat \<times> nat \<times> nat"
    obtain i' j' l where x: "x = (i', j', l)" by (cases x)
    show "pte_at (store (pword t k) e s) T x = ((pte_at s T)((i, j, k) := e)) x"
    proof (cases "T (Tab i' j')")
      case (Some q)
      then have "q = t \<longleftrightarrow> i' = i \<and> j' = j" using tree_inj [OF tr Some] t by auto
      then show ?thesis using st [OF Some, of l] Some k by (auto simp: x)
    qed (use t in \<open>auto simp: x\<close>)
  qed
qed

text \<open>What removing one entry does, whatever the counts are.\<close>

lemma vspace_ref [simp]:
  "vspace (upd_pm (set_page_ref p r) s) pgdir T F A = vspace s pgdir T F A"
  "vspace (page_ref_inc p s) pgdir T F A = vspace s pgdir T F A"
  "vspace (page_ref_dec p s) pgdir T F A = vspace s pgdir T F A"
  "vspace (tlb_invalidate la s) pgdir T F A = vspace s pgdir T F A"
  by (simp_all add: vspace_def) (simp_all add: upd_pm_def page_ref_inc_def page_ref_dec_def tlb_invalidate_def)

lemma field_simps [simp]:
  "kmem (upd_pm f s) = kmem s" "npage (upd_pm f s) = npage s" "tlb (upd_pm f s) = tlb s"
  "kmem (page_ref_inc p s) = kmem s" "npage (page_ref_inc p s) = npage s" "tlb (page_ref_inc p s) = tlb s"
  "kmem (page_ref_dec p s) = kmem s" "npage (page_ref_dec p s) = npage s" "tlb (page_ref_dec p s) = tlb s"
  "kmem (tlb_invalidate la s) = kmem s" "npage (tlb_invalidate la s) = npage s"
  "tlb (tlb_invalidate la s) = (tlb s)(PPN la := None)"
  "npage (store a v s) = npage s" "tlb (store a v s) = tlb s"
  by (simp_all add: upd_pm_def page_ref_inc_def page_ref_dec_def tlb_invalidate_def store_def)

lemma page_ref_simps [simp]:
  "page_ref q (page_ref_inc p s) = page_ref q s + (if q = p then 1 else 0)"
  "page_ref q (page_ref_dec p s) = page_ref q s - (if q = p then 1 else 0)"
  "page_ref q (tlb_invalidate la s) = page_ref q s" "page_ref q (store a v s) = page_ref q s"
  by (simp_all add: page_ref_def page_ref_inc_def page_ref_dec_def upd_pm_def set_page_ref_def
      tlb_invalidate_def store_def)

lemma pte_at_kmem: "kmem s' = kmem s \<Longrightarrow> pte_at s' T = pte_at s T"
  by (rule pte_at_eqI) (simp split: option.splits)

lemma page_remove_pte_raw:
  assumes v: "vspace s pgdir T F A" and t: "T (Tab i j) = Some t" and k: "k < 512"
    and p: "leads (npage s) (pte_at s T (i, j, k)) p" "p \<in> A - ran T"
    and fit: "page_ref p s = 1 \<Longrightarrow> fits p F"
  obtains s' F' A' where "page_remove_pte la (pword t k) s = Some s'" and "vspace s' pgdir T F' A'"
    and "(F', A') = (if page_ref p s = 1 then (insert p F, A - {p}) else (F, A))"
    and "pte_at s' T = (pte_at s T)((i, j, k) := 0)"
    and "\<And>q. page_ref q s' = page_ref q s - (if q = p then 1 else 0)"
    and "npage s' = npage s" and "tlb s' = (tlb s)(PPN la := None)"
proof -
  have e: "pte_at s T (i, j, k) = kmem s (pword t k)" using t k by simp
  have val: "pte_valid (kmem s (pword t k))" "pte2page (npage s) (kmem s (pword t k)) = Some p"
    using p(1) unfolding e leads_def by simp_all
  have v1: "vspace (page_ref_dec p s) pgdir T F A" using v by simp
  show ?thesis
  proof (cases "page_ref p s = 1")
    case False
    show ?thesis
      by (rule that [of "tlb_invalidate la (store (pword t k) 0 (page_ref_dec p s))" F A])
        (use False val store_leaf [OF v1 t k, of 0] pte_at_kmem [of "page_ref_dec p s" s T]
          pte_at_kmem [of "tlb_invalidate la (store (pword t k) 0 (page_ref_dec p s))"
            "store (pword t k) 0 (page_ref_dec p s)" T] in \<open>simp_all add: page_remove_pte_def Let_def\<close>)
  next
    case True
    have "frames (page_ref_dec p s) F A" "p \<in> A" using v p(2) by (auto simp: vspace_def)
    from free_page_law [OF this fit [OF True]] obtain s1 where
      f: "free_page p (page_ref_dec p s) = Some s1" "frames s1 (insert p F) (A - {p})"
        "s1 = (page_ref_dec p s)\<lparr>pm := pm s1\<rparr>" and
      r: "\<And>q. page_ref q s1 = (if q = p then 0 else page_ref q (page_ref_dec p s))"
      unfolding same_memory_def by blast
    have s1: "kmem s1 = kmem s" "npage s1 = npage s" "tlb s1 = tlb s" by (subst f(3), simp)+
    have v2: "vspace s1 pgdir T (insert p F) (A - {p})"
      using v p(2) f(2) s1 by (auto simp: vspace_def)
    show ?thesis
      by (rule that [of "tlb_invalidate la (store (pword t k) 0 s1)" "insert p F" "A - {p}"])
        (use True val f(1) r s1 store_leaf [OF v2 t k, of 0] pte_at_kmem [of s1 s T]
          pte_at_kmem [of "tlb_invalidate la (store (pword t k) 0 s1)" "store (pword t k) 0 s1" T]
          in \<open>simp_all add: page_remove_pte_def Let_def\<close>)
  qed
qed

text \<open>Some free page lies above every page in use, so that freeing keeps the free list intact.\<close>

definition top_free :: "nat set \<Rightarrow> nat set \<Rightarrow> bool" where
  "top_free F A \<longleftrightarrow> (\<exists>f \<in> F. \<forall>a \<in> A. a < f)"

lemma top_free_fits: "top_free F A \<Longrightarrow> p \<in> A \<Longrightarrow> fits p F"
  by (auto simp: top_free_def fits_def)

lemma top_free_mono: "top_free F A \<Longrightarrow> F \<subseteq> F' \<Longrightarrow> A' \<subseteq> A \<Longrightarrow> top_free F' A'"
  by (auto simp: top_free_def)

lemma mm_invD:
  assumes "mm_inv s pgdir T F A"
  shows "vspace s pgdir T F A"
    "pte_valid (pte_at s T x) \<Longrightarrow> user_half x \<Longrightarrow> \<exists>p \<in> A - ran T. leads (npage s) (pte_at s T x) p"
    "p \<in> A - ran T \<Longrightarrow> page_ref p s = int (card (mapped s T p))"
  using assms unfolding mm_inv_def by blast+

text \<open>Removing the entry \<open>x\<close>: its page is freed when this was its last mapping.\<close>

definition last_mapping :: "vmem \<Rightarrow> (tnode \<rightharpoonup> nat) \<Rightarrow> nat \<times> nat \<times> nat \<Rightarrow> nat set" where
  "last_mapping s T x = {p. mapped s T p = {x}}"

lemma page_remove_pte_inv:
  assumes inv: "mm_inv s pgdir T F A" and t: "T (Tab i j) = Some t" and k: "k < 512"
    and x: "x = (i, j, k)" "pte_valid (pte_at s T x)" "user_half x" and top: "top_free F A"
  obtains s' where "page_remove_pte la (pword t k) s = Some s'"
    and "mm_inv s' pgdir T (F \<union> last_mapping s T x) (A - last_mapping s T x)"
    and "pte_at s' T = (pte_at s T)(x := 0)" and "npage s' = npage s" and "tlb s' = (tlb s)(PPN la := None)"
proof -
  note i = mm_invD [OF inv]
  from i(2) [OF x(2,3)] obtain p where p: "p \<in> A - ran T" "leads (npage s) (pte_at s T x) p" by blast
  have fit: "fits p F" using top_free_fits [OF top] p(1) by simp
  from page_remove_pte_raw [OF i(1) t k p(2) [unfolded x(1)] p(1) fit, of la] obtain s' F' A' where
    s': "page_remove_pte la (pword t k) s = Some s'" "vspace s' pgdir T F' A'"
      "(F', A') = (if page_ref p s = 1 then (insert p F, A - {p}) else (F, A))"
      "pte_at s' T = (pte_at s T)(x := 0)" "\<And>q. page_ref q s' = page_ref q s - (if q = p then 1 else 0)"
      "npage s' = npage s" "tlb s' = (tlb s)(PPN la := None)" unfolding x(1) by blast
  have xp: "x \<in> mapped s T p" using p(2) x(3) by (simp add: mapped_def)
  have uniq: "q = p" if "mapped s T q = {x}" for q
  proof -
    have "x \<in> mapped s T q" using that by simp
    then show ?thesis using leads_unique [OF _ p(2)] by (simp add: mapped_def)
  qed
  have one: "page_ref p s = 1 \<longleftrightarrow> mapped s T p = {x}"
  proof
    assume "page_ref p s = 1"
    then have "card (mapped s T p) = 1" using i(3) [OF p(1)] by simp
    then obtain y where "mapped s T p = {y}" by (erule card_1_singletonE)
    with xp show "mapped s T p = {x}" by simp
  qed (use i(3) [OF p(1)] in simp)
  have last: "last_mapping s T x = (if page_ref p s = 1 then {p} else {})"
  proof -
    have "q \<in> last_mapping s T x \<longleftrightarrow> q = p \<and> page_ref p s = 1" for q
      unfolding last_mapping_def mem_Collect_eq one using uniq [of q] by blast
    then show ?thesis by auto
  qed
  then have FA: "F' = F \<union> last_mapping s T x" "A' = A - last_mapping s T x"
    using s'(3) by (auto split: if_splits)
  note card = card_mapped_update [OF i(1) s'(4,6) x(3)]
  have "\<exists>q \<in> A' - ran T. leads (npage s') (pte_at s' T y) q" if y: "user_half y" "pte_valid (pte_at s' T y)" for y
  proof -
    have ne: "y \<noteq> x" "pte_valid (pte_at s T y)" using y s'(4) by (auto split: if_splits)
    from i(2) [OF ne(2) y(1)] obtain q where q: "q \<in> A - ran T" "leads (npage s) (pte_at s T y) q" by blast
    then have "y \<in> mapped s T q" using y(1) by (simp add: mapped_def)
    then have "q \<notin> last_mapping s T x" using ne(1) by (auto simp: last_mapping_def)
    with q FA(2) show ?thesis using ne(1) s'(4,6) by auto
  qed
  moreover have "page_ref q s' = int (card (mapped s' T q))" if "q \<in> A' - ran T" for q
  proof -
    have "leads (npage s) (pte_at s T x) q \<longleftrightarrow> q = p" using p(2) leads_unique by blast
    moreover have "q \<in> A - ran T" using that FA(2) by blast
    ultimately show ?thesis
      unfolding card s'(5) by (simp add: i(3))
  qed
  ultimately have "mm_inv s' pgdir T F' A'" using s'(2) unfolding mm_inv_def by blast
  with that s'(1,4,6,7) FA show ?thesis by blast
qed

lemma page_remove_inv:
  fixes la :: u64
  assumes inv: "mm_inv s pgdir T F A" and top: "top_free F A" and user: "user_half (indices la)"
  defines "x \<equiv> indices la"
  defines "L \<equiv> (if pte_valid (pte_at s T x) then last_mapping s T x else {})"
  obtains s' where "page_remove pgdir la s = Some s'" and "mm_inv s' pgdir T (F \<union> L) (A - L)"
    and "pte_at s' T = (if pte_valid (pte_at s T x) then (pte_at s T)(x := 0) else pte_at s T)"
    and "npage s' = npage s" and "pte_valid (pte_at s T x) \<Longrightarrow> tlb s' = (tlb s)(PPN la := None)"
proof -
  obtain i j k where ijk: "indices la = (i, j, k)" by (cases "indices la")
  have k: "k < 512" using ijk index_less [of la] by (auto simp: indices_def)
  have "tree (kmem s) (npage s) pgdir T" using mm_invD(1) [OF inv] by (simp add: vspace_def)
  note find = find_pte_spec [OF this ijk]
  show ?thesis
  proof (cases "T (Tab i j)")
    case None
    then have nv: "\<not> pte_valid (pte_at s T x)" by (simp add: x_def ijk)
    show ?thesis
      by (rule that [of s]) (use None nv find inv in \<open>simp_all add: page_remove_def L_def\<close>)
  next
    case (Some t)
    show ?thesis
    proof (cases "pte_valid (pte_at s T x)")
      case False
      then have "\<not> pte_valid (kmem s (pword t k))" using Some k by (simp add: x_def ijk)
      then have "page_remove pgdir la s = Some s"
        using find Some by (simp add: page_remove_def page_remove_pte_def)
      with False inv show ?thesis by (intro that [of s]) (simp_all add: L_def)
    next
      case True
      have x: "x = (i, j, k)" by (simp add: x_def ijk)
      from page_remove_pte_inv [OF inv Some k x True _ top, of la] user obtain s' where
        s': "page_remove_pte la (pword t k) s = Some s'"
          "mm_inv s' pgdir T (F \<union> last_mapping s T x) (A - last_mapping s T x)"
          "pte_at s' T = (pte_at s T)(x := 0)" "npage s' = npage s" "tlb s' = (tlb s)(PPN la := None)" unfolding x_def by blast
      show ?thesis
        by (rule that [of s']) (use s' find Some True in \<open>simp_all add: L_def page_remove_def\<close>)
    qed
  qed
qed

lemma grows_inv:
  assumes inv: "mm_inv s pgdir T F A" and v: "vspace s' pgdir T' F' A'" and g: "grows A s T s' T'"
    and r: "A \<subseteq> A'" "ran T' \<inter> A \<subseteq> ran T" "A' \<subseteq> A \<union> ran T'"
  shows "mm_inv s' pgdir T' F' A'" and "npage s' = npage s" and "tlb s' = tlb s"
proof -
  have s': "s' = s\<lparr>pm := pm s', kmem := kmem s'\<rparr>" and p: "pte_at s' T' = pte_at s T"
    and ref: "\<forall>q \<in> A. page_ref q s' = page_ref q s" and rT: "ran T \<subseteq> ran T'"
    using g by (simp_all add: grows_def map_le_ran)
  show n: "npage s' = npage s" "tlb s' = tlb s" by (subst s', simp)+
  have data: "A' - ran T' = A - ran T" using r rT by blast
  have "mapped s' T' q = mapped s T q" for q by (simp add: mapped_def p n)
  with mm_invD(2,3) [OF inv] ref v show "mm_inv s' pgdir T' F' A'"
    unfolding mm_inv_def data p n by (metis DiffD1)
qed

lemma insert_perm: "unat (perm :: u32) < 1024 \<Longrightarrow> unat (ucast PTE_V OR perm :: s32) < 1024"
proof -
  assume "unat perm < 1024"
  then have "take_bit 10 perm = perm" by (simp add: word_unat_eq_iff unsigned_take_bit_eq take_bit_nat_eq_self)
  moreover have "take_bit 10 (ucast PTE_V :: s32) = ucast PTE_V" by (simp add: PTE_V_def)
  ultimately have "take_bit 10 (ucast PTE_V OR perm) = ucast PTE_V OR perm" by (simp add: take_bit_or)
  moreover have "unat (take_bit 10 (w :: s32)) < 1024" for w
    using take_bit_nat_less_exp [of 10 "unat w"] by (simp add: unsigned_take_bit_eq)
  ultimately show ?thesis by metis
qed

definition new_pte :: "nat \<Rightarrow> u32 \<Rightarrow> u64" where
  "new_pte page perm = pte_create (page2ppn page) (ucast PTE_V OR perm)"

lemma leads_new_pte:
  "page_ok n page \<Longrightarrow> unat perm < 1024 \<Longrightarrow> leads n (new_pte page perm) p \<longleftrightarrow> p = page"
  by (auto simp: leads_def new_pte_def pte2page_create insert_perm)

text \<open>The old mapping that an insertion of \<open>page\<close> at \<open>x\<close> takes away for good.\<close>

definition replaced :: "vmem \<Rightarrow> (tnode \<rightharpoonup> nat) \<Rightarrow> nat \<times> nat \<times> nat \<Rightarrow> nat \<Rightarrow> nat set" where
  "replaced s T x page = {p. p \<noteq> page \<and> mapped s T p = {x}}"

lemma page_insert_entry:
  assumes inv: "mm_inv s pgdir T F A" and t: "T (Tab i j) = Some t" and k: "k < 512"
    and x: "x = (i, j, k)" "user_half x" and page: "page \<in> A - ran T" and perm: "unat perm < 1024"
    and top: "pte_valid (pte_at s T x) \<longrightarrow> top_free F A"
  defines "e \<equiv> kmem (page_ref_inc page s) (pword t k)"
  obtains s1 s' where
    "(if pte_valid e then do {
        p \<leftarrow> pte2page (npage (page_ref_inc page s)) e;
        if p = page then Some (page_ref_dec page (page_ref_inc page s))
        else page_remove_pte la (pword t k) (page_ref_inc page s) }
      else Some (page_ref_inc page s)) = Some s1"
    and "s' = tlb_invalidate la (store (pword t k) (new_pte page perm) s1)"
    and "mm_inv s' pgdir T (F \<union> replaced s T x page) (A - replaced s T x page)"
    and "pte_at s' T = (pte_at s T)(x := new_pte page perm)" and "npage s' = npage s"
    and "tlb s' = (tlb s)(PPN la := None)"
proof -
  note i = mm_invD [OF inv]
  have e: "pte_at s T x = e" using t k by (simp add: e_def x(1))
  let ?si = "page_ref_inc page s"
  have vi: "vspace ?si pgdir T F A" "pte_at ?si T = pte_at s T" using i(1) pte_at_kmem [of ?si s T] by simp_all
  obtain s1 F1 A1 where s1: "(if pte_valid e then do {
        p \<leftarrow> pte2page (npage ?si) e;
        if p = page then Some (page_ref_dec page ?si) else page_remove_pte la (pword t k) ?si }
      else Some ?si) = Some s1" and v1: "vspace s1 pgdir T F1 A1"
    and p1: "(pte_at s1 T)(x := new_pte page perm) = (pte_at s T)(x := new_pte page perm)"
    and n1: "npage s1 = npage s" and tl: "(tlb s1)(PPN la := None) = (tlb s)(PPN la := None)"
    and r1: "\<And>q. page_ref q s1 = page_ref q s + (if q = page then 1 else 0) - (if leads (npage s) e q then 1 else 0)"
    and FA: "F1 = F \<union> replaced s T x page" "A1 = A - replaced s T x page"
  proof (cases "pte_valid e")
    case False
    have "replaced s T x page = {}" using False e by (auto simp: replaced_def mapped_def leads_def)
    with False vi show ?thesis by (intro that [of ?si F A]) (simp_all add: leads_def)
  next
    case True
    then obtain p where p: "p \<in> A - ran T" "leads (npage s) e p" using i(2) [of x] e x(2) by auto
    then have lp: "leads (npage s) e q \<longleftrightarrow> q = p" for q using leads_unique by blast
    have pp: "pte2page (npage ?si) e = Some p" using p(2) by (simp add: leads_def)
    have xq: "x \<in> mapped s T q \<longleftrightarrow> q = p" for q using x(2) by (simp add: mapped_def e lp)
    show ?thesis
    proof (cases "p = page")
      case eq: True
      have "replaced s T x page = {}" using xq eq by (fastforce simp: replaced_def)
      then show ?thesis
        using True pp vi eq pte_at_kmem [of "page_ref_dec page ?si" s T]
        by (intro that [of "page_ref_dec page ?si" F A]) (simp_all add: lp)
    next
      case False
      have ref: "page_ref p ?si = page_ref p s" using False by simp
      have fit: "fits p F" using top True e top_free_fits p(1) by simp
      have le: "leads (npage ?si) (pte_at ?si T (i, j, k)) p" using p(2) vi(2) e by (simp add: x(1) [symmetric])
      from page_remove_pte_raw [OF vi(1) t k le p(1) fit, of la] obtain s2 F2 A2 where
        s2: "page_remove_pte la (pword t k) ?si = Some s2" "vspace s2 pgdir T F2 A2"
          "(F2, A2) = (if page_ref p s = 1 then (insert p F, A - {p}) else (F, A))"
          "pte_at s2 T = (pte_at s T)(x := 0)" "\<And>q. page_ref q s2 = page_ref q ?si - (if q = p then 1 else 0)"
          "npage s2 = npage s" "tlb s2 = (tlb s)(PPN la := None)"
        unfolding ref vi(2) x(1) by simp metis
      have "page_ref p s = 1 \<longleftrightarrow> mapped s T p = {x}"
      proof
        assume "page_ref p s = 1"
        then have "card (mapped s T p) = 1" using i(3) [OF p(1)] by simp
        then obtain y where "mapped s T p = {y}" by (erule card_1_singletonE)
        with xq [of p] show "mapped s T p = {x}" by simp
      qed (use i(3) [OF p(1)] in simp)
      then have "q \<in> replaced s T x page \<longleftrightarrow> q = p \<and> page_ref p s = 1" for q
        using xq [of q] False by (auto simp: replaced_def)
      then have "replaced s T x page = (if page_ref p s = 1 then {p} else {})" by auto
      with s2(3) have "F2 = F \<union> replaced s T x page" "A2 = A - replaced s T x page"
        by (auto split: if_splits)
      with s2 True pp False show ?thesis by (intro that [of s2 F2 A2]) (simp_all add: lp)
    qed
  qed
  define s' where "s' = tlb_invalidate la (store (pword t k) (new_pte page perm) s1)"
  have v': "vspace s' pgdir T F1 A1" and "pte_at s' T = (pte_at s1 T)(x := new_pte page perm)"
    using store_leaf [OF v1 t k, of "new_pte page perm"] pte_at_kmem [of s' "store (pword t k) (new_pte page perm) s1" T]
    by (simp_all add: s'_def x(1))
  then have p': "pte_at s' T = (pte_at s T)(x := new_pte page perm)" using p1 by simp
  have n': "npage s' = npage s" "tlb s' = (tlb s)(PPN la := None)" using n1 tl by (simp_all add: s'_def)
  have ok: "page_ok (npage s) page"
    using i(1) page frames_page_ok [of s F A page] by (simp add: vspace_def)
  note new = leads_new_pte [OF ok perm]
  have pn: "page \<notin> replaced s T x page" by (simp add: replaced_def)
  have "\<exists>q \<in> A1 - ran T. leads (npage s') (pte_at s' T y) q" if y: "user_half y" "pte_valid (pte_at s' T y)" for y
  proof (cases "y = x")
    case True
    then show ?thesis using page pn new FA(2) p' n' by auto
  next
    case False
    with y p' have "pte_valid (pte_at s T y)" by simp
    from i(2) [OF this y(1)] obtain q where q: "q \<in> A - ran T" "leads (npage s) (pte_at s T y) q" by blast
    then have "y \<in> mapped s T q" using y(1) by (simp add: mapped_def)
    then have "q \<notin> replaced s T x page" using False by (auto simp: replaced_def)
    with q FA(2) show ?thesis using False p' n' by auto
  qed
  moreover have "page_ref q s' = int (card (mapped s' T q))" if "q \<in> A1 - ran T" for q
  proof -
    have "q \<in> A - ran T" using that FA(2) by blast
    moreover have "page_ref q s' = page_ref q s1" by (simp add: s'_def)
    ultimately show ?thesis
      unfolding card_mapped_update [OF i(1) p' n'(1) x(2)] r1 e by (simp add: i(3) new)
  qed
  ultimately have "mm_inv s' pgdir T F1 A1" using v' unfolding mm_inv_def by blast
  with that [OF s1 s'_def] FA p' n' show ?thesis by simp
qed

lemma pte_at_valid_table: "pte_valid (pte_at s T (i, j, k)) \<Longrightarrow> T (Tab i j) \<noteq> None \<and> k < 512"
  by (auto split: option.splits if_splits)

context page_supply
begin

lemma page_insert_inv:
  fixes la :: u64
  assumes inv: "mm_inv s pgdir T F A" and page: "page \<in> A - ran T" and perm: "unat perm < 1024"
    and sw: "swap_init_ok s \<longrightarrow> 2 \<le> card F" and top: "pte_valid (pte_at s T (indices la)) \<longrightarrow> top_free F A"
    and user: "user_half (indices la)"
  obtains
    (mapped) s' T' F' A' where "page_insert alloc pgdir page la perm s = Some (0, s')"
      and "mm_inv s' pgdir T' F' A'" and "F' \<union> A' = F \<union> A" and "T \<subseteq>\<^sub>m T'"
      and "pte_at s' T' = (pte_at s T)(indices la := new_pte page perm)" and "npage s' = npage s"
      and "tlb s' = (tlb s)(PPN la := None)" and "page \<in> A' - ran T'"
  | (no_memory) s' T' A' where "page_insert alloc pgdir page la perm s = Some (- E_NO_MEM, s')"
      and "mm_inv s' pgdir T' {} A'" and "pte_at s' T' = pte_at s T" and "card F < 2"
proof -
  obtain i j k where ijk: "indices la = (i, j, k)" by (cases "indices la")
  have k: "k < 512" using ijk index_less [of la] by (auto simp: indices_def)
  from get_pte_spec [OF mm_invD(1) [OF inv] sw ijk] obtain r s1 T1 F1 A1 where
    g: "get_pte alloc pgdir la True s = Some (r, s1)" and v1: "vspace s1 pgdir T1 F1 A1" and gr: "grows A s T s1 T1"
    and FA: "A \<subseteq> A1" "F \<union> A = F1 \<union> A1" "ran T1 \<inter> A \<subseteq> ran T" "A1 \<subseteq> A \<union> ran T1"
    and r: "case r of None \<Rightarrow> F1 = {} \<and> card F < 2 | Some a \<Rightarrow> \<exists>t. T1 (Tab i j) = Some t \<and> a = pword t k"
    and id: "T (Tab i j) \<noteq> None \<longrightarrow> s1 = s \<and> T1 = T \<and> F1 = F \<and> A1 = A" by blast
  note gi = grows_inv [OF inv v1 gr FA(1,3,4)]
  have p1: "pte_at s1 T1 = pte_at s T" and sub: "T \<subseteq>\<^sub>m T1" using gr by (simp_all add: grows_def)
  show ?thesis
  proof (cases r)
    case None
    with r gi g p1 show ?thesis by (intro no_memory [of s1 T1 A1]) (simp_all add: page_insert_def)
  next
    case (Some a)
    with r obtain t where t: "T1 (Tab i j) = Some t" and a: "a = pword t k" by auto
    have page1: "page \<in> A1 - ran T1" using page FA(1,3) by blast
    have top1: "pte_valid (pte_at s1 T1 (indices la)) \<longrightarrow> top_free F1 A1"
    proof
      assume "pte_valid (pte_at s1 T1 (indices la))"
      then have v: "pte_valid (pte_at s T (indices la))" using p1 by simp
      with pte_at_valid_table [of s T i j k] id ijk have "F1 = F \<and> A1 = A" by auto
      with top v show "top_free F1 A1" by simp
    qed
    from page_insert_entry [OF gi(1) t k ijk user page1 perm top1, of la] obtain s2 s' where
      s2: "(if pte_valid (kmem (page_ref_inc page s1) (pword t k)) then do {
          p \<leftarrow> pte2page (npage (page_ref_inc page s1)) (kmem (page_ref_inc page s1) (pword t k));
          if p = page then Some (page_ref_dec page (page_ref_inc page s1))
          else page_remove_pte la (pword t k) (page_ref_inc page s1) }
        else Some (page_ref_inc page s1)) = Some s2"
      and s': "s' = tlb_invalidate la (store (pword t k) (new_pte page perm) s2)"
      and inv': "mm_inv s' pgdir T1 (F1 \<union> replaced s1 T1 (indices la) page) (A1 - replaced s1 T1 (indices la) page)"
      and rest: "pte_at s' T1 = (pte_at s1 T1)(indices la := new_pte page perm)" "npage s' = npage s1"
        "tlb s' = (tlb s1)(PPN la := None)" by blast
    have "replaced s1 T1 (indices la) page \<subseteq> A1"
    proof
      fix p assume p: "p \<in> replaced s1 T1 (indices la) page"
      then have "indices la \<in> mapped s1 T1 p" by (auto simp: replaced_def)
      then have "leads (npage s1) (pte_at s1 T1 (indices la)) p" by (simp add: mapped_def)
      with mm_invD(2) [OF gi(1) _ user] leads_unique show "p \<in> A1" by (auto simp: leads_def)
    qed
    then have "F1 \<union> replaced s1 T1 (indices la) page \<union> (A1 - replaced s1 T1 (indices la) page) = F \<union> A"
      using FA(2) by blast
    moreover have "page_insert alloc pgdir page la perm s = Some (0, s')"
      using g Some a s2 by (simp add: page_insert_def Let_def s' new_pte_def)
    moreover have "page \<in> A1 - replaced s1 T1 (indices la) page - ran T1"
      using page1 by (simp add: replaced_def)
    ultimately show ?thesis 
      using inv' rest sub p1 gi(2,3)
      by (intro mapped [of s' T1 "F1 \<union> replaced s1 T1 (indices la) page"
          "A1 - replaced s1 T1 (indices la) page"]) simp_all
  qed
qed

end

section \<open>The kernel half\<close>

text \<open>
  How the page directories of the kernel come to be, and that they satisfy \<open>mm_inv\<close>:
  \<^verbatim>\<open>boot_map_segment\<close> fills the kernel half of \<^verbatim>\<open>boot_pgdir\<close>, whatever pages its entries lead
  to, and \<^verbatim>\<open>setup_pgdir\<close> copies that directory for every process.
\<close>

lemma root_inv:
  assumes "frames s F A" and "r \<in> A" and "\<And>i. i < 512 \<Longrightarrow> kmem s (pword r i) = 0" and "\<And>p. p \<in> A - {r} \<Longrightarrow> page_ref p s = 0"
  shows "mm_inv s (pkva r) [Root \<mapsto> r] F A"
proof -
  have "page_ok (npage s) r" using frames_page_ok [OF assms(1)] assms(2) by blast
  moreover have "parent m = Root \<Longrightarrow> m \<noteq> Root \<Longrightarrow> \<not> (\<exists>i j. m = Tab i j)" for m by (cases m) auto
  ultimately have "tree (kmem s) (npage s) (pkva r) [Root \<mapsto> r]"
    using assms(3) slot_less by (auto simp: tree_def points_def split: if_splits)
  moreover have "pte_at s [Root \<mapsto> r] x = 0" for x by (cases x) simp
  ultimately show ?thesis using assms by (simp add: mm_inv_def vspace_def mapped_def)
qed

lemma store_kernel_half:
  assumes inv: "mm_inv s pgdir T F A" and t: "T (Tab i j) = Some t" "k < 512" and x: "\<not> user_half (i, j, k)"
  shows "mm_inv (store (pword t k) e s) pgdir T F A"
proof -
  note leaf = store_leaf [OF mm_invD(1) [OF inv] t, of e]
  have same: "pte_at (store (pword t k) e s) T y = pte_at s T y" if "user_half y" for y using leaf(2) that x by auto
  then have "mapped (store (pword t k) e s) T p = mapped s T p" for p by (auto simp: mapped_def)
  with leaf(1) inv same show ?thesis by (auto simp: mm_inv_def simp del: pte_at.simps user_half.simps split_paired_All split_paired_Ex)
qed

fun boot_entries :: "nat \<Rightarrow> u64 \<Rightarrow> u64 \<Rightarrow> u32 \<Rightarrow> (nat \<times> nat \<times> nat \<Rightarrow> u64) \<Rightarrow> nat \<times> nat \<times> nat \<Rightarrow> u64" where
  "boot_entries 0 la pa perm f = f"
| "boot_entries (Suc n) la pa perm f = boot_entries n (la + PGSIZE) (pa + PGSIZE) perm
     (f(indices la := pte_create (drop_bit PGSHIFT pa) (ucast PTE_V OR perm)))"

context page_supply
begin

lemma boot_map_pages_inv:
  assumes "mm_inv s pgdir T F A" and "\<not> swap_init_ok s"
    and "\<forall>i < n. \<not> user_half (indices (la + of_nat i * PGSIZE))"
    and "boot_map_pages alloc pgdir n la pa perm s = Some s'"
  shows "\<exists>T' F' A'. mm_inv s' pgdir T' F' A' \<and> F' \<union> A' = F \<union> A \<and> T \<subseteq>\<^sub>m T' \<and>
    pte_at s' T' = boot_entries n la pa perm (pte_at s T)"
  using assms
proof (induction n arbitrary: s T F A la pa)
  case (Suc n)
  note inv = Suc.prems(1)
  obtain i j k where ijk: "indices la = (i, j, k)" by (cases "indices la")
  have k: "k < 512" using ijk index_less [of la] by (auto simp: indices_def)
  have kern: "\<not> user_half (i, j, k)" using Suc.prems(3) ijk by force
  from get_pte_spec [OF mm_invD(1) [OF inv] _ ijk] Suc.prems(2) obtain r s1 T1 F1 A1 where
    g: "get_pte alloc pgdir la True s = Some (r, s1)" and v1: "vspace s1 pgdir T1 F1 A1" and gr: "grows A s T s1 T1"
    and FA: "A \<subseteq> A1" "F \<union> A = F1 \<union> A1" "ran T1 \<inter> A \<subseteq> ran T" "A1 \<subseteq> A \<union> ran T1"
    and r: "case r of None \<Rightarrow> F1 = {} \<and> card F < 2 | Some a \<Rightarrow> \<exists>t. T1 (Tab i j) = Some t \<and> a = pword t k" by blast
  note gi = grows_inv(1) [OF inv v1 gr FA(1,3,4)]
  have p1: "pte_at s1 T1 = pte_at s T" and sub: "T \<subseteq>\<^sub>m T1" and s1: "s1 = s\<lparr>pm := pm s1, kmem := kmem s1\<rparr>"
    using gr by (simp_all add: grows_def)
  let ?e = "pte_create (drop_bit PGSHIFT pa) (ucast PTE_V OR perm)"
  from g Suc.prems(4) obtain a where a: "r = Some a"
    and run: "boot_map_pages alloc pgdir n (la + PGSIZE) (pa + PGSIZE) perm (store a ?e s1) = Some s'"
    by (auto simp: option_bind_eq_Some Let_def)
  from r a obtain t where t: "T1 (Tab i j) = Some t" "a = pword t k" by auto
  have i2: "mm_inv (store a ?e s1) pgdir T1 F1 A1" unfolding t(2) by (rule store_kernel_half [OF gi t(1) k kern])
  have p2: "pte_at (store a ?e s1) T1 = (pte_at s T)(indices la := ?e)"
    unfolding t(2) ijk by (simp only: store_leaf(2) [OF v1 t(1) k] p1)
  have sw: "\<not> swap_init_ok (store a ?e s1)" using Suc.prems(2) by (subst s1) (simp add: store_def)
  have up: "\<forall>m < n. \<not> user_half (indices (la + PGSIZE + of_nat m * PGSIZE))"
  proof (intro allI impI)
    fix m assume "m < n"
    with Suc.prems(3) [rule_format, of "Suc m"]
    show "\<not> user_half (indices (la + PGSIZE + of_nat m * PGSIZE))" by (simp add: algebra_simps)
  qed
  from Suc.IH [OF i2 sw up run] obtain T' F' A' where
    "mm_inv s' pgdir T' F' A'" "F' \<union> A' = F1 \<union> A1" "T1 \<subseteq>\<^sub>m T'"
    "pte_at s' T' = boot_entries n (la + PGSIZE) (pa + PGSIZE) perm (pte_at (store a ?e s1) T1)" by blast
  then show ?case using FA(2) map_le_trans [OF sub, of T'] p2
    by - (rule exI [of _ T'], rule exI [of _ F'], rule exI [of _ A'], simp)
qed (fastforce intro: map_le_refl)

end

lemma setup_pgdir_inv:
  assumes inv: "mm_inv s (pkva r) T F A" and r: "T Root = Some r" and none: "T (Dir 0) = None" "T (Dir 1) = None"
    and q: "q \<in> A - ran T"
  shows "mm_inv (copy_page (pkva q) (pkva r) s) (pkva q) (T(Root \<mapsto> q)) F (A - {r})"
    and "pte_at (copy_page (pkva q) (pkva r) s) (T(Root \<mapsto> q)) = pte_at s T"
proof -
  let ?s = "copy_page (pkva q) (pkva r) s" and ?T = "T(Root \<mapsto> q)"
  note v = mm_invD(1) [OF inv]
  have fr: "frames s F A" and t: "tree (kmem s) (npage s) (pkva r) T" and rT: "ran T \<subseteq> A"
    using v by (simp_all add: vspace_def)
  have okq: "page_ok (npage s) q" using frames_page_ok [OF fr] q by blast
  have n: "npage ?s = npage s" by (simp add: copy_page_def)
  have words: "kmem ?s (pword p i) = (if p = q then kmem s (pword r i) else kmem s (pword p i))"
    if "page_ok (npage s) p" "i < 512" for p i
  proof -
    have "pword q i - pkva q + pkva r = pword r i" by (simp add: pword_def entry_def)
    then show ?thesis using pword_in_page [OF okq that] by (simp add: copy_page_def)
  qed
  have Tq: "T m \<noteq> Some q" for m using q by (auto simp: ran_def)
  have rq: "r \<noteq> q" using Tq r by blast
  have tr: "tree (kmem ?s) (npage s) (pkva q) ?T"
  proof -
    have "inj_on ?T (dom ?T)"
    proof (rule inj_onI)
      fix x y assume "x \<in> dom ?T" "y \<in> dom ?T" "?T x = ?T y"
      then show "x = y" using inj_onD [OF treeD(2) [OF t], of x y] Tq [of x] Tq [of y]
        by (auto split: if_splits)
    qed
    moreover have "page_ok (npage s) p \<and> node_ok m \<and> ?T (parent m) \<noteq> None" if "?T m = Some p" for m p
      using that okq treeD(3-5) [OF t, of m p] by (auto split: if_splits)
    moreover have "points (kmem ?s (pword p (slot m))) (?T m)"
      if m: "m \<noteq> Root" "node_ok m" and p: "?T (parent m) = Some p" for m p
    proof (cases "parent m = Root")
      case True
      then show ?thesis using p m r treeD(6) [OF t m, of r] words [OF okq slot_less [OF m(2)]] by simp
    next
      case False
      then have p: "T (parent m) = Some p" using p by simp
      then have "p \<noteq> q" using Tq by blast
      then show ?thesis using m treeD(6) [OF t m p] words [OF treeD(3) [OF t p] slot_less [OF m(2)]] by simp
    qed
    ultimately show ?thesis unfolding tree_def by auto
  qed
  show p: "pte_at ?s ?T = pte_at s T"
  proof (rule pte_at_eqI)
    fix i j k :: nat assume "k < 512"
    then show "pte_at ?s ?T (i, j, k) = pte_at s T (i, j, k)"
      using words treeD(3) [OF t, of "Tab i j"] Tq [of "Tab i j"] by (auto split: option.splits)
  qed
  have ran: "ran ?T = insert q (ran T - {r})"
  proof -
    have root: "T m = Some r \<longleftrightarrow> m = Root" for m using tree_inj [OF t _ r, of m] r by blast
    have "x \<in> ran (T(Root := None)) \<longleftrightarrow> (\<exists>m. m \<noteq> Root \<and> T m = Some x)" for x by (auto simp: ran_def)
    moreover have "x \<in> ran T - {r} \<longleftrightarrow> (\<exists>m. m \<noteq> Root \<and> T m = Some x)" for x
    proof
      assume x: "x \<in> ran T - {r}"
      then obtain m where m: "T m = Some x" by (auto simp: ran_def)
      moreover have "m \<noteq> Root"
      proof
        assume "m = Root"
        then show False using m r x by simp
      qed
      ultimately show "\<exists>m. m \<noteq> Root \<and> T m = Some x" by blast
    next
      assume "\<exists>m. m \<noteq> Root \<and> T m = Some x"
      then show "x \<in> ran T - {r}" using root by (auto intro: ranI)
    qed
    ultimately have "ran (T(Root := None)) = ran T - {r}" by blast
    moreover have "?T = (T(Root := None))(Root \<mapsto> q)" by simp
    ultimately show ?thesis by (metis fun_upd_same ran_map_upd)
  qed
  have fr': "frames ?s F (A - {r})" using fr by (auto simp: frames_def copy_page_def)
  then have "vspace ?s (pkva q) ?T F (A - {r})" using tr rT q rq ran n by (auto simp: vspace_def)
  moreover have zero: "pte_at s T x = 0" if "user_half x" for x
  proof -
    obtain i j k where x: "x = (i, j, k)" by (cases x)
    then have "i = 0 \<or> i = 1" using that by auto
    then have "T (Tab i j) = None" using treeD(5) [OF t, of "Tab i j"] none by (cases "T (Tab i j)") auto
    then show ?thesis by (simp add: x)
  qed
  moreover have "page_ref p ?s = 0" if "p \<in> A - ran T" for p
  proof -
    have "mapped s T p = {}" using zero by (auto simp: mapped_def)
    with mm_invD(3) [OF inv that] show ?thesis by (simp add: page_ref_def copy_page_def)
  qed
  moreover have "mapped ?s ?T p = {}" for p using zero by (auto simp: mapped_def p)
  moreover have "A - {r} - ran ?T \<subseteq> A - ran T" using ran by auto
  ultimately show "mm_inv ?s (pkva q) ?T F (A - {r})" unfolding mm_inv_def p by (auto simp: not_valid_0)
qed

section \<open>Unmapping a range\<close>

text \<open>The address of the page with these indices.\<close>

fun xaddr :: "nat \<times> nat \<times> nat \<Rightarrow> nat" where
  "xaddr (i, j, k) = ((i * 512 + j) * 512 + k) * 4096"

lemma indices_nat:
  assumes "unat la < 2 ^ 39" and "indices la = (i, j, k)"
  shows "unat la div 4096 = (i * 512 + j) * 512 + k" and "k < 512" and "j < 512" and "i < 512"
proof -
  define a where "a = unat la div 4096"
  have b: "i = a div 512 div 512 mod 512" "j = a div 512 mod 512" "k = a mod 512"
    using assms(2) by (simp_all add: indices_def unat_fields a_def div_mult2_eq [symmetric])
  have "a div 512 div 512 < 512" using assms(1) by (simp add: a_def div_mult2_eq [symmetric] div_less_iff_less_mult)
  then have "i = a div 512 div 512" using b(1) by simp
  then have "(i * 512 + j) * 512 + k = a" using b(2,3) by simp
  then show "unat la div 4096 = (i * 512 + j) * 512 + k" by (simp add: a_def)
qed (use assms(2) in \<open>auto simp: indices_def index_less\<close>)

lemma xaddr_indices:
  assumes "unat la < 2 ^ 39" and "unat la mod 4096 = 0"
  shows "xaddr (indices la) = unat la"
proof -
  obtain i j k where ijk: "indices la = (i, j, k)" by (cases "indices la")
  have "unat la = unat la div 4096 * 4096"
    using div_mult_mod_eq [of "unat la" 4096] assms(2) by linarith
  then show ?thesis using indices_nat(1) [OF assms(1) ijk] by (simp add: ijk)
qed

lemma xaddr_inj:
  assumes "xaddr (i, j, k) = xaddr (i', j', k')" and "j < 512" "k < 512" "j' < 512" "k' < 512"
  shows "(i, j, k) = (i', j', k')"
proof -
  have eq: "(i * 512 + j) * 512 + k = (i' * 512 + j') * 512 + k'" using assms(1) by simp
  have digits: "x = y \<and> l = l'" if "x * 512 + l = y * 512 + l'" "l < 512" "l' < 512" for x y l l' :: nat
    using that by (cases x y rule: linorder_cases) auto
  from digits [OF eq assms(3,5)] digits [of i j i' j'] assms(2,4) show ?thesis by simp
qed

lemma user_half_below: "unat la < 2 ^ 31 \<Longrightarrow> user_half (indices la)"
  by (simp add: indices_def unat_fields div_less_iff_less_mult order.strict_trans1 [OF mod_less_eq_dividend])

text \<open>The leaf entries after the mappings of the pages in \<open>{a ..< b}\<close> are gone.\<close>

definition cleared :: "nat \<Rightarrow> nat \<Rightarrow> (nat \<times> nat \<times> nat \<Rightarrow> u64) \<Rightarrow> nat \<times> nat \<times> nat \<Rightarrow> u64" where
  "cleared a b f x = (if a \<le> xaddr x \<and> xaddr x < b \<and> pte_valid (f x) then 0 else f x)"

lemma unmap_step:
  assumes inv: "mm_inv s pgdir T F A" and top: "top_free F A" and la: "unat start < 2 ^ 31"
    and al: "unat start mod 4096 = 0" and ijk: "indices start = (i, j, k)" and t: "T (Tab i j) = Some t"
  obtains s' F' A' where
    "(if kmem s (pword t k) \<noteq> 0 then page_remove_pte start (pword t k) s else Some s) = Some s'"
    and "mm_inv s' pgdir T F' A'" and "F \<subseteq> F'" and "A' \<subseteq> A" and "F' \<union> A' = F \<union> A"
    and "\<And>x. pte_at s' T x = cleared (unat start) (unat start + 4096) (pte_at s T) x"
proof -
  have user: "user_half (i, j, k)" using user_half_below [OF la] ijk by simp
  have la: "unat start < 2 ^ 39" using la by simp
  have k: "k < 512" using indices_nat [OF la ijk] by simp
  have e: "pte_at s T (i, j, k) = kmem s (pword t k)" using t k by simp
  have only: "x = (i, j, k)" if "pte_valid (pte_at s T x)" "unat start \<le> xaddr x" "xaddr x < unat start + 4096" for x
  proof -
    obtain i' j' k' where x: "x = (i', j', k')" by (cases x)
    from pte_at_valid_table [of s T i' j' k'] that(1) x have "T (Tab i' j') \<noteq> None" and k': "k' < 512" by auto
    with treeD(4) [of "kmem s" "npage s" pgdir T "Tab i' j'"] mm_invD(1) [OF inv] have "i' < 512" "j' < 512"
      by (auto simp: vspace_def)
    moreover have "xaddr x = xaddr (i, j, k)"
    proof -
      have "xaddr (i, j, k) = unat start" using xaddr_indices [OF la al] ijk by simp
      moreover define m where "m = (i' * 512 + j') * 512 + k'"
      moreover from this have m: "xaddr x = 4096 * m" by (simp add: x)
      moreover obtain n where n: "unat start = 4096 * n" using al by (metis mod_0_imp_dvd dvdE)
      moreover have "m = n" using that(2,3) m n by linarith
      ultimately show ?thesis by simp
    qed
    ultimately show ?thesis using xaddr_inj [of i' j' k' i j k] x k' k indices_nat [OF la ijk] by simp
  qed
  have at: "xaddr (i, j, k) = unat start" using xaddr_indices [OF la al] ijk by simp
  show ?thesis
  proof (cases "pte_valid (pte_at s T (i, j, k))")
    case False
    have "(if kmem s (pword t k) \<noteq> 0 then page_remove_pte start (pword t k) s else Some s) = Some s"
      using False by (simp add: e page_remove_pte_def del: pte_at.simps)
    moreover have "pte_at s T x = cleared (unat start) (unat start + 4096) (pte_at s T) x" for x
      using only [of x] False by (auto simp: cleared_def)
    ultimately show ?thesis using inv by (intro that [of s F A]) auto
  next
    case True
    from page_remove_pte_inv [OF inv t k refl True user top, of start] obtain s' where
      s': "page_remove_pte start (pword t k) s = Some s'"
        "mm_inv s' pgdir T (F \<union> last_mapping s T (i, j, k)) (A - last_mapping s T (i, j, k))"
        "pte_at s' T = (pte_at s T)((i, j, k) := 0)" by blast
    have "last_mapping s T (i, j, k) \<subseteq> A"
    proof
      fix p assume "p \<in> last_mapping s T (i, j, k)"
      then have "(i, j, k) \<in> mapped s T p" by (auto simp: last_mapping_def)
      then have "leads (npage s) (pte_at s T (i, j, k)) p" unfolding mapped_def by blast
      with mm_invD(2) [OF inv True user] leads_unique show "p \<in> A" by blast
    qed
    moreover have "pte_at s' T x = cleared (unat start) (unat start + 4096) (pte_at s T) x" for x
    proof (cases "x = (i, j, k)")
      case x: True
      show ?thesis unfolding x s'(3) cleared_def at using True by simp
    next
      case False
      then show ?thesis using only [of x] s'(3) by (auto simp: cleared_def simp del: pte_at.simps)
    qed
    moreover have "kmem s (pword t k) \<noteq> 0" using True e by auto
    ultimately show ?thesis using s'
      by (intro that [of s' "F \<union> last_mapping s T (i, j, k)" "A - last_mapping s T (i, j, k)"]) auto
  qed
qed

lemma unat_next_table:
  assumes "unat start < 2 ^ 40"
  shows "unat (next_table start) = (unat start div 2 ^ 21 + 1) * 2 ^ 21"
proof -
  have "unat (start + PTSIZE) = unat start + 2 ^ 21"
    using assms by (simp add: PTSIZE_def PGSIZE_def NPTEENTRY_def unat_word_ariths)
  moreover have "(unat start + 2 ^ 21) div 2 ^ 21 = unat start div 2 ^ 21 + 1" by simp
  ultimately show ?thesis
    by (simp only: next_table_def unat_ROUNDDOWN) (simp add: PTSIZE_def PGSIZE_def NPTEENTRY_def)
qed

lemma missing_table:
  assumes inv: "mm_inv s pgdir T F A" and la: "unat start < 2 ^ 39" and ijk: "indices start = (i, j, k)"
    and t: "T (Tab i j) = None" and x: "pte_valid (pte_at s T x)" "unat start \<le> xaddr x"
  shows "unat (next_table start) \<le> xaddr x"
proof (rule ccontr)
  assume lt: "\<not> unat (next_table start) \<le> xaddr x"
  obtain i' j' k' where x': "x = (i', j', k')" by (cases x)
  from pte_at_valid_table [of s T i' j' k'] x(1) x' have T': "T (Tab i' j') \<noteq> None" and k': "k' < 512" by auto
  with treeD(4) [of "kmem s" "npage s" pgdir T "Tab i' j'"] mm_invD(1) [OF inv] have j': "j' < 512"
    by (auto simp: vspace_def)
  have "xaddr x div 2 ^ 21 = i' * 512 + j'"
  proof -
    have "xaddr x = (i' * 512 + j') * 2 ^ 21 + k' * 4096" by (simp add: x')
    moreover have "k' * 4096 < 2 ^ 21" using k' by simp
    ultimately show ?thesis by simp
  qed
  moreover have "unat start div 2 ^ 21 = i * 512 + j"
  proof -
    have "unat start div 2 ^ 21 = unat start div 4096 div 512" by (simp add: div_mult2_eq [symmetric])
    then show ?thesis using indices_nat [OF la ijk] by simp
  qed
  moreover have "xaddr x div 2 ^ 21 = unat start div 2 ^ 21"
  proof (rule antisym)
    show "unat start div 2 ^ 21 \<le> xaddr x div 2 ^ 21" using x(2) by (rule div_le_mono)
    have "xaddr x < (unat start div 2 ^ 21 + 1) * 2 ^ 21" using lt unat_next_table [of start] la by simp
    then show "xaddr x div 2 ^ 21 \<le> unat start div 2 ^ 21"
      by (simp add: div_less_iff_less_mult [symmetric] del: div_less_iff_less_mult)
  qed
  ultimately have "i' * 512 + j' = i * 512 + j" by simp
  then have "i' = i \<and> j' = j" using j' indices_nat(3) [OF la ijk] by (cases i i' rule: linorder_cases) auto
  with T' t show False by simp
qed

lemma unmap_loop_spec:
  assumes "mm_inv s pgdir T F A" and "top_free F A" and "unat start < unat fin" and "unat fin \<le> 2 ^ 31"
    and "unat start mod 4096 = 0" and "unat fin mod 4096 = 0"
  shows "\<exists>s' F' A'. unmap_loop pgdir start fin s = Some s' \<and> mm_inv s' pgdir T F' A' \<and> F \<subseteq> F' \<and> A' \<subseteq> A \<and>
    F' \<union> A' = F \<union> A \<and> (\<forall>x. pte_at s' T x = cleared (unat start) (unat fin) (pte_at s T) x)"
  using assms
proof (induction "unat fin - unat start" arbitrary: start s F A rule: less_induct)
  case less
  note inv = less.prems(1)
  obtain i j k where ijk: "indices start = (i, j, k)" by (cases "indices start")
  have low: "unat start < 2 ^ 31" using less.prems(3,4) by simp
  then have la: "unat start < 2 ^ 39" by simp
  have tr: "tree (kmem s) (npage s) pgdir T" using mm_invD(1) [OF inv] by (simp add: vspace_def)
  note find = find_pte_spec [OF tr ijk]
  define nxt where "nxt = (if T (Tab i j) = None then next_table start else start + PGSIZE)"
  have "unat start + 4096 < 2 ^ 64" using la by simp
  then have page: "unat (start + PGSIZE) = unat start + 4096" by (simp add: PGSIZE_def unat_word_ariths)
  have tab: "unat start < (unat start div 2 ^ 21 + 1) * 2 ^ 21" "(unat start div 2 ^ 21 + 1) * 2 ^ 21 \<le> unat start + 2 ^ 21"
    by (simp_all add: dividend_less_div_times)
  have up: "unat start < unat nxt"
    using tab(1) page unat_next_table [of start] la by (simp add: nxt_def)
  have mod: "unat nxt mod 4096 = 0"
    using page unat_next_table [of start] la less.prems(5) by (simp add: nxt_def mod_add_left_eq [symmetric])
  have ne: "nxt \<noteq> 0" using up by auto
  obtain s1 F1 A1 where
    s1: "do {
         ptep \<leftarrow> find_pte pgdir start s;
         case ptep of None \<Rightarrow> Some (next_table start, s)
         | Some ptep \<Rightarrow> do {
             s \<leftarrow> (if kmem s ptep \<noteq> 0 then page_remove_pte start ptep s else Some s);
             Some (start + PGSIZE, s) } } = Some (nxt, s1)"
    and i1: "mm_inv s1 pgdir T F1 A1" and FA: "F \<subseteq> F1" "A1 \<subseteq> A" "F1 \<union> A1 = F \<union> A"
    and p1: "\<And>x. pte_at s1 T x = cleared (unat start) (unat nxt) (pte_at s T) x"
  proof (cases "T (Tab i j)")
    case None
    have "pte_at s T x = cleared (unat start) (unat nxt) (pte_at s T) x" for x
      using missing_table [OF inv la ijk None, of x] None by (auto simp: cleared_def nxt_def)
    with None find inv show ?thesis by (intro that [of s F A]) (simp_all add: nxt_def)
  next
    case (Some t)
    from unmap_step [OF inv less.prems(2) low less.prems(5) ijk Some] obtain s' F' A' where
      "(if kmem s (pword t k) \<noteq> 0 then page_remove_pte start (pword t k) s else Some s) = Some s'"
      "mm_inv s' pgdir T F' A'" "F \<subseteq> F'" "A' \<subseteq> A" "F' \<union> A' = F \<union> A"
      "\<And>x. pte_at s' T x = cleared (unat start) (unat start + 4096) (pte_at s T) x" by metis
    with Some find page show ?thesis by (intro that [of s' F' A']) (simp_all add: nxt_def)
  qed
  have run: "unmap_loop pgdir start fin s = (if nxt < fin then unmap_loop pgdir nxt fin s1 else Some s1)"
  proof -
    have "unmap_loop pgdir start fin s = do {
         ptep \<leftarrow> find_pte pgdir start s;
         case ptep of None \<Rightarrow> Some (next_table start, s)
         | Some ptep \<Rightarrow> do {
             s \<leftarrow> (if kmem s ptep \<noteq> 0 then page_remove_pte start ptep s else Some s);
             Some (start + PGSIZE, s) } } \<bind>
       (\<lambda>(start, s). if start \<noteq> 0 \<and> start < fin then unmap_loop pgdir start fin s else Some s)"
      by (subst unmap_loop.simps) (simp only: Option.bind_assoc)
    then show ?thesis unfolding s1 using ne by simp
  qed
  show ?case
  proof (cases "nxt < fin")
    case True
    then have lt: "unat nxt < unat fin" by (simp add: word_less_nat_alt)
    have top1: "top_free F1 A1" by (rule top_free_mono [OF less.prems(2) FA(1,2)])
    from less.hyps [OF _ i1 top1 lt less.prems(4) mod less.prems(6)] up lt obtain s' F' A' where
      s': "unmap_loop pgdir nxt fin s1 = Some s'" "mm_inv s' pgdir T F' A'" "F1 \<subseteq> F'" "A' \<subseteq> A1" "F' \<union> A' = F1 \<union> A1"
        "\<forall>x. pte_at s' T x = cleared (unat nxt) (unat fin) (pte_at s1 T) x" by (meson diff_less_mono2 less_trans)
    have "pte_at s' T x = cleared (unat start) (unat fin) (pte_at s T) x" for x
      using s'(6) [rule_format, of x] p1 [of x] up lt by (auto simp: cleared_def)
    with s' run True FA show ?thesis
      by - (rule exI [of _ s'], rule exI [of _ F'], rule exI [of _ A'], auto)
  next
    case False
    then have ge: "unat fin \<le> unat nxt" by (simp add: word_less_nat_alt not_less)
    have "pte_at s1 T x = cleared (unat start) (unat fin) (pte_at s T) x" for x
    proof (cases "T (Tab i j)")
      case None
      with p1 [of x] missing_table [OF inv la ijk None, of x] ge show ?thesis
        by (auto simp: cleared_def nxt_def)
    next
      case (Some t)
      have "unat nxt = unat start + 4096" using Some page by (simp add: nxt_def)
      moreover obtain m n where mn: "unat start = 4096 * m" "unat fin = 4096 * n"
        using less.prems(5,6) by (metis mod_0_imp_dvd dvdE)
      moreover have "m < n" using less.prems(3) mn by simp
      ultimately have "unat nxt = unat fin" using ge by simp
      with p1 show ?thesis by simp
    qed
    with i1 run False FA show ?thesis
      by - (rule exI [of _ s1], rule exI [of _ F1], rule exI [of _ A1], auto)
  qed
qed

section \<open>Properties\<close>

text \<open>
  An address space on nine pages: the root directory 0, a level 0 directory 1 and a leaf table 2 for
  the addresses from \<open>0x800000\<close> on, a directory 4 and a leaf table 5 for the kernel's addresses
  from \<open>0xFFFFFFFFC0000000\<close> on, the page 3 handed out, the others free. The kernel maps all
  nine pages, the tables and the free ones included.
\<close>

definition ex_tables_vm :: vmem where
  "ex_tables_vm = \<lparr>pm = the (default_free_pages 6 3 ex_pmm),
     kmem = (\<lambda>_. 0)(pword 0 0 := table_entry 1, pword 1 4 := table_entry 2, pword 0 511 := table_entry 4,
       pword 4 0 := table_entry 5),
     npage = 0x88000, tlb = (\<lambda>_. None), swap_init_ok = False, check_mm = None,
     pra = \<lparr>l_prev = id, l_next = id\<rparr>, pra_vaddr = (\<lambda>_. 0),
     swap_dev = \<lparr>dev_valid = True, dev_size = 0, iobase = 0\<rparr>, max_swap_offset = 0\<rparr>"

definition ex_tables :: "tnode \<rightharpoonup> nat" where
  "ex_tables = [Root \<mapsto> 0, Dir 0 \<mapsto> 1, Tab 0 4 \<mapsto> 2, Dir 511 \<mapsto> 4, Tab 511 0 \<mapsto> 5]"

definition ex_vm :: vmem where
  "ex_vm = fold (\<lambda>p. store (pword 5 p) (new_pte p 6)) [0..<9] ex_tables_vm"

lemma ex_vm_frames: "frames ex_tables_vm {6..<9} {0..<6}" and ex_vm_ref: "p < 6 \<Longrightarrow> page_ref p ex_tables_vm = 0"
proof -
  from default_free_pages_inv [OF ex_pmm_inv, of 3 6] ex_pmm_taken obtain m ys where
    m: "default_free_pages 6 3 ex_pmm = Some m" "pmm_inv 9 m ys" "free_set m ys = {6..<9}"
    by (auto simp: linkable_def)
  have same: "same_page p ex_pmm m" if "p < 6" for p
    using default_free_pages_same [OF m(1), of p] that by simp
  have ref: "pg_ref (pages ex_pmm p) = 0" "\<not> PageReserved p ex_pmm" for p
    by (simp_all add: ex_pmm_def default_init_def PageReserved_def)
  have "\<not> PageReserved p m" if "p < 6" for p
    using same [OF that] ref(2) by (simp add: same_page_def)
  with m show "frames ex_tables_vm {6..<9} {0..<6}"
    unfolding frames_def ex_tables_vm_def by (intro exI [of _ 9] exI [of _ ys]) auto
  show "page_ref p ex_tables_vm = 0" if "p < 6"
    using same [OF that] ref(1) m(1) by (simp add: same_page_def page_ref_def ex_tables_vm_def)
qed

lemma ex_vm_ok: "p < 9 \<Longrightarrow> page_ok 0x88000 p"
  by (simp add: page_ok_def)

lemma tree_grow_fresh:
  assumes t: "tree km n pgdir T" and m: "T m = None" "m \<noteq> Root" "node_ok m" "T (parent m) = Some pp"
    and p: "p \<notin> ran T" "page_ok n p" and zero: "\<And>i. i < 512 \<Longrightarrow> km (pword p i) = 0"
  shows "tree (km(pword pp (slot m) := table_entry p)) n pgdir (T(m \<mapsto> p))"
proof (rule tree_grow [OF t m p])
  show "pte_valid (table_entry p)" "PTE_ADDR (table_entry p) = page2pa p"
    using table_entry_points [OF p(2)] by simp_all
  fix q i assume "page_ok n q" "i < (512 :: nat)"
  with pword_inj [OF _ treeD(3) [OF t m(4)] _ slot_less [OF m(3)], of q i] zero [of i]
  show "(km(pword pp (slot m) := table_entry p)) (pword q i) =
      (if q = pp \<and> i = slot m then table_entry p else if q = p then 0 else km (pword q i))" by simp
qed

lemma ex_vm_tree: "tree (kmem ex_tables_vm) 0x88000 (pkva 0) ex_tables"
proof -
  have apart: "pword p k \<noteq> pword q l" if "p < 9" "q < 9" "k < 512" "l < 512" "p \<noteq> q \<or> k \<noteq> l" for p q k l
    using pword_inj [OF ex_vm_ok [OF that(1)] ex_vm_ok [OF that(2)] that(3,4)] that(5) by blast
  have 0: "tree (\<lambda>_. 0) 0x88000 (pkva 0) [Root \<mapsto> 0]"
    using ex_vm_ok [of 0] by (auto simp: tree_def points_def)
  have 1: "tree ((\<lambda>_. 0)(pword 0 (slot (Dir 0)) := table_entry 1)) 0x88000 (pkva 0) ([Root \<mapsto> 0](Dir 0 \<mapsto> 1))"
    by (rule tree_grow_fresh [OF 0]) (simp_all add: ex_vm_ok)
  have 2: "tree ((\<lambda>_. 0)(pword 0 (slot (Dir 0)) := table_entry 1, pword 1 (slot (Tab 0 4)) := table_entry 2))
    0x88000 (pkva 0) ([Root \<mapsto> 0, Dir 0 \<mapsto> 1](Tab 0 4 \<mapsto> 2))"
    by (rule tree_grow_fresh [OF 1]) (simp_all add: ex_vm_ok apart)
  have 3: "tree ((\<lambda>_. 0)(pword 0 (slot (Dir 0)) := table_entry 1, pword 1 (slot (Tab 0 4)) := table_entry 2,
      pword 0 (slot (Dir 511)) := table_entry 4))
    0x88000 (pkva 0) ([Root \<mapsto> 0, Dir 0 \<mapsto> 1, Tab 0 4 \<mapsto> 2](Dir 511 \<mapsto> 4))"
    by (rule tree_grow_fresh [OF 2]) (simp_all add: ex_vm_ok apart)
  have "tree ((\<lambda>_. 0)(pword 0 (slot (Dir 0)) := table_entry 1, pword 1 (slot (Tab 0 4)) := table_entry 2,
      pword 0 (slot (Dir 511)) := table_entry 4, pword 4 (slot (Tab 511 0)) := table_entry 5))
    0x88000 (pkva 0) ([Root \<mapsto> 0, Dir 0 \<mapsto> 1, Tab 0 4 \<mapsto> 2, Dir 511 \<mapsto> 4](Tab 511 0 \<mapsto> 5))"
  proof (rule tree_grow_fresh [OF 3])
    show "(5 :: nat) \<notin> ran [Root \<mapsto> 0, Dir 0 \<mapsto> 1, Tab 0 4 \<mapsto> 2, Dir 511 \<mapsto> 4]"
      by (auto simp: ran_def split: if_splits)
    show "page_ok 0x88000 5" by (rule ex_vm_ok) simp
    fix i :: nat assume i: "i < 512"
    then have "pword 5 i \<noteq> pword 0 0" "pword 5 i \<noteq> pword 1 4" "pword 5 i \<noteq> pword 0 511" by (simp_all add: apart)
    then show "((\<lambda>_. 0)(pword 0 (slot (Dir 0)) := table_entry 1, pword 1 (slot (Tab 0 4)) := table_entry 2,
      pword 0 (slot (Dir 511)) := table_entry 4)) (pword 5 i) = 0" by simp
  qed simp_all
  then show ?thesis unfolding ex_tables_vm_def ex_tables_def slot.simps vmem.select_convs .
qed

lemma ex_tables_ran: "ran ex_tables = {0, 1, 2, 4, 5}"
  by (simp add: ex_tables_def) auto

lemma ex_tables_empty: "pte_at ex_tables_vm ex_tables x = 0"
proof -
  obtain i j k where x: "x = (i, j, k)" by (cases x)
  have "kmem ex_tables_vm (pword 2 k) = 0" "kmem ex_tables_vm (pword 5 k) = 0" if k: "k < 512"
    using pword_inj [OF ex_vm_ok ex_vm_ok k] by (simp_all add: ex_tables_vm_def)
  then show ?thesis by (auto simp: x ex_tables_def split: option.splits)
qed

lemma ex_vm_inv: "mm_inv ex_vm (pkva 0) ex_tables {6..<9} {0..<6}"
  and ex_vm_kernel: "p < 9 \<Longrightarrow> leads 0x88000 (pte_at ex_vm ex_tables (511, 0, p)) p"
  and ex_vm_empty: "user_half x \<Longrightarrow> pte_at ex_vm ex_tables x = 0"
proof -
  have t: "ex_tables (Tab 511 0) = Some 5" by (simp add: ex_tables_def)
  have np: "npage ex_tables_vm = 0x88000" by (simp add: ex_tables_vm_def)
  have "vspace ex_tables_vm (pkva 0) ex_tables {6..<9} {0..<6}"
    using ex_vm_frames ex_vm_tree by (auto simp: vspace_def np ex_tables_ran)
  with ex_vm_ref ex_tables_empty have inv0: "mm_inv ex_tables_vm (pkva 0) ex_tables {6..<9} {0..<6}"
    by (auto simp: mm_inv_def mapped_def)
  have step: "mm_inv (fold (\<lambda>p. store (pword 5 p) (new_pte p 6)) [0..<m] ex_tables_vm) (pkva 0) ex_tables {6..<9} {0..<6} \<and>
    pte_at (fold (\<lambda>p. store (pword 5 p) (new_pte p 6)) [0..<m] ex_tables_vm) ex_tables =
      (\<lambda>(i, j, k). if i = 511 \<and> j = 0 \<and> k < m then new_pte k 6 else 0)" if "m \<le> 9" for m
    using that
  proof (induction m)
    case 0
    then show ?case using inv0 by (simp add: fun_eq_iff ex_tables_empty del: pte_at.simps)
  next
    case (Suc m)
    let ?s = "fold (\<lambda>p. store (pword 5 p) (new_pte p 6)) [0..<m] ex_tables_vm"
    from Suc have i: "mm_inv ?s (pkva 0) ex_tables {6..<9} {0..<6}" by simp
    have k: "m < 512" using Suc by simp
    have "\<not> user_half (511, 0, m)" by simp
    note i' = store_kernel_half [where e = "new_pte m 6", OF i t k this]
    have "pte_at (store (pword 5 m) (new_pte m 6) ?s) ex_tables = (pte_at ?s ex_tables)((511, 0, m) := new_pte m 6)"
      by (rule store_leaf(2) [OF mm_invD(1) [OF i] t k])
    moreover have "pte_at ?s ex_tables = (\<lambda>(i, j, k). if i = 511 \<and> j = 0 \<and> k < m then new_pte k 6 else 0)"
      using Suc by simp
    ultimately show ?case using i' by (auto simp: fun_eq_iff less_Suc_eq simp del: pte_at.simps)
  qed
  from step [of 9] show "mm_inv ex_vm (pkva 0) ex_tables {6..<9} {0..<6}" by (simp add: ex_vm_def)
  have e: "pte_at ex_vm ex_tables = (\<lambda>(i, j, k). if i = 511 \<and> j = 0 \<and> k < 9 then new_pte k 6 else 0)"
    using step [of 9] by (simp only: ex_vm_def le_refl simp_thms)
  show "leads 0x88000 (pte_at ex_vm ex_tables (511, 0, p)) p" if "p < 9"
    using leads_new_pte [OF ex_vm_ok [OF that], of 6 p] that by (simp add: e del: pte_at.simps)
  show "pte_at ex_vm ex_tables x = 0" if "user_half x"
    using that by (cases x) (simp add: e del: pte_at.simps)
qed

lemma ex_vm_fields: "npage ex_vm = 0x88000" "pm ex_vm = pm ex_tables_vm"
  by (simp_all add: ex_vm_def ex_tables_vm_def upt_conv_Cons store_def)

lemma mm_inv_page_ok: "mm_inv s pgdir T F A \<Longrightarrow> p \<in> A - ran T \<Longrightarrow> page_ok (npage s) p"
  using frames_page_ok [of s F A p] by (auto simp: mm_inv_def vspace_def)

lemma get_page_leads:
  assumes "mm_inv s pgdir T F A" and "leads (npage s) (pte_at s T (indices la)) p"
  shows "map_option fst (get_page pgdir la s) = Some (Some p)"
proof -
  obtain i j k where ijk: "indices la = (i, j, k)" by (cases "indices la")
  have tr: "tree (kmem s) (npage s) pgdir T" using mm_invD(1) [OF assms(1)] by (simp add: vspace_def)
  have v: "pte_valid (pte_at s T (i, j, k))" "pte2page (npage s) (pte_at s T (i, j, k)) = Some p"
    using assms(2) by (simp_all only: leads_def ijk)
  from pte_at_valid_table [OF v(1)] obtain t where t: "T (Tab i j) = Some t" "k < 512" by blast
  then have "pte_at s T (i, j, k) = kmem s (pword t k)" by simp
  with v t find_pte_spec [OF tr ijk] show ?thesis
    by (simp add: get_page_def)
qed

lemma user_access: "la < USERTOP \<Longrightarrow> user_half (indices la)"
  by (rule user_half_below) (simp add: USERTOP_def word_less_nat_alt)

text \<open>
  C35: On a well-formed address space, whatever its kernel half maps, with two free pages for tables,
  page_insert at a user address succeeds: the leaf entry of the address becomes an entry for the page
  with the permission and every other leaf entry, of the user and of the kernel half, keeps its value,
  whatever tables are built; get_page then returns the page and no stale translation of the address is
  left. Every page of the address space still has the number of its user mappings as reference count,
  so a page that was mapped there for the last time has become free. Where a mapping is replaced, some
  free page must lie above the pages of the address space: freeing a page above all free ones damages
  the free list.
\<close>

theorem page_insert_maps:
  assumes "mm_inv s pgdir T F A" and "page \<in> A - ran T" and "unat perm < 1024" and "2 \<le> card F"
    and "la < USERTOP" and "pte_valid (pte_at s T (indices la)) \<longrightarrow> top_free F A"
  shows "\<exists>s' T' F' A'. page_insert alloc_page pgdir page la perm s = Some (0, s') \<and> mm_inv s' pgdir T' F' A' \<and>
    F' \<union> A' = F \<union> A \<and> pte_at s' T' = (pte_at s T)(indices la := new_pte page perm) \<and>
    map_option fst (get_page pgdir la s') = Some (Some page) \<and> tlb s' (PPN la) = None"
proof (rule boot_supply.page_insert_inv [OF assms(1-3) _ assms(6) user_access [OF assms(5)]])
  show "swap_init_ok s \<longrightarrow> 2 \<le> card F" using assms(4) by simp
next
  fix s' T' F' A'
  assume s': "page_insert alloc_page pgdir page la perm s = Some (0, s')" "mm_inv s' pgdir T' F' A'"
    "F' \<union> A' = F \<union> A" "pte_at s' T' = (pte_at s T)(indices la := new_pte page perm)" "npage s' = npage s"
    "tlb s' = (tlb s)(PPN la := None)" "page \<in> A' - ran T'"
  have "map_option fst (get_page pgdir la s') = Some (Some page)"
    by (rule get_page_leads [OF s'(2)]) (use s'(2,4,7) assms(3) in \<open>simp add: leads_new_pte mm_inv_page_ok\<close>)
  with s' show ?thesis by auto
qed (use assms(4) in simp)

text \<open>The kernel half of the example leads to all its pages: tables, free pages, and the inserted one.\<close>

theorem page_insert_maps_witness:
  "\<exists>s' T' F' A'. page_insert alloc_page (pkva 0) 3 0x7FFFF000 0x17 ex_vm = Some (0, s') \<and>
     mm_inv s' (pkva 0) T' F' A' \<and> map_option fst (get_page (pkva 0) 0x7FFFF000 s') = Some (Some 3) \<and>
     (\<forall>p < 9. leads 0x88000 (pte_at s' T' (511, 0, p)) p)"
proof -
  have ix: "indices 0x7FFFF000 = (1, 511, 511)" by (simp add: indices_def unat_fields)
  have "pte_at ex_vm ex_tables (indices 0x7FFFF000) = 0" unfolding ix by (rule ex_vm_empty) simp
  then have v: "pte_valid (pte_at ex_vm ex_tables (indices 0x7FFFF000)) \<longrightarrow> top_free {6..<9} {0..<6}" by simp
  have p: "3 \<in> {0..<6} - ran ex_tables" "unat (0x17 :: u32) < 1024" "2 \<le> card {6..<9 :: nat}" "0x7FFFF000 < USERTOP"
    by (simp_all add: ex_tables_ran USERTOP_def)
  from page_insert_maps [OF ex_vm_inv p v] obtain s' T' F' A' where
    s': "page_insert alloc_page (pkva 0) 3 0x7FFFF000 0x17 ex_vm = Some (0, s')" "mm_inv s' (pkva 0) T' F' A'"
      "pte_at s' T' = (pte_at ex_vm ex_tables)((1, 511, 511) := new_pte 3 0x17)"
      "map_option fst (get_page (pkva 0) 0x7FFFF000 s') = Some (Some 3)" unfolding ix by blast
  have "leads 0x88000 (pte_at s' T' (511, 0, p)) p" if "p < 9" for p
    using ex_vm_kernel [OF that] unfolding s'(3) by (simp del: pte_at.simps)
  with s' show ?thesis by blast
qed



end
