(* ===== verification/Swap.thy ===== *)
theory Swap
  imports Address_Space
begin

text \<open>
  Page replacement: \<^verbatim>\<open>kern/mm/swap.c\<close>, the FIFO manager of \<^verbatim>\<open>kern/mm/swap_fifo.c\<close>,
  \<^verbatim>\<open>kern/fs/swap/swapfs.c\<close> with the disk of \<^verbatim>\<open>kern/driver/ide.c\<close> and
  \<^verbatim>\<open>kern/driver/ramdisk.c\<close>, and the clock manager of lab 3. The swap device is a RAM disk: an
  area of the kernel's memory from \<^verbatim>\<open>iobase\<close> on. An \<^verbatim>\<open>mm_struct\<close> enters these functions
  with its page directory only, since the list of the FIFO manager is global.
\<close>

section \<open>The disk (kern/driver/ide.c, kern/driver/ramdisk.c)\<close>

definition SECTSIZE :: u64 where "SECTSIZE = 512"
definition PAGE_NSECT :: u64 where "PAGE_NSECT = PGSIZE div SECTSIZE"
definition MAX_NSECS :: u64 where "MAX_NSECS = 128"
definition MAX_DISK_NSECS :: u64 where "MAX_DISK_NSECS = 0x10000000"

text \<open>\<^verbatim>\<open>memcpy(dst, src, n)\<close> by words.\<close>

definition copy_words :: "u64 \<Rightarrow> u64 \<Rightarrow> u64 \<Rightarrow> vmem \<Rightarrow> vmem" where
  "copy_words dst src n s = s\<lparr>kmem := (\<lambda>a. if a - dst < n then kmem s (a - dst + src) else kmem s a)\<rparr>"

text \<open>
  The check \<^verbatim>\<open>nsecs < 0\<close> of both functions is on an unsigned number and never true; the
  subtraction from the size wraps around.
\<close>

definition ramdisk_read :: "ide_device \<Rightarrow> u64 \<Rightarrow> u64 \<Rightarrow> u64 \<Rightarrow> vmem \<Rightarrow> int \<times> vmem" where
  "ramdisk_read dev secno dst nsecs s =
     (let nsecs = min nsecs (ucast (dev_size dev) - secno)
      in if nsecs < 0 then (- 1, s)
         else (0, copy_words dst (iobase dev + secno * SECTSIZE) (nsecs * SECTSIZE) s))"

definition ramdisk_write :: "ide_device \<Rightarrow> u64 \<Rightarrow> u64 \<Rightarrow> u64 \<Rightarrow> vmem \<Rightarrow> int \<times> vmem" where
  "ramdisk_write dev secno src nsecs s =
     (let nsecs = min nsecs (ucast (dev_size dev) - secno)
      in if nsecs < 0 then (- 1, s)
         else (0, copy_words (iobase dev + secno * SECTSIZE) src (nsecs * SECTSIZE) s))"

definition ide_read_secs :: "ide_device \<Rightarrow> u32 \<Rightarrow> u64 \<Rightarrow> u64 \<Rightarrow> vmem \<Rightarrow> (int \<times> vmem) option" where
  "ide_read_secs dev secno dst nsecs s = do {
     kassert (nsecs \<le> MAX_NSECS \<and> dev_valid dev);
     kassert (ucast secno < MAX_DISK_NSECS \<and> ucast secno + nsecs \<le> MAX_DISK_NSECS);
     Some (ramdisk_read dev (ucast secno) dst nsecs s) }"

definition ide_write_secs :: "ide_device \<Rightarrow> u32 \<Rightarrow> u64 \<Rightarrow> u64 \<Rightarrow> vmem \<Rightarrow> (int \<times> vmem) option" where
  "ide_write_secs dev secno src nsecs s = do {
     kassert (nsecs \<le> MAX_NSECS \<and> dev_valid dev);
     kassert (ucast secno < MAX_DISK_NSECS \<and> ucast secno + nsecs \<le> MAX_DISK_NSECS);
     Some (ramdisk_write dev (ucast secno) src nsecs s) }"

definition ide_device_size :: "ide_device \<Rightarrow> u64" where
  "ide_device_size dev = (if dev_valid dev then ucast (dev_size dev) else 0)"

text \<open>
  Setting up the disks: the images linked into the kernel lie between the given addresses. What
  \<^verbatim>\<open>ramdisk_init\<close> does not set is zero; the transfer functions are the same for every device.
\<close>

definition MAX_IDE :: nat where "MAX_IDE = 4"
definition SWAP_DEV_NO :: nat where "SWAP_DEV_NO = 1"
definition DISK0_DEV_NO :: nat where "DISK0_DEV_NO = 2"

definition check_initrd :: "u64 \<Rightarrow> u64 \<Rightarrow> bool" where
  "check_initrd initrd_begin initrd_end \<longleftrightarrow> initrd_begin \<noteq> initrd_end"

definition ramdisk_init :: "u64 \<times> u64 \<Rightarrow> u64 \<times> u64 \<Rightarrow> nat \<Rightarrow> ide_device option" where
  "ramdisk_init swap_img sfs_img devno = do {
     (initrd_begin, initrd_end) \<leftarrow>
       (if devno = SWAP_DEV_NO then Some swap_img else if devno = DISK0_DEV_NO then Some sfs_img else None);
     Some (if check_initrd initrd_begin initrd_end
       then \<lparr>dev_valid = True, dev_size = ucast (initrd_end - initrd_begin) div ucast SECTSIZE, iobase = initrd_begin\<rparr>
       else \<lparr>dev_valid = False, dev_size = 0, iobase = 0\<rparr>) }"

definition ide_init :: "u64 \<times> u64 \<Rightarrow> u64 \<times> u64 \<Rightarrow> (nat \<Rightarrow> ide_device) \<Rightarrow> (nat \<Rightarrow> ide_device) option" where
  "ide_init swap_img sfs_img devs = do {
     let devs = (\<lambda>i. if i < MAX_IDE then (devs i)\<lparr>dev_valid := False\<rparr> else devs i);
     d \<leftarrow> ramdisk_init swap_img sfs_img SWAP_DEV_NO;
     kassert (dev_valid d);
     let devs = devs(SWAP_DEV_NO := d);
     d \<leftarrow> ramdisk_init swap_img sfs_img DISK0_DEV_NO;
     kassert (dev_valid d);
     Some (devs(DISK0_DEV_NO := d)) }"

section \<open>Swap entries (kern/mm/swap.h, kern/fs/swap/swapfs.c)\<close>

definition swap_offset :: "u64 \<Rightarrow> vmem \<Rightarrow> u64 option" where
  "swap_offset ent s =
     (let off = drop_bit 8 ent in if 0 < off \<and> off < max_swap_offset s then Some off else None)"

definition swapfs_init :: "vmem \<Rightarrow> vmem option" where
  "swapfs_init s = do {
     kassert (dev_valid (swap_dev s));
     Some (s\<lparr>max_swap_offset := ide_device_size (swap_dev s) div (PGSIZE div SECTSIZE)\<rparr>) }"

definition swapfs_read :: "u64 \<Rightarrow> nat \<Rightarrow> vmem \<Rightarrow> (int \<times> vmem) option" where
  "swapfs_read ent page s = do {
     off \<leftarrow> swap_offset ent s;
     kva \<leftarrow> page2kva (npage s) page;
     ide_read_secs (swap_dev s) (ucast (off * PAGE_NSECT)) kva PAGE_NSECT s }"

definition swapfs_write :: "u64 \<Rightarrow> nat \<Rightarrow> vmem \<Rightarrow> (int \<times> vmem) option" where
  "swapfs_write ent page s = do {
     off \<leftarrow> swap_offset ent s;
     kva \<leftarrow> page2kva (npage s) page;
     ide_write_secs (swap_dev s) (ucast (off * PAGE_NSECT)) kva PAGE_NSECT s }"

section \<open>First in, first out (kern/mm/swap_fifo.c)\<close>

definition fifo_init_mm :: "vmem \<Rightarrow> vmem" where
  "fifo_init_mm s = s\<lparr>pra := list_init PraHead (pra s)\<rparr>"

text \<open>
  The victim is the first entry. When the list is empty that is the head itself, which is the link
  of no page: the function goes on with a made-up page pointer, and the model stops.
\<close>

definition fifo_swap_out_victim :: "bool \<Rightarrow> vmem \<Rightarrow> (nat \<times> vmem) option" where
  "fifo_swap_out_victim in_tick s = do {
     kassert (\<not> in_tick);
     let e = list_next PraHead (pra s);
     let s = s\<lparr>pra := list_del e (pra s)\<rparr>;
     case e of PraHead \<Rightarrow> None | PraLink page \<Rightarrow> Some (page, s) }"

section \<open>Swapping out and in (kern/mm/swap.c)\<close>

definition MAX_SWAP_OFFSET_LIMIT :: u64 where "MAX_SWAP_OFFSET_LIMIT = push_bit 24 1"

text \<open>\<^verbatim>\<open>swap_init\<close> without its self-check; \<^verbatim>\<open>_fifo_init\<close> returns 0.\<close>

definition swap_init :: "vmem \<Rightarrow> vmem option" where
  "swap_init s = do {
     s \<leftarrow> swapfs_init s;
     kassert (7 \<le> max_swap_offset s \<and> max_swap_offset s < MAX_SWAP_OFFSET_LIMIT);
     Some (s\<lparr>swap_init_ok := True\<rparr>) }"

definition swap_entry :: "u64 \<Rightarrow> u64" where
  "swap_entry v = push_bit 8 (v div PGSIZE + 1)"

text \<open>One round of the loop of \<^verbatim>\<open>swap_out\<close>; the manager's function never fails.\<close>

definition swap_out_one :: "u64 \<Rightarrow> bool \<Rightarrow> vmem \<Rightarrow> vmem option" where
  "swap_out_one pgdir in_tick s = do {
     (page, s) \<leftarrow> fifo_swap_out_victim in_tick s;
     let v = pra_vaddr s page;
     ptep \<leftarrow> find_pte pgdir v s;
     ptep \<leftarrow> ptep;
     kassert (kmem s ptep AND PTE_V \<noteq> 0);
     (r, s) \<leftarrow> swapfs_write (swap_entry (pra_vaddr s page)) page s;
     if r \<noteq> 0 then Some (fifo_map_swappable page s)
     else do {
       let s = store ptep (swap_entry (pra_vaddr s page)) s;
       s \<leftarrow> free_page page s;
       Some (tlb_invalidate v s) } }"

fun swap_out :: "u64 \<Rightarrow> nat \<Rightarrow> bool \<Rightarrow> vmem \<Rightarrow> vmem option" where
  "swap_out pgdir 0 in_tick s = Some s"
| "swap_out pgdir (Suc n) in_tick s = do {
     s \<leftarrow> swap_out_one pgdir in_tick s;
     swap_out pgdir n in_tick s }"

text \<open>
  \<^verbatim>\<open>alloc_page()\<close> once swapping is on: \<^verbatim>\<open>swap_out(check_mm_struct, 1, 0)\<close> when there is no
  free page. Outside the self-checks \<^verbatim>\<open>check_mm_struct\<close> is \<^verbatim>\<open>NULL\<close>, which the manager
  dereferences.
\<close>

partial_function (option) alloc_page_swapping :: "vmem \<Rightarrow> (nat option \<times> vmem) option" where
  "alloc_page_swapping s = do {
     (page, s) \<leftarrow> alloc_page s;
     if page \<noteq> None \<or> \<not> swap_init_ok s then Some (page, s)
     else do {
       pgdir \<leftarrow> check_mm s;
       s \<leftarrow> swap_out pgdir 1 False s;
       alloc_page_swapping s } }"

declare alloc_page_swapping.simps [code]

text \<open>The result of \<^verbatim>\<open>swapfs_read\<close> is looked at, but a failure is only asserted to be one.\<close>

definition swap_in :: "page_alloc \<Rightarrow> u64 \<Rightarrow> u64 \<Rightarrow> vmem \<Rightarrow> (int \<times> nat \<times> vmem) option" where
  "swap_in alloc pgdir addr s = do {
     (result, s) \<leftarrow> alloc s;
     result \<leftarrow> result;
     ptep \<leftarrow> find_pte pgdir addr s;
     ptep \<leftarrow> ptep;
     (r, s) \<leftarrow> swapfs_read (kmem s ptep) result s;
     kassert (r \<noteq> 0 \<longrightarrow> r \<noteq> 0);
     Some (0, result, s) }"

section \<open>The clock (lab 3, kern/mm/swap_clock.c)\<close>

record clock =
  ck_links :: "pra_node links"
  curr_ptr :: pra_node
  visited :: "nat \<Rightarrow> u64"

definition clock_init_mm :: "clock \<Rightarrow> clock" where
  "clock_init_mm c = c\<lparr>ck_links := list_init PraHead (ck_links c), curr_ptr := PraHead\<rparr>"

definition clock_map_swappable :: "nat \<Rightarrow> clock \<Rightarrow> clock" where
  "clock_map_swappable page c =
     (let c = c\<lparr>ck_links := list_add PraHead (PraLink page) (ck_links c)\<rparr>;
          c = c\<lparr>curr_ptr := list_prev PraHead (ck_links c)\<rparr>
      in c\<lparr>visited := (visited c)(page := 1)\<rparr>)"

partial_function (option) clock_victim :: "clock \<Rightarrow> (nat \<times> clock) option" where
  "clock_victim c =
     (let le = curr_ptr c;
          c = c\<lparr>curr_ptr := list_next le (ck_links c)\<rparr>;
          c = (if curr_ptr c = PraHead then c\<lparr>curr_ptr := list_next PraHead (ck_links c)\<rparr> else c)
      in case le of PraHead \<Rightarrow> None
         | PraLink page \<Rightarrow>
             if visited c page = 0
             then Some (page, c\<lparr>visited := (visited c)(page := 1), ck_links := list_del le (ck_links c)\<rparr>)
             else clock_victim (c\<lparr>visited := (visited c)(page := 0)\<rparr>))"

declare clock_victim.simps [code]

definition clock_swap_out_victim :: "bool \<Rightarrow> clock \<Rightarrow> (nat \<times> clock) option" where
  "clock_swap_out_victim in_tick c = do { kassert (\<not> in_tick); clock_victim c }"

section \<open>What the page table code leaves alone\<close>

text \<open>Only the allocator, the memory and the cached translations differ.\<close>

definition same_rest :: "vmem \<Rightarrow> vmem \<Rightarrow> bool" where
  "same_rest s s' \<longleftrightarrow> s' = s\<lparr>pm := pm s', kmem := kmem s', tlb := tlb s'\<rparr>"

lemma same_rest_refl [simp]: "same_rest s s"
  by (simp add: same_rest_def)

lemma same_restD:
  assumes "same_rest s s'"
  shows "npage s' = npage s" "swap_init_ok s' = swap_init_ok s" "check_mm s' = check_mm s" "pra s' = pra s"
    "pra_vaddr s' = pra_vaddr s" "swap_dev s' = swap_dev s" "max_swap_offset s' = max_swap_offset s"
proof -
  note eq = assms [unfolded same_rest_def]
  show "npage s' = npage s" "swap_init_ok s' = swap_init_ok s" "check_mm s' = check_mm s" "pra s' = pra s"
    "pra_vaddr s' = pra_vaddr s" "swap_dev s' = swap_dev s" "max_swap_offset s' = max_swap_offset s"
    by (subst eq, simp)+
qed

lemma same_rest_trans: "same_rest s t \<Longrightarrow> same_rest t u \<Longrightarrow> same_rest s u"
  unfolding same_rest_def by (cases s; cases t; cases u) simp

lemma same_rest_ops [simp]:
  "same_rest s (upd_pm f t) = same_rest s t" "same_rest s (store a v t) = same_rest s t"
  "same_rest s (tlb_invalidate la t) = same_rest s t" "same_rest s (page_ref_inc p t) = same_rest s t"
  "same_rest s (page_ref_dec p t) = same_rest s t" "same_rest s (copy_words d r n t) = same_rest s t"
  by (cases s; cases t; simp add: same_rest_def upd_pm_def store_def tlb_invalidate_def page_ref_inc_def
      page_ref_dec_def copy_words_def)+

lemma kmem_store [simp]: "kmem (store a v s) = (kmem s)(a := v)"
  by (simp add: store_def)

lemma free_page_rest: "free_page p s = Some s' \<Longrightarrow> same_rest s s' \<and> kmem s' = kmem s \<and> tlb s' = tlb s"
  by (auto simp: free_page_def same_rest_def)

lemma same_memory_rest: "same_memory s s' \<Longrightarrow> same_rest s s' \<and> kmem s' = kmem s \<and> tlb s' = tlb s"
  unfolding same_memory_def same_rest_def by (cases s; cases s') simp

lemma grows_rest: "grows A s T s' T' \<Longrightarrow> same_rest s s'"
  unfolding grows_def same_rest_def by (cases s; cases s') simp

lemma page_remove_pte_rest:
  assumes "page_remove_pte la a s = Some s'"
  shows "same_rest s s'" and "b \<noteq> a \<Longrightarrow> kmem s' b = kmem s b"
proof -
  have "same_rest s s' \<and> (b \<noteq> a \<longrightarrow> kmem s' b = kmem s b)" for b
  proof (cases "pte_valid (kmem s a)")
    case False
    with assms show ?thesis by (simp add: page_remove_pte_def)
  next
    case True
    from assms True obtain p s1 where
      s1: "(if page_ref p (page_ref_dec p s) = 0 then free_page p (page_ref_dec p s) else Some (page_ref_dec p s)) = Some s1"
      and s': "s' = tlb_invalidate la (store a 0 s1)"
      by (auto simp: page_remove_pte_def option_bind_eq_Some Let_def)
    have "same_rest (page_ref_dec p s) s1 \<and> kmem s1 = kmem (page_ref_dec p s)"
      using s1 free_page_rest by (auto split: if_splits)
    then have "same_rest s s1 \<and> kmem s1 = kmem s"
      using same_rest_trans [of s "page_ref_dec p s" s1] by simp
    then show ?thesis unfolding s' by simp
  qed
  then show "same_rest s s'" "b \<noteq> a \<Longrightarrow> kmem s' b = kmem s b" by blast+
qed

lemma page_insert_rest:
  assumes "page_insert alloc pgdir page la perm s = Some (0, s')"
  obtains a s1 where "get_pte alloc pgdir la True s = Some (Some a, s1)" and "same_rest s1 s'"
    and "\<And>b. b \<noteq> a \<Longrightarrow> kmem s' b = kmem s1 b"
proof -
  from assms obtain r s1 where g: "get_pte alloc pgdir la True s = Some (r, s1)"
    and rest: "(case r of None \<Rightarrow> Some (- E_NO_MEM, s1) | Some ptep \<Rightarrow> do {
         let s = page_ref_inc page s1;
         s \<leftarrow> (if pte_valid (kmem s ptep) then do {
                 p \<leftarrow> pte2page (npage s) (kmem s ptep);
                 if p = page then Some (page_ref_dec page s) else page_remove_pte la ptep s }
               else Some s);
         let s = store ptep (pte_create (page2ppn page) (ucast PTE_V OR perm)) s;
         Some (0, tlb_invalidate la s) }) = Some (0, s')"
    by (auto simp: page_insert_def option_bind_eq_Some)
  obtain a where r: "r = Some a" using rest by (cases r) (auto simp: error_code_defs)
  let ?i = "page_ref_inc page s1"
  from rest r obtain s2 where s2: "(if pte_valid (kmem ?i a) then do {
                 p \<leftarrow> pte2page (npage ?i) (kmem ?i a);
                 if p = page then Some (page_ref_dec page ?i) else page_remove_pte la a ?i }
               else Some ?i) = Some s2"
    and s': "s' = tlb_invalidate la (store a (new_pte page perm) s2)"
    by (auto simp: option_bind_eq_Some Let_def new_pte_def)
  have "same_rest ?i s2 \<and> (\<forall>b. b \<noteq> a \<longrightarrow> kmem s2 b = kmem ?i b)"
  proof (cases "pte_valid (kmem ?i a)")
    case True
    with s2 obtain p where "(if p = page then Some (page_ref_dec page ?i) else page_remove_pte la a ?i) = Some s2"
      by (auto simp: option_bind_eq_Some)
    then show ?thesis using page_remove_pte_rest [of la a ?i s2] by (auto split: if_splits)
  qed (use s2 in simp)
  then have "same_rest s1 s2" "\<And>b. b \<noteq> a \<Longrightarrow> kmem s2 b = kmem s1 b"
    using same_rest_trans [of s1 ?i s2] by simp_all
  with g r show ?thesis by (intro that [of a s1]) (auto simp: s')
qed

context page_supply
begin

lemma page_insert_data:
  assumes inv: "mm_inv s pgdir T F A" and sw: "swap_init_ok s \<longrightarrow> 2 \<le> card F"
    and ins: "page_insert alloc pgdir page la perm s = Some (0, s')"
  shows "same_rest s s'" and "q \<in> A - ran T \<Longrightarrow> l < 512 \<Longrightarrow> kmem s' (pword q l) = kmem s (pword q l)"
proof -
  obtain i j k where ijk: "indices la = (i, j, k)" by (cases "indices la")
  have k: "k < 512" using ijk index_less [of la] by (auto simp: indices_def)
  from get_pte_spec [OF mm_invD(1) [OF inv] sw ijk] obtain r s1 T1 F1 A1 where
    g: "get_pte alloc pgdir la True s = Some (r, s1)" "vspace s1 pgdir T1 F1 A1" "grows A s T s1 T1"
      "A \<subseteq> A1" "ran T1 \<inter> A \<subseteq> ran T"
    and r: "case r of None \<Rightarrow> F1 = {} \<and> card F < 2 | Some a \<Rightarrow> \<exists>t. T1 (Tab i j) = Some t \<and> a = pword t k"
    by blast
  from page_insert_rest [OF ins] obtain a where
    a: "r = Some a" "same_rest s1 s'" "\<And>b. b \<noteq> a \<Longrightarrow> kmem s' b = kmem s1 b" using g(1) by auto
  with r obtain t where t: "T1 (Tab i j) = Some t" "a = pword t k" by auto
  show "same_rest s s'" by (rule same_rest_trans [OF grows_rest [OF g(3)] a(2)])
  show "kmem s' (pword q l) = kmem s (pword q l)" if q: "q \<in> A - ran T" and l: "l < 512"
  proof -
    have tr: "tree (kmem s1) (npage s1) pgdir T1" "frames s1 F1 A1" using g(2) by (simp_all add: vspace_def)
    have "q \<noteq> t" using q g(5) t(1) by (auto simp: ran_def)
    moreover have "page_ok (npage s1) q" using frames_page_ok [OF tr(2)] q g(4) by blast
    ultimately have "pword q l \<noteq> a"
      using pword_inj [OF _ treeD(3) [OF tr(1) t(1)] l k] t(2) by simp
    then show ?thesis using a(3) g(3) q l by (simp add: grows_def)
  qed
qed

end

section \<open>The slot of an address on the disk\<close>

lemma unat_less_64: "unat (w :: u64) < 2 ^ 64"
  using unsigned_less [of w] by simp

definition slot_off :: "u64 \<Rightarrow> u64" where
  "slot_off v = v div PGSIZE + 1"

definition slot_addr :: "vmem \<Rightarrow> u64 \<Rightarrow> u64" where
  "slot_addr s v = iobase (swap_dev s) + slot_off v * 4096"

text \<open>The disk is present, as large as announced, and lies outside the page frames \<open>U\<close>.\<close>

definition disk_ok :: "vmem \<Rightarrow> nat set \<Rightarrow> bool" where
  "disk_ok s U \<longleftrightarrow> dev_valid (swap_dev s) \<and> unat (max_swap_offset s) * 8 \<le> unat (dev_size (swap_dev s)) \<and>
     unat (dev_size (swap_dev s)) \<le> 0x10000000 \<and>
     unat (iobase (swap_dev s)) + unat (dev_size (swap_dev s)) * 512 \<le> 2 ^ 64 \<and>
     (\<forall>q \<in> U. \<forall>l < 512. unat (pword q l) < unat (iobase (swap_dev s)) \<or>
        unat (iobase (swap_dev s)) + unat (dev_size (swap_dev s)) * 512 \<le> unat (pword q l))"

lemma disk_ok_rest: "same_rest s s' \<Longrightarrow> disk_ok s' U = disk_ok s U" "same_rest s s' \<Longrightarrow> slot_addr s' v = slot_addr s v"
  by (simp_all add: disk_ok_def slot_addr_def same_restD)


lemma off_bounds:
  assumes disk: "disk_ok s U" and off: "slot_off v < max_swap_offset s"
  shows "unat (slot_off v) * 8 + 8 \<le> unat (dev_size (swap_dev s))" and "unat (slot_off v) < 2 ^ 25"
  using disk off by (auto simp: disk_ok_def word_less_nat_alt)

lemma unat_slot:
  assumes disk: "disk_ok s U" and off: "slot_off v < max_swap_offset s"
  shows "unat (slot_addr s v) = unat (iobase (swap_dev s)) + unat (slot_off v) * 4096"
proof -
  have "unat (slot_off v * 4096) = unat (slot_off v) * 4096"
    using off_bounds(2) [OF disk off] by (simp add: unat_word_ariths)
  moreover have "unat (iobase (swap_dev s)) + unat (slot_off v) * 4096 < 2 ^ 64"
    using off_bounds [OF disk off] disk unfolding disk_ok_def by linarith
  ultimately show ?thesis by (simp add: slot_addr_def unat_word_ariths)
qed

lemma slot_apart:
  assumes disk: "disk_ok s U" and off: "slot_off v < max_swap_offset s"
    and q: "q \<in> U" "l < 512"
  shows "\<not> pword q l - slot_addr s v < PGSIZE"
proof -
  have b: "unat (slot_addr s v) + 4096 \<le> unat (iobase (swap_dev s)) + unat (dev_size (swap_dev s)) * 512"
    using off_bounds(1) [OF disk off] unat_slot [OF disk off] by linarith
  have "unat (slot_addr s v) + 4096 \<le> 2 ^ 64" using b disk unfolding disk_ok_def by linarith
  moreover have "unat (pword q l) < unat (slot_addr s v) \<or> unat (slot_addr s v) + 4096 \<le> unat (pword q l)"
    using disk q b unat_slot [OF disk off] unfolding disk_ok_def by fastforce
  ultimately show ?thesis by (auto simp: word_less_nat_alt PGSIZE_def unat_sub_if')
qed

lemma swap_offset_entry:
  assumes disk: "disk_ok s U" and off: "slot_off v < max_swap_offset s"
  shows "swap_offset (swap_entry v) s = Some (slot_off v)"
proof -
  have "drop_bit 8 (push_bit 8 (slot_off v)) = slot_off v"
  proof (rule bit_word_eqI)
    fix n assume "n < LENGTH(64)"
    then show "bit (drop_bit 8 (push_bit 8 (slot_off v))) n = bit (slot_off v) n"
      using bit_imp_less [OF off_bounds(2) [OF disk off], of n] by (auto simp: bit_drop_bit_eq bit_push_bit_iff)
  qed
  moreover have "0 < slot_off v" 
  proof -
    have "unat (v div PGSIZE) < 2 ^ 52"
      using unat_less_64 [of v] by (simp add: unat_div_distrib PGSIZE_def)
    then have "unat (slot_off v) = unat (v div PGSIZE) + 1" by (simp add: slot_off_def unat_word_ariths)
    then show ?thesis by (simp add: word_less_nat_alt)
  qed
  ultimately show ?thesis using off by (simp add: swap_offset_def swap_entry_def slot_off_def)
qed

lemma secno:
  assumes disk: "disk_ok s U" and off: "slot_off v < max_swap_offset s"
  shows "ucast (ucast (slot_off v * PAGE_NSECT) :: u32) = slot_off v * 8"
  "unat (slot_off v * 8) = unat (slot_off v) * 8"
proof -
  show u: "unat (slot_off v * 8) = unat (slot_off v) * 8"
    using off_bounds(2) [OF disk off] by (simp add: unat_word_ariths)
  have "take_bit 32 (slot_off v * 8) = slot_off v * 8"
    using off_bounds(2) [OF disk off] u by (simp add: word_unat_eq_iff unsigned_take_bit_eq take_bit_nat_eq_self)
  then show "ucast (ucast (slot_off v * PAGE_NSECT) :: u32) = slot_off v * 8"
    by (simp add: PAGE_NSECT_def PGSIZE_def SECTSIZE_def unsigned_ucast_eq)
qed

lemma ide_asserts:
  assumes disk: "disk_ok s U" and off: "slot_off v < max_swap_offset s"
  shows "slot_off v * 8 < MAX_DISK_NSECS" "slot_off v * 8 + PAGE_NSECT \<le> MAX_DISK_NSECS"
  "PAGE_NSECT \<le> MAX_NSECS" "dev_valid (swap_dev s)"
  "min PAGE_NSECT (ucast (dev_size (swap_dev s)) - slot_off v * 8) = 8"
proof -
  have d: "unat (dev_size (swap_dev s)) \<le> 0x10000000" "dev_valid (swap_dev s)"
    using disk by (simp_all add: disk_ok_def)
  have u: "unat (ucast (dev_size (swap_dev s)) :: u64) = unat (dev_size (swap_dev s))"
    using unat_less_32 [of "dev_size (swap_dev s)"] by (simp add: unsigned_ucast_eq take_bit_nat_eq_self)
  have a: "unat (slot_off v * 8 + 8) = unat (slot_off v) * 8 + 8"
    using off_bounds(2) [OF disk off] secno(2) [OF disk off] by (simp add: unat_word_ariths)
  note nat = word_less_nat_alt word_le_nat_alt
  show "slot_off v * 8 < MAX_DISK_NSECS" "slot_off v * 8 + PAGE_NSECT \<le> MAX_DISK_NSECS"
    "PAGE_NSECT \<le> MAX_NSECS" "dev_valid (swap_dev s)"
    using off_bounds [OF disk off] d secno(2) [OF disk off] a
    by (simp_all add: nat MAX_DISK_NSECS_def PAGE_NSECT_def PGSIZE_def SECTSIZE_def MAX_NSECS_def)
  have "unat (ucast (dev_size (swap_dev s)) - slot_off v * 8) \<ge> 8"
    using off_bounds(1) [OF disk off] secno(2) [OF disk off] u by (simp add: unat_sub_if')
  then show "min PAGE_NSECT (ucast (dev_size (swap_dev s)) - slot_off v * 8) = 8"
    by (simp add: min_def nat PAGE_NSECT_def PGSIZE_def SECTSIZE_def)
qed

lemma swapfs_write_spec:
  assumes disk: "disk_ok s U" and off: "slot_off v < max_swap_offset s"
    and ok: "page_ok (npage s) p"
  shows "swapfs_write (swap_entry v) p s = Some (0, copy_words (slot_addr s v) (pkva p) 4096 s)"
proof -
  have "slot_off v * 8 * SECTSIZE = slot_off v * 4096" "8 * SECTSIZE = 4096" by (simp_all add: SECTSIZE_def)
  then show ?thesis
    using page2kva_eq [OF ok] ide_asserts [OF disk off]
    by (simp add: swapfs_write_def swap_offset_entry [OF disk off] ide_write_secs_def ramdisk_write_def secno(1) [OF disk off]
        pkva_def slot_addr_def Let_def)
qed

lemma swapfs_read_spec:
  assumes disk: "disk_ok s U" and off: "slot_off v < max_swap_offset s"
    and ok: "page_ok (npage s) p"
  shows "swapfs_read (swap_entry v) p s = Some (0, copy_words (pkva p) (slot_addr s v) 4096 s)"
proof -
  have "slot_off v * 8 * SECTSIZE = slot_off v * 4096" "8 * SECTSIZE = 4096" by (simp_all add: SECTSIZE_def)
  then show ?thesis
    using page2kva_eq [OF ok] ide_asserts [OF disk off]
    by (simp add: swapfs_read_def swap_offset_entry [OF disk off] ide_read_secs_def ramdisk_read_def secno(1) [OF disk off]
        pkva_def slot_addr_def Let_def)
qed

section \<open>A page on its way out and in\<close>

definition content :: "vmem \<Rightarrow> nat \<Rightarrow> nat \<Rightarrow> u64" where
  "content s p l = kmem s (pword p l)"

text \<open>The slot of \<open>v\<close> holds the words \<open>c\<close>.\<close>

definition on_disk :: "vmem \<Rightarrow> u64 \<Rightarrow> (nat \<Rightarrow> u64) \<Rightarrow> bool" where
  "on_disk s v c \<longleftrightarrow> (\<forall>l < 512. kmem s (slot_addr s v + 8 * of_nat l) = c l)"

lemma word_offset: "l < 512 \<Longrightarrow> 8 * of_nat l < (4096 :: u64)"
  by (simp add: word_less_nat_alt unat_word_ariths unsigned_of_nat take_bit_nat_eq_self)

lemma copy_words_frames [simp]:
  "frames (copy_words d r n s) F A = frames s F A" "npage (copy_words d r n s) = npage s"
  "tlb (copy_words d r n s) = tlb s" "pm (copy_words d r n s) = pm s" "page_ref p (copy_words d r n s) = page_ref p s"
  "pra (copy_words d r n s) = pra s" "pra_vaddr (copy_words d r n s) = pra_vaddr s"
  "swap_dev (copy_words d r n s) = swap_dev s" "max_swap_offset (copy_words d r n s) = max_swap_offset s"
  by (simp_all add: frames_def copy_words_def page_ref_def)

lemma page_ref_lists [simp]:
  "page_ref q (s\<lparr>pra := l\<rparr>) = page_ref q s" "page_ref q (s\<lparr>pra_vaddr := r\<rparr>) = page_ref q s"
  by (simp_all add: page_ref_def)

text \<open>Changing words outside the tables and the leaf entries keeps the address space.\<close>

lemma mm_inv_words:
  assumes inv: "mm_inv s pgdir T F A" and n: "npage s' = npage s" and m: "pm s' = pm s"
    and same: "\<And>q l. q \<in> ran T \<Longrightarrow> l < 512 \<Longrightarrow> kmem s' (pword q l) = kmem s (pword q l)"
  shows "mm_inv s' pgdir T F A" and "pte_at s' T = pte_at s T"
proof -
  note v = mm_invD(1) [OF inv]
  have tr: "tree (kmem s) (npage s) pgdir T" using v by (simp add: vspace_def)
  show p: "pte_at s' T = pte_at s T"
  proof (rule pte_at_eqI)
    fix i j k :: nat assume "k < 512"
    then show "pte_at s' T (i, j, k) = pte_at s T (i, j, k)"
      using same [of _ k] by (auto simp: ran_def split: option.splits)
  qed
  have "tree (kmem s') (npage s') pgdir T"
    unfolding n by (rule tree_change [OF tr]) (blast intro: same ranI)
  moreover have "frames s' F A" using v by (simp add: vspace_def frames_def n m)
  ultimately have "vspace s' pgdir T F A" using v by (simp add: vspace_def)
  moreover have "page_ref q s' = page_ref q s" for q by (simp add: page_ref_def m)
  ultimately show "mm_inv s' pgdir T F A"
    using inv by (simp add: mm_inv_def mapped_def p n)
qed

lemma fifo_victim_spec:
  assumes "klist (pra s) PraHead (map PraLink (p # ps))"
  obtains l where "fifo_swap_out_victim False s = Some (p, s\<lparr>pra := l\<rparr>)" and "klist l PraHead (map PraLink ps)"
proof -
  have nx: "list_next PraHead (pra s) = PraLink p"
    using assms by (simp add: klist_def list_next_def)
  have "klist (list_del (PraLink p) (pra s)) PraHead (map PraLink ps)"
    using list_del_klist [of "pra s" PraHead "[]" "PraLink p" "map PraLink ps"] assms by simp
  with nx show ?thesis
    by (intro that [of "list_del (PraLink p) (pra s)"]) (simp_all add: fifo_swap_out_victim_def Let_def)
qed

lemma swap_entry_invalid: "\<not> pte_valid (swap_entry v)"
proof -
  have "\<not> bit (swap_entry v AND PTE_V) n" for n
    by (auto simp: swap_entry_def PTE_V_def bit_and_iff bit_push_bit_iff bit_1_iff)
  then have "swap_entry v AND PTE_V = 0" by (intro bit_word_eqI) simp
  then show ?thesis by (simp add: pte_valid_def)
qed

lemma swap_out_one_spec:
  assumes inv: "mm_inv s pgdir T F A" and top: "top_free F A" and disk: "disk_ok s (F \<union> A)"
    and lst: "klist (pra s) PraHead (map PraLink (p # ps))" and v: "pra_vaddr s p = v"
    and off: "slot_off v < max_swap_offset s" and p: "p \<in> A - ran T" and one: "mapped s T p = {indices v}"
  obtains s' where "swap_out_one pgdir False s = Some s'" and "mm_inv s' pgdir T (insert p F) (A - {p})"
    and "pte_at s' T = (pte_at s T)(indices v := swap_entry v)" and "on_disk s' v (content s p)"
    and "\<And>q l. q \<in> F \<union> A - ran T \<Longrightarrow> l < 512 \<Longrightarrow> content s' q l = content s q l"
    and "same_rest (s\<lparr>pra := pra s'\<rparr>) s'" and "klist (pra s') PraHead (map PraLink ps)"
    and "tlb s' = (tlb s)(PPN v := None)" and "\<And>q. page_ref q s' = (if q = p then 0 else page_ref q s)"
proof -
  obtain i j k where ijk: "indices v = (i, j, k)" by (cases "indices v")
  have k: "k < 512" using ijk index_less [of v] by (auto simp: indices_def)
  note vs = mm_invD(1) [OF inv]
  have tr: "tree (kmem s) (npage s) pgdir T" and fr: "frames s F A" and rT: "ran T \<subseteq> A"
    using vs by (simp_all add: vspace_def)
  have "(i, j, k) \<in> mapped s T p" using one ijk by simp
  then have lead: "leads (npage s) (pte_at s T (i, j, k)) p" and user: "user_half (indices v)"
    unfolding mapped_def ijk by blast+
  then have valid: "pte_valid (pte_at s T (i, j, k))" unfolding leads_def by simp
  from pte_at_valid_table [OF this] obtain t where t: "T (Tab i j) = Some t" by blast
  then have e: "pte_at s T (i, j, k) = kmem s (pword t k)" using k by simp
  have okp: "page_ok (npage s) p" using frames_page_ok [OF fr] p by blast
  from fifo_victim_spec [OF lst] obtain l where
    l: "fifo_swap_out_victim False s = Some (p, s\<lparr>pra := l\<rparr>)" "klist l PraHead (map PraLink ps)" .
  let ?s1 = "s\<lparr>pra := l\<rparr>"
  define s2 where "s2 = copy_words (slot_addr s v) (pkva p) 4096 ?s1"
  have disk1: "disk_ok ?s1 (F \<union> A)" "slot_off v < max_swap_offset ?s1" "slot_addr ?s1 v = slot_addr s v"
    using disk off by (simp_all add: disk_ok_def slot_addr_def)
  have frame2: "kmem s2 (pword q x) = kmem s (pword q x)" if "q \<in> F \<union> A" "x < 512" for q x
    using slot_apart [OF disk off that] by (simp add: s2_def copy_words_def PGSIZE_def)
  have i2: "mm_inv s2 pgdir T F A" "pte_at s2 T = pte_at s T"
    using mm_inv_words [OF inv, of s2] frame2 rT by (auto simp: s2_def copy_words_def)
  define s3 where "s3 = store (pword t k) (swap_entry v) s2"
  note leaf = store_leaf [OF mm_invD(1) [OF i2(1)] t k, of "swap_entry v", folded s3_def]
  have v3: "vspace s3 pgdir T F A" and p3: "pte_at s3 T = (pte_at s T)(indices v := swap_entry v)"
    using leaf i2(2) by (simp_all add: ijk)
  have fit: "fits p F" using top_free_fits [OF top] p by simp
  have "frames s3 F A" "p \<in> A" using v3 p by (simp_all add: vspace_def)
  from free_page_law [OF this fit] obtain s4 where
    s4: "free_page p s3 = Some s4" "frames s4 (insert p F) (A - {p})" "same_memory s3 s4"
      "\<And>q. page_ref q s4 = (if q = p then 0 else page_ref q s3)" by metis
  note rest4 = same_memory_rest [OF s4(3)]
  define s5 where "s5 = tlb_invalidate v s4"
  have k5: "kmem s5 = kmem s3" "npage s5 = npage s" "tlb s5 = (tlb s)(PPN v := None)"
    using rest4 same_restD(1) [of s3 s4] by (simp_all add: s5_def s3_def s2_def)
  have v5: "vspace s5 pgdir T (insert p F) (A - {p})"
  proof -
    have "tree (kmem s5) (npage s5) pgdir T" using v3 k5 same_restD(1) [of s3 s4] rest4
      by (simp add: vspace_def s3_def s2_def)
    moreover have "frames s5 (insert p F) (A - {p})" using s4(2) by (simp add: s5_def)
    ultimately show ?thesis using p rT by (auto simp: vspace_def)
  qed
  have p5: "pte_at s5 T = (pte_at s T)(indices v := swap_entry v)"
    using p3 pte_at_kmem [OF k5(1)] by simp
  have r5: "page_ref q s5 = (if q = p then 0 else page_ref q s)" for q
    by (simp add: s5_def s3_def s2_def s4(4))
  have nl: "\<not> leads (npage s) (swap_entry v) q" for q by (simp add: leads_def swap_entry_invalid)
  have "\<exists>q \<in> A - {p} - ran T. leads (npage s5) (pte_at s5 T y) q" if y: "user_half y" "pte_valid (pte_at s5 T y)" for y
  proof -
    have ne: "y \<noteq> indices v" "pte_valid (pte_at s T y)"
      using y swap_entry_invalid by (auto simp: p5 split: if_splits)
    from mm_invD(2) [OF inv ne(2) y(1)] obtain q where q: "q \<in> A - ran T" "leads (npage s) (pte_at s T y) q" by blast
    then have "y \<in> mapped s T q" using y(1) by (simp add: mapped_def)
    then have "q \<noteq> p" using one ne(1) by auto
    with q ne(1) show ?thesis by (auto simp: p5 k5)
  qed
  moreover have "page_ref q s5 = int (card (mapped s5 T q))" if q: "q \<in> A - {p} - ran T" for q
  proof -
    have "leads (npage s) (pte_at s T (indices v)) q \<longleftrightarrow> False"
      using q lead leads_unique ijk by fastforce
    then show ?thesis
      using card_mapped_update [OF vs p5 k5(2) user, of q] mm_invD(3) [OF inv, of q] q r5 nl by simp
  qed
  ultimately have inv5: "mm_inv s5 pgdir T (insert p F) (A - {p})" using v5 unfolding mm_inv_def by blast
  have run: "swap_out_one pgdir False s = Some s5"
  proof -
    have "find_pte pgdir v ?s1 = Some (Some (pword t k))"
      using find_pte_spec [of ?s1 pgdir T v i j k] tr t ijk by simp
    moreover have "kmem s (pword t k) AND PTE_V \<noteq> 0" using valid e by (simp add: pte_valid_def)
    moreover have "swapfs_write (swap_entry v) p ?s1 = Some (0, s2)"
      using swapfs_write_spec [OF disk1(1,2)] okp disk1(3) by (simp add: s2_def)
    ultimately show ?thesis
      using l(1) v s4(1) by (simp add: swap_out_one_def Let_def s2_def s3_def s5_def)
  qed
  show ?thesis
  proof (rule that [OF run inv5 p5])
    have pra5: "pra s5 = l"
      using same_restD(4) [OF conjunct1 [OF rest4]] by (simp add: s5_def s3_def s2_def tlb_invalidate_def store_def)
    then show "klist (pra s5) PraHead (map PraLink ps)" using l(2) by simp
    have "same_rest ?s1 s4" by (rule same_rest_trans [OF _ conjunct1 [OF rest4]]) (simp add: s3_def s2_def)
    then have rest: "same_rest ?s1 s5" by (simp add: s5_def)
    then show "same_rest (s\<lparr>pra := pra s5\<rparr>) s5" by (simp add: pra5)
    have sl: "slot_addr s5 v = slot_addr s v" using disk_ok_rest(2) [OF rest] by (simp add: slot_addr_def)
    have tA: "t \<in> F \<union> A" using t rT by (auto simp: ran_def)
    show "on_disk s5 v (content s p)"
      unfolding on_disk_def sl
    proof (intro allI impI)
      fix x :: nat assume x: "x < 512"
      have "slot_addr s v + 8 * of_nat x \<noteq> pword t k"
      proof
        assume "slot_addr s v + 8 * of_nat x = pword t k"
        then have "pword t k - slot_addr s v = 8 * of_nat x" by (metis add_diff_cancel_left')
        with slot_apart [OF disk off tA k] word_offset [OF x] show False by (simp add: PGSIZE_def)
      qed
      then have "kmem s5 (slot_addr s v + 8 * of_nat x) = kmem s2 (slot_addr s v + 8 * of_nat x)"
        using k5(1) by (simp add: s3_def)
      also have "\<dots> = kmem s (8 * of_nat x + pkva p)"
        using word_offset [OF x] by (simp add: s2_def copy_words_def)
      finally show "kmem s5 (slot_addr s v + 8 * of_nat x) = content s p x"
        by (simp add: content_def pword_def entry_def add.commute)
    qed
    show "content s5 q x = content s q x" if q: "q \<in> F \<union> A - ran T" and x: "x < 512" for q x
    proof -
      have "q \<noteq> t" using q t by (auto simp: ran_def)
      then have "pword q x \<noteq> pword t k"
        using pword_inj [OF frames_page_ok [OF fr] treeD(3) [OF tr t] x k] q by blast
      then show ?thesis using frame2 [of q x] q x k5(1) by (simp add: content_def s3_def)
    qed
  qed (use k5 r5 in auto)
qed

lemma swap_entry_nonzero:
  assumes "disk_ok s U" and "slot_off v < max_swap_offset s"
  shows "swap_entry v \<noteq> 0"
  using swap_offset_entry [OF assms] by (auto simp: swap_offset_def Let_def split: if_splits)

lemma mm_inv_alloc:
  assumes inv: "mm_inv s pgdir T F A" and q: "q \<in> F" "page_ref q s = 0"
    and fr: "frames s' (F - {q}) (insert q A)" and same: "same_memory s s'" "\<And>p. page_ref p s' = page_ref p s"
  shows "mm_inv s' pgdir T (F - {q}) (insert q A)" and "pte_at s' T = pte_at s T"
proof -
  note rest = same_memory_rest [OF same(1)]
  have n: "kmem s' = kmem s" "npage s' = npage s" using rest same_restD(1) by blast+
  show p: "pte_at s' T = pte_at s T" by (rule pte_at_kmem [OF n(1)])
  have vs: "vspace s pgdir T F A" by (rule mm_invD(1) [OF inv])
  then have qA: "q \<notin> A" "ran T \<subseteq> A" using q(1) by (auto simp: vspace_def frames_def)
  have v: "vspace s' pgdir T (F - {q}) (insert q A)" using vs fr n by (auto simp: vspace_def)
  have mp: "mapped s' T = mapped s T" by (simp add: mapped_def p n fun_eq_iff)
  have "mapped s T q = {}"
  proof -
    have "y \<notin> mapped s T q" for y
      using mm_invD(2) [OF inv, of y] qA(1) leads_unique unfolding mapped_def leads_def by blast
    then show ?thesis by blast
  qed
  then have "page_ref p s' = int (card (mapped s T p))" if "p \<in> insert q A - ran T" for p
    using that mm_invD(3) [OF inv, of p] q(2) same(2) [of p] by (cases "p = q") simp_all
  moreover have "\<exists>p \<in> insert q A - ran T. leads (npage s) (pte_at s T x) p"
    if "user_half x" "pte_valid (pte_at s T x)" for x
    using mm_invD(2) [OF inv that(2,1)] by blast
  ultimately show "mm_inv s' pgdir T (F - {q}) (insert q A)"
    using v unfolding mm_inv_def p mp n by blast
qed

context page_supply
begin

lemma swap_in_spec:
  assumes inv: "mm_inv s pgdir T F A" and ne: "F \<noteq> {}" and disk: "disk_ok s (F \<union> A)"
    and off: "slot_off v < max_swap_offset s" and pte: "pte_at s T (indices v) = swap_entry v"
    and c: "on_disk s v c" and zero: "\<forall>q \<in> F. page_ref q s = 0"
  obtains q s' where "swap_in alloc pgdir v s = Some (0, q, s')" and "q \<in> F"
    and "mm_inv s' pgdir T (F - {q}) (insert q A)" and "pte_at s' T = pte_at s T"
    and "\<And>l. l < 512 \<Longrightarrow> content s' q l = c l"
    and "\<And>r l. r \<in> F \<union> A - {q} \<Longrightarrow> l < 512 \<Longrightarrow> content s' r l = content s r l"
    and "same_rest s s'" and "tlb s' = tlb s" and "\<And>r. page_ref r s' = page_ref r s"
proof -
  note vs = mm_invD(1) [OF inv]
  have fr: "frames s F A" and rT: "ran T \<subseteq> A" using vs by (simp_all add: vspace_def)
  from alloc_law [OF fr] ne obtain r where r: "alloc s = Some r" "alloc_post s F A r" by blast
  from r(2) ne obtain q s1 where rq: "r = (Some q, s1)" by (cases r) (auto simp: alloc_post_def split: option.splits)
  with r(2) have q: "q \<in> F" "frames s1 (F - {q}) (insert q A)" "same_memory s s1" "\<And>p. page_ref p s1 = page_ref p s"
    by (auto simp: alloc_post_def)
  note inv1 = mm_inv_alloc [OF inv q(1) _ q(2-4)]
  have i1: "mm_inv s1 pgdir T (F - {q}) (insert q A)" "pte_at s1 T = pte_at s T"
    using inv1 zero q(1) by simp_all
  note rest = same_memory_rest [OF q(3)]
  have k1: "kmem s1 = kmem s" "npage s1 = npage s" "max_swap_offset s1 = max_swap_offset s"
    "slot_addr s1 v = slot_addr s v" using rest same_restD disk_ok_rest by blast+
  have disk1: "disk_ok s1 (F \<union> A)" "slot_off v < max_swap_offset s1"
    using disk off k1 disk_ok_rest(1) rest by auto
  obtain i j k where ijk: "indices v = (i, j, k)" by (cases "indices v")
  have k: "k < 512" using ijk index_less [of v] by (auto simp: indices_def)
  obtain t where t: "T (Tab i j) = Some t"
    using pte ijk swap_entry_nonzero [OF disk off] by (auto split: option.splits)
  have "tree (kmem s1) (npage s1) pgdir T" using i1(1) by (simp add: mm_inv_def vspace_def)
  note find = find_pte_spec [OF this ijk]
  have e: "kmem s1 (pword t k) = swap_entry v" using pte t k ijk k1(1) by simp
  have okq: "page_ok (npage s1) q" using frames_page_ok [OF fr] q(1) k1(2) by simp
  define s2 where "s2 = copy_words (pkva q) (slot_addr s v) 4096 s1"
  have run: "swap_in alloc pgdir v s = Some (0, q, s2)"
    using r(1) rq find t e swapfs_read_spec [OF disk1 okq] k1(4) by (simp add: swap_in_def s2_def)
  have words: "kmem s2 (pword p l) = (if p = q then kmem s (slot_addr s v + 8 * of_nat l) else kmem s (pword p l))"
    if "page_ok (npage s1) p" "l < 512" for p l
  proof -
    have "pword p l - pkva q < 4096 \<longleftrightarrow> p = q"
      using pword_in_page [OF okq that] by (simp add: PGSIZE_def)
    moreover have "pword q l - pkva q + slot_addr s v = slot_addr s v + 8 * of_nat l"
      by (simp add: pword_def entry_def)
    ultimately show ?thesis by (auto simp: s2_def copy_words_def k1 add.commute)
  qed
  have tq: "q \<notin> ran T" using fr q(1) rT by (auto simp: frames_def)
  have okT: "page_ok (npage s1) p" if "p \<in> F \<union> A" for p using frames_page_ok [OF fr that] k1(2) by simp
  have same2: "kmem s2 (pword p l) = kmem s1 (pword p l)" if "p \<in> ran T" "l < 512" for p l
    using words [OF okT that(2), of p] that(1) tq rT k1(1) by auto
  have i2: "mm_inv s2 pgdir T (F - {q}) (insert q A)" "pte_at s2 T = pte_at s T"
    using mm_inv_words [OF i1(1), of s2] same2 i1(2) by (simp_all add: s2_def)
  show ?thesis
  proof (rule that [OF run q(1) i2])
    show "content s2 q l = c l" if "l < 512" for l
      using words [OF okq that] c that by (simp add: content_def on_disk_def)
    show "content s2 r l = content s r l" if "r \<in> F \<union> A - {q}" "l < 512" for r l
      using words [OF okT that(2), of r] that(1) by (simp add: content_def)
    show "same_rest s s2" using rest by (simp add: s2_def)
    show "tlb s2 = tlb s" using rest by (simp add: s2_def)
    show "page_ref r s2 = page_ref r s" for r using q(4) by (simp add: s2_def)
  qed
qed

end

section \<open>The clock\<close>

text \<open>
  \<open>ring c xs ys\<close>: the list of the clock holds the pages \<open>xs\<close>, and \<open>ys\<close> are the same pages in
  the order in which the hand meets them.
\<close>

definition ring :: "clock \<Rightarrow> nat list \<Rightarrow> nat list \<Rightarrow> bool" where
  "ring c xs ys \<longleftrightarrow> klist (ck_links c) PraHead (map PraLink xs) \<and>
     (\<exists>us vs. xs = us @ vs \<and> ys = vs @ us \<and> vs \<noteq> []) \<and> curr_ptr c = PraLink (hd ys)"

text \<open>Where the hand goes next.\<close>

definition hand_next :: "clock \<Rightarrow> pra_node" where
  "hand_next c = (let n = list_next (curr_ptr c) (ck_links c) in
     if n = PraHead then list_next PraHead (ck_links c) else n)"

lemma ring_advance:
  assumes "ring c xs (x # ys)"
  shows "hand_next c = PraLink (hd (ys @ [x]))" and "ring (c\<lparr>curr_ptr := hand_next c, visited := w\<rparr>) xs (ys @ [x])"
proof -
  from assms obtain us vs where xs: "xs = us @ vs" and ys: "x # ys = vs @ us" and ne: "vs \<noteq> []"
    and kl: "klist (ck_links c) PraHead (map PraLink xs)" and cur: "curr_ptr c = PraLink x"
    by (auto simp: ring_def)
  from ys ne obtain ws where vs: "vs = x # ws" and yw: "ys = ws @ us" by (cases vs) auto
  have nx: "list_next (PraLink x) (ck_links c) = hd (map PraLink ws @ [PraHead])"
    using klist_next_at [of "ck_links c" PraHead "map PraLink us @ [PraLink x]" "map PraLink ws"] kl
    by (simp add: xs vs list_next_def)
  have first: "list_next PraHead (ck_links c) = PraLink (hd (us @ [x]))"
    using klist_next_at [of "ck_links c" PraHead "[]" "map PraLink xs"] kl
    by (cases us) (simp_all add: xs vs list_next_def)
  show h: "hand_next c = PraLink (hd (ys @ [x]))"
  proof (cases ws)
    case Nil
    then show ?thesis using nx first cur yw by (simp add: hand_next_def)
  next
    case (Cons w ws')
    then show ?thesis using nx cur yw by (simp add: hand_next_def Let_def)
  qed
  have split: "\<exists>us vs. xs = us @ vs \<and> ys @ [x] = vs @ us \<and> vs \<noteq> []"
  proof (cases ws)
    case Nil
    then show ?thesis using yw by (intro exI [of _ "[]"] exI [of _ xs]) (simp add: xs vs)
  next
    case (Cons w ws')
    then show ?thesis using yw by (intro exI [of _ "us @ [x]"] exI [of _ ws]) (simp add: xs vs)
  qed
  show "ring (c\<lparr>curr_ptr := hand_next c, visited := w\<rparr>) xs (ys @ [x])"
    unfolding ring_def h using kl split by simp
qed

lemma clock_step:
  assumes "ring c xs (x # ys)"
  shows "clock_victim c =
    (if visited c x = 0
     then Some (x, c\<lparr>curr_ptr := hand_next c, visited := (visited c)(x := 1),
       ck_links := list_del (PraLink x) (ck_links c)\<rparr>)
     else clock_victim (c\<lparr>curr_ptr := hand_next c, visited := (visited c)(x := 0)\<rparr>))"
proof -
  have "curr_ptr c = PraLink x" using assms by (simp add: ring_def)
  then show ?thesis by (subst clock_victim.simps) (simp add: hand_next_def Let_def)
qed

lemma clock_skip:
  assumes "ring c xs (us @ vs)" and "\<forall>u \<in> set us. visited c u \<noteq> 0" and "distinct (us @ vs)"
  shows "\<exists>c'. clock_victim c = clock_victim c' \<and> ring c' xs (vs @ us) \<and> ck_links c' = ck_links c \<and>
    visited c' = (\<lambda>q. if q \<in> set us then 0 else visited c q)"
  using assms
proof (induction us arbitrary: c vs)
  case Nil
  then show ?case by (intro exI [of _ c]) simp
next
  case (Cons u us)
  let ?c = "c\<lparr>curr_ptr := hand_next c, visited := (visited c)(u := 0)\<rparr>"
  have step: "clock_victim c = clock_victim ?c"
    using clock_step [of c xs u "us @ vs"] Cons.prems(1,2) by simp
  have r: "ring ?c xs (us @ vs @ [u])" using ring_advance(2) [of c xs u "us @ vs"] Cons.prems(1) by simp
  have "\<forall>w \<in> set us. visited ?c w \<noteq> 0" using Cons.prems(2,3) by auto
  from Cons.IH [OF r this] Cons.prems(3) obtain c' where
    c': "clock_victim ?c = clock_victim c'" "ring c' xs ((vs @ [u]) @ us)" "ck_links c' = ck_links ?c"
      "visited c' = (\<lambda>q. if q \<in> set us then 0 else visited ?c q)" by auto
  then show ?case using step by (intro exI [of _ c']) (auto simp: fun_eq_iff)
qed

lemma ring_distinct: "ring c xs ys \<Longrightarrow> distinct ys \<and> set ys = set xs \<and> distinct xs"
  by (auto simp: ring_def klist_def distinct_map)

lemma clock_take:
  assumes "ring c xs (x # ys)" and "visited c x = 0"
  obtains c' where "clock_victim c = Some (x, c')" and "klist (ck_links c') PraHead (map PraLink (remove1 x xs))"
    and "visited c' = (visited c)(x := 1)"
proof -
  from assms(1) obtain us vs where xs: "xs = us @ x # vs" and kl: "klist (ck_links c) PraHead (map PraLink xs)"
    by (auto simp: ring_def Cons_eq_append_conv)
  have "x \<notin> set us" using ring_distinct [OF assms(1)] xs by simp
  then have "klist (list_del (PraLink x) (ck_links c)) PraHead (map PraLink (remove1 x xs))"
    using list_del_klist [of "ck_links c" PraHead "map PraLink us" "PraLink x" "map PraLink vs"] kl
    by (simp add: xs remove1_append)
  with clock_step [OF assms(1)] assms(2) that show ?thesis by simp
qed

text \<open>The victim: the first page not visited, in the order of the hand, or the one under the hand.\<close>

definition second_chance :: "(nat \<Rightarrow> u64) \<Rightarrow> nat list \<Rightarrow> nat" where
  "second_chance vis ys = (case find (\<lambda>p. vis p = 0) ys of Some p \<Rightarrow> p | None \<Rightarrow> hd ys)"

definition passed :: "(nat \<Rightarrow> u64) \<Rightarrow> nat list \<Rightarrow> nat set" where
  "passed vis ys = set (takeWhile (\<lambda>p. vis p \<noteq> 0) ys)"

text \<open>
  C38: The clock manager always finds a victim: the first page in the order of the hand whose visited
  mark is clear, and the page under the hand when all are marked. The pages the hand passed lose
  their mark, the victim leaves the list, and the list keeps its order.
\<close>

theorem clock_second_chance:
  assumes "ring c xs ys"
  shows "\<exists>c'. clock_swap_out_victim False c = Some (second_chance (visited c) ys, c') \<and>
    klist (ck_links c') PraHead (map PraLink (remove1 (second_chance (visited c) ys) xs)) \<and>
    (\<forall>q \<in> set xs - {second_chance (visited c) ys}.
       visited c' q = (if q \<in> passed (visited c) ys then 0 else visited c q))"
proof -
  define us where "us = takeWhile (\<lambda>p. visited c p \<noteq> 0) ys"
  define vs where "vs = dropWhile (\<lambda>p. visited c p \<noteq> 0) ys"
  have ys: "ys = us @ vs" by (simp add: us_def vs_def)
  have vis: "\<forall>u \<in> set us. visited c u \<noteq> 0" by (auto simp: us_def dest: set_takeWhileD)
  note d = ring_distinct [OF assms]
  have ne: "ys \<noteq> []" using assms by (auto simp: ring_def)
  from clock_skip [of c xs us vs] assms vis d ys obtain c1 where
    c1: "clock_victim c = clock_victim c1" "ring c1 xs (vs @ us)" "ck_links c1 = ck_links c"
      "visited c1 = (\<lambda>q. if q \<in> set us then 0 else visited c q)" by auto
  define x where "x = hd (vs @ us)"
  obtain rest where x: "vs @ us = x # rest" using ne ys by (cases "vs @ us") (auto simp: x_def)
  have sc: "second_chance (visited c) ys = x"
  proof (cases vs)
    case Nil
    then have "find (\<lambda>p. visited c p = 0) ys = None" using vis ys by (auto simp: find_None_iff)
    then show ?thesis using Nil ys by (simp add: second_chance_def x_def)
  next
    case (Cons v vs')
    then have "visited c v = 0" using hd_dropWhile [of "\<lambda>p. visited c p \<noteq> 0" ys] by (simp add: vs_def)
    moreover have "find (\<lambda>p. visited c p = 0) (us @ v # vs') = Some v" if "visited c v = 0"
      using vis that by (induction us) auto
    ultimately show ?thesis using Cons ys by (simp add: second_chance_def x_def)
  qed
  have x0: "visited c1 x = 0"
  proof (cases vs)
    case Nil
    then have "x \<in> set us" using x by auto
    then show ?thesis using c1(4) by simp
  next
    case (Cons v vs')
    then have "visited c v = 0" using hd_dropWhile [of "\<lambda>p. visited c p \<noteq> 0" ys] by (simp add: vs_def)
    then show ?thesis using c1(4) x Cons by simp
  qed
  from clock_take [OF c1(2) [unfolded x] x0] obtain c' where
    c': "clock_victim c1 = Some (x, c')" "klist (ck_links c') PraHead (map PraLink (remove1 x xs))"
      "visited c' = (visited c1)(x := 1)" .
  then show ?thesis
    using c1 by (intro exI [of _ c']) (auto simp: sc clock_swap_out_victim_def passed_def us_def)
qed

text \<open>Three pages mapped one after the other; the oldest has lost its mark.\<close>

definition ex_clock :: clock where
  "ex_clock = (clock_map_swappable 7 (clock_map_swappable 6 (clock_map_swappable 5
     (clock_init_mm \<lparr>ck_links = \<lparr>l_prev = id, l_next = id\<rparr>, curr_ptr = PraHead, visited = (\<lambda>_. 0)\<rparr>))))
     \<lparr>visited := (\<lambda>p. if p = 6 then 0 else 1)\<rparr>"

theorem clock_second_chance_witness:
  "\<exists>c'. clock_swap_out_victim False ex_clock = Some (6, c') \<and>
     klist (ck_links c') PraHead (map PraLink [7, 5]) \<and> visited c' 5 = 0"
proof -
  have "ring ex_clock [7, 6, 5] ([5] @ [7, 6])"
    unfolding ring_def
    by (intro conjI, simp add: ex_clock_def clock_map_swappable_def clock_init_mm_def klist_def list_op_defs,
        rule exI [of _ "[7, 6]"], rule exI [of _ "[5]"], simp,
        simp add: ex_clock_def clock_map_swappable_def clock_init_mm_def list_op_defs)
  from clock_second_chance [OF this] show ?thesis
    by (simp add: second_chance_def passed_def) (auto simp: ex_clock_def)
qed

end
