(* ===== verification/C_String.thy ===== *)
theory C_String
  imports Prelude "HOL-Library.Char_ord" "HOL-Library.List_Lexorder"
begin

text \<open>
  The string and memory functions of \<^verbatim>\<open>libs/string.c\<close>. Memory is a function from addresses
  to bytes (\<open>char\<close>, unsigned on RISC-V); an address and a size are natural numbers, so the
  areas named by a call are assumed not to wrap around the end of the address space. A loop that
  needs a terminating zero byte may not return: its result is then \<open>None\<close>.
\<close>

type_synonym mem = "nat \<Rightarrow> char"

abbreviation NUL :: char where "NUL \<equiv> CHR 0x00"

section \<open>Strings\<close>

partial_function (option) strlen_loop :: "mem \<Rightarrow> nat \<Rightarrow> nat \<Rightarrow> nat option" where
  "strlen_loop m s cnt = (if m s \<noteq> NUL then strlen_loop m (s + 1) (cnt + 1) else Some cnt)"

definition strlen :: "mem \<Rightarrow> nat \<Rightarrow> nat option" where
  "strlen m s = strlen_loop m s 0"

function strnlen_loop :: "mem \<Rightarrow> nat \<Rightarrow> nat \<Rightarrow> nat \<Rightarrow> nat" where
  "strnlen_loop m s len cnt = (if cnt < len \<and> m s \<noteq> NUL then strnlen_loop m (s + 1) len (cnt + 1) else cnt)"
  by pat_completeness auto
termination by (relation "measure (\<lambda>(m, s, len, cnt). len - cnt)") auto

definition strnlen :: "mem \<Rightarrow> nat \<Rightarrow> nat \<Rightarrow> nat" where
  "strnlen m s len = strnlen_loop m s len 0"

partial_function (option) strcpy :: "nat \<Rightarrow> nat \<Rightarrow> mem \<Rightarrow> mem option" where
  "strcpy dst src m =
     (let m = m(dst := m src) in if m dst \<noteq> NUL then strcpy (dst + 1) (src + 1) m else Some m)"

fun strncpy :: "nat \<Rightarrow> nat \<Rightarrow> nat \<Rightarrow> mem \<Rightarrow> mem" where
  "strncpy p src 0 m = m"
| "strncpy p src (Suc len) m =
     (let m = m(p := m src) in strncpy (p + 1) (if m p \<noteq> NUL then src + 1 else src) len m)"

definition strcat :: "nat \<Rightarrow> nat \<Rightarrow> mem \<Rightarrow> mem option" where
  "strcat dst src m = do { n \<leftarrow> strlen m dst; strcpy (dst + n) src m }"

partial_function (option) strcmp :: "mem \<Rightarrow> nat \<Rightarrow> nat \<Rightarrow> int option" where
  "strcmp m s1 s2 =
     (if m s1 \<noteq> NUL \<and> m s1 = m s2 then strcmp m (s1 + 1) (s2 + 1)
      else Some (of_char (m s1) - of_char (m s2)))"

fun strncmp :: "mem \<Rightarrow> nat \<Rightarrow> nat \<Rightarrow> nat \<Rightarrow> int" where
  "strncmp m s1 s2 0 = 0"
| "strncmp m s1 s2 (Suc n) =
     (if m s1 \<noteq> NUL \<and> m s1 = m s2 then strncmp m (s1 + 1) (s2 + 1) n
      else of_char (m s1) - of_char (m s2))"

partial_function (option) strchr :: "mem \<Rightarrow> nat \<Rightarrow> char \<Rightarrow> nat option option" where
  "strchr m s c =
     (if m s \<noteq> NUL then if m s = c then Some (Some s) else strchr m (s + 1) c else Some None)"

partial_function (option) strfind :: "mem \<Rightarrow> nat \<Rightarrow> char \<Rightarrow> nat option" where
  "strfind m s c =
     (if m s \<noteq> NUL then if m s = c then Some s else strfind m (s + 1) c else Some s)"

section \<open>Numbers\<close>

partial_function (option) skip_blanks :: "mem \<Rightarrow> nat \<Rightarrow> nat option" where
  "skip_blanks m s = (if m s = CHR '' '' \<or> m s = CHR 0x09 then skip_blanks m (s + 1) else Some s)"

definition digit_of :: "char \<Rightarrow> int option" where
  "digit_of c =
     (if CHR ''0'' \<le> c \<and> c \<le> CHR ''9'' then Some (of_char c - of_char CHR ''0'')
      else if CHR ''a'' \<le> c \<and> c \<le> CHR ''z'' then Some (of_char c - of_char CHR ''a'' + 10)
      else if CHR ''A'' \<le> c \<and> c \<le> CHR ''Z'' then Some (of_char c - of_char CHR ''A'' + 10)
      else None)"

text \<open>\<^verbatim>\<open>val\<close> is a \<^verbatim>\<open>long\<close>; it wraps, as the source's comment on overflow says.\<close>

partial_function (option) strtol_digits :: "mem \<Rightarrow> nat \<Rightarrow> int \<Rightarrow> u64 \<Rightarrow> (nat \<times> u64) option" where
  "strtol_digits m s base val =
     (case digit_of (m s) of None \<Rightarrow> Some (s, val)
      | Some dig \<Rightarrow>
          if dig \<ge> base then Some (s, val)
          else strtol_digits m (s + 1) base (val * of_int base + of_int dig))"

definition strtol_sign :: "mem \<Rightarrow> nat \<Rightarrow> nat \<times> bool" where
  "strtol_sign m s =
     (if m s = CHR ''+'' then (s + 1, False) else if m s = CHR ''-'' then (s + 1, True) else (s, False))"

definition strtol_prefix :: "mem \<Rightarrow> nat \<Rightarrow> int \<Rightarrow> nat \<times> int" where
  "strtol_prefix m s base =
     (if (base = 0 \<or> base = 16) \<and> m s = CHR ''0'' \<and> m (s + 1) = CHR ''x'' then (s + 2, 16)
      else if base = 0 \<and> m s = CHR ''0'' then (s + 1, 8)
      else if base = 0 then (s, 10)
      else (s, base))"

text \<open>The value and what is stored through \<^verbatim>\<open>endptr\<close>.\<close>

definition strtol :: "mem \<Rightarrow> nat \<Rightarrow> int \<Rightarrow> (u64 \<times> nat) option" where
  "strtol m s base = do {
     s \<leftarrow> skip_blanks m s;
     let (s, neg) = strtol_sign m s;
     let (s, base) = strtol_prefix m s base;
     (s, val) \<leftarrow> strtol_digits m s base 0;
     Some (if neg then - val else val, s) }"

section \<open>Memory areas\<close>

fun memset :: "nat \<Rightarrow> char \<Rightarrow> nat \<Rightarrow> mem \<Rightarrow> mem" where
  "memset p c 0 m = m"
| "memset p c (Suc n) m = memset (p + 1) c n (m(p := c))"

fun copy_up :: "nat \<Rightarrow> nat \<Rightarrow> nat \<Rightarrow> mem \<Rightarrow> mem" where
  "copy_up d s 0 m = m"
| "copy_up d s (Suc n) m = copy_up (d + 1) (s + 1) n (m(d := m s))"

fun copy_down :: "nat \<Rightarrow> nat \<Rightarrow> nat \<Rightarrow> mem \<Rightarrow> mem" where
  "copy_down d s 0 m = m"
| "copy_down d s (Suc n) m = copy_down (d - 1) (s - 1) n (m(d - 1 := m (s - 1)))"

definition memmove :: "nat \<Rightarrow> nat \<Rightarrow> nat \<Rightarrow> mem \<Rightarrow> mem" where
  "memmove dst src n m =
     (if src < dst \<and> src + n > dst then copy_down (dst + n) (src + n) n m else copy_up dst src n m)"

definition memcpy :: "nat \<Rightarrow> nat \<Rightarrow> nat \<Rightarrow> mem \<Rightarrow> mem" where
  "memcpy dst src n m = copy_up dst src n m"

fun memcmp :: "mem \<Rightarrow> nat \<Rightarrow> nat \<Rightarrow> nat \<Rightarrow> int" where
  "memcmp m s1 s2 0 = 0"
| "memcmp m s1 s2 (Suc n) =
     (if m s1 \<noteq> m s2 then of_char (m s1) - of_char (m s2) else memcmp m (s1 + 1) (s2 + 1) n)"

declare strlen_loop.simps [code] strcpy.simps [code] strcmp.simps [code] strchr.simps [code]
  strfind.simps [code] skip_blanks.simps [code] strtol_digits.simps [code]
declare strnlen_loop.simps [simp del]

section \<open>Strings in memory\<close>

fun cstring :: "mem \<Rightarrow> nat \<Rightarrow> string \<Rightarrow> bool" where
  "cstring m p [] \<longleftrightarrow> m p = NUL"
| "cstring m p (c # cs) \<longleftrightarrow> c \<noteq> NUL \<and> m p = c \<and> cstring m (p + 1) cs"

lemma cstring_cong:
  "(\<And>i. i \<le> length xs \<Longrightarrow> m' (p + i) = m (p + i)) \<Longrightarrow> cstring m' p xs = cstring m p xs"
proof (induction xs arbitrary: p)
  case Nil
  from Nil [of 0] show ?case by simp
next
  case (Cons c cs)
  have "cstring m' (p + 1) cs = cstring m (p + 1) cs"
    by (rule Cons.IH) (use Cons.prems [of "Suc _"] in simp)
  with Cons.prems [of 0] show ?case by simp
qed

lemma cstring_append:
  "cstring m p (xs @ ys) \<longleftrightarrow> (\<forall>i < length xs. m (p + i) = xs ! i \<and> xs ! i \<noteq> NUL) \<and> cstring m (p + length xs) ys"
proof (induction xs arbitrary: p)
  case (Cons c cs)
  then show ?case by (auto simp: less_Suc_eq_0_disj)
qed simp

lemma cstring_nth:
  "cstring m p xs \<longleftrightarrow> (\<forall>i < length xs. m (p + i) = xs ! i \<and> xs ! i \<noteq> NUL) \<and> m (p + length xs) = NUL"
  using cstring_append [of m p xs "[]"] by simp

lemma of_char_inj [simp]: "(of_char c = (of_char d :: int)) = (c = d)"
  by (rule of_char_eq_iff)

lemma of_char_nonneg: "0 \<le> (of_char c :: int)"
proof -
  have "(of_char c :: int) = int (of_char c)" by (rule of_nat_of_char [symmetric])
  then show ?thesis by linarith
qed

lemma of_char_NUL [simp]: "(of_char c = (0 :: int)) = (c = NUL)"
proof -
  have "of_char NUL = (0 :: int)" by simp
  with of_char_inj [of c NUL] show ?thesis by metis
qed

lemma of_char_less: "(of_char c < (of_char d :: int)) = (c < d)"
proof -
  have "(of_char c :: int) = int (of_char c)" "(of_char d :: int) = int (of_char d)"
    by (rule of_nat_of_char [symmetric])+
  then show ?thesis by (simp add: less_char_def)
qed

lemma NUL_least: "c \<noteq> NUL \<longleftrightarrow> NUL < c"
proof -
  have "0 < (of_char c :: nat) \<longleftrightarrow> (of_char c :: nat) \<noteq> of_char NUL" by simp
  then show ?thesis by (simp only: less_char_def of_char_eq_iff) simp
qed

section \<open>What the functions compute\<close>

lemma strlen_spec:
  assumes "cstring m p xs"
  shows "strlen m p = Some (length xs)"
proof -
  have "strlen_loop m p n = Some (n + length xs)" for n
    using assms by (induction xs arbitrary: p n) (subst strlen_loop.simps, simp)+
  then show ?thesis by (simp add: strlen_def)
qed

lemma strnlen_spec:
  assumes "cstring m p xs"
  shows "strnlen m p len = min len (length xs)"
proof -
  have "cstring m p xs \<Longrightarrow> n \<le> len \<Longrightarrow> strnlen_loop m p len n = min len (n + length xs)" for n
  proof (induction xs arbitrary: p n)
    case Nil
    then show ?case by (subst strnlen_loop.simps) simp
  next
    case (Cons c cs)
    then show ?case by (subst strnlen_loop.simps) (auto simp: min_def)
  qed
  with assms show ?thesis by (simp add: strnlen_def)
qed

lemma copy_up_spec:
  assumes "\<not> (src < dst \<and> dst < src + n)"
  shows "copy_up dst src n m = (\<lambda>a. if dst \<le> a \<and> a < dst + n then m (src + (a - dst)) else m a)"
  using assms
proof (induction n arbitrary: dst src m)
  case (Suc n)
  define m' where "m' = m(dst := m src)"
  have "copy_up dst src (Suc n) m = (\<lambda>a. if dst + 1 \<le> a \<and> a < dst + 1 + n then m' (src + 1 + (a - (dst + 1))) else m' a)"
  proof -
    have "\<not> (src + 1 < dst + 1 \<and> dst + 1 < src + 1 + n)" using Suc.prems by auto
    from Suc.IH [OF this, of m'] show ?thesis
      unfolding copy_up.simps(2) m'_def [symmetric] by simp
  qed
  moreover have "src + 1 + (a - (dst + 1)) = src + (a - dst)" if "dst + 1 \<le> a" for a
    using that by simp
  moreover have "m' (src + (a - dst)) = m (src + (a - dst))" if "dst + 1 \<le> a" "a < dst + 1 + n" for a
    using that Suc.prems by (auto simp: m'_def)
  ultimately show ?case by (auto simp: fun_eq_iff m'_def Suc_le_eq)
qed (auto simp: fun_eq_iff)

lemma copy_down_spec:
  assumes "src < dst"
  shows "copy_down (dst + n) (src + n) n m = (\<lambda>a. if dst \<le> a \<and> a < dst + n then m (src + (a - dst)) else m a)"
proof (induction n arbitrary: m)
  case (Suc n)
  have "copy_down (dst + Suc n) (src + Suc n) (Suc n) m = copy_down (dst + n) (src + n) n (m(dst + n := m (src + n)))"
    by simp
  also have "\<dots> = (\<lambda>a. if dst \<le> a \<and> a < dst + Suc n then m (src + (a - dst)) else m a)"
    using assms by (auto simp: Suc.IH fun_eq_iff less_Suc_eq)
  finally show ?case .
qed (auto simp: fun_eq_iff)

lemma memmove_spec:
  "memmove dst src n m = (\<lambda>a. if dst \<le> a \<and> a < dst + n then m (src + (a - dst)) else m a)"
  using copy_down_spec [of src dst n m] copy_up_spec [of src dst n m] by (simp add: memmove_def)

lemma memset_spec: "memset p c n m = (\<lambda>a. if p \<le> a \<and> a < p + n then c else m a)"
  by (induction n arbitrary: p m) (auto simp: fun_eq_iff)

lemma memcmp_zero: "memcmp m a b n = 0 \<longleftrightarrow> (\<forall>i < n. m (a + i) = m (b + i))"
  by (induction n arbitrary: a b) (auto simp: less_Suc_eq_0_disj)

lemma of_char_pos [simp]: "(0 < (of_char c :: int)) = (c \<noteq> NUL)"
  using of_char_nonneg [of c] of_char_NUL [of c] by linarith

lemma strcmp_step:
  "strcmp m p q = (if m p \<noteq> NUL \<and> m p = m q then strcmp m (p + 1) (q + 1)
     else Some (of_char (m p) - of_char (m q)))"
  by (rule strcmp.simps)

lemma of_char_diff:
  "(of_char c - of_char d = (0 :: int)) = (c = d)" "(of_char c - of_char d < (0 :: int)) = (c < d)"
  using of_char_less [of c d] by (simp_all del: of_char_less)

lemma strcmp_spec:
  assumes "cstring m p xs" and "cstring m q ys"
  shows "\<exists>r. strcmp m p q = Some r \<and> (r = 0 \<longleftrightarrow> xs = ys) \<and> (r < 0 \<longleftrightarrow> xs < ys)"
  using assms
proof (induction xs arbitrary: p q ys)
  case Nil
  have "strcmp m p q = Some (of_char (m p) - of_char (m q))"
    using Nil by (subst strcmp_step) simp
  with Nil show ?case
    by (cases ys) (simp_all add: of_char_diff NUL_least [symmetric] less_le [of NUL])
next
  case (Cons x xs)
  show ?case
  proof (cases "ys \<noteq> [] \<and> hd ys = x")
    case True
    then obtain zs where ys: "ys = x # zs" by (cases ys) auto
    have "strcmp m p q = strcmp m (p + 1) (q + 1)"
      using Cons.prems ys by (subst strcmp_step) simp
    with Cons.IH [of "p + 1" "q + 1" zs] Cons.prems ys show ?thesis by simp
  next
    case False
    then have ne: "m q \<noteq> x" using Cons.prems by (cases ys) auto
    then have "strcmp m p q = Some (of_char x - of_char (m q))"
      using Cons.prems(1) by (subst strcmp_step) auto
    moreover have "(x < m q) = (x # xs < ys)"
      using Cons.prems ne False NUL_least [of x] by (cases ys) auto
    ultimately show ?thesis using False ne by (cases ys) (auto simp: of_char_diff of_char_less)
  qed
qed

lemma strcpy_spec:
  assumes "cstring m src xs" and "\<And>i j. i \<le> length xs \<Longrightarrow> j \<le> length xs \<Longrightarrow> dst + i \<noteq> src + j"
  shows "strcpy dst src m = Some (\<lambda>a. if dst \<le> a \<and> a \<le> dst + length xs then (xs @ [NUL]) ! (a - dst) else m a)"
  using assms
proof (induction xs arbitrary: dst src m)
  case Nil
  then show ?case by (subst strcpy.simps) (auto simp: Let_def fun_eq_iff)
next
  case (Cons c cs)
  define m' where "m' = m(dst := c)"
  have ne: "dst \<noteq> src + j" if "j \<le> Suc (length cs)" for j
    using Cons.prems(2) [of 0 j] that by simp
  have "cstring m' (src + 1) cs = cstring m (src + 1) cs"
  proof (rule cstring_cong)
    fix i assume "i \<le> length cs"
    then show "m' (src + 1 + i) = m (src + 1 + i)" using ne [of "Suc i"] by (auto simp: m'_def)
  qed
  moreover have "dst + 1 + i \<noteq> src + 1 + j" if "i \<le> length cs" "j \<le> length cs" for i j
    using Cons.prems(2) [of "Suc i" "Suc j"] that by simp
  ultimately have "strcpy (dst + 1) (src + 1) m' =
      Some (\<lambda>a. if dst + 1 \<le> a \<and> a \<le> dst + 1 + length cs then (cs @ [NUL]) ! (a - (dst + 1)) else m' a)"
    using Cons.IH [of m' "src + 1" "dst + 1"] Cons.prems(1) by simp
  moreover have "strcpy dst src m = strcpy (dst + 1) (src + 1) m'"
    using Cons.prems(1) by (subst strcpy.simps) (simp add: Let_def m'_def)
  ultimately show ?case
    by (auto simp: fun_eq_iff nth_Cons' Suc_le_eq m'_def)
qed

lemma strcpy_cstring:
  assumes "cstring m src xs" and "\<And>i j. i \<le> length xs \<Longrightarrow> j \<le> length xs \<Longrightarrow> dst + i \<noteq> src + j"
  shows "\<exists>m'. strcpy dst src m = Some m' \<and> cstring m' dst xs \<and>
    (\<forall>a. a < dst \<or> dst + length xs < a \<longrightarrow> m' a = m a)"
  using strcpy_spec [OF assms] assms(1) by (auto simp: cstring_nth nth_append)

lemma strcat_spec:
  assumes "cstring m dst xs" and "cstring m src ys"
    and "\<And>i j. i \<le> length ys \<Longrightarrow> j \<le> length ys \<Longrightarrow> dst + length xs + i \<noteq> src + j"
  shows "\<exists>m'. strcat dst src m = Some m' \<and> cstring m' dst (xs @ ys)"
proof -
  from strcpy_cstring [OF assms(2), of "dst + length xs"] assms(3) obtain m' where
    m': "strcpy (dst + length xs) src m = Some m'" "cstring m' (dst + length xs) ys"
      "\<forall>a. a < dst + length xs \<longrightarrow> m' a = m a" by blast
  have "strcat dst src m = Some m'"
    using m'(1) by (simp add: strcat_def strlen_spec [OF assms(1)])
  moreover have "cstring m' dst (xs @ ys)"
    using m'(2,3) assms(1) by (simp add: cstring_append) (simp add: cstring_nth)
  ultimately show ?thesis by blast
qed

section \<open>Properties\<close>

text \<open>
  C28: memmove copies the old contents of the source area to the destination area and changes no
  other byte, however the two areas overlap; memset fills exactly its area.
\<close>

theorem memmove_copies:
  "memmove dst src n m a = (if dst \<le> a \<and> a < dst + n then m (src + (a - dst)) else m a) \<and>
   memset dst c n m a = (if dst \<le> a \<and> a < dst + n then c else m a)"
  by (simp add: memmove_spec memset_spec)

text \<open>
  strcmp on two terminated strings returns, with zero exactly for equal strings and a negative
  value exactly when the first one is smaller in the order of unsigned bytes.
\<close>

theorem strcmp_order:
  assumes "cstring m p xs" and "cstring m q ys"
  shows "\<exists>r. strcmp m p q = Some r \<and> (r = 0 \<longleftrightarrow> xs = ys) \<and> (r < 0 \<longleftrightarrow> xs < ys)"
  by (rule strcmp_spec [OF assms])

theorem strcmp_order_witness:
  "\<exists>r. strcmp ((\<lambda>_. NUL)(0 := CHR ''a'', 5 := CHR 0xE9)) 0 5 = Some r \<and> r < 0"
proof -
  let ?m = "(\<lambda>_. NUL)(0 := CHR ''a'', 5 := CHR 0xE9)"
  have "cstring ?m 0 [CHR ''a'']" "cstring ?m 5 [CHR 0xE9]" by simp_all
  from strcmp_order [OF this] show ?thesis by (auto simp: less_char_def)
qed

text \<open>
  strcpy and strcat return, for terminated strings and a destination that does not overlap the
  source, and the destination then holds the copy, or the concatenation.
\<close>

theorem strcat_concatenates:
  assumes "cstring m dst xs" and "cstring m src ys"
    and "\<And>i j. i \<le> length ys \<Longrightarrow> j \<le> length ys \<Longrightarrow> dst + length xs + i \<noteq> src + j"
  shows "\<exists>m'. strcat dst src m = Some m' \<and> cstring m' dst (xs @ ys) \<and>
    strlen m' dst = Some (length xs + length ys)"
  using strcat_spec [OF assms] strlen_spec by fastforce

theorem strcat_concatenates_witness:
  "\<exists>m'. strcat 0 10 ((\<lambda>_. NUL)(0 := CHR ''a'', 10 := CHR ''b'')) = Some m' \<and> cstring m' 0 ''ab''"
proof -
  let ?m = "(\<lambda>_. NUL)(0 := CHR ''a'', 10 := CHR ''b'')"
  have "cstring ?m 0 ''a''" "cstring ?m 10 ''b''" by simp_all
  from strcat_concatenates [OF this] show ?thesis by fastforce
qed

end
