(* ===== verification/Vmm.thy ===== *)
theory Vmm
  imports Swap C_String
begin

text \<open>
  Virtual memory areas, \<^verbatim>\<open>kern/mm/vmm.c\<close>: the sorted list of areas of an address space, looking
  up and adding an area, the checks of user pointers, copying and giving up an address space. An area is a number, its address as \<^verbatim>\<open>kmalloc\<close> returned it; the
  results of \<^verbatim>\<open>kmalloc\<close> are arguments. The result \<open>None\<close> is a failed assertion.
\<close>

section \<open>State\<close>

record vma_struct =
  vm_start :: u64
  vm_end :: u64
  vm_flags :: u32

definition VM_READ :: u32 where "VM_READ = 0x1"
definition VM_WRITE :: u32 where "VM_WRITE = 0x2"
definition VM_EXEC :: u32 where "VM_EXEC = 0x4"
definition VM_STACK :: u32 where "VM_STACK = 0x8"

datatype vnode = MmapList | VLink nat

text \<open>
  Left out: \<^verbatim>\<open>vm_mm\<close>, which nothing reads, the lock, and \<^verbatim>\<open>sm_priv\<close>, which is the
  address of the one list of the FIFO manager.
\<close>

record mm_struct =
  mmap :: "vnode links"
  vmas :: "nat \<Rightarrow> vma_struct"
  mmap_cache :: "nat option"
  pgdir :: u64
  map_count :: int
  mm_count :: int

text \<open>A new address space, when \<^verbatim>\<open>kmalloc\<close> gives one; the FIFO manager starts afresh then.\<close>

definition mm_create ::
  "bool \<Rightarrow> (nat \<Rightarrow> vma_struct) \<Rightarrow> vnode links \<Rightarrow> vmem \<Rightarrow> mm_struct option \<times> vmem"
where
  "mm_create kmalloc vs l s =
     (if kmalloc
      then (Some \<lparr>mmap = list_init MmapList l, vmas = vs, mmap_cache = None, pgdir = 0, map_count = 0, mm_count = 0\<rparr>,
            if swap_init_ok s then fifo_init_mm s else s)
      else (None, s))"

definition vma_create :: "nat option \<Rightarrow> u64 \<Rightarrow> u64 \<Rightarrow> u32 \<Rightarrow> mm_struct \<Rightarrow> nat option \<times> mm_struct" where
  "vma_create kmalloc start fin flags mm =
     (case kmalloc of None \<Rightarrow> (None, mm)
      | Some v \<Rightarrow> (Some v, mm\<lparr>vmas := (vmas mm)(v := \<lparr>vm_start = start, vm_end = fin, vm_flags = flags\<rparr>)\<rparr>))"

section \<open>Looking up and inserting\<close>

definition vma_has :: "mm_struct \<Rightarrow> u64 \<Rightarrow> nat \<Rightarrow> bool" where
  "vma_has mm addr v \<longleftrightarrow> vm_start (vmas mm v) \<le> addr \<and> addr < vm_end (vmas mm v)"

partial_function (option) vma_search :: "u64 \<Rightarrow> vnode \<Rightarrow> mm_struct \<Rightarrow> nat option option" where
  "vma_search addr le mm =
     (let le = list_next le (mmap mm) in
      case le of MmapList \<Rightarrow> Some None
      | VLink v \<Rightarrow> if vma_has mm addr v then Some (Some v) else vma_search addr le mm)"

declare vma_search.simps [code]

definition find_vma :: "mm_struct \<Rightarrow> u64 \<Rightarrow> (nat option \<times> mm_struct) option" where
  "find_vma mm addr = do {
     vma \<leftarrow> (case mmap_cache mm of
         Some v \<Rightarrow> if vma_has mm addr v then Some (Some v) else vma_search addr MmapList mm
       | None \<Rightarrow> vma_search addr MmapList mm);
     Some (vma, case vma of Some v \<Rightarrow> mm\<lparr>mmap_cache := Some v\<rparr> | None \<Rightarrow> mm) }"

definition check_vma_overlap :: "nat \<Rightarrow> nat \<Rightarrow> mm_struct \<Rightarrow> unit option" where
  "check_vma_overlap prv nxt mm = do {
     kassert (vm_start (vmas mm prv) < vm_end (vmas mm prv));
     kassert (vm_end (vmas mm prv) \<le> vm_start (vmas mm nxt));
     kassert (vm_start (vmas mm nxt) < vm_end (vmas mm nxt)) }"

text \<open>The loop that looks for the entry to insert after; \<^verbatim>\<open>le\<close> and \<^verbatim>\<open>le_prev\<close> agree before each round.\<close>

partial_function (option) vma_place :: "u64 \<Rightarrow> vnode \<Rightarrow> mm_struct \<Rightarrow> vnode option" where
  "vma_place start le_prev mm =
     (let le = list_next le_prev (mmap mm) in
      case le of MmapList \<Rightarrow> Some le_prev
      | VLink v \<Rightarrow> if vm_start (vmas mm v) > start then Some le_prev else vma_place start le mm)"

declare vma_place.simps [code]

definition insert_vma_struct :: "nat \<Rightarrow> mm_struct \<Rightarrow> mm_struct option" where
  "insert_vma_struct v mm = do {
     kassert (vm_start (vmas mm v) < vm_end (vmas mm v));
     le_prev \<leftarrow> vma_place (vm_start (vmas mm v)) MmapList mm;
     let le_next = list_next le_prev (mmap mm);
     _ \<leftarrow> (case le_prev of MmapList \<Rightarrow> Some () | VLink p \<Rightarrow> check_vma_overlap p v mm);
     _ \<leftarrow> (case le_next of MmapList \<Rightarrow> Some () | VLink n \<Rightarrow> check_vma_overlap v n mm);
     Some (mm\<lparr>mmap := list_add_after le_prev (VLink v) (mmap mm), map_count := map_count mm + 1\<rparr>) }"

text \<open>The areas \<^verbatim>\<open>mm_destroy\<close> gives back to \<^verbatim>\<open>kfree\<close>, in order.\<close>

partial_function (option) destroy_loop :: "mm_struct \<Rightarrow> nat list option" where
  "destroy_loop mm =
     (case list_next MmapList (mmap mm) of MmapList \<Rightarrow> Some []
      | VLink v \<Rightarrow> do {
          freed \<leftarrow> destroy_loop (mm\<lparr>mmap := list_del (VLink v) (mmap mm)\<rparr>);
          Some (v # freed) })"

declare destroy_loop.simps [code]

definition mm_destroy :: "mm_struct \<Rightarrow> nat list option" where
  "mm_destroy mm = do { kassert (mm_count mm = 0); destroy_loop mm }"

definition mm_map ::
  "nat option \<Rightarrow> mm_struct \<Rightarrow> u64 \<Rightarrow> u64 \<Rightarrow> u32 \<Rightarrow> (int \<times> nat option \<times> mm_struct) option"
where
  "mm_map kmalloc mm addr len flags = do {
     let start = ROUNDDOWN addr PGSIZE;
     let fin = ROUNDUP (addr + len) PGSIZE;
     if \<not> USER_ACCESS start fin then Some (- E_INVAL, None, mm)
     else do {
       (vma, mm) \<leftarrow> find_vma mm start;
       if (case vma of Some v \<Rightarrow> fin > vm_start (vmas mm v) | None \<Rightarrow> False) then Some (- E_INVAL, None, mm)
       else case vma_create kmalloc start fin flags mm of
         (None, mm) \<Rightarrow> Some (- E_NO_MEM, None, mm)
       | (Some v, mm) \<Rightarrow> do { mm \<leftarrow> insert_vma_struct v mm; Some (0, Some v, mm) } } }"

section \<open>Copying and giving up an address space\<close>

text \<open>\<^verbatim>\<open>dup_mmap\<close> walks the areas backwards; \<open>kmalloc\<close> is asked in the state of the new list.\<close>

partial_function (option) dup_loop ::
  "page_alloc \<Rightarrow> (mm_struct \<Rightarrow> nat option) \<Rightarrow> mm_struct \<Rightarrow> vnode \<Rightarrow> mm_struct \<Rightarrow> vmem \<Rightarrow> (int \<times> mm_struct \<times> vmem) option"
where
  "dup_loop alloc kmalloc frm le dst s =
     (let le = list_prev le (mmap frm) in
      case le of MmapList \<Rightarrow> Some (0, dst, s)
      | VLink v \<Rightarrow>
          let vma = vmas frm v in
          case vma_create (kmalloc dst) (vm_start vma) (vm_end vma) (vm_flags vma) dst of
            (None, dst) \<Rightarrow> Some (- E_NO_MEM, dst, s)
          | (Some n, dst) \<Rightarrow> do {
              dst \<leftarrow> insert_vma_struct n dst;
              (ret, s) \<leftarrow> copy_range alloc (pgdir dst) (pgdir frm) (vm_start vma) (vm_end vma) s;
              if ret \<noteq> 0 then Some (- E_NO_MEM, dst, s) else dup_loop alloc kmalloc frm le dst s })"

declare dup_loop.simps [code]

definition dup_mmap ::
  "page_alloc \<Rightarrow> (mm_struct \<Rightarrow> nat option) \<Rightarrow> mm_struct \<Rightarrow> mm_struct \<Rightarrow> vmem \<Rightarrow> (int \<times> mm_struct \<times> vmem) option"
where
  "dup_mmap alloc kmalloc dst frm s = dup_loop alloc kmalloc frm MmapList dst s"

text \<open>The two loops of \<^verbatim>\<open>exit_mmap\<close> run \<^verbatim>\<open>unmap_range\<close> and then \<^verbatim>\<open>exit_range\<close> on every area.\<close>

partial_function (option) each_vma ::
  "(u64 \<Rightarrow> u64 \<Rightarrow> vmem \<Rightarrow> vmem option) \<Rightarrow> vnode \<Rightarrow> mm_struct \<Rightarrow> vmem \<Rightarrow> vmem option"
where
  "each_vma f le mm s =
     (let le = list_next le (mmap mm) in
      case le of MmapList \<Rightarrow> Some s
      | VLink v \<Rightarrow> do { s \<leftarrow> f (vm_start (vmas mm v)) (vm_end (vmas mm v)) s; each_vma f le mm s })"

declare each_vma.simps [code]

definition exit_mmap :: "mm_struct \<Rightarrow> vmem \<Rightarrow> vmem option" where
  "exit_mmap mm s = do {
     kassert (mm_count mm = 0);
     s \<leftarrow> each_vma (unmap_range (pgdir mm)) MmapList mm s;
     each_vma (exit_range (pgdir mm)) MmapList mm s }"

section \<open>User pointers\<close>

partial_function (option) check_loop :: "mm_struct \<Rightarrow> u64 \<Rightarrow> u64 \<Rightarrow> bool \<Rightarrow> (bool \<times> mm_struct) option" where
  "check_loop mm start fin write =
     (if start < fin then do {
        (vma, mm) \<leftarrow> find_vma mm start;
        case vma of None \<Rightarrow> Some (False, mm)
        | Some v \<Rightarrow>
            let a = vmas mm v in
            if start < vm_start a then Some (False, mm)
            else if vm_flags a AND (if write then VM_WRITE else VM_READ) = 0 then Some (False, mm)
            else if write \<and> vm_flags a AND VM_STACK \<noteq> 0 \<and> start < vm_start a + PGSIZE then Some (False, mm)
            else check_loop mm (vm_end a) fin write }
      else Some (True, mm))"

declare check_loop.simps [code]

text \<open>The address space may be \<^verbatim>\<open>NULL\<close>, that of a kernel thread.\<close>

definition user_mem_check ::
  "mm_struct option \<Rightarrow> u64 \<Rightarrow> u64 \<Rightarrow> bool \<Rightarrow> (bool \<times> mm_struct option) option"
where
  "user_mem_check mm addr len write =
     (case mm of
        Some mm \<Rightarrow>
          if \<not> USER_ACCESS addr (addr + len) then Some (False, Some mm)
          else map_option (\<lambda>(r, mm). (r, Some mm)) (check_loop mm addr (addr + len) write)
      | None \<Rightarrow> Some (KERN_ACCESS addr (addr + len), None))"

definition copy_from_user ::
  "mm_struct option \<Rightarrow> u64 \<Rightarrow> u64 \<Rightarrow> u64 \<Rightarrow> bool \<Rightarrow> mem \<Rightarrow> (bool \<times> mm_struct option \<times> mem) option"
where
  "copy_from_user mm dst src len writable m = do {
     (ok, mm) \<leftarrow> user_mem_check mm src len writable;
     if \<not> ok then Some (False, mm, m)
     else Some (True, mm, memcpy (unat dst) (unat src) (unat len) m) }"

definition copy_to_user ::
  "mm_struct option \<Rightarrow> u64 \<Rightarrow> u64 \<Rightarrow> u64 \<Rightarrow> mem \<Rightarrow> (bool \<times> mm_struct option \<times> mem) option"
where
  "copy_to_user mm dst src len m = do {
     (ok, mm) \<leftarrow> user_mem_check mm dst len True;
     if \<not> ok then Some (False, mm, m)
     else Some (True, mm, memcpy (unat dst) (unat src) (unat len) m) }"

partial_function (option) copy_string_loop ::
  "mm_struct option \<Rightarrow> u64 \<Rightarrow> u64 \<Rightarrow> u64 \<Rightarrow> u64 \<Rightarrow> mem \<Rightarrow> (bool \<times> mm_struct option \<times> mem) option"
where
  "copy_string_loop mm dst src maxn part m = do {
     let part = (if part > maxn then maxn else part);
     (ok, mm) \<leftarrow> user_mem_check mm src part False;
     if \<not> ok then Some (False, mm, m)
     else let alen = strnlen m (unat src) (unat part) in
       if alen < unat part then Some (True, mm, memcpy (unat dst) (unat src) (alen + 1) m)
       else if part = maxn then Some (False, mm, m)
       else copy_string_loop mm (dst + part) (src + part) (maxn - part) PGSIZE
         (memcpy (unat dst) (unat src) (unat part) m) }"

declare copy_string_loop.simps [code]

definition copy_string ::
  "mm_struct option \<Rightarrow> u64 \<Rightarrow> u64 \<Rightarrow> u64 \<Rightarrow> mem \<Rightarrow> (bool \<times> mm_struct option \<times> mem) option"
where
  "copy_string mm dst src maxn m =
     copy_string_loop mm dst src maxn (ROUNDDOWN (src + PGSIZE) PGSIZE - src) m"

section \<open>A well-formed list of areas\<close>

definition before :: "mm_struct \<Rightarrow> nat \<Rightarrow> nat \<Rightarrow> bool" where
  "before mm u v \<longleftrightarrow> vm_end (vmas mm u) \<le> vm_start (vmas mm v)"

text \<open>The list of \<open>mm\<close> holds the areas \<open>xs\<close>: ordered, apart, in user space, and counted.\<close>

definition areas :: "mm_struct \<Rightarrow> nat list \<Rightarrow> bool" where
  "areas mm xs \<longleftrightarrow> klist (mmap mm) MmapList (map VLink xs) \<and> sorted_wrt (before mm) xs \<and>
     (\<forall>v \<in> set xs. USER_ACCESS (vm_start (vmas mm v)) (vm_end (vmas mm v))) \<and>
     (case mmap_cache mm of None \<Rightarrow> True | Some v \<Rightarrow> v \<in> set xs) \<and> map_count mm = int (length xs)"

lemma areasD:
  assumes "areas mm xs"
  shows "klist (mmap mm) MmapList (map VLink xs)" "sorted_wrt (before mm) xs"
    "v \<in> set xs \<Longrightarrow> USER_ACCESS (vm_start (vmas mm v)) (vm_end (vmas mm v))"
    "v \<in> set xs \<Longrightarrow> vm_start (vmas mm v) < vm_end (vmas mm v)"
    "mmap_cache mm = Some v \<Longrightarrow> v \<in> set xs" "map_count mm = int (length xs)"
  using assms by (auto simp: areas_def USER_ACCESS_def)

lemma areas_cache [simp]: "v \<in> set xs \<Longrightarrow> areas mm xs \<Longrightarrow> areas (mm\<lparr>mmap_cache := Some v\<rparr>) xs"
  by (simp add: areas_def before_def [abs_def])

lemma sorted_wrt_cases:
  "sorted_wrt P xs \<Longrightarrow> u \<in> set xs \<Longrightarrow> v \<in> set xs \<Longrightarrow> u = v \<or> P u v \<or> P v u"
  by (induction xs) auto

lemma vma_unique:
  assumes "areas mm xs" and "u \<in> set xs" "v \<in> set xs" and "vma_has mm addr u" "vma_has mm addr v"
  shows "u = v"
  using sorted_wrt_cases [OF areasD(2) [OF assms(1)] assms(2,3)] assms(4,5)
  by (auto simp: before_def vma_has_def)

lemma find_Some_set: "find P xs = Some y \<Longrightarrow> y \<in> set xs \<and> P y"
  by (induction xs) (auto split: if_splits)

lemma find_unique:
  assumes "x \<in> set xs" and "P x" and "\<And>y. y \<in> set xs \<Longrightarrow> P y \<Longrightarrow> y = x"
  shows "find P xs = Some x"
proof (cases "find P xs")
  case None
  with assms(1,2) show ?thesis by (simp add: find_None_iff)
next
  case (Some y)
  with find_Some_set [OF Some] assms(3) show ?thesis by simp
qed

lemma vma_search_spec:
  assumes "klist (mmap mm) MmapList (map VLink (us @ ws))"
  shows "vma_search addr (last (MmapList # map VLink us)) mm = Some (find (vma_has mm addr) ws)"
  using assms
proof (induction ws arbitrary: us)
  case Nil
  then have "l_next (mmap mm) (last (MmapList # map VLink us)) = MmapList"
    using klist_next_at [of "mmap mm" MmapList "map VLink us" "[]"] by simp
  then show ?case by (subst vma_search.simps) (simp add: list_next_def)
next
  case (Cons w ws)
  then have "l_next (mmap mm) (last (MmapList # map VLink us)) = VLink w"
    using klist_next_at [of "mmap mm" MmapList "map VLink us" "map VLink (w # ws)"] by simp
  moreover have "vma_search addr (VLink w) mm = Some (find (vma_has mm addr) ws)"
    using Cons.IH [of "us @ [w]"] Cons.prems by simp
  ultimately show ?case by (subst vma_search.simps) (simp add: list_next_def)
qed

definition cached :: "nat option \<Rightarrow> mm_struct \<Rightarrow> mm_struct" where
  "cached vma mm = (case vma of Some v \<Rightarrow> mm\<lparr>mmap_cache := Some v\<rparr> | None \<Rightarrow> mm)"

lemma find_vma_spec:
  assumes "areas mm xs"
  shows "find_vma mm addr = Some (find (vma_has mm addr) xs, cached (find (vma_has mm addr) xs) mm)"
proof -
  have search: "vma_search addr MmapList mm = Some (find (vma_has mm addr) xs)"
    using vma_search_spec [of mm "[]" xs addr] areasD(1) [OF assms] by simp
  show ?thesis
  proof (cases "mmap_cache mm")
    case None
    with search show ?thesis by (simp add: find_vma_def cached_def)
  next
    case (Some v)
    have "find (vma_has mm addr) xs = Some v" if "vma_has mm addr v"
      using find_unique [of v xs "vma_has mm addr"] vma_unique [OF assms] areasD(5) [OF assms Some] that by blast
    with search Some show ?thesis by (simp add: find_vma_def cached_def)
  qed
qed

lemma cached_simps [simp]:
  "vmas (cached c mm) = vmas mm" "mmap (cached c mm) = mmap mm" "pgdir (cached c mm) = pgdir mm"
  "map_count (cached c mm) = map_count mm" "vma_has (cached c mm) = vma_has mm"
  by (auto simp: cached_def vma_has_def fun_eq_iff split: option.splits)

lemma areas_find [simp]: "areas mm xs \<Longrightarrow> areas (cached (find P xs) mm) xs"
  using find_Some_set [of P xs] by (auto simp: cached_def split: option.splits)

section \<open>Inserting an area\<close>

lemma vma_place_spec:
  assumes "klist (mmap mm) MmapList (map VLink (us @ ws))"
  shows "vma_place start (last (MmapList # map VLink us)) mm =
    Some (last (MmapList # map VLink (us @ takeWhile (\<lambda>v. vm_start (vmas mm v) \<le> start) ws)))"
  using assms
proof (induction ws arbitrary: us)
  case Nil
  then have "l_next (mmap mm) (last (MmapList # map VLink us)) = MmapList"
    using klist_next_at [of "mmap mm" MmapList "map VLink us" "[]"] by simp
  then show ?case by (subst vma_place.simps) (simp add: list_next_def)
next
  case (Cons w ws)
  then have "l_next (mmap mm) (last (MmapList # map VLink us)) = VLink w"
    using klist_next_at [of "mmap mm" MmapList "map VLink us" "map VLink (w # ws)"] by simp
  moreover have "vma_place start (VLink w) mm =
      Some (last (MmapList # map VLink (us @ w # takeWhile (\<lambda>v. vm_start (vmas mm v) \<le> start) ws)))"
    using Cons.IH [of "us @ [w]"] Cons.prems by simp
  ultimately show ?case by (subst vma_place.simps) (auto simp: list_next_def)
qed

text \<open>The area \<open>v\<close> has an address in common with the range.\<close>

definition overlaps :: "mm_struct \<Rightarrow> u64 \<Rightarrow> u64 \<Rightarrow> nat \<Rightarrow> bool" where
  "overlaps mm start fin v \<longleftrightarrow> vm_start (vmas mm v) < fin \<and> start < vm_end (vmas mm v)"

definition inserted :: "mm_struct \<Rightarrow> u64 \<Rightarrow> nat \<Rightarrow> nat list \<Rightarrow> nat list" where
  "inserted mm start v xs =
     takeWhile (\<lambda>u. vm_start (vmas mm u) \<le> start) xs @ v # dropWhile (\<lambda>u. vm_start (vmas mm u) \<le> start) xs"

lemma check_vma_overlap_Some [simp]:
  "check_vma_overlap u v mm = Some r \<longleftrightarrow> vm_start (vmas mm u) < vm_end (vmas mm u) \<and>
     vm_end (vmas mm u) \<le> vm_start (vmas mm v) \<and> vm_start (vmas mm v) < vm_end (vmas mm v)"
  by (simp add: check_vma_overlap_def)

lemma apart_below:
  assumes ord: "sorted_wrt (before mm) us" and us: "\<And>u. u \<in> set us \<Longrightarrow> vm_start (vmas mm u) \<le> start"
    and ne: "start < fin" "\<And>u. u \<in> set us \<Longrightarrow> vm_start (vmas mm u) < vm_end (vmas mm u)"
  shows "(\<exists>u \<in> set us. overlaps mm start fin u) \<longleftrightarrow> us \<noteq> [] \<and> start < vm_end (vmas mm (last us))"
proof (cases us rule: rev_cases)
  case (snoc zs z)
  have "\<not> start < vm_end (vmas mm u)" if "u \<in> set zs" for u
  proof -
    have "vm_end (vmas mm u) \<le> vm_start (vmas mm z)"
      using ord that by (simp add: snoc sorted_wrt_append before_def)
    also have "\<dots> \<le> start" using us snoc by simp
    finally show ?thesis by simp
  qed
  moreover have "vm_start (vmas mm z) < fin" using us [of z] ne(1) snoc by simp
  ultimately show ?thesis by (auto simp: snoc overlaps_def)
qed simp

lemma apart_above:
  assumes ord: "sorted_wrt (before mm) ws" and ws: "ws \<noteq> [] \<Longrightarrow> start < vm_start (vmas mm (hd ws))"
    and ne: "\<And>u. u \<in> set ws \<Longrightarrow> vm_start (vmas mm u) < vm_end (vmas mm u)"
  shows "(\<exists>u \<in> set ws. overlaps mm start fin u) \<longleftrightarrow> ws \<noteq> [] \<and> vm_start (vmas mm (hd ws)) < fin"
proof (cases ws)
  case (Cons z zs)
  have "vm_start (vmas mm z) \<le> vm_start (vmas mm u)" if "u \<in> set zs" for u
  proof -
    have "vm_start (vmas mm z) < vm_end (vmas mm z)" using ne Cons by simp
    also have "\<dots> \<le> vm_start (vmas mm u)" using ord that by (simp add: Cons before_def)
    finally show ?thesis by simp
  qed
  moreover have "start < vm_end (vmas mm z)"
    using ws ne [of z] Cons by auto
  ultimately show ?thesis by (force simp: Cons overlaps_def)
qed simp

lemma unit_option: "(r = Some () \<longleftrightarrow> \<not> b) \<Longrightarrow> r = (if b then None else Some ())"
  by (cases r) auto

lemma insert_vma_spec:
  assumes ar: "areas mm xs" and v: "v \<notin> set xs" and acc: "USER_ACCESS (vm_start (vmas mm v)) (vm_end (vmas mm v))"
  defines "start \<equiv> vm_start (vmas mm v)" and "fin \<equiv> vm_end (vmas mm v)"
  shows "(\<exists>u \<in> set xs. overlaps mm start fin u) \<Longrightarrow> insert_vma_struct v mm = None"
    and "\<not> (\<exists>u \<in> set xs. overlaps mm start fin u) \<Longrightarrow>
      \<exists>l. insert_vma_struct v mm = Some (mm\<lparr>mmap := l, map_count := map_count mm + 1\<rparr>) \<and>
        areas (mm\<lparr>mmap := l, map_count := map_count mm + 1\<rparr>) (inserted mm start v xs)"
proof -
  define us where "us = takeWhile (\<lambda>u. vm_start (vmas mm u) \<le> start) xs"
  define ws where "ws = dropWhile (\<lambda>u. vm_start (vmas mm u) \<le> start) xs"
  have xs: "xs = us @ ws" by (simp add: us_def ws_def)
  have sf: "start < fin" using acc by (simp add: start_def fin_def USER_ACCESS_def)
  note d = areasD [OF ar]
  have kl: "klist (mmap mm) MmapList (map VLink us @ map VLink ws)" using d(1) by (simp add: xs)
  have place: "vma_place start MmapList mm = Some (last (MmapList # map VLink us))"
    using vma_place_spec [of mm "[]" xs start] d(1) by (simp add: us_def)
  have nx: "list_next (last (MmapList # map VLink us)) (mmap mm) = hd (map VLink ws @ [MmapList])"
    using klist_next_at [OF kl] by (simp add: list_next_def)
  have usP: "\<And>u. u \<in> set us \<Longrightarrow> vm_start (vmas mm u) \<le> start" by (auto simp: us_def dest: set_takeWhileD)
  have wsP: "ws \<noteq> [] \<Longrightarrow> start < vm_start (vmas mm (hd ws))"
    using hd_dropWhile [of "\<lambda>u. vm_start (vmas mm u) \<le> start" xs] by (simp add: ws_def)
  have ord: "sorted_wrt (before mm) us" "sorted_wrt (before mm) ws" "\<And>u w. u \<in> set us \<Longrightarrow> w \<in> set ws \<Longrightarrow> before mm u w"
    using d(2) by (simp_all add: xs sorted_wrt_append)
  have ne: "\<And>u. u \<in> set us \<Longrightarrow> vm_start (vmas mm u) < vm_end (vmas mm u)"
    "\<And>u. u \<in> set ws \<Longrightarrow> vm_start (vmas mm u) < vm_end (vmas mm u)" using d(4) xs by auto
  have lo: "(\<exists>u \<in> set us. overlaps mm start fin u) \<longleftrightarrow> us \<noteq> [] \<and> start < vm_end (vmas mm (last us))"
    by (rule apart_below [OF ord(1) _ sf]) (fact usP ne)+
  have hi: "(\<exists>u \<in> set ws. overlaps mm start fin u) \<longleftrightarrow> ws \<noteq> [] \<and> vm_start (vmas mm (hd ws)) < fin"
    by (rule apart_above [OF ord(2)]) (fact wsP ne)+
  have L: "(case last (MmapList # map VLink us) of MmapList \<Rightarrow> Some () | VLink p \<Rightarrow> check_vma_overlap p v mm) = Some ()
      \<longleftrightarrow> \<not> (\<exists>u \<in> set us. overlaps mm start fin u)"
  proof (subst lo, cases us rule: rev_cases)
    case (snoc zs z)
    then show "(case last (MmapList # map VLink us) of MmapList \<Rightarrow> Some () | VLink p \<Rightarrow> check_vma_overlap p v mm) = Some ()
      \<longleftrightarrow> \<not> (us \<noteq> [] \<and> start < vm_end (vmas mm (last us)))"
      using sf ne(1) [of z] by (simp add: start_def fin_def not_less)
  qed simp
  have R: "(case hd (map VLink ws @ [MmapList]) of MmapList \<Rightarrow> Some () | VLink n \<Rightarrow> check_vma_overlap v n mm) = Some ()
      \<longleftrightarrow> \<not> (\<exists>u \<in> set ws. overlaps mm start fin u)"
  proof (subst hi, cases ws)
    case (Cons z zs)
    then show "(case hd (map VLink ws @ [MmapList]) of MmapList \<Rightarrow> Some () | VLink n \<Rightarrow> check_vma_overlap v n mm) = Some ()
      \<longleftrightarrow> \<not> (ws \<noteq> [] \<and> vm_start (vmas mm (hd ws)) < fin)"
      using sf ne(2) [of z] by (simp add: start_def fin_def not_less)
  qed simp
  let ?l = "list_add_after (last (MmapList # map VLink us)) (VLink v) (mmap mm)"
  let ?m = "mm\<lparr>mmap := ?l, map_count := map_count mm + 1\<rparr>"
  have run: "insert_vma_struct v mm = (if \<exists>u \<in> set xs. overlaps mm start fin u then None else Some ?m)"
  proof -
    have "insert_vma_struct v mm = do {
        _ \<leftarrow> (case last (MmapList # map VLink us) of MmapList \<Rightarrow> Some () | VLink p \<Rightarrow> check_vma_overlap p v mm);
        _ \<leftarrow> (case hd (map VLink ws @ [MmapList]) of MmapList \<Rightarrow> Some () | VLink n \<Rightarrow> check_vma_overlap v n mm);
        Some ?m }"
      unfolding insert_vma_struct_def start_def [symmetric] fin_def [symmetric]
      by (simp only: place nx sf kassert_True Option.bind.bind_lunit Let_def)
    then show ?thesis
      unfolding unit_option [OF L] unit_option [OF R] by (auto simp: xs)
  qed
  show "(\<exists>u \<in> set xs. overlaps mm start fin u) \<Longrightarrow> insert_vma_struct v mm = None" using run by simp
  assume apart: "\<not> (\<exists>u \<in> set xs. overlaps mm start fin u)"
  have "klist ?l MmapList (map VLink us @ VLink v # map VLink ws)"
    by (rule list_add_after_at [OF kl]) (use v xs in auto)
  moreover have "sorted_wrt (before mm) (us @ v # ws)"
  proof -
    have "before mm u v" if "u \<in> set us" for u
    proof -
      have "vm_start (vmas mm u) < fin" using usP [OF that] sf by simp
      moreover have "\<not> overlaps mm start fin u" using apart that xs by auto
      ultimately show ?thesis by (simp add: overlaps_def before_def start_def [symmetric] not_less)
    qed
    moreover have "before mm v w" if "w \<in> set ws" for w
    proof -
      have "vm_start (vmas mm (hd ws)) \<le> vm_start (vmas mm w)"
        using that ord(2) ne(2) [of "hd ws"] by (cases ws) (auto simp: before_def intro: order.trans less_imp_le)
      moreover have "start < vm_start (vmas mm (hd ws))" using that wsP by (cases ws) auto
      ultimately have "start < vm_end (vmas mm w)" using ne(2) [OF that] by auto
      moreover have "\<not> overlaps mm start fin w" using apart that xs by auto
      ultimately show ?thesis by (simp add: overlaps_def before_def fin_def [symmetric] not_less)
    qed
    ultimately show ?thesis using ord by (auto simp: sorted_wrt_append)
  qed
  ultimately have "areas ?m (us @ v # ws)"
    using ar acc by (auto simp: areas_def xs before_def [abs_def] split: option.splits)
  with run apart show "\<exists>l. insert_vma_struct v mm = Some (mm\<lparr>mmap := l, map_count := map_count mm + 1\<rparr>) \<and>
        areas (mm\<lparr>mmap := l, map_count := map_count mm + 1\<rparr>) (inserted mm start v xs)"
    by (intro exI [of _ ?l]) (simp add: inserted_def us_def ws_def)
qed

section \<open>Access to user memory\<close>

text \<open>
  An address may be read, or written: it lies in an area with the permission, and a written one not
  in the lowest page of a stack.
\<close>

definition accessible :: "mm_struct \<Rightarrow> nat list \<Rightarrow> bool \<Rightarrow> u64 \<Rightarrow> bool" where
  "accessible mm xs write a \<longleftrightarrow> (\<exists>v \<in> set xs. vma_has mm a v \<and>
     vm_flags (vmas mm v) AND (if write then VM_WRITE else VM_READ) \<noteq> 0 \<and>
     (write \<and> vm_flags (vmas mm v) AND VM_STACK \<noteq> 0 \<longrightarrow> vm_start (vmas mm v) + PGSIZE \<le> a))"

lemma accessible_cached [simp]: "accessible (cached c mm) xs write = accessible mm xs write"
  by (simp add: accessible_def [abs_def])

lemma accessible_in:
  assumes "areas mm xs" and "v \<in> set xs" and "vma_has mm a v"
  shows "accessible mm xs write a \<longleftrightarrow>
     vm_flags (vmas mm v) AND (if write then VM_WRITE else VM_READ) \<noteq> 0 \<and>
     (write \<and> vm_flags (vmas mm v) AND VM_STACK \<noteq> 0 \<longrightarrow> vm_start (vmas mm v) + PGSIZE \<le> a)"
  using vma_unique [OF assms(1) _ assms(2) _ assms(3)] assms(2,3) unfolding accessible_def by blast

lemma vma_has_upto: "vma_has mm start v \<Longrightarrow> start \<le> a \<Longrightarrow> a < vm_end (vmas mm v) \<Longrightarrow> vma_has mm a v"
  by (auto simp: vma_has_def)

lemma check_loop_spec:
  assumes "areas mm xs"
  shows "\<exists>c. check_loop mm start fin write =
    Some (\<forall>a. start \<le> a \<and> a < fin \<longrightarrow> accessible mm xs write a, cached c mm) \<and> areas (cached c mm) xs"
  using assms
proof (induction "unat fin - unat start" arbitrary: start mm rule: less_induct)
  case less
  let ?all = "\<lambda>s. \<forall>a. s \<le> a \<and> a < fin \<longrightarrow> accessible mm xs write a"
  let ?c = "find (vma_has mm start) xs"
  note find = find_vma_spec [OF less.prems, of start] and ar = areas_find [OF less.prems, of "vma_has mm start"]
  consider (passed) "\<not> start < fin" | (hole) "start < fin" "?c = None" | (area) v where "start < fin" "?c = Some v"
    by (cases ?c) auto
  then show ?case
  proof cases
    case passed
    then have "?all start" by (auto dest: order.trans)
    moreover have "cached None mm = mm" by (simp add: cached_def)
    ultimately show ?thesis using passed less.prems
      by - (rule exI [of _ None], subst check_loop.simps, simp)
  next
    case hole
    then have "\<not> accessible mm xs write start" by (auto simp: find_None_iff accessible_def)
    then have "\<not> ?all start" using hole(1) by blast
    then show ?thesis using hole find ar
      by - (rule exI [of _ ?c], subst check_loop.simps, simp)
  next
    case area
    note v = find_Some_set [OF area(2)]
    have acc: "accessible mm xs write a \<longleftrightarrow>
       vm_flags (vmas mm v) AND (if write then VM_WRITE else VM_READ) \<noteq> 0 \<and>
       (write \<and> vm_flags (vmas mm v) AND VM_STACK \<noteq> 0 \<longrightarrow> vm_start (vmas mm v) + PGSIZE \<le> a)"
      if "start \<le> a" "a < vm_end (vmas mm v)" for a
      using accessible_in [OF less.prems conjunct1 [OF v] vma_has_upto [OF conjunct2 [OF v] that]] .
    have st: "vm_start (vmas mm v) \<le> start" "start < vm_end (vmas mm v)" using v by (auto simp: vma_has_def)
    have step: "check_loop mm start fin write = (if accessible mm xs write start
        then check_loop (cached ?c mm) (vm_end (vmas mm v)) fin write else Some (False, cached ?c mm))"
      unfolding acc [OF order.refl st(2)] using area find st
      by (subst check_loop.simps) (simp add: Let_def not_less [symmetric])
    show ?thesis
    proof (cases "accessible mm xs write start")
      case False
      then have "\<not> ?all start" using area(1) by blast
      then show ?thesis using ar False step by - (rule exI [of _ ?c], simp)
    next
      case True
      have now: "?all start \<longleftrightarrow> ?all (vm_end (vmas mm v))"
      proof
        assume r: "?all (vm_end (vmas mm v))"
        show "?all start"
        proof (intro allI impI)
          fix a assume a: "start \<le> a \<and> a < fin"
          show "accessible mm xs write a"
          proof (cases "a < vm_end (vmas mm v)")
            case in_area: True
            then show ?thesis using acc [of start] acc [of a] True a st by (auto dest: order.trans)
          next
            case False
            then show ?thesis using r a by simp
          qed
        qed
      qed (use st in \<open>auto dest: less_le_trans\<close>)
      have "unat fin - unat (vm_end (vmas mm v)) < unat fin - unat start"
        using area(1) st by (auto simp: word_less_nat_alt)
      from less.hyps [OF this, of "cached ?c mm"] ar obtain c where
        c: "check_loop (cached ?c mm) (vm_end (vmas mm v)) fin write =
            Some (?all (vm_end (vmas mm v)), cached c (cached ?c mm))" "areas (cached c (cached ?c mm)) xs" by auto
      define d where "d = (case c of None \<Rightarrow> ?c | Some _ \<Rightarrow> c)"
      have d: "cached c (cached ?c mm) = cached d mm"
        by (simp add: d_def cached_def split: option.splits)
      show ?thesis
        unfolding step now using True c unfolding d by - (rule exI [of _ d], simp)
    qed
  qed
qed

section \<open>Properties\<close>

text \<open>
  C39: mm_map, for an address space with a well-formed list of areas and a fresh area from the
  allocator, on every branch: a range outside user space or one that starts inside an area is
  refused, a full heap is reported, and a range that meets no area becomes an area of the list, in
  order. A range that starts in a hole and runs into a later area fails an assertion: the kernel
  panics there.
\<close>

theorem mm_map_outcome:
  fixes addr len :: u64
  assumes "areas mm xs" and "\<forall>v. kmalloc = Some v \<longrightarrow> v \<notin> set xs"
  defines "start \<equiv> ROUNDDOWN addr PGSIZE" and "fin \<equiv> ROUNDUP (addr + len) PGSIZE"
  shows "if \<not> USER_ACCESS start fin \<or> (\<exists>u \<in> set xs. vma_has mm start u)
      then \<exists>c. mm_map kmalloc mm addr len flags = Some (- E_INVAL, None, cached c mm) \<and> areas (cached c mm) xs
      else case kmalloc of None \<Rightarrow> mm_map kmalloc mm addr len flags = Some (- E_NO_MEM, None, mm)
      | Some v \<Rightarrow>
          if \<exists>u \<in> set xs. overlaps mm start fin u then mm_map kmalloc mm addr len flags = None
          else \<exists>mm'. mm_map kmalloc mm addr len flags = Some (0, Some v, mm') \<and>
            areas mm' (inserted mm start v xs) \<and>
            vmas mm' = (vmas mm)(v := \<lparr>vm_start = start, vm_end = fin, vm_flags = flags\<rparr>)"
proof -
  let ?c = "find (vma_has mm start) xs"
  note find = find_vma_spec [OF assms(1), of start]
  consider (outside) "\<not> USER_ACCESS start fin" | (taken) v where "USER_ACCESS start fin" "?c = Some v"
    | (hole) "USER_ACCESS start fin" "?c = None" by (cases ?c) auto
  then show ?thesis
  proof cases
    case outside
    moreover have "cached None mm = mm" by (simp add: cached_def)
    moreover have "mm_map kmalloc mm addr len flags = Some (- E_INVAL, None, mm)"
      using outside by (simp add: mm_map_def start_def fin_def)
    ultimately show ?thesis using assms(1) by metis
  next
    case taken
    note v = find_Some_set [OF taken(2)]
    have "vm_start (vmas mm v) < fin"
      using v taken(1) by (auto simp: vma_has_def USER_ACCESS_def)
    then have "mm_map kmalloc mm addr len flags = Some (- E_INVAL, None, cached ?c mm)"
      using taken find by (simp add: mm_map_def start_def [symmetric] fin_def [symmetric] Let_def)
    moreover have "areas (cached ?c mm) xs" using assms(1) by simp
    ultimately show ?thesis using v by auto
  next
    case hole
    have none: "\<not> (\<exists>u \<in> set xs. vma_has mm start u)" using hole(2) by (simp add: find_None_iff)
    have "cached ?c mm = mm" using hole by (simp add: cached_def)
    then have map: "mm_map kmalloc mm addr len flags =
        (case vma_create kmalloc start fin flags mm of (None, mm) \<Rightarrow> Some (- E_NO_MEM, None, mm)
         | (Some v, mm) \<Rightarrow> do { mm \<leftarrow> insert_vma_struct v mm; Some (0, Some v, mm) })"
      using hole find by (simp add: mm_map_def start_def [symmetric] fin_def [symmetric] Let_def)
    show ?thesis
    proof (cases kmalloc)
      case None
      with map none hole show ?thesis by (simp add: vma_create_def)
    next
      case (Some v)
      let ?m = "mm\<lparr>vmas := (vmas mm)(v := \<lparr>vm_start = start, vm_end = fin, vm_flags = flags\<rparr>)\<rparr>"
      have v: "v \<notin> set xs" using assms(2) Some by simp
      have eq: "vmas ?m u = vmas mm u" if "u \<in> set xs" for u using that v by auto
      have ar: "areas ?m xs"
        using assms(1) eq unfolding areas_def
        by (auto simp: before_def split: option.splits intro: sorted_wrt_mono_rel [of xs "before mm"])
      have ov: "(\<exists>u \<in> set xs. overlaps ?m start fin u) = (\<exists>u \<in> set xs. overlaps mm start fin u)"
        using eq by (simp add: overlaps_def)
      have ins: "inserted ?m start v xs = inserted mm start v xs"
        using eq by (simp add: inserted_def cong: takeWhile_cong dropWhile_cong)
      note spec = insert_vma_spec [OF ar v]
      have "mm_map kmalloc mm addr len flags = do { mm \<leftarrow> insert_vma_struct v ?m; Some (0, Some v, mm) }"
        using map by (simp add: vma_create_def Some)
      then show ?thesis
        using spec hole none Some ov ins by (auto simp del: fun_upd_apply simp: fun_upd_same)
    qed
  qed
qed

text \<open>
  C40: user_mem_check always ends. It accepts a range exactly when the range lies in user space and
  each of its addresses, of however many areas, may be accessed: the page at the low end of a stack
  may not be written. Only the cached area changes.
\<close>

theorem user_mem_check_spec:
  assumes "areas mm xs"
  shows "\<exists>c. user_mem_check (Some mm) addr len write =
    Some (USER_ACCESS addr (addr + len) \<and> (\<forall>a. addr \<le> a \<and> a < addr + len \<longrightarrow> accessible mm xs write a),
      Some (cached c mm)) \<and> areas (cached c mm) xs"
proof (cases "USER_ACCESS addr (addr + len)")
  case True
  from check_loop_spec [OF assms, of addr "addr + len" "write"] obtain c where
    "check_loop mm addr (addr + len) write =
       Some (\<forall>a. addr \<le> a \<and> a < addr + len \<longrightarrow> accessible mm xs write a, cached c mm)" "areas (cached c mm) xs"
    by blast
  with True show ?thesis by - (rule exI [of _ c], simp add: user_mem_check_def)
next
  case False
  moreover have "cached None mm = mm" by (simp add: cached_def)
  ultimately show ?thesis using assms by - (rule exI [of _ None], simp add: user_mem_check_def)
qed

text \<open>Two adjacent areas, the second one a stack.\<close>

definition ex_mm :: mm_struct where
  "ex_mm = \<lparr>mmap = list_add_after (VLink 1) (VLink 2) (list_add_after MmapList (VLink 1)
       (list_init MmapList \<lparr>l_prev = id, l_next = id\<rparr>)),
     vmas = (\<lambda>v. if v = 1 then \<lparr>vm_start = 0x201000, vm_end = 0x203000, vm_flags = 3\<rparr>
       else \<lparr>vm_start = 0x203000, vm_end = 0x205000, vm_flags = 0xB\<rparr>),
     mmap_cache = None, pgdir = pkva 0, map_count = 2, mm_count = 1\<rparr>"

lemma ex_mm_areas: "areas ex_mm [1, 2]"
  unfolding areas_def
proof (intro conjI)
  show "klist (mmap ex_mm) MmapList (map VLink [1, 2])"
    by (simp add: ex_mm_def klist_def list_op_defs)
qed (simp_all add: ex_mm_def before_def USER_ACCESS_def USERBASE_def USERTOP_def)

theorem mm_map_outcome_witness:
  "(\<exists>mm. mm_map (Some 3) ex_mm 0x206010 0x1000 1 = Some (0, Some 3, mm) \<and> areas mm [1, 2, 3]) \<and>
   mm_map (Some 3) ex_mm 0x200000 0x2000 1 = None"
proof
  note round = ROUNDDOWN_def ROUNDUP_def PGSIZE_def USER_ACCESS_def USERBASE_def USERTOP_def
  show "\<exists>mm. mm_map (Some 3) ex_mm 0x206010 0x1000 1 = Some (0, Some 3, mm) \<and> areas mm [1, 2, 3]"
    using mm_map_outcome [OF ex_mm_areas, of "Some 3" "0x206010" "0x1000" 1]
    by (auto simp: round vma_has_def overlaps_def inserted_def ex_mm_def)
  show "mm_map (Some 3) ex_mm 0x200000 0x2000 1 = None"
    using mm_map_outcome [OF ex_mm_areas, of "Some 3" "0x200000" "0x2000" 1]
    by (simp add: round vma_has_def overlaps_def ex_mm_def)
qed

theorem user_mem_check_spec_witness:
  "\<exists>mm. user_mem_check (Some ex_mm) 0x202FF0 0x1010 True = Some (False, Some mm) \<and> areas mm [1, 2]"
proof -
  have "\<not> accessible ex_mm [1, 2] True 0x203000"
    by (simp add: accessible_def vma_has_def ex_mm_def VM_WRITE_def VM_STACK_def PGSIZE_def)
  then have "\<not> (\<forall>a. 0x202FF0 \<le> a \<and> a < 0x202FF0 + 0x1010 \<longrightarrow> accessible ex_mm [1, 2] True a)"
    by (intro notI) (drule spec [of _ "0x203000"], simp)
  then show ?thesis
    using user_mem_check_spec [OF ex_mm_areas, of "0x202FF0" "0x1010" True] by auto
qed

end
