(* ===== verification/Page_Fault.thy ===== *)
theory Page_Fault
  imports Vmm
begin

text \<open>
  The page fault handler \<^verbatim>\<open>do_pgfault\<close> of \<^verbatim>\<open>kern/mm/vmm.c\<close>, over the page tables, the
  page replacement and the areas: a page that was swapped out comes back with its contents, and a
  page that was never touched is mapped afresh.
\<close>

section \<open>The handler\<close>

definition fault_perm :: "vma_struct \<Rightarrow> u32" where
  "fault_perm a = (if vm_flags a AND VM_WRITE \<noteq> 0 then ucast PTE_U OR ucast READ_WRITE else ucast PTE_U)"

text \<open>
  \<^verbatim>\<open>do_pgfault\<close> for an address space that is not \<^verbatim>\<open>NULL\<close>. The last argument but one is the
  counter \<^verbatim>\<open>pgfault_num\<close>. A failed \<^verbatim>\<open>swap_in\<close> would be reported, but it returns 0 always; the
  result of \<^verbatim>\<open>page_insert\<close> is not looked at.
\<close>

definition do_pgfault ::
  "page_alloc \<Rightarrow> mm_struct \<Rightarrow> u64 \<Rightarrow> u32 \<Rightarrow> vmem \<Rightarrow> (int \<times> mm_struct \<times> u32 \<times> vmem) option"
where
  "do_pgfault alloc mm addr pgfault_num s = do {
     (vma, mm) \<leftarrow> find_vma mm addr;
     let num = pgfault_num + 1;
     case vma of None \<Rightarrow> Some (- E_INVAL, mm, num, s)
     | Some v \<Rightarrow>
       if vm_start (vmas mm v) > addr then Some (- E_INVAL, mm, num, s)
       else do {
         let perm = fault_perm (vmas mm v);
         let addr = ROUNDDOWN addr PGSIZE;
         (ptep, s) \<leftarrow> get_pte alloc (pgdir mm) addr True s;
         case ptep of None \<Rightarrow> Some (- E_NO_MEM, mm, num, s)
         | Some ptep \<Rightarrow>
           if kmem s ptep = 0 then do {
             (page, s) \<leftarrow> pgdir_alloc_page alloc (pgdir mm) addr perm s;
             Some (if page = None then - E_NO_MEM else 0, mm, num, s) }
           else if swap_init_ok s then do {
             (ret, page, s) \<leftarrow> swap_in alloc (pgdir mm) addr s;
             if ret \<noteq> 0 then Some (ret, mm, num, s)
             else do {
               (_, s) \<leftarrow> page_insert alloc (pgdir mm) page addr perm s;
               let s = fifo_map_swappable page s;
               Some (0, mm, num, s\<lparr>pra_vaddr := (pra_vaddr s)(page := addr)\<rparr>) } }
           else Some (- E_NO_MEM, mm, num, s) } }"

section \<open>The allocator once swapping is on\<close>

lemma alloc_page_swapping_law:
  assumes "frames s F A" and "swap_init_ok s \<longrightarrow> F \<noteq> {}"
  shows "\<exists>r. alloc_page_swapping s = Some r \<and> alloc_post s F A r"
proof -
  from alloc_page_law [OF assms(1)] obtain p s' where
    r: "alloc_page s = Some (p, s')" "alloc_post s F A (p, s')" by auto
  have "p \<noteq> None \<or> \<not> swap_init_ok s'"
    using r(2) assms(2) by (cases p) (auto simp: alloc_post_def)
  then have "alloc_page_swapping s = Some (p, s')"
    using r(1) by (subst alloc_page_swapping.simps) simp
  with r(2) show ?thesis by blast
qed

interpretation swap_supply: page_supply alloc_page_swapping
  by unfold_locales (rule alloc_page_swapping_law)

section \<open>The invariant of swapping\<close>

text \<open>
  The manager's list holds the pages \<open>ps\<close>: each is mapped once, at the address it was entered for,
  whose slot lies on the disk.
\<close>

definition swap_inv :: "vmem \<Rightarrow> u64 \<Rightarrow> (tnode \<rightharpoonup> nat) \<Rightarrow> nat set \<Rightarrow> nat set \<Rightarrow> nat list \<Rightarrow> bool" where
  "swap_inv s pd T F A ps \<longleftrightarrow> mm_inv s pd T F A \<and> top_free F A \<and> disk_ok s (F \<union> A) \<and> swap_init_ok s \<and>
     klist (pra s) PraHead (map PraLink ps) \<and> set ps \<subseteq> A - ran T \<and>
     (\<forall>p \<in> set ps. mapped s T p = {indices (pra_vaddr s p)} \<and> slot_off (pra_vaddr s p) < max_swap_offset s) \<and>
     (\<forall>q \<in> F. page_ref q s = 0)"

text \<open>
  What a program sees of its half of the address space: the words of the pages behind the entries the
  processor lets it read. An entry without \<^verbatim>\<open>PTE_R\<close> (and \<^verbatim>\<open>PTE_X\<close>) is not a leaf entry for the
  processor, and one without \<^verbatim>\<open>PTE_U\<close> is the kernel's.
\<close>

definition user_readable :: "u64 \<Rightarrow> bool" where
  "user_readable e \<longleftrightarrow> e AND (PTE_V OR PTE_R OR PTE_U) = PTE_V OR PTE_R OR PTE_U"

definition view :: "vmem \<Rightarrow> (tnode \<rightharpoonup> nat) \<Rightarrow> nat \<times> nat \<times> nat \<Rightarrow> nat \<Rightarrow> u64 option" where
  "view s T x l =
     (if user_half x \<and> user_readable (pte_at s T x)
      then map_option (\<lambda>p. content s p l) (pte2page (npage s) (pte_at s T x)) else None)"

lemma view_leads:
  "leads (npage s) (pte_at s T x) p \<Longrightarrow> user_half x \<Longrightarrow> user_readable (pte_at s T x) \<Longrightarrow> view s T x l = Some (content s p l)"
  by (simp add: view_def leads_def)

lemma readable_valid: "user_readable e \<Longrightarrow> pte_valid e"
proof -
  assume "user_readable e"
  then have "e AND 0x13 = 0x13" by (simp add: user_readable_def PTE_V_def PTE_R_def PTE_U_def)
  moreover have "e AND 1 = (e AND 0x13) AND 1" by (simp add: and.assoc)
  ultimately have "e AND 1 = 0x13 AND 1" by metis
  then show "pte_valid e" by (simp add: pte_valid_def PTE_V_def)
qed

lemma mappedD: "x \<in> mapped s T p \<Longrightarrow> leads (npage s) (pte_at s T x) p"
  "x \<in> mapped s T p \<Longrightarrow> user_half x"
  by (simp_all add: mapped_def)

lemma swap_out_keeps:
  assumes inv: "swap_inv s pd T F A (p # ps)"
  defines "v \<equiv> pra_vaddr s p"
  obtains s' where "swap_out pd 1 False s = Some s'" and "swap_inv s' pd T (insert p F) (A - {p}) ps"
    and "pte_at s' T = (pte_at s T)(indices v := swap_entry v)" and "on_disk s' v (content s p)"
    and "\<And>q l. q \<in> F \<union> A - ran T \<Longrightarrow> l < 512 \<Longrightarrow> content s' q l = content s q l"
    and "same_rest (s\<lparr>pra := pra s'\<rparr>) s'" and "tlb s' (PPN v) = None"
proof -
  have i: "mm_inv s pd T F A" "top_free F A" "disk_ok s (F \<union> A)" "swap_init_ok s"
    "klist (pra s) PraHead (map PraLink (p # ps))" "set (p # ps) \<subseteq> A - ran T"
    "mapped s T p = {indices v}" "slot_off v < max_swap_offset s" "\<forall>q \<in> F. page_ref q s = 0"
    "\<forall>q \<in> set ps. mapped s T q = {indices (pra_vaddr s q)} \<and> slot_off (pra_vaddr s q) < max_swap_offset s"
    using inv by (auto simp: swap_inv_def v_def)
  have v: "pra_vaddr s p = v" and "p \<in> A - ran T" using i(6) by (simp_all add: v_def)
  from swap_out_one_spec [OF i(1-3,5) v i(8) this(2) i(7)] obtain s' where
    run: "swap_out_one pd False s = Some s'" and inv': "mm_inv s' pd T (insert p F) (A - {p})"
    and pte: "pte_at s' T = (pte_at s T)(indices v := swap_entry v)" and disk: "on_disk s' v (content s p)"
    and data: "\<And>q l. q \<in> F \<union> A - ran T \<Longrightarrow> l < 512 \<Longrightarrow> content s' q l = content s q l"
    and rest: "same_rest (s\<lparr>pra := pra s'\<rparr>) s'" "klist (pra s') PraHead (map PraLink ps)"
    and tlb: "tlb s' = (tlb s)(PPN v := None)" and refs: "\<And>q. page_ref q s' = (if q = p then 0 else page_ref q s)"
    by metis
  note same = same_restD [OF rest(1)]
  have dist: "distinct (p # ps)" using i(5) by (auto simp: klist_def distinct_map)
  have "mapped s' T q = {indices (pra_vaddr s q)}" if q: "q \<in> set ps" for q
  proof -
    have "q \<noteq> p" using dist q by auto
    have "x \<in> mapped s' T q \<longleftrightarrow> x \<in> mapped s T q" for x
    proof (cases "x = indices v")
      case True
      have "\<not> leads (npage s) (pte_at s T (indices v)) q"
        using mappedD(1) [of "indices v" s T p] i(7) leads_unique \<open>q \<noteq> p\<close> by blast
      then show ?thesis using True pte swap_entry_invalid by (simp add: mapped_def leads_def)
    qed (use pte same(1) in \<open>simp add: mapped_def\<close>)
    then show ?thesis using i(10) q by blast
  qed
  moreover have "disk_ok s' (insert p F \<union> (A - {p}))"
  proof -
    have "disk_ok s' (F \<union> A)" using i(3) disk_ok_rest(1) [OF rest(1), of "F \<union> A"] by (simp add: disk_ok_def)
    moreover have "insert p F \<union> (A - {p}) = F \<union> A" using i(6) by auto
    ultimately show ?thesis by simp
  qed
  moreover have "top_free (insert p F) (A - {p})" by (rule top_free_mono [OF i(2)]) auto
  moreover have "set ps \<subseteq> A - {p} - ran T" using i(6) dist by auto
  ultimately have "swap_inv s' pd T (insert p F) (A - {p}) ps"
    using inv' rest(2) i(4,9,10) refs same by (simp add: swap_inv_def)
  moreover have "swap_out pd 1 False s = Some s'" using run by simp
  ultimately show ?thesis using that pte disk data rest(1) tlb by simp
qed

lemma fault_perm_bound: "unat (fault_perm a) < 1024"
  by (simp add: fault_perm_def PTE_U_def READ_WRITE_def PTE_R_def PTE_W_def PTE_V_def)

lemma readable_fault: "user_readable (new_pte q (fault_perm a)) \<longleftrightarrow> vm_flags a AND VM_WRITE \<noteq> 0"
proof -
  let ?e = "new_pte q (fault_perm a)"
  have fl: "?e AND 0x3FF = PTE_V OR ucast (ucast PTE_V OR fault_perm a :: s32)"
    unfolding new_pte_def by (rule flags_create) (rule insert_perm [OF fault_perm_bound])
  have "?e AND 0x13 = (?e AND 0x3FF) AND 0x13" by (simp add: and.assoc)
  then have "?e AND 0x13 = (PTE_V OR ucast (ucast PTE_V OR fault_perm a :: s32)) AND 0x13" unfolding fl .
  then show ?thesis
    by (simp add: user_readable_def fault_perm_def PTE_V_def PTE_R_def PTE_U_def PTE_W_def READ_WRITE_def)
qed

lemma swap_inv_parts:
  assumes "swap_inv s pd T F A ps"
  shows "mm_inv s pd T F A" "disk_ok s (F \<union> A)" "swap_init_ok s" "klist (pra s) PraHead (map PraLink ps)"
    "set ps \<subseteq> A - ran T" "\<forall>q \<in> F. page_ref q s = 0"
  using assms by (simp_all add: swap_inv_def)

lemma find_vma_area:
  "areas mm xs \<Longrightarrow> u \<in> set xs \<Longrightarrow> vma_has mm a u \<Longrightarrow> find_vma mm a = Some (Some u, cached (Some u) mm)"
  using find_vma_spec [of mm xs a] find_unique [of u xs "vma_has mm a"] vma_unique [of mm xs _ u a] by metis

section \<open>Bringing a page back\<close>

lemma fault_swaps_in:
  assumes inv: "swap_inv s pd T F A ps" and fr: "3 \<le> card F"
    and off: "slot_off v < max_swap_offset s" and pte: "pte_at s T (indices v) = swap_entry v"
    and c: "on_disk s v c" and mm: "areas mm xs" "u \<in> set xs" "vma_has mm a u" "pgdir mm = pd"
    and v: "v = ROUNDDOWN a PGSIZE" and user: "user_half (indices v)"
  obtains q s' T' F' A' where
    "do_pgfault alloc_page_swapping mm a n s = Some (0, cached (Some u) mm, n + 1, s')"
    and "mm_inv s' pd T' F' A'" and "pte_at s' T' = (pte_at s T)(indices v := new_pte q (fault_perm (vmas mm u)))"
    and "\<And>l. l < 512 \<Longrightarrow> content s' q l = c l"
    and "\<And>r l. r \<in> A - ran T \<Longrightarrow> l < 512 \<Longrightarrow> content s' r l = content s r l"
    and "klist (pra s') PraHead (map PraLink (ps @ [q]))" and "npage s' = npage s" and "page_ok (npage s) q"
    and "tlb s' (PPN v) = None"
proof -
  note i = swap_inv_parts [OF inv]
  note vs = mm_invD(1) [OF i(1)]
  obtain x y k where ix: "indices v = (x, y, k)" by (cases "indices v")
  have ne: "swap_entry v \<noteq> 0" by (rule swap_entry_nonzero [OF i(2) off])
  have k: "k < 512" using ix index_less [of v] by (auto simp: indices_def)
  obtain t where t: "T (Tab x y) = Some t" using pte ix ne by (auto split: option.splits)
  have e: "kmem s (pword t k) = swap_entry v" using pte t k ix by simp
  have sw: "swap_init_ok s \<longrightarrow> 2 \<le> card F" using fr by simp
  have get: "get_pte alloc_page_swapping pd v True s = Some (Some (pword t k), s)"
    using swap_supply.get_pte_spec [OF vs sw ix] t fr by (fastforce split: option.splits)
  have "F \<noteq> {}" using fr by auto
  from swap_supply.swap_in_spec [OF i(1) this i(2) off pte c i(6)] obtain q s1 where
    q: "swap_in alloc_page_swapping pd v s = Some (0, q, s1)" "q \<in> F" "mm_inv s1 pd T (F - {q}) (insert q A)"
      "pte_at s1 T = pte_at s T" "\<And>l. l < 512 \<Longrightarrow> content s1 q l = c l"
      "\<And>r l. r \<in> F \<union> A - {q} \<Longrightarrow> l < 512 \<Longrightarrow> content s1 r l = content s r l" "same_rest s s1" by metis
  have fr1: "frames s F A" "ran T \<subseteq> A" using vs by (simp_all add: vspace_def)
  have qT: "q \<in> insert q A - ran T" "q \<notin> A" using q(2) fr1 by (auto simp: frames_def)
  have "card (F - {q}) \<ge> 2" using fr q(2) by simp
  then have sw1: "swap_init_ok s1 \<longrightarrow> 2 \<le> card (F - {q})" by simp
  have nv: "pte_valid (pte_at s1 T (indices v)) \<longrightarrow> top_free (F - {q}) (insert q A)"
    using pte q(4) swap_entry_invalid by simp
  from swap_supply.page_insert_inv [OF q(3) qT(1) fault_perm_bound [of "vmas mm u"] sw1 nv user] \<open>card (F - {q}) \<ge> 2\<close>
  obtain s2 T' F' A' where
    ins: "page_insert alloc_page_swapping pd q v (fault_perm (vmas mm u)) s1 = Some (0, s2)" "mm_inv s2 pd T' F' A'"
      "pte_at s2 T' = (pte_at s1 T)(indices v := new_pte q (fault_perm (vmas mm u)))" "npage s2 = npage s1"
      "tlb s2 = (tlb s1)(PPN v := None)" by (metis not_less)
  note data = swap_supply.page_insert_data [OF q(3) sw1 ins(1)]
  define s3 where "s3 = (fifo_map_swappable q s2)\<lparr>pra_vaddr := (pra_vaddr (fifo_map_swappable q s2))(q := v)\<rparr>"
  have k3: "kmem s3 = kmem s2" "npage s3 = npage s2" "pm s3 = pm s2" "tlb s3 = tlb s2"
    by (simp_all add: s3_def fifo_map_swappable_def)
  note i3 = mm_inv_words [OF ins(2) k3(2,3)]
  have pra2: "pra s2 = pra s" using same_restD(4) [OF q(7)] same_restD(4) [OF data(1)] by simp
  note rest = same_restD [OF q(7)]
  have run: "do_pgfault alloc_page_swapping mm a n s = Some (0, cached (Some u) mm, n + 1, s3)"
  proof -
    have "\<not> a < vm_start (vmas mm u)" using mm(3) by (auto simp: vma_has_def)
    then show ?thesis
      using find_vma_area [OF mm(1-3)] get q(1) ins(1) ne e i(3) mm(4)
      by (simp add: do_pgfault_def Let_def v [symmetric] s3_def)
  qed
  show ?thesis
  proof (rule that [OF run])
    show "mm_inv s3 pd T' F' A'" using i3(1) k3(1) by simp
    have "pte_at s3 T' = pte_at s2 T'" using i3(2) k3(1) by simp
    then show "pte_at s3 T' = (pte_at s T)(indices v := new_pte q (fault_perm (vmas mm u)))"
      using ins(3) q(4) by simp
    show "content s3 q l = c l" if "l < 512" for l
      using data(2) [OF qT(1) that] q(5) [OF that] k3(1) by (simp add: content_def)
    show "content s3 r l = content s r l" if "r \<in> A - ran T" "l < 512" for r l
      using data(2) [of r l] q(6) [of r l] that qT(2) k3(1) by (auto simp: content_def)
    have "q \<notin> set ps" using i(5) qT(2) by auto
    then show "klist (pra s3) PraHead (map PraLink (ps @ [q]))"
      using list_add_tail_klist [OF i(4), of "PraLink q"] pra2 by (auto simp: s3_def fifo_map_swappable_def)
    show "npage s3 = npage s" using k3(2) ins(4) rest(1) by simp
    show "page_ok (npage s) q" using frames_page_ok [OF fr1(1)] q(2) by blast
    show "tlb s3 (PPN v) = None" using ins(5) k3(4) by simp
  qed
qed

section \<open>Properties\<close>

text \<open>
  C37: A page on its way out and back: when swapping works, two pages are free and one free page lies
  above the address space's own (top_free, part of swap_inv), swap_out evicts the oldest page of the
  list to the slot of its address, which the program then cannot read. A fault at any address of that
  page, in an area of the process, returns 0; when the area is writable the program then reads the
  words the page held when it was evicted, and at all other pages it sees what it saw. In an area
  without VM_WRITE the page is mapped again but cannot be read: do_pgfault gives it PTE_U only. The
  page that came back is the youngest of the list, and no stale translation of the address is left.
\<close>

theorem page_fault_restores:
  fixes a :: u64
  assumes "swap_inv s (pgdir mm) T F A (p # ps)" and "2 \<le> card F" and "areas mm xs" and "u \<in> set xs"
    and "vma_has mm a u" and "pra_vaddr s p = ROUNDDOWN a PGSIZE"
  shows "\<exists>s1 s2 q T' F' A'. swap_out (pgdir mm) 1 False s = Some s1 \<and> view s1 T (indices (pra_vaddr s p)) l = None \<and>
    do_pgfault alloc_page_swapping mm a n s1 = Some (0, cached (Some u) mm, n + 1, s2) \<and>
    mm_inv s2 (pgdir mm) T' F' A' \<and>
    (\<forall>x. \<forall>l < 512. view s2 T' x l =
       (if x \<noteq> indices (pra_vaddr s p) then view s T x l
        else if vm_flags (vmas mm u) AND VM_WRITE \<noteq> 0 then Some (content s p l) else None)) \<and>
    (user_readable (pte_at s T (indices (pra_vaddr s p))) \<longrightarrow>
       view s T (indices (pra_vaddr s p)) l = Some (content s p l)) \<and>
    pte_at s2 T' (indices (pra_vaddr s p)) = new_pte q (fault_perm (vmas mm u)) \<and>
    klist (pra s2) PraHead (map PraLink (ps @ [q])) \<and> tlb s2 (PPN (pra_vaddr s p)) = None"
proof -
  let ?v = "pra_vaddr s p"
  let ?pd = "pgdir mm"
  note i = swap_inv_parts [OF assms(1)]
  have off: "slot_off ?v < max_swap_offset s" and one: "mapped s T p = {indices ?v}"
    using assms(1) by (simp_all add: swap_inv_def)
  have p: "p \<in> A - ran T" using i(5) by simp
  have fr: "frames s F A" using mm_invD(1) [OF i(1)] by (simp add: vspace_def)
  have pF: "p \<notin> F" and fin: "finite F" using p fr frames_finite [OF fr] by (auto simp: frames_def)
  from swap_out_keeps [OF assms(1)] obtain s1 where
    s1: "swap_out ?pd 1 False s = Some s1" "swap_inv s1 ?pd T (insert p F) (A - {p}) ps"
      "pte_at s1 T = (pte_at s T)(indices ?v := swap_entry ?v)" "on_disk s1 ?v (content s p)"
      "\<And>q l. q \<in> F \<union> A - ran T \<Longrightarrow> l < 512 \<Longrightarrow> content s1 q l = content s q l"
      "same_rest (s\<lparr>pra := pra s1\<rparr>) s1" by metis
  note rest = same_restD [OF s1(6)]
  have c3: "3 \<le> card (insert p F)" using pF fin assms(2) by simp
  have off1: "slot_off ?v < max_swap_offset s1" using off rest(7) by simp
  have pte1: "pte_at s1 T (indices ?v) = swap_entry ?v" using s1(3) by simp
  have "indices ?v \<in> mapped s T p" using one by simp
  note home = mappedD [OF this]
  from fault_swaps_in [OF s1(2) c3 off1 pte1 s1(4) assms(3-5) refl assms(6) home(2), of n] obtain q s2 T' F' A' where
    s2: "do_pgfault alloc_page_swapping mm a n s1 = Some (0, cached (Some u) mm, n + 1, s2)" "mm_inv s2 ?pd T' F' A'"
      "pte_at s2 T' = (pte_at s1 T)(indices ?v := new_pte q (fault_perm (vmas mm u)))"
      "\<And>l. l < 512 \<Longrightarrow> content s2 q l = content s p l"
      "\<And>r l. r \<in> A - {p} - ran T \<Longrightarrow> l < 512 \<Longrightarrow> content s2 r l = content s1 r l"
      "klist (pra s2) PraHead (map PraLink (ps @ [q]))" "npage s2 = npage s1" "page_ok (npage s1) q"
      "tlb s2 (PPN ?v) = None" by metis
  have n: "npage s2 = npage s" "npage s1 = npage s" using s2(7) rest(1) by simp_all
  have there: "view s2 T' (indices ?v) l =
      (if vm_flags (vmas mm u) AND VM_WRITE \<noteq> 0 then Some (content s p l) else None)" if l: "l < 512" for l
  proof -
    have e: "pte_at s2 T' (indices ?v) = new_pte q (fault_perm (vmas mm u))" using s2(3) by simp
    then have "leads (npage s2) (pte_at s2 T' (indices ?v)) q"
      using s2(8) n leads_new_pte [OF _ fault_perm_bound] by simp
    then show ?thesis
      using view_leads [OF _ home(2)] e readable_fault [of q "vmas mm u"] s2(4) [OF l] by (simp add: view_def)
  qed
  have other: "view s2 T' x l = view s T x l" if x: "x \<noteq> indices ?v" and l: "l < 512" for x l
  proof -
    have pte: "pte_at s2 T' x = pte_at s T x" using x s2(3) s1(3) by simp
    show ?thesis
    proof (cases "user_half x \<and> user_readable (pte_at s T x)")
      case True
      then have u: "user_half x" "user_readable (pte_at s T x)" by blast+
      from mm_invD(2) [OF i(1) readable_valid [OF u(2)] u(1)] obtain r where
        r: "r \<in> A - ran T" "leads (npage s) (pte_at s T x) r" by blast
      have "r \<noteq> p"
      proof
        assume "r = p"
        then have "x \<in> mapped s T p" using r(2) u(1) by (simp add: mapped_def)
        then show False using one x by simp
      qed
      then have "content s2 r l = content s r l" using s2(5) [of r l] s1(5) [of r l] r(1) l by simp
      then show ?thesis using view_leads [OF r(2) u] view_leads [of s2 T' x r] r(2) u pte n by simp
    qed (auto simp: view_def pte)
  qed
  have "\<not> user_readable (swap_entry ?v)" using readable_valid swap_entry_invalid by blast
  then have "view s1 T (indices ?v) l = None" using pte1 by (simp add: view_def)
  moreover have "user_readable (pte_at s T (indices ?v)) \<longrightarrow> view s T (indices ?v) l = Some (content s p l)"
    using view_leads [OF home] by blast
  moreover have "pte_at s2 T' (indices ?v) = new_pte q (fault_perm (vmas mm u))" using s2(3) by simp
  moreover have "\<forall>x. \<forall>l < 512. view s2 T' x l = (if x \<noteq> indices ?v then view s T x l
      else if vm_flags (vmas mm u) AND VM_WRITE \<noteq> 0 then Some (content s p l) else None)"
    using there other by simp
  ultimately show ?thesis using s1(1) s2(1,2,6,9) by blast
qed

text \<open>A swap disk of 4096 slots, and the page 3 of the example mapped at \<open>0x801000\<close> and on the list.\<close>

definition ex_swap :: vmem where
  "ex_swap = (page_ref_inc 3 (store (pword 2 1) (new_pte 3 0x17) ex_vm))\<lparr>swap_init_ok := True,
     pra := list_add_before PraHead (PraLink 3) (list_init PraHead \<lparr>l_prev = id, l_next = id\<rparr>), pra_vaddr := (\<lambda>_. 0x801000),
     swap_dev := \<lparr>dev_valid = True, dev_size = 0x8000, iobase = 0\<rparr>, max_swap_offset := 0x1000\<rparr>"

lemma ex_vm_refs: "q < 9 \<Longrightarrow> page_ref q ex_vm = 0"
proof -
  assume q: "q < 9"
  from default_free_pages_inv [OF ex_pmm_inv, of 3 6] ex_pmm_taken obtain m where
    m: "default_free_pages 6 3 ex_pmm = Some m" by (auto simp: linkable_def)
  show ?thesis
    using ex_vm_ref [of q] default_free_pages_ref [OF m, of q] q m
    by (cases "q < 6") (simp_all add: page_ref_def ex_vm_fields ex_tables_vm_def)
qed

lemma ex_swap_fields [simp]:
  "kmem ex_swap = (kmem ex_vm)(pword 2 1 := new_pte 3 0x17)" "npage ex_swap = 0x88000"
  "pm ex_swap = pm (page_ref_inc 3 ex_vm)" "swap_init_ok ex_swap" "pra_vaddr ex_swap = (\<lambda>_. 0x801000)"
  "max_swap_offset ex_swap = 0x1000" "swap_dev ex_swap = \<lparr>dev_valid = True, dev_size = 0x8000, iobase = 0\<rparr>"
  by (simp_all add: ex_swap_def page_ref_inc_def upd_pm_def store_def page_ref_def) (simp add: ex_vm_fields)

lemma ex_swap_inv: "swap_inv ex_swap (pkva 0) ex_tables {6..<9} {0..<6} [3]"
proof -
  let ?s = "page_ref_inc 3 (store (pword 2 1) (new_pte 3 0x17) ex_vm)"
  have np: "npage ex_vm = 0x88000" by (simp add: ex_vm_fields)
  have t: "ex_tables (Tab 0 4) = Some 2" by (simp add: ex_tables_def)
  note leaf = store_leaf [OF mm_invD(1) [OF ex_vm_inv] t, of 1 "new_pte 3 0x17"]
  have pte: "pte_at ?s ex_tables = (pte_at ex_vm ex_tables)((0, 4, 1) := new_pte 3 0x17)"
    using leaf(2) pte_at_kmem [of ?s "store (pword 2 1) (new_pte 3 0x17) ex_vm"] by simp
  have user: "pte_at ?s ex_tables x = (if x = (0, 4, 1) then new_pte 3 0x17 else 0)" if "user_half x" for x
    unfolding pte fun_upd_apply using ex_vm_empty [OF that] by simp
  have lead: "leads 0x88000 (new_pte 3 0x17) p \<longleftrightarrow> p = 3" for p
    by (rule leads_new_pte) (simp_all add: ex_vm_ok)
  have map: "mapped ?s ex_tables p = (if p = 3 then {(0, 4, 1)} else {})" for p
  proof -
    have "x \<in> mapped ?s ex_tables p \<longleftrightarrow> x = (0, 4, 1) \<and> p = 3" for x
    proof (cases "user_half x")
      case True
      then show ?thesis unfolding mapped_def mem_Collect_eq user [OF True] using lead by (simp add: np)
    qed (auto simp: mapped_def)
    then show ?thesis by auto
  qed
  have "vspace ?s (pkva 0) ex_tables {6..<9} {0..<6}" using leaf(1) by simp
  moreover have "\<exists>p \<in> {0..<6} - ran ex_tables. leads (npage ?s) (pte_at ?s ex_tables x) p"
    if "user_half x" "pte_valid (pte_at ?s ex_tables x)" for x
  proof -
    have "x = (0, 4, 1)" using that(2) unfolding user [OF that(1)] by (simp split: if_splits)
    then show ?thesis unfolding pte by (intro bexI [of _ 3]) (simp_all add: np lead ex_tables_ran)
  qed
  moreover have "page_ref p ?s = int (card (mapped ?s ex_tables p))" if "p \<in> {0..<6} - ran ex_tables" for p
  proof -
    have "p = 3" using that by (auto simp: ex_tables_ran)
    then show ?thesis using ex_vm_refs [of 3] map [of 3] by simp
  qed
  ultimately have inv: "mm_inv ?s (pkva 0) ex_tables {6..<9} {0..<6}" unfolding mm_inv_def by blast
  have sw: "kmem ex_swap = kmem ?s" "npage ex_swap = npage ?s" "pm ex_swap = pm ?s"
    by (simp_all add: ex_swap_def)
  have inv': "mm_inv ex_swap (pkva 0) ex_tables {6..<9} {0..<6}" "pte_at ex_swap ex_tables = pte_at ?s ex_tables"
    using mm_inv_words [OF inv sw(2,3)] sw(1) by simp_all
  have apart: "unat (pword q l) \<ge> 2 ^ 24" if "q < 9" "l < 512" for q l
    using unat_pword [OF ex_vm_ok [OF that(1)] that(2)] by simp
  show ?thesis
    unfolding swap_inv_def
  proof (intro conjI)
    show "disk_ok ex_swap ({6..<9} \<union> {0..<6})"
      using apart by (force simp: disk_ok_def)
    show "klist (pra ex_swap) PraHead (map PraLink [3])"
      by (simp add: ex_swap_def klist_def list_op_defs)
    have "mapped ex_swap ex_tables 3 = {(0, 4, 1)}" using map inv'(2) sw(2) by (simp add: mapped_def)
    then show "\<forall>p \<in> set [3]. mapped ex_swap ex_tables p = {indices (pra_vaddr ex_swap p)} \<and>
        slot_off (pra_vaddr ex_swap p) < max_swap_offset ex_swap"
      by (simp add: indices_def unat_fields slot_off_def PGSIZE_def)
    have "page_ref q ex_swap = page_ref q ?s" for q using sw(3) by (simp add: page_ref_def)
    then show "\<forall>q \<in> {6..<9}. page_ref q ex_swap = 0" using ex_vm_refs by simp
  qed (use inv'(1) in \<open>auto simp: top_free_def ex_tables_ran\<close>)
qed

definition ex_mm1 :: mm_struct where
  "ex_mm1 = \<lparr>mmap = list_add_after MmapList (VLink 1) (list_init MmapList \<lparr>l_prev = id, l_next = id\<rparr>),
     vmas = (\<lambda>_. \<lparr>vm_start = 0x800000, vm_end = 0x900000, vm_flags = 3\<rparr>),
     mmap_cache = None, pgdir = pkva 0, map_count = 1, mm_count = 1\<rparr>"

lemma ex_mm1_areas: "areas ex_mm1 [1]" "vma_has ex_mm1 0x801234 1"
  by (simp_all add: areas_def ex_mm1_def klist_def list_op_defs USER_ACCESS_def USERBASE_def USERTOP_def vma_has_def)

theorem page_fault_restores_witness:
  "\<exists>s1 s2 mm. swap_out (pkva 0) 1 False ex_swap = Some s1 \<and> view s1 ex_tables (0, 4, 1) 0 = None \<and>
     do_pgfault alloc_page_swapping ex_mm1 0x801234 0 s1 = Some (0, mm, 1, s2) \<and>
     (\<exists>T. view s2 T (0, 4, 1) 0 = Some (content ex_swap 3 0))"
proof -
  have pd: "pgdir ex_mm1 = pkva 0" by (simp add: ex_mm1_def)
  have ix: "indices 0x801000 = (0, 4, 1)" by (simp add: indices_def unat_fields)
  have w: "vm_flags (vmas ex_mm1 1) AND VM_WRITE \<noteq> 0" by (simp add: ex_mm1_def VM_WRITE_def)
  have "pra_vaddr ex_swap 3 = ROUNDDOWN 0x801234 PGSIZE" "1 \<in> set [1 :: nat]" "2 \<le> card {6..<9 :: nat}"
    by (simp_all add: ROUNDDOWN_def PGSIZE_def)
  from page_fault_restores [OF ex_swap_inv [folded pd] this(3) ex_mm1_areas(1) this(2) ex_mm1_areas(2) this(1), of 0 0, unfolded pd]
  obtain s1 s2 T' where s: "swap_out (pkva 0) 1 False ex_swap = Some s1" "view s1 ex_tables (indices 0x801000) 0 = None"
      "do_pgfault alloc_page_swapping ex_mm1 0x801234 0 s1 = Some (0, cached (Some 1) ex_mm1, 0 + 1, s2)"
      "\<forall>x. \<forall>l < 512. view s2 T' x l = (if x \<noteq> indices 0x801000 then view ex_swap ex_tables x l
         else if vm_flags (vmas ex_mm1 1) AND VM_WRITE \<noteq> 0 then Some (content ex_swap 3 l) else None)"
    unfolding ex_swap_fields by blast
  have "view s2 T' (0, 4, 1) 0 = Some (content ex_swap 3 0)"
    using s(4) [rule_format, of 0 "(0, 4, 1)"] w ix by simp
  then show ?thesis using s(1-3) ix by auto
qed

end
