(* ===== verification/Printf.thy ===== *)
theory Printf
  imports C_String
begin

text \<open>
  Formatted output, \<^verbatim>\<open>libs/printfmt.c\<close>, and the random numbers of \<^verbatim>\<open>libs/rand.c\<close>. What
  \<^verbatim>\<open>putch\<close> is called with is collected in a string. The variable argument list is a list of
  64-bit words and of strings (\<open>None\<close> is \<^verbatim>\<open>NULL\<close>); reading an argument of the wrong kind, or
  one too many, is undefined in C and \<open>None\<close> here. The counters \<^verbatim>\<open>width\<close> and
  \<^verbatim>\<open>precision\<close> are integers without bound.
\<close>

section \<open>Numbers\<close>

definition digit_char :: "nat \<Rightarrow> char" where
  "digit_char d = ''0123456789abcdef'' ! d"

partial_function (option) printnum :: "nat \<Rightarrow> nat \<Rightarrow> int \<Rightarrow> char \<Rightarrow> string option" where
  "printnum num base width padc =
     (let result = num div base; m = num mod base in
      if num \<ge> base
      then do { out \<leftarrow> printnum result base (width - 1) padc; Some (out @ [digit_char m]) }
      else Some (replicate (nat (width - 1)) padc @ [digit_char m]))"

declare printnum.simps [code]

section \<open>The conversion specifications of vprintfmt\<close>

datatype parg = PInt u64 | PStr "string option"

record fspec =
  f_padc :: char
  f_width :: int
  f_precision :: int
  f_lflag :: int
  f_altflag :: bool

definition fspec0 :: fspec where
  "fspec0 = \<lparr>f_padc = CHR '' '', f_width = -1, f_precision = -1, f_lflag = 0, f_altflag = False\<rparr>"

definition is_digit :: "char \<Rightarrow> bool" where
  "is_digit c \<longleftrightarrow> CHR ''0'' \<le> c \<and> c \<le> CHR ''9''"

fun number_field :: "int \<Rightarrow> string \<Rightarrow> int \<times> string" where
  "number_field n [] = (n, [])"
| "number_field n (c # cs) =
     (if is_digit c then number_field (n * 10 + (of_char c - of_char CHR ''0'')) cs else (n, c # cs))"

lemma number_field_length: "length (snd (number_field n cs)) \<le> length cs"
  by (induction n cs rule: number_field.induct) (auto simp: Let_def)

definition process_precision :: "int \<Rightarrow> fspec \<Rightarrow> fspec" where
  "process_precision p f =
     (if f_width f < 0 then f\<lparr>f_width := p, f_precision := -1\<rparr> else f\<lparr>f_precision := p\<rparr>)"

text \<open>
  The \<^verbatim>\<open>reswitch\<close> loop: it reads flags until the character of the conversion, which it returns
  with the rest of the format. The terminating zero is read at the end of the list.
\<close>

function reswitch :: "string \<Rightarrow> fspec \<Rightarrow> parg list \<Rightarrow> (char \<times> string \<times> fspec \<times> parg list) option" where
  "reswitch [] f args = Some (NUL, [], f, args)"
| "reswitch (c # cs) f args =
     (if c = CHR ''-'' then reswitch cs (f\<lparr>f_padc := CHR ''-''\<rparr>) args
      else if c = CHR ''0'' then reswitch cs (f\<lparr>f_padc := CHR ''0''\<rparr>) args
      else if is_digit c
        then reswitch (snd (number_field 0 (c # cs))) (process_precision (fst (number_field 0 (c # cs))) f) args
      else if c = CHR ''*''
        then (case args of PInt v # args \<Rightarrow> reswitch cs (process_precision (sint (ucast v :: u32)) f) args
              | _ \<Rightarrow> None)
      else if c = CHR ''.'' then reswitch cs (if f_width f < 0 then f\<lparr>f_width := 0\<rparr> else f) args
      else if c = CHR ''#'' then reswitch cs (f\<lparr>f_altflag := True\<rparr>) args
      else if c = CHR ''l'' then reswitch cs (f\<lparr>f_lflag := f_lflag f + 1\<rparr>) args
      else Some (c, cs, f, args))"
  by pat_completeness auto
termination
proof (relation "measure (\<lambda>(cs, f, args). length cs)", goal_cases)
  case (4 c cs f args)
  then have "length (snd (number_field 0 (c # cs))) \<le> length cs"
    using number_field_length [of _ cs] by simp
  then show ?case by simp
qed auto

lemma reswitch_length: "reswitch cs f args = Some (c, cs', f', args') \<Longrightarrow> length cs' \<le> length cs"
proof (induction cs f args rule: reswitch.induct)
  case (2 c cs f args)
  have "length (snd (number_field 0 (c # cs))) \<le> length (c # cs)"
    by (rule number_field_length)
  with 2 show ?case
    by (auto split: if_splits list.splits parg.splits simp del: number_field.simps)
qed simp

text \<open>\<^verbatim>\<open>getuint\<close> and \<^verbatim>\<open>getint\<close>: the \<^verbatim>\<open>l\<close> flag tells the width of the argument.\<close>

definition getuint :: "u64 \<Rightarrow> int \<Rightarrow> nat" where
  "getuint v lflag = (if lflag \<ge> 2 then unat v else if lflag \<noteq> 0 then unat v else unat (ucast v :: u32))"

definition getint :: "u64 \<Rightarrow> int \<Rightarrow> int" where
  "getint v lflag = (if lflag \<ge> 2 then sint v else if lflag \<noteq> 0 then sint v else sint (ucast v :: u32))"

definition error_string :: "int \<Rightarrow> string option" where
  "error_string err = map_of
     [(E_UNSPECIFIED, ''unspecified error''), (E_BAD_PROC, ''bad process''), (E_INVAL, ''invalid parameter''),
      (E_NO_MEM, ''out of memory''), (E_NO_FREE_PROC, ''out of processes''), (E_FAULT, ''segmentation fault''),
      (E_INVAL_ELF, ''invalid elf file''), (E_KILLED, ''process is killed''), (E_PANIC, ''panic failure''),
      (E_NO_DEV, ''no such device''), (E_NA_DEV, ''device not available''), (E_BUSY, ''device/file is busy''),
      (E_NOENT, ''no such file or directory''), (E_ISDIR, ''is a directory''), (E_NOTDIR, ''not a directory''),
      (E_XDEV, ''cross device link''), (E_UNIMP, ''unimplemented feature''), (E_SEEK, ''illegal seek''),
      (E_MAX_OPEN, ''too many files are open''), (E_EXISTS, ''file or directory already exists''),
      (E_NOTEMPTY, ''directory is not empty'')] err"

definition print_signed :: "int \<Rightarrow> fspec \<Rightarrow> string option" where
  "print_signed num f =
     (if num < 0 then map_option (\<lambda>s. CHR ''-'' # s) (printnum (nat (- num)) 10 (f_width f) (f_padc f))
      else printnum (nat num) 10 (f_width f) (f_padc f))"

definition print_error :: "int \<Rightarrow> string option" where
  "print_error err =
     (let err = (if err < 0 then - err else err) in
      case (if err > MAXERROR then None else error_string err) of
        None \<Rightarrow> map_option (\<lambda>s. ''error '' @ s) (print_signed err fspec0)
      | Some p \<Rightarrow> Some p)"

definition print_string :: "string option \<Rightarrow> fspec \<Rightarrow> string" where
  "print_string p f =
     (let s = (case p of None \<Rightarrow> ''(null)'' | Some s \<Rightarrow> s);
          n = (if f_precision f < 0 then length s else min (nat (f_precision f)) (length s));
          left = f_width f > 0 \<and> f_padc f \<noteq> CHR ''-'';
          w = (if left then f_width f - int n else f_width f);
          out = (if f_precision f < 0 then s else take (nat (f_precision f)) s);
          w' = (if left then min w 0 else w) - int (length out)
      in (if left then replicate (nat w) (f_padc f) else []) @
         map (\<lambda>c. if f_altflag f \<and> (c < CHR '' '' \<or> c > CHR ''~'') then CHR ''?'' else c) out @
         replicate (nat w') (CHR '' ''))"

text \<open>One conversion; \<open>None\<close> in the inner option is the \<^verbatim>\<open>default\<close> branch.\<close>

definition convert :: "char \<Rightarrow> fspec \<Rightarrow> parg list \<Rightarrow> (string \<times> parg list) option option" where
  "convert c f args =
     (let int_arg = (\<lambda>g. case args of PInt v # args \<Rightarrow> Some (map_option (\<lambda>s. (s, args)) (g v)) | _ \<Rightarrow> Some None) in
      if c = CHR ''c'' then int_arg (\<lambda>v. Some [char_of (unat v)])
      else if c = CHR ''e'' then int_arg (\<lambda>v. print_error (sint (ucast v :: u32)))
      else if c = CHR ''s''
        then (case args of PStr p # args \<Rightarrow> Some (Some (print_string p f, args)) | _ \<Rightarrow> Some None)
      else if c = CHR ''d'' then int_arg (\<lambda>v. print_signed (getint v (f_lflag f)) f)
      else if c = CHR ''u'' then int_arg (\<lambda>v. printnum (getuint v (f_lflag f)) 10 (f_width f) (f_padc f))
      else if c = CHR ''o'' then int_arg (\<lambda>v. printnum (getuint v (f_lflag f)) 8 (f_width f) (f_padc f))
      else if c = CHR ''p''
        then int_arg (\<lambda>v. map_option (\<lambda>s. ''0x'' @ s) (printnum (unat v) 16 (f_width f) (f_padc f)))
      else if c = CHR ''x'' then int_arg (\<lambda>v. printnum (getuint v (f_lflag f)) 16 (f_width f) (f_padc f))
      else if c = CHR ''%'' then Some (Some (''%'', args))
      else None)"

function vprintfmt :: "string \<Rightarrow> parg list \<Rightarrow> string option" where
  "vprintfmt [] args = Some []"
| "vprintfmt (c # cs) args =
     (if c \<noteq> CHR ''%'' then map_option (\<lambda>t. c # t) (vprintfmt cs args)
      else case reswitch cs fspec0 args of None \<Rightarrow> None
        | Some (ch, rest, f, args) \<Rightarrow>
            (case convert ch f args of
               None \<Rightarrow> map_option (\<lambda>t. CHR ''%'' # t) (vprintfmt cs args)
             | Some None \<Rightarrow> None
             | Some (Some (out, args)) \<Rightarrow> map_option (\<lambda>t. out @ t) (vprintfmt rest args)))"
  by pat_completeness auto
termination
  by (relation "measure (\<lambda>(cs, args). length cs)") (auto dest: reswitch_length)

section \<open>Printing into a buffer\<close>

record sprintbuf =
  sb_buf :: nat
  sb_ebuf :: nat
  sb_cnt :: int

definition sprintputch :: "char \<Rightarrow> sprintbuf \<times> mem \<Rightarrow> sprintbuf \<times> mem" where
  "sprintputch ch st =
     (let b = (fst st)\<lparr>sb_cnt := sb_cnt (fst st) + 1\<rparr>; m = snd st in
      if sb_buf b < sb_ebuf b then (b\<lparr>sb_buf := sb_buf b + 1\<rparr>, m(sb_buf b := ch)) else (b, m))"

text \<open>
  \<^verbatim>\<open>ebuf\<close> is \<^verbatim>\<open>str + size - 1\<close>; for \<^verbatim>\<open>size\<close> 0 it lies below \<^verbatim>\<open>str\<close>, which the
  function tests.
\<close>

definition vsnprintf :: "nat option \<Rightarrow> nat \<Rightarrow> string \<Rightarrow> parg list \<Rightarrow> mem \<Rightarrow> (int \<times> mem) option" where
  "vsnprintf str sz fmt args m =
     (case str of None \<Rightarrow> Some (- E_INVAL, m)
      | Some p \<Rightarrow>
          if sz = 0 then Some (- E_INVAL, m)
          else do {
            out \<leftarrow> vprintfmt fmt args;
            let (b, m) = fold sprintputch out (\<lparr>sb_buf = p, sb_ebuf = p + sz - 1, sb_cnt = 0\<rparr>, m);
            Some (sb_cnt b, m(sb_buf b := NUL)) })"

definition snprintf :: "nat option \<Rightarrow> nat \<Rightarrow> string \<Rightarrow> parg list \<Rightarrow> mem \<Rightarrow> (int \<times> mem) option" where
  "snprintf str sz fmt args m = vsnprintf str sz fmt args m"

section \<open>Random numbers (libs/rand.c)\<close>

text \<open>\<^verbatim>\<open>RAND_MAX\<close> is 2147483647; \<^verbatim>\<open>do_div\<close> divides by an \<^verbatim>\<open>unsigned\<close> and stores in an \<^verbatim>\<open>int\<close>.\<close>

definition RAND_MAX :: u64 where "RAND_MAX = 2147483647"

definition rand :: "u64 \<Rightarrow> int \<times> u64" where
  "rand nxt =
     (let nxt = (nxt * 0x5DEECE66D + 0xB) AND (push_bit 48 1 - 1);
          result = drop_bit 12 nxt
      in (sint (ucast (result mod ucast (ucast (RAND_MAX + 1) :: u32)) :: s32), nxt))"

definition srand :: "u32 \<Rightarrow> u64" where
  "srand seed = ucast seed"

section \<open>The digits of a number\<close>

fun digits :: "nat \<Rightarrow> nat \<Rightarrow> string" where
  "digits base num =
     (if base < 2 \<or> num < base then [digit_char num]
      else digits base (num div base) @ [digit_char (num mod base)])"

declare digits.simps [simp del]

lemma printnum_spec:
  assumes "2 \<le> base"
  shows "printnum num base width padc =
    Some (replicate (nat (width - int (length (digits base num)))) padc @ digits base num)"
  using assms
proof (induction base num arbitrary: width rule: digits.induct)
  case (1 base num)
  show ?case
  proof (cases "num < base")
    case True
    with 1(2) show ?thesis
      by (subst printnum.simps, subst (1 2) digits.simps) (simp add: Let_def)
  next
    case False
    with 1 have IH: "printnum (num div base) base (width - 1) padc =
      Some (replicate (nat (width - 1 - int (length (digits base (num div base))))) padc @ digits base (num div base))"
      by simp
    from False 1(2) have d: "digits base num = digits base (num div base) @ [digit_char (num mod base)]"
      by (subst digits.simps) simp
    from False show ?thesis
      by (subst printnum.simps) (simp add: Let_def IH d algebra_simps)
  qed
qed

lemma digit_of_digit_char:
  assumes "d < 16"
  shows "digit_of (digit_char d) = Some (int d)"
proof -
  have "d \<in> {0, 1, 2, 3, 4, 5, 6, 7, 8, 9, 10, 11, 12, 13, 14, 15}"
    using assms unfolding insert_iff empty_iff by presburger
  then show ?thesis
    by (elim insertE emptyE) (simp_all add: digit_char_def digit_of_def less_eq_char_def)
qed

lemma digits_chars:
  assumes "2 \<le> base" "base \<le> 16"
  shows "\<forall>c \<in> set (digits base num). \<exists>d < base. c = digit_char d"
  using assms
proof (induction base num rule: digits.induct)
  case (1 base num)
  show ?case
  proof (cases "num < base")
    case True
    with 1(2) show ?thesis by (subst digits.simps) auto
  next
    case False
    with 1 have "\<forall>c \<in> set (digits base (num div base)). \<exists>d < base. c = digit_char d" by simp
    moreover have "\<exists>d < base. digit_char (num mod base) = digit_char d"
      using 1(2) by (intro exI [of _ "num mod base"]) simp
    ultimately show ?thesis using False 1(2) by (subst digits.simps) auto
  qed
qed

lemma digits_ne: "digits base num \<noteq> []"
  by (subst digits.simps) simp

section \<open>Reading back a printed number\<close>

lemma strtol_digits_read:
  assumes "2 \<le> base" "base \<le> 16"
  shows "(\<forall>i < length (digits base num). m (p + i) = digits base num ! i) \<Longrightarrow>
    strtol_digits m p (int base) v =
    strtol_digits m (p + length (digits base num)) (int base)
      (v * of_nat base ^ length (digits base num) + of_nat num)"
  using assms
proof (induction base num arbitrary: v rule: digits.induct)
  case (1 base num)
  have step: "strtol_digits m q (int base) w = strtol_digits m (q + 1) (int base) (w * of_nat base + of_nat d)"
    if "m q = digit_char d" "d < base" for q w d
    using that 1(3,4) by (subst strtol_digits.simps) (simp add: digit_of_digit_char)
  show ?case
  proof (cases "num < base")
    case True
    then have d: "digits base num = [digit_char num]" by (subst digits.simps) simp
    with 1(2) step [of p num v] True show ?thesis by simp
  next
    case False
    define ds where "ds = digits base (num div base)"
    from False 1(3) have d: "digits base num = ds @ [digit_char (num mod base)]"
      unfolding ds_def by (subst digits.simps) simp
    have ds: "\<forall>i < length ds. m (p + i) = ds ! i" and last: "m (p + length ds) = digit_char (num mod base)"
      using 1(2) unfolding d by (auto simp: nth_append)
    have IH: "strtol_digits m p (int base) v =
      strtol_digits m (p + length ds) (int base) (v * of_nat base ^ length ds + of_nat (num div base))"
      using 1(1) False 1(3,4) ds unfolding ds_def by simp
    also have "\<dots> = strtol_digits m (p + length ds + 1) (int base)
        ((v * of_nat base ^ length ds + of_nat (num div base)) * of_nat base + of_nat (num mod base))"
      by (rule step [OF last]) (use 1(3) in simp)
    also have "(v * of_nat base ^ length ds + of_nat (num div base)) * of_nat base + of_nat (num mod base) =
        v * of_nat base ^ length (digits base num) + (of_nat num :: u64)"
    proof -
      have "of_nat (num div base) * of_nat base + of_nat (num mod base) = (of_nat num :: u64)"
        by (metis of_nat_add of_nat_mult div_mult_mod_eq)
      then show ?thesis by (simp add: d algebra_simps)
    qed
    finally show ?thesis by (simp add: d)
  qed
qed

lemma digit_char_facts:
  assumes "d < 16"
  shows "digit_char d \<notin> {CHR '' '', CHR 0x09, CHR ''+'', CHR ''-'', CHR ''x'', NUL}"
proof -
  have "d \<in> {0, 1, 2, 3, 4, 5, 6, 7, 8, 9, 10, 11, 12, 13, 14, 15}"
    using assms unfolding insert_iff empty_iff by presburger
  then show ?thesis by (elim insertE emptyE) (simp_all add: digit_char_def)
qed

lemma strtol_digits_string:
  assumes "2 \<le> base" "base \<le> 16" and str: "cstring m p (digits base num)"
  shows "strtol m p (int base) = Some (of_nat num, p + length (digits base num))"
proof -
  let ?ds = "digits base num"
  have at: "m (p + i) = ?ds ! i" if "i < length ?ds" for i
    using str that by (simp add: cstring_nth)
  have fact: "m (p + i) \<notin> {CHR '' '', CHR 0x09, CHR ''+'', CHR ''-'', CHR ''x''}" if "i \<le> length ?ds" for i
  proof (cases "i = length ?ds")
    case True
    then show ?thesis using str by (simp add: cstring_nth)
  next
    case False
    with that have i: "i < length ?ds" by simp
    then have "?ds ! i \<in> set ?ds" by simp
    with digits_chars [OF assms(1,2)] obtain d where "d < base" "?ds ! i = digit_char d" by blast
    with digit_char_facts [of d] assms(2) at [OF i] show ?thesis by auto
  qed
  have pos: "0 < length ?ds" using digits_ne [of base num] by simp
  have skip: "skip_blanks m p = Some p"
    using fact [of 0] by (subst skip_blanks.simps) simp
  have sign: "strtol_sign m p = (p, False)"
    using fact [of 0] by (simp add: strtol_sign_def)
  have prefix: "strtol_prefix m p (int base) = (p, int base)"
    using fact [of 1] pos assms(1) by (simp add: strtol_prefix_def Suc_le_eq)
  have "strtol_digits m p (int base) 0 = strtol_digits m (p + length ?ds) (int base) (of_nat num)"
    using strtol_digits_read [OF assms(1,2), of num m p 0] at by simp
  moreover have "strtol_digits m (p + length ?ds) (int base) (of_nat num) = Some (p + length ?ds, of_nat num)"
  proof -
    have "m (p + length ?ds) = NUL" using str by (simp add: cstring_nth)
    then show ?thesis by (subst strtol_digits.simps) (simp add: digit_of_def less_eq_char_def)
  qed
  ultimately show ?thesis by (simp add: strtol_def skip sign prefix)
qed

section \<open>The buffer of snprintf\<close>

lemma fold_sprintputch:
  assumes "sb_buf b \<le> sb_ebuf b"
  shows "\<exists>b' m'. fold sprintputch out (b, m) = (b', m') \<and> sb_ebuf b' = sb_ebuf b \<and>
    sb_cnt b' = sb_cnt b + int (length out) \<and>
    sb_buf b' = min (sb_ebuf b) (sb_buf b + length out) \<and>
    (\<forall>i < sb_buf b' - sb_buf b. m' (sb_buf b + i) = out ! i) \<and>
    (\<forall>a. a < sb_buf b \<or> sb_buf b' \<le> a \<longrightarrow> m' a = m a)"
  using assms
proof (induction out arbitrary: b m)
  case Nil
  then show ?case by simp
next
  case (Cons c cs)
  obtain b1 m1 where s: "sprintputch c (b, m) = (b1, m1)" by fastforce
  show ?case
  proof (cases "sb_buf b < sb_ebuf b")
    case True
    with s have b1: "b1 = b\<lparr>sb_cnt := sb_cnt b + 1, sb_buf := sb_buf b + 1\<rparr>" "m1 = m(sb_buf b := c)"
      by (auto simp: sprintputch_def Let_def)
    then have le: "sb_buf b1 \<le> sb_ebuf b1" and b1s: "sb_buf b1 = sb_buf b + 1" "sb_ebuf b1 = sb_ebuf b"
      "sb_cnt b1 = sb_cnt b + 1" using True by auto
    from Cons.IH [OF le, of m1] obtain b' m' where
      r: "fold sprintputch cs (b1, m1) = (b', m')" "sb_ebuf b' = sb_ebuf b"
        "sb_cnt b' = sb_cnt b + 1 + int (length cs)" "sb_buf b' = min (sb_ebuf b) (sb_buf b + 1 + length cs)"
        "\<forall>i < sb_buf b' - (sb_buf b + 1). m' (sb_buf b + 1 + i) = cs ! i"
        "\<forall>a. a < sb_buf b + 1 \<or> sb_buf b' \<le> a \<longrightarrow> m' a = m1 a"
      unfolding b1s by blast
    have "m' (sb_buf b + i) = (c # cs) ! i" if "i < sb_buf b' - sb_buf b" for i
      using r(5,6) that b1(2) by (cases i) (auto simp: less_diff_conv)
    moreover have "m' a = m a" if "a < sb_buf b \<or> sb_buf b' \<le> a" for a
    proof -
      have "sb_buf b < sb_buf b'" using r(4) True by simp
      with that have "a \<noteq> sb_buf b" by auto
      moreover have "m' a = m1 a" using r(6) [rule_format, of a] that by auto
      ultimately show ?thesis by (simp add: b1(2))
    qed
    ultimately have "(\<forall>i < sb_buf b' - sb_buf b. m' (sb_buf b + i) = (c # cs) ! i) \<and>
      (\<forall>a. a < sb_buf b \<or> sb_buf b' \<le> a \<longrightarrow> m' a = m a)" by blast
    moreover have "fold sprintputch (c # cs) (b, m) = (b', m')" using s r(1) by simp
    ultimately show ?thesis
      using r(2-4) by (intro exI [of _ b'] exI [of _ m']) simp
  next
    case False
    with s have b1: "b1 = b\<lparr>sb_cnt := sb_cnt b + 1\<rparr>" "m1 = m"
      by (auto simp: sprintputch_def Let_def)
    with Cons.prems Cons.IH [of b1 m1] s False show ?thesis by auto
  qed
qed

lemma rand_range:
  "0 \<le> fst (rand nxt)" "fst (rand nxt) \<le> 2147483647"
proof -
  define r :: u64 where "r = drop_bit 12 ((nxt * 0x5DEECE66D + 0xB) AND (push_bit 48 1 - 1)) mod 2147483648"
  have "unat r < 2147483648" by (simp add: r_def unat_mod_distrib)
  then have r: "unat (ucast r :: s32) < 2147483648"
    by (simp add: unsigned_ucast_eq take_bit_nat_eq_self)
  have "fst (rand nxt) = sint (ucast r :: s32)"
    by (simp add: rand_def Let_def r_def RAND_MAX_def)
  moreover have "sint w = int (unat w)" if "unat w < 2147483648" for w :: s32
  proof -
    have e: "(2 :: int) ^ 31 = int 2147483648" by simp
    have u: "uint w < 2 ^ 31" unfolding uint_nat [of w] e of_nat_less_iff by (rule that)
    have "- (2 ^ 31) \<le> uint w" by (rule order_trans [OF _ uint_ge_0]) simp
    then have "signed_take_bit 31 (uint w) = uint w" using u by (rule signed_take_bit_int_eq_self)
    then show ?thesis by (simp add: sint_uint)
  qed
  ultimately have "fst (rand nxt) = int (unat (ucast r :: s32))" using r by simp
  with r show "0 \<le> fst (rand nxt)" "fst (rand nxt) \<le> 2147483647" by linarith+
qed

section \<open>Properties\<close>

text \<open>
  C29: printnum returns for every base from 2 to 16 with the digits of the number, padded on the left
  to the width, and strtol reads the digits back: it stores the end of the string and returns the
  number modulo 2^64.
\<close>

theorem strtol_printnum:
  assumes "2 \<le> base" "base \<le> 16" and "printnum num base 0 c = Some ds" and "cstring m p ds"
  shows "strtol m p (int base) = Some (of_nat num, p + length ds) \<and>
    printnum num base width padc = Some (replicate (nat (width - int (length ds))) padc @ ds)"
proof -
  have "ds = digits base num"
    using assms(3) printnum_spec [OF assms(1), of num 0 c] by simp
  with strtol_digits_string [OF assms(1,2), of m p num] assms(4) printnum_spec [OF assms(1)]
  show ?thesis by simp
qed

theorem strtol_printnum_witness:
  "strtol ((\<lambda>_. NUL)(3 := CHR ''f'', 4 := CHR ''f'')) 3 16 = Some (255, 5)"
proof -
  have p: "printnum 255 16 0 NUL = Some ''ff''" by code_simp
  have "cstring ((\<lambda>_. NUL)(3 := CHR ''f'', 4 := CHR ''f'')) 3 ''ff''" by simp
  from strtol_printnum [OF _ _ p this, of 0 NUL] show ?thesis by simp
qed

text \<open>
  C30: vsnprintf with a buffer of at least one byte writes only to the buffer, stores the longest
  prefix of the formatted text that fits, terminates it with a zero byte, and returns the length of
  the whole text; with an empty buffer or NULL it returns -E_INVAL and writes nothing.
\<close>

theorem vsnprintf_bounds:
  "(0 < sz \<longrightarrow> vprintfmt fmt args = Some out \<longrightarrow> NUL \<notin> set out \<longrightarrow>
     (\<exists>m'. vsnprintf (Some p) sz fmt args m = Some (int (length out), m') \<and>
       cstring m' p (take (sz - 1) out) \<and> (\<forall>a. a < p \<or> p + sz \<le> a \<longrightarrow> m' a = m a))) \<and>
   vsnprintf (Some p) 0 fmt args m = Some (- E_INVAL, m) \<and>
   vsnprintf None sz fmt args m = Some (- E_INVAL, m)"
proof (intro conjI impI)
  assume sz: "0 < sz" and out: "vprintfmt fmt args = Some out" "NUL \<notin> set out"
  let ?b = "\<lparr>sb_buf = p, sb_ebuf = p + sz - 1, sb_cnt = 0\<rparr>"
  have "sb_buf ?b \<le> sb_ebuf ?b" using sz by simp
  from fold_sprintputch [OF this, of out m] obtain b' m' where
    r: "fold sprintputch out (?b, m) = (b', m')" "sb_cnt b' = int (length out)"
      "sb_buf b' = min (p + sz - 1) (p + length out)" "\<forall>i < sb_buf b' - p. m' (p + i) = out ! i"
      "\<forall>a. a < p \<or> sb_buf b' \<le> a \<longrightarrow> m' a = m a"
    by auto
  define k where "k = min (sz - 1) (length out)"
  have k: "sb_buf b' = p + k" using r(3) sz by (auto simp: k_def min_def)
  let ?m = "m'(sb_buf b' := NUL)"
  have "cstring ?m p (take (sz - 1) out)"
    unfolding cstring_nth
  proof (intro conjI allI impI)
    fix i assume "i < length (take (sz - 1) out)"
    then have i: "i < k" "i < length out" "i < sz - 1" by (simp_all add: k_def)
    then have "out ! i \<noteq> NUL" using out(2) nth_mem by metis
    with i r(4) k show "?m (p + i) = take (sz - 1) out ! i" "take (sz - 1) out ! i \<noteq> NUL"
      by simp_all
  next
    show "?m (p + length (take (sz - 1) out)) = NUL" by (simp add: k k_def min.commute)
  qed
  moreover have "?m a = m a" if "a < p \<or> p + sz \<le> a" for a
  proof -
    have "k < sz" using sz by (simp add: k_def)
    with r(5) [rule_format, of a] that k show ?thesis by auto
  qed
  moreover have "vsnprintf (Some p) sz fmt args m = Some (int (length out), ?m)"
    using sz out(1) r(1,2) by (simp add: vsnprintf_def)
  ultimately show "\<exists>m'. vsnprintf (Some p) sz fmt args m = Some (int (length out), m') \<and>
      cstring m' p (take (sz - 1) out) \<and> (\<forall>a. a < p \<or> p + sz \<le> a \<longrightarrow> m' a = m a)"
    by blast
qed (simp_all add: vsnprintf_def)

theorem vsnprintf_bounds_witness:
  "\<exists>m'. vsnprintf (Some 0) 4 ''%d!'' [PInt (- 17)] (\<lambda>_. NUL) = Some (4, m') \<and> cstring m' 0 ''-17''"
proof -
  have "vprintfmt ''%d!'' [PInt (- 17)] = Some ''-17!''" by code_simp
  with vsnprintf_bounds [of 4 "''%d!''" "[PInt (- 17)]" "''-17!''" 0 "\<lambda>_. NUL"] show ?thesis
    by (auto simp del: vprintfmt.simps)
qed

text \<open>
  The flag that pads on the right does so for strings, but a number is padded on its left, with
  minus signs.
\<close>

lemma left_justified_number:
  "vprintfmt ''%-5s|'' [PStr (Some ''42'')] = Some ''42   |'' \<and>
   vprintfmt ''%-5d|'' [PInt 42] = Some ''---42|''"
  by (intro conjI) code_simp+

text \<open>rand returns a value between 0 and RAND_MAX, whatever the state of the generator.\<close>

lemma rand_in_range: "0 \<le> fst (rand nxt) \<and> fst (rand nxt) \<le> uint RAND_MAX"
  using rand_range [of nxt] by (simp add: RAND_MAX_def)

end
