(* ===== verification/Iobuf.thy ===== *)
theory Iobuf
  imports C_String
begin

text \<open>
  The transfer descriptor of the file system, \<^verbatim>\<open>kern/fs/iobuf.c\<close>: where in memory the next
  byte goes, the position in the file, and how much is left. Sizes and addresses are natural numbers.
\<close>

record iobuf =
  io_base :: nat
  io_offset :: int
  io_len :: nat
  io_resid :: nat

definition iobuf_used :: "iobuf \<Rightarrow> nat" where
  "iobuf_used iob = io_len iob - io_resid iob"

definition iobuf_init :: "nat \<Rightarrow> nat \<Rightarrow> int \<Rightarrow> iobuf" where
  "iobuf_init base len offset = \<lparr>io_base = base, io_offset = offset, io_len = len, io_resid = len\<rparr>"

definition iobuf_skip :: "iobuf \<Rightarrow> nat \<Rightarrow> iobuf option" where
  "iobuf_skip iob n = do {
     kassert (io_resid iob \<ge> n);
     Some (iob\<lparr>io_base := io_base iob + n, io_offset := io_offset iob + int n, io_resid := io_resid iob - n\<rparr>) }"

text \<open>The result, the number of bytes copied, the descriptor and the memory.\<close>

definition iobuf_move :: "iobuf \<Rightarrow> nat \<Rightarrow> nat \<Rightarrow> bool \<Rightarrow> mem \<Rightarrow> (int \<times> nat \<times> iobuf \<times> mem) option" where
  "iobuf_move iob dat len m2b m = do {
     let alen = (if io_resid iob > len then len else io_resid iob);
     if alen > 0 then do {
       let (src, dst) = (if m2b then (dat, io_base iob) else (io_base iob, dat));
       let m = memmove dst src alen m;
       iob \<leftarrow> iobuf_skip iob alen;
       Some (if len - alen = 0 then 0 else - E_NO_MEM, alen, iob, m) }
     else Some (if len = 0 then 0 else - E_NO_MEM, alen, iob, m) }"

definition iobuf_move_zeros :: "iobuf \<Rightarrow> nat \<Rightarrow> mem \<Rightarrow> (int \<times> nat \<times> iobuf \<times> mem) option" where
  "iobuf_move_zeros iob len m = do {
     let alen = (if io_resid iob > len then len else io_resid iob);
     if alen > 0 then do {
       let m = memset (io_base iob) NUL alen m;
       iob \<leftarrow> iobuf_skip iob alen;
       Some (if len - alen = 0 then 0 else - E_NO_MEM, alen, iob, m) }
     else Some (if len = 0 then 0 else - E_NO_MEM, alen, iob, m) }"

section \<open>What a move does\<close>

definition iobuf_ok :: "iobuf \<Rightarrow> bool" where
  "iobuf_ok iob \<longleftrightarrow> io_resid iob \<le> io_len iob"

lemma iobuf_init_ok [simp]: "iobuf_ok (iobuf_init b l ofs)" "iobuf_used (iobuf_init b l ofs) = 0"
  by (simp_all add: iobuf_ok_def iobuf_init_def iobuf_used_def)

lemma iobuf_move_spec:
  assumes "iobuf_ok iob"
  shows "\<exists>iob'. iobuf_move iob dat len True m =
      Some (if len \<le> io_resid iob then 0 else - E_NO_MEM, min len (io_resid iob), iob',
        (\<lambda>a. if io_base iob \<le> a \<and> a < io_base iob + min len (io_resid iob) then m (dat + (a - io_base iob)) else m a)) \<and>
    iobuf_ok iob' \<and> iobuf_used iob' = iobuf_used iob + min len (io_resid iob) \<and>
    io_base iob' = io_base iob + min len (io_resid iob) \<and>
    io_offset iob' = io_offset iob + int (min len (io_resid iob)) \<and> io_len iob' = io_len iob"
  using assms
  by (cases "io_resid iob > len"; cases "len = 0")
    (auto simp: iobuf_move_def iobuf_skip_def Let_def memmove_spec iobuf_ok_def iobuf_used_def fun_eq_iff
      kassert_def min_def)

definition copied :: "nat \<Rightarrow> nat \<Rightarrow> nat \<Rightarrow> mem \<Rightarrow> mem" where
  "copied dst src n m = (\<lambda>a. if dst \<le> a \<and> a < dst + n then m (src + (a - dst)) else m a)"

lemma iobuf_move_fits:
  assumes "iobuf_ok iob" and "len \<le> io_resid iob"
  shows "\<exists>iob'. iobuf_move iob dat len True m = Some (0, len, iob', copied (io_base iob) dat len m) \<and>
    iobuf_ok iob' \<and> iobuf_used iob' = iobuf_used iob + len \<and> io_base iob' = io_base iob + len \<and>
    io_offset iob' = io_offset iob + int len \<and> io_len iob' = io_len iob \<and> io_resid iob' = io_resid iob - len"
  using assms
  by (cases "len = 0")
    (auto simp: iobuf_move_def iobuf_skip_def Let_def memmove_spec iobuf_ok_def iobuf_used_def copied_def
      fun_eq_iff kassert_def)

section \<open>Properties\<close>

text \<open>
  Two successive moves into the same buffer transfer what one move of the joined data would, as
  long as the buffer has room: the first leaves the descriptor at the end of its bytes, and no
  assertion fails.
\<close>

theorem iobuf_moves_compose:
  assumes ok: "iobuf_ok iob" and room: "l1 + l2 \<le> io_resid iob"
    and dis: "io_base iob + l1 \<le> d2 \<or> d2 + l2 \<le> io_base iob"
  shows "\<exists>iob1 m1 iob2 m2. iobuf_move iob d1 l1 True m = Some (0, l1, iob1, m1) \<and>
    iobuf_move iob1 d2 l2 True m1 = Some (0, l2, iob2, m2) \<and>
    iobuf_used iob2 = iobuf_used iob + (l1 + l2) \<and> io_offset iob2 = io_offset iob + int (l1 + l2) \<and>
    (\<forall>i < l1. m2 (io_base iob + i) = m (d1 + i)) \<and> (\<forall>i < l2. m2 (io_base iob + l1 + i) = m (d2 + i))"
proof -
  let ?m1 = "copied (io_base iob) d1 l1 m"
  have "l1 \<le> io_resid iob" using room by simp
  from iobuf_move_fits [OF ok this, of d1 m] obtain iob1 where
    a: "iobuf_move iob d1 l1 True m = Some (0, l1, iob1, ?m1)" "iobuf_ok iob1"
      "iobuf_used iob1 = iobuf_used iob + l1" "io_base iob1 = io_base iob + l1"
      "io_offset iob1 = io_offset iob + int l1" "io_resid iob1 = io_resid iob - l1" by blast
  let ?m2 = "copied (io_base iob + l1) d2 l2 ?m1"
  have "l2 \<le> io_resid iob1" using room a(6) by simp
  from iobuf_move_fits [OF a(2) this, of d2 ?m1, unfolded a(3-5)] obtain iob2 where
    b: "iobuf_move iob1 d2 l2 True ?m1 = Some (0, l2, iob2, ?m2)" "iobuf_used iob2 = iobuf_used iob + l1 + l2"
      "io_offset iob2 = io_offset iob + int l1 + int l2" by blast
  have "\<forall>i < l2. ?m2 (io_base iob + l1 + i) = m (d2 + i)" using dis by (auto simp: copied_def)
  moreover have "\<forall>i < l1. ?m2 (io_base iob + i) = m (d1 + i)" by (simp add: copied_def)
  ultimately show ?thesis using a(1) b by (intro exI [of _ iob1] exI [of _ ?m1] exI [of _ iob2] exI [of _ ?m2]) simp
qed

theorem iobuf_moves_compose_witness:
  "\<exists>iob m. iobuf_move (iobuf_init 100 8 0) 0 3 True (\<lambda>a. char_of a) = Some (0, 3, iob, m) \<and> iobuf_used iob \<le> 8"
proof -
  have "3 + 4 \<le> io_resid (iobuf_init 100 8 0)" "io_base (iobuf_init 100 8 0) + 3 \<le> 200 \<or> 200 + 4 \<le> io_base (iobuf_init 100 8 0)"
    by (simp_all add: iobuf_init_def)
  from iobuf_moves_compose [OF iobuf_init_ok(1) this, of 0 "\<lambda>a. char_of a"] show ?thesis
    by (auto simp: iobuf_init_def iobuf_used_def iobuf_move_def iobuf_skip_def)
qed

end
