(* ===== verification/Bitmap.thy ===== *)
theory Bitmap
  imports Prelude
begin

text \<open>
  The block bitmap of the simple file system, \<^verbatim>\<open>kern/fs/sfs/bitmap.c\<close>: a set bit is a free
  block. The words are 32-bit words; the counts \<^verbatim>\<open>nbits\<close> and \<^verbatim>\<open>nwords\<close> and the indices,
  \<^verbatim>\<open>uint32_t\<close> in the source and computed with at the width of \<^verbatim>\<open>size_t\<close>, are natural
  numbers. The results of \<^verbatim>\<open>kmalloc\<close> are arguments.
\<close>

section \<open>The operations\<close>

definition WORD_BITS :: nat where "WORD_BITS = 32"

record bitmap =
  bm_nbits :: nat
  bm_nwords :: nat
  bm_map :: "u32 list"

text \<open>The loop that marks the bits after \<^verbatim>\<open>nbits\<close> of the last word in use.\<close>

function clear_overbits :: "nat \<Rightarrow> u32 \<Rightarrow> u32" where
  "clear_overbits overbits w =
     (if overbits < WORD_BITS then clear_overbits (overbits + 1) (w XOR push_bit overbits 1) else w)"
  by pat_completeness auto
termination by (relation "measure (\<lambda>(k, w). WORD_BITS - k)") auto

declare clear_overbits.simps [simp del]

definition bitmap_create :: "bool \<Rightarrow> bool \<Rightarrow> nat \<Rightarrow> bitmap option option" where
  "bitmap_create kmalloc_bitmap kmalloc_map nbits = do {
     kassert (nbits \<noteq> 0 \<and> nbits + WORD_BITS > nbits);
     if \<not> kmalloc_bitmap then Some None
     else do {
       let nwords = (nbits + WORD_BITS - 1) div WORD_BITS;
       if \<not> kmalloc_map then Some None
       else do {
         let m = replicate nwords (0xFFFFFFFF :: u32);
         if nbits \<noteq> nwords * WORD_BITS
         then do {
           let ix = nwords - 1;
           let overbits = nbits - ix * WORD_BITS;
           kassert (nbits div WORD_BITS = ix);
           kassert (overbits > 0 \<and> overbits < WORD_BITS);
           Some (Some \<lparr>bm_nbits = nbits, bm_nwords = nwords, bm_map = m[ix := clear_overbits overbits (m ! ix)]\<rparr>) }
         else Some (Some \<lparr>bm_nbits = nbits, bm_nwords = nwords, bm_map = m\<rparr>) } } }"

function find_bit :: "u32 \<Rightarrow> nat \<Rightarrow> nat option" where
  "find_bit w offset =
     (if offset < WORD_BITS
      then if w AND push_bit offset 1 \<noteq> 0 then Some offset else find_bit w (offset + 1)
      else None)"
  by pat_completeness auto
termination by (relation "measure (\<lambda>(w, k). WORD_BITS - k)") auto

declare find_bit.simps [simp del]

text \<open>\<^verbatim>\<open>bitmap_alloc\<close> from word \<open>ix\<close> on; the \<^verbatim>\<open>assert(0)\<close> is the inner \<open>None\<close>.\<close>

function alloc_from :: "nat \<Rightarrow> bitmap \<Rightarrow> (int \<times> nat option \<times> bitmap) option" where
  "alloc_from ix b =
     (if ix < bm_nwords b
      then if bm_map b ! ix \<noteq> 0
        then (case find_bit (bm_map b ! ix) 0 of
            None \<Rightarrow> None
          | Some offset \<Rightarrow> Some (0, Some (ix * WORD_BITS + offset),
              b\<lparr>bm_map := (bm_map b)[ix := bm_map b ! ix XOR push_bit offset 1]\<rparr>))
        else alloc_from (ix + 1) b
      else Some (- E_NO_MEM, None, b))"
  by pat_completeness auto
termination by (relation "measure (\<lambda>(ix, b). bm_nwords b - ix)") auto

declare alloc_from.simps [simp del]

definition bitmap_alloc :: "bitmap \<Rightarrow> (int \<times> nat option \<times> bitmap) option" where
  "bitmap_alloc b = alloc_from 0 b"

definition bitmap_translate :: "bitmap \<Rightarrow> nat \<Rightarrow> (nat \<times> u32) option" where
  "bitmap_translate b index = do {
     kassert (index < bm_nbits b);
     Some (index div WORD_BITS, push_bit (index mod WORD_BITS) 1) }"

definition bitmap_test :: "bitmap \<Rightarrow> nat \<Rightarrow> bool option" where
  "bitmap_test b index = do {
     (word, mask) \<leftarrow> bitmap_translate b index;
     Some (bm_map b ! word AND mask \<noteq> 0) }"

definition bitmap_free :: "bitmap \<Rightarrow> nat \<Rightarrow> bitmap option" where
  "bitmap_free b index = do {
     (word, mask) \<leftarrow> bitmap_translate b index;
     kassert (bm_map b ! word AND mask = 0);
     Some (b\<lparr>bm_map := (bm_map b)[word := bm_map b ! word OR mask]\<rparr>) }"

definition bitmap_getdata :: "bitmap \<Rightarrow> u32 list \<times> nat" where
  "bitmap_getdata b = (bm_map b, 4 * bm_nwords b)"

section \<open>The set of free blocks\<close>

definition bitmap_ok :: "bitmap \<Rightarrow> bool" where
  "bitmap_ok b \<longleftrightarrow> length (bm_map b) = bm_nwords b \<and> bm_nbits b \<le> bm_nwords b * WORD_BITS \<and>
     (\<forall>i < bm_nwords b * WORD_BITS. bm_nbits b \<le> i \<longrightarrow> \<not> bit (bm_map b ! (i div WORD_BITS)) (i mod WORD_BITS))"

definition free_bits :: "bitmap \<Rightarrow> nat set" where
  "free_bits b = {i. i < bm_nbits b \<and> bit (bm_map b ! (i div WORD_BITS)) (i mod WORD_BITS)}"

lemma WORD_BITS_simp [simp]: "WORD_BITS = 32"
  by (simp add: WORD_BITS_def)

lemma mask_test: "(w AND 2 ^ n = 0) = (\<not> bit (w :: u32) n)"
  by (rule and_exp_eq_0_iff_not_bit)

lemma bit_push_one: "bit (2 ^ n :: u32) m \<longleftrightarrow> m = n \<and> n < 32"
  by (auto simp: bit_exp_iff possible_bit_def)

lemma bit_clear_overbits: "bit (clear_overbits k w) n \<longleftrightarrow> (if k \<le> n \<and> n < 32 then \<not> bit w n else bit w n)"
proof (induction k w rule: clear_overbits.induct)
  case (1 k w)
  then show ?case
    by (subst clear_overbits.simps) (auto simp: bit_xor_iff bit_push_one le_less Suc_le_eq)
qed

lemma find_bit_Some:
  "find_bit w k = Some n \<longleftrightarrow> k \<le> n \<and> n < 32 \<and> bit w n \<and> (\<forall>m. k \<le> m \<and> m < n \<longrightarrow> \<not> bit w m)"
proof (induction w k rule: find_bit.induct)
  case (1 w k)
  show ?case
  proof (cases "k < 32 \<and> \<not> bit w k")
    case True
    then have "find_bit w k = find_bit w (k + 1)"
      by (subst find_bit.simps) (simp add: mask_test)
    with True 1 show ?thesis by (auto simp: mask_test Suc_le_eq le_less) (metis not_less_eq less_antisym)
  next
    case False
    then show ?thesis
      by (subst find_bit.simps) (auto simp: mask_test)
  qed
qed

lemma find_bit_None: "find_bit w 0 = None \<longleftrightarrow> w = 0"
proof
  assume none: "find_bit w 0 = None"
  show "w = 0"
  proof (rule ccontr)
    assume nz: "w \<noteq> 0"
    have "\<exists>n. bit w n"
    proof (rule ccontr)
      assume "\<nexists>n. bit w n"
      then have "w = 0" by (intro bit_word_eqI) simp
      with nz show False by contradiction
    qed
    then obtain n where n: "bit w n" by blast
    then have "bit w (LEAST n. bit w n)" by (rule LeastI)
    moreover from this have "(LEAST n. bit w n) < 32" by (auto dest: bit_imp_le_length)
    ultimately have "find_bit w 0 = Some (LEAST n. bit w n)"
      unfolding find_bit_Some using not_less_Least by blast
    with none show False by simp
  qed
next
  assume "w = 0"
  then show "find_bit w 0 = None" using find_bit_Some [of w 0] by (cases "find_bit w 0") auto
qed

lemma bitmap_okD:
  assumes "bitmap_ok b"
  shows "length (bm_map b) = bm_nwords b" "bm_nbits b \<le> bm_nwords b * 32"
    "i < bm_nwords b * 32 \<Longrightarrow> bm_nbits b \<le> i \<Longrightarrow> \<not> bit (bm_map b ! (i div 32)) (i mod 32)"
  using assms by (auto simp: bitmap_ok_def)

lemma free_bits_iff:
  assumes "bitmap_ok b"
  shows "i \<in> free_bits b \<longleftrightarrow> i < bm_nwords b * 32 \<and> bit (bm_map b ! (i div 32)) (i mod 32)"
  using bitmap_okD [OF assms] by (fastforce simp: free_bits_def not_le [symmetric])

lemma word_pos: "ix * 32 + k < n * 32 \<longleftrightarrow> ix < n" if "k < 32" for ix k n :: nat
  using that by auto

text \<open>Flipping one bit of the map.\<close>

lemma bitmap_update:
  assumes ok: "bitmap_ok b" and i: "i < bm_nbits b"
    and w: "\<And>n. n < 32 \<Longrightarrow> bit w n = (if n = i mod 32 then v else bit (bm_map b ! (i div 32)) n)"
  shows "bitmap_ok (b\<lparr>bm_map := (bm_map b)[i div 32 := w]\<rparr>)"
    and "free_bits (b\<lparr>bm_map := (bm_map b)[i div 32 := w]\<rparr>) = (if v then insert i (free_bits b) else free_bits b - {i})"
proof -
  note o = bitmap_okD [OF ok]
  have ix: "i div 32 < length (bm_map b)" using o(1,2) i by (auto simp: div_less_iff_less_mult)
  have b': "bit ((bm_map b)[i div 32 := w] ! (j div 32)) (j mod 32) = (if j = i then v else bit (bm_map b ! (j div 32)) (j mod 32))" for j
  proof (cases "j div 32 = i div 32")
    case True
    then have "(j mod 32 = i mod 32) = (j = i)"
      by (metis div_mult_mod_eq)
    with True ix w [of "j mod 32"] show ?thesis by simp
  next
    case False
    with ix show ?thesis by auto
  qed
  show "bitmap_ok (b\<lparr>bm_map := (bm_map b)[i div 32 := w]\<rparr>)"
    using o i by (auto simp: bitmap_ok_def b')
  show "free_bits (b\<lparr>bm_map := (bm_map b)[i div 32 := w]\<rparr>) = (if v then insert i (free_bits b) else free_bits b - {i})"
    using i by (auto simp: free_bits_def b')
qed

lemma alloc_from_spec:
  assumes ok: "bitmap_ok b" and low: "\<And>i. i < ix * 32 \<Longrightarrow> i \<notin> free_bits b"
  shows "(\<exists>i b'. alloc_from ix b = Some (0, Some i, b') \<and> i \<in> free_bits b \<and> (\<forall>j \<in> free_bits b. i \<le> j) \<and>
      bitmap_ok b' \<and> free_bits b' = free_bits b - {i} \<and> bm_nbits b' = bm_nbits b) \<or>
    free_bits b = {} \<and> alloc_from ix b = Some (- E_NO_MEM, None, b)"
  using low
proof (induction "bm_nwords b - ix" arbitrary: ix)
  case 0
  have "i < ix * 32" if "i \<in> free_bits b" for i
  proof -
    have "i < bm_nwords b * 32" using free_bits_iff [OF ok, of i] that by simp
    with 0(1) show ?thesis by simp
  qed
  with 0(2) have "free_bits b = {}" by blast
  with 0(1) show ?case by (subst (1 2) alloc_from.simps) simp
next
  case (Suc d)
  then have ix: "ix < bm_nwords b" by simp
  let ?w = "bm_map b ! ix"
  show ?case
  proof (cases "?w = 0")
    case True
    have "i \<notin> free_bits b" if "i < (ix + 1) * 32" for i
    proof (cases "i < ix * 32")
      case False
      with that have "i div 32 = ix" by (simp add: div_nat_eqI)
      with True show ?thesis by (simp add: free_bits_def)
    qed (rule Suc.prems)
    with Suc.hyps(1) [of "ix + 1"] Suc.hyps(2) have IH: "(\<exists>i b'. alloc_from (ix + 1) b = Some (0, Some i, b') \<and>
        i \<in> free_bits b \<and> (\<forall>j \<in> free_bits b. i \<le> j) \<and>
        bitmap_ok b' \<and> free_bits b' = free_bits b - {i} \<and> bm_nbits b' = bm_nbits b) \<or>
      free_bits b = {} \<and> alloc_from (ix + 1) b = Some (- E_NO_MEM, None, b)" by simp
    have "alloc_from ix b = alloc_from (ix + 1) b"
      using True ix by (subst alloc_from.simps) simp
    with IH show ?thesis by simp
  next
    case False
    then obtain k where k: "find_bit ?w 0 = Some k"
      using find_bit_None [of ?w] by auto
    then have k32: "k < 32" "bit ?w k" "\<And>m. m < k \<Longrightarrow> \<not> bit ?w m"
      by (auto simp: find_bit_Some)
    define i where "i = ix * 32 + k"
    have dm: "i div 32 = ix" "i mod 32 = k" using k32(1) by (auto simp: i_def)
    have i: "i \<in> free_bits b"
      unfolding free_bits_iff [OF ok] dm using ix k32 by (simp add: i_def word_pos)
    have least: "i \<le> j" if j: "j \<in> free_bits b" for j
    proof (rule ccontr)
      assume "\<not> i \<le> j"
      moreover have "ix * 32 \<le> j" using Suc.prems [of j] j by (meson not_le)
      ultimately have d: "j div 32 = ix" and "j - ix * 32 < k"
        using k32(1) by (auto simp: i_def div_nat_eqI)
      then have "j mod 32 < k" using minus_div_mult_eq_mod [of j 32] by simp
      with d j k32(3) show False by (simp add: free_bits_def)
    qed
    have "bit (?w XOR 2 ^ k) n = (if n = i mod 32 then False else bit (bm_map b ! (i div 32)) n)" if "n < 32" for n
      using that k32 by (auto simp: bit_xor_iff bit_push_one dm)
    note upd = bitmap_update [OF ok _ this]
    have "i < bm_nbits b" using i by (simp add: free_bits_def)
    from upd [OF this] have
      "bitmap_ok (b\<lparr>bm_map := (bm_map b)[ix := ?w XOR 2 ^ k]\<rparr>)"
      "free_bits (b\<lparr>bm_map := (bm_map b)[ix := ?w XOR 2 ^ k]\<rparr>) = free_bits b - {i}"
      by (simp_all add: dm)
    moreover have "alloc_from ix b = Some (0, Some i, b\<lparr>bm_map := (bm_map b)[ix := ?w XOR 2 ^ k]\<rparr>)"
      using False ix k by (subst alloc_from.simps) (simp add: i_def)
    ultimately show ?thesis using i least by auto
  qed
qed

lemma bitmap_translate_simp:
  "bitmap_translate b i = (if i < bm_nbits b then Some (i div 32, 2 ^ (i mod 32)) else None)"
  by (simp add: bitmap_translate_def kassert_def)

lemma bitmap_free_spec:
  assumes ok: "bitmap_ok b" and i: "i < bm_nbits b"
  shows "case bitmap_free b i of None \<Rightarrow> i \<in> free_bits b
    | Some b' \<Rightarrow> i \<notin> free_bits b \<and> bitmap_ok b' \<and> free_bits b' = insert i (free_bits b) \<and> bm_nbits b' = bm_nbits b"
proof (cases "i \<in> free_bits b")
  case True
  then show ?thesis
    using i by (simp add: bitmap_free_def bitmap_translate_simp mask_test free_bits_def kassert_def)
next
  case False
  let ?w = "bm_map b ! (i div 32)"
  have "bit (?w OR 2 ^ (i mod 32)) n = (if n = i mod 32 then True else bit ?w n)" if "n < 32" for n
    using that by (auto simp: bit_or_iff bit_push_one)
  from bitmap_update [OF ok i this] False show ?thesis
    using i by (simp add: bitmap_free_def bitmap_translate_simp mask_test free_bits_def kassert_def)
qed

lemma bitmap_test_spec:
  "i < bm_nbits b \<Longrightarrow> bitmap_test b i = Some (i \<in> free_bits b)"
  by (simp add: bitmap_test_def bitmap_translate_simp mask_test free_bits_def)

lemma bitmap_create_spec:
  assumes "0 < n"
  shows "\<exists>b. bitmap_create True True n = Some (Some b) \<and> bitmap_ok b \<and> bm_nbits b = n \<and> free_bits b = {..<n}"
proof -
  define nw where "nw = (n + 31) div 32"
  have nw: "n \<le> nw * 32" "nw * 32 < n + 32" "0 < nw"
    using assms by (auto simp: nw_def)
  define w where "w = (\<lambda>j. if n \<noteq> nw * 32 \<and> j = nw - 1 then clear_overbits (n - (nw - 1) * 32) 0xFFFFFFFF else (0xFFFFFFFF :: u32))"
  define b where "b = \<lparr>bm_nbits = n, bm_nwords = nw, bm_map = map w [0..<nw]\<rparr>"
  have ones: "bit (0xFFFFFFFF :: u32) k" if "k < 32" for k
  proof -
    have eq: "(0xFFFFFFFF :: u32) = mask 32" by (simp add: mask_numeral)
    show ?thesis unfolding eq using that by (simp only: bit_mask_iff) simp
  qed
  have bits: "bit (map w [0..<nw] ! (i div 32)) (i mod 32) \<longleftrightarrow> i < n" if "i < nw * 32" for i
  proof -
    have "i div 32 < nw" using that by (simp add: div_less_iff_less_mult)
    then have "map w [0..<nw] ! (i div 32) = w (i div 32)" by simp
    moreover have "i < n" if "i div 32 \<noteq> nw - 1 \<or> n = nw * 32"
      using that \<open>i < nw * 32\<close> \<open>i div 32 < nw\<close> nw by linarith
    moreover have "i < n \<longleftrightarrow> i mod 32 < n - (nw - 1) * 32" if "i div 32 = nw - 1"
      using that nw by (metis add.commute div_mult_mod_eq less_diff_conv)
    ultimately show ?thesis
      using ones [of "i mod 32"] by (auto simp: w_def bit_clear_overbits)
  qed
  have nw_eq: "(n + WORD_BITS - 1) div WORD_BITS = nw" by (simp add: nw_def)
  have "bitmap_create True True n = Some (Some b)"
  proof (cases "n = nw * 32")
    case True
    then show ?thesis
      unfolding bitmap_create_def Let_def nw_eq
      using assms nw by (simp add: b_def w_def map_replicate_const)
  next
    case False
    then have "n div 32 = nw - 1" "0 < n - (nw - 1) * 32" "n - (nw - 1) * 32 < 32"
      using nw by (auto intro!: div_nat_eqI)
    moreover have "(replicate nw 0xFFFFFFFF)[nw - 1 := clear_overbits (n - (nw - 1) * 32) 0xFFFFFFFF] = map w [0..<nw]"
      using False nw(3) by (auto simp: w_def list_eq_iff_nth_eq nth_list_update)
    ultimately show ?thesis
      unfolding bitmap_create_def Let_def nw_eq
      using assms False nw by (simp add: b_def)
  qed
  moreover have "bitmap_ok b" using nw bits by (simp add: bitmap_ok_def b_def)
  moreover have "free_bits b = {..<n}" using nw(1) bits by (auto simp: free_bits_def b_def)
  ultimately show ?thesis by (simp add: b_def)
qed

section \<open>The interface of a block allocator\<close>

text \<open>
  What the file system relies on: the allocator stands for a set of free blocks below a bound.
\<close>

locale block_allocator =
  fixes ok :: "'b \<Rightarrow> bool" and free_blocks :: "'b \<Rightarrow> nat set" and bound :: "'b \<Rightarrow> nat"
    and alloc :: "'b \<Rightarrow> (int \<times> nat option \<times> 'b) option" and release :: "'b \<Rightarrow> nat \<Rightarrow> 'b option"
  assumes alloc_law: "ok b \<Longrightarrow>
      (\<exists>i b'. alloc b = Some (0, Some i, b') \<and> i \<in> free_blocks b \<and> (\<forall>j \<in> free_blocks b. i \<le> j) \<and>
         ok b' \<and> free_blocks b' = free_blocks b - {i} \<and> bound b' = bound b) \<or>
      free_blocks b = {} \<and> alloc b = Some (- E_NO_MEM, None, b)"
    and release_law: "ok b \<Longrightarrow> i < bound b \<Longrightarrow>
      (case release b i of None \<Rightarrow> i \<in> free_blocks b
       | Some b' \<Rightarrow> i \<notin> free_blocks b \<and> ok b' \<and> free_blocks b' = insert i (free_blocks b) \<and> bound b' = bound b)"
    and free_below: "free_blocks b \<subseteq> {..<bound b}"
begin

lemma alloc_release:
  assumes "ok b" and "alloc b = Some (0, Some i, b')"
  shows "\<exists>b''. release b' i = Some b'' \<and> ok b'' \<and> free_blocks b'' = free_blocks b \<and> bound b'' = bound b"
proof -
  from alloc_law [OF assms(1)] assms(2) have b': "i \<in> free_blocks b" "ok b'"
    "free_blocks b' = free_blocks b - {i}" "bound b' = bound b"
    by (auto simp: E_NO_MEM_def)
  then have "i < bound b'" using free_below [of b] by auto
  from release_law [OF b'(2) this] b' show ?thesis
    by (auto split: option.splits)
qed

lemma alloc_zero_iff: "ok b \<Longrightarrow> (\<exists>i b'. alloc b = Some (0, Some i, b')) \<longleftrightarrow> free_blocks b \<noteq> {}"
  using alloc_law [of b] by (auto simp: E_NO_MEM_def)

end

interpretation bitmap_blocks: block_allocator bitmap_ok free_bits bm_nbits bitmap_alloc bitmap_free
proof
  show "free_bits b \<subseteq> {..<bm_nbits b}" for b by (auto simp: free_bits_def)
  show "bitmap_ok b \<Longrightarrow> i < bm_nbits b \<Longrightarrow> case bitmap_free b i of None \<Rightarrow> i \<in> free_bits b
       | Some b' \<Rightarrow> i \<notin> free_bits b \<and> bitmap_ok b' \<and> free_bits b' = insert i (free_bits b) \<and> bm_nbits b' = bm_nbits b"
    for b i by (rule bitmap_free_spec)
  show "bitmap_ok b \<Longrightarrow>
      (\<exists>i b'. bitmap_alloc b = Some (0, Some i, b') \<and> i \<in> free_bits b \<and> (\<forall>j \<in> free_bits b. i \<le> j) \<and>
         bitmap_ok b' \<and> free_bits b' = free_bits b - {i} \<and> bm_nbits b' = bm_nbits b) \<or>
      free_bits b = {} \<and> bitmap_alloc b = Some (- E_NO_MEM, None, b)" for b
    using alloc_from_spec [of b 0] by (simp add: bitmap_alloc_def)
qed

section \<open>Properties\<close>

text \<open>
  C31: The bitmap implements a set of free blocks: created full, it never fails an assertion on an
  allocation, hands out the least free block or -E_NO_MEM exactly when none is free, and a block
  handed out and freed again is free; freeing a free block or one out of range hits the assertion.
\<close>

theorem bitmap_refines_set:
  assumes "bitmap_ok b"
  shows "(\<exists>b0. bitmap_create True True (Suc n) = Some (Some b0) \<and> bitmap_ok b0 \<and> free_bits b0 = {..n}) \<and>
    ((\<exists>i b'. bitmap_alloc b = Some (0, Some i, b') \<and> i \<in> free_bits b \<and> (\<forall>j \<in> free_bits b. i \<le> j) \<and>
        bitmap_ok b' \<and> free_bits b' = free_bits b - {i} \<and>
        (\<exists>b''. bitmap_free b' i = Some b'' \<and> bitmap_ok b'' \<and> free_bits b'' = free_bits b)) \<or>
     free_bits b = {} \<and> bitmap_alloc b = Some (- E_NO_MEM, None, b)) \<and>
    (\<forall>i. bitmap_free b i = None \<longleftrightarrow> i \<in> free_bits b \<or> bm_nbits b \<le> i)"
proof (intro conjI allI)
  show "\<exists>b0. bitmap_create True True (Suc n) = Some (Some b0) \<and> bitmap_ok b0 \<and> free_bits b0 = {..n}"
    using bitmap_create_spec [of "Suc n"] by (auto simp: lessThan_Suc_atMost)
  show "(\<exists>i b'. bitmap_alloc b = Some (0, Some i, b') \<and> i \<in> free_bits b \<and> (\<forall>j \<in> free_bits b. i \<le> j) \<and>
        bitmap_ok b' \<and> free_bits b' = free_bits b - {i} \<and>
        (\<exists>b''. bitmap_free b' i = Some b'' \<and> bitmap_ok b'' \<and> free_bits b'' = free_bits b)) \<or>
     free_bits b = {} \<and> bitmap_alloc b = Some (- E_NO_MEM, None, b)"
    using bitmap_blocks.alloc_law [OF assms]
  proof (elim disjE exE)
    fix i b'
    assume a: "bitmap_alloc b = Some (0, Some i, b') \<and> i \<in> free_bits b \<and> (\<forall>j \<in> free_bits b. i \<le> j) \<and>
      bitmap_ok b' \<and> free_bits b' = free_bits b - {i} \<and> bm_nbits b' = bm_nbits b"
    from bitmap_blocks.alloc_release [OF assms conjunct1 [OF a]] obtain b'' where
      "bitmap_free b' i = Some b'' \<and> bitmap_ok b'' \<and> free_bits b'' = free_bits b" by blast
    with a show ?thesis by (intro disjI1 exI [of _ i] exI [of _ b']) simp
  qed (rule disjI2)
  show "bitmap_free b i = None \<longleftrightarrow> i \<in> free_bits b \<or> bm_nbits b \<le> i" for i
  proof (cases "i < bm_nbits b")
    case True
    with bitmap_blocks.release_law [OF assms True] show ?thesis
      by (cases "bitmap_free b i") simp_all
  next
    case False
    then show ?thesis by (simp add: bitmap_free_def bitmap_translate_simp)
  qed
qed

theorem bitmap_refines_set_witness:
  "\<exists>b i b'. bitmap_create True True 40 = Some (Some b) \<and> bitmap_alloc b = Some (0, Some i, b') \<and> i \<in> free_bits b"
proof -
  from bitmap_create_spec [of 40] obtain b where
    b: "bitmap_create True True 40 = Some (Some b)" "bitmap_ok b" "free_bits b = {..<40}" by auto
  have "0 \<in> free_bits b" unfolding b(3) by simp
  then have "free_bits b \<noteq> {}" by blast
  with conjunct1 [OF conjunct2 [OF bitmap_refines_set [OF b(2), of 0]]] show ?thesis
    by (elim disjE exE conjE) (use b(1) in \<open>auto intro!: exI\<close>)
qed

end
