(* ===== verification/Sfs.thy ===== *)
theory Sfs
  imports Iobuf Bitmap
begin

text \<open>
  The simple file system below its inodes: block input and output (\<^verbatim>\<open>kern/fs/sfs/sfs_io.c\<close>),
  blocks of the disk and blocks of a file (\<^verbatim>\<open>kern/fs/sfs/sfs_inode.c\<close>, to
  \<^verbatim>\<open>sfs_bmap_truncate_nolock\<close>), and reading, writing and resizing a file. A buffer is the
  list of its bytes: what a function gets and what it leaves there. \<^verbatim>\<open>sfs_buffer\<close> is filled
  before each use, so its former contents are given as zeros and it is no part of the state. The
  operation \<^verbatim>\<open>d_io\<close> of the device is the argument \<open>io\<close>. Block numbers and counts are
  natural numbers: sizes of files are bounded by 128 MB. The functions run under the locks of
  \<^verbatim>\<open>sfs_lock.c\<close>, which are left out. The result \<open>None\<close> is a failed assertion or a panic.
\<close>

section \<open>State\<close>

type_synonym bytes = "char list"

text \<open>Offset, buffer and direction; the result, the buffer afterwards, and the device.\<close>

type_synonym 'd dev_io = "nat \<Rightarrow> bytes \<Rightarrow> bool \<Rightarrow> 'd \<Rightarrow> (int \<times> bytes \<times> 'd) option"

definition SFS_MAGIC :: nat where "SFS_MAGIC = 0x2f8dbe2a"
definition SFS_BLKSIZE :: nat where "SFS_BLKSIZE = 4096"
definition SFS_NDIRECT :: nat where "SFS_NDIRECT = 12"
definition SFS_MAX_INFO_LEN :: nat where "SFS_MAX_INFO_LEN = 31"
definition SFS_MAX_FNAME_LEN :: nat where "SFS_MAX_FNAME_LEN = 255"
definition SFS_MAX_FILE_SIZE :: nat where "SFS_MAX_FILE_SIZE = 1024 * 1024 * 128"
definition SFS_BLKN_SUPER :: nat where "SFS_BLKN_SUPER = 0"
definition SFS_BLKN_ROOT :: nat where "SFS_BLKN_ROOT = 1"
definition SFS_BLKN_FREEMAP :: nat where "SFS_BLKN_FREEMAP = 2"
definition SFS_BLKBITS :: nat where "SFS_BLKBITS = SFS_BLKSIZE * 8"
definition SFS_BLK_NENTRY :: nat where "SFS_BLK_NENTRY = SFS_BLKSIZE div 4"
definition SFS_TYPE_INVAL :: nat where "SFS_TYPE_INVAL = 0"
definition SFS_TYPE_FILE :: nat where "SFS_TYPE_FILE = 1"
definition SFS_TYPE_DIR :: nat where "SFS_TYPE_DIR = 2"
definition SFS_TYPE_LINK :: nat where "SFS_TYPE_LINK = 3"

record sfs_super =
  s_magic :: nat
  s_blocks :: nat
  s_unused_blocks :: nat
  s_info :: bytes

record sfs_disk_inode =
  di_size :: nat
  di_type :: nat
  di_nlinks :: nat
  di_blocks :: nat
  di_direct :: "nat list"
  di_indirect :: nat

record sfs_inode =
  din :: sfs_disk_inode
  sin_ino :: nat
  sin_dirty :: bool
  reclaim_count :: int

text \<open>The lists of the loaded inodes are with the operations on inodes.\<close>

record 'd sfs_fs =
  super :: sfs_super
  sfs_dev :: 'd
  freemap :: bitmap
  super_dirty :: bool

definition sfs_freemap_bits :: "sfs_super \<Rightarrow> nat" where
  "sfs_freemap_bits su = (s_blocks su + SFS_BLKBITS - 1) div SFS_BLKBITS * SFS_BLKBITS"

definition sfs_freemap_blocks :: "sfs_super \<Rightarrow> nat" where
  "sfs_freemap_blocks su = (s_blocks su + SFS_BLKBITS - 1) div SFS_BLKBITS"

text \<open>A number of \<open>n\<close> bytes in memory, lowest byte first.\<close>

fun enc :: "nat \<Rightarrow> nat \<Rightarrow> bytes" where
  "enc 0 v = []"
| "enc (Suc n) v = char_of (v mod 256) # enc n (v div 256)"

fun dec :: "bytes \<Rightarrow> nat" where
  "dec [] = 0"
| "dec (c # cs) = of_char c + 256 * dec cs"

section \<open>Blocks of the device (sfs_io.c)\<close>

text \<open>\<^verbatim>\<open>blkno * SFS_BLKSIZE\<close> is computed with 32 bits.\<close>

definition sfs_rwblock_nolock ::
  "'d dev_io \<Rightarrow> bytes \<Rightarrow> nat \<Rightarrow> bool \<Rightarrow> bool \<Rightarrow> 'd sfs_fs \<Rightarrow> (int \<times> bytes \<times> 'd sfs_fs) option"
where
  "sfs_rwblock_nolock io buf blkno write check s = do {
     kassert ((blkno \<noteq> 0 \<or> \<not> check) \<and> blkno < s_blocks (super s));
     (ret, buf, d) \<leftarrow> io (blkno * SFS_BLKSIZE mod 2 ^ 32) buf write (sfs_dev s);
     Some (ret, buf, s\<lparr>sfs_dev := d\<rparr>) }"

fun sfs_rwblock ::
  "'d dev_io \<Rightarrow> bytes \<Rightarrow> nat \<Rightarrow> nat \<Rightarrow> bool \<Rightarrow> 'd sfs_fs \<Rightarrow> (int \<times> bytes \<times> 'd sfs_fs) option"
where
  "sfs_rwblock io buf blkno 0 write s = Some (0, buf, s)"
| "sfs_rwblock io buf blkno (Suc n) write s = do {
     (ret, b, s) \<leftarrow> sfs_rwblock_nolock io (take SFS_BLKSIZE buf) blkno write True s;
     if ret \<noteq> 0 then Some (ret, b @ drop SFS_BLKSIZE buf, s)
     else do {
       (ret, rest, s) \<leftarrow> sfs_rwblock io (drop SFS_BLKSIZE buf) (blkno + 1) n write s;
       Some (ret, b @ rest, s) } }"

definition sfs_rblock :: "'d dev_io \<Rightarrow> bytes \<Rightarrow> nat \<Rightarrow> nat \<Rightarrow> 'd sfs_fs \<Rightarrow> (int \<times> bytes \<times> 'd sfs_fs) option" where
  "sfs_rblock io buf blkno nblks s = sfs_rwblock io buf blkno nblks False s"

definition sfs_wblock :: "'d dev_io \<Rightarrow> bytes \<Rightarrow> nat \<Rightarrow> nat \<Rightarrow> 'd sfs_fs \<Rightarrow> (int \<times> bytes \<times> 'd sfs_fs) option" where
  "sfs_wblock io buf blkno nblks s = sfs_rwblock io buf blkno nblks True s"

definition zeros :: "nat \<Rightarrow> bytes" where
  "zeros n = replicate n NUL"

definition sfs_rbuf :: "'d dev_io \<Rightarrow> bytes \<Rightarrow> nat \<Rightarrow> nat \<Rightarrow> 'd sfs_fs \<Rightarrow> (int \<times> bytes \<times> 'd sfs_fs) option" where
  "sfs_rbuf io buf blkno offset s = do {
     let len = length buf;
     kassert (offset < SFS_BLKSIZE \<and> offset + len \<le> SFS_BLKSIZE);
     (ret, b, s) \<leftarrow> sfs_rwblock_nolock io (zeros SFS_BLKSIZE) blkno False True s;
     Some (ret, if ret = 0 then take len (drop offset b) else buf, s) }"

definition sfs_wbuf :: "'d dev_io \<Rightarrow> bytes \<Rightarrow> nat \<Rightarrow> nat \<Rightarrow> 'd sfs_fs \<Rightarrow> (int \<times> bytes \<times> 'd sfs_fs) option" where
  "sfs_wbuf io buf blkno offset s = do {
     let len = length buf;
     kassert (offset < SFS_BLKSIZE \<and> offset + len \<le> SFS_BLKSIZE);
     (ret, b, s) \<leftarrow> sfs_rwblock_nolock io (zeros SFS_BLKSIZE) blkno False True s;
     if ret \<noteq> 0 then Some (ret, buf, s)
     else do {
       (ret, _, s) \<leftarrow> sfs_rwblock_nolock io (take offset b @ buf @ drop (offset + len) b) blkno True True s;
       Some (ret, buf, s) } }"

definition sfs_sync_super :: "'d dev_io \<Rightarrow> 'd sfs_fs \<Rightarrow> (int \<times> 'd sfs_fs) option" where
  "sfs_sync_super io s = do {
     let su = super s;
     let image = enc 4 (s_magic su) @ enc 4 (s_blocks su) @ enc 4 (s_unused_blocks su) @ s_info su;
     (ret, _, s) \<leftarrow> sfs_rwblock_nolock io (image @ zeros (SFS_BLKSIZE - length image)) SFS_BLKN_SUPER True False s;
     Some (ret, s) }"

definition sfs_sync_freemap :: "'d dev_io \<Rightarrow> 'd sfs_fs \<Rightarrow> (int \<times> 'd sfs_fs) option" where
  "sfs_sync_freemap io s = do {
     let nblks = sfs_freemap_blocks (super s);
     let data = concat (map (\<lambda>w. enc 4 (unat w)) (fst (bitmap_getdata (freemap s))));
     (ret, _, s) \<leftarrow> sfs_wblock io data SFS_BLKN_FREEMAP nblks s;
     Some (ret, s) }"

text \<open>With no blocks at all the source returns a variable it has not set; the loop runs once or more.\<close>

fun sfs_clear_block :: "'d dev_io \<Rightarrow> nat \<Rightarrow> nat \<Rightarrow> 'd sfs_fs \<Rightarrow> (int \<times> 'd sfs_fs) option" where
  "sfs_clear_block io blkno 0 s = Some (0, s)"
| "sfs_clear_block io blkno (Suc n) s = do {
     (ret, _, s) \<leftarrow> sfs_rwblock_nolock io (zeros SFS_BLKSIZE) blkno True True s;
     if ret \<noteq> 0 then Some (ret, s) else sfs_clear_block io (blkno + 1) n s }"

section \<open>Blocks in use (sfs_inode.c)\<close>

definition sfs_block_inuse :: "nat \<Rightarrow> 'd sfs_fs \<Rightarrow> bool option" where
  "sfs_block_inuse ino s =
     (if ino \<noteq> 0 \<and> ino < s_blocks (super s) then map_option Not (bitmap_test (freemap s) ino) else None)"

definition sfs_block_alloc :: "'d dev_io \<Rightarrow> 'd sfs_fs \<Rightarrow> (int \<times> nat \<times> 'd sfs_fs) option" where
  "sfs_block_alloc io s = do {
     (ret, ino, b) \<leftarrow> bitmap_alloc (freemap s);
     let s = s\<lparr>freemap := b\<rparr>;
     if ret \<noteq> 0 then Some (ret, 0, s)
     else do {
       ino \<leftarrow> ino;
       kassert (s_unused_blocks (super s) > 0);
       let s = s\<lparr>super := (super s)\<lparr>s_unused_blocks := s_unused_blocks (super s) - 1\<rparr>, super_dirty := True\<rparr>;
       inuse \<leftarrow> sfs_block_inuse ino s;
       kassert inuse;
       (ret, s) \<leftarrow> sfs_clear_block io ino 1 s;
       Some (ret, ino, s) } }"

definition sfs_block_free :: "nat \<Rightarrow> 'd sfs_fs \<Rightarrow> 'd sfs_fs option" where
  "sfs_block_free ino s = do {
     inuse \<leftarrow> sfs_block_inuse ino s;
     kassert inuse;
     b \<leftarrow> bitmap_free (freemap s) ino;
     Some (s\<lparr>freemap := b,
       super := (super s)\<lparr>s_unused_blocks := s_unused_blocks (super s) + 1\<rparr>, super_dirty := True\<rparr>) }"
section \<open>Blocks of a file\<close>

text \<open>
  \<^verbatim>\<open>sfs_bmap_get_sub_nolock\<close>: \<open>entp\<close> is the number of the indirect block; the result, the
  number of the indirect block afterwards, and that of the block asked for. \<open>sub_alloc\<close> is the part
  from the second \<^verbatim>\<open>sfs_block_alloc\<close> on, with the clean-up.
\<close>

definition sub_cleanup :: "int \<Rightarrow> nat \<Rightarrow> nat \<Rightarrow> 'd sfs_fs \<Rightarrow> (int \<times> nat \<times> nat \<times> 'd sfs_fs) option" where
  "sub_cleanup ret entp ent s = do {
     s \<leftarrow> (if ent \<noteq> entp then sfs_block_free ent s else Some s);
     Some (ret, entp, 0, s) }"

definition sub_alloc ::
  "'d dev_io \<Rightarrow> nat \<Rightarrow> nat \<Rightarrow> nat \<Rightarrow> 'd sfs_fs \<Rightarrow> (int \<times> nat \<times> nat \<times> 'd sfs_fs) option"
where
  "sub_alloc io entp ent offset s = do {
     (ret, ino, s) \<leftarrow> sfs_block_alloc io s;
     if ret \<noteq> 0 then sub_cleanup ret entp ent s
     else do {
       (ret, _, s) \<leftarrow> sfs_wbuf io (enc 4 ino) ent offset s;
       if ret \<noteq> 0 then do { s \<leftarrow> sfs_block_free ino s; sub_cleanup ret entp ent s }
       else Some (0, ent, ino, s) } }"

definition sfs_bmap_get_sub_nolock ::
  "'d dev_io \<Rightarrow> nat \<Rightarrow> nat \<Rightarrow> bool \<Rightarrow> 'd sfs_fs \<Rightarrow> (int \<times> nat \<times> nat \<times> 'd sfs_fs) option"
where
  "sfs_bmap_get_sub_nolock io entp index create s = do {
     kassert (index < SFS_BLK_NENTRY);
     let offset = index * 4;
     if entp \<noteq> 0 then do {
       (ret, b, s) \<leftarrow> sfs_rbuf io (enc 4 0) entp offset s;
       if ret \<noteq> 0 then Some (ret, entp, 0, s)
       else if dec b \<noteq> 0 \<or> \<not> create then Some (0, entp, dec b, s)
       else sub_alloc io entp entp offset s }
     else if \<not> create then Some (0, entp, 0, s)
     else do {
       (ret, ent, s) \<leftarrow> sfs_block_alloc io s;
       if ret \<noteq> 0 then Some (ret, entp, 0, s) else sub_alloc io entp ent offset s } }"

definition upd_din :: "(sfs_disk_inode \<Rightarrow> sfs_disk_inode) \<Rightarrow> sfs_inode \<Rightarrow> sfs_inode" where
  "upd_din f sin = sin\<lparr>din := f (din sin)\<rparr>"

text \<open>The assertion at the label \<^verbatim>\<open>out\<close>.\<close>

definition bmap_out :: "nat \<Rightarrow> sfs_inode \<Rightarrow> 'd sfs_fs \<Rightarrow> (int \<times> nat \<times> sfs_inode \<times> 'd sfs_fs) option" where
  "bmap_out ino sin s =
     (if ino = 0 then Some (0, ino, sin, s)
      else do { inuse \<leftarrow> sfs_block_inuse ino s; kassert inuse; Some (0, ino, sin, s) })"

definition sfs_bmap_get_nolock ::
  "'d dev_io \<Rightarrow> sfs_inode \<Rightarrow> nat \<Rightarrow> bool \<Rightarrow> 'd sfs_fs \<Rightarrow> (int \<times> nat \<times> sfs_inode \<times> 'd sfs_fs) option"
where
  "sfs_bmap_get_nolock io sin index create s =
     (if index < SFS_NDIRECT then
        if di_direct (din sin) ! index = 0 \<and> create then do {
          (ret, ino, s) \<leftarrow> sfs_block_alloc io s;
          if ret \<noteq> 0 then Some (ret, 0, sin, s)
          else bmap_out ino
            ((upd_din (\<lambda>d. d\<lparr>di_direct := (di_direct d)[index := ino]\<rparr>) sin)\<lparr>sin_dirty := True\<rparr>) s }
        else bmap_out (di_direct (din sin) ! index) sin s
      else if index - SFS_NDIRECT < SFS_BLK_NENTRY then do {
        (ret, ent, ino, s) \<leftarrow> sfs_bmap_get_sub_nolock io (di_indirect (din sin)) (index - SFS_NDIRECT) create s;
        if ret \<noteq> 0 then Some (ret, 0, sin, s)
        else if ent \<noteq> di_indirect (din sin) then do {
          kassert (di_indirect (din sin) = 0);
          bmap_out ino ((upd_din (\<lambda>d. d\<lparr>di_indirect := ent\<rparr>) sin)\<lparr>sin_dirty := True\<rparr>) s }
        else bmap_out ino sin s }
      else None)"

definition sfs_bmap_free_sub_nolock :: "'d dev_io \<Rightarrow> nat \<Rightarrow> nat \<Rightarrow> 'd sfs_fs \<Rightarrow> (int \<times> 'd sfs_fs) option" where
  "sfs_bmap_free_sub_nolock io ent index s = do {
     inuse \<leftarrow> sfs_block_inuse ent s;
     kassert (inuse \<and> index < SFS_BLK_NENTRY);
     let offset = index * 4;
     (ret, b, s) \<leftarrow> sfs_rbuf io (enc 4 0) ent offset s;
     if ret \<noteq> 0 then Some (ret, s)
     else if dec b \<noteq> 0 then do {
       (ret, _, s) \<leftarrow> sfs_wbuf io (enc 4 0) ent offset s;
       if ret \<noteq> 0 then Some (ret, s) else do { s \<leftarrow> sfs_block_free (dec b) s; Some (0, s) } }
     else Some (0, s) }"

definition sfs_bmap_free_nolock ::
  "'d dev_io \<Rightarrow> sfs_inode \<Rightarrow> nat \<Rightarrow> 'd sfs_fs \<Rightarrow> (int \<times> sfs_inode \<times> 'd sfs_fs) option"
where
  "sfs_bmap_free_nolock io sin index s =
     (if index < SFS_NDIRECT then
        let ino = di_direct (din sin) ! index in
        if ino \<noteq> 0 then do {
          s \<leftarrow> sfs_block_free ino s;
          Some (0, (upd_din (\<lambda>d. d\<lparr>di_direct := (di_direct d)[index := 0]\<rparr>) sin)\<lparr>sin_dirty := True\<rparr>, s) }
        else Some (0, sin, s)
      else if index - SFS_NDIRECT < SFS_BLK_NENTRY then
        if di_indirect (din sin) \<noteq> 0 then do {
          (ret, s) \<leftarrow> sfs_bmap_free_sub_nolock io (di_indirect (din sin)) (index - SFS_NDIRECT) s;
          Some (ret, sin, s) }
        else Some (0, sin, s)
      else Some (0, sin, s))"

definition sfs_bmap_load_nolock ::
  "'d dev_io \<Rightarrow> sfs_inode \<Rightarrow> nat \<Rightarrow> 'd sfs_fs \<Rightarrow> (int \<times> nat \<times> sfs_inode \<times> 'd sfs_fs) option"
where
  "sfs_bmap_load_nolock io sin index s = do {
     kassert (index \<le> di_blocks (din sin));
     let create = (index = di_blocks (din sin));
     (ret, ino, sin, s) \<leftarrow> sfs_bmap_get_nolock io sin index create s;
     if ret \<noteq> 0 then Some (ret, 0, sin, s)
     else do {
       inuse \<leftarrow> sfs_block_inuse ino s;
       kassert inuse;
       Some (0, ino, if create then upd_din (\<lambda>d. d\<lparr>di_blocks := di_blocks d + 1\<rparr>) sin else sin, s) } }"

definition sfs_bmap_truncate_nolock ::
  "'d dev_io \<Rightarrow> sfs_inode \<Rightarrow> 'd sfs_fs \<Rightarrow> (int \<times> sfs_inode \<times> 'd sfs_fs) option"
where
  "sfs_bmap_truncate_nolock io sin s = do {
     kassert (di_blocks (din sin) \<noteq> 0);
     (ret, sin, s) \<leftarrow> sfs_bmap_free_nolock io sin (di_blocks (din sin) - 1) s;
     if ret \<noteq> 0 then Some (ret, sin, s)
     else Some (0, (upd_din (\<lambda>d. d\<lparr>di_blocks := di_blocks d - 1\<rparr>) sin)\<lparr>sin_dirty := True\<rparr>, s) }"

section \<open>Reading, writing and resizing a file\<close>

text \<open>\<^verbatim>\<open>off_t\<close> is a signed 64-bit type.\<close>

definition wrap64 :: "int \<Rightarrow> int" where
  "wrap64 x = (x + 2 ^ 63) mod 2 ^ 64 - 2 ^ 63"

definition sfs_buf_op ::
  "'d dev_io \<Rightarrow> bool \<Rightarrow> bytes \<Rightarrow> nat \<Rightarrow> nat \<Rightarrow> 'd sfs_fs \<Rightarrow> (int \<times> bytes \<times> 'd sfs_fs) option"
where
  "sfs_buf_op io write = (if write then sfs_wbuf io else sfs_rbuf io)"

definition sfs_block_op ::
  "'d dev_io \<Rightarrow> bool \<Rightarrow> bytes \<Rightarrow> nat \<Rightarrow> nat \<Rightarrow> 'd sfs_fs \<Rightarrow> (int \<times> bytes \<times> 'd sfs_fs) option"
where
  "sfs_block_op io write = (if write then sfs_wblock io else sfs_rblock io)"

text \<open>
  The three parts of \<^verbatim>\<open>sfs_io_nolock\<close> return the bytes they have transferred, those of the buffer
  up to \<^verbatim>\<open>alen\<close>.
\<close>

definition io_part ::
  "'d dev_io \<Rightarrow> (bytes \<Rightarrow> nat \<Rightarrow> 'd sfs_fs \<Rightarrow> (int \<times> bytes \<times> 'd sfs_fs) option) \<Rightarrow> sfs_inode \<Rightarrow> bytes \<Rightarrow> nat \<Rightarrow>
    'd sfs_fs \<Rightarrow> (int \<times> bytes \<times> sfs_inode \<times> 'd sfs_fs) option"
where
  "io_part io op sin buf blkno s = do {
     (ret, ino, sin, s) \<leftarrow> sfs_bmap_load_nolock io sin blkno s;
     if ret \<noteq> 0 then Some (ret, [], sin, s)
     else do {
       (ret, buf, s) \<leftarrow> op buf ino s;
       Some (ret, if ret = 0 then buf else [], sin, s) } }"

fun io_blocks ::
  "'d dev_io \<Rightarrow> bool \<Rightarrow> nat \<Rightarrow> nat \<Rightarrow> sfs_inode \<Rightarrow> bytes \<Rightarrow> 'd sfs_fs \<Rightarrow> (int \<times> bytes \<times> sfs_inode \<times> 'd sfs_fs) option"
where
  "io_blocks io write 0 blkno sin buf s = Some (0, [], sin, s)"
| "io_blocks io write (Suc nblks) blkno sin buf s = do {
     (ret, b, sin, s) \<leftarrow> io_part io (\<lambda>b ino. sfs_block_op io write b ino 1) sin (take SFS_BLKSIZE buf) blkno s;
     if ret \<noteq> 0 then Some (ret, b, sin, s)
     else do {
       (ret, rest, sin, s) \<leftarrow> io_blocks io write nblks (blkno + 1) sin (drop SFS_BLKSIZE buf) s;
       Some (ret, b @ rest, sin, s) } }"

definition io_transfer ::
  "'d dev_io \<Rightarrow> bool \<Rightarrow> sfs_inode \<Rightarrow> bytes \<Rightarrow> nat \<Rightarrow> nat \<Rightarrow> 'd sfs_fs \<Rightarrow> (int \<times> bytes \<times> sfs_inode \<times> 'd sfs_fs) option"
where
  "io_transfer io write sin buf offset endpos s = do {
     let blkno = offset div SFS_BLKSIZE;
     let nblks = endpos div SFS_BLKSIZE - blkno;
     let blkoff = offset mod SFS_BLKSIZE;
     let size = (if nblks \<noteq> 0 then SFS_BLKSIZE - blkoff else endpos - offset);
     (ret, b1, sin, s) \<leftarrow>
       (if blkoff \<noteq> 0 then io_part io (\<lambda>b ino. sfs_buf_op io write b ino blkoff) sin (take size buf) blkno s
        else Some (0, [], sin, s));
     if ret \<noteq> 0 \<or> blkoff \<noteq> 0 \<and> nblks = 0 then Some (ret, b1, sin, s)
     else do {
       let (buf, blkno, nblks) =
         (if blkoff \<noteq> 0 then (drop size buf, blkno + 1, nblks - 1) else (buf, blkno, nblks));
       (ret, b2, sin, s) \<leftarrow> io_blocks io write nblks blkno sin buf s;
       let size = endpos mod SFS_BLKSIZE;
       if ret \<noteq> 0 \<or> size = 0 then Some (ret, b1 @ b2, sin, s)
       else do {
         (ret, b3, sin, s) \<leftarrow> io_part io (\<lambda>b ino. sfs_buf_op io write b ino 0) sin
           (take size (drop (nblks * SFS_BLKSIZE) buf)) (blkno + nblks) s;
         Some (ret, b1 @ b2 @ b3, sin, s) } } }"

text \<open>The buffer has the length \<^verbatim>\<open>*alenp\<close>; the result, the new \<^verbatim>\<open>*alenp\<close>, and the buffer.\<close>

definition sfs_io_nolock ::
  "'d dev_io \<Rightarrow> sfs_inode \<Rightarrow> bytes \<Rightarrow> int \<Rightarrow> bool \<Rightarrow> 'd sfs_fs \<Rightarrow>
    (int \<times> nat \<times> bytes \<times> sfs_inode \<times> 'd sfs_fs) option"
where
  "sfs_io_nolock io sin buf offset write s = do {
     kassert (di_type (din sin) \<noteq> SFS_TYPE_DIR);
     let endpos = wrap64 (offset + int (length buf));
     if offset < 0 \<or> offset \<ge> int SFS_MAX_FILE_SIZE \<or> offset > endpos then Some (- E_INVAL, 0, buf, sin, s)
     else if offset = endpos then Some (0, 0, buf, sin, s)
     else do {
       let endpos = (if endpos > int SFS_MAX_FILE_SIZE then int SFS_MAX_FILE_SIZE else endpos);
       if \<not> write \<and> offset \<ge> int (di_size (din sin)) then Some (0, 0, buf, sin, s)
       else do {
         let endpos = (if \<not> write \<and> endpos > int (di_size (din sin)) then int (di_size (din sin)) else endpos);
         (ret, out, sin, s) \<leftarrow> io_transfer io write sin buf (nat offset) (nat endpos) s;
         let alen = length out;
         let sin = (if nat offset + alen > di_size (din sin)
           then (upd_din (\<lambda>d. d\<lparr>di_size := nat offset + alen\<rparr>) sin)\<lparr>sin_dirty := True\<rparr> else sin);
         Some (ret, alen, out @ drop alen buf, sin, s) } } }"

text \<open>The two loops of \<^verbatim>\<open>sfs_truncfile\<close>; the number is the rounds left.\<close>

fun grow_loop :: "'d dev_io \<Rightarrow> nat \<Rightarrow> nat \<Rightarrow> sfs_inode \<Rightarrow> 'd sfs_fs \<Rightarrow> (int \<times> sfs_inode \<times> 'd sfs_fs) option" where
  "grow_loop io 0 nblks sin s = Some (0, sin, s)"
| "grow_loop io (Suc n) nblks sin s = do {
     (ret, _, sin, s) \<leftarrow> sfs_bmap_load_nolock io sin nblks s;
     if ret \<noteq> 0 then Some (ret, sin, s) else grow_loop io n (nblks + 1) sin s }"

fun shrink_loop :: "'d dev_io \<Rightarrow> nat \<Rightarrow> sfs_inode \<Rightarrow> 'd sfs_fs \<Rightarrow> (int \<times> sfs_inode \<times> 'd sfs_fs) option" where
  "shrink_loop io 0 sin s = Some (0, sin, s)"
| "shrink_loop io (Suc n) sin s = do {
     (ret, sin, s) \<leftarrow> sfs_bmap_truncate_nolock io sin s;
     if ret \<noteq> 0 then Some (ret, sin, s) else shrink_loop io n sin s }"

definition sfs_truncfile ::
  "'d dev_io \<Rightarrow> sfs_inode \<Rightarrow> int \<Rightarrow> 'd sfs_fs \<Rightarrow> (int \<times> sfs_inode \<times> 'd sfs_fs) option"
where
  "sfs_truncfile io sin len s =
     (if len < 0 \<or> len > int SFS_MAX_FILE_SIZE then Some (- E_INVAL, sin, s)
      else do {
        let tblks = (nat len + SFS_BLKSIZE - 1) div SFS_BLKSIZE;
        if int (di_size (din sin)) = len then do { kassert (tblks = di_blocks (din sin)); Some (0, sin, s) }
        else do {
          let nblks = di_blocks (din sin);
          (ret, sin, s) \<leftarrow>
            (if nblks < tblks then grow_loop io (tblks - nblks) nblks sin s
             else if tblks < nblks then shrink_loop io (nblks - tblks) sin s
             else Some (0, sin, s));
          if ret \<noteq> 0 then Some (ret, sin, s)
          else do {
            kassert (di_blocks (din sin) = tblks);
            Some (0, (upd_din (\<lambda>d. d\<lparr>di_size := nat len\<rparr>) sin)\<lparr>sin_dirty := True\<rparr>, s) } } })"

definition sfs_tryseek ::
  "'d dev_io \<Rightarrow> sfs_inode \<Rightarrow> int \<Rightarrow> 'd sfs_fs \<Rightarrow> (int \<times> sfs_inode \<times> 'd sfs_fs) option"
where
  "sfs_tryseek io sin pos s =
     (if pos < 0 \<or> pos \<ge> int SFS_MAX_FILE_SIZE then Some (- E_INVAL, sin, s)
      else if pos > int (di_size (din sin)) then sfs_truncfile io sin pos s
      else Some (0, sin, s))"

end
