(* ===== verification/Sfs_Node.thy ===== *)
theory Sfs_Node
  imports Sfs
begin

text \<open>
  The inodes of the simple file system in memory: the table of the loaded inodes with its list and
  its hash lists, reading directories, the entries of \<^verbatim>\<open>sfs_node_dirops\<close> and
  \<^verbatim>\<open>sfs_node_fileops\<close> (the rest of \<^verbatim>\<open>kern/fs/sfs/sfs_inode.c\<close>), with the two counts
  of \<^verbatim>\<open>kern/fs/vfs/inode.c\<close> on these inodes. An inode is named by its address; a list of
  inodes is the list of their addresses. \<open>heap\<close> are the objects \<^verbatim>\<open>kmalloc\<close> has left, one
  address for an object of any size: it returns the first of them, or \<^verbatim>\<open>NULL\<close> when there is
  none, and \<^verbatim>\<open>kfree\<close> puts an object back. Locks and messages are left out. The result
  \<open>None\<close> is a failed assertion or a panic.
\<close>

section \<open>State\<close>

definition SFS_HLIST_SHIFT :: nat where "SFS_HLIST_SHIFT = 10"
definition SFS_HLIST_SIZE :: nat where "SFS_HLIST_SIZE = 2 ^ SFS_HLIST_SHIFT"

definition sin_hashfn :: "nat \<Rightarrow> nat" where
  "sin_hashfn x = unat (hash32 (of_nat x) SFS_HLIST_SHIFT)"

text \<open>
  \<open>nd_dir\<close>: \<^verbatim>\<open>in_ops\<close> is \<^verbatim>\<open>sfs_node_dirops\<close>; \<open>nd_din\<close> is the address in \<^verbatim>\<open>sin->din\<close>.
  \<open>own\<close> are the objects of a mounted volume itself: \<^verbatim>\<open>struct fs\<close>, its buffer, its hash lists,
  and its bitmap and the words of it.
\<close>

record sfs_node =
  nd_sin :: sfs_inode
  nd_din :: nat
  nd_dir :: bool
  nd_ref :: int
  nd_open :: int

record 'd mount =
  vol :: "'d sfs_fs"
  nodes :: "nat \<Rightarrow> sfs_node"
  inode_list :: "nat list"
  hash_list :: "nat \<Rightarrow> nat list"
  own :: "nat list"
  heap :: "nat list"

record sfs_disk_entry =
  de_ino :: nat
  de_name :: bytes

record stat =
  st_mode :: nat
  st_nlinks :: nat
  st_blocks :: nat
  st_size :: nat

definition S_IFREG :: nat where "S_IFREG = 0x1000"
definition S_IFDIR :: nat where "S_IFDIR = 0x2000"
definition S_IFLNK :: nat where "S_IFLNK = 0x3000"

definition MAX_INODE_COUNT :: int where "MAX_INODE_COUNT = 0x10000"

definition obj_alloc :: "'d mount \<Rightarrow> nat option \<times> 'd mount" where
  "obj_alloc m = (case heap m of [] \<Rightarrow> (None, m) | a # h \<Rightarrow> (Some a, m\<lparr>heap := h\<rparr>))"

definition obj_free :: "nat \<Rightarrow> 'd mount \<Rightarrow> 'd mount" where
  "obj_free a m = m\<lparr>heap := a # heap m\<rparr>"

definition upd_node :: "nat \<Rightarrow> (sfs_node \<Rightarrow> sfs_node) \<Rightarrow> 'd mount \<Rightarrow> 'd mount" where
  "upd_node a f m = m\<lparr>nodes := (nodes m)(a := f (nodes m a))\<rparr>"

text \<open>After a function on the inode in \<open>a\<close> and the volume.\<close>

definition put_sin :: "nat \<Rightarrow> sfs_inode \<Rightarrow> 'd sfs_fs \<Rightarrow> 'd mount \<Rightarrow> 'd mount" where
  "put_sin a sin s m = upd_node a (\<lambda>n. n\<lparr>nd_sin := sin\<rparr>) (m\<lparr>vol := s\<rparr>)"

section \<open>Inodes and entries on the disk\<close>

definition inode_image :: "sfs_disk_inode \<Rightarrow> bytes" where
  "inode_image d = enc 4 (di_size d) @ enc 2 (di_type d) @ enc 2 (di_nlinks d) @ enc 4 (di_blocks d) @
     concat (map (enc 4) (di_direct d)) @ enc 4 (di_indirect d)"

definition inode_of :: "bytes \<Rightarrow> sfs_disk_inode" where
  "inode_of b = \<lparr>di_size = dec (take 4 b), di_type = dec (take 2 (drop 4 b)), di_nlinks = dec (take 2 (drop 6 b)),
     di_blocks = dec (take 4 (drop 8 b)),
     di_direct = map (\<lambda>i. dec (take 4 (drop (12 + i * 4) b))) [0..<SFS_NDIRECT],
     di_indirect = dec (take 4 (drop (12 + SFS_NDIRECT * 4) b))\<rparr>"

text \<open>The sizes of \<^verbatim>\<open>struct sfs_disk_inode\<close>, of \<^verbatim>\<open>struct sfs_disk_entry\<close> and of its name.\<close>

definition DINODE_SIZE :: nat where "DINODE_SIZE = 64"
definition sfs_dentry_size :: nat where "sfs_dentry_size = SFS_MAX_FNAME_LEN + 1"
definition DENTRY_SIZE :: nat where "DENTRY_SIZE = 4 + sfs_dentry_size"

text \<open>With the zero that \<^verbatim>\<open>sfs_dirent_read_nolock\<close> puts after the name.\<close>

definition entry_of :: "bytes \<Rightarrow> sfs_disk_entry" where
  "entry_of b = \<lparr>de_ino = dec (take 4 b), de_name = (take sfs_dentry_size (drop 4 b))[SFS_MAX_FNAME_LEN := NUL]\<rparr>"

definition cstr :: "bytes \<Rightarrow> string" where
  "cstr b = takeWhile (\<lambda>c. c \<noteq> NUL) b"

section \<open>The table of inodes\<close>

definition sfs_get_ops :: "nat \<Rightarrow> bool option" where
  "sfs_get_ops type =
     (if type = SFS_TYPE_DIR then Some True else if type = SFS_TYPE_FILE then Some False else None)"

definition sfs_set_inode_links :: "nat \<Rightarrow> 'd mount \<Rightarrow> 'd mount" where
  "sfs_set_inode_links a m =
     (let h = sin_hashfn (sin_ino (nd_sin (nodes m a)))
      in m\<lparr>inode_list := a # inode_list m, hash_list := (hash_list m)(h := a # hash_list m h)\<rparr>)"

definition sfs_remove_inode_links :: "nat \<Rightarrow> 'd mount \<Rightarrow> 'd mount" where
  "sfs_remove_inode_links a m =
     (let h = sin_hashfn (sin_ino (nd_sin (nodes m a)))
      in m\<lparr>inode_list := remove1 a (inode_list m), hash_list := (hash_list m)(h := remove1 a (hash_list m h))\<rparr>)"

text \<open>The result and the inode. \<^verbatim>\<open>inode_init\<close> leaves the counts at 1 and 0.\<close>

definition sfs_create_inode ::
  "nat \<Rightarrow> sfs_disk_inode \<Rightarrow> nat \<Rightarrow> 'd mount \<Rightarrow> (int \<times> nat option \<times> 'd mount) option"
where
  "sfs_create_inode p d ino m = (case obj_alloc m of
     (None, m) \<Rightarrow> Some (- E_NO_MEM, None, m)
   | (Some a, m) \<Rightarrow> do {
       dir \<leftarrow> sfs_get_ops (di_type d);
       let sin = \<lparr>din = d, sin_ino = ino, sin_dirty = False, reclaim_count = 1\<rparr>;
       Some (0, Some a, upd_node a (\<lambda>_. \<lparr>nd_sin = sin, nd_din = p, nd_dir = dir, nd_ref = 1, nd_open = 0\<rparr>) m) })"

definition node_ref_inc :: "nat \<Rightarrow> 'd mount \<Rightarrow> int \<times> 'd mount" where
  "node_ref_inc a m = (let m = upd_node a (\<lambda>n. n\<lparr>nd_ref := nd_ref n + 1\<rparr>) m in (nd_ref (nodes m a), m))"

definition lookup_sfs_nolock :: "nat \<Rightarrow> 'd mount \<Rightarrow> nat option \<times> 'd mount" where
  "lookup_sfs_nolock ino m =
     (case find (\<lambda>a. sin_ino (nd_sin (nodes m a)) = ino) (hash_list m (sin_hashfn ino)) of
        None \<Rightarrow> (None, m)
      | Some a \<Rightarrow>
          let (r, m) = node_ref_inc a m in
          (Some a, if r = 1
             then upd_node a (\<lambda>n. n\<lparr>nd_sin := (nd_sin n)\<lparr>reclaim_count := reclaim_count (nd_sin n) + 1\<rparr>\<rparr>) m
             else m))"

definition sfs_load_inode :: "'d dev_io \<Rightarrow> nat \<Rightarrow> 'd mount \<Rightarrow> (int \<times> nat option \<times> 'd mount) option" where
  "sfs_load_inode io ino m = (case lookup_sfs_nolock ino m of
     (Some a, m) \<Rightarrow> Some (0, Some a, m)
   | (None, m) \<Rightarrow> (case obj_alloc m of
       (None, m) \<Rightarrow> Some (- E_NO_MEM, None, m)
     | (Some p, m) \<Rightarrow> do {
         inuse \<leftarrow> sfs_block_inuse ino (vol m);
         kassert inuse;
         (ret, b, s) \<leftarrow> sfs_rbuf io (zeros DINODE_SIZE) ino 0 (vol m);
         let m = m\<lparr>vol := s\<rparr>;
         if ret \<noteq> 0 then Some (ret, None, obj_free p m)
         else do {
           kassert (di_nlinks (inode_of b) \<noteq> 0);
           (ret, node, m) \<leftarrow> sfs_create_inode p (inode_of b) ino m;
           case node of
             None \<Rightarrow> Some (ret, None, obj_free p m)
           | Some a \<Rightarrow> Some (0, Some a, sfs_set_inode_links a m) } }))"

section \<open>Writing back and giving up an inode\<close>

definition inode_check :: "sfs_node \<Rightarrow> unit option" where
  "inode_check n = do {
     kassert (nd_ref n \<ge> nd_open n \<and> nd_open n \<ge> 0);
     kassert (nd_ref n < MAX_INODE_COUNT \<and> nd_open n < MAX_INODE_COUNT) }"

definition sfs_fsync :: "'d dev_io \<Rightarrow> nat \<Rightarrow> 'd mount \<Rightarrow> (int \<times> 'd mount) option" where
  "sfs_fsync io a m =
     (let sin = nd_sin (nodes m a) in
      if sin_dirty sin then do {
        (ret, _, s) \<leftarrow> sfs_wbuf io (inode_image (din sin)) (sin_ino sin) 0 (vol m);
        Some (ret, put_sin a (sin\<lparr>sin_dirty := ret \<noteq> 0\<rparr>) s m) }
      else Some (0, m))"

definition vop_fsync :: "'d dev_io \<Rightarrow> nat \<Rightarrow> 'd mount \<Rightarrow> (int \<times> 'd mount) option" where
  "vop_fsync io a m = do { inode_check (nodes m a); sfs_fsync io a m }"

text \<open>\<^verbatim>\<open>vop_truncate\<close>: only files have the operation.\<close>

definition vop_truncate :: "'d dev_io \<Rightarrow> nat \<Rightarrow> int \<Rightarrow> 'd mount \<Rightarrow> (int \<times> 'd mount) option" where
  "vop_truncate io a len m = do {
     kassert (\<not> nd_dir (nodes m a));
     inode_check (nodes m a);
     (ret, sin, s) \<leftarrow> sfs_truncfile io (nd_sin (nodes m a)) len (vol m);
     Some (ret, put_sin a sin s m) }"

text \<open>The three steps of \<^verbatim>\<open>sfs_reclaim\<close> after the test of the counts.\<close>

definition reclaim_truncate :: "'d dev_io \<Rightarrow> nat \<Rightarrow> 'd mount \<Rightarrow> (int \<times> 'd mount) option" where
  "reclaim_truncate io a m = (if di_nlinks (din (nd_sin (nodes m a))) = 0 then vop_truncate io a 0 m else Some (0, m))"

definition reclaim_fsync :: "'d dev_io \<Rightarrow> nat \<Rightarrow> 'd mount \<Rightarrow> (int \<times> 'd mount) option" where
  "reclaim_fsync io a m = (if sin_dirty (nd_sin (nodes m a)) then vop_fsync io a m else Some (0, m))"

definition reclaim_free :: "nat \<Rightarrow> 'd mount \<Rightarrow> 'd mount option" where
  "reclaim_free a m = (let sin = nd_sin (nodes m a) in do {
     s \<leftarrow> (if di_nlinks (din sin) = 0 then do {
         s \<leftarrow> sfs_block_free (sin_ino sin) (vol m);
         if di_indirect (din sin) \<noteq> 0 then sfs_block_free (di_indirect (din sin)) s else Some s }
       else Some (vol m));
     let m = obj_free (nd_din (nodes m a)) (m\<lparr>vol := s\<rparr>);
     kassert (nd_ref (nodes m a) = 0);
     kassert (nd_open (nodes m a) = 0);
     Some (obj_free a m) })"

definition sfs_reclaim :: "'d dev_io \<Rightarrow> nat \<Rightarrow> 'd mount \<Rightarrow> (int \<times> 'd mount) option" where
  "sfs_reclaim io a m = do {
     kassert (reclaim_count (nd_sin (nodes m a)) > 0);
     let m = upd_node a (\<lambda>n. n\<lparr>nd_sin := (nd_sin n)\<lparr>reclaim_count := reclaim_count (nd_sin n) - 1\<rparr>\<rparr>) m;
     if reclaim_count (nd_sin (nodes m a)) \<noteq> 0 \<or> nd_ref (nodes m a) \<noteq> 0 then Some (- E_BUSY, m)
     else do {
       (ret, m) \<leftarrow> reclaim_truncate io a m;
       if ret \<noteq> 0 then Some (ret, m)
       else do {
         (ret, m) \<leftarrow> reclaim_fsync io a m;
         if ret \<noteq> 0 then Some (ret, m)
         else do {
           m \<leftarrow> reclaim_free a (sfs_remove_inode_links a m);
           Some (0, m) } } } }"

text \<open>\<^verbatim>\<open>inode_ref_dec\<close> and \<^verbatim>\<open>inode_open_dec\<close>: a failure to reclaim or to close is only reported.\<close>

definition node_ref_dec :: "'d dev_io \<Rightarrow> nat \<Rightarrow> 'd mount \<Rightarrow> 'd mount option" where
  "node_ref_dec io a m = do {
     kassert (nd_ref (nodes m a) > 0);
     let m = upd_node a (\<lambda>n. n\<lparr>nd_ref := nd_ref n - 1\<rparr>) m;
     if nd_ref (nodes m a) = 0 then do {
       inode_check (nodes m a);
       (_, m) \<leftarrow> sfs_reclaim io a m;
       Some m }
     else Some m }"

definition sfs_close :: "'d dev_io \<Rightarrow> nat \<Rightarrow> 'd mount \<Rightarrow> (int \<times> 'd mount) option" where
  "sfs_close io a m = vop_fsync io a m"

definition node_open_inc :: "nat \<Rightarrow> 'd mount \<Rightarrow> int \<times> 'd mount" where
  "node_open_inc a m = (let m = upd_node a (\<lambda>n. n\<lparr>nd_open := nd_open n + 1\<rparr>) m in (nd_open (nodes m a), m))"

definition node_open_dec :: "'d dev_io \<Rightarrow> nat \<Rightarrow> 'd mount \<Rightarrow> 'd mount option" where
  "node_open_dec io a m = do {
     kassert (nd_open (nodes m a) > 0);
     let m = upd_node a (\<lambda>n. n\<lparr>nd_open := nd_open n - 1\<rparr>) m;
     if nd_open (nodes m a) = 0 then do {
       inode_check (nodes m a);
       (_, m) \<leftarrow> sfs_close io a m;
       Some m }
     else Some m }"

end
