(* ===== verification/Sfs_Dir.thy ===== *)
theory Sfs_Dir
  imports Sfs_Node
begin

text \<open>
  Directories of the simple file system and the entries of its two operation tables
  (\<^verbatim>\<open>kern/fs/sfs/sfs_inode.c\<close>, from \<^verbatim>\<open>sfs_dirent_read_nolock\<close> on). The comparison
  \<^verbatim>\<open>strcmp(name, entry->name) == 0\<close> is equality of the names up to their terminating zero. A
  transfer buffer is in the memory \<open>mem\<close>.
\<close>

section \<open>Reading a directory\<close>

definition sfs_dirent_read_nolock ::
  "'d dev_io \<Rightarrow> sfs_inode \<Rightarrow> nat \<Rightarrow> sfs_disk_entry \<Rightarrow> 'd sfs_fs \<Rightarrow>
    (int \<times> sfs_disk_entry \<times> sfs_inode \<times> 'd sfs_fs) option"
where
  "sfs_dirent_read_nolock io sin slot entry s = do {
     kassert (di_type (din sin) = SFS_TYPE_DIR \<and> slot < di_blocks (din sin));
     (ret, ino, sin, s) \<leftarrow> sfs_bmap_load_nolock io sin slot s;
     if ret \<noteq> 0 then Some (ret, entry, sin, s)
     else do {
       inuse \<leftarrow> sfs_block_inuse ino s;
       kassert inuse;
       (ret, b, s) \<leftarrow> sfs_rbuf io (zeros DENTRY_SIZE) ino 0 s;
       Some (ret, if ret = 0 then entry_of b else entry, sin, s) } }"

text \<open>
  The three loops over the slots of a directory; \<open>n\<close> is the number of slots left. The search
  returns the slot and the inode number it has found, and the last empty slot it has seen.
\<close>

fun search_loop ::
  "'d dev_io \<Rightarrow> string \<Rightarrow> nat \<Rightarrow> nat \<Rightarrow> sfs_disk_entry \<Rightarrow> nat \<Rightarrow> sfs_inode \<Rightarrow> 'd sfs_fs \<Rightarrow>
    (int \<times> (nat \<times> nat) option \<times> nat \<times> sfs_inode \<times> 'd sfs_fs) option"
where
  "search_loop io name i 0 entry gap sin s = Some (- E_NOENT, None, gap, sin, s)"
| "search_loop io name i (Suc n) entry gap sin s = do {
     (ret, entry, sin, s) \<leftarrow> sfs_dirent_read_nolock io sin i entry s;
     if ret \<noteq> 0 then Some (ret, None, gap, sin, s)
     else if de_ino entry = 0 then search_loop io name (i + 1) n entry i sin s
     else if name = cstr (de_name entry) then Some (0, Some (i, de_ino entry), gap, sin, s)
     else search_loop io name (i + 1) n entry gap sin s }"

fun findino_loop ::
  "'d dev_io \<Rightarrow> nat \<Rightarrow> nat \<Rightarrow> nat \<Rightarrow> sfs_disk_entry \<Rightarrow> sfs_inode \<Rightarrow> 'd sfs_fs \<Rightarrow>
    (int \<times> sfs_disk_entry \<times> sfs_inode \<times> 'd sfs_fs) option"
where
  "findino_loop io ino i 0 entry sin s = Some (- E_NOENT, entry, sin, s)"
| "findino_loop io ino i (Suc n) entry sin s = do {
     (ret, entry, sin, s) \<leftarrow> sfs_dirent_read_nolock io sin i entry s;
     if ret \<noteq> 0 then Some (ret, entry, sin, s)
     else if de_ino entry = ino then Some (0, entry, sin, s)
     else findino_loop io ino (i + 1) n entry sin s }"

definition sfs_dirent_findino_nolock ::
  "'d dev_io \<Rightarrow> sfs_inode \<Rightarrow> nat \<Rightarrow> sfs_disk_entry \<Rightarrow> 'd sfs_fs \<Rightarrow>
    (int \<times> sfs_disk_entry \<times> sfs_inode \<times> 'd sfs_fs) option"
where
  "sfs_dirent_findino_nolock io sin ino entry s = findino_loop io ino 0 (di_blocks (din sin)) entry sin s"

fun getdirentry_loop ::
  "'d dev_io \<Rightarrow> nat \<Rightarrow> nat \<Rightarrow> nat \<Rightarrow> sfs_disk_entry \<Rightarrow> sfs_inode \<Rightarrow> 'd sfs_fs \<Rightarrow>
    (int \<times> sfs_disk_entry \<times> sfs_inode \<times> 'd sfs_fs) option"
where
  "getdirentry_loop io slot i 0 entry sin s = Some (- E_NOENT, entry, sin, s)"
| "getdirentry_loop io slot i (Suc n) entry sin s = do {
     (ret, entry, sin, s) \<leftarrow> sfs_dirent_read_nolock io sin i entry s;
     if ret \<noteq> 0 then Some (ret, entry, sin, s)
     else if de_ino entry \<noteq> 0 then
       if slot = 0 then Some (0, entry, sin, s) else getdirentry_loop io (slot - 1) (i + 1) n entry sin s
     else getdirentry_loop io slot (i + 1) n entry sin s }"

definition sfs_getdirentry_sub_nolock ::
  "'d dev_io \<Rightarrow> sfs_inode \<Rightarrow> nat \<Rightarrow> sfs_disk_entry \<Rightarrow> 'd sfs_fs \<Rightarrow>
    (int \<times> sfs_disk_entry \<times> sfs_inode \<times> 'd sfs_fs) option"
where
  "sfs_getdirentry_sub_nolock io sin slot entry s = getdirentry_loop io slot 0 (di_blocks (din sin)) entry sin s"

text \<open>What is in the memory from \<^verbatim>\<open>kmalloc\<close> is not read before it is written.\<close>

definition fresh_entry :: sfs_disk_entry where
  "fresh_entry = \<lparr>de_ino = 0, de_name = zeros sfs_dentry_size\<rparr>"

definition sfs_dirent_search_nolock ::
  "'d dev_io \<Rightarrow> nat \<Rightarrow> string \<Rightarrow> 'd mount \<Rightarrow> (int \<times> (nat \<times> nat) option \<times> nat \<times> 'd mount) option"
where
  "sfs_dirent_search_nolock io a name m = do {
     kassert (length name \<le> SFS_MAX_FNAME_LEN);
     (case obj_alloc m of
        (None, m) \<Rightarrow> Some (- E_NO_MEM, None, 0, m)
      | (Some e, m) \<Rightarrow> do {
          let sin = nd_sin (nodes m a);
          let nslots = di_blocks (din sin);
          (ret, found, gap, sin, s) \<leftarrow> search_loop io name 0 nslots fresh_entry nslots sin (vol m);
          Some (ret, found, gap, obj_free e (put_sin a sin s m)) }) }"

definition sfs_lookup_once ::
  "'d dev_io \<Rightarrow> nat \<Rightarrow> string \<Rightarrow> 'd mount \<Rightarrow> (int \<times> nat option \<times> 'd mount) option"
where
  "sfs_lookup_once io a name m = do {
     (ret, found, _, m) \<leftarrow> sfs_dirent_search_nolock io a name m;
     if ret = 0 then do { (slot, ino) \<leftarrow> found; sfs_load_inode io ino m } else Some (ret, None, m) }"

definition sfs_lookup ::
  "'d dev_io \<Rightarrow> nat \<Rightarrow> string \<Rightarrow> 'd mount \<Rightarrow> (int \<times> nat option \<times> 'd mount) option"
where
  "sfs_lookup io a path m = do {
     kassert (path \<noteq> '''' \<and> hd path \<noteq> CHR ''/'');
     let (_, m) = node_ref_inc a m;
     if di_type (din (nd_sin (nodes m a))) \<noteq> SFS_TYPE_DIR then do {
       m \<leftarrow> node_ref_dec io a m;
       Some (- E_NOTDIR, None, m) }
     else do {
       (ret, sub, m) \<leftarrow> sfs_lookup_once io a path m;
       m \<leftarrow> node_ref_dec io a m;
       Some (ret, if ret \<noteq> 0 then None else sub, m) } }"

section \<open>Opening, transfers and the state of a file\<close>

definition sfs_opendir :: "u32 \<Rightarrow> int" where
  "sfs_opendir flags =
     (if flags AND 3 \<noteq> 0 then - E_ISDIR else if flags AND 0x20 \<noteq> 0 then - E_ISDIR else 0)"

definition sfs_openfile :: "u32 \<Rightarrow> int" where
  "sfs_openfile flags = 0"

definition mem_get :: "nat \<Rightarrow> nat \<Rightarrow> mem \<Rightarrow> bytes" where
  "mem_get p n mem = map mem [p..<p + n]"

definition mem_put :: "nat \<Rightarrow> bytes \<Rightarrow> mem \<Rightarrow> mem" where
  "mem_put p b mem = (\<lambda>q. if p \<le> q \<and> q < p + length b then b ! (q - p) else mem q)"

definition sfs_io ::
  "'d dev_io \<Rightarrow> nat \<Rightarrow> iobuf \<Rightarrow> bool \<Rightarrow> mem \<Rightarrow> 'd mount \<Rightarrow> (int \<times> iobuf \<times> mem \<times> 'd mount) option"
where
  "sfs_io io a iob write mem m = do {
     (ret, alen, b, sin, s) \<leftarrow>
       sfs_io_nolock io (nd_sin (nodes m a)) (mem_get (io_base iob) (io_resid iob) mem) (io_offset iob) write (vol m);
     let mem = mem_put (io_base iob) b mem;
     iob \<leftarrow> (if alen \<noteq> 0 then iobuf_skip iob alen else Some iob);
     Some (ret, iob, mem, put_sin a sin s m) }"

definition sfs_read where "sfs_read io a iob = sfs_io io a iob False"
definition sfs_write where "sfs_write io a iob = sfs_io io a iob True"

definition sfs_gettype :: "nat \<Rightarrow> 'd mount \<Rightarrow> (int \<times> nat) option" where
  "sfs_gettype a m =
     (let type = di_type (din (nd_sin (nodes m a))) in
      if type = SFS_TYPE_DIR then Some (0, S_IFDIR)
      else if type = SFS_TYPE_FILE then Some (0, S_IFREG)
      else if type = SFS_TYPE_LINK then Some (0, S_IFLNK)
      else None)"

definition sfs_fstat :: "nat \<Rightarrow> 'd mount \<Rightarrow> (int \<times> stat) option" where
  "sfs_fstat a m = do {
     inode_check (nodes m a);
     (ret, type) \<leftarrow> sfs_gettype a m;
     let d = din (nd_sin (nodes m a));
     Some (ret, \<lparr>st_mode = type, st_nlinks = di_nlinks d, st_blocks = di_blocks d, st_size = di_size d\<rparr>) }"

definition vop_tryseek :: "'d dev_io \<Rightarrow> nat \<Rightarrow> int \<Rightarrow> 'd mount \<Rightarrow> (int \<times> 'd mount) option" where
  "vop_tryseek io a pos m =
     (if pos < 0 \<or> pos \<ge> int SFS_MAX_FILE_SIZE then Some (- E_INVAL, m)
      else if pos > int (di_size (din (nd_sin (nodes m a)))) then vop_truncate io a pos m
      else Some (0, m))"

section \<open>The name of a directory\<close>

text \<open>
  The loop of \<^verbatim>\<open>sfs_namefile\<close> from a directory up to the root, which is its own parent; on the
  way \<open>node\<close> is held by one reference. \<open>ptr\<close> is where the path found so far starts, at the end of
  the buffer. The loop need not end on a damaged volume: the result is then \<open>None\<close>.
\<close>

definition namefile_failed ::
  "'d dev_io \<Rightarrow> int \<Rightarrow> nat \<Rightarrow> nat \<Rightarrow> nat \<Rightarrow> mem \<Rightarrow> 'd mount \<Rightarrow> (int \<times> nat \<times> nat \<times> mem \<times> 'd mount) option"
where
  "namefile_failed io ret node ptr resid mem m = do { m \<leftarrow> node_ref_dec io node m; Some (ret, ptr, resid, mem, m) }"

partial_function (option) namefile_loop ::
  "'d dev_io \<Rightarrow> nat \<Rightarrow> nat \<Rightarrow> nat \<Rightarrow> sfs_disk_entry \<Rightarrow> mem \<Rightarrow> 'd mount \<Rightarrow>
    (int \<times> nat \<times> nat \<times> mem \<times> 'd mount) option"
where
  "namefile_loop io node ptr resid entry mem m = do {
     (ret, parent, m) \<leftarrow> sfs_lookup_once io node ''..'' m;
     if ret \<noteq> 0 then namefile_failed io ret node ptr resid mem m
     else do {
       parent \<leftarrow> parent;
       let ino = sin_ino (nd_sin (nodes m node));
       m \<leftarrow> node_ref_dec io node m;
       if node = parent then do {
         m \<leftarrow> node_ref_dec io node m;
         Some (0, ptr, resid, mem, m) }
       else do {
         let sin = nd_sin (nodes m parent);
         kassert (ino \<noteq> sin_ino sin \<and> di_type (din sin) = SFS_TYPE_DIR);
         (ret, entry, sin, s) \<leftarrow> sfs_dirent_findino_nolock io sin ino entry (vol m);
         let m = put_sin parent sin s m;
         if ret \<noteq> 0 then namefile_failed io ret parent ptr resid mem m
         else do {
           let name = cstr (de_name entry);
           let alen = length name + 1;
           if alen > resid then namefile_failed io (- E_NO_MEM) parent ptr resid mem m
           else namefile_loop io parent (ptr - alen) (resid - alen) entry
             (mem_put (ptr - alen) (name @ ''/'') mem) m } } } }"

definition sfs_namefile ::
  "'d dev_io \<Rightarrow> nat \<Rightarrow> iobuf \<Rightarrow> mem \<Rightarrow> 'd mount \<Rightarrow> (int \<times> iobuf \<times> mem \<times> 'd mount) option"
where
  "sfs_namefile io a iob mem m =
     (if io_resid iob \<le> 2 then Some (- E_NO_MEM, iob, mem, m)
      else (case obj_alloc m of
        (None, m) \<Rightarrow> Some (- E_NO_MEM, iob, mem, m)
      | (Some e, m) \<Rightarrow> do {
          let (_, m) = node_ref_inc a m;
          (ret, ptr, resid, mem, m) \<leftarrow>
            namefile_loop io a (io_base iob + io_resid iob) (io_resid iob - 2) fresh_entry mem m;
          if ret \<noteq> 0 then Some (ret, iob, mem, obj_free e m)
          else do {
            let alen = io_resid iob - resid - 2;
            let mem = memmove (io_base iob + 1) ptr alen mem;
            let mem = mem(io_base iob := CHR ''/'', io_base iob + 1 + alen := NUL);
            iob \<leftarrow> iobuf_skip iob alen;
            Some (0, iob, mem, obj_free e m) } }))"

section \<open>Listing a directory\<close>

text \<open>\<^verbatim>\<open>iobuf_move\<close> out of the name of an entry.\<close>

definition iobuf_put :: "iobuf \<Rightarrow> bytes \<Rightarrow> mem \<Rightarrow> (int \<times> iobuf \<times> mem) option" where
  "iobuf_put iob b mem = do {
     let alen = (if io_resid iob > length b then length b else io_resid iob);
     iob' \<leftarrow> (if alen > 0 then iobuf_skip iob alen else Some iob);
     Some (if length b - alen = 0 then 0 else - E_NO_MEM, iob', mem_put (io_base iob) (take alen b) mem) }"

definition sfs_getdirentry ::
  "'d dev_io \<Rightarrow> nat \<Rightarrow> iobuf \<Rightarrow> mem \<Rightarrow> 'd mount \<Rightarrow> (int \<times> iobuf \<times> mem \<times> 'd mount) option"
where
  "sfs_getdirentry io a iob mem m = (case obj_alloc m of
     (None, m) \<Rightarrow> Some (- E_NO_MEM, iob, mem, m)
   | (Some e, m) \<Rightarrow>
       let sin = nd_sin (nodes m a); offset = io_offset iob in
       if offset < 0 \<or> offset mod int sfs_dentry_size \<noteq> 0 then Some (- E_INVAL, iob, mem, obj_free e m)
       else let slot = nat offset div sfs_dentry_size in
         if slot > di_blocks (din sin) then Some (- E_NOENT, iob, mem, obj_free e m)
         else do {
           (ret, entry, sin, s) \<leftarrow> sfs_getdirentry_sub_nolock io sin slot fresh_entry (vol m);
           let m = put_sin a sin s m;
           if ret \<noteq> 0 then Some (ret, iob, mem, obj_free e m)
           else do {
             (ret, iob, mem) \<leftarrow> iobuf_put iob (de_name entry) mem;
             Some (ret, iob, mem, obj_free e m) } })"

end
