(* ===== verification/Sfs_Mount.thy ===== *)
theory Sfs_Mount
  imports Sfs_Dir
begin

text \<open>
  Mounting, writing back and unmounting a volume, \<^verbatim>\<open>kern/fs/sfs/sfs_fs.c\<close>. The numbers of
  blocks and the block size of the device are arguments; messages are left out.
\<close>

section \<open>Writing back\<close>

fun sync_inodes :: "'d dev_io \<Rightarrow> nat list \<Rightarrow> 'd mount \<Rightarrow> 'd mount option" where
  "sync_inodes io [] m = Some m"
| "sync_inodes io (a # as) m = do { (_, m) \<leftarrow> vop_fsync io a m; sync_inodes io as m }"

definition sfs_sync :: "'d dev_io \<Rightarrow> 'd mount \<Rightarrow> (int \<times> 'd mount) option" where
  "sfs_sync io m = do {
     m \<leftarrow> sync_inodes io (inode_list m) m;
     if super_dirty (vol m) then do {
       (ret, s) \<leftarrow> sfs_sync_super io ((vol m)\<lparr>super_dirty := False\<rparr>);
       if ret \<noteq> 0 then Some (ret, m\<lparr>vol := s\<lparr>super_dirty := True\<rparr>\<rparr>)
       else do {
         (ret, s) \<leftarrow> sfs_sync_freemap io s;
         if ret \<noteq> 0 then Some (ret, m\<lparr>vol := s\<lparr>super_dirty := True\<rparr>\<rparr>)
         else Some (0, m\<lparr>vol := s\<rparr>) } }
     else Some (0, m) }"

fun cleanup_loop :: "'d dev_io \<Rightarrow> nat \<Rightarrow> int \<Rightarrow> 'd mount \<Rightarrow> (int \<times> 'd mount) option" where
  "cleanup_loop io 0 ret m = Some (ret, m)"
| "cleanup_loop io (Suc n) ret m = do {
     (ret, m) \<leftarrow> sfs_sync io m;
     if ret = 0 then Some (ret, m) else cleanup_loop io n ret m }"

definition sfs_cleanup :: "'d dev_io \<Rightarrow> 'd mount \<Rightarrow> 'd mount option" where
  "sfs_cleanup io m = map_option snd (cleanup_loop io 32 0 m)"

section \<open>The root and unmounting\<close>

definition sfs_get_root :: "'d dev_io \<Rightarrow> 'd mount \<Rightarrow> (nat \<times> 'd mount) option" where
  "sfs_get_root io m = do {
     (ret, node, m) \<leftarrow> sfs_load_inode io SFS_BLKN_ROOT m;
     kassert (ret = 0);
     node \<leftarrow> node;
     Some (node, m) }"

definition sfs_unmount :: "'d mount \<Rightarrow> (int \<times> 'd mount) option" where
  "sfs_unmount m =
     (if inode_list m \<noteq> [] then Some (- E_BUSY, m)
      else do {
        kassert (\<not> super_dirty (vol m));
        let m = obj_free (own m ! 3) (obj_free (own m ! 4) m);
        let m = obj_free (own m ! 0) (obj_free (own m ! 2) (obj_free (own m ! 1) m));
        Some (0, m\<lparr>own := []\<rparr>) })"

section \<open>Mounting\<close>

definition super_of :: "bytes \<Rightarrow> sfs_super" where
  "super_of b = \<lparr>s_magic = dec (take 4 b), s_blocks = dec (take 4 (drop 4 b)),
     s_unused_blocks = dec (take 4 (drop 8 b)),
     s_info = (take (SFS_MAX_INFO_LEN + 1) (drop 12 b))[SFS_MAX_INFO_LEN := NUL]\<rparr>"

definition words_of :: "nat \<Rightarrow> bytes \<Rightarrow> u32 list" where
  "words_of n b = map (\<lambda>i. of_nat (dec (take 4 (drop (i * 4) b)))) [0..<n]"

definition sfs_init_read :: "'d dev_io \<Rightarrow> nat \<Rightarrow> bytes \<Rightarrow> 'd \<Rightarrow> (int \<times> bytes \<times> 'd) option" where
  "sfs_init_read io blkno buf d = io (blkno * SFS_BLKSIZE mod 2 ^ 32) buf False d"

text \<open>The loop of \<^verbatim>\<open>sfs_init_freemap\<close> over the data of the bitmap as bytes.\<close>

fun init_freemap_loop :: "'d dev_io \<Rightarrow> nat \<Rightarrow> nat \<Rightarrow> bytes \<Rightarrow> 'd \<Rightarrow> (int \<times> bytes \<times> 'd) option" where
  "init_freemap_loop io blkno 0 data d = Some (0, data, d)"
| "init_freemap_loop io blkno (Suc n) data d = do {
     (ret, b, d) \<leftarrow> sfs_init_read io blkno (take SFS_BLKSIZE data) d;
     if ret \<noteq> 0 then Some (ret, b @ drop SFS_BLKSIZE data, d)
     else do {
       (ret, rest, d) \<leftarrow> init_freemap_loop io (blkno + 1) n (drop SFS_BLKSIZE data) d;
       Some (ret, b @ rest, d) } }"

definition sfs_init_freemap ::
  "'d dev_io \<Rightarrow> bitmap \<Rightarrow> nat \<Rightarrow> nat \<Rightarrow> 'd \<Rightarrow> (int \<times> bitmap \<times> 'd) option"
where
  "sfs_init_freemap io bm blkno nblks d = do {
     let (ws, len) = bitmap_getdata bm;
     kassert (len = nblks * SFS_BLKSIZE);
     (ret, b, d) \<leftarrow> init_freemap_loop io blkno nblks (concat (map (\<lambda>w. enc 4 (unat w)) ws)) d;
     Some (ret, bm\<lparr>bm_map := words_of (bm_nwords bm) b\<rparr>, d) }"

text \<open>The count of the free blocks, from bit \<open>i\<close> on with \<open>n\<close> bits left.\<close>

fun count_unused :: "bitmap \<Rightarrow> nat \<Rightarrow> nat \<Rightarrow> nat \<Rightarrow> nat option" where
  "count_unused bm i 0 unused = Some unused"
| "count_unused bm i (Suc n) unused = do {
     t \<leftarrow> bitmap_test bm i;
     count_unused bm (i + 1) n (if t then unused + 1 else unused) }"

text \<open>
  The result, the mounted volume, and the device and the heap that are left. The error exits of the
  source release what was allocated, in the opposite order.
\<close>

definition sfs_do_mount ::
  "'d dev_io \<Rightarrow> nat \<Rightarrow> nat \<Rightarrow> nat list \<Rightarrow> 'd \<Rightarrow> (int \<times> 'd mount option \<times> nat list \<times> 'd) option"
where
  "sfs_do_mount io blocksize blocks h d =
     (if blocksize \<noteq> SFS_BLKSIZE then Some (- E_NA_DEV, None, h, d)
      else (case h of
        [] \<Rightarrow> Some (- E_NO_MEM, None, h, d)
      | [fs] \<Rightarrow> Some (- E_NO_MEM, None, h, d)
      | fs # buf # h1 \<Rightarrow> do {
          (ret, b, d) \<leftarrow> sfs_init_read io SFS_BLKN_SUPER (zeros SFS_BLKSIZE) d;
          if ret \<noteq> 0 then Some (ret, None, h, d)
          else if s_magic (super_of b) \<noteq> SFS_MAGIC then Some (- E_INVAL, None, h, d)
          else if s_blocks (super_of b) > blocks then Some (- E_INVAL, None, h, d)
          else (case h1 of
            [] \<Rightarrow> Some (- E_NO_MEM, None, h, d)
          | hl # h2 \<Rightarrow> do {
              let su = super_of b;
              let nbits = sfs_freemap_bits su;
              bm \<leftarrow> bitmap_create (length h2 \<ge> 1) (length h2 \<ge> 2) nbits;
              case bm of None \<Rightarrow> Some (- E_NO_MEM, None, h, d)
              | Some bm \<Rightarrow> do {
                  (ret, bm, d) \<leftarrow> sfs_init_freemap io bm SFS_BLKN_FREEMAP (sfs_freemap_blocks su) d;
                  if ret \<noteq> 0 then Some (ret, None, h, d)
                  else do {
                    unused \<leftarrow> count_unused bm 0 nbits 0;
                    kassert (unused = s_unused_blocks su);
                    Some (0, Some \<lparr>vol = \<lparr>super = su, sfs_dev = d, freemap = bm, super_dirty = False\<rparr>,
                        nodes = \<lambda>_. \<lparr>nd_sin = \<lparr>din = inode_of [], sin_ino = 0, sin_dirty = False, reclaim_count = 0\<rparr>,
                          nd_din = 0, nd_dir = False, nd_ref = 0, nd_open = 0\<rparr>,
                        inode_list = [], hash_list = (\<lambda>_. []), own = take 5 h, heap = drop 5 h\<rparr>, drop 5 h, d) } } }) }))"

end
