(* ===== verification/Sfs_Cache.thy ===== *)
theory Sfs_Cache
  imports Sfs_Mount "HOL-Library.Multiset"
begin

text \<open>
  The table of loaded inodes under every operation of the file system, whatever the device answers:
  there is at most one inode in memory for a number, it is on its hash list, its reclaim count fits
  its references, and every object is in exactly one place.
\<close>

section \<open>What an operation on the data of a file leaves alone\<close>

definition same_inode :: "sfs_inode \<Rightarrow> sfs_inode \<Rightarrow> bool" where
  "same_inode i j \<longleftrightarrow> sin_ino j = sin_ino i \<and> reclaim_count j = reclaim_count i \<and>
     di_type (din j) = di_type (din i) \<and> di_nlinks (din j) = di_nlinks (din i)"

lemma same_inode_refl [simp]: "same_inode i i"
  by (simp add: same_inode_def)

lemma same_inode_trans: "same_inode i j \<Longrightarrow> same_inode j k \<Longrightarrow> same_inode i k"
  by (simp add: same_inode_def)

lemma same_inode_upd [simp]:
  "same_inode i (j\<lparr>sin_dirty := b\<rparr>) = same_inode i j"
  "same_inode i (j\<lparr>din := (din j)\<lparr>di_size := n\<rparr>\<rparr>) = same_inode i j"
  "same_inode i (j\<lparr>din := (din j)\<lparr>di_blocks := n\<rparr>\<rparr>) = same_inode i j"
  "same_inode i (j\<lparr>din := (din j)\<lparr>di_direct := l\<rparr>\<rparr>) = same_inode i j"
  "same_inode i (j\<lparr>din := (din j)\<lparr>di_indirect := n\<rparr>\<rparr>) = same_inode i j"
  "same_inode i (j\<lparr>din := (din j)\<lparr>di_size := n\<rparr>, sin_dirty := b\<rparr>) = same_inode i j"
  "same_inode i (j\<lparr>din := (din j)\<lparr>di_blocks := n\<rparr>, sin_dirty := b\<rparr>) = same_inode i j"
  "same_inode i (j\<lparr>din := (din j)\<lparr>di_direct := l\<rparr>, sin_dirty := b\<rparr>) = same_inode i j"
  "same_inode i (j\<lparr>din := (din j)\<lparr>di_indirect := n\<rparr>, sin_dirty := b\<rparr>) = same_inode i j"
  by (simp_all add: same_inode_def)

lemmas bind_cases = Option.bind_eq_Some_conv

lemma bmap_out_same: "bmap_out ino sin s = Some (r, x, sin', s') \<Longrightarrow> sin' = sin"
  by (auto simp: bmap_out_def bind_cases split: if_splits)

lemma bmap_get_same:
  "sfs_bmap_get_nolock io sin i c s = Some (r, x, sin', s') \<Longrightarrow> same_inode sin sin'"
  by (auto simp: sfs_bmap_get_nolock_def bind_cases upd_din_def dest!: bmap_out_same split: if_splits)

lemma bmap_load_same:
  "sfs_bmap_load_nolock io sin i s = Some (r, x, sin', s') \<Longrightarrow> same_inode sin sin'"
  by (auto simp: sfs_bmap_load_nolock_def Let_def bind_cases upd_din_def dest!: bmap_get_same split: if_splits)

lemma bmap_free_same: "sfs_bmap_free_nolock io sin i s = Some (r, sin', s') \<Longrightarrow> same_inode sin sin'"
  by (auto simp: sfs_bmap_free_nolock_def bind_cases upd_din_def Let_def split: if_splits)

lemma bmap_truncate_same: "sfs_bmap_truncate_nolock io sin s = Some (r, sin', s') \<Longrightarrow> same_inode sin sin'"
  by (auto simp: sfs_bmap_truncate_nolock_def bind_cases upd_din_def dest!: bmap_free_same split: if_splits)

lemma io_part_same: "io_part io op sin buf i s = Some (r, b, sin', s') \<Longrightarrow> same_inode sin sin'"
  by (auto simp: io_part_def bind_cases dest!: bmap_load_same split: if_splits)

lemma io_blocks_same: "io_blocks io w n i sin buf s = Some (r, b, sin', s') \<Longrightarrow> same_inode sin sin'"
proof (induction n arbitrary: i sin buf s r b sin' s')
  case (Suc n)
  then show ?case
    by (auto simp: bind_cases split: if_splits dest!: io_part_same Suc.IH intro: same_inode_trans)
qed simp

lemma io_transfer_same: "io_transfer io w sin buf off e s = Some (r, b, sin', s') \<Longrightarrow> same_inode sin sin'"
  by (auto simp: io_transfer_def bind_cases Let_def split: if_splits dest!: io_part_same io_blocks_same
      intro: same_inode_trans)

lemma io_nolock_same: "sfs_io_nolock io sin buf off w s = Some (r, n, b, sin', s') \<Longrightarrow> same_inode sin sin'"
  by (auto simp: sfs_io_nolock_def bind_cases Let_def upd_din_def split: if_splits dest!: io_transfer_same)

lemma grow_same: "grow_loop io n i sin s = Some (r, sin', s') \<Longrightarrow> same_inode sin sin'"
proof (induction n arbitrary: i sin s)
  case (Suc n)
  then show ?case
    by (auto simp: bind_cases split: if_splits dest!: bmap_load_same Suc.IH intro: same_inode_trans)
qed simp

lemma shrink_same: "shrink_loop io n sin s = Some (r, sin', s') \<Longrightarrow> same_inode sin sin'"
proof (induction n arbitrary: sin s)
  case (Suc n)
  then show ?case
    by (auto simp: bind_cases split: if_splits dest!: bmap_truncate_same Suc.IH intro: same_inode_trans)
qed simp

lemma truncfile_same: "sfs_truncfile io sin len s = Some (r, sin', s') \<Longrightarrow> same_inode sin sin'"
  by (auto simp: sfs_truncfile_def bind_cases Let_def upd_din_def split: if_splits dest!: grow_same shrink_same)

lemma dirent_read_same: "sfs_dirent_read_nolock io sin i e s = Some (r, e', sin', s') \<Longrightarrow> same_inode sin sin'"
  by (auto simp: sfs_dirent_read_nolock_def bind_cases split: if_splits dest!: bmap_load_same)

lemma search_same: "search_loop io name i n e g sin s = Some (r, f, g', sin', s') \<Longrightarrow> same_inode sin sin'"
proof (induction n arbitrary: i e g sin s)
  case (Suc n)
  then show ?case
    by (auto simp: bind_cases split: if_splits dest!: dirent_read_same Suc.IH intro: same_inode_trans)
qed simp

lemma findino_same: "findino_loop io ino i n e sin s = Some (r, e', sin', s') \<Longrightarrow> same_inode sin sin'"
proof (induction n arbitrary: i e sin s)
  case (Suc n)
  then show ?case
    by (auto simp: bind_cases split: if_splits dest!: dirent_read_same Suc.IH intro: same_inode_trans)
qed simp

lemma getdirentry_same: "getdirentry_loop io k i n e sin s = Some (r, e', sin', s') \<Longrightarrow> same_inode sin sin'"
proof (induction n arbitrary: k i e sin s)
  case (Suc n)
  then show ?case
    by (auto simp: bind_cases split: if_splits dest!: dirent_read_same Suc.IH intro: same_inode_trans)
qed simp
section \<open>Inodes and objects\<close>

abbreviation ino_at :: "'d mount \<Rightarrow> nat \<Rightarrow> nat" where "ino_at m a \<equiv> sin_ino (nd_sin (nodes m a))"

text \<open>An operation on the data of files; it may change blocks, sizes and dirty marks.\<close>

definition data_step :: "'d mount \<Rightarrow> 'd mount \<Rightarrow> bool" where
  "data_step m m' \<longleftrightarrow> inode_list m' = inode_list m \<and> hash_list m' = hash_list m \<and> own m' = own m \<and> heap m' = heap m \<and>
     (\<forall>a. same_inode (nd_sin (nodes m a)) (nd_sin (nodes m' a)) \<and> nd_din (nodes m' a) = nd_din (nodes m a) \<and>
       nd_dir (nodes m' a) = nd_dir (nodes m a) \<and> nd_ref (nodes m' a) = nd_ref (nodes m a) \<and>
       nd_open (nodes m' a) = nd_open (nodes m a))"

lemma data_step_refl [simp]: "data_step m m"
  by (simp add: data_step_def)

lemma data_step_trans: "data_step m m1 \<Longrightarrow> data_step m1 m2 \<Longrightarrow> data_step m m2"
  by (auto simp: data_step_def intro: same_inode_trans)

lemma data_step_vol [simp]: "data_step m (m\<lparr>vol := s\<rparr>)"
  by (simp add: data_step_def)

lemma data_step_put: "same_inode (nd_sin (nodes m a)) sin \<Longrightarrow> data_step m (put_sin a sin s m)"
  by (simp add: data_step_def put_sin_def upd_node_def)

definition node_ok :: "sfs_node \<Rightarrow> bool" where
  "node_ok n \<longleftrightarrow> reclaim_count (nd_sin n) = (if nd_ref n > 0 then 1 else 0) \<and> 0 \<le> nd_open n \<and> nd_open n \<le> nd_ref n \<and>
     (nd_dir n \<longleftrightarrow> di_type (din (nd_sin n)) = SFS_TYPE_DIR) \<and> di_nlinks (din (nd_sin n)) \<noteq> 0"

definition objects :: "'d mount \<Rightarrow> nat multiset" where
  "objects m = mset (heap m) + mset (own m) + mset (inode_list m) + mset (map (\<lambda>a. nd_din (nodes m a)) (inode_list m))"

definition cache_ok :: "'d mount \<Rightarrow> bool" where
  "cache_ok m \<longleftrightarrow> distinct (inode_list m) \<and> inj_on (ino_at m) (set (inode_list m)) \<and>
     (\<forall>h. distinct (hash_list m h) \<and> set (hash_list m h) = {a \<in> set (inode_list m). sin_hashfn (ino_at m a) = h}) \<and>
     (\<forall>a \<in> set (inode_list m). node_ok (nodes m a))"

lemma cache_okD:
  assumes "cache_ok m"
  shows "distinct (inode_list m)" "inj_on (ino_at m) (set (inode_list m))" "distinct (hash_list m h)"
    "a \<in> set (hash_list m h) \<longleftrightarrow> a \<in> set (inode_list m) \<and> sin_hashfn (ino_at m a) = h"
    "a \<in> set (inode_list m) \<Longrightarrow> node_ok (nodes m a)"
  using assms by (auto simp: cache_ok_def)

lemma cache_ok_cong:
  assumes "inode_list m' = inode_list m" "hash_list m' = hash_list m" "\<And>a. ino_at m' a = ino_at m a"
    and "\<And>a. a \<in> set (inode_list m) \<Longrightarrow> node_ok (nodes m' a)" and "cache_ok m"
  shows "cache_ok m'"
  using assms(4,5) unfolding cache_ok_def inj_on_def assms(1-3) by blast

lemma objects_cong:
  assumes "inode_list m' = inode_list m" "own m' = own m" "heap m' = heap m" "\<And>a. nd_din (nodes m' a) = nd_din (nodes m a)"
  shows "objects m' = objects m"
  by (simp only: objects_def assms)

lemma cache_ok_data:
  assumes "data_step m m'" and "cache_ok m"
  shows "cache_ok m'" and "objects m' = objects m"
proof -
  have e: "inode_list m' = inode_list m" "hash_list m' = hash_list m" "own m' = own m" "heap m' = heap m"
    "\<And>a. ino_at m' a = ino_at m a" "\<And>a. node_ok (nodes m' a) = node_ok (nodes m a)"
    "\<And>a. nd_din (nodes m' a) = nd_din (nodes m a)"
    using assms(1) by (auto simp: data_step_def same_inode_def node_ok_def)
  show "cache_ok m'" by (rule cache_ok_cong [OF e(1,2,5) _ assms(2)]) (use e(6) cache_okD(5) [OF assms(2)] in simp)
  show "objects m' = objects m" by (rule objects_cong [OF e(1,3,4,7)])
qed

lemma find_the: "a \<in> set xs \<Longrightarrow> P a \<Longrightarrow> (\<And>b. b \<in> set xs \<Longrightarrow> P b \<Longrightarrow> b = a) \<Longrightarrow> find P xs = Some a"
proof (induction xs)
  case (Cons x xs)
  show ?case
  proof (cases "P x")
    case True
    then have "x = a" by (intro Cons.prems(3)) simp_all
    with True show ?thesis by simp
  next
    case False
    then have "a \<in> set xs" using Cons.prems(1,2) by auto
    then have "find P xs = Some a" by (rule Cons.IH [OF _ Cons.prems(2)]) (rule Cons.prems(3), simp_all)
    with False show ?thesis by simp
  qed
qed simp

text \<open>The inode with the number of \<open>a\<close> is found on its hash list.\<close>

lemma cached_at:
  assumes "cache_ok m" and "a \<in> set (inode_list m)"
  shows "find (\<lambda>b. ino_at m b = ino_at m a) (hash_list m (sin_hashfn (ino_at m a))) = Some a"
proof -
  have in_h: "a \<in> set (hash_list m (sin_hashfn (ino_at m a)))" using cache_okD(4) [OF assms(1)] assms(2) by simp
  have "b = a" if "b \<in> set (hash_list m (sin_hashfn (ino_at m a)))" "ino_at m b = ino_at m a" for b
    using that cache_okD(4) [OF assms(1)] assms(2) inj_onD [OF cache_okD(2) [OF assms(1)]] by blast
  with in_h show ?thesis by (intro find_the) auto
qed

section \<open>The operations\<close>

lemma upd_node_simps [simp]:
  "inode_list (upd_node a f m) = inode_list m" "hash_list (upd_node a f m) = hash_list m"
  "own (upd_node a f m) = own m" "heap (upd_node a f m) = heap m" "vol (upd_node a f m) = vol m"
  "nodes (upd_node a f m) = (nodes m)(a := f (nodes m a))"
  by (simp_all add: upd_node_def)

lemma obj_simps [simp]:
  "inode_list (obj_free p m) = inode_list m" "hash_list (obj_free p m) = hash_list m"
  "own (obj_free p m) = own m" "heap (obj_free p m) = p # heap m" "vol (obj_free p m) = vol m"
  "nodes (obj_free p m) = nodes m"
  by (simp_all add: obj_free_def)

lemma obj_alloc_cases:
  obtains "heap m = []" and "obj_alloc m = (None, m)"
  | p where "obj_alloc m = (Some p, m\<lparr>heap := tl (heap m)\<rparr>)" and "heap m = p # tl (heap m)"
  by (cases "heap m") (auto simp: obj_alloc_def)

lemma obj_cycle: "heap m = p # h \<Longrightarrow> obj_free p (m\<lparr>heap := h\<rparr>) = m"
  by (simp add: obj_free_def)

lemma fsync_data: "sfs_fsync io a m = Some (r, m') \<Longrightarrow> data_step m m'"
  by (auto simp: sfs_fsync_def Let_def bind_cases split: if_splits intro!: data_step_put)

lemma vop_fsync_data: "vop_fsync io a m = Some (r, m') \<Longrightarrow> data_step m m'"
  by (auto simp: vop_fsync_def bind_cases dest: fsync_data)

lemma vop_truncate_data: "vop_truncate io a len m = Some (r, m') \<Longrightarrow> data_step m m'"
  by (auto simp: vop_truncate_def bind_cases intro!: data_step_put dest: truncfile_same)

lemma io_data: "sfs_io io a iob w mem m = Some (r, iob', mem', m') \<Longrightarrow> data_step m m'"
  by (auto simp: sfs_io_def bind_cases Let_def intro!: data_step_put dest: io_nolock_same)

lemma tryseek_data: "vop_tryseek io a pos m = Some (r, m') \<Longrightarrow> data_step m m'"
  by (auto simp: vop_tryseek_def split: if_splits dest: vop_truncate_data)

lemma search_data:
  assumes "sfs_dirent_search_nolock io a name m = Some (r, f, g, m')"
  shows "data_step m m'"
  using assms
  by (cases rule: obj_alloc_cases [of m])
    (auto simp: sfs_dirent_search_nolock_def bind_cases Let_def data_step_def put_sin_def upd_node_def obj_free_def
      split: if_splits dest: search_same)

lemma getdirentry_data:
  assumes "sfs_getdirentry io a iob mem m = Some (r, iob', mem', m')"
  shows "data_step m m'"
  using assms
  by (cases rule: obj_alloc_cases [of m])
    (auto simp: sfs_getdirentry_def sfs_getdirentry_sub_nolock_def bind_cases Let_def data_step_def put_sin_def
      upd_node_def obj_free_def split: if_splits dest: getdirentry_same)

lemma sync_inodes_data: "sync_inodes io as m = Some m' \<Longrightarrow> data_step m m'"
proof (induction "as" arbitrary: m)
  case (Cons a as)
  then show ?case by (auto simp: bind_cases dest!: vop_fsync_data Cons.IH intro: data_step_trans)
qed simp

lemma sync_data:
  assumes "sfs_sync io m = Some (r, m')"
  shows "data_step m m'"
proof -
  obtain m1 where m1: "sync_inodes io (inode_list m) m = Some m1" "\<exists>s. m' = m1\<lparr>vol := s\<rparr>"
    using assms by (auto simp: sfs_sync_def bind_cases split: if_splits) (metis mount.surjective mount.update_convs(1))+
  then show ?thesis using sync_inodes_data [OF m1(1)] data_step_trans by fastforce
qed
section \<open>References\<close>

definition refs :: "'d mount \<Rightarrow> nat \<Rightarrow> int" where
  "refs m a = (if a \<in> set (inode_list m) then nd_ref (nodes m a) else 0)"

definition opens :: "'d mount \<Rightarrow> nat \<Rightarrow> int" where
  "opens m a = (if a \<in> set (inode_list m) then nd_open (nodes m a) else 0)"

definition cache_inv :: "'d mount \<Rightarrow> bool" where
  "cache_inv m \<longleftrightarrow> cache_ok m \<and> (\<forall>x. count (objects m) x \<le> 1)"

text \<open>A step that keeps the table right and the objects where they belong, with the references given.\<close>

definition kept :: "'d mount \<Rightarrow> (nat \<Rightarrow> int) \<Rightarrow> (nat \<Rightarrow> int) \<Rightarrow> 'd mount \<Rightarrow> bool" where
  "kept m r k m' \<longleftrightarrow> cache_inv m' \<and> objects m' = objects m \<and> refs m' = r \<and> opens m' = k \<and> own m' = own m"

lemma keptD:
  assumes "kept m r k m'"
  shows "cache_inv m'" "objects m' = objects m" "refs m' = r" "opens m' = k" "own m' = own m"
  using assms by (simp_all add: kept_def)

lemma kept_refl: "cache_inv m \<Longrightarrow> kept m (refs m) (opens m) m"
  by (simp add: kept_def)

lemma kept_data:
  assumes "data_step m m'" and "cache_inv m"
  shows "kept m (refs m) (opens m) m'"
  using assms cache_ok_data [OF assms(1)] unfolding cache_inv_def kept_def refs_def opens_def data_step_def by auto

lemma kept_after_data:
  assumes "data_step m m1" and "cache_inv m" and "\<And>r k. kept m1 (refs m1) (opens m1) m1 \<Longrightarrow> P"
  shows P
  using assms kept_data [OF assms(1,2)] by (auto simp: kept_def)

text \<open>A step on the counts of one loaded inode.\<close>

lemma kept_upd:
  assumes inv: "cache_inv m" and a: "a \<in> set (inode_list m)" and f: "node_ok n"
    "sin_ino (nd_sin n) = ino_at m a" "nd_din n = nd_din (nodes m a)"
  shows "kept m ((refs m)(a := nd_ref n)) ((opens m)(a := nd_open n)) (upd_node a (\<lambda>_. n) m)"
proof -
  let ?m = "upd_node a (\<lambda>_. n) m"
  have ino: "\<And>b. ino_at ?m b = ino_at m b" "\<And>b. nd_din (nodes ?m b) = nd_din (nodes m b)" using f by simp_all
  have "cache_ok ?m"
    by (rule cache_ok_cong [OF _ _ ino(1)]) (use f(1) inv in \<open>auto simp: cache_inv_def intro: cache_okD(5)\<close>)
  moreover have "objects ?m = objects m" by (rule objects_cong [OF _ _ _ ino(2)]) simp_all
  ultimately show ?thesis
    using inv a by (auto simp: kept_def cache_inv_def refs_def opens_def fun_eq_iff)
qed

lemma in_cacheD:
  assumes "refs m a \<noteq> 0" shows "a \<in> set (inode_list m)" "nd_ref (nodes m a) = refs m a" "nd_open (nodes m a) = opens m a"
  using assms by (auto simp: refs_def opens_def split: if_splits)

lemma cache_inv_node: "cache_inv m \<Longrightarrow> a \<in> set (inode_list m) \<Longrightarrow> node_ok (nodes m a)"
  by (simp add: cache_inv_def cache_ok_def)

lemma upd_node_const: "upd_node a f m = upd_node a (\<lambda>_. f (nodes m a)) m"
  by (simp add: upd_node_def)

lemma ref_inc_kept:
  assumes "cache_inv m" and "refs m a > 0" and "node_ref_inc a m = (r, m')"
  shows "kept m ((refs m)(a := refs m a + 1)) (opens m) m'"
proof -
  have a: "a \<in> set (inode_list m)" "nd_ref (nodes m a) = refs m a" "nd_open (nodes m a) = opens m a"
    using in_cacheD [of m a] assms(2) by auto
  let ?n = "(nodes m a)\<lparr>nd_ref := nd_ref (nodes m a) + 1\<rparr>"
  have "node_ok ?n" using cache_inv_node [OF assms(1) a(1)] assms(2) a(2) by (simp add: node_ok_def)
  from kept_upd [OF assms(1) a(1) this] show ?thesis
    using assms(3) a by (simp add: node_ref_inc_def Let_def) (subst (asm) (2) upd_node_const, auto simp: fun_upd_idem)
qed

lemma open_inc_kept:
  assumes "cache_inv m" and "opens m a < refs m a" and "node_open_inc a m = (r, m')"
  shows "kept m (refs m) ((opens m)(a := opens m a + 1)) m'"
proof -
  have "refs m a \<noteq> 0" using assms by (auto simp: refs_def opens_def cache_inv_def cache_ok_def node_ok_def split: if_splits)
  from in_cacheD [OF this] have a: "a \<in> set (inode_list m)" "nd_ref (nodes m a) = refs m a" "nd_open (nodes m a) = opens m a" .
  let ?n = "(nodes m a)\<lparr>nd_open := nd_open (nodes m a) + 1\<rparr>"
  have "node_ok ?n" using cache_inv_node [OF assms(1) a(1)] assms(2) a by (auto simp: node_ok_def)
  from kept_upd [OF assms(1) a(1) this] show ?thesis
    using assms(3) a by (simp add: node_open_inc_def Let_def) (subst (asm) (2) upd_node_const, auto simp: fun_upd_idem)
qed
section \<open>Loading an inode\<close>

lemma lookup_kept:
  assumes inv: "cache_inv m" and l: "lookup_sfs_nolock ino m = (x, m')"
  obtains (miss) "x = None" "m' = m" "\<And>a. a \<in> set (inode_list m) \<Longrightarrow> ino_at m a \<noteq> ino"
  | (hit) a where "x = Some a" "a \<in> set (inode_list m)" "ino_at m a = ino"
      "kept m ((refs m)(a := refs m a + 1)) (opens m) m'" "ino_at m' a = ino" "inode_list m' = inode_list m"
proof (cases "find (\<lambda>a. ino_at m a = ino) (hash_list m (sin_hashfn ino))")
  case None
  have "ino_at m a \<noteq> ino" if "a \<in> set (inode_list m)" for a
    using None that cached_at [of m a] inv by (auto simp: cache_inv_def)
  with None l miss show ?thesis by (simp add: lookup_sfs_nolock_def)
next
  case (Some a)
  then have a: "a \<in> set (inode_list m)" "ino_at m a = ino"
    using inv cache_okD(4) [of m a "sin_hashfn ino"] by (auto simp: cache_inv_def find_Some_iff)
  let ?n = "nodes m a"
  define c where "c = (if nd_ref ?n + 1 = 1 then reclaim_count (nd_sin ?n) + 1 else reclaim_count (nd_sin ?n))"
  define n where "n = ?n\<lparr>nd_ref := nd_ref ?n + 1, nd_sin := (nd_sin ?n)\<lparr>reclaim_count := c\<rparr>\<rparr>"
  have m': "m' = upd_node a (\<lambda>_. n) m" and x: "x = Some a"
    using l Some by (auto simp: lookup_sfs_nolock_def node_ref_inc_def Let_def upd_node_def n_def c_def split: if_splits)
  have "node_ok n" using cache_inv_node [OF inv a(1)] by (auto simp: node_ok_def n_def c_def split: if_splits)
  from kept_upd [OF inv a(1) this] have "kept m ((refs m)(a := refs m a + 1)) (opens m) m'"
    using a by (simp add: m') (auto simp: n_def refs_def opens_def fun_upd_idem)
  then show ?thesis using a x by (intro hit [of a]) (simp_all add: m' n_def)
qed

lemma heap_apart:
  assumes "cache_inv m" and "x \<in> set (heap m)"
  shows "x \<notin> set (inode_list m)"
proof
  assume "x \<in> set (inode_list m)"
  then have "count (mset (heap m)) x \<ge> 1" "count (mset (inode_list m)) x \<ge> 1"
    using assms(2) by (simp_all add: Suc_le_eq)
  then have "count (objects m) x \<ge> 2" unfolding objects_def count_union by linarith
  with assms(1) show False by (auto simp: cache_inv_def dest!: spec [of _ x])
qed

lemma insert_kept:
  assumes inv: "cache_inv m" and h: "heap m = p # a # h" and new: "\<And>b. b \<in> set (inode_list m) \<Longrightarrow> ino_at m b \<noteq> sin_ino (nd_sin n)"
    and n: "node_ok n" "nd_din n = p" "nd_open n = 0"
    and m': "m' = sfs_set_inode_links a (upd_node a (\<lambda>_. n) (m\<lparr>vol := s, heap := h\<rparr>))"
  shows "kept m ((refs m)(a := nd_ref n)) (opens m) m'" and "refs m a = 0" and "a \<notin> set (inode_list m)"
proof -
  show a: "a \<notin> set (inode_list m)" using heap_apart [OF inv, of a] h by simp
  then show "refs m a = 0" by (simp add: refs_def)
  have c: "cache_ok m" using inv by (simp add: cache_inv_def)
  have nh: "a \<notin> set (hash_list m k)" for k using a cache_okD(4) [OF c] by simp
  have l: "inode_list m' = a # inode_list m" and nod: "nodes m' = (nodes m)(a := n)"
    and hl: "\<And>k. hash_list m' k = (if k = sin_hashfn (sin_ino (nd_sin n)) then a # hash_list m k else hash_list m k)"
    by (simp_all add: m' sfs_set_inode_links_def Let_def)
  have ino: "ino_at m' b = (if b = a then sin_ino (nd_sin n) else ino_at m b)" for b by (simp add: nod)
  have "inj_on (ino_at m') (set (inode_list m'))"
    using cache_okD(2) [OF c] new a unfolding inj_on_def l ino by (simp add: eq_commute)
  moreover have "distinct (hash_list m' k) \<and> set (hash_list m' k) = {b \<in> set (inode_list m'). sin_hashfn (ino_at m' b) = k}" for k
    using cache_okD(3,4) [OF c] nh a unfolding hl l ino by auto
  moreover have "\<forall>b \<in> set (inode_list m'). node_ok (nodes m' b)"
    using cache_okD(5) [OF c] n(1) by (auto simp: l nod)
  ultimately have "cache_ok m'" using cache_okD(1) [OF c] a by (simp add: cache_ok_def l)
  moreover have o: "objects m' = objects m"
  proof -
    have d: "map (\<lambda>b. nd_din (nodes m' b)) (inode_list m) = map (\<lambda>b. nd_din (nodes m b)) (inode_list m)"
      using a by (auto simp: nod)
    have p: "heap m' = h" "own m' = own m" "nd_din (nodes m' a) = p"
      using n(2) by (simp_all add: m' sfs_set_inode_links_def Let_def)
    show ?thesis unfolding objects_def l list.map d h p by simp
  qed
  moreover have "own m' = own m" by (simp add: m' sfs_set_inode_links_def Let_def)
  ultimately show "kept m ((refs m)(a := nd_ref n)) (opens m) m'"
    using inv a n(3) by (auto simp: kept_def cache_inv_def refs_def opens_def l nod fun_eq_iff)
qed

text \<open>The result of loading an inode, for any answers of the device.\<close>

lemma load_kept:
  assumes inv: "cache_inv m" and l: "sfs_load_inode io ino m = Some (r, x, m')"
  obtains (failed) "r \<noteq> 0" "x = None" "kept m (refs m) (opens m) m'"
  | (loaded) a where "r = 0" "x = Some a" "refs m a \<ge> 0" "kept m ((refs m)(a := refs m a + 1)) (opens m) m'"
      "ino_at m' a = ino" "a \<in> set (inode_list m')"
proof (cases "lookup_sfs_nolock ino m")
  case (Pair y m1)
  show ?thesis
    using inv Pair
  proof (cases rule: lookup_kept)
    case (hit a)
    then have "refs m a \<ge> 0" using cache_inv_node [OF inv hit(2)] by (auto simp: refs_def node_ok_def split: if_splits)
    then show ?thesis using l Pair hit by (intro loaded [of a]) (auto simp: sfs_load_inode_def)
  next
    case miss
    show ?thesis
    proof (cases rule: obj_alloc_cases [of m])
      case 1
      then show ?thesis
        using l Pair miss kept_refl [OF inv] by (intro failed) (auto simp: sfs_load_inode_def E_NO_MEM_def)
    next
      case (2 p)
      then obtain ret b s where b: "sfs_rbuf io (zeros DINODE_SIZE) ino 0 (vol m) = Some (ret, b, s)"
        using l Pair miss by (auto simp: sfs_load_inode_def bind_cases)
      have cyc: "obj_free p (m\<lparr>heap := tl (heap m), vol := s\<rparr>) = m\<lparr>vol := s\<rparr>"
        using obj_cycle [of "m\<lparr>vol := s\<rparr>" p "tl (heap m)"] 2(2) by simp
      have keep: "kept m (refs m) (opens m) (m\<lparr>vol := s\<rparr>)" by (rule kept_data [OF _ inv]) simp
      show ?thesis
      proof (cases "ret = 0")
        case False
        then show ?thesis
          using l Pair miss 2(1) b cyc keep by (intro failed) (auto simp: sfs_load_inode_def bind_cases)
      next
        case True
        show ?thesis
        proof (cases "tl (heap m)")
          case Nil
          then show ?thesis
            using l Pair miss 2(1) b cyc keep True
            by (intro failed) (auto simp: sfs_load_inode_def bind_cases sfs_create_inode_def obj_alloc_def E_NO_MEM_def)
        next
          case (Cons a h)
          obtain dir where dir: "sfs_get_ops (di_type (inode_of b)) = Some dir" "di_nlinks (inode_of b) \<noteq> 0"
            using l Pair miss 2(1) b True Cons
            by (auto simp: sfs_load_inode_def bind_cases sfs_create_inode_def obj_alloc_def)
          define n where "n = \<lparr>nd_sin = \<lparr>din = inode_of b, sin_ino = ino, sin_dirty = False, reclaim_count = 1\<rparr>,
            nd_din = p, nd_dir = dir, nd_ref = 1, nd_open = 0\<rparr>"
          have m': "m' = sfs_set_inode_links a (upd_node a (\<lambda>_. n) (m\<lparr>vol := s, heap := h\<rparr>))" "r = 0" "x = Some a"
            using l Pair miss 2(1) b True Cons dir
            by (auto simp: sfs_load_inode_def bind_cases sfs_create_inode_def obj_alloc_def n_def)
          have nok: "node_ok n" "nd_din n = p" "nd_open n = 0" "nd_ref n = 1" "sin_ino (nd_sin n) = ino"
            using dir by (auto simp: n_def node_ok_def sfs_get_ops_def SFS_TYPE_FILE_def SFS_TYPE_DIR_def split: if_splits)
          have heap: "heap m = p # a # h" using 2(2) Cons by simp
          note k = insert_kept [OF inv heap _ nok(1-3) m'(1)]
          have "ino_at m' a = ino" "a \<in> set (inode_list m')" by (simp_all add: m'(1) sfs_set_inode_links_def Let_def nok)
          then show ?thesis
            using k nok m'(2,3) miss(3) by (intro loaded [of a]) simp_all
        qed
      qed
    qed
  qed
qed
section \<open>Giving up a reference\<close>

lemma remove_kept:
  assumes inv: "cache_inv m" and a: "a \<in> set (inode_list m)"
    and m': "m' = obj_free a (obj_free (nd_din (nodes m a)) ((sfs_remove_inode_links a m)\<lparr>vol := s\<rparr>))"
  shows "kept m ((refs m)(a := 0)) ((opens m)(a := 0)) m'"
proof -
  have c: "cache_ok m" using inv by (simp add: cache_inv_def)
  have l: "inode_list m' = remove1 a (inode_list m)" and nod: "nodes m' = nodes m"
    and hl: "\<And>k. hash_list m' k = (if k = sin_hashfn (ino_at m a) then remove1 a (hash_list m k) else hash_list m k)"
    and hp: "heap m' = a # nd_din (nodes m a) # heap m" "own m' = own m"
    by (simp_all add: m' sfs_remove_inode_links_def Let_def)
  have s': "set (inode_list m') = set (inode_list m) - {a}" using cache_okD(1) [OF c] by (simp add: l)
  have "inj_on (ino_at m') (set (inode_list m'))"
    using cache_okD(2) [OF c] unfolding s' nod by (auto simp: inj_on_def)
  moreover have "distinct (hash_list m' k) \<and> set (hash_list m' k) = {b \<in> set (inode_list m'). sin_hashfn (ino_at m' b) = k}" for k
    using cache_okD(3,4) [OF c] unfolding hl s' nod by auto
  ultimately have "cache_ok m'" using cache_okD(1,5) [OF c] by (simp add: cache_ok_def s' nod) (simp add: l)
  moreover have "objects m' = objects m"
  proof -
    have e: "add_mset a (mset (remove1 a (inode_list m))) = mset (inode_list m)" using a by simp
    from this have d: "add_mset (nd_din (nodes m a)) (mset (map (\<lambda>b. nd_din (nodes m b)) (remove1 a (inode_list m)))) =
        mset (map (\<lambda>b. nd_din (nodes m b)) (inode_list m))"
      by (metis image_mset_add_mset mset_map)
    show ?thesis unfolding objects_def hp l nod mset.simps e [symmetric] d [symmetric]
      by (simp add: ac_simps del: mset_remove1 mset_map)
  qed
  ultimately show ?thesis
    using inv by (auto simp: kept_def cache_inv_def refs_def opens_def s' nod hp(2) fun_eq_iff)
qed

lemma kept_trans:
  assumes "kept m r k m1" and "kept m1 r' k' m2"
  shows "kept m r' k' m2"
  using assms by (simp add: kept_def)

lemma reclaim_fsync_data: "reclaim_fsync io a m = Some (r, m') \<Longrightarrow> data_step m m'"
  by (auto simp: reclaim_fsync_def split: if_splits dest: vop_fsync_data)

text \<open>The last reference of a loaded inode; no inode is loaded without links.\<close>

lemma reclaim_kept:
  assumes inv: "cache_inv m" and a: "a \<in> set (inode_list m)" "refs m a = 1" "opens m a = 0"
    and n: "n = (nodes m a)\<lparr>nd_ref := 0\<rparr>" and r: "sfs_reclaim io a (upd_node a (\<lambda>_. n) m) = Some (r, m')"
  shows "kept m ((refs m)(a := 0)) (opens m) m'"
proof -
  have nod: "node_ok (nodes m a)" "nd_ref (nodes m a) = 1" "nd_open (nodes m a) = 0"
    using cache_inv_node [OF inv a(1)] a by (simp_all add: refs_def opens_def)
  then have ok: "reclaim_count (nd_sin n) = 1" "nd_ref n = 0" "nd_open n = 0" "di_nlinks (din (nd_sin n)) \<noteq> 0"
    by (simp_all add: n node_ok_def)
  define n0 where "n0 = n\<lparr>nd_sin := (nd_sin n)\<lparr>reclaim_count := 0\<rparr>\<rparr>"
  define m0 where "m0 = upd_node a (\<lambda>_. n0) m"
  have "node_ok n0" using nod ok by (simp add: node_ok_def n0_def n)
  from kept_upd [OF inv a(1) this] have k0: "kept m ((refs m)(a := 0)) (opens m) m0"
    using ok a(3) by (simp add: m0_def) (simp add: n0_def n fun_upd_idem)
  obtain r1 m1 where m1: "reclaim_fsync io a m0 = Some (r1, m1)"
    and r1: "if r1 \<noteq> 0 then m' = m1 else reclaim_free a (sfs_remove_inode_links a m1) = Some m'"
    using r ok by (auto simp: sfs_reclaim_def bind_cases Let_def upd_node_def m0_def n0_def reclaim_truncate_def split: if_splits)
  note d1 = reclaim_fsync_data [OF m1]
  have k1: "kept m ((refs m)(a := 0)) (opens m) m1"
    using kept_trans [OF k0 kept_data [OF d1 keptD(1) [OF k0]]] keptD(3,4) [OF k0] by simp
  show ?thesis
  proof (cases "r1 = 0")
    case False
    with r1 k1 show ?thesis by simp
  next
    case True
    have a1: "a \<in> set (inode_list m1)" "di_nlinks (din (nd_sin (nodes m1 a))) \<noteq> 0"
      using d1 a(1) ok by (auto simp: data_step_def m0_def same_inode_def n0_def dest!: spec [of _ a])
    have "m' = obj_free a (obj_free (nd_din (nodes m1 a)) ((sfs_remove_inode_links a m1)\<lparr>vol := vol m1\<rparr>))"
      using r1 True a1(2) by (simp add: reclaim_free_def sfs_remove_inode_links_def Let_def obj_free_def)
    from remove_kept [OF keptD(1) [OF k1] a1(1) this] show ?thesis
      using kept_trans [OF k1] keptD(3,4) [OF k1] a(3) by (metis fun_upd_idem fun_upd_upd)
  qed
qed

lemma ref_dec_kept:
  assumes inv: "cache_inv m" and a: "opens m a < refs m a" and d: "node_ref_dec io a m = Some m'"
  shows "kept m ((refs m)(a := refs m a - 1)) (opens m) m'"
proof -
  have "refs m a \<noteq> 0" using inv a by (auto simp: refs_def opens_def cache_inv_def cache_ok_def node_ok_def split: if_splits)
  from in_cacheD [OF this] have b: "a \<in> set (inode_list m)" "nd_ref (nodes m a) = refs m a" "nd_open (nodes m a) = opens m a" .
  note nod = cache_inv_node [OF inv b(1)]
  let ?n = "(nodes m a)\<lparr>nd_ref := nd_ref (nodes m a) - 1\<rparr>"
  show ?thesis
  proof (cases "refs m a = 1")
    case True
    then have "opens m a = 0" using nod a b by (auto simp: node_ok_def)
    moreover obtain r where "sfs_reclaim io a (upd_node a (\<lambda>_. (nodes m a)\<lparr>nd_ref := 0\<rparr>) m) = Some (r, m')"
      using d True b by (auto simp: node_ref_dec_def bind_cases Let_def upd_node_def)
    ultimately show ?thesis using reclaim_kept [OF inv b(1) True _ refl] True by simp
  next
    case False
    then have "m' = upd_node a (\<lambda>_. ?n) m" using d b by (auto simp: node_ref_dec_def bind_cases Let_def upd_node_def split: if_splits)
    moreover have "node_ok ?n" using nod False a b by (auto simp: node_ok_def)
    ultimately show ?thesis using kept_upd [OF inv b(1), of ?n] b by (simp add: fun_upd_idem)
  qed
qed

lemma open_dec_kept:
  assumes inv: "cache_inv m" and d: "node_open_dec io a m = Some m'" and a: "a \<in> set (inode_list m)"
  shows "kept m (refs m) ((opens m)(a := opens m a - 1)) m'"
proof -
  have b: "nd_ref (nodes m a) = refs m a" "nd_open (nodes m a) = opens m a" using a by (simp_all add: refs_def opens_def)
  have pos: "nd_open (nodes m a) > 0" using d by (auto simp: node_open_dec_def)
  let ?n = "(nodes m a)\<lparr>nd_open := nd_open (nodes m a) - 1\<rparr>"
  have "node_ok ?n" using cache_inv_node [OF inv a] pos by (auto simp: node_ok_def)
  from kept_upd [OF inv a this] have k: "kept m (refs m) ((opens m)(a := opens m a - 1)) (upd_node a (\<lambda>_. ?n) m)"
    using b by (simp add: fun_upd_idem)
  have "m' = upd_node a (\<lambda>_. ?n) m \<or> data_step (upd_node a (\<lambda>_. ?n) m) m'"
    using d by (auto simp: node_open_dec_def bind_cases Let_def upd_node_def sfs_close_def split: if_splits dest!: vop_fsync_data)
  then show ?thesis
  proof
    assume "data_step (upd_node a (\<lambda>_. ?n) m) m'"
    from kept_trans [OF k kept_data [OF this keptD(1) [OF k]]] show ?thesis using keptD(3,4) [OF k] by simp
  qed (use k in simp)
qed
section \<open>Looking up a name, and the name of a directory\<close>

lemma opens_le: "cache_inv m \<Longrightarrow> opens m a \<le> refs m a" "cache_inv m \<Longrightarrow> 0 \<le> opens m a"
  by (auto simp: refs_def opens_def cache_inv_def cache_ok_def node_ok_def)

lemma kept_data_trans:
  assumes "data_step m m1" and "cache_inv m" and "kept m1 r k m'"
  shows "kept m r k m'"
  using kept_trans [OF kept_data [OF assms(1,2)] assms(3)] .

lemma lookup_once_kept:
  assumes inv: "cache_inv m" and l: "sfs_lookup_once io a name m = Some (r, x, m')"
  obtains (failed) "r \<noteq> 0" "x = None" "kept m (refs m) (opens m) m'"
  | (found) b where "r = 0" "x = Some b" "kept m ((refs m)(b := refs m b + 1)) (opens m) m'"
proof -
  obtain r1 f g m1 where s: "sfs_dirent_search_nolock io a name m = Some (r1, f, g, m1)"
    and rest: "if r1 = 0 then f \<bind> (\<lambda>(slot, ino). sfs_load_inode io ino m1) = Some (r, x, m') else r = r1 \<and> x = None \<and> m' = m1"
    using l by (auto simp: sfs_lookup_once_def bind_cases split: if_splits)
  note d = search_data [OF s]
  have k: "kept m (refs m) (opens m) m1" by (rule kept_data [OF d inv])
  show ?thesis
  proof (cases "r1 = 0")
    case True
    then obtain slot ino where "sfs_load_inode io ino m1 = Some (r, x, m')" using rest by (auto simp: bind_cases)
    from load_kept [OF keptD(1) [OF k] this] show ?thesis
      using kept_trans [OF k] keptD(3,4) [OF k] by (metis failed found)
  qed (use rest failed k in auto)
qed

lemma sfs_lookup_kept:
  assumes inv: "cache_inv m" and a: "0 < refs m a" and l: "sfs_lookup io a path m = Some (r, x, m')"
  obtains (failed) "r \<noteq> 0" "x = None" "kept m (refs m) (opens m) m'"
  | (found) b where "r = 0" "x = Some b" "kept m ((refs m)(b := refs m b + 1)) (opens m) m'"
proof -
  obtain q m1 where i: "node_ref_inc a m = (q, m1)" by fastforce
  note k1 = ref_inc_kept [OF inv a i]
  have o1: "opens m1 a < refs m1 a" using keptD(3,4) [OF k1] opens_le(1) [OF inv, of a] by simp
  show ?thesis
  proof (cases "di_type (din (nd_sin (nodes m1 a))) = SFS_TYPE_DIR")
    case False
    then have e: "node_ref_dec io a m1 = Some m'" "r \<noteq> 0" "x = None"
      using l i by (auto simp: sfs_lookup_def bind_cases E_NOTDIR_def)
    from ref_dec_kept [OF keptD(1) [OF k1] o1 e(1)] have "kept m (refs m) (opens m) m'"
      using kept_trans [OF k1] keptD(3,4) [OF k1] by simp
    with e show ?thesis by (intro failed)
  next
    case True
    then obtain y m2 where l2: "sfs_lookup_once io a path m1 = Some (r, y, m2)" and e: "node_ref_dec io a m2 = Some m'"
      and x: "x = (if r \<noteq> 0 then None else y)"
      using l i by (auto simp: sfs_lookup_def bind_cases)
    from keptD(1) [OF k1] l2 show ?thesis
    proof (cases rule: lookup_once_kept)
      case failed
      then have "opens m2 a < refs m2 a" using o1 keptD(3,4) [OF failed(3)] by simp
      from ref_dec_kept [OF keptD(1) [OF failed(3)] this e] have "kept m (refs m) (opens m) m'"
        using kept_trans [OF kept_trans [OF k1 failed(3)]] keptD(3,4) [OF failed(3)] keptD(3,4) [OF k1] by simp
      with failed x that(1) show ?thesis by simp
    next
      case (found b)
      then have "opens m2 a < refs m2 a" using o1 keptD(3,4) [OF found(3)] by (cases "b = a") simp_all
      from ref_dec_kept [OF keptD(1) [OF found(3)] this e] have "kept m ((refs m)(b := refs m b + 1)) (opens m) m'"
        using kept_trans [OF kept_trans [OF k1 found(3)]] keptD(3,4) [OF found(3)] keptD(3,4) [OF k1]
        by (cases "b = a") (simp_all add: fun_upd_twist add.commute)
      with found x that(2) show ?thesis by simp
    qed
  qed
qed

lemma findino_data:
  "sfs_dirent_findino_nolock io (nd_sin (nodes m a)) ino e s = Some (r, e', sin, s') \<Longrightarrow> data_step m (put_sin a sin s' m)"
  by (rule data_step_put) (auto simp: sfs_dirent_findino_nolock_def dest: findino_same)

lemma namefile_loop_kept:
  assumes "namefile_loop io node ptr resid entry mem m = Some res"
  shows "cache_inv m \<longrightarrow> opens m node < refs m node \<longrightarrow>
    kept m ((refs m)(node := refs m node - 1)) (opens m) (snd (snd (snd (snd res))))"
proof (rule namefile_loop.raw_induct [OF _ assms, where P = "\<lambda>io node ptr resid entry mem m res.
    cache_inv m \<longrightarrow> opens m node < refs m node \<longrightarrow>
      kept m ((refs m)(node := refs m node - 1)) (opens m) (snd (snd (snd (snd res))))"], intro impI, goal_cases)
  case (1 loop io node ptr resid entry mem m res)
  note inv = 1(3) and held = 1(4)
  obtain r x m1 where l: "sfs_lookup_once io node ''..'' m = Some (r, x, m1)"
    using 1(2) by (auto simp: bind_cases)
  from inv l show ?case
  proof (cases rule: lookup_once_kept)
    case failed
    then obtain m2 where e: "node_ref_dec io node m1 = Some m2" "snd (snd (snd (snd res))) = m2"
      using 1(2) l by (auto simp: namefile_failed_def bind_cases)
    have "opens m1 node < refs m1 node" using held keptD(3,4) [OF failed(3)] by simp
    from ref_dec_kept [OF keptD(1) [OF failed(3)] this e(1)] show ?thesis
      using kept_trans [OF failed(3)] keptD(3,4) [OF failed(3)] e(2) by simp
  next
    case (found p)
    obtain m2 where d: "node_ref_dec io node m1 = Some m2" using 1(2) l found by (auto simp: bind_cases Let_def)
    have "opens m1 node < refs m1 node" using held keptD(3,4) [OF found(3)] by (cases "node = p") simp_all
    from ref_dec_kept [OF keptD(1) [OF found(3)] this d]
    have k2: "kept m ((refs m)(p := refs m p + 1, node := (if p = node then refs m node else refs m node - 1))) (opens m) m2"
      using kept_trans [OF found(3)] keptD(3,4) [OF found(3)] by (auto simp: fun_upd_twist split: if_splits)
    show ?thesis
    proof (cases "node = p")
      case True
      then obtain m3 where e: "node_ref_dec io node m2 = Some m3" "snd (snd (snd (snd res))) = m3"
        using 1(2) l found d by (auto simp: bind_cases Let_def)
      have "opens m2 node < refs m2 node" using held keptD(3,4) [OF k2] True by simp
      from ref_dec_kept [OF keptD(1) [OF k2] this e(1)] show ?thesis
        using kept_trans [OF k2] keptD(3,4) [OF k2] e(2) True by simp
    next
      case False
      obtain r3 en sin s where f: "sfs_dirent_findino_nolock io (nd_sin (nodes m2 p)) (ino_at m1 node) entry (vol m2) = Some (r3, en, sin, s)"
        using 1(2) l found d False by (auto simp: bind_cases Let_def)
      define m3 where "m3 = put_sin p sin s m2"
      have k3: "kept m ((refs m)(node := refs m node - 1, p := refs m p + 1)) (opens m) m3"
        using kept_trans [OF k2 kept_data [OF findino_data [OF f] keptD(1) [OF k2]]] keptD(3,4) [OF k2] False
        by (simp add: m3_def fun_upd_twist)
      have h3: "opens m3 p < refs m3 p" using keptD(3,4) [OF k3] opens_le(1) [OF inv, of p] by simp
      have fin: "kept m3 ((refs m3)(p := refs m3 p - 1)) (opens m3) m4 \<Longrightarrow> kept m ((refs m)(node := refs m node - 1)) (opens m) m4" for m4
        using kept_trans [OF k3] keptD(3,4) [OF k3] False by (auto simp: fun_upd_twist)
      show ?thesis
      proof (cases "r3 \<noteq> 0 \<or> length (cstr (de_name en)) + 1 > resid")
        case True
        then obtain m4 where e: "node_ref_dec io p m3 = Some m4" "snd (snd (snd (snd res))) = m4"
          using 1(2) l found d False f by (auto simp: namefile_failed_def bind_cases Let_def m3_def split: if_splits)
        from fin [OF ref_dec_kept [OF keptD(1) [OF k3] h3 e(1)]] e(2) show ?thesis by simp
      next
        case ok: False
        then obtain pt rs en' mm where "loop io p pt rs en' mm m3 = Some res"
          using 1(2) l found d False f by (auto simp: bind_cases Let_def m3_def)
        from fin [OF 1(1) [OF this, rule_format, OF keptD(1) [OF k3] h3]] show ?thesis .
      qed
    qed
  qed
qed
lemma namefile_kept:
  assumes inv: "cache_inv m" and a: "0 < refs m a" and n: "sfs_namefile io a iob mem m = Some (r, iob', mem', m')"
  shows "kept m (refs m) (opens m) m'"
proof (cases "io_resid iob \<le> 2 \<or> heap m = []")
  case True
  then show ?thesis
    using n kept_refl [OF inv] by (auto simp: sfs_namefile_def obj_alloc_def split: list.splits if_splits)
next
  case False
  then obtain e h where h: "heap m = e # h" by (cases "heap m") auto
  obtain q m1 where i: "node_ref_inc a (m\<lparr>heap := h\<rparr>) = (q, m1)" by fastforce
  obtain ret ptr resid mm m2 where l:
    "namefile_loop io a (io_base iob + io_resid iob) (io_resid iob - 2) fresh_entry mem m1 = Some (ret, ptr, resid, mm, m2)"
    and m': "m' = obj_free e m2"
    using n False h i by (auto simp: sfs_namefile_def obj_alloc_def bind_cases Let_def split: if_splits)
  have c: "refs (m\<lparr>heap := h\<rparr>) = refs m" "opens (m\<lparr>heap := h\<rparr>) = opens m"
    "objects m = add_mset e (objects (m\<lparr>heap := h\<rparr>))" "cache_ok (m\<lparr>heap := h\<rparr>) = cache_ok m"
    by (simp_all add: fun_eq_iff refs_def opens_def objects_def cache_ok_def h)
  have "count (objects (m\<lparr>heap := h\<rparr>)) x \<le> 1" for x
  proof -
    have "count (objects (m\<lparr>heap := h\<rparr>)) x \<le> count (objects m) x" by (simp add: c(3))
    also have "\<dots> \<le> 1" using inv by (simp add: cache_inv_def)
    finally show ?thesis .
  qed
  then have c0: "cache_inv (m\<lparr>heap := h\<rparr>)" using inv c(4) by (simp add: cache_inv_def)
  have a': "0 < refs (m\<lparr>heap := h\<rparr>) a" using a c(1) by simp
  note k1 = ref_inc_kept [OF c0 a' i]
  have "opens m1 a < refs m1 a" using keptD(3,4) [OF k1] opens_le(1) [OF c0, of a] by simp
  with namefile_loop_kept [OF l] keptD(1) [OF k1] have k2: "kept m1 ((refs m1)(a := refs m1 a - 1)) (opens m1) m2" by simp
  have "kept (m\<lparr>heap := h\<rparr>) (refs m) (opens m) m2"
    using kept_trans [OF k1 k2] keptD(3,4) [OF k1] c(1,2) by simp
  moreover have "cache_ok (obj_free e m2) = cache_ok m2" "objects (obj_free e m2) = add_mset e (objects m2)"
    "refs (obj_free e m2) = refs m2" "opens (obj_free e m2) = opens m2"
    by (auto simp: cache_ok_def objects_def refs_def opens_def)
  ultimately show ?thesis using inv c(3) by (simp add: kept_def cache_inv_def m')
qed

section \<open>Every run of operations\<close>

text \<open>
  A run of operations by callers that hold references: \<open>H a\<close> is how many references to the inode
  \<open>a\<close> they hold, and \<open>K a\<close> how many of them are for an open file. An operation gets an inode that its
  caller holds.
\<close>

inductive fs_run :: "'d dev_io \<Rightarrow> 'd mount \<Rightarrow> 'd mount \<Rightarrow> (nat \<Rightarrow> int) \<Rightarrow> (nat \<Rightarrow> int) \<Rightarrow> bool"
  for io m0
where
  start: "fs_run io m0 m0 (\<lambda>_. 0) (\<lambda>_. 0)"
| root: "fs_run io m0 m H K \<Longrightarrow> sfs_get_root io m = Some (a, m') \<Longrightarrow> fs_run io m0 m' (H(a := H a + 1)) K"
| lookup_found: "fs_run io m0 m H K \<Longrightarrow> 0 < H a \<Longrightarrow> sfs_lookup io a path m = Some (0, Some b, m') \<Longrightarrow>
    fs_run io m0 m' (H(b := H b + 1)) K"
| lookup_failed: "fs_run io m0 m H K \<Longrightarrow> 0 < H a \<Longrightarrow> sfs_lookup io a path m = Some (r, x, m') \<Longrightarrow> r \<noteq> 0 \<Longrightarrow>
    fs_run io m0 m' H K"
| ref_inc: "fs_run io m0 m H K \<Longrightarrow> 0 < H a \<Longrightarrow> node_ref_inc a m = (r, m') \<Longrightarrow> fs_run io m0 m' (H(a := H a + 1)) K"
| ref_dec: "fs_run io m0 m H K \<Longrightarrow> K a < H a \<Longrightarrow> node_ref_dec io a m = Some m' \<Longrightarrow>
    fs_run io m0 m' (H(a := H a - 1)) K"
| open_inc: "fs_run io m0 m H K \<Longrightarrow> K a < H a \<Longrightarrow> node_open_inc a m = (r, m') \<Longrightarrow> fs_run io m0 m' H (K(a := K a + 1))"
| open_dec: "fs_run io m0 m H K \<Longrightarrow> 0 < K a \<Longrightarrow> node_open_dec io a m = Some m' \<Longrightarrow>
    fs_run io m0 m' H (K(a := K a - 1))"
| transfer: "fs_run io m0 m H K \<Longrightarrow> 0 < H a \<Longrightarrow> sfs_io io a iob w mem m = Some (r, iob', mem', m') \<Longrightarrow> fs_run io m0 m' H K"
| fsync: "fs_run io m0 m H K \<Longrightarrow> 0 < H a \<Longrightarrow> vop_fsync io a m = Some (r, m') \<Longrightarrow> fs_run io m0 m' H K"
| truncate: "fs_run io m0 m H K \<Longrightarrow> 0 < H a \<Longrightarrow> vop_truncate io a len m = Some (r, m') \<Longrightarrow> fs_run io m0 m' H K"
| tryseek: "fs_run io m0 m H K \<Longrightarrow> 0 < H a \<Longrightarrow> vop_tryseek io a pos m = Some (r, m') \<Longrightarrow> fs_run io m0 m' H K"
| getdirentry: "fs_run io m0 m H K \<Longrightarrow> 0 < H a \<Longrightarrow> sfs_getdirentry io a iob mem m = Some (r, iob', mem', m') \<Longrightarrow>
    fs_run io m0 m' H K"
| namefile: "fs_run io m0 m H K \<Longrightarrow> 0 < H a \<Longrightarrow> sfs_namefile io a iob mem m = Some (r, iob', mem', m') \<Longrightarrow>
    fs_run io m0 m' H K"
| sync: "fs_run io m0 m H K \<Longrightarrow> sfs_sync io m = Some (r, m') \<Longrightarrow> fs_run io m0 m' H K"

lemma get_root_kept:
  assumes inv: "cache_inv m" and r: "sfs_get_root io m = Some (a, m')"
  shows "kept m ((refs m)(a := refs m a + 1)) (opens m) m'"
proof -
  have "sfs_load_inode io SFS_BLKN_ROOT m = Some (0, Some a, m')" using r by (auto simp: sfs_get_root_def bind_cases)
  from load_kept [OF inv this] show ?thesis by auto
qed

text \<open>Just mounted, no inode is loaded, and all objects are different.\<close>

lemma run_kept:
  assumes m0: "inode_list m0 = []" "\<And>h. hash_list m0 h = []" "distinct (heap m0 @ own m0)" and run: "fs_run io m0 m H K"
  shows "kept m0 H K m"
  using run
proof (induction rule: fs_run.induct)
  case start
  have "cache_ok m0" using m0 by (simp add: cache_ok_def)
  moreover have "count (objects m0) x \<le> 1" for x
    using m0 distinct_count_atmost_1 [of "heap m0 @ own m0"] by (simp add: objects_def)
  ultimately show ?case using m0 by (simp add: kept_def cache_inv_def refs_def opens_def fun_eq_iff)
next
  case (root m H K a m')
  then show ?case using kept_trans get_root_kept keptD by metis
next
  case (lookup_found m H K a path b m')
  note k = keptD [OF lookup_found.IH]
  have "0 < refs m a" using lookup_found k by simp
  from k(1) this lookup_found(3) show ?case
  proof (cases rule: sfs_lookup_kept)
    case (found c)
    then show ?thesis using kept_trans [OF lookup_found.IH found(3)] k by (simp add: fun_upd_def)
  qed simp
next
  case (lookup_failed m H K a path r x m')
  note k = keptD [OF lookup_failed.IH]
  have "0 < refs m a" using lookup_failed k by simp
  from sfs_lookup_kept [OF k(1) this lookup_failed(3)] show ?case
    using kept_trans [OF lookup_failed.IH] k lookup_failed(4) by metis
next
  case (open_dec m H K a m')
  note k = keptD [OF open_dec.IH]
  have "a \<in> set (inode_list m)" using open_dec(2) k(4) by (auto simp: opens_def split: if_splits)
  from kept_trans [OF open_dec.IH open_dec_kept [OF k(1) open_dec(3) this]] show ?case using k by (simp add: fun_upd_def)
qed (metis kept_trans keptD ref_inc_kept ref_dec_kept open_inc_kept namefile_kept kept_data
    io_data vop_fsync_data vop_truncate_data tryseek_data getdirentry_data sync_data)+

end
