(* ===== verification/Vfs.thy ===== *)
theory Vfs
  imports Sfs_Cache
begin

text \<open>
  The virtual file system over the simple file system and the devices: the table of the devices and
  what is mounted on them (\<^verbatim>\<open>kern/fs/vfs/vfsdev.c\<close>), the meaning of a path
  (\<^verbatim>\<open>vfslookup.c\<close>), the current directory (\<^verbatim>\<open>vfspath.c\<close>) and the boot file system
  (\<^verbatim>\<open>vfs.c\<close>). An inode is a device or an inode of a mounted volume, named by the address of its
  \<^verbatim>\<open>struct fs\<close> and its own; the type is also the choice of the operation table. All volumes share
  the heap. A path is the string up to its zero. The semaphores of the lists and messages are left
  out. The result \<open>None\<close> is a failed assertion or a panic. A device has one entry with a volume at
  most, as the only disk of the kernel has.
\<close>

section \<open>State\<close>

datatype vfs_node = Device nat | Inode nat nat

text \<open>\<^verbatim>\<open>struct device\<close>, with the counts of its inode; \<open>dv_data\<close> is what the device holds.\<close>

record 'd device =
  dv_ref :: int
  dv_open :: int
  d_blocks :: nat
  d_blocksize :: nat
  dv_data :: 'd

record vfs_dev =
  devname :: string
  devnode :: "nat option"
  mountable :: bool
  vdev_fs :: "nat option"

text \<open>\<open>cwd\<close> is \<^verbatim>\<open>current->filesp->pwd\<close>.\<close>

record 'd vfs =
  vdev_list :: "vfs_dev list"
  bootfs_node :: "vfs_node option"
  cwd :: "vfs_node option"
  devices :: "nat \<Rightarrow> 'd device"
  mounts :: "nat \<Rightarrow> 'd mount"
  kheap :: "nat list"

definition FS_MAX_DNAME_LEN :: nat where "FS_MAX_DNAME_LEN = 31"
definition S_IFCHR :: nat where "S_IFCHR = 0x4000"
definition S_IFBLK :: nat where "S_IFBLK = 0x5000"

text \<open>A function of the file system at \<open>f\<close>, which allocates from the common heap.\<close>

definition with_fs :: "nat \<Rightarrow> ('d mount \<Rightarrow> ('a \<times> 'd mount) option) \<Rightarrow> 'd vfs \<Rightarrow> ('a \<times> 'd vfs) option" where
  "with_fs f g s = do {
     (x, m) \<leftarrow> g ((mounts s f)\<lparr>heap := kheap s\<rparr>);
     Some (x, s\<lparr>mounts := (mounts s)(f := m), kheap := heap m\<rparr>) }"

definition upd_device :: "nat \<Rightarrow> ('d device \<Rightarrow> 'd device) \<Rightarrow> 'd vfs \<Rightarrow> 'd vfs" where
  "upd_device n g s = s\<lparr>devices := (devices s)(n := g (devices s n))\<rparr>"

section \<open>Operations of an inode\<close>

definition vop_ref_inc :: "vfs_node \<Rightarrow> 'd vfs \<Rightarrow> 'd vfs option" where
  "vop_ref_inc v s = (case v of
     Device n \<Rightarrow> Some (upd_device n (\<lambda>d. d\<lparr>dv_ref := dv_ref d + 1\<rparr>) s)
   | Inode f a \<Rightarrow> map_option snd (with_fs f (\<lambda>m. Some (node_ref_inc a m)) s))"

text \<open>A device has no \<^verbatim>\<open>vop_reclaim\<close>: giving up its last reference is a failed assertion.\<close>

definition vop_ref_dec :: "'d dev_io \<Rightarrow> vfs_node \<Rightarrow> 'd vfs \<Rightarrow> 'd vfs option" where
  "vop_ref_dec io v s = (case v of
     Device n \<Rightarrow> do {
       kassert (dv_ref (devices s n) > 0);
       let s = upd_device n (\<lambda>d. d\<lparr>dv_ref := dv_ref d - 1\<rparr>) s;
       kassert (dv_ref (devices s n) \<noteq> 0);
       Some s }
   | Inode f a \<Rightarrow> map_option snd (with_fs f (\<lambda>m. map_option (Pair ()) (node_ref_dec io a m)) s))"

definition dev_check :: "'d device \<Rightarrow> unit option" where
  "dev_check d = do {
     kassert (dv_ref d \<ge> dv_open d \<and> dv_open d \<ge> 0);
     kassert (dv_ref d < MAX_INODE_COUNT \<and> dv_open d < MAX_INODE_COUNT) }"

definition dev_gettype :: "'d device \<Rightarrow> int \<times> nat" where
  "dev_gettype d = (0, if d_blocks d > 0 then S_IFBLK else S_IFCHR)"

definition vop_gettype :: "vfs_node \<Rightarrow> 'd vfs \<Rightarrow> (int \<times> nat) option" where
  "vop_gettype v s = (case v of
     Device n \<Rightarrow> do { dev_check (devices s n); Some (dev_gettype (devices s n)) }
   | Inode f a \<Rightarrow> do { inode_check (nodes (mounts s f) a); sfs_gettype a (mounts s f) })"

definition dev_lookup :: "nat \<Rightarrow> string \<Rightarrow> 'd vfs \<Rightarrow> (int \<times> vfs_node option \<times> 'd vfs) option" where
  "dev_lookup n path s =
     (if path \<noteq> '''' then Some (- E_NOENT, None, s)
      else do { s \<leftarrow> vop_ref_inc (Device n) s; Some (0, Some (Device n), s) })"

text \<open>A file of the simple file system has neither of these operations.\<close>

definition vop_lookup :: "'d dev_io \<Rightarrow> vfs_node \<Rightarrow> string \<Rightarrow> 'd vfs \<Rightarrow> (int \<times> vfs_node option \<times> 'd vfs) option" where
  "vop_lookup io v path s = (case v of
     Device n \<Rightarrow> do { dev_check (devices s n); dev_lookup n path s }
   | Inode f a \<Rightarrow> do {
       kassert (nd_dir (nodes (mounts s f) a));
       inode_check (nodes (mounts s f) a);
       ((ret, x), s) \<leftarrow> with_fs f (\<lambda>m. do { (ret, x, m) \<leftarrow> sfs_lookup io a path m; Some ((ret, x), m) }) s;
       Some (ret, map_option (Inode f) x, s) })"

definition vop_namefile ::
  "'d dev_io \<Rightarrow> vfs_node \<Rightarrow> iobuf \<Rightarrow> mem \<Rightarrow> 'd vfs \<Rightarrow> (int \<times> iobuf \<times> mem \<times> 'd vfs) option"
where
  "vop_namefile io v iob mem s = (case v of
     Device n \<Rightarrow> None
   | Inode f a \<Rightarrow> do {
       kassert (nd_dir (nodes (mounts s f) a));
       inode_check (nodes (mounts s f) a);
       ((ret, iob, mem), s) \<leftarrow> with_fs f (\<lambda>m. do {
           (ret, iob, mem, m) \<leftarrow> sfs_namefile io a iob mem m; Some ((ret, iob, mem), m) }) s;
       Some (ret, iob, mem, s) })"

definition fsop_get_root :: "'d dev_io \<Rightarrow> nat \<Rightarrow> 'd vfs \<Rightarrow> (vfs_node \<times> 'd vfs) option" where
  "fsop_get_root io f s = do { (a, s) \<leftarrow> with_fs f (sfs_get_root io) s; Some (Inode f a, s) }"

section \<open>The current directory (vfspath.c)\<close>

definition vfs_get_curdir :: "'d vfs \<Rightarrow> (int \<times> vfs_node option \<times> 'd vfs) option" where
  "vfs_get_curdir s = (case cwd s of
     Some v \<Rightarrow> do { s \<leftarrow> vop_ref_inc v s; Some (0, Some v, s) }
   | None \<Rightarrow> Some (- E_NOENT, None, s))"

definition vfs_set_curdir :: "'d dev_io \<Rightarrow> vfs_node option \<Rightarrow> 'd vfs \<Rightarrow> (int \<times> 'd vfs) option" where
  "vfs_set_curdir io dir s =
     (if cwd s = dir then Some (0, s)
      else do {
        (ret, s) \<leftarrow> (case dir of
            None \<Rightarrow> Some (0, s)
          | Some v \<Rightarrow> do {
              (ret, type) \<leftarrow> vop_gettype v s;
              if ret \<noteq> 0 then Some (ret, s)
              else if type \<noteq> S_IFDIR then Some (- E_NOTDIR, s)
              else do { s \<leftarrow> vop_ref_inc v s; Some (0, s) } });
        if ret \<noteq> 0 then Some (ret, s)
        else do {
          let old_dir = cwd s;
          let s = s\<lparr>cwd := dir\<rparr>;
          s \<leftarrow> (case old_dir of None \<Rightarrow> Some s | Some v \<Rightarrow> vop_ref_dec io v s);
          Some (0, s) } })"

section \<open>The devices (vfsdev.c)\<close>

definition vfs_get_root :: "'d dev_io \<Rightarrow> string \<Rightarrow> 'd vfs \<Rightarrow> (int \<times> vfs_node option \<times> 'd vfs) option" where
  "vfs_get_root io name s = (case find (\<lambda>d. devname d = name) (vdev_list s) of
     None \<Rightarrow> Some (- E_NO_DEV, None, s)
   | Some d \<Rightarrow> (case vdev_fs d of
       Some f \<Rightarrow> do { (v, s) \<leftarrow> fsop_get_root io f s; Some (0, Some v, s) }
     | None \<Rightarrow>
         if \<not> mountable d then do {
           n \<leftarrow> devnode d;
           s \<leftarrow> vop_ref_inc (Device n) s;
           Some (0, Some (Device n), s) }
         else Some (- E_NA_DEV, None, s)))"

definition vfs_get_devname :: "nat \<Rightarrow> 'd vfs \<Rightarrow> string option" where
  "vfs_get_devname f s = map_option devname (find (\<lambda>d. vdev_fs d = Some f) (vdev_list s))"

definition check_devname_conflict :: "string \<Rightarrow> 'd vfs \<Rightarrow> bool" where
  "check_devname_conflict name s \<longleftrightarrow> find (\<lambda>d. devname d = name) (vdev_list s) = None"

text \<open>The name and the entry are two objects of the heap, which nobody gives back.\<close>

definition vfs_do_add :: "string \<Rightarrow> nat option \<Rightarrow> nat option \<Rightarrow> bool \<Rightarrow> 'd vfs \<Rightarrow> (int \<times> 'd vfs) option" where
  "vfs_do_add name node fs mnt s = do {
     kassert (node = None \<and> \<not> mnt \<or> node \<noteq> None);
     if length name > FS_MAX_DNAME_LEN then Some (- E_TOO_BIG, s)
     else if length (kheap s) < 2 then Some (- E_NO_MEM, s)
     else if \<not> check_devname_conflict name s then Some (- E_EXISTS, s)
     else Some (0, s\<lparr>vdev_list := \<lparr>devname = name, devnode = node, mountable = mnt, vdev_fs = fs\<rparr> # vdev_list s,
       kheap := drop 2 (kheap s)\<rparr>) }"

definition vfs_add_fs :: "string \<Rightarrow> nat option \<Rightarrow> 'd vfs \<Rightarrow> (int \<times> 'd vfs) option" where
  "vfs_add_fs name fs s = vfs_do_add name None fs False s"

definition vfs_add_dev :: "string \<Rightarrow> nat option \<Rightarrow> bool \<Rightarrow> 'd vfs \<Rightarrow> (int \<times> 'd vfs) option" where
  "vfs_add_dev name node mnt s = vfs_do_add name node None mnt s"

text \<open>The position of the entry.\<close>

definition find_mount :: "string \<Rightarrow> 'd vfs \<Rightarrow> int \<times> nat" where
  "find_mount name s =
     (case find (\<lambda>i. mountable (vdev_list s ! i) \<and> devname (vdev_list s ! i) = name) [0..<length (vdev_list s)] of
        Some i \<Rightarrow> (0, i)
      | None \<Rightarrow> (- E_NO_DEV, 0))"

definition set_vdev_fs :: "nat \<Rightarrow> nat option \<Rightarrow> 'd vfs \<Rightarrow> 'd vfs" where
  "set_vdev_fs i fs s = s\<lparr>vdev_list := (vdev_list s)[i := (vdev_list s ! i)\<lparr>vdev_fs := fs\<rparr>]\<rparr>"

text \<open>
  With \<^verbatim>\<open>sfs_do_mount\<close> as \<^verbatim>\<open>mountfunc\<close>, the only one there is. What the device holds goes
  to the volume; \<^verbatim>\<open>struct fs\<close> is the first object the volume has allocated.
\<close>

definition vfs_mount :: "'d dev_io \<Rightarrow> string \<Rightarrow> 'd vfs \<Rightarrow> (int \<times> 'd vfs) option" where
  "vfs_mount io name s =
     (let (ret, i) = find_mount name s in
      if ret \<noteq> 0 then Some (ret, s)
      else if vdev_fs (vdev_list s ! i) \<noteq> None then Some (- E_BUSY, s)
      else do {
        kassert (mountable (vdev_list s ! i));
        n \<leftarrow> devnode (vdev_list s ! i);
        let dev = devices s n;
        (ret, vol, h, d) \<leftarrow> sfs_do_mount io (d_blocksize dev) (d_blocks dev) (kheap s) (dv_data dev);
        let s = upd_device n (\<lambda>dev. dev\<lparr>dv_data := d\<rparr>) (s\<lparr>kheap := h\<rparr>);
        case vol of
          None \<Rightarrow> Some (ret, s)
        | Some m \<Rightarrow> Some (ret, set_vdev_fs i (Some (own m ! 0)) (s\<lparr>mounts := (mounts s)(own m ! 0 := m)\<rparr>)) })"

text \<open>
  Writing back the volume on an entry and giving it up, in \<^verbatim>\<open>vfs_unmount\<close> and in the loop of
  \<^verbatim>\<open>vfs_unmount_all\<close>.
\<close>

definition unmount_vdev :: "'d dev_io \<Rightarrow> nat \<Rightarrow> nat \<Rightarrow> 'd vfs \<Rightarrow> (int \<times> 'd vfs) option" where
  "unmount_vdev io i f s = do {
     (ret, s) \<leftarrow> with_fs f (sfs_sync io) s;
     if ret \<noteq> 0 then Some (ret, s)
     else do {
       (ret, s) \<leftarrow> with_fs f sfs_unmount s;
       if ret = 0 then do {
         n \<leftarrow> devnode (vdev_list s ! i);
         Some (0, set_vdev_fs i None (upd_device n (\<lambda>dev. dev\<lparr>dv_data := sfs_dev (vol (mounts s f))\<rparr>) s)) }
       else Some (ret, s) } }"

definition vfs_unmount :: "'d dev_io \<Rightarrow> string \<Rightarrow> 'd vfs \<Rightarrow> (int \<times> 'd vfs) option" where
  "vfs_unmount io name s =
     (let (ret, i) = find_mount name s in
      if ret \<noteq> 0 then Some (ret, s)
      else case vdev_fs (vdev_list s ! i) of
        None \<Rightarrow> Some (- E_INVAL, s)
      | Some f \<Rightarrow> do { kassert (mountable (vdev_list s ! i)); unmount_vdev io i f s })"

fun unmount_loop :: "'d dev_io \<Rightarrow> nat list \<Rightarrow> 'd vfs \<Rightarrow> 'd vfs option" where
  "unmount_loop io [] s = Some s"
| "unmount_loop io (i # is) s = do {
     s \<leftarrow> (case vdev_fs (vdev_list s ! i) of
         Some f \<Rightarrow> if mountable (vdev_list s ! i) then map_option snd (unmount_vdev io i f s) else Some s
       | None \<Rightarrow> Some s);
     unmount_loop io is s }"

definition vfs_unmount_all :: "'d dev_io \<Rightarrow> 'd vfs \<Rightarrow> (int \<times> 'd vfs) option" where
  "vfs_unmount_all io s = do { s \<leftarrow> unmount_loop io [0..<length (vdev_list s)] s; Some (0, s) }"

fun vfs_cleanup_loop :: "'d dev_io \<Rightarrow> vfs_dev list \<Rightarrow> 'd vfs \<Rightarrow> 'd vfs option" where
  "vfs_cleanup_loop io [] s = Some s"
| "vfs_cleanup_loop io (d # ds) s = do {
     s \<leftarrow> (case vdev_fs d of
         Some f \<Rightarrow> map_option snd (with_fs f (\<lambda>m. map_option (Pair ()) (sfs_cleanup io m)) s)
       | None \<Rightarrow> Some s);
     vfs_cleanup_loop io ds s }"

definition vfs_cleanup :: "'d dev_io \<Rightarrow> 'd vfs \<Rightarrow> 'd vfs option" where
  "vfs_cleanup io s = vfs_cleanup_loop io (vdev_list s) s"

section \<open>The boot file system (vfs.c)\<close>

definition vfs_init :: "'d vfs \<Rightarrow> 'd vfs" where
  "vfs_init s = s\<lparr>vdev_list := [], bootfs_node := None\<rparr>"

definition vfs_get_bootfs :: "'d vfs \<Rightarrow> (int \<times> vfs_node option \<times> 'd vfs) option" where
  "vfs_get_bootfs s = (case bootfs_node s of
     None \<Rightarrow> Some (- E_NOENT, None, s)
   | Some v \<Rightarrow> do { s \<leftarrow> vop_ref_inc v s; Some (0, Some v, s) })"

definition change_bootfs :: "'d dev_io \<Rightarrow> vfs_node option \<Rightarrow> 'd vfs \<Rightarrow> 'd vfs option" where
  "change_bootfs io node s =
     (let old = bootfs_node s; s = s\<lparr>bootfs_node := node\<rparr> in
      case old of None \<Rightarrow> Some s | Some v \<Rightarrow> vop_ref_dec io v s)"

section \<open>Paths (vfslookup.c)\<close>

text \<open>The first loop of \<^verbatim>\<open>get_device\<close>: \<open>slash\<close> and \<open>colon\<close>.\<close>

fun path_marks :: "nat \<Rightarrow> string \<Rightarrow> int \<times> int" where
  "path_marks i [] = (-1, -1)"
| "path_marks i (c # cs) =
     (if c = CHR '':'' then (-1, int i) else if c = CHR ''/'' then (int i, -1) else path_marks (i + 1) cs)"

definition skip_slashes :: "string \<Rightarrow> string" where
  "skip_slashes = dropWhile (\<lambda>c. c = CHR ''/'')"

text \<open>
  The result, the rest of the path, the inode to start from, and what is then in the caller's
  buffer: the name of a device is cut off in place.
\<close>

definition get_device ::
  "'d dev_io \<Rightarrow> string \<Rightarrow> 'd vfs \<Rightarrow> (int \<times> string \<times> vfs_node option \<times> string \<times> 'd vfs) option"
where
  "get_device io path s =
     (let (slash, colon) = path_marks 0 path in
      if colon < 0 \<and> slash \<noteq> 0 then do {
        (ret, node, s) \<leftarrow> vfs_get_curdir s;
        Some (ret, path, node, path, s) }
      else if colon > 0 then do {
        let name = take (nat colon) path;
        (ret, node, s) \<leftarrow> vfs_get_root io name s;
        Some (ret, skip_slashes (drop (nat colon + 1) path), node, name, s) }
      else if hd path = CHR ''/'' then do {
        (ret, node, s) \<leftarrow> vfs_get_bootfs s;
        Some (ret, if ret \<noteq> 0 then path else skip_slashes (tl path), node, path, s) }
      else do {
        kassert (hd path = CHR '':'');
        (ret, node, s) \<leftarrow> vfs_get_curdir s;
        if ret \<noteq> 0 then Some (ret, path, None, path, s)
        else do {
          v \<leftarrow> node;
          (case v of
             Device n \<Rightarrow> None
           | Inode f a \<Rightarrow> do {
               (root, s) \<leftarrow> fsop_get_root io f s;
               s \<leftarrow> vop_ref_dec io v s;
               Some (0, skip_slashes (tl path), Some root, path, s) }) } })"

definition vfs_lookup :: "'d dev_io \<Rightarrow> string \<Rightarrow> 'd vfs \<Rightarrow> (int \<times> vfs_node option \<times> string \<times> 'd vfs) option" where
  "vfs_lookup io path s = do {
     (ret, sub, node, path, s) \<leftarrow> get_device io path s;
     if ret \<noteq> 0 then Some (ret, None, path, s)
     else do {
       v \<leftarrow> node;
       if sub \<noteq> '''' then do {
         (ret, x, s) \<leftarrow> vop_lookup io v sub s;
         s \<leftarrow> vop_ref_dec io v s;
         Some (ret, x, path, s) }
       else Some (0, Some v, path, s) } }"

definition vfs_lookup_parent ::
  "'d dev_io \<Rightarrow> string \<Rightarrow> 'd vfs \<Rightarrow> (int \<times> vfs_node option \<times> string \<times> string \<times> 'd vfs) option"
where
  "vfs_lookup_parent io path s = do {
     (ret, sub, node, path, s) \<leftarrow> get_device io path s;
     if ret \<noteq> 0 then Some (ret, None, '''', path, s) else Some (0, node, sub, path, s) }"

section \<open>Changing and naming the current directory, and the boot file system\<close>

definition vfs_chdir :: "'d dev_io \<Rightarrow> string \<Rightarrow> 'd vfs \<Rightarrow> (int \<times> 'd vfs) option" where
  "vfs_chdir io path s = do {
     (ret, node, _, s) \<leftarrow> vfs_lookup io path s;
     if ret \<noteq> 0 then Some (ret, s)
     else do {
       v \<leftarrow> node;
       (ret, s) \<leftarrow> vfs_set_curdir io (Some v) s;
       s \<leftarrow> vop_ref_dec io v s;
       Some (ret, s) } }"

definition vfs_set_bootfs :: "'d dev_io \<Rightarrow> string option \<Rightarrow> 'd vfs \<Rightarrow> (int \<times> 'd vfs) option" where
  "vfs_set_bootfs io fsname s = (case fsname of
     None \<Rightarrow> do { s \<leftarrow> change_bootfs io None s; Some (0, s) }
   | Some name \<Rightarrow>
       (case dropWhile (\<lambda>c. c \<noteq> CHR '':'') name of
          [colon] \<Rightarrow> do {
            (ret, s) \<leftarrow> vfs_chdir io name s;
            if ret \<noteq> 0 then Some (ret, s)
            else do {
              (ret, node, s) \<leftarrow> vfs_get_curdir s;
              if ret \<noteq> 0 then Some (ret, s)
              else do { s \<leftarrow> change_bootfs io node s; Some (0, s) } } }
        | _ \<Rightarrow> Some (- E_INVAL, s)))"

text \<open>The name of the device that \<^verbatim>\<open>vfs_get_devname\<close> does not find is a \<^verbatim>\<open>NULL\<close> pointer.\<close>

definition getcwd_device :: "string \<Rightarrow> iobuf \<Rightarrow> mem \<Rightarrow> (int \<times> iobuf \<times> mem) option" where
  "getcwd_device name iob mem = do {
     (ret, iob, mem) \<leftarrow> iobuf_put iob name mem;
     if ret \<noteq> 0 then Some (ret, iob, mem) else iobuf_put iob '':'' mem }"

definition vfs_getcwd :: "'d dev_io \<Rightarrow> iobuf \<Rightarrow> mem \<Rightarrow> 'd vfs \<Rightarrow> (int \<times> iobuf \<times> mem \<times> 'd vfs) option" where
  "vfs_getcwd io iob mem s = do {
     (ret, node, s) \<leftarrow> vfs_get_curdir s;
     if ret \<noteq> 0 then Some (ret, iob, mem, s)
     else do {
       v \<leftarrow> node;
       f \<leftarrow> (case v of Device n \<Rightarrow> None | Inode f a \<Rightarrow> Some f);
       name \<leftarrow> vfs_get_devname f s;
       (ret, iob, mem) \<leftarrow> getcwd_device name iob mem;
       (ret, iob, mem, s) \<leftarrow> (if ret \<noteq> 0 then Some (ret, iob, mem, s) else vop_namefile io v iob mem s);
       s \<leftarrow> vop_ref_dec io v s;
       Some (ret, iob, mem, s) } }"

end
