(* ===== verification/Vfs_Refs.thy ===== *)
theory Vfs_Refs
  imports Vfs
begin

text \<open>
  References through the virtual file system. \<open>vfs_inv\<close> says that the tables of all mounted volumes
  are right and that no object of the common heap is in two places; each operation is then shown to
  change the reference counts by exactly what it hands out (\<open>vkept\<close>). \<open>vfs_run\<close> are the runs of
  all operations, with the references their callers hold.
\<close>

section \<open>The invariant\<close>

definition fss :: "'d vfs \<Rightarrow> nat set" where
  "fss s = {f. \<exists>d \<in> set (vdev_list s). vdev_fs d = Some f}"

definition rest :: "'d mount \<Rightarrow> nat multiset" where
  "rest m = mset (own m) + mset (inode_list m) + mset (map (\<lambda>a. nd_din (nodes m a)) (inode_list m))"

definition vobjects :: "'d vfs \<Rightarrow> nat multiset" where
  "vobjects s = mset (kheap s) + (\<Sum>f \<in> fss s. rest (mounts s f))"

definition vfs_inv :: "'d vfs \<Rightarrow> bool" where
  "vfs_inv s \<longleftrightarrow> (\<forall>f \<in> fss s. cache_ok (mounts s f) \<and> opens (mounts s f) = (\<lambda>_. 0) \<and>
       length (own (mounts s f)) = 5 \<and> own (mounts s f) ! 0 = f) \<and>
     (\<forall>i < length (vdev_list s). \<forall>j < length (vdev_list s). vdev_fs (vdev_list s ! i) \<noteq> None \<longrightarrow>
       vdev_fs (vdev_list s ! i) = vdev_fs (vdev_list s ! j) \<longrightarrow> i = j) \<and> (\<forall>x. count (vobjects s) x \<le> 1)"

definition vrefs :: "'d vfs \<Rightarrow> vfs_node \<Rightarrow> int" where
  "vrefs s v = (case v of Device n \<Rightarrow> dv_ref (devices s n)
     | Inode f a \<Rightarrow> if f \<in> fss s then refs (mounts s f) a else 0)"

definition vkept :: "'d vfs \<Rightarrow> (vfs_node \<Rightarrow> int) \<Rightarrow> 'd vfs \<Rightarrow> bool" where
  "vkept s r s' \<longleftrightarrow> vfs_inv s' \<and> vrefs s' = r \<and> cwd s' = cwd s \<and> bootfs_node s' = bootfs_node s \<and> vdev_list s' = vdev_list s"

lemma vkeptD:
  assumes "vkept s r s'"
  shows "vfs_inv s'" "vrefs s' = r" "cwd s' = cwd s" "bootfs_node s' = bootfs_node s" "vdev_list s' = vdev_list s"
  using assms by (simp_all add: vkept_def)

lemma vkept_refl: "vfs_inv s \<Longrightarrow> vkept s (vrefs s) s"
  by (simp add: vkept_def)

lemma vkept_trans: "vkept s r s1 \<Longrightarrow> vkept s1 r' s2 \<Longrightarrow> vkept s r' s2"
  by (simp add: vkept_def)

lemma vfs_invD:
  assumes "vfs_inv s" and "f \<in> fss s"
  shows "cache_ok (mounts s f)" "opens (mounts s f) = (\<lambda>_. 0)" "length (own (mounts s f)) = 5" "own (mounts s f) ! 0 = f"
  using assms by (auto simp: vfs_inv_def)

lemma finite_fss [simp]: "finite (fss s)"
proof -
  have "fss s \<subseteq> (\<lambda>d. the (vdev_fs d)) ` set (vdev_list s)"
  proof
    fix f assume "f \<in> fss s"
    then obtain d where "d \<in> set (vdev_list s)" "vdev_fs d = Some f" by (auto simp: fss_def)
    then show "f \<in> (\<lambda>d. the (vdev_fs d)) ` set (vdev_list s)" by (intro image_eqI [of _ _ d]) simp_all
  qed
  then show ?thesis by (rule finite_subset) simp
qed

lemma objects_rest: "objects m = mset (heap m) + rest m"
  by (simp add: objects_def rest_def)

lemma rest_heap [simp]: "rest (m\<lparr>heap := h\<rparr>) = rest m"
  by (simp add: rest_def)

lemma cache_ok_heap [simp]: "cache_ok (m\<lparr>heap := h\<rparr>) = cache_ok m"
  by (simp add: cache_ok_def)

lemma refs_heap [simp]: "refs (m\<lparr>heap := h\<rparr>) = refs m" "opens (m\<lparr>heap := h\<rparr>) = opens m"
  by (simp_all add: refs_def opens_def fun_eq_iff)

lemma vobjects_at:
  assumes "f \<in> fss s"
  shows "vobjects s = objects ((mounts s f)\<lparr>heap := kheap s\<rparr>) + (\<Sum>g \<in> fss s - {f}. rest (mounts s g))"
  using assms by (simp add: vobjects_def objects_rest sum.remove [of "fss s" f] ac_simps)

lemma mount_inv:
  assumes inv: "vfs_inv s" and f: "f \<in> fss s"
  shows "cache_inv ((mounts s f)\<lparr>heap := kheap s\<rparr>)"
proof -
  have "count (objects ((mounts s f)\<lparr>heap := kheap s\<rparr>)) x \<le> 1" for x
  proof -
    have "count (objects ((mounts s f)\<lparr>heap := kheap s\<rparr>)) x \<le> count (vobjects s) x"
      by (simp add: vobjects_at [OF f])
    also have "\<dots> \<le> 1" using inv by (simp add: vfs_inv_def)
    finally show ?thesis .
  qed
  then show ?thesis using vfs_invD(1) [OF assms] by (simp add: cache_inv_def)
qed

text \<open>The references of one volume.\<close>

definition at_fs :: "nat \<Rightarrow> (nat \<Rightarrow> int) \<Rightarrow> (vfs_node \<Rightarrow> int) \<Rightarrow> vfs_node \<Rightarrow> int" where
  "at_fs f r R v = (case v of Device n \<Rightarrow> R v | Inode g a \<Rightarrow> if g = f then r a else R v)"

lemma at_fs_upd:
  assumes "f \<in> fss s"
  shows "at_fs f ((refs (mounts s f))(a := k)) (vrefs s) = (vrefs s)(Inode f a := k)"
    and "at_fs f (refs (mounts s f)) (vrefs s) = vrefs s"
  using assms by (auto simp: at_fs_def vrefs_def fun_eq_iff split: vfs_node.split)

lemma with_fs_kept:
  assumes inv: "vfs_inv s" and f: "f \<in> fss s" and w: "with_fs f g s = Some (x, s')"
    and g: "\<And>m'. g ((mounts s f)\<lparr>heap := kheap s\<rparr>) = Some (x, m') \<Longrightarrow>
      kept ((mounts s f)\<lparr>heap := kheap s\<rparr>) r (opens (mounts s f)) m'"
  shows "vkept s (at_fs f r (vrefs s)) s'"
proof -
  let ?m = "(mounts s f)\<lparr>heap := kheap s\<rparr>"
  from w obtain m' where m': "g ?m = Some (x, m')" and s': "s' = s\<lparr>mounts := (mounts s)(f := m'), kheap := heap m'\<rparr>"
    by (auto simp: with_fs_def bind_cases)
  note k = keptD [OF g [OF m'(1)]]
  have fs: "fss s' = fss s" by (simp add: fss_def s')
  have "vobjects s' = objects m' + (\<Sum>g \<in> fss s - {f}. rest (mounts s g))"
  proof -
    have "(\<Sum>g \<in> fss s - {f}. rest (mounts s' g)) = (\<Sum>g \<in> fss s - {f}. rest (mounts s g))"
      by (intro sum.cong) (auto simp: s')
    moreover have "objects ((mounts s' f)\<lparr>heap := kheap s'\<rparr>) = objects m'" by (simp add: s')
    ultimately show ?thesis using vobjects_at [of f s'] f fs by simp
  qed
  then have "vobjects s' = vobjects s" using k(2) vobjects_at [OF f] by simp
  moreover have "cache_ok m'" using k(1) by (simp add: cache_inv_def)
  ultimately have "vfs_inv s'"
    using inv k(4,5) vfs_invD(2,3,4) [OF inv f] unfolding vfs_inv_def fs by (auto simp: s')
  moreover have "vrefs s' = at_fs f r (vrefs s)"
    unfolding vrefs_def at_fs_def fun_eq_iff fs using k(3) f by (auto simp: s' split: vfs_node.split)
  ultimately show ?thesis by (simp add: vkept_def s')
qed

section \<open>One operation on an inode\<close>

lemma upd_device_kept:
  assumes "vfs_inv s"
  shows "vkept s ((vrefs s)(Device n := dv_ref (g (devices s n)))) (upd_device n g s)"
proof -
  have "fss (upd_device n g s) = fss s" "vobjects (upd_device n g s) = vobjects s"
    by (simp_all add: fss_def vobjects_def upd_device_def)
  then show ?thesis using assms
    by (auto simp: vkept_def vfs_inv_def vrefs_def upd_device_def fun_eq_iff split: vfs_node.split)
qed

lemma vrefs_posD: "vrefs s (Inode f a) \<noteq> 0 \<Longrightarrow> f \<in> fss s \<and> vrefs s (Inode f a) = refs (mounts s f) a"
  by (auto simp: vrefs_def split: if_splits)

lemma vop_ref_inc_kept:
  assumes inv: "vfs_inv s" and v: "vrefs s v > 0 \<or> (\<exists>n. v = Device n)" and r: "vop_ref_inc v s = Some s'"
  shows "vkept s ((vrefs s)(v := vrefs s v + 1)) s'"
proof (cases v)
  case (Device n)
  then show ?thesis using r upd_device_kept [OF inv, of n "\<lambda>d. d\<lparr>dv_ref := dv_ref d + 1\<rparr>"]
    by (simp add: vop_ref_inc_def vrefs_def)
next
  case (Inode f a)
  with v vrefs_posD [of s f a] have f: "f \<in> fss s" "refs (mounts s f) a > 0" "vrefs s v = refs (mounts s f) a" by auto
  from r Inode obtain k where w: "with_fs f (\<lambda>m. Some (node_ref_inc a m)) s = Some (k, s')"
    by (auto simp: vop_ref_inc_def)
  have "vkept s (at_fs f ((refs (mounts s f))(a := refs (mounts s f) a + 1)) (vrefs s)) s'"
  proof (rule with_fs_kept [OF inv f(1) w])
    fix m' assume "Some (node_ref_inc a ((mounts s f)\<lparr>heap := kheap s\<rparr>)) = Some (k, m')"
    with ref_inc_kept [OF mount_inv [OF inv f(1)], of a k m'] f(2)
    show "kept ((mounts s f)\<lparr>heap := kheap s\<rparr>) ((refs (mounts s f))(a := refs (mounts s f) a + 1)) (opens (mounts s f)) m'"
      by simp
  qed
  then show ?thesis using f(3) by (simp add: at_fs_upd [OF f(1)] Inode)
qed

lemma vop_ref_dec_kept:
  assumes inv: "vfs_inv s" and v: "vrefs s v > 0" and r: "vop_ref_dec io v s = Some s'"
  shows "vkept s ((vrefs s)(v := vrefs s v - 1)) s'"
proof (cases v)
  case (Device n)
  then show ?thesis using r upd_device_kept [OF inv, of n "\<lambda>d. d\<lparr>dv_ref := dv_ref d - 1\<rparr>"]
    by (auto simp: vop_ref_dec_def vrefs_def Let_def bind_cases)
next
  case (Inode f a)
  with v vrefs_posD [of s f a] have f: "f \<in> fss s" "refs (mounts s f) a > 0" "vrefs s v = refs (mounts s f) a" by auto
  from r Inode obtain k where w: "with_fs f (\<lambda>m. map_option (Pair ()) (node_ref_dec io a m)) s = Some (k, s')"
    by (auto simp: vop_ref_dec_def)
  have "vkept s (at_fs f ((refs (mounts s f))(a := refs (mounts s f) a - 1)) (vrefs s)) s'"
  proof (rule with_fs_kept [OF inv f(1) w])
    fix m' assume "map_option (Pair ()) (node_ref_dec io a ((mounts s f)\<lparr>heap := kheap s\<rparr>)) = Some (k, m')"
    then have "node_ref_dec io a ((mounts s f)\<lparr>heap := kheap s\<rparr>) = Some m'" by auto
    with ref_dec_kept [OF mount_inv [OF inv f(1)], of a io m'] f(2) vfs_invD(2) [OF inv f(1)]
    show "kept ((mounts s f)\<lparr>heap := kheap s\<rparr>) ((refs (mounts s f))(a := refs (mounts s f) a - 1)) (opens (mounts s f)) m'"
      by simp
  qed
  then show ?thesis using f(3) by (simp add: at_fs_upd [OF f(1)] Inode)
qed

lemma get_root_fs_kept:
  assumes inv: "vfs_inv s" and f: "f \<in> fss s" and r: "fsop_get_root io f s = Some (v, s')"
  shows "vkept s ((vrefs s)(v := vrefs s v + 1)) s'"
proof -
  from r obtain a where w: "with_fs f (sfs_get_root io) s = Some (a, s')" and v: "v = Inode f a"
    by (auto simp: fsop_get_root_def bind_cases)
  have "vkept s (at_fs f ((refs (mounts s f))(a := refs (mounts s f) a + 1)) (vrefs s)) s'"
    using get_root_kept [OF mount_inv [OF inv f], of io a] by (intro with_fs_kept [OF inv f w]) simp
  then show ?thesis using f by (simp add: at_fs_upd [OF f] v vrefs_def)
qed

lemma vop_lookup_kept:
  assumes inv: "vfs_inv s" and v: "vrefs s v > 0" and r: "vop_lookup io v path s = Some (ret, x, s')"
  obtains (failed) "ret \<noteq> 0" "x = None" "vkept s (vrefs s) s'"
  | (found) w where "ret = 0" "x = Some w" "vkept s ((vrefs s)(w := vrefs s w + 1)) s'"
proof (cases v)
  case (Device n)
  show thesis
  proof (cases "path = ''''")
    case True
    with r Device have "ret = 0" "x = Some v" "vop_ref_inc v s = Some s'"
      by (auto simp: vop_lookup_def dev_lookup_def bind_cases)
    then show thesis using found vop_ref_inc_kept [OF inv, of v s'] v by blast
  next
    case False
    with r Device have "ret = - E_NOENT" "x = None" "s' = s"
      by (auto simp: vop_lookup_def dev_lookup_def bind_cases)
    then show thesis using failed vkept_refl [OF inv] by (simp add: E_NOENT_def)
  qed
next
  case (Inode f a)
  with v vrefs_posD [of s f a] have f: "f \<in> fss s" "refs (mounts s f) a > 0" by auto
  let ?m = "(mounts s f)\<lparr>heap := kheap s\<rparr>"
  from r Inode obtain y where
    w: "with_fs f (\<lambda>m. do { (ret, x, m) \<leftarrow> sfs_lookup io a path m; Some ((ret, x), m) }) s = Some ((ret, y), s')"
    and x: "x = map_option (Inode f) y" by (auto simp: vop_lookup_def bind_cases)
  then obtain m' where l: "sfs_lookup io a path ?m = Some (ret, y, m')" by (auto simp: with_fs_def bind_cases)
  have u: "m'' = m'" if "do { (ret, x, m) \<leftarrow> sfs_lookup io a path ?m; Some ((ret, x), m) } = Some ((ret, y), m'')" for m''
    using that l by simp
  have "0 < refs ?m a" using f(2) by simp
  from mount_inv [OF inv f(1)] this l show thesis
  proof (cases rule: sfs_lookup_kept)
    case failed
    have "vkept s (at_fs f (refs (mounts s f)) (vrefs s)) s'"
      by (rule with_fs_kept [OF inv f(1) w]) (use failed u in simp)
    then show thesis using that(1) failed x by (simp add: at_fs_upd [OF f(1)])
  next
    case (found b)
    have "vkept s (at_fs f ((refs (mounts s f))(b := refs (mounts s f) b + 1)) (vrefs s)) s'"
      by (rule with_fs_kept [OF inv f(1) w]) (use found u in simp)
    then show thesis using that(2) found x f(1) by (simp add: at_fs_upd [OF f(1)] vrefs_def)
  qed
qed

lemma vop_namefile_kept:
  assumes inv: "vfs_inv s" and v: "vrefs s v > 0" and r: "vop_namefile io v iob mem s = Some (ret, iob', mem', s')"
  shows "vkept s (vrefs s) s'"
proof (cases v)
  case (Device n)
  with r show ?thesis by (simp add: vop_namefile_def)
next
  case (Inode f a)
  with v vrefs_posD [of s f a] have f: "f \<in> fss s" "refs (mounts s f) a > 0" by auto
  from r Inode obtain y where
    w: "with_fs f (\<lambda>m. do { (ret, iob, mem, m) \<leftarrow> sfs_namefile io a iob mem m; Some ((ret, iob, mem), m) }) s = Some (y, s')"
    by (auto simp: vop_namefile_def bind_cases)
  have "vkept s (at_fs f (refs (mounts s f)) (vrefs s)) s'"
    using namefile_kept [OF mount_inv [OF inv f(1)], of a io iob mem] f(2)
    by (intro with_fs_kept [OF inv f(1) w]) (auto simp: bind_cases)
  then show ?thesis by (simp add: at_fs_upd [OF f(1)])
qed
section \<open>References and who holds them\<close>

text \<open>
  \<open>H\<close> are the references held by the callers, \<open>b\<close> those a device inode has had from the start.
\<close>

definition refs_counted :: "(vfs_node \<Rightarrow> int) \<Rightarrow> 'd vfs \<Rightarrow> (vfs_node \<Rightarrow> int) \<Rightarrow> bool" where
  "refs_counted b s H \<longleftrightarrow> vfs_inv s \<and> (\<forall>v. 0 \<le> H v \<and> 0 \<le> b v) \<and>
     (\<forall>v. vrefs s v = b v + H v + of_bool (cwd s = Some v) + of_bool (bootfs_node s = Some v))"

definition given :: "vfs_node option \<Rightarrow> (vfs_node \<Rightarrow> int) \<Rightarrow> vfs_node \<Rightarrow> int" where
  "given x H = (case x of None \<Rightarrow> H | Some v \<Rightarrow> H(v := H v + 1))"

definition dropped :: "vfs_node option \<Rightarrow> (vfs_node \<Rightarrow> int) \<Rightarrow> vfs_node \<Rightarrow> int" where
  "dropped x H = (case x of None \<Rightarrow> H | Some v \<Rightarrow> H(v := H v - 1))"

lemma given_simps [simp]:
  "given None H = H" "dropped None H = H" "dropped x (given x H) = H" "given x (dropped x H) = H"
  "dropped x (given y (given x H)) = given y H"
  by (auto simp: given_def dropped_def fun_eq_iff split: option.split)

lemma refs_countedD:
  assumes "refs_counted b s H"
  shows "vfs_inv s" "0 \<le> H v" "0 \<le> b v"
    "vrefs s v = b v + H v + of_bool (cwd s = Some v) + of_bool (bootfs_node s = Some v)"
    "H v > 0 \<or> cwd s = Some v \<or> bootfs_node s = Some v \<Longrightarrow> vrefs s v > 0"
proof -
  show c: "vfs_inv s" "0 \<le> H v" "0 \<le> b v" "vrefs s v = b v + H v + of_bool (cwd s = Some v) + of_bool (bootfs_node s = Some v)"
    using assms by (simp_all add: refs_counted_def)
  show "vrefs s v > 0" if "H v > 0 \<or> cwd s = Some v \<or> bootfs_node s = Some v"
    using that c(2,3) unfolding c(4) by (auto simp: of_bool_def)
qed

lemma counted_kept: "refs_counted b s H \<Longrightarrow> vkept s (vrefs s) s' \<Longrightarrow> refs_counted b s' H"
  by (simp add: refs_counted_def vkept_def)

lemma counted_inc: "refs_counted b s H \<Longrightarrow> vkept s ((vrefs s)(v := vrefs s v + 1)) s' \<Longrightarrow> refs_counted b s' (given (Some v) H)"
  by (auto simp: refs_counted_def vkept_def given_def)

lemma counted_dec:
  "refs_counted b s H \<Longrightarrow> H v > 0 \<Longrightarrow> vkept s ((vrefs s)(v := vrefs s v - 1)) s' \<Longrightarrow> refs_counted b s' (dropped (Some v) H)"
  by (auto simp: refs_counted_def vkept_def dropped_def)

lemma counted_ref_inc:
  assumes "refs_counted b s H" and "vrefs s v > 0 \<or> (\<exists>n. v = Device n)" and "vop_ref_inc v s = Some s'"
  shows "refs_counted b s' (given (Some v) H)"
  using counted_inc [OF assms(1) vop_ref_inc_kept [OF refs_countedD(1) [OF assms(1)] assms(2,3)]] .

lemma counted_ref_dec:
  assumes "refs_counted b s H" and "H v > 0" and "vop_ref_dec io v s = Some s'"
  shows "refs_counted b s' (dropped (Some v) H)"
  using counted_dec [OF assms(1,2) vop_ref_dec_kept [OF refs_countedD(1) [OF assms(1)] refs_countedD(5) [OF assms(1)] assms(3)]] assms(2)
  by blast

lemma counted_cwd:
  assumes "refs_counted b s H" and "\<And>v. dir = Some v \<Longrightarrow> H v > 0"
  shows "refs_counted b (s\<lparr>cwd := dir\<rparr>) (given (cwd s) (dropped dir H))"
proof -
  have s: "vfs_inv (s\<lparr>cwd := dir\<rparr>) = vfs_inv s" "vrefs (s\<lparr>cwd := dir\<rparr>) = vrefs s"
    by (simp_all add: vfs_inv_def vobjects_def fss_def vrefs_def fun_eq_iff split: vfs_node.split)
  show ?thesis using assms unfolding refs_counted_def s
    by (auto simp: given_def dropped_def split: option.splits)
qed

lemma counted_bootfs:
  assumes "refs_counted b s H" and "\<And>v. dir = Some v \<Longrightarrow> H v > 0"
  shows "refs_counted b (s\<lparr>bootfs_node := dir\<rparr>) (given (bootfs_node s) (dropped dir H))"
proof -
  have s: "vfs_inv (s\<lparr>bootfs_node := dir\<rparr>) = vfs_inv s" "vrefs (s\<lparr>bootfs_node := dir\<rparr>) = vrefs s"
    by (simp_all add: vfs_inv_def vobjects_def fss_def vrefs_def fun_eq_iff split: vfs_node.split)
  show ?thesis using assms unfolding refs_counted_def s
    by (auto simp: given_def dropped_def split: option.splits)
qed

section \<open>The operations of the layer\<close>

text \<open>The result of an operation that hands out an inode.\<close>

definition hands_out :: "(vfs_node \<Rightarrow> int) \<Rightarrow> (vfs_node \<Rightarrow> int) \<Rightarrow> int \<Rightarrow> vfs_node option \<Rightarrow> 'd vfs \<Rightarrow> bool" where
  "hands_out b H ret x s' \<longleftrightarrow> refs_counted b s' (given x H) \<and> (ret = 0 \<longleftrightarrow> x \<noteq> None)"

lemma error_codes: "- E_NOENT \<noteq> 0" "- E_NO_DEV \<noteq> 0" "- E_NA_DEV \<noteq> 0"
  by (simp_all add: E_NOENT_def E_NO_DEV_def E_NA_DEV_def)

lemma get_curdir_counted:
  assumes "refs_counted b s H" and "vfs_get_curdir s = Some (ret, x, s')"
  shows "hands_out b H ret x s'"
proof (cases "cwd s")
  case None
  then show ?thesis using assms error_codes by (auto simp: vfs_get_curdir_def hands_out_def)
next
  case (Some v)
  then have "vop_ref_inc v s = Some s'" "ret = 0" "x = Some v" using assms(2) by (auto simp: vfs_get_curdir_def bind_cases)
  then show ?thesis using counted_ref_inc [OF assms(1), of v] refs_countedD(5) [OF assms(1), of v] Some by (simp add: hands_out_def)
qed

lemma get_bootfs_counted:
  assumes "refs_counted b s H" and "vfs_get_bootfs s = Some (ret, x, s')"
  shows "hands_out b H ret x s'"
proof (cases "bootfs_node s")
  case None
  then show ?thesis using assms error_codes by (auto simp: vfs_get_bootfs_def hands_out_def)
next
  case (Some v)
  then have "vop_ref_inc v s = Some s'" "ret = 0" "x = Some v" using assms(2) by (auto simp: vfs_get_bootfs_def bind_cases)
  then show ?thesis using counted_ref_inc [OF assms(1), of v] refs_countedD(5) [OF assms(1), of v] Some by (simp add: hands_out_def)
qed

lemma fsop_get_root_counted:
  assumes "refs_counted b s H" and "f \<in> fss s" and "fsop_get_root io f s = Some (v, s')"
  shows "refs_counted b s' (given (Some v) H)"
  using counted_inc [OF assms(1) get_root_fs_kept [OF refs_countedD(1) [OF assms(1)] assms(2,3)]] .

lemma get_root_counted:
  assumes c: "refs_counted b s H" and r: "vfs_get_root io name s = Some (ret, x, s')"
  shows "hands_out b H ret x s'"
proof (cases "find (\<lambda>d. devname d = name) (vdev_list s)")
  case None
  then show ?thesis using assms error_codes by (auto simp: vfs_get_root_def hands_out_def)
next
  case (Some d)
  then have d: "d \<in> set (vdev_list s)" by (auto simp: find_Some_iff)
  show ?thesis
  proof (cases "vdev_fs d")
    case None
    then show ?thesis
      using r Some c error_codes counted_ref_inc [OF c, of "Device n" for n]
      by (auto simp: vfs_get_root_def hands_out_def bind_cases split: if_splits)
  next
    case f: (Some f)
    then have "f \<in> fss s" using d by (auto simp: fss_def)
    then show ?thesis using r Some f fsop_get_root_counted [OF c, of f]
      by (auto simp: vfs_get_root_def hands_out_def bind_cases)
  qed
qed

lemma get_device_counted:
  assumes c: "refs_counted b s H" and g: "get_device io path s = Some (ret, sub, x, path', s')"
  shows "refs_counted b s' (given (if ret = 0 then x else None) H) \<and> (ret = 0 \<longrightarrow> x \<noteq> None)"
proof -
  obtain slash colon where m: "path_marks 0 path = (slash, colon)" by fastforce
  consider (rel) "colon < 0 \<and> slash \<noteq> 0" | (dev) "colon > 0" "\<not> (colon < 0 \<and> slash \<noteq> 0)"
    | (boot) "\<not> (colon < 0 \<and> slash \<noteq> 0)" "\<not> colon > 0" "hd path = CHR ''/''"
    | (cur) "\<not> (colon < 0 \<and> slash \<noteq> 0)" "\<not> colon > 0" "hd path \<noteq> CHR ''/''" by blast
  then show ?thesis
  proof cases
    case rel
    with g m obtain s1 where "vfs_get_curdir s = Some (ret, x, s1)" "s' = s1" by (auto simp: get_device_def bind_cases)
    with get_curdir_counted [OF c, of ret x s1] show ?thesis by (auto simp: hands_out_def split: if_splits)
  next
    case dev
    with g m obtain s1 where "vfs_get_root io (take (nat colon) path) s = Some (ret, x, s1)" "s' = s1"
      by (auto simp: get_device_def bind_cases Let_def split: if_splits)
    with get_root_counted [OF c, of io _ ret x s1] show ?thesis by (auto simp: hands_out_def split: if_splits)
  next
    case boot
    with g m obtain s1 where "vfs_get_bootfs s = Some (ret, x, s1)" "s' = s1"
      by (auto simp: get_device_def bind_cases Let_def split: if_splits)
    with get_bootfs_counted [OF c, of ret x s1] show ?thesis by (auto simp: hands_out_def split: if_splits)
  next
    case cur
    with g m obtain r y s1 where y: "vfs_get_curdir s = Some (r, y, s1)" and
      rest: "if r \<noteq> 0 then ret = r \<and> x = None \<and> s' = s1
        else \<exists>f a root s2. y = Some (Inode f a) \<and> fsop_get_root io f s1 = Some (root, s2) \<and>
          vop_ref_dec io (Inode f a) s2 = Some s' \<and> ret = 0 \<and> x = Some root"
      by (auto simp: get_device_def bind_cases Let_def split: if_splits vfs_node.splits) (metis vfs_node.exhaust)+
    note h = get_curdir_counted [OF c y]
    show ?thesis
    proof (cases "r = 0")
      case False
      then show ?thesis using h rest by (auto simp: hands_out_def)
    next
      case True
      with rest obtain f a root s2 where q: "y = Some (Inode f a)" "fsop_get_root io f s1 = Some (root, s2)"
        "vop_ref_dec io (Inode f a) s2 = Some s'" "ret = 0" "x = Some root" by auto
      have c1: "refs_counted b s1 (given (Some (Inode f a)) H)" using h q(1) by (simp add: hands_out_def)
      have "vrefs s1 (Inode f a) > 0"
        by (rule refs_countedD(5) [OF c1]) (use refs_countedD(2) [OF c, of "Inode f a"] in \<open>simp add: given_def\<close>)
      then have "f \<in> fss s1" using vrefs_posD [of s1 f a] by auto
      from fsop_get_root_counted [OF c1 this q(2)]
      have c2: "refs_counted b s2 (given (Some root) (given (Some (Inode f a)) H))" .
      have "given (Some root) (given (Some (Inode f a)) H) (Inode f a) > 0"
        using refs_countedD(2) [OF c, of "Inode f a"] by (auto simp: given_def)
      from counted_ref_dec [OF c2 this q(3)] show ?thesis using q(4,5) by simp
    qed
  qed
qed

lemma lookup_counted:
  assumes c: "refs_counted b s H" and l: "vfs_lookup io path s = Some (ret, x, path', s')"
  shows "hands_out b H ret x s'"
proof -
  from l obtain r sub y s1 where g: "get_device io path s = Some (r, sub, y, path', s1)" and
    rest: "if r \<noteq> 0 then ret = r \<and> x = None \<and> s' = s1
      else \<exists>v. y = Some v \<and> (if sub \<noteq> '''' then \<exists>s2. vop_lookup io v sub s1 = Some (ret, x, s2) \<and> vop_ref_dec io v s2 = Some s'
        else ret = 0 \<and> x = Some v \<and> s' = s1)"
    by (auto simp: vfs_lookup_def bind_cases split: if_splits)
  note h = get_device_counted [OF c g]
  show ?thesis
  proof (cases "r = 0")
    case False
    then show ?thesis using h rest by (auto simp: hands_out_def)
  next
    case True
    with rest obtain v where v: "y = Some v" by auto
    have c1: "refs_counted b s1 (given (Some v) H)" using h True v by simp
    have pos: "given (Some v) H v > 0" using refs_countedD(2) [OF c, of v] by (simp add: given_def)
    show ?thesis
    proof (cases "sub = ''''")
      case empty: True
      then show ?thesis using rest True v c1 by (simp add: hands_out_def)
    next
      case False
      with rest True v obtain s2 where l2: "vop_lookup io v sub s1 = Some (ret, x, s2)" and d: "vop_ref_dec io v s2 = Some s'"
        by auto
      from refs_countedD(1) [OF c1] refs_countedD(5) [OF c1 disjI1 [OF pos]] l2 show ?thesis
      proof (cases rule: vop_lookup_kept)
        case failed
        from counted_ref_dec [OF counted_kept [OF c1 failed(3)] pos d] show ?thesis using failed by (simp add: hands_out_def)
      next
        case (found w)
        have "given (Some w) (given (Some v) H) v > 0" using pos by (auto simp: given_def)
        from counted_ref_dec [OF counted_inc [OF c1 found(3)] this d] show ?thesis using found by (simp add: hands_out_def)
      qed
    qed
  qed
qed
lemma set_curdir_counted:
  assumes c: "refs_counted b s H" and dir: "\<And>v. dir = Some v \<Longrightarrow> H v > 0" and r: "vfs_set_curdir io dir s = Some (ret, s')"
  shows "refs_counted b s' H"
proof (cases "cwd s = dir")
  case True
  with r c show ?thesis by (simp add: vfs_set_curdir_def)
next
  case False
  obtain r1 s1 where s1: "(case dir of None \<Rightarrow> Some (0, s)
      | Some v \<Rightarrow> do {
          (ret, type) \<leftarrow> vop_gettype v s;
          if ret \<noteq> 0 then Some (ret, s)
          else if type \<noteq> S_IFDIR then Some (- E_NOTDIR, s)
          else do { s \<leftarrow> vop_ref_inc v s; Some (0, s) } }) = Some (r1, s1)"
    and rest: "if r1 \<noteq> 0 then s' = s1
      else (case cwd s1 of None \<Rightarrow> Some (s1\<lparr>cwd := dir\<rparr>) | Some v \<Rightarrow> vop_ref_dec io v (s1\<lparr>cwd := dir\<rparr>)) = Some s'"
    using r False by (auto simp: vfs_set_curdir_def bind_cases Let_def split: if_splits)
  have c1: "if r1 \<noteq> 0 then s1 = s else refs_counted b s1 (given dir H)"
  proof (cases dir)
    case None
    then show ?thesis using s1 c by auto
  next
    case (Some v)
    then show ?thesis
      using s1 counted_ref_inc [OF c, of v s1] refs_countedD(5) [OF c, of v] dir [of v]
      by (auto simp: bind_cases E_NOTDIR_def split: if_splits)
  qed
  show ?thesis
  proof (cases "r1 = 0")
    case False
    with c1 rest c show ?thesis by simp
  next
    case True
    then have c2: "refs_counted b s1 (given dir H)" using c1 by simp
    have pos: "given dir H v > 0" if "dir = Some v" for v using dir [OF that] that by (simp add: given_def)
    have "refs_counted b (s1\<lparr>cwd := dir\<rparr>) (given (cwd s1) (dropped dir (given dir H)))" by (rule counted_cwd [OF c2 pos])
  then have c3: "refs_counted b (s1\<lparr>cwd := dir\<rparr>) (given (cwd s1) H)" by simp
    show ?thesis
    proof (cases "cwd s1")
      case None
      with rest True c3 show ?thesis by simp
    next
      case (Some v)
      have "given (Some v) H v > 0" using refs_countedD(2) [OF c, of v] by (simp add: given_def)
      from counted_ref_dec [OF c3 [unfolded Some] this] rest True Some show ?thesis by simp
    qed
  qed
qed

lemma chdir_counted:
  assumes c: "refs_counted b s H" and r: "vfs_chdir io path s = Some (ret, s')"
  shows "refs_counted b s' H"
proof -
  from r obtain r1 x p s1 where l: "vfs_lookup io path s = Some (r1, x, p, s1)" and
    rest: "if r1 \<noteq> 0 then s' = s1
      else \<exists>v s2. x = Some v \<and> vfs_set_curdir io (Some v) s1 = Some (ret, s2) \<and> vop_ref_dec io v s2 = Some s'"
    by (auto simp: vfs_chdir_def bind_cases split: if_splits)
  note h = lookup_counted [OF c l]
  show ?thesis
  proof (cases "r1 = 0")
    case False
    with h rest show ?thesis by (auto simp: hands_out_def)
  next
    case True
    with rest obtain v s2 where v: "x = Some v" "vfs_set_curdir io (Some v) s1 = Some (ret, s2)" "vop_ref_dec io v s2 = Some s'"
      by auto
    have c1: "refs_counted b s1 (given (Some v) H)" using h v(1) by (simp add: hands_out_def)
    have pos: "given (Some v) H v > 0" using refs_countedD(2) [OF c, of v] by (simp add: given_def)
    have "refs_counted b s2 (given (Some v) H)" by (rule set_curdir_counted [OF c1 _ v(2)]) (use pos in auto)
    from counted_ref_dec [OF this pos v(3)] show ?thesis by simp
  qed
qed

lemma change_bootfs_counted:
  assumes c: "refs_counted b s (given x H)" and H: "\<And>v. 0 \<le> H v" and r: "change_bootfs io x s = Some s'"
  shows "refs_counted b s' H"
proof -
  have "given x H v > 0" if "x = Some v" for v using H [of v] that by (simp add: given_def)
  then have "refs_counted b (s\<lparr>bootfs_node := x\<rparr>) (given (bootfs_node s) (dropped x (given x H)))" by (rule counted_bootfs [OF c])
  then have c3: "refs_counted b (s\<lparr>bootfs_node := x\<rparr>) (given (bootfs_node s) H)" by simp
  show ?thesis
  proof (cases "bootfs_node s")
    case None
    with r c3 show ?thesis by (simp add: change_bootfs_def)
  next
    case (Some v)
    have "given (Some v) H v > 0" using H [of v] by (simp add: given_def)
    from counted_ref_dec [OF c3 [unfolded Some] this] r Some show ?thesis by (simp add: change_bootfs_def)
  qed
qed

lemma set_bootfs_counted:
  assumes c: "refs_counted b s H" and r: "vfs_set_bootfs io fsname s = Some (ret, s')"
  shows "refs_counted b s' H"
proof (cases fsname)
  case None
  with r have "change_bootfs io None s = Some s'" by (auto simp: vfs_set_bootfs_def bind_cases)
  then show ?thesis using change_bootfs_counted [of b s None H] c refs_countedD(2) [OF c] by simp
next
  case (Some name)
  show ?thesis
  proof (cases "\<exists>k. dropWhile (\<lambda>c. c \<noteq> CHR '':'') name = [k]")
    case False
    with r Some c show ?thesis by (auto simp: vfs_set_bootfs_def split: list.splits)
  next
    case True
    with r Some obtain r1 s1 where d: "vfs_chdir io name s = Some (r1, s1)" and
      rest: "if r1 \<noteq> 0 then s' = s1 else \<exists>r2 x s2. vfs_get_curdir s1 = Some (r2, x, s2) \<and>
        (if r2 \<noteq> 0 then s' = s2 else change_bootfs io x s2 = Some s')"
      by (auto simp: vfs_set_bootfs_def bind_cases split: if_splits)
    note c1 = chdir_counted [OF c d]
    show ?thesis
    proof (cases "r1 = 0")
      case False
      with rest c1 show ?thesis by simp
    next
      case True
      with rest obtain r2 x s2 where x: "vfs_get_curdir s1 = Some (r2, x, s2)"
        "if r2 \<noteq> 0 then s' = s2 else change_bootfs io x s2 = Some s'" by auto
      note h = get_curdir_counted [OF c1 x(1)]
      show ?thesis
        using h x(2) change_bootfs_counted [of b s2 x H] refs_countedD(2) [OF c] by (auto simp: hands_out_def split: if_splits)
    qed
  qed
qed

lemma getcwd_counted:
  assumes c: "refs_counted b s H" and r: "vfs_getcwd io iob mem s = Some (ret, iob', mem', s')"
  shows "refs_counted b s' H"
proof -
  from r obtain r1 x s1 where g: "vfs_get_curdir s = Some (r1, x, s1)" and
    rest: "if r1 \<noteq> 0 then s' = s1 else \<exists>v s2. x = Some v \<and> vop_ref_dec io v s2 = Some s' \<and>
      (s2 = s1 \<or> (\<exists>iob2 mem2 r3 iob3 mem3. vop_namefile io v iob2 mem2 s1 = Some (r3, iob3, mem3, s2)))"
    by (auto simp: vfs_getcwd_def bind_cases split: if_splits) blast+
  note h = get_curdir_counted [OF c g]
  show ?thesis
  proof (cases "r1 = 0")
    case False
    with h rest show ?thesis by (auto simp: hands_out_def)
  next
    case True
    with rest have "\<exists>v s2. x = Some v \<and> vop_ref_dec io v s2 = Some s' \<and>
      (s2 = s1 \<or> (\<exists>iob2 mem2 r3 iob3 mem3. vop_namefile io v iob2 mem2 s1 = Some (r3, iob3, mem3, s2)))" by simp
    then obtain v s2 where v: "x = Some v" "vop_ref_dec io v s2 = Some s'"
      "s2 = s1 \<or> (\<exists>iob2 mem2 r3 iob3 mem3. vop_namefile io v iob2 mem2 s1 = Some (r3, iob3, mem3, s2))" by blast
    have c1: "refs_counted b s1 (given (Some v) H)" using h v(1) by (simp add: hands_out_def)
    have pos: "given (Some v) H v > 0" using refs_countedD(2) [OF c, of v] by (simp add: given_def)
    have "refs_counted b s2 (given (Some v) H)"
      using v(3) c1 counted_kept [OF c1 vop_namefile_kept [OF refs_countedD(1) [OF c1] refs_countedD(5) [OF c1 disjI1 [OF pos]]]]
      by blast
    from counted_ref_dec [OF this pos v(2)] show ?thesis by simp
  qed
qed
section \<open>The table of devices\<close>

lemma add_dev_counted:
  assumes c: "refs_counted b s H" and r: "vfs_add_dev name node mnt s = Some (ret, s')"
  shows "refs_counted b s' H"
proof (cases "s' = s")
  case False
  let ?d = "\<lparr>devname = name, devnode = node, mountable = mnt, vdev_fs = None\<rparr>"
  from r False have s': "s' = s\<lparr>vdev_list := ?d # vdev_list s, kheap := drop 2 (kheap s)\<rparr>"
    by (auto simp: vfs_add_dev_def vfs_do_add_def bind_cases split: if_splits)
  have fs: "fss s' = fss s" by (auto simp: fss_def s')
  have "count (vobjects s') x \<le> count (vobjects s) x" for x
  proof -
    have "count (mset (drop 2 (kheap s))) x \<le> count (mset (take 2 (kheap s) @ drop 2 (kheap s))) x"
      unfolding mset_append by simp
    then show ?thesis unfolding vobjects_def fs by (simp add: s')
  qed
  then have v: "count (vobjects s') x \<le> 1" for x
    using refs_countedD(1) [OF c] order_trans unfolding vfs_inv_def by blast
  have "vfs_inv s'"
    using refs_countedD(1) [OF c] v unfolding vfs_inv_def fs
    by (auto simp: s' nth_Cons less_Suc_eq_0_disj split: nat.splits)
  moreover have "vrefs s' = vrefs s" unfolding vrefs_def fs fun_eq_iff by (auto simp: s' split: vfs_node.split)
  ultimately show ?thesis using c by (simp add: refs_counted_def s')
qed (use c in simp)

text \<open>A mount of \<^verbatim>\<open>sfs_do_mount\<close> takes five objects of the heap and starts without inodes.\<close>

lemma bitmap_create_objects: "bitmap_create p q n = Some (Some bm) \<Longrightarrow> p \<and> q"
  by (auto simp: bitmap_create_def bind_cases Let_def split: if_splits)

lemma do_mount_objects:
  assumes "sfs_do_mount io bsize blocks h d = Some (ret, v, h', d')"
  shows "v = None \<and> h' = h \<or> (\<exists>m. v = Some m \<and> ret = 0 \<and> own m = take 5 h \<and> length (own m) = 5 \<and> h' = drop 5 h \<and>
    inode_list m = [] \<and> hash_list m = (\<lambda>_. []))"
  using assms
  by (auto simp: sfs_do_mount_def bind_cases Let_def numeral_nat dest!: bitmap_create_objects
      split: if_splits list.splits option.splits)
lemma find_mount_at:
  assumes "find_mount name s = (0, i)"
  shows "i < length (vdev_list s)" and "mountable (vdev_list s ! i)" and "devname (vdev_list s ! i) = name"
  using assms by (auto simp: find_mount_def E_NO_DEV_def find_Some_iff split: option.splits)

lemma fss_at: "fss s = {f. \<exists>j < length (vdev_list s). vdev_fs (vdev_list s ! j) = Some f}"
  unfolding fss_def by (metis in_set_conv_nth)

lemma heap_not_mounted:
  assumes inv: "vfs_inv s" and x: "x \<in> set (kheap s)"
  shows "x \<notin> fss s"
proof
  assume f: "x \<in> fss s"
  note i = vfs_invD [OF inv f]
  have "x \<in> set (own (mounts s x))" using i(3,4) by (metis nth_mem zero_less_numeral)
  then have "count (rest (mounts s x)) x \<ge> 1" by (simp add: rest_def Suc_le_eq)
  moreover have "count (mset (kheap s)) x \<ge> 1" using x by (simp add: Suc_le_eq)
  ultimately have two: "count (mset (kheap s)) x + count (rest (mounts s x)) x \<ge> 2" by linarith
  have "count (mset (kheap s)) x + count (rest (mounts s x)) x \<le> count (vobjects s) x"
    by (simp add: vobjects_at [OF f] objects_rest)
  also have "\<dots> \<le> 1" using inv by (simp add: vfs_inv_def)
  finally show False using two by simp
qed

lemma mount_counted:
  assumes c: "refs_counted b s H" and r: "vfs_mount io name s = Some (ret, s')"
  shows "refs_counted b s' H"
proof (cases "find_mount name s")
  case (Pair r1 i)
  show ?thesis
  proof (cases "r1 \<noteq> 0 \<or> vdev_fs (vdev_list s ! i) \<noteq> None")
    case True
    with r Pair c show ?thesis by (auto simp: vfs_mount_def split: if_splits)
  next
    case False
    then have fm: "find_mount name s = (0, i)" and none: "vdev_fs (vdev_list s ! i) = None" using Pair by auto
    note i = find_mount_at [OF fm]
    from r fm none obtain n r2 v h d where dm: "sfs_do_mount io (d_blocksize (devices s n)) (d_blocks (devices s n)) (kheap s)
        (dv_data (devices s n)) = Some (r2, v, h, d)" and
      s': "s' = (let s = upd_device n (\<lambda>dev. dev\<lparr>dv_data := d\<rparr>) (s\<lparr>kheap := h\<rparr>) in
        case v of None \<Rightarrow> s | Some m \<Rightarrow> set_vdev_fs i (Some (own m ! 0)) (s\<lparr>mounts := (mounts s)(own m ! 0 := m)\<rparr>))"
      by (auto simp: vfs_mount_def bind_cases Let_def split: option.splits)
    let ?s1 = "upd_device n (\<lambda>dev. dev\<lparr>dv_data := d\<rparr>) s"
    have c1: "refs_counted b ?s1 H"
      using counted_kept [OF c] upd_device_kept [OF refs_countedD(1) [OF c], of n "\<lambda>dev. dev\<lparr>dv_data := d\<rparr>"]
      by (simp add: vrefs_def fun_upd_idem)
    show ?thesis
    proof (cases v)
      case None
      with do_mount_objects [OF dm] have "h = kheap s" by auto
      then have "s' = ?s1" by (simp add: s' None upd_device_def)
      with c1 show ?thesis by simp
    next
      case (Some m)
      with do_mount_objects [OF dm] have m: "own m = take 5 (kheap s)" "length (own m) = 5" "h = drop 5 (kheap s)"
        "inode_list m = []" "hash_list m = (\<lambda>_. [])" by auto
      let ?f = "own m ! 0"
      have "?f \<in> set (kheap s)" using m(1,2) by (metis nth_mem set_take_subset subsetD zero_less_numeral)
      then have new: "?f \<notin> fss s" by (rule heap_not_mounted [OF refs_countedD(1) [OF c]])
      have eq: "s' = set_vdev_fs i (Some ?f) (?s1\<lparr>mounts := (mounts s)(?f := m), kheap := h\<rparr>)"
        by (simp add: s' Some upd_device_def Let_def set_vdev_fs_def)
      have vl: "vdev_list s' = (vdev_list s)[i := (vdev_list s ! i)\<lparr>vdev_fs := Some ?f\<rparr>]"
        by (simp add: eq set_vdev_fs_def upd_device_def)
      have ms: "mounts s' = (mounts s)(?f := m)" "kheap s' = h" "cwd s' = cwd s" "bootfs_node s' = bootfs_node s"
        "dv_ref (devices s' k) = dv_ref (devices s k)" for k by (simp_all add: eq set_vdev_fs_def upd_device_def)
      have fs: "fss s' = insert ?f (fss s)"
        using i(1) none by (auto simp: fss_at vl nth_list_update) (metis option.distinct(1))
      have "vobjects s' = vobjects s"
      proof -
        have "(\<Sum>g \<in> fss s. rest (mounts s' g)) = (\<Sum>g \<in> fss s. rest (mounts s g))"
          using new by (intro sum.cong) (auto simp: ms)
        moreover have "mset (take 5 (kheap s)) + mset (drop 5 (kheap s)) = mset (kheap s)"
          by (metis append_take_drop_id mset_append)
        ultimately show ?thesis using new by (simp add: vobjects_def fs ms rest_def m ac_simps)
      qed
      moreover have "cache_ok m" using m by (simp add: cache_ok_def)
      moreover have "opens m = (\<lambda>_. 0)" "refs m = (\<lambda>_. 0)" 
        unfolding opens_def refs_def using m(4) by simp_all
      moreover have "j = k" if "j < length (vdev_list s')" "k < length (vdev_list s')" "vdev_fs (vdev_list s' ! j) \<noteq> None"
        "vdev_fs (vdev_list s' ! j) = vdev_fs (vdev_list s' ! k)" for j k
        using that i(1) new refs_countedD(1) [OF c] unfolding vl fss_at vfs_inv_def
        by (auto simp: nth_list_update split: if_splits)
      ultimately have "vfs_inv s'"
        using refs_countedD(1) [OF c] m(2) new unfolding vfs_inv_def fs by (auto simp: ms)
      moreover have "vrefs s' x = vrefs s x" for x
        using new \<open>refs m = (\<lambda>_. 0)\<close> by (cases x) (auto simp: vrefs_def fs ms)
      ultimately show ?thesis using c by (simp add: refs_counted_def ms)
    qed
  qed
qed
lemma with_fs_data:
  assumes inv: "vfs_inv s" and f: "f \<in> fss s" and w: "with_fs f g s = Some (x, s')"
    and g: "\<And>m'. g ((mounts s f)\<lparr>heap := kheap s\<rparr>) = Some (x, m') \<Longrightarrow> data_step ((mounts s f)\<lparr>heap := kheap s\<rparr>) m'"
  shows "vkept s (vrefs s) s'"
proof -
  have "vkept s (at_fs f (refs (mounts s f)) (vrefs s)) s'"
    by (rule with_fs_kept [OF inv f w]) (use kept_data [OF g mount_inv [OF inv f]] in simp)
  then show ?thesis by (simp add: at_fs_upd [OF f])
qed

lemma cleanup_data: "sfs_cleanup io m = Some m' \<Longrightarrow> data_step m m'"
proof -
  have "data_step m m'" if "cleanup_loop io n r m = Some (r', m')" for n r r' m'
    using that
  proof (induction n arbitrary: r m)
    case (Suc n)
    then show ?case by (auto simp: bind_cases split: if_splits dest!: sync_data intro: data_step_trans)
  qed simp
  then show "sfs_cleanup io m = Some m' \<Longrightarrow> data_step m m'" by (auto simp: sfs_cleanup_def)
qed

text \<open>What is left when a volume without inodes is given up.\<close>

lemma unmount_objects:
  assumes "sfs_unmount m = Some (0, m')" and "length (own m) = 5"
  shows "inode_list m = []" and "mset (heap m') = mset (heap m) + mset (own m)"
proof -
  show "inode_list m = []" using assms(1) by (auto simp: sfs_unmount_def E_BUSY_def split: if_splits)
  obtain a b c d e where o: "own m = [a, b, c, d, e]" using assms(2) by (auto simp: length_Suc_conv numeral_eq_Suc)
  show "mset (heap m') = mset (heap m) + mset (own m)"
    using assms(1) by (auto simp: sfs_unmount_def o obj_free_def bind_cases E_BUSY_def split: if_splits)
qed

lemma unmount_busy: "sfs_unmount m = Some (ret, m') \<Longrightarrow> ret \<noteq> 0 \<Longrightarrow> m' = m"
  by (auto simp: sfs_unmount_def bind_cases Let_def split: if_splits)

lemma cleared_entry:
  assumes "\<And>j. j < length vs \<Longrightarrow> vdev_fs (vs ! j) = Some f \<Longrightarrow> i = j" and "i < length vs" and "vdev_fs (vs ! i) = Some f"
  shows "{g. \<exists>j < length (vs[i := (vs ! i)\<lparr>vdev_fs := None\<rparr>]). vdev_fs (vs[i := (vs ! i)\<lparr>vdev_fs := None\<rparr>] ! j) = Some g} =
    {g. \<exists>j < length vs. vdev_fs (vs ! j) = Some g} - {f}" (is "?L = ?R")
proof
  show "?L \<subseteq> ?R"
  proof
    fix g assume "g \<in> ?L"
    then obtain j where j: "j < length vs" "vdev_fs (vs[i := (vs ! i)\<lparr>vdev_fs := None\<rparr>] ! j) = Some g" by auto
    with assms(2) have "j \<noteq> i" "vdev_fs (vs ! j) = Some g" by (auto simp: nth_list_update split: if_splits)
    moreover from this assms(1) j(1) have "g \<noteq> f" by blast
    ultimately show "g \<in> ?R" using j(1) by blast
  qed
  show "?R \<subseteq> ?L"
  proof
    fix g assume "g \<in> ?R"
    then obtain j where j: "j < length vs" "vdev_fs (vs ! j) = Some g" "g \<noteq> f" by auto
    with assms(3) have "j \<noteq> i" by auto
    with j show "g \<in> ?L" by (intro CollectI exI [of _ j]) simp
  qed
qed

lemma unmount_vdev_counted:
  assumes c: "refs_counted b s H" and i: "i < length (vdev_list s)" "vdev_fs (vdev_list s ! i) = Some f"
    and r: "unmount_vdev io i f s = Some (ret, s')"
  shows "refs_counted b s' H" and "ret = 0 \<Longrightarrow> f \<notin> fss s' \<and> H (Inode f a) = 0" and "length (vdev_list s') = length (vdev_list s)"
proof -
  have f: "f \<in> fss s" using i by (auto simp: fss_at)
  from r obtain r1 s1 where sync: "with_fs f (sfs_sync io) s = Some (r1, s1)" and
    rest: "if r1 \<noteq> 0 then ret = r1 \<and> s' = s1 else \<exists>r2 s2. with_fs f sfs_unmount s1 = Some (r2, s2) \<and>
      (if r2 = 0 then ret = 0 \<and> (\<exists>n. s' = set_vdev_fs i None (upd_device n (\<lambda>dev. dev\<lparr>dv_data := sfs_dev (vol (mounts s2 f))\<rparr>) s2))
       else ret = r2 \<and> s' = s2)"
    by (auto simp: unmount_vdev_def bind_cases split: if_splits) metis+
  have k1: "vkept s (vrefs s) s1"
    by (rule with_fs_data [OF refs_countedD(1) [OF c] f sync]) (rule sync_data)
  have c1: "refs_counted b s1 H" by (rule counted_kept [OF c k1])
  have vl1: "vdev_list s1 = vdev_list s" using vkeptD(5) [OF k1] .
  have f1: "f \<in> fss s1" using f by (simp add: fss_def vl1)
  note inv1 = refs_countedD(1) [OF c1]
  show "refs_counted b s' H" and "ret = 0 \<Longrightarrow> f \<notin> fss s' \<and> H (Inode f a) = 0" and "length (vdev_list s') = length (vdev_list s)"
  proof (atomize (full), cases "r1 = 0")
    case False
    with rest c1 vl1 show "refs_counted b s' H \<and> (ret = 0 \<longrightarrow> f \<notin> fss s' \<and> H (Inode f a) = 0) \<and>
      length (vdev_list s') = length (vdev_list s)" by simp
  next
    case True
    with rest obtain r2 s2 where w: "with_fs f sfs_unmount s1 = Some (r2, s2)" and
      r2: "if r2 = 0 then ret = 0 \<and> (\<exists>n. s' = set_vdev_fs i None (upd_device n (\<lambda>dev. dev\<lparr>dv_data := sfs_dev (vol (mounts s2 f))\<rparr>) s2))
       else ret = r2 \<and> s' = s2" by auto
    from w obtain m' where m': "sfs_unmount ((mounts s1 f)\<lparr>heap := kheap s1\<rparr>) = Some (r2, m')"
      and s2: "s2 = s1\<lparr>mounts := (mounts s1)(f := m'), kheap := heap m'\<rparr>"
      by (auto simp: with_fs_def bind_cases)
    show "refs_counted b s' H \<and> (ret = 0 \<longrightarrow> f \<notin> fss s' \<and> H (Inode f a) = 0) \<and> length (vdev_list s') = length (vdev_list s)"
    proof (cases "r2 = 0")
      case False
      have "vkept s1 (vrefs s1) s2"
        by (rule with_fs_data [OF inv1 f1 w]) (use unmount_busy False in force)
      with counted_kept [OF c1 this] vkeptD(5) [OF this] r2 False vl1 show ?thesis by simp
    next
      case zero: True
      with r2 obtain n where ret: "ret = 0" and
        s': "s' = set_vdev_fs i None (upd_device n (\<lambda>dev. dev\<lparr>dv_data := sfs_dev (vol (mounts s2 f))\<rparr>) s2)" by auto
      have len: "length (own ((mounts s1 f)\<lparr>heap := kheap s1\<rparr>)) = 5" using vfs_invD(3) [OF inv1 f1] by simp
      note u = unmount_objects [OF m' [unfolded zero] len]
      have vl: "vdev_list s' = (vdev_list s1)[i := (vdev_list s1 ! i)\<lparr>vdev_fs := None\<rparr>]"
        by (simp add: s' s2 set_vdev_fs_def upd_device_def)
      have ms: "mounts s' = (mounts s1)(f := m')" "kheap s' = heap m'" "cwd s' = cwd s1" "bootfs_node s' = bootfs_node s1"
        "dv_ref (devices s' k) = dv_ref (devices s1 k)" for k by (simp_all add: s' s2 set_vdev_fs_def upd_device_def)
      have un: "i = j" if "j < length (vdev_list s1)" "vdev_fs (vdev_list s1 ! j) = Some f" for j
      proof -
        have "\<forall>j < length (vdev_list s1). \<forall>k < length (vdev_list s1). vdev_fs (vdev_list s1 ! j) \<noteq> None \<longrightarrow>
          vdev_fs (vdev_list s1 ! j) = vdev_fs (vdev_list s1 ! k) \<longrightarrow> j = k"
          using inv1 unfolding vfs_inv_def by (elim conjE)
        from this [rule_format, of i j] that i show ?thesis by (simp add: vl1)
      qed
      have fi: "vdev_fs (vdev_list s1 ! i) = Some f" "i < length (vdev_list s1)" using i vl1 by simp_all
      have fs: "fss s' = fss s1 - {f}"
        using cleared_entry [OF un fi(2,1)] unfolding fss_at vl by simp
      have fin: "f \<notin> fss s'" by (simp add: fs)
      have "vobjects s' = vobjects s1"
      proof -
        have "(\<Sum>g \<in> fss s1 - {f}. rest (mounts s' g)) = (\<Sum>g \<in> fss s1 - {f}. rest (mounts s1 g))"
          by (intro sum.cong) (auto simp: ms)
        moreover have "rest (mounts s1 f) = mset (own (mounts s1 f))" using u(1) by (simp add: rest_def)
        ultimately show ?thesis using u(2) vobjects_at [OF f1]
          by (simp add: vobjects_def fs ms objects_rest sum.remove [OF finite_fss f1] ac_simps)
      qed
      moreover have "j = k" if "j < length (vdev_list s')" "k < length (vdev_list s')" "vdev_fs (vdev_list s' ! j) \<noteq> None"
        "vdev_fs (vdev_list s' ! j) = vdev_fs (vdev_list s' ! k)" for j k
        using that inv1 unfolding vl vfs_inv_def by (auto simp: nth_list_update [OF fi(2)] split: if_splits)
      ultimately have "vfs_inv s'"
        using inv1 unfolding vfs_inv_def fs by (auto simp: ms)
      moreover have "refs (mounts s1 f) = (\<lambda>_. 0)" using u(1) unfolding refs_def by simp
      then have "vrefs s' x = vrefs s1 x" for x by (cases x) (auto simp: vrefs_def fs ms)
      ultimately have "refs_counted b s' H" using c1 by (simp add: refs_counted_def ms)
      moreover from this have "H (Inode f a) = 0"
        using refs_countedD(2,3) [of b s' H "Inode f a"] refs_countedD(4) [of b s' H "Inode f a"] fin
        by (auto simp: vrefs_def of_bool_def split: if_splits)
      ultimately show ?thesis using fin by (simp add: vl vl1)
    qed
  qed
qed

lemma unmount_counted:
  assumes c: "refs_counted b s H" and r: "vfs_unmount io name s = Some (ret, s')"
  shows "refs_counted b s' H" and "ret = 0 \<Longrightarrow> \<exists>i f. find_mount name s = (0, i) \<and> vdev_fs (vdev_list s ! i) = Some f \<and>
    f \<notin> fss s' \<and> (\<forall>a. H (Inode f a) = 0)"
proof -
  obtain r1 i where fm: "find_mount name s = (r1, i)" by fastforce
  have "refs_counted b s' H \<and> (ret = 0 \<longrightarrow> (\<exists>i f. find_mount name s = (0, i) \<and> vdev_fs (vdev_list s ! i) = Some f \<and>
    f \<notin> fss s' \<and> (\<forall>a. H (Inode f a) = 0)))"
  proof (cases "r1 = 0 \<and> vdev_fs (vdev_list s ! i) \<noteq> None")
    case False
    then show ?thesis using r fm c by (auto simp: vfs_unmount_def E_INVAL_def split: if_splits)
  next
    case True
    then obtain f where f: "vdev_fs (vdev_list s ! i) = Some f" and fm0: "find_mount name s = (0, i)" using fm by auto
    note u = unmount_vdev_counted [OF c find_mount_at(1) [OF fm0] f]
    from r f fm0 have "unmount_vdev io i f s = Some (ret, s')" by (simp add: vfs_unmount_def bind_cases)
    with u(1,2) f fm0 show ?thesis by blast
  qed
  then show "refs_counted b s' H" and "ret = 0 \<Longrightarrow> \<exists>i f. find_mount name s = (0, i) \<and> vdev_fs (vdev_list s ! i) = Some f \<and>
    f \<notin> fss s' \<and> (\<forall>a. H (Inode f a) = 0)" by blast+
qed

lemma unmount_loop_counted:
  assumes "refs_counted b s H" and "\<And>i. i \<in> set is \<Longrightarrow> i < length (vdev_list s)" and "unmount_loop io is s = Some s'"
  shows "refs_counted b s' H"
  using assms
proof (induction "is" arbitrary: s)
  case (Cons i "is")
  show ?case
  proof (cases "vdev_fs (vdev_list s ! i) = None \<or> \<not> mountable (vdev_list s ! i)")
    case True
    then have "unmount_loop io is s = Some s'" using Cons.prems(3) by (auto split: option.splits)
    with Cons show ?thesis by simp
  next
    case False
    then obtain f where f: "vdev_fs (vdev_list s ! i) = Some f" by auto
    with False Cons.prems(3) obtain ret s1 where u: "unmount_vdev io i f s = Some (ret, s1)" "unmount_loop io is s1 = Some s'"
      by (auto simp: bind_cases)
    have i: "i < length (vdev_list s)" using Cons.prems(2) by simp
    note k = unmount_vdev_counted [OF Cons.prems(1) i f u(1)]
    have "j < length (vdev_list s1)" if "j \<in> set is" for j using Cons.prems(2) [of j] k(3) that by simp
    from Cons.IH [OF k(1) this u(2)] show ?thesis .
  qed
qed simp

lemma unmount_all_counted:
  assumes "refs_counted b s H" and "vfs_unmount_all io s = Some (ret, s')"
  shows "refs_counted b s' H"
proof -
  from assms(2) have "unmount_loop io [0..<length (vdev_list s)] s = Some s'" by (auto simp: vfs_unmount_all_def bind_cases)
  from unmount_loop_counted [OF assms(1) _ this] show ?thesis by simp
qed

lemma with_fs_counted:
  assumes "refs_counted b s H" and "f \<in> fss s" and "with_fs f g s = Some (x, s')"
    and "\<And>m m'. g m = Some (x, m') \<Longrightarrow> data_step m m'"
  shows "refs_counted b s' H"
  using counted_kept [OF assms(1) with_fs_data [OF refs_countedD(1) [OF assms(1)] assms(2,3,4)]] .

lemma cleanup_loop_counted:
  assumes "refs_counted b s H" and "set ds \<subseteq> set (vdev_list s)" and "vfs_cleanup_loop io ds s = Some s'"
  shows "refs_counted b s' H"
  using assms
proof (induction ds arbitrary: s)
  case (Cons d ds)
  show ?case
  proof (cases "vdev_fs d")
    case None
    with Cons show ?thesis by simp
  next
    case (Some f)
    then have f: "f \<in> fss s" using Cons.prems(2) by (auto simp: fss_def)
    from Cons.prems(3) Some obtain x s1 where
      w: "with_fs f (\<lambda>m. map_option (Pair ()) (sfs_cleanup io m)) s = Some (x, s1)" "vfs_cleanup_loop io ds s1 = Some s'"
      by (auto simp: bind_cases)
    have "refs_counted b s1 H" by (rule with_fs_counted [OF Cons.prems(1) f w(1)]) (auto dest: cleanup_data)
    moreover have "vdev_list s1 = vdev_list s" using w(1) by (auto simp: with_fs_def bind_cases)
    ultimately show ?thesis using Cons.IH [of s1] Cons.prems(2) w(2) by simp
  qed
qed simp

lemma cleanup_counted:
  "refs_counted b s H \<Longrightarrow> vfs_cleanup io s = Some s' \<Longrightarrow> refs_counted b s' H"
  unfolding vfs_cleanup_def by (rule cleanup_loop_counted [OF _ order_refl])

section \<open>Runs\<close>

text \<open>
  The sequences of calls from an empty table of devices, with the references \<open>H\<close> the callers have
  been given and have not given back. A caller gives back, or works on, only what it holds.
\<close>

inductive vfs_run :: "'d dev_io \<Rightarrow> 'd vfs \<Rightarrow> 'd vfs \<Rightarrow> (vfs_node \<Rightarrow> int) \<Rightarrow> bool"
  for io s0
where
  init: "vfs_run io s0 (vfs_init s0) (\<lambda>_. 0)"
| add_dev: "vfs_run io s0 s H \<Longrightarrow> vfs_add_dev name node mnt s = Some (ret, s') \<Longrightarrow> vfs_run io s0 s' H"
| mount: "vfs_run io s0 s H \<Longrightarrow> vfs_mount io name s = Some (ret, s') \<Longrightarrow> vfs_run io s0 s' H"
| unmount: "vfs_run io s0 s H \<Longrightarrow> vfs_unmount io name s = Some (ret, s') \<Longrightarrow> vfs_run io s0 s' H"
| unmount_all: "vfs_run io s0 s H \<Longrightarrow> vfs_unmount_all io s = Some (ret, s') \<Longrightarrow> vfs_run io s0 s' H"
| cleanup: "vfs_run io s0 s H \<Longrightarrow> vfs_cleanup io s = Some s' \<Longrightarrow> vfs_run io s0 s' H"
| lookup: "vfs_run io s0 s H \<Longrightarrow> vfs_lookup io path s = Some (ret, x, path', s') \<Longrightarrow> vfs_run io s0 s' (given x H)"
| lookup_parent: "vfs_run io s0 s H \<Longrightarrow> vfs_lookup_parent io path s = Some (ret, x, sub, path', s') \<Longrightarrow>
    vfs_run io s0 s' (given x H)"
| get_curdir: "vfs_run io s0 s H \<Longrightarrow> vfs_get_curdir s = Some (ret, x, s') \<Longrightarrow> vfs_run io s0 s' (given x H)"
| ref_inc: "vfs_run io s0 s H \<Longrightarrow> 0 < H v \<Longrightarrow> vop_ref_inc v s = Some s' \<Longrightarrow> vfs_run io s0 s' (given (Some v) H)"
| ref_dec: "vfs_run io s0 s H \<Longrightarrow> 0 < H v \<Longrightarrow> vop_ref_dec io v s = Some s' \<Longrightarrow> vfs_run io s0 s' (dropped (Some v) H)"
| set_curdir: "vfs_run io s0 s H \<Longrightarrow> (\<And>v. dir = Some v \<Longrightarrow> 0 < H v) \<Longrightarrow> vfs_set_curdir io dir s = Some (ret, s') \<Longrightarrow>
    vfs_run io s0 s' H"
| chdir: "vfs_run io s0 s H \<Longrightarrow> vfs_chdir io path s = Some (ret, s') \<Longrightarrow> vfs_run io s0 s' H"
| set_bootfs: "vfs_run io s0 s H \<Longrightarrow> vfs_set_bootfs io fsname s = Some (ret, s') \<Longrightarrow> vfs_run io s0 s' H"
| getcwd: "vfs_run io s0 s H \<Longrightarrow> vfs_getcwd io iob mem s = Some (ret, iob', mem', s') \<Longrightarrow> vfs_run io s0 s' H"
| transfer: "vfs_run io s0 s H \<Longrightarrow> 0 < H (Inode f a) \<Longrightarrow>
    with_fs f (\<lambda>m. map_option (\<lambda>(ret, iob, mem, m). ((ret, iob, mem), m)) (sfs_io io a iob w mem m)) s = Some (x, s') \<Longrightarrow>
    vfs_run io s0 s' H"
| truncate: "vfs_run io s0 s H \<Longrightarrow> 0 < H (Inode f a) \<Longrightarrow> with_fs f (vop_truncate io a len) s = Some (x, s') \<Longrightarrow>
    vfs_run io s0 s' H"
| fsync: "vfs_run io s0 s H \<Longrightarrow> 0 < H (Inode f a) \<Longrightarrow> with_fs f (vop_fsync io a) s = Some (x, s') \<Longrightarrow> vfs_run io s0 s' H"

definition first_refs :: "'d vfs \<Rightarrow> vfs_node \<Rightarrow> int" where
  "first_refs s v = (case v of Device n \<Rightarrow> dv_ref (devices s n) | Inode f a \<Rightarrow> 0)"

lemma held_fs:
  assumes "refs_counted b s H" and "0 < H (Inode f a)"
  shows "f \<in> fss s"
  using refs_countedD(5) [OF assms(1), of "Inode f a"] assms(2) vrefs_posD [of s f a] by auto

lemma init_counted:
  assumes "distinct (kheap s)" and "cwd s = None" and "\<And>n. 0 \<le> dv_ref (devices s n)"
  shows "refs_counted (first_refs s) (vfs_init s) (\<lambda>_. 0)"
  using assms distinct_count_atmost_1 [of "kheap s"]
  by (auto simp: refs_counted_def vfs_inv_def vobjects_def fss_def vfs_init_def vrefs_def first_refs_def split: vfs_node.split)

lemma vfs_run_counted:
  assumes "distinct (kheap s0)" and "cwd s0 = None" and "\<And>n. 0 \<le> dv_ref (devices s0 n)" and "vfs_run io s0 s H"
  shows "refs_counted (first_refs s0) s H"
  using assms(4)
proof (induction rule: vfs_run.induct)
  case init
  show ?case by (rule init_counted [OF assms(1-3)])
next
  case (add_dev s H name node mnt ret s')
  from add_dev_counted [OF add_dev(3,2)] show ?case .
next
  case (mount s H name ret s')
  from mount_counted [OF mount(3,2)] show ?case .
next
  case (unmount s H name ret s')
  from unmount_counted(1) [OF unmount(3,2)] show ?case .
next
  case (unmount_all s H ret s')
  from unmount_all_counted [OF unmount_all(3,2)] show ?case .
next
  case (cleanup s H s')
  from cleanup_counted [OF cleanup(3,2)] show ?case .
next
  case (lookup s H path ret x path' s')
  from lookup_counted [OF lookup(3,2)] show ?case by (simp add: hands_out_def)
next
  case (lookup_parent s H path ret x sub path' s')
  then show ?case by (auto simp: vfs_lookup_parent_def bind_cases split: if_splits dest!: get_device_counted [rotated])
next
  case (get_curdir s H ret x s')
  from get_curdir_counted [OF get_curdir(3,2)] show ?case by (simp add: hands_out_def)
next
  case (ref_inc s H v s')
  from counted_ref_inc [OF ref_inc(4) _ ref_inc(3)] refs_countedD(5) [OF ref_inc(4), of v] ref_inc(2) show ?case by blast
next
  case (ref_dec s H v s')
  from counted_ref_dec [OF ref_dec(4,2,3)] show ?case .
next
  case (set_curdir s H dir ret s')
  from set_curdir_counted [OF set_curdir(4,2,3)] show ?case .
next
  case (chdir s H path ret s')
  from chdir_counted [OF chdir(3,2)] show ?case .
next
  case (set_bootfs s H fsname ret s')
  from set_bootfs_counted [OF set_bootfs(3,2)] show ?case .
next
  case (getcwd s H iob mem ret iob' mem' s')
  from getcwd_counted [OF getcwd(3,2)] show ?case .
next
  case (transfer s H f a iob w mem x s')
  show ?case
    by (rule with_fs_counted [OF transfer(4) held_fs [OF transfer(4,2)] transfer(3)]) (auto dest: io_data)
next
  case (truncate s H f a len x s')
  show ?case
    by (rule with_fs_counted [OF truncate(4) held_fs [OF truncate(4,2)] truncate(3)]) (auto dest: vop_truncate_data)
next
  case (fsync s H f a x s')
  show ?case
    by (rule with_fs_counted [OF fsync(4) held_fs [OF fsync(4,2)] fsync(3)]) (auto dest: vop_fsync_data)
qed

section \<open>Paths\<close>

text \<open>What a name without separators, and a rest without leading slashes, do in \<open>get_device\<close>.\<close>

definition plain :: "string \<Rightarrow> bool" where
  "plain name \<longleftrightarrow> CHR '':'' \<notin> set name \<and> CHR ''/'' \<notin> set name"

lemma path_marks_plain:
  assumes "plain name"
  shows "path_marks i name = (-1, -1)" "path_marks i (name @ CHR '':'' # r) = (-1, int (i + length name))"
    "path_marks i (name @ CHR ''/'' # r) = (int (i + length name), -1)"
  using assms unfolding plain_def by (induction name arbitrary: i) auto

lemma skip_slashes_replicate: "r = '''' \<or> hd r \<noteq> CHR ''/'' \<Longrightarrow> skip_slashes (replicate k CHR ''/'' @ r) = r"
  by (induction k) (cases r, auto simp: skip_slashes_def)

lemma get_device_name:
  assumes "plain name"
  shows "get_device io name s = do { (ret, node, s) \<leftarrow> vfs_get_curdir s; Some (ret, name, node, name, s) }"
  by (simp add: get_device_def path_marks_plain [OF assms])

lemma get_device_named:
  assumes "plain name" and "name \<noteq> ''''" and "r = '''' \<or> hd r \<noteq> CHR ''/''"
  shows "get_device io (name @ CHR '':'' # replicate k CHR ''/'' @ r) s =
    do { (ret, node, s) \<leftarrow> vfs_get_root io name s; Some (ret, r, node, name, s) }"
  using assms(2) by (simp add: get_device_def path_marks_plain [OF assms(1)] skip_slashes_replicate [OF assms(3)])

end
