(* ===== verification/Sfs_Blocks.thy ===== *)
theory Sfs_Blocks
  imports Sfs
begin

text \<open>
  What the file system asks of its device, as a locale, and the blocks of a volume and of a file
  over such a device: which blocks are free, which a file owns, and how allocating, finding and
  freeing the blocks of one file change them.
\<close>

section \<open>Numbers in memory\<close>

lemma length_enc [simp]: "length (enc n v) = n"
  by (induction n v rule: enc.induct) simp_all

lemma dec_enc: "v < 256 ^ n \<Longrightarrow> dec (enc n v) = v"
proof (induction n v rule: enc.induct)
  case (2 n v)
  have "v div 256 < 256 ^ n" using 2(2) by (simp add: div_less_iff_less_mult mult.commute)
  with 2(1) show ?case by simp
qed simp

lemma dec_zeros [simp]: "dec (zeros n) = 0"
  by (induction n) (simp_all add: zeros_def)

lemma length_zeros [simp]: "length (zeros n) = n"
  by (simp add: zeros_def)

lemma take_drop_zeros [simp]: "take k (zeros n) = zeros (min k n)" "drop k (zeros n) = zeros (n - k)"
  by (simp_all add: zeros_def)

lemmas sfs_consts = SFS_BLKSIZE_def SFS_NDIRECT_def SFS_BLK_NENTRY_def

section \<open>Replacing a part of a block\<close>

definition patch :: "nat \<Rightarrow> bytes \<Rightarrow> bytes \<Rightarrow> bytes" where
  "patch off buf b = take off b @ buf @ drop (off + length buf) b"

lemma length_patch [simp]: "off + length buf \<le> length b \<Longrightarrow> length (patch off buf b) = length b"
  by (simp add: patch_def)

lemma nth_patch:
  "off + length buf \<le> length b \<Longrightarrow> k < length b \<Longrightarrow>
    patch off buf b ! k = (if off \<le> k \<and> k < off + length buf then buf ! (k - off) else b ! k)"
  by (auto simp: patch_def nth_append not_less min_def)

lemma slice_patch:
  assumes "off + length buf \<le> length b" and "j + n \<le> off \<or> off + length buf \<le> j" and "j + n \<le> length b"
  shows "take n (drop j (patch off buf b)) = take n (drop j b)"
  using assms by (intro nth_equalityI) (auto simp: nth_patch)

lemma slice_patch_same: "off + length buf \<le> length b \<Longrightarrow> take (length buf) (drop off (patch off buf b)) = buf"
  by (simp add: patch_def)

section \<open>The interface of a block device\<close>

text \<open>
  Inside \<open>good\<close> states the device is an array of \<open>nblk\<close> blocks; it is small enough for 32-bit
  offsets.
\<close>

locale block_device =
  fixes io :: "'d dev_io" and good :: "'d \<Rightarrow> bool" and nblk :: "'d \<Rightarrow> nat" and blk :: "'d \<Rightarrow> nat \<Rightarrow> bytes"
  assumes read_law: "good d \<Longrightarrow> b < nblk d \<Longrightarrow> length buf = SFS_BLKSIZE \<Longrightarrow>
      io (b * SFS_BLKSIZE) buf False d = Some (0, blk d b, d)"
    and write_law: "good d \<Longrightarrow> b < nblk d \<Longrightarrow> length buf = SFS_BLKSIZE \<Longrightarrow>
      \<exists>d'. io (b * SFS_BLKSIZE) buf True d = Some (0, buf, d') \<and> good d' \<and> nblk d' = nblk d \<and>
        blk d' = (blk d)(b := buf)"
    and len_law: "good d \<Longrightarrow> b < nblk d \<Longrightarrow> length (blk d b) = SFS_BLKSIZE"
    and small: "good d \<Longrightarrow> nblk d \<le> 2 ^ 20"

section \<open>Volumes\<close>

abbreviation (input) fr :: "'d sfs_fs \<Rightarrow> nat set" where "fr s \<equiv> free_bits (freemap s)"

abbreviation (input) nb :: "'d sfs_fs \<Rightarrow> nat" where "nb s \<equiv> s_blocks (super s)"

text \<open>The bitmap and the count of free blocks are right, and the volume fits on the device.\<close>

definition vol_ok :: "('d \<Rightarrow> bool) \<Rightarrow> ('d \<Rightarrow> nat) \<Rightarrow> 'd sfs_fs \<Rightarrow> bool" where
  "vol_ok good nblk s \<longleftrightarrow> good (sfs_dev s) \<and> nb s \<le> nblk (sfs_dev s) \<and> bitmap_ok (freemap s) \<and>
     nb s \<le> bm_nbits (freemap s) \<and> fr s \<subseteq> {1..<nb s} \<and> s_unused_blocks (super s) = card (fr s)"

lemma vol_okD:
  assumes "vol_ok good nblk s"
  shows "good (sfs_dev s)" "nb s \<le> nblk (sfs_dev s)" "bitmap_ok (freemap s)" "nb s \<le> bm_nbits (freemap s)"
    "fr s \<subseteq> {1..<nb s}" "s_unused_blocks (super s) = card (fr s)" "finite (fr s)"
  using assms finite_subset by (auto simp: vol_ok_def)

lemma inuse_spec:
  assumes "vol_ok good nblk s" and "b \<noteq> 0" and "b < nb s"
  shows "sfs_block_inuse b s = Some (b \<notin> fr s)"
proof -
  have "b < bm_nbits (freemap s)" using vol_okD(4) [OF assms(1)] assms(3) by simp
  with assms show ?thesis by (simp add: sfs_block_inuse_def bitmap_test_spec)
qed

text \<open>The block \<open>b\<close> has got the contents \<open>buf\<close>; nothing else changes.\<close>

definition stored :: "('d \<Rightarrow> bool) \<Rightarrow> ('d \<Rightarrow> nat) \<Rightarrow> ('d \<Rightarrow> nat \<Rightarrow> bytes) \<Rightarrow> 'd sfs_fs \<Rightarrow> nat \<Rightarrow> bytes \<Rightarrow> 'd sfs_fs \<Rightarrow> bool"
where
  "stored good nblk blk s b buf s' \<longleftrightarrow> (\<exists>d'. s' = s\<lparr>sfs_dev := d'\<rparr> \<and> good d' \<and> nblk d' = nblk (sfs_dev s) \<and>
     blk d' = (blk (sfs_dev s))(b := buf))"

lemma storedD:
  assumes "stored good nblk blk s b buf s'"
  shows "blk (sfs_dev s') = (blk (sfs_dev s))(b := buf)" "freemap s' = freemap s" "super s' = super s"
    "vol_ok good nblk s' = vol_ok good nblk s \<or> \<not> good (sfs_dev s)"
  using assms by (auto simp: stored_def vol_ok_def)

lemma stored_vol: "stored good nblk blk s b buf s' \<Longrightarrow> vol_ok good nblk s \<Longrightarrow> vol_ok good nblk s'"
  by (auto simp: stored_def vol_ok_def)

context block_device
begin

lemma no_wrap: "good d \<Longrightarrow> b < nblk d \<Longrightarrow> b * SFS_BLKSIZE mod 2 ^ 32 = b * SFS_BLKSIZE"
  using small [of d] by (simp add: sfs_consts)

lemma read_block:
  assumes v: "vol_ok good nblk s" and b: "b < nb s" "b \<noteq> 0 \<or> \<not> check" and len: "length buf = SFS_BLKSIZE"
  shows "sfs_rwblock_nolock io buf b False check s = Some (0, blk (sfs_dev s) b, s)"
proof -
  have "b < nblk (sfs_dev s)" using vol_okD(2) [OF v] b by simp
  with read_law [OF vol_okD(1) [OF v] this len] no_wrap [OF vol_okD(1) [OF v] this] b show ?thesis
    by (simp add: sfs_rwblock_nolock_def)
qed

lemma write_block:
  assumes v: "vol_ok good nblk s" and b: "b < nb s" "b \<noteq> 0 \<or> \<not> check" and len: "length buf = SFS_BLKSIZE"
  obtains s' where "sfs_rwblock_nolock io buf b True check s = Some (0, buf, s')" and "stored good nblk blk s b buf s'"
proof -
  have b': "b < nblk (sfs_dev s)" using vol_okD(2) [OF v] b by simp
  from write_law [OF vol_okD(1) [OF v] b' len] obtain d' where
    d': "io (b * SFS_BLKSIZE) buf True (sfs_dev s) = Some (0, buf, d')" "good d'" "nblk d' = nblk (sfs_dev s)"
      "blk d' = (blk (sfs_dev s))(b := buf)" by blast
  with no_wrap [OF vol_okD(1) [OF v] b'] b show ?thesis
    by (intro that [of "s\<lparr>sfs_dev := d'\<rparr>"]) (auto simp: sfs_rwblock_nolock_def stored_def)
qed

lemma block_length: "vol_ok good nblk s \<Longrightarrow> b < nb s \<Longrightarrow> length (blk (sfs_dev s) b) = 4096"
  using len_law [of "sfs_dev s" b] vol_okD(1,2) [of good nblk s] by (simp add: sfs_consts)

lemma rbuf_spec:
  assumes "vol_ok good nblk s" and "b < nb s" "b \<noteq> 0" and "off < 4096" "off + length buf \<le> 4096"
  shows "sfs_rbuf io buf b off s = Some (0, take (length buf) (drop off (blk (sfs_dev s) b)), s)"
  using read_block [OF assms(1,2), of True "zeros SFS_BLKSIZE"] assms(3-5)
  by (simp add: sfs_rbuf_def sfs_consts Let_def)

lemma wbuf_spec:
  assumes v: "vol_ok good nblk s" and b: "b < nb s" "b \<noteq> 0" and off: "off < 4096" "off + length buf \<le> 4096"
  obtains s' where "sfs_wbuf io buf b off s = Some (0, buf, s')"
    and "stored good nblk blk s b (patch off buf (blk (sfs_dev s) b)) s'"
proof -
  let ?c = "patch off buf (blk (sfs_dev s) b)"
  have len: "length ?c = SFS_BLKSIZE" using block_length [OF v b(1)] off by (simp add: sfs_consts)
  from write_block [OF v b(1) _ len, of True] b obtain s' where
    s': "sfs_rwblock_nolock io ?c b True True s = Some (0, ?c, s')" "stored good nblk blk s b ?c s'" by auto
  have "sfs_wbuf io buf b off s = Some (0, buf, s')"
    using read_block [OF v b(1), of True "zeros SFS_BLKSIZE"] s'(1) b off
    by (simp add: sfs_wbuf_def patch_def sfs_consts Let_def)
  with s'(2) that show ?thesis by blast
qed

text \<open>One block with \<^verbatim>\<open>sfs_block_op\<close>.\<close>

lemma block_op_read:
  assumes "vol_ok good nblk s" and "b < nb s" "b \<noteq> 0" and "length buf = 4096"
  shows "sfs_block_op io False buf b 1 s = Some (0, blk (sfs_dev s) b, s)"
  using read_block [OF assms(1,2), of True buf] assms(3,4)
  by (simp add: sfs_block_op_def sfs_rblock_def sfs_consts)

lemma block_op_write:
  assumes v: "vol_ok good nblk s" and b: "b < nb s" "b \<noteq> 0" and len: "length buf = 4096"
  obtains s' where "sfs_block_op io True buf b 1 s = Some (0, buf, s')" and "stored good nblk blk s b buf s'"
proof -
  from write_block [OF v b(1), of True buf] b len obtain s' where
    "sfs_rwblock_nolock io buf b True True s = Some (0, buf, s')" "stored good nblk blk s b buf s'"
    by (auto simp: sfs_consts)
  with len that show ?thesis by (simp add: sfs_block_op_def sfs_wblock_def sfs_consts)
qed

section \<open>Allocating and freeing a block\<close>

lemma block_alloc_spec:
  assumes v: "vol_ok good nblk s"
  obtains (full) "fr s = {}" and "sfs_block_alloc io s = Some (- E_NO_MEM, 0, s)"
  | (block) ino s' where "sfs_block_alloc io s = Some (0, ino, s')" and "ino \<in> fr s" and "vol_ok good nblk s'"
      and "fr s' = fr s - {ino}" and "nb s' = nb s" and "blk (sfs_dev s') = (blk (sfs_dev s))(ino := zeros 4096)"
proof -
  note d = vol_okD [OF v]
  from bitmap_blocks.alloc_law [OF d(3)] consider
    (none) "fr s = {}" "bitmap_alloc (freemap s) = Some (- E_NO_MEM, None, freemap s)"
  | (some) i b where "bitmap_alloc (freemap s) = Some (0, Some i, b)" "i \<in> fr s" "bitmap_ok b"
      "free_bits b = fr s - {i}" "bm_nbits b = bm_nbits (freemap s)" by blast
  then show ?thesis
  proof cases
    case none
    then show ?thesis by (intro full) (simp_all add: sfs_block_alloc_def E_NO_MEM_def)
  next
    case (some i b)
    define s1 where "s1 = s\<lparr>freemap := b, super := (super s)\<lparr>s_unused_blocks := s_unused_blocks (super s) - 1\<rparr>, super_dirty := True\<rparr>"
    have i: "i \<noteq> 0" "i < nb s" using some(2) d(5) by auto
    have pos: "0 < s_unused_blocks (super s)" using d(6,7) some(2) by (auto simp: card_gt_0_iff)
    have v1: "vol_ok good nblk s1"
      using d some by (auto simp: vol_ok_def s1_def)
    have use: "sfs_block_inuse i s1 = Some True"
      using inuse_spec [OF v1, of i] i some(4) by (simp add: s1_def)
    have n1: "i < nb s1" using i by (simp add: s1_def)
    from write_block [OF v1 n1, of True "zeros SFS_BLKSIZE"] i obtain s' where
      s': "sfs_rwblock_nolock io (zeros SFS_BLKSIZE) i True True s1 = Some (0, zeros SFS_BLKSIZE, s')"
        "stored good nblk blk s1 i (zeros SFS_BLKSIZE) s'" by auto
    have "sfs_block_alloc io s = Some (0, i, s')"
      using some(1) pos use s'(1) by (simp add: sfs_block_alloc_def s1_def Let_def)
    then show ?thesis
      using some(2,4) stored_vol [OF s'(2) v1] storedD [OF s'(2)]
      by (intro block [of i s']) (simp_all add: s1_def sfs_consts)
  qed
qed

lemma block_free_spec:
  assumes v: "vol_ok good nblk s" and b: "b \<noteq> 0" "b < nb s" "b \<notin> fr s"
  obtains s' where "sfs_block_free b s = Some s'" and "vol_ok good nblk s'" and "fr s' = insert b (fr s)"
    and "nb s' = nb s" and "sfs_dev s' = sfs_dev s"
proof -
  note d = vol_okD [OF v]
  have "b < bm_nbits (freemap s)" using d(4) b(2) by simp
  from bitmap_blocks.release_law [OF d(3) this] b(3) obtain m where
    m: "bitmap_free (freemap s) b = Some m" "bitmap_ok m" "free_bits m = insert b (fr s)"
      "bm_nbits m = bm_nbits (freemap s)" by (auto split: option.splits)
  show ?thesis
    by (rule that [of "s\<lparr>freemap := m, super := (super s)\<lparr>s_unused_blocks := s_unused_blocks (super s) + 1\<rparr>,
          super_dirty := True\<rparr>"])
      (use inuse_spec [OF v b(1,2)] m d b in \<open>auto simp: sfs_block_free_def vol_ok_def\<close>)
qed

end

end
