(* ===== verification/Sfs_File.thy ===== *)
theory Sfs_File
  imports Sfs_Blocks
begin

text \<open>
  Files of the simple file system over any block device: the blocks of a file, what finding, adding
  and freeing its last block does, and the file as a sequence of bytes under reading, writing and
  resizing. The device of the kernel is in \<^verbatim>\<open>Disk0\<close>.
\<close>

section \<open>The blocks of a file\<close>

text \<open>The entry \<open>i\<close> of the block map; \<open>B\<close> are the contents of the device.\<close>

definition ptr :: "(nat \<Rightarrow> bytes) \<Rightarrow> sfs_disk_inode \<Rightarrow> nat \<Rightarrow> nat" where
  "ptr B d i = (if i < 12 then di_direct d ! i else if di_indirect d = 0 then 0
     else dec (take 4 (drop ((i - 12) * 4) (B (di_indirect d)))))"

definition owned :: "(nat \<Rightarrow> bytes) \<Rightarrow> sfs_disk_inode \<Rightarrow> nat set" where
  "owned B d = ptr B d ` {..<di_blocks d} \<union> ({di_indirect d} - {0})"

text \<open>
  The block map of a file on a volume of \<open>n\<close> blocks with free blocks \<open>F\<close>: the entries of the
  blocks of the file are different blocks in use, and the others are zero.
\<close>

definition file_ok :: "(nat \<Rightarrow> bytes) \<Rightarrow> nat set \<Rightarrow> nat \<Rightarrow> sfs_disk_inode \<Rightarrow> bool" where
  "file_ok B F n d \<longleftrightarrow> length (di_direct d) = 12 \<and> di_blocks d \<le> 1036 \<and>
     (\<forall>i < di_blocks d. ptr B d i \<notin> F \<union> {0, di_indirect d} \<and> ptr B d i < n) \<and>
     (\<forall>i < 1036. di_blocks d \<le> i \<longrightarrow> ptr B d i = 0) \<and> inj_on (ptr B d) {..<di_blocks d} \<and>
     (di_indirect d \<noteq> 0 \<longrightarrow> di_indirect d < n \<and> di_indirect d \<notin> F)"

lemma file_okD:
  assumes "file_ok B F n d"
  shows "length (di_direct d) = 12" "di_blocks d \<le> 1036"
    "i < di_blocks d \<Longrightarrow> ptr B d i \<notin> F" "i < di_blocks d \<Longrightarrow> ptr B d i \<noteq> 0"
    "i < di_blocks d \<Longrightarrow> ptr B d i \<noteq> di_indirect d" "i < di_blocks d \<Longrightarrow> ptr B d i < n"
    "i < 1036 \<Longrightarrow> di_blocks d \<le> i \<Longrightarrow> ptr B d i = 0" "inj_on (ptr B d) {..<di_blocks d}"
    "di_indirect d \<noteq> 0 \<Longrightarrow> di_indirect d < n" "di_indirect d \<noteq> 0 \<Longrightarrow> di_indirect d \<notin> F"
  using assms by (simp_all add: file_ok_def)

text \<open>From \<open>s\<close> and \<open>d\<close> to \<open>s'\<close> and \<open>d'\<close> nothing has changed outside the blocks that are free or the file's.\<close>

definition evolves ::
  "('d \<Rightarrow> nat \<Rightarrow> bytes) \<Rightarrow> 'd sfs_fs \<Rightarrow> sfs_disk_inode \<Rightarrow> 'd sfs_fs \<Rightarrow> sfs_disk_inode \<Rightarrow> bool"
where
  "evolves blk s d s' d' \<longleftrightarrow> nb s' = nb s \<and> di_type d' = di_type d \<and> di_nlinks d' = di_nlinks d \<and>
     owned (blk (sfs_dev s')) d' \<union> fr s' = owned (blk (sfs_dev s)) d \<union> fr s \<and>
     (\<forall>b. b \<notin> owned (blk (sfs_dev s)) d \<union> fr s \<longrightarrow> blk (sfs_dev s') b = blk (sfs_dev s) b)"

lemma evolves_refl [simp]: "evolves blk s d s d"
  by (simp add: evolves_def)

lemma evolves_trans: "evolves blk s d s1 d1 \<Longrightarrow> evolves blk s1 d1 s2 d2 \<Longrightarrow> evolves blk s d s2 d2"
  by (simp add: evolves_def)

text \<open>A new last block.\<close>

lemma file_ok_new:
  assumes ok: "file_ok B F n d" and ino: "ino \<in> F" "ino \<noteq> 0" "ino < n" and F': "F' \<subseteq> F - {ino}"
    and d': "length (di_direct d') = 12" "di_blocks d' = Suc (di_blocks d)" "di_blocks d < 1036"
    and p: "\<And>i. i < 1036 \<Longrightarrow> ptr B' d' i = (if i = di_blocks d then ino else ptr B d i)"
    and ind: "di_indirect d' = di_indirect d \<or> di_indirect d' \<in> F - F' - {ino} \<and> di_indirect d' < n"
  shows "file_ok B' F' n d'"
proof -
  note f = file_okD [OF ok]
  have pF: "ptr B' d' i \<notin> F' \<union> {0, di_indirect d'} \<and> ptr B' d' i < n" if "i < di_blocks d'" for i
  proof (cases "i = di_blocks d")
    case True
    have "ino \<noteq> di_indirect d'" using ind ino f(10) by (cases "di_indirect d' = di_indirect d") auto
    then show ?thesis using True p [of i] d' ino F' by auto
  next
    case False
    then have i: "i < di_blocks d" using that d'(2) by simp
    then have "ptr B d i \<noteq> di_indirect d'" using ind f(3,5) [OF i] by auto
    then show ?thesis using p [of i] False d'(3) f(3-6) [OF i] i F' by auto
  qed
  have z: "ptr B' d' i = 0" if "i < 1036" "di_blocks d' \<le> i" for i
    using that p [of i] d'(2) f(7) [of i] by simp
  have inj: "inj_on (ptr B' d') {..<di_blocks d'}"
  proof (rule inj_onI)
    fix i j assume i: "i \<in> {..<di_blocks d'}" "j \<in> {..<di_blocks d'}" "ptr B' d' i = ptr B' d' j"
    then have l: "i < 1036" "j < 1036" using d' by simp_all
    have "ptr B d k \<noteq> ino" if "k < di_blocks d" for k using f(3) [OF that] ino(1) by auto
    then show "i = j"
      using i p [OF l(1)] p [OF l(2)] d'(2) inj_onD [OF f(8), of i j] by (auto split: if_splits simp: less_Suc_eq)
  qed
  have "di_indirect d' \<noteq> 0 \<longrightarrow> di_indirect d' < n \<and> di_indirect d' \<notin> F'"
    using ind f(9,10) F' by auto
  with pF z inj d' show ?thesis by (auto simp: file_ok_def)
qed

lemma slice_zero: "take 4 (drop k (zeros 4096)) = zeros (min 4 (4096 - k))"
  by simp

context block_device
begin

abbreviation (input) B :: "'d sfs_fs \<Rightarrow> nat \<Rightarrow> bytes" where "B s \<equiv> blk (sfs_dev s)"

lemma bmap_out_spec:
  "vol_ok good nblk s \<Longrightarrow> ino \<noteq> 0 \<Longrightarrow> ino < nb s \<Longrightarrow> ino \<notin> fr s \<Longrightarrow> bmap_out ino sin s = Some (0, ino, sin, s)"
  using inuse_spec [of good nblk s ino] by (simp add: bmap_out_def)

lemma bmap_get_present:
  assumes v: "vol_ok good nblk s" and ok: "file_ok (B s) (fr s) (nb s) (din sin)" and i: "i < di_blocks (din sin)"
  shows "sfs_bmap_get_nolock io sin i create s = Some (0, ptr (B s) (din sin) i, sin, s)"
proof -
  note f = file_okD [OF ok]
  let ?p = "ptr (B s) (din sin) i"
  have out: "bmap_out ?p sin s = Some (0, ?p, sin, s)"
    using bmap_out_spec [OF v f(4) [OF i] f(6) [OF i] f(3) [OF i]] .
  show ?thesis
  proof (cases "i < 12")
    case True
    then have "?p = di_direct (din sin) ! i" by (simp add: ptr_def)
    with True out f(4) [OF i] show ?thesis by (simp add: sfs_bmap_get_nolock_def sfs_consts)
  next
    case False
    then have ind: "di_indirect (din sin) \<noteq> 0" "i - 12 < 1024" using f(2) f(4) [OF i] i by (auto simp: ptr_def split: if_splits)
    have "sfs_rbuf io (enc 4 0) (di_indirect (din sin)) ((i - 12) * 4) s =
        Some (0, take 4 (drop ((i - 12) * 4) (B s (di_indirect (din sin)))), s)"
      using rbuf_spec [OF v f(9) [OF ind(1)] ind(1), of "(i - 12) * 4" "enc 4 0"] ind(2) by simp
    moreover have "dec (take 4 (drop ((i - 12) * 4) (B s (di_indirect (din sin))))) = ?p"
      using False ind(1) by (simp add: ptr_def)
    ultimately have "sfs_bmap_get_sub_nolock io (di_indirect (din sin)) (i - 12) create s =
        Some (0, di_indirect (din sin), ?p, s)"
      using ind f(4) [OF i] by (simp add: sfs_bmap_get_sub_nolock_def sfs_consts Let_def)
    with False ind(2) out show ?thesis by (simp add: sfs_bmap_get_nolock_def sfs_consts)
  qed
qed

lemma bmap_load_present:
  assumes v: "vol_ok good nblk s" and ok: "file_ok (B s) (fr s) (nb s) (din sin)" and i: "i < di_blocks (din sin)"
  shows "sfs_bmap_load_nolock io sin i s = Some (0, ptr (B s) (din sin) i, sin, s)"
  using bmap_get_present [OF assms] inuse_spec [OF v] file_okD(3,4,6) [OF ok i] i
  by (simp add: sfs_bmap_load_nolock_def)

lemma sub_alloc_spec:
  assumes v: "vol_ok good nblk s" and ent: "ent \<noteq> 0" "ent < nb s" "ent \<notin> fr s" and j: "j < 1024"
  obtains (full) "fr s = {}" and "sub_alloc io entp ent (j * 4) s = sub_cleanup (- E_NO_MEM) entp ent s"
  | (block) ino s' where "sub_alloc io entp ent (j * 4) s = Some (0, ent, ino, s')" and "ino \<in> fr s"
      and "vol_ok good nblk s'" and "fr s' = fr s - {ino}" and "nb s' = nb s"
      and "B s' = (B s)(ino := zeros 4096, ent := patch (j * 4) (enc 4 ino) (B s ent))"
proof (rule block_alloc_spec [OF v])
  assume "fr s = {}" "sfs_block_alloc io s = Some (- E_NO_MEM, 0, s)"
  then show ?thesis by (intro full) (simp_all add: sub_alloc_def E_NO_MEM_def)
next
  fix ino s1
  assume a: "sfs_block_alloc io s = Some (0, ino, s1)" "ino \<in> fr s" "vol_ok good nblk s1" "fr s1 = fr s - {ino}"
    "nb s1 = nb s" "B s1 = (B s)(ino := zeros 4096)"
  have ne: "ent \<noteq> ino" using a(2) ent(3) by auto
  have "ent < nb s1" "j * 4 < 4096" "j * 4 + length (enc 4 ino) \<le> 4096" using ent(2) a(5) j by simp_all
  from wbuf_spec [OF a(3) this(1) ent(1) this(2,3)] obtain s' where
    s': "sfs_wbuf io (enc 4 ino) ent (j * 4) s1 = Some (0, enc 4 ino, s')"
      "stored good nblk blk s1 ent (patch (j * 4) (enc 4 ino) (B s1 ent)) s'" by blast
  have "sub_alloc io entp ent (j * 4) s = Some (0, ent, ino, s')"
    using a(1) s'(1) by (simp add: sub_alloc_def)
  then show ?thesis
    using a stored_vol [OF s'(2) a(3)] storedD [OF s'(2)] ne by (intro block [of ino s']) simp_all
qed

end

text \<open>What a new last block costs in blocks of the volume.\<close>

definition cost :: "sfs_disk_inode \<Rightarrow> nat \<Rightarrow> nat" where
  "cost d i = (if 12 \<le> i \<and> di_indirect d = 0 then 2 else 1)"

lemma new_block_done:
  assumes v: "vol_ok good nblk s" and ok: "file_ok (blk (sfs_dev s)) (fr s) (nb s) d" and i: "i = di_blocks d" "i < 1036"
    and ino: "ino \<in> fr s" and n: "nb s' = nb s"
    and d': "length (di_direct d') = 12" "di_blocks d' = Suc i" "di_type d' = di_type d" "di_nlinks d' = di_nlinks d"
    and p: "\<And>k. k < 1036 \<Longrightarrow> ptr (blk (sfs_dev s')) d' k = (if k = i then ino else ptr (blk (sfs_dev s)) d k)"
    and ind: "di_indirect d' = di_indirect d \<and> fr s' = fr s - {ino} \<and> cost d i = 1 \<or>
      di_indirect d = 0 \<and> di_indirect d' \<in> fr s - {ino} \<and> fr s' = fr s - {ino, di_indirect d'} \<and> cost d i = 2"
    and same: "\<And>b. b \<notin> fr s \<Longrightarrow> b \<noteq> di_indirect d \<or> di_indirect d = 0 \<Longrightarrow> blk (sfs_dev s') b = blk (sfs_dev s) b"
  shows "file_ok (blk (sfs_dev s')) (fr s') (nb s') d'" and "evolves blk s d s' d'"
    and "j < i \<Longrightarrow> blk (sfs_dev s') (ptr (blk (sfs_dev s)) d j) = blk (sfs_dev s) (ptr (blk (sfs_dev s)) d j)"
    and "card (fr s') + cost d i = card (fr s)"
proof -
  note f = file_okD [OF ok] and w = vol_okD [OF v]
  have inz: "ino \<noteq> 0" "ino < nb s" using ino w(5) by auto
  have F': "fr s' \<subseteq> fr s - {ino}" using ind by auto
  have dlt: "di_blocks d < 1036" using i by simp
  have ind': "di_indirect d' = di_indirect d \<or> di_indirect d' \<in> fr s - fr s' - {ino} \<and> di_indirect d' < nb s"
    using ind w(5) by auto
  show "file_ok (blk (sfs_dev s')) (fr s') (nb s') d'"
    unfolding n by (rule file_ok_new [OF ok ino inz F' d'(1) _ dlt _ ind']) (use d'(2) i p in simp_all)
  have own: "owned (blk (sfs_dev s')) d' = insert ino (ptr (blk (sfs_dev s)) d ` {..<i}) \<union> ({di_indirect d'} - {0})"
  proof -
    have "ptr (blk (sfs_dev s')) d' ` {..<Suc i} = insert ino (ptr (blk (sfs_dev s)) d ` {..<i})"
      using p [of i] i(2) image_cong [OF refl, of "{..<i}" "ptr (blk (sfs_dev s')) d'" "ptr (blk (sfs_dev s)) d"] p
      by (simp add: lessThan_Suc)
    then show ?thesis by (simp add: owned_def d'(2))
  qed
  have zero: "0 \<notin> fr s" using w(5) by auto
  have "owned (blk (sfs_dev s')) d' \<union> fr s' = owned (blk (sfs_dev s)) d \<union> fr s"
    unfolding own unfolding owned_def i(1) [symmetric] using ind ino zero by auto
  moreover have "blk (sfs_dev s') b = blk (sfs_dev s) b" if "b \<notin> owned (blk (sfs_dev s)) d \<union> fr s" for b
    using same [of b] that by (cases "di_indirect d = 0") (auto simp: owned_def)
  ultimately show "evolves blk s d s' d'" using n d' by (simp add: evolves_def)
  show "blk (sfs_dev s') (ptr (blk (sfs_dev s)) d j) = blk (sfs_dev s) (ptr (blk (sfs_dev s)) d j)" if "j < i"
    using same f(3,5) [of j] that i(1) by simp
  show "card (fr s') + cost d i = card (fr s)"
    using ind
  proof (elim disjE conjE)
    assume "fr s' = fr s - {ino}" "cost d i = 1"
    then show ?thesis using card_Suc_Diff1 [OF w(7) ino] by simp
  next
    assume a: "di_indirect d' \<in> fr s - {ino}" "fr s' = fr s - {ino, di_indirect d'}" "cost d i = 2"
    have "fr s' = fr s - {ino} - {di_indirect d'}" using a(2) by auto
    then show ?thesis
      using card_Suc_Diff1 [OF w(7) ino] card_Suc_Diff1 [of "fr s - {ino}" "di_indirect d'"] a(1,3) w(7) by simp
  qed
qed

lemma entry_slice:
  assumes "length b = 4096" and "j < 1024" and "k < 1024" and "v < 256 ^ 4"
  shows "dec (take 4 (drop (k * 4) (patch (j * 4) (enc 4 v) b))) = (if k = j then v else dec (take 4 (drop (k * 4) b)))"
proof (cases "k = j")
  case True
  then show ?thesis using slice_patch_same [of "j * 4" "enc 4 v" b] dec_enc [OF assms(4)] assms(1,2) by simp
next
  case False
  then have "k * 4 + 4 \<le> j * 4 \<or> j * 4 + 4 \<le> k * 4" by (cases "k < j") auto
  then have "take 4 (drop (k * 4) (patch (j * 4) (enc 4 v) b)) = take 4 (drop (k * 4) b)"
    using slice_patch [of "j * 4" "enc 4 v" b "k * 4" 4] assms(1-3) by simp
  with False show ?thesis by simp
qed

context block_device
begin

lemma vol_small: "vol_ok good nblk s \<Longrightarrow> b < nb s \<Longrightarrow> b < 256 ^ 4"
  using vol_okD(1,2) [of good nblk s] small [of "sfs_dev s"] by simp

lemma bmap_load_direct:
  assumes v: "vol_ok good nblk s" and ok: "file_ok (B s) (fr s) (nb s) (din sin)" and i: "i = di_blocks (din sin)" "i < 12"
  obtains (full) "sfs_bmap_load_nolock io sin i s = Some (- E_NO_MEM, 0, sin, s)" and "fr s = {}"
  | (block) ino s' d' where "d' = din sin\<lparr>di_direct := (di_direct (din sin))[i := ino], di_blocks := Suc i\<rparr>"
      and "sfs_bmap_load_nolock io sin i s = Some (0, ino, sin\<lparr>din := d', sin_dirty := True\<rparr>, s')"
      and "ino \<in> fr s" and "vol_ok good nblk s'" and "fr s' = fr s - {ino}" and "nb s' = nb s"
      and "B s' = (B s)(ino := zeros 4096)"
proof (rule block_alloc_spec [OF v])
  note f = file_okD [OF ok]
  have z: "di_direct (din sin) ! i = 0" using f(7) [of i] i by (simp add: ptr_def)
  {
    assume "fr s = {}" "sfs_block_alloc io s = Some (- E_NO_MEM, 0, s)"
    then show ?thesis
      using z i by (intro full) (simp_all add: sfs_bmap_load_nolock_def sfs_bmap_get_nolock_def sfs_consts E_NO_MEM_def)
  next
    fix ino s'
    assume a: "sfs_block_alloc io s = Some (0, ino, s')" "ino \<in> fr s" "vol_ok good nblk s'" "fr s' = fr s - {ino}"
      "nb s' = nb s" "B s' = (B s)(ino := zeros 4096)"
    let ?d = "din sin\<lparr>di_direct := (di_direct (din sin))[i := ino], di_blocks := Suc i\<rparr>"
    have ino: "ino \<noteq> 0" "ino < nb s'" "ino \<notin> fr s'" using a(2,4,5) vol_okD(5) [OF v] by auto
    then have "sfs_bmap_load_nolock io sin i s = Some (0, ino, sin\<lparr>din := ?d, sin_dirty := True\<rparr>, s')"
      using z i a(1) bmap_out_spec [OF a(3) ino] inuse_spec [OF a(3) ino(1,2)]
      by (simp add: sfs_bmap_load_nolock_def sfs_bmap_get_nolock_def sfs_consts upd_din_def)
    then show ?thesis using a(2-6) by (intro block [of ?d ino s']) simp_all
  }
qed

lemma bmap_load_indirect:
  assumes v: "vol_ok good nblk s" and ok: "file_ok (B s) (fr s) (nb s) (din sin)"
    and i: "i = di_blocks (din sin)" "12 \<le> i" "i < 1036" and ind: "di_indirect (din sin) \<noteq> 0"
  obtains (full) "sfs_bmap_load_nolock io sin i s = Some (- E_NO_MEM, 0, sin, s)" and "fr s = {}"
  | (block) ino s' where
      "sfs_bmap_load_nolock io sin i s = Some (0, ino, sin\<lparr>din := din sin\<lparr>di_blocks := Suc i\<rparr>\<rparr>, s')"
      and "ino \<in> fr s" and "vol_ok good nblk s'" and "fr s' = fr s - {ino}" and "nb s' = nb s"
      and "B s' = (B s)(ino := zeros 4096, di_indirect (din sin) :=
        patch ((i - 12) * 4) (enc 4 ino) (B s (di_indirect (din sin))))"
proof -
  note f = file_okD [OF ok]
  let ?e = "di_indirect (din sin)"
  have j: "i - 12 < 1024" using i by simp
  have "dec (take 4 (drop ((i - 12) * 4) (B s ?e))) = 0" using f(7) [of i] i ind by (simp add: ptr_def)
  moreover have "sfs_rbuf io (enc 4 0) ?e ((i - 12) * 4) s = Some (0, take 4 (drop ((i - 12) * 4) (B s ?e)), s)"
    using rbuf_spec [OF v f(9) [OF ind] ind, of "(i - 12) * 4" "enc 4 0"] j by simp
  ultimately have sub: "sfs_bmap_get_sub_nolock io ?e (i - 12) True s = sub_alloc io ?e ?e ((i - 12) * 4) s"
    using j ind by (simp add: sfs_bmap_get_sub_nolock_def sfs_consts Let_def)
  show ?thesis
  proof (rule sub_alloc_spec [OF v ind f(9) [OF ind] f(10) [OF ind] j, of ?e])
    assume "fr s = {}" "sub_alloc io ?e ?e ((i - 12) * 4) s = sub_cleanup (- E_NO_MEM) ?e ?e s"
    then show ?thesis
      using sub i j by (intro full)
        (simp_all add: sfs_bmap_load_nolock_def sfs_bmap_get_nolock_def sub_cleanup_def sfs_consts E_NO_MEM_def)
  next
    fix ino s'
    assume a: "sub_alloc io ?e ?e ((i - 12) * 4) s = Some (0, ?e, ino, s')" "ino \<in> fr s" "vol_ok good nblk s'"
      "fr s' = fr s - {ino}" "nb s' = nb s"
      "B s' = (B s)(ino := zeros 4096, ?e := patch ((i - 12) * 4) (enc 4 ino) (B s ?e))"
    have ino: "ino \<noteq> 0" "ino < nb s'" "ino \<notin> fr s'" using a(2,4,5) vol_okD(5) [OF v] by auto
    then have "sfs_bmap_load_nolock io sin i s = Some (0, ino, sin\<lparr>din := din sin\<lparr>di_blocks := Suc i\<rparr>\<rparr>, s')"
      using sub i j a(1) bmap_out_spec [OF a(3) ino] inuse_spec [OF a(3) ino(1,2)]
      by (simp add: sfs_bmap_load_nolock_def sfs_bmap_get_nolock_def sfs_consts upd_din_def)
    then show ?thesis using a(2-6) by (intro block [of ino s']) simp_all
  qed
qed

end

context block_device
begin

lemma bmap_load_indirect0:
  assumes v: "vol_ok good nblk s" and ok: "file_ok (B s) (fr s) (nb s) (din sin)"
    and i: "i = di_blocks (din sin)" "12 \<le> i" "i < 1036" and ind: "di_indirect (din sin) = 0"
  obtains (full) s' where "sfs_bmap_load_nolock io sin i s = Some (- E_NO_MEM, 0, sin, s')" and "card (fr s) < 2"
      and "vol_ok good nblk s'" and "fr s' = fr s" and "nb s' = nb s" and "\<And>b. b \<notin> fr s \<Longrightarrow> B s' b = B s b"
  | (block) ent ino s' where
      "sfs_bmap_load_nolock io sin i s =
         Some (0, ino, sin\<lparr>din := din sin\<lparr>di_indirect := ent, di_blocks := Suc i\<rparr>, sin_dirty := True\<rparr>, s')"
      and "ent \<in> fr s - {ino}" and "ino \<in> fr s" and "vol_ok good nblk s'" and "fr s' = fr s - {ino, ent}"
      and "nb s' = nb s" and "B s' = (B s)(ino := zeros 4096, ent := patch ((i - 12) * 4) (enc 4 ino) (zeros 4096))"
proof (rule block_alloc_spec [OF v])
  have j: "i - 12 < 1024" using i by simp
  {
    assume "fr s = {}" "sfs_block_alloc io s = Some (- E_NO_MEM, 0, s)"
    then show ?thesis
      using i j ind v by (intro full [of s])
        (simp_all add: sfs_bmap_load_nolock_def sfs_bmap_get_nolock_def sfs_bmap_get_sub_nolock_def sfs_consts E_NO_MEM_def)
  next
    fix ent s1
    assume a: "sfs_block_alloc io s = Some (0, ent, s1)" "ent \<in> fr s" "vol_ok good nblk s1" "fr s1 = fr s - {ent}"
      "nb s1 = nb s" "B s1 = (B s)(ent := zeros 4096)"
    have ent: "ent \<noteq> 0" "ent < nb s1" "ent \<notin> fr s1" using a(2,4,5) vol_okD(5) [OF v] by auto
    have sub: "sfs_bmap_get_sub_nolock io (di_indirect (din sin)) (i - 12) True s = sub_alloc io 0 ent ((i - 12) * 4) s1"
      using j ind a(1) by (simp add: sfs_bmap_get_sub_nolock_def sfs_consts Let_def)
    show ?thesis
    proof (rule sub_alloc_spec [OF a(3) ent j, of 0])
      assume b: "fr s1 = {}" "sub_alloc io 0 ent ((i - 12) * 4) s1 = sub_cleanup (- E_NO_MEM) 0 ent s1"
      from block_free_spec [OF a(3) ent] obtain s2 where
        s2: "sfs_block_free ent s1 = Some s2" "vol_ok good nblk s2" "fr s2 = insert ent (fr s1)" "nb s2 = nb s1"
          "sfs_dev s2 = sfs_dev s1" by blast
      have "fr s = {ent}" using b(1) a(2,4) by blast
      then have "card (fr s) = 1" by simp
      then show ?thesis
        using sub b s2 i j a ent(1) by (intro full [of s2])
          (auto simp: sfs_bmap_load_nolock_def sfs_bmap_get_nolock_def sub_cleanup_def sfs_consts E_NO_MEM_def)
    next
      fix ino s'
      assume b: "sub_alloc io 0 ent ((i - 12) * 4) s1 = Some (0, ent, ino, s')" "ino \<in> fr s1" "vol_ok good nblk s'"
        "fr s' = fr s1 - {ino}" "nb s' = nb s1"
        "B s' = (B s1)(ino := zeros 4096, ent := patch ((i - 12) * 4) (enc 4 ino) (B s1 ent))"
      have ino: "ino \<noteq> 0" "ino < nb s'" "ino \<notin> fr s'" using b(2,4,5) vol_okD(5) [OF a(3)] by auto
      have "sfs_bmap_load_nolock io sin i s =
          Some (0, ino, sin\<lparr>din := din sin\<lparr>di_indirect := ent, di_blocks := Suc i\<rparr>, sin_dirty := True\<rparr>, s')"
        using sub i j b(1) ind ent(1) bmap_out_spec [OF b(3) ino] inuse_spec [OF b(3) ino(1,2)] ino(3)
        by (simp add: sfs_bmap_load_nolock_def sfs_bmap_get_nolock_def sfs_consts upd_din_def)
      moreover have "B s' = (B s)(ino := zeros 4096, ent := patch ((i - 12) * 4) (enc 4 ino) (zeros 4096))"
        using b(2,4,6) a(6) by (auto simp: fun_eq_iff)
      ultimately show ?thesis
        using a b(2-5) by (intro block [of ino ent s']) auto
    qed
  }
qed

lemma bmap_load_new:
  assumes v: "vol_ok good nblk s" and ok: "file_ok (B s) (fr s) (nb s) (din sin)"
    and i: "i = di_blocks (din sin)" "i < 1036"
  obtains (full) s' where "sfs_bmap_load_nolock io sin i s = Some (- E_NO_MEM, 0, sin, s')"
      and "card (fr s) < cost (din sin) i"
      and "vol_ok good nblk s'" and "fr s' = fr s" and "nb s' = nb s" and "\<And>b. b \<notin> fr s \<Longrightarrow> B s' b = B s b"
  | (block) ino d r s' where "sfs_bmap_load_nolock io sin i s = Some (0, ino, sin\<lparr>din := d, sin_dirty := r\<rparr>, s')"
      and "vol_ok good nblk s'" and "file_ok (B s') (fr s') (nb s') d" and "evolves blk s (din sin) s' d"
      and "di_blocks d = Suc i" and "di_size d = di_size (din sin)" and "B s' ino = zeros 4096"
      and "\<And>j. j < 1036 \<Longrightarrow> ptr (B s') d j = (if j = i then ino else ptr (B s) (din sin) j)"
      and "\<And>j. j < i \<Longrightarrow> B s' (ptr (B s) (din sin) j) = B s (ptr (B s) (din sin) j)"
      and "card (fr s') + cost (din sin) i = card (fr s)"
      and "di_indirect d = 0 \<longleftrightarrow> di_indirect (din sin) = 0 \<and> i < 12"
proof -
  note f = file_okD [OF ok] and w = vol_okD [OF v]
  have len: "length (B s b) = 4096" if "b < nb s" for b by (rule block_length [OF v that])
  consider (direct) "i < 12" | (ind) "12 \<le> i" "di_indirect (din sin) \<noteq> 0" | (ind0) "12 \<le> i" "di_indirect (din sin) = 0"
    by linarith
  then show ?thesis
  proof cases
    case direct
    show ?thesis
    proof (rule bmap_load_direct [OF v ok i(1) direct])
      assume "sfs_bmap_load_nolock io sin i s = Some (- E_NO_MEM, 0, sin, s)" "fr s = {}"
      then show ?thesis using v by (intro full [of s]) (simp_all add: cost_def)
    next
      fix ino s' d'
      assume a: "d' = din sin\<lparr>di_direct := (di_direct (din sin))[i := ino], di_blocks := Suc i\<rparr>"
        "sfs_bmap_load_nolock io sin i s = Some (0, ino, sin\<lparr>din := d', sin_dirty := True\<rparr>, s')"
        "ino \<in> fr s" "vol_ok good nblk s'" "fr s' = fr s - {ino}" "nb s' = nb s" "B s' = (B s)(ino := zeros 4096)"
      have p: "ptr (B s') d' k = (if k = i then ino else ptr (B s) (din sin) k)" for k
        using f(1,10) a(3) direct by (auto simp: ptr_def a(1,7))
      have "cost (din sin) i = 1" using direct by (simp add: cost_def)
      then have ind': "di_indirect d' = di_indirect (din sin) \<and> fr s' = fr s - {ino} \<and> cost (din sin) i = 1 \<or>
          di_indirect (din sin) = 0 \<and> di_indirect d' \<in> fr s - {ino} \<and> fr s' = fr s - {ino, di_indirect d'} \<and>
          cost (din sin) i = 2" using a(1,5) by simp
      have h: "length (di_direct d') = 12" "di_blocks d' = Suc i" "di_type d' = di_type (din sin)"
        "di_nlinks d' = di_nlinks (din sin)" using f(1) by (simp_all add: a(1))
      have same: "B s' b = B s b" if "b \<notin> fr s" for b using a(3,7) that by auto
      note D = new_block_done [where blk = blk and s' = s' and d' = d', OF v ok i a(3,6) h p ind' same]
      show ?thesis
        using a(1) D(3) by (intro block [of ino True d' s'] a(2,4) D(1,2,4) h(2) p) (simp_all add: a(7) direct)
    qed
  next
    case ind
    let ?e = "di_indirect (din sin)"
    show ?thesis
    proof (rule bmap_load_indirect [OF v ok i(1) ind(1) i(2) ind(2)])
      assume "sfs_bmap_load_nolock io sin i s = Some (- E_NO_MEM, 0, sin, s)" "fr s = {}"
      then show ?thesis using v by (intro full [of s]) (simp_all add: cost_def)
    next
      fix ino s'
      assume a: "sfs_bmap_load_nolock io sin i s = Some (0, ino, sin\<lparr>din := din sin\<lparr>di_blocks := Suc i\<rparr>\<rparr>, s')"
        "ino \<in> fr s" "vol_ok good nblk s'" "fr s' = fr s - {ino}" "nb s' = nb s"
        "B s' = (B s)(ino := zeros 4096, ?e := patch ((i - 12) * 4) (enc 4 ino) (B s ?e))"
      let ?d = "din sin\<lparr>di_blocks := Suc i\<rparr>"
      have e: "?e < nb s" "?e \<notin> fr s" "ino \<noteq> ?e" using f(9,10) [OF ind(2)] a(2) by auto
      have "ino < nb s" using a(2) w(5) by auto
      note slice = entry_slice [OF len [OF e(1)], of "i - 12" _ ino]
      have p: "ptr (B s') ?d k = (if k = i then ino else ptr (B s) (din sin) k)" if "k < 1036" for k
      proof (cases "k < 12")
        case True
        then show ?thesis using ind(1) by (auto simp: ptr_def)
      next
        case False
        then have "k - 12 = i - 12 \<longleftrightarrow> k = i" using ind(1) by auto
        then show ?thesis
          using False slice [of "k - 12"] that i(2) ind vol_small [OF v \<open>ino < nb s\<close>] by (simp add: ptr_def a(6))
      qed
      have "cost (din sin) i = 1" using ind by (simp add: cost_def)
      then have ind': "di_indirect ?d = di_indirect (din sin) \<and> fr s' = fr s - {ino} \<and> cost (din sin) i = 1 \<or>
          di_indirect (din sin) = 0 \<and> di_indirect ?d \<in> fr s - {ino} \<and> fr s' = fr s - {ino, di_indirect ?d} \<and>
          cost (din sin) i = 2" using a(4) by simp
      have h: "length (di_direct ?d) = 12" "di_blocks ?d = Suc i" "di_type ?d = di_type (din sin)"
        "di_nlinks ?d = di_nlinks (din sin)" using f(1) by simp_all
      have same: "B s' b = B s b" if "b \<notin> fr s" "b \<noteq> ?e \<or> ?e = 0" for b using a(2,6) that ind(2) by auto
      note D = new_block_done [where blk = blk and s' = s' and d' = ?d, OF v ok i a(2,5) h p ind' same]
      have run: "sfs_bmap_load_nolock io sin i s = Some (0, ino, sin\<lparr>din := ?d, sin_dirty := sin_dirty sin\<rparr>, s')"
        using a(1) by simp
      show ?thesis
        using D(3) by (intro block [of ino "sin_dirty sin" ?d s'] run a(3) D(1,2,4) h(2) p) (simp_all add: a(6) e(3) ind)
    qed
  next
    case ind0
    show ?thesis
    proof (rule bmap_load_indirect0 [OF v ok i(1) ind0(1) i(2) ind0(2)])
      fix s'
      assume "sfs_bmap_load_nolock io sin i s = Some (- E_NO_MEM, 0, sin, s')" "card (fr s) < 2"
        "vol_ok good nblk s'" "fr s' = fr s" "nb s' = nb s" "\<And>b. b \<notin> fr s \<Longrightarrow> B s' b = B s b"
      then show ?thesis using ind0 by (intro full [of s']) (simp_all add: cost_def)
    next
      fix ent ino s'
      let ?d = "din sin\<lparr>di_indirect := ent, di_blocks := Suc i\<rparr>"
      assume a: "sfs_bmap_load_nolock io sin i s = Some (0, ino, sin\<lparr>din := ?d, sin_dirty := True\<rparr>, s')"
        "ent \<in> fr s - {ino}" "ino \<in> fr s" "vol_ok good nblk s'" "fr s' = fr s - {ino, ent}" "nb s' = nb s"
        "B s' = (B s)(ino := zeros 4096, ent := patch ((i - 12) * 4) (enc 4 ino) (zeros 4096))"
      have "ino < nb s" "ent \<noteq> 0" using a(2,3) w(5) by auto
      note slice = entry_slice [of "zeros 4096" "i - 12" _ ino]
      have p: "ptr (B s') ?d k = (if k = i then ino else ptr (B s) (din sin) k)" if "k < 1036" for k
      proof (cases "k < 12")
        case True
        then show ?thesis using ind0(1) by (auto simp: ptr_def)
      next
        case False
        then have "k - 12 = i - 12 \<longleftrightarrow> k = i" using ind0(1) by auto
        then show ?thesis
          using False slice [of "k - 12"] that i(2) ind0 vol_small [OF v \<open>ino < nb s\<close>] \<open>ent \<noteq> 0\<close>
          by (simp add: ptr_def a(7))
      qed
      have "cost (din sin) i = 2" using ind0 by (simp add: cost_def)
      then have ind': "di_indirect ?d = di_indirect (din sin) \<and> fr s' = fr s - {ino} \<and> cost (din sin) i = 1 \<or>
          di_indirect (din sin) = 0 \<and> di_indirect ?d \<in> fr s - {ino} \<and> fr s' = fr s - {ino, di_indirect ?d} \<and>
          cost (din sin) i = 2" using a(2,5) ind0 by simp
      have h: "length (di_direct ?d) = 12" "di_blocks ?d = Suc i" "di_type ?d = di_type (din sin)"
        "di_nlinks ?d = di_nlinks (din sin)" using f(1) by simp_all
      have same: "B s' b = B s b" if "b \<notin> fr s" for b using a(2,3,7) that by auto
      note D = new_block_done [where blk = blk and s' = s' and d' = ?d, OF v ok i a(3,6) h p ind' same]
      show ?thesis
        using D(3) \<open>ent \<noteq> 0\<close> a(2) by (intro block [of ino True ?d s'] a(1,4) D(1,2,4) h(2) p) (use ind0(1) in \<open>auto simp: a(7) ind0(2)\<close>)
    qed
  qed
qed

end

section \<open>The bytes of a file\<close>

definition fbyte :: "(nat \<Rightarrow> bytes) \<Rightarrow> sfs_disk_inode \<Rightarrow> nat \<Rightarrow> char" where
  "fbyte B d k = B (ptr B d (k div 4096)) ! (k mod 4096)"

definition file_inv ::
  "('d \<Rightarrow> bool) \<Rightarrow> ('d \<Rightarrow> nat) \<Rightarrow> ('d \<Rightarrow> nat \<Rightarrow> bytes) \<Rightarrow> 'd sfs_fs \<Rightarrow> sfs_disk_inode \<Rightarrow> bool"
where
  "file_inv good nblk blk s d \<longleftrightarrow> vol_ok good nblk s \<and> file_ok (blk (sfs_dev s)) (fr s) (nb s) d"

text \<open>
  From \<open>s\<close> and \<open>d\<close> the bytes \<open>buf\<close> have been written at position \<open>p\<close>: as many blocks as that
  takes have been added, and a byte of them that was not written is zero.
\<close>

definition wrote ::
  "('d \<Rightarrow> bool) \<Rightarrow> ('d \<Rightarrow> nat) \<Rightarrow> ('d \<Rightarrow> nat \<Rightarrow> bytes) \<Rightarrow>
    'd sfs_fs \<Rightarrow> sfs_disk_inode \<Rightarrow> 'd sfs_fs \<Rightarrow> sfs_disk_inode \<Rightarrow> nat \<Rightarrow> bytes \<Rightarrow> bool"
where
  "wrote good nblk blk s d s' d' p buf \<longleftrightarrow> file_inv good nblk blk s' d' \<and> evolves blk s d s' d' \<and>
     di_size d' = di_size d \<and> di_blocks d' = max (di_blocks d) ((p + length buf + 4095) div 4096) \<and>
     (\<forall>k < di_blocks d' * 4096. fbyte (blk (sfs_dev s')) d' k =
       (if p \<le> k \<and> k < p + length buf then buf ! (k - p)
        else if k < di_blocks d * 4096 then fbyte (blk (sfs_dev s)) d k else NUL))"

lemma wrote_Nil:
  "file_inv good nblk blk s d \<Longrightarrow> p \<le> di_blocks d * 4096 \<Longrightarrow> wrote good nblk blk s d s d p []"
  by (auto simp: wrote_def max_def div_le_mono)

lemma wrote_append:
  assumes a: "wrote good nblk blk s d s1 d1 p b1" and b: "wrote good nblk blk s1 d1 s2 d2 (p + length b1) b2"
  shows "wrote good nblk blk s d s2 d2 p (b1 @ b2)"
proof -
  have blocks: "di_blocks d1 = max (di_blocks d) ((p + length b1 + 4095) div 4096)"
    "di_blocks d2 = max (di_blocks d1) ((p + length b1 + length b2 + 4095) div 4096)"
    using a b by (simp_all add: wrote_def add.assoc)
  have mono: "(p + length b1 + 4095) div 4096 \<le> (p + length b1 + length b2 + 4095) div 4096"
    by (rule div_le_mono) simp
  have b2: "di_blocks d2 = max (di_blocks d) ((p + length (b1 @ b2) + 4095) div 4096)"
    unfolding blocks using mono by (simp add: max_def add.assoc)
  have in1: "k < p + length b1 \<Longrightarrow> k < di_blocks d1 * 4096" for k
  proof -
    assume "k < p + length b1"
    then have "k < (p + length b1 + 4095) div 4096 * 4096" by linarith
    also have "\<dots> \<le> di_blocks d1 * 4096" by (simp add: blocks(1))
    finally show ?thesis .
  qed
  have byte: "fbyte (blk (sfs_dev s2)) d2 k = (if p \<le> k \<and> k < p + length (b1 @ b2) then (b1 @ b2) ! (k - p)
      else if k < di_blocks d * 4096 then fbyte (blk (sfs_dev s)) d k else NUL)" if k: "k < di_blocks d2 * 4096" for k
  proof -
    have two: "fbyte (blk (sfs_dev s2)) d2 k = (if p + length b1 \<le> k \<and> k < p + length b1 + length b2
        then b2 ! (k - (p + length b1)) else if k < di_blocks d1 * 4096 then fbyte (blk (sfs_dev s1)) d1 k else NUL)"
      using b k by (simp add: wrote_def)
    have one: "fbyte (blk (sfs_dev s1)) d1 k = (if p \<le> k \<and> k < p + length b1 then b1 ! (k - p)
        else if k < di_blocks d * 4096 then fbyte (blk (sfs_dev s)) d k else NUL)" if "k < di_blocks d1 * 4096"
      using a that by (simp add: wrote_def)
    have le: "k < di_blocks d * 4096 \<Longrightarrow> k < di_blocks d1 * 4096" using blocks(1) by simp
    show ?thesis
      unfolding two using one in1 [of k] le by (auto simp: nth_append)
  qed
  show ?thesis
    using a b b2 byte evolves_trans [of blk s d s1 d1 s2 d2] by (simp add: wrote_def)
qed

text \<open>Free blocks for a file of \<open>e\<close> blocks.\<close>

definition room :: "'d sfs_fs \<Rightarrow> sfs_disk_inode \<Rightarrow> nat \<Rightarrow> bool" where
  "room s d e \<longleftrightarrow> e - di_blocks d + (if di_blocks d < e \<and> 12 < e \<and> di_indirect d = 0 then 1 else 0) \<le> card (fr s)"

text \<open>Changing the contents of one block of the file.\<close>

lemma ptr_cong:
  "(di_indirect d \<noteq> 0 \<Longrightarrow> B' (di_indirect d) = B (di_indirect d)) \<Longrightarrow> ptr B' d i = ptr B d i"
  by (simp add: ptr_def)

lemma ptr_blocks [simp]: "ptr B (d\<lparr>di_blocks := n\<rparr>) = ptr B d" "ptr B (d\<lparr>di_size := n\<rparr>) = ptr B d"
  by (rule ext, simp add: ptr_def)+

lemma file_ok_cong:
  assumes "\<And>i. ptr B' d i = ptr B d i"
  shows "file_ok B' F n d = file_ok B F n d" "owned B' d = owned B d"
proof -
  have "ptr B' d = ptr B d" using assms by blast
  then show "file_ok B' F n d = file_ok B F n d" "owned B' d = owned B d" by (simp_all add: file_ok_def owned_def)
qed

lemma stored_file:
  assumes inv: "file_inv good nblk blk s d" and i: "i < di_blocks d"
    and st: "stored good nblk blk s (ptr (blk (sfs_dev s)) d i) c s'"
  shows "file_inv good nblk blk s' d" and "evolves blk s d s' d" and "fr s' = fr s"
    and "k < di_blocks d * 4096 \<Longrightarrow>
      fbyte (blk (sfs_dev s')) d k = (if k div 4096 = i then c ! (k mod 4096) else fbyte (blk (sfs_dev s)) d k)"
proof -
  let ?B = "blk (sfs_dev s)" and ?B' = "blk (sfs_dev s')"
  have v: "vol_ok good nblk s" and ok: "file_ok ?B (fr s) (nb s) d" using inv by (simp_all add: file_inv_def)
  note f = file_okD [OF ok] and t = storedD [OF st]
  have p: "ptr ?B' d j = ptr ?B d j" for j by (rule ptr_cong) (use t(1) f(5) [OF i] in auto)
  show "fr s' = fr s" using t(2) by simp
  show "file_inv good nblk blk s' d"
    using stored_vol [OF st v] ok file_ok_cong [OF p] t(2,3) by (simp add: file_inv_def)
  have "ptr ?B d i \<in> owned ?B d" using i by (simp add: owned_def)
  then show "evolves blk s d s' d"
    using t file_ok_cong [OF p] by (auto simp: evolves_def)
  show "fbyte ?B' d k = (if k div 4096 = i then c ! (k mod 4096) else fbyte ?B d k)" if k: "k < di_blocks d * 4096"
  proof -
    have "k div 4096 < di_blocks d" using k by (simp add: div_less_iff_less_mult)
    then have "ptr ?B d (k div 4096) = ptr ?B d i \<longleftrightarrow> k div 4096 = i"
      using inj_onD [OF f(8), of "k div 4096" i] i by auto
    then show ?thesis unfolding fbyte_def p unfolding t(1) by auto
  qed
qed

lemma position:
  fixes k :: nat
  assumes "p = i * 4096 + off" and "off + l \<le> 4096"
  shows "(p \<le> k \<and> k < p + l) = (k div 4096 = i \<and> off \<le> k mod 4096 \<and> k mod 4096 < off + l)"
proof -
  define q r where "q = k div 4096" and "r = k mod 4096"
  have k: "k = q * 4096 + r" "r < 4096" by (simp_all add: q_def r_def)
  consider "q < i" | "q = i" | "i < q" by linarith
  then have "(p \<le> k \<and> k < p + l) = (q = i \<and> off \<le> r \<and> r < off + l)"
  proof cases
    case 1
    then have "q * 4096 + 4096 \<le> i * 4096" by simp
    then show ?thesis using 1 k assms by auto
  next
    case 3
    then have "i * 4096 + 4096 \<le> q * 4096" by simp
    then show ?thesis using 3 k assms by auto
  qed (use k assms in auto)
  then show ?thesis by (simp add: q_def r_def)
qed

lemma blocks_upto: "0 < l \<Longrightarrow> off + l \<le> 4096 \<Longrightarrow> (i * 4096 + off + l + 4095) div 4096 = Suc i" for i :: nat
proof -
  assume "0 < l" "off + l \<le> 4096"
  then have "i * 4096 + off + l + 4095 = Suc i * 4096 + (off + l - 1)" "off + l - 1 < 4096" by simp_all
  then show ?thesis by simp
qed

context block_device
begin

abbreviation (input) finv :: "'d sfs_fs \<Rightarrow> sfs_disk_inode \<Rightarrow> bool" where "finv \<equiv> file_inv good nblk blk"

abbreviation (input) wr where "wr \<equiv> wrote good nblk blk"

lemma finvD: "finv s d \<Longrightarrow> vol_ok good nblk s" "finv s d \<Longrightarrow> file_ok (B s) (fr s) (nb s) d"
  by (simp_all add: file_inv_def)

lemma finv_ptr:
  assumes "finv s d" and "i < di_blocks d"
  shows "ptr (B s) d i < nb s" "ptr (B s) d i \<noteq> 0" "length (B s (ptr (B s) d i)) = 4096"
  using file_okD(4,6) [OF finvD(2) [OF assms(1)] assms(2)] block_length [OF finvD(1) [OF assms(1)]] by simp_all

lemma new_block_bytes:
  assumes inv: "finv s d" and i: "i = di_blocks d" "i < 1036" and d': "di_blocks d' = Suc i"
    and zero: "B s' ino = zeros 4096"
    and p: "\<And>j. j < 1036 \<Longrightarrow> ptr (B s') d' j = (if j = i then ino else ptr (B s) d j)"
    and same: "\<And>j. j < i \<Longrightarrow> B s' (ptr (B s) d j) = B s (ptr (B s) d j)" and k: "k < di_blocks d' * 4096"
  shows "fbyte (B s') d' k = (if k < di_blocks d * 4096 then fbyte (B s) d k else NUL)"
proof (cases "k div 4096 = i")
  case True
  then have "\<not> k < di_blocks d * 4096" using i(1) by (simp add: div_less_iff_less_mult [symmetric])
  then show ?thesis using True p [of i] i(2) zero by (simp add: fbyte_def zeros_def)
next
  case False
  then have l: "k div 4096 < i" using k d' by (simp add: div_less_iff_less_mult [symmetric])
  then have "k < di_blocks d * 4096" using i(1) by (simp add: div_less_iff_less_mult [symmetric])
  then show ?thesis using False p [of "k div 4096"] l i(2) same [OF l] by (simp add: fbyte_def)
qed

text \<open>Growing by one block, as \<^verbatim>\<open>sfs_bmap_load_nolock\<close> does it.\<close>

lemma load_grow:
  assumes inv: "finv s (din sin)" and i: "i = di_blocks (din sin)" "i < 1036"
  obtains (full) s' where "sfs_bmap_load_nolock io sin i s = Some (- E_NO_MEM, 0, sin, s')"
      and "wr s (din sin) s' (din sin) (i * 4096) []" and "\<And>e. i < e \<Longrightarrow> \<not> room s (din sin) e"
  | (block) d r s' where
      "sfs_bmap_load_nolock io sin i s = Some (0, ptr (B s') d i, sin\<lparr>din := d, sin_dirty := r\<rparr>, s')"
      and "finv s' d" and "evolves blk s (din sin) s' d" and "di_blocks d = Suc i" and "di_size d = di_size (din sin)"
      and "\<And>k. k < Suc i * 4096 \<Longrightarrow> fbyte (B s') d k = (if k < i * 4096 then fbyte (B s) (din sin) k else NUL)"
      and "\<And>e. i < e \<Longrightarrow> room s (din sin) e \<Longrightarrow> room s' d e"
proof (rule bmap_load_new [OF finvD [OF inv] i])
  let ?d = "din sin"
  note f = file_okD [OF finvD(2) [OF inv]]
  fix s'
  assume a: "sfs_bmap_load_nolock io sin i s = Some (- E_NO_MEM, 0, sin, s')" "card (fr s) < cost ?d i"
    "vol_ok good nblk s'" "fr s' = fr s" "nb s' = nb s" "\<And>b. b \<notin> fr s \<Longrightarrow> B s' b = B s b"
  have p: "ptr (B s') ?d j = ptr (B s) ?d j" for j by (rule ptr_cong) (use a(6) f(10) in auto)
  have inv': "finv s' ?d" using a(3-5) finvD(2) [OF inv] file_ok_cong(1) [OF p] by (simp add: file_inv_def)
  have byte: "fbyte (B s') ?d k = fbyte (B s) ?d k" if "k < di_blocks ?d * 4096" for k
  proof -
    have "k div 4096 < di_blocks ?d" using that by (simp add: div_less_iff_less_mult)
    then show ?thesis unfolding fbyte_def p using a(6) [OF f(3)] by simp
  qed
  have "evolves blk s ?d s' ?d" using a(4-6) file_ok_cong(2) [OF p] by (simp add: evolves_def)
  then have "wr s ?d s' ?d (i * 4096) []" using inv' byte i(1) by (simp add: wrote_def max_def)
  moreover have "\<not> room s ?d e" if "i < e" for e
    using a(2) that i by (auto simp: room_def cost_def split: if_splits)
  ultimately show ?thesis using a(1) full by blast
next
  let ?d = "din sin"
  fix ino d r s'
  assume a: "sfs_bmap_load_nolock io sin i s = Some (0, ino, sin\<lparr>din := d, sin_dirty := r\<rparr>, s')"
    "vol_ok good nblk s'" "file_ok (B s') (fr s') (nb s') d" "evolves blk s ?d s' d" "di_blocks d = Suc i"
    "di_size d = di_size ?d" "B s' ino = zeros 4096"
    "\<And>j. j < 1036 \<Longrightarrow> ptr (B s') d j = (if j = i then ino else ptr (B s) ?d j)"
    "\<And>j. j < i \<Longrightarrow> B s' (ptr (B s) ?d j) = B s (ptr (B s) ?d j)"
    "card (fr s') + cost ?d i = card (fr s)" "(di_indirect d = 0) = (di_indirect ?d = 0 \<and> i < 12)"
  have "room s' d e" if "i < e" "room s ?d e" for e
    using that a(5,10,11) i(1) by (auto simp: room_def cost_def split: if_splits)
  moreover have "fbyte (B s') d k = (if k < i * 4096 then fbyte (B s) ?d k else NUL)" if "k < Suc i * 4096" for k
    using new_block_bytes [OF inv i a(5,7-9)] that a(5) i(1) by simp
  moreover have "ptr (B s') d i = ino" using a(8) i(2) by simp
  ultimately show ?thesis using a(1-6) by (intro block [of s' d r]) (simp_all add: file_inv_def)
qed

text \<open>One part of a write.\<close>

definition puts :: "(bytes \<Rightarrow> nat \<Rightarrow> 'd sfs_fs \<Rightarrow> (int \<times> bytes \<times> 'd sfs_fs) option) \<Rightarrow> nat \<Rightarrow> bytes \<Rightarrow> bool" where
  "puts op off buf \<longleftrightarrow> (\<forall>s b. vol_ok good nblk s \<longrightarrow> b < nb s \<longrightarrow> b \<noteq> 0 \<longrightarrow>
     (\<exists>s'. op buf b s = Some (0, buf, s') \<and> stored good nblk blk s b (patch off buf (B s b)) s'))"

lemma puts_buf: "off + length buf \<le> 4096 \<Longrightarrow> buf \<noteq> [] \<Longrightarrow> puts (\<lambda>b ino. sfs_buf_op io True b ino off) off buf"
  unfolding puts_def
proof (intro allI impI)
  fix s b assume l: "off + length buf \<le> 4096" "buf \<noteq> []" and v: "vol_ok good nblk s" and b: "b < nb s" "b \<noteq> 0"
  have "off < 4096" using l by (cases buf) auto
  from wbuf_spec [OF v b this l(1)] obtain s' where
    "sfs_wbuf io buf b off s = Some (0, buf, s')" "stored good nblk blk s b (patch off buf (B s b)) s'" .
  then show "\<exists>s'. sfs_buf_op io True buf b off s = Some (0, buf, s') \<and>
      stored good nblk blk s b (patch off buf (B s b)) s'" by (auto simp: sfs_buf_op_def)
qed

lemma puts_block: "length buf = 4096 \<Longrightarrow> puts (\<lambda>b ino. sfs_block_op io True b ino 1) 0 buf"
  unfolding puts_def
proof (intro allI impI)
  fix s b assume l: "length buf = 4096" and v: "vol_ok good nblk s" and b: "b < nb s" "b \<noteq> 0"
  from block_op_write [OF v b l] obtain s' where
    s': "sfs_block_op io True buf b 1 s = Some (0, buf, s')" "stored good nblk blk s b buf s'" .
  have "patch 0 buf (B s b) = buf" using l block_length [OF v b(1)] by (simp add: patch_def)
  with s' show "\<exists>s'. sfs_block_op io True buf b 1 s = Some (0, buf, s') \<and>
      stored good nblk blk s b (patch 0 buf (B s b)) s'" by auto
qed

lemma write_in_block:
  assumes inv: "finv s d" and i: "i < di_blocks d" and op: "puts op off buf" and len: "off + length buf \<le> 4096" "buf \<noteq> []"
  obtains s' where "op buf (ptr (B s) d i) s = Some (0, buf, s')" and "wr s d s' d (i * 4096 + off) buf" and "fr s' = fr s"
proof -
  let ?b = "ptr (B s) d i"
  note p = finv_ptr [OF inv i]
  from op finvD(1) [OF inv] p obtain s' where
    s': "op buf ?b s = Some (0, buf, s')" "stored good nblk blk s ?b (patch off buf (B s ?b)) s'"
    by (auto simp: puts_def)
  note st = stored_file [OF inv i s'(2)]
  have "fbyte (B s') d k = (if i * 4096 + off \<le> k \<and> k < i * 4096 + off + length buf then buf ! (k - (i * 4096 + off))
      else fbyte (B s) d k)" if k: "k < di_blocks d * 4096" for k
  proof (cases "k div 4096 = i")
    case True
    then have "fbyte (B s) d k = B s ?b ! (k mod 4096)" by (simp add: fbyte_def)
    moreover have "k - (i * 4096 + off) = k mod 4096 - off" using True div_mult_mod_eq [of k 4096] by simp
    ultimately show ?thesis
      using st(4) [OF k] True nth_patch [of off buf "B s ?b" "k mod 4096"] p(3) len(1)
      unfolding position [OF refl len(1)] by simp
  next
    case False
    then show ?thesis using st(4) [OF k] unfolding position [OF refl len(1)] by simp
  qed
  moreover have "di_blocks d = max (di_blocks d) ((i * 4096 + off + length buf + 4095) div 4096)"
    using blocks_upto [of "length buf" off i] len i by simp
  ultimately have "wr s d s' d (i * 4096 + off) buf" using st(1,2) by (simp add: wrote_def)
  with s'(1) st(3) that show ?thesis by blast
qed

lemma io_part_write:
  assumes inv: "finv s (din sin)" and i: "i \<le> di_blocks (din sin)" "i < 1036" and op: "puts op off buf"
    and len: "off + length buf \<le> 4096" "buf \<noteq> []"
  obtains (full) s' where "io_part io op sin buf i s = Some (- E_NO_MEM, [], sin, s')" and "i = di_blocks (din sin)"
      and "wr s (din sin) s' (din sin) (i * 4096) []" and "\<And>e. i < e \<Longrightarrow> \<not> room s (din sin) e"
  | (written) d r s' where "io_part io op sin buf i s = Some (0, buf, sin\<lparr>din := d, sin_dirty := r\<rparr>, s')"
      and "wr s (din sin) s' d (i * 4096 + off) buf" and "\<And>e. i < e \<Longrightarrow> room s (din sin) e \<Longrightarrow> room s' d e"
proof (cases "i < di_blocks (din sin)")
  case True
  from write_in_block [OF inv True op len] obtain s' where
    s': "op buf (ptr (B s) (din sin) i) s = Some (0, buf, s')" "wr s (din sin) s' (din sin) (i * 4096 + off) buf"
      "fr s' = fr s" .
  have "io_part io op sin buf i s = Some (0, buf, sin\<lparr>din := din sin, sin_dirty := sin_dirty sin\<rparr>, s')"
    using bmap_load_present [OF finvD [OF inv] True] s'(1) by (simp add: io_part_def)
  then show ?thesis
    using s'(2,3) by (intro written [of "sin_dirty sin" "din sin" s']) (simp_all add: room_def)
next
  case False
  then have i': "i = di_blocks (din sin)" using i(1) by simp
  show ?thesis
  proof (rule load_grow [OF inv i' i(2)])
    fix s'
    assume a: "sfs_bmap_load_nolock io sin i s = Some (- E_NO_MEM, 0, sin, s')"
      "wr s (din sin) s' (din sin) (i * 4096) []" "\<And>e. i < e \<Longrightarrow> \<not> room s (din sin) e"
    then show ?thesis using i' by (intro full [of s']) (simp_all add: io_part_def E_NO_MEM_def)
  next
    fix d r s1
    assume a: "sfs_bmap_load_nolock io sin i s = Some (0, ptr (B s1) d i, sin\<lparr>din := d, sin_dirty := r\<rparr>, s1)"
      "finv s1 d" "evolves blk s (din sin) s1 d" "di_blocks d = Suc i" "di_size d = di_size (din sin)"
      "\<And>k. k < Suc i * 4096 \<Longrightarrow> fbyte (B s1) d k = (if k < i * 4096 then fbyte (B s) (din sin) k else NUL)"
      "\<And>e. i < e \<Longrightarrow> room s (din sin) e \<Longrightarrow> room s1 d e"
    have "i < di_blocks d" using a(4) by simp
    from write_in_block [OF a(2) this op len] obtain s' where
      s': "op buf (ptr (B s1) d i) s1 = Some (0, buf, s')" "wr s1 d s' d (i * 4096 + off) buf" "fr s' = fr s1" .
    have "wr s (din sin) s' d (i * 4096 + off) buf"
      using s'(2) evolves_trans [OF a(3)] a(4-6) i' blocks_upto [of "length buf" off i] len by (simp add: wrote_def)
    moreover have "io_part io op sin buf i s = Some (0, buf, sin\<lparr>din := d, sin_dirty := r\<rparr>, s')"
      using a(1) s'(1) by (simp add: io_part_def)
    ultimately show ?thesis using a(7) s'(3) by (intro written [of r d s']) (simp_all add: room_def)
  qed
qed

end

section \<open>Transfers part by part\<close>

type_synonym 'd transfer = "(int \<times> bytes \<times> sfs_inode \<times> 'd sfs_fs) option"

text \<open>One part after the other, the second only when the first succeeds.\<close>

definition andthen :: "'d transfer \<Rightarrow> (sfs_inode \<Rightarrow> 'd sfs_fs \<Rightarrow> 'd transfer) \<Rightarrow> 'd transfer" where
  "andthen r K = do {
     (ret, b1, sin, s) \<leftarrow> r;
     if ret \<noteq> 0 then Some (ret, b1, sin, s)
     else do { (ret, b2, sin, s) \<leftarrow> K sin s; Some (ret, b1 @ b2, sin, s) } }"

lemma io_blocks_andthen:
  "io_blocks io w (Suc n) i sin buf s =
     andthen (io_part io (\<lambda>b ino. sfs_block_op io w b ino 1) sin (take SFS_BLKSIZE buf) i s)
       (\<lambda>sin s. io_blocks io w n (i + 1) sin (drop SFS_BLKSIZE buf) s)"
  by (simp only: andthen_def io_blocks.simps)

definition io_rest :: "'d dev_io \<Rightarrow> bool \<Rightarrow> nat \<Rightarrow> nat \<Rightarrow> nat \<Rightarrow> sfs_inode \<Rightarrow> bytes \<Rightarrow> 'd sfs_fs \<Rightarrow> 'd transfer" where
  "io_rest io w n i t sin buf s =
     (if t = 0 then io_blocks io w n i sin buf s
      else andthen (io_blocks io w n i sin buf s) (\<lambda>sin s.
        io_part io (\<lambda>b ino. sfs_buf_op io w b ino 0) sin (take t (drop (n * SFS_BLKSIZE) buf)) (i + n) s))"

lemma option_bind_cong: "m = m' \<Longrightarrow> (\<And>x. m' = Some x \<Longrightarrow> f x = g x) \<Longrightarrow> m \<bind> f = m' \<bind> g"
  by (cases m') auto

lemma io_transfer_parts:
  assumes "i = off div SFS_BLKSIZE" and "n = fin div SFS_BLKSIZE - i" and "o1 = off mod SFS_BLKSIZE"
    and "t = fin mod SFS_BLKSIZE"
  shows "io_transfer io w sin buf off fin s =
    (if o1 = 0 then io_rest io w n i t sin buf s
     else if n = 0 then io_part io (\<lambda>b ino. sfs_buf_op io w b ino o1) sin (take (fin - off) buf) i s
     else andthen (io_part io (\<lambda>b ino. sfs_buf_op io w b ino o1) sin (take (SFS_BLKSIZE - o1) buf) i s)
       (\<lambda>sin s. io_rest io w (n - 1) (i + 1) t sin (drop (SFS_BLKSIZE - o1) buf) s))"
  unfolding io_transfer_def io_rest_def andthen_def assms(1) [symmetric] assms(2) [symmetric] assms(3) [symmetric]
    assms(4) [symmetric] Let_def
  by (cases "o1 = 0"; cases "n = 0"; cases "t = 0")
    (auto intro!: option_bind_cong simp: Option.bind_assoc split: prod.splits)

lemma room_mono: "room s d e \<Longrightarrow> e' \<le> e \<Longrightarrow> room s d e'"
  by (auto simp: room_def split: if_splits)

text \<open>
  The result of writing the first \<open>n\<close> bytes of \<open>buf\<close> at position \<open>p\<close>: all of them, and then what
  room there was for more blocks is still there; or so many that the file ends with the last byte of
  a block and the volume had no room for one more.
\<close>

definition wres ::
  "('d \<Rightarrow> bool) \<Rightarrow> ('d \<Rightarrow> nat) \<Rightarrow> ('d \<Rightarrow> nat \<Rightarrow> bytes) \<Rightarrow>
    sfs_inode \<Rightarrow> 'd sfs_fs \<Rightarrow> nat \<Rightarrow> bytes \<Rightarrow> nat \<Rightarrow> 'd transfer \<Rightarrow> bool"
where
  "wres good nblk blk sin s p buf n r \<longleftrightarrow> (\<exists>m d x s'. m \<le> n \<and>
     r = Some (if m = n then 0 else - E_NO_MEM, take m buf, sin\<lparr>din := d, sin_dirty := x\<rparr>, s') \<and>
     wrote good nblk blk s (din sin) s' d p (take m buf) \<and>
     (if m = n then \<forall>e. p + n \<le> e * 4096 \<longrightarrow> room s (din sin) e \<longrightarrow> room s' d e
      else p + m = di_blocks d * 4096 \<and> \<not> room s (din sin) (Suc (di_blocks d))))"

lemma wres_done:
  assumes "wrote good nblk blk s (din sin) s' d p (take n buf)"
    and "\<And>e. p + n \<le> e * 4096 \<Longrightarrow> room s (din sin) e \<Longrightarrow> room s' d e"
  shows "wres good nblk blk sin s p buf n (Some (0, take n buf, sin\<lparr>din := d, sin_dirty := x\<rparr>, s'))"
  unfolding wres_def using assms by - (rule exI [of _ n], rule exI [of _ d], rule exI [of _ x], rule exI [of _ s'], simp)

lemma wres_full:
  assumes "wrote good nblk blk s (din sin) s' (din sin) p []" and "p = di_blocks (din sin) * 4096"
    and "\<not> room s (din sin) (Suc (di_blocks (din sin)))" and "0 < n"
  shows "wres good nblk blk sin s p buf n (Some (- E_NO_MEM, [], sin, s'))"
  unfolding wres_def using assms
  by - (rule exI [of _ 0], rule exI [of _ "din sin"], rule exI [of _ "sin_dirty sin"], rule exI [of _ s'], simp)

lemma wres_andthen:
  assumes len: "n1 + n2 \<le> length buf"
    and r: "wres good nblk blk sin s p buf n1 r"
    and K: "\<And>d x s1. wrote good nblk blk s (din sin) s1 d p (take n1 buf) \<Longrightarrow>
      wres good nblk blk (sin\<lparr>din := d, sin_dirty := x\<rparr>) s1 (p + n1) (drop n1 buf) n2
        (K (sin\<lparr>din := d, sin_dirty := x\<rparr>) s1)"
  shows "wres good nblk blk sin s p buf (n1 + n2) (andthen r K)"
proof -
  from r obtain m d x s1 where m: "m \<le> n1"
    "r = Some (if m = n1 then 0 else - E_NO_MEM, take m buf, sin\<lparr>din := d, sin_dirty := x\<rparr>, s1)"
    "wrote good nblk blk s (din sin) s1 d p (take m buf)"
    "if m = n1 then \<forall>e. p + n1 \<le> e * 4096 \<longrightarrow> room s (din sin) e \<longrightarrow> room s1 d e
     else p + m = di_blocks d * 4096 \<and> \<not> room s (din sin) (Suc (di_blocks d))"
    unfolding wres_def by blast
  show ?thesis
  proof (cases "m = n1")
    case False
    then have "andthen r K = Some (- E_NO_MEM, take m buf, sin\<lparr>din := d, sin_dirty := x\<rparr>, s1)"
      using m(2) by (simp add: andthen_def E_NO_MEM_def)
    then show ?thesis
      unfolding wres_def using False m
      by - (rule exI [of _ m], rule exI [of _ d], rule exI [of _ x], rule exI [of _ s1], simp)
  next
    case True
    have "wres good nblk blk (sin\<lparr>din := d, sin_dirty := x\<rparr>) s1 (p + n1) (drop n1 buf) n2
        (K (sin\<lparr>din := d, sin_dirty := x\<rparr>) s1)" by (rule K [OF m(3) [unfolded True]])
    then have "\<exists>m2 d2 x2 s2. m2 \<le> n2 \<and>
      K (sin\<lparr>din := d, sin_dirty := x\<rparr>) s1 = Some (if m2 = n2 then 0 else - E_NO_MEM, take m2 (drop n1 buf),
         sin\<lparr>din := d2, sin_dirty := x2\<rparr>, s2) \<and>
      wrote good nblk blk s1 d s2 d2 (p + n1) (take m2 (drop n1 buf)) \<and>
      (if m2 = n2 then \<forall>e. p + n1 + n2 \<le> e * 4096 \<longrightarrow> room s1 d e \<longrightarrow> room s2 d2 e
       else p + n1 + m2 = di_blocks d2 * 4096 \<and> \<not> room s1 d (Suc (di_blocks d2)))"
      unfolding wres_def by (simp split del: if_split cong: if_cong)
    then obtain m2 d2 x2 s2 where k: "m2 \<le> n2"
      "K (sin\<lparr>din := d, sin_dirty := x\<rparr>) s1 = Some (if m2 = n2 then 0 else - E_NO_MEM, take m2 (drop n1 buf),
         sin\<lparr>din := d2, sin_dirty := x2\<rparr>, s2)"
      "wrote good nblk blk s1 d s2 d2 (p + n1) (take m2 (drop n1 buf))"
      "if m2 = n2 then \<forall>e. p + n1 + n2 \<le> e * 4096 \<longrightarrow> room s1 d e \<longrightarrow> room s2 d2 e
       else p + n1 + m2 = di_blocks d2 * 4096 \<and> \<not> room s1 d (Suc (di_blocks d2))" by blast
    have app: "take n1 buf @ take m2 (drop n1 buf) = take (n1 + m2) buf" by (simp add: take_add)
    have "length (take n1 buf) = n1" using len by simp
    then have "wrote good nblk blk s (din sin) s2 d2 p (take (n1 + m2) buf)"
      using wrote_append [OF m(3) [unfolded True], of s2 d2 "take m2 (drop n1 buf)"] k(3) app by simp
    moreover have "andthen r K = Some (if m2 = n2 then 0 else - E_NO_MEM, take (n1 + m2) buf,
        sin\<lparr>din := d2, sin_dirty := x2\<rparr>, s2)"
      using m(2) True k(2) app by (simp add: andthen_def)
    moreover have "if m2 = n2 then \<forall>e. p + (n1 + n2) \<le> e * 4096 \<longrightarrow> room s (din sin) e \<longrightarrow> room s2 d2 e
       else p + (n1 + m2) = di_blocks d2 * 4096 \<and> \<not> room s (din sin) (Suc (di_blocks d2))"
    proof (cases "m2 = n2")
      case True
      with k(4) m(4) \<open>m = n1\<close> show ?thesis by (auto simp: add.assoc)
    next
      case False
      then have "p + n1 + m2 = di_blocks d2 * 4096" "\<not> room s1 d (Suc (di_blocks d2))" using k(4) by simp_all
      moreover from this have "\<not> room s (din sin) (Suc (di_blocks d2))"
        using m(4) \<open>m = n1\<close> by auto
      ultimately show ?thesis using False by (simp add: add.assoc)
    qed
    ultimately show ?thesis
      unfolding wres_def using k(1)
      by - (rule exI [of _ "n1 + m2"], rule exI [of _ d2], rule exI [of _ x2], rule exI [of _ s2], simp)
  qed
qed

context block_device
begin

abbreviation (input) wrs where "wrs \<equiv> wres good nblk blk"

lemma wres_part:
  assumes inv: "finv s (din sin)" and i: "i \<le> di_blocks (din sin)" "i < 1036"
    and op: "puts op off (take n buf)" and len: "off + n \<le> 4096" "0 < n" "n \<le> length buf" and p: "p = i * 4096 + off"
    and gap: "p \<le> di_blocks (din sin) * 4096"
  shows "wrs sin s p buf n (io_part io op sin (take n buf) i s)"
proof -
  have l: "off + length (take n buf) \<le> 4096" and ne: "take n buf \<noteq> []" using len by auto
  show ?thesis
  proof (rule io_part_write [OF inv i op l ne])
    fix s'
    assume a: "io_part io op sin (take n buf) i s = Some (- E_NO_MEM, [], sin, s')" "i = di_blocks (din sin)"
      "wr s (din sin) s' (din sin) (i * 4096) []" "\<And>e. i < e \<Longrightarrow> \<not> room s (din sin) e"
    have "off = 0" using gap p a(2) by simp
    with wres_full [of good nblk blk s sin s' p n buf] a p len show ?thesis by simp
  next
    fix d r s'
    assume a: "io_part io op sin (take n buf) i s = Some (0, take n buf, sin\<lparr>din := d, sin_dirty := r\<rparr>, s')"
      "wr s (din sin) s' d (i * 4096 + off) (take n buf)" "\<And>e. i < e \<Longrightarrow> room s (din sin) e \<Longrightarrow> room s' d e"
    have "room s' d e" if "p + n \<le> e * 4096" "room s (din sin) e" for e
    proof -
      have "i * 4096 < e * 4096" using that(1) p len(2) by simp
      then have "i < e" by simp
      then show ?thesis using a(3) that(2) by blast
    qed
    with a wres_done [of good nblk blk s sin s' d p n buf r] p show ?thesis by simp
  qed
qed

end

lemma wrote_end:
  assumes "wrote good nblk blk s d s' d' p buf"
  shows "file_inv good nblk blk s' d'" and "p + length buf \<le> di_blocks d' * 4096"
proof -
  have "p + length buf \<le> (p + length buf + 4095) div 4096 * 4096" by linarith
  also have "\<dots> \<le> di_blocks d' * 4096" using assms by (simp add: wrote_def)
  finally show "p + length buf \<le> di_blocks d' * 4096" .
qed (use assms in \<open>simp add: wrote_def\<close>)

context block_device
begin

lemma io_blocks_write:
  assumes "finv s (din sin)" and "i \<le> di_blocks (din sin)" and "i + n \<le> 1036" and "n * 4096 \<le> length buf"
  shows "wrs sin s (i * 4096) buf (n * 4096) (io_blocks io True n i sin buf s)"
  using assms
proof (induction n arbitrary: i sin buf s)
  case 0
  then have "wr s (din sin) s (din sin) (i * 4096) []" by (intro wrote_Nil) simp_all
  from wres_done [of good nblk blk s sin s "din sin" "i * 4096" 0 buf "sin_dirty sin"] this show ?case by simp
next
  case (Suc n)
  have len: "Suc n * 4096 = 4096 + n * 4096" by simp
  have "length (take 4096 buf) = 4096" using Suc.prems(4) by simp
  note op = puts_block [OF this]
  have part: "wrs sin s (i * 4096) buf 4096
      (io_part io (\<lambda>b ino. sfs_block_op io True b ino 1) sin (take SFS_BLKSIZE buf) i s)"
    using wres_part [OF Suc.prems(1,2) _ op] Suc.prems by (simp add: sfs_consts)
  show ?case
    unfolding io_blocks_andthen len
  proof (rule wres_andthen [OF _ part])
    fix d x s1
    assume w: "wr s (din sin) s1 d (i * 4096) (take 4096 buf)"
    let ?sin = "sin\<lparr>din := d, sin_dirty := x\<rparr>"
    have l: "length (take 4096 buf) = 4096" using Suc.prems(4) by simp
    have "i + 1 \<le> di_blocks d" using wrote_end(2) [OF w] l by simp
    then have "wrs ?sin s1 ((i + 1) * 4096) (drop 4096 buf) (n * 4096)
        (io_blocks io True n (i + 1) ?sin (drop 4096 buf) s1)"
      using wrote_end(1) [OF w] Suc.prems by (intro Suc.IH) simp_all
    then show "wrs ?sin s1 (i * 4096 + 4096) (drop 4096 buf) (n * 4096)
        (io_blocks io True n (i + 1) ?sin (drop SFS_BLKSIZE buf) s1)" by (simp add: sfs_consts add.commute)
  qed (use Suc.prems in simp)
qed

lemma io_rest_write:
  assumes inv: "finv s (din sin)" and i: "i \<le> di_blocks (din sin)" and t: "t < 4096"
    and e: "(if t = 0 then i + n else i + n + 1) \<le> 1036" and len: "n * 4096 + t \<le> length buf"
  shows "wrs sin s (i * 4096) buf (n * 4096 + t) (io_rest io True n i t sin buf s)"
proof -
  have first: "wrs sin s (i * 4096) buf (n * 4096) (io_blocks io True n i sin buf s)"
    by (rule io_blocks_write) (use assms in \<open>auto split: if_splits\<close>)
  show ?thesis
  proof (cases "t = 0")
    case True
    with first show ?thesis by (simp add: io_rest_def)
  next
    case False
    have "wrs sin s (i * 4096) buf (n * 4096 + t) (andthen (io_blocks io True n i sin buf s) (\<lambda>sin s.
        io_part io (\<lambda>b ino. sfs_buf_op io True b ino 0) sin (take t (drop (n * SFS_BLKSIZE) buf)) (i + n) s))"
    proof (rule wres_andthen [OF len first])
      fix d x s1
      assume w: "wr s (din sin) s1 d (i * 4096) (take (n * 4096) buf)"
      let ?sin = "sin\<lparr>din := d, sin_dirty := x\<rparr>" and ?buf = "drop (n * 4096) buf"
      have l: "length (take (n * 4096) buf) = n * 4096" using len by simp
      have d: "finv s1 (din ?sin)" "i + n \<le> di_blocks (din ?sin)" using wrote_end [OF w] l by simp_all
      have lt: "t \<le> length ?buf" using len by simp
      have op: "puts (\<lambda>b ino. sfs_buf_op io True b ino 0) 0 (take t ?buf)"
        by (rule puts_buf) (use t lt False in auto)
      have "wrs ?sin s1 (i * 4096 + n * 4096) ?buf t
          (io_part io (\<lambda>b ino. sfs_buf_op io True b ino 0) ?sin (take t ?buf) (i + n) s1)"
        by (rule wres_part [OF d(1,2) _ op]) (use e t lt False d(2) in \<open>auto simp: add_mult_distrib\<close>)
      then show "wrs ?sin s1 (i * 4096 + n * 4096) ?buf t
          (io_part io (\<lambda>b ino. sfs_buf_op io True b ino 0) ?sin (take t (drop (n * SFS_BLKSIZE) buf)) (i + n) s1)"
        by (simp add: sfs_consts)
    qed
    with False show ?thesis by (simp add: io_rest_def)
  qed
qed

lemma io_transfer_write:
  assumes inv: "finv s (din sin)" and pos: "off < fin" "fin \<le> 1036 * 4096" "off \<le> di_blocks (din sin) * 4096"
    and len: "fin - off \<le> length buf"
  shows "wrs sin s off buf (fin - off) (io_transfer io True sin buf off fin s)"
proof -
  define i o1 f t where "i = off div 4096" and "o1 = off mod 4096" and "f = fin div 4096" and "t = fin mod 4096"
  have off: "off = i * 4096 + o1" "o1 < 4096" and fin: "fin = f * 4096 + t" "t < 4096"
    by (simp_all add: i_def o1_def f_def t_def)
  define e where "e = (fin + 4095) div 4096"
  have e: "e = (if t = 0 then f else f + 1)"
  proof (cases "t = 0")
    case False
    then have "fin + 4095 = Suc f * 4096 + (t - 1)" "t - 1 < 4096" using fin by simp_all
    then show ?thesis using False by (simp add: e_def)
  qed (simp add: e_def fin(1))
  have e36: "e \<le> 1036" using pos(2) fin e by (auto split: if_splits)
  have "i \<le> f" using pos(1) by (simp add: i_def f_def div_le_mono)
  have ie: "i < e" using \<open>i \<le> f\<close> e pos(1) off fin by (auto split: if_splits)
  have i36: "i < 1036" using ie e36 by simp
  have ib: "i \<le> di_blocks (din sin)" using pos(3) off by linarith
  have tr: "io_transfer io True sin buf off fin s =
    (if o1 = 0 then io_rest io True (f - i) i t sin buf s
     else if f - i = 0 then io_part io (\<lambda>b ino. sfs_buf_op io True b ino o1) sin (take (fin - off) buf) i s
     else andthen (io_part io (\<lambda>b ino. sfs_buf_op io True b ino o1) sin (take (SFS_BLKSIZE - o1) buf) i s)
       (\<lambda>sin s. io_rest io True (f - i - 1) (i + 1) t sin (drop (SFS_BLKSIZE - o1) buf) s))"
    by (rule io_transfer_parts) (simp_all add: i_def o1_def f_def t_def sfs_consts)
  show ?thesis
  proof (cases "o1 = 0")
    case True
    have "fin - off = (f - i) * 4096 + t" using fin off True \<open>i \<le> f\<close> by (simp add: diff_mult_distrib)
    moreover have "wrs sin s (i * 4096) buf ((f - i) * 4096 + t) (io_rest io True (f - i) i t sin buf s)"
      by (rule io_rest_write [OF inv ib fin(2)]) (use e e36 \<open>i \<le> f\<close> len calculation in auto)
    ultimately show "wrs sin s off buf (fin - off) (io_transfer io True sin buf off fin s)"
      using tr True off by simp
  next
    case o1: False
    show "wrs sin s off buf (fin - off) (io_transfer io True sin buf off fin s)"
    proof (cases "f - i = 0")
      case True
      have n: "o1 + (fin - off) \<le> 4096" "0 < fin - off" using True \<open>i \<le> f\<close> fin off pos(1) by auto
      have op: "puts (\<lambda>b ino. sfs_buf_op io True b ino o1) o1 (take (fin - off) buf)"
        by (rule puts_buf) (use n len in auto)
      have "wrs sin s off buf (fin - off)
          (io_part io (\<lambda>b ino. sfs_buf_op io True b ino o1) sin (take (fin - off) buf) i s)"
        by (rule wres_part [OF inv ib i36 op n len off(1) pos(3)])
      with tr o1 True show ?thesis by simp
    next
      case False
      have l1: "fin - off = (4096 - o1) + ((f - i - 1) * 4096 + t)"
        using fin off False by (auto simp: diff_mult_distrib algebra_simps)
      have op: "puts (\<lambda>b ino. sfs_buf_op io True b ino o1) o1 (take (4096 - o1) buf)"
        by (rule puts_buf) (use off(2) len l1 in auto)
      have "wrs sin s off buf (4096 - o1)
          (io_part io (\<lambda>b ino. sfs_buf_op io True b ino o1) sin (take (4096 - o1) buf) i s)"
        by (rule wres_part [OF inv ib i36 op _ _ _ off(1) pos(3)]) (use off(2) len l1 in auto)
      then have "wrs sin s off buf ((4096 - o1) + ((f - i - 1) * 4096 + t))
          (andthen (io_part io (\<lambda>b ino. sfs_buf_op io True b ino o1) sin (take (4096 - o1) buf) i s)
            (\<lambda>sin s. io_rest io True (f - i - 1) (i + 1) t sin (drop (SFS_BLKSIZE - o1) buf) s))"
      proof (rule wres_andthen [rotated])
        fix d x s1
        assume w: "wr s (din sin) s1 d off (take (4096 - o1) buf)"
        let ?sin = "sin\<lparr>din := d, sin_dirty := x\<rparr>"
        have l: "length (take (4096 - o1) buf) = 4096 - o1" using len l1 by simp
        have d: "finv s1 (din ?sin)" "i + 1 \<le> di_blocks (din ?sin)" using wrote_end [OF w] l off by simp_all
        have "wrs ?sin s1 ((i + 1) * 4096) (drop (4096 - o1) buf) ((f - i - 1) * 4096 + t)
            (io_rest io True (f - i - 1) (i + 1) t ?sin (drop (4096 - o1) buf) s1)"
          by (rule io_rest_write [OF d fin(2)]) (use e e36 False len l1 in auto)
        moreover have "(i + 1) * 4096 = off + (4096 - o1)" using off by simp
        ultimately show "wrs ?sin s1 (off + (4096 - o1)) (drop (4096 - o1) buf) ((f - i - 1) * 4096 + t)
            (io_rest io True (f - i - 1) (i + 1) t ?sin (drop (SFS_BLKSIZE - o1) buf) s1)" by (simp add: sfs_consts)
      qed (use len l1 in simp)
      with tr o1 False l1 show ?thesis by (simp add: sfs_consts)
    qed
  qed
qed

end

end
