(* ===== verification/Sfs_Data.thy ===== *)
theory Sfs_Data
  imports Sfs_File
begin

text \<open>
  Reading, and what reading and writing are on the contents of a file as a sequence of bytes.
\<close>

section \<open>Reading\<close>

definition fbytes :: "(nat \<Rightarrow> bytes) \<Rightarrow> sfs_disk_inode \<Rightarrow> nat \<Rightarrow> nat \<Rightarrow> bytes" where
  "fbytes B d p n = map (fbyte B d) [p..<p + n]"

lemma fbytes_append: "fbytes B d p m @ fbytes B d (p + m) n = fbytes B d p (m + n)"
  using upt_add_eq_append [of p "p + m" n] by (simp add: fbytes_def add.assoc)

lemma fbytes_block:
  assumes "length (B (ptr B d i)) = 4096" and "off + n \<le> 4096"
  shows "take n (drop off (B (ptr B d i))) = fbytes B d (i * 4096 + off) n"
proof (rule nth_equalityI)
  fix k assume "k < length (take n (drop off (B (ptr B d i))))"
  then have k: "k < n" "off + k < 4096" using assms by auto
  then have "(i * 4096 + (off + k)) div 4096 = i" "(i * 4096 + (off + k)) mod 4096 = off + k" by simp_all
  then have "fbyte B d (i * 4096 + off + k) = B (ptr B d i) ! (off + k)" by (simp add: fbyte_def add.assoc)
  then show "take n (drop off (B (ptr B d i))) ! k = fbytes B d (i * 4096 + off) n ! k"
    using k assms by (simp add: fbytes_def)
qed (use assms in \<open>simp add: fbytes_def\<close>)

context block_device
begin

lemma read_part:
  assumes inv: "finv s (din sin)" and i: "i < di_blocks (din sin)" and len: "off + length buf \<le> 4096" "buf \<noteq> []"
  shows "io_part io (\<lambda>b ino. sfs_buf_op io False b ino off) sin buf i s =
    Some (0, fbytes (B s) (din sin) (i * 4096 + off) (length buf), sin, s)"
proof -
  note p = finv_ptr [OF inv i]
  have "off < 4096" using len by (cases buf) auto
  with rbuf_spec [OF finvD(1) [OF inv] p(1,2) _ len(1)] fbytes_block [where B = "B s" and d = "din sin" and i = i, OF p(3) len(1)]
    bmap_load_present [OF finvD [OF inv] i] show ?thesis
    by (simp add: io_part_def sfs_buf_op_def)
qed

lemma read_blocks:
  assumes "finv s (din sin)" and "i + n \<le> di_blocks (din sin)" and "n * 4096 \<le> length buf"
  shows "io_blocks io False n i sin buf s = Some (0, fbytes (B s) (din sin) (i * 4096) (n * 4096), sin, s)"
  using assms
proof (induction n arbitrary: i buf)
  case (Suc n)
  have i: "i < di_blocks (din sin)" using Suc.prems(2) by simp
  note p = finv_ptr [OF Suc.prems(1) i]
  have "length (take 4096 buf) = 4096" using Suc.prems(3) by simp
  from block_op_read [OF finvD(1) [OF Suc.prems(1)] p(1,2) this] fbytes_block [where B = "B s" and d = "din sin" and i = i and off = 0 and n = 4096, OF p(3)] p(3)
  have "io_part io (\<lambda>b ino. sfs_block_op io False b ino 1) sin (take SFS_BLKSIZE buf) i s =
      Some (0, fbytes (B s) (din sin) (i * 4096) 4096, sin, s)"
    using bmap_load_present [OF finvD [OF Suc.prems(1)] i] by (simp add: io_part_def sfs_consts)
  moreover have "io_blocks io False n (i + 1) sin (drop SFS_BLKSIZE buf) s =
      Some (0, fbytes (B s) (din sin) (i * 4096 + 4096) (n * 4096), sin, s)"
    using Suc.IH [OF Suc.prems(1), of "i + 1" "drop SFS_BLKSIZE buf"] Suc.prems(2,3) by (simp add: sfs_consts add.commute)
  ultimately show ?case
    unfolding io_blocks_andthen using fbytes_append [of "B s" "din sin" "i * 4096" 4096 "n * 4096"]
    by (simp add: andthen_def)
qed (simp add: fbytes_def)

lemma read_rest:
  assumes inv: "finv s (din sin)" and i: "(if t = 0 then i + n else i + n + 1) \<le> di_blocks (din sin)" and t: "t < 4096"
    and len: "n * 4096 + t \<le> length buf"
  shows "io_rest io False n i t sin buf s = Some (0, fbytes (B s) (din sin) (i * 4096) (n * 4096 + t), sin, s)"
proof -
  have first: "io_blocks io False n i sin buf s = Some (0, fbytes (B s) (din sin) (i * 4096) (n * 4096), sin, s)"
    by (rule read_blocks [OF inv]) (use i len in \<open>auto split: if_splits\<close>)
  show ?thesis
  proof (cases "t = 0")
    case False
    let ?b = "take t (drop (n * SFS_BLKSIZE) buf)"
    have b: "length ?b = t" "0 + length ?b \<le> 4096" "?b \<noteq> []" using len t False by (auto simp: sfs_consts)
    have "i + n < di_blocks (din sin)" using i False by simp
    note read_part [OF inv this b(2,3)]
    with first b(1) False fbytes_append [of "B s" "din sin" "i * 4096" "n * 4096" t] show ?thesis
      by (simp add: io_rest_def andthen_def add_mult_distrib)
  qed (simp add: io_rest_def first)
qed

lemma io_transfer_read:
  assumes inv: "finv s (din sin)" and pos: "off < fin" "fin \<le> di_blocks (din sin) * 4096"
    and len: "fin - off \<le> length buf"
  shows "io_transfer io False sin buf off fin s = Some (0, fbytes (B s) (din sin) off (fin - off), sin, s)"
proof -
  define i o1 f t where "i = off div 4096" and "o1 = off mod 4096" and "f = fin div 4096" and "t = fin mod 4096"
  have off: "off = i * 4096 + o1" "o1 < 4096" and fin: "fin = f * 4096 + t" "t < 4096"
    by (simp_all add: i_def o1_def f_def t_def)
  have e: "(if t = 0 then f else f + 1) \<le> di_blocks (din sin)" using pos(2) fin by (auto split: if_splits)
  have "i \<le> f" using pos(1) by (simp add: i_def f_def div_le_mono)
  have tr: "io_transfer io False sin buf off fin s =
    (if o1 = 0 then io_rest io False (f - i) i t sin buf s
     else if f - i = 0 then io_part io (\<lambda>b ino. sfs_buf_op io False b ino o1) sin (take (fin - off) buf) i s
     else andthen (io_part io (\<lambda>b ino. sfs_buf_op io False b ino o1) sin (take (SFS_BLKSIZE - o1) buf) i s)
       (\<lambda>sin s. io_rest io False (f - i - 1) (i + 1) t sin (drop (SFS_BLKSIZE - o1) buf) s))"
    by (rule io_transfer_parts) (simp_all add: i_def o1_def f_def t_def sfs_consts)
  show ?thesis
  proof (cases "o1 = 0")
    case True
    have n: "fin - off = (f - i) * 4096 + t" using fin off True \<open>i \<le> f\<close> by (simp add: diff_mult_distrib)
    have "io_rest io False (f - i) i t sin buf s = Some (0, fbytes (B s) (din sin) (i * 4096) ((f - i) * 4096 + t), sin, s)"
      by (rule read_rest [OF inv _ fin(2)]) (use e \<open>i \<le> f\<close> len n in \<open>auto split: if_splits\<close>)
    with tr True off n show ?thesis by simp
  next
    case o1: False
    have ib: "i < di_blocks (din sin)" using e \<open>i \<le> f\<close> pos(1) off fin by (auto split: if_splits)
    show ?thesis
    proof (cases "f - i = 0")
      case True
      let ?b = "take (fin - off) buf"
      have b: "length ?b = fin - off" "o1 + length ?b \<le> 4096" "?b \<noteq> []"
        using True \<open>i \<le> f\<close> fin off pos(1) len by auto
      from read_part [OF inv ib b(2,3)] b(1) tr o1 True off(1) show ?thesis by simp
    next
      case False
      let ?b = "take (4096 - o1) buf"
      have n: "fin - off = (4096 - o1) + ((f - i - 1) * 4096 + t)"
        using fin off False by (auto simp: diff_mult_distrib algebra_simps)
      have b: "length ?b = 4096 - o1" "o1 + length ?b \<le> 4096" "?b \<noteq> []" using off(2) len n by auto
      have rest: "io_rest io False (f - i - 1) (i + 1) t sin (drop (4096 - o1) buf) s =
          Some (0, fbytes (B s) (din sin) ((i + 1) * 4096) ((f - i - 1) * 4096 + t), sin, s)"
        by (rule read_rest [OF inv _ fin(2)]) (use e False len n in \<open>auto split: if_splits\<close>)
      have p: "(i + 1) * 4096 = off + (4096 - o1)" using off by simp
      have "fbytes (B s) (din sin) (i * 4096 + o1) (4096 - o1) @
          fbytes (B s) (din sin) ((i + 1) * 4096) ((f - i - 1) * 4096 + t) = fbytes (B s) (din sin) off (fin - off)"
        unfolding p n off(1) [symmetric] by (rule fbytes_append)
      moreover have "io_part io (\<lambda>b ino. sfs_buf_op io False b ino o1) sin ?b i s =
          Some (0, fbytes (B s) (din sin) (i * 4096 + o1) (4096 - o1), sin, s)"
        using read_part [OF inv ib b(2,3)] unfolding b(1) .
      ultimately show ?thesis
        unfolding tr using o1 False rest by (simp only: andthen_def sfs_consts if_False bind.simps option.case prod.case) simp
    qed
  qed
qed

section \<open>The file as a sequence of bytes\<close>

text \<open>The size tells the number of blocks.\<close>

end

definition fdata :: "('d \<Rightarrow> nat \<Rightarrow> bytes) \<Rightarrow> 'd sfs_fs \<Rightarrow> sfs_disk_inode \<Rightarrow> bytes" where
  "fdata blk s d = fbytes (blk (sfs_dev s)) d 0 (di_size d)"

definition whole ::
  "('d \<Rightarrow> bool) \<Rightarrow> ('d \<Rightarrow> nat) \<Rightarrow> ('d \<Rightarrow> nat \<Rightarrow> bytes) \<Rightarrow> 'd sfs_fs \<Rightarrow> sfs_disk_inode \<Rightarrow> bool"
where
  "whole good nblk blk s d \<longleftrightarrow> file_inv good nblk blk s d \<and> di_blocks d = (di_size d + 4095) div 4096"

lemma length_fdata [simp]: "length (fdata blk s d) = di_size d"
  by (simp add: fdata_def fbytes_def)

lemma nth_fdata: "k < di_size d \<Longrightarrow> fdata blk s d ! k = fbyte (blk (sfs_dev s)) d k"
  by (simp add: fdata_def fbytes_def)

lemma whole_size: "whole good nblk blk s d \<Longrightarrow> di_size d \<le> di_blocks d * 4096"
  unfolding whole_def by linarith

lemma wrap64_small: "0 \<le> x \<Longrightarrow> x < 2 ^ 63 \<Longrightarrow> wrap64 x = x"
  by (simp add: wrap64_def)

lemma io_consts: "SFS_MAX_FILE_SIZE = 134217728" "SFS_TYPE_DIR = 2"
  by (simp_all add: SFS_MAX_FILE_SIZE_def SFS_TYPE_DIR_def)

context block_device
begin

abbreviation (input) wh where "wh \<equiv> whole good nblk blk"

lemma sfs_read_spec:
  assumes w: "wh s (din sin)" and ty: "di_type (din sin) \<noteq> SFS_TYPE_DIR"
    and off: "off < SFS_MAX_FILE_SIZE" and len: "length buf < 2 ^ 62"
  defines "n \<equiv> min (length buf) (di_size (din sin) - off)"
  shows "sfs_io_nolock io sin buf (int off) False s = Some (0, n, take n (drop off (fdata blk s (din sin))) @ drop n buf, sin, s)"
proof -
  let ?d = "din sin"
  have wrap: "wrap64 (int off + int (length buf)) = int off + int (length buf)"
    using off len by (intro wrap64_small) (simp_all add: io_consts)
  have data: "take m (drop off (fdata blk s ?d)) = fbytes (B s) ?d off m" if "off + m \<le> di_size ?d" for m
    using that by (intro nth_equalityI) (simp_all add: nth_fdata fbytes_def)
  show ?thesis
  proof (cases "off < di_size ?d \<and> buf \<noteq> []")
    case False
    then have "n = 0" by (auto simp: n_def)
    with False wrap ty off show ?thesis
      by (auto simp: sfs_io_nolock_def Let_def io_consts)
  next
    case True
    define fin where "fin = (if int off + int (length buf) > int (di_size ?d) then di_size ?d else off + length buf)"
    have fin: "off < fin" "fin - off = n" "fin \<le> di_size ?d" "n \<le> length buf" using True by (auto simp: fin_def n_def)
    have sz: "di_size ?d < 2 ^ 30" "di_size ?d \<le> SFS_MAX_FILE_SIZE"
      using whole_size [OF w] file_okD(2) [OF finvD(2)] w by (auto simp: whole_def file_inv_def file_ok_def io_consts)
    have tr: "io_transfer io False sin buf off fin s = Some (0, fbytes (B s) ?d off n, sin, s)"
      using io_transfer_read [of s sin off fin buf] w fin whole_size [OF w] by (simp add: whole_def)
    have "nat (let e = (if int off + int (length buf) > int SFS_MAX_FILE_SIZE then int SFS_MAX_FILE_SIZE
         else int off + int (length buf)) in if e > int (di_size ?d) then int (di_size ?d) else e) = fin"
      using sz by (auto simp: fin_def Let_def)
    then show ?thesis
      using tr True wrap ty off data [of n] fin
      by (auto simp: sfs_io_nolock_def Let_def io_consts fbytes_def split: if_splits)
  qed
qed

lemma sfs_write_spec:
  assumes w: "wh s (din sin)" and ty: "di_type (din sin) \<noteq> SFS_TYPE_DIR"
    and off: "off \<le> di_size (din sin)" and len: "off + length buf \<le> 1036 * 4096"
  obtains m sin' s' where "m \<le> length buf"
    and "sfs_io_nolock io sin buf (int off) True s =
      Some (if m = length buf then 0 else - E_NO_MEM, m, buf, sin', s')"
    and "wh s' (din sin')" and "evolves blk s (din sin) s' (din sin')"
    and "fdata blk s' (din sin') = take off (fdata blk s (din sin)) @ take m buf @ drop (off + m) (fdata blk s (din sin))"
    and "m < length buf \<Longrightarrow>
      off + m = di_blocks (din sin') * 4096 \<and> \<not> room s (din sin) (Suc (di_blocks (din sin')))"
proof (cases "buf = []")
  case True
  have "sfs_io_nolock io sin buf (int off) True s = Some (0, 0, buf, sin, s)"
    using True ty len wrap64_small [of "int off"] by (simp add: sfs_io_nolock_def io_consts)
  with True w show ?thesis by (intro that [of 0 sin s]) simp_all
next
  case False
  let ?d = "din sin" and ?fin = "off + length buf"
  have inv: "finv s ?d" and bl: "di_blocks ?d = (di_size ?d + 4095) div 4096" using w by (simp_all add: whole_def)
  have o1: "off \<le> di_blocks ?d * 4096" using off whole_size [OF w] by simp
  have "wrs sin s off buf (?fin - off) (io_transfer io True sin buf off ?fin s)"
    by (rule io_transfer_write [OF inv _ len o1]) (use False in auto)
  then have "\<exists>m d x s'. m \<le> length buf \<and>
    io_transfer io True sin buf off ?fin s =
      Some (if m = length buf then 0 else - E_NO_MEM, take m buf, sin\<lparr>din := d, sin_dirty := x\<rparr>, s') \<and>
    wr s ?d s' d off (take m buf) \<and>
    (m < length buf \<longrightarrow> off + m = di_blocks d * 4096 \<and> \<not> room s ?d (Suc (di_blocks d)))"
    unfolding wres_def by (simp split del: if_split) (metis nat_neq_iff)
  then obtain m d x s' where m: "m \<le> length buf"
    "io_transfer io True sin buf off ?fin s =
      Some (if m = length buf then 0 else - E_NO_MEM, take m buf, sin\<lparr>din := d, sin_dirty := x\<rparr>, s')"
    "wr s ?d s' d off (take m buf)"
    "m < length buf \<Longrightarrow> off + m = di_blocks d * 4096 \<and> \<not> room s ?d (Suc (di_blocks d))"
    by blast
  have lm: "length (take m buf) = m" using m(1) by simp
  define sin' where "sin' = (if off + m > di_size d
    then (upd_din (\<lambda>e. e\<lparr>di_size := off + m\<rparr>) (sin\<lparr>din := d, sin_dirty := x\<rparr>))\<lparr>sin_dirty := True\<rparr>
    else sin\<lparr>din := d, sin_dirty := x\<rparr>)"
  have din': "din sin' = d\<lparr>di_size := max (di_size d) (off + m)\<rparr>"
    by (simp add: sin'_def upd_din_def max_def)
  have d: "di_size d = di_size ?d" "di_blocks d = max (di_blocks ?d) ((off + m + 4095) div 4096)" "finv s' d"
    "evolves blk s ?d s' d"
    using m(3) lm by (simp_all add: wrote_def)
  have same: "ptr (B s') (din sin') = ptr (B s') d" "owned (B s') (din sin') = owned (B s') d"
    "fbyte (B s') (din sin') = fbyte (B s') d" "di_blocks (din sin') = di_blocks d"
    by (simp_all add: din' owned_def fbyte_def [abs_def])
  have inv': "finv s' (din sin')" using d(3) by (simp add: file_inv_def file_ok_def din')
  have blocks': "di_blocks d = (max (di_size ?d) (off + m) + 4095) div 4096"
    unfolding d(2) bl
    using max_of_mono [of "\<lambda>n. (n + 4095) div 4096" "di_size ?d" "off + m"] by (simp add: mono_def div_le_mono)
  then have wh': "wh s' (din sin')" using inv' d(1) by (simp add: whole_def din')
  have run: "sfs_io_nolock io sin buf (int off) True s =
      Some (if m = length buf then 0 else - E_NO_MEM, m, buf, sin', s')"
  proof -
    have "wrap64 (int off + int (length buf)) = int ?fin" using len by (subst wrap64_small) simp_all
    moreover have "nat (int off + int (length buf)) = ?fin" by simp
    ultimately show ?thesis
      using m(2) ty len False lm by (auto simp: sfs_io_nolock_def Let_def io_consts sin'_def)
  qed
  have data: "fdata blk s' (din sin') = take off (fdata blk s ?d) @ take m buf @ drop (off + m) (fdata blk s ?d)"
  proof (rule nth_equalityI)
    show "length (fdata blk s' (din sin')) =
        length (take off (fdata blk s ?d) @ take m buf @ drop (off + m) (fdata blk s ?d))"
      using off m(1) d(1) by (simp add: din' max_def)
    fix k assume "k < length (fdata blk s' (din sin'))"
    then have k: "k < max (di_size ?d) (off + m)" by (simp add: din' d(1))
    then have "k < di_blocks d * 4096" unfolding blocks' by linarith
    then have "fbyte (B s') d k = (if off \<le> k \<and> k < off + m then buf ! (k - off)
        else if k < di_blocks ?d * 4096 then fbyte (B s) ?d k else NUL)"
      using m(3) lm by (auto simp: wrote_def)
    moreover have "k < di_size ?d \<Longrightarrow> k < di_blocks ?d * 4096" using whole_size [OF w] by simp
    ultimately have "fdata blk s' (din sin') ! k =
        (if off \<le> k \<and> k < off + m then buf ! (k - off) else fdata blk s ?d ! k)"
      using k same(3) d(1) off by (auto simp: nth_fdata din' less_max_iff_disj)
    then show "fdata blk s' (din sin') ! k =
        (take off (fdata blk s ?d) @ take m buf @ drop (off + m) (fdata blk s ?d)) ! k"
      using k off m(1) by (auto simp: nth_append min_def not_less)
  qed
  have "evolves blk s ?d s' (din sin')" using d(4) same(2) by (simp add: evolves_def din')
  then show ?thesis using that [OF m(1) run wh' _ data] m(4) same(4) by simp
qed

end

end
