(* ===== verification/Sfs_Trunc.thy ===== *)
theory Sfs_Trunc
  imports Sfs_Data
begin

text \<open>
  Resizing a file: the last block given back by \<^verbatim>\<open>sfs_bmap_truncate_nolock\<close>, the two loops of
  \<^verbatim>\<open>sfs_truncfile\<close>, and what becomes of the bytes of the file.
\<close>

section \<open>The last block\<close>

lemma file_ok_drop:
  assumes ok: "file_ok B F n d" and i: "di_blocks d = Suc i"
    and d': "length (di_direct d') = 12" "di_blocks d' = i" "di_indirect d' = di_indirect d"
    and p: "\<And>j. j < 1036 \<Longrightarrow> ptr B' d' j = (if j = i then 0 else ptr B d j)"
  shows "file_ok B' (insert (ptr B d i) F) n d'" and "owned B' d' = owned B d - {ptr B d i}"
proof -
  note f = file_okD [OF ok]
  have i36: "i < 1036" using f(2) i by simp
  have q: "ptr B' d' j = ptr B d j" "j < 1036" if "j < i" for j using p [of j] that i36 by simp_all
  have neq: "ptr B d j \<noteq> ptr B d i" if "j < i" for j
    using inj_onD [OF f(8), of j i] that i by auto
  have img: "ptr B' d' ` {..<i} = ptr B d ` {..<i}" using q by (intro image_cong) auto
  have "ptr B d ` {..<Suc i} - {ptr B d i} = ptr B d ` {..<i}"
    using neq by (auto simp: lessThan_Suc)
  moreover have "ptr B d i \<noteq> di_indirect d" using f(5) [of i] i by simp
  ultimately show "owned B' d' = owned B d - {ptr B d i}"
    unfolding owned_def d' i using img by auto
  have pF: "ptr B' d' j \<notin> insert (ptr B d i) F \<union> {0, di_indirect d'} \<and> ptr B' d' j < n" if "j < i" for j
    using q [OF that] neq [OF that] f(3-6) [of j] that d'(3) i by auto
  have z: "ptr B' d' j = 0" if "j < 1036" "i \<le> j" for j
    using p [OF that(1)] f(7) [OF that(1)] that(2) i by (cases "j = i") auto
  have inj: "inj_on (ptr B' d') {..<i}"
  proof (rule inj_onI)
    fix x y assume "x \<in> {..<i}" "y \<in> {..<i}" "ptr B' d' x = ptr B' d' y"
    then show "x = y" using inj_onD [OF f(8), of x y] q [of x] q [of y] i by auto
  qed
  have "di_indirect d' \<noteq> 0 \<longrightarrow> di_indirect d' < n \<and> di_indirect d' \<notin> insert (ptr B d i) F"
    using f(9,10) f(5) [of i] d'(3) i by auto
  with pF z inj d' i36 show "file_ok B' (insert (ptr B d i) F) n d'" by (auto simp: file_ok_def)
qed

context block_device
begin

lemma free_last_block:
  assumes inv: "finv s (din sin)" and i: "di_blocks (din sin) = Suc i"
  obtains d r s' where "sfs_bmap_free_nolock io sin i s = Some (0, sin\<lparr>din := d, sin_dirty := r\<rparr>, s')"
    and "vol_ok good nblk s'" and "nb s' = nb s" and "fr s' = insert (ptr (B s) (din sin) i) (fr s)"
    and "length (di_direct d) = 12" and "di_indirect d = di_indirect (din sin)" and "di_blocks d = Suc i"
    and "di_size d = di_size (din sin)" and "di_type d = di_type (din sin)" and "di_nlinks d = di_nlinks (din sin)"
    and "\<And>j. j < 1036 \<Longrightarrow> ptr (B s') d j = (if j = i then 0 else ptr (B s) (din sin) j)"
    and "\<And>b. b \<noteq> di_indirect (din sin) \<or> di_indirect (din sin) = 0 \<Longrightarrow> B s' b = B s b"
proof -
  let ?d = "din sin" and ?p = "ptr (B s) (din sin) i"
  note v = finvD(1) [OF inv] and f = file_okD [OF finvD(2) [OF inv]]
  have li: "i < di_blocks ?d" using i by simp
  have i36: "i < 1036" using f(2) i by simp
  note pi = f(3-6) [OF li]
  show ?thesis
  proof (cases "i < 12")
    case True
    have p: "?p = di_direct ?d ! i" using True by (simp add: ptr_def)
    obtain s' where s': "sfs_block_free ?p s = Some s'" "vol_ok good nblk s'" "fr s' = insert ?p (fr s)"
      "nb s' = nb s" "sfs_dev s' = sfs_dev s" by (rule block_free_spec [OF v pi(2,4,1)])
    define d where "d = ?d\<lparr>di_direct := (di_direct ?d)[i := 0]\<rparr>"
    have run: "sfs_bmap_free_nolock io sin i s = Some (0, sin\<lparr>din := d, sin_dirty := True\<rparr>, s')"
      using s'(1) pi(2) True by (simp add: sfs_bmap_free_nolock_def sfs_consts d_def upd_din_def p [symmetric])
    show ?thesis
      by (rule that [OF run s'(2,4,3)])
        (use True f(1) i s'(5) in \<open>auto simp: d_def ptr_def nth_list_update\<close>)
  next
    case False
    let ?e = "di_indirect ?d" and ?j = "i - 12"
    have e: "?e \<noteq> 0" using pi(2) False by (auto simp: ptr_def split: if_splits)
    have j: "?j < 1024" using i36 False by simp
    have p: "?p = dec (take 4 (drop (?j * 4) (B s ?e)))" using False e by (simp add: ptr_def)
    obtain s1 where s1: "sfs_wbuf io (enc 4 0) ?e (?j * 4) s = Some (0, enc 4 0, s1)"
      "stored good nblk blk s ?e (patch (?j * 4) (enc 4 0) (B s ?e)) s1"
      by (rule wbuf_spec [OF v f(9) [OF e] e, of "?j * 4" "enc 4 0"]) (use j in auto)
    note t = storedD [OF s1(2)]
    obtain s' where s': "sfs_block_free ?p s1 = Some s'" "vol_ok good nblk s'" "fr s' = insert ?p (fr s1)"
      "nb s' = nb s1" "sfs_dev s' = sfs_dev s1"
      by (rule block_free_spec [OF stored_vol [OF s1(2) v] pi(2)]) (use pi t in simp_all)
    have sub: "sfs_bmap_free_sub_nolock io ?e ?j s = Some (0, s')"
      using inuse_spec [OF v e f(9) [OF e]] f(10) [OF e] j rbuf_spec [OF v f(9) [OF e] e, of "?j * 4" "enc 4 0"]
        s1(1) s'(1) pi(2) p by (simp add: sfs_bmap_free_sub_nolock_def sfs_consts Let_def)
    have run: "sfs_bmap_free_nolock io sin i s = Some (0, sin\<lparr>din := ?d, sin_dirty := sin_dirty sin\<rparr>, s')"
      using sub False j e by (simp add: sfs_bmap_free_nolock_def sfs_consts)
    have len: "length (B s ?e) = 4096" by (rule block_length [OF v f(9) [OF e]])
    have q: "ptr (B s') ?d k = (if k = i then 0 else ptr (B s) ?d k)" if k: "k < 1036" for k
    proof (cases "k < 12")
      case False
      then have "k - 12 < 1024" "k - 12 = ?j \<longleftrightarrow> k = i" using k \<open>\<not> i < 12\<close> by auto
      then show ?thesis
        using entry_slice [OF len j, of "k - 12" 0] e False by (simp add: ptr_def s'(5) t(1))
    qed (use False in \<open>auto simp: ptr_def\<close>)
    show ?thesis
      by (rule that [OF run s'(2)]) (use s' t f(1) i e q in \<open>auto\<close>)
  qed
qed

lemma truncate_last:
  assumes inv: "finv s (din sin)" and i: "di_blocks (din sin) = Suc i"
  obtains d s' where "sfs_bmap_truncate_nolock io sin s = Some (0, sin\<lparr>din := d, sin_dirty := True\<rparr>, s')"
    and "finv s' d" and "evolves blk s (din sin) s' d" and "di_blocks d = i" and "di_size d = di_size (din sin)"
    and "fr s' = insert (ptr (B s) (din sin) i) (fr s)" and "di_indirect d = di_indirect (din sin)"
    and "\<And>j. j < i \<Longrightarrow> ptr (B s') d j = ptr (B s) (din sin) j"
    and "\<And>k. k < i * 4096 \<Longrightarrow> fbyte (B s') d k = fbyte (B s) (din sin) k"
proof -
  let ?d = "din sin"
  note f = file_okD [OF finvD(2) [OF inv]]
  obtain d0 r s' where a: "sfs_bmap_free_nolock io sin i s = Some (0, sin\<lparr>din := d0, sin_dirty := r\<rparr>, s')"
    "vol_ok good nblk s'" "nb s' = nb s" "fr s' = insert (ptr (B s) ?d i) (fr s)"
    "length (di_direct d0) = 12" "di_indirect d0 = di_indirect ?d" "di_blocks d0 = Suc i"
    "di_size d0 = di_size ?d" "di_type d0 = di_type ?d" "di_nlinks d0 = di_nlinks ?d"
    "\<And>j. j < 1036 \<Longrightarrow> ptr (B s') d0 j = (if j = i then 0 else ptr (B s) ?d j)"
    "\<And>b. b \<noteq> di_indirect ?d \<or> di_indirect ?d = 0 \<Longrightarrow> B s' b = B s b"
    by (rule free_last_block [OF assms]) blast
  define d where "d = d0\<lparr>di_blocks := i\<rparr>"
  have p: "ptr (B s') d j = (if j = i then 0 else ptr (B s) ?d j)" if "j < 1036" for j
    using a(11) [OF that] by (simp add: d_def)
  have d: "length (di_direct d) = 12" "di_blocks d = i" "di_indirect d = di_indirect ?d" "di_size d = di_size ?d"
    "di_type d = di_type ?d" "di_nlinks d = di_nlinks ?d" using a by (simp_all add: d_def)
  have k: "file_ok (B s') (insert (ptr (B s) ?d i) (fr s)) (nb s) d" "owned (B s') d = owned (B s) ?d - {ptr (B s) ?d i}"
    by (rule file_ok_drop [OF finvD(2) [OF inv] i d(1-3)], erule p)+
  have run: "sfs_bmap_truncate_nolock io sin s = Some (0, sin\<lparr>din := d, sin_dirty := True\<rparr>, s')"
    using a(1,7) i by (simp add: sfs_bmap_truncate_nolock_def upd_din_def d_def)
  have inv': "finv s' d" using k(1) a(2-4) by (simp add: file_inv_def)
  have "ptr (B s) ?d i \<in> owned (B s) ?d" using i by (simp add: owned_def)
  then have "owned (B s') d \<union> fr s' = owned (B s) ?d \<union> fr s" unfolding k(2) a(4) by blast
  moreover have "B s' b = B s b" if "b \<notin> owned (B s) ?d \<union> fr s" for b
    using a(12) [of b] that by (auto simp: owned_def)
  ultimately have ev: "evolves blk s ?d s' d" using a(3) d by (simp add: evolves_def)
  have i36: "i < 1036" using f(2) i by simp
  have byte: "fbyte (B s') d m = fbyte (B s) ?d m" if "m < i * 4096" for m
  proof -
    have l: "m div 4096 < i" using that by (simp add: div_less_iff_less_mult)
    then have "ptr (B s) ?d (m div 4096) \<noteq> di_indirect ?d" using f(5) i by simp
    then show ?thesis using p [of "m div 4096"] l i36 a(12) by (simp add: fbyte_def)
  qed
  show ?thesis
    by (rule that [OF run inv' ev d(2,4) a(4) d(3) _ byte]) (use p i36 in auto)
qed

section \<open>The loops of sfs_truncfile\<close>

text \<open>Every round frees one block.\<close>

lemma shrink_spec:
  assumes "finv s (din sin)" and "n \<le> di_blocks (din sin)"
  shows "\<exists>d r s'. shrink_loop io n sin s = Some (0, sin\<lparr>din := d, sin_dirty := r\<rparr>, s') \<and> finv s' d \<and>
    evolves blk s (din sin) s' d \<and> di_blocks d = di_blocks (din sin) - n \<and> di_size d = di_size (din sin) \<and>
    card (fr s') = card (fr s) + n \<and>
    (\<forall>k < di_blocks d * 4096. fbyte (B s') d k = fbyte (B s) (din sin) k)"
  using assms
proof (induction n arbitrary: sin s)
  case 0
  show ?case
    by (rule exI [of _ "din sin"], rule exI [of _ "sin_dirty sin"], rule exI [of _ s]) (simp add: 0)
next
  case (Suc n)
  then obtain i where i: "di_blocks (din sin) = Suc i" by (cases "di_blocks (din sin)") auto
  obtain d s' where a: "sfs_bmap_truncate_nolock io sin s = Some (0, sin\<lparr>din := d, sin_dirty := True\<rparr>, s')"
    "finv s' d" "evolves blk s (din sin) s' d" "di_blocks d = i" "di_size d = di_size (din sin)"
    "fr s' = insert (ptr (B s) (din sin) i) (fr s)"
    "\<And>k. k < i * 4096 \<Longrightarrow> fbyte (B s') d k = fbyte (B s) (din sin) k"
    by (rule truncate_last [OF Suc.prems(1) i]) blast
  have "ptr (B s) (din sin) i \<notin> fr s" using file_okD(3) [OF finvD(2) [OF Suc.prems(1)]] i by simp
  then have c: "card (fr s') = Suc (card (fr s))"
    using vol_okD(7) [OF finvD(1) [OF Suc.prems(1)]] a(6) by simp
  from Suc.IH [of s' "sin\<lparr>din := d, sin_dirty := True\<rparr>"] a(2,4) Suc.prems(2) i obtain d2 r s2 where
    b: "shrink_loop io n (sin\<lparr>din := d, sin_dirty := True\<rparr>) s' = Some (0, sin\<lparr>din := d2, sin_dirty := r\<rparr>, s2)"
      "finv s2 d2" "evolves blk s' d s2 d2" "di_blocks d2 = i - n" "di_size d2 = di_size d"
      "card (fr s2) = card (fr s') + n" "\<forall>k < di_blocks d2 * 4096. fbyte (B s2) d2 k = fbyte (B s') d k"
    by auto
  show ?case
    by (rule exI [of _ d2], rule exI [of _ r], rule exI [of _ s2])
      (use a b c i evolves_trans [OF a(3) b(3)] in auto)
qed

end
context block_device
begin

text \<open>Each round adds a block of zeros; a round without a free block ends the loop.\<close>

lemma grow_spec:
  assumes "finv s (din sin)" and "b = di_blocks (din sin)" and "b + n \<le> 1036"
  shows "\<exists>m d r s'. grow_loop io n b sin s =
      Some (if m = n then 0 else - E_NO_MEM, sin\<lparr>din := d, sin_dirty := r\<rparr>, s') \<and> m \<le> n \<and> finv s' d \<and>
    evolves blk s (din sin) s' d \<and> di_blocks d = b + m \<and> di_size d = di_size (din sin) \<and>
    (\<forall>k < (b + m) * 4096. fbyte (B s') d k = (if k < b * 4096 then fbyte (B s) (din sin) k else NUL)) \<and>
    (room s (din sin) (b + n) \<longrightarrow> m = n)"
  using assms
proof (induction n arbitrary: sin s b)
  case 0
  show ?case
    by (rule exI [of _ 0], rule exI [of _ "din sin"], rule exI [of _ "sin_dirty sin"], rule exI [of _ s]) (simp add: 0)
next
  case (Suc n)
  have b: "b < 1036" using Suc.prems by simp
  show ?case
  proof (rule load_grow [OF Suc.prems(1,2) b])
    fix s'
    assume a: "sfs_bmap_load_nolock io sin b s = Some (- E_NO_MEM, 0, sin, s')"
      "wr s (din sin) s' (din sin) (b * 4096) []" "\<And>e. b < e \<Longrightarrow> \<not> room s (din sin) e"
    have "max b ((b * 4096 + 4095) div 4096) = b" by simp
    then have w: "finv s' (din sin)" "evolves blk s (din sin) s' (din sin)"
      "\<forall>k < b * 4096. fbyte (B s') (din sin) k = fbyte (B s) (din sin) k"
      using a(2) Suc.prems(2) by (simp_all add: wrote_def)
    show ?thesis
      by (rule exI [of _ 0], rule exI [of _ "din sin"], rule exI [of _ "sin_dirty sin"], rule exI [of _ s'])
        (use a(1,3) w Suc.prems(2) in \<open>simp add: E_NO_MEM_def\<close>)
  next
    fix d r s'
    assume a: "sfs_bmap_load_nolock io sin b s = Some (0, ptr (B s') d b, sin\<lparr>din := d, sin_dirty := r\<rparr>, s')"
      "finv s' d" "evolves blk s (din sin) s' d" "di_blocks d = Suc b" "di_size d = di_size (din sin)"
      "\<And>k. k < Suc b * 4096 \<Longrightarrow> fbyte (B s') d k = (if k < b * 4096 then fbyte (B s) (din sin) k else NUL)"
      "\<And>e. b < e \<Longrightarrow> room s (din sin) e \<Longrightarrow> room s' d e"
    have "\<exists>m d2 r2 s2. grow_loop io n (Suc b) (sin\<lparr>din := d, sin_dirty := r\<rparr>) s' =
          Some (if m = n then 0 else - E_NO_MEM, sin\<lparr>din := d2, sin_dirty := r2\<rparr>, s2) \<and> m \<le> n \<and> finv s2 d2 \<and>
        evolves blk s' d s2 d2 \<and> di_blocks d2 = Suc b + m \<and> di_size d2 = di_size d \<and>
        (\<forall>k < (Suc b + m) * 4096. fbyte (B s2) d2 k = (if k < Suc b * 4096 then fbyte (B s') d k else NUL)) \<and>
        (room s' d (Suc b + n) \<longrightarrow> m = n)"
      using Suc.IH [of s' "sin\<lparr>din := d, sin_dirty := r\<rparr>" "Suc b"] a(2,4) Suc.prems(3)
      by (simp split del: if_split cong: if_cong)
    then obtain m d2 r2 s2 where
      g: "grow_loop io n (Suc b) (sin\<lparr>din := d, sin_dirty := r\<rparr>) s' =
          Some (if m = n then 0 else - E_NO_MEM, sin\<lparr>din := d2, sin_dirty := r2\<rparr>, s2)" "m \<le> n" "finv s2 d2"
        "evolves blk s' d s2 d2" "di_blocks d2 = Suc b + m" "di_size d2 = di_size d"
        "\<forall>k < (Suc b + m) * 4096. fbyte (B s2) d2 k = (if k < Suc b * 4096 then fbyte (B s') d k else NUL)"
        "room s' d (Suc b + n) \<longrightarrow> m = n" by blast
    have byte: "fbyte (B s2) d2 k = (if k < b * 4096 then fbyte (B s) (din sin) k else NUL)"
      if "k < (b + Suc m) * 4096" for k
      using g(7) a(6) [of k] that by auto
    have room': "Suc m = Suc n" if "room s (din sin) (b + Suc n)"
      using a(7) [OF _ that] g(8) by simp
    show ?thesis
      by (rule exI [of _ "Suc m"], rule exI [of _ d2], rule exI [of _ r2], rule exI [of _ s2])
        (use a(1,5) g(1-6) byte room' evolves_trans [OF a(3) g(4)] in simp)
  qed
qed

text \<open>Resizing as a whole; the third case is a growth the volume has no blocks for.\<close>

lemma truncfile_spec:
  assumes w: "wh s (din sin)" and len: "len \<le> 1036 * 4096"
  defines "t \<equiv> (len + 4095) div 4096" and "b \<equiv> di_blocks (din sin)"
  obtains (ok) sin' s' where "sfs_truncfile io sin (int len) s = Some (0, sin', s')" and "wh s' (din sin')"
      and "evolves blk s (din sin) s' (din sin')" and "di_size (din sin') = len"
      and "\<And>k. k < len \<Longrightarrow>
        fbyte (B s') (din sin') k = (if k < b * 4096 then fbyte (B s) (din sin) k else NUL)"
      and "t \<le> b \<Longrightarrow> card (fr s') = card (fr s) + (b - t)"
  | (full) sin' s' where "sfs_truncfile io sin (int len) s = Some (- E_NO_MEM, sin', s')"
      and "finv s' (din sin')" and "evolves blk s (din sin) s' (din sin')"
      and "b \<le> di_blocks (din sin')" and "b < t" and "\<not> room s (din sin) t"
      and "di_size (din sin') = di_size (din sin)" and "fdata blk s' (din sin') = fdata blk s (din sin)"
proof -
  let ?d = "din sin"
  have inv: "finv s ?d" and bl: "b = (di_size ?d + 4095) div 4096" using w by (simp_all add: whole_def b_def)
  have sz: "di_size ?d \<le> b * 4096" using whole_size [OF w] by (simp add: b_def)
  have t36: "t \<le> 1036" using len by (simp add: t_def)
  have lt: "len \<le> t * 4096" unfolding t_def by linarith
  have tt: "(len + SFS_BLKSIZE - 1) div SFS_BLKSIZE = t" by (simp add: t_def sfs_consts add.commute)
  have unfold: "sfs_truncfile io sin (int len) s =
    (if di_size ?d = len then do { kassert (t = b); Some (0, sin, s) }
     else (if b < t then grow_loop io (t - b) b sin s
           else if t < b then shrink_loop io (b - t) sin s else Some (0, sin, s)) \<bind>
       (\<lambda>(ret, sin, s). if ret \<noteq> 0 then Some (ret, sin, s)
          else do { kassert (di_blocks (din sin) = t);
            Some (0, (upd_din (\<lambda>d. d\<lparr>di_size := len\<rparr>) sin)\<lparr>sin_dirty := True\<rparr>, s) }))"
    unfolding sfs_truncfile_def Let_def nat_int tt b_def [symmetric] of_nat_eq_iff using len
    by (simp add: io_consts split del: if_split)
  have "done": thesis
    if "grown = Some (0, sin\<lparr>din := d, sin_dirty := r\<rparr>, s')" "finv s' d" "evolves blk s ?d s' d" "di_blocks d = t"
      "\<And>k. k < t * 4096 \<Longrightarrow> fbyte (B s') d k = (if k < b * 4096 then fbyte (B s) ?d k else NUL)"
      "t \<le> b \<Longrightarrow> card (fr s') = card (fr s) + (b - t)" "di_size ?d \<noteq> len"
      "grown = (if b < t then grow_loop io (t - b) b sin s
           else if t < b then shrink_loop io (b - t) sin s else Some (0, sin, s))" for grown d r s'
  proof (rule ok)
    let ?sin' = "sin\<lparr>din := d\<lparr>di_size := len\<rparr>, sin_dirty := True\<rparr>"
    show "sfs_truncfile io sin (int len) s = Some (0, ?sin', s')"
      unfolding unfold that(8) [symmetric] that(1) using that(4,7) by (simp add: upd_din_def)
    have same: "ptr (B s') (din ?sin') = ptr (B s') d" "owned (B s') (din ?sin') = owned (B s') d"
      "fbyte (B s') (din ?sin') = fbyte (B s') d"
      by (simp_all add: owned_def fbyte_def [abs_def])
    show "wh s' (din ?sin')" using that(2,4) by (simp add: whole_def file_inv_def file_ok_def t_def)
    show "evolves blk s ?d s' (din ?sin')" using that(3) same(2) by (simp add: evolves_def)
    show "fbyte (B s') (din ?sin') k = (if k < b * 4096 then fbyte (B s) ?d k else NUL)" if "k < len" for k
      unfolding same(3) using \<open>\<And>k. k < t * 4096 \<Longrightarrow> fbyte (B s') d k = _\<close> that lt by simp
  qed (use that(6) in simp_all)
  consider (same) "di_size ?d = len" | (grow) "di_size ?d \<noteq> len" "b < t" | (shrink) "di_size ?d \<noteq> len" "t < b"
    | (keep) "di_size ?d \<noteq> len" "t = b" by linarith
  then show ?thesis
  proof cases
    case same
    then have "t = b" by (simp add: t_def bl)
    with same w show ?thesis by (intro ok [of sin s]) (use unfold sz in auto)
  next
    case grow
    from grow_spec [OF inv b_def [THEN meta_eq_to_obj_eq], of "t - b"] grow t36 obtain m d r s' where
      g: "grow_loop io (t - b) b sin s = Some (if m = t - b then 0 else - E_NO_MEM, sin\<lparr>din := d, sin_dirty := r\<rparr>, s')"
        "m \<le> t - b" "finv s' d" "evolves blk s ?d s' d" "di_blocks d = b + m" "di_size d = di_size ?d"
        "\<forall>k < (b + m) * 4096. fbyte (B s') d k = (if k < b * 4096 then fbyte (B s) ?d k else NUL)"
        "room s ?d t \<longrightarrow> m = t - b" by auto
    show ?thesis
    proof (cases "m = t - b")
      case True
      show ?thesis
        by (rule "done" [OF _ g(3,4) _ _ _ grow(1) refl]) (use g grow True in auto)
    next
      case False
      have "fdata blk s' d = fdata blk s ?d"
        using g(6,7) sz by (intro nth_equalityI) (auto simp: nth_fdata)
      with False g grow show ?thesis
        by (intro full [of "sin\<lparr>din := d, sin_dirty := r\<rparr>" s']) (auto simp: unfold E_NO_MEM_def)
    qed
  next
    case shrink
    from shrink_spec [OF inv, of "b - t"] shrink obtain d r s' where
      g: "shrink_loop io (b - t) sin s = Some (0, sin\<lparr>din := d, sin_dirty := r\<rparr>, s')" "finv s' d"
        "evolves blk s ?d s' d" "di_blocks d = t" "card (fr s') = card (fr s) + (b - t)"
        "\<forall>k < di_blocks d * 4096. fbyte (B s') d k = fbyte (B s) ?d k" by (auto simp: b_def)
    show ?thesis
      by (rule "done" [OF _ g(2-4) _ _ shrink(1) refl]) (use g shrink in auto)
  next
    case keep
    show ?thesis
      by (rule "done" [where d = ?d and r = "sin_dirty sin" and s' = s, OF _ inv _ _ _ _ keep(1) refl]) (use keep in \<open>auto simp: b_def\<close>)
  qed
qed

end
section \<open>The other files of the volume\<close>

definition apart :: "('d \<Rightarrow> nat \<Rightarrow> bytes) \<Rightarrow> 'd sfs_fs \<Rightarrow> sfs_disk_inode \<Rightarrow> sfs_disk_inode \<Rightarrow> bool" where
  "apart blk s d e \<longleftrightarrow> owned (blk (sfs_dev s)) d \<inter> owned (blk (sfs_dev s)) e = {}"

context block_device
begin

text \<open>A file that owns none of the blocks concerned keeps its blocks and its contents.\<close>

lemma others_kept:
  assumes ev: "evolves blk s d s' d'" and inv: "finv s' d'" and e: "wh s e" and ap: "apart blk s d e"
  shows "wh s' e" and "fdata blk s' e = fdata blk s e" and "apart blk s' d' e"
proof -
  have inve: "finv s e" using e by (simp add: whole_def)
  note f = file_okD [OF finvD(2) [OF inve]]
  have out: "b \<notin> owned (B s) d \<union> fr s" if "b \<in> owned (B s) e" for b
    using that ap f(3,10) by (auto simp: apart_def owned_def)
  have same: "B s' b = B s b" if "b \<in> owned (B s) e" for b
    using ev out [OF that] by (simp add: evolves_def)
  have p: "ptr (B s') e i = ptr (B s) e i" for i
    by (rule ptr_cong) (use same in \<open>auto simp: owned_def\<close>)
  have own: "owned (B s') e = owned (B s) e" by (rule file_ok_cong(2) [OF p])
  have un: "owned (B s') d' \<union> fr s' = owned (B s) d \<union> fr s" and n: "nb s' = nb s" using ev by (simp_all add: evolves_def)
  have free: "fr s' \<inter> owned (B s) e = {}" using un out by blast
  have "file_ok (B s) (fr s') (nb s') e"
    using finvD(2) [OF inve] free n by (auto simp: file_ok_def owned_def)
  then have "finv s' e" using finvD(1) [OF inv] file_ok_cong(1) [OF p] by (simp add: file_inv_def)
  then show "wh s' e" using e by (simp add: whole_def)
  have "ptr (B s) e (k div 4096) \<in> owned (B s) e" if "k < di_size e" for k
  proof -
    have "k < di_blocks e * 4096" using that whole_size [OF e] by simp
    then show ?thesis by (simp add: owned_def div_less_iff_less_mult)
  qed
  then show "fdata blk s' e = fdata blk s e"
    using same by (intro nth_equalityI) (simp_all add: nth_fdata fbyte_def p)
  show "apart blk s' d' e" unfolding apart_def own using un out by blast
qed

end

end
