(* ===== verification/Sfs_Lookup.thy ===== *)
theory Sfs_Lookup
  imports Sfs_Cache Sfs_Data
begin

text \<open>
  Directories over any block device: a directory is the list of its entries, and searching it,
  listing it and finding the name of an inode in it are functions of that list; looking up a name
  gives the inode with the number found there, from the table or from the disk.
\<close>

section \<open>A directory as the list of its entries\<close>

definition dir_entries :: "(nat \<Rightarrow> bytes) \<Rightarrow> sfs_disk_inode \<Rightarrow> sfs_disk_entry list" where
  "dir_entries B d = map (\<lambda>i. entry_of (take DENTRY_SIZE (B (ptr B d i)))) [0..<di_blocks d]"

text \<open>The entries of a directory that are in use.\<close>

definition live :: "sfs_disk_entry list \<Rightarrow> sfs_disk_entry list" where
  "live es = filter (\<lambda>e. de_ino e \<noteq> 0) es"

definition dir_ino :: "sfs_disk_entry list \<Rightarrow> string \<Rightarrow> nat option" where
  "dir_ino es name = map_option de_ino (find (\<lambda>e. cstr (de_name e) = name) (live es))"

lemma length_dir_entries [simp]: "length (dir_entries B d) = di_blocks d"
  by (simp add: dir_entries_def)

lemma find_filter: "find P (filter Q xs) = find (\<lambda>x. Q x \<and> P x) xs"
  by (induction xs) auto

lemma dentry_consts: "DENTRY_SIZE = 260" "sfs_dentry_size = 256" "SFS_MAX_FNAME_LEN = 255" "DINODE_SIZE = 64"
  by (simp_all add: DENTRY_SIZE_def sfs_dentry_size_def SFS_MAX_FNAME_LEN_def DINODE_SIZE_def)

section \<open>Inodes on the disk and in memory\<close>

definition disk_inode :: "(nat \<Rightarrow> bytes) \<Rightarrow> nat \<Rightarrow> sfs_disk_inode" where
  "disk_inode B ino = inode_of (take DINODE_SIZE (B ino))"

text \<open>The block \<open>ino\<close> of a volume with the contents \<open>B\<close>, the free blocks \<open>F\<close> and \<open>n\<close> blocks holds an inode.\<close>

definition inode_block :: "(nat \<Rightarrow> bytes) \<Rightarrow> nat set \<Rightarrow> nat \<Rightarrow> nat \<Rightarrow> bool" where
  "inode_block B F n ino \<longleftrightarrow> ino \<noteq> 0 \<and> ino < n \<and> ino \<notin> F \<and> di_nlinks (disk_inode B ino) \<noteq> 0 \<and>
     di_type (disk_inode B ino) \<in> {SFS_TYPE_DIR, SFS_TYPE_FILE}"

definition loaded_node :: "(nat \<Rightarrow> bytes) \<Rightarrow> nat \<Rightarrow> nat \<Rightarrow> sfs_node" where
  "loaded_node B p ino = \<lparr>nd_sin = \<lparr>din = disk_inode B ino, sin_ino = ino, sin_dirty = False, reclaim_count = 1\<rparr>,
     nd_din = p, nd_dir = (di_type (disk_inode B ino) = SFS_TYPE_DIR), nd_ref = 1, nd_open = 0\<rparr>"

text \<open>An inode that a caller holds.\<close>

definition held_inode :: "'d mount \<Rightarrow> nat \<Rightarrow> bool" where
  "held_inode m a \<longleftrightarrow> cache_inv m \<and> a \<in> set (inode_list m) \<and> 0 < nd_ref (nodes m a)"

definition take_ref :: "sfs_node \<Rightarrow> sfs_node" where
  "take_ref n = (if nd_ref n = 0 then n\<lparr>nd_ref := 1, nd_sin := (nd_sin n)\<lparr>reclaim_count := reclaim_count (nd_sin n) + 1\<rparr>\<rparr>
     else n\<lparr>nd_ref := nd_ref n + 1\<rparr>)"

context block_device
begin

abbreviation (input) is_dir :: "'d sfs_fs \<Rightarrow> sfs_inode \<Rightarrow> bool" where
  "is_dir s sin \<equiv> finv s (din sin) \<and> di_type (din sin) = SFS_TYPE_DIR"

abbreviation (input) ents :: "'d sfs_fs \<Rightarrow> sfs_inode \<Rightarrow> sfs_disk_entry list" where
  "ents s sin \<equiv> dir_entries (B s) (din sin)"

lemma dirent_read_spec:
  assumes d: "is_dir s sin" and i: "i < di_blocks (din sin)"
  shows "sfs_dirent_read_nolock io sin i e s = Some (0, ents s sin ! i, sin, s)"
proof -
  have inv: "finv s (din sin)" using d ..
  note v = finvD(1) [OF inv] and p = finv_ptr [OF inv i]
  have "ptr (B s) (din sin) i \<notin> fr s" using file_okD(3) [OF finvD(2) [OF inv] i] .
  then show ?thesis
    using d i bmap_load_present [OF finvD [OF inv] i] inuse_spec [OF v p(2,1)]
      rbuf_spec [OF v p(1,2), of 0 "zeros DENTRY_SIZE"]
    by (simp add: sfs_dirent_read_nolock_def dir_entries_def dentry_consts)
qed

lemma search_loop_spec:
  assumes d: "is_dir s sin" and i: "i + n = di_blocks (din sin)"
  shows "\<exists>k g. search_loop io name i n e gap sin s =
    (case find (\<lambda>e. de_ino e \<noteq> 0 \<and> cstr (de_name e) = name) (drop i (ents s sin)) of
      None \<Rightarrow> Some (- E_NOENT, None, g, sin, s) | Some e \<Rightarrow> Some (0, Some (k, de_ino e), g, sin, s))"
  using i
proof (induction n arbitrary: i e gap)
  case (Suc n)
  have i: "i < length (ents s sin)" using Suc.prems by simp
  have dr: "drop i (ents s sin) = ents s sin ! i # drop (Suc i) (ents s sin)" using i by (simp add: Cons_nth_drop_Suc)
  have r: "sfs_dirent_read_nolock io sin i e s = Some (0, ents s sin ! i, sin, s)"
    using dirent_read_spec [OF d] i by simp
  show ?case
    using Suc.IH [of "i + 1" "ents s sin ! i"] Suc.prems unfolding dr search_loop.simps r
    by (cases "de_ino (ents s sin ! i) = 0"; cases "cstr (de_name (ents s sin ! i)) = name") auto
qed simp

lemma findino_loop_spec:
  assumes d: "is_dir s sin" and i: "i + n = di_blocks (din sin)"
  shows "\<exists>e'. findino_loop io ino i n e sin s = (case find (\<lambda>e. de_ino e = ino) (drop i (ents s sin)) of
      None \<Rightarrow> Some (- E_NOENT, e', sin, s) | Some e \<Rightarrow> Some (0, e, sin, s))"
  using i
proof (induction n arbitrary: i e)
  case (Suc n)
  have i: "i < length (ents s sin)" using Suc.prems by simp
  have dr: "drop i (ents s sin) = ents s sin ! i # drop (Suc i) (ents s sin)" using i by (simp add: Cons_nth_drop_Suc)
  have r: "sfs_dirent_read_nolock io sin i e s = Some (0, ents s sin ! i, sin, s)"
    using dirent_read_spec [OF d] i by simp
  show ?case using Suc.IH [of "i + 1" "ents s sin ! i"] Suc.prems unfolding dr findino_loop.simps r by auto
qed simp

lemma getdirentry_loop_spec:
  assumes d: "is_dir s sin" and i: "i + n = di_blocks (din sin)"
  shows "\<exists>e'. getdirentry_loop io slot i n e sin s =
    (if slot < length (live (drop i (ents s sin))) then Some (0, live (drop i (ents s sin)) ! slot, sin, s)
     else Some (- E_NOENT, e', sin, s))"
  using i
proof (induction n arbitrary: i e slot)
  case (Suc n)
  have i: "i < length (ents s sin)" using Suc.prems by simp
  have dr: "drop i (ents s sin) = ents s sin ! i # drop (Suc i) (ents s sin)" using i by (simp add: Cons_nth_drop_Suc)
  have r: "sfs_dirent_read_nolock io sin i e s = Some (0, ents s sin ! i, sin, s)"
    using dirent_read_spec [OF d] i by simp
  show ?case
    using Suc.IH [where i = "i + 1" and e = "ents s sin ! i" and slot = slot]
      Suc.IH [where i = "i + 1" and e = "ents s sin ! i" and slot = "slot - 1"] Suc.prems
    unfolding dr getdirentry_loop.simps r by (cases slot) (auto simp: live_def)
qed (simp add: live_def)

section \<open>Searching and listing\<close>

lemma put_sin_same [simp]: "put_sin a (nd_sin (nodes m a)) (vol m) m = m"
  by (simp add: put_sin_def upd_node_def)

lemma search_spec:
  assumes d: "is_dir (vol m) (nd_sin (nodes m a))" and name: "length name \<le> 255" and h: "heap m \<noteq> []"
  shows "\<exists>k g. sfs_dirent_search_nolock io a name m = (case dir_ino (ents (vol m) (nd_sin (nodes m a))) name of
      None \<Rightarrow> Some (- E_NOENT, None, g, m) | Some ino \<Rightarrow> Some (0, Some (k, ino), g, m))"
proof (cases rule: obj_alloc_cases [of m])
  case (2 p)
  let ?sin = "nd_sin (nodes m a)"
  obtain k g where s: "search_loop io name 0 (di_blocks (din ?sin)) fresh_entry (di_blocks (din ?sin)) ?sin (vol m) =
    (case find (\<lambda>e. de_ino e \<noteq> 0 \<and> cstr (de_name e) = name) (ents (vol m) ?sin) of
      None \<Rightarrow> Some (- E_NOENT, None, g, ?sin, vol m) | Some e \<Rightarrow> Some (0, Some (k, de_ino e), g, ?sin, vol m))"
    using search_loop_spec [OF d, of 0 "di_blocks (din ?sin)" name fresh_entry "di_blocks (din ?sin)"] by auto
  have "obj_free p (put_sin a ?sin (vol m) (m\<lparr>heap := tl (heap m)\<rparr>)) = m"
    using 2(2) by (simp add: obj_free_def put_sin_def upd_node_def)
  with s 2(1) name show ?thesis
    by (auto simp: sfs_dirent_search_nolock_def dentry_consts dir_ino_def live_def find_filter Let_def split: option.splits)
qed (use h in simp)

lemma findino_spec:
  assumes d: "is_dir s sin"
  shows "\<exists>e'. sfs_dirent_findino_nolock io sin ino e s = (case find (\<lambda>e. de_ino e = ino) (ents s sin) of
      None \<Rightarrow> Some (- E_NOENT, e', sin, s) | Some e \<Rightarrow> Some (0, e, sin, s))"
  using findino_loop_spec [OF d, of 0 "di_blocks (din sin)" ino e] by (simp add: sfs_dirent_findino_nolock_def)

lemma getdirentry_sub_spec:
  assumes d: "is_dir s sin"
  shows "\<exists>e'. sfs_getdirentry_sub_nolock io sin slot e s =
    (if slot < length (live (ents s sin)) then Some (0, live (ents s sin) ! slot, sin, s)
     else Some (- E_NOENT, e', sin, s))"
  using getdirentry_loop_spec [OF d, of 0 "di_blocks (din sin)" slot e] by (auto simp: sfs_getdirentry_sub_nolock_def)

section \<open>Loading an inode\<close>

lemma lookup_hit:
  assumes c: "cache_ok m" and a: "a \<in> set (inode_list m)"
  shows "lookup_sfs_nolock (ino_at m a) m = (Some a, upd_node a take_ref m)"
  using cached_at [OF assms]
  by (auto simp: lookup_sfs_nolock_def node_ref_inc_def Let_def upd_node_def take_ref_def)

lemma lookup_miss:
  assumes c: "cache_ok m" and a: "\<And>a. a \<in> set (inode_list m) \<Longrightarrow> ino_at m a \<noteq> ino"
  shows "lookup_sfs_nolock ino m = (None, m)"
proof -
  have "find (\<lambda>a. ino_at m a = ino) (hash_list m (sin_hashfn ino)) = None"
    using cache_okD(4) [OF c] a by (auto simp: find_None_iff)
  then show ?thesis by (simp add: lookup_sfs_nolock_def)
qed

lemma load_hit:
  "cache_ok m \<Longrightarrow> a \<in> set (inode_list m) \<Longrightarrow> sfs_load_inode io (ino_at m a) m = Some (0, Some a, upd_node a take_ref m)"
  by (simp add: sfs_load_inode_def lookup_hit)

lemma load_miss:
  assumes c: "cache_ok m" and a: "\<And>a. a \<in> set (inode_list m) \<Longrightarrow> ino_at m a \<noteq> ino"
    and v: "vol_ok good nblk (vol m)" and ino: "inode_block (B (vol m)) (fr (vol m)) (nb (vol m)) ino" and h: "heap m = p # b # h"
  shows "sfs_load_inode io ino m =
    Some (0, Some b, sfs_set_inode_links b (upd_node b (\<lambda>_. loaded_node (B (vol m)) p ino) (m\<lparr>heap := h\<rparr>)))"
proof -
  have i: "ino \<noteq> 0" "ino < nb (vol m)" "ino \<notin> fr (vol m)" using ino by (simp_all add: inode_block_def)
  have "sfs_rbuf io (zeros DINODE_SIZE) ino 0 (vol m) = Some (0, take DINODE_SIZE (B (vol m) ino), vol m)"
    using rbuf_spec [OF v i(2,1), of 0 "zeros DINODE_SIZE"] by (simp add: dentry_consts)
  moreover have "sfs_get_ops (di_type (disk_inode (B (vol m)) ino)) = Some (di_type (disk_inode (B (vol m)) ino) = SFS_TYPE_DIR)"
    using ino by (auto simp: inode_block_def sfs_get_ops_def SFS_TYPE_FILE_def SFS_TYPE_DIR_def)
  ultimately show ?thesis
    using lookup_miss [OF c a] inuse_spec [OF v i(1,2)] i(3) h ino
    by (simp add: sfs_load_inode_def obj_alloc_def sfs_create_inode_def loaded_node_def inode_block_def disk_inode_def)
qed

end
context block_device
begin

section \<open>Looking up a name\<close>

abbreviation (input) sin_at :: "'d mount \<Rightarrow> nat \<Rightarrow> sfs_inode" where "sin_at m a \<equiv> nd_sin (nodes m a)"

lemma ref_inc_dec:
  assumes "0 < nd_ref (nodes m a)" and "nodes m' a = (nodes m a)\<lparr>nd_ref := nd_ref (nodes m a) + 1\<rparr>"
  shows "node_ref_dec io a m' = Some (upd_node a (\<lambda>_. nodes m a) m')"
  using assms by (simp add: node_ref_dec_def Let_def upd_node_def)

lemma held_inc:
  assumes "held_inode m a"
  defines "m1 \<equiv> upd_node a (\<lambda>n. n\<lparr>nd_ref := nd_ref n + 1\<rparr>) m"
  shows "node_ref_inc a m = (nd_ref (nodes m a) + 1, m1)" "cache_ok m1" "vol m1 = vol m" "\<And>b. sin_at m1 b = sin_at m b"
    "heap m1 = heap m" "inode_list m1 = inode_list m" "upd_node a (\<lambda>_. nodes m a) m1 = m"
    "nodes m1 a = (nodes m a)\<lparr>nd_ref := nd_ref (nodes m a) + 1\<rparr>"
proof -
  show i: "node_ref_inc a m = (nd_ref (nodes m a) + 1, m1)" by (simp add: node_ref_inc_def m1_def Let_def)
  have "0 < refs m a" using assms by (simp add: held_inode_def refs_def)
  from ref_inc_kept [OF _ this i] assms show "cache_ok m1"
    by (simp add: held_inode_def kept_def cache_inv_def)
qed (simp_all add: m1_def upd_node_def)

lemma sfs_lookup_not_dir:
  assumes h: "held_inode m a" and ty: "di_type (din (sin_at m a)) \<noteq> SFS_TYPE_DIR" and p: "path \<noteq> ''''" "hd path \<noteq> CHR ''/''"
  shows "sfs_lookup io a path m = Some (- E_NOTDIR, None, m)"
proof -
  note i = held_inc [OF h]
  have "0 < nd_ref (nodes m a)" using h by (simp add: held_inode_def)
  from ref_inc_dec [OF this i(8)] show ?thesis
    using ty p i(4) i(7) by (simp add: sfs_lookup_def i(1))
qed

text \<open>The lookup after the reference to the directory has been taken.\<close>

lemma sfs_lookup_dir:
  assumes h: "held_inode m a" and d: "is_dir (vol m) (sin_at m a)"
    and p: "path \<noteq> ''''" "hd path \<noteq> CHR ''/''" "length path \<le> 255" and mem: "heap m \<noteq> []"
  defines "m1 \<equiv> upd_node a (\<lambda>n. n\<lparr>nd_ref := nd_ref n + 1\<rparr>) m"
  shows "sfs_lookup io a path m = (case dir_ino (ents (vol m) (sin_at m a)) path of
      None \<Rightarrow> Some (- E_NOENT, None, m)
    | Some ino \<Rightarrow> do {
        (ret, sub, m2) \<leftarrow> sfs_load_inode io ino m1;
        m3 \<leftarrow> node_ref_dec io a m2;
        Some (ret, if ret \<noteq> 0 then None else sub, m3) })"
proof -
  note i = held_inc [OF h, folded m1_def]
  have d1: "is_dir (vol m1) (sin_at m1 a)" "heap m1 \<noteq> []" using d mem i by simp_all
  obtain k g where s: "sfs_dirent_search_nolock io a path m1 = (case dir_ino (ents (vol m) (sin_at m a)) path of
      None \<Rightarrow> Some (- E_NOENT, None, g, m1) | Some ino \<Rightarrow> Some (0, Some (k, ino), g, m1))"
    using search_spec [OF d1(1) p(3) d1(2)] i(3,4) by auto
  have "0 < nd_ref (nodes m a)" using h by (simp add: held_inode_def)
  from ref_inc_dec [OF this i(8)] i(7) have dec: "node_ref_dec io a m1 = Some m" by simp
  show ?thesis
    using d p i(1,4) s dec
    by (auto simp: sfs_lookup_def sfs_lookup_once_def E_NOENT_def split: option.splits)
qed

lemma sfs_lookup_cached:
  assumes h: "held_inode m a" and d: "is_dir (vol m) (sin_at m a)"
    and p: "path \<noteq> ''''" "hd path \<noteq> CHR ''/''" "length path \<le> 255" and mem: "heap m \<noteq> []"
    and b: "b \<in> set (inode_list m)" "dir_ino (ents (vol m) (sin_at m a)) path = Some (ino_at m b)"
  shows "sfs_lookup io a path m = Some (0, Some b, upd_node b take_ref m)"
proof -
  let ?m1 = "upd_node a (\<lambda>n. n\<lparr>nd_ref := nd_ref n + 1\<rparr>) m"
  note i = held_inc [OF h]
  have pos: "0 < nd_ref (nodes m a)" using h by (simp add: held_inode_def)
  have l: "sfs_load_inode io (ino_at m b) ?m1 = Some (0, Some b, upd_node b take_ref ?m1)"
    using load_hit [OF i(2), of b] b(1) unfolding i(4,6) by blast
  have "node_ref_dec io a (upd_node b take_ref ?m1) = Some (upd_node b take_ref m)"
    using pos by (cases "a = b") (auto simp: node_ref_dec_def Let_def upd_node_def take_ref_def fun_upd_twist add.commute)
  with l show ?thesis using sfs_lookup_dir [OF h d p mem] b(2) by simp
qed

lemma sfs_lookup_loads:
  assumes h: "held_inode m a" and d: "is_dir (vol m) (sin_at m a)"
    and p: "path \<noteq> ''''" "hd path \<noteq> CHR ''/''" "length path \<le> 255" and mem: "heap m = q # b # rest"
    and ino: "dir_ino (ents (vol m) (sin_at m a)) path = Some ino" "\<And>c. c \<in> set (inode_list m) \<Longrightarrow> ino_at m c \<noteq> ino"
      "inode_block (B (vol m)) (fr (vol m)) (nb (vol m)) ino"
  shows "sfs_lookup io a path m =
    Some (0, Some b, sfs_set_inode_links b (upd_node b (\<lambda>_. loaded_node (B (vol m)) q ino) (m\<lparr>heap := rest\<rparr>)))"
proof -
  let ?m1 = "upd_node a (\<lambda>n. n\<lparr>nd_ref := nd_ref n + 1\<rparr>) m"
  note i = held_inc [OF h]
  have mem0: "heap m \<noteq> []" and pos: "0 < nd_ref (nodes m a)" using mem h by (simp_all add: held_inode_def)
  have "b \<notin> set (inode_list m)" using heap_apart [of m b] mem h by (simp add: held_inode_def)
  then have ne: "b \<noteq> a" using h by (auto simp: held_inode_def)
  have l: "sfs_load_inode io ino ?m1 =
      Some (0, Some b, sfs_set_inode_links b (upd_node b (\<lambda>_. loaded_node (B (vol m)) q ino) (?m1\<lparr>heap := rest\<rparr>)))"
    using load_miss [OF i(2), of ino q b rest] finvD(1) [of "vol m"] d ino(2,3) mem unfolding i(3-6) by blast
  have "node_ref_dec io a (sfs_set_inode_links b (upd_node b (\<lambda>_. loaded_node (B (vol m)) q ino) (?m1\<lparr>heap := rest\<rparr>))) =
      Some (sfs_set_inode_links b (upd_node b (\<lambda>_. loaded_node (B (vol m)) q ino) (m\<lparr>heap := rest\<rparr>)))"
    using pos ne by (simp add: node_ref_dec_def Let_def upd_node_def sfs_set_inode_links_def fun_upd_twist)
  with l show ?thesis using sfs_lookup_dir [OF h d p mem0] ino(1) by simp
qed

section \<open>Writing an inode back and loading it again\<close>

lemma sfs_fsync_spec:
  assumes v: "vol_ok good nblk (vol m)" and i: "ino_at m a \<noteq> 0" "ino_at m a < nb (vol m)"
    and len: "length (inode_image (din (sin_at m a))) = 64"
  obtains s where "sfs_fsync io a m = Some (0, put_sin a ((sin_at m a)\<lparr>sin_dirty := False\<rparr>) s m)"
    and "vol_ok good nblk s" and "fr s = fr (vol m)" and "nb s = nb (vol m)"
    and "B s = (if sin_dirty (sin_at m a)
      then (B (vol m))(ino_at m a := patch 0 (inode_image (din (sin_at m a))) (B (vol m) (ino_at m a))) else B (vol m))"
proof (cases "sin_dirty (sin_at m a)")
  case True
  from wbuf_spec [OF v i(2,1), of 0 "inode_image (din (sin_at m a))"] len obtain s where
    s: "sfs_wbuf io (inode_image (din (sin_at m a))) (ino_at m a) 0 (vol m) = Some (0, inode_image (din (sin_at m a)), s)"
      "stored good nblk blk (vol m) (ino_at m a) (patch 0 (inode_image (din (sin_at m a))) (B (vol m) (ino_at m a))) s"
    by auto
  with True stored_vol [OF s(2) v] storedD [OF s(2)] show ?thesis
    by (intro that [of s]) (simp_all add: sfs_fsync_def Let_def)
next
  case False
  then have e: "(sin_at m a)\<lparr>sin_dirty := False\<rparr> = sin_at m a" by (cases "sin_at m a") simp
  from False v show ?thesis by (intro that [of "vol m"]) (simp_all add: sfs_fsync_def e)
qed

end
section \<open>The image of an inode\<close>

definition inode_fits :: "sfs_disk_inode \<Rightarrow> bool" where
  "inode_fits d \<longleftrightarrow> di_size d < 2 ^ 32 \<and> di_type d < 2 ^ 16 \<and> di_nlinks d < 2 ^ 16 \<and> di_blocks d < 2 ^ 32 \<and>
     length (di_direct d) = 12 \<and> (\<forall>x \<in> set (di_direct d). x < 2 ^ 32) \<and> di_indirect d < 2 ^ 32"

lemma enc_slice: "i < length xs \<Longrightarrow> take n (drop (i * n) (concat (map (enc n) xs) @ r)) = enc n (xs ! i)"
proof (induction xs arbitrary: i)
  case (Cons x xs)
  then show ?case by (cases i) (simp_all add: add.commute [of n])
qed simp

lemma length_enc_map [simp]: "length (concat (map (enc n) xs)) = length xs * n"
  by (induction xs) simp_all

lemma dec_enc_bits: "v < 2 ^ (8 * n) \<Longrightarrow> dec (enc n v) = v"
  using dec_enc [of v n] by (simp add: power_mult)

lemma length_inode_image: "length (di_direct d) = 12 \<Longrightarrow> length (inode_image d) = 64"
  by (simp add: inode_image_def)

lemma inode_roundtrip:
  assumes "inode_fits d"
  shows "inode_of (inode_image d @ r) = d"
proof -
  have direct: "dec (take 4 (drop (12 + i * 4) (inode_image d @ r))) = di_direct d ! i" if "i < 12" for i
  proof -
    have "drop (12 + i * 4) (inode_image d @ r) =
        drop (i * 4) (concat (map (enc 4) (di_direct d)) @ enc 4 (di_indirect d) @ r)"
      by (simp add: inode_image_def)
    then show ?thesis
      using enc_slice [of i "di_direct d" 4] that assms dec_enc_bits [of "di_direct d ! i" 4] by (simp add: inode_fits_def)
  qed
  have "map (\<lambda>i. dec (take 4 (drop (12 + i * 4) (inode_image d @ r)))) [0..<SFS_NDIRECT] = di_direct d"
    using direct assms by (intro nth_equalityI) (simp_all add: inode_fits_def SFS_NDIRECT_def)
  moreover have "drop (12 + SFS_NDIRECT * 4) (inode_image d @ r) = enc 4 (di_indirect d) @ r"
    using assms by (simp add: inode_image_def SFS_NDIRECT_def inode_fits_def)
  moreover have "drop 4 (inode_image d @ r) = enc 2 (di_type d) @ drop 6 (inode_image d @ r)"
    "drop 6 (inode_image d @ r) = enc 2 (di_nlinks d) @ drop 8 (inode_image d @ r)"
    "drop 8 (inode_image d @ r) = enc 4 (di_blocks d) @ drop 12 (inode_image d @ r)"
    "take 4 (inode_image d @ r) = enc 4 (di_size d)"
    by (simp_all add: inode_image_def)
  ultimately show ?thesis
    using assms dec_enc_bits [of "di_size d" 4] dec_enc_bits [of "di_type d" 2] dec_enc_bits [of "di_nlinks d" 2]
      dec_enc_bits [of "di_blocks d" 4] dec_enc_bits [of "di_indirect d" 4]
    by (simp add: inode_of_def inode_fits_def)
qed

context block_device
begin

text \<open>The last reference to an inode is given up, and the inode is looked for again.\<close>

lemma reload_spec:
  assumes inv: "cache_inv m" and a: "a \<in> set (inode_list m)" "nd_ref (nodes m a) = 1" "nd_open (nodes m a) = 0"
    and v: "vol_ok good nblk (vol m)" and i: "ino_at m a \<noteq> 0" "ino_at m a < nb (vol m)" "ino_at m a \<notin> fr (vol m)"
    and d: "inode_fits (din (sin_at m a))" "di_type (din (sin_at m a)) \<in> {SFS_TYPE_DIR, SFS_TYPE_FILE}"
    and sync: "sin_dirty (sin_at m a) \<or> disk_inode (B (vol m)) (ino_at m a) = din (sin_at m a)"
  obtains m1 b m2 where "node_ref_dec io a m = Some m1" and "a \<notin> set (inode_list m1)"
    and "sfs_load_inode io (ino_at m a) m1 = Some (0, Some b, m2)" and "din (sin_at m2 b) = din (sin_at m a)"
    and "b \<in> set (inode_list m2)" and "nd_ref (nodes m2 b) = 1"
proof -
  let ?n = "nodes m a" and ?d = "din (sin_at m a)" and ?ino = "ino_at m a"
  have nok: "node_ok ?n" using cache_inv_node [OF inv a(1)] .
  define n0 where "n0 = ?n\<lparr>nd_ref := 0, nd_sin := (nd_sin ?n)\<lparr>reclaim_count := 0\<rparr>\<rparr>"
  define m0 where "m0 = upd_node a (\<lambda>_. n0) m"
  have n0: "sin_at m0 a = (sin_at m a)\<lparr>reclaim_count := 0\<rparr>" "vol m0 = vol m" "nd_ref (nodes m0 a) = 0" "nd_open (nodes m0 a) = 0"
    using a(3) by (simp_all add: m0_def n0_def)
  have len: "length (inode_image ?d) = 64" using d(1) by (simp add: inode_fits_def length_inode_image)
  obtain s where f: "sfs_fsync io a m0 = Some (0, put_sin a ((sin_at m0 a)\<lparr>sin_dirty := False\<rparr>) s m0)"
    and s: "vol_ok good nblk s" "fr s = fr (vol m)" "nb s = nb (vol m)"
      "B s = (if sin_dirty (sin_at m a) then (B (vol m))(?ino := patch 0 (inode_image ?d) (B (vol m) ?ino)) else B (vol m))"
    by (rule sfs_fsync_spec [of m0 a]) (use v i len n0 in auto)
  have img: "disk_inode (B s) ?ino = ?d"
  proof (cases "sin_dirty (sin_at m a)")
    case True
    then have "take 64 (B s ?ino) = inode_image ?d" using s(4) len by (simp add: patch_def)
    with inode_roundtrip [OF d(1), of "[]"] show ?thesis by (simp add: disk_inode_def dentry_consts)
  qed (use s(4) sync in simp)
  define mf where "mf = put_sin a ((sin_at m0 a)\<lparr>sin_dirty := False\<rparr>) s m0"
  have mf: "sin_at mf a = (sin_at m0 a)\<lparr>sin_dirty := False\<rparr>" "vol mf = s" "nd_ref (nodes mf a) = 0" "nd_open (nodes mf a) = 0"
    "inode_list mf = inode_list m" "hash_list mf = hash_list m" "heap mf = heap m" "nd_din (nodes mf a) = nd_din ?n"
    using n0 by (simp_all add: mf_def put_sin_def m0_def n0_def)
  have fs: "reclaim_fsync io a m0 = Some (0, mf) \<or> \<not> sin_dirty (sin_at m0 a) \<and> reclaim_fsync io a m0 = Some (0, m0)"
    using f n0 by (auto simp: reclaim_fsync_def vop_fsync_def inode_check_def MAX_INODE_COUNT_def mf_def)
  have "mf = m0" if "\<not> sin_dirty (sin_at m0 a)"
    using that f n0 by (auto simp: mf_def sfs_fsync_def)
  with fs have fs: "reclaim_fsync io a m0 = Some (0, mf)" by auto
  define m1 where "m1 = obj_free a (obj_free (nd_din ?n) (sfs_remove_inode_links a mf))"
  have rf: "reclaim_free a (sfs_remove_inode_links a mf) = Some m1"
    using nok mf n0 by (simp add: reclaim_free_def sfs_remove_inode_links_def Let_def obj_free_def m1_def node_ok_def)
  have dec: "node_ref_dec io a m = Some m1"
    using a(2,3) nok fs rf
    by (simp add: node_ref_dec_def Let_def inode_check_def MAX_INODE_COUNT_def sfs_reclaim_def node_ok_def
        reclaim_truncate_def upd_node_def m0_def n0_def)
  have "opens m a < refs m a" using a by (simp add: refs_def opens_def)
  from ref_dec_kept [OF inv this dec] have c1: "cache_ok m1" by (simp add: kept_def cache_inv_def)
  have dist: "distinct (inode_list m)" "inj_on (ino_at m) (set (inode_list m))"
    using inv by (auto simp: cache_inv_def cache_ok_def)
  have l1: "inode_list m1 = remove1 a (inode_list m)" "heap m1 = a # nd_din ?n # heap m" "vol m1 = s"
    by (simp_all add: m1_def sfs_remove_inode_links_def Let_def mf)
  have gone: "a \<notin> set (inode_list m1)" using dist by (simp add: l1)
  have other: "ino_at m1 c \<noteq> ?ino" if "c \<in> set (inode_list m1)" for c
  proof -
    have c: "c \<in> set (inode_list m)" "c \<noteq> a" using that gone l1(1) notin_set_remove1 by fastforce+
    then have "ino_at m1 c = ino_at m c"
      by (simp add: m1_def sfs_remove_inode_links_def Let_def mf_def put_sin_def m0_def)
    with c inj_onD [OF dist(2), of c a] a(1) show ?thesis by auto
  qed
  have blk: "inode_block (B s) (fr s) (nb s) ?ino"
    using i s(2,3) img nok d(2) by (auto simp: inode_block_def node_ok_def)
  have "sfs_load_inode io ?ino m1 = Some (0, Some (nd_din ?n),
      sfs_set_inode_links (nd_din ?n) (upd_node (nd_din ?n) (\<lambda>_. loaded_node (B s) a ?ino) (m1\<lparr>heap := heap m\<rparr>)))"
    using load_miss [OF c1 other, of a "nd_din ?n" "heap m"] s(1) blk l1 by simp
  from that [OF dec gone this] img show ?thesis
    by (simp add: sfs_set_inode_links_def Let_def loaded_node_def)
qed

end

end
