(* ===== verification/Sfs_Dirty.thy ===== *)
theory Sfs_Dirty
  imports Sfs
begin

text \<open>
  What the operations on files do to the superblock and the map of free blocks in memory: they keep
  the layout of the volume, and whenever they change the map or the count of free blocks they leave
  the volume marked dirty, so that it is written back later. Nothing is assumed of the device.
\<close>

section \<open>Changes are marked\<close>

definition marks :: "'d sfs_fs \<Rightarrow> 'd sfs_fs \<Rightarrow> bool" where
  "marks s s' \<longleftrightarrow>
     (super s')\<lparr>s_unused_blocks := s_unused_blocks (super s)\<rparr> = super s \<and>
     bm_nbits (freemap s') = bm_nbits (freemap s) \<and> bm_nwords (freemap s') = bm_nwords (freemap s) \<and>
     (super_dirty s' \<or> super s' = super s \<and> freemap s' = freemap s \<and> \<not> super_dirty s)"

lemma marks_refl [simp]: "marks s s"
  by (simp add: marks_def)

lemma marks_trans: "marks s s1 \<Longrightarrow> marks s1 s2 \<Longrightarrow> marks s s2"
proof -
  assume a: "marks s s1" "marks s1 s2"
  have "(super s2)\<lparr>s_unused_blocks := s_unused_blocks (super s)\<rparr> =
      ((super s2)\<lparr>s_unused_blocks := s_unused_blocks (super s1)\<rparr>)\<lparr>s_unused_blocks := s_unused_blocks (super s)\<rparr>"
    by simp
  also have "\<dots> = super s" using a by (simp only: marks_def)
  finally show "marks s s2" using a by (auto simp: marks_def)
qed

lemma marks_dev [simp]: "marks s (s\<lparr>sfs_dev := d\<rparr>)"
  by (simp add: marks_def)

lemma alloc_from_sizes:
  "alloc_from ix b = Some (ret, i, b') \<Longrightarrow>
     bm_nbits b' = bm_nbits b \<and> bm_nwords b' = bm_nwords b \<and> (ret \<noteq> 0 \<longrightarrow> b' = b)"
proof (induction ix b rule: alloc_from.induct)
  case (1 ix b)
  then show ?case
    unfolding alloc_from.simps [of ix b] by (auto split: if_splits option.splits)
qed

lemma rwblock_marks: "sfs_rwblock_nolock io buf b w c s = Some (r, buf', s') \<Longrightarrow> marks s s'"
  by (auto simp: sfs_rwblock_nolock_def option_bind_eq_Some)

lemma rwblocks_marks: "sfs_rwblock io buf b n w s = Some (r, buf', s') \<Longrightarrow> marks s s'"
proof (induction n arbitrary: buf b s r buf' s')
  case (Suc n)
  from Suc.prems show ?case
    by (auto simp: option_bind_eq_Some split: if_splits dest!: rwblock_marks Suc.IH intro: marks_trans)
qed simp

lemma rbuf_marks: "sfs_rbuf io buf b off s = Some (r, buf', s') \<Longrightarrow> marks s s'"
  by (auto simp: sfs_rbuf_def option_bind_eq_Some Let_def dest!: rwblock_marks)

lemma wbuf_marks: "sfs_wbuf io buf b off s = Some (r, buf', s') \<Longrightarrow> marks s s'"
  by (auto simp: sfs_wbuf_def option_bind_eq_Some Let_def split: if_splits dest!: rwblock_marks intro: marks_trans)

lemma clear_marks: "sfs_clear_block io b n s = Some (r, s') \<Longrightarrow> marks s s'"
proof (induction n arbitrary: b s r s')
  case (Suc n)
  from Suc.prems show ?case
    by (auto simp: option_bind_eq_Some split: if_splits dest!: rwblock_marks Suc.IH intro: marks_trans)
qed simp

lemma alloc_marks: "sfs_block_alloc io s = Some (r, ino, s') \<Longrightarrow> marks s s'"
proof -
  assume al: "sfs_block_alloc io s = Some (r, ino, s')"
  then obtain r1 i b where a: "alloc_from 0 (freemap s) = Some (r1, i, b)"
    by (cases "alloc_from 0 (freemap s)") (auto simp: sfs_block_alloc_def bitmap_alloc_def)
  note b = alloc_from_sizes [OF a]
  show "marks s s'"
  proof (cases "r1 = 0")
    case False
    then have "s' = s\<lparr>freemap := b\<rparr>" "b = freemap s"
      using al a b by (simp_all add: sfs_block_alloc_def bitmap_alloc_def)
    then show ?thesis by simp
  next
    case True
    let ?s1 = "s\<lparr>freemap := b,
        super := (super s)\<lparr>s_unused_blocks := s_unused_blocks (super s) - 1\<rparr>, super_dirty := True\<rparr>"
    have "sfs_clear_block io ino 1 ?s1 = Some (r, s')"
      using al a True by (auto simp: sfs_block_alloc_def bitmap_alloc_def option_bind_eq_Some Let_def
          simp del: sfs_clear_block.simps)
    then have "marks ?s1 s'" by (rule clear_marks)
    moreover have "marks s ?s1" using b by (simp add: marks_def)
    ultimately show ?thesis by (blast intro: marks_trans)
  qed
qed

lemma free_marks: "sfs_block_free b s = Some s' \<Longrightarrow> marks s s'"
  by (auto simp: sfs_block_free_def bitmap_free_def option_bind_eq_Some marks_def)

section \<open>The blocks of a file\<close>

lemma sub_cleanup_marks: "sub_cleanup r0 entp ent s = Some (r, e, i, s') \<Longrightarrow> marks s s'"
  by (auto simp: sub_cleanup_def option_bind_eq_Some split: if_splits dest: free_marks)

lemma sub_alloc_marks: "sub_alloc io entp ent off s = Some (r, e, i, s') \<Longrightarrow> marks s s'"
  by (auto simp: sub_alloc_def option_bind_eq_Some split: if_splits
      dest!: alloc_marks wbuf_marks free_marks sub_cleanup_marks intro: marks_trans)

lemma get_sub_marks: "sfs_bmap_get_sub_nolock io entp ix c s = Some (r, e, i, s') \<Longrightarrow> marks s s'"
  by (auto simp: sfs_bmap_get_sub_nolock_def option_bind_eq_Some Let_def split: if_splits
      dest!: alloc_marks rbuf_marks sub_alloc_marks intro: marks_trans)

lemma bmap_out_marks: "bmap_out ino sin s = Some (r, i, sin', s') \<Longrightarrow> marks s s'"
  by (auto simp: bmap_out_def option_bind_eq_Some split: if_splits)

lemma bmap_get_marks: "sfs_bmap_get_nolock io sin ix c s = Some (r, i, sin', s') \<Longrightarrow> marks s s'"
  by (auto simp: sfs_bmap_get_nolock_def option_bind_eq_Some split: if_splits
      dest!: alloc_marks get_sub_marks bmap_out_marks intro: marks_trans)

lemma bmap_load_marks: "sfs_bmap_load_nolock io sin ix s = Some (r, i, sin', s') \<Longrightarrow> marks s s'"
  by (auto simp: sfs_bmap_load_nolock_def option_bind_eq_Some Let_def split: if_splits dest!: bmap_get_marks)

lemma bmap_free_marks: "sfs_bmap_free_nolock io sin ix s = Some (r, sin', s') \<Longrightarrow> marks s s'"
  by (auto simp: sfs_bmap_free_nolock_def sfs_bmap_free_sub_nolock_def option_bind_eq_Some Let_def split: if_splits
      dest!: rbuf_marks wbuf_marks free_marks intro: marks_trans)

lemma bmap_truncate_marks: "sfs_bmap_truncate_nolock io sin s = Some (r, sin', s') \<Longrightarrow> marks s s'"
  by (auto simp: sfs_bmap_truncate_nolock_def option_bind_eq_Some split: if_splits dest!: bmap_free_marks)

section \<open>Reading, writing and resizing\<close>

lemma buf_op_marks: "sfs_buf_op io w buf b off s = Some (r, buf', s') \<Longrightarrow> marks s s'"
  by (auto simp: sfs_buf_op_def split: if_splits dest: rbuf_marks wbuf_marks)

lemma block_op_marks: "sfs_block_op io w buf b n s = Some (r, buf', s') \<Longrightarrow> marks s s'"
  by (auto simp: sfs_block_op_def sfs_rblock_def sfs_wblock_def split: if_splits dest: rwblocks_marks)

lemma io_part_marks:
  assumes "io_part io op sin buf b s = Some (r, buf', sin', s')"
    and "\<And>buf b s r buf' s'. op buf b s = Some (r, buf', s') \<Longrightarrow> marks s s'"
  shows "marks s s'"
  using assms(1) by (auto simp: io_part_def option_bind_eq_Some split: if_splits
      dest!: bmap_load_marks assms(2) intro: marks_trans)

lemmas io_part_ops_marks = io_part_marks [OF _ buf_op_marks] io_part_marks [OF _ block_op_marks]

lemma io_blocks_marks: "io_blocks io w n b sin buf s = Some (r, buf', sin', s') \<Longrightarrow> marks s s'"
proof (induction n arbitrary: b sin buf s r buf' sin' s')
  case (Suc n)
  from Suc.prems show ?case
    by (auto simp: option_bind_eq_Some split: if_splits dest!: io_part_ops_marks(2) Suc.IH intro: marks_trans)
qed simp

lemma io_transfer_marks: "io_transfer io w sin buf off fin s = Some (r, buf', sin', s') \<Longrightarrow> marks s s'"
  by (auto simp: io_transfer_def option_bind_eq_Some Let_def split: if_splits
      dest!: io_part_ops_marks(1) io_blocks_marks intro: marks_trans)

lemma io_nolock_marks: "sfs_io_nolock io sin buf off w s = Some (r, n, buf', sin', s') \<Longrightarrow> marks s s'"
  by (auto simp: sfs_io_nolock_def option_bind_eq_Some Let_def split: if_splits dest!: io_transfer_marks)

lemma grow_marks: "grow_loop io n b sin s = Some (r, sin', s') \<Longrightarrow> marks s s'"
proof (induction n arbitrary: b sin s r sin' s')
  case (Suc n)
  from Suc.prems show ?case
    by (auto simp: option_bind_eq_Some split: if_splits dest!: bmap_load_marks Suc.IH intro: marks_trans)
qed simp

lemma shrink_marks: "shrink_loop io n sin s = Some (r, sin', s') \<Longrightarrow> marks s s'"
proof (induction n arbitrary: sin s r sin' s')
  case (Suc n)
  from Suc.prems show ?case
    by (auto simp: option_bind_eq_Some split: if_splits dest!: bmap_truncate_marks Suc.IH intro: marks_trans)
qed simp

lemma truncfile_marks: "sfs_truncfile io sin len s = Some (r, sin', s') \<Longrightarrow> marks s s'"
  by (auto simp: sfs_truncfile_def option_bind_eq_Some Let_def split: if_splits dest!: grow_marks shrink_marks)

end
