(* ===== verification/Sfs_Remount.thy ===== *)
theory Sfs_Remount
  imports Sfs_Lookup Sfs_Dirty
begin

text \<open>
  Writing a volume back and mounting it again, over any block device: the superblock and the bitmap
  that are read are the ones that were written.
\<close>

section \<open>The superblock and the bitmap as bytes\<close>

definition layout_ok :: "'d sfs_fs \<Rightarrow> bool" where
  "layout_ok s \<longleftrightarrow> s_magic (super s) = SFS_MAGIC \<and> length (s_info (super s)) = 32 \<and> s_info (super s) ! 31 = NUL \<and>
     bm_nbits (freemap s) = sfs_freemap_bits (super s) \<and> bm_nwords (freemap s) = bm_nbits (freemap s) div 32 \<and>
     2 + sfs_freemap_blocks (super s) \<le> nb s"

definition super_image :: "sfs_super \<Rightarrow> bytes" where
  "super_image su = enc 4 (s_magic su) @ enc 4 (s_blocks su) @ enc 4 (s_unused_blocks su) @ s_info su"

lemma super_roundtrip:
  assumes "s_magic su < 2 ^ 32" "s_blocks su < 2 ^ 32" "s_unused_blocks su < 2 ^ 32"
    and info: "length (s_info su) = 32" "s_info su ! 31 = NUL"
  shows "super_of (super_image su @ r) = su"
proof -
  have "(s_info su)[31 := NUL] = s_info su" using info by (metis list_update_id)
  then show ?thesis
    using assms dec_enc_bits [of "s_magic su" 4] dec_enc_bits [of "s_blocks su" 4] dec_enc_bits [of "s_unused_blocks su" 4]
    by (simp add: super_of_def super_image_def SFS_MAX_INFO_LEN_def)
qed

definition map_image :: "u32 list \<Rightarrow> bytes" where
  "map_image ws = concat (map (\<lambda>w. enc 4 (unat w)) ws)"

lemma map_image_enc: "map_image ws = concat (map (enc 4) (map unat ws))"
  by (simp add: map_image_def comp_def)

lemma length_map_image [simp]: "length (map_image ws) = length ws * 4"
  unfolding map_image_enc length_enc_map by simp

lemma words_roundtrip: "words_of (length ws) (map_image ws) = ws"
proof (rule nth_equalityI)
  fix i assume i: "i < length (words_of (length ws) (map_image ws))"
  then have il: "i < length (map unat ws)" by (simp add: words_of_def)
  have u: "unat (ws ! i) < 2 ^ 32" using unsigned_less [of "ws ! i"] by simp
  from enc_slice [OF il, of 4 "[]"] i dec_enc_bits [of "unat (ws ! i)" 4] u
  show "words_of (length ws) (map_image ws) ! i = ws ! i" by (simp add: words_of_def map_image_enc)
qed (simp add: words_of_def)

lemma bitmap_create_whole:
  assumes "0 < k"
  shows "bitmap_create True True (k * 32) =
    Some (Some \<lparr>bm_nbits = k * 32, bm_nwords = k, bm_map = replicate k 0xFFFFFFFF\<rparr>)"
proof -
  have "(k * 32 + 32 - 1) div 32 = k" by simp
  with assms show ?thesis by (simp add: bitmap_create_def)
qed

lemma count_unused_spec:
  assumes ok: "bitmap_ok b" and n: "i + n \<le> bm_nbits b"
  shows "count_unused b i n u = Some (u + card (free_bits b \<inter> {i..<i + n}))"
  using n
proof (induction n arbitrary: i u)
  case (Suc n)
  have i: "i < bm_nbits b" using Suc.prems by simp
  have s: "{i..<i + Suc n} = insert i {Suc i..<Suc i + n}" by auto
  have "card (free_bits b \<inter> {i..<i + Suc n}) =
      card (free_bits b \<inter> {Suc i..<Suc i + n}) + (if i \<in> free_bits b then 1 else 0)"
    unfolding s by (cases "i \<in> free_bits b") simp_all
  then show ?case
    using Suc.IH [of "Suc i"] Suc.prems bitmap_test_spec [OF i] by simp
qed simp

lemma concat_blocks:
  "length data = n * k \<Longrightarrow> concat (map (\<lambda>i. take k (drop (i * k) data)) [0..<n]) = data"
proof (induction n arbitrary: data)
  case (Suc n)
  have "concat (map (\<lambda>i. take k (drop (i * k) (drop k data))) [0..<n]) = drop k data"
    using Suc.prems by (intro Suc.IH) simp
  moreover have "map (\<lambda>i. take k (drop (i * k) data)) [0..<Suc n] =
      take k data # map (\<lambda>i. take k (drop (i * k) (drop k data))) [0..<n]"
    unfolding upt_conv_Cons [OF zero_less_Suc] map_Suc_upt [symmetric] by (simp add: comp_def add.commute)
  ultimately show ?case by simp
qed simp

section \<open>Over a block device\<close>

context block_device
begin

lemma wblock_spec:
  assumes "vol_ok good nblk s" and "length data = n * 4096" and "b \<noteq> 0" "b + n \<le> nb s"
  obtains d where "sfs_rwblock io data b n True s = Some (0, data, s\<lparr>sfs_dev := d\<rparr>)" and "good d"
    and "nblk d = nblk (sfs_dev s)"
    and "\<And>i. blk d i = (if b \<le> i \<and> i < b + n then take 4096 (drop ((i - b) * 4096) data) else B s i)"
  using assms
proof (induction n arbitrary: b data s thesis)
  case 0
  then show ?case using vol_okD(1) by (intro "0.prems"(1) [of "sfs_dev s"]) auto
next
  case (Suc n)
  let ?b = "take 4096 data"
  have len: "length ?b = SFS_BLKSIZE" using Suc.prems(3) by (simp add: sfs_consts)
  have "b < nb s" using Suc.prems by simp
  from write_block [OF Suc.prems(2) this _ len, of True] Suc.prems(4) obtain s1 where
    w: "sfs_rwblock_nolock io ?b b True True s = Some (0, ?b, s1)" and st: "stored good nblk blk s b ?b s1" by auto
  obtain d1 where s1: "s1 = s\<lparr>sfs_dev := d1\<rparr>" using st by (auto simp: stored_def)
  note v1 = stored_vol [OF st Suc.prems(2)] and sd = storedD [OF st]
  have n1: "nblk (sfs_dev s1) = nblk (sfs_dev s)" using st by (auto simp: stored_def)
  have "length (drop 4096 data) = n * 4096" "b + 1 \<noteq> 0" "b + 1 + n \<le> nb s1" using Suc.prems sd by simp_all
  from Suc.IH [OF _ v1 this] obtain d where
    d: "sfs_rwblock io (drop 4096 data) (b + 1) n True s1 = Some (0, drop 4096 data, s1\<lparr>sfs_dev := d\<rparr>)" "good d"
      "nblk d = nblk (sfs_dev s1)"
      "\<And>i. blk d i = (if b + 1 \<le> i \<and> i < b + 1 + n then take 4096 (drop ((i - (b + 1)) * 4096) (drop 4096 data)) else B s1 i)"
    by blast
  have "blk d i = (if b \<le> i \<and> i < b + Suc n then take 4096 (drop ((i - b) * 4096) data) else B s i)" for i
  proof (cases "i = b")
    case False
    then have "b + 1 \<le> i \<longleftrightarrow> b \<le> i" by auto
    moreover have "b \<le> i \<Longrightarrow> i - b = Suc (i - (b + 1))" using False by simp
    ultimately show ?thesis using d(4) [of i] sd(1) False by (auto simp: add.commute)
  qed (use d(4) [of i] sd(1) in simp)
  then show ?case using w d(1-3) n1 s1 by (intro Suc.prems(1) [of d]) (simp_all add: sfs_consts)
qed

lemma init_freemap_loop_spec:
  assumes "good d" and "length data = n * 4096" and "b + n \<le> nblk d"
  shows "init_freemap_loop io b n data d = Some (0, concat (map (blk d) [b..<b + n]), d)"
  using assms
proof (induction n arbitrary: b data)
  case (Suc n)
  have "length (take SFS_BLKSIZE data) = SFS_BLKSIZE" using Suc.prems by (simp add: sfs_consts)
  then have "sfs_init_read io b (take SFS_BLKSIZE data) d = Some (0, blk d b, d)"
    using read_law [of d b] no_wrap [of d b] Suc.prems by (simp add: sfs_init_read_def)
  moreover have "[b..<b + Suc n] = b # [b + 1..<b + 1 + n]" by (simp add: upt_conv_Cons)
  ultimately show ?case using Suc.IH [of "drop SFS_BLKSIZE data" "b + 1"] Suc.prems by (simp add: sfs_consts)
qed simp

text \<open>The block 0 holds the superblock, and the blocks from 2 on the bitmap.\<close>

lemma do_mount_spec:
  assumes v: "vol_ok good nblk s" and l: "layout_ok s" and h: "5 \<le> length h"
    and b0: "B s 0 = super_image (super s) @ r"
    and fm: "\<And>i. i < sfs_freemap_blocks (super s) \<Longrightarrow> B s (2 + i) = take 4096 (drop (i * 4096) (map_image (bm_map (freemap s))))"
  obtains m where "sfs_do_mount io SFS_BLKSIZE (nblk (sfs_dev s)) h (sfs_dev s) = Some (0, Some m, drop 5 h, sfs_dev s)"
    and "vol m = s\<lparr>super_dirty := False\<rparr>" and "inode_list m = []" and "\<And>k. hash_list m k = []"
    and "own m = take 5 h" and "heap m = drop 5 h"
proof -
  note w = vol_okD [OF v]
  define su where "su = super s"
  define k where "k = sfs_freemap_blocks su"
  have nbits: "sfs_freemap_bits su = k * 1024 * 32" by (simp add: k_def sfs_freemap_bits_def sfs_freemap_blocks_def SFS_BLKBITS_def SFS_BLKSIZE_def)
  have lay: "s_magic su = SFS_MAGIC" "length (s_info su) = 32" "s_info su ! 31 = NUL" "bm_nbits (freemap s) = k * 1024 * 32"
    "bm_nwords (freemap s) = k * 1024" "2 + k \<le> nb s"
    using l nbits by (simp_all add: layout_ok_def su_def [symmetric] k_def [symmetric])
  have kpos: "0 < k" using lay(6) by (simp add: k_def sfs_freemap_blocks_def su_def SFS_BLKBITS_def SFS_BLKSIZE_def div_greater_zero_iff)
  have small_nb: "nb s \<le> 2 ^ 20" using small [OF w(1)] w(2) by simp
  have "card (fr s) \<le> nb s" using card_mono [of "{1..<nb s}" "fr s"] w(5) by simp
  then have su_of: "super_of (B s 0) = su"
    using super_roundtrip [of su r] lay small_nb w(6) b0 by (simp add: su_def SFS_MAGIC_def)
  have read0: "sfs_init_read io SFS_BLKN_SUPER (zeros SFS_BLKSIZE) (sfs_dev s) = Some (0, B s 0, sfs_dev s)"
    using read_law [OF w(1), of 0 "zeros SFS_BLKSIZE"] w(2) lay(6) by (simp add: sfs_init_read_def SFS_BLKN_SUPER_def)
  have create: "bitmap_create True True (sfs_freemap_bits su) = Some (Some \<lparr>bm_nbits = k * 1024 * 32, bm_nwords = k * 1024, bm_map = replicate (k * 1024) 0xFFFFFFFF\<rparr>)"
    unfolding nbits using bitmap_create_whole [of "k * 1024"] kpos by simp
  define ws where "ws = bm_map (freemap s)"
  have lws: "length ws = k * 1024" using w(3) lay(5) by (simp add: bitmap_ok_def ws_def)
  have "map (B s) [2..<2 + k] = map (\<lambda>i. take 4096 (drop (i * 4096) (map_image ws))) [0..<k]"
  proof -
    have "[2..<2 + k] = map (\<lambda>i. i + 2) [0..<k]" by (simp only: map_add_upt add.commute)
    then show ?thesis using fm by (simp add: ws_def k_def su_def add.commute)
  qed
  then have cc: "concat (map (B s) [2..<2 + k]) = map_image ws"
    using concat_blocks [of "map_image ws" k 4096] lws by simp
  define d0 where "d0 = concat (map (\<lambda>w. enc 4 (unat w)) (replicate (k * 1024) (0xFFFFFFFF :: u32)))"
  have "length d0 = k * 4096" using length_map_image [of "replicate (k * 1024) 0xFFFFFFFF"] by (simp add: d0_def map_image_def)
  then have "init_freemap_loop io 2 k d0 (sfs_dev s) = Some (0, map_image ws, sfs_dev s)"
    using init_freemap_loop_spec [OF w(1), of d0 k 2] w(2) lay(6) cc by simp
  then have init: "sfs_init_freemap io \<lparr>bm_nbits = k * 1024 * 32, bm_nwords = k * 1024, bm_map = replicate (k * 1024) 0xFFFFFFFF\<rparr>
      SFS_BLKN_FREEMAP k (sfs_dev s) = Some (0, freemap s, sfs_dev s)"
    using words_roundtrip [of ws] lws lay(4,5)
    by (cases "freemap s") (simp add: sfs_init_freemap_def bitmap_getdata_def SFS_BLKN_FREEMAP_def SFS_BLKSIZE_def d0_def ws_def)
  have "free_bits (freemap s) \<inter> {0..<0 + bm_nbits (freemap s)} = free_bits (freemap s)" by (auto simp: free_bits_def)
  then have cnt: "count_unused (freemap s) 0 (sfs_freemap_bits su) 0 = Some (s_unused_blocks su)"
    using count_unused_spec [OF w(3), of 0 "bm_nbits (freemap s)" 0] w(6) lay(4) nbits by (simp add: su_def)
  obtain x0 x1 x2 x3 x4 h' where hh: "h = x0 # x1 # x2 # x3 # x4 # h'"
    using h by (auto simp: Suc_le_length_iff numeral_eq_Suc)
  have "s_blocks su \<le> nblk (sfs_dev s)" using w(2) by (simp add: su_def)
  with read0 su_of lay(1) create init cnt hh show ?thesis
    by (intro that) (simp add: sfs_do_mount_def k_def [symmetric] Let_def, simp_all add: su_def)
qed

end
section \<open>A volume that is marked dirty or agrees with its disk\<close>

text \<open>The blocks of the superblock and of the map.\<close>

definition meta :: "'d sfs_fs \<Rightarrow> nat set" where
  "meta s = insert 0 {2..<2 + sfs_freemap_blocks (super s)}"

text \<open>The disk holds the superblock and the map that are in memory.\<close>

definition saved :: "('d \<Rightarrow> nat \<Rightarrow> bytes) \<Rightarrow> 'd sfs_fs \<Rightarrow> bool" where
  "saved blk s \<longleftrightarrow> (\<exists>r. blk (sfs_dev s) 0 = super_image (super s) @ r) \<and>
     (\<forall>i < sfs_freemap_blocks (super s).
        blk (sfs_dev s) (2 + i) = take 4096 (drop (i * 4096) (map_image (bm_map (freemap s)))))"

definition volume_inv :: "('d \<Rightarrow> bool) \<Rightarrow> ('d \<Rightarrow> nat) \<Rightarrow> ('d \<Rightarrow> nat \<Rightarrow> bytes) \<Rightarrow> 'd sfs_fs \<Rightarrow> bool" where
  "volume_inv good nblk blk s \<longleftrightarrow> vol_ok good nblk s \<and> layout_ok s \<and> meta s \<inter> fr s = {} \<and>
     (super_dirty s \<or> saved blk s)"

lemma saved_cong:
  assumes "super s' = super s" and "freemap s' = freemap s"
    and "\<And>b. b \<in> meta s \<Longrightarrow> blk (sfs_dev s') b = blk (sfs_dev s) b"
  shows "saved blk s' \<longleftrightarrow> saved blk s"
  using assms by (simp add: saved_def meta_def)

text \<open>It is kept by whatever leaves those blocks alone and marks its changes.\<close>

lemma volume_inv_keep:
  assumes inv: "volume_inv good nblk blk s" and v: "vol_ok good nblk s'" and mk: "marks s s'"
    and free: "meta s \<inter> fr s' = {}"
    and same: "\<And>b. b \<in> meta s \<Longrightarrow> blk (sfs_dev s') b = blk (sfs_dev s) b"
  shows "volume_inv good nblk blk s'"
proof -
  let ?su = "(super s')\<lparr>s_unused_blocks := s_unused_blocks (super s)\<rparr>"
  have "?su = super s" using mk by (simp only: marks_def)
  then have "s_blocks ?su = s_blocks (super s)" "s_magic ?su = s_magic (super s)" "s_info ?su = s_info (super s)"
    by simp_all
  then have f: "s_blocks (super s') = s_blocks (super s)" "s_magic (super s') = s_magic (super s)"
    "s_info (super s') = s_info (super s)" by simp_all
  then have m: "meta s' = meta s" and "layout_ok s'"
    using inv mk by (simp_all add: meta_def volume_inv_def layout_ok_def marks_def sfs_freemap_bits_def sfs_freemap_blocks_def)
  moreover have "super_dirty s' \<or> saved blk s'"
    using mk inv saved_cong [where s = s and s' = s' and blk = blk, OF _ _ same] by (auto simp: marks_def volume_inv_def)
  ultimately show ?thesis using v free by (simp add: volume_inv_def)
qed

section \<open>Writing back\<close>

text \<open>The loaded inode \<open>a\<close> can be written back; its block is none of the superblock and the map.\<close>

definition can_sync :: "'d mount \<Rightarrow> nat \<Rightarrow> bool" where
  "can_sync m a \<longleftrightarrow> ino_at m a \<notin> meta (vol m) \<and> ino_at m a < nb (vol m) \<and> length (di_direct (din (nd_sin (nodes m a)))) = 12 \<and>
     inode_check (nodes m a) = Some ()"

context block_device
begin

lemma sync_inodes_spec:
  assumes "vol_ok good nblk (vol m)" and "\<And>a. can_sync m a \<or> a \<notin> set as"
  obtains m' d where "sync_inodes io as m = Some m'" and "vol m' = (vol m)\<lparr>sfs_dev := d\<rparr>" and "vol_ok good nblk (vol m')"
    and "nblk d = nblk (sfs_dev (vol m))"
    and "inode_list m' = inode_list m" and "\<And>a. a \<in> set as \<Longrightarrow> \<not> sin_dirty (sin_at m' a)"
    and "\<And>a. \<not> sin_dirty (sin_at m a) \<Longrightarrow> \<not> sin_dirty (sin_at m' a)"
    and "\<And>b. b \<in> meta (vol m) \<Longrightarrow> B (vol m') b = B (vol m) b"
  using assms
proof (induction "as" arbitrary: m thesis)
  case Nil
  then show ?case by (intro Nil.prems(1) [of m "sfs_dev (vol m)"]) simp_all
next
  case (Cons a as)
  have a: "can_sync m a" using Cons.prems(3) [of a] by simp
  then have i: "ino_at m a \<noteq> 0" "ino_at m a < nb (vol m)" "length (inode_image (din (sin_at m a))) = 64"
    by (auto simp: can_sync_def meta_def length_inode_image)
  have nm: "ino_at m a \<notin> meta (vol m)" using a by (simp add: can_sync_def)
  obtain s d where f: "sfs_fsync io a m = Some (0, put_sin a ((sin_at m a)\<lparr>sin_dirty := False\<rparr>) s m)"
    and s: "vol_ok good nblk s" "s = (vol m)\<lparr>sfs_dev := d\<rparr>" "nblk d = nblk (sfs_dev (vol m))"
    and sm: "\<And>b. b \<in> meta (vol m) \<Longrightarrow> B s b = B (vol m) b"
  proof (cases "sin_dirty (sin_at m a)")
    case True
    from wbuf_spec [OF Cons.prems(2) i(2,1), of 0 "inode_image (din (sin_at m a))"] i(3) obtain s where
      s: "sfs_wbuf io (inode_image (din (sin_at m a))) (ino_at m a) 0 (vol m) = Some (0, inode_image (din (sin_at m a)), s)"
        "stored good nblk blk (vol m) (ino_at m a) (patch 0 (inode_image (din (sin_at m a))) (B (vol m) (ino_at m a))) s"
      by auto
    then obtain d where "s = (vol m)\<lparr>sfs_dev := d\<rparr>" "nblk d = nblk (sfs_dev (vol m))" by (auto simp: stored_def)
    moreover have "B s b = B (vol m) b" if "b \<in> meta (vol m)" for b
      using storedD(1) [OF s(2)] that nm by auto
    ultimately show ?thesis using that [of s d] True s stored_vol [OF s(2) Cons.prems(2)]
      by (simp add: sfs_fsync_def Let_def)
  next
    case False
    then have e: "(sin_at m a)\<lparr>sin_dirty := False\<rparr> = sin_at m a" by (cases "sin_at m a") simp
    with that [of "vol m" "sfs_dev (vol m)"] False Cons.prems(2) show ?thesis by (simp add: sfs_fsync_def)
  qed
  define m1 where "m1 = put_sin a ((sin_at m a)\<lparr>sin_dirty := False\<rparr>) s m"
  have m1: "vol m1 = s" "inode_list m1 = inode_list m" "nodes m1 = (nodes m)(a := (nodes m a)\<lparr>nd_sin := (sin_at m a)\<lparr>sin_dirty := False\<rparr>\<rparr>)"
    by (simp_all add: m1_def put_sin_def)
  have "can_sync m1 c \<or> c \<notin> set as" for c
    using Cons.prems(3) [of c] by (auto simp: can_sync_def meta_def m1 s(2) inode_check_def split: if_splits)
  from Cons.IH [OF _ _ this] s(1) obtain m' d' where
    m': "sync_inodes io as m1 = Some m'" "vol m' = (vol m1)\<lparr>sfs_dev := d'\<rparr>" "vol_ok good nblk (vol m')"
      "nblk d' = nblk (sfs_dev (vol m1))" "inode_list m' = inode_list m1"
      "\<And>c. c \<in> set as \<Longrightarrow> \<not> sin_dirty (sin_at m' c)" "\<And>c. \<not> sin_dirty (sin_at m1 c) \<Longrightarrow> \<not> sin_dirty (sin_at m' c)"
      "\<And>b. b \<in> meta (vol m1) \<Longrightarrow> B (vol m') b = B (vol m1) b"
    unfolding m1(1) by metis
  have "B (vol m') b = B (vol m) b" if "b \<in> meta (vol m)" for b
    using m'(8) [of b] sm [OF that] that s(2) by (simp add: m1 meta_def)
  moreover have "sync_inodes io (a # as) m = Some m'"
    using f m'(1) a by (simp add: vop_fsync_def can_sync_def m1_def)
  ultimately show ?case
    using m'(2-7) m1 s by (intro Cons.prems(1) [of m' d']) (auto split: if_splits)
qed

lemma sync_spec:
  assumes inv: "volume_inv good nblk blk (vol m)"
    and c: "\<And>a. can_sync m a \<or> a \<notin> set (inode_list m)"
  obtains m' r where "sfs_sync io m = Some (0, m')" and "vol_ok good nblk (vol m')" and "layout_ok (vol m')"
    and "super (vol m') = super (vol m)" and "freemap (vol m') = freemap (vol m)" and "\<not> super_dirty (vol m')"
    and "nblk (sfs_dev (vol m')) = nblk (sfs_dev (vol m))" and "inode_list m' = inode_list m"
    and "\<And>a. a \<in> set (inode_list m) \<Longrightarrow> \<not> sin_dirty (sin_at m' a)"
    and "B (vol m') 0 = super_image (super (vol m)) @ r"
    and "\<And>i. i < sfs_freemap_blocks (super (vol m)) \<Longrightarrow>
      B (vol m') (2 + i) = take 4096 (drop (i * 4096) (map_image (bm_map (freemap (vol m)))))"
proof -
  have v: "vol_ok good nblk (vol m)" and l: "layout_ok (vol m)" using inv by (simp_all add: volume_inv_def)
  obtain m1 d1 where m1: "sync_inodes io (inode_list m) m = Some m1" "vol m1 = (vol m)\<lparr>sfs_dev := d1\<rparr>"
    "vol_ok good nblk (vol m1)" "nblk d1 = nblk (sfs_dev (vol m))" "inode_list m1 = inode_list m"
    "\<And>a. a \<in> set (inode_list m) \<Longrightarrow> \<not> sin_dirty (sin_at m1 a)"
    "\<And>b. b \<in> meta (vol m) \<Longrightarrow> B (vol m1) b = B (vol m) b"
    by (rule sync_inodes_spec [OF v c]) blast
  show ?thesis
  proof (cases "super_dirty (vol m)")
    case False
    then have "saved blk (vol m)" using inv by (simp add: volume_inv_def)
    then have "saved blk (vol m1)" using saved_cong [where s = "vol m" and s' = "vol m1" and blk = blk, OF _ _ m1(7)] m1(2) by simp
    then obtain r where r: "B (vol m1) 0 = super_image (super (vol m)) @ r"
      "\<And>i. i < sfs_freemap_blocks (super (vol m)) \<Longrightarrow>
        B (vol m1) (2 + i) = take 4096 (drop (i * 4096) (map_image (bm_map (freemap (vol m)))))"
      using m1(2) by (auto simp: saved_def)
    have "sfs_sync io m = Some (0, m1)" using m1(1,2) False by (simp add: sfs_sync_def)
    then show ?thesis using that [of m1 r] m1 False l r by (simp add: layout_ok_def)
  next
    case d: True
  define s where "s = (vol m1)\<lparr>super_dirty := False\<rparr>"
  define k where "k = sfs_freemap_blocks (super s)"
  have vs: "vol_ok good nblk s" "layout_ok s" "super s = super (vol m)" "freemap s = freemap (vol m)"
    "nblk (sfs_dev s) = nblk (sfs_dev (vol m))"
    using m1(2-4) l by (simp_all add: s_def vol_ok_def layout_ok_def)
  have lay: "length (super_image (super s)) = 44" "2 + k \<le> nb s"
    "length (map_image (bm_map (freemap s))) = k * 4096"
    using vs(1,2) by (simp_all add: layout_ok_def vol_ok_def bitmap_ok_def super_image_def k_def sfs_freemap_bits_def
        sfs_freemap_blocks_def SFS_BLKBITS_def SFS_BLKSIZE_def)
  let ?i0 = "super_image (super s) @ zeros (SFS_BLKSIZE - length (super_image (super s)))"
  have "length ?i0 = SFS_BLKSIZE" "0 < nb s" using lay by (simp_all add: SFS_BLKSIZE_def)
  then obtain s1 where w0: "sfs_rwblock_nolock io ?i0 0 True False s = Some (0, ?i0, s1)" and st: "stored good nblk blk s 0 ?i0 s1"
    using write_block [OF vs(1), of 0 False ?i0] by auto
  note v1 = stored_vol [OF st vs(1)] and sd = storedD [OF st]
  obtain d2 where d2: "s1 = s\<lparr>sfs_dev := d2\<rparr>" "nblk d2 = nblk (sfs_dev s)" using st by (auto simp: stored_def)
  have "2 + k \<le> nb s1" using lay(2) sd by simp
  from wblock_spec [OF v1 lay(3), of 2] this obtain d3 where
    w2: "sfs_rwblock io (map_image (bm_map (freemap s))) 2 k True s1 =
        Some (0, map_image (bm_map (freemap s)), s1\<lparr>sfs_dev := d3\<rparr>)" "good d3" "nblk d3 = nblk (sfs_dev s1)"
      "\<And>i. blk d3 i = (if 2 \<le> i \<and> i < 2 + k then take 4096 (drop ((i - 2) * 4096) (map_image (bm_map (freemap s)))) else B s1 i)"
    by auto
  define m' where "m' = m1\<lparr>vol := s1\<lparr>sfs_dev := d3\<rparr>\<rparr>"
  have ss: "sfs_sync_super io s = Some (0, s1)"
    using w0 by (simp add: sfs_sync_super_def super_image_def SFS_BLKN_SUPER_def Let_def)
  have sf: "sfs_sync_freemap io s1 = Some (0, s1\<lparr>sfs_dev := d3\<rparr>)"
    using w2(1) sd(2,3)
    by (simp add: sfs_sync_freemap_def sfs_wblock_def SFS_BLKN_FREEMAP_def k_def bitmap_getdata_def map_image_def)
  have "sfs_sync io m = Some (0, m')"
    using m1(1) d ss sf by (simp add: sfs_sync_def s_def m1(2) m'_def)
  moreover have "B (vol m') 0 = super_image (super s) @ zeros (SFS_BLKSIZE - length (super_image (super s)))"
    using w2(4) [of 0] sd(1) by (simp add: m'_def)
  moreover have "B (vol m') (2 + i) = take 4096 (drop (i * 4096) (map_image (bm_map (freemap s))))" if "i < k" for i
    using w2(4) [of "2 + i"] that by (simp add: m'_def)
  ultimately show ?thesis
    using that [of m' "zeros (SFS_BLKSIZE - length (super_image (super s)))"] vs m1(5,6) w2(2,3) d2 v1
    by (simp add: m'_def k_def s_def vol_ok_def layout_ok_def)
  qed
qed

end

end
