(* ===== verification/Disk0.thy ===== *)
theory Disk0
  imports Sfs_Trunc Sfs_Remount
begin

text \<open>
  The disk of the file system: \<^verbatim>\<open>kern/fs/devs/dev_disk0.c\<close> over the functions of
  \<^verbatim>\<open>kern/driver/ide.c\<close> and \<^verbatim>\<open>kern/driver/ramdisk.c\<close>. The theory Swap has the
  latter on addresses of the kernel's memory; here the RAM disk is the list of the bytes of its
  area and the buffers are lists of bytes, as the file system sees them. \<^verbatim>\<open>disk0_buffer\<close> is
  filled before each use, up to the end of the disk, and no transfer passes that, so its former
  contents are given as zeros. The semaphore around the loop of \<^verbatim>\<open>disk0_io\<close> is left out. What the file system needs of the disk, and what reading,
  writing and resizing do to the contents of a file on it, is at the end.
\<close>

section \<open>Sectors\<close>

record disk0 =
  ram :: bytes
  ram_valid :: bool
  ram_size :: nat
  d_blocks :: nat

definition SECT :: nat where "SECT = 512"
definition DISK0_BLKSIZE :: nat where "DISK0_BLKSIZE = 4096"
definition DISK0_BUFSIZE :: nat where "DISK0_BUFSIZE = 4 * DISK0_BLKSIZE"
definition DISK0_BLK_NSECT :: nat where "DISK0_BLK_NSECT = DISK0_BLKSIZE div SECT"

text \<open>
  \<^verbatim>\<open>nsecs = MIN(nsecs, dev->size - secno)\<close>, where the subtraction is on 64 bits; the assertions
  of \<^verbatim>\<open>ide_read_secs\<close> and \<^verbatim>\<open>ide_write_secs\<close> come first.
\<close>

definition secs_moved :: "disk0 \<Rightarrow> nat \<Rightarrow> nat \<Rightarrow> nat" where
  "secs_moved d secno nsecs =
     min nsecs (if secno \<le> ram_size d then ram_size d - secno else 2 ^ 64 - (secno - ram_size d))"

definition ide_check :: "disk0 \<Rightarrow> nat \<Rightarrow> nat \<Rightarrow> unit option" where
  "ide_check d secno nsecs = do {
     kassert (nsecs \<le> 128 \<and> ram_valid d);
     kassert (secno < 0x10000000 \<and> secno + nsecs \<le> 0x10000000) }"

text \<open>The bytes that are then in \<^verbatim>\<open>disk0_buffer\<close>.\<close>

definition disk0_read_blks_nolock :: "nat \<Rightarrow> nat \<Rightarrow> disk0 \<Rightarrow> bytes option" where
  "disk0_read_blks_nolock blkno nblks d = do {
     let sectno = blkno * DISK0_BLK_NSECT mod 2 ^ 32;
     let nsecs = nblks * DISK0_BLK_NSECT mod 2 ^ 32;
     ide_check d sectno nsecs;
     let n = secs_moved d sectno nsecs * SECT;
     Some (take n (drop (sectno * SECT) (ram d)) @ zeros (DISK0_BUFSIZE - n)) }"

definition disk0_write_blks_nolock :: "nat \<Rightarrow> nat \<Rightarrow> bytes \<Rightarrow> disk0 \<Rightarrow> disk0 option" where
  "disk0_write_blks_nolock blkno nblks buffer d = do {
     let sectno = blkno * DISK0_BLK_NSECT mod 2 ^ 32;
     let nsecs = nblks * DISK0_BLK_NSECT mod 2 ^ 32;
     ide_check d sectno nsecs;
     let n = secs_moved d sectno nsecs * SECT;
     Some (d\<lparr>ram := take (sectno * SECT) (ram d) @ take n buffer @ drop (sectno * SECT + n) (ram d)\<rparr>) }"

section \<open>Transfers\<close>

text \<open>
  The loop of \<^verbatim>\<open>disk0_io\<close>; \<open>buf\<close> is what is left of the buffer, and the result what becomes of
  it. A failed assertion on \<open>copied\<close> ends the loop, so each round shortens the rest.
\<close>

function disk0_loop :: "bool \<Rightarrow> nat \<Rightarrow> bytes \<Rightarrow> disk0 \<Rightarrow> (bytes \<times> disk0) option" where
  "disk0_loop write blkno buf d =
     (if buf = [] then Some ([], d)
      else if write then do {
        let copied = min (length buf) DISK0_BUFSIZE;
        let buffer = take copied buf @ zeros (DISK0_BUFSIZE - copied);
        kassert (copied \<noteq> 0 \<and> copied \<le> length buf \<and> copied mod DISK0_BLKSIZE = 0);
        let nblks = copied div DISK0_BLKSIZE;
        d \<leftarrow> disk0_write_blks_nolock blkno nblks buffer d;
        (rest, d) \<leftarrow> disk0_loop write (blkno + nblks) (drop (min (length buf) DISK0_BUFSIZE) buf) d;
        Some (take copied buf @ rest, d) }
      else do {
        let alen = min DISK0_BUFSIZE (length buf);
        let nblks = alen div DISK0_BLKSIZE;
        buffer \<leftarrow> disk0_read_blks_nolock blkno nblks d;
        kassert (alen mod DISK0_BLKSIZE = 0);
        (rest, d) \<leftarrow> disk0_loop write (blkno + nblks) (drop (min DISK0_BUFSIZE (length buf)) buf) d;
        Some (take alen buffer @ rest, d) })"
  by pat_completeness auto
termination
  by (relation "measure (\<lambda>(write, blkno, buf, d). length buf)")
    (auto simp: DISK0_BUFSIZE_def DISK0_BLKSIZE_def)

declare disk0_loop.simps [simp del]

definition disk0_io :: "disk0 dev_io" where
  "disk0_io offset buf write d = (
     let blkno = offset div DISK0_BLKSIZE mod 2 ^ 32;
         nblks = length buf div DISK0_BLKSIZE mod 2 ^ 32
     in if offset mod DISK0_BLKSIZE \<noteq> 0 \<or> length buf mod DISK0_BLKSIZE \<noteq> 0 then Some (- E_INVAL, buf, d)
        else if (blkno + nblks) mod 2 ^ 32 > d_blocks d then Some (- E_INVAL, buf, d)
        else if nblks = 0 then Some (0, buf, d)
        else do { (buf, d) \<leftarrow> disk0_loop write blkno buf d; Some (0, buf, d) })"

definition disk0_open :: "nat \<Rightarrow> int" where "disk0_open open_flags = 0"
definition disk0_close :: "int" where "disk0_close = 0"
definition disk0_ioctl :: "int \<Rightarrow> int" where "disk0_ioctl op = - E_UNIMP"

text \<open>\<open>mem\<close> is whether \<^verbatim>\<open>kmalloc\<close> has the memory for the buffer.\<close>

definition disk0_device_init :: "bool \<Rightarrow> disk0 \<Rightarrow> disk0 option" where
  "disk0_device_init mem d = do {
     kassert (ram_valid d);
     let d = d\<lparr>d_blocks := (if ram_valid d then ram_size d else 0) div DISK0_BLK_NSECT\<rparr>;
     kassert mem;
     Some d }"

section \<open>The disk is a block device\<close>

definition disk0_good :: "disk0 \<Rightarrow> bool" where
  "disk0_good d \<longleftrightarrow> ram_valid d \<and> length (ram d) = ram_size d * 512 \<and> ram_size d \<le> 2 ^ 23 \<and>
     d_blocks d = ram_size d div 8"

definition disk0_blk :: "disk0 \<Rightarrow> nat \<Rightarrow> bytes" where
  "disk0_blk d b = take 4096 (drop (b * 4096) (ram d))"

lemmas disk0_consts = SECT_def DISK0_BLKSIZE_def DISK0_BUFSIZE_def DISK0_BLK_NSECT_def

text \<open>The size of an image is an \<^verbatim>\<open>unsigned int\<close>, so the device is always small enough.\<close>

lemma device_init_good:
  "ram_valid d \<Longrightarrow> length (ram d) = ram_size d * 512 \<Longrightarrow> ram_size d \<le> 2 ^ 23 \<Longrightarrow>
    \<exists>d'. disk0_device_init True d = Some d' \<and> disk0_good d'"
  by (simp add: disk0_device_init_def disk0_good_def disk0_consts Let_def)

lemma block_sectors:
  assumes "disk0_good d" and "b < d_blocks d"
  shows "b * 8 mod 2 ^ 32 = b * 8" "ide_check d (b * 8) 8 = Some ()" "secs_moved d (b * 8) 8 = 8"
    "b * 4096 + 4096 \<le> length (ram d)" "b < 2 ^ 20"
proof -
  have b: "b * 8 + 8 \<le> ram_size d" using assms by (simp add: disk0_good_def)
  then show "b * 8 mod 2 ^ 32 = b * 8" "ide_check d (b * 8) 8 = Some ()" "secs_moved d (b * 8) 8 = 8"
    "b * 4096 + 4096 \<le> length (ram d)" "b < 2 ^ 20"
    using assms by (simp_all add: disk0_good_def ide_check_def secs_moved_def)
qed

lemma disk0_one_block:
  assumes "disk0_good d" and "b < d_blocks d" and "length buf = 4096"
  shows "disk0_io (b * 4096) buf write d = disk0_loop write b buf d \<bind> (\<lambda>(buf, d). Some (0, buf, d))"
  using assms block_sectors [OF assms(1,2)] by (simp add: disk0_io_def disk0_consts Let_def disk0_good_def)

lemma loop_read_one:
  assumes "disk0_good d" and "b < d_blocks d" and "length buf = 4096"
  shows "disk0_loop False b buf d = Some (disk0_blk d b, d)"
proof -
  note s = block_sectors [OF assms(1,2)]
  have "disk0_read_blks_nolock b 1 d = Some (disk0_blk d b @ zeros 12288)"
    using s by (simp add: disk0_read_blks_nolock_def disk0_consts Let_def disk0_blk_def mult.commute [of b 4096])
  moreover have "length (disk0_blk d b) = 4096" using s(4) by (simp add: disk0_blk_def)
  ultimately show ?thesis
    using assms(3) by (subst disk0_loop.simps, subst disk0_loop.simps) (auto simp: disk0_consts Let_def)
qed

lemma loop_write_one:
  assumes "disk0_good d" and "b < d_blocks d" and "length buf = 4096"
  shows "disk0_loop True b buf d = Some (buf, d\<lparr>ram := patch (b * 4096) buf (ram d)\<rparr>)"
proof -
  note s = block_sectors [OF assms(1,2)]
  have "disk0_write_blks_nolock b 1 (buf @ zeros 12288) d = Some (d\<lparr>ram := patch (b * 4096) buf (ram d)\<rparr>)"
    using s assms(3)
    by (simp add: disk0_write_blks_nolock_def disk0_consts Let_def patch_def zeros_def mult.commute [of b 4096])
  then show ?thesis
    using assms(3) by (subst disk0_loop.simps, subst disk0_loop.simps) (auto simp: disk0_consts Let_def)
qed

lemma blk_patch:
  assumes "b * 4096 + 4096 \<le> length r" and "length buf = 4096"
  shows "take 4096 (drop (c * 4096) (patch (b * 4096) buf r)) = (if c = b then buf else take 4096 (drop (c * 4096) r))"
proof (cases "c = b")
  case True
  then show ?thesis using slice_patch_same [of "b * 4096" buf r] assms by simp
next
  case False
  then have apart: "c * 4096 + 4096 \<le> b * 4096 \<or> b * 4096 + 4096 \<le> c * 4096" by (cases "c < b") auto
  show ?thesis
  proof (rule nth_equalityI)
    fix k assume "k < length (take 4096 (drop (c * 4096) (patch (b * 4096) buf r)))"
    then show "take 4096 (drop (c * 4096) (patch (b * 4096) buf r)) ! k =
        (if c = b then buf else take 4096 (drop (c * 4096) r)) ! k"
      using apart assms False by (auto simp: nth_patch)
  qed (use assms False in simp)
qed

interpretation disk0: block_device disk0_io disk0_good d_blocks disk0_blk
proof
  fix d :: disk0 and b and buf :: bytes
  assume g: "disk0_good d" and b: "b < d_blocks d"
  note s = block_sectors [OF g b]
  show "length (disk0_blk d b) = SFS_BLKSIZE" using s(4) by (simp add: disk0_blk_def sfs_consts)
  assume len: "length buf = SFS_BLKSIZE"
  then have len': "length buf = 4096" by (simp add: sfs_consts)
  show "disk0_io (b * SFS_BLKSIZE) buf False d = Some (0, disk0_blk d b, d)"
    using disk0_one_block [OF g b len'] loop_read_one [OF g b len'] by (simp add: sfs_consts)
  have "disk0_blk (d\<lparr>ram := patch (b * 4096) buf (ram d)\<rparr>) = (disk0_blk d)(b := buf)"
    using blk_patch [OF s(4) len'] by (auto simp: disk0_blk_def)
  then show "\<exists>d'. disk0_io (b * SFS_BLKSIZE) buf True d = Some (0, buf, d') \<and> disk0_good d' \<and>
      d_blocks d' = d_blocks d \<and> disk0_blk d' = (disk0_blk d)(b := buf)"
    using disk0_one_block [OF g b len'] loop_write_one [OF g b len'] g s(4) len'
    by (intro exI [of _ "d\<lparr>ram := patch (b * 4096) buf (ram d)\<rparr>"]) (simp add: sfs_consts disk0_good_def)
next
  fix d :: disk0
  assume "disk0_good d"
  then have "d_blocks d = ram_size d div 8" "ram_size d \<le> 2 ^ 23" by (simp_all add: disk0_good_def)
  then show "d_blocks d \<le> 2 ^ 20" using div_le_mono [of "ram_size d" "2 ^ 23" 8] by simp
qed
section \<open>Files on the disk\<close>

abbreviation file_on_disk :: "disk0 sfs_fs \<Rightarrow> sfs_disk_inode \<Rightarrow> bool" where
  "file_on_disk \<equiv> whole disk0_good d_blocks disk0_blk"

abbreviation contents :: "disk0 sfs_fs \<Rightarrow> sfs_disk_inode \<Rightarrow> bytes" where
  "contents \<equiv> fdata disk0_blk"

definition others_keep :: "disk0 sfs_fs \<Rightarrow> sfs_disk_inode \<Rightarrow> disk0 sfs_fs \<Rightarrow> sfs_disk_inode \<Rightarrow> bool" where
  "others_keep s d s' d' \<longleftrightarrow> (\<forall>e. file_on_disk s e \<and> apart disk0_blk s d e \<longrightarrow>
     file_on_disk s' e \<and> contents s' e = contents s e \<and> apart disk0_blk s' d' e)"

lemma others_keepI:
  "evolves disk0_blk s d s' d' \<Longrightarrow> file_inv disk0_good d_blocks disk0_blk s' d' \<Longrightarrow> others_keep s d s' d'"
  using disk0.others_kept by (simp add: others_keep_def)

text \<open>
  C6. Writing at a position inside a file or at its end, up to the 1036 blocks a file can have (the
  code fails an assertion beyond either), replaces the bytes from there on and tells how many. It
  writes as many of them as the volume has blocks for: all, or up to the end of a block such that
  the volume had no blocks for a file one block longer; in particular all when there is room for
  the whole range. The file stays well formed, and the other files of the volume keep their
  contents.
\<close>

theorem sfs_write_contents:
  assumes "file_on_disk s (din sin)" and "di_type (din sin) \<noteq> SFS_TYPE_DIR"
    and "off \<le> di_size (din sin)" and "off + length buf \<le> 1036 * 4096"
  shows "\<exists>m sin' s'. sfs_io_nolock disk0_io sin buf (int off) True s =
      Some (if m = length buf then 0 else - E_NO_MEM, m, buf, sin', s') \<and> m \<le> length buf \<and>
    file_on_disk s' (din sin') \<and>
    contents s' (din sin') = take off (contents s (din sin)) @ take m buf @ drop (off + m) (contents s (din sin)) \<and>
    (m < length buf \<longrightarrow> off + m = di_blocks (din sin') * 4096 \<and>
       \<not> room s (din sin) (di_blocks (din sin') + 1)) \<and>
    (room s (din sin) ((off + length buf + 4095) div 4096) \<longrightarrow> m = length buf) \<and>
    others_keep s (din sin) s' (din sin')"
proof -
  obtain m sin' s' where a: "m \<le> length buf"
    "sfs_io_nolock disk0_io sin buf (int off) True s = Some (if m = length buf then 0 else - E_NO_MEM, m, buf, sin', s')"
    "file_on_disk s' (din sin')" "evolves disk0_blk s (din sin) s' (din sin')"
    "contents s' (din sin') = take off (contents s (din sin)) @ take m buf @ drop (off + m) (contents s (din sin))"
    "m < length buf \<Longrightarrow>
      off + m = di_blocks (din sin') * 4096 \<and> \<not> room s (din sin) (Suc (di_blocks (din sin')))"
    by (rule disk0.sfs_write_spec [OF assms]) blast
  have "m = length buf" if "room s (din sin) ((off + length buf + 4095) div 4096)"
  proof (rule ccontr)
    assume "m \<noteq> length buf"
    with a(1) have l: "m < length buf" by simp
    then have "Suc (di_blocks (din sin')) \<le> (off + length buf + 4095) div 4096"
      using a(6) by linarith
    with room_mono [OF that] a(6) l show False by blast
  qed
  with a others_keepI [OF a(4)] show ?thesis by (auto simp: whole_def)
qed

text \<open>
  C7. Reading gives the bytes of the file from the position on, up to its end, leaves the rest of the
  buffer alone, and changes nothing.
\<close>

theorem sfs_read_contents:
  assumes "file_on_disk s (din sin)" and "di_type (din sin) \<noteq> SFS_TYPE_DIR"
    and "off < SFS_MAX_FILE_SIZE" and "length buf < 2 ^ 62"
  shows "sfs_io_nolock disk0_io sin buf (int off) False s =
    (let n = min (length buf) (di_size (din sin) - off)
     in Some (0, n, take n (drop off (contents s (din sin))) @ drop n buf, sin, s))"
  using disk0.sfs_read_spec [OF assms] by (simp add: Let_def)

text \<open>
  C8. Resizing keeps the bytes up to the shorter of the two sizes and gives back the blocks it does
  not need; what it adds in new blocks is zero. When the volume has no blocks for it, the contents
  stay as they are and the error is returned.
\<close>

theorem sfs_truncate_contents:
  assumes "file_on_disk s (din sin)" and "len \<le> 1036 * 4096"
  shows "\<exists>ret sin' s'. sfs_truncfile disk0_io sin (int len) s = Some (ret, sin', s') \<and>
    others_keep s (din sin) s' (din sin') \<and>
    (if ret = 0 then
       file_on_disk s' (din sin') \<and> di_size (din sin') = len \<and>
       take (di_size (din sin)) (contents s' (din sin')) = take len (contents s (din sin)) \<and>
       (\<forall>k < len. di_blocks (din sin) * 4096 \<le> k \<longrightarrow> contents s' (din sin') ! k = NUL) \<and>
       ((len + 4095) div 4096 \<le> di_blocks (din sin) \<longrightarrow>
         card (fr s') = card (fr s) + (di_blocks (din sin) - (len + 4095) div 4096))
     else
       ret = - E_NO_MEM \<and> contents s' (din sin') = contents s (din sin) \<and>
       di_blocks (din sin) < (len + 4095) div 4096 \<and> \<not> room s (din sin) ((len + 4095) div 4096))"
  using assms
proof (cases rule: disk0.truncfile_spec)
  case (ok sin' s')
  have byte: "contents s' (din sin') ! k =
      (if k < di_blocks (din sin) * 4096 then fbyte (disk0_blk (sfs_dev s)) (din sin) k else NUL)" if "k < len" for k
    using ok(4,5) that by (simp add: nth_fdata)
  have "take (di_size (din sin)) (contents s' (din sin')) = take len (contents s (din sin))"
    using byte whole_size [OF assms(1)] ok(4) by (intro nth_equalityI) (auto simp: nth_fdata)
  moreover have "others_keep s (din sin) s' (din sin')" using others_keepI [OF ok(3)] ok(2) by (simp add: whole_def)
  ultimately show ?thesis
    by - (rule exI [of _ 0], rule exI [of _ sin'], rule exI [of _ s'], use ok byte in simp)
next
  case (full sin' s')
  have "others_keep s (din sin) s' (din sin')" using others_keepI [OF full(3,2)] .
  with full show ?thesis
    by - (rule exI [of _ "- E_NO_MEM"], rule exI [of _ sin'], rule exI [of _ s'], simp add: E_NO_MEM_def)
qed

section \<open>An empty file on a small disk\<close>

definition tiny_disk :: disk0 where
  "tiny_disk = \<lparr>ram = zeros (64 * 512), ram_valid = True, ram_size = 64, d_blocks = 8\<rparr>"

definition tiny_fs :: "disk0 sfs_fs" where
  "tiny_fs = \<lparr>super = \<lparr>s_magic = SFS_MAGIC, s_blocks = 8, s_unused_blocks = 5, s_info = zeros 32\<rparr>, sfs_dev = tiny_disk,
     freemap = \<lparr>bm_nbits = 32, bm_nwords = 1, bm_map = [0xF8]\<rparr>, super_dirty = False\<rparr>"

definition tiny_inode :: sfs_inode where
  "tiny_inode = \<lparr>din = \<lparr>di_size = 0, di_type = SFS_TYPE_FILE, di_nlinks = 1, di_blocks = 0,
     di_direct = replicate 12 0, di_indirect = 0\<rparr>, sin_ino = 2, sin_dirty = False, reclaim_count = 1\<rparr>"

lemma tiny_free: "fr tiny_fs = {3, 4, 5, 6, 7}"
proof -
  have e: "bit (0xF8 :: u32) i \<longleftrightarrow> i \<in> {3, 4, 5, 6, 7}" for i
    by (auto simp: bit_numeral_rec bit_1_iff split: nat.splits)
  have "i < 32 \<and> bit (0xF8 :: u32) i \<longleftrightarrow> i \<in> {3, 4, 5, 6, 7}" for i unfolding e by auto
  then show ?thesis
    by (intro set_eqI) (simp only: free_bits_def tiny_fs_def sfs_fs.simps bitmap.simps mem_Collect_eq WORD_BITS_simp, simp cong: conj_cong)
qed

lemma tiny_on_disk: "file_on_disk tiny_fs (din tiny_inode)"
proof -
  have "vol_ok disk0_good d_blocks tiny_fs"
    unfolding vol_ok_def tiny_free by (simp add: tiny_fs_def tiny_disk_def disk0_good_def bitmap_ok_def)
  moreover have "file_ok B (fr tiny_fs) (nb tiny_fs) (din tiny_inode)" for B
    by (simp add: file_ok_def tiny_inode_def ptr_def nth_replicate)
  ultimately show ?thesis by (simp add: whole_def file_inv_def) (simp add: tiny_inode_def)
qed

lemma tiny_room: "room tiny_fs (din tiny_inode) 1"
  unfolding room_def tiny_free by (simp add: tiny_inode_def)

lemma tiny_type: "di_type (din tiny_inode) \<noteq> SFS_TYPE_DIR" "di_size (din tiny_inode) = 0"
  by (simp_all add: tiny_inode_def SFS_TYPE_FILE_def SFS_TYPE_DIR_def)

theorem sfs_write_contents_witness:
  "\<exists>sin' s'. sfs_io_nolock disk0_io tiny_inode ''hello'' 0 True tiny_fs = Some (0, 5, ''hello'', sin', s') \<and>
     contents s' (din sin') = ''hello''"
  using sfs_write_contents [OF tiny_on_disk tiny_type(1), of 0 "''hello''"] tiny_room tiny_type(2) by auto

theorem sfs_read_contents_witness:
  "sfs_io_nolock disk0_io tiny_inode ''abc'' (int 0) False tiny_fs = Some (0, 0, ''abc'', tiny_inode, tiny_fs)"
  using sfs_read_contents [OF tiny_on_disk tiny_type(1), of 0 "''abc''"] tiny_type(2)
  by (simp add: SFS_MAX_FILE_SIZE_def fdata_def fbytes_def)

theorem sfs_truncate_contents_witness:
  "\<exists>sin' s'. sfs_truncfile disk0_io tiny_inode (int 3) tiny_fs = Some (0, sin', s') \<and>
     contents s' (din sin') = [NUL, NUL, NUL]"
proof -
  obtain sin' s' where a: "sfs_truncfile disk0_io tiny_inode (int 3) tiny_fs = Some (0, sin', s')"
    "di_size (din sin') = 3" "\<forall>k < 3. contents s' (din sin') ! k = NUL"
    using sfs_truncate_contents [OF tiny_on_disk, of 3] tiny_room
    by (auto split: if_splits) (simp_all add: tiny_inode_def)
  have "contents s' (din sin') = [NUL, NUL, NUL]"
    by (rule nth_equalityI) (use a(2,3) in \<open>auto simp: less_Suc_eq numeral_3_eq_3 nth_Cons'\<close>)
  with a(1) show ?thesis by blast
qed

end
