(* ===== verification/Sfs_Volume.thy ===== *)
theory Sfs_Volume
  imports Disk0
begin

text \<open>
  The table of inodes, directories and mounting on the disk of the kernel, with a small volume as
  the example.
\<close>

section \<open>What changes a volume in memory and on the disk\<close>

text \<open>
  Allocating and freeing blocks, writing a block, and writing and resizing a file, with any result;
  what is freed or written, and the files, are none of the blocks of the superblock and the map.
\<close>

inductive vol_step :: "disk0 sfs_fs \<Rightarrow> disk0 sfs_fs \<Rightarrow> bool" where
  alloc: "sfs_block_alloc disk0_io s = Some (r, b, s') \<Longrightarrow> vol_step s s'"
| free: "b \<notin> meta s \<Longrightarrow> sfs_block_free b s = Some s' \<Longrightarrow> vol_step s s'"
| block: "b \<notin> meta s \<Longrightarrow> length buf = SFS_BLKSIZE \<Longrightarrow>
    sfs_rwblock_nolock disk0_io buf b True True s = Some (r, buf', s') \<Longrightarrow> vol_step s s'"
| file_write: "file_on_disk s (din sin) \<Longrightarrow> owned (disk0_blk (sfs_dev s)) (din sin) \<inter> meta s = {} \<Longrightarrow>
    off \<le> di_size (din sin) \<Longrightarrow> off + length buf \<le> 1036 * 4096 \<Longrightarrow>
    sfs_io_nolock disk0_io sin buf (int off) True s = Some (r, n, buf', sin', s') \<Longrightarrow> vol_step s s'"
| resize: "file_on_disk s (din sin) \<Longrightarrow> owned (disk0_blk (sfs_dev s)) (din sin) \<inter> meta s = {} \<Longrightarrow>
    len \<le> 1036 * 4096 \<Longrightarrow> sfs_truncfile disk0_io sin (int len) s = Some (r, sin', s') \<Longrightarrow> vol_step s s'"

abbreviation volume_ok :: "disk0 sfs_fs \<Rightarrow> bool" where
  "volume_ok \<equiv> volume_inv disk0_good d_blocks disk0_blk"

lemma volume_evolves:
  assumes inv: "volume_ok s" and v: "vol_ok disk0_good d_blocks s'" and mk: "marks s s'"
    and ev: "evolves disk0_blk s d s' d'" and own: "owned (disk0_blk (sfs_dev s)) d \<inter> meta s = {}"
  shows "volume_ok s'"
proof (rule volume_inv_keep [OF inv v mk])
  have fr: "meta s \<inter> fr s = {}" using inv by (simp add: volume_inv_def)
  show "meta s \<inter> fr s' = {}" using ev own fr unfolding evolves_def by blast
  show "disk0_blk (sfs_dev s') b = disk0_blk (sfs_dev s) b" if "b \<in> meta s" for b
    using ev own fr that unfolding evolves_def by blast
qed

lemma vol_step_inv:
  assumes "vol_step s s'" and inv: "volume_ok s"
  shows "volume_ok s'"
proof -
  have v: "vol_ok disk0_good d_blocks s" and fr: "meta s \<inter> fr s = {}" using inv by (simp_all add: volume_inv_def)
  from assms(1) show ?thesis
  proof cases
    case (alloc r b)
    show ?thesis
    proof (cases rule: disk0.block_alloc_spec [OF v, case_names full block])
      case full
      with alloc inv show ?thesis by simp
    next
      case (block ino s1)
      with alloc have s': "s' = s1" by simp
      show ?thesis
        unfolding s' by (rule volume_inv_keep [OF inv block(3) alloc_marks [OF block(1)]])
          (use block(2,4,6) fr in auto)
    qed
  next
    case (free b)
    then have b: "b \<noteq> 0" "b < nb s" by (auto simp: sfs_block_free_def sfs_block_inuse_def split: if_splits)
    then have nf: "b \<notin> fr s"
      using free(2) inuse_spec [OF v b] by (auto simp: sfs_block_free_def)
    from disk0.block_free_spec [OF v b nf] free(2) have
      s': "vol_ok disk0_good d_blocks s'" "fr s' = insert b (fr s)" "sfs_dev s' = sfs_dev s" by auto
    show ?thesis
      by (rule volume_inv_keep [OF inv s'(1) free_marks [OF free(2)]]) (use s' free(1) fr in auto)
  next
    case (block b buf r buf')
    then have b: "b < nb s" "b \<noteq> 0 \<or> \<not> True"
      by (auto simp: sfs_rwblock_nolock_def)
    from disk0.write_block [OF v b block(2)] block(3) have
      st: "stored disk0_good d_blocks disk0_blk s b buf s'" by auto
    show ?thesis
      by (rule volume_inv_keep [OF inv stored_vol [OF st v] rwblock_marks [OF block(3)]])
        (use storedD [OF st] block(1) fr in auto)
  next
    case (file_write sin off buf r n buf' sin')
    have ty: "di_type (din sin) \<noteq> SFS_TYPE_DIR" using file_write(5) by (auto simp: sfs_io_nolock_def)
    obtain m sin2 s2 where a:
      "sfs_io_nolock disk0_io sin buf (int off) True s = Some (if m = length buf then 0 else - E_NO_MEM, m, buf, sin2, s2)"
      "file_on_disk s2 (din sin2)" "evolves disk0_blk s (din sin) s2 (din sin2)"
      by (rule disk0.sfs_write_spec [OF file_write(1) ty file_write(3,4)]) blast
    have s': "s2 = s'" using a(1) file_write(5) by simp
    show ?thesis
      by (rule volume_evolves [OF inv _ io_nolock_marks [OF file_write(5)] a(3) [unfolded s'] file_write(2)])
        (use a(2) s' in \<open>simp add: whole_def file_inv_def\<close>)
  next
    case (resize sin len r sin')
    from resize(1,3) show ?thesis
    proof (cases rule: disk0.truncfile_spec)
      case (ok sin2 s2)
      then have s': "s2 = s'" using resize(4) by simp
      show ?thesis
        by (rule volume_evolves [OF inv _ truncfile_marks [OF resize(4)] ok(3) [unfolded s'] resize(2)])
          (use ok(2) s' in \<open>simp add: whole_def file_inv_def\<close>)
    next
      case (full sin2 s2)
      then have s': "s2 = s'" using resize(4) by simp
      show ?thesis
        by (rule volume_evolves [OF inv _ truncfile_marks [OF resize(4)] full(3) [unfolded s'] resize(2)])
          (use full(2) s' in \<open>simp add: file_inv_def\<close>)
    qed
  qed
qed

lemma vol_run_inv: "vol_step\<^sup>*\<^sup>* s s' \<Longrightarrow> volume_ok s \<Longrightarrow> volume_ok s'"
  by (induction rule: rtranclp_induct) (auto intro: vol_step_inv)

section \<open>The operations on the disk\<close>

text \<open>
  C11. Take a volume whose disk holds its superblock and its map of free blocks, as after mounting,
  or that is marked dirty. Whatever blocks are then allocated, freed and written and whatever files
  written and resized, writing the volume back leaves it clean, and it can be mounted: the mounted
  volume has the superblock, the map of free blocks and the device of the one that was written back,
  whether or not the volume was marked dirty then, and the disk holds them again. The loaded inodes
  can be written back: their blocks are on the volume and not those of the superblock or the map.
\<close>

theorem sync_then_mount:
  assumes "volume_ok s" and "vol_step\<^sup>*\<^sup>* s (vol m)"
    and "\<forall>a \<in> set (inode_list m). can_sync m a" and "5 \<le> length h"
  shows "\<exists>m' m2. sfs_sync disk0_io m = Some (0, m') \<and>
    super (vol m') = super (vol m) \<and> freemap (vol m') = freemap (vol m) \<and> \<not> super_dirty (vol m') \<and>
    (\<forall>a \<in> set (inode_list m). \<not> sin_dirty (nd_sin (nodes m' a))) \<and>
    sfs_do_mount disk0_io SFS_BLKSIZE (d_blocks (sfs_dev (vol m))) h (sfs_dev (vol m')) =
      Some (0, Some m2, drop 5 h, sfs_dev (vol m')) \<and>
    vol m2 = vol m' \<and> inode_list m2 = [] \<and> saved disk0_blk (vol m2)"
proof -
  have inv: "volume_ok (vol m)" by (rule vol_run_inv [OF assms(2,1)])
  have c: "can_sync m a \<or> a \<notin> set (inode_list m)" for a using assms(3) by blast
  obtain m' r where s: "sfs_sync disk0_io m = Some (0, m')" "vol_ok disk0_good d_blocks (vol m')" "layout_ok (vol m')"
    "super (vol m') = super (vol m)" "freemap (vol m') = freemap (vol m)" "\<not> super_dirty (vol m')"
    "d_blocks (sfs_dev (vol m')) = d_blocks (sfs_dev (vol m))"
    "\<And>a. a \<in> set (inode_list m) \<Longrightarrow> \<not> sin_dirty (nd_sin (nodes m' a))"
    "disk0_blk (sfs_dev (vol m')) 0 = super_image (super (vol m)) @ r"
    "\<And>i. i < sfs_freemap_blocks (super (vol m)) \<Longrightarrow>
      disk0_blk (sfs_dev (vol m')) (2 + i) = take 4096 (drop (i * 4096) (map_image (bm_map (freemap (vol m)))))"
    by (rule disk0.sync_spec [OF inv c]) blast
  obtain m2 where "sfs_do_mount disk0_io SFS_BLKSIZE (d_blocks (sfs_dev (vol m'))) h (sfs_dev (vol m')) =
      Some (0, Some m2, drop 5 h, sfs_dev (vol m'))" "vol m2 = (vol m')\<lparr>super_dirty := False\<rparr>" "inode_list m2 = []"
    by (rule disk0.do_mount_spec [OF s(2,3) assms(4), of r]) (use s(4,5,9,10) in auto)
  moreover have "(vol m')\<lparr>super_dirty := False\<rparr> = vol m'" using s(6) by (cases "vol m'") simp
  moreover have "saved disk0_blk (vol m')" using s(4,5,9,10) by (auto simp: saved_def)
  ultimately show ?thesis using s(1,4-8) by auto
qed

text \<open>
  C10. A name in a directory that the caller holds: the number found in the entries of the directory
  gives the inode that is loaded for it, with one more reference, or a new inode with what the disk
  holds; a name that is not there, and a file instead of a directory, change nothing.
\<close>

theorem sfs_lookup_directory:
  assumes "held_inode m a" and "path \<noteq> ''''" and "hd path \<noteq> CHR ''/''" and "length path \<le> 255" and "heap m = q # b # rest"
    and "file_inv disk0_good d_blocks disk0_blk (vol m) (din (nd_sin (nodes m a)))"
  shows "let disk = disk0_blk (sfs_dev (vol m)); d = din (nd_sin (nodes m a)); found = dir_ino (dir_entries disk d) path in
    (di_type d \<noteq> SFS_TYPE_DIR \<longrightarrow> sfs_lookup disk0_io a path m = Some (- E_NOTDIR, None, m)) \<and>
    (di_type d = SFS_TYPE_DIR \<and> found = None \<longrightarrow> sfs_lookup disk0_io a path m = Some (- E_NOENT, None, m)) \<and>
    (\<forall>c \<in> set (inode_list m). di_type d = SFS_TYPE_DIR \<and> found = Some (ino_at m c) \<longrightarrow>
      sfs_lookup disk0_io a path m = Some (0, Some c, upd_node c take_ref m)) \<and>
    (\<forall>ino. di_type d = SFS_TYPE_DIR \<and> found = Some ino \<and> ino \<notin> ino_at m ` set (inode_list m) \<and>
        inode_block disk (fr (vol m)) (nb (vol m)) ino \<longrightarrow>
      sfs_lookup disk0_io a path m = Some (0, Some b,
        sfs_set_inode_links b (upd_node b (\<lambda>_. loaded_node disk q ino) (m\<lparr>heap := rest\<rparr>))))"
proof -
  have mem: "heap m \<noteq> []" using assms(5) by simp
  note dir = disk0.sfs_lookup_dir [OF assms(1) _ assms(2-4) mem]
  show ?thesis
    unfolding Let_def
  proof (intro conjI ballI allI impI; (elim conjE)?)
    show "sfs_lookup disk0_io a path m = Some (- E_NOTDIR, None, m)" if "di_type (din (nd_sin (nodes m a))) \<noteq> SFS_TYPE_DIR"
      using disk0.sfs_lookup_not_dir [OF assms(1) that assms(2,3)] .
    show "sfs_lookup disk0_io a path m = Some (- E_NOENT, None, m)"
      if "di_type (din (nd_sin (nodes m a))) = SFS_TYPE_DIR"
        "dir_ino (dir_entries (disk0_blk (sfs_dev (vol m))) (din (nd_sin (nodes m a)))) path = None"
      using dir that assms(6) by simp
    show "sfs_lookup disk0_io a path m = Some (0, Some c, upd_node c take_ref m)"
      if "c \<in> set (inode_list m)" "di_type (din (nd_sin (nodes m a))) = SFS_TYPE_DIR"
        "dir_ino (dir_entries (disk0_blk (sfs_dev (vol m))) (din (nd_sin (nodes m a)))) path = Some (ino_at m c)" for c
      using disk0.sfs_lookup_cached [OF assms(1) conjI [OF assms(6) that(2)] assms(2-4) mem that(1,3)] .
    show "sfs_lookup disk0_io a path m = Some (0, Some b,
        sfs_set_inode_links b (upd_node b (\<lambda>_. loaded_node (disk0_blk (sfs_dev (vol m))) q ino) (m\<lparr>heap := rest\<rparr>)))"
      if "di_type (din (nd_sin (nodes m a))) = SFS_TYPE_DIR"
        "dir_ino (dir_entries (disk0_blk (sfs_dev (vol m))) (din (nd_sin (nodes m a)))) path = Some ino"
        "ino \<notin> ino_at m ` set (inode_list m)" "inode_block (disk0_blk (sfs_dev (vol m))) (fr (vol m)) (nb (vol m)) ino" for ino
      using disk0.sfs_lookup_loads [OF assms(1) conjI [OF assms(6) that(1)] assms(2-5) that(2) _ that(4)] that(3) by blast
  qed
qed

text \<open>
  C12. When the last reference to an inode is given up it leaves the memory, and loading it again gives
  the same inode, changed or not.
\<close>

theorem inode_reload:
  assumes "cache_inv m" and "a \<in> set (inode_list m)" and "nd_ref (nodes m a) = 1" and "nd_open (nodes m a) = 0"
    and "vol_ok disk0_good d_blocks (vol m)" and "0 < ino_at m a" and "ino_at m a < nb (vol m)" and "ino_at m a \<notin> fr (vol m)"
    and "inode_fits (din (nd_sin (nodes m a)))" and "di_type (din (nd_sin (nodes m a))) \<in> {SFS_TYPE_DIR, SFS_TYPE_FILE}"
    and "sin_dirty (nd_sin (nodes m a)) \<or>
      disk_inode (disk0_blk (sfs_dev (vol m))) (ino_at m a) = din (nd_sin (nodes m a))"
  shows "\<exists>m1 b m2. node_ref_dec disk0_io a m = Some m1 \<and> a \<notin> set (inode_list m1) \<and>
    sfs_load_inode disk0_io (ino_at m a) m1 = Some (0, Some b, m2) \<and> b \<in> set (inode_list m2) \<and>
    din (nd_sin (nodes m2 b)) = din (nd_sin (nodes m a)) \<and> nd_ref (nodes m2 b) = 1"
proof -
  have "ino_at m a \<noteq> 0" using assms(6) by simp
  from disk0.reload_spec [OF assms(1-5) this assms(7-11)] show ?thesis by metis
qed

text \<open>
  C9. From mounting on, over every sequence of operations and whatever the device answers: an inode
  that somebody holds is loaded, its counts are exactly the references and opens held, there is one
  inode at most for a number, and every object is in exactly one place, so nothing leaks.
\<close>

theorem inode_table_exact:
  assumes "sfs_do_mount io bs n h d = Some (0, Some m0, h', d')" and "distinct h" and "fs_run io m0 m H K"
  shows "(\<forall>a. H a \<noteq> 0 \<longrightarrow> a \<in> set (inode_list m)) \<and>
    (\<forall>a \<in> set (inode_list m). nd_ref (nodes m a) = H a \<and> nd_open (nodes m a) = K a \<and> 0 \<le> K a \<and> K a \<le> H a) \<and>
    distinct (map (ino_at m) (inode_list m)) \<and>
    mset (heap m) + mset (own m) + mset (inode_list m) + mset (map (\<lambda>a. nd_din (nodes m a)) (inode_list m)) = mset h"
proof -
  have m0: "inode_list m0 = []" "\<And>k. hash_list m0 k = []" "own m0 = take 5 h" "heap m0 = drop 5 h"
    using assms(1) by (auto simp: sfs_do_mount_def bind_cases Let_def split: if_splits list.splits option.splits)
  have mm: "mset (drop 5 h) + mset (take 5 h) = mset h" by (metis append_take_drop_id mset_append union_commute)
  then have "distinct (drop 5 h @ take 5 h)" using assms(2) mset_eq_imp_distinct_iff mset_append by metis
  then have k: "kept m0 H K m" using run_kept [OF m0(1,2) _ assms(3)] m0(3,4) by simp
  have c: "cache_ok m" using keptD(1) [OF k] by (simp add: cache_inv_def)
  have o: "objects m = mset h" using keptD(2) [OF k] m0(1,3,4) mm by (simp add: objects_def)
  have "distinct (map (ino_at m) (inode_list m))" using cache_okD(1,2) [OF c] by (simp add: distinct_map)
  moreover have "a \<in> set (inode_list m)" if "H a \<noteq> 0" for a
    using that keptD(3) [OF k] by (auto simp: refs_def split: if_splits)
  moreover have "nd_ref (nodes m a) = H a \<and> nd_open (nodes m a) = K a \<and> 0 \<le> K a \<and> K a \<le> H a"
    if "a \<in> set (inode_list m)" for a
    using that cache_okD(5) [OF c that] keptD(3,4) [OF k] by (auto simp: refs_def opens_def node_ok_def)
  ultimately show ?thesis using o by (simp add: objects_def)
qed
section \<open>A volume with an empty root directory\<close>

definition root_dinode :: sfs_disk_inode where
  "root_dinode = \<lparr>di_size = 4096, di_type = SFS_TYPE_DIR, di_nlinks = 1, di_blocks = 1,
     di_direct = [3, 0, 0, 0, 0, 0, 0, 0, 0, 0, 0, 0], di_indirect = 0\<rparr>"

definition root_super :: sfs_super where
  "root_super = \<lparr>s_magic = SFS_MAGIC, s_blocks = 8, s_unused_blocks = 4, s_info = zeros 32\<rparr>"

definition root_words :: "u32 list" where
  "root_words = 0xF0 # replicate 1023 0"

definition root_blocks :: "bytes list" where
  "root_blocks = [super_image root_super @ zeros 4052, inode_image root_dinode @ zeros 4032, map_image root_words,
     enc 4 1 @ ''.'' @ zeros 4091, zeros 4096, zeros 4096, zeros 4096, zeros 4096]"

definition root_vol :: "disk0 sfs_fs" where
  "root_vol = \<lparr>super = root_super,
     sfs_dev = \<lparr>ram = concat root_blocks, ram_valid = True, ram_size = 64, d_blocks = 8\<rparr>,
     freemap = \<lparr>bm_nbits = 32768, bm_nwords = 1024, bm_map = root_words\<rparr>, super_dirty = False\<rparr>"

lemma nth_concat_blocks:
  "i < length bs \<Longrightarrow> (\<And>b. b \<in> set bs \<Longrightarrow> length b = k) \<Longrightarrow> take k (drop (i * k) (concat bs)) = bs ! i"
proof (induction bs arbitrary: i)
  case (Cons b bs)
  then show ?case by (cases i) (simp_all add: add.commute [of k])
qed simp

lemma root_lengths: "b \<in> set root_blocks \<Longrightarrow> length b = 4096"
  by (auto simp: root_blocks_def super_image_def root_super_def inode_image_def root_dinode_def root_words_def)

lemma root_blk: "i < 8 \<Longrightarrow> disk0_blk (sfs_dev root_vol) i = root_blocks ! i"
  using nth_concat_blocks [of i root_blocks 4096] root_lengths
  by (simp add: disk0_blk_def root_vol_def) (simp add: root_blocks_def)

lemma root_free: "fr root_vol = {4, 5, 6, 7}"
proof -
  have e: "bit (0xF0 :: u32) i \<longleftrightarrow> i \<in> {4, 5, 6, 7}" for i
    by (auto simp: bit_numeral_rec bit_1_iff split: nat.splits)
  have "i < 32768 \<and> bit (root_words ! (i div 32)) (i mod 32) \<longleftrightarrow> i \<in> {4, 5, 6, 7}" for i
  proof (cases "i < 32")
    case False
    then have "root_words ! (i div 32) = 0" if "i < 32768"
      using that by (simp add: root_words_def nth_Cons' less_mult_imp_div_less)
    with False show ?thesis by auto
  qed (use e [of i] in \<open>auto simp: root_words_def\<close>)
  then show ?thesis by (intro set_eqI) (simp add: free_bits_def root_vol_def)
qed

lemma root_vol_ok: "vol_ok disk0_good d_blocks root_vol" "layout_ok root_vol"
proof -
  have "length (ram (sfs_dev root_vol)) = 32768"
    by (simp add: root_vol_def root_blocks_def super_image_def root_super_def inode_image_def root_dinode_def root_words_def)
  then show "vol_ok disk0_good d_blocks root_vol"
    unfolding vol_ok_def root_free
    by (simp add: root_vol_def disk0_good_def bitmap_ok_def root_super_def root_words_def)
  show "layout_ok root_vol"
    by (simp add: layout_ok_def root_vol_def root_super_def sfs_freemap_bits_def sfs_freemap_blocks_def SFS_BLKBITS_def
        SFS_BLKSIZE_def zeros_def)
qed

lemma root_on_disk: "disk_inode (disk0_blk (sfs_dev root_vol)) 1 = root_dinode"
proof -
  have "inode_fits root_dinode" by (simp add: inode_fits_def root_dinode_def SFS_TYPE_DIR_def)
  moreover have "length (inode_image root_dinode) = 64" by (simp add: length_inode_image root_dinode_def)
  ultimately show ?thesis
    using inode_roundtrip [of root_dinode "[]"] root_blk [of 1] by (simp add: disk_inode_def dentry_consts root_blocks_def)
qed

lemma root_block: "inode_block (disk0_blk (sfs_dev root_vol)) (fr root_vol) (nb root_vol) 1"
  unfolding inode_block_def root_on_disk root_free
  by (simp add: root_dinode_def root_vol_def root_super_def)

lemma root_entries: "dir_ino (dir_entries (disk0_blk (sfs_dev root_vol)) root_dinode) ''.'' = Some 1"
  "dir_ino (dir_entries (disk0_blk (sfs_dev root_vol)) root_dinode) ''x'' = None"
proof -
  have "dir_entries (disk0_blk (sfs_dev root_vol)) root_dinode =
      [entry_of (take DENTRY_SIZE (disk0_blk (sfs_dev root_vol) 3))]"
    by (simp add: dir_entries_def root_dinode_def ptr_def)
  moreover have "de_ino (entry_of (take DENTRY_SIZE (disk0_blk (sfs_dev root_vol) 3))) = 1"
    using root_blk [of 3] dec_enc_bits [of 1 4] by (simp add: entry_of_def root_blocks_def dentry_consts)
  moreover have "cstr (de_name (entry_of (take DENTRY_SIZE (disk0_blk (sfs_dev root_vol) 3)))) = ''.''"
  proof -
    have "(CHR ''.'' # zeros 255)[255 := NUL] = CHR ''.'' # zeros 255"
      by (subst list_update_same_conv) (simp_all add: nth_Cons' zeros_def)
    moreover have "cstr (CHR ''.'' # zeros 255) = ''.''" by (simp add: cstr_def zeros_def takeWhile_replicate)
    ultimately show ?thesis using root_blk [of 3] by (simp add: entry_of_def root_blocks_def dentry_consts)
  qed
  ultimately show "dir_ino (dir_entries (disk0_blk (sfs_dev root_vol)) root_dinode) ''.'' = Some 1"
    "dir_ino (dir_entries (disk0_blk (sfs_dev root_vol)) root_dinode) ''x'' = None"
    by (simp_all add: dir_ino_def live_def)
qed

lemma root_file: "file_inv disk0_good d_blocks disk0_blk root_vol root_dinode"
proof -
  have "file_ok (disk0_blk (sfs_dev root_vol)) (fr root_vol) (nb root_vol) root_dinode"
    unfolding root_free
    by (auto simp: file_ok_def root_dinode_def ptr_def nth_Cons' root_vol_def root_super_def inj_on_def)
  with root_vol_ok(1) show ?thesis by (simp add: file_inv_def)
qed

text \<open>The volume is mounted and its root is loaded.\<close>

lemma root_mounted:
  obtains m0 m where "sfs_do_mount disk0_io SFS_BLKSIZE 8 [1..<10] (sfs_dev root_vol) =
      Some (0, Some m0, [6..<10], sfs_dev root_vol)"
    and "fs_run disk0_io m0 m ((\<lambda>_. 0)(7 := 1)) (\<lambda>_. 0)" and "held_inode m 7" and "vol m = root_vol"
    and "nodes m 7 = loaded_node (disk0_blk (sfs_dev root_vol)) 6 1" and "inode_list m = [7]" and "heap m = [8, 9]"
    and "sfs_get_root disk0_io m0 = Some (7, m)" and "heap m0 = [6..<10]" and "own m0 = [1..<6]"
proof -
  have k: "sfs_freemap_blocks (super root_vol) = 1"
    by (simp add: root_vol_def root_super_def sfs_freemap_blocks_def SFS_BLKBITS_def SFS_BLKSIZE_def)
  have b0: "disk0_blk (sfs_dev root_vol) 0 = super_image (super root_vol) @ zeros 4052"
    using root_blk [of 0] by (simp add: root_blocks_def root_vol_def)
  have b2: "disk0_blk (sfs_dev root_vol) (2 + i) = take 4096 (drop (i * 4096) (map_image (bm_map (freemap root_vol))))"
    if "i < sfs_freemap_blocks (super root_vol)" for i
    using that k root_blk [of 2] by (simp add: root_blocks_def root_vol_def root_words_def)
  have h5: "5 \<le> length [1 :: nat..<10]" by simp
  obtain m0 where m0: "sfs_do_mount disk0_io SFS_BLKSIZE (d_blocks (sfs_dev root_vol)) [1..<10] (sfs_dev root_vol) =
      Some (0, Some m0, drop 5 [1..<10], sfs_dev root_vol)"
    "vol m0 = root_vol\<lparr>super_dirty := False\<rparr>" "inode_list m0 = []" "\<And>h. hash_list m0 h = []" "own m0 = take 5 [1..<10]"
    "heap m0 = drop 5 [1..<10]"
    by (rule disk0.do_mount_spec [OF root_vol_ok h5 b0 b2]) (assumption, rule that, assumption+)
  have v0: "vol m0 = root_vol" and hp: "heap m0 = [6, 7, 8, 9]" using m0(2,6) by (simp_all add: root_vol_def upt_rec)
  have c0: "cache_ok m0" using m0(3,4) by (simp add: cache_ok_def)
  let ?m = "sfs_set_inode_links 7 (upd_node 7 (\<lambda>_. loaded_node (disk0_blk (sfs_dev (vol m0))) 6 1) (m0\<lparr>heap := [8, 9]\<rparr>))"
  have "sfs_load_inode disk0_io 1 m0 = Some (0, Some 7, ?m)"
    by (rule disk0.load_miss [OF c0 _ _ _ hp]) (use m0(3) root_vol_ok(1) root_block v0 in simp_all)
  then have g: "sfs_get_root disk0_io m0 = Some (7, ?m)" by (simp add: sfs_get_root_def SFS_BLKN_ROOT_def)
  from fs_run.root [OF fs_run.start g] have run: "fs_run disk0_io m0 ?m ((\<lambda>_. 0)(7 := 1)) (\<lambda>_. 0)" by simp
  have "distinct (heap m0 @ own m0)" using m0(5) hp by (simp add: upt_rec)
  from run_kept [OF m0(3,4) this run] have inv: "cache_inv ?m" by (simp add: kept_def)
  have p: "nodes ?m 7 = loaded_node (disk0_blk (sfs_dev root_vol)) 6 1" "inode_list ?m = [7]" "heap ?m = [8, 9]" "vol ?m = root_vol"
    using m0(3) v0 by (simp_all add: sfs_set_inode_links_def Let_def)
  then have "held_inode ?m 7" using inv by (simp add: held_inode_def loaded_node_def)
  moreover have "d_blocks (sfs_dev root_vol) = 8" "drop 5 [1..<10] = [6..<10]" by (simp_all add: root_vol_def)
  moreover have "take 5 [1..<10] = [1 :: nat..<6]" by simp
  ultimately show ?thesis using that [OF _ run] m0(1,5,6) p g by simp
qed

theorem inode_table_exact_witness:
  "\<exists>m0 m. sfs_do_mount disk0_io SFS_BLKSIZE 8 [1..<10] (sfs_dev root_vol) = Some (0, Some m0, [6..<10], sfs_dev root_vol) \<and>
     fs_run disk0_io m0 m ((\<lambda>_. 0)(7 := 1)) (\<lambda>_. 0) \<and> 7 \<in> set (inode_list m) \<and> nd_ref (nodes m 7) = 1"
proof -
  obtain m0 m where a: "sfs_do_mount disk0_io SFS_BLKSIZE 8 [1..<10] (sfs_dev root_vol) =
      Some (0, Some m0, [6..<10], sfs_dev root_vol)" "fs_run disk0_io m0 m ((\<lambda>_. 0)(7 := 1)) (\<lambda>_. 0)"
    by (rule root_mounted) blast
  from inode_table_exact [OF a(1) _ a(2)] have "7 \<in> set (inode_list m)" "\<forall>a \<in> set (inode_list m). nd_ref (nodes m a) = ((\<lambda>_. 0)(7 := 1)) a"
    by simp_all
  with a show ?thesis by auto
qed

theorem sfs_lookup_directory_witness:
  "\<exists>m. sfs_lookup disk0_io 7 ''.'' m = Some (0, Some 7, upd_node 7 take_ref m) \<and>
     sfs_lookup disk0_io 7 ''x'' m = Some (- E_NOENT, None, m)"
proof -
  obtain m where m: "held_inode m 7" "vol m = root_vol" "nodes m 7 = loaded_node (disk0_blk (sfs_dev root_vol)) 6 1"
    "inode_list m = [7]" "heap m = [8, 9]"
    by (rule root_mounted) blast
  have d: "din (nd_sin (nodes m 7)) = root_dinode" "ino_at m 7 = 1" using root_on_disk by (simp_all add: m(3) loaded_node_def)
  have f: "file_inv disk0_good d_blocks disk0_blk (vol m) (din (nd_sin (nodes m 7)))" unfolding d m(2) by (rule root_file)
  have ty: "di_type root_dinode = SFS_TYPE_DIR" by (simp add: root_dinode_def)
  have "sfs_lookup disk0_io 7 ''.'' m = Some (0, Some 7, upd_node 7 take_ref m)"
    using sfs_lookup_directory [OF m(1) _ _ _ m(5) f, of "''.''"] m(4) ty root_entries(1) d(2) unfolding Let_def d(1) m(2) by simp
  moreover have "sfs_lookup disk0_io 7 ''x'' m = Some (- E_NOENT, None, m)"
    using sfs_lookup_directory [OF m(1) _ _ _ m(5) f, of "''x''"] ty root_entries(2) unfolding Let_def d m(2) by simp
  ultimately show ?thesis by blast
qed

theorem inode_reload_witness:
  "\<exists>m m1 b m2. node_ref_dec disk0_io 7 m = Some m1 \<and> 7 \<notin> set (inode_list m1) \<and>
     sfs_load_inode disk0_io 1 m1 = Some (0, Some b, m2) \<and> din (nd_sin (nodes m2 b)) = root_dinode"
proof -
  obtain m where m: "held_inode m 7" "vol m = root_vol" "nodes m 7 = loaded_node (disk0_blk (sfs_dev root_vol)) 6 1"
    "inode_list m = [7]"
    by (rule root_mounted) blast
  have d: "din (nd_sin (nodes m 7)) = root_dinode" "ino_at m 7 = 1" using root_on_disk by (simp_all add: m(3) loaded_node_def)
  have h: "cache_inv m" "7 \<in> set (inode_list m)" "nd_ref (nodes m 7) = 1" "nd_open (nodes m 7) = 0"
    using m by (simp_all add: held_inode_def loaded_node_def)
  have i: "vol_ok disk0_good d_blocks (vol m)" "0 < ino_at m 7" "ino_at m 7 < nb (vol m)" "ino_at m 7 \<notin> fr (vol m)"
    using root_vol_ok(1) root_free by (simp_all add: d m(2)) (simp add: root_vol_def root_super_def)
  have f: "inode_fits (din (nd_sin (nodes m 7)))" "di_type (din (nd_sin (nodes m 7))) \<in> {SFS_TYPE_DIR, SFS_TYPE_FILE}"
    by (simp_all add: d inode_fits_def root_dinode_def SFS_TYPE_DIR_def)
  have "disk_inode (disk0_blk (sfs_dev (vol m))) (ino_at m 7) = din (nd_sin (nodes m 7))"
    using root_on_disk by (simp add: d m(2))
  from inode_reload [OF h i f disjI2 [OF this]] show ?thesis unfolding d by blast
qed

lemma root_volume: "volume_ok root_vol"
proof -
  have k: "sfs_freemap_blocks (super root_vol) = 1"
    by (simp add: root_vol_def root_super_def sfs_freemap_blocks_def SFS_BLKBITS_def SFS_BLKSIZE_def)
  have "disk0_blk (sfs_dev root_vol) 0 = super_image (super root_vol) @ zeros 4052"
    using root_blk [of 0] by (simp add: root_blocks_def root_vol_def)
  moreover have "disk0_blk (sfs_dev root_vol) 2 = take 4096 (map_image (bm_map (freemap root_vol)))"
    using root_blk [of 2] by (simp add: root_blocks_def root_vol_def root_words_def)
  ultimately have "saved disk0_blk root_vol" by (auto simp: saved_def k)
  moreover have "meta root_vol \<inter> fr root_vol = {}" by (auto simp: meta_def k root_free)
  ultimately show ?thesis using root_vol_ok by (simp add: volume_inv_def)
qed

text \<open>A block is allocated on the small volume, which is clean before.\<close>

theorem sync_then_mount_witness:
  "\<exists>m b s m' m2. sfs_block_alloc disk0_io root_vol = Some (0, b, s) \<and> vol m = s \<and>
     sfs_sync disk0_io m = Some (0, m') \<and>
     sfs_do_mount disk0_io SFS_BLKSIZE (d_blocks (sfs_dev s)) [1..<6] (sfs_dev (vol m')) =
       Some (0, Some m2, [], sfs_dev (vol m')) \<and>
     b \<in> fr root_vol \<and> b \<notin> fr (vol m2)"
proof -
  obtain m where m: "held_inode m 7" "vol m = root_vol" "nodes m 7 = loaded_node (disk0_blk (sfs_dev root_vol)) 6 1"
    "inode_list m = [7]"
    by (rule root_mounted) blast
  obtain b s where a: "sfs_block_alloc disk0_io root_vol = Some (0, b, s)" "b \<in> fr root_vol"
    "fr s = fr root_vol - {b}" "nb s = nb root_vol"
    by (rule disk0.block_alloc_spec [OF root_vol_ok(1)]) (use root_free in auto)
  define md where "md = m\<lparr>vol := s\<rparr>"
  have "meta s = meta root_vol" using a(4) by (simp add: meta_def sfs_freemap_blocks_def)
  also have "\<dots> = {0, 2}"
    by (auto simp: meta_def root_vol_def root_super_def sfs_freemap_blocks_def SFS_BLKBITS_def SFS_BLKSIZE_def)
  finally have mt: "meta s = {0, 2}" .
  have "can_sync md 7"
    using root_on_disk m(3) a(4) mt
    by (simp add: can_sync_def md_def loaded_node_def inode_check_def MAX_INODE_COUNT_def root_dinode_def)
      (simp add: root_vol_def root_super_def)
  then have c: "\<forall>a \<in> set (inode_list md). can_sync md a" using m(4) by (simp add: md_def)
  have run: "vol_step\<^sup>*\<^sup>* root_vol (vol md)" using vol_step.alloc [OF a(1)] by (simp add: md_def)
  from sync_then_mount [OF root_volume run c, of "[1..<6]"] obtain m' m2 where
    "sfs_sync disk0_io md = Some (0, m')" "freemap (vol m') = freemap (vol md)" "vol m2 = vol m'"
    "sfs_do_mount disk0_io SFS_BLKSIZE (d_blocks (sfs_dev s)) [1..<6] (sfs_dev (vol m')) =
      Some (0, Some m2, drop 5 [1..<6], sfs_dev (vol m'))"
    by (auto simp: md_def)
  then show ?thesis using a
    by (intro exI [of _ md] exI [of _ b] exI [of _ s] exI [of _ m'] exI [of _ m2]) (simp add: md_def)
qed

end
