(* ===== verification/Vfs_Volume.thy ===== *)
theory Vfs_Volume
  imports Vfs_Refs Sfs_Volume
begin

text \<open>
  What holds of the virtual file system over all its runs, and over the disk in memory.
\<close>

section \<open>Properties\<close>

text \<open>
  C13. Over every sequence of calls from an empty table of devices, whatever the devices answer:
  the reference count of every inode is exactly the references its callers hold, plus one for the
  current directory and one for the boot directory, and what a device had from the start; no object
  of the heap is in two places; and a volume that is unmounted has no inode that anybody refers to.
\<close>

theorem vfs_references_exact:
  assumes "distinct (kheap s0)" and "cwd s0 = None" and "\<And>n. 0 \<le> dv_ref (devices s0 n)" and "vfs_run io s0 s H"
  shows "(\<forall>v. 0 \<le> H v \<and>
      vrefs s v = first_refs s0 v + H v + of_bool (cwd s = Some v) + of_bool (bootfs_node s = Some v)) \<and>
    (\<forall>x. count (vobjects s) x \<le> 1) \<and>
    (\<forall>name s'. vfs_unmount io name s = Some (0, s') \<longrightarrow>
      (\<exists>i f. find_mount name s = (0, i) \<and> vdev_fs (vdev_list s ! i) = Some f \<and> f \<notin> fss s' \<and>
        (\<forall>a. H (Inode f a) = 0 \<and> cwd s' \<noteq> Some (Inode f a) \<and> bootfs_node s' \<noteq> Some (Inode f a))))"
proof (intro conjI allI impI)
  note c = vfs_run_counted [OF assms]
  show "0 \<le> H v" "vrefs s v = first_refs s0 v + H v + of_bool (cwd s = Some v) + of_bool (bootfs_node s = Some v)" for v
    using refs_countedD(2,4) [OF c] by blast+
  show "count (vobjects s) x \<le> 1" for x using refs_countedD(1) [OF c] by (simp add: vfs_inv_def)
  fix name s' assume u: "vfs_unmount io name s = Some (0, s')"
  from unmount_counted(2) [OF c u] obtain i f where f: "find_mount name s = (0, i)" "vdev_fs (vdev_list s ! i) = Some f"
    "f \<notin> fss s'" "\<forall>a. H (Inode f a) = 0" by blast
  have "cwd s' \<noteq> Some (Inode f a) \<and> bootfs_node s' \<noteq> Some (Inode f a)" for a
    using refs_countedD(5) [OF unmount_counted(1) [OF c u], of "Inode f a"] f(3) by (auto simp: vrefs_def)
  with f show "\<exists>i f. find_mount name s = (0, i) \<and> vdev_fs (vdev_list s ! i) = Some f \<and> f \<notin> fss s' \<and>
    (\<forall>a. H (Inode f a) = 0 \<and> cwd s' \<noteq> Some (Inode f a) \<and> bootfs_node s' \<noteq> Some (Inode f a))" by blast
qed

text \<open>
  C16. A path of the form name:rest is looked up from the root of what is on the device of that
  name, and the name is then cut off in the buffer of the caller: a second look at the same buffer,
  as for creating the file, starts from the current directory and takes the name of the device for
  the name of the file.
\<close>

theorem device_path_cut:
  assumes "plain name" and "name \<noteq> []" and "r = [] \<or> hd r \<noteq> CHR ''/''"
  shows "vfs_lookup io (name @ CHR '':'' # replicate k CHR ''/'' @ r) s = do {
      (ret, node, s) \<leftarrow> vfs_get_root io name s;
      if ret \<noteq> 0 then Some (ret, None, name, s)
      else do {
        v \<leftarrow> node;
        if r \<noteq> [] then do {
          (ret, x, s) \<leftarrow> vop_lookup io v r s;
          s \<leftarrow> vop_ref_dec io v s;
          Some (ret, x, name, s) }
        else Some (0, Some v, name, s) } } \<and>
    (\<forall>ret x path s'. vfs_lookup io (name @ CHR '':'' # replicate k CHR ''/'' @ r) s = Some (ret, x, path, s') \<longrightarrow>
      vfs_lookup_parent io path s' = do {
        (ret, node, s) \<leftarrow> vfs_get_curdir s';
        if ret \<noteq> 0 then Some (ret, None, [], name, s) else Some (0, node, name, name, s) })"
proof (intro conjI allI impI)
  note g = get_device_named [OF assms]
  show "vfs_lookup io (name @ CHR '':'' # replicate k CHR ''/'' @ r) s = do {
      (ret, node, s) \<leftarrow> vfs_get_root io name s;
      if ret \<noteq> 0 then Some (ret, None, name, s)
      else do {
        v \<leftarrow> node;
        if r \<noteq> [] then do {
          (ret, x, s) \<leftarrow> vop_lookup io v r s;
          s \<leftarrow> vop_ref_dec io v s;
          Some (ret, x, name, s) }
        else Some (0, Some v, name, s) } }"
    by (cases "vfs_get_root io name s") (auto simp: vfs_lookup_def g)
  fix ret x path s'
  assume "vfs_lookup io (name @ CHR '':'' # replicate k CHR ''/'' @ r) s = Some (ret, x, path, s')"
  then have p: "path = name" by (auto simp: vfs_lookup_def g bind_cases split: if_splits)
  show "vfs_lookup_parent io path s' = do {
      (ret, node, s) \<leftarrow> vfs_get_curdir s';
      if ret \<noteq> 0 then Some (ret, None, [], name, s) else Some (0, node, name, name, s) }"
    by (cases "vfs_get_curdir s'") (auto simp: vfs_lookup_parent_def p get_device_name [OF assms(1)])
qed

section \<open>The disk in memory\<close>

definition vfs0 :: "disk0 vfs" where
  "vfs0 = \<lparr>vdev_list = [], bootfs_node = None, cwd = None,
     devices = (\<lambda>_. \<lparr>dv_ref = 1, dv_open = 0, device.d_blocks = 8, d_blocksize = SFS_BLKSIZE, dv_data = sfs_dev root_vol\<rparr>),
     mounts = (\<lambda>_. undefined), kheap = 20 # 21 # [1..<10]\<rparr>"

lemma vfs0_start: "distinct (kheap vfs0)" "cwd vfs0 = None" "0 \<le> dv_ref (devices vfs0 n)"
  by (simp_all add: vfs0_def)

lemma root_looked_up:
  obtains s s' where "vfs_run disk0_io vfs0 s (\<lambda>_. 0)" and "cwd s' = None" and "bootfs_node s' = None"
    and "vfs_lookup disk0_io ''disk0:'' s = Some (0, Some (Inode 1 7), ''disk0'', s')"
proof -
  obtain m0 m where m: "sfs_do_mount disk0_io SFS_BLKSIZE 8 [1..<10] (sfs_dev root_vol) =
      Some (0, Some m0, [6..<10], sfs_dev root_vol)" "sfs_get_root disk0_io m0 = Some (7, m)" "heap m0 = [6..<10]" "own m0 = [1..<6]"
    by (rule root_mounted) blast
  define s1 where "s1 = vfs0\<lparr>vdev_list := [\<lparr>devname = ''disk0'', devnode = Some 0, mountable = True, vdev_fs = None\<rparr>],
    kheap := [1..<10]\<rparr>"
  have "vfs_add_dev ''disk0'' (Some 0) True (vfs_init vfs0) = Some (0, s1)"
    by (simp add: vfs_add_dev_def vfs_do_add_def vfs_init_def s1_def vfs0_def FS_MAX_DNAME_LEN_def check_devname_conflict_def)
  note r1 = vfs_run.add_dev [OF vfs_run.init this]
  define s2 where "s2 = s1\<lparr>vdev_list := [\<lparr>devname = ''disk0'', devnode = Some 0, mountable = True, vdev_fs = Some 1\<rparr>],
    kheap := [6..<10], mounts := (mounts s1)(1 := m0)\<rparr>"
  have u: "upd_device 0 (\<lambda>dev. dev\<lparr>dv_data := sfs_dev root_vol\<rparr>) s = s" if "devices s = devices s1" for s :: "disk0 vfs"
    using that by (simp add: upd_device_def s1_def vfs0_def fun_upd_idem)
  have "own m0 ! 0 = 1" using m(4) by simp
  then have "vfs_mount disk0_io ''disk0'' s1 = Some (0, s2)"
    using m(1) u [of "s1\<lparr>kheap := [6..<10]\<rparr>"]
    by (simp add: vfs_mount_def find_mount_def s1_def vfs0_def s2_def set_vdev_fs_def Let_def)
  note r2 = vfs_run.mount [OF r1 this]
  have m0: "(mounts s2 1)\<lparr>heap := kheap s2\<rparr> = m0" using m(3) by (simp add: s2_def)
  have "vfs_get_root disk0_io ''disk0'' s2 = Some (0, Some (Inode 1 7), s2\<lparr>mounts := (mounts s2)(1 := m), kheap := heap m\<rparr>)"
    using m(2) m0 by (simp add: vfs_get_root_def s2_def fsop_get_root_def with_fs_def)
  then have "vfs_lookup disk0_io ''disk0:'' s2 =
      Some (0, Some (Inode 1 7), ''disk0'', s2\<lparr>mounts := (mounts s2)(1 := m), kheap := heap m\<rparr>)"
    using get_device_named [of "''disk0''" "''''" disk0_io 0 s2] by (simp add: vfs_lookup_def plain_def)
  moreover have "cwd s2 = None" "bootfs_node s2 = None" by (simp_all add: s2_def s1_def vfs0_def)
  ultimately show ?thesis by (intro that [OF r2]) simp_all
qed

theorem vfs_references_exact_witness:
  "\<exists>s H. vfs_run disk0_io vfs0 s H \<and> H (Inode 1 7) = 1 \<and> vrefs s (Inode 1 7) = 1"
proof -
  obtain s s' where r: "vfs_run disk0_io vfs0 s (\<lambda>_. 0)" and c: "cwd s' = None" "bootfs_node s' = None"
    and l: "vfs_lookup disk0_io ''disk0:'' s = Some (0, Some (Inode 1 7), ''disk0'', s')" by (rule root_looked_up)
  note r' = vfs_run.lookup [OF r l]
  with vfs_references_exact [OF vfs0_start r'] c r' show ?thesis
    by (intro exI [of _ s'] exI [of _ "given (Some (Inode 1 7)) (\<lambda>_. 0)"]) (auto simp: first_refs_def given_def)
qed

theorem device_path_cut_witness:
  "\<exists>s s'. vfs_lookup disk0_io ''disk0:'' s = Some (0, Some (Inode 1 7), ''disk0'', s') \<and>
     vfs_lookup_parent disk0_io ''disk0'' s' = Some (- E_NOENT, None, '''', ''disk0'', s')"
proof -
  obtain s s' where c: "cwd s' = None"
    and l: "vfs_lookup disk0_io ''disk0:'' s = Some (0, Some (Inode 1 7), ''disk0'', s')" by (rule root_looked_up)
  have "vfs_lookup_parent disk0_io ''disk0'' s' = Some (- E_NOENT, None, '''', ''disk0'', s')"
    using device_path_cut [of "''disk0''" "[]" disk0_io 0 s] l c
    by (simp add: plain_def vfs_get_curdir_def E_NOENT_def)
  with l show ?thesis by blast
qed

end
