(* ===== verification/File_Table.thy ===== *)
theory File_Table
  imports Iobuf
begin

text \<open>
  Inodes and their two counts (\<^verbatim>\<open>kern/fs/vfs/inode.c\<close>), opening a path
  (\<^verbatim>\<open>kern/fs/vfs/vfsfile.c\<close>) and the table of open files of a process
  (\<^verbatim>\<open>kern/fs/file.c\<close>, \<^verbatim>\<open>kern/fs/fs.c\<close>). The operations of a concrete file system, called
  through \<^verbatim>\<open>node->in_ops\<close>, are the argument \<open>vo\<close>; a data operation may block and acts on the whole
  state, so another thread of the process may change the table meanwhile. A failed
  \<^verbatim>\<open>assert\<close> is \<open>None\<close>.
\<close>

section \<open>State\<close>

datatype file_status = FD_NONE | FD_INIT | FD_OPENED | FD_CLOSED

record ofile =
  fl_status :: file_status
  fl_readable :: bool
  fl_writable :: bool
  fl_fd :: int
  fl_pos :: int
  fl_node :: "nat option"
  fl_open_count :: int

record inode =
  in_ref :: int
  in_open :: int

record 'd fs =
  fd_array :: "ofile list"
  files_count :: int
  files_pwd :: "nat option"
  inodes :: "nat \<Rightarrow> inode"
  fs_mem :: mem
  fs_data :: 'd

record 'd vops =
  vo_open :: "nat \<Rightarrow> u32 \<Rightarrow> 'd fs \<Rightarrow> int \<times> 'd fs"
  vo_close :: "nat \<Rightarrow> 'd \<Rightarrow> 'd"
  vo_reclaim :: "nat \<Rightarrow> 'd \<Rightarrow> 'd"
  vo_read :: "nat \<Rightarrow> iobuf \<Rightarrow> 'd fs \<Rightarrow> int \<times> iobuf \<times> 'd fs"
  vo_write :: "nat \<Rightarrow> iobuf \<Rightarrow> 'd fs \<Rightarrow> int \<times> iobuf \<times> 'd fs"
  vo_fstat :: "nat \<Rightarrow> 'd fs \<Rightarrow> int \<times> nat \<times> 'd fs"
  vo_tryseek :: "nat \<Rightarrow> int \<Rightarrow> 'd fs \<Rightarrow> int \<times> 'd fs"
  vo_fsync :: "nat \<Rightarrow> 'd fs \<Rightarrow> int \<times> 'd fs"
  vo_truncate :: "nat \<Rightarrow> nat \<Rightarrow> 'd fs \<Rightarrow> int \<times> 'd fs"
  vo_create :: "nat \<Rightarrow> string \<Rightarrow> bool \<Rightarrow> 'd fs \<Rightarrow> int \<times> nat option \<times> 'd fs"
  vo_lookup :: "string \<Rightarrow> 'd fs \<Rightarrow> int \<times> nat option \<times> 'd fs"
  vo_lookup_parent :: "string \<Rightarrow> 'd fs \<Rightarrow> int \<times> nat \<times> string \<times> 'd fs"

text \<open>
  \<^verbatim>\<open>(PGSIZE - sizeof(struct files_struct)) / sizeof(struct file)\<close>, with 48 and 40 bytes on LP64.
\<close>

definition FILES_STRUCT_NENTRY :: nat where "FILES_STRUCT_NENTRY = (4096 - 48) div 40"
definition NO_FD :: int where "NO_FD = - 0x9527"

definition O_RDONLY :: u32 where "O_RDONLY = 0"
definition O_WRONLY :: u32 where "O_WRONLY = 1"
definition O_RDWR :: u32 where "O_RDWR = 2"
definition O_CREAT :: u32 where "O_CREAT = 4"
definition O_EXCL :: u32 where "O_EXCL = 8"
definition O_TRUNC :: u32 where "O_TRUNC = 0x10"
definition O_APPEND :: u32 where "O_APPEND = 0x20"
definition O_ACCMODE :: u32 where "O_ACCMODE = 3"
definition LSEEK_SET :: int where "LSEEK_SET = 0"
definition LSEEK_CUR :: int where "LSEEK_CUR = 1"
definition LSEEK_END :: int where "LSEEK_END = 2"

lemmas open_flag_defs = O_RDONLY_def O_WRONLY_def O_RDWR_def O_CREAT_def O_EXCL_def O_TRUNC_def
  O_APPEND_def O_ACCMODE_def

section \<open>Inodes (kern/fs/vfs/inode.c)\<close>

definition upd_inode :: "nat \<Rightarrow> (inode \<Rightarrow> inode) \<Rightarrow> 'd fs \<Rightarrow> 'd fs" where
  "upd_inode n f s = s\<lparr>inodes := (inodes s)(n := f (inodes s n))\<rparr>"

definition inode_ref_inc :: "nat \<Rightarrow> 'd fs \<Rightarrow> 'd fs" where
  "inode_ref_inc n = upd_inode n (\<lambda>i. i\<lparr>in_ref := in_ref i + 1\<rparr>)"

definition inode_open_inc :: "nat \<Rightarrow> 'd fs \<Rightarrow> 'd fs" where
  "inode_open_inc n = upd_inode n (\<lambda>i. i\<lparr>in_open := in_open i + 1\<rparr>)"

definition inode_init :: "nat \<Rightarrow> 'd fs \<Rightarrow> 'd fs" where
  "inode_init n s = inode_ref_inc n (upd_inode n (\<lambda>_. \<lparr>in_ref = 0, in_open = 0\<rparr>) s)"

definition inode_kill :: "nat \<Rightarrow> 'd fs \<Rightarrow> 'd fs option" where
  "inode_kill n s = do { kassert (in_ref (inodes s n) = 0); kassert (in_open (inodes s n) = 0); Some s }"

definition inode_ref_dec :: "'d vops \<Rightarrow> nat \<Rightarrow> 'd fs \<Rightarrow> 'd fs option" where
  "inode_ref_dec vo n s = do {
     kassert (in_ref (inodes s n) > 0);
     let s = upd_inode n (\<lambda>i. i\<lparr>in_ref := in_ref i - 1\<rparr>) s;
     Some (if in_ref (inodes s n) = 0 then s\<lparr>fs_data := vo_reclaim vo n (fs_data s)\<rparr> else s) }"

definition inode_open_dec :: "'d vops \<Rightarrow> nat \<Rightarrow> 'd fs \<Rightarrow> 'd fs option" where
  "inode_open_dec vo n s = do {
     kassert (in_open (inodes s n) > 0);
     let s = upd_inode n (\<lambda>i. i\<lparr>in_open := in_open i - 1\<rparr>) s;
     Some (if in_open (inodes s n) = 0 then s\<lparr>fs_data := vo_close vo n (fs_data s)\<rparr> else s) }"

section \<open>Opening and closing an inode (kern/fs/vfs/vfsfile.c)\<close>

definition vfs_close :: "'d vops \<Rightarrow> nat \<Rightarrow> 'd fs \<Rightarrow> 'd fs option" where
  "vfs_close vo n s = do { s \<leftarrow> inode_open_dec vo n s; inode_ref_dec vo n s }"

text \<open>
  The part of \<^verbatim>\<open>vfs_open\<close> after the lookup. The result of \<^verbatim>\<open>vop_create\<close> is overwritten
  unseen in the source; only its inode is tested, by the assertion.
\<close>

definition vfs_open_node ::
  "'d vops \<Rightarrow> u32 \<Rightarrow> nat option \<Rightarrow> 'd fs \<Rightarrow> (int \<times> nat option \<times> 'd fs) option"
where
  "vfs_open_node vo flags node s = (case node of None \<Rightarrow> None
     | Some n \<Rightarrow>
         let (ret, s) = vo_open vo n flags s in
         if ret \<noteq> 0 then do { s \<leftarrow> inode_ref_dec vo n s; Some (ret, None, s) }
         else let s = inode_open_inc n s in
           if flags AND O_TRUNC \<noteq> 0 \<or> flags AND O_CREAT \<noteq> 0
           then let (ret, s) = vo_truncate vo n 0 s in
             if ret \<noteq> 0
             then do { s \<leftarrow> inode_open_dec vo n s; s \<leftarrow> inode_ref_dec vo n s; Some (ret, None, s) }
             else Some (0, Some n, s)
           else Some (0, Some n, s))"

definition vfs_open :: "'d vops \<Rightarrow> string \<Rightarrow> u32 \<Rightarrow> 'd fs \<Rightarrow> (int \<times> nat option \<times> 'd fs) option" where
  "vfs_open vo path flags s =
     (if flags AND O_ACCMODE \<notin> {O_RDONLY, O_WRONLY, O_RDWR} then Some (- E_INVAL, None, s)
      else if flags AND O_TRUNC \<noteq> 0 \<and> flags AND O_ACCMODE = O_RDONLY then Some (- E_INVAL, None, s)
      else
        let excl = (flags AND O_EXCL \<noteq> 0); create = (flags AND O_CREAT \<noteq> 0);
            (ret, node, s) = vo_lookup vo path s in
        if ret \<noteq> 0 then
          if ret = -16 \<and> create then
            let (ret, dir, name, s) = vo_lookup_parent vo path s in
            if ret \<noteq> 0 then Some (ret, None, s)
            else let (ret, node, s) = vo_create vo dir name excl s in vfs_open_node vo flags node s
          else Some (ret, None, s)
        else if excl \<and> create then Some (- E_EXISTS, None, s)
        else vfs_open_node vo flags node s)"

section \<open>The table of open files (kern/fs/file.c)\<close>

definition upd_file :: "nat \<Rightarrow> (ofile \<Rightarrow> ofile) \<Rightarrow> 'd fs \<Rightarrow> 'd fs" where
  "upd_file i f s = s\<lparr>fd_array := (fd_array s)[i := f (fd_array s ! i)]\<rparr>"

definition testfd :: "int \<Rightarrow> bool" where
  "testfd fd \<longleftrightarrow> fd \<ge> 0 \<and> fd < int FILES_STRUCT_NENTRY"

definition get_fd_array :: "'d fs \<Rightarrow> unit option" where
  "get_fd_array s = kassert (files_count s > 0)"

definition fd_array_init :: "ofile list \<Rightarrow> ofile list" where
  "fd_array_init fs = map (\<lambda>i. (fs ! i)\<lparr>fl_open_count := 0, fl_status := FD_NONE, fl_fd := int i\<rparr>)
     [0..<FILES_STRUCT_NENTRY]"

definition fd_found :: "nat \<Rightarrow> 'd fs \<Rightarrow> (int \<times> nat option \<times> 'd fs) option" where
  "fd_found i s = do {
     kassert (fl_open_count (fd_array s ! i) = 0);
     Some (0, Some i, upd_file i (\<lambda>f. f\<lparr>fl_status := FD_INIT, fl_node := None\<rparr>) s) }"

definition fd_array_alloc :: "int \<Rightarrow> 'd fs \<Rightarrow> (int \<times> nat option \<times> 'd fs) option" where
  "fd_array_alloc fd s = do {
     get_fd_array s;
     if fd = NO_FD then
       (case find (\<lambda>i. fl_status (fd_array s ! i) = FD_NONE) [0..<FILES_STRUCT_NENTRY] of
          Some i \<Rightarrow> fd_found i s
        | None \<Rightarrow> Some (- E_MAX_OPEN, None, s))
     else if testfd fd then
       if fl_status (fd_array s ! nat fd) = FD_NONE then fd_found (nat fd) s else Some (- E_BUSY, None, s)
     else Some (- E_INVAL, None, s) }"

definition fd_array_free :: "'d vops \<Rightarrow> nat \<Rightarrow> 'd fs \<Rightarrow> 'd fs option" where
  "fd_array_free vo i s = do {
     let f = fd_array s ! i;
     kassert (fl_status f = FD_INIT \<or> fl_status f = FD_CLOSED);
     kassert (fl_open_count f = 0);
     s \<leftarrow> (if fl_status f = FD_CLOSED then (case fl_node f of None \<Rightarrow> None | Some n \<Rightarrow> vfs_close vo n s) else Some s);
     Some (upd_file i (\<lambda>f. f\<lparr>fl_status := FD_NONE\<rparr>) s) }"

definition fd_array_acquire :: "nat \<Rightarrow> 'd fs \<Rightarrow> 'd fs option" where
  "fd_array_acquire i s = do {
     kassert (fl_status (fd_array s ! i) = FD_OPENED);
     Some (upd_file i (\<lambda>f. f\<lparr>fl_open_count := fl_open_count f + 1\<rparr>) s) }"

definition fd_array_drop :: "'d vops \<Rightarrow> nat \<Rightarrow> 'd fs \<Rightarrow> 'd fs option" where
  "fd_array_drop vo i s =
     (let s = upd_file i (\<lambda>f. f\<lparr>fl_open_count := fl_open_count f - 1\<rparr>) s in
      if fl_open_count (fd_array s ! i) = 0 then fd_array_free vo i s else Some s)"

definition fd_array_release :: "'d vops \<Rightarrow> nat \<Rightarrow> 'd fs \<Rightarrow> 'd fs option" where
  "fd_array_release vo i s = do {
     kassert (fl_status (fd_array s ! i) = FD_OPENED \<or> fl_status (fd_array s ! i) = FD_CLOSED);
     kassert (fl_open_count (fd_array s ! i) > 0);
     fd_array_drop vo i s }"

definition fd_array_open :: "nat \<Rightarrow> 'd fs \<Rightarrow> 'd fs option" where
  "fd_array_open i s = do {
     kassert (fl_status (fd_array s ! i) = FD_INIT \<and> fl_node (fd_array s ! i) \<noteq> None);
     Some (upd_file i (\<lambda>f. f\<lparr>fl_status := FD_OPENED, fl_open_count := fl_open_count f + 1\<rparr>) s) }"

definition fd_array_close :: "'d vops \<Rightarrow> nat \<Rightarrow> 'd fs \<Rightarrow> 'd fs option" where
  "fd_array_close vo i s = do {
     kassert (fl_status (fd_array s ! i) = FD_OPENED);
     kassert (fl_open_count (fd_array s ! i) > 0);
     fd_array_drop vo i (upd_file i (\<lambda>f. f\<lparr>fl_status := FD_CLOSED\<rparr>) s) }"

definition fd_array_dup :: "nat \<Rightarrow> nat \<Rightarrow> 'd fs \<Rightarrow> 'd fs option" where
  "fd_array_dup to from s = do {
     kassert (fl_status (fd_array s ! to) = FD_INIT \<and> fl_status (fd_array s ! from) = FD_OPENED);
     let f = fd_array s ! from;
     let s = upd_file to (\<lambda>t. t\<lparr>fl_pos := fl_pos f, fl_readable := fl_readable f, fl_writable := fl_writable f\<rparr>) s;
     case fl_node f of None \<Rightarrow> None
     | Some n \<Rightarrow>
         let s = inode_open_inc n (inode_ref_inc n s);
             s = upd_file to (\<lambda>t. t\<lparr>fl_node := Some n\<rparr>) s
         in fd_array_open to s }"

definition fd2file :: "int \<Rightarrow> 'd fs \<Rightarrow> (int \<times> nat) option" where
  "fd2file fd s =
     (if testfd fd then do {
        get_fd_array s;
        let f = fd_array s ! nat fd;
        Some (if fl_status f = FD_OPENED \<and> fl_fd f = fd then (0, nat fd) else (- E_INVAL, 0)) }
      else Some (- E_INVAL, 0))"

definition file_testfd :: "int \<Rightarrow> bool \<Rightarrow> bool \<Rightarrow> 'd fs \<Rightarrow> bool option" where
  "file_testfd fd readable writable s = do {
     (ret, i) \<leftarrow> fd2file fd s;
     Some (ret = 0 \<and> (readable \<longrightarrow> fl_readable (fd_array s ! i)) \<and> (writable \<longrightarrow> fl_writable (fd_array s ! i))) }"

definition file_open :: "'d vops \<Rightarrow> string \<Rightarrow> u32 \<Rightarrow> 'd fs \<Rightarrow> (int \<times> 'd fs) option" where
  "file_open vo path flags s =
     (if flags AND O_ACCMODE \<notin> {O_RDONLY, O_WRONLY, O_RDWR} then Some (- E_INVAL, s)
      else do {
        let readable = (flags AND O_ACCMODE = O_RDONLY \<or> flags AND O_ACCMODE = O_RDWR);
        let writable = (flags AND O_ACCMODE = O_WRONLY \<or> flags AND O_ACCMODE = O_RDWR);
        (ret, slot, s) \<leftarrow> fd_array_alloc NO_FD s;
        case slot of None \<Rightarrow> Some (ret, s)
        | Some i \<Rightarrow> do {
            (ret, node, s) \<leftarrow> vfs_open vo path flags s;
            case node of None \<Rightarrow> do { s \<leftarrow> fd_array_free vo i s; Some (ret, s) }
            | Some n \<Rightarrow> do {
                let s = upd_file i (\<lambda>f. f\<lparr>fl_pos := 0\<rparr>) s;
                let (ret, size, s) = (if flags AND O_APPEND \<noteq> 0 then vo_fstat vo n s else (0, 0, s));
                if flags AND O_APPEND \<noteq> 0 \<and> ret \<noteq> 0
                then do { s \<leftarrow> vfs_close vo n s; s \<leftarrow> fd_array_free vo i s; Some (ret, s) }
                else do {
                  let s = (if flags AND O_APPEND \<noteq> 0 then upd_file i (\<lambda>f. f\<lparr>fl_pos := int size\<rparr>) s else s);
                  let s = upd_file i (\<lambda>f. f\<lparr>fl_node := Some n, fl_readable := readable, fl_writable := writable\<rparr>) s;
                  s \<leftarrow> fd_array_open i s;
                  Some (fl_fd (fd_array s ! i), s) } } } })"

definition file_close :: "'d vops \<Rightarrow> int \<Rightarrow> 'd fs \<Rightarrow> (int \<times> 'd fs) option" where
  "file_close vo fd s = do {
     (ret, i) \<leftarrow> fd2file fd s;
     if ret \<noteq> 0 then Some (ret, s) else do { s \<leftarrow> fd_array_close vo i s; Some (0, s) } }"

text \<open>
  \<^verbatim>\<open>file_read\<close> and \<^verbatim>\<open>file_write\<close> after the test of the access mode: the result, the number of
  bytes copied and the state.
\<close>

definition file_transfer ::
  "'d vops \<Rightarrow> (nat \<Rightarrow> iobuf \<Rightarrow> 'd fs \<Rightarrow> int \<times> iobuf \<times> 'd fs) \<Rightarrow> nat \<Rightarrow> nat \<Rightarrow> nat \<Rightarrow> 'd fs \<Rightarrow> (int \<times> nat \<times> 'd fs) option"
where
  "file_transfer vo vop i base len s = do {
     s \<leftarrow> fd_array_acquire i s;
     case fl_node (fd_array s ! i) of None \<Rightarrow> None
     | Some n \<Rightarrow> do {
         let (ret, iob, s) = vop n (iobuf_init base len (fl_pos (fd_array s ! i))) s;
         let copied = iobuf_used iob;
         let s = (if fl_status (fd_array s ! i) = FD_OPENED
                  then upd_file i (\<lambda>f. f\<lparr>fl_pos := fl_pos f + int copied\<rparr>) s else s);
         s \<leftarrow> fd_array_release vo i s;
         Some (ret, copied, s) } }"

definition file_read :: "'d vops \<Rightarrow> int \<Rightarrow> nat \<Rightarrow> nat \<Rightarrow> 'd fs \<Rightarrow> (int \<times> nat \<times> 'd fs) option" where
  "file_read vo fd base len s = do {
     (ret, i) \<leftarrow> fd2file fd s;
     if ret \<noteq> 0 then Some (ret, 0, s)
     else if \<not> fl_readable (fd_array s ! i) then Some (- E_INVAL, 0, s)
     else file_transfer vo (vo_read vo) i base len s }"

definition file_write :: "'d vops \<Rightarrow> int \<Rightarrow> nat \<Rightarrow> nat \<Rightarrow> 'd fs \<Rightarrow> (int \<times> nat \<times> 'd fs) option" where
  "file_write vo fd base len s = do {
     (ret, i) \<leftarrow> fd2file fd s;
     if ret \<noteq> 0 then Some (ret, 0, s)
     else if \<not> fl_writable (fd_array s ! i) then Some (- E_INVAL, 0, s)
     else file_transfer vo (vo_write vo) i base len s }"

text \<open>An operation on the inode of an open file, between acquire and release.\<close>

definition with_file ::
  "'d vops \<Rightarrow> int \<Rightarrow> (nat \<Rightarrow> nat \<Rightarrow> 'd fs \<Rightarrow> int \<times> 'd fs) \<Rightarrow> 'd fs \<Rightarrow> (int \<times> 'd fs) option"
where
  "with_file vo fd oper s = do {
     (ret, i) \<leftarrow> fd2file fd s;
     if ret \<noteq> 0 then Some (ret, s)
     else do {
       s \<leftarrow> fd_array_acquire i s;
       case fl_node (fd_array s ! i) of None \<Rightarrow> None
       | Some n \<Rightarrow> do {
           let (ret, s) = oper i n s;
           s \<leftarrow> fd_array_release vo i s;
           Some (ret, s) } } }"

definition file_seek :: "'d vops \<Rightarrow> int \<Rightarrow> int \<Rightarrow> int \<Rightarrow> 'd fs \<Rightarrow> (int \<times> 'd fs) option" where
  "file_seek vo fd pos whence = with_file vo fd (\<lambda>i n s.
     let (ret, pos, s) =
       (if whence = LSEEK_SET then (0, pos, s)
        else if whence = LSEEK_CUR then (0, pos + fl_pos (fd_array s ! i), s)
        else if whence = LSEEK_END
          then let (ret, size, s) = vo_fstat vo n s in (ret, if ret = 0 then pos + int size else pos, s)
        else (- E_INVAL, pos, s))
     in if ret = 0
        then let (ret, s) = vo_tryseek vo n pos s
          in (ret, if ret = 0 then upd_file i (\<lambda>f. f\<lparr>fl_pos := pos\<rparr>) s else s)
        else (ret, s))"

definition file_fstat :: "'d vops \<Rightarrow> int \<Rightarrow> 'd fs \<Rightarrow> (int \<times> 'd fs) option" where
  "file_fstat vo fd = with_file vo fd (\<lambda>i n s. let (ret, size, s) = vo_fstat vo n s in (ret, s))"

definition file_fsync :: "'d vops \<Rightarrow> int \<Rightarrow> 'd fs \<Rightarrow> (int \<times> 'd fs) option" where
  "file_fsync vo fd = with_file vo fd (\<lambda>i n s. vo_fsync vo n s)"

definition file_dup :: "int \<Rightarrow> int \<Rightarrow> 'd fs \<Rightarrow> (int \<times> 'd fs) option" where
  "file_dup fd1 fd2 s = do {
     (ret, i) \<leftarrow> fd2file fd1 s;
     if ret \<noteq> 0 then Some (ret, s)
     else do {
       (ret, slot, s) \<leftarrow> fd_array_alloc fd2 s;
       case slot of None \<Rightarrow> Some (ret, s)
       | Some j \<Rightarrow> do { s \<leftarrow> fd_array_dup j i s; Some (fl_fd (fd_array s ! j), s) } } }"

section \<open>Whole tables (kern/fs/fs.c)\<close>

fun close_opened :: "'d vops \<Rightarrow> nat list \<Rightarrow> 'd fs \<Rightarrow> 'd fs option" where
  "close_opened vo [] s = Some s"
| "close_opened vo (i # is) s = do {
     s \<leftarrow> (if fl_status (fd_array s ! i) = FD_OPENED then fd_array_close vo i s else Some s);
     close_opened vo is s }"

definition files_closeall :: "'d vops \<Rightarrow> 'd fs \<Rightarrow> 'd fs option" where
  "files_closeall vo s = do { kassert (files_count s > 0); close_opened vo [2..<FILES_STRUCT_NENTRY] s }"

fun destroy_entries :: "'d vops \<Rightarrow> nat list \<Rightarrow> 'd fs \<Rightarrow> 'd fs option" where
  "destroy_entries vo [] s = Some s"
| "destroy_entries vo (i # is) s = do {
     s \<leftarrow> (if fl_status (fd_array s ! i) = FD_OPENED then fd_array_close vo i s else Some s);
     kassert (fl_status (fd_array s ! i) = FD_NONE);
     destroy_entries vo is s }"

definition files_destroy :: "'d vops \<Rightarrow> 'd fs \<Rightarrow> 'd fs option" where
  "files_destroy vo s = do {
     kassert (files_count s = 0);
     s \<leftarrow> (case files_pwd s of None \<Rightarrow> Some s | Some n \<Rightarrow> inode_ref_dec vo n s);
     destroy_entries vo [0..<FILES_STRUCT_NENTRY] s }"

text \<open>
  \<^verbatim>\<open>files_create\<close> gives a fresh table. \<^verbatim>\<open>dup_files\<close> copies the open entries of the
  table in the state to the fresh table \<open>to\<close> of a new process; \<^verbatim>\<open>fd_array_dup\<close> is applied to
  entries of two tables.
\<close>

definition files_create :: "ofile list \<Rightarrow> ofile list \<times> int \<times> nat option" where
  "files_create garbage = (fd_array_init garbage, 0, None)"

definition dup_entry :: "ofile \<Rightarrow> ofile \<Rightarrow> 'd fs \<Rightarrow> (ofile \<times> 'd fs) option" where
  "dup_entry to from s = do {
     kassert (fl_status to = FD_INIT \<and> fl_status from = FD_OPENED);
     case fl_node from of None \<Rightarrow> None
     | Some n \<Rightarrow> Some (to\<lparr>fl_pos := fl_pos from, fl_readable := fl_readable from, fl_writable := fl_writable from,
           fl_node := Some n, fl_status := FD_OPENED, fl_open_count := fl_open_count to + 1\<rparr>,
         inode_open_inc n (inode_ref_inc n s)) }"

fun dup_entries :: "nat list \<Rightarrow> ofile list \<Rightarrow> 'd fs \<Rightarrow> (ofile list \<times> 'd fs) option" where
  "dup_entries [] to s = Some (to, s)"
| "dup_entries (i # is) to s =
     (if fl_status (fd_array s ! i) = FD_OPENED
      then do {
        (f, s) \<leftarrow> dup_entry ((to ! i)\<lparr>fl_status := FD_INIT\<rparr>) (fd_array s ! i) s;
        dup_entries is (to[i := f]) s }
      else dup_entries is to s)"

definition dup_files :: "ofile list \<Rightarrow> int \<Rightarrow> 'd fs \<Rightarrow> (int \<times> ofile list \<times> nat option \<times> 'd fs) option" where
  "dup_files to to_count s = do {
     kassert (to_count = 0 \<and> files_count s > 0);
     let s = (case files_pwd s of None \<Rightarrow> s | Some n \<Rightarrow> inode_ref_inc n s);
     (to, s) \<leftarrow> dup_entries [0..<FILES_STRUCT_NENTRY] to s;
     Some (0, to, files_pwd s, s) }"

section \<open>The invariant of a table and its inodes\<close>

text \<open>
  \<open>rs\<close> lists the table entries that threads are using, between acquire and release. An entry counts
  its opener and its users; an inode counts at least the entries that hold it.
\<close>

definition held :: "nat \<Rightarrow> ofile \<Rightarrow> bool" where
  "held n f \<longleftrightarrow> fl_status f \<in> {FD_OPENED, FD_CLOSED} \<and> fl_node f = Some n"

definition holders :: "ofile list \<Rightarrow> nat \<Rightarrow> nat" where
  "holders fs n = length (filter (held n) fs)"

definition entry_ok :: "nat \<Rightarrow> ofile \<Rightarrow> nat \<Rightarrow> bool" where
  "entry_ok i f k \<longleftrightarrow> fl_fd f = int i \<and>
     fl_open_count f = (if fl_status f = FD_OPENED then 1 else 0) + int k \<and>
     (fl_status f = FD_CLOSED \<longrightarrow> 0 < k) \<and> (fl_status f \<in> {FD_NONE, FD_INIT} \<longrightarrow> k = 0) \<and>
     (fl_status f \<in> {FD_OPENED, FD_CLOSED} \<longrightarrow> fl_node f \<noteq> None)"

definition counts_ok :: "ofile list \<Rightarrow> (nat \<Rightarrow> inode) \<Rightarrow> bool" where
  "counts_ok fs nodes \<longleftrightarrow> (\<forall>n. int (holders fs n) \<le> in_open (nodes n) \<and> in_open (nodes n) \<le> in_ref (nodes n))"

definition fs_inv :: "'d fs \<Rightarrow> nat list \<Rightarrow> bool" where
  "fs_inv s rs \<longleftrightarrow> length (fd_array s) = FILES_STRUCT_NENTRY \<and> files_count s > 0 \<and>
     (\<forall>i < FILES_STRUCT_NENTRY. entry_ok i (fd_array s ! i) (count_list rs i)) \<and>
     (\<forall>i \<in> set rs. i < FILES_STRUCT_NENTRY) \<and> counts_ok (fd_array s) (inodes s)"

lemma NENTRY: "FILES_STRUCT_NENTRY = 101"
  by (simp add: FILES_STRUCT_NENTRY_def)

lemma fs_updates [simp]:
  "fd_array (upd_inode n f s) = fd_array s" "files_count (upd_inode n f s) = files_count s"
  "inodes (upd_file i g s) = inodes s" "files_count (upd_file i g s) = files_count s"
  "fd_array (upd_file i g s) = (fd_array s)[i := g (fd_array s ! i)]"
  "inodes (upd_inode n f s) = (inodes s)(n := f (inodes s n))"
  "fs_data (upd_inode n f s) = fs_data s" "fs_data (upd_file i g s) = fs_data s"
  by (simp_all add: upd_inode_def upd_file_def)

lemma length_filter_update:
  "i < length xs \<Longrightarrow> length (filter P (xs[i := x])) + (if P (xs ! i) then 1 else 0) =
     length (filter P xs) + (if P x then 1 else 0)"
proof (induction xs arbitrary: i)
  case (Cons y ys)
  then show ?case by (cases i) auto
qed simp

lemma holders_update:
  "i < length fs \<Longrightarrow> int (holders (fs[i := f]) n) =
     int (holders fs n) - (if held n (fs ! i) then 1 else 0) + (if held n f then 1 else 0)"
  using length_filter_update [of i fs "held n" f] by (auto simp: holders_def split: if_splits)

lemma held_counted: "i < length fs \<Longrightarrow> held n (fs ! i) \<Longrightarrow> 0 < holders fs n"
  by (auto simp: holders_def filter_empty_conv)

lemma fs_invD:
  assumes "fs_inv s rs"
  shows "length (fd_array s) = FILES_STRUCT_NENTRY" "files_count s > 0"
    "\<And>i. i < FILES_STRUCT_NENTRY \<Longrightarrow> entry_ok i (fd_array s ! i) (count_list rs i)"
    "\<And>i. i \<in> set rs \<Longrightarrow> i < FILES_STRUCT_NENTRY" "counts_ok (fd_array s) (inodes s)"
  using assms by (auto simp: fs_inv_def)

text \<open>Changing one entry, with the counts of one inode.\<close>

lemma fs_inv_update:
  assumes inv: "fs_inv s rs" and i: "i < FILES_STRUCT_NENTRY"
    and s': "fd_array s' = (fd_array s)[i := f]" "files_count s' = files_count s"
    and rs': "\<And>k. k \<noteq> i \<Longrightarrow> count_list rs' k = count_list rs k" "\<And>k. k \<in> set rs' \<Longrightarrow> k < FILES_STRUCT_NENTRY"
    and f: "entry_ok i f (count_list rs' i)" and c: "counts_ok ((fd_array s)[i := f]) (inodes s')"
  shows "fs_inv s' rs'"
proof -
  note d = fs_invD [OF inv]
  have "entry_ok k (fd_array s' ! k) (count_list rs' k)" if "k < FILES_STRUCT_NENTRY" for k
    using d(1) d(3) [OF that] f i rs'(1) [of k] s'(1) by (cases "k = i") simp_all
  with d s' rs'(2) c show ?thesis by (simp add: fs_inv_def)
qed

lemma counts_ok_same:
  assumes "counts_ok fs nodes" and "i < length fs" and "\<And>n. held n f = held n (fs ! i)"
  shows "counts_ok (fs[i := f]) nodes"
  using assms by (simp add: counts_ok_def holders_update)

lemma counts_ok_close:
  assumes "counts_ok fs nodes" and "i < length fs" and "held n (fs ! i)" and "\<And>m. \<not> held m f"
  shows "0 < in_open (nodes n)" "0 < in_ref (nodes n)"
    "counts_ok (fs[i := f]) (nodes(n := \<lparr>in_ref = in_ref (nodes n) - 1, in_open = in_open (nodes n) - 1\<rparr>))"
proof -
  let ?nodes = "nodes(n := \<lparr>in_ref = in_ref (nodes n) - 1, in_open = in_open (nodes n) - 1\<rparr>)"
  have "int (holders (fs[i := f]) m) \<le> in_open (?nodes m) \<and> in_open (?nodes m) \<le> in_ref (?nodes m)" for m
  proof -
    have c: "int (holders fs m) \<le> in_open (nodes m) \<and> in_open (nodes m) \<le> in_ref (nodes m)"
      using assms(1) unfolding counts_ok_def by blast
    show ?thesis
    proof (cases "m = n")
      case True
      with c assms(3,4) show ?thesis by (simp add: holders_update [OF assms(2)])
    next
      case False
      with assms(3) have "\<not> held m (fs ! i)" by (simp add: held_def)
      with False c assms(4) show ?thesis by (simp add: holders_update [OF assms(2)])
    qed
  qed
  then show "counts_ok (fs[i := f]) ?nodes" unfolding counts_ok_def by blast
  show "0 < in_open (nodes n)" "0 < in_ref (nodes n)"
  proof -
    have "int (holders fs n) \<le> in_open (nodes n)" "in_open (nodes n) \<le> in_ref (nodes n)"
      using assms(1) unfolding counts_ok_def by blast+
    with held_counted [OF assms(2,3)] show "0 < in_open (nodes n)" "0 < in_ref (nodes n)" by linarith+
  qed
qed

lemma count_list_remove1: "k \<in> set rs \<Longrightarrow> count_list (remove1 k rs) i = count_list rs i - (if i = k then 1 else 0)"
  by (induction rs) auto

lemma fd2file_Some:
  assumes "fs_inv s rs"
  shows "\<exists>r i. fd2file fd s = Some (r, i) \<and>
    (r = 0 \<longrightarrow> i < FILES_STRUCT_NENTRY \<and> fd = int i \<and> fl_status (fd_array s ! i) = FD_OPENED)"
proof (cases "testfd fd")
  case True
  then show ?thesis
    using fs_invD(2) [OF assms]
    by (auto simp: fd2file_def testfd_def get_fd_array_def Let_def E_INVAL_def nat_less_iff)
next
  case False
  then show ?thesis by (auto simp: fd2file_def E_INVAL_def)
qed

section \<open>Operations of concurrent users\<close>

lemma entry_cases:
  assumes "entry_ok i f k"
  shows "fl_status f = FD_OPENED \<Longrightarrow> fl_open_count f = 1 + int k \<and> (\<exists>n. fl_node f = Some n \<and> (\<forall>m. held m f \<longleftrightarrow> m = n))"
    and "fl_status f = FD_CLOSED \<Longrightarrow> fl_open_count f = int k \<and> 0 < k \<and> (\<exists>n. fl_node f = Some n \<and> (\<forall>m. held m f \<longleftrightarrow> m = n))"
  using assms by (auto simp: entry_ok_def held_def)

text \<open>The last user of a closed entry frees it.\<close>

lemma fd_array_free_closed:
  assumes inv: "counts_ok (fd_array s) (inodes s)" and i: "i < length (fd_array s)"
    and f: "fl_status (fd_array s ! i) = FD_CLOSED" "fl_open_count (fd_array s ! i) = 0" "fl_node (fd_array s ! i) = Some n"
  shows "\<exists>s'. fd_array_free vo i s = Some s' \<and>
    fd_array s' = (fd_array s)[i := (fd_array s ! i)\<lparr>fl_status := FD_NONE\<rparr>] \<and> files_count s' = files_count s \<and>
    inodes s' = (inodes s)(n := \<lparr>in_ref = in_ref (inodes s n) - 1, in_open = in_open (inodes s n) - 1\<rparr>) \<and>
    (1 < in_open (inodes s n) \<longrightarrow> fs_data s' = fs_data s) \<and>
    counts_ok (fd_array s') (inodes s')"
proof -
  have h: "held n (fd_array s ! i)" using f by (simp add: held_def)
  have nh: "\<not> held m ((fd_array s ! i)\<lparr>fl_status := FD_NONE\<rparr>)" for m by (simp add: held_def)
  note c = counts_ok_close [OF inv i h nh]
  have le: "in_open (inodes s n) \<le> in_ref (inodes s n)" using inv by (simp add: counts_ok_def)
  have "vfs_close vo n s \<noteq> None"
    using c(1,2) by (simp add: vfs_close_def inode_open_dec_def inode_ref_dec_def Let_def)
  then obtain s1 where v: "vfs_close vo n s = Some s1" by blast
  then have s1: "fd_array s1 = fd_array s" "files_count s1 = files_count s"
    "inodes s1 = (inodes s)(n := \<lparr>in_ref = in_ref (inodes s n) - 1, in_open = in_open (inodes s n) - 1\<rparr>)"
    "1 < in_open (inodes s n) \<longrightarrow> fs_data s1 = fs_data s"
    using le by (cases "inodes s n"; auto simp: vfs_close_def inode_open_dec_def inode_ref_dec_def Let_def
        option_bind_eq_Some fun_eq_iff split: if_splits)+
  then show ?thesis using f v c(3) by (simp add: fd_array_free_def Let_def)
qed

lemma drop_spec:
  assumes inv: "counts_ok (fd_array s) (inodes s)" and i: "i < length (fd_array s)"
    and f: "fl_status (fd_array s ! i) = FD_OPENED \<and> 1 < fl_open_count (fd_array s ! i) \<or>
      fl_status (fd_array s ! i) = FD_CLOSED \<and> 0 < fl_open_count (fd_array s ! i)" "fl_node (fd_array s ! i) = Some n"
  defines "g \<equiv> (fd_array s ! i)\<lparr>fl_open_count := fl_open_count (fd_array s ! i) - 1\<rparr>"
  shows "\<exists>s'. fd_array_drop vo i s = Some s' \<and> files_count s' = files_count s \<and>
    fd_array s' = (fd_array s)[i := if fl_open_count g = 0 then g\<lparr>fl_status := FD_NONE\<rparr> else g] \<and>
    inodes s' = (if fl_open_count g = 0
      then (inodes s)(n := \<lparr>in_ref = in_ref (inodes s n) - 1, in_open = in_open (inodes s n) - 1\<rparr>) else inodes s) \<and>
    (1 < in_open (inodes s n) \<longrightarrow> fs_data s' = fs_data s) \<and>
    counts_ok (fd_array s') (inodes s')"
proof -
  let ?s = "upd_file i (\<lambda>f. f\<lparr>fl_open_count := fl_open_count f - 1\<rparr>) s"
  have at: "fd_array ?s ! i = g" using i by (simp add: g_def)
  have "held m g = held m (fd_array s ! i)" for m by (simp add: g_def held_def)
  then have c: "counts_ok (fd_array ?s) (inodes ?s)"
    using counts_ok_same [OF inv i, of g] by (simp add: g_def)
  show ?thesis
  proof (cases "fl_open_count g = 0")
    case True
    then have "fl_status (fd_array s ! i) = FD_CLOSED" using f(1) by (auto simp: g_def)
    then have "fl_status (fd_array ?s ! i) = FD_CLOSED" "fl_open_count (fd_array ?s ! i) = 0"
      "fl_node (fd_array ?s ! i) = Some n" "i < length (fd_array ?s)"
      using at True f(2) i by (simp_all add: g_def)
    from fd_array_free_closed [OF c this(4,1,2,3), of vo] obtain s' where
      "fd_array_free vo i ?s = Some s'" "fd_array s' = (fd_array ?s)[i := g\<lparr>fl_status := FD_NONE\<rparr>]"
      "files_count s' = files_count s"
      "inodes s' = (inodes s)(n := \<lparr>in_ref = in_ref (inodes s n) - 1, in_open = in_open (inodes s n) - 1\<rparr>)"
      "1 < in_open (inodes s n) \<longrightarrow> fs_data s' = fs_data s" "counts_ok (fd_array s') (inodes s')"
      unfolding at by auto
    with True at show ?thesis by (simp add: fd_array_drop_def Let_def)
  next
    case False
    with c at show ?thesis by (simp add: fd_array_drop_def Let_def g_def)
  qed
qed

lemma file_close_spec:
  assumes inv: "fs_inv s rs"
  shows "\<exists>r s'. file_close vo fd s = Some (r, s') \<and> fs_inv s' rs"
proof -
  note d = fs_invD [OF inv]
  from fd2file_Some [OF inv, of fd] obtain r i where
    r: "fd2file fd s = Some (r, i)" "r = 0 \<longrightarrow> i < FILES_STRUCT_NENTRY \<and> fd = int i \<and> fl_status (fd_array s ! i) = FD_OPENED"
    by blast
  show ?thesis
  proof (cases "r = 0")
    case False
    with r inv show ?thesis by (simp add: file_close_def)
  next
    case True
    with r have i: "i < FILES_STRUCT_NENTRY" and op: "fl_status (fd_array s ! i) = FD_OPENED" by auto
    let ?f = "fd_array s ! i" and ?s = "upd_file i (\<lambda>f. f\<lparr>fl_status := FD_CLOSED\<rparr>) s"
    let ?k = "count_list rs i" and ?g = "(fd_array s ! i)\<lparr>fl_status := FD_CLOSED\<rparr>"
    have e: "entry_ok i ?f ?k" by (rule d(3) [OF i])
    from entry_cases(1) [OF e op] obtain n where n: "fl_open_count ?f = 1 + int ?k" "fl_node ?f = Some n" by blast
    have il: "i < length (fd_array s)" using d(1) i by simp
    have at: "fd_array ?s ! i = ?g" using il by simp
    have "held m ?g = held m ?f" for m using op by (simp add: held_def)
    then have "counts_ok ((fd_array s)[i := ?g]) (inodes s)" by (rule counts_ok_same [OF d(5) il])
    then have c: "counts_ok (fd_array ?s) (inodes ?s)" by simp
    have il': "i < length (fd_array ?s)" using il by simp
    have cl: "fl_status (fd_array ?s ! i) = FD_OPENED \<and> 1 < fl_open_count (fd_array ?s ! i) \<or>
      fl_status (fd_array ?s ! i) = FD_CLOSED \<and> 0 < fl_open_count (fd_array ?s ! i)"
      "fl_node (fd_array ?s ! i) = Some n"
      unfolding at using n by simp_all
    from drop_spec [OF c il' cl, of vo, unfolded at] obtain s' where
      s': "fd_array_drop vo i ?s = Some s'" "files_count s' = files_count s"
        "fd_array s' = (fd_array ?s)[i := if int ?k = 0 then ?g\<lparr>fl_open_count := 0, fl_status := FD_NONE\<rparr>
          else ?g\<lparr>fl_open_count := int ?k\<rparr>]"
        "counts_ok (fd_array s') (inodes s')"
      using n(1) by (auto split: if_splits)
    let ?h = "if int ?k = 0 then ?g\<lparr>fl_open_count := 0, fl_status := FD_NONE\<rparr> else ?g\<lparr>fl_open_count := int ?k\<rparr>"
    have arr: "fd_array s' = (fd_array s)[i := ?h]" using s'(3) by simp
    have "entry_ok i ?h ?k" using e n by (simp add: entry_ok_def)
    from fs_inv_update [OF inv i arr s'(2) _ _ this] d(4) s'(4) have "fs_inv s' rs" by (simp add: arr)
    moreover have "file_close vo fd s = Some (0, s')"
      using r(1) True op n s'(1) by (simp add: file_close_def fd_array_close_def)
    ultimately show ?thesis by blast
  qed
qed

lemma fd_array_release_spec:
  assumes inv: "fs_inv s rs" and i: "i \<in> set rs"
  shows "\<exists>s'. fd_array_release vo i s = Some s' \<and> fs_inv s' (remove1 i rs)"
proof -
  note d = fs_invD [OF inv]
  have iN: "i < FILES_STRUCT_NENTRY" using d(4) i .
  let ?f = "fd_array s ! i" and ?k = "count_list rs i"
  have e: "entry_ok i ?f ?k" by (rule d(3) [OF iN])
  have k: "0 < ?k" using i by (metis count_list_0_iff gr0I)
  have il: "i < length (fd_array s)" using d(1) iN by simp
  have st: "fl_status ?f = FD_OPENED \<or> fl_status ?f = FD_CLOSED"
    using e k by (cases "fl_status ?f") (auto simp: entry_ok_def)
  then obtain n where n: "fl_node ?f = Some n"
    using entry_cases [OF e] by blast
  have cnt: "fl_open_count ?f = (if fl_status ?f = FD_OPENED then 1 else 0) + int ?k"
    using e by (simp add: entry_ok_def)
  have "fl_status ?f = FD_OPENED \<and> 1 < fl_open_count ?f \<or> fl_status ?f = FD_CLOSED \<and> 0 < fl_open_count ?f"
    using st cnt k by auto
  from drop_spec [OF d(5) il this n, of vo] obtain s' where
    s': "fd_array_drop vo i s = Some s'" "files_count s' = files_count s"
      "fd_array s' = (fd_array s)[i := if fl_open_count ?f - 1 = 0
        then ?f\<lparr>fl_open_count := fl_open_count ?f - 1, fl_status := FD_NONE\<rparr>
        else ?f\<lparr>fl_open_count := fl_open_count ?f - 1\<rparr>]"
      "counts_ok (fd_array s') (inodes s')" by auto
  let ?h = "if fl_open_count ?f - 1 = 0
        then ?f\<lparr>fl_open_count := fl_open_count ?f - 1, fl_status := FD_NONE\<rparr>
        else ?f\<lparr>fl_open_count := fl_open_count ?f - 1\<rparr>"
  have k': "count_list (remove1 i rs) i = ?k - 1" using i by (simp add: count_list_remove1)
  have "entry_ok i ?h (count_list (remove1 i rs) i)"
    unfolding k' using e k cnt st by (auto simp: entry_ok_def of_nat_diff)
  moreover have "\<And>k. k \<noteq> i \<Longrightarrow> count_list (remove1 i rs) k = count_list rs k"
    using i by (simp add: count_list_remove1)
  moreover have "\<And>k. k \<in> set (remove1 i rs) \<Longrightarrow> k < FILES_STRUCT_NENTRY"
    using d(4) notin_set_remove1 by metis
  ultimately have "fs_inv s' (remove1 i rs)"
    using fs_inv_update [OF inv iN s'(3,2)] s'(4) unfolding s'(3) by blast
  moreover have "fd_array_release vo i s = Some s'"
    using st cnt k s'(1) by (auto simp: fd_array_release_def)
  ultimately show ?thesis by blast
qed

lemma fd_array_acquire_spec:
  assumes inv: "fs_inv s rs" and "fd2file fd s = Some (0, i)"
  shows "\<exists>s'. fd_array_acquire i s = Some s' \<and> fs_inv s' (i # rs)"
proof -
  note d = fs_invD [OF inv]
  from fd2file_Some [OF inv, of fd] assms(2) have i: "i < FILES_STRUCT_NENTRY"
    and op: "fl_status (fd_array s ! i) = FD_OPENED" by auto
  let ?f = "fd_array s ! i"
  let ?g = "?f\<lparr>fl_open_count := fl_open_count ?f + 1\<rparr>"
  have il: "i < length (fd_array s)" using d(1) i by simp
  have e: "entry_ok i ?f (count_list rs i)" by (rule d(3) [OF i])
  let ?s = "upd_file i (\<lambda>f. f\<lparr>fl_open_count := fl_open_count f + 1\<rparr>) s"
  have "held m ?g = held m ?f" for m by (simp add: held_def)
  then have "counts_ok ((fd_array s)[i := ?g]) (inodes s)" by (rule counts_ok_same [OF d(5) il])
  moreover have "entry_ok i ?g (count_list (i # rs) i)" using e op by (simp add: entry_ok_def)
  ultimately have "fs_inv ?s (i # rs)"
    by (intro fs_inv_update [OF inv i, of ?s ?g]) (use d(4) i in auto)
  then show ?thesis using op by (simp add: fd_array_acquire_def)
qed

text \<open>Duplicating: the new entry is a free one, and holds the same inode.\<close>

lemma fd_array_alloc_spec:
  assumes inv: "fs_inv s rs"
  shows "(\<exists>r. fd_array_alloc fd s = Some (r, None, s) \<and> r \<in> {- E_MAX_OPEN, - E_BUSY, - E_INVAL}) \<or>
    (\<exists>j. j < FILES_STRUCT_NENTRY \<and> fl_status (fd_array s ! j) = FD_NONE \<and> (fd \<noteq> NO_FD \<longrightarrow> fd = int j) \<and>
       fd_array_alloc fd s = Some (0, Some j, upd_file j (\<lambda>f. f\<lparr>fl_status := FD_INIT, fl_node := None\<rparr>) s))"
proof -
  note d = fs_invD [OF inv]
  have found: "fd_found j s = Some (0, Some j, upd_file j (\<lambda>f. f\<lparr>fl_status := FD_INIT, fl_node := None\<rparr>) s)"
    if "j < FILES_STRUCT_NENTRY" "fl_status (fd_array s ! j) = FD_NONE" for j
    using d(3) [OF that(1)] that(2) by (simp add: fd_found_def entry_ok_def)
  have get: "get_fd_array s = Some ()" using d(2) by (simp add: get_fd_array_def)
  show ?thesis
  proof (cases "fd = NO_FD")
    case True
    show ?thesis
    proof (cases "find (\<lambda>i. fl_status (fd_array s ! i) = FD_NONE) [0..<FILES_STRUCT_NENTRY]")
      case None
      with True get show ?thesis by (simp add: fd_array_alloc_def)
    next
      case (Some j)
      then have "j < FILES_STRUCT_NENTRY" "fl_status (fd_array s ! j) = FD_NONE"
        by (auto simp: find_Some_iff)
      with found [of j] True get Some show ?thesis by (auto simp: fd_array_alloc_def)
    qed
  next
    case False
    show ?thesis
    proof (cases "testfd fd \<and> fl_status (fd_array s ! nat fd) = FD_NONE")
      case True
      then have "nat fd < FILES_STRUCT_NENTRY" "fd = int (nat fd)" by (auto simp: testfd_def)
      with found [of "nat fd"] True False get show ?thesis
        by (intro disjI2 exI [of _ "nat fd"]) (simp add: fd_array_alloc_def)
    next
      case False2: False
      with False get show ?thesis by (simp add: fd_array_alloc_def)
    qed
  qed
qed

lemma counts_ok_open:
  assumes "counts_ok fs nodes" and "i < length fs" and "\<And>m. \<not> held m (fs ! i)" and "\<And>m. held m f \<longleftrightarrow> m = n"
  shows "counts_ok (fs[i := f]) (nodes(n := \<lparr>in_ref = in_ref (nodes n) + 1, in_open = in_open (nodes n) + 1\<rparr>))"
  using assms(1) unfolding counts_ok_def
  by (simp add: holders_update [OF assms(2)] assms(3,4) del: fun_upd_apply) simp

lemma file_dup_spec:
  assumes inv: "fs_inv s rs"
  shows "\<exists>r s'. file_dup fd1 fd2 s = Some (r, s') \<and> fs_inv s' rs \<and>
    (s' = s \<and> r < 0 \<or> (\<exists>i j n. fd1 = int i \<and> r = int j \<and> i \<noteq> j \<and> j < FILES_STRUCT_NENTRY \<and> (fd2 \<noteq> NO_FD \<longrightarrow> fd2 = int j) \<and>
       fl_status (fd_array s ! i) = FD_OPENED \<and> fl_status (fd_array s ! j) = FD_NONE \<and> fl_node (fd_array s ! i) = Some n \<and>
       fd_array s' = (fd_array s)[j := (fd_array s ! j)\<lparr>fl_status := FD_OPENED, fl_node := Some n, fl_open_count := 1,
         fl_pos := fl_pos (fd_array s ! i), fl_readable := fl_readable (fd_array s ! i),
         fl_writable := fl_writable (fd_array s ! i)\<rparr>] \<and>
       inodes s' = (inodes s)(n := \<lparr>in_ref = in_ref (inodes s n) + 1, in_open = in_open (inodes s n) + 1\<rparr>) \<and>
       fs_data s' = fs_data s))"
proof -
  note d = fs_invD [OF inv]
  from fd2file_Some [OF inv, of fd1] obtain r i where
    r: "fd2file fd1 s = Some (r, i)" "r = 0 \<longrightarrow> i < FILES_STRUCT_NENTRY \<and> fd1 = int i \<and> fl_status (fd_array s ! i) = FD_OPENED"
    by blast
  show ?thesis
  proof (cases "r = 0")
    case False
    then have "r < 0" using r(1) by (auto simp: fd2file_def Let_def E_INVAL_def option_bind_eq_Some split: if_splits)
    with False r(1) inv show ?thesis by (simp add: file_dup_def)
  next
    case True
    with r have i: "i < FILES_STRUCT_NENTRY" "fd1 = int i" and op: "fl_status (fd_array s ! i) = FD_OPENED" by auto
    from entry_cases(1) [OF d(3) [OF i(1)] op] obtain n where n: "fl_node (fd_array s ! i) = Some n" by blast
    from fd_array_alloc_spec [OF inv, of fd2] show ?thesis
    proof (elim disjE exE conjE)
      fix e assume "fd_array_alloc fd2 s = Some (e, None, s)" "e \<in> {- E_MAX_OPEN, - E_BUSY, - E_INVAL}"
      with r(1) True inv show ?thesis
        by (auto simp: file_dup_def E_MAX_OPEN_def E_BUSY_def E_INVAL_def)
    next
      fix j assume j: "j < FILES_STRUCT_NENTRY" "fl_status (fd_array s ! j) = FD_NONE" "fd2 \<noteq> NO_FD \<longrightarrow> fd2 = int j"
        and a: "fd_array_alloc fd2 s = Some (0, Some j, upd_file j (\<lambda>f. f\<lparr>fl_status := FD_INIT, fl_node := None\<rparr>) s)"
      have ne: "i \<noteq> j" using op j(2) by auto
      have il: "i < length (fd_array s)" "j < length (fd_array s)" using d(1) i(1) j(1) by simp_all
      have ej: "entry_ok j (fd_array s ! j) (count_list rs j)" by (rule d(3) [OF j(1)])
      then have cj: "fl_open_count (fd_array s ! j) = 0" "count_list rs j = 0" "fl_fd (fd_array s ! j) = int j"
        using j(2) by (simp_all add: entry_ok_def)
      let ?h = "(fd_array s ! j)\<lparr>fl_status := FD_OPENED, fl_node := Some n, fl_open_count := 1,
         fl_pos := fl_pos (fd_array s ! i), fl_readable := fl_readable (fd_array s ! i),
         fl_writable := fl_writable (fd_array s ! i)\<rparr>"
      have "\<exists>s'. file_dup fd1 fd2 s = Some (int j, s') \<and> fd_array s' = (fd_array s)[j := ?h] \<and>
        files_count s' = files_count s \<and> fs_data s' = fs_data s \<and>
        inodes s' = (inodes s)(n := \<lparr>in_ref = in_ref (inodes s n) + 1, in_open = in_open (inodes s n) + 1\<rparr>)"
        using r(1) True a ne il op n cj
        by (cases "inodes s n"; cases "fd_array s ! j") (simp add: file_dup_def fd_array_dup_def fd_array_open_def inode_ref_inc_def
            inode_open_inc_def Let_def fun_eq_iff)
      then obtain s' where s': "file_dup fd1 fd2 s = Some (int j, s')" "fd_array s' = (fd_array s)[j := ?h]"
        "files_count s' = files_count s" "fs_data s' = fs_data s"
        "inodes s' = (inodes s)(n := \<lparr>in_ref = in_ref (inodes s n) + 1, in_open = in_open (inodes s n) + 1\<rparr>)" by blast
      have nh: "\<not> held m (fd_array s ! j)" for m using j(2) by (simp add: held_def)
      have yh: "held m ?h \<longleftrightarrow> m = n" for m by (auto simp: held_def)
      have "entry_ok j ?h (count_list rs j)" using cj by (simp add: entry_ok_def)
      from fs_inv_update [OF inv j(1) s'(2,3) _ _ this] d(4)
        counts_ok_open [OF d(5) il(2) nh yh] s'(5) have "fs_inv s' rs" by simp
      with s' i(2) ne j op n show ?thesis by blast
    qed
  qed
qed

section \<open>Threads sharing a table\<close>

text \<open>
  Any interleaving of the threads of one process: a thread looks a descriptor up and acquires its
  entry, later releases it, and meanwhile any thread may close or duplicate descriptors.
\<close>

inductive fstep :: "'d vops \<Rightarrow> 'd fs \<times> nat list \<Rightarrow> 'd fs \<times> nat list \<Rightarrow> bool" for vo where
  f_begin: "fd2file fd s = Some (0, i) \<Longrightarrow> fd_array_acquire i s = Some s' \<Longrightarrow> fstep vo (s, rs) (s', i # rs)"
| f_end: "i \<in> set rs \<Longrightarrow> fd_array_release vo i s = Some s' \<Longrightarrow> fstep vo (s, rs) (s', remove1 i rs)"
| f_close: "file_close vo fd s = Some (r, s') \<Longrightarrow> fstep vo (s, rs) (s', rs)"
| f_dup: "file_dup fd1 fd2 s = Some (r, s') \<Longrightarrow> fstep vo (s, rs) (s', rs)"

lemma fstep_inv:
  assumes "fstep vo a b" and "fs_inv (fst a) (snd a)"
  shows "fs_inv (fst b) (snd b)"
  using assms
proof (induction rule: fstep.induct)
  case (f_begin fd s i s' rs)
  with fd_array_acquire_spec [of s rs fd i] show ?case by simp
next
  case (f_end i rs s s')
  with fd_array_release_spec [of s rs i vo] show ?case by simp
next
  case (f_close fd s r s' rs)
  with file_close_spec [of s rs vo fd] show ?case by simp
next
  case (f_dup fd1 fd2 s r s' rs)
  with file_dup_spec [of s rs fd1 fd2] show ?case by auto
qed

lemma fsteps_inv: "(fstep vo)\<^sup>*\<^sup>* a b \<Longrightarrow> fs_inv (fst a) (snd a) \<Longrightarrow> fs_inv (fst b) (snd b)"
  by (induction rule: rtranclp_induct) (auto intro: fstep_inv)

section \<open>Properties\<close>

text \<open>
  C32: However threads that share a table interleave acquires, releases, closes and duplications, no
  assertion of the table or of the inodes fails, each inode is counted at least as often as entries
  hold it, and an entry that is closed while in use stays until its last user releases it.
\<close>

theorem file_table_interleaving:
  assumes "(fstep vo)\<^sup>*\<^sup>* (s0, rs0) (s, rs)" and "fs_inv s0 rs0"
  shows "fs_inv s rs \<and> file_close vo fd s \<noteq> None \<and> file_dup fd fd2 s \<noteq> None \<and>
    (\<forall>i. fd2file fd s = Some (0, i) \<longrightarrow> fd_array_acquire i s \<noteq> None) \<and>
    (\<forall>i \<in> set rs. fd_array_release vo i s \<noteq> None \<and> fl_status (fd_array s ! i) \<in> {FD_OPENED, FD_CLOSED})"
proof -
  from fsteps_inv [OF assms(1)] assms(2) have inv: "fs_inv s rs" by simp
  have "fl_status (fd_array s ! i) \<in> {FD_OPENED, FD_CLOSED}" if "i \<in> set rs" for i
  proof -
    have "0 < count_list rs i" using that by (metis count_list_0_iff gr0I)
    with fs_invD(3) [OF inv fs_invD(4) [OF inv that]] show ?thesis
      by (cases "fl_status (fd_array s ! i)") (auto simp: entry_ok_def)
  qed
  with inv file_close_spec [OF inv, of vo fd] file_dup_spec [OF inv, of fd fd2]
    fd_array_acquire_spec [OF inv, of fd] fd_array_release_spec [OF inv, of _ vo]
  show ?thesis by (metis option.distinct(1))
qed

text \<open>A table with one file open on inode 7, and operations that do nothing.\<close>

definition ex_fs :: "unit fs" where
  "ex_fs = \<lparr>fd_array = (fd_array_init (replicate FILES_STRUCT_NENTRY
       \<lparr>fl_status = FD_NONE, fl_readable = False, fl_writable = False, fl_fd = 0, fl_pos = 0, fl_node = None,
        fl_open_count = 0\<rparr>))
     [0 := \<lparr>fl_status = FD_OPENED, fl_readable = True, fl_writable = False, fl_fd = 0, fl_pos = 9,
        fl_node = Some 7, fl_open_count = 1\<rparr>],
     files_count = 1, files_pwd = None, inodes = (\<lambda>_. \<lparr>in_ref = 0, in_open = 0\<rparr>)(7 := \<lparr>in_ref = 1, in_open = 1\<rparr>),
     fs_mem = (\<lambda>_. NUL), fs_data = ()\<rparr>"

definition ex_vops :: "unit vops" where
  "ex_vops = \<lparr>vo_open = (\<lambda>_ _ s. (0, s)), vo_close = (\<lambda>_ d. d), vo_reclaim = (\<lambda>_ d. d),
     vo_read = (\<lambda>_ iob s. (0, iob, s)), vo_write = (\<lambda>_ iob s. (0, iob, s)), vo_fstat = (\<lambda>_ s. (0, 0, s)),
     vo_tryseek = (\<lambda>_ _ s. (0, s)), vo_fsync = (\<lambda>_ s. (0, s)), vo_truncate = (\<lambda>_ _ s. (0, s)),
     vo_create = (\<lambda>_ _ _ s. (0, None, s)), vo_lookup = (\<lambda>_ s. (0, Some 7, s)),
     vo_lookup_parent = (\<lambda>_ s. (0, 7, [], s))\<rparr>"

lemma ex_fs_inv: "fs_inv ex_fs []"
proof -
  have at: "fd_array ex_fs ! i = (if i = 0
      then \<lparr>fl_status = FD_OPENED, fl_readable = True, fl_writable = False, fl_fd = 0, fl_pos = 9,
        fl_node = Some 7, fl_open_count = 1\<rparr>
      else \<lparr>fl_status = FD_NONE, fl_readable = False, fl_writable = False, fl_fd = int i, fl_pos = 0,
        fl_node = None, fl_open_count = 0\<rparr>)" if "i < FILES_STRUCT_NENTRY" for i
    using that by (simp add: ex_fs_def fd_array_init_def nth_list_update)
  have len: "length (fd_array ex_fs) = FILES_STRUCT_NENTRY" by (simp add: ex_fs_def fd_array_init_def)
  have h: "held n (fd_array ex_fs ! i) \<longleftrightarrow> i = 0 \<and> n = 7" if "i < FILES_STRUCT_NENTRY" for i n
    by (auto simp: at [OF that] held_def)
  have "holders (fd_array ex_fs) n = (if n = 7 then 1 else 0)" for n
  proof -
    have "{i. i < FILES_STRUCT_NENTRY \<and> held n (fd_array ex_fs ! i)} = (if n = 7 then {0} else {})"
      using h by (auto simp: NENTRY)
    then show ?thesis unfolding holders_def length_filter_conv_card len by simp
  qed
  then have "counts_ok (fd_array ex_fs) (inodes ex_fs)"
    by (simp add: counts_ok_def) (simp add: ex_fs_def)
  moreover have "entry_ok i (fd_array ex_fs ! i) 0" if "i < FILES_STRUCT_NENTRY" for i
    by (simp add: at [OF that] entry_ok_def)
  moreover have "files_count ex_fs = 1" by (simp add: ex_fs_def)
  ultimately show ?thesis using len by (simp add: fs_inv_def)
qed

theorem file_table_interleaving_witness:
  "\<exists>s. fstep ex_vops (ex_fs, []) (s, [0]) \<and> file_close ex_vops 0 s \<noteq> None \<and> fd_array_release ex_vops 0 s \<noteq> None"
proof -
  have f: "fd2file 0 ex_fs = Some (0, 0)"
    by (simp add: fd2file_def testfd_def get_fd_array_def NENTRY) (simp add: ex_fs_def fd_array_init_def NENTRY)
  from fd_array_acquire_spec [OF ex_fs_inv f] obtain s where
    a: "fd_array_acquire 0 ex_fs = Some s" by blast
  then have st: "fstep ex_vops (ex_fs, []) (s, [0])" by (rule f_begin [OF f])
  then have "(fstep ex_vops)\<^sup>*\<^sup>* (ex_fs, []) (s, [0])" by (rule r_into_rtranclp)
  from file_table_interleaving [OF this ex_fs_inv, of 0 0] st show ?thesis by auto
qed

text \<open>
  C33: A descriptor made by dup shares the inode and starts at the same position; closing it again
  restores every count and every other entry, and closes nothing below: the data of the file system
  is untouched.
\<close>

theorem dup_close_restores:
  assumes inv: "fs_inv s rs" and "file_dup fd1 NO_FD s = Some (fd2, s1)" and "0 \<le> fd2"
  shows "\<exists>s2. file_close vo fd2 s1 = Some (0, s2) \<and> inodes s2 = inodes s \<and> fs_data s2 = fs_data s \<and>
    fl_pos (fd_array s1 ! nat fd2) = fl_pos (fd_array s ! nat fd1) \<and>
    fl_status (fd_array s2 ! nat fd2) = FD_NONE \<and> (\<forall>k. k \<noteq> nat fd2 \<longrightarrow> fd_array s2 ! k = fd_array s ! k)"
proof -
  note d = fs_invD [OF inv]
  from file_dup_spec [OF inv, of fd1 NO_FD] assms(2,3) obtain i j n where
    fd: "fd1 = int i" "fd2 = int j" "i \<noteq> j" "j < FILES_STRUCT_NENTRY" "fl_node (fd_array s ! i) = Some n"
      "fl_status (fd_array s ! j) = FD_NONE" "fl_status (fd_array s ! i) = FD_OPENED" and inv1: "fs_inv s1 rs" and
    s1: "fd_array s1 = (fd_array s)[j := (fd_array s ! j)\<lparr>fl_status := FD_OPENED, fl_node := Some n, fl_open_count := 1,
         fl_pos := fl_pos (fd_array s ! i), fl_readable := fl_readable (fd_array s ! i),
         fl_writable := fl_writable (fd_array s ! i)\<rparr>]"
      "inodes s1 = (inodes s)(n := \<lparr>in_ref = in_ref (inodes s n) + 1, in_open = in_open (inodes s n) + 1\<rparr>)"
      "fs_data s1 = fs_data s" by auto
  have jl: "j < length (fd_array s)" using d(1) fd(4) by simp
  have fdj: "fl_fd (fd_array s ! j) = int j" using d(3) [OF fd(4)] by (simp add: entry_ok_def)
  have il: "i < length (fd_array s)"
  proof (rule ccontr)
    assume "\<not> i < length (fd_array s)"
    with assms(2,3) fd(1-3) d(1) show False
      by (auto simp: file_dup_def fd2file_def testfd_def E_INVAL_def)
  qed
  have "held n (fd_array s ! i)" using fd(5,7) by (simp add: held_def)
  then have "0 < holders (fd_array s) n" by (rule held_counted [OF il])
  moreover have "int (holders (fd_array s) n) \<le> in_open (inodes s n) \<and> in_open (inodes s n) \<le> in_ref (inodes s n)"
    using d(5) unfolding counts_ok_def by blast
  ultimately have pos: "0 < in_open (inodes s n)" "0 < in_ref (inodes s n)" by linarith+
  let ?s = "upd_file j (\<lambda>f. f\<lparr>fl_open_count := fl_open_count f - 1\<rparr>) (upd_file j (\<lambda>f. f\<lparr>fl_status := FD_CLOSED\<rparr>) s1)"
  have "fd2file fd2 s1 = Some (0, j)"
    using fs_invD(2) [OF inv1] fd(2,4) jl fdj by (simp add: fd2file_def testfd_def get_fd_array_def s1(1))
  moreover have "fd_array_close vo j s1 = fd_array_free vo j ?s"
    using jl by (simp add: fd_array_close_def fd_array_drop_def Let_def s1(1))
  moreover have "\<exists>s2. fd_array_free vo j ?s = Some s2 \<and> inodes s2 = inodes s \<and> fs_data s2 = fs_data s \<and>
      fd_array s2 = (fd_array ?s)[j := (fd_array ?s ! j)\<lparr>fl_status := FD_NONE\<rparr>]"
    using jl pos by (cases "inodes s n")
      (simp add: fd_array_free_def Let_def s1 vfs_close_def inode_open_dec_def inode_ref_dec_def fun_eq_iff)
  ultimately show ?thesis
    using jl fd(1,2) by (auto simp: file_close_def s1(1) nth_list_update)
qed

theorem dup_close_restores_witness:
  "\<exists>s1 s2. file_dup 0 NO_FD ex_fs = Some (1, s1) \<and> file_close ex_vops 1 s1 = Some (0, s2) \<and> inodes s2 = inodes ex_fs"
proof -
  have "map_option fst (file_dup 0 NO_FD ex_fs) = Some 1" by code_simp
  then obtain s1 where s1: "file_dup 0 NO_FD ex_fs = Some (1, s1)" by auto
  from dup_close_restores [OF ex_fs_inv this] s1 show ?thesis by auto
qed

text \<open>
  Opening an existing file with O_CREAT but without O_TRUNC truncates it to length 0, even when
  it is opened for reading only.
\<close>

theorem vfs_open_creat_truncates:
  assumes "vo_lookup vo path s = (0, Some n, s1)" and "vo_open vo n flags s1 = (0, s2)"
    and "flags AND O_ACCMODE \<in> {O_RDONLY, O_WRONLY, O_RDWR}"
    and "flags AND O_CREAT \<noteq> 0" and "flags AND O_TRUNC = 0" and "flags AND O_EXCL = 0"
    and "vo_truncate vo n 0 (inode_open_inc n s2) = (0, s3)"
  shows "vfs_open vo path flags s = Some (0, Some n, s3)"
  using assms by (simp add: vfs_open_def vfs_open_node_def)

theorem vfs_open_creat_truncates_witness:
  "vfs_open (ex_vops\<lparr>vo_truncate := (\<lambda>n len s. (0, s\<lparr>files_count := int len\<rparr>))\<rparr>) ''f'' (O_RDONLY OR O_CREAT) ex_fs =
     Some (0, Some 7, (inode_open_inc 7 ex_fs)\<lparr>files_count := 0\<rparr>)"
  by (rule vfs_open_creat_truncates) (simp_all add: ex_vops_def open_flag_defs)

end
