(* ===== verification/Console.thy ===== *)
theory Console
  imports Vfs Sync File_Table Disk0
begin

text \<open>
  The files of the devices: \<^verbatim>\<open>kern/fs/devs/dev.c\<close>, the keyboard in
  \<^verbatim>\<open>dev_stdin.c\<close>, the screen in \<^verbatim>\<open>dev_stdout.c\<close> and the operations of disk0 behind them. The
  keyboard is a ring of 4096 characters between the interrupt handler and the readers, which sleep
  on a wait queue at the address \<open>q\<close> while it is empty. A read is split at \<^verbatim>\<open>schedule\<close>:
  \<open>stdin_loop\<close> runs with interrupts off up to the end or to sleeping, \<open>stdin_resume\<close> is what
  follows. The positions are natural numbers, as they count the characters ever typed. The last part
  shows that no wake-up is lost and what is lost when the ring is full.
\<close>

section \<open>The keyboard\<close>

definition STDIN_BUFSIZE :: nat where "STDIN_BUFSIZE = 4096"

record tty =
  stdin_buffer :: "nat \<Rightarrow> char"
  p_rpos :: nat
  p_wpos :: nat
  tty_ker :: kernel

text \<open>The character is stored before the test that there is room for it.\<close>

definition dev_stdin_write :: "sched_class \<Rightarrow> nat \<Rightarrow> char \<Rightarrow> tty \<Rightarrow> tty option" where
  "dev_stdin_write sc q c t =
     (if c = NUL then Some t
      else do {
        let t = t\<lparr>stdin_buffer := (stdin_buffer t)(p_wpos t mod STDIN_BUFSIZE := c)\<rparr>;
        let t = (if p_wpos t - p_rpos t < STDIN_BUFSIZE then t\<lparr>p_wpos := p_wpos t + 1\<rparr> else t);
        k \<leftarrow> (if \<not> wait_queue_empty q (tty_ker t) then wakeup_queue sc q WT_KBD True (tty_ker t) else Some (tty_ker t));
        Some (t\<lparr>tty_ker := k\<rparr>) })"

text \<open>
  Whether the caller sleeps now, with the characters read so far; \<open>n\<close> is what is left of the
  request. \<open>w\<close> is the wait on the caller's stack.
\<close>

fun stdin_loop :: "nat \<Rightarrow> nat \<Rightarrow> nat \<Rightarrow> nat \<Rightarrow> nat \<Rightarrow> mem \<Rightarrow> tty \<Rightarrow> (bool \<times> nat \<times> mem \<times> tty) option" where
  "stdin_loop q w buf ret 0 mem t = Some (False, ret, mem, t)"
| "stdin_loop q w buf ret (Suc n) mem t =
     (if p_rpos t < p_wpos t
      then stdin_loop q w (buf + 1) (ret + 1) n (mem(buf := stdin_buffer t (p_rpos t mod STDIN_BUFSIZE)))
        (t\<lparr>p_rpos := p_rpos t + 1\<rparr>)
      else do {
        k \<leftarrow> wait_current_set q w WT_KBD (tty_ker t);
        Some (True, ret, mem, t\<lparr>tty_ker := k\<rparr>) })"

definition stdin_resume ::
  "nat \<Rightarrow> nat \<Rightarrow> nat \<Rightarrow> nat \<Rightarrow> nat \<Rightarrow> mem \<Rightarrow> tty \<Rightarrow> (bool \<times> nat \<times> mem \<times> tty) option"
where
  "stdin_resume q w buf len ret mem t = do {
     k \<leftarrow> wait_current_del q w (tty_ker t);
     let t = t\<lparr>tty_ker := k\<rparr>;
     if w_flags (waits k w) = WT_KBD then stdin_loop q w (buf + ret) ret (len - ret) mem t
     else Some (False, ret, mem, t) }"

text \<open>\<open>switch\<close> is what the machine does from \<^verbatim>\<open>schedule\<close> until the caller runs again.\<close>

type_synonym tty_switch = "mem \<times> tty \<Rightarrow> (mem \<times> tty) option"

partial_function (option) stdin_wait ::
  "tty_switch \<Rightarrow> nat \<Rightarrow> nat \<Rightarrow> nat \<Rightarrow> nat \<Rightarrow> bool \<times> nat \<times> mem \<times> tty \<Rightarrow> (nat \<times> mem \<times> tty) option"
where
  "stdin_wait switch q w buf len r = (case r of (asleep, ret, mem, t) \<Rightarrow>
     if asleep then do {
       (mem, t) \<leftarrow> switch (mem, t);
       r \<leftarrow> stdin_resume q w buf len ret mem t;
       stdin_wait switch q w buf len r }
     else Some (ret, mem, t))"

definition dev_stdin_read ::
  "tty_switch \<Rightarrow> nat \<Rightarrow> nat \<Rightarrow> nat \<Rightarrow> nat \<Rightarrow> mem \<Rightarrow> tty \<Rightarrow> (nat \<times> mem \<times> tty) option"
where
  "dev_stdin_read switch q w buf len mem t = do {
     r \<leftarrow> stdin_loop q w buf 0 len mem t;
     stdin_wait switch q w buf len r }"

definition stdin_open :: "u32 \<Rightarrow> int" where
  "stdin_open open_flags = (if open_flags \<noteq> O_RDONLY then - E_INVAL else 0)"

definition stdin_close :: int where "stdin_close = 0"

definition stdin_io ::
  "tty_switch \<Rightarrow> nat \<Rightarrow> nat \<Rightarrow> iobuf \<Rightarrow> bool \<Rightarrow> mem \<Rightarrow> tty \<Rightarrow> (int \<times> iobuf \<times> mem \<times> tty) option"
where
  "stdin_io switch q w iob write mem t =
     (if \<not> write then do {
        (ret, mem, t) \<leftarrow> dev_stdin_read switch q w (io_base iob) (io_resid iob) mem t;
        Some (int ret, if ret > 0 then iob\<lparr>io_resid := io_resid iob - ret\<rparr> else iob, mem, t) }
      else Some (- E_INVAL, iob, mem, t))"

definition stdin_ioctl :: "int \<Rightarrow> int" where "stdin_ioctl op = - E_INVAL"

text \<open>What the initialisers write into \<^verbatim>\<open>struct device\<close>, and the empty ring.\<close>

definition stdin_device_init :: "nat \<Rightarrow> 'd device \<Rightarrow> tty \<Rightarrow> 'd device \<times> tty" where
  "stdin_device_init q dev t =
     (dev\<lparr>device.d_blocks := 0, d_blocksize := 1\<rparr>,
      t\<lparr>p_rpos := 0, p_wpos := 0, tty_ker := wait_queue_init q (tty_ker t)\<rparr>)"

section \<open>The screen\<close>

definition stdout_open :: "u32 \<Rightarrow> int" where
  "stdout_open open_flags = (if open_flags \<noteq> O_WRONLY then - E_INVAL else 0)"

definition stdout_close :: int where "stdout_close = 0"

text \<open>\<^verbatim>\<open>cputchar\<close> puts a character at the end of the screen.\<close>

fun stdout_loop :: "nat \<Rightarrow> nat \<Rightarrow> mem \<Rightarrow> string \<Rightarrow> string" where
  "stdout_loop dat 0 mem screen = screen"
| "stdout_loop dat (Suc n) mem screen = stdout_loop (dat + 1) n mem (screen @ [mem dat])"

definition stdout_io :: "iobuf \<Rightarrow> bool \<Rightarrow> mem \<Rightarrow> string \<Rightarrow> int \<times> iobuf \<times> string" where
  "stdout_io iob write mem screen =
     (if write then (0, iob\<lparr>io_resid := 0\<rparr>, stdout_loop (io_base iob) (io_resid iob) mem screen)
      else (- E_INVAL, iob, screen))"

definition stdout_ioctl :: "int \<Rightarrow> int" where "stdout_ioctl op = - E_INVAL"

definition stdout_device_init :: "'d device \<Rightarrow> 'd device" where
  "stdout_device_init dev = dev\<lparr>device.d_blocks := 0, d_blocksize := 1\<rparr>"

section \<open>The operations of a device (dev.c)\<close>

text \<open>
  The function pointers of \<^verbatim>\<open>struct device\<close> are the choice of the driver. Positions of a disk are
  not negative, as \<open>dev_tryseek\<close> refuses others; its driver has moved the whole request when it
  returns 0.
\<close>

datatype driver = Stdin | Stdout | Disk

record devs =
  keyboard :: tty
  screen :: string
  disk :: disk0

definition dop_open :: "driver \<Rightarrow> u32 \<Rightarrow> int" where
  "dop_open drv open_flags = (case drv of
     Stdin \<Rightarrow> stdin_open open_flags | Stdout \<Rightarrow> stdout_open open_flags | Disk \<Rightarrow> disk0_open (unat open_flags))"

definition dop_close :: "driver \<Rightarrow> int" where
  "dop_close drv = (case drv of Stdin \<Rightarrow> stdin_close | Stdout \<Rightarrow> stdout_close | Disk \<Rightarrow> disk0_close)"

definition store_bytes :: "nat \<Rightarrow> bytes \<Rightarrow> mem \<Rightarrow> mem" where
  "store_bytes a bs mem = (\<lambda>x. if a \<le> x \<and> x < a + length bs then bs ! (x - a) else mem x)"

definition dop_io ::
  "tty_switch \<Rightarrow> nat \<Rightarrow> nat \<Rightarrow> driver \<Rightarrow> iobuf \<Rightarrow> bool \<Rightarrow> mem \<Rightarrow> devs \<Rightarrow> (int \<times> iobuf \<times> mem \<times> devs) option"
where
  "dop_io switch q w drv iob write mem s = (case drv of
     Stdin \<Rightarrow> do {
       (ret, iob, mem, t) \<leftarrow> stdin_io switch q w iob write mem (keyboard s);
       Some (ret, iob, mem, s\<lparr>keyboard := t\<rparr>) }
   | Stdout \<Rightarrow>
       (let (ret, iob, scr) = stdout_io iob write mem (screen s) in Some (ret, iob, mem, s\<lparr>screen := scr\<rparr>))
   | Disk \<Rightarrow> do {
       let buf = map mem [io_base iob..<io_base iob + io_resid iob];
       (ret, buf, d) \<leftarrow> disk0_io (nat (io_offset iob)) buf write (disk s);
       iob' \<leftarrow> (if ret = 0 then iobuf_skip iob (io_resid iob) else Some iob);
       Some (ret, iob', if write then mem else store_bytes (io_base iob) buf mem, s\<lparr>disk := d\<rparr>) })"

definition dop_ioctl :: "driver \<Rightarrow> int \<Rightarrow> int" where
  "dop_ioctl drv op = (case drv of Stdin \<Rightarrow> stdin_ioctl op | Stdout \<Rightarrow> stdout_ioctl op | Disk \<Rightarrow> disk0_ioctl op)"

definition dev_open :: "driver \<Rightarrow> u32 \<Rightarrow> int" where
  "dev_open drv open_flags =
     (if open_flags AND (O_CREAT OR O_TRUNC OR O_EXCL OR O_APPEND) \<noteq> 0 then - E_INVAL else dop_open drv open_flags)"

definition dev_close :: "driver \<Rightarrow> int" where "dev_close drv = dop_close drv"

definition dev_read ::
  "tty_switch \<Rightarrow> nat \<Rightarrow> nat \<Rightarrow> driver \<Rightarrow> iobuf \<Rightarrow> mem \<Rightarrow> devs \<Rightarrow> (int \<times> iobuf \<times> mem \<times> devs) option"
where
  "dev_read switch q w drv iob mem s = dop_io switch q w drv iob False mem s"

definition dev_write ::
  "tty_switch \<Rightarrow> nat \<Rightarrow> nat \<Rightarrow> driver \<Rightarrow> iobuf \<Rightarrow> mem \<Rightarrow> devs \<Rightarrow> (int \<times> iobuf \<times> mem \<times> devs) option"
where
  "dev_write switch q w drv iob mem s = dop_io switch q w drv iob True mem s"

definition dev_ioctl :: "driver \<Rightarrow> int \<Rightarrow> int" where "dev_ioctl drv op = dop_ioctl drv op"

definition dev_fstat :: "'d device \<Rightarrow> (int \<times> stat) option" where
  "dev_fstat d = do {
     dev_check d;
     let (ret, type) = dev_gettype d;
     if ret \<noteq> 0 then Some (ret, \<lparr>st_mode = type, st_nlinks = 0, st_blocks = 0, st_size = 0\<rparr>)
     else Some (0, \<lparr>st_mode = type, st_nlinks = 1, st_blocks = device.d_blocks d,
       st_size = device.d_blocks d * d_blocksize d\<rparr>) }"

definition dev_tryseek :: "'d device \<Rightarrow> int \<Rightarrow> int" where
  "dev_tryseek d pos =
     (if device.d_blocks d > 0 \<and> pos mod int (d_blocksize d) = 0 \<and> pos \<ge> 0 \<and>
        pos < int (device.d_blocks d * d_blocksize d) then 0 else - E_INVAL)"

section \<open>Initialisation\<close>

definition dev_create_inode :: "'d vfs \<Rightarrow> nat option \<times> 'd vfs" where
  "dev_create_inode s = (case kheap s of
     [] \<Rightarrow> (None, s)
   | n # h \<Rightarrow> (Some n, upd_device n (\<lambda>d. d\<lparr>dv_ref := 1, dv_open := 0\<rparr>) (s\<lparr>kheap := h\<rparr>)))"

definition dev_init_stdin :: "nat \<Rightarrow> 'd vfs \<Rightarrow> tty \<Rightarrow> ('d vfs \<times> tty) option" where
  "dev_init_stdin q s t = do {
     let (node, s) = dev_create_inode s;
     n \<leftarrow> node;
     let (dev, t) = stdin_device_init q (devices s n) t;
     (ret, s) \<leftarrow> vfs_add_dev ''stdin'' (Some n) False (upd_device n (\<lambda>_. dev) s);
     kassert (ret = 0);
     Some (s, t) }"

definition dev_init_stdout :: "'d vfs \<Rightarrow> 'd vfs option" where
  "dev_init_stdout s = do {
     let (node, s) = dev_create_inode s;
     n \<leftarrow> node;
     (ret, s) \<leftarrow> vfs_add_dev ''stdout'' (Some n) False (upd_device n stdout_device_init s);
     kassert (ret = 0);
     Some s }"

text \<open>\<open>mem\<close> is whether there is memory for the buffer of the disk; \<open>d\<close> is the disk.\<close>

definition dev_init_disk0 :: "bool \<Rightarrow> disk0 \<Rightarrow> disk0 vfs \<Rightarrow> disk0 vfs option" where
  "dev_init_disk0 mem d s = do {
     let (node, s) = dev_create_inode s;
     n \<leftarrow> node;
     d \<leftarrow> disk0_device_init mem d;
     let s = upd_device n (\<lambda>dev. dev\<lparr>device.d_blocks := disk0.d_blocks d, d_blocksize := DISK0_BLKSIZE, dv_data := d\<rparr>) s;
     (ret, s) \<leftarrow> vfs_add_dev ''disk0'' (Some n) True s;
     kassert (ret = 0);
     Some s }"

definition dev_init :: "nat \<Rightarrow> bool \<Rightarrow> disk0 \<Rightarrow> disk0 vfs \<Rightarrow> tty \<Rightarrow> (disk0 vfs \<times> tty) option" where
  "dev_init q mem d s t = do {
     (s, t) \<leftarrow> dev_init_stdin q s t;
     s \<leftarrow> dev_init_stdout s;
     s \<leftarrow> dev_init_disk0 mem d s;
     Some (s, t) }"

section \<open>The ring as a queue\<close>

definition unread :: "tty \<Rightarrow> string" where
  "unread t = map (\<lambda>i. stdin_buffer t (i mod STDIN_BUFSIZE)) [p_rpos t..<p_wpos t]"

definition ring_ok :: "tty \<Rightarrow> bool" where
  "ring_ok t \<longleftrightarrow> p_rpos t \<le> p_wpos t \<and> p_wpos t \<le> p_rpos t + STDIN_BUFSIZE"

lemma length_unread: "length (unread t) = p_wpos t - p_rpos t"
  by (simp add: unread_def)

lemma unread_ker [simp]: "unread (t\<lparr>tty_ker := k\<rparr>) = unread t" "ring_ok (t\<lparr>tty_ker := k\<rparr>) = ring_ok t"
  by (simp_all add: unread_def ring_ok_def)

lemma unread_Cons:
  "p_rpos t < p_wpos t \<Longrightarrow>
    unread t = stdin_buffer t (p_rpos t mod STDIN_BUFSIZE) # unread (t\<lparr>p_rpos := p_rpos t + 1\<rparr>)"
  by (simp add: unread_def upt_conv_Cons)

lemma ring_apart:
  assumes "i < j" and "j < i + STDIN_BUFSIZE"
  shows "i mod STDIN_BUFSIZE \<noteq> j mod STDIN_BUFSIZE"
proof
  assume "i mod STDIN_BUFSIZE = j mod STDIN_BUFSIZE"
  then have "STDIN_BUFSIZE dvd j - i" using assms(1) mod_eq_dvd_iff_nat [of i j] by (metis less_imp_le)
  with assms show False by (auto dest: dvd_imp_le)
qed

text \<open>A character is added at the end, or, on a full ring, takes the place of the oldest.\<close>

definition ring_write :: "char \<Rightarrow> tty \<Rightarrow> tty" where
  "ring_write c t = (let t = t\<lparr>stdin_buffer := (stdin_buffer t)(p_wpos t mod STDIN_BUFSIZE := c)\<rparr> in
     if p_wpos t - p_rpos t < STDIN_BUFSIZE then t\<lparr>p_wpos := p_wpos t + 1\<rparr> else t)"

lemma ring_write_unread:
  assumes ok: "ring_ok t"
  shows "ring_ok (ring_write c t)" "tty_ker (ring_write c t) = tty_ker t"
    "unread (ring_write c t) = (if length (unread t) < STDIN_BUFSIZE then unread t @ [c] else c # tl (unread t))"
proof -
  show "ring_ok (ring_write c t)" "tty_ker (ring_write c t) = tty_ker t"
    using ok by (auto simp: ring_write_def ring_ok_def Let_def)
  let ?b = "(stdin_buffer t)(p_wpos t mod STDIN_BUFSIZE := c)"
  show "unread (ring_write c t) = (if length (unread t) < STDIN_BUFSIZE then unread t @ [c] else c # tl (unread t))"
  proof (cases "p_wpos t - p_rpos t < STDIN_BUFSIZE")
    case True
    have "?b (i mod STDIN_BUFSIZE) = stdin_buffer t (i mod STDIN_BUFSIZE)" if "p_rpos t \<le> i" "i < p_wpos t" for i
      using ring_apart [of i "p_wpos t"] that True by auto
    then have "map (\<lambda>i. ?b (i mod STDIN_BUFSIZE)) [p_rpos t..<p_wpos t] = unread t"
      unfolding unread_def by (intro map_cong) auto
    with True ok show ?thesis by (simp add: ring_write_def Let_def length_unread unread_def ring_ok_def)
  next
    case False
    then have w: "p_wpos t = p_rpos t + STDIN_BUFSIZE" using ok unfolding ring_ok_def by arith
    have lt: "p_rpos t < p_wpos t" by (simp add: w STDIN_BUFSIZE_def)
    have "?b (i mod STDIN_BUFSIZE) = stdin_buffer t (i mod STDIN_BUFSIZE)" if "p_rpos t < i" "i < p_wpos t" for i
      using ring_apart [of "p_rpos t" i] that w by auto
    then have "map (\<lambda>i. ?b (i mod STDIN_BUFSIZE)) [Suc (p_rpos t)..<p_wpos t] =
        map (\<lambda>i. stdin_buffer t (i mod STDIN_BUFSIZE)) [Suc (p_rpos t)..<p_wpos t]"
      by (intro map_cong) auto
    moreover have "?b (p_rpos t mod STDIN_BUFSIZE) = c" by (simp add: w)
    ultimately show ?thesis using False lt
      by (simp add: ring_write_def Let_def length_unread) (simp add: unread_def upt_conv_Cons)
  qed
qed

lemma stdin_write_ring:
  assumes "c \<noteq> NUL"
  shows "dev_stdin_write sc q c t = (if wqueues (tty_ker t) q = [] then Some (ring_write c t)
    else map_option (\<lambda>k. ring_write c t\<lparr>tty_ker := k\<rparr>) (wakeup_queue sc q WT_KBD True (tty_ker t)))"
  using assms
  by (auto simp: dev_stdin_write_def ring_write_def Let_def wait_queue_empty_def option.map_comp comp_def
      split: option.splits bind_splits)

text \<open>A read takes characters off the front, and sleeps if and only if that leaves none for the rest.\<close>

lemma stdin_loop_spec:
  assumes "stdin_loop q w buf ret n mem t = Some (asleep, ret', mem', t')" and "ring_ok t"
  shows "ret' = ret + min n (length (unread t)) \<and> (asleep \<longleftrightarrow> length (unread t) < n) \<and>
    unread t' = drop n (unread t) \<and> ring_ok t' \<and>
    map mem' [buf..<buf + min n (length (unread t))] = take n (unread t) \<and>
    (\<forall>a. a < buf \<or> buf + n \<le> a \<longrightarrow> mem' a = mem a) \<and>
    (if asleep then wait_current_set q w WT_KBD (tty_ker t) = Some (tty_ker t') else tty_ker t' = tty_ker t)"
  using assms
proof (induction n arbitrary: buf ret mem t)
  case 0
  then show ?case by simp
next
  case (Suc n)
  show ?case
  proof (cases "p_rpos t < p_wpos t")
    case False
    then have "unread t = []" by (simp add: unread_def)
    with False Suc.prems show ?thesis by (auto simp: bind_cases)
  next
    case True
    let ?t = "t\<lparr>p_rpos := p_rpos t + 1\<rparr>" and ?c = "stdin_buffer t (p_rpos t mod STDIN_BUFSIZE)"
    from True Suc.prems(1) have l: "stdin_loop q w (buf + 1) (ret + 1) n (mem(buf := ?c)) ?t = Some (asleep, ret', mem', t')"
      by simp
    have ok: "ring_ok ?t" using Suc.prems(2) True by (simp add: ring_ok_def)
    note u = unread_Cons [OF True] and ih = Suc.IH [OF l ok]
    have "mem' buf = ?c" using ih by simp
    define r where "r = min n (length (unread ?t))"
    have "map mem' [buf + 1..<buf + 1 + r] = take n (unread ?t)" using ih by (simp only: r_def)
    moreover have "[buf..<buf + Suc r] = buf # [buf + 1..<buf + 1 + r]" by (subst upt_conv_Cons) simp_all
    moreover have "min (Suc n) (length (unread t)) = Suc r" by (simp only: u r_def list.size min_Suc_Suc)
    ultimately have "map mem' [buf..<buf + min (Suc n) (length (unread t))] = take (Suc n) (unread t)"
      using \<open>mem' buf = ?c\<close> u by simp
    moreover have "tty_ker ?t = tty_ker t" by simp
    ultimately show ?thesis using ih unfolding u by (auto simp: Suc_le_eq)
  qed
qed

section \<open>Readers and the interrupt handler\<close>

context sched_class_laws
begin

lemma wait_current_set_spec:
  assumes ok: "sched_ok ready inv L k" and wq: "wqueue_ok L q k" and idle: "idleproc k \<in> L"
    and fresh: "w \<notin> set (wqueues k q)" and r: "wait_current_set q w ws k = Some k'"
  shows "sched_ok ready inv L k'" "wqueue_ok L q k'" "idleproc k' \<in> L" "wqueues k' = (wqueues k)(q := wqueues k q @ [w])"
proof -
  let ?c = "current k" and ?f = "\<lambda>p. p\<lparr>p_state := PROC_SLEEPING, p_wait_state := ws\<rparr>"
  define k1 where "k1 = upd_wait w (\<lambda>x. x\<lparr>w_proc := Some ?c, w_flags := WT_INTERRUPTED, w_queue := q\<rparr>) k"
  have c1: "current k1 = ?c" by (simp add: k1_def)
  have "k' = upd_wqueue q (\<lambda>ws. ws @ [w]) (upd_wait w (\<lambda>x. x\<lparr>w_queue := q\<rparr>)
      (upd_proc ?c (\<lambda>p. p\<lparr>p_wait_state := ws\<rparr>) (upd_proc ?c (\<lambda>p. p\<lparr>p_state := PROC_SLEEPING\<rparr>) (wait_init w ?c k))))"
    using r by (auto simp: wait_current_set_def wait_queue_add_def wait_init_def Let_def kassert_bind_Some split: if_splits)
  then have k': "k' = upd_wqueue q (\<lambda>ws. ws @ [w]) (upd_proc ?c ?f k1)"
    by (simp add: k1_def wait_init_def upd_proc_def wait_updates)
  have "sched_ok ready inv L k1" using ok by (simp add: k1_def)
  then have "sched_ok ready inv L (upd_proc (current k1) ?f k1)" by (rule sched_ok_upd_current) simp
  then show "sched_ok ready inv L k'" by (simp add: k' c1)
  show "idleproc k' \<in> L" using idle by (simp add: k' k1_def)
  show wqs: "wqueues k' = (wqueues k)(q := wqueues k q @ [w])" by (auto simp: k' k1_def)
  have cL: "?c \<in> L" using ok by (simp add: sched_ok_def)
  have proj: "w_queue (waits k' v) = (if v = w then q else w_queue (waits k v))"
    "w_proc (waits k' v) = (if v = w then Some ?c else w_proc (waits k v))"
    "p_state (procs k' p) = (if p = ?c then PROC_SLEEPING else p_state (procs k p))" for v p
    by (auto simp: k' k1_def)
  show "wqueue_ok L q k'"
    unfolding wqueue_ok_def
  proof (intro conjI ballI)
    show "distinct (wqueues k' q)" using wq fresh by (simp add: wqs wqueue_ok_def)
    fix v assume v: "v \<in> set (wqueues k' q)"
    show "w_queue (waits k' v) = q" using v wq by (auto simp: wqs proj wqueue_ok_def)
    show "\<exists>p \<in> L. w_proc (waits k' v) = Some p \<and> p_state (procs k' p) \<noteq> PROC_ZOMBIE"
    proof (cases "v = w")
      case True
      with cL show ?thesis by (simp add: proj)
    next
      case False
      with v wq obtain p where "p \<in> L" "w_proc (waits k v) = Some p" "p_state (procs k p) \<noteq> PROC_ZOMBIE"
        unfolding wqs wqueue_ok_def by auto
      with False show ?thesis by (intro bexI [of _ p]) (simp_all add: proj)
    qed
  qed
qed

lemma wait_current_del_spec:
  assumes ok: "sched_ok ready inv L k" and wq: "wqueue_ok L q k" and w: "w_queue (waits k w) = q"
  obtains k' where "wait_current_del q w k = Some k'" and "sched_ok ready inv L k'" and "wqueue_ok L q k'"
    and "idleproc k' = idleproc k" and "waits k' = waits k" and "wqueues k' = (wqueues k)(q := remove1 w (wqueues k q))"
    and "w \<notin> set (wqueues k' q)"
proof -
  let ?k = "upd_wqueue q (remove1 w) k"
  have d: "distinct (wqueues k q)" using wq by (simp add: wqueue_ok_def)
  have "wqueue_ok L q ?k"
    using wq unfolding wqueue_ok_def by (auto dest: notin_set_remove1 intro: distinct_remove1)
  moreover have "upd_wqueue q (remove1 w) k = k" if "w \<notin> set (wqueues k q)"
    using that by (simp add: upd_wqueue_def remove1_idem fun_upd_idem)
  then have "wait_current_del q w k = Some ?k"
    using w by (simp add: wait_current_del_def wait_queue_del_def wait_in_queue_def)
  moreover have "wqueues ?k = (wqueues k)(q := remove1 w (wqueues k q))" by (simp add: fun_eq_iff)
  moreover have "sched_ok ready inv L ?k" using ok by simp
  ultimately show thesis using d by (intro that [of ?k]) simp_all
qed

end

text \<open>
  The runs: a key is pressed, the running process reads or goes on reading and leaves the processor
  if it has to sleep, a process is woken from elsewhere, or the running process is preempted. With
  them go what was typed, what was delivered, and whether a key has come on a full ring.
\<close>

type_synonym kbd_state = "tty \<times> string \<times> string \<times> bool"

definition leave :: "sched_class \<Rightarrow> bool \<Rightarrow> tty \<Rightarrow> tty option" where
  "leave sc asleep t = (if asleep then map_option (\<lambda>k. t\<lparr>tty_ker := k\<rparr>) (schedule sc (tty_ker t)) else Some t)"

inductive kbd_step :: "sched_class \<Rightarrow> nat \<Rightarrow> nat set \<Rightarrow> kbd_state \<Rightarrow> kbd_state \<Rightarrow> bool"
  for sc q L
where
  key: "c \<noteq> NUL \<Longrightarrow> dev_stdin_write sc q c t = Some t' \<Longrightarrow>
    kbd_step sc q L (t, typed, got, full) (t', typed @ [c], got, full \<or> length (unread t) = STDIN_BUFSIZE)"
| read: "w \<notin> set (wqueues (tty_ker t) q) \<Longrightarrow> stdin_loop q w buf 0 len mem t = Some (asleep, ret, mem', t1) \<Longrightarrow>
    leave sc asleep t1 = Some t' \<Longrightarrow>
    kbd_step sc q L (t, typed, got, full) (t', typed, got @ map mem' [buf..<buf + ret], full)"
| resume: "w_queue (waits (tty_ker t) w) = q \<Longrightarrow> ret \<le> len \<Longrightarrow>
    stdin_resume q w buf len ret mem t = Some (asleep, ret', mem', t1) \<Longrightarrow> leave sc asleep t1 = Some t' \<Longrightarrow>
    kbd_step sc q L (t, typed, got, full) (t', typed, got @ map mem' [buf + ret..<buf + ret'], full)"
| wake: "p \<in> L \<Longrightarrow> p_state (procs (tty_ker t) p) \<noteq> PROC_ZOMBIE \<Longrightarrow> wakeup_proc sc p (tty_ker t) = Some k \<Longrightarrow>
    kbd_step sc q L (t, typed, got, full) (t\<lparr>tty_ker := k\<rparr>, typed, got, full)"
| preempt: "schedule sc (tty_ker t) = Some k \<Longrightarrow>
    kbd_step sc q L (t, typed, got, full) (t\<lparr>tty_ker := k\<rparr>, typed, got, full)"

definition kbd_inv ::
  "(kernel \<Rightarrow> nat set) \<Rightarrow> (kernel \<Rightarrow> bool) \<Rightarrow> nat \<Rightarrow> nat set \<Rightarrow> kbd_state \<Rightarrow> bool"
where
  "kbd_inv ready rqinv q L = (\<lambda>(t, typed, got, full). ring_ok t \<and> sched_ok ready rqinv L (tty_ker t) \<and>
     wqueue_ok L q (tty_ker t) \<and> idleproc (tty_ker t) \<in> L \<and> (wqueues (tty_ker t) q \<noteq> [] \<longrightarrow> unread t = []) \<and>
     (\<not> full \<longrightarrow> got @ unread t = typed))"

context sched_class_laws
begin

lemma wqueue_ok_states:
  assumes "wqueue_ok L q k" and "wqueues k' q = wqueues k q" and "waits k' = waits k"
    and "\<And>p. p_state (procs k p) \<noteq> PROC_ZOMBIE \<Longrightarrow> p_state (procs k' p) \<noteq> PROC_ZOMBIE"
  shows "wqueue_ok L q k'"
  using assms unfolding wqueue_ok_def by (metis (no_types, lifting))

lemma leave_inv:
  assumes "leave sc asleep t = Some t'" and "kbd_inv ready inv q L (t, typed, got, full)"
  shows "kbd_inv ready inv q L (t', typed, got, full)"
proof (cases asleep)
  case False
  with assms show ?thesis by (simp add: leave_def)
next
  case True
  with assms(1) obtain k where k: "schedule sc (tty_ker t) = Some k" "t' = t\<lparr>tty_ker := k\<rparr>" by (auto simp: leave_def)
  from assms(2) have i: "sched_ok ready inv L (tty_ker t)" "idleproc (tty_ker t) \<in> L" "wqueue_ok L q (tty_ker t)"
    by (simp_all add: kbd_inv_def)
  from schedule_spec [OF i(1,2)] k(1) have s: "sched_ok ready inv L k" "idleproc k = idleproc (tty_ker t)"
    "\<And>p. p_state (procs k p) = p_state (procs (tty_ker t) p)" "switch_frame (tty_ker t) k" by auto
  have w: "wqueues k = wqueues (tty_ker t)" "waits k = waits (tty_ker t)" using s(4) by (simp_all add: switch_frame_iff)
  have "wqueue_ok L q k" by (rule wqueue_ok_states [OF i(3)]) (simp_all add: w s(3))
  with assms(2) s(1,2) i(2) w(1) k(2) show ?thesis by (simp add: kbd_inv_def)
qed

text \<open>A piece of a read with interrupts off.\<close>

lemma stdin_loop_inv:
  assumes inv: "kbd_inv ready inv q L (t, typed, got, full)" and fresh: "w \<notin> set (wqueues (tty_ker t) q)"
    and l: "stdin_loop q w buf ret n mem t = Some (asleep, ret', mem', t')"
  shows "kbd_inv ready inv q L (t', typed, got @ map mem' [buf..<buf + (ret' - ret)], full)"
proof -
  from inv have i: "ring_ok t" "sched_ok ready inv L (tty_ker t)" "wqueue_ok L q (tty_ker t)" "idleproc (tty_ker t) \<in> L"
    "wqueues (tty_ker t) q \<noteq> [] \<Longrightarrow> unread t = []" "\<not> full \<Longrightarrow> got @ unread t = typed"
    by (simp_all add: kbd_inv_def)
  note s = stdin_loop_spec [OF l i(1)]
  have m: "map mem' [buf..<buf + (ret' - ret)] = take n (unread t)" using s by simp
  have u: "unread t' = drop n (unread t)" using s by simp
  show ?thesis
  proof (cases asleep)
    case False
    with s have "tty_ker t' = tty_ker t" "ring_ok t'" by simp_all
    with i u m show ?thesis by (auto simp: kbd_inv_def)
  next
    case True
    with s have "wait_current_set q w WT_KBD (tty_ker t) = Some (tty_ker t')" "ring_ok t'" "length (unread t) < n" by simp_all
    with wait_current_set_spec [OF i(2,3,4) fresh] i(6) u m show ?thesis by (simp add: kbd_inv_def)
  qed
qed

lemma kbd_step_inv:
  assumes "kbd_step sc q L st st'" and "kbd_inv ready inv q L st"
  shows "kbd_inv ready inv q L st'"
  using assms
proof cases
  case (key c t t' typed got full)
  with assms(2) have i: "ring_ok t" "sched_ok ready inv L (tty_ker t)" "wqueue_ok L q (tty_ker t)" "idleproc (tty_ker t) \<in> L"
    "wqueues (tty_ker t) q \<noteq> [] \<Longrightarrow> unread t = []" "\<not> full \<Longrightarrow> got @ unread t = typed"
    by (simp_all add: kbd_inv_def)
  note r = ring_write_unread [OF i(1), of c]
  have le: "length (unread t) \<le> STDIN_BUFSIZE" using i(1) unfolding length_unread ring_ok_def by arith
  have "\<exists>k. t' = ring_write c t\<lparr>tty_ker := k\<rparr> \<and> sched_ok ready inv L k \<and> idleproc k \<in> L \<and> wqueues k q = []"
  proof (cases "wqueues (tty_ker t) q = []")
    case True
    with key i r(2) show ?thesis by (intro exI [of _ "tty_ker t"]) (simp add: stdin_write_ring)
  next
    case False
    with key wakeup_queue_del_spec [OF i(2,3), of WT_KBD] i(4) show ?thesis by (auto simp: stdin_write_ring)
  qed
  then obtain k where k: "t' = ring_write c t\<lparr>tty_ker := k\<rparr>" "sched_ok ready inv L k" "idleproc k \<in> L" "wqueues k q = []"
    by blast
  then show ?thesis using r i(6) le key by (auto simp: kbd_inv_def wqueue_ok_def)
next
  case (read w t buf len mem asleep ret mem' t1 t' typed got full)
  with assms(2) stdin_loop_inv [of q L t typed got full w buf 0 len mem asleep ret mem' t1] show ?thesis
    by (auto intro: leave_inv)
next
  case (resume t w ret len buf mem asleep ret' mem' t1 t' typed got full)
  with assms(2) have i: "sched_ok ready inv L (tty_ker t)" "wqueue_ok L q (tty_ker t)" by (simp_all add: kbd_inv_def)
  from i resume(3) obtain k where k: "wait_current_del q w (tty_ker t) = Some k" "sched_ok ready inv L k" "wqueue_ok L q k"
    "idleproc k = idleproc (tty_ker t)" "wqueues k = (wqueues (tty_ker t))(q := remove1 w (wqueues (tty_ker t) q))"
    "w \<notin> set (wqueues k q)" by (rule wait_current_del_spec)
  let ?t = "t\<lparr>tty_ker := k\<rparr>"
  have "kbd_inv ready inv q L (?t, typed, got, full)"
    using assms(2) k resume(1) by (auto simp: kbd_inv_def)
  moreover have "if w_flags (waits k w) = WT_KBD then stdin_loop q w (buf + ret) ret (len - ret) mem ?t = Some (asleep, ret', mem', t1)
      else asleep = False \<and> ret' = ret \<and> mem' = mem \<and> t1 = ?t"
    using resume(5) k(1) by (auto simp: stdin_resume_def split: if_splits)
  ultimately have "kbd_inv ready inv q L (t1, typed, got @ map mem' [buf + ret..<buf + ret'], full)"
  proof (cases "w_flags (waits k w) = WT_KBD")
    case True
    with \<open>if w_flags (waits k w) = WT_KBD then _ else _\<close>
    have l: "stdin_loop q w (buf + ret) ret (len - ret) mem ?t = Some (asleep, ret', mem', t1)" by simp
    have i: "kbd_inv ready inv q L (?t, typed, got, full)" by fact
    then have "ring_ok ?t" by (simp add: kbd_inv_def)
    from stdin_loop_spec [OF l this] have "buf + ret + (ret' - ret) = buf + ret'" by simp
    moreover have "w \<notin> set (wqueues (tty_ker ?t) q)" using k(6) by simp
    ultimately show ?thesis using stdin_loop_inv [OF i _ l] by simp
  next
    case False
    with \<open>if w_flags (waits k w) = WT_KBD then _ else _\<close> \<open>kbd_inv ready inv q L (?t, typed, got, full)\<close>
    show ?thesis by simp
  qed
  then show ?thesis using resume by (auto intro: leave_inv)
next
  case (wake p t k typed got full)
  with assms(2) have i: "sched_ok ready inv L (tty_ker t)" "wqueue_ok L q (tty_ker t)" by (simp_all add: kbd_inv_def)
  from wakeup_proc_spec [OF i(1) wake(3,4)] wake(5) have s: "sched_ok ready inv L k" and
    fr: "sched_frame (if p_state (procs (tty_ker t) p) = PROC_RUNNABLE then tty_ker t
      else upd_proc p (\<lambda>q. q\<lparr>p_state := PROC_RUNNABLE, p_wait_state := 0\<rparr>) (tty_ker t)) k" by auto
  have w: "waits k = waits (tty_ker t)" "wqueues k = wqueues (tty_ker t)" "idleproc k = idleproc (tty_ker t)"
    using sched_frame_sync(1,2) [OF fr] sched_frame_globals(2) [OF fr] by (simp_all split: if_splits)
  have "p_state (procs k x) = (if x = p then PROC_RUNNABLE else p_state (procs (tty_ker t) x))" for x
    using sched_frame_state [OF fr, of x] by (simp split: if_splits)
  then have "wqueue_ok L q k" by (intro wqueue_ok_states [OF i(2)]) (simp_all add: w)
  with assms(2) s w wake(1,2) show ?thesis by (simp add: kbd_inv_def)
next
  case (preempt t k typed got full)
  with assms(2) leave_inv [of True t "t\<lparr>tty_ker := k\<rparr>" q L typed got full] show ?thesis by (simp add: leave_def)
qed

lemma kbd_reach_inv:
  assumes "(kbd_step sc q L)\<^sup>*\<^sup>* st st'" and "kbd_inv ready inv q L st"
  shows "kbd_inv ready inv q L st'"
  using assms by (induction rule: rtranclp_induct) (auto intro: kbd_step_inv)

end

section \<open>Properties\<close>

text \<open>
  C14. However keys, reads, wake-ups and preemptions interleave on the stride scheduler: nobody sleeps
  on the keyboard while there are characters to read, at most 4096 are kept, and unless a key came on
  a full ring the characters delivered, followed by those not yet read, are the ones typed, in order.
  The next key is always accepted by the handler, leaves no sleeper and makes all of them runnable; on
  a full ring it takes the place of the oldest character.
\<close>

theorem keyboard_no_lost_wakeup:
  assumes "sched_ok stride_ready stride_inv L (tty_ker t)" and "idleproc (tty_ker t) \<in> L"
    and "p_rpos t = p_wpos t" and "wqueues (tty_ker t) q = []"
    and "(kbd_step stride_sched_class q L)\<^sup>*\<^sup>* (t, [], [], False) (t', typed, got, full)"
  shows "(wqueues (tty_ker t') q \<noteq> [] \<longrightarrow> unread t' = []) \<and> length (unread t') \<le> 4096 \<and>
    (full \<or> got @ unread t' = typed) \<and>
    (\<forall>c. c \<noteq> NUL \<longrightarrow> (\<exists>t2. dev_stdin_write stride_sched_class q c t' = Some t2 \<and> wqueues (tty_ker t2) q = [] \<and>
      (\<forall>w \<in> set (wqueues (tty_ker t') q). \<exists>p. w_proc (waits (tty_ker t') w) = Some p \<and>
        p_state (procs (tty_ker t2) p) = PROC_RUNNABLE) \<and>
      unread t2 = (if length (unread t') < 4096 then unread t' @ [c] else c # tl (unread t'))))"
proof -
  have "kbd_inv stride_ready stride_inv q L (t, [], [], False)"
    using assms(1-4) by (simp add: kbd_inv_def ring_ok_def wqueue_ok_def unread_def)
  from stride.kbd_reach_inv [OF assms(5) this] have
    i: "ring_ok t'" "sched_ok stride_ready stride_inv L (tty_ker t')" "wqueue_ok L q (tty_ker t')"
    "wqueues (tty_ker t') q \<noteq> [] \<longrightarrow> unread t' = []" "\<not> full \<longrightarrow> got @ unread t' = typed"
    by (simp_all add: kbd_inv_def)
  have le: "length (unread t') \<le> 4096" using i(1) unfolding length_unread ring_ok_def STDIN_BUFSIZE_def by arith
  have "\<exists>t2. dev_stdin_write stride_sched_class q c t' = Some t2 \<and> wqueues (tty_ker t2) q = [] \<and>
      (\<forall>w \<in> set (wqueues (tty_ker t') q). \<exists>p. w_proc (waits (tty_ker t') w) = Some p \<and>
        p_state (procs (tty_ker t2) p) = PROC_RUNNABLE) \<and>
      unread t2 = (if length (unread t') < 4096 then unread t' @ [c] else c # tl (unread t'))" if c: "c \<noteq> NUL" for c
  proof -
    note r = ring_write_unread(2,3) [OF i(1), of c]
    from stride.wakeup_queue_del_spec [OF i(2,3), of WT_KBD] obtain k where
      k: "wakeup_queue stride_sched_class q WT_KBD True (tty_ker t') = Some k" "wqueues k q = []"
      "\<And>x. Some x \<in> w_proc ` waits (tty_ker t') ` set (wqueues (tty_ker t') q) \<Longrightarrow> p_state (procs k x) = PROC_RUNNABLE"
      by auto
    have "\<exists>p. w_proc (waits (tty_ker t') w) = Some p \<and> p_state (procs k p) = PROC_RUNNABLE"
      if "w \<in> set (wqueues (tty_ker t') q)" for w
    proof -
      from i(3) that obtain p where p: "w_proc (waits (tty_ker t') w) = Some p" by (auto simp: wqueue_ok_def)
      then have "Some p \<in> w_proc ` waits (tty_ker t') ` set (wqueues (tty_ker t') q)" using that by force
      from k(3) [OF this] p show ?thesis by blast
    qed
    with k(1,2) r show ?thesis
      by (cases "wqueues (tty_ker t') q = []") (simp_all add: stdin_write_ring [OF c] STDIN_BUFSIZE_def)
  qed
  with i(4,5) le show ?thesis by blast
qed

definition idle_tty :: tty where
  "idle_tty = \<lparr>stdin_buffer = (\<lambda>_. NUL), p_rpos = 0, p_wpos = 0, tty_ker = two_procs\<rparr>"

theorem keyboard_no_lost_wakeup_witness:
  "\<exists>t. kbd_step stride_sched_class 9 {0, 1, 2} (idle_tty, [], [], False) (t, ''a'', [], False) \<and> unread t = ''a''"
proof -
  have q: "wqueues (tty_ker idle_tty) 9 = []" by (simp add: idle_tty_def)
  let ?t = "ring_write CHR ''a'' idle_tty"
  have w: "dev_stdin_write stride_sched_class 9 CHR ''a'' idle_tty = Some ?t" by (simp add: stdin_write_ring q)
  have s: "kbd_step stride_sched_class 9 {0, 1, 2} (idle_tty, [], [], False) (?t, ''a'', [], False)"
    using kbd_step.key [where L = "{0, 1, 2}" and typed = "[]" and got = "[]" and full = False, OF _ w] by (simp add: unread_def idle_tty_def STDIN_BUFSIZE_def)
  have "sched_ok stride_ready stride_inv {0, 1, 2} (tty_ker idle_tty)" "idleproc (tty_ker idle_tty) \<in> {0, 1, 2}"
    "p_rpos idle_tty = p_wpos idle_tty" using two_procs_ok by (simp_all add: idle_tty_def)
  from keyboard_no_lost_wakeup [OF this q r_into_rtranclp [of "kbd_step stride_sched_class 9 {0, 1, 2}", OF s]] s show ?thesis by auto
qed

end
