(* ===== verification/Sysfile.thy ===== *)
theory Sysfile
  imports Vmm Console
begin

text \<open>
  The file system calls, \<^verbatim>\<open>kern/fs/sysfile.c\<close>, over the table of open files, the checks of user
  memory and the virtual file system. User and kernel memory are one byte memory, of which
  \<^verbatim>\<open>user_mem_check\<close> decides what a call may touch. \<open>kmalloc\<close> arguments are the addresses it
  returned, if any; what \<^verbatim>\<open>kfree\<close> then does to them does not show here. A call with an
  operation of an inode that the tables of File_Table do not have takes it as an argument. The end
  shows what a write to the screen does, from the system call down to the driver.
\<close>

section \<open>Copying to and from the user\<close>

definition IOBUF_SIZE :: nat where "IOBUF_SIZE = 4096"
definition FS_MAX_FPATH_LEN :: nat where "FS_MAX_FPATH_LEN = 4095"

definition user_out ::
  "mm_struct option \<Rightarrow> u64 \<Rightarrow> u64 \<Rightarrow> nat \<Rightarrow> 'd fs \<Rightarrow> (bool \<times> mm_struct option \<times> 'd fs) option"
where
  "user_out mm dst src len s = do {
     (ok, mm, m) \<leftarrow> copy_to_user mm dst src (of_nat len) (fs_mem s);
     Some (ok, mm, s\<lparr>fs_mem := m\<rparr>) }"

definition user_in ::
  "mm_struct option \<Rightarrow> u64 \<Rightarrow> u64 \<Rightarrow> nat \<Rightarrow> bool \<Rightarrow> 'd fs \<Rightarrow> (bool \<times> mm_struct option \<times> 'd fs) option"
where
  "user_in mm dst src len writable s = do {
     (ok, mm, m) \<leftarrow> copy_from_user mm dst src (of_nat len) writable (fs_mem s);
     Some (ok, mm, s\<lparr>fs_mem := m\<rparr>) }"

text \<open>The result, the path that is then in the buffer, and the rest of the state.\<close>

definition copy_path ::
  "u64 option \<Rightarrow> u64 \<Rightarrow> mm_struct option \<Rightarrow> mem \<Rightarrow> (int \<times> string \<times> mm_struct option \<times> mem) option"
where
  "copy_path kmalloc from mm m = (case kmalloc of
     None \<Rightarrow> Some (- E_NO_MEM, [], mm, m)
   | Some buffer \<Rightarrow> do {
       (ok, mm, m) \<leftarrow> copy_string mm buffer from (of_nat (FS_MAX_FPATH_LEN + 1)) m;
       let n = strnlen m (unat buffer) (FS_MAX_FPATH_LEN + 1);
       Some (if ok then 0 else - E_INVAL, if ok then map m [unat buffer..<unat buffer + n] else [], mm, m) })"

section \<open>Opening, closing and the calls without buffers\<close>

definition sysfile_open ::
  "'d vops \<Rightarrow> u64 option \<Rightarrow> u64 \<Rightarrow> u32 \<Rightarrow> mm_struct option \<Rightarrow> 'd fs \<Rightarrow> (int \<times> mm_struct option \<times> 'd fs) option"
where
  "sysfile_open vo kmalloc from open_flags mm s = do {
     (ret, path, mm, m) \<leftarrow> copy_path kmalloc from mm (fs_mem s);
     let s = s\<lparr>fs_mem := m\<rparr>;
     if ret \<noteq> 0 then Some (ret, mm, s)
     else do { (ret, s) \<leftarrow> file_open vo path open_flags s; Some (ret, mm, s) } }"

definition sysfile_close :: "'d vops \<Rightarrow> int \<Rightarrow> 'd fs \<Rightarrow> (int \<times> 'd fs) option" where
  "sysfile_close vo fd s = file_close vo fd s"

definition sysfile_seek :: "'d vops \<Rightarrow> int \<Rightarrow> int \<Rightarrow> int \<Rightarrow> 'd fs \<Rightarrow> (int \<times> 'd fs) option" where
  "sysfile_seek vo fd pos whence s = file_seek vo fd pos whence s"

definition sysfile_fsync :: "'d vops \<Rightarrow> int \<Rightarrow> 'd fs \<Rightarrow> (int \<times> 'd fs) option" where
  "sysfile_fsync vo fd s = file_fsync vo fd s"

definition sysfile_dup :: "int \<Rightarrow> int \<Rightarrow> 'd fs \<Rightarrow> (int \<times> 'd fs) option" where
  "sysfile_dup fd1 fd2 s = file_dup fd1 fd2 s"

definition sysfile_pipe :: int where "sysfile_pipe = - E_UNIMP"
definition sysfile_mkfifo :: int where "sysfile_mkfifo = - E_UNIMP"

section \<open>Reading and writing\<close>

text \<open>
  The loops: the result of the last operation and the number of bytes copied. A round that goes on
  has copied something, so the rest is shorter.
\<close>

function sysread_loop ::
  "'d vops \<Rightarrow> int \<Rightarrow> u64 \<Rightarrow> u64 \<Rightarrow> nat \<Rightarrow> nat \<Rightarrow> int \<Rightarrow> mm_struct option \<Rightarrow> 'd fs \<Rightarrow>
     (int \<times> nat \<times> mm_struct option \<times> 'd fs) option"
where
  "sysread_loop vo fd buffer base len got ret mm s =
     (if len = 0 then Some (ret, got, mm, s)
      else do {
        (ret, alen, s) \<leftarrow> file_read vo fd (unat buffer) (min IOBUF_SIZE len) s;
        (ok, mm, s) \<leftarrow> (if alen \<noteq> 0 then user_out mm base buffer alen s else Some (False, mm, s));
        kassert (ok \<longrightarrow> len \<ge> alen);
        let n = (if ok then alen else 0);
        let ret = (if alen \<noteq> 0 \<and> \<not> ok \<and> ret = 0 then - E_INVAL else ret);
        if ret \<noteq> 0 \<or> alen = 0 \<or> n = 0 then Some (ret, got + n, mm, s)
        else sysread_loop vo fd buffer (base + of_nat n) (len - n) (got + n) ret mm s })"
  by pat_completeness auto
termination
  by (relation "measure (\<lambda>(vo, fd, buffer, base, len, got, ret, mm, s). len)") (auto split: if_splits)

declare sysread_loop.simps [simp del]

text \<open>\<^verbatim>\<open>return copied\<close> makes an \<^verbatim>\<open>int\<close> of a \<^verbatim>\<open>size_t\<close>.\<close>

definition call_result :: "int \<Rightarrow> nat \<Rightarrow> int" where
  "call_result ret got = (if got \<noteq> 0 then sint (of_nat got :: 32 word) else ret)"

definition sysfile_read ::
  "'d vops \<Rightarrow> u64 option \<Rightarrow> int \<Rightarrow> u64 \<Rightarrow> nat \<Rightarrow> mm_struct option \<Rightarrow> 'd fs \<Rightarrow> (int \<times> mm_struct option \<times> 'd fs) option"
where
  "sysfile_read vo kmalloc fd base len mm s =
     (if len = 0 then Some (0, mm, s)
      else do {
        ok \<leftarrow> file_testfd fd True False s;
        if \<not> ok then Some (- E_INVAL, mm, s)
        else (case kmalloc of None \<Rightarrow> Some (- E_NO_MEM, mm, s)
          | Some buffer \<Rightarrow> do {
              (ret, got, mm, s) \<leftarrow> sysread_loop vo fd buffer base len 0 0 mm s;
              Some (call_result ret got, mm, s) }) })"

function syswrite_loop ::
  "'d vops \<Rightarrow> int \<Rightarrow> u64 \<Rightarrow> u64 \<Rightarrow> nat \<Rightarrow> nat \<Rightarrow> int \<Rightarrow> mm_struct option \<Rightarrow> 'd fs \<Rightarrow>
     (int \<times> nat \<times> mm_struct option \<times> 'd fs) option"
where
  "syswrite_loop vo fd buffer base len got ret mm s =
     (if len = 0 then Some (ret, got, mm, s)
      else do {
        let alen = min IOBUF_SIZE len;
        (ok, mm, s) \<leftarrow> user_in mm buffer base alen False s;
        if \<not> ok then Some (- E_INVAL, got, mm, s)
        else do {
          (ret, alen, s) \<leftarrow> file_write vo fd (unat buffer) alen s;
          kassert (alen \<noteq> 0 \<longrightarrow> len \<ge> alen);
          if ret \<noteq> 0 \<or> alen = 0 then Some (ret, got + alen, mm, s)
          else syswrite_loop vo fd buffer (base + of_nat alen) (len - alen) (got + alen) ret mm s } })"
  by pat_completeness auto
termination
  by (relation "measure (\<lambda>(vo, fd, buffer, base, len, got, ret, mm, s). len)") auto

declare syswrite_loop.simps [simp del]

definition sysfile_write ::
  "'d vops \<Rightarrow> u64 option \<Rightarrow> int \<Rightarrow> u64 \<Rightarrow> nat \<Rightarrow> mm_struct option \<Rightarrow> 'd fs \<Rightarrow> (int \<times> mm_struct option \<times> 'd fs) option"
where
  "sysfile_write vo kmalloc fd base len mm s =
     (if len = 0 then Some (0, mm, s)
      else do {
        ok \<leftarrow> file_testfd fd False True s;
        if \<not> ok then Some (- E_INVAL, mm, s)
        else (case kmalloc of None \<Rightarrow> Some (- E_NO_MEM, mm, s)
          | Some buffer \<Rightarrow> do {
              (ret, got, mm, s) \<leftarrow> syswrite_loop vo fd buffer base len 0 0 mm s;
              Some (call_result ret got, mm, s) }) })"

section \<open>The other calls\<close>

text \<open>\<open>stat\<close> is where the local structure lies, of 32 bytes; \<^verbatim>\<open>file_fstat\<close> fills it.\<close>

definition STAT_SIZE :: nat where "STAT_SIZE = 32"

definition sysfile_fstat ::
  "'d vops \<Rightarrow> u64 \<Rightarrow> int \<Rightarrow> u64 \<Rightarrow> mm_struct option \<Rightarrow> 'd fs \<Rightarrow> (int \<times> mm_struct option \<times> 'd fs) option"
where
  "sysfile_fstat vo stat fd dst mm s = do {
     (ret, s) \<leftarrow> file_fstat vo fd s;
     if ret \<noteq> 0 then Some (ret, mm, s)
     else do {
       (ok, mm, s) \<leftarrow> user_out mm dst stat STAT_SIZE s;
       Some (if ok then 0 else - E_INVAL, mm, s) } }"

definition sysfile_chdir ::
  "'d dev_io \<Rightarrow> u64 option \<Rightarrow> u64 \<Rightarrow> mm_struct option \<Rightarrow> mem \<Rightarrow> 'd vfs \<Rightarrow> (int \<times> mm_struct option \<times> mem \<times> 'd vfs) option"
where
  "sysfile_chdir io kmalloc from mm m v = do {
     (ret, path, mm, m) \<leftarrow> copy_path kmalloc from mm m;
     if ret \<noteq> 0 then Some (ret, mm, m, v)
     else do { (ret, v) \<leftarrow> vfs_chdir io path v; Some (ret, mm, m, v) } }"

definition vfs_link :: int where "vfs_link = - E_UNIMP"
definition vfs_rename :: int where "vfs_rename = - E_UNIMP"
definition vfs_unlink :: int where "vfs_unlink = - E_UNIMP"

text \<open>\<^verbatim>\<open>sysfile_link\<close> and \<^verbatim>\<open>sysfile_rename\<close> copy two paths.\<close>

definition copy_two_paths ::
  "u64 option \<Rightarrow> u64 option \<Rightarrow> u64 \<Rightarrow> u64 \<Rightarrow> mm_struct option \<Rightarrow> mem \<Rightarrow> (int \<times> mm_struct option \<times> mem) option"
where
  "copy_two_paths kmalloc1 kmalloc2 path1 path2 mm m = do {
     (ret, _, mm, m) \<leftarrow> copy_path kmalloc1 path1 mm m;
     if ret \<noteq> 0 then Some (ret, mm, m)
     else do { (ret, _, mm, m) \<leftarrow> copy_path kmalloc2 path2 mm m; Some (ret, mm, m) } }"

definition sysfile_link ::
  "u64 option \<Rightarrow> u64 option \<Rightarrow> u64 \<Rightarrow> u64 \<Rightarrow> mm_struct option \<Rightarrow> mem \<Rightarrow> (int \<times> mm_struct option \<times> mem) option"
where
  "sysfile_link k1 k2 path1 path2 mm m = do {
     (ret, mm, m) \<leftarrow> copy_two_paths k1 k2 path1 path2 mm m;
     Some (if ret \<noteq> 0 then ret else vfs_link, mm, m) }"

definition sysfile_rename ::
  "u64 option \<Rightarrow> u64 option \<Rightarrow> u64 \<Rightarrow> u64 \<Rightarrow> mm_struct option \<Rightarrow> mem \<Rightarrow> (int \<times> mm_struct option \<times> mem) option"
where
  "sysfile_rename k1 k2 path1 path2 mm m = do {
     (ret, mm, m) \<leftarrow> copy_two_paths k1 k2 path1 path2 mm m;
     Some (if ret \<noteq> 0 then ret else vfs_rename, mm, m) }"

definition sysfile_unlink ::
  "u64 option \<Rightarrow> u64 \<Rightarrow> mm_struct option \<Rightarrow> mem \<Rightarrow> (int \<times> mm_struct option \<times> mem) option"
where
  "sysfile_unlink kmalloc from mm m = do {
     (ret, _, mm, m) \<leftarrow> copy_path kmalloc from mm m;
     Some (if ret \<noteq> 0 then ret else vfs_unlink, mm, m) }"

definition sysfile_getcwd ::
  "'d dev_io \<Rightarrow> u64 \<Rightarrow> nat \<Rightarrow> mm_struct option \<Rightarrow> mem \<Rightarrow> 'd vfs \<Rightarrow> (int \<times> mm_struct option \<times> mem \<times> 'd vfs) option"
where
  "sysfile_getcwd io buf len mm m v =
     (if len = 0 then Some (- E_INVAL, mm, m, v)
      else do {
        (ok, mm) \<leftarrow> user_mem_check mm buf (of_nat len) True;
        if ok then do {
          (ret, _, m, v) \<leftarrow> vfs_getcwd io (iobuf_init (unat buf) len 0) m v;
          Some (ret, mm, m, v) }
        else Some (- E_INVAL, mm, m, v) })"

text \<open>
  A directory entry at \<open>d\<close> is an offset of 8 bytes and a name of 256. \<open>getdirentry\<close> is
  \<^verbatim>\<open>vop_getdirentry\<close>.
\<close>

definition DIRENT_SIZE :: nat where "DIRENT_SIZE = 264"

definition file_getdirentry ::
  "'d vops \<Rightarrow> (nat \<Rightarrow> iobuf \<Rightarrow> 'd fs \<Rightarrow> int \<times> iobuf \<times> 'd fs) \<Rightarrow> int \<Rightarrow> nat \<Rightarrow> 'd fs \<Rightarrow> (int \<times> 'd fs) option"
where
  "file_getdirentry vo getdirentry fd d = with_file vo fd (\<lambda>i n s.
     let offset = dec (map (fs_mem s) [d..<d + 8]);
         (ret, iob, s) = getdirentry n (iobuf_init (d + 8) 256 (sint (of_nat offset :: u64))) s
     in (ret, if ret = 0
        then s\<lparr>fs_mem := store_bytes d (enc 8 (unat (of_nat (offset + iobuf_used iob) :: u64))) (fs_mem s)\<rparr> else s))"

definition sysfile_getdirentry ::
  "'d vops \<Rightarrow> (nat \<Rightarrow> iobuf \<Rightarrow> 'd fs \<Rightarrow> int \<times> iobuf \<times> 'd fs) \<Rightarrow> u64 option \<Rightarrow> int \<Rightarrow> u64 \<Rightarrow> mm_struct option \<Rightarrow> 'd fs \<Rightarrow>
     (int \<times> mm_struct option \<times> 'd fs) option"
where
  "sysfile_getdirentry vo getdirentry kmalloc fd dst mm s = (case kmalloc of
     None \<Rightarrow> Some (- E_NO_MEM, mm, s)
   | Some d \<Rightarrow> do {
       (ok, mm, s) \<leftarrow> user_in mm d dst 8 True s;
       if \<not> ok then Some (- E_INVAL, mm, s)
       else do {
         (ret, s) \<leftarrow> file_getdirentry vo getdirentry fd (unat d) s;
         if ret \<noteq> 0 then Some (ret, mm, s)
         else do {
           (ok, mm, s) \<leftarrow> user_out mm dst d DIRENT_SIZE s;
           Some (if ok then 0 else - E_INVAL, mm, s) } } })"

section \<open>A write to the screen\<close>

definition screen_write :: "iobuf \<Rightarrow> string fs \<Rightarrow> int \<times> iobuf \<times> string fs" where
  "screen_write iob s =
     (let (ret, iob, scr) = stdout_io iob True (fs_mem s) (fs_data s) in (ret, iob, s\<lparr>fs_data := scr\<rparr>))"

lemma stdout_loop_spec: "stdout_loop a n m scr = scr @ map m [a..<a + n]"
proof (induction n arbitrary: a scr)
  case (Suc n)
  have "[a..<a + Suc n] = a # [a + 1..<a + 1 + n]" by (subst upt_conv_Cons) simp_all
  with Suc show ?case by simp
qed simp

text \<open>Descriptor \<open>fd\<close> is open for writing on inode \<open>n\<close>.\<close>

definition writes_to :: "'d fs \<Rightarrow> int \<Rightarrow> nat \<Rightarrow> bool" where
  "writes_to s fd n \<longleftrightarrow> testfd fd \<and> files_count s > 0 \<and> length (fd_array s) = FILES_STRUCT_NENTRY \<and>
     (let f = fd_array s ! nat fd in fl_status f = FD_OPENED \<and> fl_fd f = fd \<and> fl_writable f \<and> fl_node f = Some n \<and>
        fl_open_count f > 0)"

lemma writes_to_data [simp]: "writes_to (s\<lparr>fs_data := d\<rparr>) fd n = writes_to s fd n" "writes_to (s\<lparr>fs_mem := m\<rparr>) fd n = writes_to s fd n"
  by (simp_all add: writes_to_def)

lemma file_write_screen:
  assumes w: "writes_to s fd n" and vo: "vo_write vo n = screen_write"
  shows "\<exists>s'. file_write vo fd a len s = Some (0, len, s') \<and> writes_to s' fd n \<and> fs_mem s' = fs_mem s \<and>
    fs_data s' = fs_data s @ map (fs_mem s) [a..<a + len]"
proof -
  let ?i = "nat fd" and ?f = "fd_array s ! nat fd"
  from w have f: "testfd fd" "files_count s > 0" "length (fd_array s) = FILES_STRUCT_NENTRY" "fl_status ?f = FD_OPENED"
    "fl_fd ?f = fd" "fl_writable ?f" "fl_node ?f = Some n" "fl_open_count ?f > 0"
    by (simp_all add: writes_to_def Let_def)
  then have i: "?i < length (fd_array s)" by (simp add: testfd_def nat_less_iff)
  define s' where "s' = (upd_file ?i (\<lambda>f. f\<lparr>fl_pos := fl_pos f + int len\<rparr>) s)
    \<lparr>fs_data := fs_data s @ map (fs_mem s) [a..<a + len]\<rparr>"
  have at: "fd_array (upd_file ?i g s) ! ?i = g ?f" for g using i by (simp add: upd_file_def)
  have "file_transfer vo (vo_write vo) ?i a len s = Some (0, len, s')"
    using f i
    by (simp add: file_transfer_def fd_array_acquire_def fd_array_release_def fd_array_drop_def vo screen_write_def
        stdout_io_def iobuf_init_def iobuf_used_def stdout_loop_spec upd_file_def Let_def s'_def)
  then have "file_write vo fd a len s = Some (0, len, s')"
    using f by (simp add: file_write_def fd2file_def get_fd_array_def Let_def)
  moreover have "writes_to s' fd n"
    using f i by (simp add: writes_to_def s'_def upd_file_def Let_def)
  moreover have "fs_mem s' = fs_mem s" "fs_data s' = fs_data s @ map (fs_mem s) [a..<a + len]"
    by (simp_all add: s'_def upd_file_def)
  ultimately show ?thesis by blast
qed

lemma user_in_spec:
  assumes mm: "areas mm xs" and u: "USER_ACCESS src (src + of_nat len)" and len: "len < 2 ^ 64"
    and acc: "\<And>a. src \<le> a \<Longrightarrow> a < src + of_nat len \<Longrightarrow> accessible mm xs False a"
    and apart: "unat src + len \<le> unat dst"
  shows "\<exists>c. user_in (Some mm) dst src len False s = Some (True, Some (cached c mm),
      s\<lparr>fs_mem := (\<lambda>a. if unat dst \<le> a \<and> a < unat dst + len then fs_mem s (unat src + (a - unat dst)) else fs_mem s a)\<rparr>) \<and>
    areas (cached c mm) xs"
proof -
  from check_loop_spec [OF mm, of src "src + of_nat len" False] acc obtain c where
    c: "check_loop mm src (src + of_nat len) False = Some (True, cached c mm)" "areas (cached c mm) xs" by auto
  have "unat (of_nat len :: u64) = len" using len by (simp add: unat_of_nat)
  moreover have "memcpy (unat dst) (unat src) len m =
      (\<lambda>a. if unat dst \<le> a \<and> a < unat dst + len then m (unat src + (a - unat dst)) else m a)" for m
    unfolding memcpy_def by (rule copy_up_spec) (use apart in simp)
  ultimately show ?thesis using c u
    by (intro exI [of _ c]) (simp add: user_in_def copy_from_user_def user_mem_check_def)
qed

text \<open>The range of a call: the addresses as numbers, and that a later part of it is one too.\<close>

lemma user_range:
  assumes "USER_ACCESS base (base + of_nat len)" and "len < 2 ^ 64"
  shows "unat (base + of_nat len) = unat base + len" "unat base + len \<le> 0x80000000" "0 < len"
    and "k < len \<Longrightarrow> USER_ACCESS (base + of_nat k) (base + of_nat k + of_nat (len - k))"
    and "0 < k \<Longrightarrow> k \<le> len \<Longrightarrow> USER_ACCESS base (base + of_nat k)"
    and "k \<le> len \<Longrightarrow> unat (base + of_nat k) = unat base + k"
proof -
  have u: "unat (of_nat len :: u64) = len" using assms(2) by (simp add: unat_of_nat)
  have top: "unat USERTOP = 0x80000000" by (simp add: USERTOP_def)
  from assms(1) have lt: "base < base + of_nat len" and le: "unat (base + of_nat len) \<le> 0x80000000"
    using top by (auto simp: USER_ACCESS_def word_le_nat_alt)
  have nw: "unat base + len < 2 ^ 64"
  proof (rule ccontr)
    assume "\<not> unat base + len < 2 ^ 64"
    moreover have "unat base < 2 ^ 64" by (rule unat_less_64)
    ultimately have "(unat base + len) mod 2 ^ 64 = unat base + len - 2 ^ 64" using assms(2) by (simp add: mod_if)
    then have "unat (base + of_nat len) = unat base + len - 2 ^ 64" by (simp add: unat_word_ariths u)
    with lt assms(2) show False by (simp add: word_less_nat_alt)
  qed
  have at: "unat (base + of_nat j) = unat base + j" if "j \<le> len" for j
  proof -
    have "unat (of_nat j :: u64) = j" using that assms(2) by (simp add: unat_of_nat)
    with nw that show ?thesis by (simp add: unat_word_ariths)
  qed
  show "unat (base + of_nat len) = unat base + len" "unat base + len \<le> 0x80000000" using at [of len] le by simp_all
  show "0 < len" using lt by (cases len) simp_all
  show "k \<le> len \<Longrightarrow> unat (base + of_nat k) = unat base + k" by (rule at)
  have ge: "unat USERBASE \<le> unat base" using assms(1) by (simp add: USER_ACCESS_def word_le_nat_alt)
  show "USER_ACCESS base (base + of_nat k)" if "0 < k" "k \<le> len"
    using at [OF that(2)] that ge top at [of len] le by (simp add: USER_ACCESS_def word_less_nat_alt word_le_nat_alt)
  show "USER_ACCESS (base + of_nat k) (base + of_nat k + of_nat (len - k))" if "k < len"
  proof -
    have "base + of_nat k + of_nat (len - k) = base + (of_nat len :: u64)" using that by (simp add: of_nat_diff)
    with at [of k] at [of len] that ge top le show ?thesis by (simp add: USER_ACCESS_def word_less_nat_alt word_le_nat_alt)
  qed
qed

lemma min_part: "k \<le> len \<Longrightarrow> map f [a..<a + k] @ map f [a + k..<a + len] = map f [a..<a + len]"
  using upt_add_eq_append [of a "a + k" "len - k"] by (simp flip: map_append)

text \<open>The loop copies the range in pieces through the buffer, which lies above user memory.\<close>

lemma syswrite_screen:
  assumes "areas mm xs" and "writes_to s fd n" and "vo_write vo n = screen_write"
    and "USER_ACCESS base (base + of_nat len)" and "len < 2 ^ 64"
    and "\<And>a. base \<le> a \<Longrightarrow> a < base + of_nat len \<Longrightarrow> accessible mm xs False a"
    and "0x80000000 \<le> unat buffer"
  shows "\<exists>mm' s'. syswrite_loop vo fd buffer base len got ret (Some mm) s = Some (0, got + len, Some mm', s') \<and>
    areas mm' xs \<and> writes_to s' fd n \<and> fs_data s' = fs_data s @ map (fs_mem s) [unat base..<unat base + len] \<and>
    (\<forall>a. a < unat buffer \<or> unat buffer + IOBUF_SIZE \<le> a \<longrightarrow> fs_mem s' a = fs_mem s a)"
  using assms(1,2,4-6)
proof (induction len arbitrary: base got ret mm s rule: less_induct)
  case (less len)
  note range = user_range [OF less.prems(3,4)]
  let ?k = "min IOBUF_SIZE len"
  have k: "0 < ?k" "?k \<le> len" "?k < 2 ^ 64" using range(3) less.prems(4) by (simp_all add: IOBUF_SIZE_def)
  let ?s1 = "s\<lparr>fs_mem := (\<lambda>a. if unat buffer \<le> a \<and> a < unat buffer + ?k then fs_mem s (unat base + (a - unat buffer)) else fs_mem s a)\<rparr>"
  have up: "unat (base + of_nat ?k) = unat base + ?k" by (rule range(6) [OF k(2)])
  have acc: "accessible mm xs False a" if "base \<le> a" "a < base + of_nat ?k" for a
  proof (rule less.prems(5) [OF that(1)])
    show "a < base + of_nat len" using that(2) up range(1) k(2) by (simp add: word_less_nat_alt)
  qed
  have "unat base + ?k \<le> unat buffer" using range(2) assms(7) k(2) by linarith
  from user_in_spec [OF less.prems(1) range(5) [OF k(1,2)] k(3) acc this, of s] obtain c where
    c: "user_in (Some mm) buffer base ?k False s = Some (True, Some (cached c mm), ?s1)" "areas (cached c mm) xs" by blast
  have "writes_to ?s1 fd n" using less.prems(2) by simp
  from file_write_screen [OF this assms(3), of "unat buffer" ?k] obtain s2 where
    s2: "file_write vo fd (unat buffer) ?k ?s1 = Some (0, ?k, s2)" "writes_to s2 fd n" "fs_mem s2 = fs_mem ?s1" and
    d: "fs_data s2 = fs_data ?s1 @ map (fs_mem ?s1) [unat buffer..<unat buffer + ?k]" by blast
  have "map (fs_mem ?s1) [unat buffer..<unat buffer + ?k] = map (fs_mem s) [unat base..<unat base + ?k]"
    by (intro nth_equalityI) simp_all
  with d have d2: "fs_data s2 = fs_data s @ map (fs_mem s) [unat base..<unat base + ?k]" by simp
  have far: "fs_mem s2 a = fs_mem s a" if "a < unat buffer \<or> unat buffer + IOBUF_SIZE \<le> a" for a
    using that s2(3) by auto
  have step: "syswrite_loop vo fd buffer base len got ret (Some mm) s =
      syswrite_loop vo fd buffer (base + of_nat ?k) (len - ?k) (got + ?k) 0 (Some (cached c mm)) s2"
  proof -
    have "0 < IOBUF_SIZE" "0 < len" using k by simp_all
    then show ?thesis by (subst syswrite_loop.simps) (simp add: c(1) s2(1) Let_def, auto simp: min_def split: if_splits)
  qed
  show ?case
  proof (cases "?k = len")
    case True
    have "syswrite_loop vo fd buffer base len got ret (Some mm) s = Some (0, got + len, Some (cached c mm), s2)"
      unfolding step by (subst syswrite_loop.simps) (simp add: True)
    with c(2) s2(2) d2 far True show ?thesis by auto
  next
    case False
    then have lt: "?k < len" "len - ?k < len" "len - ?k < 2 ^ 64" using k less.prems(4) by simp_all
    have acc2: "accessible (cached c mm) xs False a" if "base + of_nat ?k \<le> a" "a < base + of_nat ?k + of_nat (len - ?k)" for a
    proof -
      have "base + of_nat ?k + of_nat (len - ?k) = base + (of_nat len :: u64)" using k(2) by (simp add: of_nat_diff)
      moreover have "base \<le> a" using that(1) up by (simp add: word_le_nat_alt)
      ultimately show ?thesis using less.prems(5) that(2) by simp
    qed
    from less.IH [OF lt(2) c(2) s2(2) range(4) [OF lt(1)] lt(3) acc2, of "got + ?k" 0] obtain mm' s' where
      r: "syswrite_loop vo fd buffer (base + of_nat ?k) (len - ?k) (got + ?k) 0 (Some (cached c mm)) s2 =
        Some (0, got + ?k + (len - ?k), Some mm', s')" "areas mm' xs" "writes_to s' fd n" and
      d3: "fs_data s' = fs_data s2 @ map (fs_mem s2) [unat base + ?k..<unat base + ?k + (len - ?k)]" and
      far2: "\<forall>a. a < unat buffer \<or> unat buffer + IOBUF_SIZE \<le> a \<longrightarrow> fs_mem s' a = fs_mem s2 a"
      unfolding up by blast
    have same: "map (fs_mem s2) [unat base + ?k..<unat base + len] = map (fs_mem s) [unat base + ?k..<unat base + len]"
      using range(2) assms(7) by (intro map_cong far) auto
    have e: "unat base + ?k + (len - ?k) = unat base + len" using k(2) by simp
    have "fs_data s' = fs_data s @ map (fs_mem s) [unat base..<unat base + len]"
      unfolding d3 d2 e same append_assoc min_part [OF k(2)] ..
    with r far far2 k(2) step show ?thesis by auto
  qed
qed

section \<open>Properties\<close>

text \<open>
  C15. A write call on a descriptor open for writing on the screen, with a range of readable user
  memory of any length, puts exactly the bytes of the range on the screen, in order, and returns their
  number; of the memory it changes nothing but its buffer of 4096 bytes, and the descriptor stays open.
\<close>

theorem write_reaches_screen:
  assumes "areas mm xs" and "writes_to s fd n" and "vo_write vo n = screen_write"
    and "USER_ACCESS base (base + of_nat len)" and "len < 2 ^ 64"
    and "\<And>a. base \<le> a \<Longrightarrow> a < base + of_nat len \<Longrightarrow> accessible mm xs False a"
    and "0x80000000 \<le> unat buffer"
  shows "\<exists>mm' s'. sysfile_write vo (Some buffer) fd base len (Some mm) s = Some (int len, Some mm', s') \<and>
    fs_data s' = fs_data s @ map (fs_mem s) [unat base..<unat base + len] \<and> writes_to s' fd n \<and> areas mm' xs \<and>
    (\<forall>a. a < unat buffer \<or> unat buffer + 4096 \<le> a \<longrightarrow> fs_mem s' a = fs_mem s a)"
proof -
  note range = user_range [OF assms(4,5)]
  have "unat USERBASE \<le> unat base" using assms(4) by (simp add: USER_ACCESS_def word_le_nat_alt)
  then have "len < 2 ^ 31" using range(2) by (simp add: USERBASE_def)
  then have r: "call_result 0 len = int len"
    using range(3) by (simp add: call_result_def sint_uint uint_nat unat_of_nat signed_take_bit_int_eq_self)
  have "file_testfd fd False True s = Some True"
    using assms(2) by (simp add: file_testfd_def fd2file_def get_fd_array_def writes_to_def Let_def)
  moreover from syswrite_screen [OF assms, of 0 0] obtain mm' s' where
    "syswrite_loop vo fd buffer base len 0 0 (Some mm) s = Some (0, 0 + len, Some mm', s')" "areas mm' xs" "writes_to s' fd n"
    "fs_data s' = fs_data s @ map (fs_mem s) [unat base..<unat base + len]"
    "\<forall>a. a < unat buffer \<or> unat buffer + IOBUF_SIZE \<le> a \<longrightarrow> fs_mem s' a = fs_mem s a" by blast
  ultimately show ?thesis using range(3) r by (simp add: sysfile_write_def IOBUF_SIZE_def)
qed

text \<open>A table of descriptors that are all open on the screen.\<close>

definition screen_ops :: "string vops" where
  "screen_ops = \<lparr>vo_open = (\<lambda>n f s. (0, s)), vo_close = (\<lambda>n d. d), vo_reclaim = (\<lambda>n d. d),
     vo_read = (\<lambda>n iob s. (- E_INVAL, iob, s)), vo_write = (\<lambda>n. screen_write), vo_fstat = (\<lambda>n s. (0, 0, s)),
     vo_tryseek = (\<lambda>n pos s. (- E_INVAL, s)), vo_fsync = (\<lambda>n s. (0, s)), vo_truncate = (\<lambda>n len s. (0, s)),
     vo_create = (\<lambda>n name excl s. (- E_INVAL, None, s)), vo_lookup = (\<lambda>path s. (- E_NOENT, None, s)),
     vo_lookup_parent = (\<lambda>path s. (- E_NOENT, 0, path, s))\<rparr>"

definition screen_files :: "string fs" where
  "screen_files = \<lparr>fd_array = map (\<lambda>i. \<lparr>fl_status = FD_OPENED, fl_readable = False, fl_writable = True, fl_fd = int i,
       fl_pos = 0, fl_node = Some 5, fl_open_count = 1\<rparr>) [0..<FILES_STRUCT_NENTRY],
     files_count = 1, files_pwd = None, inodes = (\<lambda>_. \<lparr>in_ref = 1, in_open = 1\<rparr>), fs_mem = (\<lambda>_. CHR ''x''), fs_data = ''>''\<rparr>"

theorem write_reaches_screen_witness:
  "\<exists>mm' s'. sysfile_write screen_ops (Some 0x90000000) 1 0x201000 5000 (Some ex_mm) screen_files = Some (5000, Some mm', s') \<and>
    fs_data s' = ''>'' @ replicate 5000 CHR ''x''"
proof -
  have m: "map (fs_mem screen_files) [a..<a + k] = replicate k CHR ''x''" for a k
    by (simp add: screen_files_def map_replicate_const)
  have w: "writes_to screen_files 1 5"
    by (simp add: writes_to_def screen_files_def testfd_def FILES_STRUCT_NENTRY_def)
  have v: "vo_write screen_ops 5 = screen_write" by (simp add: screen_ops_def)
  have u: "USER_ACCESS 0x201000 (0x201000 + of_nat 5000)" by (simp add: USER_ACCESS_def USERBASE_def USERTOP_def)
  have acc: "accessible ex_mm [1, 2] False a" if "0x201000 \<le> a" "a < 0x201000 + of_nat 5000" for a
  proof -
    have "a < 0x203000" using that(2) by (simp add: word_less_nat_alt)
    with that(1) have "vma_has ex_mm a 1" by (simp add: vma_has_def ex_mm_def)
    then show ?thesis by (simp add: accessible_def ex_mm_def VM_READ_def)
  qed
  have "\<exists>mm' s'. sysfile_write screen_ops (Some 0x90000000) 1 0x201000 5000 (Some ex_mm) screen_files =
        Some (int 5000, Some mm', s') \<and>
      fs_data s' = fs_data screen_files @ map (fs_mem screen_files) [unat (0x201000 :: u64)..<unat (0x201000 :: u64) + 5000] \<and>
      writes_to s' 1 5 \<and> areas mm' [1, 2] \<and>
      (\<forall>a. a < unat (0x90000000 :: u64) \<or> unat (0x90000000 :: u64) + 4096 \<le> a \<longrightarrow> fs_mem s' a = fs_mem screen_files a)"
    by (rule write_reaches_screen [OF ex_mm_areas w v u _ acc]) simp_all
  moreover have "fs_data screen_files = ''>''" by (simp add: screen_files_def)
  moreover have "int 5000 = 5000" by simp
  ultimately show ?thesis unfolding m by metis
qed

end
