(* ===== verification/Spec2Isabelle.thy ===== *)
theory Spec2Isabelle
  imports Proc_Exit Monitor Pmm Kmalloc Page_Fault Printf Vfs_Volume Sysfile
begin

text \<open>
  Verification library of the uCore teaching kernel, the RISC-V operating system of the labs under
  \<^verbatim>\<open>src\<close>. The model follows \<^verbatim>\<open>src/lab8\<close>, the complete kernel; the
  best-fit allocator is the one of lab 2, the clock manager that of lab 3 and the round-robin class
  that of lab 6.

  The program. A process is a \<^verbatim>\<open>proc_struct\<close> on several lists. The scheduler
  (\<^verbatim>\<open>kern/schedule\<close>) keeps the runnable ones in a run queue, a skew heap ordered by stride or a
  list; wait queues, semaphores and timers (\<^verbatim>\<open>kern/sync\<close>) take a process off it and give it
  back with \<^verbatim>\<open>wakeup_proc\<close>. \<^verbatim>\<open>kern/process/proc.c\<close> makes, ends and reaps
  processes. Memory (\<^verbatim>\<open>kern/mm\<close>) is handed out in pages by an allocator on free lists; page
  tables map pages, areas describe what a program may touch, and the fault handler maps a page on
  demand or reads it back from the swap disk. Files (\<^verbatim>\<open>kern/fs\<close>) are entries of a table, each
  on an inode with two counts; the simple file system keeps inodes and data in the blocks of a disk,
  and finds free blocks by a bitmap.

  Conventions. A failed \<^verbatim>\<open>assert\<close>, a \<^verbatim>\<open>panic\<close> or a null pointer followed is the
  result \<open>None\<close>; error codes are the integers of \<^verbatim>\<open>error.h\<close>. State is passed explicitly, in
  records with the names of the C fields. Pointer structures are stores: functions from addresses
  to the fields of a node, where aliasing matters (lists, skew heaps, free lists, process links);
  elsewhere a list stands for a queue whose pointers are proved well formed below it. Where a
  wrap-around matters a number is a word of its width, otherwise a natural number or an integer with the
  wrap-around written out. Memory that \<^verbatim>\<open>kmalloc\<close> may or may not find is a parameter of the
  operation. Code that does not return (\<^verbatim>\<open>schedule\<close> in the middle of a function) splits its
  caller into the part before and the part after.

  Theories, by component.

  \<^item> Prelude: words, error codes, \<open>kassert\<close>, the rounding macros, and lemmas all theories share.
  \<^item> Kernel_List (\<^verbatim>\<open>libs/list.h\<close>): the circular lists on a store; \<open>klist\<close> relates a head to
    the sequence it stands for, and every operation is an operation on that sequence.
  \<^item> Skew_Heap (\<^verbatim>\<open>libs/skew_heap.h\<close>): heaps of linked nodes; \<open>merge\<close> on pointers is a merge of
    trees, with heap order for every total preorder and the elements as a multiset.
  \<^item> Proc_State, Sched_Class, Sched, Sched_Policy (\<^verbatim>\<open>kern/schedule\<close>): processes and run queues,
    the two classes behind one locale, \<^verbatim>\<open>schedule\<close>, \<^verbatim>\<open>wakeup_proc\<close> and timers,
    and what each class makes of \<^verbatim>\<open>schedule\<close>.
  \<^item> Sync (\<^verbatim>\<open>kern/sync/wait.c\<close>, \<^verbatim>\<open>sem.c\<close>): wait queues and semaphores, with a step relation
    over all interleavings of their calls, both halves of a blocked \<^verbatim>\<open>down\<close> included; which process is
    inside one is a history variable of the relation.
  \<^item> Philosophers, Monitor (\<^verbatim>\<open>kern/sync/check_sync.c\<close>, \<^verbatim>\<open>monitor.c\<close>): the dining philosophers with
    semaphores and with a monitor, as threads whose actions interleave.
  \<^item> Proc_Table, Proc, Proc_Exit (\<^verbatim>\<open>kern/process/proc.c\<close>): pids, hash table and family links;
    fork, exit, wait, kill; the processes at start-up.
  \<^item> Pmm (\<^verbatim>\<open>kern/mm/default_pmm.c\<close>, lab 2's \<^verbatim>\<open>best_fit_pmm.c\<close>): free lists of page blocks and the
    retry loop of \<^verbatim>\<open>alloc_pages\<close>.
  \<^item> Kmalloc (\<^verbatim>\<open>kern/mm/kmalloc.c\<close>): the allocator of small objects, a circular list of free blocks
    over pages of the first-fit allocator, and the list of large blocks.
  \<^item> Mmu, Paging, Page_Supply, Address_Space (\<^verbatim>\<open>kern/mm/mmu.h\<close>, \<^verbatim>\<open>pmm.c\<close>): addresses and entries,
    the walk through three levels of tables in memory, what a page supply has to promise (a locale), and
    the address space that a set of tables stands for. Its invariant \<open>mm_inv\<close> counts the mappings of
    the user half only: the kernel half, filled by \<^verbatim>\<open>boot_map_segment\<close> and copied by
    \<^verbatim>\<open>setup_pgdir\<close>, leads to all pages uncounted, and both keep the invariant (lemmas
    \<open>boot_map_pages_inv\<close> and \<open>setup_pgdir_inv\<close>).
  \<^item> Swap, Vmm, Page_Fault (\<^verbatim>\<open>kern/mm/swap*.c\<close>, \<^verbatim>\<open>vmm.c\<close>, \<^verbatim>\<open>kern/driver\<close>): the RAM disk, the FIFO
    and clock managers, areas, and \<^verbatim>\<open>do_pgfault\<close>.
  \<^item> C_String, Printf (\<^verbatim>\<open>libs/string.c\<close>, \<^verbatim>\<open>printfmt.c\<close>, \<^verbatim>\<open>rand.c\<close>): strings in a byte memory.
  \<^item> Iobuf, File_Table (\<^verbatim>\<open>kern/fs/iobuf.c\<close>, \<^verbatim>\<open>file.c\<close>, \<^verbatim>\<open>fs.c\<close>, \<^verbatim>\<open>vfs/inode.c\<close>, \<^verbatim>\<open>vfs/vfsfile.c\<close>):
    transfers, inode counts and the table of open files, over a file system given by its operations.
  \<^item> Bitmap, Sfs, Sfs_Blocks, Sfs_File, Sfs_Data, Sfs_Trunc, Disk0 (\<^verbatim>\<open>kern/fs/sfs\<close>,
    \<^verbatim>\<open>devs/dev_disk0.c\<close>): free blocks, the blocks of a file and its bytes over any block device (a
    locale), and the disk of the kernel as such a device.
  \<^item> Sfs_Node, Sfs_Dir, Sfs_Mount (\<^verbatim>\<open>sfs_inode.c\<close>, \<^verbatim>\<open>sfs_fs.c\<close>): loaded inodes, directories, the
    operation tables, mounting and writing back; Sfs_Cache: the invariant of the inode table and what
    each operation does to references; Sfs_Lookup, Sfs_Remount, Sfs_Volume: directories as maps, the
    images on disk, and the properties of a volume; Sfs_Dirty: every change of the superblock or of the
    map of free blocks marks the volume dirty.
  \<^item> Vfs (\<^verbatim>\<open>kern/fs/vfs/vfsdev.c\<close>, \<^verbatim>\<open>vfslookup.c\<close>, \<^verbatim>\<open>vfspath.c\<close>, \<^verbatim>\<open>vfs.c\<close>): the table of devices,
    paths, the current and the boot directory over mounted volumes; Vfs_Refs, Vfs_Volume: its runs, with
    the references that callers hold.
  \<^item> Console (\<^verbatim>\<open>kern/fs/devs\<close>): the device files, the keyboard between the interrupt handler and
    its readers, the screen; Sysfile (\<^verbatim>\<open>kern/fs/sysfile.c\<close>): the file system calls.

  Interfaces. Run queues (Sched_Class), heaps and their comparison (Skew_Heap), allocators (Pmm), page
  supplies (Page_Supply), free-block sets (Bitmap) and block devices (Sfs_Blocks) are locales; each is interpreted
  on the code's own operations, and the clients' lemmas are proved once inside the locale.

  What is shown, by group: functional behaviour of every operation on every branch, with the errors; the
  invariants of the tables and that every operation keeps them; refinements (heap to multiset, free
  list to page set, page tables to a partial function, bitmap to a set, blocks to a sequence of
  bytes); round trips (allocate and free, swap out and fault in, print and parse, addresses and
  entries); termination of the loops that could run on (pid search, page retry, unmapping); bounds
  (\<^verbatim>\<open>snprintf\<close>, the least stride in its window); the behaviour of threads interleaved on
  a semaphore, on a file table and on the keyboard; exact reference counts over all runs of the
  file systems; and the flaws found, stated as theorems where that is possible.

  Bounds and fuel. The stride window is \<open>BIG_STRIDE\<close>; files have at most 1036 blocks, what an inode
  can refer to; \<^verbatim>\<open>partial_function (option)\<close> is used for the pointer recursion of the
  skew heap, with termination proved on every well-formed heap; loops over lists recurse on the list,
  and loops of the code without a bound have the number of rounds as an argument together with a theorem
  on how many are enough.

  Not modelled. Assembly and the code that only touches hardware or firmware; the dispatch of traps and
  system calls, which takes arguments from registers and calls the functions modelled here; boot-time
  set-up of memory but for \<^verbatim>\<open>boot_map_segment\<close>; loading of programs (\<^verbatim>\<open>do_execve\<close>, \<^verbatim>\<open>load_icode\<close>); the kernel's own checks;
  locking inside functions that a semaphore makes atomic; the host tools, the shell and the test
  programs. The file system under the table of open files is an argument of its operations: the
  operations of a volume and of the devices are modelled on their own states, and Sysfile joins the
  table with the screen.
\<close>

end
